(* ===== verification/Prelude.thy ===== *)
theory Prelude
  imports Main "HOL-Library.Word" "HOL-Library.Monad_Syntax"
begin

text \<open>
  Shared vocabulary of the development: the machine integer types of the kernel's C code,
  the reading of C's undefined behaviour as \<^term>\<open>None\<close>, array and pointer accesses that
  check their bounds, counted loops with a proof rule, and the generic lemmas on lists and
  words that the component theories use.

  Convention: an operation whose C code can fail to return a defined result returns an
  \<open>option\<close>, and \<^term>\<open>None\<close> stands for that only: the code leaves the defined behaviour of
  the language (an access outside an object, a null dereference, a division by zero, signed
  overflow), halts the core in a failed \<open>ASSERT\<close>, or spins for ever on a lock that is held.
  Error codes and \<open>NULL\<close> results that the code handles are ordinary values inside
  \<^term>\<open>Some\<close>.
\<close>

unbundle bit_operations_syntax

type_synonym u8 = "8 word"
type_synonym u16 = "16 word"
type_synonym u32 = "32 word"
type_synonym u64 = "64 word"

named_theorems ub_simps \<open>evaluation of the checked accesses\<close>
named_theorems bits \<open>bit-level facts about the kernel's packed fields\<close>

section \<open>Checked accesses\<close>

text \<open>Reading and writing an array element; out of range is undefined behaviour.\<close>

definition rd :: "'a list \<Rightarrow> nat \<Rightarrow> 'a option" where
  "rd xs i = (if i < length xs then Some (xs ! i) else None)"

definition wr :: "'a list \<Rightarrow> nat \<Rightarrow> 'a \<Rightarrow> 'a list option" where
  "wr xs i v = (if i < length xs then Some (xs[i := v]) else None)"

text \<open>Dereferencing a pointer: \<open>NULL\<close> and a pointer to no live object are undefined behaviour.\<close>

definition deref :: "('a \<rightharpoonup> 'b) \<Rightarrow> 'a option \<Rightarrow> 'b option" where
  "deref m p = Option.bind p m"

lemma rd_in [simp, ub_simps]: "i < length xs \<Longrightarrow> rd xs i = Some (xs ! i)"
  by (simp add: rd_def)

lemma rd_out [simp]: "length xs \<le> i \<Longrightarrow> rd xs i = None"
  by (simp add: rd_def)

lemma rd_eq_Some: "rd xs i = Some v \<longleftrightarrow> i < length xs \<and> xs ! i = v"
  by (auto simp: rd_def)

lemma wr_in [simp, ub_simps]: "i < length xs \<Longrightarrow> wr xs i v = Some (xs[i := v])"
  by (simp add: wr_def)

lemma wr_out [simp]: "length xs \<le> i \<Longrightarrow> wr xs i v = None"
  by (simp add: wr_def)

lemma wr_eq_Some: "wr xs i v = Some ys \<longleftrightarrow> i < length xs \<and> ys = xs[i := v]"
  by (auto simp: wr_def)

lemma wr_length: "wr xs i v = Some ys \<Longrightarrow> length ys = length xs"
  by (auto simp: wr_eq_Some)

lemma deref_Null [simp, ub_simps]: "deref m None = None"
  by (simp add: deref_def)

lemma deref_Ref [simp, ub_simps]: "deref m (Some a) = m a"
  by (simp add: deref_def)

section \<open>Counted loops\<close>

text \<open>\<open>for (i = lo; i < hi; i++) body\<close>, where the body may reach undefined behaviour.\<close>

function for_loop :: "nat \<Rightarrow> nat \<Rightarrow> (nat \<Rightarrow> 's \<Rightarrow> 's option) \<Rightarrow> 's \<Rightarrow> 's option" where
  "for_loop i n body s =
     (if i < n then Option.bind (body i s) (for_loop (Suc i) n body) else Some s)"
  by pat_completeness auto
termination
  by (relation "measure (\<lambda>(i, n, body, s). n - i)") auto

declare for_loop.simps [simp del]

lemma for_loop_done [simp]: "n \<le> i \<Longrightarrow> for_loop i n body s = Some s"
  by (simp add: for_loop.simps)

lemma for_loop_step:
  "i < n \<Longrightarrow> for_loop i n body s = Option.bind (body i s) (for_loop (Suc i) n body)"
  by (simp add: for_loop.simps)

text \<open>
  The proof rule of the counted loop: an invariant indexed by the counter that the body keeps
  holds at the end, and the loop reaches the end without undefined behaviour.
\<close>

lemma for_loop_rule:
  assumes "lo \<le> hi" and "I lo s"
    and "\<And>i t. lo \<le> i \<Longrightarrow> i < hi \<Longrightarrow> I i t \<Longrightarrow> \<exists>t'. body i t = Some t' \<and> I (Suc i) t'"
  shows "\<exists>t. for_loop lo hi body s = Some t \<and> I hi t"
  using assms
proof (induction "hi - lo" arbitrary: lo s)
  case 0
  then show ?case by simp
next
  case (Suc k)
  then have lt: "lo < hi" by simp
  from Suc.prems(3) [OF order_refl lt Suc.prems(2)]
  obtain s' where s': "body lo s = Some s'" "I (Suc lo) s'" by blast
  have "\<exists>t. for_loop (Suc lo) hi body s' = Some t \<and> I hi t"
    using Suc.hyps(2) lt s'(2) Suc.prems(3) by (intro Suc.hyps(1)) auto
  with s'(1) lt show ?case by (simp add: for_loop_step)
qed

text \<open>A loop whose body is total is a fold.\<close>

lemma for_loop_total:
  "for_loop lo hi (\<lambda>i s. Some (f i s)) s = Some (fold f [lo..<hi] s)"
proof (induction "hi - lo" arbitrary: lo s)
  case 0
  then show ?case by simp
next
  case (Suc k)
  then show ?case by (simp add: for_loop_step upt_conv_Cons)
qed

section \<open>Lists\<close>

lemma take_Suc_snoc: "i < length xs \<Longrightarrow> take (Suc i) xs = take i xs @ [xs ! i]"
  by (rule take_Suc_conv_app_nth)

lemma drop_Cons_nth: "i < length xs \<Longrightarrow> drop i xs = xs ! i # drop (Suc i) xs"
  by (rule Cons_nth_drop_Suc [symmetric])

lemma drop_ConsD:
  assumes "drop i xs = y # ys"
  shows "i < length xs" "xs ! i = y" "drop (Suc i) xs = ys"
proof -
  show "i < length xs" using assms by (cases "i < length xs") auto
  then show "xs ! i = y" "drop (Suc i) xs = ys" using assms by (simp_all add: drop_Cons_nth)
qed

lemma takeWhile_shorter: "x \<in> set xs \<Longrightarrow> \<not> P x \<Longrightarrow> length (takeWhile P xs) < length xs"
  by (induction xs) auto

lemma find_append: "find P (xs @ ys) = (case find P xs of None \<Rightarrow> find P ys | Some x \<Rightarrow> Some x)"
  by (induction xs) auto

lemma nth_upd_other [simp]: "i \<noteq> j \<Longrightarrow> xs[i := v] ! j = xs ! j"
  by simp

text \<open>Overwriting a run of cells, the effect of a copy into an array.\<close>

definition overwrite :: "'a list \<Rightarrow> nat \<Rightarrow> 'a list \<Rightarrow> 'a list" where
  "overwrite xs i ys = take i xs @ ys @ drop (i + length ys) xs"

lemma overwrite_Nil [simp]: "overwrite xs i [] = xs"
  by (simp add: overwrite_def)

lemma length_overwrite [simp]:
  "i + length ys \<le> length xs \<Longrightarrow> length (overwrite xs i ys) = length xs"
  by (simp add: overwrite_def)

lemma overwrite_Cons:
  assumes "i < length xs"
  shows "overwrite (xs[i := y]) (Suc i) ys = overwrite xs i (y # ys)"
  using assms by (simp add: overwrite_def take_Suc_snoc take_update_swap list_update_append)

lemma overwrite_single [simp]: "i < length xs \<Longrightarrow> overwrite xs i [y] = xs[i := y]"
  by (simp add: overwrite_def upd_conv_take_nth_drop)

lemma nth_overwrite:
  assumes "i + length ys \<le> length xs" "k < length xs"
  shows "overwrite xs i ys ! k = (if i \<le> k \<and> k < i + length ys then ys ! (k - i) else xs ! k)"
  using assms by (auto simp: overwrite_def nth_append)

lemma drop_overwrite:
  "i + length ys \<le> length xs \<Longrightarrow> drop i (overwrite xs i ys) = ys @ drop (i + length ys) xs"
  by (simp add: overwrite_def)

lemma take_overwrite: "i \<le> length xs \<Longrightarrow> take i (overwrite xs i ys) = take i xs"
  by (simp add: overwrite_def)

section \<open>C's signed int\<close>

text \<open>An \<open>int\<close> result outside 32 bits is signed overflow, which is undefined behaviour.\<close>

definition c_int :: "int \<Rightarrow> int option" where
  "c_int i = (if - (2 ^ 31) \<le> i \<and> i < 2 ^ 31 then Some i else None)"

lemma c_int_in [simp, ub_simps]: "- (2 ^ 31) \<le> i \<Longrightarrow> i < 2 ^ 31 \<Longrightarrow> c_int i = Some i"
  by (simp add: c_int_def)

section \<open>Words\<close>

lemma unat_bound: "unat (w :: 'a::len word) < 2 ^ LENGTH('a)"
  by (rule unsigned_less)

lemma unat_Suc_less:
  fixes i n :: "'a::len word"
  assumes "i < n"
  shows "unat (i + 1) = Suc (unat i)"
proof -
  from assms have "unat i < unat n" by (simp add: word_less_nat_alt)
  with unat_bound [of n] have "Suc (unat i) < 2 ^ LENGTH('a)" by linarith
  then show ?thesis by (simp add: unat_word_ariths)
qed

lemma unat_diff_Suc_less:
  fixes i n :: "'a::len word"
  assumes "i < n"
  shows "unat (n - (i + 1)) < unat (n - i)"
proof -
  from assms have s: "unat (i + 1) = Suc (unat i)" by (rule unat_Suc_less)
  from assms have lt: "unat i < unat n" by (simp add: word_less_nat_alt)
  with s have "i + 1 \<le> n" by (simp add: word_le_nat_alt)
  then have "unat (n - (i + 1)) = unat n - Suc (unat i)"
    using s by (simp add: unat_sub)
  moreover have "unat (n - i) = unat n - unat i"
    using assms by (simp add: unat_sub)
  ultimately show ?thesis using lt by simp
qed

lemma unat_of_nat_small: "n < 2 ^ 64 \<Longrightarrow> unat (of_nat n :: u64) = n"
  by (simp add: unat_of_nat take_bit_eq_mod)

lemma mod_shift_inj:
  fixes a i j m :: nat
  assumes "(a + i) mod m = (a + j) mod m" "i < m" "j < m"
  shows "i = j"
proof -
  have "\<not> x < y" if "(a + x) mod m = (a + y) mod m" "y < m" for x y
  proof
    assume lt: "x < y"
    then have "m dvd y - x" using that(1) mod_eq_dvd_iff_nat [of "a + x" "a + y" m] by simp
    then show False using nat_dvd_not_less [of "y - x" m] lt that(2) by simp
  qed
  from this [OF assms(1,3)] this [OF assms(1) [symmetric] assms(2)] show ?thesis by simp
qed

section \<open>Rounding up\<close>

lemma ceil_div:
  fixes x c :: nat
  assumes "0 < c"
  shows "(x + (c - 1)) div c = (if x div c * c < x then Suc (x div c) else x div c)"
proof -
  define q r where "q = x div c" and "r = x mod c"
  have x: "x = q * c + r" and r: "r < c" using assms by (simp_all add: q_def r_def)
  have d: "(k * c + t) div c = k" if "t < c" for k t using that by simp
  show ?thesis
  proof (cases "r = 0")
    case True
    then have "(x + (c - 1)) div c = q" using x d [of "c - 1" q] assms by simp
    with True x q_def show ?thesis by simp
  next
    case False
    then have "x + (c - 1) = Suc q * c + (r - 1)" using x r by simp
    then have "(x + (c - 1)) div c = Suc q" using d [of "r - 1" "Suc q"] r by simp
    with False x q_def show ?thesis by (metis less_add_same_cancel1 neq0_conv)
  qed
qed

section \<open>Loops over addresses\<close>

text \<open>
  \<open>for (x = lo; x < hi; x += step) body\<close> on 64-bit words, for a step that is a power of two.
  When \<open>x + step\<close> wraps around below \<open>hi\<close>, every value the counter still takes is below
  \<open>hi\<close> again and the loop never ends.
\<close>

function word_loop :: "u64 \<Rightarrow> u64 \<Rightarrow> u64 \<Rightarrow> (u64 \<Rightarrow> 's \<Rightarrow> 's option) \<Rightarrow> 's \<Rightarrow> 's option" where
  "word_loop x hi step body s =
     (if x < hi
      then Option.bind (body x s)
        (\<lambda>s'. if x + step \<le> x then None else word_loop (x + step) hi step body s')
      else Some s)"
  by pat_completeness auto
termination
proof (relation "measure (\<lambda>(x, hi, step, body, s). 2 ^ 64 - unat x)")
  fix x hi step :: u64 and body :: "u64 \<Rightarrow> 's \<Rightarrow> 's option" and s s' :: 's
  assume "\<not> x + step \<le> x"
  then have "unat x < unat (x + step)" by (simp add: word_le_nat_alt)
  with unat_bound [of "x + step"]
  show "((x + step, hi, step, body, s'), (x, hi, step, body, s))
      \<in> measure (\<lambda>(x, hi, step, body, s). 2 ^ 64 - unat x)" by simp
qed simp

declare word_loop.simps [simp del]

lemma unat_add_small:
  fixes a b :: "'a::len word"
  assumes "unat a + unat b < 2 ^ LENGTH('a)"
  shows "unat (a + b) = unat a + unat b"
  using assms by (simp add: unat_word_ariths)

lemma unat_mult_small:
  fixes a b :: "'a::len word"
  assumes "unat a * unat b < 2 ^ LENGTH('a)"
  shows "unat (a * b) = unat a * unat b"
  using assms by (simp add: unat_word_ariths)

text \<open>Without wrap-around the loop is the counted loop over its steps.\<close>

lemma word_loop_for_loop:
  assumes "unat lo + n * unat step < 2 ^ 64" "0 < unat step"
    and "unat hi \<le> unat lo + n * unat step" "n = 0 \<or> unat lo + (n - 1) * unat step < unat hi"
  shows "word_loop lo hi step body s = for_loop 0 n (\<lambda>i. body (lo + of_nat i * step)) s"
proof -
  have "word_loop (lo + of_nat i * step) hi step body s =
      for_loop i n (\<lambda>i. body (lo + of_nat i * step)) s" if "i \<le> n" for i s
    using that
  proof (induction "n - i" arbitrary: i s)
    case 0
    then have "i = n" by simp
    have "n \<le> n * unat step" using assms(2) by (cases "unat step") auto
    then have "n < 2 ^ 64" using assms(1) by linarith
    then have "unat (of_nat n :: u64) = n" by (simp add: unat_of_nat take_bit_eq_mod)
    then have "unat (lo + of_nat n * step) = unat lo + n * unat step"
      using assms(1) by (simp add: unat_add_small unat_mult_small)
    with assms(3) \<open>i = n\<close> show ?case by (simp add: word_loop.simps word_less_nat_alt)
  next
    case (Suc k)
    then have i: "i < n" by simp
    have le: "j * unat step \<le> n * unat step" if "j \<le> n" for j using that by simp
    have "n \<le> n * unat step" using assms(2) by (cases "unat step") auto
    then have n: "n < 2 ^ 64" using assms(1) by linarith
    have u: "unat (lo + of_nat j * step) = unat lo + j * unat step" if "j \<le> n" for j
    proof -
      have j: "unat (of_nat j :: u64) = j" using that n by (simp add: unat_of_nat take_bit_eq_mod)
      have b: "unat lo + j * unat step < 2 ^ 64" using le [OF that] assms(1) by linarith
      then have "unat (of_nat j * step) = j * unat step"
        using unat_mult_small [of "of_nat j :: u64" step] j by simp
      with b show ?thesis using unat_add_small [of lo "of_nat j * step"] by simp
    qed
    have "i * unat step \<le> (n - 1) * unat step" using i by (intro mult_le_mono1) simp
    then have lt: "lo + of_nat i * step < hi"
      unfolding word_less_nat_alt using assms(4) i u [of i] by linarith
    have nx: "lo + of_nat i * step + step = lo + of_nat (Suc i) * step" by (simp add: algebra_simps)
    have "\<not> lo + of_nat (Suc i) * step \<le> lo + of_nat i * step"
      unfolding word_le_nat_alt using u [of i] u [of "Suc i"] i assms(2) by simp
    then show ?case
      using Suc.hyps(1) [of "Suc i"] Suc.hyps(2) i lt
      by (simp add: word_loop.simps [of "lo + of_nat i * step"] for_loop_step nx del: of_nat_Suc)
  qed
  from this [of 0] show ?thesis by simp
qed

end
