(* ===== verification/Flibc_String.thy ===== *)
theory Flibc_String
  imports Prelude
begin

text \<open>
  The freestanding C library of \<open>src/flibc\<close>: \<open>ctype.c\<close>, \<open>stdlib.c\<close> and \<open>string.c\<close>.
  A char array is a list of bytes; a pointer into it is an index, and \<open>NULL\<close> is
  \<^term>\<open>None\<close> where the code tests for it. Each loop is a recursive function with the same
  reads and writes in the same order; leaving the array is undefined behaviour (\<^term>\<open>None\<close>).
  Plain \<open>char\<close> is signed on the target, so comparisons with \<open>int\<close> go through \<^const>\<open>sint\<close>.

  The lemmas relate every routine to the string a pointer denotes, \<open>cstring\<close>: the bytes up
  to the terminator. They are equations, so they also say exactly when a routine runs off
  the end of its array.
\<close>

type_synonym cbuf = "u8 list"

abbreviation bytes :: "string \<Rightarrow> u8 list" where
  "bytes s \<equiv> map of_char s"

section \<open>Definitions\<close>

subsection \<open>ctype.c and stdlib.c\<close>

definition is_digit :: "u8 \<Rightarrow> bool" where
  "is_digit c \<longleftrightarrow> sint c \<ge> 48 \<and> sint c \<le> 57"

function atoi_loop :: "cbuf \<Rightarrow> nat \<Rightarrow> int \<Rightarrow> int option" where
  "atoi_loop buf str num =
     (if str < length buf
      then let c = buf ! str in
        if c \<noteq> 0 \<and> (sint c \<ge> 48 \<and> sint c \<le> 57)
        then do {
          a \<leftarrow> c_int (num * 10);
          b \<leftarrow> c_int (a + sint c);
          num' \<leftarrow> c_int (b - 48);
          atoi_loop buf (Suc str) num' }
        else Some num
      else None)"
  by pat_completeness auto
termination
  by (relation "measure (\<lambda>(buf, str, num). length buf - str)") auto

definition atoi :: "cbuf \<Rightarrow> nat \<Rightarrow> int option" where
  "atoi buf str = do {
     c \<leftarrow> rd buf str;
     let sign = (if c = 45 then -1 else 1);
     let str' = (if c = 45 then Suc str else str);
     num \<leftarrow> atoi_loop buf str' 0;
     c_int (sign * num) }"

subsection \<open>string.c: number conversion\<close>

definition digits :: cbuf where
  "digits = bytes ''0123456789abcdefghijklmnopqrstuvwxyz''"

text \<open>
  The do-while loop of \<open>__utoa\<close>, the least significant digit first. The caller has checked
  that the base is at least two, which is what makes the value shrink.
\<close>

function utoa_loop :: "cbuf \<Rightarrow> nat \<Rightarrow> nat \<Rightarrow> u64 \<Rightarrow> u64 \<Rightarrow> (cbuf \<times> nat) option" where
  "utoa_loop buf str i value base = do {
     let remainder = value mod base;
     d \<leftarrow> rd digits (unat remainder);
     buf' \<leftarrow> wr buf (str + i) d;
     let value' = value div base;
     if value' \<noteq> 0 \<and> 2 \<le> base then utoa_loop buf' str (Suc i) value' base
     else Some (buf', Suc i) }"
  by pat_completeness auto
termination
proof (relation "measure (\<lambda>(buf, str, i, value, base). unat value)", goal_cases)
  case 1
  then show ?case by simp
next
  case (2 buf str i v b r d buf' v')
  then have b: "2 \<le> unat b" and v: "unat v div unat b \<noteq> 0"
    by (simp_all add: word_le_nat_alt unat_div flip: unat_eq_0)
  from v have "0 < unat v" by (cases "unat v") auto
  with b have "unat v div unat b < unat v" by simp
  with 2 show ?case by (simp add: unat_div)
qed

text \<open>The reversal loop: \<open>for (j = 0, i--; j < i; j++, i--)\<close>.\<close>

function utoa_reverse :: "cbuf \<Rightarrow> nat \<Rightarrow> nat \<Rightarrow> nat \<Rightarrow> cbuf option" where
  "utoa_reverse buf str j i =
     (if j < i then do {
        c \<leftarrow> rd buf (str + j);
        d \<leftarrow> rd buf (str + i);
        buf1 \<leftarrow> wr buf (str + j) d;
        buf2 \<leftarrow> wr buf1 (str + i) c;
        utoa_reverse buf2 str (Suc j) (i - 1) }
      else Some buf)"
  by pat_completeness auto
termination
  by (relation "measure (\<lambda>(buf, str, j, i). i - j)") auto

text \<open>The result: the array and whether the returned pointer is non-null.\<close>

definition utoa :: "u64 \<Rightarrow> cbuf \<Rightarrow> nat \<Rightarrow> int \<Rightarrow> (cbuf \<times> bool) option" where
  "utoa value buf str base =
     (if base < 2 \<or> base > 36 then do {
        buf' \<leftarrow> wr buf str 0;
        Some (buf', False) }
      else do {
        (buf1, i) \<leftarrow> utoa_loop buf str 0 value (of_int base);
        buf2 \<leftarrow> wr buf1 (str + i) 0;
        buf3 \<leftarrow> utoa_reverse buf2 str 0 (i - 1);
        Some (buf3, True) })"

text \<open>Negating the least \<open>int64_t\<close> overflows.\<close>

definition itoa :: "u64 \<Rightarrow> cbuf \<Rightarrow> nat \<Rightarrow> (cbuf \<times> bool) option" where
  "itoa value buf str =
     (if sint value < 0
      then if sint value = - (2 ^ 63) then None
        else do {
          buf' \<leftarrow> wr buf str 45;
          utoa (- value) buf' (Suc str) 10 }
      else utoa value buf str 10)"

subsection \<open>string.c: scanning\<close>

function strlen_loop :: "cbuf \<Rightarrow> nat \<Rightarrow> nat option" where
  "strlen_loop buf str =
     (if str < length buf
      then if buf ! str \<noteq> 0 then strlen_loop buf (Suc str) else Some str
      else None)"
  by pat_completeness auto
termination
  by (relation "measure (\<lambda>(buf, str). length buf - str)") auto

definition strlen :: "cbuf \<Rightarrow> nat \<Rightarrow> nat option" where
  "strlen buf str = do {
     e \<leftarrow> strlen_loop buf str;
     Some (e - str) }"

text \<open>The inner option of the result is the returned pointer.\<close>

function strchr :: "cbuf \<Rightarrow> nat \<Rightarrow> int \<Rightarrow> nat option option" where
  "strchr buf str c =
     (if str < length buf
      then if buf ! str \<noteq> 0 \<and> sint (buf ! str) \<noteq> c then strchr buf (Suc str) c
        else Some (if sint (buf ! str) = c then Some str else None)
      else None)"
  by pat_completeness auto
termination
  by (relation "measure (\<lambda>(buf, str, c). length buf - str)") auto

function strcspn_loop :: "cbuf \<Rightarrow> nat \<Rightarrow> cbuf \<Rightarrow> nat \<Rightarrow> nat \<Rightarrow> nat option" where
  "strcspn_loop buf1 str1 buf2 str2 len =
     (if str1 < length buf1
      then if buf1 ! str1 \<noteq> 0
        then case strchr buf2 str2 (sint (buf1 ! str1)) of
            None \<Rightarrow> None
          | Some (Some _) \<Rightarrow> Some len
          | Some None \<Rightarrow> strcspn_loop buf1 (Suc str1) buf2 str2 (Suc len)
        else Some len
      else None)"
  by pat_completeness auto
termination
  by (relation "measure (\<lambda>(buf1, str1, buf2, str2, len). length buf1 - str1)") auto

definition strcspn :: "cbuf \<Rightarrow> nat option \<Rightarrow> cbuf \<Rightarrow> nat option \<Rightarrow> nat option" where
  "strcspn buf1 str1 buf2 str2 =
     (case (str1, str2) of
        (Some p, Some q) \<Rightarrow> strcspn_loop buf1 p buf2 q 0
      | _ \<Rightarrow> Some 0)"

function strspn_loop :: "cbuf \<Rightarrow> nat \<Rightarrow> cbuf \<Rightarrow> nat \<Rightarrow> nat \<Rightarrow> nat option" where
  "strspn_loop buf1 str1 buf2 str2 len =
     (if str1 < length buf1
      then if buf1 ! str1 \<noteq> 0
        then case strchr buf2 str2 (sint (buf1 ! str1)) of
            None \<Rightarrow> None
          | Some None \<Rightarrow> Some len
          | Some (Some _) \<Rightarrow> strspn_loop buf1 (Suc str1) buf2 str2 (Suc len)
        else Some len
      else None)"
  by pat_completeness auto
termination
  by (relation "measure (\<lambda>(buf1, str1, buf2, str2, len). length buf1 - str1)") auto

definition strspn :: "cbuf \<Rightarrow> nat option \<Rightarrow> cbuf \<Rightarrow> nat option \<Rightarrow> nat option" where
  "strspn buf1 str1 buf2 str2 =
     (case (str1, str2) of
        (Some p, Some q) \<Rightarrow> strspn_loop buf1 p buf2 q 0
      | _ \<Rightarrow> Some 0)"

text \<open>The difference of the first two bytes that differ, as a \<open>size_t\<close>.\<close>

fun strncmp :: "cbuf \<Rightarrow> nat \<Rightarrow> cbuf \<Rightarrow> nat \<Rightarrow> nat \<Rightarrow> u64 option" where
  "strncmp buf1 str1 buf2 str2 0 = Some 0"
| "strncmp buf1 str1 buf2 str2 (Suc n) = do {
     c \<leftarrow> rd buf1 str1;
     d \<leftarrow> rd buf2 str2;
     if c \<noteq> d then Some (of_int (sint c - sint d))
     else strncmp buf1 (Suc str1) buf2 (Suc str2) n }"

subsection \<open>string.c: copying\<close>

function strcat_loop :: "cbuf \<Rightarrow> nat \<Rightarrow> cbuf \<Rightarrow> nat \<Rightarrow> cbuf option" where
  "strcat_loop dest base buf src =
     (if src < length buf
      then if buf ! src \<noteq> 0
        then do {
          dest' \<leftarrow> wr dest base (buf ! src);
          strcat_loop dest' (Suc base) buf (Suc src) }
        else wr dest base 0
      else None)"
  by pat_completeness auto
termination
  by (relation "measure (\<lambda>(dest, base, buf, src). length buf - src)") auto

definition strcat :: "cbuf \<Rightarrow> nat \<Rightarrow> cbuf \<Rightarrow> nat \<Rightarrow> cbuf option" where
  "strcat dest d buf src = do {
     l \<leftarrow> strlen dest d;
     strcat_loop dest (d + l) buf src }"

function strncpy_loop :: "cbuf \<Rightarrow> nat \<Rightarrow> cbuf \<Rightarrow> nat \<Rightarrow> nat \<Rightarrow> cbuf option" where
  "strncpy_loop dest d buf src n =
     (if src < length buf
      then if buf ! src \<noteq> 0 \<and> n \<noteq> 0
        then do {
          dest' \<leftarrow> wr dest d (buf ! src);
          strncpy_loop dest' (Suc d) buf (Suc src) (n - 1) }
        else wr dest d 0
      else None)"
  by pat_completeness auto
termination
  by (relation "measure (\<lambda>(dest, d, buf, src, n). length buf - src)") auto

definition strncpy :: "cbuf \<Rightarrow> nat option \<Rightarrow> cbuf \<Rightarrow> nat \<Rightarrow> nat \<Rightarrow> (cbuf \<times> nat option) option" where
  "strncpy dest d buf src n =
     (case d of
        None \<Rightarrow> Some (dest, None)
      | Some start \<Rightarrow> do {
          dest' \<leftarrow> strncpy_loop dest start buf src n;
          Some (dest', Some start) })"

fun memset :: "cbuf \<Rightarrow> nat \<Rightarrow> u8 \<Rightarrow> nat \<Rightarrow> cbuf option" where
  "memset buf ptr val 0 = Some buf"
| "memset buf ptr val (Suc len) = do {
     buf' \<leftarrow> wr buf ptr val;
     memset buf' (Suc ptr) val len }"

fun memcpy :: "cbuf \<Rightarrow> nat \<Rightarrow> cbuf \<Rightarrow> nat \<Rightarrow> nat \<Rightarrow> cbuf option" where
  "memcpy dest d buf src 0 = Some dest"
| "memcpy dest d buf src (Suc n) = do {
     c \<leftarrow> rd buf src;
     dest' \<leftarrow> wr dest d c;
     memcpy dest' (Suc d) buf (Suc src) n }"

fun memcmp :: "cbuf \<Rightarrow> nat \<Rightarrow> cbuf \<Rightarrow> nat \<Rightarrow> nat \<Rightarrow> int option" where
  "memcmp buf1 str1 buf2 str2 0 = Some 0"
| "memcmp buf1 str1 buf2 str2 (Suc n) = do {
     c \<leftarrow> rd buf1 str1;
     d \<leftarrow> rd buf2 str2;
     if c \<noteq> d then Some (if sint c < sint d then -1 else 1)
     else memcmp buf1 (Suc str1) buf2 (Suc str2) n }"

subsection \<open>string.c: tokens\<close>

text \<open>
  The result of both tokenisers: the array (a delimiter was overwritten by the terminator),
  the token, and the position saved for the next call (\<open>__strtok\<close>'s static variable,
  \<open>__strtok_r\<close>'s \<open>old_ptr\<close>).
\<close>

definition strtok :: "cbuf \<Rightarrow> nat option \<Rightarrow> cbuf \<Rightarrow> nat option \<Rightarrow>
    (cbuf \<times> nat option \<times> nat option) option" where
  "strtok buf str del old_str =
     (case (case str of Some p \<Rightarrow> Some p | None \<Rightarrow> old_str) of
        None \<Rightarrow> Some (buf, None, None)
      | Some p \<Rightarrow> do {
          n \<leftarrow> strspn buf (Some p) del (Some 0);
          let tok = p + n;
          c \<leftarrow> rd buf tok;
          if c = 0 then Some (buf, None, None)
          else do {
            m \<leftarrow> strcspn buf (Some tok) del (Some 0);
            let e = tok + m;
            d \<leftarrow> rd buf e;
            if d = 0 then Some (buf, Some tok, None)
            else do {
              buf' \<leftarrow> wr buf e 0;
              Some (buf', Some tok, Some (Suc e)) } } })"

definition strtok_r :: "cbuf \<Rightarrow> nat option \<Rightarrow> cbuf \<Rightarrow> nat \<Rightarrow>
    (cbuf \<times> nat option \<times> nat) option" where
  "strtok_r buf str del old_ptr = do {
     let p = (case str of None \<Rightarrow> old_ptr | Some q \<Rightarrow> q);
     c \<leftarrow> rd buf p;
     if c = 0 then Some (buf, None, p)
     else do {
       n \<leftarrow> strspn buf (Some p) del (Some 0);
       let tok = p + n;
       d \<leftarrow> rd buf tok;
       if d = 0 then Some (buf, None, tok)
       else do {
         m \<leftarrow> strcspn buf (Some tok) del (Some 0);
         let e = tok + m;
         f \<leftarrow> rd buf e;
         if f = 0 then Some (buf, Some tok, e)
         else do {
           buf' \<leftarrow> wr buf e 0;
           Some (buf', Some tok, Suc e) } } } }"

declare atoi_loop.simps [simp del] utoa_loop.simps [simp del] utoa_reverse.simps [simp del]
  strlen_loop.simps [simp del] strchr.simps [simp del] strcspn_loop.simps [simp del]
  strspn_loop.simps [simp del] strcat_loop.simps [simp del] strncpy_loop.simps [simp del]

section \<open>The string a pointer denotes\<close>

definition cstring :: "cbuf \<Rightarrow> nat \<Rightarrow> u8 list option" where
  "cstring buf p =
     (if 0 \<in> set (drop p buf) then Some (takeWhile (\<lambda>c. c \<noteq> 0) (drop p buf)) else None)"

text \<open>The tokens of a string: the maximal runs of bytes that are not delimiters.\<close>

function tokens :: "u8 set \<Rightarrow> u8 list \<Rightarrow> u8 list list" where
  "tokens D s =
     (case dropWhile (\<lambda>c. c \<in> D) s of
        [] \<Rightarrow> []
      | c # cs \<Rightarrow> (c # takeWhile (\<lambda>c. c \<notin> D) cs) # tokens D (dropWhile (\<lambda>c. c \<notin> D) cs))"
  by pat_completeness auto
termination
proof (relation "measure (\<lambda>(D, s). length s)", goal_cases)
  case 1
  then show ?case by simp
next
  case (2 D s c cs)
  have "length (dropWhile (\<lambda>c. c \<notin> D) cs) \<le> length cs"
    by (rule length_dropWhile_le)
  also have "\<dots> < length (dropWhile (\<lambda>c. c \<in> D) s)" using 2 by simp
  also have "\<dots> \<le> length s" by (rule length_dropWhile_le)
  finally show ?case by simp
qed

declare tokens.simps [simp del]

text \<open>The digits of a number, the least significant first.\<close>

function lsd :: "nat \<Rightarrow> nat \<Rightarrow> nat list" where
  "lsd b n = (n mod b) # (if n div b \<noteq> 0 \<and> 2 \<le> b then lsd b (n div b) else [])"
  by pat_completeness auto
termination
  by (relation "measure snd") (auto intro!: div_less_dividend intro: gr0I)

declare lsd.simps [simp del]

subsection \<open>Scanning\<close>

lemma cstring_out [simp]: "length buf \<le> p \<Longrightarrow> cstring buf p = None"
  by (simp add: cstring_def)

lemma cstring_step:
  "p < length buf \<Longrightarrow>
   cstring buf p =
     (if buf ! p = 0 then Some [] else map_option ((#) (buf ! p)) (cstring buf (Suc p)))"
  by (auto simp: cstring_def drop_Cons_nth)

lemma cstring_Some_bound: "cstring buf p = Some s \<Longrightarrow> p + length s < length buf"
proof (induction s arbitrary: p)
  case Nil
  then show ?case by (cases "p < length buf") auto
next
  case (Cons c s)
  then have p: "p < length buf" by (cases "p < length buf") auto
  with Cons.prems have "cstring buf (Suc p) = Some s"
    by (auto simp: cstring_step split: if_splits)
  from Cons.IH [OF this] show ?case by simp
qed

lemma cstring_SomeD:
  assumes "cstring buf p = Some s"
  shows "p + length s < length buf" "take (length s) (drop p buf) = s"
    "buf ! (p + length s) = 0" "0 \<notin> set s"
proof -
  let ?t = "drop p buf"
  from assms have s: "s = takeWhile (\<lambda>c. c \<noteq> 0) ?t" and z: "0 \<in> set ?t"
    by (auto simp: cstring_def split: if_splits)
  from z have lt: "length s < length ?t"
    unfolding s by (intro takeWhile_shorter) simp_all
  show "p + length s < length buf" using lt by simp
  show "take (length s) ?t = s" unfolding s by (rule takeWhile_eq_take [symmetric])
  have "?t ! length s = 0" using nth_length_takeWhile [OF lt [unfolded s]] s by simp
  then show "buf ! (p + length s) = 0" using lt by simp
  show "0 \<notin> set s" unfolding s by (auto dest: set_takeWhileD)
qed

lemma cstring_I:
  assumes "drop p buf = s @ 0 # rest" and "0 \<notin> set s"
  shows "cstring buf p = Some s"
  using assms by (auto simp: cstring_def takeWhile_append)

lemma strlen_loop_eq: "strlen_loop buf p = map_option (\<lambda>s. p + length s) (cstring buf p)"
proof (induction buf p rule: strlen_loop.induct)
  case (1 buf p)
  then show ?case
    by (cases "p < length buf")
      (auto simp: strlen_loop.simps [of buf p] cstring_step option.map_comp comp_def)
qed

lemma strlen_eq: "strlen buf p = map_option length (cstring buf p)"
  by (cases "cstring buf p") (auto simp: strlen_def strlen_loop_eq)

lemma sint_eq_iff [simp]: "sint (a :: u8) = sint b \<longleftrightarrow> a = b"
  by (metis signed_word_eqI)

text \<open>On a terminated string, \<open>strchr\<close> decides membership.\<close>

lemma strchr_cstring:
  assumes "cstring del q = Some ds" and "c \<noteq> 0"
  shows "strchr del q (sint c) = Some None \<longleftrightarrow> c \<notin> set ds"
    and "(\<exists>r. strchr del q (sint c) = Some (Some r)) \<longleftrightarrow> c \<in> set ds"
proof -
  have "strchr del q (sint c) =
      Some (if c \<in> set ds then Some (q + length (takeWhile (\<lambda>x. x \<noteq> c) ds)) else None)"
    using assms(1)
  proof (induction ds arbitrary: q)
    case Nil
    then show ?case
      using assms(2) by (cases "q < length del")
        (auto simp: cstring_step strchr.simps [of del q] split: if_splits)
  next
    case (Cons d ds)
    then have q: "q < length del" by (cases "q < length del") auto
    with Cons.prems have d: "del ! q = d" "d \<noteq> 0" "cstring del (Suc q) = Some ds"
      by (auto simp: cstring_step split: if_splits)
    with Cons.IH [OF d(3)] q show ?case by (auto simp: strchr.simps [of del q])
  qed
  then show "strchr del q (sint c) = Some None \<longleftrightarrow> c \<notin> set ds"
    and "(\<exists>r. strchr del q (sint c) = Some (Some r)) \<longleftrightarrow> c \<in> set ds" by auto
qed

lemma strspn_loop_eq:
  assumes "cstring del q = Some ds" and "cstring buf p = Some s"
  shows "strspn_loop buf p del q len = Some (len + length (takeWhile (\<lambda>c. c \<in> set ds) s))"
  using assms(2)
proof (induction s arbitrary: p len)
  case Nil
  then show ?case
    by (cases "p < length buf") (auto simp: cstring_step strspn_loop.simps [of buf p] split: if_splits)
next
  case (Cons c s)
  then have p: "p < length buf" by (cases "p < length buf") auto
  with Cons.prems have c: "buf ! p = c" "c \<noteq> 0" "cstring buf (Suc p) = Some s"
    by (auto simp: cstring_step split: if_splits)
  note m = strchr_cstring [OF assms(1) c(2)]
  show ?case
  proof (cases "c \<in> set ds")
    case True
    with m(2) obtain r where "strchr del q (sint c) = Some (Some r)" by blast
    with True c p Cons.IH [OF c(3)] show ?thesis by (simp add: strspn_loop.simps [of buf p])
  next
    case False
    with m(1) c p show ?thesis by (simp add: strspn_loop.simps [of buf p])
  qed
qed

lemma strcspn_loop_eq:
  assumes "cstring del q = Some ds" and "cstring buf p = Some s"
  shows "strcspn_loop buf p del q len = Some (len + length (takeWhile (\<lambda>c. c \<notin> set ds) s))"
  using assms(2)
proof (induction s arbitrary: p len)
  case Nil
  then show ?case
    by (cases "p < length buf") (auto simp: cstring_step strcspn_loop.simps [of buf p] split: if_splits)
next
  case (Cons c s)
  then have p: "p < length buf" by (cases "p < length buf") auto
  with Cons.prems have c: "buf ! p = c" "c \<noteq> 0" "cstring buf (Suc p) = Some s"
    by (auto simp: cstring_step split: if_splits)
  note m = strchr_cstring [OF assms(1) c(2)]
  show ?case
  proof (cases "c \<in> set ds")
    case True
    with m(2) obtain r where "strchr del q (sint c) = Some (Some r)" by blast
    with True c p show ?thesis by (simp add: strcspn_loop.simps [of buf p])
  next
    case False
    with m(1) c p Cons.IH [OF c(3)] show ?thesis by (simp add: strcspn_loop.simps [of buf p])
  qed
qed

lemma strspn_eq:
  assumes "cstring del q = Some ds" and "cstring buf p = Some s"
  shows "strspn buf (Some p) del (Some q) = Some (length (takeWhile (\<lambda>c. c \<in> set ds) s))"
  by (simp add: strspn_def strspn_loop_eq [OF assms])

lemma strcspn_eq:
  assumes "cstring del q = Some ds" and "cstring buf p = Some s"
  shows "strcspn buf (Some p) del (Some q) = Some (length (takeWhile (\<lambda>c. c \<notin> set ds) s))"
  by (simp add: strcspn_def strcspn_loop_eq [OF assms])

lemmas span_eqs = strspn_eq strcspn_eq

subsection \<open>Copying\<close>

lemma memcpy_eq:
  "memcpy dest d buf src n =
     (if n = 0 \<or> d + n \<le> length dest \<and> src + n \<le> length buf
      then Some (overwrite dest d (take n (drop src buf))) else None)"
proof (induction n arbitrary: dest d src)
  case 0
  then show ?case by simp
next
  case (Suc n)
  show ?case
  proof (cases "d < length dest \<and> src < length buf")
    case True
    then show ?thesis
      by (auto simp: Suc overwrite_Cons drop_Cons_nth)
  next
    case False
    then show ?thesis by (auto simp: rd_def wr_def)
  qed
qed

lemma memset_eq:
  "memset buf p v n =
     (if n = 0 \<or> p + n \<le> length buf then Some (overwrite buf p (replicate n v)) else None)"
proof (induction n arbitrary: buf p)
  case 0
  then show ?case by simp
next
  case (Suc n)
  show ?case
    by (cases "p < length buf") (auto simp: Suc overwrite_Cons)
qed

lemma strcat_loop_eq:
  assumes "cstring buf src = Some s"
  shows "strcat_loop dest base buf src =
    (if base + length s < length dest then Some (overwrite dest base (s @ [0])) else None)"
  using assms
proof (induction s arbitrary: dest base src)
  case Nil
  then show ?case
    by (cases "src < length buf")
      (auto simp: cstring_step strcat_loop.simps [of dest base] wr_def split: if_splits)
next
  case (Cons c s)
  then have p: "src < length buf" by (cases "src < length buf") auto
  with Cons.prems have c: "buf ! src = c" "c \<noteq> 0" "cstring buf (Suc src) = Some s"
    by (auto simp: cstring_step split: if_splits)
  then show ?case
    using p Cons.IH [OF c(3)]
    by (cases "base < length dest") (simp_all add: strcat_loop.simps [of dest base] overwrite_Cons)
qed

text \<open>
  \<open>__strncpy\<close> copies at most \<open>n\<close> bytes and always adds the terminator, so it writes one
  byte more than the C library's function of that name.
\<close>

lemma strncpy_loop_eq:
  assumes "cstring buf src = Some s"
  shows "strncpy_loop dest d buf src n =
    (if d + min n (length s) < length dest
     then Some (overwrite dest d (take n s @ [0])) else None)"
  using assms
proof (induction s arbitrary: dest d src n)
  case Nil
  then show ?case
    by (cases "src < length buf")
      (auto simp: cstring_step strncpy_loop.simps [of dest d] wr_def split: if_splits)
next
  case (Cons c s)
  then have p: "src < length buf" by (cases "src < length buf") auto
  with Cons.prems have c: "buf ! src = c" "c \<noteq> 0" "cstring buf (Suc src) = Some s"
    by (auto simp: cstring_step split: if_splits)
  then show ?case
    using p Cons.IH [OF c(3)]
    by (cases n; cases "d < length dest")
      (simp_all add: strncpy_loop.simps [of dest d] overwrite_Cons)
qed

lemma cstring_overwrite:
  assumes "d + length s < length dest" "0 \<notin> set s"
  shows "cstring (overwrite dest d (s @ [0])) d = Some s"
  using assms by (intro cstring_I [where rest = "drop (d + length s + 1) dest"])
    (simp_all add: drop_overwrite)

subsection \<open>Comparison\<close>

lemma strncmp_zero_iff:
  assumes "p + n \<le> length a" "q + n \<le> length b"
  shows "strncmp a p b q n = Some 0 \<longleftrightarrow> take n (drop p a) = take n (drop q b)"
    and "\<exists>r. strncmp a p b q n = Some r"
  using assms
proof (induction n arbitrary: p q)
  case 0
  {
    case 1
    show ?case by simp
  next
    case 2
    show ?case by simp
  }
next
  case (Suc n)
  have ne: "(of_int (sint c - sint d) :: u64) \<noteq> 0" if "c \<noteq> d" for c d :: u8
  proof
    assume z: "(of_int (sint c - sint d) :: u64) = 0"
    have "\<bar>sint c - sint d\<bar> < 2 ^ 64"
      using sint_ge [of c] sint_lt [of c] sint_ge [of d] sint_lt [of d] by simp
    moreover from z have "(2 ^ 64 :: int) dvd sint c - sint d"
      by (simp only: word_of_int_eq_0_iff) simp
    moreover from that have "sint c - sint d \<noteq> 0" by simp
    ultimately show False using dvd_imp_le_int [of "sint c - sint d" "2 ^ 64"] by simp
  qed
  {
    case 1
    with ne Suc.IH(1) [of "Suc p" "Suc q"] show ?case
      by (auto simp: drop_Cons_nth simp del: of_int_diff)
  next
    case 2
    with Suc.IH(2) [of "Suc p" "Suc q"] show ?case by auto
  }
qed

subsection \<open>Tokens\<close>

lemma cstring_decomp:
  assumes "cstring buf p = Some s"
  obtains rest where "drop p buf = s @ 0 # rest" "0 \<notin> set s"
proof -
  note d = cstring_SomeD [OF assms]
  have "drop p buf = take (length s) (drop p buf) @ drop (length s) (drop p buf)"
    by (rule append_take_drop_id [symmetric])
  also have "\<dots> = s @ 0 # drop (Suc (p + length s)) buf"
    using d(1-3) by (simp add: add.commute drop_Cons_nth [of "p + length s"])
  finally show thesis using d(4) that by blast
qed

lemma cstring_suffix: "cstring buf p = Some (x @ y) \<Longrightarrow> cstring buf (p + length x) = Some y"
  by (erule cstring_decomp, rule cstring_I)
    (auto simp: add.commute [of p] simp flip: drop_drop)

lemma cstring_cut:
  assumes "cstring buf p = Some (x @ d # y)"
  shows "cstring (buf[p + length x := 0]) p = Some x"
    and "cstring (buf[p + length x := 0]) (Suc (p + length x)) = Some y"
proof -
  obtain rest where d: "drop p buf = x @ d # y @ 0 # rest" "0 \<notin> set (x @ d # y)"
    using cstring_decomp [OF assms] by auto
  have p: "p \<le> length buf" using cstring_SomeD(1) [OF assms] by simp
  have "drop p (buf[p + length x := 0]) = (drop p buf)[length x := 0]"
    using p by (simp add: drop_update_swap)
  then have e: "drop p (buf[p + length x := 0]) = x @ 0 # y @ 0 # rest"
    by (simp add: d(1))
  then show "cstring (buf[p + length x := 0]) p = Some x"
    using d(2) by (intro cstring_I) auto
  have "drop (Suc (p + length x)) (buf[p + length x := 0]) =
      drop (Suc (length x)) (drop p (buf[p + length x := 0]))"
    by (simp add: add.commute)
  then show "cstring (buf[p + length x := 0]) (Suc (p + length x)) = Some y"
    using d(2) by (intro cstring_I) (auto simp: e)
qed

lemma tokens_Nil_iff: "tokens D s = [] \<longleftrightarrow> set s \<subseteq> D"
proof -
  have "tokens D s = [] \<longleftrightarrow> dropWhile (\<lambda>c. c \<in> D) s = []"
    by (cases "dropWhile (\<lambda>c. c \<in> D) s") (simp_all only: tokens.simps [of D s] list.case list.distinct refl)
  then show ?thesis by (auto simp: dropWhile_eq_Nil_conv)
qed

lemma tokens_delim: "d \<in> D \<Longrightarrow> tokens D (d # s) = tokens D s"
  by (simp add: tokens.simps [of D "d # s"] tokens.simps [of D s])

lemma tokens_Cons_split:
  assumes "tokens D s = t # ts"
  obtains pre rest where "s = pre @ t @ rest" "set pre \<subseteq> D" "t \<noteq> []" "set t \<inter> D = {}"
    "rest = [] \<and> ts = [] \<or> (\<exists>d r. rest = d # r \<and> d \<in> D \<and> ts = tokens D r)"
proof -
  from assms obtain c cs where dw: "dropWhile (\<lambda>c. c \<in> D) s = c # cs"
    and t: "t = c # takeWhile (\<lambda>c. c \<notin> D) cs"
    and ts: "ts = tokens D (dropWhile (\<lambda>c. c \<notin> D) cs)"
    by (subst (asm) tokens.simps) (auto split: list.splits)
  let ?pre = "takeWhile (\<lambda>c. c \<in> D) s" and ?rest = "dropWhile (\<lambda>c. c \<notin> D) cs"
  have cD: "c \<notin> D" using dw by (auto simp: dropWhile_eq_Cons_conv)
  have "s = ?pre @ dropWhile (\<lambda>c. c \<in> D) s" by simp
  then have s: "s = ?pre @ t @ ?rest" by (simp only: dw t) simp
  have r: "?rest = [] \<and> ts = [] \<or> (\<exists>d r. ?rest = d # r \<and> d \<in> D \<and> ts = tokens D r)"
  proof (cases ?rest)
    case Nil
    then show ?thesis by (simp only: ts tokens_Nil_iff) simp
  next
    case (Cons d r)
    then have "d \<in> D" by (auto simp: dropWhile_eq_Cons_conv)
    with Cons show ?thesis by (simp add: ts tokens_delim)
  qed
  show thesis
    by (rule that [OF s _ _ _ r]) (use cD in \<open>auto simp: t dest: set_takeWhileD\<close>)
qed

text \<open>The span lengths on the pieces of a split string.\<close>

lemma takeWhile_split:
  assumes "set pre \<subseteq> D" "t \<noteq> []" "set t \<inter> D = {}" "rest = [] \<or> hd rest \<in> D"
  shows "takeWhile (\<lambda>c. c \<in> D) (pre @ t @ rest) = pre"
    and "takeWhile (\<lambda>c. c \<notin> D) (t @ rest) = t"
proof -
  show "takeWhile (\<lambda>c. c \<in> D) (pre @ t @ rest) = pre"
    using assms by (cases t) (auto simp: takeWhile_append)
  show "takeWhile (\<lambda>c. c \<notin> D) (t @ rest) = t"
    using assms by (cases rest) (auto simp: takeWhile_append takeWhile_eq_all_conv)
qed

lemma strtok_r_none:
  assumes s: "cstring buf p = Some s" and ds: "cstring del 0 = Some ds"
    and str: "(case str of None \<Rightarrow> old | Some q \<Rightarrow> q) = p"
    and none: "tokens (set ds) s = []"
  shows "strtok_r buf str del old = Some (buf, None, p + length s)"
proof -
  note d = cstring_SomeD [OF s]
  from none have "takeWhile (\<lambda>c. c \<in> set ds) s = s"
    by (auto simp: tokens_Nil_iff takeWhile_eq_all_conv)
  then have sn: "strspn buf (Some p) del (Some 0) = Some (length s)"
    by (simp only: span_eqs [OF ds s])
  have "s = []" if "buf ! p = 0"
    using that s d(1) by (auto simp: cstring_step)
  then show ?thesis
    unfolding strtok_r_def Let_def str using d sn by auto
qed

text \<open>
  One call of \<open>__strtok_r\<close> returns the first token and leaves the remaining string denoting
  the remaining tokens; the saved position moves forward.
\<close>

lemma strtok_r_token:
  assumes s: "cstring buf p = Some s" and ds: "cstring del 0 = Some ds"
    and str: "(case str of None \<Rightarrow> old | Some q \<Rightarrow> q) = p"
    and tok: "tokens (set ds) s = t # ts"
  shows "\<exists>buf' tok p' s'. strtok_r buf str del old = Some (buf', Some tok, p') \<and>
    length buf' = length buf \<and> cstring buf' tok = Some t \<and> cstring buf' p' = Some s' \<and>
    tokens (set ds) s' = ts \<and> p < p' \<and> p' < length buf"
proof -
  note d = cstring_SomeD [OF s]
  obtain pre rest where sp: "s = pre @ t @ rest" "set pre \<subseteq> set ds" "t \<noteq> []" "set t \<inter> set ds = {}"
    and r: "rest = [] \<and> ts = [] \<or> (\<exists>d r. rest = d # r \<and> d \<in> set ds \<and> ts = tokens (set ds) r)"
    by (rule tokens_Cons_split [OF tok])
  have "rest = [] \<or> hd rest \<in> set ds" using r by auto
  note tw = takeWhile_split [OF sp(2-4) this]
  let ?tok = "p + length pre" and ?e = "p + length pre + length t"
  have nz: "buf ! p \<noteq> 0"
    using s d(1) sp(1,3) by (auto simp: cstring_step)
  have ct: "cstring buf ?tok = Some (t @ rest)"
    using s by (intro cstring_suffix) (simp add: sp(1))
  then have cr: "cstring buf ?e = Some rest"
    by (rule cstring_suffix)
  have nt: "buf ! ?tok \<noteq> 0"
    using ct cstring_SomeD(1) [OF ct] sp(3) by (auto simp: cstring_step)
  have sn: "strspn buf (Some p) del (Some 0) = Some (length pre)"
    by (simp add: span_eqs [OF ds s]) (simp add: sp(1) tw(1))
  have cn: "strcspn buf (Some ?tok) del (Some 0) = Some (length t)"
    by (simp add: span_eqs [OF ds ct] tw(2))
  have b: "p < length buf" "?tok < length buf" "?e < length buf"
    using cstring_SomeD(1) [OF s] cstring_SomeD(1) [OF ct] cstring_SomeD(1) [OF cr]
    by (simp_all only: add_lessD1)
  show ?thesis
  proof (cases rest)
    case Nil
    then have "buf ! ?e = 0" using cr b(3) by (auto simp: cstring_step split: if_splits)
    with Nil r b nz nt sn cn str ct cr sp(3) show ?thesis
      by (simp add: strtok_r_def Let_def tokens_Nil_iff)
  next
    case (Cons x y)
    then have "buf ! ?e \<noteq> 0" using cr b(3) by (auto simp: cstring_step split: if_splits)
    moreover note cut = cstring_cut [OF ct [unfolded Cons]]
    moreover have "Suc ?e < length buf" using cstring_SomeD(1) [OF cr] Cons by simp
    ultimately show ?thesis
      using Cons r b nz nt sn cn str by (simp add: strtok_r_def Let_def)
  qed
qed

subsection \<open>Numbers\<close>

lemma lsd_less: "0 < b \<Longrightarrow> d \<in> set (lsd b n) \<Longrightarrow> d < b"
  by (induction b n rule: lsd.induct) (subst (asm) lsd.simps, auto split: if_splits)

lemma lsd_nonempty [simp]: "lsd b n \<noteq> []"
  by (subst lsd.simps) simp

text \<open>The digits denote the number.\<close>

lemma lsd_value: "2 \<le> b \<Longrightarrow> foldr (\<lambda>d a. a * b + d) (lsd b n) 0 = n"
proof (induction b n rule: lsd.induct)
  case (1 b n)
  then show ?case
    by (cases "n div b = 0") (auto simp: lsd.simps [of b n] mult.commute div_eq_0_iff)
qed

lemma utoa_loop_eq:
  assumes "2 \<le> unat base" "unat base \<le> 36"
  shows "utoa_loop buf str i v base =
    (let ds = map (\<lambda>d. digits ! d) (lsd (unat base) (unat v))
     in if str + i + length ds \<le> length buf
        then Some (overwrite buf (str + i) ds, i + length ds) else None)"
  using assms
proof (induction buf str i v base rule: utoa_loop.induct)
  case (1 buf str i v b)
  have len: "length digits = 36" by (simp add: digits_def)
  have m: "unat (v mod b) = unat v mod unat b" and q: "unat (v div b) = unat v div unat b"
    by (simp_all add: unat_mod unat_div)
  have "unat v mod unat b < unat b" using "1.prems" by (intro mod_less_divisor) simp
  with "1.prems" have "unat v mod unat b < 36" by linarith
  then have rdd: "rd digits (unat (v mod b)) = Some (digits ! (unat v mod unat b))"
    by (simp add: len m)
  have b2: "2 \<le> b" using "1.prems" by (simp add: word_le_nat_alt)
  have z: "v div b = 0 \<longleftrightarrow> unat v div unat b = 0"
    by (metis q unat_0_iff)
  show ?case
  proof (cases "str + i < length buf")
    case False
    then show ?thesis
      by (simp add: utoa_loop.simps [of buf] rdd lsd.simps [of "unat b" "unat v"] Let_def)
  next
    case True
    let ?buf = "buf[str + i := digits ! (unat v mod unat b)]"
    have w: "wr buf (str + i) (digits ! (unat v mod unat b)) = Some ?buf" using True by simp
    show ?thesis
    proof (cases "v div b = 0")
      case True
      with z \<open>str + i < length buf\<close> show ?thesis
        by (simp add: utoa_loop.simps [of buf] rdd w lsd.simps [of "unat b" "unat v"] Let_def)
    next
      case False
      note IH = "1.IH" [OF refl rdd w refl _ "1.prems"]
      from False b2 z IH True "1.prems" show ?thesis
        by (simp add: utoa_loop.simps [of buf] rdd w lsd.simps [of "unat b" "unat v"] Let_def
          overwrite_Cons q)
    qed
  qed
qed

lemma utoa_reverse_eq:
  assumes "j \<le> Suc i" "str + i < length buf"
  shows "utoa_reverse buf str j i =
    Some (overwrite buf (str + j) (rev (take (Suc i - j) (drop (str + j) buf))))"
  using assms
proof (induction buf str j i rule: utoa_reverse.induct)
  case (1 buf str j i)
  show ?case
  proof (cases "j < i")
    case False
    with "1.prems" have "j = i \<or> j = Suc i" by auto
    then show ?thesis
      using "1.prems" by (auto simp: utoa_reverse.simps [of buf] take_Suc_conv_app_nth)
  next
    case True
    let ?a = "buf ! (str + j)" and ?z = "buf ! (str + i)"
    let ?buf = "buf[str + j := ?z, str + i := ?a]"
    have l: "str + j < length buf" "str + i < length buf" using True "1.prems" by auto
    have step: "utoa_reverse buf str j i = utoa_reverse ?buf str (Suc j) (i - 1)"
      using True l by (simp add: utoa_reverse.simps [of buf str j i])
    have "utoa_reverse ?buf str (Suc j) (i - 1) =
        Some (overwrite ?buf (str + Suc j) (rev (take (i - Suc j) (drop (str + Suc j) ?buf))))"
      using "1.IH" [OF True, of ?a ?z "buf[str + j := ?z]" ?buf] True l by simp
    moreover have "overwrite ?buf (str + Suc j) (rev (take (i - Suc j) (drop (str + Suc j) ?buf))) =
        overwrite buf (str + j) (rev (take (Suc i - j) (drop (str + j) buf)))"
    proof (rule nth_equalityI)
      fix k
      assume "k < length (overwrite ?buf (str + Suc j) (rev (take (i - Suc j) (drop (str + Suc j) ?buf))))"
      then have "k < length buf" using True l by simp
      then show "overwrite ?buf (str + Suc j) (rev (take (i - Suc j) (drop (str + Suc j) ?buf))) ! k =
          overwrite buf (str + j) (rev (take (Suc i - j) (drop (str + j) buf))) ! k"
        using True l
        by (auto simp: nth_overwrite rev_nth nth_list_update intro!: arg_cong [where f = "(!) buf"])
    qed (use True l in simp)
    ultimately show ?thesis using step by simp
  qed
qed

text \<open>The digit string of a value: the most significant digit first.\<close>

definition udigits :: "nat \<Rightarrow> nat \<Rightarrow> u8 list" where
  "udigits b n = map (\<lambda>d. digits ! d) (rev (lsd b n))"

lemma utoa_eq:
  assumes "2 \<le> base" "base \<le> 36"
  shows "utoa v buf str base =
    (if str + length (udigits (nat base) (unat v)) < length buf
     then Some (overwrite buf str (udigits (nat base) (unat v) @ [0]), True) else None)"
proof -
  have b: "unat (of_int base :: u64) = nat base"
  proof -
    obtain n where n: "base = int n" using assms by (metis nonneg_int_cases order_trans zero_le_numeral)
    with assms have "n < 2 ^ 64" by simp
    with n show ?thesis by (simp add: unat_of_nat)
  qed
  let ?ds = "map (\<lambda>d. digits ! d) (lsd (nat base) (unat v))"
  have ne: "?ds \<noteq> []" by simp
  have lp: "utoa_loop buf str 0 v (of_int base) =
      (if str + length ?ds \<le> length buf then Some (overwrite buf str ?ds, length ?ds) else None)"
    using assms by (subst utoa_loop_eq) (simp_all add: b Let_def)
  show ?thesis
  proof (cases "str + length ?ds < length buf")
    case False
    then show ?thesis
      using assms by (auto simp: utoa_def lp udigits_def split: if_splits)
  next
    case True
    let ?b = "(overwrite buf str ?ds)[str + length ?ds := 0]"
    have rv: "utoa_reverse ?b str 0 (length ?ds - 1) =
        Some (overwrite ?b str (rev (take (length ?ds) (drop str ?b))))"
      using True ne by (subst utoa_reverse_eq) (auto simp: Suc_diff_1)
    have tk: "take (length ?ds) (drop str ?b) = ?ds"
      using True by (simp add: drop_update_swap drop_overwrite)
    have "overwrite ?b str (rev ?ds) = overwrite buf str (rev ?ds @ [0])"
      using True by (intro nth_equalityI) (auto simp: nth_overwrite nth_list_update nth_append)
    with True assms rv tk show ?thesis
      by (simp add: utoa_def lp udigits_def rev_map)
  qed
qed

lemma digit_byte: "d < 10 \<Longrightarrow> sint (digits ! d) = 48 + int d"
  by (auto simp: numeral_eq_Suc less_Suc_eq digits_def)

lemma digit_nonzero: "d < 36 \<Longrightarrow> digits ! d \<noteq> 0"
proof -
  assume "d < 36"
  then have "digits ! d \<in> set digits" by (intro nth_mem) (simp add: digits_def)
  then show ?thesis by (auto simp: digits_def)
qed

lemma udigits_nonzero: "2 \<le> b \<Longrightarrow> b \<le> 36 \<Longrightarrow> 0 \<notin> set (udigits b n)"
  using lsd_less [of b _ n] digit_nonzero by (fastforce simp: udigits_def)

lemma foldl_decimal_ge:
  "0 \<le> a \<Longrightarrow> a \<le> foldl (\<lambda>a d. a * 10 + int d) a ms"
proof (induction ms arbitrary: a)
  case (Cons d ms)
  then have "a * 10 + int d \<le> foldl (\<lambda>a d. a * 10 + int d) (a * 10 + int d) ms" by simp
  with Cons.prems show ?case by simp
qed simp

lemma foldl_decimal_int:
  "foldl (\<lambda>a d. a * 10 + int d) (int n) ms = int (foldl (\<lambda>a d. a * 10 + d) n ms)"
proof (induction ms arbitrary: n)
  case (Cons d ms)
  from Cons [of "n * 10 + d"] show ?case by simp
qed simp

text \<open>Reading decimal digits: the 48 of the bound is the intermediate \<open>num * 10 + *str\<close>.\<close>

lemma atoi_loop_digits:
  assumes "drop p buf = map (\<lambda>d. digits ! d) ms @ c # rest" "\<not> is_digit c" "\<forall>d \<in> set ms. d < 10"
    and "0 \<le> num" "foldl (\<lambda>a d. a * 10 + int d) num ms + 48 < 2 ^ 31"
  shows "atoi_loop buf p num = Some (foldl (\<lambda>a d. a * 10 + int d) num ms)"
  using assms
proof (induction ms arbitrary: p num)
  case Nil
  then have "p < length buf" "buf ! p = c" by (simp_all add: drop_ConsD)
  then show ?case using Nil.prems(2) by (auto simp: atoi_loop.simps [of buf p] is_digit_def)
next
  case (Cons d ms)
  note dr = drop_ConsD [OF Cons.prems(1) [simplified]]
  note p = dr(1) and b = dr(2) and rest = dr(3)
  have d: "sint (digits ! d) = 48 + int d" "digits ! d \<noteq> 0" "d < 10"
    using digit_byte digit_nonzero Cons.prems(3) by auto
  have "num * 10 + int d \<le> foldl (\<lambda>a d. a * 10 + int d) (num * 10 + int d) ms"
    using Cons.prems(4) by (intro foldl_decimal_ge) simp
  with Cons.prems(4,5) have n: "num * 10 + int d + 48 < 2 ^ 31" by simp
  have "atoi_loop buf (Suc p) (num * 10 + int d) =
      Some (foldl (\<lambda>a d. a * 10 + int d) (num * 10 + int d) ms)"
    using Cons.prems by (intro Cons.IH [OF rest]) auto
  with p b d n Cons.prems(4) show ?case by (simp add: atoi_loop.simps [of buf p])
qed

lemma not_digit_0: "\<not> is_digit 0"
  unfolding is_digit_def by simp

lemma atoi_digits:
  assumes dr: "drop p buf = udigits 10 n @ c # rest" and c: "\<not> is_digit c" and n: "n + 48 < 2 ^ 31"
  shows "atoi buf p = Some (int n)"
proof -
  let ?ms = "rev (lsd 10 n)"
  have lt: "\<forall>d \<in> set ?ms. d < 10" using lsd_less [of 10] by auto
  have "foldl (\<lambda>a d. a * 10 + d) 0 ?ms = n"
    using lsd_value [of 10 n] by (simp add: foldl_conv_fold foldr_conv_fold)
  then have val: "foldl (\<lambda>a d. a * 10 + int d) 0 ?ms = int n" using foldl_decimal_int [of 0 ?ms] by simp
  have "int (n + 48) < int (2 ^ 31)" using n by (simp only: of_nat_less_iff)
  then have bnd: "int n + 48 < 2 ^ 31" by (simp only: of_nat_add of_nat_power of_nat_numeral)
  then have ci: "c_int (int n) = Some (int n)"
    by (intro c_int_in order_trans [OF _ of_nat_0_le_iff]) simp_all
  from bnd have loop: "atoi_loop buf p 0 = Some (int n)"
    using atoi_loop_digits [OF dr [unfolded udigits_def] c lt, of 0] by (simp only: val)
  obtain d ms where ms: "?ms = d # ms" by (cases ?ms) auto
  then have "d < 10" using lt by simp
  moreover have hd: "p < length buf" "buf ! p = digits ! d"
    using drop_ConsD [of p buf "digits ! d"] dr by (simp_all add: udigits_def ms)
  ultimately have "buf ! p \<noteq> 45" using digit_byte [of d] by auto
  with hd(1) loop ci show ?thesis by (simp add: atoi_def)
qed

section \<open>Properties\<close>

text \<open>
  C32: \<open>__strtok_r\<close> splits a string at its delimiters: as long as the string at the current
  position has a token left, a call returns a pointer to exactly the first token (the maximal
  run of bytes that are not delimiters) as a terminated string, stays inside the array, moves
  the saved position forward, and leaves there a string whose tokens are the remaining ones.
\<close>

theorem strtok_r_next_token:
  assumes "cstring buf p = Some s" and "cstring del 0 = Some ds"
    and "tokens (set ds) s = t # ts"
  shows "\<exists>buf' tok p' s'. strtok_r buf (Some p) del p = Some (buf', Some tok, p') \<and>
    length buf' = length buf \<and> cstring buf' tok = Some t \<and> cstring buf' p' = Some s' \<and>
    tokens (set ds) s' = ts \<and> p < p' \<and> p' < length buf"
  using assms by (intro strtok_r_token) simp_all

theorem strtok_r_next_token_witness:
  "\<exists>buf' tok p' s'.
    strtok_r (bytes ''/tmp/a'' @ [0]) (Some 0) (bytes ''/'' @ [0]) 0 = Some (buf', Some tok, p') \<and>
    length buf' = length (bytes ''/tmp/a'' @ [0 :: u8]) \<and>
    cstring buf' tok = Some (bytes ''tmp'') \<and> cstring buf' p' = Some s' \<and>
    tokens (set (bytes ''/'')) s' = [bytes ''a''] \<and> 0 < p' \<and> p' < length (bytes ''/tmp/a'' @ [0 :: u8])"
  by (rule strtok_r_next_token [of _ _ "bytes ''/tmp/a''"])
    (simp_all add: cstring_def tokens.simps)

text \<open>
  Printing and reading a number are inverse: \<open>__utoa\<close> writes the digits of the value in
  the given base, most significant first, with a terminator, and the digits denote the value;
  it writes nothing outside that run, and with no room for it the code leaves the array.
\<close>

lemma utoa_digits:
  assumes "2 \<le> base" and "base \<le> 36"
  shows "utoa v buf str base =
      (if str + length (udigits (nat base) (unat v)) < length buf
       then Some (overwrite buf str (udigits (nat base) (unat v) @ [0]), True) else None) \<and>
    (\<exists>ms. udigits (nat base) (unat v) = map (\<lambda>d. digits ! d) ms \<and> ms \<noteq> [] \<and>
      (\<forall>d \<in> set ms. int d < base) \<and> foldl (\<lambda>a d. a * nat base + d) 0 ms = unat v)"
proof
  show "utoa v buf str base =
      (if str + length (udigits (nat base) (unat v)) < length buf
       then Some (overwrite buf str (udigits (nat base) (unat v) @ [0]), True) else None)"
    using assms by (rule utoa_eq)
  let ?ms = "rev (lsd (nat base) (unat v))"
  have "foldl (\<lambda>a d. a * nat base + d) 0 ?ms = unat v"
    using lsd_value [of "nat base" "unat v"] assms by (simp add: foldl_conv_fold foldr_conv_fold)
  moreover have "\<forall>d \<in> set ?ms. int d < base"
    using lsd_less [of "nat base" _ "unat v"] assms by (simp add: zless_nat_eq_int_zless)
  ultimately show "\<exists>ms. udigits (nat base) (unat v) = map (\<lambda>d. digits ! d) ms \<and> ms \<noteq> [] \<and>
      (\<forall>d \<in> set ms. int d < base) \<and> foldl (\<lambda>a d. a * nat base + d) 0 ms = unat v"
    by (intro exI [of _ ?ms]) (simp add: udigits_def)
qed

text \<open>
  C33: \<open>__atoi\<close> reads back what \<open>__utoa\<close> wrote in base ten, for every value whose reading
  does not overflow an \<open>int\<close> on the way (the code forms \<open>num * 10 + *str\<close> before it
  subtracts the character code of the digit zero, hence the 48).
\<close>

theorem atoi_utoa:
  assumes "unat v + 48 < 2 ^ 31" and "str + length (udigits 10 (unat v)) < length buf"
  shows "\<exists>buf'. utoa v buf str 10 = Some (buf', True) \<and> atoi buf' str = Some (int (unat v))"
proof -
  let ?ds = "udigits 10 (unat v)"
  let ?buf = "overwrite buf str (?ds @ [0])"
  have "drop str ?buf = ?ds @ 0 # drop (str + length ?ds + 1) buf" using assms(2) by (simp add: drop_overwrite)
  then have "atoi ?buf str = Some (int (unat v))" using assms(1) not_digit_0 by (intro atoi_digits)
  with assms(2) show ?thesis by (simp add: utoa_eq)
qed

theorem atoi_utoa_witness:
  "\<exists>buf'. utoa 1024 (replicate 8 0) 2 10 = Some (buf', True) \<and> atoi buf' 2 = Some 1024"
  using atoi_utoa [of 1024 2 "replicate 8 0"] by (simp add: udigits_def lsd.simps)

end
