(* ===== verification/Fifo.thy ===== *)
theory Fifo
  imports Prelude "HOL-Library.Sublist"
begin

text \<open>
  The contract of the kernel's queues, stated once as a locale: the byte ring buffer, the
  keyboard and mouse packet queues and the scheduler's ready queue promise these laws and are
  interpretations of it in their own theories. The client lemmas (draining, and the history
  of any mix of insertions and removals) are proved here once.
\<close>

datatype 'a qop = Put 'a | Get

primrec get_n :: "('q \<Rightarrow> ('a option \<times> 'q) option) \<Rightarrow> nat \<Rightarrow> 'q \<Rightarrow> ('a list \<times> 'q) option" where
  "get_n get 0 q = Some ([], q)"
| "get_n get (Suc n) q = do {
     (x, q') \<leftarrow> get q;
     case x of
       None \<Rightarrow> Some ([], q')
     | Some a \<Rightarrow> do {
         (xs, q'') \<leftarrow> get_n get n q';
         Some (a # xs, q'') } }"

text \<open>A history of operations: the values that came out, and the final queue.\<close>

fun run_queue :: "('q \<Rightarrow> 'a \<Rightarrow> 'q option) \<Rightarrow> ('q \<Rightarrow> ('a option \<times> 'q) option) \<Rightarrow>
    'q \<Rightarrow> 'a qop list \<Rightarrow> ('a list \<times> 'q) option" where
  "run_queue put get q [] = Some ([], q)"
| "run_queue put get q (Put x # ops) = do {
     q' \<leftarrow> put q x;
     run_queue put get q' ops }"
| "run_queue put get q (Get # ops) = do {
     (x, q') \<leftarrow> get q;
     (xs, q'') \<leftarrow> run_queue put get q' ops;
     Some (case x of None \<Rightarrow> xs | Some a \<Rightarrow> a # xs, q'') }"

fun inputs :: "'a qop list \<Rightarrow> 'a list" where
  "inputs [] = []"
| "inputs (Put x # ops) = x # inputs ops"
| "inputs (Get # ops) = inputs ops"

locale fifo =
  fixes inv :: "'q \<Rightarrow> bool"
    and contents :: "'q \<Rightarrow> 'a list"
    and room :: "'q \<Rightarrow> 'a \<Rightarrow> bool"
    and put :: "'q \<Rightarrow> 'a \<Rightarrow> 'q option"
    and get :: "'q \<Rightarrow> ('a option \<times> 'q) option"
  assumes put_room: "inv q \<Longrightarrow> room q x \<Longrightarrow>
      \<exists>q'. put q x = Some q' \<and> inv q' \<and> contents q' = contents q @ [x]"
    and get_empty: "inv q \<Longrightarrow> contents q = [] \<Longrightarrow>
      \<exists>q'. get q = Some (None, q') \<and> inv q' \<and> contents q' = []"
    and get_first: "inv q \<Longrightarrow> contents q = x # xs \<Longrightarrow>
      \<exists>q'. get q = Some (Some x, q') \<and> inv q' \<and> contents q' = xs"
begin

lemma drain:
  assumes "inv q"
  shows "\<exists>q'. get_n get n q = Some (take n (contents q), q') \<and> inv q' \<and>
    contents q' = drop n (contents q)"
  using assms
proof (induction n arbitrary: q)
  case 0
  then show ?case by simp
next
  case (Suc n)
  show ?case
  proof (cases "contents q")
    case Nil
    from get_empty [OF Suc.prems Nil] Nil show ?thesis by auto
  next
    case (Cons x xs)
    from get_first [OF Suc.prems Cons] obtain q1
      where q1: "get q = Some (Some x, q1)" "inv q1" "contents q1 = xs" by blast
    from Suc.IH [OF q1(2)] q1 Cons show ?thesis by auto
  qed
qed

end

text \<open>A bounded queue drops what does not fit.\<close>

locale bounded_fifo = fifo +
  assumes put_full: "inv q \<Longrightarrow> \<not> room q x \<Longrightarrow>
      \<exists>q'. put q x = Some q' \<and> inv q' \<and> contents q' = contents q"
begin

text \<open>
  Every history runs; what came out, followed by what is still queued, is what was queued at
  the start followed by some of the inputs in their order: nothing is reordered, duplicated
  or invented.
\<close>

lemma history:
  assumes "inv q"
  shows "\<exists>outs q' ys. run_queue put get q ops = Some (outs, q') \<and> inv q' \<and>
    outs @ contents q' = contents q @ ys \<and> subseq ys (inputs ops)"
  using assms
proof (induction ops arbitrary: q)
  case Nil
  then show ?case by simp
next
  case (Cons oper ops)
  show ?case
  proof (cases oper)
    case (Put x)
    show ?thesis
    proof (cases "room q x")
      case True
      from put_room [OF Cons.prems True] obtain q1
        where q1: "put q x = Some q1" "inv q1" "contents q1 = contents q @ [x]" by blast
      from Cons.IH [OF q1(2)] obtain outs q' ys
        where h: "run_queue put get q1 ops = Some (outs, q')" "inv q'"
          "outs @ contents q' = contents q1 @ ys" "subseq ys (inputs ops)" by blast
      then have "outs @ contents q' = contents q @ (x # ys)" "subseq (x # ys) (inputs (oper # ops))"
        by (simp_all add: q1(3) Put)
      with h(1,2) q1(1) show ?thesis unfolding Put by (auto intro!: exI [of _ "x # ys"])
    next
      case False
      from put_full [OF Cons.prems False] obtain q1
        where q1: "put q x = Some q1" "inv q1" "contents q1 = contents q" by blast
      from Cons.IH [OF q1(2)] q1 show ?thesis unfolding Put by (fastforce intro: list_emb_Cons)
    qed
  next
    case Get
    show ?thesis
    proof (cases "contents q")
      case Nil
      from get_empty [OF Cons.prems Nil] obtain q1
        where q1: "get q = Some (None, q1)" "inv q1" "contents q1 = []" by blast
      from Cons.IH [OF q1(2)] q1 Nil show ?thesis unfolding Get by fastforce
    next
      case (Cons x xs)
      from get_first [OF Cons.prems(1) Cons] obtain q1
        where q1: "get q = Some (Some x, q1)" "inv q1" "contents q1 = xs" by blast
      from Cons.IH [OF q1(2)] q1 Cons show ?thesis unfolding Get by fastforce
    qed
  qed
qed

end

end
