(* ===== verification/Spinlock.thy ===== *)
theory Spinlock
  imports Prelude
begin

text \<open>
  \<open>src/kernel/arch/lock.h\<close>. A spinlock is a 64-bit word, 0 when free and 1 when held. For the
  sequential component models, acquiring a held lock is the endless spin (\<^term>\<open>None\<close>); a
  component whose operations start and end with the lock free therefore shows that it pairs
  its calls. The second half models the cores' interleaved compare-and-swap steps and proves
  mutual exclusion.
\<close>

type_synonym spinlock = u64

text \<open>\<open>__sync_bool_compare_and_swap(p, old, new)\<close>: the new value and whether it was stored.\<close>

definition compare_and_swap :: "spinlock \<Rightarrow> u64 \<Rightarrow> u64 \<Rightarrow> spinlock \<times> bool" where
  "compare_and_swap l old new = (if l = old then (new, True) else (l, False))"

definition spinlock_acquire :: "spinlock \<Rightarrow> spinlock option" where
  "spinlock_acquire l =
     (case compare_and_swap l 0 1 of (l', True) \<Rightarrow> Some l' | (_, False) \<Rightarrow> None)"

definition spinlock_release :: "spinlock \<Rightarrow> spinlock" where
  "spinlock_release l = fst (compare_and_swap l 1 0)"

lemma spinlock_acquire_free [simp]: "spinlock_acquire 0 = Some 1"
  by (simp add: spinlock_acquire_def compare_and_swap_def)

lemma spinlock_acquire_held [simp]: "spinlock_acquire 1 = None"
  by (simp add: spinlock_acquire_def compare_and_swap_def)

lemma spinlock_release_held [simp]: "spinlock_release 1 = 0"
  by (simp add: spinlock_release_def compare_and_swap_def)

lemma spinlock_acquire_eq: "spinlock_acquire l = (if l = 0 then Some 1 else None)"
  by (simp add: spinlock_acquire_def compare_and_swap_def)

section \<open>Interleaved cores\<close>

datatype core_pc = Outside | Spinning | Critical

record lock_system =
  the_lock :: spinlock
  core_pcs :: "nat \<Rightarrow> core_pc"

definition init_lock_system :: lock_system where
  "init_lock_system = \<lparr>the_lock = 0, core_pcs = (\<lambda>_. Outside)\<rparr>"

text \<open>
  One core moves: it calls \<open>spinlock_acquire\<close>, executes one compare-and-swap of its loop, which
  either succeeds and leaves the loop or fails and leaves the core in it, or it releases the lock it
  holds.
\<close>

inductive lock_step :: "lock_system \<Rightarrow> lock_system \<Rightarrow> bool" where
  call: "core_pcs s c = Outside \<Longrightarrow>
    lock_step s (s\<lparr>core_pcs := (core_pcs s)(c := Spinning)\<rparr>)"
| acquire: "core_pcs s c = Spinning \<Longrightarrow> spinlock_acquire (the_lock s) = Some l \<Longrightarrow>
    lock_step s (s\<lparr>the_lock := l, core_pcs := (core_pcs s)(c := Critical)\<rparr>)"
| spin: "core_pcs s c = Spinning \<Longrightarrow> spinlock_acquire (the_lock s) = None \<Longrightarrow> lock_step s s"
| release: "core_pcs s c = Critical \<Longrightarrow>
    lock_step s (s\<lparr>the_lock := spinlock_release (the_lock s),
      core_pcs := (core_pcs s)(c := Outside)\<rparr>)"

inductive lock_reachable :: "lock_system \<Rightarrow> bool" where
  init: "lock_reachable init_lock_system"
| step: "lock_reachable s \<Longrightarrow> lock_step s t \<Longrightarrow> lock_reachable t"

text \<open>The word agrees with the cores: free with no holder, or held by exactly one.\<close>

definition lock_inv :: "lock_system \<Rightarrow> bool" where
  "lock_inv s \<longleftrightarrow>
     (the_lock s = 0 \<and> (\<forall>c. core_pcs s c \<noteq> Critical)) \<or>
     (the_lock s = 1 \<and> (\<exists>c. \<forall>d. core_pcs s d = Critical \<longleftrightarrow> d = c))"

lemma lock_step_inv: "lock_step s t \<Longrightarrow> lock_inv s \<Longrightarrow> lock_inv t"
proof (induction rule: lock_step.induct)
  case (call s c)
  then show ?case by (auto simp: lock_inv_def) (metis core_pc.distinct(3))
next
  case (acquire s c l)
  then show ?case by (auto simp: lock_inv_def spinlock_acquire_eq split: if_splits)
next
  case (spin s c)
  then show ?case by simp
next
  case (release s c)
  then show ?case by (auto simp: lock_inv_def)
qed

lemma lock_reachable_inv: "lock_reachable s \<Longrightarrow> lock_inv s"
proof (induction rule: lock_reachable.induct)
  case init
  show ?case by (simp add: lock_inv_def init_lock_system_def)
next
  case (step s t)
  then show ?case by (blast intro: lock_step_inv)
qed

section \<open>Properties\<close>

text \<open>
  C9: mutual exclusion of the spinlock: in every state that the cores can reach by interleaving
  calls of \<open>spinlock_acquire\<close>, the compare-and-swap attempts of its loop and \<open>spinlock_release\<close>, at most
  one core is between the two; an attempt to acquire succeeds exactly when no core is, and after the
  holder has released the lock the next attempt succeeds.
\<close>

theorem spinlock_mutual_exclusion:
  assumes "lock_reachable s"
  shows "(core_pcs s c = Critical \<and> core_pcs s d = Critical \<longrightarrow> c = d) \<and>
    (spinlock_acquire (the_lock s) \<noteq> None \<longleftrightarrow> (\<forall>c. core_pcs s c \<noteq> Critical)) \<and>
    (core_pcs s c = Critical \<longrightarrow> spinlock_acquire (spinlock_release (the_lock s)) \<noteq> None)"
  using lock_reachable_inv [OF assms] by (auto simp: lock_inv_def)

theorem spinlock_mutual_exclusion_witness:
  "\<exists>s. lock_reachable s \<and> core_pcs s 1 = Critical \<and> core_pcs s 0 = Spinning \<and> spinlock_acquire (the_lock s) = None"
proof -
  let ?s0 = init_lock_system
  let ?s1 = "?s0\<lparr>core_pcs := (core_pcs ?s0)(0 := Spinning)\<rparr>"
  let ?s2 = "?s1\<lparr>core_pcs := (core_pcs ?s1)(1 := Spinning)\<rparr>"
  let ?s3 = "?s2\<lparr>the_lock := 1, core_pcs := (core_pcs ?s2)(1 := Critical)\<rparr>"
  have "lock_reachable ?s1"
    by (rule lock_reachable.step [OF lock_reachable.init], rule lock_step.call)
      (simp add: init_lock_system_def)
  then have "lock_reachable ?s2"
    by (rule lock_reachable.step, intro lock_step.call) (simp add: init_lock_system_def)
  then have r: "lock_reachable ?s3"
    by (rule lock_reachable.step, intro lock_step.acquire)
      (simp_all add: init_lock_system_def)
  have c: "core_pcs ?s3 1 = Critical" "core_pcs ?s3 0 = Spinning" by simp_all
  have "spinlock_acquire (the_lock ?s3) = None"
    using spinlock_mutual_exclusion [OF r, of 1 1] c(1) by blast
  with r c show ?thesis by (intro exI [of _ ?s3]) blast
qed

end
