(* ===== verification/Ringbuffer.thy ===== *)
theory Ringbuffer
  imports Fifo Spinlock Flibc_String
begin

text \<open>
  \<open>src/kernel/klib/ringbuffer.c\<close>: the byte ring that carries the data of a unix socket. The
  heads are free-running 64-bit counters that wrap around; an index is a head modulo the
  capacity. The lemmas show that the ring refines a bounded list of bytes for every capacity
  that divides \<open>2 ^ 64\<close> (the kernel's rings have \<open>0x2000\<close> bytes), also across the
  wrap-around of the counters, and interpret the queue contract on it.
\<close>

section \<open>Definitions\<close>

record ringbuffer =
  rb_lock :: spinlock
  rb_capacity :: u64
  read_head :: u64
  write_head :: u64
  rb_buff :: "cbuf option"

definition RINGBUFFER_OK :: int where "RINGBUFFER_OK = 1"
definition RINGBUFFER_ERR :: int where "RINGBUFFER_ERR = 0"

text \<open>The last argument is what \<open>kmalloc(ring->capacity)\<close> returned.\<close>

definition ringbuffer_alloc :: "ringbuffer \<Rightarrow> u64 \<Rightarrow> cbuf option \<Rightarrow> ringbuffer \<times> int" where
  "ringbuffer_alloc ring sz mem =
     (let ring = ring\<lparr>rb_lock := 0, rb_capacity := sz, write_head := 0, read_head := 0,
        rb_buff := mem\<rparr>
      in (ring, if rb_buff ring \<noteq> None then RINGBUFFER_OK else RINGBUFFER_ERR))"

text \<open>\<open>*(ring->buff + (head % ring->capacity))\<close>: the cell a head points at.\<close>

definition ring_cell :: "ringbuffer \<Rightarrow> u64 \<Rightarrow> nat option" where
  "ring_cell ring head =
     (if rb_capacity ring = 0 then None else Some (unat (head mod rb_capacity ring)))"

function ringbuffer_read_loop ::
    "ringbuffer \<Rightarrow> cbuf \<Rightarrow> nat \<Rightarrow> nat \<Rightarrow> (ringbuffer \<times> cbuf \<times> nat) option" where
  "ringbuffer_read_loop ring buff read_bytes len =
     (if read_bytes < len
      then if read_head ring = write_head ring then Some (ring, buff, read_bytes)
        else do {
          mem \<leftarrow> rb_buff ring;
          i \<leftarrow> ring_cell ring (read_head ring);
          c \<leftarrow> rd mem i;
          buff' \<leftarrow> wr buff read_bytes c;
          ringbuffer_read_loop (ring\<lparr>read_head := read_head ring + 1\<rparr>) buff' (Suc read_bytes) len }
      else Some (ring, buff, read_bytes))"
  by pat_completeness auto
termination
  by (relation "measure (\<lambda>(ring, buff, read_bytes, len). len - read_bytes)") auto

definition ringbuffer_read :: "ringbuffer \<Rightarrow> cbuf \<Rightarrow> u64 \<Rightarrow> (ringbuffer \<times> cbuf \<times> nat) option" where
  "ringbuffer_read ring buff len = do {
     l \<leftarrow> spinlock_acquire (rb_lock ring);
     (ring', buff', read_bytes) \<leftarrow>
       ringbuffer_read_loop (ring\<lparr>rb_lock := l\<rparr>) buff 0 (unat len);
     Some (ring'\<lparr>rb_lock := spinlock_release (rb_lock ring')\<rparr>, buff', read_bytes) }"

function ringbuffer_write_loop ::
    "ringbuffer \<Rightarrow> cbuf \<Rightarrow> nat \<Rightarrow> nat \<Rightarrow> (ringbuffer \<times> nat) option" where
  "ringbuffer_write_loop ring buff sent_bytes len =
     (if sent_bytes < len
      then if read_head ring + rb_capacity ring = write_head ring then Some (ring, sent_bytes)
        else do {
          mem \<leftarrow> rb_buff ring;
          i \<leftarrow> ring_cell ring (write_head ring);
          c \<leftarrow> rd buff sent_bytes;
          mem' \<leftarrow> wr mem i c;
          ringbuffer_write_loop
            (ring\<lparr>rb_buff := Some mem', write_head := write_head ring + 1\<rparr>)
            buff (Suc sent_bytes) len }
      else Some (ring, sent_bytes))"
  by pat_completeness auto
termination
  by (relation "measure (\<lambda>(ring, buff, sent_bytes, len). len - sent_bytes)") auto

definition ringbuffer_write :: "ringbuffer \<Rightarrow> cbuf \<Rightarrow> u64 \<Rightarrow> (ringbuffer \<times> nat) option" where
  "ringbuffer_write ring buff len = do {
     l \<leftarrow> spinlock_acquire (rb_lock ring);
     (ring', sent_bytes) \<leftarrow> ringbuffer_write_loop (ring\<lparr>rb_lock := l\<rparr>) buff 0 (unat len);
     Some (ring'\<lparr>rb_lock := spinlock_release (rb_lock ring')\<rparr>, sent_bytes) }"

definition ringbuffer_size :: "ringbuffer \<Rightarrow> (ringbuffer \<times> u64) option" where
  "ringbuffer_size ring = do {
     l \<leftarrow> spinlock_acquire (rb_lock ring);
     let sz = write_head ring - read_head ring;
     Some (ring\<lparr>rb_lock := spinlock_release l\<rparr>, sz) }"

definition ringbuffer_capacity :: "ringbuffer \<Rightarrow> (ringbuffer \<times> u64) option" where
  "ringbuffer_capacity ring = do {
     l \<leftarrow> spinlock_acquire (rb_lock ring);
     let capacity = rb_capacity ring;
     Some (ring\<lparr>rb_lock := spinlock_release l\<rparr>, capacity) }"

declare ringbuffer_read_loop.simps [simp del] ringbuffer_write_loop.simps [simp del]

section \<open>Abstraction and invariant\<close>

abbreviation ring_used :: "ringbuffer \<Rightarrow> nat" where
  "ring_used ring \<equiv> unat (write_head ring - read_head ring)"

abbreviation ring_cap :: "ringbuffer \<Rightarrow> nat" where
  "ring_cap ring \<equiv> unat (rb_capacity ring)"

text \<open>Everything but the lock, which the operations hold while they run.\<close>

definition ring_ok :: "ringbuffer \<Rightarrow> bool" where
  "ring_ok ring \<longleftrightarrow> 0 < ring_cap ring \<and> ring_cap ring dvd 2 ^ 64 \<and>
     ring_used ring \<le> ring_cap ring \<and>
     (case rb_buff ring of None \<Rightarrow> False | Some mem \<Rightarrow> ring_cap ring \<le> length mem)"

definition ring_inv :: "ringbuffer \<Rightarrow> bool" where
  "ring_inv ring \<longleftrightarrow> rb_lock ring = 0 \<and> ring_ok ring"

definition ring_at :: "ringbuffer \<Rightarrow> nat \<Rightarrow> nat" where
  "ring_at ring i = (unat (read_head ring) + i) mod ring_cap ring"

definition ring_contents :: "ringbuffer \<Rightarrow> u8 list" where
  "ring_contents ring =
     (case rb_buff ring of None \<Rightarrow> []
      | Some mem \<Rightarrow> map (\<lambda>i. mem ! ring_at ring i) [0..<ring_used ring])"

lemma length_ring_contents: "ring_ok ring \<Longrightarrow> length (ring_contents ring) = ring_used ring"
  by (auto simp: ring_contents_def ring_ok_def split: option.splits)

text \<open>A head modulo the capacity, when the head has run \<open>n\<close> steps ahead of another.\<close>

lemma unat_head_mod:
  fixes a b c :: u64
  assumes "unat c dvd 2 ^ 64"
  shows "unat (b mod c) = (unat a + unat (b - a)) mod unat c"
proof -
  have "unat b = unat (a + (b - a))" by simp
  also have "\<dots> = (unat a + unat (b - a)) mod 2 ^ 64"
    by (simp only: unat_word_ariths) simp
  finally show ?thesis using assms by (simp add: unat_mod mod_mod_cancel)
qed

lemma ring_at_neq:
  assumes "i < n" "n < i + c"
  shows "(a + i) mod c \<noteq> (a + n) mod (c :: nat)"
proof
  assume "(a + i) mod c = (a + n) mod c"
  then have "c dvd (a + n) - (a + i)" using assms by (metis add_le_cancel_left less_imp_le mod_eq_dvd_iff_nat)
  then have "c dvd n - i" by simp
  with assms show False by (auto dest!: dvd_imp_le)
qed

lemma unat_succ_diff:
  fixes a b c :: u64
  assumes "unat (b - a) < unat c"
  shows "unat (b + 1 - a) = Suc (unat (b - a))"
proof -
  have "b + 1 - a = (b - a) + 1" by simp
  moreover from assms have "b - a < c" by (simp add: word_less_nat_alt)
  ultimately show ?thesis by (simp only: unat_Suc_less)
qed

lemma unat_diff_succ:
  fixes a b :: u64
  assumes "a \<noteq> b"
  shows "unat (b - (a + 1)) = unat (b - a) - 1"
proof -
  have "b - (a + 1) = (b - a) - 1" by simp
  moreover have "b - a \<noteq> 0" using assms by simp
  ultimately show ?thesis by (metis unat_minus_one)
qed

lemma unat_head_succ_mod:
  fixes a c :: u64
  assumes "unat c dvd 2 ^ 64"
  shows "(unat (a + 1) + i) mod unat c = (unat a + Suc i) mod unat c"
proof -
  have e: "unat (a + 1) mod unat c = (unat a + 1) mod unat c"
    using assms by (simp only: unat_word_ariths) (simp add: mod_mod_cancel)
  have "(unat (a + 1) + i) mod unat c = (unat (a + 1) mod unat c + i) mod unat c"
    by (simp only: mod_add_left_eq)
  also have "\<dots> = (unat a + 1 + i) mod unat c" by (simp only: e mod_add_left_eq)
  finally show ?thesis by simp
qed

section \<open>One step of each loop\<close>

lemma write_cell:
  assumes "ring_ok ring" "rb_buff ring = Some mem"
  shows "ring_cell ring (write_head ring) = Some (ring_at ring (ring_used ring))"
    and "ring_at ring (ring_used ring) < length mem"
proof -
  from assms have c: "0 < ring_cap ring" "ring_cap ring dvd 2 ^ 64" "ring_cap ring \<le> length mem"
    by (simp_all add: ring_ok_def)
  from c(1) have "rb_capacity ring \<noteq> 0" by auto
  then show "ring_cell ring (write_head ring) = Some (ring_at ring (ring_used ring))"
    by (simp add: ring_cell_def ring_at_def unat_head_mod [OF c(2), of _ "read_head ring"])
  have "ring_at ring (ring_used ring) < ring_cap ring" using c(1) by (simp add: ring_at_def)
  with c(3) show "ring_at ring (ring_used ring) < length mem" by simp
qed

lemma read_cell:
  assumes "ring_ok ring" "rb_buff ring = Some mem"
  shows "ring_cell ring (read_head ring) = Some (ring_at ring 0)" and "ring_at ring 0 < length mem"
proof -
  from assms have c: "0 < ring_cap ring" "ring_cap ring dvd 2 ^ 64" "ring_cap ring \<le> length mem"
    by (simp_all add: ring_ok_def)
  from c(1) have "rb_capacity ring \<noteq> 0" by auto
  then show "ring_cell ring (read_head ring) = Some (ring_at ring 0)"
    by (simp add: ring_cell_def ring_at_def unat_mod)
  have "ring_at ring 0 < ring_cap ring" using c(1) by (simp add: ring_at_def)
  with c(3) show "ring_at ring 0 < length mem" by simp
qed

lemma unat_eq_unat_iff: "unat (a :: u64) = unat b \<longleftrightarrow> a = b"
  by (rule word_unat_eq_iff [symmetric])

lemma full_iff:
  "read_head ring + rb_capacity ring = write_head ring \<longleftrightarrow> ring_used ring = ring_cap ring"
  unfolding unat_eq_unat_iff by (auto simp: algebra_simps)

lemma empty_iff: "read_head ring = write_head ring \<longleftrightarrow> ring_used ring = 0"
  by (auto simp: unat_eq_0)

text \<open>Writing a byte where the write head points appends it.\<close>

lemma ring_store:
  fixes x :: u8
  assumes ok: "ring_ok ring" and mem: "rb_buff ring = Some mem"
    and free: "ring_used ring < ring_cap ring"
  defines "ring' \<equiv> ring\<lparr>rb_buff := Some (mem[ring_at ring (ring_used ring) := x]),
    write_head := write_head ring + 1\<rparr>"
  shows "ring_ok ring'" and "ring_contents ring' = ring_contents ring @ [x]"
    and "ring_used ring' = Suc (ring_used ring)"
proof -
  show u: "ring_used ring' = Suc (ring_used ring)"
    unfolding ring'_def using unat_succ_diff [OF free] by simp
  then show "ring_ok ring'"
    using ok mem free by (simp add: ring_ok_def ring'_def)
  have at: "ring_at ring' i = ring_at ring i" for i by (simp add: ring_at_def ring'_def)
  have ne: "ring_at ring (ring_used ring) \<noteq> ring_at ring i" if "i < ring_used ring" for i
    using that free ring_at_neq [of i "ring_used ring" "ring_cap ring"]
    by (simp add: ring_at_def eq_commute)
  have "rb_buff ring' = Some (mem[ring_at ring (ring_used ring) := x])" by (simp add: ring'_def)
  then show "ring_contents ring' = ring_contents ring @ [x]"
    using write_cell(2) [OF ok mem] mem ne by (simp add: ring_contents_def u at)
qed

text \<open>Advancing the read head removes the first byte, the one it pointed at.\<close>

lemma ring_fetch:
  assumes ok: "ring_ok ring" and mem: "rb_buff ring = Some mem"
    and ne: "read_head ring \<noteq> write_head ring"
  defines "ring' \<equiv> ring\<lparr>read_head := read_head ring + 1\<rparr>"
  shows "ring_ok ring'" and "ring_contents ring = mem ! ring_at ring 0 # ring_contents ring'"
    and "Suc (ring_used ring') = ring_used ring"
proof -
  from ne have pos: "0 < ring_used ring" by (simp add: empty_iff)
  have "ring_used ring' = ring_used ring - 1"
    unfolding ring'_def using unat_diff_succ [OF ne] by simp
  with pos show u: "Suc (ring_used ring') = ring_used ring" by simp
  with ok mem show "ring_ok ring'" by (simp add: ring_ok_def ring'_def)
  have at: "ring_at ring' i = ring_at ring (Suc i)" for i
    using ok unat_head_succ_mod [of "rb_capacity ring" "read_head ring" i]
    by (simp add: ring_at_def ring'_def ring_ok_def split: option.splits)
  have "[0..<ring_used ring] = 0 # map Suc [0..<ring_used ring']"
    unfolding u [symmetric] by (simp add: upt_conv_Cons map_Suc_upt del: upt_Suc)
  moreover have "rb_buff ring' = Some mem" by (simp add: ring'_def mem)
  ultimately show "ring_contents ring = mem ! ring_at ring 0 # ring_contents ring'"
    using mem by (simp add: ring_contents_def at comp_def)
qed

section \<open>The operations\<close>

lemma ring_buff: "ring_ok ring \<Longrightarrow> \<exists>mem. rb_buff ring = Some mem"
  by (auto simp: ring_ok_def split: option.splits)

text \<open>The fields a loop leaves alone.\<close>

definition same_frame :: "ringbuffer \<Rightarrow> ringbuffer \<Rightarrow> bool" where
  "same_frame a b \<longleftrightarrow> rb_lock a = rb_lock b \<and> rb_capacity a = rb_capacity b"

lemma write_loop:
  assumes "ring_ok ring" "sent \<le> len" "len \<le> length buff"
  shows "\<exists>ring'. ringbuffer_write_loop ring buff sent len =
      Some (ring', sent + min (len - sent) (ring_cap ring - ring_used ring)) \<and>
    ring_ok ring' \<and> same_frame ring' ring \<and>
    ring_contents ring' = ring_contents ring @
      take (min (len - sent) (ring_cap ring - ring_used ring)) (drop sent buff)"
  using assms
proof (induction ring buff sent len rule: ringbuffer_write_loop.induct)
  case (1 ring buff sent len)
  let ?f = "read_head ring + rb_capacity ring = write_head ring"
  show ?case
  proof (cases "sent < len \<and> \<not> ?f")
    case False
    then have "min (len - sent) (ring_cap ring - ring_used ring) = 0"
      using "1.prems" by (auto simp: full_iff)
    with False "1.prems" show ?thesis
      by (auto simp: ringbuffer_write_loop.simps [of ring] same_frame_def)
  next
    case True
    obtain mem where mem: "rb_buff ring = Some mem" using ring_buff [OF "1.prems"(1)] by blast
    have free: "ring_used ring < ring_cap ring"
      using True "1.prems"(1) by (simp add: full_iff ring_ok_def)
    note cell = write_cell [OF "1.prems"(1) mem]
    let ?r = "ring\<lparr>rb_buff := Some (mem[ring_at ring (ring_used ring) := buff ! sent]),
      write_head := write_head ring + 1\<rparr>"
    note st = ring_store [OF "1.prems"(1) mem free, of "buff ! sent"]
    have rb: "rd buff sent = Some (buff ! sent)" using True "1.prems" by simp
    have step: "ringbuffer_write_loop ring buff sent len = ringbuffer_write_loop ?r buff (Suc sent) len"
      using True mem cell rb by (simp add: ringbuffer_write_loop.simps [of ring])
    obtain ring' where r': "ringbuffer_write_loop ?r buff (Suc sent) len =
        Some (ring', Suc sent + min (len - Suc sent) (ring_cap ?r - ring_used ?r))"
      "ring_ok ring'" "same_frame ring' ?r" "ring_contents ring' = ring_contents ?r @
        take (min (len - Suc sent) (ring_cap ?r - ring_used ?r)) (drop (Suc sent) buff)"
      using "1.IH" [OF _ _ mem cell(1) rb wr_in [OF cell(2)] st(1)] True "1.prems" by auto
    have k: "min (len - sent) (ring_cap ring - ring_used ring) =
        Suc (min (len - Suc sent) (ring_cap ?r - ring_used ?r))"
      unfolding st(3) using True free by auto
    have d: "drop sent buff = buff ! sent # drop (Suc sent) buff"
      using True "1.prems" by (intro drop_Cons_nth) simp
    show ?thesis
      using step r' st(2) unfolding k d by (auto simp: same_frame_def)
  qed
qed

lemma read_loop:
  assumes "ring_ok ring" "n \<le> len" "len \<le> length buff"
  shows "\<exists>ring'. ringbuffer_read_loop ring buff n len =
      Some (ring', overwrite buff n (take (len - n) (ring_contents ring)),
        n + min (len - n) (ring_used ring)) \<and>
    ring_ok ring' \<and> same_frame ring' ring \<and>
    ring_contents ring' = drop (len - n) (ring_contents ring)"
  using assms
proof (induction ring buff n len rule: ringbuffer_read_loop.induct)
  case (1 ring buff n len)
  show ?case
  proof (cases "n < len \<and> read_head ring \<noteq> write_head ring")
    case False
    then have "len - n = 0 \<or> ring_contents ring = []" "min (len - n) (ring_used ring) = 0"
      using "1.prems" length_ring_contents [of ring] by (auto simp: empty_iff)
    with False "1.prems" show ?thesis
      by (auto simp: ringbuffer_read_loop.simps [of ring] same_frame_def)
  next
    case True
    obtain mem where mem: "rb_buff ring = Some mem" using ring_buff [OF "1.prems"(1)] by blast
    note cell = read_cell [OF "1.prems"(1) mem]
    let ?r = "ring\<lparr>read_head := read_head ring + 1\<rparr>" and ?x = "mem ! ring_at ring 0"
    note ft = ring_fetch [OF "1.prems"(1) mem conjunct2 [OF True]]
    have wb: "wr buff n ?x = Some (buff[n := ?x])" using True "1.prems" by simp
    have step: "ringbuffer_read_loop ring buff n len = ringbuffer_read_loop ?r (buff[n := ?x]) (Suc n) len"
      using True mem cell wb by (simp add: ringbuffer_read_loop.simps [of ring])
    have sd: "len - n = Suc (len - Suc n)" using True by linarith
    show ?thesis
      using step ft "1.IH" [OF _ _ mem cell(1) rd_in [OF cell(2)] wb ft(1)] True "1.prems"
      by (auto simp: sd same_frame_def overwrite_Cons simp flip: ft(3))
  qed
qed

lemma ring_ok_lock [simp]: "ring_ok (ring\<lparr>rb_lock := l\<rparr>) = ring_ok ring"
  by (simp add: ring_ok_def split: option.split)

lemma ring_contents_lock [simp]: "ring_contents (ring\<lparr>rb_lock := l\<rparr>) = ring_contents ring"
  by (simp add: ring_contents_def ring_at_def split: option.splits)

lemma ringbuffer_write_ok:
  assumes "ring_inv ring" "unat len \<le> length buff"
  shows "\<exists>ring'. ringbuffer_write ring buff len =
      Some (ring', min (unat len) (ring_cap ring - length (ring_contents ring))) \<and>
    ring_inv ring' \<and> rb_capacity ring' = rb_capacity ring \<and>
    ring_contents ring' = ring_contents ring @
      take (min (unat len) (ring_cap ring - length (ring_contents ring))) buff"
  using write_loop [of "ring\<lparr>rb_lock := 1\<rparr>" 0 "unat len" buff] assms
  by (auto simp: ringbuffer_write_def ring_inv_def same_frame_def length_ring_contents)

lemma ringbuffer_read_ok:
  assumes "ring_inv ring" "unat len \<le> length buff"
  shows "\<exists>ring'. ringbuffer_read ring buff len =
      Some (ring', overwrite buff 0 (take (unat len) (ring_contents ring)),
        min (unat len) (length (ring_contents ring))) \<and>
    ring_inv ring' \<and> rb_capacity ring' = rb_capacity ring \<and>
    ring_contents ring' = drop (unat len) (ring_contents ring)"
  using read_loop [of "ring\<lparr>rb_lock := 1\<rparr>" 0 "unat len" buff] assms
  by (auto simp: ringbuffer_read_def ring_inv_def same_frame_def length_ring_contents)

lemma ringbuffer_size_ok:
  "ring_inv ring \<Longrightarrow> \<exists>sz. ringbuffer_size ring = Some (ring, sz) \<and>
    unat sz = length (ring_contents ring)"
  by (simp add: ringbuffer_size_def ring_inv_def length_ring_contents)

lemma ringbuffer_capacity_ok:
  "ring_inv ring \<Longrightarrow> ringbuffer_capacity ring = Some (ring, rb_capacity ring)"
  by (simp add: ringbuffer_capacity_def ring_inv_def)

lemma ringbuffer_alloc_ok:
  assumes "0 < unat sz" "unat sz dvd 2 ^ 64" "mem = Some m" "unat sz \<le> length m"
  shows "snd (ringbuffer_alloc ring sz mem) = RINGBUFFER_OK \<and>
    ring_inv (fst (ringbuffer_alloc ring sz mem)) \<and>
    ring_contents (fst (ringbuffer_alloc ring sz mem)) = []"
  using assms by (simp add: ringbuffer_alloc_def ring_inv_def ring_ok_def ring_contents_def Let_def)

section \<open>The queue contract\<close>

text \<open>One byte in, one byte out: the ring as a queue.\<close>

definition ring_put :: "ringbuffer \<Rightarrow> u8 \<Rightarrow> ringbuffer option" where
  "ring_put ring x = map_option fst (ringbuffer_write ring [x] 1)"

definition ring_get :: "ringbuffer \<Rightarrow> (u8 option \<times> ringbuffer) option" where
  "ring_get ring = do {
     (ring', buff, n) \<leftarrow> ringbuffer_read ring [0] 1;
     Some (if n = 0 then None else Some (buff ! 0), ring') }"

definition ring_room :: "ringbuffer \<Rightarrow> u8 \<Rightarrow> bool" where
  "ring_room ring x \<longleftrightarrow> length (ring_contents ring) < ring_cap ring"

lemma ring_put_ok:
  assumes "ring_inv ring"
  shows "\<exists>ring'. ring_put ring x = Some ring' \<and> ring_inv ring' \<and>
    ring_contents ring' = ring_contents ring @ (if ring_room ring x then [x] else [])"
  using ringbuffer_write_ok [OF assms, of 1 "[x]"]
  by (auto simp: ring_put_def ring_room_def split: if_splits)

lemma ring_get_ok:
  assumes "ring_inv ring"
  shows "\<exists>ring'. ring_get ring = Some (case ring_contents ring of [] \<Rightarrow> None | x # _ \<Rightarrow> Some x, ring') \<and>
    ring_inv ring' \<and> ring_contents ring' = tl (ring_contents ring)"
  using ringbuffer_read_ok [OF assms, of 1 "[0]"]
  by (auto simp: ring_get_def drop_Suc split: list.splits)

interpretation ring: bounded_fifo ring_inv ring_contents ring_room ring_put ring_get
  by unfold_locales (use ring_put_ok ring_get_ok in \<open>fastforce split: list.splits if_splits\<close>)+

section \<open>Properties\<close>

text \<open>
  C12: \<open>ringbuffer_write\<close> on a ring whose counters may already have wrapped appends the longest
  prefix of the data that fits, reports its length, and \<open>ringbuffer_read\<close> then delivers the old
  contents followed by that prefix, in order, as far as the caller asks; both leave the lock
  free and the invariant intact, and neither leaves the buffers.
\<close>

theorem ringbuffer_write_then_read:
  assumes "ring_inv ring" "unat len \<le> length buff" "unat n \<le> length dst"
  shows "\<exists>ring1 ring2 sent. ringbuffer_write ring buff len = Some (ring1, sent) \<and>
    sent = min (unat len) (ring_cap ring - length (ring_contents ring)) \<and>
    ringbuffer_read ring1 dst n =
      Some (ring2, overwrite dst 0 (take (unat n) (ring_contents ring @ take sent buff)),
        min (unat n) (length (ring_contents ring) + sent)) \<and>
    ring_contents ring2 = drop (unat n) (ring_contents ring @ take sent buff) \<and>
    ring_inv ring1 \<and> ring_inv ring2"
proof -
  obtain ring1 where w: "ringbuffer_write ring buff len =
      Some (ring1, min (unat len) (ring_cap ring - length (ring_contents ring)))"
    "ring_inv ring1" "ring_contents ring1 = ring_contents ring @
      take (min (unat len) (ring_cap ring - length (ring_contents ring))) buff"
    using ringbuffer_write_ok [OF assms(1,2)] by blast
  from ringbuffer_read_ok [OF w(2) assms(3)] w assms(2) show ?thesis by (auto simp: min_def)
qed

theorem ringbuffer_write_then_read_witness:
  "\<exists>ring1 ring2 sent. ringbuffer_write \<lparr>rb_lock = 0, rb_capacity = 4, read_head = 0xFFFFFFFFFFFFFFFF,
      write_head = 1, rb_buff = Some [7, 9, 9, 6]\<rparr> [1, 2, 3] 3 = Some (ring1, sent) \<and> sent = 2 \<and>
    ringbuffer_read ring1 [0, 0, 0, 0] 3 = Some (ring2, [6, 7, 1, 0], 3) \<and>
    ring_contents ring2 = [2] \<and> ring_inv ring1 \<and> ring_inv ring2"
proof -
  let ?r = "\<lparr>rb_lock = 0, rb_capacity = 4, read_head = 0xFFFFFFFFFFFFFFFF, write_head = 1,
      rb_buff = Some [7, 9, 9, 6 :: u8]\<rparr>"
  have u: "ring_used ?r = 2" "ring_cap ?r = 4" by simp_all
  have c: "ring_contents ?r = [6, 7]"
    by (simp add: ring_contents_def ring_at_def upt_rec)
  have i: "ring_inv ?r" by (simp add: ring_inv_def ring_ok_def)
  show ?thesis
    using ringbuffer_write_then_read [OF i, of 3 "[1, 2, 3]" 3 "[0, 0, 0, 0]"] c
    by (simp add: overwrite_def) (simp add: numeral_3_eq_3)
qed

text \<open>
  For any sequence of one-byte writes and reads on a ring, every operation returns, and the
  bytes that came out followed by those still inside are those inside at the start followed by
  some of the bytes written, in their order: a full ring drops, and nothing is reordered,
  duplicated or invented, however often the counters wrap around.
\<close>

lemma ringbuffer_history:
  assumes "ring_inv ring"
  shows "\<exists>outs ring' ys. run_queue ring_put ring_get ring ops = Some (outs, ring') \<and>
    ring_inv ring' \<and> outs @ ring_contents ring' = ring_contents ring @ ys \<and> subseq ys (inputs ops)"
  using assms by (rule ring.history)

end
