(* ===== verification/Frame_Allocator.thy ===== *)
theory Frame_Allocator
  imports Prelude
begin

text \<open>
  The contract of an allocator of page frames, as a locale: the physical memory manager
  promises these laws (interpretation in theory \<open>Pmm\<close>). The client lemma, proved once here,
  is the one the whole kernel depends on: whatever its clients allocate and give back, the
  blocks that are live never overlap.
\<close>

datatype mop = Alloc u64 | Release nat

text \<open>
  A history of a client that keeps the list of its live blocks and gives them back by position.
\<close>

fun run_alloc :: "('s \<Rightarrow> u64 \<Rightarrow> ('b option \<times> 's) option) \<Rightarrow> ('s \<Rightarrow> 'b \<Rightarrow> 's option) \<Rightarrow>
    's \<Rightarrow> 'b list \<Rightarrow> mop list \<Rightarrow> ('s \<times> 'b list) option" where
  "run_alloc alloc free s live [] = Some (s, live)"
| "run_alloc alloc free s live (Alloc n # ops) = do {
     (r, s') \<leftarrow> alloc s n;
     run_alloc alloc free s' (case r of None \<Rightarrow> live | Some b \<Rightarrow> b # live) ops }"
| "run_alloc alloc free s live (Release k # ops) =
     (if k < length live
      then do {
        s' \<leftarrow> free s (live ! k);
        run_alloc alloc free s' (take k live @ drop (Suc k) live) ops }
      else run_alloc alloc free s live ops)"

fun sizes :: "mop list \<Rightarrow> u64 list" where
  "sizes [] = []"
| "sizes (Alloc n # ops) = n # sizes ops"
| "sizes (Release k # ops) = sizes ops"

locale frame_allocator =
  fixes inv :: "'s \<Rightarrow> bool"
    and used :: "'s \<Rightarrow> nat set"
    and frames :: "'b \<Rightarrow> nat set"
    and fits :: "u64 \<Rightarrow> bool"
    and alloc :: "'s \<Rightarrow> u64 \<Rightarrow> ('b option \<times> 's) option"
    and free :: "'s \<Rightarrow> 'b \<Rightarrow> 's option"
  assumes alloc_block: "inv s \<Longrightarrow> fits n \<Longrightarrow> \<exists>r s'. alloc s n = Some (r, s') \<and> inv s' \<and>
      (case r of None \<Rightarrow> used s' = used s
       | Some b \<Rightarrow> frames b \<inter> used s = {} \<and> card (frames b) = unat n \<and> used s' = used s \<union> frames b)"
    and free_block: "inv s \<Longrightarrow> frames b \<subseteq> used s \<Longrightarrow>
      \<exists>s'. free s b = Some s' \<and> inv s' \<and> used s' = used s - frames b"
begin

definition live_ok :: "'s \<Rightarrow> 'b list \<Rightarrow> bool" where
  "live_ok s live \<longleftrightarrow> inv s \<and> sorted_wrt (\<lambda>b c. frames b \<inter> frames c = {}) live \<and>
     (\<forall>b\<in>set live. frames b \<subseteq> used s)"

lemma live_ok_release:
  assumes "live_ok s live" "k < length live"
  shows "\<exists>s'. free s (live ! k) = Some s' \<and> live_ok s' (take k live @ drop (Suc k) live)"
proof -
  let ?b = "live ! k"
  have split: "live = take k live @ ?b # drop (Suc k) live" using assms(2) by (rule id_take_nth_drop)
  have d: "sorted_wrt (\<lambda>b c. frames b \<inter> frames c = {}) (take k live @ ?b # drop (Suc k) live)"
    using assms(1) unfolding split [symmetric] by (simp add: live_ok_def)
  have "?b \<in> set live" using assms(2) by simp
  with assms(1) obtain s' where s': "free s ?b = Some s'" "inv s'" "used s' = used s - frames ?b"
    using free_block [of s ?b] by (auto simp: live_ok_def)
  have "frames c \<inter> frames ?b = {} \<and> frames c \<subseteq> used s"
    if "c \<in> set (take k live) \<union> set (drop (Suc k) live)" for c
    using that d assms(1) by (auto simp: sorted_wrt_append live_ok_def dest: in_set_takeD in_set_dropD)
  then have "\<forall>c \<in> set (take k live @ drop (Suc k) live). frames c \<subseteq> used s'"
    unfolding s'(3) by (auto simp: Int_commute)
  moreover have "sorted_wrt (\<lambda>b c. frames b \<inter> frames c = {}) (take k live @ drop (Suc k) live)"
    using d by (auto simp: sorted_wrt_append)
  ultimately show ?thesis using s' by (auto simp: live_ok_def)
qed

lemma live_ok_alloc:
  assumes "live_ok s live" "fits n"
  shows "\<exists>r s'. alloc s n = Some (r, s') \<and>
    live_ok s' (case r of None \<Rightarrow> live | Some b \<Rightarrow> b # live)"
  using alloc_block [of s n] assms by (fastforce simp: live_ok_def split: option.splits)

lemma live_disjoint:
  assumes "live_ok s live" "\<forall>n\<in>set (sizes ops). fits n"
  shows "\<exists>s' live'. run_alloc alloc free s live ops = Some (s', live') \<and> live_ok s' live'"
  using assms
proof (induction ops arbitrary: s live)
  case Nil
  then show ?case by simp
next
  case (Cons oper ops)
  show ?case
  proof (cases oper)
    case (Alloc n)
    with Cons.prems obtain r s' where "alloc s n = Some (r, s')"
      "live_ok s' (case r of None \<Rightarrow> live | Some b \<Rightarrow> b # live)"
      using live_ok_alloc [of s live n] by auto
    with Cons.IH Cons.prems(2) Alloc show ?thesis by auto
  next
    case (Release k)
    show ?thesis
    proof (cases "k < length live")
      case True
      with live_ok_release [OF Cons.prems(1) True] Cons.IH Cons.prems(2) Release show ?thesis by auto
    next
      case False
      with Cons.IH [OF Cons.prems(1)] Cons.prems(2) Release show ?thesis by auto
    qed
  qed
qed

end

end
