(* ===== verification/Pmm.thy ===== *)
theory Pmm
  imports Spinlock Frame_Allocator
begin

text \<open>
  \<open>src/kernel/memory/pmm.c\<close>: the physical page frame allocator, a bitmap with one bit per frame
  (1: in use) that is searched next fit, from a cached index and then from 0. Addresses, sizes and indices are
  64-bit words as in the code; the bitmap is the byte array it occupies. The higher-half offset
  \<open>KERNEL_HHDM_OFFSET\<close>, which the boot loader hands over, is the argument \<open>h\<close>. The first half
  models every function; the second half shows that the allocator implements a set of used
  frames and interprets the contract \<open>frame_allocator\<close> on it.
\<close>

section \<open>Definitions\<close>

definition PAGE_SIZE_BYTES :: u64 where "PAGE_SIZE_BYTES = 4096"

record pmm =
  bitmap_max_entries :: u64
  cached_index :: u64
  bitmap :: "u8 list"
  bitmap_addr :: u64
  bitmap_size_aligned :: u64
  pmm_lock :: spinlock

definition get_bitmap_addr :: "pmm \<Rightarrow> u64" where
  "get_bitmap_addr st = bitmap_addr st"

definition get_bitmap_size :: "pmm \<Rightarrow> u64" where
  "get_bitmap_size st = bitmap_size_aligned st"

definition bitmap_read :: "u8 list \<Rightarrow> u64 \<Rightarrow> u8 option" where
  "bitmap_read bm addr = (let nth_bit = addr div PAGE_SIZE_BYTES in
     map_option (\<lambda>b. drop_bit (unat (nth_bit mod 8)) b AND 1) (rd bm (unat (nth_bit div 8))))"

definition bitmap_set :: "u8 list \<Rightarrow> u64 \<Rightarrow> u8 list option" where
  "bitmap_set bm addr = (let nth_bit = addr div PAGE_SIZE_BYTES in do {
     b \<leftarrow> rd bm (unat (nth_bit div 8));
     wr bm (unat (nth_bit div 8)) (b OR push_bit (unat (nth_bit mod 8)) 1) })"

definition bitmap_reset :: "u8 list \<Rightarrow> u64 \<Rightarrow> u8 list option" where
  "bitmap_reset bm addr = (let nth_bit = addr div PAGE_SIZE_BYTES in do {
     b \<leftarrow> rd bm (unat (nth_bit div 8));
     wr bm (unat (nth_bit div 8)) (b AND NOT (push_bit (unat (nth_bit mod 8)) 1)) })"

text \<open>The loop of \<open>bitmap_available\<close>, from \<open>idx\<close> on.\<close>

function bitmap_available_from :: "u8 list \<Rightarrow> u64 \<Rightarrow> nat \<Rightarrow> nat \<Rightarrow> bool option" where
  "bitmap_available_from bm bitmap_index idx pages =
     (if idx < pages
      then do {
        b \<leftarrow> bitmap_read bm ((bitmap_index + of_nat idx) * PAGE_SIZE_BYTES);
        if b \<noteq> 0 then Some False
        else bitmap_available_from bm bitmap_index (Suc idx) pages }
      else Some True)"
  by pat_completeness auto
termination
  by (relation "measure (\<lambda>(bm, bitmap_index, idx, pages). pages - idx)") auto

definition bitmap_available :: "u8 list \<Rightarrow> u64 \<Rightarrow> u64 \<Rightarrow> bool option" where
  "bitmap_available bm bitmap_index pages = bitmap_available_from bm bitmap_index 0 (unat pages)"

definition palign :: "u64 \<Rightarrow> u64" where
  "palign frames =
     (let bytes = frames div 8;
          bytes = (if bytes * 8 < frames then bytes + 1 else bytes);
          frames = bytes div PAGE_SIZE_BYTES;
          frames = (if frames * PAGE_SIZE_BYTES < bytes then frames + 1 else frames)
      in frames * PAGE_SIZE_BYTES)"

text \<open>The entries of the boot loader's memory map.\<close>

record limine_memmap_entry =
  me_base :: u64
  me_length :: u64
  me_type :: u64

definition LIMINE_MEMMAP_USABLE :: u64 where "LIMINE_MEMMAP_USABLE = 0"

abbreviation usable :: "limine_memmap_entry \<Rightarrow> bool" where
  "usable e \<equiv> me_type e = LIMINE_MEMMAP_USABLE"

text \<open>The first loop of \<open>init_pmm\<close>: the end of the last usable entry.\<close>

definition max_address :: "limine_memmap_entry list \<Rightarrow> u64" where
  "max_address entries =
     fold (\<lambda>e acc. if usable e then me_base e + me_length e else acc) entries 0"

text \<open>The second loop: the bitmap is carved from the first usable entry that is larger.\<close>

fun place_bitmap ::
    "u64 \<Rightarrow> u64 \<Rightarrow> limine_memmap_entry list \<Rightarrow> (u64 \<times> limine_memmap_entry list) option" where
  "place_bitmap h sz [] = None"
| "place_bitmap h sz (e # es) =
     (if usable e \<and> sz < me_length e
      then Some (me_base e + h,
        e\<lparr>me_base := me_base e + sz, me_length := me_length e - sz\<rparr> # es)
      else map_option (map_prod id ((#) e)) (place_bitmap h sz es))"

text \<open>The third loop: every page of every usable entry is marked free.\<close>

fun free_entries :: "limine_memmap_entry list \<Rightarrow> u8 list \<Rightarrow> u8 list option" where
  "free_entries [] bm = Some bm"
| "free_entries (e # es) bm =
     (if usable e
      then do {
        bm' \<leftarrow> word_loop 0 (me_length e) PAGE_SIZE_BYTES
          (\<lambda>jdx bm. bitmap_reset bm (me_base e + jdx)) bm;
        free_entries es bm' }
      else free_entries es bm)"

text \<open>
  \<open>init_pmm\<close>. With no entry large enough the bitmap pointer stays \<open>NULL\<close> and is written
  through. The modified memory map is part of the result, since \<open>init_vmm\<close> reads it again.
\<close>

definition init_pmm ::
    "u64 \<Rightarrow> limine_memmap_entry list \<Rightarrow> pmm \<Rightarrow> (pmm \<times> limine_memmap_entry list) option" where
  "init_pmm h entries st = do {
     let frames = max_address entries div PAGE_SIZE_BYTES;
     let sz = palign frames;
     (addr, entries') \<leftarrow> place_bitmap h sz entries;
     bm \<leftarrow> free_entries entries' (replicate (unat sz) 0xFF);
     Some (st\<lparr>bitmap_max_entries := frames, bitmap_size_aligned := sz, bitmap_addr := addr,
       bitmap := bm\<rparr>, entries') }"

definition mark_frames :: "u64 \<Rightarrow> u64 \<Rightarrow> u8 list \<Rightarrow> u8 list option" where
  "mark_frames i pages bm =
     for_loop 0 (unat pages) (\<lambda>idx bm. bitmap_set bm ((i + of_nat idx) * PAGE_SIZE_BYTES)) bm"

function palloc_internal :: "u64 \<Rightarrow> u64 \<Rightarrow> pmm \<Rightarrow> (u64 \<times> pmm) option" where
  "palloc_internal h pages st =
     (if cached_index st + pages < bitmap_max_entries st
      then do {
        a \<leftarrow> bitmap_available (bitmap st) (cached_index st) pages;
        if a then do {
          bm \<leftarrow> mark_frames (cached_index st) pages (bitmap st);
          Some (cached_index st * PAGE_SIZE_BYTES + h,
            st\<lparr>bitmap := bm, cached_index := cached_index st + pages\<rparr>) }
        else palloc_internal h pages (st\<lparr>cached_index := cached_index st + 1\<rparr>) }
      else Some (0, st))"
  by pat_completeness auto
termination
proof (relation "measure (\<lambda>(h, pages, st). unat (bitmap_max_entries st - (cached_index st + pages)))")
  fix h pages st and a :: bool
  assume "cached_index st + pages < bitmap_max_entries st"
  from unat_diff_Suc_less [OF this]
  show "((h, pages, st\<lparr>cached_index := cached_index st + 1\<rparr>), (h, pages, st)) \<in>
      measure (\<lambda>(h, pages, st). unat (bitmap_max_entries st - (cached_index st + pages)))"
    by (simp add: algebra_simps)
qed simp

definition palloc :: "u64 \<Rightarrow> u64 \<Rightarrow> pmm \<Rightarrow> (u64 \<times> pmm) option" where
  "palloc h pages st = do {
     l \<leftarrow> spinlock_acquire (pmm_lock st);
     (ret, st) \<leftarrow> palloc_internal h pages (st\<lparr>pmm_lock := l\<rparr>);
     (ret, st) \<leftarrow> (if ret = 0 then palloc_internal h pages (st\<lparr>cached_index := 0\<rparr>)
                   else Some (ret, st));
     Some (ret, st\<lparr>pmm_lock := spinlock_release (pmm_lock st)\<rparr>) }"

definition pfree :: "u64 \<Rightarrow> u64 \<Rightarrow> u64 \<Rightarrow> pmm \<Rightarrow> pmm option" where
  "pfree h base pages st = do {
     l \<leftarrow> spinlock_acquire (pmm_lock st);
     (addr, bm) \<leftarrow> for_loop 0 (unat pages) (\<lambda>idx (addr, bm). do {
         bm' \<leftarrow> bitmap_reset bm (addr - h);
         Some (addr + PAGE_SIZE_BYTES, bm') }) (base, bitmap st);
     Some (st\<lparr>bitmap := bm, pmm_lock := spinlock_release l\<rparr>) }"

declare bitmap_available_from.simps [simp del] palloc_internal.simps [simp del]

section \<open>The bitmap as a set of frames\<close>

text \<open>The frames in use, among those the bitmap covers.\<close>

definition frame_bit :: "u8 list \<Rightarrow> nat \<Rightarrow> bool" where
  "frame_bit bm n \<longleftrightarrow> bit (bm ! (n div 8)) (n mod 8)"

lemma unat_div_page: "unat ((a :: u64) div PAGE_SIZE_BYTES) = unat a div 4096"
  by (simp add: PAGE_SIZE_BYTES_def unat_div)

lemma unat_frame_parts:
  "unat (w div 8 :: u64) = unat w div 8" "unat (w mod 8 :: u64) = unat w mod 8"
  by (simp_all add: unat_div unat_mod)

lemma bitmap_read_frame:
  assumes "unat a div 4096 < 8 * length bm"
  shows "bitmap_read bm a = Some (if frame_bit bm (unat a div 4096) then 1 else 0)"
proof -
  have "unat a div 4096 div 8 < length bm" using assms by simp
  moreover have "drop_bit k (b :: u8) AND 1 = (if bit b k then 1 else 0)" for b k
    by (simp add: and_one_eq bit_iff_odd_drop_bit mod_2_eq_odd)
  ultimately show ?thesis
    by (simp add: bitmap_read_def unat_frame_parts unat_div_page frame_bit_def Let_def)
qed

lemma frame_bit_update:
  assumes "n < 8 * length bm"
  shows "frame_bit (bm[n div 8 := b]) m =
    (if m div 8 = n div 8 then bit b (m mod 8) else frame_bit bm m)"
  using assms by (auto simp: frame_bit_def less_mult_imp_div_less)

lemma same_frame_iff: "m div 8 = n div 8 \<Longrightarrow> m mod 8 = n mod 8 \<longleftrightarrow> m = (n :: nat)"
  by (metis div_mod_decomp)

lemma bitmap_set_frame:
  assumes "unat a div 4096 < 8 * length bm"
  shows "\<exists>bm'. bitmap_set bm a = Some bm' \<and> length bm' = length bm \<and>
    (\<forall>m. frame_bit bm' m \<longleftrightarrow> m = unat a div 4096 \<or> frame_bit bm m)"
proof -
  let ?n = "unat a div 4096"
  have i: "?n div 8 < length bm" using assms by simp
  have "frame_bit (bm[?n div 8 := bm ! (?n div 8) OR push_bit (?n mod 8) 1]) m \<longleftrightarrow>
      m = ?n \<or> frame_bit bm m" for m
    unfolding frame_bit_update [OF assms]
    by (auto simp: bit_simps frame_bit_def same_frame_iff)
  with i show ?thesis by (simp add: bitmap_set_def unat_frame_parts unat_div_page Let_def)
qed

lemma bitmap_reset_frame:
  assumes "unat a div 4096 < 8 * length bm"
  shows "\<exists>bm'. bitmap_reset bm a = Some bm' \<and> length bm' = length bm \<and>
    (\<forall>m. frame_bit bm' m \<longleftrightarrow> m \<noteq> unat a div 4096 \<and> frame_bit bm m)"
proof -
  let ?n = "unat a div 4096"
  have i: "?n div 8 < length bm" using assms by simp
  have "frame_bit (bm[?n div 8 := bm ! (?n div 8) AND NOT (push_bit (?n mod 8) 1)]) m \<longleftrightarrow>
      m \<noteq> ?n \<and> frame_bit bm m" for m
    unfolding frame_bit_update [OF assms]
    by (auto simp: bit_simps frame_bit_def same_frame_iff)
  with i show ?thesis by (simp add: bitmap_reset_def unat_frame_parts unat_div_page Let_def)
qed

section \<open>First fit\<close>

abbreviation max_frames :: "pmm \<Rightarrow> nat" where
  "max_frames st \<equiv> unat (bitmap_max_entries st)"

text \<open>
  The invariant: the bitmap has a bit for every frame, the cached index is a frame number, and
  the higher-half window \<open>h ..< h + 4096 * max\<close> lies inside the address space and above 0.
\<close>

definition pmm_ok :: "u64 \<Rightarrow> pmm \<Rightarrow> bool" where
  "pmm_ok h st \<longleftrightarrow> max_frames st \<le> 8 * length (bitmap st) \<and> max_frames st < 2 ^ 52 \<and>
     unat (cached_index st) \<le> max_frames st \<and> 0 < unat h \<and> unat h + 4096 * max_frames st \<le> 2 ^ 64"

definition pmm_inv :: "u64 \<Rightarrow> pmm \<Rightarrow> bool" where
  "pmm_inv h st \<longleftrightarrow> pmm_lock st = 0 \<and> pmm_ok h st"

definition run_free :: "u8 list \<Rightarrow> nat \<Rightarrow> nat \<Rightarrow> bool" where
  "run_free bm p i \<longleftrightarrow> (\<forall>n\<in>set [i..<i + p]. \<not> frame_bit bm n)"

text \<open>The reference: the first index from \<open>lo\<close> on at which \<open>p\<close> free frames start.\<close>

definition first_fit :: "pmm \<Rightarrow> nat \<Rightarrow> nat \<Rightarrow> nat option" where
  "first_fit st p lo = find (run_free (bitmap st) p) [lo..<max_frames st - p]"

definition takes :: "nat option \<Rightarrow> nat \<Rightarrow> u8 list \<Rightarrow> u8 list \<Rightarrow> bool" where
  "takes r p bm bm' \<longleftrightarrow> length bm' = length bm \<and>
     (\<forall>m. frame_bit bm' m \<longleftrightarrow> frame_bit bm m \<or> (\<exists>i. r = Some i \<and> i \<le> m \<and> m < i + p))"

definition frame_ptr :: "u64 \<Rightarrow> nat option \<Rightarrow> u64" where
  "frame_ptr h r = (case r of None \<Rightarrow> 0 | Some i \<Rightarrow> of_nat i * PAGE_SIZE_BYTES + h)"

lemma frame_of_index:
  assumes "unat i + k < 2 ^ 52"
  shows "unat ((i + of_nat k :: u64) * PAGE_SIZE_BYTES) div 4096 = unat i + k"
proof -
  have k: "unat (of_nat k :: u64) = k" using assms by (simp add: unat_of_nat_small)
  have s: "unat (i + of_nat k) = unat i + k"
    using assms k unat_add_small [of i "of_nat k"] by simp
  then have "unat ((i + of_nat k) * PAGE_SIZE_BYTES) = (unat i + k) * 4096"
    using assms unat_mult_small [of "i + of_nat k" PAGE_SIZE_BYTES] by (simp add: PAGE_SIZE_BYTES_def)
  then show ?thesis by simp
qed

lemma bitmap_available_frames:
  assumes "unat i + unat p \<le> 8 * length bm" "unat i + unat p < 2 ^ 52"
  shows "bitmap_available bm i p = Some (run_free bm (unat p) (unat i))"
proof -
  have "bitmap_available_from bm i k (unat p) =
      Some (\<forall>n\<in>set [unat i + k..<unat i + unat p]. \<not> frame_bit bm n)" if "k \<le> unat p" for k
    using that
  proof (induction "unat p - k" arbitrary: k)
    case 0
    then show ?case by (simp add: bitmap_available_from.simps)
  next
    case (Suc n)
    then have k: "k < unat p" by simp
    let ?a = "(i + of_nat k) * PAGE_SIZE_BYTES"
    have f: "unat ?a div 4096 = unat i + k" using assms k by (intro frame_of_index) simp
    then have r: "bitmap_read bm ?a = Some (if frame_bit bm (unat i + k) then 1 else 0)"
      using bitmap_read_frame [of ?a bm] assms k by simp
    have ih: "bitmap_available_from bm i (Suc k) (unat p) =
        Some (\<forall>n\<in>set [Suc (unat i + k)..<unat i + unat p]. \<not> frame_bit bm n)"
      using Suc.hyps(1) [of "Suc k"] Suc.hyps(2) k by simp
    have "[unat i + k..<unat i + unat p] = (unat i + k) # [Suc (unat i + k)..<unat i + unat p]"
      using k by (simp add: upt_conv_Cons)
    with k r ih show ?case by (simp add: bitmap_available_from.simps [of bm i k])
  qed
  from this [of 0] show ?thesis by (simp add: bitmap_available_def run_free_def)
qed

lemma mark_frames_takes:
  assumes "unat i + unat p \<le> 8 * length bm" "unat i + unat p < 2 ^ 52"
  shows "\<exists>bm'. mark_frames i p bm = Some bm' \<and> takes (Some (unat i)) (unat p) bm bm'"
proof -
  have "\<exists>bm'. for_loop 0 (unat p) (\<lambda>idx bm. bitmap_set bm ((i + of_nat idx) * PAGE_SIZE_BYTES)) bm
      = Some bm' \<and> takes (Some (unat i)) (unat p) bm bm'"
  proof (rule for_loop_rule)
    show "takes (Some (unat i)) 0 bm bm" by (auto simp: takes_def)
  next
    fix k t
    assume k: "k < unat p" and t: "takes (Some (unat i)) k bm t"
    let ?a = "(i + of_nat k) * PAGE_SIZE_BYTES"
    have f: "unat ?a div 4096 = unat i + k" using assms k by (intro frame_of_index) simp
    from t have "length t = length bm" by (simp add: takes_def)
    with f assms k obtain t' where "bitmap_set t ?a = Some t'" "length t' = length t"
      "\<forall>m. frame_bit t' m \<longleftrightarrow> m = unat i + k \<or> frame_bit t m"
      using bitmap_set_frame [of ?a t] by auto
    with t show "\<exists>t'. bitmap_set t ?a = Some t' \<and> takes (Some (unat i)) (Suc k) bm t'"
      by (auto simp: takes_def)
  qed simp
  then show ?thesis by (simp add: mark_frames_def)
qed

text \<open>\<open>palloc_internal\<close> is first fit from the cached index.\<close>

lemma palloc_internal_first_fit:
  assumes "pmm_ok h st" "unat pages < 2 ^ 63"
  shows "\<exists>st'. palloc_internal h pages st =
      Some (frame_ptr h (first_fit st (unat pages) (unat (cached_index st))), st') \<and>
    takes (first_fit st (unat pages) (unat (cached_index st))) (unat pages) (bitmap st) (bitmap st') \<and>
    pmm_ok h st' \<and> pmm_lock st' = pmm_lock st \<and> bitmap_max_entries st' = bitmap_max_entries st"
  using assms
proof (induction h pages st rule: palloc_internal.induct)
  case (1 h pages st)
  let ?c = "unat (cached_index st)" and ?p = "unat pages"
  have ok: "max_frames st \<le> 8 * length (bitmap st)" "max_frames st < 2 ^ 52" "?c \<le> max_frames st"
    using "1.prems"(1) by (simp_all add: pmm_ok_def)
  have sum: "unat (cached_index st + pages) = ?c + ?p"
    using ok "1.prems"(2) by (intro unat_add_small) simp
  show ?case
  proof (cases "?c + ?p < max_frames st")
    case False
    then show ?thesis using "1.prems" sum
      by (simp add: palloc_internal.simps [of h] word_less_nat_alt first_fit_def frame_ptr_def takes_def)
  next
    case True
    have lt: "cached_index st + pages < bitmap_max_entries st"
      using True sum by (simp add: word_less_nat_alt)
    have av: "bitmap_available (bitmap st) (cached_index st) pages =
        Some (run_free (bitmap st) ?p ?c)"
      using True ok by (intro bitmap_available_frames) simp_all
    have ff: "first_fit st ?p ?c = (if run_free (bitmap st) ?p ?c then Some ?c
        else first_fit st ?p (Suc ?c))"
      using True by (simp add: first_fit_def upt_conv_Cons)
    show ?thesis
    proof (cases "run_free (bitmap st) ?p ?c")
      case free: True
      obtain bm where bm: "mark_frames (cached_index st) pages (bitmap st) = Some bm"
        "takes (Some ?c) ?p (bitmap st) bm"
        using mark_frames_takes [of "cached_index st" pages "bitmap st"] True ok by auto
      then show ?thesis using free True lt av ff sum "1.prems"(1)
        by (simp add: palloc_internal.simps [of h] frame_ptr_def pmm_ok_def takes_def)
    next
      case busy: False
      have s: "unat (cached_index st + 1) = Suc ?c"
        using True ok unat_add_small [of "cached_index st" 1] by simp
      have "pmm_ok h (st\<lparr>cached_index := cached_index st + 1\<rparr>)"
        using "1.prems"(1) True s by (simp add: pmm_ok_def)
      from "1.IH" [OF lt av busy this "1.prems"(2)] show ?thesis
        using busy lt av ff s by (simp add: palloc_internal.simps [of h] first_fit_def)
    qed
  qed
qed

lemma first_fit_Some:
  assumes "first_fit st p lo = Some i"
  shows "lo \<le> i \<and> i + p < max_frames st \<and> run_free (bitmap st) p i"
  using assms by (auto simp: first_fit_def find_Some_iff)

lemma frame_ptr_unat:
  assumes "pmm_ok h st" "first_fit st p lo = Some i"
  shows "unat (frame_ptr h (Some i)) = unat h + 4096 * i"
proof -
  have i: "i < max_frames st" using first_fit_Some [OF assms(2)] by simp
  have b: "max_frames st < 2 ^ 52" "unat h + 4096 * max_frames st \<le> 2 ^ 64"
    using assms(1) by (simp_all add: pmm_ok_def)
  have u: "unat (of_nat i :: u64) = i" using i b by (intro unat_of_nat_small) simp
  have "unat (of_nat i * PAGE_SIZE_BYTES) = 4096 * i"
    using i b u unat_mult_small [of "of_nat i :: u64" PAGE_SIZE_BYTES]
    by (simp add: PAGE_SIZE_BYTES_def)
  then show ?thesis
    using i b unat_add_small [of "of_nat i * PAGE_SIZE_BYTES" h] by (simp add: frame_ptr_def)
qed

lemma frame_ptr_nonzero:
  assumes "pmm_ok h st" "first_fit st p lo = Some i"
  shows "frame_ptr h (Some i) \<noteq> 0"
  using frame_ptr_unat [OF assms] assms(1) by (auto simp: pmm_ok_def)

section \<open>palloc and pfree\<close>

definition palloc_choice :: "pmm \<Rightarrow> nat \<Rightarrow> nat option" where
  "palloc_choice st p =
     (case first_fit st p (unat (cached_index st)) of
        Some i \<Rightarrow> Some i
      | None \<Rightarrow> first_fit st p 0)"

lemma palloc_choice_Some:
  "palloc_choice st p = Some i \<Longrightarrow> i + p < max_frames st \<and> run_free (bitmap st) p i"
  by (auto simp: palloc_choice_def dest!: first_fit_Some split: option.splits)

lemma palloc_choice_None:
  "palloc_choice st p = None \<longleftrightarrow> (\<forall>i. i + p < max_frames st \<longrightarrow> \<not> run_free (bitmap st) p i)"
proof -
  have "first_fit st p 0 = None \<longleftrightarrow> (\<forall>i. i + p < max_frames st \<longrightarrow> \<not> run_free (bitmap st) p i)"
    by (auto simp: first_fit_def find_None_iff)
  moreover have "first_fit st p 0 \<noteq> None" if "first_fit st p lo = Some i" for lo i
    using first_fit_Some [OF that] by (auto simp: first_fit_def find_None_iff intro: exI [of _ i])
  ultimately show ?thesis by (auto simp: palloc_choice_def split: option.splits)
qed

lemma frame_ptr_choice:
  assumes "pmm_ok h st"
  shows "frame_ptr h (palloc_choice st p) = 0 \<longleftrightarrow> palloc_choice st p = None"
    and "palloc_choice st p = Some i \<Longrightarrow> unat (frame_ptr h (Some i)) = unat h + 4096 * i"
  using frame_ptr_nonzero [OF assms] frame_ptr_unat [OF assms]
  by (auto simp: palloc_choice_def frame_ptr_def split: option.splits)

lemma takes_None:
  assumes "takes None p bm bm'"
  shows "length bm' = length bm" "frame_bit bm' = frame_bit bm" "run_free bm' = run_free bm"
proof -
  show "length bm' = length bm" and e: "frame_bit bm' = frame_bit bm"
    using assms by (auto simp: takes_def)
  show "run_free bm' = run_free bm" by (simp add: fun_eq_iff run_free_def e)
qed

lemma pmm_ok_fields [simp]:
  "pmm_ok h (st\<lparr>pmm_lock := l\<rparr>) = pmm_ok h st"
  "pmm_ok h st \<Longrightarrow> pmm_ok h (st\<lparr>cached_index := 0\<rparr>)"
  by (simp_all add: pmm_ok_def)

lemma first_fit_fields [simp]:
  "first_fit (st\<lparr>pmm_lock := l\<rparr>) = first_fit st"
  "first_fit (st\<lparr>cached_index := c\<rparr>) = first_fit st"
  by (simp_all add: first_fit_def fun_eq_iff)

lemma palloc_takes:
  assumes inv: "pmm_inv h st" and p: "unat pages < 2 ^ 63"
  shows "\<exists>st'. palloc h pages st = Some (frame_ptr h (palloc_choice st (unat pages)), st') \<and>
    takes (palloc_choice st (unat pages)) (unat pages) (bitmap st) (bitmap st') \<and>
    pmm_inv h st' \<and> bitmap_max_entries st' = bitmap_max_entries st"
proof -
  let ?p = "unat pages"
  let ?st = "st\<lparr>pmm_lock := 1\<rparr>" and ?r = "first_fit st ?p (unat (cached_index st))"
  have ok: "pmm_ok h st" and free: "pmm_lock st = 0" using inv by (simp_all add: pmm_inv_def)
  obtain st1 where s1: "palloc_internal h pages ?st = Some (frame_ptr h ?r, st1)"
    "takes ?r ?p (bitmap st) (bitmap st1)" "pmm_ok h st1" "pmm_lock st1 = 1"
    "bitmap_max_entries st1 = bitmap_max_entries st"
    using palloc_internal_first_fit [of h ?st pages] ok p by (simp, elim exE conjE) blast
  show ?thesis
  proof (cases ?r)
    case (Some i)
    with frame_ptr_nonzero [OF ok Some] s1 free show ?thesis
      by (simp add: palloc_def palloc_choice_def pmm_inv_def)
  next
    case None
    note t = takes_None [OF s1(2) [unfolded None]]
    have ff: "first_fit st1 ?p 0 = first_fit st ?p 0" using t s1(5) by (simp add: first_fit_def)
    obtain st2 where "palloc_internal h pages (st1\<lparr>cached_index := 0\<rparr>) =
        Some (frame_ptr h (first_fit st ?p 0), st2)"
      "takes (first_fit st ?p 0) ?p (bitmap st1) (bitmap st2)" "pmm_ok h st2" "pmm_lock st2 = 1"
      "bitmap_max_entries st2 = bitmap_max_entries st"
      using palloc_internal_first_fit [of h "st1\<lparr>cached_index := 0\<rparr>" pages] s1(3-5) p ff
      by (simp, elim exE conjE) blast
    then show ?thesis using s1 free None t
      by (simp add: palloc_def palloc_choice_def pmm_inv_def takes_def frame_ptr_def)
  qed
qed

text \<open>\<open>pfree\<close> clears the bits of the frames it is given.\<close>

definition frame_no :: "u64 \<Rightarrow> u64 \<Rightarrow> nat" where
  "frame_no h base = unat (base - h) div 4096"

lemma frame_no_step:
  fixes b :: u64
  assumes "unat b div 4096 + k < 2 ^ 52"
  shows "unat (b + of_nat k * PAGE_SIZE_BYTES) div 4096 = unat b div 4096 + k"
proof -
  have k: "unat (of_nat k :: u64) = k" using assms by (simp add: unat_of_nat_small)
  have d: "unat b = unat b div 4096 * 4096 + unat b mod 4096" by simp
  have m: "unat b mod 4096 < 4096" by simp
  have "unat b div 4096 + k < 4503599627370496" using assms by simp
  with d m have "unat b + k * 4096 < 18446744073709551616" by linarith
  then have s: "unat b + k * 4096 < 2 ^ 64" by simp
  then have "unat (of_nat k * PAGE_SIZE_BYTES) = k * 4096"
    using k unat_mult_small [of "of_nat k :: u64" PAGE_SIZE_BYTES] by (simp add: PAGE_SIZE_BYTES_def)
  then have "unat (b + of_nat k * PAGE_SIZE_BYTES) = unat b + k * 4096"
    using s unat_add_small [of b "of_nat k * PAGE_SIZE_BYTES"] by simp
  then show ?thesis by simp
qed

definition drops :: "nat \<Rightarrow> nat \<Rightarrow> u8 list \<Rightarrow> u8 list \<Rightarrow> bool" where
  "drops i p bm bm' \<longleftrightarrow> length bm' = length bm \<and>
     (\<forall>m. frame_bit bm' m \<longleftrightarrow> frame_bit bm m \<and> \<not> (i \<le> m \<and> m < i + p))"

lemma drops_zero [simp]: "drops i 0 bm bm"
  by (auto simp: drops_def)

lemma bitmap_reset_drops:
  assumes "drops i k bm t" "unat a div 4096 = i + k" "i + k < 8 * length bm"
  shows "\<exists>t'. bitmap_reset t a = Some t' \<and> drops i (Suc k) bm t'"
proof -
  have l: "length t = length bm"
    and f: "frame_bit t m \<longleftrightarrow> frame_bit bm m \<and> \<not> (i \<le> m \<and> m < i + k)" for m
    using assms(1) by (simp_all add: drops_def)
  obtain t' where t': "bitmap_reset t a = Some t'" "length t' = length t"
    "\<And>m. frame_bit t' m \<longleftrightarrow> m \<noteq> i + k \<and> frame_bit t m"
    using bitmap_reset_frame [of a t] assms(2,3) l by auto
  have "frame_bit t' m \<longleftrightarrow> frame_bit bm m \<and> \<not> (i \<le> m \<and> m < i + Suc k)" for m
    unfolding t'(3) f by auto
  with t'(1,2) l show ?thesis by (simp add: drops_def)
qed

lemma pfree_drops:
  assumes inv: "pmm_inv h st" and i: "frame_no h base + unat pages \<le> max_frames st"
  shows "\<exists>st'. pfree h base pages st = Some st' \<and> pmm_inv h st' \<and>
    drops (frame_no h base) (unat pages) (bitmap st) (bitmap st') \<and>
    cached_index st' = cached_index st \<and> bitmap_max_entries st' = bitmap_max_entries st"
proof -
  let ?i = "frame_no h base" and ?bm = "bitmap st"
  have ok: "max_frames st \<le> 8 * length ?bm" "max_frames st < 2 ^ 52" "pmm_lock st = 0"
    using inv by (simp_all add: pmm_inv_def pmm_ok_def)
  let ?body = "\<lambda>idx (addr, bm). do {
         bm' \<leftarrow> bitmap_reset bm (addr - h);
         Some (addr + PAGE_SIZE_BYTES, bm') }"
  let ?I = "\<lambda>k t. fst t = base + of_nat k * PAGE_SIZE_BYTES \<and> drops ?i k ?bm (snd t)"
  have "\<exists>t. for_loop 0 (unat pages) ?body (base, ?bm) = Some t \<and> ?I (unat pages) t"
  proof (rule for_loop_rule)
    fix k t assume k: "k < unat pages" and I: "?I k t"
    have e: "fst t - h = (base - h) + of_nat k * PAGE_SIZE_BYTES" using I by simp
    have n: "unat (fst t - h) div 4096 = ?i + k"
      unfolding e frame_no_def using i k ok by (intro frame_no_step) (simp add: frame_no_def)
    obtain bm' where r: "bitmap_reset (snd t) (fst t - h) = Some bm'" "drops ?i (Suc k) ?bm bm'"
      using bitmap_reset_drops [OF conjunct2 [OF I] n] ok i k by auto
    have "fst t + PAGE_SIZE_BYTES = base + of_nat (Suc k) * PAGE_SIZE_BYTES"
      using I by (simp add: algebra_simps)
    with r show "\<exists>t'. ?body k t = Some t' \<and> ?I (Suc k) t'" by (simp add: case_prod_unfold)
  qed simp_all
  then obtain addr bm where "for_loop 0 (unat pages) ?body (base, ?bm) = Some (addr, bm)"
    "drops ?i (unat pages) ?bm bm" by auto
  then show ?thesis using inv ok(3) by (simp add: pfree_def pmm_inv_def pmm_ok_def drops_def)
qed

section \<open>The allocator contract\<close>

definition used :: "pmm \<Rightarrow> nat set" where
  "used st = {n. n < max_frames st \<and> frame_bit (bitmap st) n}"

text \<open>A block is the pointer \<open>palloc\<close> returned with the number of its pages.\<close>

definition block_frames :: "u64 \<Rightarrow> u64 \<times> u64 \<Rightarrow> nat set" where
  "block_frames h b = {frame_no h (fst b)..<frame_no h (fst b) + unat (snd b)}"

definition palloc_block :: "u64 \<Rightarrow> pmm \<Rightarrow> u64 \<Rightarrow> ((u64 \<times> u64) option \<times> pmm) option" where
  "palloc_block h st n =
     map_option (\<lambda>(ret, st'). (if ret = 0 then None else Some (ret, n), st')) (palloc h n st)"

definition pfree_block :: "u64 \<Rightarrow> pmm \<Rightarrow> u64 \<times> u64 \<Rightarrow> pmm option" where
  "pfree_block h st b = pfree h (fst b) (snd b) st"

definition fits :: "u64 \<Rightarrow> bool" where
  "fits n \<longleftrightarrow> unat n < 2 ^ 63"

lemma frame_no_ptr:
  assumes "pmm_ok h st" "palloc_choice st p = Some i"
  shows "frame_no h (frame_ptr h (Some i)) = i"
proof -
  have "i < 2 ^ 52" using palloc_choice_Some [OF assms(2)] assms(1) by (simp add: pmm_ok_def)
  then show ?thesis
    using frame_of_index [of 0 i] by (simp add: frame_no_def frame_ptr_def)
qed

lemma palloc_used:
  assumes "pmm_inv h st" "unat n < 2 ^ 63"
  shows "\<exists>st'. palloc h n st = Some (frame_ptr h (palloc_choice st (unat n)), st') \<and> pmm_inv h st' \<and>
    max_frames st' = max_frames st \<and> length (bitmap st') = length (bitmap st) \<and>
    used st' = used st \<union>
      (case palloc_choice st (unat n) of None \<Rightarrow> {} | Some i \<Rightarrow> {i..<i + unat n}) \<and>
    (case palloc_choice st (unat n) of None \<Rightarrow> {} | Some i \<Rightarrow> {i..<i + unat n}) \<inter> used st = {}"
proof -
  obtain st' where st': "palloc h n st = Some (frame_ptr h (palloc_choice st (unat n)), st')"
    "takes (palloc_choice st (unat n)) (unat n) (bitmap st) (bitmap st')" "pmm_inv h st'"
    "bitmap_max_entries st' = bitmap_max_entries st"
    using palloc_takes [OF assms] by blast
  have l: "length (bitmap st') = length (bitmap st)" using st'(2) by (simp add: takes_def)
  show ?thesis
  proof (cases "palloc_choice st (unat n)")
    case None
    from takes_None(2) [OF st'(2) [unfolded None]] None st' l show ?thesis by (simp add: used_def)
  next
    case (Some i)
    have i: "i + unat n < max_frames st" "\<And>m. i \<le> m \<Longrightarrow> m < i + unat n \<Longrightarrow> \<not> frame_bit (bitmap st) m"
      using palloc_choice_Some [OF Some] by (auto simp: run_free_def)
    have f: "frame_bit (bitmap st') m \<longleftrightarrow> frame_bit (bitmap st) m \<or> i \<le> m \<and> m < i + unat n" for m
      using st'(2) Some by (auto simp: takes_def)
    have "used st' = used st \<union> {i..<i + unat n}"
      using i(1) unfolding used_def f st'(4) by auto
    moreover have "{i..<i + unat n} \<inter> used st = {}" using i(2) by (auto simp: used_def)
    ultimately show ?thesis using Some st' l by simp
  qed
qed

lemma pfree_used:
  assumes "pmm_inv h st" "block_frames h (base, n) \<subseteq> used st"
  shows "\<exists>st'. pfree h base n st = Some st' \<and> pmm_inv h st' \<and>
    max_frames st' = max_frames st \<and> used st' = used st - block_frames h (base, n)"
proof (cases "n = 0")
  case True
  with assms(1) show ?thesis
    by (simp add: pfree_def pmm_inv_def pmm_ok_def block_frames_def used_def)
next
  case False
  let ?i = "frame_no h base"
  have pos: "0 < unat n" using False by (simp add: unat_gt_0)
  then have "?i + unat n - 1 \<in> block_frames h (base, n)" by (simp add: block_frames_def)
  with assms(2) have "?i + unat n - 1 < max_frames st" by (auto simp: used_def)
  with pos have "?i + unat n \<le> max_frames st" by linarith
  from pfree_drops [OF assms(1) this] obtain st' where st': "pfree h base n st = Some st'" "pmm_inv h st'"
    "drops ?i (unat n) (bitmap st) (bitmap st')" "bitmap_max_entries st' = bitmap_max_entries st" by blast
  have f: "frame_bit (bitmap st') m \<longleftrightarrow> frame_bit (bitmap st) m \<and> \<not> (?i \<le> m \<and> m < ?i + unat n)" for m
    using st'(3) by (simp add: drops_def)
  have "used st' = used st - block_frames h (base, n)"
    unfolding used_def f st'(4) block_frames_def by auto
  with st' show ?thesis by simp
qed

interpretation pmm: frame_allocator "pmm_inv h" used "block_frames h" fits "palloc_block h" "pfree_block h"
  for h
proof unfold_locales
  fix s n
  assume inv: "pmm_inv h s" and fit: "fits n"
  have ok: "pmm_ok h s" using inv by (simp add: pmm_inv_def)
  show "\<exists>r s'. palloc_block h s n = Some (r, s') \<and> pmm_inv h s' \<and>
      (case r of None \<Rightarrow> used s' = used s
       | Some b \<Rightarrow> block_frames h b \<inter> used s = {} \<and> card (block_frames h b) = unat n \<and>
           used s' = used s \<union> block_frames h b)"
  proof -
    let ?c = "palloc_choice s (unat n)"
    let ?r = "map_option (\<lambda>i. (frame_ptr h (Some i), n)) ?c"
    obtain s' where s': "palloc h n s = Some (frame_ptr h ?c, s')" "pmm_inv h s'"
      "used s' = used s \<union> (case ?c of None \<Rightarrow> {} | Some i \<Rightarrow> {i..<i + unat n})"
      "(case ?c of None \<Rightarrow> {} | Some i \<Rightarrow> {i..<i + unat n}) \<inter> used s = {}"
      using palloc_used [OF inv, of n] fit by (auto simp: fits_def)
    have "palloc_block h s n = Some (?r, s')"
      using s'(1) frame_ptr_choice(1) [OF ok, of "unat n"]
      by (cases ?c) (simp_all add: palloc_block_def)
    with s' frame_no_ptr [OF ok, of "unat n"] show ?thesis
      by (intro exI [of _ ?r] exI [of _ s']) (cases ?c, simp_all add: block_frames_def)
  qed
next
  fix s b
  assume "pmm_inv h s" "block_frames h b \<subseteq> used s"
  then show "\<exists>s'. pfree_block h s b = Some s' \<and> pmm_inv h s' \<and> used s' = used s - block_frames h b"
    using pfree_used [of h s "fst b" "snd b"] by (auto simp: pfree_block_def)
qed

section \<open>Initialisation\<close>

text \<open>
  What the Limine protocol promises of the memory map: usable entries are page aligned, do not
  wrap around the address space, are sorted by address and do not overlap one another.
\<close>

abbreviation me_end :: "limine_memmap_entry \<Rightarrow> nat" where
  "me_end e \<equiv> unat (me_base e) + unat (me_length e)"

definition entry_ok :: "limine_memmap_entry \<Rightarrow> bool" where
  "entry_ok e \<longleftrightarrow> (usable e \<longrightarrow> 4096 dvd unat (me_base e) \<and> 4096 dvd unat (me_length e) \<and>
     me_end e < 2 ^ 64)"

definition memmap_ok :: "limine_memmap_entry list \<Rightarrow> bool" where
  "memmap_ok entries \<longleftrightarrow> list_all entry_ok entries \<and>
     sorted_wrt (\<lambda>e f. usable e \<longrightarrow> usable f \<longrightarrow> me_end e \<le> unat (me_base f)) entries"

text \<open>The frames of an entry.\<close>

definition entry_frames :: "limine_memmap_entry \<Rightarrow> nat set" where
  "entry_frames e =
     (if usable e then {unat (me_base e) div 4096..<me_end e div 4096} else {})"

lemma max_address_snoc:
  "max_address (es @ [e]) = (if usable e then me_base e + me_length e else max_address es)"
  by (simp add: max_address_def)

lemma max_address_ge:
  assumes "memmap_ok entries" "e \<in> set entries" "usable e"
  shows "me_end e \<le> unat (max_address entries)"
  using assms
proof (induction entries arbitrary: e rule: rev_induct)
  case Nil
  then show ?case by simp
next
  case (snoc f es)
  have ok: "memmap_ok es" "entry_ok f" and le: "usable f \<Longrightarrow> e \<in> set es \<Longrightarrow> me_end e \<le> unat (me_base f)"
    using snoc.prems by (auto simp: memmap_ok_def sorted_wrt_append)
  have fin: "unat (me_base f + me_length f) = me_end f" if "usable f"
    using ok(2) that by (intro unat_add_small) (simp add: entry_ok_def)
  show ?case
  proof (cases "e = f")
    case True
    then show ?thesis using snoc.prems(3) fin by (simp add: max_address_snoc)
  next
    case False
    then have "e \<in> set es" using snoc.prems(2) by simp
    then show ?thesis
      using snoc.IH [OF ok(1)] snoc.prems(3) le fin by (fastforce simp: max_address_snoc)
  qed
qed

lemma place_bitmap_Some:
  assumes "place_bitmap h sz entries = Some (addr, entries')"
  shows "\<exists>xs e ys. entries = xs @ e # ys \<and> usable e \<and> sz < me_length e \<and> addr = me_base e + h \<and>
    entries' = xs @ e\<lparr>me_base := me_base e + sz, me_length := me_length e - sz\<rparr> # ys"
  using assms
proof (induction h sz entries arbitrary: entries' rule: place_bitmap.induct)
  case (1 h sz)
  then show ?case by simp
next
  case (2 h sz e es)
  show ?case
  proof (cases "usable e \<and> sz < me_length e")
    case True
    with "2.prems" show ?thesis by (intro exI [of _ "[]"] exI [of _ e] exI [of _ es]) auto
  next
    case False
    with "2.prems" obtain es' where es': "place_bitmap h sz es = Some (addr, es')" "entries' = e # es'"
      by (auto split: if_splits)
    from "2.IH" [OF False es'(1)] obtain xs f ys where
      "es = xs @ f # ys" "usable f" "sz < me_length f" "addr = me_base f + h"
      "es' = xs @ f\<lparr>me_base := me_base f + sz, me_length := me_length f - sz\<rparr> # ys" by blast
    with es'(2) show ?thesis by (intro exI [of _ "e # xs"] exI [of _ f] exI [of _ ys]) simp
  qed
qed

lemma place_bitmap_total:
  "\<exists>e\<in>set entries. usable e \<and> sz < me_length e \<Longrightarrow> \<exists>r. place_bitmap h sz entries = Some r"
  by (induction h sz entries rule: place_bitmap.induct) auto

text \<open>The rounding of \<open>palign\<close>: whole pages, with a bit for every frame.\<close>

lemma word_ceil_div:
  fixes x c :: u64
  assumes "0 < unat c" "unat x < 2 ^ 63"
  shows "unat (if x div c * c < x then x div c + 1 else x div c) = (unat x + (unat c - 1)) div unat c"
proof -
  have q: "unat (x div c) = unat x div unat c" by (simp add: unat_div)
  have "unat x div unat c * unat c \<le> unat x" by simp
  then have m: "unat (x div c * c) = unat x div unat c * unat c"
    using unat_mult_small [of "x div c" c] unat_bound [of x] by (simp only: q)
  have le: "unat x div unat c < 2 ^ 63"
    by (rule le_less_trans [OF _ assms(2)]) (rule div_le_dividend)
  have s: "unat (x div c + 1) = Suc (unat x div unat c)"
    using unat_add_small [of "x div c" 1] q le by simp
  show ?thesis
    using ceil_div [OF assms(1), of "unat x"] q m s by (simp add: word_less_nat_alt)
qed

lemma palign_bits:
  assumes "unat frames < 2 ^ 52"
  shows "unat (palign frames) = 4096 * (((unat frames + 7) div 8 + 4095) div 4096)"
proof -
  define bytes where "bytes = (if frames div 8 * 8 < frames then frames div 8 + 1 else frames div 8)"
  define pages where "pages = (if bytes div PAGE_SIZE_BYTES * PAGE_SIZE_BYTES < bytes
    then bytes div PAGE_SIZE_BYTES + 1 else bytes div PAGE_SIZE_BYTES)"
  have b: "unat bytes = (unat frames + 7) div 8"
    unfolding bytes_def using word_ceil_div [of 8 frames] assms by simp
  have "unat bytes < 2 ^ 63" using b assms by simp
  then have p: "unat pages = (unat bytes + 4095) div 4096"
    unfolding pages_def using word_ceil_div [of PAGE_SIZE_BYTES bytes] by (simp add: PAGE_SIZE_BYTES_def)
  have "unat (pages * PAGE_SIZE_BYTES) = unat pages * 4096"
    using unat_mult_small [of pages PAGE_SIZE_BYTES] p b assms by (simp add: PAGE_SIZE_BYTES_def)
  moreover have "palign frames = pages * PAGE_SIZE_BYTES"
    by (simp add: palign_def Let_def bytes_def pages_def)
  ultimately show ?thesis using p b by simp
qed

lemma free_entry_drops:
  assumes "entry_ok e" "usable e" "me_end e \<le> 4096 * (8 * length bm)"
  shows "\<exists>bm'. word_loop 0 (me_length e) PAGE_SIZE_BYTES
      (\<lambda>jdx bm. bitmap_reset bm (me_base e + jdx)) bm = Some bm' \<and>
    drops (unat (me_base e) div 4096) (unat (me_length e) div 4096) bm bm'"
proof -
  let ?b = "unat (me_base e) div 4096" and ?n = "unat (me_length e) div 4096"
  have al: "unat (me_base e) = 4096 * ?b" "unat (me_length e) = 4096 * ?n"
    and fin: "me_end e < 2 ^ 64" using assms(1,2) by (simp_all add: entry_ok_def)
  have sum: "?b + ?n \<le> 8 * length bm" using al assms(3) by linarith
  have small: "?b + ?n < 2 ^ 52"
  proof -
    have "me_end e < 18446744073709551616" using fin by simp
    then have "?b + ?n < 4503599627370496" using al by linarith
    then show ?thesis by simp
  qed
  have "word_loop 0 (me_length e) PAGE_SIZE_BYTES (\<lambda>jdx bm. bitmap_reset bm (me_base e + jdx)) bm =
      for_loop 0 ?n (\<lambda>i bm. bitmap_reset bm (me_base e + (0 + of_nat i * PAGE_SIZE_BYTES))) bm"
    using al fin by (intro word_loop_for_loop) (auto simp: PAGE_SIZE_BYTES_def)
  moreover have "\<exists>bm'. for_loop 0 ?n
      (\<lambda>i bm. bitmap_reset bm (me_base e + (0 + of_nat i * PAGE_SIZE_BYTES))) bm = Some bm' \<and>
      drops ?b ?n bm bm'"
  proof (rule for_loop_rule)
    fix k t assume k: "k < ?n" and t: "drops ?b k bm t"
    have "unat (me_base e + of_nat k * PAGE_SIZE_BYTES) div 4096 = ?b + k"
      using k small by (intro frame_no_step) linarith
    then show "\<exists>t'. bitmap_reset t (me_base e + (0 + of_nat k * PAGE_SIZE_BYTES)) = Some t' \<and>
        drops ?b (Suc k) bm t'"
      using bitmap_reset_drops [OF t] k sum by simp
  qed simp_all
  ultimately show ?thesis by simp
qed

lemma entry_frames_eq:
  assumes "entry_ok e" "usable e"
  shows "entry_frames e = {unat (me_base e) div 4096..<unat (me_base e) div 4096 + unat (me_length e) div 4096}"
  using assms by (simp add: entry_frames_def entry_ok_def div_plus_div_distrib_dvd_left)

lemma free_entries_bits:
  assumes "list_all entry_ok es" "\<forall>e\<in>set es. usable e \<longrightarrow> me_end e \<le> 4096 * (8 * length bm)"
  shows "\<exists>bm'. free_entries es bm = Some bm' \<and> length bm' = length bm \<and>
    (\<forall>m. frame_bit bm' m \<longleftrightarrow> frame_bit bm m \<and> m \<notin> (\<Union>e\<in>set es. entry_frames e))"
  using assms
proof (induction es arbitrary: bm)
  case Nil
  then show ?case by simp
next
  case (Cons e es)
  show ?case
  proof (cases "usable e")
    case True
    obtain bm1 where b1: "word_loop 0 (me_length e) PAGE_SIZE_BYTES
        (\<lambda>jdx bm. bitmap_reset bm (me_base e + jdx)) bm = Some bm1"
      "drops (unat (me_base e) div 4096) (unat (me_length e) div 4096) bm bm1"
      using free_entry_drops [of e bm] Cons.prems True by auto
    have l: "length bm1 = length bm"
      and f: "frame_bit bm1 m \<longleftrightarrow> frame_bit bm m \<and> m \<notin> entry_frames e" for m
      using b1(2) entry_frames_eq [of e] Cons.prems(1) True by (simp_all add: drops_def)
    obtain bm2 where "free_entries es bm1 = Some bm2" "length bm2 = length bm1"
      "\<And>m. frame_bit bm2 m \<longleftrightarrow> frame_bit bm1 m \<and> m \<notin> (\<Union>e\<in>set es. entry_frames e)"
      using Cons.IH [of bm1] Cons.prems l by auto
    with b1(1) True l f show ?thesis by simp
  next
    case False
    then have "entry_frames e = {}" by (simp add: entry_frames_def)
    with False Cons show ?thesis by simp
  qed
qed

lemma frame_bit_full: "n < 8 * k \<Longrightarrow> frame_bit (replicate k 0xFF) n"
proof -
  assume "n < 8 * k"
  moreover have "bit (255 :: u8) i" if "i < 8" for i
  proof -
    have "(255 :: u8) = mask 8" by (simp add: mask_eq_exp_minus_1)
    then show ?thesis using that by (simp only: bit_mask_iff) simp
  qed
  ultimately show ?thesis by (simp add: frame_bit_def less_mult_imp_div_less)
qed

text \<open>Carving the bitmap out of an entry leaves the map well formed.\<close>

lemma carve_entry:
  assumes "entry_ok e" "usable e" "sz < me_length e" "4096 dvd unat sz"
  defines "e' \<equiv> e\<lparr>me_base := me_base e + sz, me_length := me_length e - sz\<rparr>"
  shows "usable e'" and "entry_ok e'" and "me_end e' = me_end e"
    and "unat (me_base e') = unat (me_base e) + unat sz"
proof -
  have e: "4096 dvd unat (me_base e)" "4096 dvd unat (me_length e)" "me_end e < 2 ^ 64"
    using assms(1,2) by (simp_all add: entry_ok_def)
  have lt: "unat sz < unat (me_length e)" using assms(3) by (simp add: word_less_nat_alt)
  have b: "unat (me_base e + sz) = unat (me_base e) + unat sz"
    using e(3) lt by (intro unat_add_small) simp
  have l: "unat (me_length e - sz) = unat (me_length e) - unat sz"
    using lt by (intro unat_sub) (simp add: word_le_nat_alt)
  show "usable e'" using assms(2) by (simp add: e'_def)
  show "unat (me_base e') = unat (me_base e) + unat sz" using b by (simp add: e'_def)
  show end': "me_end e' = me_end e" using b l lt by (simp add: e'_def)
  show "entry_ok e'"
    unfolding entry_ok_def end' using e b l lt assms(4) by (auto simp: e'_def)
qed

text \<open>The frames the bitmap itself lies in.\<close>

definition bitmap_frames :: "u64 \<Rightarrow> pmm \<Rightarrow> nat set" where
  "bitmap_frames h st = {frame_no h (bitmap_addr st)..<
     frame_no h (bitmap_addr st) + unat (bitmap_size_aligned st) div 4096}"

lemma carved_frames:
  assumes ok: "memmap_ok (xs @ e # ys)" and e: "usable e" "sz < me_length e" "4096 dvd unat sz"
  defines "e' \<equiv> e\<lparr>me_base := me_base e + sz, me_length := me_length e - sz\<rparr>"
    and "B \<equiv> {unat (me_base e) div 4096..<unat (me_base e) div 4096 + unat sz div 4096}"
  shows "(\<Union>x\<in>set (xs @ e' # ys). entry_frames x) = (\<Union>x\<in>set (xs @ e # ys). entry_frames x) - B"
    and "B \<subseteq> entry_frames e"
proof -
  have eo: "entry_ok e" using ok by (simp add: memmap_ok_def)
  note c = carve_entry [OF eo e, folded e'_def]
  have base': "unat (me_base e') div 4096 = unat (me_base e) div 4096 + unat sz div 4096"
    using c(4) e(3) eo e(1) by (simp add: entry_ok_def div_plus_div_distrib_dvd_left)
  have "unat sz < unat (me_length e)" using e(2) by (simp add: word_less_nat_alt)
  then have "unat (me_base e') \<le> me_end e" using c(4) by simp
  then have le: "unat (me_base e) div 4096 + unat sz div 4096 \<le> me_end e div 4096"
    unfolding base' [symmetric] by (rule div_le_mono)
  have fe': "entry_frames e' = entry_frames e - B"
    using base' c(1,3) e(1) le by (auto simp: entry_frames_def B_def)
  show Be: "B \<subseteq> entry_frames e" using le e(1) by (auto simp: entry_frames_def B_def)
  have "entry_frames x \<inter> entry_frames e = {}" if "x \<in> set xs \<union> set ys" for x
  proof (cases "usable x")
    case True
    with that ok e(1) have "me_end x \<le> unat (me_base e) \<or> me_end e \<le> unat (me_base x)"
      by (auto simp: memmap_ok_def sorted_wrt_append)
    then have "me_end x div 4096 \<le> unat (me_base e) div 4096 \<or>
        me_end e div 4096 \<le> unat (me_base x) div 4096" by (metis div_le_mono)
    then show ?thesis using e(1) by (auto simp: entry_frames_def)
  qed (simp add: entry_frames_def)
  with Be have "entry_frames x \<inter> B = {}" if "x \<in> set xs \<union> set ys" for x using that by blast
  then show "(\<Union>x\<in>set (xs @ e' # ys). entry_frames x) = (\<Union>x\<in>set (xs @ e # ys). entry_frames x) - B"
    unfolding set_append list.set(2) using fe' by blast
qed

lemma palign_covers:
  assumes "unat frames < 2 ^ 52"
  shows "unat frames \<le> 8 * unat (palign frames)" "4096 dvd unat (palign frames)"
proof -
  have up: "y \<le> (y + (c - 1)) div c * c" if "0 < c" for y c :: nat
  proof -
    have "y + (c - 1) = (y + (c - 1)) div c * c + (y + (c - 1)) mod c" by simp
    moreover have "(y + (c - 1)) mod c < c" using that by simp
    ultimately show ?thesis using that by linarith
  qed
  have "unat frames \<le> (unat frames + 7) div 8 * 8" using up [of 8 "unat frames"] by simp
  moreover have "(unat frames + 7) div 8 \<le> ((unat frames + 7) div 8 + 4095) div 4096 * 4096"
    using up [of 4096 "(unat frames + 7) div 8"] by simp
  ultimately show "unat frames \<le> 8 * unat (palign frames)"
    unfolding palign_bits [OF assms] by linarith
  show "4096 dvd unat (palign frames)" by (simp add: palign_bits [OF assms])
qed

lemma carved_bounds:
  assumes ok: "memmap_ok (xs @ e # ys)" and e: "usable e" "sz < me_length e" "4096 dvd unat sz"
  defines "e' \<equiv> e\<lparr>me_base := me_base e + sz, me_length := me_length e - sz\<rparr>"
  shows "list_all entry_ok (xs @ e' # ys)"
    and "x \<in> set (xs @ e' # ys) \<Longrightarrow> usable x \<Longrightarrow> me_end x \<le> unat (max_address (xs @ e # ys))"
proof -
  have eo: "entry_ok e" using ok by (simp add: memmap_ok_def)
  note c = carve_entry [OF eo e, folded e'_def]
  show "list_all entry_ok (xs @ e' # ys)" using ok c(2) by (simp add: memmap_ok_def)
  show "me_end x \<le> unat (max_address (xs @ e # ys))" if "x \<in> set (xs @ e' # ys)" "usable x"
    using that max_address_ge [OF ok, of x] max_address_ge [OF ok, of e] c(3) e(1) by auto
qed

lemma init_pmm_frames:
  assumes ok: "memmap_ok entries"
    and big: "\<exists>e\<in>set entries. usable e \<and> palign (max_address entries div PAGE_SIZE_BYTES) < me_length e"
    and st: "pmm_lock st = 0" "cached_index st = 0"
    and h: "0 < unat h" "unat h + unat (max_address entries) \<le> 2 ^ 64"
  shows "\<exists>st' entries'. init_pmm h entries st = Some (st', entries') \<and> pmm_inv h st' \<and>
    max_frames st' = unat (max_address entries) div 4096 \<and>
    {..<max_frames st'} - used st' = (\<Union>e\<in>set entries. entry_frames e) - bitmap_frames h st' \<and>
    bitmap_frames h st' \<subseteq> (\<Union>e\<in>set entries. entry_frames e)"
proof -
  let ?top = "unat (max_address entries)"
  let ?f = "max_address entries div PAGE_SIZE_BYTES"
  have f: "unat ?f = ?top div 4096" by (rule unat_div_page)
  have small: "unat ?f < 2 ^ 52" using f unat_bound [of "max_address entries"] by simp
  note pa = palign_covers [OF small]
  obtain addr entries' where pl: "place_bitmap h (palign ?f) entries = Some (addr, entries')"
    using place_bitmap_total [OF big] by fastforce
  obtain xs e ys where sp: "entries = xs @ e # ys" "usable e" "palign ?f < me_length e"
    "addr = me_base e + h"
    "entries' = xs @ e\<lparr>me_base := me_base e + palign ?f, me_length := me_length e - palign ?f\<rparr> # ys"
    using place_bitmap_Some [OF pl] by blast
  note cb = carved_bounds [OF ok [unfolded sp(1)] sp(2,3) pa(2), folded sp(1) sp(5)]
  note cf = carved_frames [OF ok [unfolded sp(1)] sp(2,3) pa(2), folded sp(1) sp(5)]
  let ?B = "{unat (me_base e) div 4096..<unat (me_base e) div 4096 + unat (palign ?f) div 4096}"
  have top: "me_end x \<le> 4096 * unat ?f" if "x \<in> set entries'" "usable x" for x
  proof -
    have "4096 dvd me_end x" using cb(1) that by (auto simp: list_all_iff entry_ok_def)
    then obtain k where k: "me_end x = 4096 * k" by (auto simp: dvd_def)
    moreover have "4096 * k \<le> ?top" using cb(2) [OF that] k by simp
    ultimately show ?thesis unfolding f by (simp add: less_eq_div_iff_mult_less_eq mult.commute)
  qed
  obtain bm where bm: "free_entries entries' (replicate (unat (palign ?f)) 0xFF) = Some bm"
    "length bm = unat (palign ?f)"
    "\<And>m. frame_bit bm m \<longleftrightarrow> frame_bit (replicate (unat (palign ?f)) 0xFF) m \<and>
      m \<notin> (\<Union>e\<in>set entries'. entry_frames e)"
    using free_entries_bits [OF cb(1), of "replicate (unat (palign ?f)) 0xFF"] top pa(1)
    by (fastforce simp: le_trans)
  define st' where "st' = st\<lparr>bitmap_max_entries := ?f, bitmap_size_aligned := palign ?f,
    bitmap_addr := addr, bitmap := bm\<rparr>"
  have run: "init_pmm h entries st = Some (st', entries')"
    by (simp add: init_pmm_def Let_def pl bm(1) st'_def)
  have "4096 * unat ?f \<le> ?top" unfolding f by (rule times_div_less_eq_dividend)
  then have inv: "pmm_inv h st'"
    using st h bm(2) pa(1) small by (simp add: pmm_inv_def pmm_ok_def st'_def)
  have mf: "max_frames st' = unat ?f" by (simp add: st'_def)
  have B: "bitmap_frames h st' = ?B" by (simp add: bitmap_frames_def st'_def sp(4) frame_no_def)
  have lt: "m < unat ?f" if "m \<in> entry_frames x" "x \<in> set entries'" for m x
    using that top [of x] by (auto simp: entry_frames_def split: if_splits)
  have "{..<max_frames st'} - used st' = (\<Union>x\<in>set entries'. entry_frames x)"
    using lt pa(1) frame_bit_full [of _ "unat (palign ?f)"]
    unfolding used_def mf by (auto simp: st'_def bm(3))
  then have "{..<max_frames st'} - used st' = (\<Union>x\<in>set entries. entry_frames x) - ?B"
    using cf(1) by simp
  moreover have "?B \<subseteq> (\<Union>x\<in>set entries. entry_frames x)" using cf(2) sp(1) by auto
  ultimately show ?thesis using run inv mf f B by auto
qed

section \<open>The runs that palloc considers\<close>

definition considered :: "pmm \<Rightarrow> nat \<Rightarrow> nat \<Rightarrow> bool" where
  "considered st p i \<longleftrightarrow> i + p < max_frames st"

definition blocked :: "pmm \<Rightarrow> nat \<Rightarrow> nat \<Rightarrow> bool" where
  "blocked st p i \<longleftrightarrow> (\<exists>n\<in>used st. i \<le> n \<and> n < i + p)"

lemma blocked_iff: "i + p < max_frames st \<Longrightarrow> blocked st p i \<longleftrightarrow> \<not> run_free (bitmap st) p i"
  by (auto simp: blocked_def run_free_def used_def) (meson less_trans)

lemma first_fit_blocked:
  "first_fit st p lo = Some i \<Longrightarrow> lo \<le> j \<Longrightarrow> j < i \<Longrightarrow> blocked st p j"
  using first_fit_Some [of st p lo i]
  by (fastforce simp: first_fit_def find_Some_iff blocked_iff nth_upt dest: spec [of _ "j - lo"])

lemma first_fit_from: "first_fit st p lo = Some i \<Longrightarrow> lo \<le> i"
  by (auto simp: first_fit_def find_Some_iff)

lemma first_fit_none_blocked:
  "first_fit st p lo = None \<Longrightarrow> lo \<le> j \<Longrightarrow> considered st p j \<Longrightarrow> blocked st p j"
  by (auto simp: first_fit_def find_None_iff considered_def blocked_iff)

lemma palloc_choice_next:
  assumes "palloc_choice st p = Some i"
  shows "if unat (cached_index st) \<le> i
    then \<forall>j. unat (cached_index st) \<le> j \<and> j < i \<longrightarrow> blocked st p j
    else (\<forall>j. unat (cached_index st) \<le> j \<and> considered st p j \<longrightarrow> blocked st p j) \<and>
      (\<forall>j < i. blocked st p j)"
proof (cases "first_fit st p (unat (cached_index st))")
  case None
  with assms have "first_fit st p 0 = Some i" by (simp add: palloc_choice_def)
  with None show ?thesis
    using first_fit_blocked [of st p 0 i] first_fit_none_blocked [OF None] by auto
next
  case (Some k)
  with assms show ?thesis
    using first_fit_from [OF Some] first_fit_blocked [OF Some] by (auto simp: palloc_choice_def)
qed

section \<open>Properties\<close>

text \<open>
  C10: \<open>palloc\<close> is next fit. The runs it considers are those that end before the last frame, since
  \<open>pmm.c:158\<close> compares with \<open><\<close>: the last frame is never handed out. For every request below
  \<open>2 ^ 63\<close> pages it returns the higher-half address of the first free run from the cached index, or,
  when none of the considered runs from there on is free, of the first one from frame 0. It marks
  exactly that run, none of whose frames was in use, and keeps the invariant. It returns \<open>NULL\<close>
  exactly when every considered run has a frame in use, and then no frame changes.
\<close>

theorem palloc_next_fit:
  assumes "pmm_inv h st" "unat pages < 2 ^ 63"
  shows "\<exists>ret st'. palloc h pages st = Some (ret, st') \<and> pmm_inv h st' \<and>
    (ret = 0 \<longleftrightarrow> (\<forall>j. considered st (unat pages) j \<longrightarrow> blocked st (unat pages) j)) \<and>
    (ret = 0 \<longrightarrow> used st' = used st) \<and>
    (ret \<noteq> 0 \<longrightarrow> (\<exists>i. unat ret = unat h + 4096 * i \<and>
       considered st (unat pages) i \<and> {i..<i + unat pages} \<inter> used st = {} \<and>
       used st' = used st \<union> {i..<i + unat pages} \<and> max_frames st - 1 \<notin> {i..<i + unat pages} \<and>
       (if unat (cached_index st) \<le> i
        then \<forall>j. unat (cached_index st) \<le> j \<and> j < i \<longrightarrow> blocked st (unat pages) j
        else (\<forall>j. unat (cached_index st) \<le> j \<and> considered st (unat pages) j \<longrightarrow> blocked st (unat pages) j) \<and>
          (\<forall>j < i. blocked st (unat pages) j))))"
proof -
  have ok: "pmm_ok h st" using assms(1) by (simp add: pmm_inv_def)
  obtain st' where st': "palloc h pages st = Some (frame_ptr h (palloc_choice st (unat pages)), st')"
    "pmm_inv h st'" "used st' = used st \<union>
      (case palloc_choice st (unat pages) of None \<Rightarrow> {} | Some i \<Rightarrow> {i..<i + unat pages})"
    "(case palloc_choice st (unat pages) of None \<Rightarrow> {} | Some i \<Rightarrow> {i..<i + unat pages}) \<inter> used st = {}"
    using palloc_used [OF assms] by blast
  have ret0: "frame_ptr h (palloc_choice st (unat pages)) = 0 \<longleftrightarrow>
      (\<forall>j. considered st (unat pages) j \<longrightarrow> blocked st (unat pages) j)"
    using frame_ptr_choice(1) [OF ok, of "unat pages"]
    by (auto simp: palloc_choice_None considered_def blocked_iff)
  show ?thesis
  proof (cases "palloc_choice st (unat pages)")
    case None
    with st' ret0 frame_ptr_choice(1) [OF ok, of "unat pages"] show ?thesis by simp
  next
    case (Some i)
    with st' ret0 frame_ptr_choice [OF ok, of "unat pages"] palloc_choice_Some [OF Some]
      palloc_choice_next [OF Some]
    show ?thesis by (auto simp: considered_def intro!: exI [of _ i])
  qed
qed

text \<open>Eight frames, of which 0 and 2 are in use.\<close>

definition small_pmm :: pmm where
  "small_pmm = \<lparr>bitmap_max_entries = 8, cached_index = 0, bitmap = [5], bitmap_addr = 0,
     bitmap_size_aligned = 4096, pmm_lock = 0\<rparr>"

lemma small_pmm_inv: "pmm_inv 0xFFFF800000000000 small_pmm"
  by (simp add: pmm_inv_def pmm_ok_def small_pmm_def)

lemma small_pmm_bits: "frame_bit [5] n \<longleftrightarrow> n = 0 \<or> n = 2" if "n < 8"
proof -
  have "n \<in> set [0..<8]" using that by simp
  then show ?thesis by (simp add: upt_rec frame_bit_def) (elim disjE; simp)
qed

lemma small_pmm_run: "run_free [5] 2 i \<longleftrightarrow> 3 \<le> i" if "i < 6"
  using that small_pmm_bits [of i] small_pmm_bits [of "Suc i"]
  by (auto simp: run_free_def numeral_2_eq_2)

theorem palloc_next_fit_witness:
  "\<exists>ret st' i. palloc 0xFFFF800000000000 2 small_pmm = Some (ret, st') \<and>
    pmm_inv 0xFFFF800000000000 st' \<and> unat ret = 0xFFFF800000000000 + 4096 * i \<and> i = 3 \<and>
    used st' = used small_pmm \<union> {i..<i + 2}"
proof -
  have free: "considered small_pmm 2 3" "\<not> blocked small_pmm 2 3"
    using small_pmm_run [of 3] by (auto simp: considered_def blocked_iff small_pmm_def)
  have "unat (cached_index small_pmm) = 0" by (simp add: small_pmm_def)
  with palloc_next_fit [OF small_pmm_inv, of 2] free obtain ret st' i where r:
    "palloc 0xFFFF800000000000 2 small_pmm = Some (ret, st')" "pmm_inv 0xFFFF800000000000 st'"
    "unat ret = 0xFFFF800000000000 + 4096 * i" "{i..<i + 2} \<inter> used small_pmm = {}"
    "used st' = used small_pmm \<union> {i..<i + 2}" "\<forall>j < i. blocked small_pmm 2 j"
    "considered small_pmm 2 i"
    by auto
  have "\<not> 3 < i" using r(6) free by blast
  moreover have "\<not> blocked small_pmm 2 i" using r(4) by (auto simp: blocked_def)
  then have "3 \<le> i"
    using small_pmm_run [of i] r(7) by (simp add: considered_def blocked_iff small_pmm_def)
  ultimately have "i = 3" by simp
  with r show ?thesis by blast
qed

text \<open>
  Giving a block back undoes its allocation: when \<open>palloc\<close> returned a block, \<open>pfree\<close> of that
  pointer and page count returns and the frames in use are those before the allocation.
\<close>

lemma palloc_pfree_roundtrip:
  assumes "pmm_inv h st" "unat pages < 2 ^ 63" "palloc h pages st = Some (ret, st1)" "ret \<noteq> 0"
  shows "\<exists>st2. pfree h ret pages st1 = Some st2 \<and> pmm_inv h st2 \<and> used st2 = used st"
proof -
  have ok: "pmm_ok h st" using assms(1) by (simp add: pmm_inv_def)
  have r: "ret = frame_ptr h (palloc_choice st (unat pages))" and i: "pmm_inv h st1"
    and u: "used st1 = used st \<union>
      (case palloc_choice st (unat pages) of None \<Rightarrow> {} | Some i \<Rightarrow> {i..<i + unat pages})"
      "(case palloc_choice st (unat pages) of None \<Rightarrow> {} | Some i \<Rightarrow> {i..<i + unat pages}) \<inter> used st = {}"
    using palloc_used [OF assms(1,2)] assms(3) by auto
  obtain k where k: "palloc_choice st (unat pages) = Some k"
    using r assms(4) frame_ptr_choice(1) [OF ok, of "unat pages"] by auto
  then have b: "block_frames h (ret, pages) = {k..<k + unat pages}"
    using frame_no_ptr [OF ok k] r by (simp add: block_frames_def)
  then have "block_frames h (ret, pages) \<subseteq> used st1" using u k by simp
  from pfree_used [OF i this] u k b show ?thesis by auto
qed

text \<open>
  C1: whatever sequence of allocations and releases its clients make, every \<open>palloc\<close> and \<open>pfree\<close>
  returns, and the blocks live at the end are pairwise disjoint sets of frames, all marked in
  use.
\<close>

theorem pmm_live_blocks_disjoint:
  assumes "pmm_inv h st" "\<forall>n\<in>set (sizes ops). unat n < 2 ^ 63"
  shows "\<exists>st' live. run_alloc (palloc_block h) (pfree_block h) st [] ops = Some (st', live) \<and>
    pmm_inv h st' \<and> sorted_wrt (\<lambda>b c. block_frames h b \<inter> block_frames h c = {}) live \<and>
    (\<forall>b\<in>set live. block_frames h b \<subseteq> used st')"
  using pmm.live_disjoint [of h st "[]" ops] assms by (auto simp: pmm.live_ok_def fits_def)

theorem pmm_live_blocks_disjoint_witness:
  "\<exists>st' live. run_alloc (palloc_block 0xFFFF800000000000) (pfree_block 0xFFFF800000000000)
      small_pmm [] [Alloc 1, Alloc 2, Release 0, Alloc 3] = Some (st', live) \<and>
    sorted_wrt (\<lambda>b c. block_frames 0xFFFF800000000000 b \<inter> block_frames 0xFFFF800000000000 c = {}) live"
  using pmm_live_blocks_disjoint [OF small_pmm_inv, of "[Alloc 1, Alloc 2, Release 0, Alloc 3]"]
  by auto

text \<open>
  C34: \<open>init_pmm\<close> on a memory map as the boot protocol describes it, one of whose usable entries
  is larger than the bitmap, establishes the invariant of the allocator, and the frames it
  leaves free are exactly those of the usable entries less the ones the bitmap itself occupies,
  which lie in usable memory.
\<close>

theorem init_pmm_free_frames:
  assumes "memmap_ok entries"
    and "\<exists>e\<in>set entries. usable e \<and> palign (max_address entries div PAGE_SIZE_BYTES) < me_length e"
    and "pmm_lock st = 0" "cached_index st = 0"
    and "0 < unat h" "unat h + unat (max_address entries) \<le> 2 ^ 64"
  shows "\<exists>st' entries'. init_pmm h entries st = Some (st', entries') \<and> pmm_inv h st' \<and>
    {..<max_frames st'} - used st' = (\<Union>e\<in>set entries. entry_frames e) - bitmap_frames h st' \<and>
    bitmap_frames h st' \<subseteq> (\<Union>e\<in>set entries. entry_frames e)"
  using init_pmm_frames [OF assms] by blast

theorem init_pmm_free_frames_witness:
  "\<exists>st' entries'. init_pmm 0xFFFF800000000000 [\<lparr>me_base = 0, me_length = 0x1000, me_type = 1\<rparr>,
      \<lparr>me_base = 0x2000, me_length = 0x4000, me_type = 0\<rparr>] small_pmm = Some (st', entries') \<and>
    pmm_inv 0xFFFF800000000000 st' \<and>
    {..<max_frames st'} - used st' = {2..<6} - bitmap_frames 0xFFFF800000000000 st'"
proof -
  let ?es = "[\<lparr>me_base = 0, me_length = 0x1000, me_type = 1\<rparr>,
      \<lparr>me_base = 0x2000, me_length = 0x4000, me_type = 0\<rparr>]"
  have m: "max_address ?es = 0x6000" by (simp add: max_address_def LIMINE_MEMMAP_USABLE_def)
  have "memmap_ok ?es"
    by (simp add: memmap_ok_def entry_ok_def LIMINE_MEMMAP_USABLE_def)
  moreover have "palign (max_address ?es div PAGE_SIZE_BYTES) < 0x4000"
    by (simp add: m palign_def Let_def PAGE_SIZE_BYTES_def)
  moreover have "(\<Union>e\<in>set ?es. entry_frames e) = {2..<6}"
    by (simp add: entry_frames_def LIMINE_MEMMAP_USABLE_def)
  ultimately show ?thesis
    using init_pmm_free_frames [of ?es small_pmm "0xFFFF800000000000"] m
    by (auto simp: small_pmm_def LIMINE_MEMMAP_USABLE_def)
qed

end
