(* ===== verification/Descriptors.thy ===== *)
theory Descriptors
  imports Spinlock
begin

text \<open>
  \<open>src/kernel/arch/gdt.c\<close> and \<open>src/kernel/arch/idt.c\<close>: the segment and interrupt descriptor
  tables. A packed descriptor is the record of its fields at their widths; the processor's table
  registers are fields of the state, with the value \<open>lgdt\<close>, \<open>lidt\<close> or \<open>ltr\<close> loaded last. The
  decoding functions reassemble a descriptor's address the way the processor does.
\<close>

section \<open>Segment descriptors\<close>

record GDT_Entry =
  limit_low :: u16
  base_low :: u16
  base_middle :: u8
  access_byte :: u8
  flags_limit :: u8
  base_high :: u8

record TSS_Entry =
  tss_limit :: u16
  tss_base_min :: u16
  tss_base_low :: u8
  tss_access :: u8
  tss_flags :: u8
  tss_base_high :: u8
  tss_base_max :: u32
  tss_reserved :: u32

record GDT_Descriptor =
  gdtr_size :: u16
  gdtr_base :: u64

record gdt_state =
  gdt_entry :: "GDT_Entry list"
  tss_entry :: TSS_Entry
  gdt_index :: u64
  gdtr :: GDT_Descriptor
  loaded_gdtr :: "GDT_Descriptor option"
  task_register :: "u16 option"
  tss_lock :: spinlock

definition GDT_ENTRIES :: u64 where "GDT_ENTRIES = 10"
definition GDT_ENTRY_SIZE_BYTES :: u64 where "GDT_ENTRY_SIZE_BYTES = 8"
definition GDT_KERNEL_CODE :: u16 where "GDT_KERNEL_CODE = 0x28"
definition GDT_KERNEL_DATA :: u16 where "GDT_KERNEL_DATA = 0x30"
definition GDT_USER_DATA :: u16 where "GDT_USER_DATA = 0x38"
definition GDT_USER_CODE :: u16 where "GDT_USER_CODE = 0x40"

text \<open>\<open>sizeof(GDT)\<close>: ten entries of 8 bytes and the 16-byte TSS entry; \<open>sizeof(struct TSS)\<close>.\<close>

definition sizeof_GDT :: u16 where "sizeof_GDT = 96"
definition sizeof_TSS :: u16 where "sizeof_TSS = 104"

definition add_gdt_entry :: "GDT_Entry \<Rightarrow> gdt_state \<Rightarrow> gdt_state option" where
  "add_gdt_entry entry st = do {
     es \<leftarrow> wr (gdt_entry st) (unat (gdt_index st)) entry;
     Some (st\<lparr>gdt_entry := es, gdt_index := gdt_index st + 1\<rparr>) }"

definition load_gdt :: "gdt_state \<Rightarrow> gdt_state" where
  "load_gdt st = st\<lparr>loaded_gdtr := Some (gdtr st)\<rparr>"

definition descriptor :: "u16 \<Rightarrow> u8 \<Rightarrow> u8 \<Rightarrow> GDT_Entry" where
  "descriptor lim acc flags = \<lparr>limit_low = lim, base_low = 0, base_middle = 0, access_byte = acc,
     flags_limit = flags, base_high = 0\<rparr>"

definition null_descriptor :: GDT_Entry where "null_descriptor = descriptor 0 0 0"
definition kernel_code16 :: GDT_Entry where "kernel_code16 = descriptor 0xffff 0x9a 0"
definition kernel_data16 :: GDT_Entry where "kernel_data16 = descriptor 0xffff 0x92 0"
definition kernel_code32 :: GDT_Entry where "kernel_code32 = descriptor 0xffff 0x9a 0xcf"
definition kernel_data32 :: GDT_Entry where "kernel_data32 = descriptor 0xffff 0x92 0xcf"
definition kernel_code64 :: GDT_Entry where "kernel_code64 = descriptor 0 0x9a 0x20"
definition kernel_data64 :: GDT_Entry where "kernel_data64 = descriptor 0 0x92 0"
definition user_data64 :: GDT_Entry where "user_data64 = descriptor 0 0xf2 0"
definition user_code64 :: GDT_Entry where "user_code64 = descriptor 0 0xfa 0x20"

text \<open>\<open>gdt_addr\<close> is the address of the global \<open>gdt\<close>.\<close>

definition init_gdt :: "u64 \<Rightarrow> gdt_state \<Rightarrow> gdt_state option" where
  "init_gdt gdt_addr st = do {
     st \<leftarrow> add_gdt_entry null_descriptor st;
     st \<leftarrow> add_gdt_entry kernel_code16 st;
     st \<leftarrow> add_gdt_entry kernel_data16 st;
     st \<leftarrow> add_gdt_entry kernel_code32 st;
     st \<leftarrow> add_gdt_entry kernel_data32 st;
     st \<leftarrow> add_gdt_entry kernel_code64 st;
     st \<leftarrow> add_gdt_entry kernel_data64 st;
     st \<leftarrow> add_gdt_entry user_data64 st;
     st \<leftarrow> add_gdt_entry user_code64 st;
     Some (load_gdt (st\<lparr>gdtr := \<lparr>gdtr_size = sizeof_GDT, gdtr_base = gdt_addr\<rparr>\<rparr>)) }"

definition load_tss_entry :: "u64 \<Rightarrow> gdt_state \<Rightarrow> gdt_state option" where
  "load_tss_entry addr st = do {
     l \<leftarrow> spinlock_acquire (tss_lock st);
     let e = \<lparr>tss_limit = sizeof_TSS,
       tss_base_min = ucast (addr AND 0xffff),
       tss_base_low = ucast (drop_bit 16 addr AND 0xff),
       tss_access = 0x89,
       tss_flags = 0,
       tss_base_high = ucast (drop_bit 24 addr AND 0xff),
       tss_base_max = ucast (drop_bit 32 addr AND 0xffffffff),
       tss_reserved = 0\<rparr>;
     let tss_byte_offset = ucast (GDT_ENTRY_SIZE_BYTES * GDT_ENTRIES);
     Some (st\<lparr>tss_entry := e, task_register := Some tss_byte_offset,
       tss_lock := spinlock_release l\<rparr>) }"

section \<open>Interrupt descriptors\<close>

record IDT_Entry =
  offset_low16 :: u16
  segment_selector :: u16
  ist :: u8
  gate_type :: u8
  offset_middle16 :: u16
  offset_upper32 :: u32
  idt_reserved :: u32

record IDT_Descriptor =
  idtr_size :: u16
  idtr_offset :: u64

record idt_state =
  idt_entry :: "IDT_Entry list"
  cur_vector_idt :: u64
  idtr :: IDT_Descriptor
  loaded_idtr :: "IDT_Descriptor option"
  idt_lock :: spinlock

definition idt_load :: "idt_state \<Rightarrow> idt_state" where
  "idt_load st = st\<lparr>loaded_idtr := Some (idtr st)\<rparr>"

text \<open>A failed \<open>ASSERT\<close> halts the core.\<close>

definition allocate_vector :: "idt_state \<Rightarrow> (u8 \<times> idt_state) option" where
  "allocate_vector st = do {
     l \<leftarrow> spinlock_acquire (idt_lock st);
     if cur_vector_idt st < 256
     then Some (ucast (cur_vector_idt st),
       st\<lparr>cur_vector_idt := cur_vector_idt st + 1, idt_lock := spinlock_release l\<rparr>)
     else None }"

definition add_descriptor :: "u8 \<Rightarrow> u64 \<Rightarrow> u8 \<Rightarrow> idt_state \<Rightarrow> idt_state option" where
  "add_descriptor vector entry_addr flags st = do {
     l \<leftarrow> spinlock_acquire (idt_lock st);
     es \<leftarrow> wr (idt_entry st) (unat vector)
       \<lparr>offset_low16 = ucast (entry_addr AND 0xffff),
        segment_selector = GDT_KERNEL_CODE,
        ist = 0,
        gate_type = flags,
        offset_middle16 = ucast (drop_bit 16 entry_addr AND 0xffff),
        offset_upper32 = ucast (drop_bit 32 entry_addr AND 0xffffffff),
        idt_reserved = 0\<rparr>;
     Some ((idt_load (st\<lparr>idt_entry := es\<rparr>))\<lparr>idt_lock := spinlock_release l\<rparr>) }"

definition set_vector_ist :: "u8 \<Rightarrow> int \<Rightarrow> idt_state \<Rightarrow> idt_state option" where
  "set_vector_ist vector n st = do {
     l \<leftarrow> spinlock_acquire (idt_lock st);
     e \<leftarrow> rd (idt_entry st) (unat vector);
     es \<leftarrow> wr (idt_entry st) (unat vector) (e\<lparr>ist := of_int n\<rparr>);
     Some ((idt_load (st\<lparr>idt_entry := es\<rparr>))\<lparr>idt_lock := spinlock_release l\<rparr>) }"

text \<open>\<open>isr_table\<close> is the table of entry points of the assembly stubs.\<close>

definition init_idt :: "u64 \<Rightarrow> (nat \<Rightarrow> u64) \<Rightarrow> idt_state \<Rightarrow> idt_state option" where
  "init_idt idt_addr isr_table st = do {
     st \<leftarrow> for_loop 0 21 (\<lambda>idx st. if idx \<le> 20
         then add_descriptor (of_nat idx) (isr_table idx) 0x8e st else Some st)
       (st\<lparr>idtr := \<lparr>idtr_size = 256 * 16 - 1, idtr_offset = idt_addr\<rparr>\<rparr>);
     Some (st\<lparr>cur_vector_idt := 32\<rparr>) }"

section \<open>What the processor reads\<close>

text \<open>The fields of an address, put together again.\<close>

definition tss_base :: "TSS_Entry \<Rightarrow> u64" where
  "tss_base e = ucast (tss_base_min e) OR push_bit 16 (ucast (tss_base_low e)) OR
     push_bit 24 (ucast (tss_base_high e)) OR push_bit 32 (ucast (tss_base_max e))"

definition gate_target :: "IDT_Entry \<Rightarrow> u64" where
  "gate_target e = ucast (offset_low16 e) OR push_bit 16 (ucast (offset_middle16 e)) OR
     push_bit 32 (ucast (offset_upper32 e))"

lemma mask_consts [bits]:
  "(0xff :: u64) = mask 8" "(0xffff :: u64) = mask 16" "(0xffffffff :: u64) = mask 32"
  by (simp_all add: mask_eq_exp_minus_1)

lemma tss_base_split:
  "ucast (ucast (a AND 0xffff) :: u16) OR push_bit 16 (ucast (ucast (drop_bit 16 a AND 0xff) :: u8)) OR
   push_bit 24 (ucast (ucast (drop_bit 24 a AND 0xff) :: u8)) OR
   push_bit 32 (ucast (ucast (drop_bit 32 a AND 0xffffffff) :: u32)) = (a :: u64)" (is "?l = _")
proof (rule bit_word_eqI)
  fix n assume "n < LENGTH(64)"
  then have "n < 16 \<or> (16 \<le> n \<and> n < 24) \<or> (24 \<le> n \<and> n < 32) \<or> (32 \<le> n \<and> n < 64)" by auto
  then show "bit ?l n = bit a n"
    unfolding mask_consts by (elim disjE conjE) (simp_all add: bit_simps less_diff_conv2)
qed

lemma gate_target_split:
  "ucast (ucast (a AND 0xffff) :: u16) OR push_bit 16 (ucast (ucast (drop_bit 16 a AND 0xffff) :: u16)) OR
   push_bit 32 (ucast (ucast (drop_bit 32 a AND 0xffffffff) :: u32)) = (a :: u64)" (is "?l = _")
proof (rule bit_word_eqI)
  fix n assume "n < LENGTH(64)"
  then have "n < 16 \<or> (16 \<le> n \<and> n < 32) \<or> (32 \<le> n \<and> n < 64)" by auto
  then show "bit ?l n = bit a n"
    unfolding mask_consts by (elim disjE conjE) (simp_all add: bit_simps less_diff_conv2)
qed

section \<open>The interrupt table\<close>

definition idt_inv :: "idt_state \<Rightarrow> bool" where
  "idt_inv st \<longleftrightarrow> idt_lock st = 0 \<and> length (idt_entry st) = 256"

lemma add_descriptor_ok:
  assumes "idt_inv st"
  shows "\<exists>st' e. add_descriptor vector addr flags st = Some st' \<and> idt_inv st' \<and>
    idt_entry st' = (idt_entry st)[unat vector := e] \<and> gate_target e = addr \<and> gate_type e = flags \<and>
    segment_selector e = GDT_KERNEL_CODE \<and> ist e = 0 \<and> cur_vector_idt st' = cur_vector_idt st \<and>
    idtr st' = idtr st \<and> loaded_idtr st' = Some (idtr st)"
proof -
  have "unat vector < 256" using unat_bound [of vector] by simp
  then show ?thesis using assms
    by (auto simp: add_descriptor_def idt_inv_def idt_load_def gate_target_def gate_target_split)
qed

lemma set_vector_ist_ok:
  assumes "idt_inv st"
  shows "\<exists>st'. set_vector_ist vector n st = Some st' \<and> idt_inv st' \<and>
    idt_entry st' = (idt_entry st)[unat vector := (idt_entry st ! unat vector)\<lparr>ist := of_int n\<rparr>]"
proof -
  have "unat vector < 256" using unat_bound [of vector] by simp
  then show ?thesis using assms by (simp add: set_vector_ist_def idt_inv_def idt_load_def)
qed

text \<open>A run of allocations: the vectors handed out.\<close>

fun allocate_vectors :: "nat \<Rightarrow> idt_state \<Rightarrow> (u8 list \<times> idt_state) option" where
  "allocate_vectors 0 st = Some ([], st)"
| "allocate_vectors (Suc n) st = do {
     (v, st') \<leftarrow> allocate_vector st;
     (vs, st'') \<leftarrow> allocate_vectors n st';
     Some (v # vs, st'') }"

lemma allocate_vectors_run:
  assumes "idt_inv st" "unat (cur_vector_idt st) + n \<le> 256"
  shows "\<exists>st'. allocate_vectors n st =
      Some (map of_nat [unat (cur_vector_idt st)..<unat (cur_vector_idt st) + n], st') \<and>
    idt_inv st' \<and> unat (cur_vector_idt st') = unat (cur_vector_idt st) + n"
  using assms
proof (induction n arbitrary: st)
  case 0
  then show ?case by simp
next
  case (Suc n)
  let ?c = "cur_vector_idt st" and ?st = "st\<lparr>cur_vector_idt := cur_vector_idt st + 1\<rparr>"
  have lt: "unat ?c < 256" using Suc.prems by simp
  then have u: "unat (?c + 1) = Suc (unat ?c)" using unat_add_small [of ?c 1] by simp
  have c: "?c < 256" using lt by (simp add: word_less_nat_alt)
  have a: "allocate_vector st = Some (of_nat (unat ?c), ?st)"
    using Suc.prems(1) c by (simp add: allocate_vector_def idt_inv_def)
  obtain st' where "allocate_vectors n ?st = Some (map of_nat [Suc (unat ?c)..<Suc (unat ?c) + n], st')"
    "idt_inv st'" "unat (cur_vector_idt st') = Suc (unat ?c) + n"
    using Suc.IH [of ?st] Suc.prems u by (auto simp: idt_inv_def)
  moreover have "[unat ?c..<unat ?c + Suc n] = unat ?c # [Suc (unat ?c)..<Suc (unat ?c) + n]"
    by (simp add: upt_conv_Cons del: upt_Suc)
  ultimately show ?case using a by (simp del: upt_Suc)
qed

lemma init_idt_ok:
  assumes "idt_inv st"
  shows "\<exists>st'. init_idt idt_addr isr_table st = Some st' \<and> idt_inv st' \<and> cur_vector_idt st' = 32 \<and>
    (\<forall>v<256. if v < 21 then gate_target (idt_entry st' ! v) = isr_table v \<and>
        gate_type (idt_entry st' ! v) = 0x8e \<and> segment_selector (idt_entry st' ! v) = GDT_KERNEL_CODE
      else idt_entry st' ! v = idt_entry st ! v)"
proof -
  let ?body = "\<lambda>idx st. if idx \<le> 20 then add_descriptor (of_nat idx) (isr_table idx) 0x8e st else Some st"
  let ?I = "\<lambda>n t. idt_inv t \<and> (\<forall>v<256. if v < n then gate_target (idt_entry t ! v) = isr_table v \<and>
        gate_type (idt_entry t ! v) = 0x8e \<and> segment_selector (idt_entry t ! v) = GDT_KERNEL_CODE
      else idt_entry t ! v = idt_entry st ! v)"
  let ?st = "st\<lparr>idtr := \<lparr>idtr_size = 256 * 16 - 1, idtr_offset = idt_addr\<rparr>\<rparr>"
  have "\<exists>t. for_loop 0 21 ?body ?st = Some t \<and> ?I 21 t"
  proof (rule for_loop_rule)
    show "?I 0 ?st" using assms by (simp add: idt_inv_def)
  next
    fix i t assume i: "i < (21 :: nat)" and I: "?I i t"
    obtain t' e where t': "add_descriptor (of_nat i) (isr_table i) 0x8e t = Some t'" "idt_inv t'"
      "idt_entry t' = (idt_entry t)[unat (of_nat i :: u8) := e]" "gate_target e = isr_table i"
      "gate_type e = 0x8e" "segment_selector e = GDT_KERNEL_CODE"
      using add_descriptor_ok [of t "of_nat i" "isr_table i" "0x8e"] I by blast
    have "unat (of_nat i :: u8) = i" using i by (simp add: unat_of_nat take_bit_eq_mod)
    with t' I have "?I (Suc i) t'" by (auto simp: nth_list_update idt_inv_def less_Suc_eq)
    with t'(1) i show "\<exists>t'. ?body i t = Some t' \<and> ?I (Suc i) t'" by auto
  qed simp
  then show ?thesis by (auto simp: init_idt_def idt_inv_def)
qed

section \<open>Properties\<close>

text \<open>The bits of an access byte and of the flags that a 64-bit segment depends on.\<close>

definition seg_dpl :: "GDT_Entry \<Rightarrow> u8" where
  "seg_dpl e = drop_bit 5 (access_byte e) AND 3"

definition seg_code :: "GDT_Entry \<Rightarrow> bool" where
  "seg_code e \<longleftrightarrow> bit (access_byte e) 7 \<and> bit (access_byte e) 4 \<and> bit (access_byte e) 3 \<and>
     bit (flags_limit e) 5 \<and> \<not> bit (flags_limit e) 6"

definition seg_data :: "GDT_Entry \<Rightarrow> bool" where
  "seg_data e \<longleftrightarrow> bit (access_byte e) 7 \<and> bit (access_byte e) 4 \<and> \<not> bit (access_byte e) 3 \<and>
     bit (access_byte e) 1"

definition select :: "gdt_state \<Rightarrow> u16 \<Rightarrow> GDT_Entry" where
  "select st sel = gdt_entry st ! (unat sel div 8)"

text \<open>
  After \<open>init_gdt\<close> and \<open>load_tss_entry\<close>, on the table as it is at boot, every selector the
  kernel uses names the descriptor it is meant for: kernel code and data at privilege level 0,
  user data and code at level 3, code segments in long mode; the user code selector is 8 above
  the user data selector as \<open>sysret\<close> requires; the task register selects the TSS entry, which
  lies behind the ten segment descriptors and whose base, put together as the processor does,
  is the address of the TSS, whatever that is; and the lock is free again.
\<close>

lemma descriptor_tables_selectors:
  assumes "length (gdt_entry st) = unat GDT_ENTRIES" "gdt_index st = 0" "tss_lock st = 0"
  shows "\<exists>st1 st2. init_gdt gdt_addr st = Some st1 \<and> load_tss_entry tss_addr st1 = Some st2 \<and>
    gdt_entry st2 = gdt_entry st1 \<and> loaded_gdtr st2 = Some (gdtr st2) \<and> gdtr_base (gdtr st2) = gdt_addr \<and>
    seg_code (select st2 GDT_KERNEL_CODE) \<and> seg_dpl (select st2 GDT_KERNEL_CODE) = 0 \<and>
    seg_data (select st2 GDT_KERNEL_DATA) \<and> seg_dpl (select st2 GDT_KERNEL_DATA) = 0 \<and>
    seg_data (select st2 GDT_USER_DATA) \<and> seg_dpl (select st2 GDT_USER_DATA) = 3 \<and>
    seg_code (select st2 GDT_USER_CODE) \<and> seg_dpl (select st2 GDT_USER_CODE) = 3 \<and>
    GDT_USER_CODE = GDT_USER_DATA + 8 \<and>
    task_register st2 = Some (of_nat (8 * length (gdt_entry st2))) \<and>
    tss_base (tss_entry st2) = tss_addr \<and> tss_lock st2 = 0"
proof -
  have "length (gdt_entry st) = 10" using assms(1) by (simp add: GDT_ENTRIES_def)
  then obtain a b c d e f g h i j where es: "gdt_entry st = [a, b, c, d, e, f, g, h, i, j]"
    by (auto simp: length_Suc_conv eval_nat_numeral)
  let ?es = "[null_descriptor, kernel_code16, kernel_data16, kernel_code32, kernel_data32,
    kernel_code64, kernel_data64, user_data64, user_code64, j]"
  obtain st1 where st1: "init_gdt gdt_addr st = Some st1" "gdt_entry st1 = ?es" "tss_lock st1 = 0"
    "loaded_gdtr st1 = Some (gdtr st1)" "gdtr_base (gdtr st1) = gdt_addr"
    using es assms(2,3) by (simp add: init_gdt_def add_gdt_entry_def load_gdt_def)
  show ?thesis
    using st1 by (simp add: load_tss_entry_def tss_base_def tss_base_split select_def seg_code_def
      seg_data_def seg_dpl_def GDT_KERNEL_CODE_def GDT_KERNEL_DATA_def GDT_USER_DATA_def
      GDT_USER_CODE_def kernel_code64_def kernel_data64_def user_data64_def user_code64_def
      descriptor_def GDT_ENTRIES_def GDT_ENTRY_SIZE_BYTES_def)
qed

definition boot_gdt :: gdt_state where
  "boot_gdt = \<lparr>gdt_entry = replicate 10 (descriptor 0 0 0), tss_entry = \<lparr>tss_limit = 0,
     tss_base_min = 0, tss_base_low = 0, tss_access = 0, tss_flags = 0, tss_base_high = 0,
     tss_base_max = 0, tss_reserved = 0\<rparr>, gdt_index = 0, gdtr = \<lparr>gdtr_size = 0, gdtr_base = 0\<rparr>,
     loaded_gdtr = None, task_register = None, tss_lock = 0\<rparr>"

text \<open>
  C28: after \<open>init_idt\<close>, every exception vector from 0 to 20 dispatches, through an interrupt gate
  in the kernel code segment, to the entry point its stub table names, all other gates are
  untouched, and the vectors that \<open>allocate_vector\<close> hands out afterwards are 32, 33, \<dots>: up to
  224 of them, pairwise distinct and none of them an exception.
\<close>

theorem idt_vectors:
  assumes "idt_inv st" "n \<le> 224"
  shows "\<exists>st1 st2 vs. init_idt idt_addr isr_table st = Some st1 \<and>
    (\<forall>v<21. gate_target (idt_entry st1 ! v) = isr_table v \<and> gate_type (idt_entry st1 ! v) = 0x8e \<and>
      segment_selector (idt_entry st1 ! v) = GDT_KERNEL_CODE) \<and>
    (\<forall>v. 21 \<le> v \<and> v < 256 \<longrightarrow> idt_entry st1 ! v = idt_entry st ! v) \<and>
    allocate_vectors n st1 = Some (vs, st2) \<and> length vs = n \<and> distinct vs \<and>
    (\<forall>v\<in>set vs. 32 \<le> unat v) \<and> idt_inv st2"
proof -
  obtain st1 where st1: "init_idt idt_addr isr_table st = Some st1" "idt_inv st1" "cur_vector_idt st1 = 32"
    "\<forall>v<256. if v < 21 then gate_target (idt_entry st1 ! v) = isr_table v \<and>
        gate_type (idt_entry st1 ! v) = 0x8e \<and> segment_selector (idt_entry st1 ! v) = GDT_KERNEL_CODE
      else idt_entry st1 ! v = idt_entry st ! v"
    using init_idt_ok [OF assms(1)] by blast
  obtain st2 where st2: "allocate_vectors n st1 = Some (map of_nat [32..<32 + n], st2)" "idt_inv st2"
    using allocate_vectors_run [OF st1(2), of n] st1(3) assms(2) by auto
  have u: "unat (of_nat i :: u8) = i" if "i < 32 + n" for i
    using that assms(2) by (simp add: unat_of_nat take_bit_eq_mod)
  have "distinct (map (of_nat :: nat \<Rightarrow> u8) [32..<32 + n])"
    by (rule distinct_map [THEN iffD2], rule conjI, simp, rule inj_onI) (metis u atLeastLessThan_iff set_upt)
  moreover have "\<forall>v\<in>set (map (of_nat :: nat \<Rightarrow> u8) [32..<32 + n]). 32 \<le> unat v"
    using u by auto
  moreover have "\<forall>v<21. gate_target (idt_entry st1 ! v) = isr_table v \<and>
      gate_type (idt_entry st1 ! v) = 0x8e \<and> segment_selector (idt_entry st1 ! v) = GDT_KERNEL_CODE"
    using st1(4) by simp
  moreover have "\<forall>v. 21 \<le> v \<and> v < 256 \<longrightarrow> idt_entry st1 ! v = idt_entry st ! v" using st1(4) by auto
  ultimately show ?thesis using st1(1) st2 by auto
qed

definition boot_idt :: idt_state where
  "boot_idt = \<lparr>idt_entry = replicate 256 \<lparr>offset_low16 = 0, segment_selector = 0, ist = 0,
     gate_type = 0, offset_middle16 = 0, offset_upper32 = 0, idt_reserved = 0\<rparr>, cur_vector_idt = 0,
     idtr = \<lparr>idtr_size = 0, idtr_offset = 0\<rparr>, loaded_idtr = None, idt_lock = 0\<rparr>"

theorem idt_vectors_witness:
  "\<exists>st1 st2 vs. init_idt 0 (\<lambda>v. 0xFFFFFFFF80000000 + of_nat v * 16) boot_idt = Some st1 \<and>
    gate_target (idt_entry st1 ! 14) = 0xFFFFFFFF800000E0 \<and>
    allocate_vectors 224 st1 = Some (vs, st2) \<and> distinct vs"
proof -
  have "idt_inv boot_idt" by (simp add: idt_inv_def boot_idt_def)
  from idt_vectors [OF this, of 224 0 "\<lambda>v. 0xFFFFFFFF80000000 + of_nat v * 16"] obtain st1 st2 vs
    where h: "init_idt 0 (\<lambda>v. 0xFFFFFFFF80000000 + of_nat v * 16) boot_idt = Some st1"
      "\<forall>v<21. gate_target (idt_entry st1 ! v) = 0xFFFFFFFF80000000 + of_nat v * 16"
      "allocate_vectors 224 st1 = Some (vs, st2)" "distinct vs" by auto
  have "gate_target (idt_entry st1 ! 14) = 0xFFFFFFFF80000000 + of_nat 14 * 16"
    using h(2) by (rule allE [of _ 14]) simp
  with h show ?thesis by simp
qed

end
