(* ===== verification/Vector.thy ===== *)
theory Vector
  imports Prelude
begin

text \<open>
  \<open>src/kernel/klib/vector.c\<close>: the growable array of pointers. The element block is the list of
  its words, \<^term>\<open>None\<close> for a \<open>NULL\<close> block; \<open>krealloc\<close> is an argument: a function of the old
  block and the requested number of bytes. Indices and counts are C \<open>int\<close>s.
\<close>

section \<open>Definitions\<close>

record vector =
  cur_elements :: int
  max_elements :: int
  elements :: "u64 list option"

definition VECTOR_INIT_SIZE :: int where "VECTOR_INIT_SIZE = 8"

type_synonym realloc = "u64 list option \<Rightarrow> u64 \<Rightarrow> u64 list option"

text \<open>Element \<open>i\<close> of the block, for an \<open>int\<close> index.\<close>

definition el_get :: "u64 list option \<Rightarrow> int \<Rightarrow> u64 option" where
  "el_get blk i = do { mem \<leftarrow> blk; if i < 0 then None else rd mem (nat i) }"

definition el_set :: "u64 list option \<Rightarrow> int \<Rightarrow> u64 \<Rightarrow> u64 list option option" where
  "el_set blk i v = do { mem \<leftarrow> blk; if i < 0 then None else map_option Some (wr mem (nat i) v) }"

definition index_in_bounds :: "vector \<Rightarrow> int \<Rightarrow> bool" where
  "index_in_bounds v n \<longleftrightarrow> n \<ge> 0 \<and> n < cur_elements v"

text \<open>The last argument is the answer of \<open>kmalloc(max_elements * sizeof(void *))\<close>.\<close>

definition vector_alloc :: "vector \<Rightarrow> u64 list option \<Rightarrow> vector" where
  "vector_alloc v mem =
     v\<lparr>cur_elements := 0, max_elements := VECTOR_INIT_SIZE, elements := mem\<rparr>"

definition vector_resize :: "realloc \<Rightarrow> vector \<Rightarrow> int \<Rightarrow> vector" where
  "vector_resize krealloc v sz =
     (if sz < 0 then v
      else case krealloc (elements v) (8 * of_int sz) of
        None \<Rightarrow> v
      | Some mem \<Rightarrow>
          let v = v\<lparr>elements := Some mem, max_elements := sz\<rparr>
          in if sz < cur_elements v then v\<lparr>cur_elements := sz\<rparr> else v)"

definition vector_clear :: "realloc \<Rightarrow> vector \<Rightarrow> vector option" where
  "vector_clear krealloc v = do {
     blk \<leftarrow> for_loop 0 (nat (cur_elements v)) (\<lambda>i blk. el_set blk (int i) 0) (elements v);
     let v = vector_resize krealloc (v\<lparr>elements := blk\<rparr>) VECTOR_INIT_SIZE;
     Some (v\<lparr>cur_elements := 0\<rparr>) }"

definition vector_get :: "vector \<Rightarrow> int \<Rightarrow> u64 option" where
  "vector_get v n = (if index_in_bounds v n then el_get (elements v) n else Some 0)"

definition vector_push_back :: "realloc \<Rightarrow> vector \<Rightarrow> u64 \<Rightarrow> vector option" where
  "vector_push_back krealloc v val = do {
     v \<leftarrow> (if cur_elements v = max_elements v
       then do { m \<leftarrow> c_int (max_elements v * 2); Some (vector_resize krealloc v m) }
       else Some v);
     blk \<leftarrow> el_set (elements v) (cur_elements v) val;
     c \<leftarrow> c_int (cur_elements v + 1);
     Some (v\<lparr>elements := blk, cur_elements := c\<rparr>) }"

definition vector_pop_back :: "vector \<Rightarrow> vector option" where
  "vector_pop_back v = do {
     blk \<leftarrow> el_set (elements v) (cur_elements v) 0;
     c \<leftarrow> c_int (cur_elements v - 1);
     Some (v\<lparr>elements := blk, cur_elements := c\<rparr>) }"

definition vector_remove :: "vector \<Rightarrow> int \<Rightarrow> vector option" where
  "vector_remove v n =
     (if index_in_bounds v n then Some v
      else do {
        blk \<leftarrow> for_loop 0 (nat (max_elements v - 1 - n)) (\<lambda>k blk. do {
            x \<leftarrow> el_get blk (n + int k + 1);
            el_set blk (n + int k) x }) (elements v);
        m \<leftarrow> c_int (max_elements v - 1);
        blk \<leftarrow> el_set blk m 0;
        Some (v\<lparr>elements := blk, max_elements := m\<rparr>) })"

definition vector_set :: "vector \<Rightarrow> int \<Rightarrow> u64 \<Rightarrow> vector option" where
  "vector_set v n val =
     (if index_in_bounds v n
      then do { blk \<leftarrow> el_set (elements v) n val; Some (v\<lparr>elements := blk\<rparr>) }
      else Some v)"

definition vector_size :: "vector \<Rightarrow> int" where
  "vector_size v = cur_elements v"

section \<open>Refinement of a list\<close>

definition vec_rep :: "vector \<Rightarrow> u64 list \<Rightarrow> bool" where
  "vec_rep v xs \<longleftrightarrow> cur_elements v = int (length xs) \<and> 0 < max_elements v \<and>
     max_elements v < 2 ^ 31 \<and> int (length xs) \<le> max_elements v \<and>
     (case elements v of None \<Rightarrow> False
      | Some mem \<Rightarrow> int (length mem) = max_elements v \<and> take (length xs) mem = xs)"

lemma vec_repE:
  assumes "vec_rep v xs"
  obtains mem where "elements v = Some mem" "int (length mem) = max_elements v"
    "take (length xs) mem = xs" "cur_elements v = int (length xs)" "length xs \<le> length mem"
  using assms by (auto simp: vec_rep_def split: option.splits)

text \<open>What the C standard promises of \<open>realloc\<close> when it succeeds.\<close>

definition realloc_ok :: "realloc \<Rightarrow> bool" where
  "realloc_ok krealloc \<longleftrightarrow>
     (\<forall>mem n mem'. krealloc (Some mem) n = Some mem' \<longrightarrow>
        length mem' = unat n div 8 \<and> take (min (length mem) (length mem')) mem' =
          take (min (length mem) (length mem')) mem)"

lemma vector_alloc_rep: "length mem = 8 \<Longrightarrow> vec_rep (vector_alloc v (Some mem)) []"
  by (simp add: vector_alloc_def vec_rep_def VECTOR_INIT_SIZE_def)

lemma vector_get_rep:
  assumes "vec_rep v xs"
  shows "vector_get v n = Some (if 0 \<le> n \<and> n < int (length xs) then xs ! nat n else 0)"
proof -
  obtain mem where m: "elements v = Some mem" "take (length xs) mem = xs"
    "cur_elements v = int (length xs)" "length xs \<le> length mem" using assms by (rule vec_repE)
  have "mem ! nat n = xs ! nat n" if "0 \<le> n" "n < int (length xs)"
    using that m(2) by (metis nat_less_iff nth_take)
  then show ?thesis using m by (auto simp: vector_get_def index_in_bounds_def el_get_def)
qed

lemma vector_set_rep:
  assumes "vec_rep v xs"
  shows "\<exists>v'. vector_set v n x = Some v' \<and>
    vec_rep v' (if 0 \<le> n \<and> n < int (length xs) then xs[nat n := x] else xs)"
proof -
  obtain mem where m: "elements v = Some mem" "take (length xs) mem = xs"
    "cur_elements v = int (length xs)" "length xs \<le> length mem" using assms by (rule vec_repE)
  have "take (length xs) (mem[nat n := x]) = xs[nat n := x]" using m(2) by (metis take_update_swap)
  then show ?thesis using assms m
    by (auto simp: vector_set_def index_in_bounds_def el_set_def vec_rep_def)
qed

text \<open>The block after growing, when it has to.\<close>

lemma vector_grow:
  assumes rep: "vec_rep v xs" and full: "cur_elements v = max_elements v"
    and small: "max_elements v < 2 ^ 30" and re: "realloc_ok krealloc"
    and ok: "krealloc (elements v) (8 * of_int (2 * max_elements v)) \<noteq> None"
  shows "vec_rep (vector_resize krealloc v (max_elements v * 2)) xs \<and>
    cur_elements (vector_resize krealloc v (max_elements v * 2)) <
      max_elements (vector_resize krealloc v (max_elements v * 2))"
proof -
  obtain mem where m: "elements v = Some mem" "int (length mem) = max_elements v"
    "take (length xs) mem = xs" "cur_elements v = int (length xs)" using rep by (rule vec_repE)
  obtain mem' where m': "krealloc (Some mem) (8 * of_int (2 * max_elements v)) = Some mem'"
    using ok m(1) by auto
  have "unat (8 * of_int (2 * max_elements v) :: u64) = 16 * length mem"
  proof -
    have "(8 * of_int (2 * max_elements v) :: u64) = of_nat (16 * length mem)"
      unfolding m(2) [symmetric] by simp
    moreover have "16 * length mem < 2 ^ 64" using small m(2) by simp
    ultimately show ?thesis by (simp only: unat_of_nat take_bit_eq_mod) simp
  qed
  moreover have "length mem' = unat (8 * of_int (2 * max_elements v) :: u64) div 8"
    "take (min (length mem) (length mem')) mem' = take (min (length mem) (length mem')) mem"
    using re m' unfolding realloc_ok_def by blast+
  ultimately have l: "length mem' = 2 * length mem" "take (length mem) mem' = mem" by simp_all
  have xs: "length xs = length mem" using m full by simp
  have pos: "0 < max_elements v" using rep by (simp add: vec_rep_def)
  have "vector_resize krealloc v (max_elements v * 2) =
      v\<lparr>elements := Some mem', max_elements := max_elements v * 2\<rparr>"
    using m(1) m' full pos by (simp add: vector_resize_def Let_def mult.commute)
  then show ?thesis using xs pos l m small full by (simp add: vec_rep_def)
qed

lemma vector_push_back_rep:
  assumes rep: "vec_rep v xs" and small: "max_elements v < 2 ^ 30" and re: "realloc_ok krealloc"
    and ok: "cur_elements v = max_elements v \<longrightarrow>
      krealloc (elements v) (8 * of_int (2 * max_elements v)) \<noteq> None"
  shows "\<exists>v'. vector_push_back krealloc v x = Some v' \<and> vec_rep v' (xs @ [x]) \<and>
    max_elements v' \<le> max (max_elements v) (2 * cur_elements v)"
proof -
  define w where "w = (if cur_elements v = max_elements v
    then vector_resize krealloc v (max_elements v * 2) else v)"
  have "vec_rep w xs \<and> cur_elements w < max_elements w"
    using vector_grow [OF rep _ small re] ok rep by (auto simp: w_def vec_rep_def)
  then have w: "vec_rep w xs" and lt: "cur_elements w < max_elements w" by auto
  have mx: "max_elements w \<le> max (max_elements v) (2 * cur_elements v)"
    by (simp add: w_def vector_resize_def Let_def split: option.splits)
  have c: "c_int (max_elements v * 2) = Some (max_elements v * 2)"
    using small rep by (simp add: vec_rep_def)
  obtain mem where m: "elements w = Some mem" "int (length mem) = max_elements w"
    "take (length xs) mem = xs" "cur_elements w = int (length xs)" using w by (rule vec_repE)
  have "max_elements w < 2 ^ 31" using mx small rep by (auto simp: vec_rep_def max_def split: if_splits)
  then have c1: "c_int (cur_elements w + 1) = Some (cur_elements w + 1)" using lt m(4) by simp
  have "take (Suc (length xs)) (mem[length xs := x]) = xs @ [x]"
    using m lt by (simp add: take_Suc_conv_app_nth take_update_swap)
  then have "vec_rep (w\<lparr>elements := Some (mem[length xs := x]), cur_elements := cur_elements w + 1\<rparr>)
      (xs @ [x])"
    using m lt w by (simp add: vec_rep_def)
  moreover have "vector_push_back krealloc v x =
      Some (w\<lparr>elements := Some (mem[length xs := x]), cur_elements := cur_elements w + 1\<rparr>)"
    using c c1 m lt by (simp add: vector_push_back_def el_set_def w_def split: if_splits)
  ultimately show ?thesis using mx by auto
qed

text \<open>Pushing a list of values one after the other.\<close>

fun push_all :: "realloc \<Rightarrow> vector \<Rightarrow> u64 list \<Rightarrow> vector option" where
  "push_all krealloc v [] = Some v"
| "push_all krealloc v (x # xs) = do { v' \<leftarrow> vector_push_back krealloc v x; push_all krealloc v' xs }"

lemma push_all_rep:
  assumes "vec_rep v xs" "max_elements v \<le> max 8 (2 * int (length xs))"
    and "length xs + length ys < 2 ^ 28"
    and re: "realloc_ok krealloc" and total: "\<forall>mem n. krealloc (Some mem) n \<noteq> None"
  shows "\<exists>v'. push_all krealloc v ys = Some v' \<and> vec_rep v' (xs @ ys)"
  using assms(1-3)
proof (induction ys arbitrary: v xs)
  case Nil
  then show ?case by simp
next
  case (Cons y ys)
  obtain mem where m: "elements v = Some mem" "cur_elements v = int (length xs)"
    using Cons.prems(1) by (rule vec_repE)
  have "max_elements v < 2 ^ 30" using Cons.prems(2,3) by simp
  then obtain v' where v': "vector_push_back krealloc v y = Some v'" "vec_rep v' (xs @ [y])"
    "max_elements v' \<le> max (max_elements v) (2 * int (length xs))"
    using vector_push_back_rep [OF Cons.prems(1) _ re, of y] total m by auto
  have "max_elements v' \<le> max 8 (2 * int (length (xs @ [y])))" using v'(3) Cons.prems(2) by simp
  from Cons.IH [OF v'(2) this] Cons.prems(3) v'(1) show ?case by simp
qed

section \<open>Properties\<close>

text \<open>
  C30: a freshly allocated vector into which a list of values is pushed, growing by \<open>krealloc\<close>
  as often as it has to, holds exactly that list: \<open>vector_size\<close> is its length and
  \<open>vector_get\<close> returns the value at every index in range and \<open>NULL\<close> at every other, negative
  ones included. It assumes of \<open>krealloc\<close> what the C standard says of \<open>realloc\<close> and that it
  does not fail.
\<close>

theorem vector_push_then_get:
  assumes "realloc_ok krealloc" "\<forall>mem n. krealloc (Some mem) n \<noteq> None"
    and "length mem = 8" "length xs < 2 ^ 28"
  shows "\<exists>v. push_all krealloc (vector_alloc v0 (Some mem)) xs = Some v \<and>
    vector_size v = int (length xs) \<and>
    (\<forall>n. vector_get v n = Some (if 0 \<le> n \<and> n < int (length xs) then xs ! nat n else 0))"
proof -
  have "max_elements (vector_alloc v0 (Some mem)) \<le> max 8 (2 * int (length []))"
    by (simp add: vector_alloc_def VECTOR_INIT_SIZE_def)
  then obtain v where "push_all krealloc (vector_alloc v0 (Some mem)) xs = Some v" "vec_rep v xs"
    using push_all_rep [OF vector_alloc_rep [OF assms(3), of v0] _ _ assms(1,2), of xs] assms(4) by auto
  then show ?thesis using vector_get_rep [of v xs] by (auto simp: vector_size_def vec_rep_def)
qed

text \<open>A \<open>realloc\<close> that copies into a zeroed block.\<close>

definition copy_realloc :: realloc where
  "copy_realloc blk n = (case blk of None \<Rightarrow> None
     | Some mem \<Rightarrow> Some (take (unat n div 8) (mem @ replicate (unat n div 8) 0)))"

theorem vector_push_then_get_witness:
  "\<exists>v. push_all copy_realloc (vector_alloc \<lparr>cur_elements = 3, max_elements = 3, elements = None\<rparr>
      (Some (replicate 8 0))) [10, 11, 12, 13, 14, 15, 16, 17, 18] = Some v \<and>
    vector_size v = 9 \<and> vector_get v 8 = Some 18 \<and> vector_get v 9 = Some 0 \<and> vector_get v (- 1) = Some 0"
proof -
  have "realloc_ok copy_realloc"
    by (auto simp: realloc_ok_def copy_realloc_def min_def)
  moreover have "\<forall>mem n. copy_realloc (Some mem) n \<noteq> None" by (simp add: copy_realloc_def)
  ultimately obtain v where "push_all copy_realloc (vector_alloc \<lparr>cur_elements = 3, max_elements = 3,
      elements = None\<rparr> (Some (replicate 8 0))) [10, 11, 12, 13, 14, 15, 16, 17, 18] = Some v"
    "vector_size v = 9"
    "\<forall>n. vector_get v n = Some (if 0 \<le> n \<and> n < 9 then [10, 11, 12, 13, 14, 15, 16, 17, 18] ! nat n else 0)"
    using vector_push_then_get [of copy_realloc "replicate 8 0" "[10, 11, 12, 13, 14, 15, 16, 17, 18]"]
    by fastforce
  then show ?thesis by simp
qed

text \<open>
  \<open>vector_remove\<close> of any index that is in range does nothing at all, its guard being the
  wrong way round: the element stays, and size and contents are unchanged. \<open>vector_pop_back\<close>
  shrinks the vector by one, but clears the slot behind the last element and not the last one.
\<close>

lemma vector_remove_keeps:
  assumes "vec_rep v xs"
  shows "(0 \<le> n \<and> n < int (length xs) \<longrightarrow> vector_remove v n = Some v) \<and>
    (\<forall>y ys. xs = ys @ [y] \<and> cur_elements v < max_elements v \<longrightarrow>
      (\<exists>v'. vector_pop_back v = Some v' \<and> vec_rep v' ys \<and> el_get (elements v') (int (length ys)) = Some y))"
proof (intro conjI allI impI)
  assume "0 \<le> n \<and> n < int (length xs)"
  then show "vector_remove v n = Some v"
    using assms by (simp add: vector_remove_def index_in_bounds_def vec_rep_def)
next
  fix y ys assume h: "xs = ys @ [y] \<and> cur_elements v < max_elements v"
  obtain mem where m: "elements v = Some mem" "int (length mem) = max_elements v"
    "take (length xs) mem = xs" "cur_elements v = int (length xs)" using assms by (rule vec_repE)
  have lt: "length xs < length mem" using m h by simp
  have "take (length ys) (take (length xs) mem) = ys" "take (length xs) mem ! length ys = y"
    unfolding m(3) using h by simp_all
  then have t: "take (length ys) mem = ys" and e: "mem ! length ys = y"
    using h by simp_all
  have "vector_pop_back v = Some (v\<lparr>elements := Some (mem[length xs := 0]), cur_elements := int (length ys)\<rparr>)"
    using m lt h assms by (simp add: vector_pop_back_def el_set_def vec_rep_def nat_add_distrib)
  then show "\<exists>v'. vector_pop_back v = Some v' \<and> vec_rep v' ys \<and>
      el_get (elements v') (int (length ys)) = Some y"
    using assms m lt h t e by (auto simp: vec_rep_def el_get_def)
qed

end
