(* ===== verification/Chain.thy ===== *)
theory Chain
  imports Prelude
begin

text \<open>
  Doubly linked chains of objects in a store: what the \<open>next\<close> and \<open>prev\<close> fields of the nodes
  of a list have to be, and how the field updates at either end change the list. The generic
  list of \<open>klib\<close> and the ready queue of the scheduler use these lemmas.
\<close>

fun chain :: "('a \<Rightarrow> 'a option) \<Rightarrow> ('a \<Rightarrow> 'a option) \<Rightarrow> 'a option \<Rightarrow> 'a list \<Rightarrow> bool" where
  "chain nxt prv p [] \<longleftrightarrow> True"
| "chain nxt prv p (a # as) \<longleftrightarrow> prv a = p \<and>
     nxt a = (case as of [] \<Rightarrow> None | b # _ \<Rightarrow> Some b) \<and> chain nxt prv (Some a) as"

abbreviation first :: "'a list \<Rightarrow> 'a option" where
  "first as \<equiv> (case as of [] \<Rightarrow> None | a # _ \<Rightarrow> Some a)"

abbreviation final :: "'a list \<Rightarrow> 'a option" where
  "final as \<equiv> (case as of [] \<Rightarrow> None | _ \<Rightarrow> Some (last as))"

lemma chain_cong:
  assumes "chain nxt prv p as" "\<And>a. a \<in> set as \<Longrightarrow> nxt' a = nxt a \<and> prv' a = prv a"
  shows "chain nxt' prv' p as"
  using assms by (induction as arbitrary: p) auto

text \<open>
  The end operations, for new fields \<open>nxt'\<close>, \<open>prv'\<close> that differ from the old ones only where
  they have to.
\<close>

lemma chain_push_back:
  assumes "chain nxt prv p as" "as \<noteq> []" "distinct as"
    and "\<And>a. a \<in> set as \<Longrightarrow> a \<noteq> last as \<Longrightarrow> nxt' a = nxt a" "nxt' (last as) = Some x" "nxt' x = None"
    and "\<And>a. a \<in> set as \<Longrightarrow> prv' a = prv a" "prv' x = Some (last as)"
  shows "chain nxt' prv' p (as @ [x])"
  using assms
proof (induction as arbitrary: p)
  case Nil
  then show ?case by simp
next
  case (Cons a as)
  show ?case
  proof (cases as)
    case Nil
    with Cons.prems show ?thesis by simp
  next
    case (Cons b bs)
    then have l: "last (a # as) = last as" "last as \<in> set as" by simp_all
    then have ne: "a \<noteq> last as" using Cons.prems(3) by auto
    have "chain nxt' prv' (Some a) (as @ [x])"
      by (rule Cons.IH) (use Cons.prems Cons l in auto)
    moreover have "nxt' a = nxt a" "prv' a = prv a" using Cons.prems(4,7) ne l by auto
    ultimately show ?thesis using Cons.prems(1) Cons by simp
  qed
qed

lemma chain_pop_front:
  assumes "chain nxt prv p (a # b # as)"
    and "\<And>c. c \<in> set (b # as) \<Longrightarrow> nxt' c = nxt c"
    and "\<And>c. c \<in> set as \<Longrightarrow> prv' c = prv c" "prv' b = None"
  shows "chain nxt' prv' None (b # as)"
proof -
  have "chain nxt prv (Some b) as" "nxt b = first as" using assms(1) by auto
  moreover from this(1) have "chain nxt' prv' (Some b) as"
    by (rule chain_cong) (use assms in auto)
  ultimately show ?thesis using assms by simp
qed

lemma chain_push_front:
  assumes "chain nxt prv p (a # as)"
    and "\<And>c. c \<in> set (a # as) \<Longrightarrow> nxt' c = nxt c" "nxt' x = Some a"
    and "\<And>c. c \<in> set as \<Longrightarrow> prv' c = prv c" "prv' a = Some x" "prv' x = None"
  shows "chain nxt' prv' None (x # a # as)"
proof -
  have "chain nxt prv (Some a) as" "nxt a = first as" using assms(1) by auto
  moreover from this(1) have "chain nxt' prv' (Some a) as"
    by (rule chain_cong) (use assms in auto)
  ultimately show ?thesis using assms by simp
qed

lemma chain_pop_back:
  assumes "chain nxt prv p (as @ [l, x])"
    and "\<And>a. a \<in> set as \<Longrightarrow> nxt' a = nxt a" "nxt' l = None"
    and "\<And>a. a \<in> set (as @ [l]) \<Longrightarrow> prv' a = prv a"
  shows "chain nxt' prv' p (as @ [l])" "prv x = Some l"
proof -
  have "chain nxt' prv' p (as @ [l]) \<and> prv x = Some l"
    using assms
  proof (induction as arbitrary: p)
    case Nil
    then show ?case by simp
  next
    case (Cons a as)
    have "chain nxt' prv' (Some a) (as @ [l]) \<and> prv x = Some l"
      by (rule Cons.IH) (use Cons.prems in auto)
    moreover have "nxt' a = nxt a" "prv' a = prv a" using Cons.prems by auto
    ultimately show ?case using Cons.prems(1) by (cases as) simp_all
  qed
  then show "chain nxt' prv' p (as @ [l])" "prv x = Some l" by simp_all
qed

end
