(* ===== verification/DList.thy ===== *)
theory DList
  imports Chain
begin

text \<open>
  \<open>src/kernel/klib/doubly_linked_list.c\<close>: the generic doubly linked list. The nodes live in a
  store; the answer of \<open>kmalloc\<close> is an argument, and \<open>kfree\<close> removes the node from the store.
  The four operations refine those of a double-ended queue.
\<close>

section \<open>Definitions\<close>

record 'd node =
  data :: 'd
  node_next :: "nat option"
  node_prev :: "nat option"

type_synonym 'd nodes = "nat \<rightharpoonup> 'd node"

record doubly_linked_list =
  dll_head :: "nat option"
  dll_tail :: "nat option"

text \<open>Assignments through a node pointer.\<close>

definition set_next :: "'d nodes \<Rightarrow> nat option \<Rightarrow> nat option \<Rightarrow> 'd nodes option" where
  "set_next st p v = do {
     a \<leftarrow> p;
     n \<leftarrow> st a;
     Some (st(a \<mapsto> n\<lparr>node_next := v\<rparr>)) }"

definition set_prev :: "'d nodes \<Rightarrow> nat option \<Rightarrow> nat option \<Rightarrow> 'd nodes option" where
  "set_prev st p v = do {
     a \<leftarrow> p;
     n \<leftarrow> st a;
     Some (st(a \<mapsto> n\<lparr>node_prev := v\<rparr>)) }"

text \<open>\<open>kmalloc(sizeof(node_t))\<close> returned \<open>mem\<close>, whose node is then filled in.\<close>

definition new_node :: "'d nodes \<Rightarrow> nat option \<Rightarrow> 'd \<Rightarrow> 'd nodes option" where
  "new_node st mem d = do {
     a \<leftarrow> mem;
     Some (st(a \<mapsto> \<lparr>data = d, node_next = None, node_prev = None\<rparr>)) }"

definition dll_is_empty :: "doubly_linked_list \<Rightarrow> bool" where
  "dll_is_empty dll \<longleftrightarrow> dll_head dll = None"

definition push_front :: "doubly_linked_list \<Rightarrow> 'd \<Rightarrow> nat option \<Rightarrow> 'd nodes \<Rightarrow>
    (doubly_linked_list \<times> 'd nodes) option" where
  "push_front dll d mem st = do {
     st \<leftarrow> new_node st mem d;
     (dll, st) \<leftarrow> (if dll_is_empty dll then Some (dll\<lparr>dll_tail := mem\<rparr>, st)
       else do { st \<leftarrow> set_prev st (dll_head dll) mem; Some (dll, st) });
     st \<leftarrow> set_next st mem (dll_head dll);
     Some (dll\<lparr>dll_head := mem\<rparr>, st) }"

definition push_back :: "doubly_linked_list \<Rightarrow> 'd \<Rightarrow> nat option \<Rightarrow> 'd nodes \<Rightarrow>
    (doubly_linked_list \<times> 'd nodes) option" where
  "push_back dll d mem st = do {
     st \<leftarrow> new_node st mem d;
     (dll, st) \<leftarrow> (if dll_is_empty dll then Some (dll\<lparr>dll_head := mem\<rparr>, st)
       else do {
         st \<leftarrow> set_next st (dll_tail dll) mem;
         st \<leftarrow> set_prev st mem (dll_tail dll);
         Some (dll, st) });
     Some (dll\<lparr>dll_tail := mem\<rparr>, st) }"

text \<open>The popped data, \<open>NULL\<close> for an empty list.\<close>

definition pop_front :: "doubly_linked_list \<Rightarrow> 'd nodes \<Rightarrow>
    ('d option \<times> doubly_linked_list \<times> 'd nodes) option" where
  "pop_front dll st =
     (if dll_is_empty dll then Some (None, dll, st)
      else do {
        temp_node \<leftarrow> dll_head dll;
        hd_node \<leftarrow> st temp_node;
        (dll, st) \<leftarrow> (if node_next hd_node = None then Some (dll\<lparr>dll_tail := None\<rparr>, st)
          else do { st \<leftarrow> set_prev st (node_next hd_node) None; Some (dll, st) });
        hd_node \<leftarrow> st temp_node;
        let dll = dll\<lparr>dll_head := node_next hd_node\<rparr>;
        Some (Some (data hd_node), dll, st(temp_node := None)) })"

definition pop_back :: "doubly_linked_list \<Rightarrow> 'd nodes \<Rightarrow>
    ('d option \<times> doubly_linked_list \<times> 'd nodes) option" where
  "pop_back dll st =
     (if dll_is_empty dll then Some (None, dll, st)
      else do {
        hd_node \<leftarrow> deref st (dll_head dll);
        temp_node \<leftarrow> dll_tail dll;
        (dll, st) \<leftarrow> (if node_next hd_node = None then Some (dll\<lparr>dll_head := None\<rparr>, st)
          else do {
            tl_node \<leftarrow> st temp_node;
            st \<leftarrow> set_next st (node_prev tl_node) None;
            Some (dll, st) });
        tl_node \<leftarrow> st temp_node;
        let dll = dll\<lparr>dll_tail := node_prev tl_node\<rparr>;
        Some (Some (data tl_node), dll, st(temp_node := None)) })"

section \<open>Refinement of a deque\<close>

definition nxt :: "'d nodes \<Rightarrow> nat \<Rightarrow> nat option" where
  "nxt st a = (case st a of None \<Rightarrow> None | Some n \<Rightarrow> node_next n)"

definition prv :: "'d nodes \<Rightarrow> nat \<Rightarrow> nat option" where
  "prv st a = (case st a of None \<Rightarrow> None | Some n \<Rightarrow> node_prev n)"

text \<open>\<open>as\<close> are the addresses of the nodes in order, and \<open>ds\<close> their data.\<close>

definition holds :: "'d nodes \<Rightarrow> nat \<Rightarrow> 'd \<Rightarrow> bool" where
  "holds st a d \<longleftrightarrow> (case st a of None \<Rightarrow> False | Some n \<Rightarrow> data n = d)"

definition dll_rep :: "doubly_linked_list \<Rightarrow> 'd nodes \<Rightarrow> nat list \<Rightarrow> 'd list \<Rightarrow> bool" where
  "dll_rep dll st as ds \<longleftrightarrow> distinct as \<and> chain (nxt st) (prv st) None as \<and>
     dll_head dll = first as \<and> dll_tail dll = final as \<and> list_all2 (holds st) as ds"

lemma nxt_node [simp]: "st a = Some n \<Longrightarrow> nxt st a = node_next n"
  and prv_node [simp]: "st a = Some n \<Longrightarrow> prv st a = node_prev n"
  and holds_node [simp]: "st a = Some n \<Longrightarrow> holds st a d \<longleftrightarrow> data n = d"
  by (simp_all add: nxt_def prv_def holds_def)

lemma fields_other:
  assumes "st' a = st a"
  shows "nxt st' a = nxt st a" "prv st' a = prv st a" "holds st' a = holds st a"
  using assms by (simp_all add: nxt_def prv_def holds_def fun_eq_iff)

lemma holds_cong:
  assumes "list_all2 (holds st) as ds" "\<And>a. a \<in> set as \<Longrightarrow> holds st' a = holds st a"
  shows "list_all2 (holds st') as ds"
  using assms(1) by (rule list.rel_mono_strong) (use assms(2) in simp)

lemma dll_rep_node:
  assumes "dll_rep dll st as ds" "a \<in> set as"
  shows "\<exists>n. st a = Some n"
proof -
  obtain d where "holds st a d"
    using assms by (auto simp: dll_rep_def list_all2_conv_all_nth in_set_conv_nth)
  then show ?thesis by (auto simp: holds_def split: option.splits)
qed

lemma dll_rep_empty: "dll_rep dll st as ds \<Longrightarrow> dll_is_empty dll \<longleftrightarrow> as = []"
  by (auto simp: dll_rep_def dll_is_empty_def split: list.splits)

lemma push_back_rep:
  assumes rep: "dll_rep dll st as ds" and fresh: "st x = None"
  shows "\<exists>dll' st'. push_back dll d (Some x) st = Some (dll', st') \<and>
    dll_rep dll' st' (as @ [x]) (ds @ [d])"
proof -
  have x: "x \<notin> set as" using dll_rep_node [OF rep] fresh by fastforce
  show ?thesis
  proof (cases "as = []")
    case True
    with rep show ?thesis
      by (simp add: push_back_def new_node_def dll_is_empty_def dll_rep_def)
  next
    case False
    define l where "l = last as"
    have l: "l \<in> set as" using False by (simp add: l_def)
    obtain n where n: "st l = Some n" using dll_rep_node [OF rep l] by blast
    have ne: "l \<noteq> x" using x l by auto
    have tl: "dll_tail dll = Some l" using rep False by (simp add: dll_rep_def l_def split: list.splits)
    define st' where "st' = st(x \<mapsto> \<lparr>data = d, node_next = None, node_prev = Some l\<rparr>,
      l \<mapsto> n\<lparr>node_next := Some x\<rparr>)"
    have run: "push_back dll d (Some x) st = Some (dll\<lparr>dll_tail := Some x\<rparr>, st')"
      using dll_rep_empty [OF rep] False ne n tl
      by (simp add: push_back_def new_node_def set_next_def set_prev_def fun_upd_twist st'_def)
    have at: "st' x = Some \<lparr>data = d, node_next = None, node_prev = Some l\<rparr>"
      "st' l = Some (n\<lparr>node_next := Some x\<rparr>)" "\<And>a. a \<noteq> x \<Longrightarrow> a \<noteq> l \<Longrightarrow> st' a = st a"
      using ne by (simp_all add: st'_def)
    have o: "st' a = st a" if "a \<in> set as" "a \<noteq> l" for a using at(3) that x by metis
    have "chain (nxt st') (prv st') None (as @ [x])"
    proof (rule chain_push_back)
      show "chain (nxt st) (prv st) None as" "distinct as" using rep by (simp_all add: dll_rep_def)
      show "prv st' a = prv st a" if "a \<in> set as" for a
        using that at(2) n by (cases "a = l") (auto intro: fields_other o)
    qed (use False at o in \<open>auto simp: l_def intro: fields_other\<close>)
    moreover have "list_all2 (holds st') as ds"
    proof (rule holds_cong)
      show "list_all2 (holds st) as ds" using rep by (simp add: dll_rep_def)
      show "holds st' a = holds st a" if "a \<in> set as" for a
        using that at(2) n by (cases "a = l") (auto intro: fields_other o)
    qed
    ultimately have "dll_rep (dll\<lparr>dll_tail := Some x\<rparr>) st' (as @ [x]) (ds @ [d])"
      using rep x False at(1) by (auto simp: dll_rep_def list_all2_appendI split: list.splits)
    with run show ?thesis by blast
  qed
qed

lemma push_front_rep:
  assumes rep: "dll_rep dll st as ds" and fresh: "st x = None"
  shows "\<exists>dll' st'. push_front dll d (Some x) st = Some (dll', st') \<and>
    dll_rep dll' st' (x # as) (d # ds)"
proof -
  have x: "x \<notin> set as" using dll_rep_node [OF rep] fresh by fastforce
  show ?thesis
  proof (cases as)
    case Nil
    with rep show ?thesis
      by (simp add: push_front_def new_node_def set_next_def dll_is_empty_def dll_rep_def)
  next
    case (Cons a bs)
    obtain n where n: "st a = Some n" using dll_rep_node [OF rep] Cons by fastforce
    have ne: "a \<noteq> x" using x Cons by auto
    have hd: "dll_head dll = Some a" using rep Cons by (simp add: dll_rep_def)
    define st' where "st' = st(x \<mapsto> \<lparr>data = d, node_next = Some a, node_prev = None\<rparr>,
      a \<mapsto> n\<lparr>node_prev := Some x\<rparr>)"
    have run: "push_front dll d (Some x) st = Some (dll\<lparr>dll_head := Some x\<rparr>, st')"
      using dll_rep_empty [OF rep] Cons ne n hd
      by (simp add: push_front_def new_node_def set_next_def set_prev_def fun_upd_twist st'_def)
    have at: "st' x = Some \<lparr>data = d, node_next = Some a, node_prev = None\<rparr>"
      "st' a = Some (n\<lparr>node_prev := Some x\<rparr>)" "\<And>b. b \<noteq> x \<Longrightarrow> b \<noteq> a \<Longrightarrow> st' b = st b"
      using ne by (simp_all add: st'_def)
    have da: "a \<notin> set bs" using rep Cons by (simp add: dll_rep_def)
    have o: "st' b = st b" if "b \<in> set bs" for b using at(3) that x da Cons by (metis list.set_intros(2))
    have "chain (nxt st') (prv st') None (x # a # bs)"
    proof (rule chain_push_front)
      show "chain (nxt st) (prv st) None (a # bs)" using rep Cons by (simp add: dll_rep_def)
      show "nxt st' c = nxt st c" if "c \<in> set (a # bs)" for c
        using that at(2) n by (cases "c = a") (auto intro: fields_other o)
    qed (use at o in \<open>auto intro: fields_other\<close>)
    moreover have "list_all2 (holds st') as ds"
    proof (rule holds_cong)
      show "list_all2 (holds st) as ds" using rep by (simp add: dll_rep_def)
      show "holds st' c = holds st c" if "c \<in> set as" for c
        using that at(2) n Cons by (cases "c = a") (auto intro: fields_other o)
    qed
    ultimately have "dll_rep (dll\<lparr>dll_head := Some x\<rparr>) st' (x # as) (d # ds)"
      using rep x Cons at(1) by (simp add: dll_rep_def)
    with run show ?thesis by blast
  qed
qed

lemma pop_front_rep:
  assumes rep: "dll_rep dll st (a # as) (d # ds)"
  shows "\<exists>dll' st'. pop_front dll st = Some (Some d, dll', st') \<and> dll_rep dll' st' as ds \<and> st' a = None"
proof -
  obtain n where n: "st a = Some n" using dll_rep_node [OF rep] by fastforce
  have hd: "dll_head dll = Some a" and da: "a \<notin> set as" "distinct as" and d: "data n = d"
    and nx: "node_next n = first as"
    using rep n by (simp_all add: dll_rep_def)
  have el: "list_all2 (holds st) as ds" using rep by (simp add: dll_rep_def)
  have o: "list_all2 (holds st') as ds" if "\<And>b. b \<in> set as \<Longrightarrow> holds st' b = holds st b" for st'
    using el that by (rule holds_cong)
  show ?thesis
  proof (cases as)
    case Nil
    with rep n hd d nx show ?thesis
      by (simp add: pop_front_def dll_is_empty_def dll_rep_def)
  next
    case (Cons b bs)
    obtain m where m: "st b = Some m" using dll_rep_node [OF rep] Cons by fastforce
    have ne: "a \<noteq> b" using da Cons by auto
    define st' where "st' = st(b \<mapsto> m\<lparr>node_prev := None\<rparr>, a := None)"
    have run: "pop_front dll st = Some (Some d, dll\<lparr>dll_head := Some b\<rparr>, st')"
      using hd n m ne nx Cons d by (simp add: pop_front_def dll_is_empty_def set_prev_def st'_def)
    have at: "st' b = Some (m\<lparr>node_prev := None\<rparr>)" "\<And>c. c \<noteq> a \<Longrightarrow> c \<noteq> b \<Longrightarrow> st' c = st c" "st' a = None"
      using ne by (simp_all add: st'_def)
    have same: "st' c = st c" if "c \<in> set bs" for c
      using that at(2) da Cons by (metis distinct.simps(2) list.set_intros(2))
    have "chain (nxt st') (prv st') None (b # bs)"
    proof (rule chain_pop_front)
      show "chain (nxt st) (prv st) None (a # b # bs)" using rep Cons by (simp add: dll_rep_def)
      show "nxt st' c = nxt st c" if "c \<in> set (b # bs)" for c
        using that at(1) m by (cases "c = b") (auto intro: fields_other same)
    qed (use at same in \<open>auto intro: fields_other\<close>)
    moreover have "list_all2 (holds st') as ds"
    proof (rule o)
      show "holds st' c = holds st c" if "c \<in> set as" for c
        using that at(1) m Cons by (cases "c = b") (auto intro: fields_other same)
    qed
    ultimately have "dll_rep (dll\<lparr>dll_head := Some b\<rparr>) st' as ds"
      using rep Cons da by (simp add: dll_rep_def)
    with run at(3) show ?thesis by blast
  qed
qed

lemma pop_back_rep:
  assumes rep: "dll_rep dll st (as @ [x]) (ds @ [d])"
  shows "\<exists>dll' st'. pop_back dll st = Some (Some d, dll', st') \<and> dll_rep dll' st' as ds \<and> st' x = None"
proof -
  obtain n where n: "st x = Some n" using dll_rep_node [OF rep] by fastforce
  have ex: "list_all2 (holds st) (as @ [x]) (ds @ [d])" using rep by (simp add: dll_rep_def)
  from list_all2_lengthD [OF ex] have "length as = length ds" by simp
  from ex [unfolded list_all2_append [OF this]] have el: "list_all2 (holds st) as ds" "holds st x d"
    by simp_all
  have tl: "dll_tail dll = Some x" using rep by (cases as) (simp_all add: dll_rep_def)
  show ?thesis
  proof (cases as rule: rev_cases)
    case Nil
    with rep n tl el show ?thesis
      by (simp add: pop_back_def dll_is_empty_def dll_rep_def)
  next
    case (snoc bs l)
    obtain m where m: "st l = Some m" using dll_rep_node [OF rep] snoc by fastforce
    have dis: "distinct (bs @ [l, x])" using rep snoc by (simp add: dll_rep_def)
    have ne: "l \<noteq> x" using dis by auto
    have ch: "chain (nxt st) (prv st) None (bs @ [l, x])" using rep snoc by (simp add: dll_rep_def)
    define st' where "st' = st(l \<mapsto> m\<lparr>node_next := None\<rparr>, x := None)"
    have at: "st' l = Some (m\<lparr>node_next := None\<rparr>)" "\<And>c. c \<noteq> l \<Longrightarrow> c \<noteq> x \<Longrightarrow> st' c = st c" "st' x = None"
      using ne by (simp_all add: st'_def)
    have same: "st' c = st c" if "c \<in> set bs" for c by (rule at(2)) (use that dis in auto)
    have "chain (nxt st') (prv st') None (bs @ [l])" and px: "prv st x = Some l"
    proof (atomize (full), intro conjI)
      show "chain (nxt st') (prv st') None (bs @ [l])"
        by (rule chain_pop_back(1) [OF ch]) (use at same m in \<open>auto intro: fields_other\<close>)
      show "prv st x = Some l" by (rule chain_pop_back(2) [OF ch, of "(nxt st)(l := None)" "prv st"])
        (use dis in auto)
    qed
    moreover have "list_all2 (holds st') as ds"
    proof (rule holds_cong [OF el(1)])
      show "holds st' c = holds st c" if "c \<in> set as" for c
        using that at(1) m snoc by (cases "c = l") (auto intro: fields_other same)
    qed
    moreover have "dll_head dll = Some (hd as)" using rep snoc by (cases bs) (simp_all add: dll_rep_def)
    moreover obtain h where h: "st (hd as) = Some h"
      using dll_rep_node [OF rep, of "hd as"] snoc by (cases bs) auto
    moreover have "nxt st (hd as) \<noteq> None" using ch snoc by (cases bs) (auto split: list.splits)
    ultimately have pieces: "chain (nxt st') (prv st') None as" "list_all2 (holds st') as ds"
      "dll_head dll = Some (hd as)" "node_next h \<noteq> None" using snoc by auto
    have "node_prev n = Some l" "data n = d" using px el(2) n by simp_all
    then have "pop_back dll st = Some (Some d, dll\<lparr>dll_tail := Some l\<rparr>, st')"
      using pieces(3,4) h tl n m ne
      by (auto simp: pop_back_def dll_is_empty_def set_next_def st'_def)
    moreover have "dll_rep (dll\<lparr>dll_tail := Some l\<rparr>) st' as ds"
      using pieces snoc dis unfolding dll_rep_def by (cases bs) auto
    ultimately show ?thesis using at(3) by blast
  qed
qed

section \<open>Properties\<close>

text \<open>
  C29: the list refines a double-ended queue. On a well-formed list that holds \<open>ds\<close>, and for a
  fresh node from \<open>kmalloc\<close>, \<open>push_front\<close> and \<open>push_back\<close> yield a well-formed list with the
  element added at that end; \<open>pop_front\<close> and \<open>pop_back\<close> return \<open>NULL\<close> and change nothing on an
  empty list, and otherwise return the element at that end, free exactly its node and yield a
  well-formed list of the rest. All links stay consistent in both directions.
\<close>

theorem dll_refines_deque:
  assumes "dll_rep dll st as ds" "st x = None"
  shows "(\<exists>dll' st'. push_back dll d (Some x) st = Some (dll', st') \<and> dll_rep dll' st' (as @ [x]) (ds @ [d])) \<and>
    (\<exists>dll' st'. push_front dll d (Some x) st = Some (dll', st') \<and> dll_rep dll' st' (x # as) (d # ds)) \<and>
    (ds = [] \<longrightarrow> pop_front dll st = Some (None, dll, st) \<and> pop_back dll st = Some (None, dll, st)) \<and>
    (ds \<noteq> [] \<longrightarrow>
      (\<exists>dll' st'. pop_front dll st = Some (Some (hd ds), dll', st') \<and> dll_rep dll' st' (tl as) (tl ds) \<and>
        st' (hd as) = None) \<and>
      (\<exists>dll' st'. pop_back dll st = Some (Some (last ds), dll', st') \<and>
        dll_rep dll' st' (butlast as) (butlast ds) \<and> st' (last as) = None))"
proof -
  have len: "length as = length ds" using assms(1) by (auto simp: dll_rep_def dest: list_all2_lengthD)
  have e: "pop_front dll st = Some (None, dll, st)" "pop_back dll st = Some (None, dll, st)" if "ds = []"
    using that len dll_rep_empty [OF assms(1)] by (simp_all add: pop_front_def pop_back_def)
  have f: "\<exists>dll' st'. pop_front dll st = Some (Some (hd ds), dll', st') \<and> dll_rep dll' st' (tl as) (tl ds) \<and>
      st' (hd as) = None" if "ds \<noteq> []"
    using that len assms(1) pop_front_rep [of dll st "hd as" "tl as" "hd ds" "tl ds"]
    by (cases as; cases ds) auto
  have b: "\<exists>dll' st'. pop_back dll st = Some (Some (last ds), dll', st') \<and>
      dll_rep dll' st' (butlast as) (butlast ds) \<and> st' (last as) = None" if "ds \<noteq> []"
    using that len assms(1) pop_back_rep [of dll st "butlast as" "last as" "butlast ds" "last ds"]
    by (cases "as = []") auto
  show ?thesis using push_back_rep [OF assms] push_front_rep [OF assms] e f b by blast
qed

theorem dll_refines_deque_witness:
  "\<exists>dll' st'. pop_back \<lparr>dll_head = Some 0, dll_tail = Some 1\<rparr>
      [0 \<mapsto> \<lparr>data = ''a'', node_next = Some 1, node_prev = None\<rparr>,
       1 \<mapsto> \<lparr>data = ''b'', node_next = None, node_prev = Some 0\<rparr>] = Some (Some ''b'', dll', st') \<and>
    dll_rep dll' st' [0] [''a''] \<and> st' 1 = None"
proof -
  let ?st = "[0 \<mapsto> \<lparr>data = ''a'', node_next = Some 1, node_prev = None\<rparr>,
       1 \<mapsto> \<lparr>data = ''b'', node_next = None, node_prev = Some 0\<rparr>]"
  have "dll_rep \<lparr>dll_head = Some 0, dll_tail = Some 1\<rparr> ?st [0, 1] [''a'', ''b'']"
    by (simp add: dll_rep_def)
  from dll_refines_deque [OF this, of 2] show ?thesis by simp
qed

end
