(* ===== verification/Sched.thy ===== *)
theory Sched
  imports Spinlock Chain Fifo
begin

text \<open>
  Threads and their scheduling: \<open>src/kernel/arch/scheduler.c\<close>, the interrupt handlers and
  registers of \<open>src/kernel/devices/lapic.c\<close>, the core-local part of \<open>src/kernel/arch/cpu.c\<close> and
  \<open>src/kernel/sys/event.c\<close>. Threads, processes, cores and events are objects of a store, named by
  the number of their address; \<open>c\<close> is the core that executes. A handler runs to the
  \<open>iretq\<close> of \<open>thread_switch\<close>, which loads the registers of the thread it resumes into the core.
  \<open>schedule_thread_yield\<close> is cut at the point where it waits: what it does before
  (\<open>schedule_thread_yield\<close>), the interprocessor interrupt it sends itself (\<open>lapic_ipi_handler\<close>),
  and what it does when the thread is resumed (\<open>yield_resume\<close>).
\<close>

section \<open>Data\<close>

record ctx =
  rax :: u64
  rbx :: u64
  rcx :: u64
  rdx :: u64
  rsi :: u64
  rdi :: u64
  rbp :: u64
  r8 :: u64
  r9 :: u64
  r10 :: u64
  r11 :: u64
  r12 :: u64
  r13 :: u64
  r14 :: u64
  r15 :: u64
  err :: u64
  rip :: u64
  cs :: u64
  rflags :: u64
  rsp :: u64
  ss :: u64

datatype thread_state =
    THREAD_CREATED | THREAD_RUNNABLE | THREAD_BLOCKED | THREAD_WAITING
  | THREAD_JOINED | THREAD_DELAYED | THREAD_RUNNING | THREAD_ZOMBIE

record tcb =
  tid :: u32
  cpu_id :: int
  parent :: "nat option"
  thread_base_sp :: u64
  thread_sp :: u64
  kernel_base_sp :: u64
  kernel_sp :: u64
  tcontext :: ctx
  thread_scratch :: u64
  state :: thread_state
  yield_cause :: u32
  quantum :: u32
  received_event :: "nat option"
  join_thread :: "nat option"
  yield_lock :: spinlock
  prev_thread :: "nat option"
  next_thread :: "nat option"

text \<open>
  A core: its \<open>core_t\<close>, and of the processor the interrupt flag, the page table base, the
  registers it runs with, and its local APIC (the registers, and the interprocessor interrupts
  it has sent as pairs of destination and vector).
\<close>

record core =
  kernel_stack :: u64
  kernel_scratch :: u64
  irq_stack :: u64
  lapic_id :: u32
  lapic_ipi_vector :: u32
  lapic_timer_vector :: u8
  lapic_freq :: u64
  idle_thread :: "nat option"
  current_thread :: "nat option"
  tss_ist1 :: u64
  if_flag :: bool
  cr3 :: u64
  regs :: ctx
  lapic_reg :: "u64 \<Rightarrow> u32"
  ipis :: "(u32 \<times> u32) list"

record event =
  ev_lock :: spinlock
  num_listeners :: u64
  listeners :: "nat option list"

record kernel =
  threads :: "nat \<rightharpoonup> tcb"
  pml4_of :: "nat \<rightharpoonup> u64"
  cores :: "nat \<rightharpoonup> core"
  events :: "nat \<rightharpoonup> event"
  head :: "nat option"
  tail :: "nat option"
  ready_queue_lock :: spinlock
  joined_threads :: "nat option list"
  joined_queue_lock :: spinlock
  freed :: "u64 list"

definition QUEUE_MAX :: nat where "QUEUE_MAX = 100"
definition SCHEDULE_OK :: int where "SCHEDULE_OK = 0"
definition SCHEDULE_ERR :: int where "SCHEDULE_ERR = 1"
definition YIELD_WAIT :: u32 where "YIELD_WAIT = 1"
definition YIELD_TERMINATE :: u32 where "YIELD_TERMINATE = 2"
definition YIELD_JOIN :: u32 where "YIELD_JOIN = 3"

text \<open>Assignments through a thread pointer and to the executing core.\<close>

definition upd_thread :: "nat option \<Rightarrow> (tcb \<Rightarrow> tcb) \<Rightarrow> kernel \<Rightarrow> kernel option" where
  "upd_thread p f k = do {
     t \<leftarrow> p;
     th \<leftarrow> threads k t;
     Some (k\<lparr>threads := (threads k)(t \<mapsto> f th)\<rparr>) }"

definition upd_core :: "nat \<Rightarrow> (core \<Rightarrow> core) \<Rightarrow> kernel \<Rightarrow> kernel option" where
  "upd_core c f k = do {
     co \<leftarrow> cores k c;
     Some (k\<lparr>cores := (cores k)(c \<mapsto> f co)\<rparr>) }"

section \<open>Local APIC\<close>

definition LAPIC_EOI :: u64 where "LAPIC_EOI = 0x0B0"
definition SIV :: u64 where "SIV = 0x0F0"
definition LAPIC_ICR0 :: u64 where "LAPIC_ICR0 = 0x300"
definition LAPIC_ICR1 :: u64 where "LAPIC_ICR1 = 0x310"
definition LVT_TIMER :: u64 where "LVT_TIMER = 0x320"
definition LVT_INITIAL_COUNT :: u64 where "LVT_INITIAL_COUNT = 0x380"
definition SIV_ENABLE :: u32 where "SIV_ENABLE = 0x100"
definition LVT_MASK :: u32 where "LVT_MASK = 0x10000"
definition LVT_VECTOR :: u32 where "LVT_VECTOR = 0xff"

definition is_lapic_aligned :: "u64 \<Rightarrow> bool" where
  "is_lapic_aligned offset \<longleftrightarrow> offset < 0x400 \<or> offset mod 16 = 0"

definition lapic_read :: "nat \<Rightarrow> u64 \<Rightarrow> kernel \<Rightarrow> u32 option" where
  "lapic_read c offset k = do {
     co \<leftarrow> cores k c;
     if is_lapic_aligned offset then Some (lapic_reg co offset) else None }"

text \<open>A write to the low half of the interrupt command register sends the interrupt.\<close>

definition lapic_write :: "nat \<Rightarrow> u64 \<Rightarrow> u32 \<Rightarrow> kernel \<Rightarrow> kernel option" where
  "lapic_write c offset val k =
     (if is_lapic_aligned offset
      then upd_core c (\<lambda>co. co\<lparr>lapic_reg := (lapic_reg co)(offset := val),
        ipis := (if offset = LAPIC_ICR0
          then ipis co @ [(drop_bit 24 (lapic_reg co LAPIC_ICR1), val)] else ipis co)\<rparr>) k
      else None)"

definition lapic_eoi :: "nat \<Rightarrow> kernel \<Rightarrow> kernel option" where
  "lapic_eoi c k = lapic_write c LAPIC_EOI 0 k"

definition lapic_lvt_enable :: "nat \<Rightarrow> u64 \<Rightarrow> kernel \<Rightarrow> kernel option" where
  "lapic_lvt_enable c lvt k = do {
     v \<leftarrow> lapic_read c lvt k;
     lapic_write c lvt (v AND NOT LVT_MASK) k }"

definition lapic_lvt_disable :: "nat \<Rightarrow> u64 \<Rightarrow> kernel \<Rightarrow> kernel option" where
  "lapic_lvt_disable c lvt k = do {
     v \<leftarrow> lapic_read c lvt k;
     lapic_write c lvt (v OR LVT_MASK) k }"

definition lapic_lvt_set_vector :: "nat \<Rightarrow> u64 \<Rightarrow> u8 \<Rightarrow> kernel \<Rightarrow> kernel option" where
  "lapic_lvt_set_vector c lvt vector k = do {
     v \<leftarrow> lapic_read c lvt k;
     lapic_write c lvt ((v AND NOT LVT_VECTOR) OR ucast vector) k }"

definition lapic_enable :: "nat \<Rightarrow> kernel \<Rightarrow> kernel option" where
  "lapic_enable c k = do {
     v \<leftarrow> lapic_read c SIV k;
     lapic_write c SIV (v OR SIV_ENABLE) k }"

definition lapic_disable :: "nat \<Rightarrow> kernel \<Rightarrow> kernel option" where
  "lapic_disable c k = do {
     v \<leftarrow> lapic_read c SIV k;
     lapic_write c SIV (v AND NOT SIV_ENABLE) k }"

definition lapic_schedule_time :: "nat \<Rightarrow> u64 \<Rightarrow> kernel \<Rightarrow> kernel option" where
  "lapic_schedule_time c us k = do {
     co \<leftarrow> cores k c;
     let ticks = us * (lapic_freq co div 1000000);
     k \<leftarrow> lapic_write c LVT_INITIAL_COUNT (ucast ticks) k;
     lapic_lvt_enable c LVT_TIMER k }"

definition lapic_send_ipi :: "nat \<Rightarrow> u32 \<Rightarrow> u32 \<Rightarrow> kernel \<Rightarrow> kernel option" where
  "lapic_send_ipi c dest vector k = do {
     k \<leftarrow> lapic_write c LAPIC_ICR1 (push_bit 24 dest) k;
     lapic_write c LAPIC_ICR0 vector k }"

section \<open>The ready queue\<close>

definition pop_thread_from_queue :: "kernel \<Rightarrow> (nat option \<times> kernel) option" where
  "pop_thread_from_queue k = do {
     l \<leftarrow> spinlock_acquire (ready_queue_lock k);
     let k = k\<lparr>ready_queue_lock := l\<rparr>;
     if head k = None then Some (None, k\<lparr>ready_queue_lock := spinlock_release l\<rparr>)
     else do {
       hd_thread \<leftarrow> deref (threads k) (head k);
       k \<leftarrow> (if next_thread hd_thread = None then Some (k\<lparr>tail := None\<rparr>)
         else upd_thread (next_thread hd_thread) (\<lambda>t. t\<lparr>prev_thread := None\<rparr>) k);
       let thread = head k;
       hd_thread \<leftarrow> deref (threads k) thread;
       let k = k\<lparr>head := next_thread hd_thread\<rparr>;
       k \<leftarrow> upd_thread thread (\<lambda>t. t\<lparr>prev_thread := None, next_thread := None\<rparr>) k;
       Some (thread, k\<lparr>ready_queue_lock := spinlock_release (ready_queue_lock k)\<rparr>) } }"

definition schedule_add_thread :: "nat \<Rightarrow> nat option \<Rightarrow> kernel \<Rightarrow> kernel option" where
  "schedule_add_thread c thread k = do {
     co \<leftarrow> cores k c;
     let i_flag = if_flag co;
     k \<leftarrow> (if i_flag then upd_core c (\<lambda>co. co\<lparr>if_flag := False\<rparr>) k else Some k);
     l \<leftarrow> spinlock_acquire (ready_queue_lock k);
     let k = k\<lparr>ready_queue_lock := l\<rparr>;
     k \<leftarrow> (if head k = None
       then upd_thread thread (\<lambda>t. t\<lparr>prev_thread := None\<rparr>) (k\<lparr>head := thread\<rparr>)
       else do {
         k \<leftarrow> upd_thread (tail k) (\<lambda>t. t\<lparr>next_thread := thread\<rparr>) k;
         upd_thread thread (\<lambda>t. t\<lparr>prev_thread := tail k\<rparr>) k });
     k \<leftarrow> upd_thread thread (\<lambda>t. t\<lparr>next_thread := None\<rparr>) (k\<lparr>tail := thread\<rparr>);
     let k = k\<lparr>ready_queue_lock := spinlock_release (ready_queue_lock k)\<rparr>;
     if i_flag then upd_core c (\<lambda>co. co\<lparr>if_flag := True\<rparr>) k else Some k }"

section \<open>Switching threads\<close>

text \<open>\<open>h\<close> is \<open>KERNEL_HHDM_OFFSET\<close>.\<close>

definition thread_switch :: "u64 \<Rightarrow> nat \<Rightarrow> kernel \<Rightarrow> kernel option" where
  "thread_switch h c k = do {
     co \<leftarrow> cores k c;
     thread \<leftarrow> deref (threads k) (current_thread co);
     pml4_base \<leftarrow> deref (pml4_of k) (parent thread);
     k \<leftarrow> lapic_schedule_time c (ucast (quantum thread)) k;
     upd_core c (\<lambda>co. co\<lparr>cr3 := pml4_base - h, regs := tcontext thread,
       if_flag := bit (rflags (tcontext thread)) 9\<rparr>) k }"

definition thread_entry :: "u64 \<Rightarrow> nat \<Rightarrow> nat option \<Rightarrow> kernel \<Rightarrow> kernel option" where
  "thread_entry h c thread k = do {
     th \<leftarrow> deref (threads k) thread;
     k \<leftarrow> upd_core c (\<lambda>co. co\<lparr>kernel_stack := kernel_sp th, kernel_scratch := thread_scratch th,
       tss_ist1 := irq_stack co, current_thread := thread\<rparr>) k;
     k \<leftarrow> upd_thread thread (\<lambda>t. t\<lparr>state := THREAD_RUNNING,
       yield_lock := spinlock_release (yield_lock t)\<rparr>) k;
     thread_switch h c k }"

definition schedule_next_thread :: "u64 \<Rightarrow> nat \<Rightarrow> kernel \<Rightarrow> kernel option" where
  "schedule_next_thread h c k = do {
     (t, k) \<leftarrow> pop_thread_from_queue k;
     co \<leftarrow> cores k c;
     thread_entry h c (if t = None then idle_thread co else t) k }"

definition save_context :: "nat \<Rightarrow> ctx \<Rightarrow> kernel \<Rightarrow> kernel option" where
  "save_context c ctx k = do {
     co \<leftarrow> cores k c;
     upd_thread (current_thread co)
       (\<lambda>t. t\<lparr>tcontext := ctx, thread_scratch := kernel_scratch co\<rparr>) k }"

text \<open>\<open>thread_destroy\<close>: \<open>kfree\<close> of \<open>NULL\<close> does nothing.\<close>

definition kfree :: "u64 \<Rightarrow> kernel \<Rightarrow> kernel" where
  "kfree addr k = (if addr = 0 then k else k\<lparr>freed := addr # freed k\<rparr>)"

definition thread_destroy :: "nat option \<Rightarrow> kernel \<Rightarrow> kernel option" where
  "thread_destroy thread k =
     (if thread = None then Some k
      else do {
        th \<leftarrow> deref (threads k) thread;
        let k = (if thread_base_sp th = 0 then kfree (thread_base_sp th) k else k);
        let k = (if kernel_base_sp th = 0 then kfree (thread_base_sp th) k else k);
        Some k })"

text \<open>
  The two handlers are cut where other cores can come in between: the timer's after the current
  thread has been queued, the interprocessor interrupt's after the state of the thread has been
  set and after its registers have been saved.
\<close>

definition lapic_time_leave :: "nat \<Rightarrow> ctx \<Rightarrow> kernel \<Rightarrow> kernel option" where
  "lapic_time_leave c ctx k = do {
     k \<leftarrow> lapic_eoi c k;
     co \<leftarrow> cores k c;
     let thread = current_thread co;
     k \<leftarrow> save_context c ctx k;
     if idle_thread co \<noteq> thread then schedule_add_thread c thread k else Some k }"

definition lapic_time_handler :: "u64 \<Rightarrow> nat \<Rightarrow> ctx \<Rightarrow> kernel \<Rightarrow> kernel option" where
  "lapic_time_handler h c ctx k = do {
     k \<leftarrow> lapic_time_leave c ctx k;
     schedule_next_thread h c k }"

definition lapic_ipi_mark :: "nat \<Rightarrow> kernel \<Rightarrow> kernel option" where
  "lapic_ipi_mark c k = do {
     k \<leftarrow> lapic_eoi c k;
     co \<leftarrow> cores k c;
     let thread = current_thread co;
     th \<leftarrow> deref (threads k) thread;
     let cause = yield_cause th;
     if cause = YIELD_TERMINATE
     then do {
       k \<leftarrow> upd_thread thread (\<lambda>t. t\<lparr>state := THREAD_ZOMBIE\<rparr>) k;
       thread_destroy thread k }
     else if cause = YIELD_WAIT then upd_thread thread (\<lambda>t. t\<lparr>state := THREAD_WAITING\<rparr>) k
     else if cause = YIELD_JOIN then upd_thread thread (\<lambda>t. t\<lparr>state := THREAD_JOINED\<rparr>) k
     else Some k }"

definition lapic_ipi_save :: "nat \<Rightarrow> ctx \<Rightarrow> kernel \<Rightarrow> kernel option" where
  "lapic_ipi_save c ctx k = do {
     co \<leftarrow> cores k c;
     if current_thread co \<noteq> idle_thread co then save_context c ctx k else Some k }"

definition lapic_ipi_handler :: "u64 \<Rightarrow> nat \<Rightarrow> ctx \<Rightarrow> kernel \<Rightarrow> kernel option" where
  "lapic_ipi_handler h c ctx k = do {
     k \<leftarrow> lapic_ipi_mark c k;
     k \<leftarrow> lapic_ipi_save c ctx k;
     schedule_next_thread h c k }"

section \<open>Yielding, waiting and joining\<close>

definition schedule_thread_yield :: "nat \<Rightarrow> bool \<Rightarrow> u32 \<Rightarrow> kernel \<Rightarrow> kernel option" where
  "schedule_thread_yield c no_return cause k = do {
     k \<leftarrow> upd_core c (\<lambda>co. co\<lparr>if_flag := False\<rparr>) k;
     k \<leftarrow> lapic_lvt_disable c LVT_TIMER k;
     k \<leftarrow> lapic_schedule_time c 0 k;
     co \<leftarrow> cores k c;
     let thread = current_thread co;
     k \<leftarrow> upd_thread thread (\<lambda>t. t\<lparr>yield_cause := cause\<rparr>) k;
     k \<leftarrow> (if no_return then Some k
       else do {
         th \<leftarrow> deref (threads k) thread;
         l \<leftarrow> spinlock_acquire (yield_lock th);
         upd_thread thread (\<lambda>t. t\<lparr>yield_lock := l\<rparr>) k });
     k \<leftarrow> lapic_send_ipi c (lapic_id co) (lapic_ipi_vector co) k;
     upd_core c (\<lambda>co. co\<lparr>if_flag := True\<rparr>) k }"

text \<open>
  What a yield that returns does once its thread runs again; \<open>state_if_flag\<close> is the interrupt
  flag the caller had.
\<close>

definition yield_resume :: "nat \<Rightarrow> bool \<Rightarrow> kernel \<Rightarrow> kernel option" where
  "yield_resume c state_if_flag k = do {
     co \<leftarrow> cores k c;
     th \<leftarrow> deref (threads k) (current_thread co);
     l \<leftarrow> spinlock_acquire (yield_lock th);
     k \<leftarrow> upd_thread (current_thread co) (\<lambda>t. t\<lparr>yield_lock := spinlock_release l\<rparr>) k;
     if state_if_flag then Some k else upd_core c (\<lambda>co. co\<lparr>if_flag := False\<rparr>) k }"

definition schedule_thread_wait :: "nat \<Rightarrow> kernel \<Rightarrow> kernel option" where
  "schedule_thread_wait c k = do {
     co \<leftarrow> cores k c;
     th \<leftarrow> deref (threads k) (current_thread co);
     if state th \<noteq> THREAD_RUNNING then Some k
     else schedule_thread_yield c False YIELD_WAIT k }"

definition schedule_notify :: "nat \<Rightarrow> nat option \<Rightarrow> nat option \<Rightarrow> kernel \<Rightarrow> (int \<times> kernel) option" where
  "schedule_notify c ev thread k = do {
     th \<leftarrow> deref (threads k) thread;
     if state th \<noteq> THREAD_WAITING \<and> state th \<noteq> THREAD_BLOCKED then Some (SCHEDULE_ERR, k)
     else do {
       k \<leftarrow> (if state th = THREAD_WAITING
         then upd_thread thread (\<lambda>t. t\<lparr>received_event := ev\<rparr>) k else Some k);
       k \<leftarrow> upd_thread thread (\<lambda>t. t\<lparr>state := THREAD_RUNNABLE\<rparr>) k;
       k \<leftarrow> schedule_add_thread c thread k;
       Some (SCHEDULE_OK, k) } }"

text \<open>The loop of \<open>schedule_thread_terminate\<close> over the joined threads.\<close>

definition wake_joined :: "nat \<Rightarrow> nat option \<Rightarrow> nat \<Rightarrow> kernel \<Rightarrow> kernel option" where
  "wake_joined c thread i k = do {
     joined \<leftarrow> rd (joined_threads k) i;
     case joined of
       None \<Rightarrow> Some k
     | Some j \<Rightarrow> do {
         th \<leftarrow> threads k j;
         if join_thread th = thread
         then do {
           k \<leftarrow> upd_thread joined (\<lambda>t. t\<lparr>state := THREAD_RUNNABLE\<rparr>) k;
           k \<leftarrow> schedule_add_thread c joined k;
           js \<leftarrow> wr (joined_threads k) i None;
           Some (k\<lparr>joined_threads := js\<rparr>) }
         else Some k } }"

definition terminate_begin :: "nat \<Rightarrow> kernel \<Rightarrow> kernel option" where
  "terminate_begin c k = do {
     k \<leftarrow> upd_core c (\<lambda>co. co\<lparr>if_flag := False\<rparr>) k;
     l \<leftarrow> spinlock_acquire (joined_queue_lock k);
     Some (k\<lparr>joined_queue_lock := l\<rparr>) }"

definition terminate_end :: "nat \<Rightarrow> kernel \<Rightarrow> kernel option" where
  "terminate_end c k = do {
     let k = k\<lparr>joined_queue_lock := spinlock_release (joined_queue_lock k)\<rparr>;
     schedule_thread_yield c True YIELD_TERMINATE k }"

definition schedule_thread_terminate :: "nat \<Rightarrow> kernel \<Rightarrow> kernel option" where
  "schedule_thread_terminate c k = do {
     k \<leftarrow> terminate_begin c k;
     co \<leftarrow> cores k c;
     let thread = current_thread co;
     k \<leftarrow> for_loop 0 QUEUE_MAX (wake_joined c thread) k;
     terminate_end c k }"

text \<open>The first free slot takes the thread; with no free slot it is registered nowhere.\<close>

fun first_free :: "nat option list \<Rightarrow> nat option \<Rightarrow> nat option list" where
  "first_free [] t = []"
| "first_free (None # js) t = t # js"
| "first_free (Some j # js) t = Some j # first_free js t"

text \<open>Up to the yield; \<^term>\<open>True\<close> when the thread has to wait.\<close>

definition schedule_thread_join :: "nat \<Rightarrow> nat option \<Rightarrow> kernel \<Rightarrow> (bool \<times> kernel) option" where
  "schedule_thread_join c thread_to_wait_on k = do {
     co \<leftarrow> cores k c;
     let i_flag = if_flag co;
     k \<leftarrow> (if i_flag then upd_core c (\<lambda>co. co\<lparr>if_flag := False\<rparr>) k else Some k);
     let thread = current_thread co;
     k \<leftarrow> upd_thread thread (\<lambda>t. t\<lparr>join_thread := thread_to_wait_on\<rparr>) k;
     l \<leftarrow> spinlock_acquire (joined_queue_lock k);
     other \<leftarrow> deref (threads k) thread_to_wait_on;
     if state other = THREAD_ZOMBIE
     then do {
       let k = k\<lparr>joined_queue_lock := spinlock_release l\<rparr>;
       k \<leftarrow> (if i_flag then upd_core c (\<lambda>co. co\<lparr>if_flag := True\<rparr>) k else Some k);
       Some (False, k) }
     else do {
       let k = k\<lparr>joined_threads := first_free (joined_threads k) thread,
         joined_queue_lock := spinlock_release l\<rparr>;
       k \<leftarrow> schedule_thread_yield c False YIELD_JOIN k;
       Some (True, k) } }"

section \<open>The ready queue as a list\<close>

definition nx :: "(nat \<rightharpoonup> tcb) \<Rightarrow> nat \<Rightarrow> nat option" where
  "nx ths t = (case ths t of None \<Rightarrow> None | Some th \<Rightarrow> next_thread th)"

definition pv :: "(nat \<rightharpoonup> tcb) \<Rightarrow> nat \<Rightarrow> nat option" where
  "pv ths t = (case ths t of None \<Rightarrow> None | Some th \<Rightarrow> prev_thread th)"

definition rq :: "kernel \<Rightarrow> nat list \<Rightarrow> bool" where
  "rq k q \<longleftrightarrow> distinct q \<and> chain (nx (threads k)) (pv (threads k)) None q \<and>
     head k = first q \<and> tail k = final q \<and> (\<forall>t\<in>set q. threads k t \<noteq> None) \<and> ready_queue_lock k = 0"

lemma nx_at [simp]: "ths t = Some th \<Longrightarrow> nx ths t = next_thread th"
  and pv_at [simp]: "ths t = Some th \<Longrightarrow> pv ths t = prev_thread th"
  by (simp_all add: nx_def pv_def)

lemma nx_cong: "ths' t = ths t \<Longrightarrow> nx ths' t = nx ths t"
  and pv_cong: "ths' t = ths t \<Longrightarrow> pv ths' t = pv ths t"
  by (simp_all add: nx_def pv_def)

text \<open>Two thread stores that agree but for the links.\<close>

definition unlink :: "tcb \<Rightarrow> tcb" where
  "unlink th = th\<lparr>prev_thread := None, next_thread := None\<rparr>"

definition same_threads :: "(nat \<rightharpoonup> tcb) \<Rightarrow> (nat \<rightharpoonup> tcb) \<Rightarrow> bool" where
  "same_threads ths ths' \<longleftrightarrow> (\<forall>t. map_option unlink (ths' t) = map_option unlink (ths t))"

lemma same_threads_refl [simp]: "same_threads ths ths"
  by (simp add: same_threads_def)

lemma same_threads_upd:
  "same_threads ths ths' \<Longrightarrow> ths' t = Some th \<Longrightarrow> unlink th' = unlink th \<Longrightarrow> same_threads ths (ths'(t \<mapsto> th'))"
  by (auto simp: same_threads_def) (metis option.simps(9))

lemma same_threads_Some:
  assumes "same_threads ths ths'" "ths t = Some th"
  shows "\<exists>th'. ths' t = Some th' \<and> unlink th' = unlink th"
proof -
  have "map_option unlink (ths' t) = Some (unlink th)"
    using assms by (simp add: same_threads_def)
  then show ?thesis by (cases "ths' t") auto
qed

lemma unlink_fields:
  assumes "unlink th' = unlink th"
  shows "state th' = state th" "tcontext th' = tcontext th" "parent th' = parent th"
    "yield_cause th' = yield_cause th" "yield_lock th' = yield_lock th" "quantum th' = quantum th"
    "kernel_sp th' = kernel_sp th" "thread_scratch th' = thread_scratch th"
    "join_thread th' = join_thread th" "received_event th' = received_event th"
  using assms by (cases th; cases th'; simp add: unlink_def)+

lemma unlink_links [simp]:
  "unlink (th\<lparr>prev_thread := a\<rparr>) = unlink th" "unlink (th\<lparr>next_thread := a\<rparr>) = unlink th"
  by (simp_all add: unlink_def)

text \<open>The saved contexts.\<close>

definition ctx_of :: "kernel \<Rightarrow> nat \<Rightarrow> ctx option" where
  "ctx_of k t = map_option tcontext (threads k t)"

lemma ctx_of_same:
  assumes "same_threads (threads k) (threads k')"
  shows "ctx_of k' = ctx_of k"
proof
  fix t
  have "map_option unlink (threads k' t) = map_option unlink (threads k t)"
    using assms by (simp add: same_threads_def)
  then show "ctx_of k' t = ctx_of k t"
    by (cases "threads k' t"; cases "threads k t") (auto simp: ctx_of_def dest: unlink_fields(2))
qed

lemma if_flag_restore: "if_flag co \<Longrightarrow> co\<lparr>if_flag := True\<rparr> = co"
  by (cases co) simp

lemma kernel_lock_eq: "ready_queue_lock k = 0 \<Longrightarrow> k\<lparr>ready_queue_lock := 0\<rparr> = k"
  by (cases k) simp

text \<open>The code of the two queue operations, case by case.\<close>

lemma schedule_add_first:
  assumes "ready_queue_lock k = 0" "head k = None" "threads k t = Some th" "cores k c = Some co"
  shows "schedule_add_thread c (Some t) k = Some (k\<lparr>threads := (threads k)
    (t \<mapsto> th\<lparr>prev_thread := None, next_thread := None\<rparr>), head := Some t, tail := Some t\<rparr>)"
proof (cases "if_flag co")
  case True
  with assms show ?thesis
    by (simp add: schedule_add_thread_def Let_def, simp add: upd_thread_def upd_core_def)
      (rule kernel.equality; simp add: fun_upd_idem if_flag_restore)
next
  case False
  with assms show ?thesis
    by (simp add: schedule_add_thread_def Let_def, simp add: upd_thread_def)
qed

lemma schedule_add_last:
  assumes "ready_queue_lock k = 0" "head k = Some a" "tail k = Some l" "threads k l = Some lh"
    "threads k t = Some th" "l \<noteq> t" "cores k c = Some co"
  shows "schedule_add_thread c (Some t) k = Some (k\<lparr>threads := (threads k)
    (l \<mapsto> lh\<lparr>next_thread := Some t\<rparr>, t \<mapsto> th\<lparr>prev_thread := Some l, next_thread := None\<rparr>),
    head := Some a, tail := Some t\<rparr>)"
proof (cases "if_flag co")
  case True
  with assms show ?thesis
    by (simp add: schedule_add_thread_def Let_def, simp add: upd_thread_def upd_core_def)
      (rule kernel.equality; simp add: fun_upd_idem if_flag_restore)
next
  case False
  with assms show ?thesis
    by (simp add: schedule_add_thread_def Let_def, simp add: upd_thread_def)
qed

lemma pop_only:
  assumes "ready_queue_lock k = 0" "head k = Some t" "threads k t = Some th" "next_thread th = None"
  shows "pop_thread_from_queue k = Some (Some t, k\<lparr>threads := (threads k)
    (t \<mapsto> th\<lparr>prev_thread := None, next_thread := None\<rparr>), head := None, tail := None\<rparr>)"
  using assms
  by (simp add: pop_thread_from_queue_def Let_def, simp add: upd_thread_def)

lemma pop_next:
  assumes "ready_queue_lock k = 0" "head k = Some t" "threads k t = Some th" "next_thread th = Some b"
    "threads k b = Some bh" "t \<noteq> b"
  shows "pop_thread_from_queue k = Some (Some t, k\<lparr>threads := (threads k)
    (b \<mapsto> bh\<lparr>prev_thread := None\<rparr>, t \<mapsto> th\<lparr>prev_thread := None, next_thread := None\<rparr>),
    head := Some b, tail := tail k\<rparr>)"
  using assms
  by (simp add: pop_thread_from_queue_def Let_def, simp add: upd_thread_def)

text \<open>Adding a thread appends it.\<close>

lemma schedule_add_thread_rq:
  assumes rq: "rq k q" and th: "threads k t = Some th" and new: "t \<notin> set q"
    and co: "cores k c = Some co"
  shows "\<exists>ths h l. schedule_add_thread c (Some t) k = Some (k\<lparr>threads := ths, head := h, tail := l\<rparr>) \<and>
    same_threads (threads k) ths \<and> rq (k\<lparr>threads := ths, head := h, tail := l\<rparr>) (q @ [t])"
proof (cases "q = []")
  case True
  have rq_parts: "ready_queue_lock k = 0" "head k = None" using rq True by (simp_all add: rq_def)
  define ths where "ths = (threads k)(t \<mapsto> th\<lparr>prev_thread := None, next_thread := None\<rparr>)"
  have "schedule_add_thread c (Some t) k = Some (k\<lparr>threads := ths, head := Some t, tail := Some t\<rparr>)"
    unfolding ths_def using rq_parts th co by (rule schedule_add_first)
  moreover have "same_threads (threads k) ths"
    unfolding ths_def using th by (intro same_threads_upd) (simp_all add: unlink_def)
  moreover have "rq (k\<lparr>threads := ths, head := Some t, tail := Some t\<rparr>) (q @ [t])"
    using rq True by (simp add: rq_def ths_def)
  ultimately show ?thesis by blast
next
  case False
  have rq_parts: "ready_queue_lock k = 0" using rq by (simp add: rq_def)
  define l where "l = last q"
  have l: "l \<in> set q" "tail k = Some l" "head k \<noteq> None"
    using rq False by (auto simp: l_def rq_def split: list.splits)
  obtain lh where lh: "threads k l = Some lh" using rq l(1) by (auto simp: rq_def)
  have ne: "t \<noteq> l" using new l by auto
  define ths where "ths = (threads k)(l \<mapsto> lh\<lparr>next_thread := Some t\<rparr>,
    t \<mapsto> th\<lparr>prev_thread := Some l, next_thread := None\<rparr>)"
  obtain a where a: "head k = Some a" using l(3) by auto
  have run: "schedule_add_thread c (Some t) k = Some (k\<lparr>threads := ths, head := head k, tail := Some t\<rparr>)"
    unfolding ths_def a using rq_parts a l(2) lh th ne co by (intro schedule_add_last) auto
  have at: "ths t = Some (th\<lparr>prev_thread := Some l, next_thread := None\<rparr>)"
    "ths l = Some (lh\<lparr>next_thread := Some t\<rparr>)" "\<And>a. a \<noteq> t \<Longrightarrow> a \<noteq> l \<Longrightarrow> ths a = threads k a"
    using ne by (simp_all add: ths_def)
  have o: "ths a = threads k a" if "a \<in> set q" "a \<noteq> l" for a using at(3) that new by metis
  have "chain (nx ths) (pv ths) None (q @ [t])"
  proof (rule chain_push_back)
    show "chain (nx (threads k)) (pv (threads k)) None q" "distinct q" "q \<noteq> []"
      using rq False by (simp_all add: rq_def)
    show "pv ths a = pv (threads k) a" if "a \<in> set q" for a
    proof (cases "a = l")
      case True
      then show ?thesis using at(2) lh by simp
    qed (use that o pv_cong in blast)
    show "nx ths a = nx (threads k) a" if "a \<in> set q" "a \<noteq> last q" for a
      using that by (intro nx_cong o) (simp_all add: l_def)
  qed (use at in \<open>simp_all add: l_def\<close>)
  moreover have "same_threads (threads k) ths"
    unfolding ths_def using th lh ne by (intro same_threads_upd) (simp_all add: unlink_def)
  moreover have "\<forall>a\<in>set (q @ [t]). ths a \<noteq> None" using rq at o by (auto simp: rq_def) (metis option.distinct(1))
  ultimately have "rq (k\<lparr>threads := ths, head := head k, tail := Some t\<rparr>) (q @ [t])"
    using rq new False by (auto simp: rq_def split: list.splits)
  with run \<open>same_threads (threads k) ths\<close> show ?thesis by blast
qed

lemma pop_empty_rq:
  assumes "rq k []"
  shows "pop_thread_from_queue k = Some (None, k)"
  using assms kernel_lock_eq [of k] by (cases k) (simp add: pop_thread_from_queue_def rq_def)

text \<open>Popping removes the first thread and clears its links.\<close>

lemma pop_thread_rq:
  assumes rq: "rq k (t # q)"
  shows "\<exists>ths h l. pop_thread_from_queue k = Some (Some t, k\<lparr>threads := ths, head := h, tail := l\<rparr>) \<and>
    same_threads (threads k) ths \<and> rq (k\<lparr>threads := ths, head := h, tail := l\<rparr>) q"
proof -
  obtain th where th: "threads k t = Some th" using rq by (auto simp: rq_def)
  have hd: "head k = Some t" and nt: "t \<notin> set q" and nxt: "next_thread th = first q"
    using rq th by (simp_all add: rq_def)
  show ?thesis
  proof (cases q)
    case Nil
    define ths where "ths = (threads k)(t \<mapsto> th\<lparr>prev_thread := None, next_thread := None\<rparr>)"
    have "pop_thread_from_queue k = Some (Some t, k\<lparr>threads := ths, head := None, tail := None\<rparr>)"
      unfolding ths_def using rq hd th nxt Nil by (intro pop_only) (auto simp: rq_def)
    moreover have "same_threads (threads k) ths"
      unfolding ths_def using th by (intro same_threads_upd) (simp_all add: unlink_def)
    moreover have "rq (k\<lparr>threads := ths, head := None, tail := None\<rparr>) q" using rq Nil by (simp add: rq_def)
    ultimately show ?thesis by blast
  next
    case (Cons b bs)
    obtain bh where bh: "threads k b = Some bh" using rq Cons by (auto simp: rq_def)
    have ne: "t \<noteq> b" using nt Cons by auto
    define ths where "ths = (threads k)(b \<mapsto> bh\<lparr>prev_thread := None\<rparr>,
      t \<mapsto> th\<lparr>prev_thread := None, next_thread := None\<rparr>)"
    have run: "pop_thread_from_queue k =
        Some (Some t, k\<lparr>threads := ths, head := Some b, tail := tail k\<rparr>)"
      unfolding ths_def using rq hd th nxt bh ne Cons by (intro pop_next) (auto simp: rq_def)
    have at: "ths b = Some (bh\<lparr>prev_thread := None\<rparr>)" "\<And>a. a \<noteq> t \<Longrightarrow> a \<noteq> b \<Longrightarrow> ths a = threads k a"
      using ne by (simp_all add: ths_def)
    have db: "b \<notin> set bs" using rq Cons by (simp add: rq_def)
    have o: "ths a = threads k a" if "a \<in> set bs" for a using at(2) that nt db Cons by (metis list.set_intros(2))
    have "chain (nx ths) (pv ths) None (b # bs)"
    proof (rule chain_pop_front)
      show "chain (nx (threads k)) (pv (threads k)) None (t # b # bs)" using rq Cons by (simp add: rq_def)
      show "nx ths a = nx (threads k) a" if "a \<in> set (b # bs)" for a
      proof (cases "a = b")
        case True
        then show ?thesis using at(1) bh by simp
      next
        case False
        with that have "a \<in> set bs" by simp
        then show ?thesis by (intro nx_cong o)
      qed
      show "pv ths a = pv (threads k) a" if "a \<in> set bs" for a using that by (intro pv_cong o)
    qed (use at in simp)
    moreover have "same_threads (threads k) ths"
      unfolding ths_def using th bh ne by (intro same_threads_upd) (simp_all add: unlink_def)
    moreover have "\<forall>a\<in>set q. ths a \<noteq> None" using rq at o Cons by (auto simp: rq_def)
    ultimately have "rq (k\<lparr>threads := ths, head := Some b, tail := tail k\<rparr>) q"
      using rq Cons by (auto simp: rq_def)
    with run \<open>same_threads (threads k) ths\<close> show ?thesis by blast
  qed
qed

section \<open>The local APIC and the switch\<close>

lemma aligned_regs [simp]:
  "is_lapic_aligned LAPIC_EOI" "is_lapic_aligned SIV" "is_lapic_aligned LAPIC_ICR0"
  "is_lapic_aligned LAPIC_ICR1" "is_lapic_aligned LVT_TIMER" "is_lapic_aligned LVT_INITIAL_COUNT"
  by (simp_all add: is_lapic_aligned_def LAPIC_EOI_def SIV_def LAPIC_ICR0_def LAPIC_ICR1_def
      LVT_TIMER_def LVT_INITIAL_COUNT_def)

text \<open>A state that differs only in the APIC of core \<open>c\<close>.\<close>

definition apic_only :: "nat \<Rightarrow> core \<Rightarrow> kernel \<Rightarrow> kernel \<Rightarrow> bool" where
  "apic_only c co k k' \<longleftrightarrow> (\<exists>r is. k' = k\<lparr>cores := (cores k)(c \<mapsto> co\<lparr>lapic_reg := r, ipis := is\<rparr>)\<rparr>)"

lemma apic_only_write:
  assumes "apic_only c co k k'" "is_lapic_aligned offset"
  shows "\<exists>k''. lapic_write c offset v k' = Some k'' \<and> apic_only c co k k''"
proof -
  obtain r "is" where k': "k' = k\<lparr>cores := (cores k)(c \<mapsto> co\<lparr>lapic_reg := r, ipis := is\<rparr>)\<rparr>"
    using assms(1) by (auto simp: apic_only_def)
  show ?thesis unfolding k' using assms(2)
    by (simp add: lapic_write_def upd_core_def apic_only_def) blast
qed

lemma apic_only_read:
  assumes "apic_only c co k k'" "is_lapic_aligned offset"
  shows "\<exists>v. lapic_read c offset k' = Some v"
  using assms by (auto simp: apic_only_def lapic_read_def)

lemma apic_only_refl: "cores k c = Some co \<Longrightarrow> apic_only c co k k"
  unfolding apic_only_def
  by (intro exI [of _ "lapic_reg co"] exI [of _ "ipis co"] kernel.equality) (simp_all add: fun_upd_idem)

lemma apic_only_eoi:
  "apic_only c co k k' \<Longrightarrow> \<exists>k''. lapic_eoi c k' = Some k'' \<and> apic_only c co k k''"
  by (simp add: lapic_eoi_def apic_only_write)

lemma apic_only_enable:
  assumes "apic_only c co k k'"
  shows "\<exists>k''. lapic_lvt_enable c LVT_TIMER k' = Some k'' \<and> apic_only c co k k''"
  using apic_only_read [OF assms, of LVT_TIMER] apic_only_write [OF assms, of LVT_TIMER]
  by (auto simp: lapic_lvt_enable_def)

lemma apic_only_disable:
  assumes "apic_only c co k k'"
  shows "\<exists>k''. lapic_lvt_disable c LVT_TIMER k' = Some k'' \<and> apic_only c co k k''"
  using apic_only_read [OF assms, of LVT_TIMER] apic_only_write [OF assms, of LVT_TIMER]
  by (auto simp: lapic_lvt_disable_def)

lemma apic_only_schedule_time:
  assumes "apic_only c co k k'"
  shows "\<exists>k''. lapic_schedule_time c us k' = Some k'' \<and> apic_only c co k k''"
proof -
  obtain co' where co': "cores k' c = Some co'" using assms by (auto simp: apic_only_def)
  obtain k1 where k1: "lapic_write c LVT_INITIAL_COUNT (ucast (us * (lapic_freq co' div 1000000))) k' = Some k1"
    "apic_only c co k k1" using apic_only_write [OF assms] by (metis aligned_regs(6))
  from apic_only_enable [OF k1(2)] k1(1) co' show ?thesis by (auto simp: lapic_schedule_time_def)
qed

lemma apic_only_send_ipi:
  assumes "apic_only c co k k'"
  shows "\<exists>k''. lapic_send_ipi c d v k' = Some k'' \<and> apic_only c co k k''"
proof -
  obtain k1 where k1: "lapic_write c LAPIC_ICR1 (push_bit 24 d) k' = Some k1" "apic_only c co k k1"
    using apic_only_write [OF assms] by (metis aligned_regs(4))
  obtain k2 where "lapic_write c LAPIC_ICR0 v k1 = Some k2" "apic_only c co k k2"
    using apic_only_write [OF k1(2)] by (metis aligned_regs(3))
  with k1(1) show ?thesis by (auto simp: lapic_send_ipi_def)
qed

text \<open>What entering a thread does to the core and to the thread.\<close>

lemma thread_entry_ok:
  assumes th: "threads k t = Some th" and par: "parent th = Some p" and pm: "pml4_of k p = Some base"
    and co: "cores k c = Some co"
  shows "\<exists>co'. thread_entry h c (Some t) k = Some (k\<lparr>cores := (cores k)(c \<mapsto> co'),
      threads := (threads k)(t \<mapsto> th\<lparr>state := THREAD_RUNNING,
        yield_lock := spinlock_release (yield_lock th)\<rparr>)\<rparr>) \<and>
    current_thread co' = Some t \<and> idle_thread co' = idle_thread co \<and> regs co' = tcontext th \<and>
    cr3 co' = base - h \<and> kernel_stack co' = kernel_sp th \<and> kernel_scratch co' = thread_scratch th \<and>
    if_flag co' = bit (rflags (tcontext th)) 9 \<and> tss_ist1 co' = irq_stack co"
proof -
  define co1 where "co1 = co\<lparr>kernel_stack := kernel_sp th, kernel_scratch := thread_scratch th,
       tss_ist1 := irq_stack co, current_thread := Some t\<rparr>"
  define th1 where "th1 = th\<lparr>state := THREAD_RUNNING, yield_lock := spinlock_release (yield_lock th)\<rparr>"
  define k1 where "k1 = k\<lparr>cores := (cores k)(c \<mapsto> co1), threads := (threads k)(t \<mapsto> th1)\<rparr>"
  have c1: "cores k1 c = Some co1" by (simp add: k1_def)
  obtain k2 where k2: "lapic_schedule_time c (ucast (quantum th1)) k1 = Some k2" "apic_only c co1 k1 k2"
    using apic_only_schedule_time [OF apic_only_refl [OF c1]] by blast
  obtain r "is" where k2': "k2 = k1\<lparr>cores := (cores k1)(c \<mapsto> co1\<lparr>lapic_reg := r, ipis := is\<rparr>)\<rparr>"
    using k2(2) by (auto simp: apic_only_def)
  have "thread_entry h c (Some t) k = thread_switch h c k1"
    using th co by (simp add: thread_entry_def upd_core_def upd_thread_def k1_def co1_def th1_def)
  also have "\<dots> = Some (k2\<lparr>cores := (cores k2)(c \<mapsto> co1\<lparr>lapic_reg := r, ipis := is, cr3 := base - h,
      regs := tcontext th, if_flag := bit (rflags (tcontext th)) 9\<rparr>)\<rparr>)"
    using k2(1) par pm c1 by (simp add: thread_switch_def upd_core_def k1_def co1_def th1_def k2')
  also have "\<dots> = Some (k\<lparr>cores := (cores k)(c \<mapsto> co1\<lparr>lapic_reg := r, ipis := is, cr3 := base - h,
      regs := tcontext th, if_flag := bit (rflags (tcontext th)) 9\<rparr>), threads := (threads k)(t \<mapsto> th1)\<rparr>)"
    by (simp add: k2' k1_def)
  finally show ?thesis by (auto simp: th1_def co1_def)
qed

section \<open>Where the threads are\<close>

text \<open>
  What the placement of the threads depends on: which cores exist, the current and the idle
  thread of each, which threads exist, are parked (waiting, blocked or joined to another thread) and
  have no pending yield cause.
\<close>

definition cur :: "kernel \<Rightarrow> nat \<Rightarrow> nat option" where
  "cur k c = (case cores k c of None \<Rightarrow> None | Some co \<Rightarrow> current_thread co)"

definition idl :: "kernel \<Rightarrow> nat \<Rightarrow> nat option" where
  "idl k c = (case cores k c of None \<Rightarrow> None | Some co \<Rightarrow> idle_thread co)"

definition parked :: "kernel \<Rightarrow> nat \<Rightarrow> bool" where
  "parked k t \<longleftrightarrow> (case threads k t of None \<Rightarrow> False
     | Some th \<Rightarrow> state th = THREAD_WAITING \<or> state th = THREAD_BLOCKED \<or> state th = THREAD_JOINED)"

definition calm :: "kernel \<Rightarrow> nat \<Rightarrow> bool" where
  "calm k t \<longleftrightarrow> (case threads k t of None \<Rightarrow> True | Some th \<Rightarrow> yield_cause th = 0)"

definition rooted :: "kernel \<Rightarrow> bool" where
  "rooted k \<longleftrightarrow> (\<forall>t th. threads k t = Some th \<longrightarrow> (\<exists>p. parent th = Some p \<and> pml4_of k p \<noteq> None))"

text \<open>
  For the cores in \<open>D\<close>, those that execute their current thread, it is accounted for: no other of
  them executes it, it is no other core's idle thread, and it is not queued and not parked. A core
  outside \<open>D\<close> is inside an interrupt handler that has given its thread up. Idle threads are never
  queued or parked.
\<close>

definition placed :: "nat set \<Rightarrow> kernel \<Rightarrow> nat list \<Rightarrow> bool" where
  "placed D k q \<longleftrightarrow>
     (\<forall>c. cores k c \<noteq> None \<longrightarrow> (\<exists>i. idl k c = Some i \<and> threads k i \<noteq> None \<and> i \<notin> set q)) \<and>
     (\<forall>c. cores k c \<noteq> None \<longrightarrow> (\<exists>t. cur k c = Some t \<and> threads k t \<noteq> None \<and> (c \<in> D \<longrightarrow> t \<notin> set q))) \<and>
     (\<forall>c d i. c \<noteq> d \<and> idl k c = Some i \<longrightarrow> idl k d \<noteq> Some i) \<and>
     (\<forall>c\<in>D. \<forall>d t. c \<noteq> d \<and> cur k c = Some t \<longrightarrow> idl k d \<noteq> Some t) \<and>
     (\<forall>c\<in>D. \<forall>d\<in>D. \<forall>t. c \<noteq> d \<and> cur k c = Some t \<longrightarrow> cur k d \<noteq> Some t) \<and>
     (\<forall>t. parked k t \<longrightarrow> t \<notin> set q \<and> (\<forall>c\<in>D. cur k c \<noteq> Some t) \<and> (\<forall>c. idl k c \<noteq> Some t)) \<and>
     (\<forall>c i. idl k c = Some i \<longrightarrow> calm k i)"

definition inv_at :: "nat set \<Rightarrow> kernel \<Rightarrow> nat list \<Rightarrow> bool" where
  "inv_at D k q \<longleftrightarrow> rq k q \<and> rooted k \<and> placed D k q"

lemma placedD:
  assumes "placed D k q"
  shows "\<forall>c. cores k c \<noteq> None \<longrightarrow> (\<exists>i. idl k c = Some i \<and> threads k i \<noteq> None \<and> i \<notin> set q)"
    and "\<forall>c. cores k c \<noteq> None \<longrightarrow> (\<exists>t. cur k c = Some t \<and> threads k t \<noteq> None \<and> (c \<in> D \<longrightarrow> t \<notin> set q))"
    and "\<forall>c d i. c \<noteq> d \<and> idl k c = Some i \<longrightarrow> idl k d \<noteq> Some i"
    and "\<forall>c\<in>D. \<forall>d t. c \<noteq> d \<and> cur k c = Some t \<longrightarrow> idl k d \<noteq> Some t"
    and "\<forall>c\<in>D. \<forall>d\<in>D. \<forall>t. c \<noteq> d \<and> cur k c = Some t \<longrightarrow> cur k d \<noteq> Some t"
    and "\<forall>t. parked k t \<longrightarrow> t \<notin> set q \<and> (\<forall>c\<in>D. cur k c \<noteq> Some t) \<and> (\<forall>c. idl k c \<noteq> Some t)"
    and "\<forall>c i. idl k c = Some i \<longrightarrow> calm k i"
  by (insert assms [unfolded placed_def], (elim conjE, assumption)+)

lemma placed_mono:
  assumes "placed D k q" "E \<subseteq> D"
  shows "placed E k q"
proof -
  note p = placedD [OF assms(1)]
  show ?thesis
    unfolding placed_def
  proof (intro conjI)
    show "\<forall>c. cores k c \<noteq> None \<longrightarrow> (\<exists>t. cur k c = Some t \<and> threads k t \<noteq> None \<and> (c \<in> E \<longrightarrow> t \<notin> set q))"
      using p(2) assms(2) by (meson in_mono)
    show "\<forall>c\<in>E. \<forall>d t. c \<noteq> d \<and> cur k c = Some t \<longrightarrow> idl k d \<noteq> Some t"
      using p(4) assms(2) by (meson in_mono)
    show "\<forall>c\<in>E. \<forall>d\<in>E. \<forall>t. c \<noteq> d \<and> cur k c = Some t \<longrightarrow> cur k d \<noteq> Some t"
      using p(5) assms(2) by (meson in_mono)
    show "\<forall>t. parked k t \<longrightarrow> t \<notin> set q \<and> (\<forall>c\<in>E. cur k c \<noteq> Some t) \<and> (\<forall>c. idl k c \<noteq> Some t)"
      using p(6) assms(2) by (meson in_mono)
  qed (fact p)+
qed

lemma inv_at_mono: "inv_at D k q \<Longrightarrow> E \<subseteq> D \<Longrightarrow> inv_at E k q"
  using placed_mono by (auto simp: inv_at_def)

lemma placed_cong:
  assumes "\<And>c. cores k' c = None \<longleftrightarrow> cores k c = None" "cur k' = cur k" "idl k' = idl k"
    "\<And>t. threads k' t = None \<longleftrightarrow> threads k t = None" "parked k' = parked k" "calm k' = calm k"
  shows "placed D k' q = placed D k q"
  unfolding placed_def assms by (rule refl)

lemma same_threads_view:
  assumes "same_threads (threads k) (threads k')"
  shows "threads k' t = None \<longleftrightarrow> threads k t = None" "parked k' = parked k" "calm k' = calm k"
proof -
  have m: "map_option unlink (threads k' t) = map_option unlink (threads k t)" for t
    using assms by (simp add: same_threads_def)
  show "threads k' t = None \<longleftrightarrow> threads k t = None" for t using m [of t] by (metis option.map_disc_iff)
  have "parked k' t = parked k t \<and> calm k' t = calm k t" for t
    using m [of t] by (cases "threads k' t"; cases "threads k t")
      (auto simp: parked_def calm_def dest: unlink_fields)
  then show "parked k' = parked k" "calm k' = calm k" by auto
qed

lemma rooted_same:
  assumes "same_threads (threads k) (threads k')" "pml4_of k' = pml4_of k" "rooted k"
  shows "rooted k'"
  unfolding rooted_def
proof (intro allI impI)
  fix t th' assume t: "threads k' t = Some th'"
  have "map_option unlink (threads k t) = Some (unlink th')"
    using assms(1) t by (metis option.simps(9) same_threads_def)
  then obtain th where th: "threads k t = Some th" "unlink th = unlink th'" by auto
  then have "parent th' = parent th" using unlink_fields(3) by metis
  then show "\<exists>p. parent th' = Some p \<and> pml4_of k' p \<noteq> None"
    using assms(2,3) th(1) by (auto simp: rooted_def)
qed

text \<open>Relinking, as the queue operations do it.\<close>

lemma placed_relink:
  assumes "same_threads (threads k) ths"
  shows "placed D (k\<lparr>threads := ths, head := h, tail := l\<rparr>) q = placed D k q"
proof (rule placed_cong)
  show "cur (k\<lparr>threads := ths, head := h, tail := l\<rparr>) = cur k"
    "idl (k\<lparr>threads := ths, head := h, tail := l\<rparr>) = idl k"
    by (simp_all add: cur_def idl_def fun_eq_iff)
qed (use assms same_threads_view [of k "k\<lparr>threads := ths, head := h, tail := l\<rparr>"] in simp_all)

lemma rooted_relink:
  "same_threads (threads k) ths \<Longrightarrow> rooted k \<Longrightarrow> rooted (k\<lparr>threads := ths, head := h, tail := l\<rparr>)"
  by (rule rooted_same) simp_all

text \<open>A core's fields other than its current and idle thread do not matter.\<close>

lemma inv_at_core:
  assumes "inv_at D k q" "cores k c = Some co" "current_thread co' = current_thread co"
    "idle_thread co' = idle_thread co"
  shows "inv_at D (k\<lparr>cores := (cores k)(c \<mapsto> co')\<rparr>) q"
proof -
  have "placed D (k\<lparr>cores := (cores k)(c \<mapsto> co')\<rparr>) q = placed D k q"
  proof (rule placed_cong)
    show "cur (k\<lparr>cores := (cores k)(c \<mapsto> co')\<rparr>) = cur k" "idl (k\<lparr>cores := (cores k)(c \<mapsto> co')\<rparr>) = idl k"
      using assms(2-4) by (auto simp: cur_def idl_def)
  qed (use assms(2) in \<open>auto simp: parked_def calm_def fun_eq_iff\<close>)
  with assms(1) show ?thesis by (simp add: inv_at_def rq_def rooted_def)
qed

lemma inv_at_apic:
  assumes "inv_at D k q" "cores k c = Some co" "apic_only c co k k'"
  shows "inv_at D k' q"
  using assms inv_at_core [OF assms(1,2)] by (auto simp: apic_only_def)

text \<open>An update of one thread that leaves its links and its parent alone.\<close>

lemma inv_at_thread:
  assumes inv: "inv_at D k q" and th: "threads k t = Some th"
    and same: "parent th' = parent th" "next_thread th' = next_thread th" "prev_thread th' = prev_thread th"
    and park: "state th' = THREAD_WAITING \<or> state th' = THREAD_BLOCKED \<or> state th' = THREAD_JOINED \<Longrightarrow>
      parked k t \<or> t \<notin> set q \<and> (\<forall>c\<in>D. cur k c \<noteq> Some t) \<and> (\<forall>c. idl k c \<noteq> Some t)"
    and calm: "yield_cause th' = yield_cause th \<or> (\<forall>c. idl k c \<noteq> Some t)"
  shows "inv_at D (k\<lparr>threads := (threads k)(t \<mapsto> th')\<rparr>) q"
proof -
  let ?k = "k\<lparr>threads := (threads k)(t \<mapsto> th')\<rparr>"
  have nx: "nx (threads ?k) = nx (threads k)" and pv: "pv (threads ?k) = pv (threads k)"
    using th same by (auto simp: nx_def pv_def)
  have v: "cur ?k = cur k" "idl ?k = idl k" "cores ?k = cores k"
    by (simp_all add: cur_def idl_def fun_eq_iff)
  have l: "threads ?k a = None \<longleftrightarrow> threads k a = None" for a using th by simp
  have pk: "parked ?k a \<Longrightarrow> parked k a \<or> a \<notin> set q \<and> (\<forall>c\<in>D. cur k c \<noteq> Some a) \<and> (\<forall>c. idl k c \<noteq> Some a)" for a
    using park by (cases "a = t") (auto simp: parked_def)
  have cm: "idl k c = Some i \<Longrightarrow> calm k i \<Longrightarrow> calm ?k i" for c i
    using calm th by (auto simp: calm_def)
  have "placed D k q" using inv by (simp add: inv_at_def)
  note p = placedD [OF this]
  have "placed D ?k q"
    unfolding placed_def v l
  proof (intro conjI)
    show "\<forall>a. parked ?k a \<longrightarrow> a \<notin> set q \<and> (\<forall>c\<in>D. cur k c \<noteq> Some a) \<and> (\<forall>c. idl k c \<noteq> Some a)"
      using pk p(6) by meson
    show "\<forall>c i. idl k c = Some i \<longrightarrow> calm ?k i" using cm p(7) by meson
  qed (fact p)+
  moreover have "rq ?k q" using inv nx pv l unfolding inv_at_def rq_def by simp
  moreover have "rooted ?k" using inv th same(1) by (auto simp: inv_at_def rooted_def)
  ultimately show ?thesis using inv by (simp add: inv_at_def)
qed

section \<open>Preservation by the building blocks\<close>

lemma placed_queue:
  assumes "placed D k q" "\<And>t. t \<in> set q' \<Longrightarrow> t \<in> set q \<or>
    (\<forall>d\<in>D. cur k d \<noteq> Some t) \<and> (\<forall>d. idl k d \<noteq> Some t) \<and> \<not> parked k t"
  shows "placed D k q'"
proof -
  note p = placedD [OF assms(1)]
  show ?thesis
    unfolding placed_def
  proof (intro conjI)
    show "\<forall>c. cores k c \<noteq> None \<longrightarrow> (\<exists>i. idl k c = Some i \<and> threads k i \<noteq> None \<and> i \<notin> set q')"
      using p(1) assms(2) by metis
    show "\<forall>c. cores k c \<noteq> None \<longrightarrow> (\<exists>t. cur k c = Some t \<and> threads k t \<noteq> None \<and> (c \<in> D \<longrightarrow> t \<notin> set q'))"
      using p(2) assms(2) by metis
    show "\<forall>t. parked k t \<longrightarrow> t \<notin> set q' \<and> (\<forall>c\<in>D. cur k c \<noteq> Some t) \<and> (\<forall>c. idl k c \<noteq> Some t)"
      using p(6) assms(2) by metis
  qed (fact p)+
qed

lemma inv_at_add:
  assumes inv: "inv_at D k q" and co: "cores k c = Some co" and th: "threads k t = Some th"
    and t: "t \<notin> set q" "\<forall>d\<in>D. cur k d \<noteq> Some t" "\<forall>d. idl k d \<noteq> Some t" "\<not> parked k t"
  shows "\<exists>ths h l. schedule_add_thread c (Some t) k = Some (k\<lparr>threads := ths, head := h, tail := l\<rparr>) \<and>
    same_threads (threads k) ths \<and> inv_at D (k\<lparr>threads := ths, head := h, tail := l\<rparr>) (q @ [t])"
proof -
  have r: "rq k q" "rooted k" "placed D k q"
    using inv by (simp_all add: inv_at_def)
  obtain ths h l where a: "schedule_add_thread c (Some t) k = Some (k\<lparr>threads := ths, head := h, tail := l\<rparr>)"
    "same_threads (threads k) ths" "rq (k\<lparr>threads := ths, head := h, tail := l\<rparr>) (q @ [t])"
    using schedule_add_thread_rq [OF r(1) th t(1) co] by blast
  have "placed D k (q @ [t])" using placed_queue [OF r(3), of "q @ [t]"] t by auto
  then have "inv_at D (k\<lparr>threads := ths, head := h, tail := l\<rparr>) (q @ [t])"
    using a(3) r rooted_relink [OF a(2) r(2)] placed_relink [OF a(2)] by (simp add: inv_at_def)
  with a(1,2) show ?thesis by blast
qed

lemma inv_at_enter:
  assumes inv: "inv_at D k q" and D: "c \<notin> D" and co: "cores k c = Some co"
    and co': "current_thread co' = Some t" "idle_thread co' = idle_thread co"
    and t: "threads k t \<noteq> None" "t \<notin> set q" "\<not> parked k t" "\<forall>d\<in>D. cur k d \<noteq> Some t"
      "\<forall>d. d \<noteq> c \<longrightarrow> idl k d \<noteq> Some t"
  shows "inv_at (insert c D) (k\<lparr>cores := (cores k)(c \<mapsto> co')\<rparr>) q"
proof -
  let ?k = "k\<lparr>cores := (cores k)(c \<mapsto> co')\<rparr>"
  have "placed D k q" using inv by (simp add: inv_at_def)
  note p = placedD [OF this]
  have id: "idl ?k = idl k" and cu: "cur ?k = (cur k)(c := Some t)"
    and pk: "parked ?k = parked k" and cm: "calm ?k = calm k"
    using co co' by (auto simp: idl_def cur_def parked_def calm_def fun_eq_iff)
  have hc: "cores ?k d = None \<longleftrightarrow> cores k d = None" for d using co by simp
  have th: "threads ?k = threads k" by simp
  have p4: "idl k d \<noteq> Some b" if "a \<in> D" "a \<noteq> d" "cur k a = Some b" for a d b using p(4) that by blast
  have p5: "cur k d \<noteq> Some b" if "a \<in> D" "d \<in> D" "a \<noteq> d" "cur k a = Some b" for a d b
    using p(5) that by blast
  have "placed (insert c D) ?k q"
    unfolding placed_def id cu pk cm hc th
  proof (intro conjI)
    show "\<forall>d. cores k d \<noteq> None \<longrightarrow>
        (\<exists>a. ((cur k)(c := Some t)) d = Some a \<and> threads k a \<noteq> None \<and> (d \<in> insert c D \<longrightarrow> a \<notin> set q))"
      using p(2) t(1,2) by auto
    show "\<forall>a\<in>insert c D. \<forall>d b. a \<noteq> d \<and> ((cur k)(c := Some t)) a = Some b \<longrightarrow> idl k d \<noteq> Some b"
    proof (intro ballI allI impI)
      fix a d b assume "a \<in> insert c D" "a \<noteq> d \<and> ((cur k)(c := Some t)) a = Some b"
      then show "idl k d \<noteq> Some b" using p4 [of a d b] t(5) by (cases "a = c") simp_all
    qed
    show "\<forall>a\<in>insert c D. \<forall>d\<in>insert c D. \<forall>b. a \<noteq> d \<and> ((cur k)(c := Some t)) a = Some b \<longrightarrow>
        ((cur k)(c := Some t)) d \<noteq> Some b"
    proof (intro ballI allI impI)
      fix a d b assume "a \<in> insert c D" "d \<in> insert c D" "a \<noteq> d \<and> ((cur k)(c := Some t)) a = Some b"
      then show "((cur k)(c := Some t)) d \<noteq> Some b"
        using p5 [of a d b] t(4) by (cases "a = c"; cases "d = c") auto
    qed
    show "\<forall>b. parked k b \<longrightarrow> b \<notin> set q \<and> (\<forall>a\<in>insert c D. ((cur k)(c := Some t)) a \<noteq> Some b) \<and>
        (\<forall>a. idl k a \<noteq> Some b)"
    proof (intro allI impI conjI ballI)
      fix b a assume "parked k b" "a \<in> insert c D"
      then show "((cur k)(c := Some t)) a \<noteq> Some b" using p(6) t(3) by (cases "a = c") auto
    qed (use p(6) in blast)+
  qed (fact p)+
  then show ?thesis using inv by (simp add: inv_at_def rq_def rooted_def)
qed

definition same_joined :: "kernel \<Rightarrow> kernel \<Rightarrow> bool" where
  "same_joined k k' \<longleftrightarrow> joined_threads k' = joined_threads k \<and> joined_queue_lock k' = joined_queue_lock k"

text \<open>Entering a thread that is nowhere else makes it the core's current thread.\<close>

lemma inv_at_thread_entry:
  assumes inv: "inv_at D k q" and D: "c \<notin> D" and co: "cores k c = Some co" and th: "threads k t = Some th"
    and t: "t \<notin> set q" "\<forall>d\<in>D. cur k d \<noteq> Some t" "\<forall>d. d \<noteq> c \<longrightarrow> idl k d \<noteq> Some t"
  shows "\<exists>k' co'. thread_entry h c (Some t) k = Some k' \<and> inv_at (insert c D) k' q \<and>
    cores k' = (cores k)(c \<mapsto> co') \<and> current_thread co' = Some t \<and> regs co' = tcontext th \<and>
    threads k' = (threads k)(t \<mapsto> th\<lparr>state := THREAD_RUNNING, yield_lock := spinlock_release (yield_lock th)\<rparr>) \<and>
    same_joined k k' \<and> idle_thread co' = idle_thread co"
proof -
  let ?th = "th\<lparr>state := THREAD_RUNNING, yield_lock := spinlock_release (yield_lock th)\<rparr>"
  let ?k = "k\<lparr>threads := (threads k)(t \<mapsto> ?th)\<rparr>"
  obtain p base where pb: "parent th = Some p" "pml4_of k p = Some base"
    using inv th unfolding inv_at_def rooted_def by (metis not_None_eq)
  obtain co' where e: "thread_entry h c (Some t) k = Some (k\<lparr>cores := (cores k)(c \<mapsto> co'),
      threads := (threads k)(t \<mapsto> ?th)\<rparr>)" "current_thread co' = Some t"
    "idle_thread co' = idle_thread co" "regs co' = tcontext th"
    using thread_entry_ok [OF th pb co] by blast
  have i1: "inv_at D ?k q" by (rule inv_at_thread [OF inv th]) simp_all
  have "inv_at (insert c D) (?k\<lparr>cores := (cores ?k)(c \<mapsto> co')\<rparr>) q"
  proof (rule inv_at_enter [OF i1 D])
    show "cores ?k c = Some co" "threads ?k t \<noteq> None" "\<not> parked ?k t"
      using co by (simp_all add: parked_def)
    show "\<forall>d\<in>D. cur ?k d \<noteq> Some t" "\<forall>d. d \<noteq> c \<longrightarrow> idl ?k d \<noteq> Some t"
      using t(2,3) by (simp_all add: cur_def idl_def)
  qed (use e t in simp_all)
  moreover have "?k\<lparr>cores := (cores ?k)(c \<mapsto> co')\<rparr> =
      k\<lparr>cores := (cores k)(c \<mapsto> co'), threads := (threads k)(t \<mapsto> ?th)\<rparr>" by simp
  ultimately have "inv_at (insert c D) (k\<lparr>cores := (cores k)(c \<mapsto> co'), threads := (threads k)(t \<mapsto> ?th)\<rparr>) q"
    by (simp only:)
  with e show ?thesis by (intro exI [of _ "k\<lparr>cores := (cores k)(c \<mapsto> co'),
      threads := (threads k)(t \<mapsto> ?th)\<rparr>"] exI [of _ co']) (simp add: same_joined_def)
qed

text \<open>\<open>schedule_next_thread\<close> resumes the first queued thread, or the idle thread.\<close>

definition chosen :: "kernel \<Rightarrow> nat \<Rightarrow> nat list \<Rightarrow> nat option" where
  "chosen k c q = (case q of [] \<Rightarrow> idl k c | t # _ \<Rightarrow> Some t)"

lemma schedule_next_thread_at:
  assumes inv: "inv_at D k q" and D: "c \<notin> D" and co: "cores k c = Some co"
  shows "\<exists>k' co' t th. schedule_next_thread h c k = Some k' \<and> inv_at (insert c D) k' (tl q) \<and>
    chosen k c q = Some t \<and> cores k' = (cores k)(c \<mapsto> co') \<and> current_thread co' = Some t \<and>
    threads k t = Some th \<and> regs co' = tcontext th \<and> same_joined k k' \<and>
    idle_thread co' = idle_thread co \<and> ctx_of k' = ctx_of k"
proof (cases q)
  case Nil
  have "placed D k q" using inv by (simp add: inv_at_def)
  note p = placedD [OF this]
  obtain i where i: "idl k c = Some i" "threads k i \<noteq> None" "i \<notin> set q" using p(1) co by auto
  then obtain th where th: "threads k i = Some th" by auto
  have o: "\<forall>d\<in>D. cur k d \<noteq> Some i" "\<forall>d. d \<noteq> c \<longrightarrow> idl k d \<noteq> Some i" using p(3,4) i(1) D by metis+
  from inv_at_thread_entry [OF inv D co th i(3) o] obtain k' co' where
    e: "thread_entry h c (Some i) k = Some k'" "inv_at (insert c D) k' q" "cores k' = (cores k)(c \<mapsto> co')"
      "current_thread co' = Some i" "regs co' = tcontext th" "same_joined k k'"
      "idle_thread co' = idle_thread co" "threads k' = (threads k)(i \<mapsto> th\<lparr>state := THREAD_RUNNING,
        yield_lock := spinlock_release (yield_lock th)\<rparr>)"
    by blast
  have "ctx_of k' = ctx_of k" using e(8) th by (auto simp: ctx_of_def)
  moreover have "idle_thread co = Some i" using i(1) co by (simp add: idl_def)
  then have "schedule_next_thread h c k = Some k'"
    using pop_empty_rq [of k] inv Nil co e(1) by (simp add: schedule_next_thread_def inv_at_def)
  ultimately show ?thesis using e(2-7) i(1) th Nil by (auto simp: chosen_def)
next
  case (Cons t ts)
  have r: "rq k (t # ts)" "placed D k (t # ts)" "rooted k"
    using inv Cons by (simp_all add: inv_at_def)
  note p = placedD [OF r(2)]
  obtain ths hd l where pop: "pop_thread_from_queue k = Some (Some t, k\<lparr>threads := ths, head := hd, tail := l\<rparr>)"
    "same_threads (threads k) ths" "rq (k\<lparr>threads := ths, head := hd, tail := l\<rparr>) ts"
    using pop_thread_rq [OF r(1)] by blast
  let ?k = "k\<lparr>threads := ths, head := hd, tail := l\<rparr>"
  have "placed D k ts" by (rule placed_queue [OF r(2)]) simp
  then have i1: "inv_at D ?k ts"
    using pop(3) rooted_relink [OF pop(2) r(3)] placed_relink [OF pop(2)] by (simp add: inv_at_def)
  have "threads k t \<noteq> None" using r(1) by (simp add: rq_def)
  then obtain th0 where th0: "threads k t = Some th0" by auto
  then obtain th where th: "ths t = Some th" "unlink th = unlink th0"
    using same_threads_Some [OF pop(2)] by blast
  have "cur k d \<noteq> Some t" if "d \<in> D" for d using p(2) that by (cases "cores k d") (auto simp: cur_def)
  moreover have "idl k d \<noteq> Some t" for d using p(1) by (cases "cores k d") (auto simp: idl_def)
  ultimately have o: "\<forall>d\<in>D. cur ?k d \<noteq> Some t" "\<forall>d. d \<noteq> c \<longrightarrow> idl ?k d \<noteq> Some t"
    by (simp_all add: cur_def idl_def)
  have nt: "t \<notin> set ts" using r(1) by (simp add: rq_def)
  have co1: "cores ?k c = Some co" and th1: "threads ?k t = Some th" using co th by simp_all
  from inv_at_thread_entry [OF i1 D co1 th1 nt o] obtain k' co' where
    e: "thread_entry h c (Some t) ?k = Some k'" "inv_at (insert c D) k' ts" "cores k' = (cores ?k)(c \<mapsto> co')"
      "current_thread co' = Some t" "regs co' = tcontext th" "same_joined ?k k'"
      "idle_thread co' = idle_thread co" "threads k' = (threads ?k)(t \<mapsto> th\<lparr>state := THREAD_RUNNING,
        yield_lock := spinlock_release (yield_lock th)\<rparr>)" by blast
  have "ctx_of k' = ctx_of ?k" using e(8) th1 by (auto simp: ctx_of_def)
  then have "ctx_of k' = ctx_of k" using ctx_of_same [of k ?k] pop(2) by simp
  moreover have "schedule_next_thread h c k = Some k'"
    using pop(1) co e(1) by (simp add: schedule_next_thread_def)
  ultimately show ?thesis using e(2-7) th0 unlink_fields(2) [OF th(2)] Cons by (auto simp: chosen_def same_joined_def)
qed

section \<open>Preservation by the handlers\<close>

abbreviation sched_inv :: "kernel \<Rightarrow> nat list \<Rightarrow> bool" where
  "sched_inv k q \<equiv> inv_at UNIV k q"

lemma insert_Compl_self [simp]: "insert c (- {c}) = UNIV"
  by auto

lemma schedule_next_thread_inv:
  assumes "inv_at (- {c}) k q" "cores k c = Some co"
  shows "\<exists>k' co' t th. schedule_next_thread h c k = Some k' \<and> sched_inv k' (tl q) \<and>
    chosen k c q = Some t \<and> cores k' = (cores k)(c \<mapsto> co') \<and> current_thread co' = Some t \<and>
    threads k t = Some th \<and> regs co' = tcontext th \<and> same_joined k k' \<and>
    idle_thread co' = idle_thread co \<and> ctx_of k' = ctx_of k"
  using schedule_next_thread_at [OF assms(1) _ assms(2), of h] by simp

lemma current_at:
  assumes inv: "inv_at D k q" and D: "c \<in> D" and co: "cores k c = Some co"
  obtains t i th where "current_thread co = Some t" "idle_thread co = Some i" "threads k t = Some th"
    "t \<notin> set q" "\<not> parked k t" "\<forall>d\<in>D - {c}. cur k d \<noteq> Some t" "\<forall>d. d \<noteq> c \<longrightarrow> idl k d \<noteq> Some t"
    "idl k c = Some i" "cur k c = Some t" "t = i \<longrightarrow> yield_cause th = 0"
proof -
  have "placed D k q" using inv by (simp add: inv_at_def)
  note p = placedD [OF this]
  obtain t where t: "cur k c = Some t" "threads k t \<noteq> None" "t \<notin> set q" using p(2) co D by auto
  obtain i where i: "idl k c = Some i" using p(1) co by auto
  obtain th where th: "threads k t = Some th" using t(2) by auto
  have np: "\<not> parked k t" using p(6) t(1) D by blast
  have o: "\<forall>d\<in>D - {c}. cur k d \<noteq> Some t" "\<forall>d. d \<noteq> c \<longrightarrow> idl k d \<noteq> Some t"
    using p(4,5) t(1) D by (metis DiffD1 DiffD2 singletonI, metis)
  have "calm k i" using p(7) i by blast
  then have c: "t = i \<longrightarrow> yield_cause th = 0" using th by (auto simp: calm_def)
  have "current_thread co = Some t" "idle_thread co = Some i"
    using t(1) i co by (simp_all add: cur_def idl_def)
  from that [OF this th t(3) np o i t(1) c] show thesis .
qed

lemma apic_only_view:
  assumes "apic_only c co k k'" "cores k c = Some co"
  shows "cur k' = cur k" "idl k' = idl k" "threads k' = threads k" "joined_threads k' = joined_threads k"
    "\<exists>co'. cores k' c = Some co' \<and> current_thread co' = current_thread co \<and>
      idle_thread co' = idle_thread co \<and> lapic_id co' = lapic_id co"
    "same_joined k k'"
  using assms by (auto simp: apic_only_def cur_def idl_def fun_eq_iff same_joined_def)

text \<open>The common end of the interrupt handlers: the current thread is queued unless it is idle.\<close>

definition next_queue :: "kernel \<Rightarrow> nat \<Rightarrow> nat list \<Rightarrow> nat list" where
  "next_queue k c q = (if idl k c = cur k c then q else q @ [the (cur k c)])"

definition requeue_current :: "nat \<Rightarrow> kernel \<Rightarrow> kernel option" where
  "requeue_current c k = do {
     co \<leftarrow> cores k c;
     if idle_thread co \<noteq> current_thread co then schedule_add_thread c (current_thread co) k else Some k }"

lemma requeue_current_at:
  assumes inv: "inv_at D k q" and D: "c \<in> D" and co: "cores k c = Some co"
  shows "\<exists>ths h l. requeue_current c k = Some (k\<lparr>threads := ths, head := h, tail := l\<rparr>) \<and>
    same_threads (threads k) ths \<and>
    inv_at (D - {c}) (k\<lparr>threads := ths, head := h, tail := l\<rparr>) (next_queue k c q)"
proof -
  obtain t i th where c: "current_thread co = Some t" "idle_thread co = Some i" "threads k t = Some th"
    "t \<notin> set q" "\<not> parked k t" "\<forall>d\<in>D - {c}. cur k d \<noteq> Some t" "\<forall>d. d \<noteq> c \<longrightarrow> idl k d \<noteq> Some t"
    "idl k c = Some i" "cur k c = Some t"
    using current_at [OF inv D co] by metis
  have w: "inv_at (D - {c}) k q" using inv_at_mono [OF inv] by blast
  show ?thesis
  proof (cases "t = i")
    case True
    then have "requeue_current c k = Some (k\<lparr>threads := threads k, head := head k, tail := tail k\<rparr>)"
      "next_queue k c q = q"
      using c co by (simp_all add: requeue_current_def next_queue_def)
    then show ?thesis using w
      by (intro exI [of _ "threads k"] exI [of _ "head k"] exI [of _ "tail k"]) simp
  next
    case False
    then have "\<forall>d. idl k d \<noteq> Some t" using c(7,8) by (metis option.inject)
    from inv_at_add [OF w co c(3,4,6) this c(5)] show ?thesis
      using c co False by (simp add: requeue_current_def next_queue_def)
  qed
qed

definition requeue_and_switch :: "u64 \<Rightarrow> nat \<Rightarrow> kernel \<Rightarrow> kernel option" where
  "requeue_and_switch h c k = do {
     k \<leftarrow> requeue_current c k;
     schedule_next_thread h c k }"

lemma requeue_and_switch_inv:
  assumes inv: "sched_inv k q" and co: "cores k c = Some co"
  shows "\<exists>k' t th co'. requeue_and_switch h c k = Some k' \<and> sched_inv k' (tl (next_queue k c q)) \<and>
    chosen k c (next_queue k c q) = Some t \<and> cores k' = (cores k)(c \<mapsto> co') \<and>
    current_thread co' = Some t \<and> threads k t = Some th \<and> regs co' = tcontext th \<and>
    idle_thread co' = idle_thread co \<and> ctx_of k' = ctx_of k"
proof -
  let ?q = "next_queue k c q"
  obtain ths hd l where a: "requeue_current c k = Some (k\<lparr>threads := ths, head := hd, tail := l\<rparr>)"
      "same_threads (threads k) ths" "inv_at (UNIV - {c}) (k\<lparr>threads := ths, head := hd, tail := l\<rparr>) ?q"
    using requeue_current_at [OF inv _ co] by blast
  let ?k = "k\<lparr>threads := ths, head := hd, tail := l\<rparr>"
  have "cores ?k c = Some co" using co by simp
  from schedule_next_thread_inv [OF a(3) [unfolded Compl_eq_Diff_UNIV [symmetric]] this, of h]
  obtain k' co' u uh where
    k': "schedule_next_thread h c ?k = Some k'" "sched_inv k' (tl ?q)"
      "chosen ?k c ?q = Some u" "cores k' = (cores ?k)(c \<mapsto> co')" "current_thread co' = Some u"
      "threads ?k u = Some uh" "regs co' = tcontext uh" "idle_thread co' = idle_thread co"
      "ctx_of k' = ctx_of ?k" by blast
  have "ctx_of k' = ctx_of k" using k'(9) ctx_of_same [of k ?k] a(2) by simp
  moreover have "same_threads ths (threads k)" using a(2) by (simp add: same_threads_def)
  then obtain uh' where uh': "threads k u = Some uh'" "unlink uh' = unlink uh"
    using same_threads_Some [of ths "threads k" u uh] k'(6) by auto
  moreover have "regs co' = tcontext uh'" using k'(7) unlink_fields(2) [OF uh'(2)] by simp
  moreover have "chosen k c ?q = Some u" using k'(3) by (simp add: chosen_def idl_def split: list.splits)
  moreover have "cores k' = (cores k)(c \<mapsto> co')" using k'(4) by simp
  moreover have "requeue_and_switch h c k = Some k'" using a(1) k'(1) by (simp add: requeue_and_switch_def)
  ultimately show ?thesis using k'(2,5,8) uh'(1) by blast
qed

lemma save_context_inv:
  assumes inv: "inv_at D k q" and co: "cores k c = Some co"
  shows "\<exists>k' t th th'. save_context c ctx k = Some k' \<and> inv_at D k' q \<and> cur k c = Some t \<and>
    threads k t = Some th \<and> k' = k\<lparr>threads := (threads k)(t \<mapsto> th')\<rparr> \<and> tcontext th' = ctx \<and>
    yield_cause th' = yield_cause th \<and> state th' = state th"
proof -
  obtain t th where c: "current_thread co = Some t" "threads k t = Some th" "cur k c = Some t"
    using placedD(2) [of D k q] inv co by (auto simp: inv_at_def cur_def)
  let ?th = "th\<lparr>tcontext := ctx, thread_scratch := kernel_scratch co\<rparr>"
  have "inv_at D (k\<lparr>threads := (threads k)(t \<mapsto> ?th)\<rparr>) q"
    by (rule inv_at_thread [OF inv c(2)]) (use c(2) in \<open>auto simp: parked_def\<close>)
  moreover have "save_context c ctx k = Some (k\<lparr>threads := (threads k)(t \<mapsto> ?th)\<rparr>)"
    using co c(1,2) by (simp add: save_context_def upd_thread_def)
  ultimately show ?thesis using c by (intro exI [of _ "k\<lparr>threads := (threads k)(t \<mapsto> ?th)\<rparr>"]) auto
qed

text \<open>The timer's handler up to the point where the current thread is queued.\<close>

lemma lapic_time_leave_steps:
  assumes inv: "inv_at D k q" and co: "cores k c = Some co"
  obtains k1 k2 co1 t th' where "lapic_time_leave c ctx k = requeue_current c k2" "inv_at D k2 q"
    "cores k2 c = Some co1" "idle_thread co1 = idle_thread co" "cur k c = Some t" "threads k t \<noteq> None"
    "cur k2 = cur k" "idl k2 = idl k" "threads k2 = (threads k)(t \<mapsto> th')" "tcontext th' = ctx"
proof -
  obtain k1 where k1: "lapic_eoi c k = Some k1" "apic_only c co k k1"
    using apic_only_eoi [OF apic_only_refl [OF co]] by blast
  note v = apic_only_view [OF k1(2) co]
  obtain co1 where co1: "cores k1 c = Some co1" "idle_thread co1 = idle_thread co" using v(5) by blast
  have i1: "inv_at D k1 q" by (rule inv_at_apic [OF inv co k1(2)])
  obtain k2 t th th' where k2: "save_context c ctx k1 = Some k2" "inv_at D k2 q" "cur k1 c = Some t"
    "threads k1 t = Some th" "k2 = k1\<lparr>threads := (threads k1)(t \<mapsto> th')\<rparr>" "tcontext th' = ctx"
    using save_context_inv [OF i1 co1(1)] by blast
  have v2: "cur k2 = cur k1" "idl k2 = idl k1" "cores k2 = cores k1"
    using k2(5) by (auto simp: cur_def idl_def)
  have run: "lapic_time_leave c ctx k = requeue_current c k2"
    using k1(1) co1(1) k2(1) v2(3) by (simp add: lapic_time_leave_def requeue_current_def)
  show thesis
    using that [OF run k2(2), of co1 t th'] co1 k2(3-6) v(1-3) v2 by simp
qed

lemma lapic_time_leave_at:
  assumes inv: "inv_at D k q" and D: "c \<in> D" and co: "cores k c = Some co"
  shows "\<exists>k'. lapic_time_leave c ctx k = Some k' \<and> inv_at (D - {c}) k' (next_queue k c q) \<and>
    cur k' = cur k \<and> idl k' = idl k"
proof -
  obtain k2 co1 where k2: "lapic_time_leave c ctx k = requeue_current c k2" "inv_at D k2 q" "cores k2 c = Some co1"
      "cur k2 = cur k" "idl k2 = idl k"
    using lapic_time_leave_steps [OF inv co] by metis
  have "next_queue k2 c q = next_queue k c q" using k2(4,5) by (simp add: next_queue_def)
  moreover have "cur (k2\<lparr>threads := ths, head := h, tail := l\<rparr>) = cur k" "idl (k2\<lparr>threads := ths, head := h, tail := l\<rparr>) = idl k"
    for ths h l using k2(4,5) by (simp_all add: cur_def [abs_def] idl_def [abs_def])
  ultimately show ?thesis using requeue_current_at [OF k2(2) D k2(3)] k2(1) by auto
qed

lemma lapic_time_handler_inv:
  assumes inv: "sched_inv k q" and co: "cores k c = Some co"
  shows "\<exists>k' t u co'. lapic_time_handler h c ctx k = Some k' \<and> sched_inv k' (tl (next_queue k c q)) \<and>
    cur k c = Some t \<and> chosen k c (next_queue k c q) = Some u \<and> cores k' c = Some co' \<and>
    current_thread co' = Some u \<and>
    regs co' = (if u = t then ctx else tcontext (the (threads k u))) \<and> idle_thread co' = idle_thread co \<and>
    ctx_of k' = (ctx_of k)(t \<mapsto> ctx)"
proof -
  obtain k2 co1 t th' where k2: "lapic_time_leave c ctx k = requeue_current c k2" "sched_inv k2 q"
    "cores k2 c = Some co1" "idle_thread co1 = idle_thread co" "cur k c = Some t" "cur k2 = cur k" "idl k2 = idl k"
    "threads k2 = (threads k)(t \<mapsto> th')" "tcontext th' = ctx"
    using lapic_time_leave_steps [OF inv co] by metis
  have run: "lapic_time_handler h c ctx k = requeue_and_switch h c k2"
    by (simp add: lapic_time_handler_def requeue_and_switch_def k2(1))
  from requeue_and_switch_inv [OF k2(2,3), of h] obtain k' u uh co' where
    k': "requeue_and_switch h c k2 = Some k'" "sched_inv k' (tl (next_queue k2 c q))"
      "chosen k2 c (next_queue k2 c q) = Some u" "cores k' = (cores k2)(c \<mapsto> co')"
      "current_thread co' = Some u" "threads k2 u = Some uh" "regs co' = tcontext uh"
      "idle_thread co' = idle_thread co1" "ctx_of k' = ctx_of k2" by blast
  have "ctx_of k' = (ctx_of k)(t \<mapsto> ctx)"
    using k'(9) k2(8,9) by (auto simp: ctx_of_def)
  moreover have nq: "next_queue k2 c q = next_queue k c q" "chosen k2 c = chosen k c"
    by (simp_all add: next_queue_def chosen_def [abs_def] k2(6,7))
  moreover have "regs co' = (if u = t then ctx else tcontext (the (threads k u)))"
    using k'(6,7) k2(8,9) by auto
  moreover have "cores k' c = Some co'" using k'(4) by simp
  ultimately show ?thesis using k'(1-3,5,8) k2(4,5) unfolding run nq by metis
qed

lemma freed_inv [simp]: "inv_at D (k\<lparr>freed := f\<rparr>) q = inv_at D k q"
proof -
  have "placed D (k\<lparr>freed := f\<rparr>) q = placed D k q"
    by (rule placed_cong) (auto simp: cur_def idl_def parked_def calm_def fun_eq_iff)
  then show ?thesis by (simp add: inv_at_def rq_def rooted_def)
qed

lemma joined_inv [simp]:
  "inv_at D (k\<lparr>joined_threads := js\<rparr>) q = inv_at D k q" "inv_at D (k\<lparr>joined_queue_lock := l\<rparr>) q = inv_at D k q"
proof -
  have "placed D (k\<lparr>joined_threads := js\<rparr>) q = placed D k q" "placed D (k\<lparr>joined_queue_lock := l\<rparr>) q = placed D k q"
    by (rule placed_cong; auto simp: cur_def idl_def parked_def calm_def fun_eq_iff)+
  then show "inv_at D (k\<lparr>joined_threads := js\<rparr>) q = inv_at D k q"
    "inv_at D (k\<lparr>joined_queue_lock := l\<rparr>) q = inv_at D k q"
    by (simp_all add: inv_at_def rq_def rooted_def)
qed

lemma thread_destroy_frees:
  "threads k t = Some th \<Longrightarrow> \<exists>f. thread_destroy (Some t) k = Some (k\<lparr>freed := f\<rparr>)"
  by (auto simp: thread_destroy_def kfree_def Let_def intro: exI [of _ "freed k"])

text \<open>The state the interrupt gives a thread that yielded.\<close>

definition yielded_state :: "tcb \<Rightarrow> thread_state" where
  "yielded_state th =
     (if yield_cause th = YIELD_TERMINATE then THREAD_ZOMBIE
      else if yield_cause th = YIELD_WAIT then THREAD_WAITING
      else if yield_cause th = YIELD_JOIN then THREAD_JOINED else state th)"

lemma yield_causes: "YIELD_TERMINATE \<noteq> 0" "YIELD_WAIT \<noteq> 0" "YIELD_JOIN \<noteq> 0"
  "YIELD_WAIT \<noteq> YIELD_TERMINATE" "YIELD_JOIN \<noteq> YIELD_TERMINATE" "YIELD_JOIN \<noteq> YIELD_WAIT"
  by (simp_all add: YIELD_TERMINATE_def YIELD_WAIT_def YIELD_JOIN_def)

lemma ipi_mark_yields:
  assumes "lapic_eoi c k = Some k1" "cores k1 c = Some co" "current_thread co = Some t" "threads k1 t = Some th"
  shows "\<exists>f. lapic_ipi_mark c k = Some (k1\<lparr>threads := (threads k1)(t \<mapsto> th\<lparr>state := yielded_state th\<rparr>), freed := f\<rparr>)"
proof (cases "yield_cause th = YIELD_TERMINATE")
  case True
  obtain f where "thread_destroy (Some t) (k1\<lparr>threads := (threads k1)(t \<mapsto> th\<lparr>state := THREAD_ZOMBIE\<rparr>)\<rparr>) =
      Some (k1\<lparr>threads := (threads k1)(t \<mapsto> th\<lparr>state := THREAD_ZOMBIE\<rparr>), freed := f\<rparr>)"
    using thread_destroy_frees [of "k1\<lparr>threads := (threads k1)(t \<mapsto> th\<lparr>state := THREAD_ZOMBIE\<rparr>)\<rparr>" t] by auto
  then show ?thesis using assms True by (auto simp: lapic_ipi_mark_def upd_thread_def yielded_state_def)
next
  case False
  have fr: "k1\<lparr>threads := T, freed := freed k1\<rparr> = k1\<lparr>threads := T\<rparr>" for T by simp
  have "th\<lparr>state := state th\<rparr> = th" by (cases th) simp
  then have id: "(threads k1)(t \<mapsto> th\<lparr>state := state th\<rparr>) = threads k1"
    using assms(4) by (simp add: fun_upd_idem)
  have "lapic_ipi_mark c k =
      Some (k1\<lparr>threads := (threads k1)(t \<mapsto> th\<lparr>state := yielded_state th\<rparr>), freed := freed k1\<rparr>)"
    using assms False id yield_causes unfolding fr
    by (simp add: lapic_ipi_mark_def upd_thread_def yielded_state_def)
  then show ?thesis by blast
qed

lemma lapic_ipi_mark_at:
  assumes inv: "inv_at D k q" and D: "c \<in> D" and co: "cores k c = Some co"
  shows "\<exists>k' co'. lapic_ipi_mark c k = Some k' \<and> inv_at (D - {c}) k' q \<and> cores k' c = Some co' \<and>
    idl k' c = idl k c"
proof -
  obtain k1 where k1: "lapic_eoi c k = Some k1" "apic_only c co k k1"
    using apic_only_eoi [OF apic_only_refl [OF co]] by blast
  note v = apic_only_view [OF k1(2) co]
  obtain co1 where co1: "cores k1 c = Some co1" using v(5) by blast
  have i1: "inv_at D k1 q" by (rule inv_at_apic [OF inv co k1(2)])
  obtain t i th where c: "current_thread co1 = Some t" "idle_thread co1 = Some i" "threads k1 t = Some th"
    "t \<notin> set q" "\<not> parked k1 t" "\<forall>d\<in>D - {c}. cur k1 d \<noteq> Some t" "\<forall>d. d \<noteq> c \<longrightarrow> idl k1 d \<noteq> Some t"
    "idl k1 c = Some i" "cur k1 c = Some t" "t = i \<longrightarrow> yield_cause th = 0"
    by (rule current_at [OF i1 D co1])
  have w: "inv_at (D - {c}) k1 q" using inv_at_mono [OF i1] by blast
  obtain f where f: "lapic_ipi_mark c k = Some (k1\<lparr>threads := (threads k1)(t \<mapsto> th\<lparr>state := yielded_state th\<rparr>), freed := f\<rparr>)"
    using ipi_mark_yields [OF k1(1) co1 c(1,3)] by blast
  have "inv_at (D - {c}) (k1\<lparr>threads := (threads k1)(t \<mapsto> th\<lparr>state := yielded_state th\<rparr>)\<rparr>) q"
  proof (rule inv_at_thread [OF w c(3)])
    assume s: "state (th\<lparr>state := yielded_state th\<rparr>) = THREAD_WAITING \<or> state (th\<lparr>state := yielded_state th\<rparr>) = THREAD_BLOCKED \<or>
      state (th\<lparr>state := yielded_state th\<rparr>) = THREAD_JOINED"
    have "t \<noteq> i"
    proof
      assume "t = i"
      then have "yielded_state th = state th" using c(10) yield_causes by (simp add: yielded_state_def)
      then show False using s c(3,5) by (simp add: parked_def)
    qed
    then have "\<forall>d. idl k1 d \<noteq> Some t" using c(7,8) by (metis option.inject)
    then show "parked k1 t \<or> t \<notin> set q \<and> (\<forall>d\<in>D - {c}. cur k1 d \<noteq> Some t) \<and> (\<forall>d. idl k1 d \<noteq> Some t)"
      using c(4,6) by blast
  qed simp_all
  moreover have "idl k1 c = idl k c" using v(2) by simp
  ultimately show ?thesis using f co1 by (simp add: idl_def)
qed

lemma lapic_ipi_save_at:
  assumes inv: "inv_at D k q" and co: "cores k c = Some co"
  shows "\<exists>k'. lapic_ipi_save c ctx k = Some k' \<and> inv_at D k' q \<and> cores k' = cores k"
  using save_context_inv [OF inv co, of ctx] inv co by (auto simp: lapic_ipi_save_def)

lemma lapic_ipi_handler_inv:
  assumes inv: "sched_inv k q" and co: "cores k c = Some co"
  shows "\<exists>k'. lapic_ipi_handler h c ctx k = Some k' \<and> sched_inv k' (tl q) \<and> cur k' c = chosen k c q"
proof -
  obtain k1 co1 where k1: "lapic_ipi_mark c k = Some k1" "inv_at (- {c}) k1 q" "cores k1 c = Some co1"
      "idl k1 c = idl k c"
    using lapic_ipi_mark_at [OF inv _ co] by (auto simp: Compl_eq_Diff_UNIV)
  obtain k2 where k2: "lapic_ipi_save c ctx k1 = Some k2" "inv_at (- {c}) k2 q" "cores k2 = cores k1"
    using lapic_ipi_save_at [OF k1(2,3)] by blast
  have co2: "cores k2 c = Some co1" using k1(3) k2(3) by simp
  have "chosen k2 c q = chosen k c q" using k1(4) k2(3) by (simp add: chosen_def idl_def split: list.split)
  with schedule_next_thread_inv [OF k2(2) co2, of h] k1(1) k2(1) show ?thesis
    by (auto simp: lapic_ipi_handler_def cur_def)
qed

lemma upd_core_inv:
  assumes "inv_at D k q" "cores k c = Some co" "\<And>x. current_thread (f x) = current_thread x"
    "\<And>x. idle_thread (f x) = idle_thread x"
  shows "\<exists>k'. upd_core c f k = Some k' \<and> inv_at D k' q \<and> cores k' c = Some (f co) \<and>
    threads k' = threads k \<and> cur k' = cur k \<and> idl k' = idl k \<and> same_joined k k'"
proof -
  have "inv_at D (k\<lparr>cores := (cores k)(c \<mapsto> f co)\<rparr>) q" by (rule inv_at_core) (use assms in simp_all)
  then show ?thesis using assms by (auto simp: upd_core_def cur_def idl_def fun_eq_iff same_joined_def)
qed

text \<open>The part of a yield before the thread is touched.\<close>

lemma yield_prefix:
  assumes inv: "inv_at D k q" and co: "cores k c = Some co"
  obtains k1 k2 k3 co3 where "upd_core c (\<lambda>co. co\<lparr>if_flag := False\<rparr>) k = Some k1"
    "lapic_lvt_disable c LVT_TIMER k1 = Some k2" "lapic_schedule_time c 0 k2 = Some k3"
    "inv_at D k3 q" "cores k3 c = Some co3" "current_thread co3 = current_thread co"
    "idle_thread co3 = idle_thread co" "threads k3 = threads k" "cur k3 = cur k" "idl k3 = idl k"
proof -
  obtain k1 where k1: "upd_core c (\<lambda>co. co\<lparr>if_flag := False\<rparr>) k = Some k1" "inv_at D k1 q"
    "cores k1 c = Some (co\<lparr>if_flag := False\<rparr>)" "threads k1 = threads k" "cur k1 = cur k" "idl k1 = idl k"
    using upd_core_inv [OF inv co, of "\<lambda>co. co\<lparr>if_flag := False\<rparr>"] by auto
  obtain k2 where k2: "lapic_lvt_disable c LVT_TIMER k1 = Some k2" "apic_only c (co\<lparr>if_flag := False\<rparr>) k1 k2"
    using apic_only_disable [OF apic_only_refl [OF k1(3)]] by blast
  obtain k3 where k3: "lapic_schedule_time c 0 k2 = Some k3" "apic_only c (co\<lparr>if_flag := False\<rparr>) k1 k3"
    using apic_only_schedule_time [OF k2(2)] by blast
  note v3 = apic_only_view [OF k3(2) k1(3)]
  have i3: "inv_at D k3 q" by (rule inv_at_apic [OF k1(2,3) k3(2)])
  obtain co3 where "cores k3 c = Some co3" "current_thread co3 = current_thread co" "idle_thread co3 = idle_thread co"
    using v3(5) by auto
  from that [OF k1(1) k2(1) k3(1) i3 this] v3(1-3) k1(4-6) show thesis by simp
qed

text \<open>Yielding keeps the invariant; it blocks only when the thread's yield lock is taken.\<close>

lemma yield_free:
  assumes inv: "inv_at D k q" and co: "cores k c = Some co"
    and th: "current_thread co = Some t" "threads k t = Some th"
    and run: "schedule_thread_yield c no_return cause k = Some k'"
  shows "no_return \<or> yield_lock th = 0"
proof -
  obtain k1 k2 k3 co3 where k: "upd_core c (\<lambda>co. co\<lparr>if_flag := False\<rparr>) k = Some k1"
    "lapic_lvt_disable c LVT_TIMER k1 = Some k2" "lapic_schedule_time c 0 k2 = Some k3"
    "cores k3 c = Some co3" "current_thread co3 = Some t" "threads k3 t = Some th"
    using yield_prefix [OF inv co] th by metis
  then show ?thesis using run
    by (cases no_return) (auto simp: schedule_thread_yield_def upd_thread_def spinlock_acquire_eq Let_def split: if_splits)
qed

lemma schedule_thread_yield_inv:
  assumes inv: "inv_at D k q" and D: "c \<in> D" and co: "cores k c = Some co" and ni: "idle_thread co \<noteq> current_thread co"
    and th: "current_thread co = Some t" "threads k t = Some th" and free: "no_return \<or> yield_lock th = 0"
  shows "\<exists>k'. schedule_thread_yield c no_return cause k = Some k' \<and> inv_at D k' q \<and> cur k' = cur k \<and>
    idl k' = idl k"
proof -
  obtain k1 k2 k3 co3 where k1: "upd_core c (\<lambda>co. co\<lparr>if_flag := False\<rparr>) k = Some k1"
    and k2: "lapic_lvt_disable c LVT_TIMER k1 = Some k2" and k3: "lapic_schedule_time c 0 k2 = Some k3"
    and i3: "inv_at D k3 q" and co3: "cores k3 c = Some co3" "current_thread co3 = Some t"
      "idle_thread co3 = idle_thread co" and t3: "threads k3 t = Some th"
    and v3: "cur k3 = cur k" "idl k3 = idl k"
    using yield_prefix [OF inv co] th by metis
  obtain i where c: "idle_thread co3 = Some i" "\<forall>d. d \<noteq> c \<longrightarrow> idl k3 d \<noteq> Some t" "idl k3 c = Some i" "\<not> parked k3 t"
    using current_at [OF i3 D co3(1)] co3(2) by (metis option.inject)
  have nid: "\<forall>d. idl k3 d \<noteq> Some t" using c ni co3 th(1) by metis
  define th' where "th' = (if no_return then th\<lparr>yield_cause := cause\<rparr> else th\<lparr>yield_cause := cause, yield_lock := 1\<rparr>)"
  define k4 where "k4 = k3\<lparr>threads := (threads k3)(t \<mapsto> th')\<rparr>"
  have i4: "inv_at D k4 q"
    unfolding k4_def by (rule inv_at_thread [OF i3 t3]) (use nid c(4) t3 in \<open>auto simp: th'_def parked_def split: if_splits\<close>)
  have co4: "cores k4 c = Some co3" using co3(1) by (simp add: k4_def)
  obtain k5 where k5: "lapic_send_ipi c (lapic_id co3) (lapic_ipi_vector co3) k4 = Some k5" "apic_only c co3 k4 k5"
    using apic_only_send_ipi [OF apic_only_refl [OF co4]] by blast
  note v5 = apic_only_view [OF k5(2) co4]
  have i5: "inv_at D k5 q" by (rule inv_at_apic [OF i4 co4 k5(2)])
  obtain co5 where co5: "cores k5 c = Some co5" using v5(5) by blast
  obtain k6 where k6: "upd_core c (\<lambda>co. co\<lparr>if_flag := True\<rparr>) k5 = Some k6" "inv_at D k6 q" "cur k6 = cur k5" "idl k6 = idl k5"
    using upd_core_inv [OF i5 co5, of "\<lambda>co. co\<lparr>if_flag := True\<rparr>"] by auto
  have "schedule_thread_yield c no_return cause k = Some k6"
    using k1 k2 k3 co3(1,2) t3 free k5(1) k6(1)
    by (cases no_return) (simp_all add: schedule_thread_yield_def upd_thread_def k4_def th'_def Let_def)
  moreover have "cur k4 = cur k3" "idl k4 = idl k3" by (auto simp: k4_def cur_def idl_def)
  ultimately show ?thesis using k6 v5(1,2) v3 by auto
qed

lemma yield_resume_inv:
  assumes inv: "inv_at D k q" and D: "c \<in> D" and co: "cores k c = Some co"
    and run: "yield_resume c f k = Some k'"
  shows "inv_at D k' q"
proof -
  obtain t th where c: "current_thread co = Some t" "threads k t = Some th" "\<not> parked k t"
    using current_at [OF inv D co] by metis
  define k1 where "k1 = k\<lparr>threads := (threads k)(t \<mapsto> th\<lparr>yield_lock := 0\<rparr>)\<rparr>"
  have i1: "inv_at D k1 q"
    unfolding k1_def by (rule inv_at_thread [OF inv c(2)]) (use c in \<open>auto simp: parked_def\<close>)
  have co1: "cores k1 c = Some co" using co by (simp add: k1_def)
  have z: "yield_lock th = 0" using run co c by (auto simp: yield_resume_def spinlock_acquire_eq split: if_splits)
  have "yield_resume c f k = (if f then Some k1 else upd_core c (\<lambda>co. co\<lparr>if_flag := False\<rparr>) k1)"
    using co c z by (simp add: yield_resume_def upd_thread_def k1_def)
  with upd_core_inv [OF i1 co1, of "\<lambda>co. co\<lparr>if_flag := False\<rparr>"] run i1 show ?thesis
    by (auto split: if_splits)
qed

text \<open>Threads that \<open>schedule_notify\<close> wakes up.\<close>

definition notifiable :: "kernel \<Rightarrow> nat \<Rightarrow> bool" where
  "notifiable k t \<longleftrightarrow> (case threads k t of None \<Rightarrow> False
     | Some th \<Rightarrow> state th = THREAD_WAITING \<or> state th = THREAD_BLOCKED)"

text \<open>Notifying such a thread makes it runnable, hands it the event and queues it.\<close>

definition notified :: "nat option \<Rightarrow> tcb \<Rightarrow> tcb" where
  "notified ev th = th\<lparr>received_event := (if state th = THREAD_WAITING then ev else received_event th),
    state := THREAD_RUNNABLE\<rparr>"

lemma schedule_notify_parked:
  assumes inv: "inv_at D k q" and co: "cores k c = Some co" and th: "threads k t = Some th" and pk: "notifiable k t"
  shows "\<exists>ths h l. schedule_notify c ev (Some t) k = Some (SCHEDULE_OK, k\<lparr>threads := ths, head := h, tail := l\<rparr>) \<and>
    same_threads ((threads k)(t \<mapsto> notified ev th)) ths \<and> inv_at D (k\<lparr>threads := ths, head := h, tail := l\<rparr>) (q @ [t])"
proof -
  have s: "state th = THREAD_WAITING \<or> state th = THREAD_BLOCKED" using th pk by (simp add: notifiable_def)
  then have pk': "parked k t" using th by (auto simp: parked_def)
  have "placed D k q" using inv by (simp add: inv_at_def)
  note p = placedD [OF this]
  have pl: "t \<notin> set q" "\<forall>d\<in>D. cur k d \<noteq> Some t" "\<forall>d. idl k d \<noteq> Some t" using p(6) pk' by blast+
  define th1 where "th1 = notified ev th"
  define k1 where "k1 = k\<lparr>threads := (threads k)(t \<mapsto> th1)\<rparr>"
  have i1: "inv_at D k1 q"
    unfolding k1_def by (rule inv_at_thread [OF inv th]) (simp_all add: th1_def notified_def)
  have k1: "cores k1 c = Some co" "threads k1 t = Some th1" "\<not> parked k1 t"
    "\<forall>d\<in>D. cur k1 d \<noteq> Some t" "\<forall>d. idl k1 d \<noteq> Some t"
    using co pl by (simp_all add: k1_def parked_def th1_def notified_def cur_def idl_def)
  obtain ths h l where a: "schedule_add_thread c (Some t) k1 = Some (k1\<lparr>threads := ths, head := h, tail := l\<rparr>)"
    "same_threads (threads k1) ths" "inv_at D (k1\<lparr>threads := ths, head := h, tail := l\<rparr>) (q @ [t])"
    using inv_at_add [OF i1 k1(1,2) pl(1) k1(4,5,3)] by blast
  have id: "state th = THREAD_BLOCKED \<Longrightarrow> th1 = th\<lparr>state := THREAD_RUNNABLE\<rparr>"
    by (cases th) (simp add: th1_def notified_def)
  have "schedule_notify c ev (Some t) k = Some (SCHEDULE_OK, k1\<lparr>threads := ths, head := h, tail := l\<rparr>)"
    using s th a(1) id by (auto simp: schedule_notify_def upd_thread_def k1_def th1_def notified_def)
  with a(2,3) show ?thesis by (auto simp: k1_def th1_def)
qed

lemma schedule_notify_inv:
  assumes inv: "inv_at D k q" and co: "cores k c = Some co" and th: "threads k t = Some th"
  shows "\<exists>r k'. schedule_notify c ev (Some t) k = Some (r, k') \<and>
    (if notifiable k t then r = SCHEDULE_OK \<and> inv_at D k' (q @ [t]) \<and>
        (\<exists>th'. threads k' t = Some th' \<and> state th' = THREAD_RUNNABLE \<and>
          received_event th' = (if state th = THREAD_WAITING then ev else received_event th))
     else r = SCHEDULE_ERR \<and> k' = k)"
proof (cases "notifiable k t")
  case False
  then show ?thesis using th by (simp add: schedule_notify_def notifiable_def)
next
  case True
  obtain ths h l where a: "schedule_notify c ev (Some t) k = Some (SCHEDULE_OK, k\<lparr>threads := ths, head := h, tail := l\<rparr>)"
    "same_threads ((threads k)(t \<mapsto> notified ev th)) ths" "inv_at D (k\<lparr>threads := ths, head := h, tail := l\<rparr>) (q @ [t])"
    using schedule_notify_parked [OF assms True] by blast
  obtain th2 where th2: "ths t = Some th2" "unlink th2 = unlink (notified ev th)"
    using same_threads_Some [OF a(2), of t] by auto
  have "state th2 = THREAD_RUNNABLE \<and>
      received_event th2 = (if state th = THREAD_WAITING then ev else received_event th)"
    using unlink_fields(1,10) [OF th2(2)] by (simp add: notified_def)
  then show ?thesis using True a(1,3) th2(1) by auto
qed

end
