(* ===== verification/Sched_Steps.thy ===== *)
theory Sched_Steps
  imports Sched
begin

text \<open>
  The cores' handlers interleaved: the step relation of the scheduler, the invariant that no two
  cores execute the same thread, and the round robin of a core. A step contains at most one
  critical section of the ready queue, so the handlers and \<open>schedule_thread_terminate\<close> are
  several steps, between which the other cores move: a core is \<open>Running\<close> its current thread,
  has \<open>Marked\<close> it with the state it yields with, is \<open>Leaving\<close> it, after which it takes the next
  thread from the queue, or is \<open>Waking\<close> the threads joined to a terminating one. While a core is
  \<open>Marked\<close> or \<open>Leaving\<close> its \<open>current_thread\<close> still names the thread it has given up, and another
  core may already execute it. \<open>schedule_notify\<close> is one step: it is called with the lock of the
  event held, and a thread waits for one event at a time. A termination wakes a joined thread only
  when that one has been switched out; the last section shows that the code does not ensure this,
  and what happens without it.
\<close>

section \<open>Joining and terminating\<close>

lemma schedule_thread_join_inv:
  assumes inv: "inv_at D k q" and D: "c \<in> D" and co: "cores k c = Some co"
    and ni: "idle_thread co \<noteq> current_thread co"
    and run: "schedule_thread_join c other k = Some (w, k')"
  shows "inv_at D k' q"
proof -
  have iflag: "\<exists>k'. (if b then upd_core c (\<lambda>co. co\<lparr>if_flag := v\<rparr>) x else Some x) = Some k' \<and> inv_at D k' q \<and>
      (\<exists>co'. cores k' c = Some co' \<and> current_thread co' = current_thread y \<and> idle_thread co' = idle_thread y) \<and>
      threads k' = threads x"
    if "inv_at D x q" "cores x c = Some y" for x y b v
    using upd_core_inv [OF that, of "\<lambda>co. co\<lparr>if_flag := v\<rparr>"] that by auto
  obtain k1 co1 where k1: "(if if_flag co then upd_core c (\<lambda>co. co\<lparr>if_flag := False\<rparr>) k else Some k) = Some k1"
      "inv_at D k1 q" "cores k1 c = Some co1" "current_thread co1 = current_thread co"
      "idle_thread co1 = idle_thread co"
    using iflag [OF inv co, of "if_flag co" False] by blast
  obtain t th where t: "current_thread co1 = Some t" "threads k1 t = Some th" "\<not> parked k1 t"
    using current_at [OF k1(2) D k1(3)] by metis
  define th2 where "th2 = th\<lparr>join_thread := other\<rparr>"
  define k2 where "k2 = k1\<lparr>threads := (threads k1)(t \<mapsto> th2)\<rparr>"
  have i2: "inv_at D k2 q"
    unfolding k2_def by (rule inv_at_thread [OF k1(2) t(2)]) (use t in \<open>auto simp: th2_def parked_def\<close>)
  have u: "upd_thread (current_thread co) (\<lambda>t. t\<lparr>join_thread := other\<rparr>) k1 = Some k2"
    using t k1(4) by (simp add: upd_thread_def k2_def th2_def)
  have co2: "cores k2 c = Some co1" using k1(3) by (simp add: k2_def)
  obtain l ot where l: "spinlock_acquire (joined_queue_lock k2) = Some l" "deref (threads k2) other = Some ot"
    using run co k1(1) u by (auto simp: schedule_thread_join_def Let_def bind_eq_Some_conv)
  show ?thesis
  proof (cases "state ot = THREAD_ZOMBIE")
    case True
    let ?k = "k2\<lparr>joined_queue_lock := spinlock_release l\<rparr>"
    have "inv_at D ?k q" "cores ?k c = Some co1" using i2 co2 by simp_all
    from iflag [OF this, of "if_flag co" True] show ?thesis
      using run co k1(1) u l True by (auto simp: schedule_thread_join_def Let_def)
  next
    case False
    let ?k = "k2\<lparr>joined_threads := first_free (joined_threads k2) (current_thread co),
      joined_queue_lock := spinlock_release l\<rparr>"
    have y: "schedule_thread_yield c False YIELD_JOIN ?k = Some k'"
      using run co k1(1) u l False by (auto simp: schedule_thread_join_def Let_def bind_eq_Some_conv)
    have i: "inv_at D ?k q" "cores ?k c = Some co1" "threads ?k t = Some th2"
      using i2 co2 by (simp_all add: k2_def)
    have f: "False \<or> yield_lock th2 = 0" by (rule yield_free [OF i(1,2) t(1) i(3) y])
    from schedule_thread_yield_inv [OF i(1) D i(2) _ t(1) i(3) f, of YIELD_JOIN] ni k1(4,5) y show ?thesis by auto
  qed
qed

lemma terminate_begin_inv:
  assumes inv: "inv_at D k q" and co: "cores k c = Some co" and run: "terminate_begin c k = Some k'"
  shows "inv_at D k' q"
  using upd_core_inv [OF inv co, of "\<lambda>co. co\<lparr>if_flag := False\<rparr>"] run
  by (auto simp: terminate_begin_def bind_eq_Some_conv)

lemma terminate_end_inv:
  assumes inv: "inv_at D k q" and D: "c \<in> D" and co: "cores k c = Some co"
    and ni: "idle_thread co \<noteq> current_thread co" and run: "terminate_end c k = Some k'"
  shows "inv_at D k' q"
proof -
  let ?k = "k\<lparr>joined_queue_lock := spinlock_release (joined_queue_lock k)\<rparr>"
  have i: "inv_at D ?k q" "cores ?k c = Some co" using inv co by simp_all
  obtain t th where t: "current_thread co = Some t" "threads ?k t = Some th"
    using current_at [OF i(1) D i(2)] by metis
  have y: "schedule_thread_yield c True YIELD_TERMINATE ?k = Some k'" using run by (simp add: terminate_end_def Let_def)
  from schedule_thread_yield_inv [OF i(1) D i(2) ni t, of True YIELD_TERMINATE] y show ?thesis by auto
qed

text \<open>
  A slot of the joined list is safe for the thread that terminates on core \<open>c\<close> when the thread
  registered in it for this one, if there is one, has been switched out.
\<close>

definition switched_out :: "kernel \<Rightarrow> nat \<Rightarrow> nat \<Rightarrow> bool" where
  "switched_out k c i \<longleftrightarrow> (\<forall>j th. rd (joined_threads k) i = Some (Some j) \<and> threads k j = Some th \<and>
     join_thread th = cur k c \<longrightarrow> state th = THREAD_JOINED)"

lemma wake_joined_inv:
  assumes inv: "inv_at D k q" and co: "cores k c = Some co" and so: "switched_out k c i"
    and run: "wake_joined c (current_thread co) i k = Some k'"
  shows "\<exists>q'. inv_at D k' q'"
proof -
  obtain joined where j: "rd (joined_threads k) i = Some joined"
    using run by (auto simp: wake_joined_def bind_eq_Some_conv)
  show ?thesis
  proof (cases joined)
    case None
    then show ?thesis using run j inv by (auto simp: wake_joined_def)
  next
    case (Some u)
    obtain th where th: "threads k u = Some th"
      using run j Some by (auto simp: wake_joined_def bind_eq_Some_conv)
    show ?thesis
    proof (cases "join_thread th = current_thread co")
      case False
      then show ?thesis using run j Some th inv by (auto simp: wake_joined_def)
    next
      case True
      have st: "state th = THREAD_JOINED" using so j Some th True co by (auto simp: switched_out_def cur_def)
      then have pk: "parked k u" using th by (simp add: parked_def)
      have pl: "placed D k q" using inv by (simp add: inv_at_def)
      note p = placedD(6) [OF pl]
      have t: "u \<notin> set q" "\<forall>d\<in>D. cur k d \<noteq> Some u" "\<forall>d. idl k d \<noteq> Some u" using p pk by blast+
      define k1 where "k1 = k\<lparr>threads := (threads k)(u \<mapsto> th\<lparr>state := THREAD_RUNNABLE\<rparr>)\<rparr>"
      have i1: "inv_at D k1 q" unfolding k1_def by (rule inv_at_thread [OF inv th]) simp_all
      have u1: "cores k1 c = Some co" "threads k1 u = Some (th\<lparr>state := THREAD_RUNNABLE\<rparr>)"
          "\<forall>d\<in>D. cur k1 d \<noteq> Some u" "\<forall>d. idl k1 d \<noteq> Some u" "\<not> parked k1 u"
        using co t by (simp_all add: k1_def cur_def idl_def parked_def)
      obtain k2 where k2: "schedule_add_thread c (Some u) k1 = Some k2" "inv_at D k2 (q @ [u])"
        using inv_at_add [OF i1 u1(1,2) t(1) u1(3,4,5)] by blast
      have "upd_thread (Some u) (\<lambda>t. t\<lparr>state := THREAD_RUNNABLE\<rparr>) k = Some k1"
        using th by (simp add: upd_thread_def k1_def)
      then obtain js where "k' = k2\<lparr>joined_threads := js\<rparr>"
        using run j Some th True k2(1) by (auto simp: wake_joined_def bind_eq_Some_conv)
      then show ?thesis using k2(2) by auto
    qed
  qed
qed

section \<open>Steps\<close>

datatype phase = Running | Marked | Leaving | Waking nat

definition executes :: "phase \<Rightarrow> bool" where
  "executes p \<longleftrightarrow> p \<noteq> Marked \<and> p \<noteq> Leaving"

lemma executes_simps [simp]: "executes Running" "executes (Waking i)" "\<not> executes Marked" "\<not> executes Leaving"
  by (simp_all add: executes_def)

text \<open>
  The rules of a core \<open>c\<close>: the timer's handler up to the next thread, and that of a device, which
  signals the end of the interrupt later and may leave the idle thread without saving it; the interprocessor interrupt's handler, in the two
  parts before the next thread; the next thread; and what the code of a thread that is not idle
  calls. New threads are those \<open>create_kernel_thread\<close> and \<open>create_user_thread\<close> make.
\<close>

inductive sched_step :: "u64 \<Rightarrow> kernel \<times> (nat \<Rightarrow> phase) \<Rightarrow> kernel \<times> (nat \<Rightarrow> phase) \<Rightarrow> bool" for h where
  tick: "p c = Running \<Longrightarrow> lapic_time_leave c ctx k = Some k' \<Longrightarrow> sched_step h (k, p) (k', p(c := Leaving))"
| device: "p c = Running \<Longrightarrow> save_context c ctx k = Some k1 \<Longrightarrow> requeue_current c k1 = Some k' \<Longrightarrow>
    sched_step h (k, p) (k', p(c := Leaving))"
| idle_device: "p c = Running \<Longrightarrow> cores k c \<noteq> None \<Longrightarrow> idl k c = cur k c \<Longrightarrow> sched_step h (k, p) (k, p(c := Leaving))"
| eoi: "p c = Leaving \<Longrightarrow> lapic_eoi c k = Some k' \<Longrightarrow> sched_step h (k, p) (k', p)"
| ipi: "p c = Running \<Longrightarrow> lapic_ipi_mark c k = Some k' \<Longrightarrow> sched_step h (k, p) (k', p(c := Marked))"
| save: "p c = Marked \<Longrightarrow> lapic_ipi_save c ctx k = Some k' \<Longrightarrow> sched_step h (k, p) (k', p(c := Leaving))"
| switch: "p c = Leaving \<Longrightarrow> schedule_next_thread h c k = Some k' \<Longrightarrow> sched_step h (k, p) (k', p(c := Running))"
| yield: "p c = Running \<Longrightarrow> idl k c \<noteq> cur k c \<Longrightarrow> schedule_thread_yield c no_return cause k = Some k' \<Longrightarrow>
    sched_step h (k, p) (k', p)"
| resume: "p c = Running \<Longrightarrow> yield_resume c f k = Some k' \<Longrightarrow> sched_step h (k, p) (k', p)"
| notify: "p c = Running \<Longrightarrow> schedule_notify c ev (Some t) k = Some (r, k') \<Longrightarrow> sched_step h (k, p) (k', p)"
| spawn: "p c = Running \<Longrightarrow> threads k t = None \<Longrightarrow> state th = THREAD_CREATED \<Longrightarrow> yield_cause th = 0 \<Longrightarrow>
    parent th = Some r \<Longrightarrow> pml4_of k r \<noteq> None \<Longrightarrow>
    schedule_add_thread c (Some t) (k\<lparr>threads := (threads k)(t \<mapsto> th)\<rparr>) = Some k' \<Longrightarrow> sched_step h (k, p) (k', p)"
| join: "p c = Running \<Longrightarrow> idl k c \<noteq> cur k c \<Longrightarrow> schedule_thread_join c other k = Some (w, k') \<Longrightarrow>
    sched_step h (k, p) (k', p)"
| terminate: "p c = Running \<Longrightarrow> idl k c \<noteq> cur k c \<Longrightarrow> terminate_begin c k = Some k' \<Longrightarrow>
    sched_step h (k, p) (k', p(c := Waking 0))"
| wake: "p c = Waking i \<Longrightarrow> i < QUEUE_MAX \<Longrightarrow> switched_out k c i \<Longrightarrow> wake_joined c (cur k c) i k = Some k' \<Longrightarrow>
    sched_step h (k, p) (k', p(c := Waking (Suc i)))"
| finish: "p c = Waking QUEUE_MAX \<Longrightarrow> idl k c \<noteq> cur k c \<Longrightarrow> terminate_end c k = Some k' \<Longrightarrow>
    sched_step h (k, p) (k', p(c := Running))"

text \<open>The start: nothing queued, no lock held, every core running its own idle thread.\<close>

definition sched_start :: "kernel \<Rightarrow> bool" where
  "sched_start k \<longleftrightarrow> head k = None \<and> tail k = None \<and> ready_queue_lock k = 0 \<and> joined_queue_lock k = 0 \<and>
     rooted k \<and> (\<forall>t th. threads k t = Some th \<longrightarrow> state th = THREAD_RUNNING \<and> yield_cause th = 0) \<and>
     (\<forall>c co. cores k c = Some co \<longrightarrow> current_thread co = idle_thread co \<and>
        (\<exists>i. idle_thread co = Some i \<and> threads k i \<noteq> None)) \<and>
     (\<forall>c d i. c \<noteq> d \<and> idl k c = Some i \<longrightarrow> idl k d \<noteq> Some i)"

inductive sched_reachable :: "u64 \<Rightarrow> kernel \<times> (nat \<Rightarrow> phase) \<Rightarrow> bool" for h where
  start: "sched_start k \<Longrightarrow> sched_reachable h (k, \<lambda>_. Running)"
| step: "sched_reachable h s \<Longrightarrow> sched_step h s s' \<Longrightarrow> sched_reachable h s'"

text \<open>A whole handler, and a whole call, is a sequence of these steps.\<close>

lemma time_handler_steps:
  assumes "p c = Running" "lapic_time_handler h c ctx k = Some k'"
  shows "(sched_step h)\<^sup>*\<^sup>* (k, p) (k', p)"
proof -
  obtain k1 where k1: "lapic_time_leave c ctx k = Some k1" "schedule_next_thread h c k1 = Some k'"
    using assms(2) by (auto simp: lapic_time_handler_def bind_eq_Some_conv)
  have "sched_step h (k1, p(c := Leaving)) (k', (p(c := Leaving))(c := Running))"
    by (rule sched_step.switch) (use k1 in simp_all)
  moreover have "(p(c := Leaving))(c := Running) = p" using assms(1) by auto
  moreover have "sched_step h (k, p) (k1, p(c := Leaving))"
    by (rule sched_step.tick) (use assms(1) k1(1) in simp_all)
  ultimately show ?thesis
    by (metis converse_rtranclp_into_rtranclp r_into_rtranclp)
qed

lemma ipi_handler_steps:
  assumes "p c = Running" "lapic_ipi_handler h c ctx k = Some k'"
  shows "(sched_step h)\<^sup>*\<^sup>* (k, p) (k', p)"
proof -
  obtain k1 k2 where k: "lapic_ipi_mark c k = Some k1" "lapic_ipi_save c ctx k1 = Some k2"
      "schedule_next_thread h c k2 = Some k'"
    using assms(2) by (auto simp: lapic_ipi_handler_def bind_eq_Some_conv)
  have "sched_step h (k, p) (k1, p(c := Marked))" by (rule sched_step.ipi) (use assms(1) k(1) in simp_all)
  moreover have "sched_step h (k1, p(c := Marked)) (k2, (p(c := Marked))(c := Leaving))"
    by (rule sched_step.save) (use k in simp_all)
  moreover have "sched_step h (k2, p(c := Leaving)) (k', (p(c := Leaving))(c := Running))"
    by (rule sched_step.switch) (use k in simp_all)
  moreover have "(p(c := Marked))(c := Leaving) = p(c := Leaving)" "(p(c := Leaving))(c := Running) = p"
    using assms(1) by auto
  ultimately show ?thesis by (metis converse_rtranclp_into_rtranclp r_into_rtranclp)
qed

section \<open>The invariant of the steps\<close>

definition step_inv :: "kernel \<times> (nat \<Rightarrow> phase) \<Rightarrow> nat list \<Rightarrow> bool" where
  "step_inv s q \<longleftrightarrow> inv_at {c. executes (snd s c)} (fst s) q"

lemma step_inv_phase [simp]:
  "executes a \<Longrightarrow> step_inv (k, p(c := a)) q \<longleftrightarrow> inv_at (insert c {c. executes (p c)}) k q"
  "\<not> executes a \<Longrightarrow> step_inv (k, p(c := a)) q \<longleftrightarrow> inv_at ({c. executes (p c)} - {c}) k q"
proof -
  have "{d. executes ((p(c := a)) d)} = (if executes a then insert c {c. executes (p c)} else {c. executes (p c)} - {c})"
    by (auto split: if_splits)
  then show "executes a \<Longrightarrow> step_inv (k, p(c := a)) q \<longleftrightarrow> inv_at (insert c {c. executes (p c)}) k q"
    "\<not> executes a \<Longrightarrow> step_inv (k, p(c := a)) q \<longleftrightarrow> inv_at ({c. executes (p c)} - {c}) k q"
    by (simp_all add: step_inv_def)
qed

lemma sched_start_inv:
  assumes "sched_start k"
  shows "sched_inv k []"
proof -
  have s: "\<forall>t th. threads k t = Some th \<longrightarrow> state th = THREAD_RUNNING \<and> yield_cause th = 0"
    and c: "\<forall>c co. cores k c = Some co \<longrightarrow> current_thread co = idle_thread co \<and>
        (\<exists>i. idle_thread co = Some i \<and> threads k i \<noteq> None)"
    and d: "\<forall>c d i. c \<noteq> d \<and> idl k c = Some i \<longrightarrow> idl k d \<noteq> Some i"
    using assms by (auto simp: sched_start_def)
  have ci: "cur k = idl k" using c by (auto simp: cur_def idl_def split: option.split)
  have l: "\<forall>c. cores k c \<noteq> None \<longrightarrow> (\<exists>i. idl k c = Some i \<and> threads k i \<noteq> None \<and> i \<notin> set [])"
    using c by (auto simp: idl_def)
  have p: "\<not> parked k t" and m: "calm k t" for t
    using s by (auto simp: parked_def calm_def split: option.split)
  have "placed UNIV k []"
    unfolding placed_def ci using l d p m by simp
  moreover have "rq k []" using assms by (simp add: rq_def sched_start_def)
  ultimately show ?thesis using assms by (simp add: inv_at_def sched_start_def)
qed

lemma spawn_inv:
  assumes inv: "inv_at D k q" and new: "threads k t = None" and co: "cores k c = Some co"
    and th: "state th = THREAD_CREATED" "yield_cause th = 0" "parent th = Some p" "pml4_of k p \<noteq> None"
  shows "\<exists>k'. schedule_add_thread c (Some t) (k\<lparr>threads := (threads k)(t \<mapsto> th)\<rparr>) = Some k' \<and>
    inv_at D k' (q @ [t]) \<and> cur k' = cur k \<and> idl k' = idl k"
proof -
  let ?k = "k\<lparr>threads := (threads k)(t \<mapsto> th)\<rparr>"
  have pl: "placed D k q" and r: "rq k q" using inv by (simp_all add: inv_at_def)
  note p = placedD [OF pl]
  have nq: "t \<notin> set q" using r new by (auto simp: rq_def)
  have ni: "idl k d \<noteq> Some t" for d using p(1) new by (cases "cores k d") (auto simp: idl_def)
  have nc: "cur k d \<noteq> Some t" for d using p(2) new by (cases "cores k d") (auto simp: cur_def)
  have v: "cur ?k = cur k" "idl ?k = idl k" "cores ?k = cores k" by (auto simp: cur_def idl_def)
  have pk: "parked ?k a = parked k a" for a using new th by (auto simp: parked_def)
  have cm: "calm ?k a = calm k a" for a using new th by (auto simp: calm_def)
  have ex: "threads k a \<noteq> None \<Longrightarrow> threads ?k a \<noteq> None" for a by auto
  have "placed D ?k q"
    unfolding placed_def v pk cm
  proof (intro conjI)
    show "\<forall>c. cores k c \<noteq> None \<longrightarrow> (\<exists>i. idl k c = Some i \<and> threads ?k i \<noteq> None \<and> i \<notin> set q)"
      using p(1) ex by meson
    show "\<forall>c. cores k c \<noteq> None \<longrightarrow> (\<exists>t. cur k c = Some t \<and> threads ?k t \<noteq> None \<and> (c \<in> D \<longrightarrow> t \<notin> set q))"
      using p(2) ex by meson
  qed (fact p)+
  moreover have "rq ?k q"
  proof -
    have "chain (nx (threads k)) (pv (threads k)) None q" using r by (simp add: rq_def)
    then have "chain (nx (threads ?k)) (pv (threads ?k)) None q"
    proof (rule chain_cong)
      fix a assume "a \<in> set q"
      then have "threads ?k a = threads k a" using nq by auto
      then show "nx (threads ?k) a = nx (threads k) a \<and> pv (threads ?k) a = pv (threads k) a"
        using nx_cong pv_cong by blast
    qed
    then show ?thesis using r by (simp add: rq_def)
  qed
  moreover have "rooted ?k" using inv th by (auto simp: inv_at_def rooted_def)
  ultimately have i: "inv_at D ?k q" by (simp add: inv_at_def)
  have t: "cores ?k c = Some co" "threads ?k t = Some th" using co by simp_all
  have o: "\<forall>d\<in>D. cur ?k d \<noteq> Some t" "\<forall>d. idl ?k d \<noteq> Some t" "\<not> parked ?k t"
    using nc ni v th(1) by (simp_all add: parked_def)
  moreover have "cur (?k\<lparr>threads := ths, head := h, tail := l\<rparr>) = cur k" "idl (?k\<lparr>threads := ths, head := h, tail := l\<rparr>) = idl k"
    for ths h l by (simp_all add: cur_def [abs_def] idl_def [abs_def])
  ultimately show ?thesis using inv_at_add [OF i t nq] by auto
qed

text \<open>A core that moves exists.\<close>

lemma step_core:
  "lapic_eoi c k = Some k' \<Longrightarrow> \<exists>co. cores k c = Some co"
  "lapic_time_leave c ctx k = Some k' \<Longrightarrow> \<exists>co. cores k c = Some co"
  "save_context c ctx k = Some k' \<Longrightarrow> \<exists>co. cores k c = Some co"
  "lapic_ipi_mark c k = Some k' \<Longrightarrow> \<exists>co. cores k c = Some co"
  "lapic_ipi_save c ctx k = Some k' \<Longrightarrow> \<exists>co. cores k c = Some co"
  "schedule_thread_yield c nr cause k = Some k' \<Longrightarrow> \<exists>co. cores k c = Some co"
  "yield_resume c f k = Some k' \<Longrightarrow> \<exists>co. cores k c = Some co"
  "schedule_add_thread c t k = Some k' \<Longrightarrow> \<exists>co. cores k c = Some co"
  "schedule_thread_join c other k = Some r \<Longrightarrow> \<exists>co. cores k c = Some co"
  "terminate_begin c k = Some k' \<Longrightarrow> \<exists>co. cores k c = Some co"
  "terminate_end c k = Some k' \<Longrightarrow> \<exists>co. cores k c = Some co"
  by (auto simp: lapic_time_leave_def lapic_ipi_mark_def lapic_ipi_save_def lapic_eoi_def lapic_write_def upd_core_def
      save_context_def schedule_thread_yield_def yield_resume_def schedule_add_thread_def schedule_thread_join_def
      terminate_begin_def terminate_end_def bind_eq_Some_conv Let_def)

lemma schedule_next_thread_core:
  assumes "schedule_next_thread h c k = Some k'"
  shows "\<exists>co. cores k c = Some co"
proof -
  obtain t k1 where "pop_thread_from_queue k = Some (t, k1)" "cores k1 c \<noteq> None"
    using assms by (auto simp: schedule_next_thread_def bind_eq_Some_conv)
  moreover have "cores k1 = cores k"
    using calculation(1) by (auto simp: pop_thread_from_queue_def upd_thread_def bind_eq_Some_conv Let_def split: if_splits)
  ultimately show ?thesis by auto
qed

lemma sched_step_inv:
  assumes "sched_step h s s'" "step_inv s q"
  shows "\<exists>q'. step_inv s' q'"
  using assms(1)
proof (cases rule: sched_step.cases)
  case (tick p c ctx k k')
  let ?D = "{c. executes (p c)}"
  have inv: "inv_at ?D k q" and D: "c \<in> ?D" using assms(2) tick by (simp_all add: step_inv_def)
  obtain co where "cores k c = Some co" using step_core(2) [OF tick(4)] by blast
  from lapic_time_leave_at [OF inv D this, of ctx] tick show ?thesis by auto
next
  case (device p c ctx k k1 k')
  let ?D = "{c. executes (p c)}"
  have inv: "inv_at ?D k q" and D: "c \<in> ?D" using assms(2) device by (simp_all add: step_inv_def)
  obtain co where co: "cores k c = Some co" using step_core(3) [OF device(4)] by blast
  have i1: "inv_at ?D k1 q" "cores k1 c = Some co" using save_context_inv [OF inv co, of ctx] device(4) co by auto
  from requeue_current_at [OF i1(1) D i1(2)] device show ?thesis by auto
next
  case (idle_device p c k)
  let ?D = "{c. executes (p c)}"
  have inv: "inv_at ?D k q" and D: "c \<in> ?D" using assms(2) idle_device by (simp_all add: step_inv_def)
  obtain co where co: "cores k c = Some co" using idle_device(4) by blast
  then have "requeue_current c k = Some k" using idle_device(5) by (simp add: requeue_current_def cur_def idl_def)
  with requeue_current_at [OF inv D co] idle_device show ?thesis by auto
next
  case (eoi p c k k')
  have inv: "inv_at {c. executes (p c)} k q" using assms(2) eoi by (simp add: step_inv_def)
  obtain co where co: "cores k c = Some co" using step_core(1) [OF eoi(4)] by blast
  then have "inv_at {c. executes (p c)} k' q"
    using apic_only_eoi [OF apic_only_refl [OF co]] eoi(4) inv_at_apic [OF inv co] by auto
  then show ?thesis using eoi by (auto simp: step_inv_def)
next
  case (ipi p c k k')
  let ?D = "{c. executes (p c)}"
  have inv: "inv_at ?D k q" and D: "c \<in> ?D" using assms(2) ipi by (simp_all add: step_inv_def)
  obtain co where "cores k c = Some co" using step_core(4) [OF ipi(4)] by blast
  from lapic_ipi_mark_at [OF inv D this] ipi show ?thesis by auto
next
  case (save p c ctx k k')
  let ?D = "{c. executes (p c)}"
  have inv: "inv_at ?D k q" and D: "?D - {c} = ?D" using assms(2) save by (auto simp: step_inv_def)
  obtain co where "cores k c = Some co" using step_core(5) [OF save(4)] by blast
  from lapic_ipi_save_at [OF inv this, of ctx] save D show ?thesis by auto
next
  case (switch p c k k')
  let ?D = "{c. executes (p c)}"
  have inv: "inv_at ?D k q" and D: "c \<notin> ?D" using assms(2) switch by (simp_all add: step_inv_def)
  obtain co where "cores k c = Some co" using schedule_next_thread_core [OF switch(4)] by blast
  from schedule_next_thread_at [OF inv D this, of h] switch show ?thesis by auto
next
  case (yield p c k no_return cause k')
  let ?D = "{c. executes (p c)}"
  have inv: "inv_at ?D k q" and D: "c \<in> ?D" using assms(2) yield by (simp_all add: step_inv_def)
  obtain co where co: "cores k c = Some co" using step_core(6) [OF yield(5)] by blast
  obtain t th where c: "current_thread co = Some t" "threads k t = Some th"
    using current_at [OF inv D co] by metis
  have ni: "idle_thread co \<noteq> current_thread co" using yield(4) co by (simp add: cur_def idl_def)
  have f: "no_return \<or> yield_lock th = 0" by (rule yield_free [OF inv co c yield(5)])
  from schedule_thread_yield_inv [OF inv D co ni c f, of cause] yield show ?thesis by (auto simp: step_inv_def)
next
  case (resume p c f k k')
  let ?D = "{c. executes (p c)}"
  have inv: "inv_at ?D k q" and D: "c \<in> ?D" using assms(2) resume by (simp_all add: step_inv_def)
  obtain co where co: "cores k c = Some co" using step_core(7) [OF resume(4)] by blast
  from yield_resume_inv [OF inv D co resume(4)] resume show ?thesis by (auto simp: step_inv_def)
next
  case (notify p c ev t k r k')
  have inv: "inv_at {c. executes (p c)} k q" using assms(2) notify by (simp add: step_inv_def)
  obtain th where th: "threads k t = Some th"
    using notify(4) by (auto simp: schedule_notify_def bind_eq_Some_conv)
  have "\<exists>q'. inv_at {c. executes (p c)} k' q'"
  proof (cases "cores k c")
    case None
    then have "k' = k" using notify(4) th
      by (auto simp: schedule_notify_def schedule_add_thread_def upd_thread_def bind_eq_Some_conv split: if_splits)
    then show ?thesis using inv by blast
  next
    case (Some co)
    from schedule_notify_inv [OF inv Some th, of ev] notify(4) inv show ?thesis by (auto split: if_splits)
  qed
  then show ?thesis using notify by (auto simp: step_inv_def)
next
  case (spawn p c k t th r k')
  have inv: "inv_at {c. executes (p c)} k q" using assms(2) spawn by (simp add: step_inv_def)
  obtain co where "cores k c = Some co" using step_core(8) [OF spawn(9)] by auto
  from spawn_inv [OF inv spawn(4) this spawn(5-8)] spawn show ?thesis by (auto simp: step_inv_def)
next
  case (join p c k other w k')
  let ?D = "{c. executes (p c)}"
  have inv: "inv_at ?D k q" and D: "c \<in> ?D" using assms(2) join by (simp_all add: step_inv_def)
  obtain co where co: "cores k c = Some co" using step_core(9) [OF join(5)] by blast
  have ni: "idle_thread co \<noteq> current_thread co" using join(4) co by (simp add: cur_def idl_def)
  from schedule_thread_join_inv [OF inv D co ni join(5)] join show ?thesis by (auto simp: step_inv_def)
next
  case (terminate p c k k')
  let ?D = "{c. executes (p c)}"
  have inv: "inv_at ?D k q" and D: "insert c ?D = ?D" using assms(2) terminate by (auto simp: step_inv_def)
  obtain co where co: "cores k c = Some co" using step_core(10) [OF terminate(5)] by blast
  from terminate_begin_inv [OF inv co terminate(5)] terminate D show ?thesis by auto
next
  case (wake p c i k k')
  let ?D = "{c. executes (p c)}"
  have inv: "inv_at ?D k q" and D: "insert c ?D = ?D" using assms(2) wake by (auto simp: step_inv_def)
  show ?thesis
  proof (cases "cores k c")
    case None
    then have "k' = k" using wake(6)
      by (auto simp: wake_joined_def schedule_add_thread_def upd_thread_def bind_eq_Some_conv
          split: if_splits option.splits)
    then show ?thesis using inv D wake by auto
  next
    case (Some co)
    then have w: "wake_joined c (current_thread co) i k = Some k'" using wake(6) by (simp add: cur_def)
    from wake_joined_inv [OF inv Some wake(5) w] wake D show ?thesis by auto
  qed
next
  case (finish p c k k')
  let ?D = "{c. executes (p c)}"
  have inv: "inv_at ?D k q" and D: "c \<in> ?D" "insert c ?D = ?D" using assms(2) finish by (auto simp: step_inv_def)
  obtain co where co: "cores k c = Some co" using step_core(11) [OF finish(5)] by blast
  have ni: "idle_thread co \<noteq> current_thread co" using finish(4) co by (simp add: cur_def idl_def)
  from terminate_end_inv [OF inv D(1) co ni finish(5)] finish D show ?thesis by auto
qed

lemma sched_reachable_inv: "sched_reachable h s \<Longrightarrow> \<exists>q. step_inv s q"
proof (induction rule: sched_reachable.induct)
  case (start k)
  have "step_inv (k, \<lambda>_. Running) []" using sched_start_inv [OF start] by (simp add: step_inv_def)
  then show ?case by blast
next
  case (step s s')
  then show ?case using sched_step_inv by blast
qed

lemma idle_not_queued: "inv_at D k q \<Longrightarrow> t \<in> set q \<Longrightarrow> idl k c \<noteq> Some t"
  using placedD(1) [of D k q] by (cases "cores k c") (auto simp: inv_at_def idl_def)

lemma current_not_queued: "inv_at D k q \<Longrightarrow> t \<in> set q \<Longrightarrow> c \<in> D \<Longrightarrow> cur k c \<noteq> Some t"
  using placedD(2) [of D k q] by (cases "cores k c") (auto simp: inv_at_def cur_def)

section \<open>Round robin\<close>

fun run_ticks :: "u64 \<Rightarrow> nat \<Rightarrow> ctx list \<Rightarrow> kernel \<Rightarrow> kernel option" where
  "run_ticks h c [] k = Some k"
| "run_ticks h c (x # xs) k = do {
     k' \<leftarrow> lapic_time_handler h c x k;
     run_ticks h c xs k' }"

lemma run_ticks_append:
  "run_ticks h c (xs @ [x]) k = do { k' \<leftarrow> run_ticks h c xs k; lapic_time_handler h c x k' }"
  by (induction xs arbitrary: k) (auto split: Option.bind_splits)

text \<open>One tick on a core that runs a thread rotates the list of its thread and the queue.\<close>

lemma tick_rotates:
  assumes inv: "sched_inv k q" and t: "cur k c = Some t" "idl k c \<noteq> Some t"
  shows "\<exists>k'. lapic_time_handler h c ctx k = Some k' \<and> sched_inv k' (tl (q @ [t])) \<and>
    cur k' c = Some (hd (q @ [t])) \<and> idl k' c = idl k c \<and> ctx_of k' = (ctx_of k)(t \<mapsto> ctx) \<and>
    (\<exists>co. cores k' c = Some co \<and>
      regs co = (if hd (q @ [t]) = t then ctx else the (ctx_of k (hd (q @ [t])))))"
proof -
  obtain co where co: "cores k c = Some co" using t(1) by (auto simp: cur_def split: option.splits)
  have nq: "next_queue k c q = q @ [t]" using t by (simp add: next_queue_def)
  have ch: "chosen k c (q @ [t]) = Some (hd (q @ [t]))" by (cases q) (simp_all add: chosen_def)
  obtain k' t' u co' where k': "lapic_time_handler h c ctx k = Some k'" "sched_inv k' (tl (next_queue k c q))"
    "cur k c = Some t'" "chosen k c (next_queue k c q) = Some u" "cores k' c = Some co'"
    "current_thread co' = Some u" "regs co' = (if u = t' then ctx else tcontext (the (threads k u)))"
    "idle_thread co' = idle_thread co" "ctx_of k' = (ctx_of k)(t' \<mapsto> ctx)"
    using lapic_time_handler_inv [OF inv co, of h ctx] by blast
  have u: "u = hd (q @ [t])" "t' = t" using k'(3,4) ch nq t(1) by simp_all
  have "u = t \<or> threads k u \<noteq> None"
    using inv u(1) by (cases q) (auto simp: inv_at_def rq_def)
  then have "u \<noteq> t \<Longrightarrow> tcontext (the (threads k u)) = the (ctx_of k u)" by (auto simp: ctx_of_def)
  then show ?thesis
    using k' u nq co by (auto simp: cur_def idl_def)
qed

lemma ticks_rotate:
  assumes inv: "sched_inv k q" and t: "cur k c = Some t" "idl k c \<noteq> Some t"
    and len: "length xs \<le> Suc (length q)"
  shows "\<exists>k'. run_ticks h c xs k = Some k' \<and> sched_inv k' (tl (rotate (length xs) (t # q))) \<and>
    cur k' c = Some (hd (rotate (length xs) (t # q))) \<and> idl k' c = idl k c \<and>
    (xs \<noteq> [] \<longrightarrow> ctx_of k' t = Some (hd xs)) \<and>
    (length xs = Suc (length q) \<longrightarrow> (\<exists>co. cores k' c = Some co \<and> regs co = hd xs))"
  using len
proof (induction xs rule: rev_induct)
  case Nil
  then show ?case using inv t by auto
next
  case (snoc x xs)
  let ?r = "rotate (length xs) (t # q)"
  from snoc obtain k1 where k1: "run_ticks h c xs k = Some k1" "sched_inv k1 (tl ?r)"
    "cur k1 c = Some (hd ?r)" "idl k1 c = idl k c" "xs \<noteq> [] \<longrightarrow> ctx_of k1 t = Some (hd xs)" by auto
  obtain a as where r: "?r = a # as" by (cases ?r) auto
  have dis: "distinct (t # q)" using inv current_not_queued [OF inv] t(1) by (auto simp: inv_at_def rq_def)
  have set: "set (a # as) = set (t # q)" using r by (metis set_rotate)
  have na: "idl k1 c \<noteq> Some a"
  proof -
    have "a = t \<or> a \<in> set q" using set by auto
    then show ?thesis using k1(4) t(2) idle_not_queued [OF inv] by metis
  qed
  obtain k2 co2 where k2: "lapic_time_handler h c x k1 = Some k2" "sched_inv k2 (tl (as @ [a]))"
    "cur k2 c = Some (hd (as @ [a]))" "idl k2 c = idl k1 c" "ctx_of k2 = (ctx_of k1)(a \<mapsto> x)"
    "cores k2 c = Some co2" "regs co2 = (if hd (as @ [a]) = a then x else the (ctx_of k1 (hd (as @ [a]))))"
    using tick_rotates [OF k1(2), of c a h x] k1(3) r na by auto
  have rot: "rotate (length (xs @ [x])) (t # q) = as @ [a]" using r by simp
  have first_tick: "xs = [] \<Longrightarrow> a = t" using r by simp
  have later: "a \<noteq> t" if "xs \<noteq> []"
  proof
    assume "a = t"
    then have "hd (rotate (length xs) (t # q)) = (t # q) ! 0" using r by simp
    moreover have "hd (rotate (length xs) (t # q)) = (t # q) ! (length xs mod Suc (length q))"
      by (simp add: hd_rotate_conv_nth)
    moreover have "length xs < Suc (length q)" "length xs \<noteq> 0" using snoc.prems that by simp_all
    ultimately show False using dis by (metis length_Cons mod_less nth_eq_iff_index_eq zero_less_Suc)
  qed
  have c2: "ctx_of k2 t = Some (hd (xs @ [x]))" using first_tick later k1(5) k2(5) by (cases "xs = []") auto
  have "regs co2 = hd (xs @ [x])" if "length (xs @ [x]) = Suc (length q)"
  proof -
    have "rotate (length (xs @ [x])) (t # q) = t # q" using that by (metis length_Cons rotate_id mod_self)
    then have "hd (as @ [a]) = t" using rot by (metis list.sel(1))
    then show ?thesis using k2(7) first_tick later k1(5) by (cases "xs = []") auto
  qed
  then show ?case using k1(1,4) k2 c2 rot by (auto simp: run_ticks_append)
qed

section \<open>Properties\<close>

text \<open>
  C2: in every state the cores can reach by interleaving the steps of their timer, device and
  interprocessor interrupts, yields, resumptions, notifications, joins, terminations and starts of
  new threads, no two cores execute the same thread, and the ready queue is a well-formed list
  without duplicates, none of whose threads is a core's idle thread or executed by any core. Its
  lock is free and no step dereferences a dangling link: the handlers of a running core get
  through their first part, and those inside a handler through the next. A termination wakes only
  joined threads that have been switched out; the last section shows what happens otherwise.
\<close>

theorem sched_exclusive:
  assumes "sched_reachable h (k, p)"
  shows "(\<forall>c d t. executes (p c) \<and> executes (p d) \<and> cur k c = Some t \<and> cur k d = Some t \<longrightarrow> c = d) \<and>
    (\<exists>q. rq k q \<and> distinct q \<and>
      (\<forall>t\<in>set q. \<forall>c. idl k c \<noteq> Some t \<and> (executes (p c) \<longrightarrow> cur k c \<noteq> Some t))) \<and>
    (\<forall>c ctx. cores k c \<noteq> None \<longrightarrow>
      (case p c of
         Running \<Rightarrow> lapic_time_leave c ctx k \<noteq> None \<and> lapic_ipi_mark c k \<noteq> None
       | Marked \<Rightarrow> lapic_ipi_save c ctx k \<noteq> None
       | Leaving \<Rightarrow> schedule_next_thread h c k \<noteq> None
       | Waking _ \<Rightarrow> True))"
proof -
  let ?D = "{c. executes (p c)}"
  obtain q where q: "inv_at ?D k q" using sched_reachable_inv [OF assms] by (auto simp: step_inv_def)
  then have p: "placed ?D k q" and r: "rq k q" by (simp_all add: inv_at_def)
  have "\<forall>c d t. executes (p c) \<and> executes (p d) \<and> cur k c = Some t \<and> cur k d = Some t \<longrightarrow> c = d"
    using placedD(5) [OF p] by blast
  moreover have "\<forall>t\<in>set q. \<forall>c. idl k c \<noteq> Some t \<and> (executes (p c) \<longrightarrow> cur k c \<noteq> Some t)"
    using idle_not_queued [OF q] current_not_queued [OF q] by blast
  moreover have "case p c of Running \<Rightarrow> lapic_time_leave c ctx k \<noteq> None \<and> lapic_ipi_mark c k \<noteq> None
      | Marked \<Rightarrow> lapic_ipi_save c ctx k \<noteq> None | Leaving \<Rightarrow> schedule_next_thread h c k \<noteq> None | Waking _ \<Rightarrow> True"
    if core: "cores k c \<noteq> None" for c ctx
  proof -
    obtain co where co: "cores k c = Some co" using core by auto
    show ?thesis
      using lapic_time_leave_at [OF q _ co, of ctx] lapic_ipi_mark_at [OF q _ co] lapic_ipi_save_at [OF q co, of ctx]
        schedule_next_thread_at [OF q _ co, of h]
      by (cases "p c") auto
  qed
  ultimately show ?thesis using r by (auto simp: rq_def)
qed

text \<open>Two cores in their idle threads 0 and 1.\<close>

definition zero_ctx :: ctx where
  "zero_ctx = \<lparr>rax = 0, rbx = 0, rcx = 0, rdx = 0, rsi = 0, rdi = 0, rbp = 0, r8 = 0, r9 = 0, r10 = 0, r11 = 0, r12 = 0, r13 = 0, r14 = 0, r15 = 0, err = 0, rip = 0, cs = 0, rflags = 0, rsp = 0, ss = 0\<rparr>"

definition idle_tcb :: tcb where
  "idle_tcb = \<lparr>tid = 0, cpu_id = - 1, parent = Some 9, thread_base_sp = 0x1000, thread_sp = 0x2000,
     kernel_base_sp = 0x3000, kernel_sp = 0x4000, tcontext = zero_ctx, thread_scratch = 0,
     state = THREAD_RUNNING, yield_cause = 0, quantum = 1000, received_event = None, join_thread = None,
     yield_lock = 0, prev_thread = None, next_thread = None\<rparr>"

definition idle_core :: "nat \<Rightarrow> core" where
  "idle_core i = \<lparr>kernel_stack = 0, kernel_scratch = 0, irq_stack = 0, lapic_id = of_nat i,
     lapic_ipi_vector = 33, lapic_timer_vector = 32, lapic_freq = 1000000, idle_thread = Some i,
     current_thread = Some i, tss_ist1 = 0, if_flag = True, cr3 = 0, regs = zero_ctx,
     lapic_reg = (\<lambda>_. 0), ipis = []\<rparr>"

definition two_cores :: kernel where
  "two_cores = \<lparr>threads = [0 \<mapsto> idle_tcb, 1 \<mapsto> idle_tcb], pml4_of = [9 \<mapsto> 0x5000],
     cores = [0 \<mapsto> idle_core 0, 1 \<mapsto> idle_core 1], events = Map.empty, head = None, tail = None,
     ready_queue_lock = 0, joined_threads = replicate 100 None, joined_queue_lock = 0, freed = []\<rparr>"

lemma two_cores_start: "sched_start two_cores"
  by (auto simp: sched_start_def two_cores_def idle_core_def idle_tcb_def rooted_def idl_def
      split: if_splits)

lemma leave_reachable:
  assumes "sched_reachable h (k, p)" "step_inv (k, p) q" "p c = Running" "cur k c \<noteq> None"
  shows "\<exists>k'. sched_reachable h (k', p(c := Leaving)) \<and> step_inv (k', p(c := Leaving)) (next_queue k c q) \<and>
    cur k' = cur k \<and> idl k' = idl k"
proof -
  obtain co where co: "cores k c = Some co" using assms(4) by (auto simp: cur_def split: option.splits)
  obtain k' where k': "lapic_time_leave c zero_ctx k = Some k'"
      "inv_at ({c. executes (p c)} - {c}) k' (next_queue k c q)" "cur k' = cur k" "idl k' = idl k"
    using lapic_time_leave_at [OF _ _ co, of "{c. executes (p c)}" q zero_ctx] assms(2,3) by (auto simp: step_inv_def)
  have "sched_step h (k, p) (k', p(c := Leaving))" by (rule sched_step.tick) (use assms(3) k'(1) in simp_all)
  then show ?thesis using k' assms(1) sched_reachable.step by fastforce
qed

lemma switch_reachable:
  assumes "sched_reachable h (k, p)" "step_inv (k, p) q" "p c = Leaving" "cur k c \<noteq> None"
  shows "\<exists>k'. sched_reachable h (k', p(c := Running)) \<and> step_inv (k', p(c := Running)) (tl q) \<and>
    cur k' = (cur k)(c := chosen k c q) \<and> idl k' = idl k"
proof -
  obtain co where co: "cores k c = Some co" using assms(4) by (auto simp: cur_def split: option.splits)
  obtain k' co' t where k': "schedule_next_thread h c k = Some k'" "inv_at (insert c {c. executes (p c)}) k' (tl q)"
      "chosen k c q = Some t" "cores k' = (cores k)(c \<mapsto> co')" "current_thread co' = Some t"
      "idle_thread co' = idle_thread co"
    using schedule_next_thread_at [OF _ _ co, of "{c. executes (p c)}" q h] assms(2,3) by (auto simp: step_inv_def)
  have "sched_step h (k, p) (k', p(c := Running))" by (rule sched_step.switch) (use assms(3) k'(1) in simp_all)
  moreover have "cur k' = (cur k)(c := chosen k c q)" "idl k' = idl k"
    using k'(3-6) co by (auto simp: cur_def idl_def)
  ultimately show ?thesis using k'(2) assms(1) sched_reachable.step by fastforce
qed

text \<open>
  The witness is the interleaving in which core 1 takes over thread 2 while core 0, which has
  just queued it, still names it as its current thread.
\<close>

theorem sched_exclusive_witness:
  "\<exists>k p. sched_reachable 0 (k, p) \<and> p 0 = Leaving \<and> p 1 = Running \<and> cur k 0 = Some 2 \<and> cur k 1 = Some 2 \<and>
    schedule_next_thread 0 0 k \<noteq> None"
proof -
  let ?r = "\<lambda>_::nat. Running" and ?th = "idle_tcb\<lparr>state := THREAD_CREATED\<rparr>"
  have r0: "sched_reachable 0 (two_cores, ?r)" by (rule sched_reachable.start [OF two_cores_start])
  have v0: "cores two_cores 0 = Some (idle_core 0)" "threads two_cores 2 = None" "pml4_of two_cores 9 \<noteq> None"
    by (auto simp: two_cores_def)
  have c0: "cur two_cores 0 = Some 0" "cur two_cores 1 = Some 1" "idl two_cores 0 = Some 0" "idl two_cores 1 = Some 1"
    by (auto simp: two_cores_def cur_def idl_def idle_core_def)
  obtain k1 where k1: "schedule_add_thread 0 (Some 2) (two_cores\<lparr>threads := (threads two_cores)(2 \<mapsto> ?th)\<rparr>) = Some k1"
      "sched_inv k1 [2]" "cur k1 = cur two_cores" "idl k1 = idl two_cores"
    using spawn_inv [OF sched_start_inv [OF two_cores_start] v0(2,1), of ?th 9] v0(3) by (auto simp: idle_tcb_def)
  have "sched_step 0 (two_cores, ?r) (k1, ?r)"
    by (rule sched_step.spawn [where t = 2 and th = ?th and c = 0 and r = 9])
      (use v0 k1 in \<open>simp_all add: idle_tcb_def\<close>)
  then have r1: "sched_reachable 0 (k1, ?r)" using r0 sched_reachable.step by blast
  have s1: "step_inv (k1, ?r) [2]" using k1(2) by (simp add: step_inv_def)
  have n1: "next_queue k1 0 [2] = [2]" "cur k1 0 \<noteq> None" using c0 k1(3,4) by (simp_all add: next_queue_def)
  define p1 where "p1 = ?r(0 := Leaving)"
  obtain k2 where k2: "sched_reachable 0 (k2, p1)" "step_inv (k2, p1) [2]" "cur k2 = cur two_cores" "idl k2 = idl two_cores"
    using leave_reachable [OF r1 s1 refl n1(2)] k1(3,4) unfolding n1(1) p1_def by metis
  have p1: "p1 0 = Leaving" "cur k2 0 \<noteq> None" using c0 k2 by (simp_all add: p1_def)
  define p2 where "p2 = p1(0 := Running)"
  obtain k3 where k3: "sched_reachable 0 (k3, p2)" "step_inv (k3, p2) []" "cur k3 = (cur two_cores)(0 := Some 2)"
      "idl k3 = idl two_cores"
    using switch_reachable [OF k2(1,2) p1] k2(3,4) unfolding p2_def by (auto simp: chosen_def)
  have n3: "p2 0 = Running" "cur k3 0 \<noteq> None" "next_queue k3 0 [] = [2]"
    using c0 k3 by (simp_all add: p2_def next_queue_def)
  define p3 where "p3 = p2(0 := Leaving)"
  obtain k4 where k4: "sched_reachable 0 (k4, p3)" "step_inv (k4, p3) [2]" "cur k4 = cur k3" "idl k4 = idl k3"
    using leave_reachable [OF k3(1,2) n3(1,2)] unfolding n3(3) p3_def by metis
  have n4: "p3 1 = Running" "cur k4 1 \<noteq> None" "next_queue k4 1 [2] = [2]"
    using c0 k3 k4 by (simp_all add: p3_def p2_def p1_def next_queue_def)
  define p4 where "p4 = p3(1 := Leaving)"
  obtain k5 where k5: "sched_reachable 0 (k5, p4)" "step_inv (k5, p4) [2]" "cur k5 = cur k3"
    using leave_reachable [OF k4(1,2) n4(1,2)] k4(3) unfolding n4(3) p4_def by metis
  have n5: "p4 1 = Leaving" "cur k5 1 \<noteq> None" using c0 k5 k3 by (simp_all add: p4_def)
  obtain k6 where k6: "sched_reachable 0 (k6, p4(1 := Running))" "cur k6 = (cur k5)(1 := chosen k5 1 [2])"
    using switch_reachable [OF k5(1,2) n5] by blast
  have v6: "cur k6 0 = Some 2" "cur k6 1 = Some 2" "(p4(1 := Running)) 0 = Leaving" "(p4(1 := Running)) 1 = Running"
    using k6(2) k5(3) k3(3) by (simp_all add: chosen_def p4_def p3_def)
  have "cores k6 0 \<noteq> None" using v6(1) by (auto simp: cur_def split: option.splits)
  then have "schedule_next_thread 0 0 k6 \<noteq> None"
    using sched_exclusive [OF k6(1), THEN conjunct2, THEN conjunct2, rule_format, of 0] v6(3) by simp
  with k6(1) v6 show ?thesis by blast
qed

text \<open>
  C8: round robin. On a core that runs thread \<open>t\<close> with the threads \<open>q\<close> queued behind it, \<open>n\<close>
  timer ticks rotate the list \<open>t # q\<close> by \<open>n\<close> places: every queued thread runs in its turn and
  after as many ticks as there are threads \<open>t\<close> runs again, resumed with exactly the registers it
  was interrupted with.
\<close>

theorem sched_round_robin:
  assumes "sched_inv k q" "cur k c = Some t" "idl k c \<noteq> Some t" "length xs \<le> Suc (length q)"
  shows "\<exists>k'. run_ticks h c xs k = Some k' \<and> rq k' (tl (rotate (length xs) (t # q))) \<and>
    cur k' c = Some (hd (rotate (length xs) (t # q))) \<and>
    (length xs = Suc (length q) \<longrightarrow>
      cur k' c = Some t \<and> (\<exists>co. cores k' c = Some co \<and> regs co = hd xs))"
proof -
  obtain k' where k': "run_ticks h c xs k = Some k'" "sched_inv k' (tl (rotate (length xs) (t # q)))"
    "cur k' c = Some (hd (rotate (length xs) (t # q)))"
    "length xs = Suc (length q) \<longrightarrow> (\<exists>co. cores k' c = Some co \<and> regs co = hd xs)"
    using ticks_rotate [OF assms, of h] by blast
  have "length xs = Suc (length q) \<Longrightarrow> rotate (length xs) (t # q) = t # q"
    by (metis length_Cons mod_self rotate_id)
  then show ?thesis using k' by (auto simp: inv_at_def)
qed

text \<open>One core that runs thread 2 with thread 3 queued.\<close>

definition busy_core :: kernel where
  "busy_core = two_cores\<lparr>threads := [0 \<mapsto> idle_tcb, 2 \<mapsto> idle_tcb, 3 \<mapsto> idle_tcb],
     cores := [0 \<mapsto> (idle_core 0)\<lparr>current_thread := Some 2\<rparr>], head := Some 3, tail := Some 3\<rparr>"

lemma busy_core_inv: "sched_inv busy_core [3]"
proof -
  have v: "cur busy_core = [0 \<mapsto> 2]" "idl busy_core = [0 \<mapsto> 0]"
    by (auto simp: cur_def idl_def busy_core_def idle_core_def)
  have "\<not> parked busy_core t" "calm busy_core t" for t
    by (auto simp: parked_def calm_def busy_core_def idle_tcb_def)
  then have "placed UNIV busy_core [3]"
    unfolding placed_def v by (auto simp: busy_core_def)
  moreover have "rq busy_core [3]" "rooted busy_core"
    by (auto simp: rq_def rooted_def busy_core_def two_cores_def idle_tcb_def split: if_splits)
  ultimately show ?thesis by (simp add: inv_at_def busy_core_def two_cores_def)
qed

theorem sched_round_robin_witness:
  "\<exists>k'. run_ticks 0 0 [zero_ctx\<lparr>rip := 7\<rparr>, zero_ctx] busy_core = Some k' \<and> cur k' 0 = Some 2 \<and>
    (\<exists>co. cores k' 0 = Some co \<and> regs co = zero_ctx\<lparr>rip := 7\<rparr>)"
  using sched_round_robin [OF busy_core_inv, of 0 2 "[zero_ctx\<lparr>rip := 7\<rparr>, zero_ctx]" 0]
  by (auto simp: cur_def idl_def busy_core_def idle_core_def)

text \<open>
  Waking up a waiter. \<open>schedule_notify\<close> makes a thread that waits or is blocked runnable and
  puts it at the end of the ready queue exactly once, handing the event over to a waiter; a
  thread in any other state (for instance one that has registered for the event but not yet
  yielded) is left as it is, with an error for the caller.
\<close>

lemma schedule_notify_wakes:
  assumes "sched_inv k q" "cores k c = Some co" "threads k t = Some th"
  shows "\<exists>r k'. schedule_notify c ev (Some t) k = Some (r, k') \<and>
    (if state th = THREAD_WAITING \<or> state th = THREAD_BLOCKED
     then r = SCHEDULE_OK \<and> rq k' (q @ [t]) \<and> distinct (q @ [t]) \<and>
       (\<exists>th'. threads k' t = Some th' \<and> state th' = THREAD_RUNNABLE \<and>
         (state th = THREAD_WAITING \<longrightarrow> received_event th' = ev))
     else r = SCHEDULE_ERR \<and> k' = k)"
proof -
  have p: "notifiable k t \<longleftrightarrow> state th = THREAD_WAITING \<or> state th = THREAD_BLOCKED"
    using assms(3) by (simp add: notifiable_def)
  obtain r k' where n: "schedule_notify c ev (Some t) k = Some (r, k')"
    "if notifiable k t then r = SCHEDULE_OK \<and> sched_inv k' (q @ [t]) \<and>
        (\<exists>th'. threads k' t = Some th' \<and> state th' = THREAD_RUNNABLE \<and>
          received_event th' = (if state th = THREAD_WAITING then ev else received_event th))
     else r = SCHEDULE_ERR \<and> k' = k"
    using schedule_notify_inv [OF assms, of ev] by blast
  have "sched_inv k' (q @ [t]) \<Longrightarrow> rq k' (q @ [t]) \<and> distinct (q @ [t])"
    by (simp add: inv_at_def rq_def)
  then show ?thesis using n unfolding p by (intro exI [of _ r] exI [of _ k']) auto
qed

section \<open>Joining\<close>

text \<open>Core 0 runs thread 2, core 1 runs thread 3.\<close>

definition join_state :: kernel where
  "join_state = two_cores\<lparr>threads := [0 \<mapsto> idle_tcb, 1 \<mapsto> idle_tcb, 2 \<mapsto> idle_tcb, 3 \<mapsto> idle_tcb],
     cores := [0 \<mapsto> (idle_core 0)\<lparr>current_thread := Some 2\<rparr>, 1 \<mapsto> (idle_core 1)\<lparr>current_thread := Some 3\<rparr>]\<rparr>"

text \<open>
  C35: joining and terminating on two cores can put a running thread into the ready queue.
  Thread 2 on core 0 joins thread 3: it registers itself and releases the lock of the joined
  list before its own interrupt has switched it out. When thread 3 terminates on core 1 in
  between, \<open>schedule_thread_terminate\<close> marks thread 2 runnable and queues it although it is still
  current on core 0, so that core 1 can run it at the same time.
\<close>

lemma for_loop_idle:
  assumes "\<And>i. lo \<le> i \<Longrightarrow> i < hi \<Longrightarrow> body i s = Some s"
  shows "for_loop lo hi body s = Some s"
proof (cases "lo \<le> hi")
  case True
  from for_loop_rule [where I = "\<lambda>_ t. t = s", OF True refl] assms show ?thesis by blast
qed simp

lemmas yield_code = schedule_thread_yield_def upd_core_def upd_thread_def lapic_lvt_disable_def
  lapic_lvt_enable_def lapic_schedule_time_def lapic_send_ipi_def lapic_read_def lapic_write_def

lemma join_first:
  "\<exists>k1 ths crs. schedule_thread_join 0 (Some 3) join_state = Some (True, k1) \<and>
    k1 = join_state\<lparr>threads := ths, cores := crs, joined_threads := Some 2 # replicate 99 None\<rparr> \<and>
    ths 0 = Some idle_tcb \<and> ths 3 = Some idle_tcb \<and> (\<exists>th. ths 2 = Some th \<and> join_thread th = Some 3) \<and>
    (\<exists>co. crs 0 = Some co \<and> current_thread co = Some 2) \<and> crs 1 = Some ((idle_core 1)\<lparr>current_thread := Some 3\<rparr>)"
proof -
  have f: "first_free (replicate 100 None) t = t # replicate 99 None" for t
    by (simp add: numeral_eq_Suc)
  show ?thesis
    by (simp add: schedule_thread_join_def yield_code join_state_def two_cores_def idle_core_def idle_tcb_def
        f Let_def)
qed

lemma terminate_wakes:
  assumes k1: "k1 = join_state\<lparr>threads := ths, cores := crs, joined_threads := Some 2 # replicate 99 None\<rparr>"
    and ths: "ths 3 = Some idle_tcb" "ths 2 = Some th" "join_thread th = Some 3"
    and crs: "crs 0 = Some co" "current_thread co = Some 2" "crs 1 = Some ((idle_core 1)\<lparr>current_thread := Some 3\<rparr>)"
  shows "\<exists>k2. schedule_thread_terminate 1 k1 = Some k2 \<and> cur k2 0 = Some 2 \<and> head k2 = Some 2"
proof -
  let ?co1 = "(idle_core 1)\<lparr>current_thread := Some 3, if_flag := False\<rparr>"
  let ?crs = "crs(1 \<mapsto> ?co1)"
  define ka where "ka = k1\<lparr>cores := ?crs, joined_queue_lock := 1\<rparr>"
  define kb where "kb = ka\<lparr>threads := ths(2 \<mapsto> th\<lparr>state := THREAD_RUNNABLE\<rparr>)\<rparr>"
  define kc where "kc = kb\<lparr>threads := ths(2 \<mapsto> th\<lparr>state := THREAD_RUNNABLE, prev_thread := None, next_thread := None\<rparr>),
    head := Some 2, tail := Some 2\<rparr>"
  define kd where "kd = kc\<lparr>joined_threads := replicate 100 None\<rparr>"
  have "schedule_add_thread 1 (Some 2) kb = Some kc"
    unfolding kc_def using schedule_add_first [of kb 2 "th\<lparr>state := THREAD_RUNNABLE\<rparr>" 1 ?co1]
    by (simp add: kb_def ka_def k1 join_state_def two_cores_def)
  moreover have "upd_thread (Some 2) (\<lambda>t. t\<lparr>state := THREAD_RUNNABLE\<rparr>) ka = Some kb"
    using ths by (simp add: upd_thread_def ka_def kb_def k1)
  moreover have "(Some 2 # replicate 99 None)[0 := None] = replicate 100 (None :: nat option)"
    by (simp add: numeral_eq_Suc)
  ultimately have w0: "wake_joined 1 (Some 3) 0 ka = Some kd"
    using ths by (simp add: wake_joined_def ka_def kb_def kc_def kd_def k1)
  have "for_loop 1 100 (wake_joined 1 (Some 3)) kd = Some kd"
    by (rule for_loop_idle) (simp add: wake_joined_def kd_def)
  then have loop: "for_loop 0 QUEUE_MAX (wake_joined 1 (Some 3)) ka = Some kd"
    using w0 by (simp add: for_loop_step QUEUE_MAX_def)
  define ke where "ke = kd\<lparr>joined_queue_lock := 0\<rparr>"
  have st: "schedule_thread_terminate 1 k1 = schedule_thread_yield 1 True YIELD_TERMINATE ke"
    using crs loop by (simp add: schedule_thread_terminate_def terminate_begin_def terminate_end_def Let_def upd_core_def ka_def k1 join_state_def two_cores_def
      ke_def kd_def kc_def kb_def)
  have "cores ke = ?crs" "threads ke 3 = Some idle_tcb" "head ke = Some 2"
    using ths by (simp_all add: ke_def kd_def kc_def kb_def ka_def)
  then show ?thesis using crs(1,2)
    unfolding st by (simp add: yield_code idle_core_def Let_def cur_def)
qed

theorem join_terminate_race:
  "\<exists>k1 k2. schedule_thread_join 0 (Some 3) join_state = Some (True, k1) \<and>
    schedule_thread_terminate 1 k1 = Some k2 \<and> cur k2 0 = Some 2 \<and> head k2 = Some 2"
  using join_first terminate_wakes by metis

end
