(* ===== verification/Vmm.thy ===== *)
theory Vmm
  imports Pmm
begin

text \<open>
  \<open>src/kernel/memory/vmm.c\<close>: the four-level page tables. Memory is the function from addresses
  to the 64-bit words stored there; table pointers are higher-half addresses, and \<open>h\<close> is
  \<open>KERNEL_HHDM_OFFSET\<close>. Frames for new tables come from the physical allocator of theory
  \<open>Pmm\<close>. \<open>page_walk\<close> is what the processor does with the tables; the lemmas show that
  \<open>map_page\<close> and \<open>map_section\<close> establish exactly the translations they are asked for.
\<close>

section \<open>Definitions\<close>

definition PAGE_SIZE :: u64 where "PAGE_SIZE = 4096"
definition PML_PRESENT :: u64 where "PML_PRESENT = 0x001"
definition PML_WRITE :: u64 where "PML_WRITE = 0x002"
definition PML_USER :: u64 where "PML_USER = 0x004"
definition PML_PHYSICAL_ADDRESS :: u64 where "PML_PHYSICAL_ADDRESS = 0x0000fffffffff000"
definition PML_NOT_EXECUTABLE :: u64 where "PML_NOT_EXECUTABLE = 0x8000000000000000"

record vmm =
  mem :: "u64 \<Rightarrow> u64"
  pm :: pmm
  frames_allocated :: u64

text \<open>\<open>base[i]\<close> for a table pointer; a \<open>NULL\<close> table is dereferenced in the code only by mistake.\<close>

definition entry_get :: "u64 \<Rightarrow> u64 \<Rightarrow> vmm \<Rightarrow> u64 option" where
  "entry_get base i st = (if base = 0 then None else Some (mem st (base + 8 * i)))"

definition entry_set :: "u64 \<Rightarrow> u64 \<Rightarrow> u64 \<Rightarrow> vmm \<Rightarrow> vmm option" where
  "entry_set base i v st = (if base = 0 then None else Some (st\<lparr>mem := (mem st)(base + 8 * i := v)\<rparr>))"

text \<open>\<open>__memset(p, 0, PAGE_SIZE)\<close> on a page.\<close>

definition zero_page :: "u64 \<Rightarrow> vmm \<Rightarrow> vmm" where
  "zero_page p st = st\<lparr>mem := (\<lambda>a. if a - p < PAGE_SIZE then 0 else mem st a)\<rparr>"

definition align_address :: "u64 \<Rightarrow> bool \<Rightarrow> u64" where
  "align_address addr round_up =
     (let rounded_addr = addr div PAGE_SIZE * PAGE_SIZE
      in if round_up \<and> rounded_addr \<noteq> addr then rounded_addr + PAGE_SIZE else rounded_addr)"

definition allocate_map :: "u64 \<Rightarrow> u64 \<Rightarrow> u64 \<Rightarrow> u64 \<Rightarrow> vmm \<Rightarrow> (u64 \<times> vmm) option" where
  "allocate_map h map_base map_entry flags st = do {
     (next_level_map, p) \<leftarrow> palloc h 1 (pm st);
     let st = st\<lparr>pm := p\<rparr>;
     if next_level_map = 0 then Some (0, st)
     else do {
       let st = zero_page next_level_map (st\<lparr>frames_allocated := frames_allocated st + 1\<rparr>);
       let entry = next_level_map - h;
       st \<leftarrow> entry_set map_base map_entry (entry OR flags) st;
       Some (next_level_map, st) } }"

text \<open>The pointer that is stored on success, or \<^term>\<open>None\<close> inside for \<open>false\<close>.\<close>

definition get_next_page_map :: "u64 \<Rightarrow> u64 \<Rightarrow> u64 \<Rightarrow> vmm \<Rightarrow> u64 option option" where
  "get_next_page_map h map_base map_entry st = do {
     next_map_entry \<leftarrow> entry_get map_base map_entry st;
     if next_map_entry AND PML_PRESENT \<noteq> 0
     then Some (Some ((next_map_entry AND PML_PHYSICAL_ADDRESS) + h))
     else Some None }"

definition pml4e :: "u64 \<Rightarrow> u64" where "pml4e vaddr = drop_bit 39 vaddr AND 0x1ff"
definition pdpte :: "u64 \<Rightarrow> u64" where "pdpte vaddr = drop_bit 30 vaddr AND 0x1ff"
definition pde :: "u64 \<Rightarrow> u64" where "pde vaddr = drop_bit 21 vaddr AND 0x1ff"
definition pte :: "u64 \<Rightarrow> u64" where "pte vaddr = drop_bit 12 vaddr AND 0x1ff"

text \<open>The table below an entry, allocated when it is missing.\<close>

definition next_map :: "u64 \<Rightarrow> u64 \<Rightarrow> u64 \<Rightarrow> vmm \<Rightarrow> (u64 \<times> vmm) option" where
  "next_map h base i st = do {
     n \<leftarrow> get_next_page_map h base i st;
     case n of
       Some b \<Rightarrow> Some (b, st)
     | None \<Rightarrow> allocate_map h base i (PML_PRESENT OR PML_WRITE OR PML_USER) st }"

definition map_page :: "u64 \<Rightarrow> u64 \<Rightarrow> u64 \<Rightarrow> u64 \<Rightarrow> u64 \<Rightarrow> vmm \<Rightarrow> vmm option" where
  "map_page h pml4_base vaddr paddr flags st = do {
     (pdpt_base, st) \<leftarrow> next_map h pml4_base (pml4e vaddr) st;
     (pd_base, st) \<leftarrow> next_map h pdpt_base (pdpte vaddr) st;
     (pt_base, st) \<leftarrow> next_map h pd_base (pde vaddr) st;
     entry_set pt_base (pte vaddr) (paddr OR flags) st }"

definition map_section :: "u64 \<Rightarrow> u64 \<Rightarrow> u64 \<Rightarrow> u64 \<Rightarrow> u64 \<Rightarrow> u64 \<Rightarrow> vmm \<Rightarrow> vmm option" where
  "map_section h pml4_base vaddr_base paddr_base len flags st = do {
     (paddr, st) \<leftarrow> word_loop vaddr_base (vaddr_base + len) PAGE_SIZE
       (\<lambda>vaddr (paddr, st). do {
          st \<leftarrow> map_page h pml4_base vaddr paddr flags st;
          Some (paddr + PAGE_SIZE, st) }) (paddr_base, st);
     Some st }"

text \<open>The pointer of the kernel's top table is the second argument.\<close>

definition unmap_page :: "u64 \<Rightarrow> u64 \<Rightarrow> u64 \<Rightarrow> vmm \<Rightarrow> vmm option" where
  "unmap_page h pml4_base vaddr st = do {
     n \<leftarrow> get_next_page_map h pml4_base (pml4e vaddr) st;
     case n of None \<Rightarrow> Some st | Some pdpt_base \<Rightarrow> do {
       n \<leftarrow> get_next_page_map h pdpt_base (pdpte vaddr) st;
       case n of None \<Rightarrow> Some st | Some pd_base \<Rightarrow> do {
         n \<leftarrow> get_next_page_map h pd_base (pde vaddr) st;
         case n of None \<Rightarrow> Some st | Some pt_base \<Rightarrow> entry_set pt_base (pte vaddr) 0 st } } }"

definition get_virt_addr :: "u64 \<Rightarrow> u64 \<Rightarrow> u64 \<Rightarrow> u64 \<Rightarrow> u64 \<Rightarrow> u64" where
  "get_virt_addr i4 i3 i2 i1 page_offset =
     (let virt = push_bit 39 i4 OR push_bit 30 i3 OR push_bit 21 i2 OR push_bit 12 i1 OR page_offset
      in if drop_bit 8 i4 AND 1 \<noteq> 0 then virt OR 0xffff000000000000 else virt)"

text \<open>The value \<open>load_pagemap\<close> writes to \<open>cr3\<close>.\<close>

definition load_pagemap :: "u64 \<Rightarrow> u64 \<Rightarrow> u64" where
  "load_pagemap h pml4_base = pml4_base - h"

text \<open>
  \<open>init_vmm\<close>: the section bounds of the linker script, the kernel's load address and the devices
  are arguments. The result is the new top table and the state.
\<close>

record kernel_image =
  stext :: u64
  etext :: u64
  srodata :: u64
  erodata :: u64
  sdata :: u64
  edata :: u64
  virtual_base :: u64
  physical_base :: u64

definition map_kernel_section ::
    "u64 \<Rightarrow> u64 \<Rightarrow> kernel_image \<Rightarrow> u64 \<Rightarrow> u64 \<Rightarrow> u64 \<Rightarrow> vmm \<Rightarrow> vmm option" where
  "map_kernel_section h root img start fin flags st =
     (let s_vaddr = align_address start False;
          e_vaddr = align_address fin True;
          s_paddr = s_vaddr - virtual_base img + physical_base img
      in map_section h root s_vaddr s_paddr (e_vaddr - s_vaddr) flags st)"

definition map_memmap_entry :: "u64 \<Rightarrow> u64 \<Rightarrow> limine_memmap_entry \<Rightarrow> vmm \<Rightarrow> vmm option" where
  "map_memmap_entry h root e st =
     (let start_paddr = align_address (me_base e) False;
          end_paddr = align_address (me_base e + me_length e) True
      in map_section h root (start_paddr + h) start_paddr (end_paddr - start_paddr)
           (PML_WRITE OR PML_PRESENT) st)"

fun each :: "('a \<Rightarrow> 's \<Rightarrow> 's option) \<Rightarrow> 'a list \<Rightarrow> 's \<Rightarrow> 's option" where
  "each f [] s = Some s"
| "each f (x # xs) s = Option.bind (f x s) (each f xs)"

definition init_vmm :: "u64 \<Rightarrow> kernel_image \<Rightarrow> limine_memmap_entry list \<Rightarrow> (u64 \<times> u64) list \<Rightarrow>
    vmm \<Rightarrow> (u64 \<times> vmm) option" where
  "init_vmm h img entries devices st = do {
     (k_pagemap, p) \<leftarrow> palloc h 1 (pm st);
     st \<leftarrow> (if k_pagemap \<noteq> 0 then Some (st\<lparr>pm := p\<rparr>) else None);
     (root, p) \<leftarrow> palloc h 1 (pm st);
     st \<leftarrow> (if root \<noteq> 0 then Some (st\<lparr>pm := p\<rparr>) else None);
     st \<leftarrow> map_kernel_section h root img (stext img) (etext img) PML_PRESENT st;
     st \<leftarrow> map_kernel_section h root img (srodata img) (erodata img) (PML_NOT_EXECUTABLE OR PML_PRESENT) st;
     st \<leftarrow> map_kernel_section h root img (sdata img) (edata img)
       (PML_NOT_EXECUTABLE OR PML_WRITE OR PML_PRESENT) st;
     st \<leftarrow> each (map_memmap_entry h root) entries st;
     let bitmap_addr = get_bitmap_addr (pm st);
     st \<leftarrow> map_section h root bitmap_addr (bitmap_addr - h) (get_bitmap_size (pm st))
       (PML_NOT_EXECUTABLE OR PML_WRITE OR PML_PRESENT) st;
     st \<leftarrow> each (\<lambda>(addr, size_bytes). map_section h root (addr + h) addr size_bytes
       (PML_NOT_EXECUTABLE OR PML_WRITE OR PML_PRESENT)) devices st;
     st \<leftarrow> for_loop 256 512 (\<lambda>i st. do {
       e \<leftarrow> entry_get root (of_nat i) st;
       entry_set root (of_nat i) (e AND NOT PML_USER) st }) st;
     Some (root, st) }"

section \<open>The processor's walk\<close>

text \<open>The entry of the last level, when the levels above it are present.\<close>

definition page_walk :: "u64 \<Rightarrow> u64 \<Rightarrow> u64 \<Rightarrow> vmm \<Rightarrow> u64 option" where
  "page_walk h root vaddr st =
     (let e4 = mem st (root + 8 * pml4e vaddr); t3 = (e4 AND PML_PHYSICAL_ADDRESS) + h;
          e3 = mem st (t3 + 8 * pdpte vaddr); t2 = (e3 AND PML_PHYSICAL_ADDRESS) + h;
          e2 = mem st (t2 + 8 * pde vaddr); t1 = (e2 AND PML_PHYSICAL_ADDRESS) + h
      in if e4 AND PML_PRESENT \<noteq> 0 \<and> e3 AND PML_PRESENT \<noteq> 0 \<and> e2 AND PML_PRESENT \<noteq> 0
         then Some (mem st (t1 + 8 * pte vaddr)) else None)"

section \<open>Addresses of tables and entries\<close>

text \<open>The higher-half window starts on a page and the frames fit the address field of an entry.\<close>

definition vmm_ok :: "u64 \<Rightarrow> vmm \<Rightarrow> bool" where
  "vmm_ok h st \<longleftrightarrow> pmm_inv h (pm st) \<and> 4096 dvd unat h \<and> max_frames (pm st) < 2 ^ 36"

definition table_at :: "u64 \<Rightarrow> vmm \<Rightarrow> u64 \<Rightarrow> bool" where
  "table_at h st b \<longleftrightarrow> (\<exists>k\<in>used (pm st). unat b = unat h + 4096 * k)"

lemma table_at_bounds:
  assumes "vmm_ok h st" "table_at h st b"
  shows "b \<noteq> 0" "4096 dvd unat b" "unat b + 4096 \<le> 2 ^ 64"
proof -
  obtain k where k: "k < max_frames (pm st)" "unat b = unat h + 4096 * k"
    using assms(2) by (auto simp: table_at_def used_def)
  have h: "0 < unat h" "unat h + 4096 * max_frames (pm st) \<le> 2 ^ 64" "4096 dvd unat h"
    using assms(1) by (auto simp: vmm_ok_def pmm_inv_def pmm_ok_def)
  show "b \<noteq> 0" using k h by auto
  show "4096 dvd unat b" using k h by simp
  have "4096 * Suc k \<le> 4096 * max_frames (pm st)" using k(1) by simp
  then show "unat b + 4096 \<le> 2 ^ 64" using k(2) h(2) by simp
qed

lemma slot_unat:
  assumes "vmm_ok h st" "table_at h st b" "unat i < 512"
  shows "unat (b + 8 * i) = unat b + 8 * unat i"
proof -
  have "unat (8 * i) = 8 * unat i" using assms(3) unat_mult_small [of 8 i] by simp
  then show ?thesis
    using unat_add_small [of b "8 * i"] table_at_bounds(3) [OF assms(1,2)] assms(3) by simp
qed

lemma slot_inj:
  assumes "vmm_ok h st" "table_at h st b" "table_at h st c" "unat i < 512" "unat j < 512"
    and eq: "b + 8 * i = c + 8 * j"
  shows "b = c \<and> i = j"
proof -
  have u: "unat b + 8 * unat i = unat c + 8 * unat j"
    using slot_unat [OF assms(1,2,4)] slot_unat [OF assms(1,3,5)] eq by simp
  obtain x where x: "unat b = 4096 * x" using table_at_bounds(2) [OF assms(1,2)] by (rule dvdE)
  obtain y where y: "unat c = 4096 * y" using table_at_bounds(2) [OF assms(1,3)] by (rule dvdE)
  note xy = x y
  have "x = y" using u xy assms(4,5) by (cases x y rule: linorder_cases) linarith+
  then have "unat b = unat c" "unat i = unat j" using u xy by simp_all
  then show ?thesis by (simp add: word_unat_eq_iff)
qed

text \<open>A table that \<open>palloc\<close> just returned does not overlap one that was in use.\<close>

lemma slot_outside:
  assumes "vmm_ok h st" "table_at h st b" "unat i < 512"
    and p: "unat p = unat h + 4096 * k" "k < max_frames (pm st)" "k \<notin> used (pm st)"
  shows "\<not> b + 8 * i - p < PAGE_SIZE"
proof
  assume lt: "b + 8 * i - p < PAGE_SIZE"
  obtain kb where kb: "kb \<in> used (pm st)" "unat b = unat h + 4096 * kb" using assms(2) by (auto simp: table_at_def)
  define d where "d = unat (b + 8 * i - p)"
  have d: "d < 4096" using lt by (simp add: d_def word_less_nat_alt PAGE_SIZE_def)
  have win: "unat h + 4096 * max_frames (pm st) \<le> 2 ^ 64"
    using assms(1) by (auto simp: vmm_ok_def pmm_inv_def pmm_ok_def)
  have "4096 * k + 4096 \<le> 4096 * max_frames (pm st)" using p(2) by linarith
  then have "unat p + d < 2 ^ 64" using p(1) win d by linarith
  then have "unat (p + (b + 8 * i - p)) = unat p + d"
    using unat_add_small [of p "b + 8 * i - p"] by (simp add: d_def)
  then have "unat b + 8 * unat i = unat p + d" using slot_unat [OF assms(1-3)] by simp
  then have "4096 * kb + 8 * unat i = 4096 * k + d" using kb(2) p(1) by simp
  then have "kb = k" using d assms(3) by (cases kb k rule: linorder_cases) linarith+
  with kb(1) p(3) show False by simp
qed

text \<open>Encoding and decoding of an entry that points to a table.\<close>

lemma phys_mask: "PML_PHYSICAL_ADDRESS = mask 48 AND NOT (mask 12)"
  by (simp add: PML_PHYSICAL_ADDRESS_def mask_eq_exp_minus_1)

lemma entry_roundtrip:
  assumes "k < 2 ^ 36"
  shows "((of_nat (4096 * k) :: u64) OR (PML_PRESENT OR PML_WRITE OR PML_USER)) AND PML_PHYSICAL_ADDRESS
      = of_nat (4096 * k)"
    and "((of_nat (4096 * k) :: u64) OR (PML_PRESENT OR PML_WRITE OR PML_USER)) AND PML_PRESENT \<noteq> 0"
proof -
  let ?x = "of_nat (4096 * k) :: u64"
  have x: "?x = push_bit 12 (of_nat k)" by (simp add: push_bit_eq_mult)
  have kb: "m < 36" if "bit k m" for m
    using that assms by (metis bit_take_bit_iff take_bit_nat_eq_self)
  have bx: "bit ?x n \<longleftrightarrow> 12 \<le> n \<and> n < 64 \<and> bit k (n - 12)" for n
    unfolding x by (auto simp: bit_simps)
  have f: "PML_PRESENT OR PML_WRITE OR PML_USER = mask 3"
    by (simp add: PML_PRESENT_def PML_WRITE_def PML_USER_def mask_eq_exp_minus_1)
  show "(?x OR (PML_PRESENT OR PML_WRITE OR PML_USER)) AND PML_PHYSICAL_ADDRESS = ?x"
  proof (rule bit_word_eqI)
    fix n assume "n < LENGTH(64)"
    have "n < 48" if "bit k (n - 12)" using kb [OF that] by simp
    then show "bit ((?x OR (PML_PRESENT OR PML_WRITE OR PML_USER)) AND PML_PHYSICAL_ADDRESS) n = bit ?x n"
      unfolding f phys_mask by (simp only: bit_and_iff bit_or_iff bit_not_iff bit_mask_iff bx) auto
  qed
  have "bit ((?x OR (PML_PRESENT OR PML_WRITE OR PML_USER)) AND PML_PRESENT) 0"
    unfolding f by (simp only: bit_and_iff bit_or_iff bit_mask_iff) (simp add: PML_PRESENT_def)
  then show "(?x OR (PML_PRESENT OR PML_WRITE OR PML_USER)) AND PML_PRESENT \<noteq> 0" by (metis bit_0_eq bot_apply bot_bool_def)
qed

section \<open>Paths through the tables\<close>

text \<open>
  The walk over any number of levels, and its construction: \<open>map_page\<close> builds the path of its
  first three indices and stores the last entry.
\<close>

fun walk_tables :: "u64 \<Rightarrow> u64 \<Rightarrow> u64 list \<Rightarrow> vmm \<Rightarrow> u64 option" where
  "walk_tables h b [] st = Some b"
| "walk_tables h b (i # ix) st =
     (let e = mem st (b + 8 * i)
      in if e AND PML_PRESENT \<noteq> 0 then walk_tables h ((e AND PML_PHYSICAL_ADDRESS) + h) ix st else None)"

fun build_tables :: "u64 \<Rightarrow> u64 \<Rightarrow> u64 list \<Rightarrow> vmm \<Rightarrow> (u64 \<times> vmm) option" where
  "build_tables h b [] st = Some (b, st)"
| "build_tables h b (i # ix) st = do { (b, st) \<leftarrow> next_map h b i st; build_tables h b ix st }"

definition upper :: "u64 \<Rightarrow> u64 list" where "upper v = [pml4e v, pdpte v, pde v]"

text \<open>The translation of an address: the last entry, when all four levels are present.\<close>

definition translate :: "u64 \<Rightarrow> u64 \<Rightarrow> u64 \<Rightarrow> vmm \<Rightarrow> u64 option" where
  "translate h root v st = (case page_walk h root v st of
     None \<Rightarrow> None | Some e \<Rightarrow> if e AND PML_PRESENT \<noteq> 0 then Some e else None)"

lemma page_walk_tables:
  "page_walk h root v st = map_option (\<lambda>t. mem st (t + 8 * pte v)) (walk_tables h root (upper v) st)"
  by (simp add: page_walk_def upper_def Let_def)

lemma map_page_tables:
  "map_page h root v p f st = do {
     (t, st) \<leftarrow> build_tables h root (upper v) st; entry_set t (pte v) (p OR f) st }"
  by (simp add: map_page_def upper_def split_def)

lemma index_bound: "unat (drop_bit n v AND 0x1ff :: u64) < 512"
proof -
  have "drop_bit n v AND 0x1ff = take_bit 9 (drop_bit n v)" by (simp add: take_bit_eq_mask mask_eq_exp_minus_1)
  then have "unat (drop_bit n v AND 0x1ff) = take_bit 9 (unat (drop_bit n v))" by (simp add: unsigned_take_bit_eq)
  also have "\<dots> < 512" using take_bit_nat_less_exp [of 9] by simp
  finally show ?thesis .
qed

lemma indices_bound [simp]: "unat (pte v) < 512" "i \<in> set (upper v) \<Longrightarrow> unat i < 512"
  by (auto simp: pte_def upper_def pml4e_def pdpte_def pde_def index_bound)

section \<open>The tree of tables\<close>

definition present :: "vmm \<Rightarrow> u64 \<Rightarrow> u64 \<Rightarrow> bool" where
  "present st b i \<longleftrightarrow> mem st (b + 8 * i) AND PML_PRESENT \<noteq> 0"

definition child :: "u64 \<Rightarrow> vmm \<Rightarrow> u64 \<Rightarrow> u64 \<Rightarrow> u64" where
  "child h st b i = (mem st (b + 8 * i) AND PML_PHYSICAL_ADDRESS) + h"

text \<open>
  The invariant: \<open>lv\<close> gives the tables their level. Every table is a frame in use, a present entry
  of a table of level \<open>n + 1\<close> names one of level \<open>n\<close>, and no two entries name the same table.
\<close>

definition tree :: "u64 \<Rightarrow> (u64 \<rightharpoonup> nat) \<Rightarrow> vmm \<Rightarrow> bool" where
  "tree h lv st \<longleftrightarrow> vmm_ok h st \<and> (\<forall>b\<in>dom lv. table_at h st b) \<and>
     (\<forall>b n i. lv b = Some (Suc n) \<longrightarrow> unat i < 512 \<longrightarrow> present st b i \<longrightarrow> lv (child h st b i) = Some n) \<and>
     (\<forall>b c n m i j. lv b = Some (Suc n) \<longrightarrow> lv c = Some (Suc m) \<longrightarrow> unat i < 512 \<longrightarrow> unat j < 512 \<longrightarrow>
        present st b i \<longrightarrow> present st c j \<longrightarrow> child h st b i = child h st c j \<longrightarrow> b = c \<and> i = j)"

fun leaf :: "u64 \<Rightarrow> u64 \<Rightarrow> u64 list \<Rightarrow> vmm \<Rightarrow> u64 option" where
  "leaf h b [] st = None"
| "leaf h b (i # ix) st =
     (if present st b i
      then if ix = [] then Some (mem st (b + 8 * i)) else leaf h (child h st b i) ix st
      else None)"

definition free_frames :: "vmm \<Rightarrow> nat set" where
  "free_frames st = {k. k + 1 < max_frames (pm st)} - used (pm st)"

lemma treeD:
  assumes "tree h lv st"
  shows "vmm_ok h st" "lv b = Some n \<Longrightarrow> table_at h st b"
    "lv b = Some (Suc n) \<Longrightarrow> unat i < 512 \<Longrightarrow> present st b i \<Longrightarrow> lv (child h st b i) = Some n"
    "lv b = Some (Suc n) \<Longrightarrow> lv c = Some (Suc m) \<Longrightarrow> unat i < 512 \<Longrightarrow> unat j < 512 \<Longrightarrow>
       present st b i \<Longrightarrow> present st c j \<Longrightarrow> child h st b i = child h st c j \<Longrightarrow> b = c \<and> i = j"
  using assms unfolding tree_def by blast+

lemma walk_tables_Cons:
  "walk_tables h b (i # ix) st = (if present st b i then walk_tables h (child h st b i) ix st else None)"
  by (simp add: present_def child_def Let_def)

lemma leaf_walk:
  "leaf h b (ix @ [i]) st = (case walk_tables h b ix st of None \<Rightarrow> None
     | Some t \<Rightarrow> if present st t i then Some (mem st (t + 8 * i)) else None)"
  by (induction ix arbitrary: b) (simp_all add: walk_tables_Cons del: walk_tables.simps(2))

lemma translate_leaf: "translate h root v st = leaf h root (upper v @ [pte v]) st"
  unfolding translate_def page_walk_tables leaf_walk by (simp add: present_def split: option.split)

text \<open>Two paths of the same length that meet in a table are the same path.\<close>

lemma walk_tables_inj:
  assumes "tree h lv st"
  shows "walk_tables h b ix st = Some t \<Longrightarrow> walk_tables h c jx st = Some t \<Longrightarrow> length ix = length jx \<Longrightarrow>
    lv b = Some (length ix + n) \<Longrightarrow> lv c = Some (length jx + n) \<Longrightarrow>
    (\<forall>i\<in>set ix. unat i < 512) \<Longrightarrow> (\<forall>j\<in>set jx. unat j < 512) \<Longrightarrow> b = c \<and> ix = jx"
proof (induction ix arbitrary: b c jx)
  case Nil
  then show ?case by simp
next
  case (Cons i ix)
  then obtain j jx' where jx: "jx = j # jx'" by (cases jx) auto
  have p: "present st b i" "walk_tables h (child h st b i) ix st = Some t"
    "present st c j" "walk_tables h (child h st c j) jx' st = Some t"
    using Cons.prems(1,2) unfolding jx walk_tables_Cons by (auto split: if_splits)
  have l: "lv b = Some (Suc (length ix + n))" "lv c = Some (Suc (length jx' + n))" "unat i < 512" "unat j < 512"
    using Cons.prems jx by simp_all
  have "child h st b i = child h st c j \<and> ix = jx'"
    using Cons.prems(3,6,7) jx
    by (intro Cons.IH p(2,4) treeD(3) [OF assms l(1,3) p(1)] treeD(3) [OF assms l(2,4) p(3)]) simp_all
  then show ?case using treeD(4) [OF assms l(1,2,3,4) p(1,3)] jx by simp
qed

lemma walk_tables_level:
  assumes "tree h lv st"
  shows "walk_tables h b ix st = Some t \<Longrightarrow> lv b = Some (length ix + n) \<Longrightarrow> (\<forall>i\<in>set ix. unat i < 512) \<Longrightarrow>
    lv t = Some n"
proof (induction ix arbitrary: b)
  case (Cons i ix)
  have l: "lv b = Some (Suc (length ix + n))" "unat i < 512" using Cons.prems by simp_all
  from Cons.prems(1) have "present st b i" "walk_tables h (child h st b i) ix st = Some t"
    unfolding walk_tables_Cons by (auto split: if_splits)
  then show ?case using Cons.IH [of "child h st b i"] treeD(3) [OF assms l] Cons.prems(3) by simp
qed simp

section \<open>Growing the tree\<close>

lemma next_map_present:
  assumes "tree h lv st" "lv b = Some n" "present st b i"
  shows "next_map h b i st = Some (child h st b i, st)"
  using assms(3) table_at_bounds(1) [OF treeD(1) [OF assms(1)] treeD(2) [OF assms(1,2)]]
  by (simp add: next_map_def get_next_page_map_def entry_get_def present_def child_def)

definition new_entry :: "nat \<Rightarrow> u64" where
  "new_entry k = of_nat (4096 * k) OR (PML_PRESENT OR PML_WRITE OR PML_USER)"

lemma next_map_absent:
  assumes tr: "tree h lv st" and b: "lv b = Some n" and absent: "\<not> present st b i" and fr: "free_frames st \<noteq> {}"
  shows "\<exists>k p st'. next_map h b i st = Some (p, st') \<and> k \<in> free_frames st \<and> p = h + of_nat (4096 * k) \<and>
    unat p = unat h + 4096 * k \<and> vmm_ok h st' \<and> max_frames (pm st') = max_frames (pm st) \<and>
    used (pm st') = insert k (used (pm st)) \<and>
    mem st' = (\<lambda>a. if a = b + 8 * i then new_entry k else if a - p < PAGE_SIZE then 0 else mem st a)"
proof -
  have ok: "pmm_inv h (pm st)" "vmm_ok h st" using treeD(1) [OF tr] by (auto simp: vmm_ok_def)
  then have pok: "pmm_ok h (pm st)" by (simp add: pmm_inv_def)
  obtain k0 where "k0 + 1 < max_frames (pm st)" "k0 \<notin> used (pm st)" using fr by (auto simp: free_frames_def)
  then have "palloc_choice (pm st) 1 \<noteq> None"
    unfolding palloc_choice_None by (auto simp: used_def run_free_def)
  then obtain k where k: "palloc_choice (pm st) 1 = Some k" by auto
  let ?p = "frame_ptr h (Some k)"
  obtain m where m: "palloc h 1 (pm st) = Some (?p, m)" "pmm_inv h m" "max_frames m = max_frames (pm st)"
      "used m = used (pm st) \<union> {k..<k + 1}" "{k..<k + 1} \<inter> used (pm st) = {}"
    using palloc_used [OF ok(1), of 1] k by auto
  have p: "unat ?p = unat h + 4096 * k" by (rule frame_ptr_choice(2) [OF pok k])
  have pe: "?p = h + of_nat (4096 * k)"
  proof -
    have "of_nat (unat ?p) = (of_nat (unat h + 4096 * k) :: u64)" using p by simp
    then show ?thesis by (simp only: of_nat_add) simp
  qed
  have p0: "?p \<noteq> 0" using frame_ptr_choice(1) [OF pok, of 1] k by auto
  have b0: "b \<noteq> 0" using table_at_bounds(1) [OF ok(2) treeD(2) [OF tr b]] .
  let ?st = "st\<lparr>pm := m, frames_allocated := frames_allocated st + 1,
    mem := (\<lambda>a. if a = b + 8 * i then new_entry k else if a - ?p < PAGE_SIZE then 0 else mem st a)\<rparr>"
  have "next_map h b i st = Some (?p, ?st)"
    using absent b0 m(1) p0
    by (simp add: next_map_def get_next_page_map_def entry_get_def present_def allocate_map_def entry_set_def
        zero_page_def pe new_entry_def fun_eq_iff Let_def fun_upd_def)
  moreover have "k \<in> free_frames st"
    using palloc_choice_Some [OF k] m(5) by (auto simp: free_frames_def)
  moreover have "vmm_ok h ?st" using ok(2) m(2,3) by (simp add: vmm_ok_def)
  ultimately show ?thesis using p pe m(3,4) by (intro exI [of _ k] exI [of _ ?p] exI [of _ ?st]) simp
qed

text \<open>What a step of the construction keeps, from any table on.\<close>

definition grows :: "u64 \<Rightarrow> (u64 \<rightharpoonup> nat) \<Rightarrow> vmm \<Rightarrow> (u64 \<rightharpoonup> nat) \<Rightarrow> vmm \<Rightarrow> bool" where
  "grows h lv st lv' st' \<longleftrightarrow> tree h lv' st' \<and> lv \<subseteq>\<^sub>m lv' \<and>
     (\<forall>c n j. lv c = Some n \<longrightarrow> unat j < 512 \<longrightarrow> present st c j \<longrightarrow> mem st' (c + 8 * j) = mem st (c + 8 * j)) \<and>
     (\<forall>c n js. lv c = Some n \<longrightarrow> length js = Suc n \<longrightarrow> (\<forall>j\<in>set js. unat j < 512) \<longrightarrow>
        leaf h c js st' = leaf h c js st)"

lemma growsD:
  assumes "grows h lv st lv' st'"
  shows "tree h lv' st'" "lv c = Some n \<Longrightarrow> lv' c = Some n"
    "lv c = Some n \<Longrightarrow> unat j < 512 \<Longrightarrow> present st c j \<Longrightarrow> mem st' (c + 8 * j) = mem st (c + 8 * j)"
    "lv c = Some n \<Longrightarrow> length js = Suc n \<Longrightarrow> (\<forall>j\<in>set js. unat j < 512) \<Longrightarrow> leaf h c js st' = leaf h c js st"
  using assms unfolding grows_def by (blast, metis domI map_le_def, blast, blast)

lemma grows_refl: "tree h lv st \<Longrightarrow> grows h lv st lv st"
  by (simp add: grows_def)

lemma grows_present:
  assumes "grows h lv st lv' st'" "lv c = Some n" "unat j < 512" "present st c j"
  shows "present st' c j" "child h st' c j = child h st c j"
  using growsD(3) [OF assms] assms(4) by (simp_all add: present_def child_def)

lemma grows_trans:
  assumes a: "grows h lv st lv1 st1" and b: "grows h lv1 st1 lv2 st2"
  shows "grows h lv st lv2 st2"
  unfolding grows_def
proof (intro conjI allI impI)
  show "tree h lv2 st2" by (rule growsD(1) [OF b])
  show "lv \<subseteq>\<^sub>m lv2" using a b by (auto simp: grows_def intro: map_le_trans)
next
  fix c n j assume c: "lv c = Some n" "unat j < 512" "present st c j"
  show "mem st2 (c + 8 * j) = mem st (c + 8 * j)"
    using growsD(3) [OF a c] growsD(3) [OF b growsD(2) [OF a c(1)] c(2) grows_present(1) [OF a c]] by simp
next
  fix c n and js :: "u64 list"
  assume c: "lv c = Some n" "length js = Suc n" "\<forall>j\<in>set js. unat j < 512"
  show "leaf h c js st2 = leaf h c js st"
    using growsD(4) [OF a c] growsD(4) [OF b growsD(2) [OF a c(1)] c(2,3)] by simp
qed

text \<open>The memory after a table was added: only the entry that names it and its own frame changed.\<close>

lemma new_table_slots:
  assumes tr: "tree h lv st" and b: "lv b = Some n" "unat i < 512"
    and p: "unat p = unat h + 4096 * k" "k \<in> free_frames st"
    and m: "mem st' = (\<lambda>a. if a = b + 8 * i then e else if a - p < PAGE_SIZE then 0 else mem st a)"
  shows "lv p = None"
    and "lv c = Some m \<Longrightarrow> unat j < 512 \<Longrightarrow>
      mem st' (c + 8 * j) = (if c = b \<and> j = i then e else mem st (c + 8 * j))"
    and "unat j < 512 \<Longrightarrow> mem st' (p + 8 * j) = 0"
proof -
  note ok = treeD(1) [OF tr]
  have k: "k < max_frames (pm st)" "k \<notin> used (pm st)" using p(2) by (auto simp: free_frames_def)
  show "lv p = None"
  proof (rule ccontr)
    assume "lv p \<noteq> None"
    then obtain k' where "k' \<in> used (pm st)" "unat p = unat h + 4096 * k'"
      using treeD(2) [OF tr] by (auto simp: table_at_def)
    with p(1) k(2) show False by simp
  qed
  show "mem st' (c + 8 * j) = (if c = b \<and> j = i then e else mem st (c + 8 * j))"
    if c: "lv c = Some m" "unat j < 512"
  proof -
    have "c = b \<and> j = i" if "c + 8 * j = b + 8 * i"
      using slot_inj [OF ok treeD(2) [OF tr c(1)] treeD(2) [OF tr b(1)] c(2) b(2) that] .
    then show ?thesis
      using slot_outside [OF ok treeD(2) [OF tr c(1)] c(2) p(1) k] by (auto simp: m)
  qed
  show "mem st' (p + 8 * j) = 0" if j: "unat j < 512"
  proof -
    have "unat (8 * j) = 8 * unat j" using j unat_mult_small [of 8 j] by simp
    then have in_page: "p + 8 * j - p < PAGE_SIZE" using j by (simp add: word_less_nat_alt PAGE_SIZE_def)
    moreover have "p + 8 * j \<noteq> b + 8 * i"
      using slot_outside [OF ok treeD(2) [OF tr b(1)] b(2) p(1) k] in_page by metis
    ultimately show ?thesis by (simp add: m)
  qed
qed

lemma new_entry_decodes:
  assumes "k < 2 ^ 36" "p = h + of_nat (4096 * k)"
  shows "new_entry k AND PML_PRESENT \<noteq> 0" "(new_entry k AND PML_PHYSICAL_ADDRESS) + h = p"
  using entry_roundtrip [OF assms(1)] assms(2) by (simp_all add: new_entry_def add.commute)

text \<open>A state in which the absent entry \<open>i\<close> of \<open>b\<close> was made to name the empty table \<open>p\<close>.\<close>

definition adds_table ::
    "u64 \<Rightarrow> (u64 \<rightharpoonup> nat) \<Rightarrow> vmm \<Rightarrow> u64 \<Rightarrow> u64 \<Rightarrow> u64 \<Rightarrow> vmm \<Rightarrow> bool" where
  "adds_table h lv st b i p st' \<longleftrightarrow> tree h lv st \<and> \<not> present st b i \<and> lv p = None \<and>
     (\<forall>j. unat j < 512 \<longrightarrow> \<not> present st' p j) \<and> present st' b i \<and> child h st' b i = p \<and>
     (\<forall>c m j. lv c = Some m \<longrightarrow> unat j < 512 \<longrightarrow> \<not> (c = b \<and> j = i) \<longrightarrow>
        mem st' (c + 8 * j) = mem st (c + 8 * j))"

lemma adds_tableD:
  assumes "adds_table h lv st b i p st'"
  shows "tree h lv st" "\<not> present st b i" "lv p = None" "unat j < 512 \<Longrightarrow> \<not> present st' p j"
    "present st' b i" "child h st' b i = p"
    "lv c = Some m \<Longrightarrow> unat j < 512 \<Longrightarrow> \<not> (c = b \<and> j = i) \<Longrightarrow> mem st' (c + 8 * j) = mem st (c + 8 * j)"
    "lv c = Some m \<Longrightarrow> unat j < 512 \<Longrightarrow> \<not> (c = b \<and> j = i) \<Longrightarrow> present st' c j = present st c j"
    "lv c = Some m \<Longrightarrow> unat j < 512 \<Longrightarrow> \<not> (c = b \<and> j = i) \<Longrightarrow> child h st' c j = child h st c j"
proof -
  show s: "lv c = Some m \<Longrightarrow> unat j < 512 \<Longrightarrow> \<not> (c = b \<and> j = i) \<Longrightarrow> mem st' (c + 8 * j) = mem st (c + 8 * j)"
    using assms unfolding adds_table_def by blast
  show "lv c = Some m \<Longrightarrow> unat j < 512 \<Longrightarrow> \<not> (c = b \<and> j = i) \<Longrightarrow> present st' c j = present st c j"
    "lv c = Some m \<Longrightarrow> unat j < 512 \<Longrightarrow> \<not> (c = b \<and> j = i) \<Longrightarrow> child h st' c j = child h st c j"
    using s by (simp_all add: present_def child_def)
qed (use assms in \<open>auto simp: adds_table_def\<close>)

lemma adds_table_entry:
  assumes a: "adds_table h lv st b i p st'" and b: "lv b = Some (Suc n)"
    and c: "(lv(p \<mapsto> n)) c = Some (Suc m)" and j: "unat j < 512" and pr: "present st' c j"
  shows "lv c = Some (Suc m)" "(lv(p \<mapsto> n)) (child h st' c j) = Some m"
    "child h st' c j = p \<longleftrightarrow> c = b \<and> j = i"
    "\<not> (c = b \<and> j = i) \<Longrightarrow> present st c j \<and> child h st' c j = child h st c j"
proof -
  have "c \<noteq> p" using adds_tableD(4) [OF a j] pr by auto
  then show lc: "lv c = Some (Suc m)" using c by simp
  show o: "present st c j \<and> child h st' c j = child h st c j" if "\<not> (c = b \<and> j = i)"
    using adds_tableD(8,9) [OF a lc j that] pr by simp
  have q: "lv (child h st' c j) = Some m" if "\<not> (c = b \<and> j = i)"
    using o [OF that] treeD(3) [OF adds_tableD(1) [OF a] lc j] by simp
  then show "(lv(p \<mapsto> n)) (child h st' c j) = Some m"
    using adds_tableD(3,6) [OF a] lc b by (cases "c = b \<and> j = i") auto
  show "child h st' c j = p \<longleftrightarrow> c = b \<and> j = i" using q adds_tableD(3,6) [OF a] by (metis option.distinct(1))
qed

lemma adds_table_tree:
  assumes a: "adds_table h lv st b i p st'" and b: "lv b = Some (Suc n)"
    and ok: "vmm_ok h st'" "table_at h st' p" "\<And>c. table_at h st c \<Longrightarrow> table_at h st' c"
  shows "tree h (lv(p \<mapsto> n)) st'"
  unfolding tree_def
proof (intro conjI ballI allI impI)
  show "vmm_ok h st'" by (rule ok(1))
  fix c assume "c \<in> dom (lv(p \<mapsto> n))"
  then show "table_at h st' c"
    using ok(2,3) treeD(2) [OF adds_tableD(1) [OF a]] by (auto split: if_splits)
next
  fix c m j assume "(lv(p \<mapsto> n)) c = Some (Suc m)" "unat j < 512" "present st' c j"
  then show "(lv(p \<mapsto> n)) (child h st' c j) = Some m" by (rule adds_table_entry(2) [OF a b])
next
  fix c d m l j j'
  assume c: "(lv(p \<mapsto> n)) c = Some (Suc m)" "(lv(p \<mapsto> n)) d = Some (Suc l)" "unat j < 512" "unat j' < 512"
    "present st' c j" "present st' d j'" and eq: "child h st' c j = child h st' d j'"
  note ec = adds_table_entry [OF a b c(1,3,5)] and ed = adds_table_entry [OF a b c(2,4,6)]
  show "c = d" "j = j'"
    using ec(3,4) ed(3,4) eq treeD(4) [OF adds_tableD(1) [OF a] ec(1) ed(1) c(3,4)] by (metis, metis)
qed

lemma adds_table_leaf:
  assumes a: "adds_table h lv st b i p st'" and b: "lv b = Some (Suc n)"
  shows "lv c = Some m \<Longrightarrow> length js = Suc m \<Longrightarrow> (\<forall>j\<in>set js. unat j < 512) \<Longrightarrow>
    leaf h c js st' = leaf h c js st"
proof (induction js arbitrary: c m)
  case (Cons j js)
  then have j: "unat j < 512" by simp
  show ?case
  proof (cases "c = b \<and> j = i")
    case True
    then obtain x xs where js: "js = x # xs" using Cons.prems(1,2) b by (cases js) auto
    then have "\<not> present st' p x" using Cons.prems(3) adds_tableD(4) [OF a] by simp
    then show ?thesis using True adds_tableD(2,5,6) [OF a] js by simp
  next
    case False
    note o = adds_tableD(7,8,9) [OF a Cons.prems(1) j False]
    have "leaf h (child h st c j) js st' = leaf h (child h st c j) js st" if "present st c j" "js \<noteq> []"
    proof -
      obtain l where "m = Suc l" using Cons.prems(2) \<open>js \<noteq> []\<close> by (cases m) auto
      then show ?thesis
        using Cons.IH [of "child h st c j" l] treeD(3) [OF adds_tableD(1) [OF a] _ j that(1), of l] Cons.prems
        by simp
    qed
    then show ?thesis using o by simp
  qed
qed simp

lemma adds_table_grows:
  assumes a: "adds_table h lv st b i p st'" and b: "lv b = Some (Suc n)" and tr: "tree h (lv(p \<mapsto> n)) st'"
  shows "grows h lv st (lv(p \<mapsto> n)) st'"
  unfolding grows_def
proof (intro conjI allI impI)
  show "tree h (lv(p \<mapsto> n)) st'" by (rule tr)
  show "lv \<subseteq>\<^sub>m lv(p \<mapsto> n)" using adds_tableD(3) [OF a] by (auto simp: map_le_def)
  show "mem st' (c + 8 * j) = mem st (c + 8 * j)"
    if "lv c = Some m" "unat j < 512" "present st c j" for c m j
    using adds_tableD(2,7) [OF a] that by metis
  show "leaf h c js st' = leaf h c js st"
    if "lv c = Some m" "length js = Suc m" "\<forall>j\<in>set js. unat j < 512" for c m js
    by (rule adds_table_leaf [OF a b that])
qed

lemma next_map_grows:
  assumes tr: "tree h lv st" and b: "lv b = Some (Suc n)" "unat i < 512"
    and fr: "present st b i \<or> free_frames st \<noteq> {}"
  shows "\<exists>c st' lv'. next_map h b i st = Some (c, st') \<and> grows h lv st lv' st' \<and> lv' c = Some n \<and>
    present st' b i \<and> child h st' b i = c \<and> (\<exists>k. free_frames st - {k} \<subseteq> free_frames st')"
proof (cases "present st b i")
  case True
  then show ?thesis
    using next_map_present [OF tr b(1)] grows_refl [OF tr] treeD(3) [OF tr b] by auto
next
  case False
  with fr have fr: "free_frames st \<noteq> {}" by simp
  obtain k p st' where s: "next_map h b i st = Some (p, st')" "k \<in> free_frames st" "p = h + of_nat (4096 * k)"
      "unat p = unat h + 4096 * k" "vmm_ok h st'" "max_frames (pm st') = max_frames (pm st)"
      "used (pm st') = insert k (used (pm st))"
    and m: "mem st' = (\<lambda>a. if a = b + 8 * i then new_entry k else if a - p < PAGE_SIZE then 0 else mem st a)"
    using next_map_absent [OF tr b(1) False fr] by (elim exE conjE) (rule that)
  have "k < 2 ^ 36" using s(2) treeD(1) [OF tr] by (auto simp: free_frames_def vmm_ok_def)
  note dec = new_entry_decodes [OF this s(3)]
  note sl = new_table_slots [OF tr b s(4,2) m]
  have a: "adds_table h lv st b i p st'"
    unfolding adds_table_def using tr False sl dec sl(2) [OF b]
    by (auto simp: present_def child_def split: if_splits)
  have "tree h (lv(p \<mapsto> n)) st'"
    using s(4,5,7) by (intro adds_table_tree [OF a b(1)]) (auto simp: table_at_def)
  then have "grows h lv st (lv(p \<mapsto> n)) st'" by (rule adds_table_grows [OF a b(1)])
  moreover have "free_frames st - {k} \<subseteq> free_frames st'" using s(6,7) by (auto simp: free_frames_def)
  ultimately show ?thesis
    using s(1) adds_tableD(5,6) [OF a] by (intro exI [of _ p] exI [of _ st'] exI [of _ "lv(p \<mapsto> n)"]) auto
qed

lemma finite_free_frames: "finite (free_frames st)"
  by (rule finite_subset [of _ "{..<max_frames (pm st)}"]) (auto simp: free_frames_def)

lemma build_tables_grows:
  "tree h lv st \<Longrightarrow> lv b = Some (length ix) \<Longrightarrow> (\<forall>i\<in>set ix. unat i < 512) \<Longrightarrow>
    length ix \<le> card (free_frames st) \<Longrightarrow>
    \<exists>t st' lv'. build_tables h b ix st = Some (t, st') \<and> grows h lv st lv' st' \<and>
      walk_tables h b ix st' = Some t \<and> card (free_frames st) \<le> card (free_frames st') + length ix"
proof (induction ix arbitrary: b lv st)
  case Nil
  then show ?case using grows_refl by auto
next
  case (Cons i ix)
  have b: "lv b = Some (Suc (length ix))" "unat i < 512" "free_frames st \<noteq> {}" using Cons.prems by auto
  obtain c s1 lv1 k where s1: "next_map h b i st = Some (c, s1)" "grows h lv st lv1 s1"
      "lv1 c = Some (length ix)" "present s1 b i" "child h s1 b i = c" "free_frames st - {k} \<subseteq> free_frames s1"
    using next_map_grows [OF Cons.prems(1) b(1,2)] b(3) by blast
  have "card (free_frames st) - 1 \<le> card (free_frames st - {k})" by (simp add: card_Diff_singleton_if)
  also have "\<dots> \<le> card (free_frames s1)" by (rule card_mono [OF finite_free_frames s1(6)])
  finally have card: "card (free_frames st) \<le> card (free_frames s1) + 1" by simp
  obtain t s2 lv2 where s2: "build_tables h c ix s1 = Some (t, s2)" "grows h lv1 s1 lv2 s2"
      "walk_tables h c ix s2 = Some t" "card (free_frames s1) \<le> card (free_frames s2) + length ix"
    using Cons.IH [OF growsD(1) [OF s1(2)] s1(3)] Cons.prems(3,4) card by auto
  have pb: "present s2 b i" "child h s2 b i = c"
    using grows_present [OF s2(2) growsD(2) [OF s1(2) b(1)] b(2) s1(4)] s1(5) by simp_all
  show ?case
    using s1(1) s2(1,3,4) grows_trans [OF s1(2) s2(2)] card pb
    by (intro exI [of _ t] exI [of _ s2] exI [of _ lv2]) (simp add: walk_tables_Cons del: walk_tables.simps(2))
qed

text \<open>Storing the last entry of a path changes that path only.\<close>

lemma leaf_set:
  assumes tr: "tree h lv st" and root: "lv root = Some (length ix)" "\<forall>i\<in>set ix. unat i < 512"
    and t: "walk_tables h root ix st = Some t" "unat i < 512"
    and st': "st' = st\<lparr>mem := (mem st)(t + 8 * i := v)\<rparr>"
  shows "tree h lv st'"
    and "length jx = length ix \<Longrightarrow> \<forall>j\<in>set jx. unat j < 512 \<Longrightarrow> unat j < 512 \<Longrightarrow>
      leaf h root (jx @ [j]) st' = (if jx = ix \<and> j = i then if v AND PML_PRESENT \<noteq> 0 then Some v else None
        else leaf h root (jx @ [j]) st)"
proof -
  have lt: "lv t = Some 0" using walk_tables_level [OF tr t(1), of 0] root by simp
  note inj = slot_inj [OF treeD(1) [OF tr] treeD(2) [OF tr] treeD(2) [OF tr lt] _ t(2)]
  have m: "mem st' (c + 8 * j) = (if c = t \<and> j = i then v else mem st (c + 8 * j))"
    if "lv c = Some n" "unat j < 512" for c n j
    using inj [OF that] by (auto simp: st')
  have upper: "present st' c j = present st c j" "child h st' c j = child h st c j"
    if "lv c = Some (Suc n)" "unat j < 512" for c n j
    using m [OF that] lt that(1) by (auto simp: present_def child_def)
  have ok: "vmm_ok h st' = vmm_ok h st" "table_at h st' = table_at h st"
    by (simp_all add: st' vmm_ok_def table_at_def fun_eq_iff)
  show tree': "tree h lv st'"
    unfolding tree_def ok
  proof (intro conjI ballI allI impI)
    show "vmm_ok h st" by (rule treeD(1) [OF tr])
    show "table_at h st c" if "c \<in> dom lv" for c using treeD(2) [OF tr] that by auto
    show "lv (child h st' c j) = Some n" if "lv c = Some (Suc n)" "unat j < 512" "present st' c j" for c n j
      using treeD(3) [OF tr that(1,2)] upper [OF that(1,2)] that(3) by simp
    show "c = d" "j = j'" if "lv c = Some (Suc n)" "lv d = Some (Suc n')" "unat j < 512" "unat j' < 512"
        "present st' c j" "present st' d j'" "child h st' c j = child h st' d j'" for c d n n' j j'
      using treeD(4) [OF tr that(1-4)] upper [OF that(1,3)] upper [OF that(2,4)] that(5-7) by simp_all
  qed
  have walk: "lv c = Some (length jx) \<Longrightarrow> \<forall>j\<in>set jx. unat j < 512 \<Longrightarrow>
      walk_tables h c jx st' = walk_tables h c jx st" for c jx
  proof (induction jx arbitrary: c)
    case (Cons j jx)
    have c: "lv c = Some (Suc (length jx))" "unat j < 512" using Cons.prems by simp_all
    show ?case
      using upper [OF c] treeD(3) [OF tr c] Cons.IH [of "child h st c j"] Cons.prems(2)
      by (simp add: walk_tables_Cons del: walk_tables.simps(2))
  qed simp
  assume j: "length jx = length ix" "\<forall>j\<in>set jx. unat j < 512" "unat j < 512"
  have rj: "lv root = Some (length jx)" using root(1) j(1) by simp
  show "leaf h root (jx @ [j]) st' = (if jx = ix \<and> j = i then if v AND PML_PRESENT \<noteq> 0 then Some v else None
        else leaf h root (jx @ [j]) st)"
  proof (cases "walk_tables h root jx st")
    case None
    then show ?thesis using walk [OF rj j(2)] t(1) by (auto simp: leaf_walk)
  next
    case (Some u)
    have lu: "lv u = Some 0" using walk_tables_level [OF tr Some, of 0] rj j(2) by simp
    have "u = t \<longleftrightarrow> jx = ix"
      using walk_tables_inj [OF tr _ t(1), of root jx 0] Some t(1) root rj j by auto
    then show ?thesis
      using walk [OF rj j(2)] Some m [OF lu j(3)]
      by (cases "jx = ix \<and> j = i") (auto simp: leaf_walk present_def)
  qed
qed

section \<open>Page numbers\<close>

definition page_of :: "u64 \<Rightarrow> u64" where "page_of v = drop_bit 12 v AND mask 36"

lemma index_bits [bits]:
  "bit (pml4e v) n \<longleftrightarrow> n < 9 \<and> bit v (39 + n)" "bit (pdpte v) n \<longleftrightarrow> n < 9 \<and> bit v (30 + n)"
  "bit (pde v) n \<longleftrightarrow> n < 9 \<and> bit v (21 + n)" "bit (pte v) n \<longleftrightarrow> n < 9 \<and> bit v (12 + n)"
  "bit (page_of v) n \<longleftrightarrow> n < 36 \<and> bit v (12 + n)"
proof -
  have "bit (0x1ff :: u64) n \<longleftrightarrow> n < 9"
    using bit_mask_iff [of 9 n, where ?'a = u64] by (auto simp: mask_eq_exp_minus_1)
  then show "bit (pml4e v) n \<longleftrightarrow> n < 9 \<and> bit v (39 + n)" "bit (pdpte v) n \<longleftrightarrow> n < 9 \<and> bit v (30 + n)"
    "bit (pde v) n \<longleftrightarrow> n < 9 \<and> bit v (21 + n)" "bit (pte v) n \<longleftrightarrow> n < 9 \<and> bit v (12 + n)"
    by (auto simp: pml4e_def pdpte_def pde_def pte_def bit_and_iff bit_drop_bit_eq)
  show "bit (page_of v) n \<longleftrightarrow> n < 36 \<and> bit v (12 + n)"
    by (auto simp: page_of_def bit_and_iff bit_drop_bit_eq bit_mask_iff dest: bit_imp_le_length)
qed

lemma same_path_iff: "upper w @ [pte w] = upper v @ [pte v] \<longleftrightarrow> page_of w = page_of v"
proof
  assume e: "upper w @ [pte w] = upper v @ [pte v]"
  have "bit w (12 + n) = bit v (12 + n)" if "n < 36" for n
  proof -
    have "n < 9 \<or> 9 \<le> n \<and> n < 18 \<or> 18 \<le> n \<and> n < 27 \<or> 27 \<le> n" by linarith
    moreover have "bit (pte w) n = bit (pte v) n" "bit (pde w) (n - 9) = bit (pde v) (n - 9)"
      "bit (pdpte w) (n - 18) = bit (pdpte v) (n - 18)" "bit (pml4e w) (n - 27) = bit (pml4e v) (n - 27)"
      using e by (simp_all add: upper_def)
    ultimately show ?thesis using that by (elim disjE) (auto simp: bits)
  qed
  then show "page_of w = page_of v" by (intro bit_word_eqI) (auto simp: bits)
next
  assume "page_of w = page_of v"
  then have b: "bit w (12 + n) = bit v (12 + n)" if "n < 36" for n using that by (metis index_bits(5))
  have "pte w = pte v" by (rule bit_word_eqI) (use b in \<open>auto simp: bits\<close>)
  moreover have "pde w = pde v" by (rule bit_word_eqI) (use b [of "_ + 9"] in \<open>auto simp: bits add.commute\<close>)
  moreover have "pdpte w = pdpte v" by (rule bit_word_eqI) (use b [of "_ + 18"] in \<open>auto simp: bits add.commute\<close>)
  moreover have "pml4e w = pml4e v" by (rule bit_word_eqI) (use b [of "_ + 27"] in \<open>auto simp: bits add.commute\<close>)
  ultimately show "upper w @ [pte w] = upper v @ [pte v]" by (simp add: upper_def)
qed

section \<open>Properties\<close>

text \<open>The page tables below \<open>root\<close> form a four-level tree over frames that are in use.\<close>

definition paging :: "u64 \<Rightarrow> u64 \<Rightarrow> vmm \<Rightarrow> bool" where
  "paging h root st \<longleftrightarrow> (\<exists>lv. tree h lv st \<and> lv root = Some 3)"

definition mapped :: "u64 \<Rightarrow> u64 option" where
  "mapped e = (if e AND PML_PRESENT \<noteq> 0 then Some e else None)"

lemma length_upper [simp]: "length (upper v) = 3" by (simp add: upper_def)

lemma map_page_effect:
  assumes "paging h root st" "3 \<le> card (free_frames st)"
  shows "\<exists>st'. map_page h root v p f st = Some st' \<and> paging h root st' \<and>
    card (free_frames st) \<le> card (free_frames st') + 3 \<and>
    (\<forall>w. translate h root w st' = (if page_of w = page_of v then mapped (p OR f) else translate h root w st))"
proof -
  obtain lv where tr: "tree h lv st" and root: "lv root = Some 3" using assms(1) by (auto simp: paging_def)
  obtain t s1 lv1 where s1: "build_tables h root (upper v) st = Some (t, s1)" "grows h lv st lv1 s1"
      "walk_tables h root (upper v) s1 = Some t" "card (free_frames st) \<le> card (free_frames s1) + 3"
    using build_tables_grows [OF tr, of root "upper v"] root assms(2) by auto
  have root1: "lv1 root = Some (length (upper v))" using growsD(2) [OF s1(2) root] by simp
  have t0: "t \<noteq> 0"
    using table_at_bounds(1) [OF treeD(1) treeD(2)] growsD(1) [OF s1(2)]
      walk_tables_level [OF growsD(1) [OF s1(2)] s1(3), of 0] root1 by auto
  let ?st = "s1\<lparr>mem := (mem s1)(t + 8 * pte v := p OR f)\<rparr>"
  note ls = leaf_set [OF growsD(1) [OF s1(2)] root1 _ s1(3) indices_bound(1) refl, where v = "p OR f"]
  have "translate h root w ?st = (if page_of w = page_of v then mapped (p OR f) else translate h root w st)" for w
  proof -
    have "\<forall>j\<in>set (upper w @ [pte w]). unat j < 512" by auto
    then have "leaf h root (upper w @ [pte w]) s1 = leaf h root (upper w @ [pte w]) st"
      using growsD(4) [OF s1(2) root, of "upper w @ [pte w]"] by simp
    moreover have "upper w = upper v \<and> pte w = pte v \<longleftrightarrow> page_of w = page_of v"
      using same_path_iff [of w v] by simp
    ultimately show ?thesis using ls(2) [of "upper w" "pte w"] by (simp add: translate_leaf mapped_def)
  qed
  moreover have "paging h root ?st" using ls(1) root1 by (auto simp: paging_def)
  moreover have "map_page h root v p f st = Some ?st"
    using s1(1) t0 by (simp add: map_page_tables entry_set_def)
  moreover have "free_frames ?st = free_frames s1" by (simp add: free_frames_def)
  ultimately show ?thesis using s1(4) by (intro exI [of _ ?st]) simp
qed

text \<open>
  C3: \<open>map_page\<close>, with at least three free frames for the tables it may need, returns and makes the
  page of \<open>vaddr\<close> translate to exactly the entry \<open>paddr | flags\<close>, leaves the translation of every
  other page as it was, and keeps the tables a tree over frames in use. Of the free frames it uses
  at most three.
\<close>

theorem map_page_translates:
  assumes "paging h root st" "3 \<le> card (free_frames st)"
  shows "\<exists>st'. map_page h root vaddr paddr flags st = Some st' \<and> paging h root st' \<and>
    card (free_frames st) \<le> card (free_frames st') + 3 \<and>
    (\<forall>w. translate h root w st' =
      (if page_of w = page_of vaddr then mapped (paddr OR flags) else translate h root w st))"
  using assms by (rule map_page_effect)

definition sample_vmm :: vmm where
  "sample_vmm = \<lparr>mem = (\<lambda>_. 0), pm = small_pmm, frames_allocated = 0\<rparr>"

lemma small_pmm_used: "used small_pmm = {0, 2}"
  using small_pmm_bits by (auto simp: used_def small_pmm_def)

lemma sample_paging: "paging 0xFFFF800000000000 0xFFFF800000000000 sample_vmm"
proof -
  let ?h = "0xFFFF800000000000 :: u64"
  have "tree ?h [?h \<mapsto> 3] sample_vmm"
    using small_pmm_inv small_pmm_used
    by (auto simp: tree_def vmm_ok_def sample_vmm_def table_at_def present_def small_pmm_def split: if_splits)
  then show ?thesis by (auto simp: paging_def)
qed

lemma sample_free: "free_frames sample_vmm = {1, 3, 4, 5, 6}"
  using small_pmm_used by (auto simp: free_frames_def sample_vmm_def) (auto simp: small_pmm_def)

theorem map_page_translates_witness:
  "\<exists>st'. map_page 0xFFFF800000000000 0xFFFF800000000000 0x400000 0x7000 PML_PRESENT sample_vmm = Some st' \<and>
    translate 0xFFFF800000000000 0xFFFF800000000000 0x400123 st' = Some 0x7001 \<and>
    translate 0xFFFF800000000000 0xFFFF800000000000 0x401000 st' = None"
proof -
  have "3 \<le> card (free_frames sample_vmm)" unfolding sample_free by simp
  moreover have "page_of 0x400123 = page_of 0x400000" "page_of 0x401000 \<noteq> page_of 0x400000"
    by (simp_all add: page_of_def mask_eq_exp_minus_1)
  moreover have "mapped (0x7000 OR PML_PRESENT) = Some 0x7001" by (simp add: mapped_def PML_PRESENT_def)
  moreover have "translate 0xFFFF800000000000 0xFFFF800000000000 0x401000 sample_vmm = None"
    by (simp add: translate_leaf upper_def present_def sample_vmm_def)
  ultimately show ?thesis
    using map_page_translates [OF sample_paging, where vaddr = "0x400000" and paddr = "0x7000" and flags = PML_PRESENT]
    by metis
qed

lemma unat_page_of: "unat (page_of v) = (unat v div 4096) mod 2 ^ 36"
proof -
  have "page_of v = take_bit 36 (drop_bit 12 v)" by (simp add: page_of_def take_bit_eq_mask)
  then show ?thesis
    by (simp only: unsigned_take_bit_eq unat_drop_bit_eq) (simp add: drop_bit_eq_div take_bit_eq_mod)
qed

lemma unat_page_addr:
  assumes "unat v + 4096 * n < 2 ^ 64" "i < n"
  shows "unat (v + of_nat i * PAGE_SIZE) = unat v + 4096 * i"
proof -
  have b: "unat v + 4096 * i < 2 ^ 64" using assms by linarith
  then have i: "unat (of_nat i :: u64) = i" by (intro unat_of_nat_small) linarith
  have "unat (of_nat i * PAGE_SIZE) = i * 4096"
    using unat_mult_small [of "of_nat i" PAGE_SIZE] i b by (simp add: PAGE_SIZE_def)
  then show ?thesis using b unat_add_small [of v "of_nat i * PAGE_SIZE"] by simp
qed

lemma page_addr_inj:
  assumes "unat v + 4096 * n < 2 ^ 64" "n \<le> 2 ^ 36" "i < n" "j < n"
    and eq: "page_of (v + of_nat i * PAGE_SIZE) = page_of (v + of_nat j * PAGE_SIZE)"
  shows "i = j"
proof -
  let ?a = "unat v div 4096"
  have d: "(unat v + 4096 * k) div 4096 = ?a + k" for k by simp
  have "(?a + i) mod 2 ^ 36 = (?a + j) mod 2 ^ 36"
    using arg_cong [OF eq, of unat]
    unfolding unat_page_of unat_page_addr [OF assms(1,3)] unat_page_addr [OF assms(1,4)] d .
  then show ?thesis using assms(2-4) by (intro mod_shift_inj [of ?a i "2 ^ 36" j]) linarith+
qed

text \<open>The invariant of the loop of \<open>map_section\<close> after \<open>i\<close> of its \<open>n\<close> pages.\<close>

definition section_inv ::
    "u64 \<Rightarrow> u64 \<Rightarrow> u64 \<Rightarrow> u64 \<Rightarrow> u64 \<Rightarrow> vmm \<Rightarrow> nat \<Rightarrow> nat \<Rightarrow> u64 \<times> vmm \<Rightarrow> bool" where
  "section_inv h root vb pb flags st n i s \<longleftrightarrow>
     fst s = pb + of_nat i * PAGE_SIZE \<and> paging h root (snd s) \<and> 3 * (n - i) \<le> card (free_frames (snd s)) \<and>
     (\<forall>w j. j < i \<longrightarrow> page_of w = page_of (vb + of_nat j * PAGE_SIZE) \<longrightarrow>
        translate h root w (snd s) = mapped ((pb + of_nat j * PAGE_SIZE) OR flags)) \<and>
     (\<forall>w. (\<forall>j<i. page_of w \<noteq> page_of (vb + of_nat j * PAGE_SIZE)) \<longrightarrow>
        translate h root w (snd s) = translate h root w st)"

lemma section_step:
  assumes n: "n \<le> 2 ^ 36" "unat vb + 4096 * n < 2 ^ 64" and i: "i < n" and s: "section_inv h root vb pb flags st n i (p, s)"
  shows "\<exists>t. map_page h root (vb + of_nat i * PAGE_SIZE) p flags s = Some t \<and>
    section_inv h root vb pb flags st n (Suc i) (p + PAGE_SIZE, t)"
proof -
  let ?v = "\<lambda>i. vb + of_nat i * PAGE_SIZE" and ?p = "\<lambda>i. pb + of_nat i * PAGE_SIZE"
  have s': "p = ?p i" "paging h root s" "3 * (n - i) \<le> card (free_frames s)"
    "\<And>w j. j < i \<Longrightarrow> page_of w = page_of (?v j) \<Longrightarrow> translate h root w s = mapped (?p j OR flags)"
    "\<And>w. (\<forall>j<i. page_of w \<noteq> page_of (?v j)) \<Longrightarrow> translate h root w s = translate h root w st"
    using s unfolding section_inv_def fst_conv snd_conv by blast+
  have three: "3 \<le> card (free_frames s)" using s'(3) i by linarith
  obtain t where t: "map_page h root (?v i) p flags s = Some t" "paging h root t"
      "card (free_frames s) \<le> card (free_frames t) + 3"
      "\<And>w. translate h root w t = (if page_of w = page_of (?v i) then mapped (p OR flags)
         else translate h root w s)"
    using map_page_effect [OF s'(2) three, of "?v i" p flags] by blast
  have inj: "page_of (?v j) \<noteq> page_of (?v i)" if "j < i" for j
    using page_addr_inj [OF n(2,1), of j i] that i by auto
  have "section_inv h root vb pb flags st n (Suc i) (p + PAGE_SIZE, t)"
    unfolding section_inv_def fst_conv snd_conv
  proof (intro conjI allI impI)
    show "p + PAGE_SIZE = ?p (Suc i)" by (simp add: s'(1) algebra_simps)
    show "paging h root t" by (rule t(2))
    show "3 * (n - Suc i) \<le> card (free_frames t)" using t(3) s'(3) by linarith
    show "translate h root w t = mapped (?p j OR flags)" if "j < Suc i" "page_of w = page_of (?v j)" for w j
      using that t(4) [of w] s'(1) s'(4) [of j w] inj [of j] by (cases "j = i") auto
    show "translate h root w t = translate h root w st" if "\<forall>j<Suc i. page_of w \<noteq> page_of (?v j)" for w
      using that t(4) [of w] s'(5) [of w] by auto
  qed
  with t(1) show ?thesis by blast
qed

text \<open>
  C13: \<open>map_section\<close> on \<open>len\<close> bytes, that do not run over the end of the address space and for which
  the allocator can supply the tables, returns and maps the consecutive pages from \<open>vaddr_base\<close> on
  to the consecutive frames from \<open>paddr_base\<close> on, with the flags given, and changes the translation
  of no page outside the section.
\<close>

theorem map_section_translates:
  assumes pg: "paging h root st" and n: "n = (unat len + 4095) div 4096" "n \<le> 2 ^ 36"
    and fits: "unat vaddr_base + 4096 * n < 2 ^ 64" and free: "3 * n \<le> card (free_frames st)"
  shows "\<exists>st'. map_section h root vaddr_base paddr_base len flags st = Some st' \<and> paging h root st' \<and>
    (\<forall>w i. i < n \<longrightarrow> page_of w = page_of (vaddr_base + of_nat i * PAGE_SIZE) \<longrightarrow>
      translate h root w st' = mapped ((paddr_base + of_nat i * PAGE_SIZE) OR flags)) \<and>
    (\<forall>w. (\<forall>i<n. page_of w \<noteq> page_of (vaddr_base + of_nat i * PAGE_SIZE)) \<longrightarrow>
      translate h root w st' = translate h root w st)"
proof -
  let ?body = "\<lambda>vaddr (paddr, st). do {
    st \<leftarrow> map_page h root vaddr paddr flags st; Some (paddr + PAGE_SIZE, st) }"
  let ?I = "section_inv h root vaddr_base paddr_base flags st n"
  have step: "\<exists>t. ?body (vaddr_base + of_nat i * PAGE_SIZE) s = Some t \<and> ?I (Suc i) t" if "i < n" "?I i s" for i s
    using section_step [OF n(2) fits that(1), of h root paddr_base flags st "fst s" "snd s"] that(2)
    by (auto simp: split_def)
  have "?I 0 (paddr_base, st)" using pg free by (simp add: section_inv_def)
  then obtain s where s: "for_loop 0 n (\<lambda>i. ?body (vaddr_base + of_nat i * PAGE_SIZE)) (paddr_base, st) = Some s"
      "?I n s"
    using for_loop_rule [of 0 n ?I "(paddr_base, st)" "\<lambda>i. ?body (vaddr_base + of_nat i * PAGE_SIZE)"] step by auto
  have len: "unat (vaddr_base + len) = unat vaddr_base + unat len"
    using fits n(1) by (intro unat_add_small) simp
  have ps: "unat PAGE_SIZE = 4096" by (simp add: PAGE_SIZE_def)
  have r: "unat len + 4095 = n * 4096 + (unat len + 4095) mod 4096" "(unat len + 4095) mod 4096 < 4096"
    unfolding n(1) by (simp_all only: div_mult_mod_eq)
  have "unat (vaddr_base + len) \<le> unat vaddr_base + n * unat PAGE_SIZE"
    unfolding len ps using r by linarith
  moreover have "n = 0 \<or> unat vaddr_base + (n - 1) * unat PAGE_SIZE < unat (vaddr_base + len)"
    unfolding len ps using r by (cases n) simp_all
  ultimately have "word_loop vaddr_base (vaddr_base + len) PAGE_SIZE ?body (paddr_base, st) = Some s"
    using word_loop_for_loop [of vaddr_base n PAGE_SIZE "vaddr_base + len" ?body] fits s(1)
    by (simp add: PAGE_SIZE_def mult.commute)
  then have "map_section h root vaddr_base paddr_base len flags st = Some (snd s)"
    by (simp add: map_section_def split_def)
  with s(2) show ?thesis unfolding section_inv_def by blast
qed

theorem map_section_translates_witness:
  "\<exists>st'. map_section 0xFFFF800000000000 0xFFFF800000000000 0x400000 0x7000 4096 PML_PRESENT sample_vmm = Some st' \<and>
    translate 0xFFFF800000000000 0xFFFF800000000000 0x400123 st' = Some 0x7001"
proof -
  have c: "3 * 1 \<le> card (free_frames sample_vmm)" unfolding sample_free by simp
  have p: "page_of 0x400123 = page_of (0x400000 + of_nat 0 * PAGE_SIZE)"
    by (simp add: page_of_def mask_eq_exp_minus_1)
  have m: "mapped ((0x7000 + of_nat 0 * PAGE_SIZE) OR PML_PRESENT) = Some 0x7001"
    by (simp add: mapped_def PML_PRESENT_def)
  show ?thesis
    using map_section_translates [OF sample_paging, where n = 1 and len = "4096" and vaddr_base = "0x400000"
      and paddr_base = "0x7000" and flags = PML_PRESENT, OF _ _ _ c] p m by simp (metis zero_less_one)
qed

text \<open>
  C36: \<open>unmap_page\<close> returns, after it the page of \<open>vaddr\<close> has no translation, and every other page
  translates as before.
\<close>

theorem unmap_page_translates:
  assumes "paging h root st"
  shows "\<exists>st'. unmap_page h root vaddr st = Some st' \<and> paging h root st' \<and>
    (\<forall>w. translate h root w st' = (if page_of w = page_of vaddr then None else translate h root w st))"
proof -
  obtain lv where tr: "tree h lv st" and root: "lv root = Some 3" using assms by (auto simp: paging_def)
  have lens: "length (upper vaddr) = 3" "lv root = Some (length (upper vaddr))" using root by simp_all
  have same: "upper w = upper vaddr \<and> pte w = pte vaddr \<longleftrightarrow> page_of w = page_of vaddr" for w
    using same_path_iff [of w vaddr] by simp
  have next_eq: "get_next_page_map h b i st = Some (if present st b i then Some (child h st b i) else None)"
    if "lv b = Some n" for b n i
    using table_at_bounds(1) [OF treeD(1) [OF tr] treeD(2) [OF tr that]]
    by (simp add: get_next_page_map_def entry_get_def present_def child_def)
  have um: "unmap_page h root vaddr st = (case walk_tables h root (upper vaddr) st of None \<Rightarrow> Some st
      | Some t \<Rightarrow> entry_set t (pte vaddr) 0 st)"
  proof -
    have i: "unat (pml4e vaddr) < 512" "unat (pdpte vaddr) < 512" by (simp_all add: pml4e_def pdpte_def index_bound)
    have l: "lv root = Some (Suc (Suc 1))" using root by simp
    note c1 = treeD(3) [OF tr l i(1)]
    have c2: "lv (child h st (child h st root (pml4e vaddr)) (pdpte vaddr)) = Some 1"
      if "present st root (pml4e vaddr)" "present st (child h st root (pml4e vaddr)) (pdpte vaddr)"
      using treeD(3) [OF tr c1 [OF that(1)] i(2) that(2)] .
    show ?thesis
      using next_eq [OF root] next_eq [OF c1] next_eq [OF c2]
      by (simp add: unmap_page_def upper_def walk_tables_Cons del: walk_tables.simps(2))
  qed
  show ?thesis
  proof (cases "walk_tables h root (upper vaddr) st")
    case None
    have "translate h root w st = None" if "page_of w = page_of vaddr" for w
      using None same [of w] that by (simp add: translate_leaf leaf_walk)
    then show ?thesis using um None assms by auto
  next
    case (Some t)
    have t0: "t \<noteq> 0" using table_at_bounds(1) [OF treeD(1) [OF tr] treeD(2) [OF tr]]
        walk_tables_level [OF tr Some, of 0] lens by auto
    let ?st = "st\<lparr>mem := (mem st)(t + 8 * pte vaddr := 0)\<rparr>"
    note ls = leaf_set [OF tr lens(2) _ Some indices_bound(1) refl, where v = 0]
    have "translate h root w ?st = (if page_of w = page_of vaddr then None else translate h root w st)" for w
      using ls(2) [of "upper w" "pte w"] same [of w] by (simp add: translate_leaf)
    moreover have "paging h root ?st" using ls(1) root by (auto simp: paging_def)
    ultimately show ?thesis using um Some t0 by (auto simp: entry_set_def)
  qed
qed

theorem unmap_page_translates_witness:
  "\<exists>st'. unmap_page 0xFFFF800000000000 0xFFFF800000000000 0x400000 sample_vmm = Some st' \<and>
    translate 0xFFFF800000000000 0xFFFF800000000000 0x400000 st' = None"
  using unmap_page_translates [OF sample_paging, of "0x400000"] by auto

text \<open>Canonical addresses: bits 47 to 63 agree.\<close>

definition canonical :: "u64 \<Rightarrow> bool" where
  "canonical v \<longleftrightarrow> drop_bit 47 v = 0 \<or> drop_bit 47 v = mask 17"

lemma canonical_bits:
  assumes "canonical v" "48 \<le> n" "n < 64"
  shows "bit v n = bit v 47"
proof -
  have "bit v n = bit (drop_bit 47 v) (n - 47)" "bit v 47 = bit (drop_bit 47 v) 0"
    using assms(2) by (simp_all add: bit_drop_bit_eq)
  then show ?thesis using assms by (auto simp: canonical_def bit_mask_iff)
qed

lemma upper_half_bit: "drop_bit 8 (pml4e v) AND 1 \<noteq> 0 \<longleftrightarrow> bit v 47"
proof -
  have "odd (drop_bit 8 (pml4e v)) \<longleftrightarrow> bit v 47"
    using bit_drop_bit_eq [of 8 "pml4e v"] by (simp add: bits flip: bit_0)
  then show ?thesis by (simp add: and_one_eq odd_iff_mod_2_eq_one)
qed

text \<open>
  \<open>get_virt_addr\<close> puts the indices that \<open>map_page\<close> takes out of an address back together: from
  the four table indices and the page offset of a canonical address it rebuilds that address, the
  sign extension included.
\<close>

lemma get_virt_addr_roundtrip:
  assumes "canonical v"
  shows "get_virt_addr (pml4e v) (pdpte v) (pde v) (pte v) (v AND mask 12) = v"
proof (rule bit_word_eqI)
  fix n assume "n < LENGTH(64)"
  then have n: "n < 64" by simp
  have ext: "bit (0xffff000000000000 :: u64) n \<longleftrightarrow> 48 \<le> n"
  proof -
    have "(0xffff000000000000 :: u64) = NOT (mask 48)" by (simp add: mask_eq_exp_minus_1)
    then show ?thesis using n by (simp only: bit_not_iff bit_mask_iff) auto
  qed
  have "bit (get_virt_addr (pml4e v) (pdpte v) (pde v) (pte v) (v AND mask 12)) n \<longleftrightarrow>
      (39 \<le> n \<and> bit (pml4e v) (n - 39) \<or> 30 \<le> n \<and> bit (pdpte v) (n - 30) \<or> 21 \<le> n \<and> bit (pde v) (n - 21) \<or>
       12 \<le> n \<and> bit (pte v) (n - 12) \<or> bit v n \<and> n < 12) \<or> bit v 47 \<and> 48 \<le> n"
    unfolding get_virt_addr_def Let_def upper_half_bit using n
    by (simp only: bit_or_iff bit_push_bit_iff bit_and_iff bit_mask_iff ext split: if_split) auto
  moreover have "n < 12 \<or> 12 \<le> n \<and> n < 21 \<or> 21 \<le> n \<and> n < 30 \<or> 30 \<le> n \<and> n < 39 \<or> 39 \<le> n \<and> n < 48 \<or> 48 \<le> n"
    by linarith
  ultimately show "bit (get_virt_addr (pml4e v) (pdpte v) (pde v) (pte v) (v AND mask 12)) n = bit v n"
    using canonical_bits [OF assms, of n] n by (elim disjE conjE) (auto simp: bits less_diff_conv2)
qed

end
