(* ===== verification/Acpi.thy ===== *)
theory Acpi
  imports Flibc_String Spinlock
begin

text \<open>
  \<open>src/kernel/acpi/acpi.c\<close>: the firmware tables that tell the kernel its processors, interrupt
  controllers and timers. Physical memory is a function from addresses to bytes (\<open>ram\<close>), tables
  and their records are addresses, and the fields of the packed structures of \<open>acpi.h\<close> are read
  at their offsets. The records of the MADT have a length byte each; a length of 0 makes every
  loop over them endless, which is \<^term>\<open>None\<close>. The lemmas give the scans their meaning on the
  list of records that the table encodes.
\<close>

section \<open>Definitions\<close>

definition MMIO_NUM_DEVS :: nat where "MMIO_NUM_DEVS = 20"
definition IOAPIC_NUM_DEVS :: nat where "IOAPIC_NUM_DEVS = 10"
definition LAPIC_NUM_DEVS :: nat where "LAPIC_NUM_DEVS = 128"
definition ENTRY_LAPIC :: u8 where "ENTRY_LAPIC = 0"
definition ENTRY_IO_APIC :: u8 where "ENTRY_IO_APIC = 1"
definition ENTRY_IOAPIC_INT_OVERRIDE :: u8 where "ENTRY_IOAPIC_INT_OVERRIDE = 2"
definition LOCAL_APIC_ADDR_OVERRIDE :: u8 where "LOCAL_APIC_ADDR_OVERRIDE = 5"
definition RSDP_64 :: nat where "RSDP_64 = 36"
definition RSDP_32 :: nat where "RSDP_32 = 20"
definition HPET_4KB_PROTECTION :: u8 where "HPET_4KB_PROTECTION = 1"

record mmio_dev =
  dev_addr :: u64
  size_bytes :: u64

record acpi =
  ram :: "u64 \<Rightarrow> u8"
  devices :: "mmio_dev list"
  num_devs :: u64
  rsdp :: u64
  madt :: u64
  hpet :: u64
  rsdt :: u64
  xsdt :: u64
  core_count :: u64
  local_apic_index :: u64
  local_apic_ID :: "u32 list"
  io_apic_index :: u64
  ioapics :: "u64 list"
  lapic_addr :: u64
  hpet_addr :: u64
  is_hpet_present :: bool

text \<open>Little-endian fields.\<close>

definition le16 :: "(u64 \<Rightarrow> u8) \<Rightarrow> u64 \<Rightarrow> u16" where
  "le16 m a = ucast (m a) OR push_bit 8 (ucast (m (a + 1)))"

definition le32 :: "(u64 \<Rightarrow> u8) \<Rightarrow> u64 \<Rightarrow> u32" where
  "le32 m a = ucast (le16 m a) OR push_bit 16 (ucast (le16 m (a + 2)))"

definition le64 :: "(u64 \<Rightarrow> u8) \<Rightarrow> u64 \<Rightarrow> u64" where
  "le64 m a = ucast (le32 m a) OR push_bit 32 (ucast (le32 m (a + 4)))"

text \<open>The fields of the structures, by the structure and the field.\<close>

definition rsdp_revision :: "acpi \<Rightarrow> u64 \<Rightarrow> u8" where "rsdp_revision st p = ram st (p + 15)"
definition rsdt_address :: "acpi \<Rightarrow> u64 \<Rightarrow> u32" where "rsdt_address st p = le32 (ram st) (p + 16)"
definition xsdt_address :: "acpi \<Rightarrow> u64 \<Rightarrow> u64" where "xsdt_address st p = le64 (ram st) (p + 24)"
definition sdt_length :: "acpi \<Rightarrow> u64 \<Rightarrow> u32" where "sdt_length st p = le32 (ram st) (p + 4)"
definition local_interrupt_ctrl_addr :: "acpi \<Rightarrow> u64 \<Rightarrow> u32" where
  "local_interrupt_ctrl_addr st p = le32 (ram st) (p + 36)"
definition hpet_address :: "acpi \<Rightarrow> u64 \<Rightarrow> u64" where "hpet_address st p = le64 (ram st) (p + 44)"
definition io_apic_address :: "acpi \<Rightarrow> u64 \<Rightarrow> u32" where "io_apic_address st p = le32 (ram st) (p + 4)"
definition global_sys_interrupt_base :: "acpi \<Rightarrow> u64 \<Rightarrow> u32" where
  "global_sys_interrupt_base st p = le32 (ram st) (p + 8)"

definition get_rsdp_size :: "acpi \<Rightarrow> u64 \<Rightarrow> nat" where
  "get_rsdp_size st p = (if rsdp_revision st p \<ge> 2 then RSDP_64 else RSDP_32)"

definition get_sdt_entry_size :: "acpi \<Rightarrow> u64 \<Rightarrow> u64" where
  "get_sdt_entry_size st p = (if get_rsdp_size st p = RSDP_64 then 8 else 4)"

definition is_xsdt :: "acpi \<Rightarrow> u64 \<Rightarrow> bool" where
  "is_xsdt st p \<longleftrightarrow> rsdp_revision st p \<ge> 2"

definition verify_checksum :: "acpi \<Rightarrow> u64 \<Rightarrow> nat \<Rightarrow> bool" where
  "verify_checksum st data num_bytes \<longleftrightarrow> fold (\<lambda>i c. c + ram st (data + of_nat i)) [0..<num_bytes] 0 = 0"

text \<open>
  The loop over the records of the MADT from \<open>off\<close> on: the body answers with a result when the
  code returns from inside the loop.
\<close>

function madt_loop :: "(u64 \<Rightarrow> u8) \<Rightarrow> u64 \<Rightarrow> (u64 \<Rightarrow> 's \<Rightarrow> ('r option \<times> 's) option) \<Rightarrow> nat \<Rightarrow> nat \<Rightarrow> 's \<Rightarrow>
    ('r option \<times> 's) option" where
  "madt_loop m base body len off s =
     (if off < len
      then Option.bind (body (base + of_nat off) s) (\<lambda>(r, s).
        if r \<noteq> None then Some (r, s)
        else let record_length = unat (m (base + of_nat off + 1))
          in if record_length = 0 then None else madt_loop m base body len (off + record_length) s)
      else Some (None, s))"
  by pat_completeness auto
termination
  by (relation "measure (\<lambda>(m, base, body, len, off, s). len - off)") auto

declare madt_loop.simps [simp del]

definition acpi_get_gsi_base :: "acpi \<Rightarrow> u64 \<Rightarrow> int option" where
  "acpi_get_gsi_base st ioapic_addr =
     (if ioapic_addr = 0 then Some (-1)
      else do {
        is \<leftarrow> for_loop 0 (unat (io_apic_index st)) (\<lambda>i r. if r \<noteq> None then Some r else do {
          ioapic \<leftarrow> rd (ioapics st) i;
          Some (if ucast (io_apic_address st ioapic) = ioapic_addr
            then Some (sint (global_sys_interrupt_base st ioapic)) else None) }) None;
        Some (case is of Some g \<Rightarrow> g | None \<Rightarrow> -1) })"

definition acpi_irq_to_gsi :: "acpi \<Rightarrow> int \<Rightarrow> int option" where
  "acpi_irq_to_gsi st irq =
     (if madt st = 0 then Some (-1)
      else do {
        (r, u) \<leftarrow> madt_loop (ram st) (madt st)
          (\<lambda>record u. Some (if ram st record = ENTRY_IOAPIC_INT_OVERRIDE \<and> uint (ram st (record + 3)) = irq
             then Some (sint (le32 (ram st) (record + 4))) else None, u))
          (unat (sdt_length st (madt st))) 0x2c ();
        Some (case r of Some g \<Rightarrow> g | None \<Rightarrow> irq) })"

definition apic_record :: "u64 \<Rightarrow> acpi \<Rightarrow> (unit option \<times> acpi) option" where
  "apic_record record st =
     (let type = ram st record
      in if type = ENTRY_LAPIC then
           (if le32 (ram st) (record + 4) AND 3 \<noteq> 0
            then let st = st\<lparr>core_count := core_count st + 1\<rparr>
              in if local_apic_index st < core_count st
                 then do {
                   ids \<leftarrow> wr (local_apic_ID st) (unat (local_apic_index st)) (ucast (ram st (record + 3)));
                   Some (None, st\<lparr>local_apic_ID := ids, local_apic_index := local_apic_index st + 1\<rparr>) }
                 else None
            else Some (None, st))
         else if type = ENTRY_IO_APIC then
           (if unat (io_apic_index st) < IOAPIC_NUM_DEVS
            then do {
              io \<leftarrow> wr (ioapics st) (unat (io_apic_index st)) record;
              Some (None, st\<lparr>ioapics := io, io_apic_index := io_apic_index st + 1\<rparr>) }
            else None)
         else Some (None, st))"

definition init_apic_info :: "u64 \<Rightarrow> acpi \<Rightarrow> acpi option" where
  "init_apic_info p st = map_option snd (madt_loop (ram st) p apic_record (unat (sdt_length st p)) 0x2c st)"

definition find_lapic_addr :: "acpi \<Rightarrow> u64 \<Rightarrow> u64 option" where
  "find_lapic_addr st p = do {
     (r, u) \<leftarrow> madt_loop (ram st) p
       (\<lambda>record u. Some (if ram st record = LOCAL_APIC_ADDR_OVERRIDE
          then Some (ucast (le32 (ram st) (record + 4))) else None, u))
       (unat (sdt_length st p)) 0x2c ();
     Some (case r of Some a \<Rightarrow> a | None \<Rightarrow> ucast (local_interrupt_ctrl_addr st p)) }"

text \<open>\<open>sig\<close> is the four characters of the signature.\<close>

definition find_sdt :: "acpi \<Rightarrow> u8 list \<Rightarrow> u64 option" where
  "find_sdt st sig =
     (let sdt_size = (if is_xsdt st (rsdp st) then sdt_length st (xsdt st) else sdt_length st (rsdt st));
          num_sdts = (ucast sdt_size - 36) div get_sdt_entry_size st (rsdp st)
      in do {
        r \<leftarrow> for_loop 0 (unat num_sdts) (\<lambda>i r. if r \<noteq> None then Some r else do {
          let sdt = (if is_xsdt st (rsdp st) then le64 (ram st) (xsdt st + 36 + 8 * of_nat i)
            else ucast (le32 (ram st) (rsdt st + 36 + 4 * of_nat i)));
          c \<leftarrow> memcmp sig 0 (map (\<lambda>j. ram st (sdt + of_nat j)) [0..<4]) 0 4;
          Some (if c = 0 then Some sdt else None) }) None;
        Some (case r of Some sdt \<Rightarrow> sdt | None \<Rightarrow> 0) })"

definition add_mmio_device :: "mmio_dev \<Rightarrow> acpi \<Rightarrow> acpi option" where
  "add_mmio_device dev st = do {
     ds \<leftarrow> wr (devices st) (unat (num_devs st)) dev;
     Some (st\<lparr>devices := ds, num_devs := num_devs st + 1\<rparr>) }"

definition sig_HPET :: "u8 list" where "sig_HPET = [0x48, 0x50, 0x45, 0x54]"
definition sig_APIC :: "u8 list" where "sig_APIC = [0x41, 0x50, 0x49, 0x43]"

definition init_dev_hpet :: "acpi \<Rightarrow> (bool \<times> acpi) option" where
  "init_dev_hpet st = do {
     p \<leftarrow> find_sdt st sig_HPET;
     let st = st\<lparr>hpet := p\<rparr>;
     if p = 0 \<or> \<not> verify_checksum st p (unat (sdt_length st p)) then Some (False, st)
     else do {
       let st = st\<lparr>ram := (ram st)(p + 55 := HPET_4KB_PROTECTION)\<rparr>;
       let st = st\<lparr>hpet_addr := hpet_address st p\<rparr>;
       st \<leftarrow> add_mmio_device \<lparr>dev_addr = hpet_address st p, size_bytes = 4096\<rparr> st;
       Some (True, st) } }"

definition ioapic_record :: "u64 \<Rightarrow> acpi \<Rightarrow> (unit option \<times> acpi) option" where
  "ioapic_record record st =
     (if ram st record = ENTRY_IO_APIC
      then do {
        st \<leftarrow> add_mmio_device \<lparr>dev_addr = ucast (io_apic_address st record), size_bytes = 4096\<rparr> st;
        Some (None, st) }
      else Some (None, st))"

definition init_devs_ioapic :: "acpi \<Rightarrow> acpi option" where
  "init_devs_ioapic st =
     map_option snd (madt_loop (ram st) (madt st) ioapic_record (unat (sdt_length st (madt st))) 0x2c st)"

definition init_madt_devices :: "acpi \<Rightarrow> (bool \<times> acpi) option" where
  "init_madt_devices st = do {
     p \<leftarrow> find_sdt st sig_APIC;
     let st = st\<lparr>madt := p\<rparr>;
     if p = 0 \<or> \<not> verify_checksum st p (unat (sdt_length st p)) then None
     else do {
       a \<leftarrow> find_lapic_addr st p;
       let st = st\<lparr>lapic_addr := a\<rparr>;
       if a = 0 then Some (False, st)
       else do {
         st \<leftarrow> init_apic_info p st;
         st \<leftarrow> init_devs_ioapic st;
         st \<leftarrow> add_mmio_device \<lparr>dev_addr = lapic_addr st, size_bytes = 4096\<rparr> st;
         Some (True, st) } } }"

text \<open>\<open>p\<close> is the address in the boot loader's response.\<close>

definition init_acpi :: "u64 \<Rightarrow> acpi \<Rightarrow> acpi option" where
  "init_acpi p st = do {
     let st = st\<lparr>num_devs := 0, rsdp := p\<rparr>;
     let st = st\<lparr>rsdt := ucast (rsdt_address st p), xsdt := xsdt_address st p\<rparr>;
     st \<leftarrow> (if verify_checksum st p (get_rsdp_size st p) then Some st else None);
     st \<leftarrow> (if is_xsdt st p
       then (if verify_checksum st (xsdt st) (unat (sdt_length st (xsdt st))) then Some st else None)
       else (if verify_checksum st (rsdt st) (unat (sdt_length st (rsdt st))) then Some st else None));
     (ok, st) \<leftarrow> init_madt_devices st;
     st \<leftarrow> (if ok then Some st else None);
     (ok, st) \<leftarrow> init_dev_hpet st;
     if ok then Some st else None }"

section \<open>The records a MADT encodes\<close>

datatype madt_entry =
    Lapic u8 u8 u32
  | Ioapic u8 u8 u32 u32
  | Int_override u8 u8 u32 u16
  | Lapic_addr u16 u32 u32
  | Other_entry u8 "u8 list"

definition b16 :: "u16 \<Rightarrow> u8 list" where "b16 w = [ucast w, ucast (drop_bit 8 w)]"
definition b32 :: "u32 \<Rightarrow> u8 list" where
  "b32 w = b16 (ucast w) @ b16 (ucast (drop_bit 16 w))"

fun enc :: "madt_entry \<Rightarrow> u8 list" where
  "enc (Lapic uid apic_id flags) = [0, 8, uid, apic_id] @ b32 flags"
| "enc (Ioapic io_id res addr gsi_base) = [1, 12, io_id, res] @ b32 addr @ b32 gsi_base"
| "enc (Int_override bus src gsi flags) = [2, 10, bus, src] @ b32 gsi @ b16 flags"
| "enc (Lapic_addr res lo hi) = [5, 12] @ b16 res @ b32 lo @ b32 hi"
| "enc (Other_entry t payload) = [t, 2 + of_nat (length payload)] @ payload"

fun entry_ok :: "madt_entry \<Rightarrow> bool" where
  "entry_ok (Other_entry t payload) \<longleftrightarrow> t \<notin> {0, 1, 2, 5} \<and> length payload < 254"
| "entry_ok _ \<longleftrightarrow> True"

fun stored :: "(u64 \<Rightarrow> u8) \<Rightarrow> u64 \<Rightarrow> u8 list \<Rightarrow> bool" where
  "stored m a [] \<longleftrightarrow> True"
| "stored m a (b # bs) \<longleftrightarrow> m a = b \<and> stored m (a + 1) bs"

definition madt_encodes :: "acpi \<Rightarrow> u64 \<Rightarrow> madt_entry list \<Rightarrow> bool" where
  "madt_encodes st p es \<longleftrightarrow> list_all entry_ok es \<and> stored (ram st) (p + 44) (concat (map enc es)) \<and>
     unat (sdt_length st p) = 44 + length (concat (map enc es))"

lemma stored_append: "stored m a (xs @ ys) \<longleftrightarrow> stored m a xs \<and> stored m (a + of_nat (length xs)) ys"
  by (induction xs arbitrary: a) (simp_all add: add.assoc)

lemma le16_b16: "stored m a (b16 w) \<Longrightarrow> le16 m a = w"
proof -
  assume "stored m a (b16 w)"
  then have m: "m a = ucast w" "m (a + 1) = ucast (drop_bit 8 w)" by (simp_all add: b16_def)
  show "le16 m a = w"
    unfolding le16_def m by (rule bit_word_eqI) (auto simp: bit_simps)
qed

lemma le32_b32: "stored m a (b32 w) \<Longrightarrow> le32 m a = w"
proof -
  assume "stored m a (b32 w)"
  then have s: "stored m a (b16 (ucast w))" "stored m (a + 2) (b16 (ucast (drop_bit 16 w)))"
    by (simp_all add: b32_def stored_append b16_def add.commute)
  show "le32 m a = w"
    unfolding le32_def le16_b16 [OF s(1)] le16_b16 [OF s(2)] by (rule bit_word_eqI) (auto simp: bit_simps)
qed

lemma length_b [simp]: "length (b16 w) = 2" "length (b32 v) = 4"
  by (simp_all add: b16_def b32_def)

lemma enc_length_byte: "entry_ok e \<Longrightarrow> stored m a (enc e) \<Longrightarrow> unat (m (a + 1)) = length (enc e)"
proof (cases e)
  case (Other_entry t payload)
  assume "entry_ok e" and s: "stored m a (enc e)"
  then have l: "length payload < 254" using Other_entry by simp
  have "m (a + 1) = of_nat (2 + length payload)" using s Other_entry by simp
  then show ?thesis using l Other_entry by (simp only: unat_of_nat) (simp add: take_bit_eq_mod)
qed auto

text \<open>A scan over the entries themselves, with the address of each.\<close>

fun run_entries :: "(u64 \<Rightarrow> madt_entry \<Rightarrow> 's \<Rightarrow> ('r option \<times> 's) option) \<Rightarrow> u64 \<Rightarrow> madt_entry list \<Rightarrow> 's \<Rightarrow>
    ('r option \<times> 's) option" where
  "run_entries f a [] s = Some (None, s)"
| "run_entries f a (e # es) s = Option.bind (f a e s) (\<lambda>(r, s).
     if r \<noteq> None then Some (r, s) else run_entries f (a + of_nat (length (enc e))) es s)"

lemma enc_nonempty: "0 < length (enc e)"
  by (cases e) simp_all

lemma madt_loop_entries:
  assumes "\<And>a e s. entry_ok e \<Longrightarrow> stored m a (enc e) \<Longrightarrow> I s \<Longrightarrow> body a s = f a e s"
    and "\<And>a e s r s'. I s \<Longrightarrow> f a e s = Some (r, s') \<Longrightarrow> I s'"
    and "list_all entry_ok es" "stored m (base + of_nat off) (concat (map enc es))"
    and "len = off + length (concat (map enc es))" "I s"
  shows "madt_loop m base body len off s = run_entries f (base + of_nat off) es s"
  using assms(3-6)
proof (induction es arbitrary: off s)
  case Nil
  then show ?case by (simp add: madt_loop.simps)
next
  case (Cons e es)
  have st: "stored m (base + of_nat off) (enc e)"
      "stored m (base + of_nat (off + length (enc e))) (concat (map enc es))"
    using Cons.prems(2) by (simp_all add: stored_append add.assoc)
  have ok: "entry_ok e" "list_all entry_ok es" using Cons.prems(1) by simp_all
  note b = assms(1) [OF ok(1) st(1) Cons.prems(4)]
  note len = enc_length_byte [OF ok(1) st(1)] enc_nonempty [of e]
  have lt: "off < len" using Cons.prems(3) len(2) by simp
  show ?case
  proof (cases "f (base + of_nat off) e s")
    case None
    then show ?thesis using lt b by (simp add: madt_loop.simps [of _ _ _ len off])
  next
    case (Some q)
    obtain r s' where q: "q = (r, s')" by (cases q)
    have I': "I s'" using assms(2) [OF Cons.prems(4)] Some q by simp
    have "madt_loop m base body len (off + length (enc e)) s' =
        run_entries f (base + of_nat (off + length (enc e))) es s'"
      by (rule Cons.IH [OF ok(2) st(2) _ I']) (use Cons.prems(3) in simp)
    then show ?thesis
      using lt b Some q len by (simp add: madt_loop.simps [of _ _ _ len off] add.assoc)
  qed
qed

lemma stored_four:
  "stored m a (w # x # y # z # bs) \<longleftrightarrow> m a = w \<and> m (a + 1) = x \<and> m (a + 2) = y \<and> m (a + 3) = z \<and> stored m (a + 4) bs"
  by (simp add: add.assoc)

lemma stored_fields:
  "stored m a (enc (Lapic uid apic_id flags)) \<Longrightarrow> m a = 0 \<and> m (a + 3) = apic_id \<and> le32 m (a + 4) = flags"
  "stored m a (enc (Ioapic io_id res addr gb)) \<Longrightarrow>
     m a = 1 \<and> le32 m (a + 4) = addr \<and> le32 m (a + 8) = gb"
  "stored m a (enc (Int_override bus src gsi fl)) \<Longrightarrow> m a = 2 \<and> m (a + 3) = src \<and> le32 m (a + 4) = gsi"
  "stored m a (enc (Lapic_addr res2 lo hi)) \<Longrightarrow> m a = 5 \<and> le32 m (a + 4) = lo"
  "stored m a (enc (Other_entry t payload)) \<Longrightarrow> m a = t"
  by (simp_all only: enc.simps append_Cons append_Nil b16_def [of res2] stored_four stored_append)
     (simp_all add: le32_b32 add.assoc)

lemmas entry_types = ENTRY_LAPIC_def ENTRY_IO_APIC_def ENTRY_IOAPIC_INT_OVERRIDE_def LOCAL_APIC_ADDR_OVERRIDE_def

subsection \<open>Interrupt overrides and the address of the local APIC\<close>

fun override_of :: "int \<Rightarrow> madt_entry \<Rightarrow> int option" where
  "override_of irq (Int_override bus src gsi fl) = (if uint src = irq then Some (sint gsi) else None)"
| "override_of irq _ = None"

fun lapic_addr_of :: "madt_entry \<Rightarrow> u64 option" where
  "lapic_addr_of (Lapic_addr res lo hi) = Some (ucast lo)"
| "lapic_addr_of _ = None"

text \<open>The first entry that answers.\<close>

fun first_some :: "('a \<Rightarrow> 'b option) \<Rightarrow> 'a list \<Rightarrow> 'b option" where
  "first_some f [] = None"
| "first_some f (x # xs) = (case f x of None \<Rightarrow> first_some f xs | Some y \<Rightarrow> Some y)"

lemma first_some_append:
  "first_some f (xs @ ys) = (case first_some f xs of None \<Rightarrow> first_some f ys | Some y \<Rightarrow> Some y)"
  by (induction xs) (auto split: option.split)

lemma acpi_get_gsi_base_first:
  assumes "unat (io_apic_index st) \<le> length (ioapics st)" "a \<noteq> 0"
  shows "acpi_get_gsi_base st a = Some (case first_some (\<lambda>p. if ucast (io_apic_address st p) = a
      then Some (sint (global_sys_interrupt_base st p)) else None) (take (unat (io_apic_index st)) (ioapics st))
    of Some g \<Rightarrow> g | None \<Rightarrow> -1)"
proof -
  let ?g = "\<lambda>p. if ucast (io_apic_address st p) = a then Some (sint (global_sys_interrupt_base st p)) else None"
  let ?body = "\<lambda>i r. if r \<noteq> None then Some r else do {
    ioapic \<leftarrow> rd (ioapics st) i;
    Some (if ucast (io_apic_address st ioapic) = a then Some (sint (global_sys_interrupt_base st ioapic)) else None) }"
  have "\<exists>t. for_loop 0 (unat (io_apic_index st)) ?body None = Some t \<and>
      t = first_some ?g (take (unat (io_apic_index st)) (ioapics st))"
    by (rule for_loop_rule) (use assms(1) in \<open>auto simp: take_Suc_snoc first_some_append split: option.splits\<close>)
  then show ?thesis using assms(2) by (simp add: acpi_get_gsi_base_def)
qed

lemma run_entries_first:
  "run_entries (\<lambda>a e u. Some (g e, ())) a es () = Some (first_some g es, ())"
  by (induction es arbitrary: a) (auto split: option.split)

lemma override_body:
  assumes "entry_ok e" "stored m a (enc e)"
  shows "(if m a = ENTRY_IOAPIC_INT_OVERRIDE \<and> uint (m (a + 3)) = irq then Some (sint (le32 m (a + 4))) else None)
    = override_of irq e"
  using assms stored_fields [of m a]
  by (cases e) (auto simp: entry_types simp del: enc.simps)

lemma lapic_addr_body:
  assumes "entry_ok e" "stored m a (enc e)"
  shows "(if m a = LOCAL_APIC_ADDR_OVERRIDE then Some (ucast (le32 m (a + 4))) else None) = lapic_addr_of e"
  using assms stored_fields [of m a]
  by (cases e) (auto simp: entry_types simp del: enc.simps)

lemma acpi_irq_to_gsi_entries:
  assumes "madt_encodes st (madt st) es" "madt st \<noteq> 0"
  shows "acpi_irq_to_gsi st irq = Some (case first_some (override_of irq) es of Some g \<Rightarrow> g | None \<Rightarrow> irq)"
proof -
  have "madt_loop (ram st) (madt st)
      (\<lambda>record u. Some (if ram st record = ENTRY_IOAPIC_INT_OVERRIDE \<and> uint (ram st (record + 3)) = irq
         then Some (sint (le32 (ram st) (record + 4))) else None, u))
      (unat (sdt_length st (madt st))) 44 () =
    run_entries (\<lambda>a e u. Some (override_of irq e, u)) (madt st + of_nat 44) es ()"
    using assms(1)
    by (intro madt_loop_entries [where I = "\<lambda>_. True"]) (auto simp: madt_encodes_def override_body)
  then show ?thesis using assms(2) by (simp add: acpi_irq_to_gsi_def run_entries_first)
qed

lemma find_lapic_addr_entries:
  assumes "madt_encodes st p es"
  shows "find_lapic_addr st p = Some (case first_some lapic_addr_of es of Some a \<Rightarrow> a
    | None \<Rightarrow> ucast (local_interrupt_ctrl_addr st p))"
proof -
  have "madt_loop (ram st) p
      (\<lambda>record u. Some (if ram st record = LOCAL_APIC_ADDR_OVERRIDE
         then Some (ucast (le32 (ram st) (record + 4))) else None, u))
      (unat (sdt_length st p)) 44 () =
    run_entries (\<lambda>a e u. Some (lapic_addr_of e, u)) (p + of_nat 44) es ()"
    using assms
    by (intro madt_loop_entries [where I = "\<lambda>_. True"]) (auto simp: madt_encodes_def lapic_addr_body)
  then show ?thesis by (simp add: find_lapic_addr_def run_entries_first)
qed

subsection \<open>The lists of processors and interrupt controllers\<close>

fun enabled_id :: "madt_entry \<Rightarrow> u8 option" where
  "enabled_id (Lapic uid apic_id flags) = (if flags AND 3 \<noteq> 0 then Some apic_id else None)"
| "enabled_id _ = None"

definition apic_ids :: "madt_entry list \<Rightarrow> u32 list" where
  "apic_ids es = map ucast (List.map_filter enabled_id es)"

fun is_ioapic :: "madt_entry \<Rightarrow> bool" where
  "is_ioapic (Ioapic io_id res addr gb) = True"
| "is_ioapic _ = False"

fun ioapic_at :: "u64 \<Rightarrow> madt_entry list \<Rightarrow> u64 list" where
  "ioapic_at a [] = []"
| "ioapic_at a (e # es) = (if is_ioapic e then [a] else []) @ ioapic_at (a + of_nat (length (enc e))) es"

definition apic_room :: "acpi \<Rightarrow> bool" where
  "apic_room st \<longleftrightarrow> length (local_apic_ID st) = LAPIC_NUM_DEVS \<and> length (ioapics st) = IOAPIC_NUM_DEVS \<and>
     core_count st = local_apic_index st"

text \<open>The effect of a scan that finds the processors \<open>ids\<close> and the controllers \<open>ios\<close>.\<close>

definition apics_added :: "u32 list \<Rightarrow> u64 list \<Rightarrow> acpi \<Rightarrow> acpi" where
  "apics_added ids ios st = st\<lparr>core_count := core_count st + of_nat (length ids),
     local_apic_index := local_apic_index st + of_nat (length ids),
     local_apic_ID := overwrite (local_apic_ID st) (unat (local_apic_index st)) ids,
     io_apic_index := io_apic_index st + of_nat (length ios),
     ioapics := overwrite (ioapics st) (unat (io_apic_index st)) ios\<rparr>"

lemma apic_ids_simps [simp]:
  "apic_ids [] = []"
  "apic_ids (e # es) = (case enabled_id e of Some i \<Rightarrow> [ucast i] | None \<Rightarrow> []) @ apic_ids es"
  by (simp_all add: apic_ids_def List.map_filter_def split: option.split)

lemma apic_record_entry:
  assumes e: "entry_ok e" "stored (ram st) a (enc e)" and room: "apic_room st"
    and fits: "enabled_id e \<noteq> None \<Longrightarrow> unat (local_apic_index st) < 128" "is_ioapic e \<Longrightarrow> unat (io_apic_index st) < 10"
  shows "apic_record a st = Some (None, apics_added
    (case enabled_id e of Some i \<Rightarrow> [ucast i] | None \<Rightarrow> []) (if is_ioapic e then [a] else []) st)"
proof -
  have lt: "local_apic_index st < local_apic_index st + 1" if "enabled_id e \<noteq> None"
    using unat_add_small [of "local_apic_index st" 1] fits(1) [OF that] by (simp add: word_less_nat_alt)
  show ?thesis
    using e stored_fields [of "ram st" a] room fits lt
    by (cases e) (auto simp: apic_record_def entry_types apics_added_def apic_room_def LAPIC_NUM_DEVS_def
        IOAPIC_NUM_DEVS_def Let_def simp del: enc.simps)
qed

lemma apics_added_added:
  assumes "length ids' \<le> 1" "length ios' \<le> 1"
    and "unat (local_apic_index st) + length ids' + length ids \<le> length (local_apic_ID st)"
    and "unat (io_apic_index st) + length ios' + length ios \<le> length (ioapics st)"
    and "apic_room st"
  shows "apics_added ids ios (apics_added ids' ios' st) = apics_added (ids' @ ids) (ios' @ ios) st"
proof -
  have a: "unat (x + 1) = Suc (unat x)" if "unat x < 200" for x :: u64
    using unat_add_small [of x 1] that by simp
  have i: "xs = [] \<or> (\<exists>v. xs = [v])" if "length xs \<le> 1" for xs :: "'b list" using that by (cases xs) auto
  show ?thesis
    using i [OF assms(1)] i [OF assms(2)] assms(3-5) a [of "local_apic_index st"] a [of "io_apic_index st"]
    by (auto simp: apics_added_def overwrite_Cons apic_room_def LAPIC_NUM_DEVS_def IOAPIC_NUM_DEVS_def add_ac)
qed

lemma init_apic_info_entries:
  assumes "list_all entry_ok es" "stored (ram st) a (concat (map enc es))" "apic_room st"
    and "unat (local_apic_index st) + length (apic_ids es) \<le> 128"
    and "unat (io_apic_index st) + length (ioapic_at a es) \<le> 10"
  shows "run_entries (\<lambda>a e. apic_record a) a es st = Some (None, apics_added (apic_ids es) (ioapic_at a es) st)"
  using assms
proof (induction es arbitrary: a st)
  case Nil
  then show ?case by (simp add: apics_added_def)
next
  case (Cons e es)
  let ?i = "(case enabled_id e of Some i \<Rightarrow> [ucast i] | None \<Rightarrow> []) :: u32 list" and ?o = "if is_ioapic e then [a] else []"
  let ?st = "apics_added ?i ?o st" and ?a = "a + of_nat (length (enc e))"
  have le: "length ?i \<le> 1" "length ?o \<le> 1" by (simp_all split: option.split)
  have lens: "length (local_apic_ID st) = 128" "length (ioapics st) = 10"
    using Cons.prems(3) by (simp_all add: apic_room_def LAPIC_NUM_DEVS_def IOAPIC_NUM_DEVS_def)
  have r: "apic_record a st = Some (None, ?st)"
    using Cons.prems by (intro apic_record_entry) (auto simp: stored_append)
  have idx: "unat (local_apic_index ?st) = unat (local_apic_index st) + length ?i"
      "unat (io_apic_index ?st) = unat (io_apic_index st) + length ?o"
    using Cons.prems(4,5) le unfolding apics_added_def
    by (simp_all add: unat_add_small unat_of_nat_small split: option.split)
  have "apic_room ?st"
    using Cons.prems(3-5) lens by (auto simp: apic_room_def apics_added_def split: option.split)
  moreover have "stored (ram ?st) ?a (concat (map enc es))" "list_all entry_ok es"
    using Cons.prems(1,2) by (simp_all add: stored_append apics_added_def)
  ultimately have "run_entries (\<lambda>a e. apic_record a) ?a es ?st =
      Some (None, apics_added (apic_ids es) (ioapic_at ?a es) ?st)"
    using Cons.prems(4,5) idx by (intro Cons.IH) auto
  also have "\<dots> = Some (None, apics_added (apic_ids (e # es)) (ioapic_at a (e # es)) st)"
    using apics_added_added [OF le, of st "apic_ids es" "ioapic_at ?a es"] Cons.prems(3-5) lens by auto
  finally show ?case using r by simp
qed

section \<open>Properties\<close>

text \<open>
  C25: for a MADT that encodes a list of records, the scans of the table return and mean what the
  list says: \<open>acpi_irq_to_gsi\<close> is the first override of the interrupt, or the interrupt itself;
  \<open>find_lapic_addr\<close> is the first override of the local APIC's address, or the table's own field;
  \<open>init_apic_info\<close>, when the table names at most 128 usable processors and 10 I/O APICs, stores
  exactly their identifiers and records, in their order, and counts the processors.
\<close>

theorem madt_scans:
  assumes enc: "madt_encodes st (madt st) es" and p: "madt st \<noteq> 0"
    and room: "apic_room st" "local_apic_index st = 0" "io_apic_index st = 0"
    and few: "length (apic_ids es) \<le> 128" "length (ioapic_at (madt st + 44) es) \<le> 10"
  shows "acpi_irq_to_gsi st irq = Some (case first_some (override_of irq) es of Some g \<Rightarrow> g | None \<Rightarrow> irq) \<and>
    find_lapic_addr st (madt st) = Some (case first_some lapic_addr_of es of Some a \<Rightarrow> a
      | None \<Rightarrow> ucast (local_interrupt_ctrl_addr st (madt st))) \<and>
    (\<exists>st'. init_apic_info (madt st) st = Some st' \<and>
      unat (core_count st') = length (apic_ids es) \<and>
      take (length (apic_ids es)) (local_apic_ID st') = apic_ids es \<and>
      unat (io_apic_index st') = length (ioapic_at (madt st + 44) es) \<and>
      take (length (ioapic_at (madt st + 44) es)) (ioapics st') = ioapic_at (madt st + 44) es)"
proof -
  let ?ids = "apic_ids es" and ?ios = "ioapic_at (madt st + 44) es"
  have "madt_loop (ram st) (madt st) apic_record (unat (sdt_length st (madt st))) 44 st =
      run_entries (\<lambda>a e. apic_record a) (madt st + of_nat 44) es st"
    using enc by (intro madt_loop_entries [where I = "\<lambda>_. True"]) (auto simp: madt_encodes_def)
  also have "\<dots> = Some (None, apics_added ?ids ?ios st)"
    using enc room few init_apic_info_entries [of es st "madt st + 44"] by (simp add: madt_encodes_def)
  finally have i: "init_apic_info (madt st) st = Some (apics_added ?ids ?ios st)"
    by (simp add: init_apic_info_def)
  have "unat (core_count (apics_added ?ids ?ios st)) = length ?ids"
    "take (length ?ids) (local_apic_ID (apics_added ?ids ?ios st)) = ?ids"
    "unat (io_apic_index (apics_added ?ids ?ios st)) = length ?ios"
    "take (length ?ios) (ioapics (apics_added ?ids ?ios st)) = ?ios"
    using room few by (simp_all add: apics_added_def overwrite_def apic_room_def unat_of_nat_small)
  with i acpi_irq_to_gsi_entries [OF enc p] find_lapic_addr_entries [OF enc] show ?thesis by blast
qed

text \<open>A table with one processor, an override of interrupt 0 and one I/O APIC.\<close>

definition sample_entries :: "madt_entry list" where
  "sample_entries = [Lapic 0 7 1, Int_override 0 0 2 0, Ioapic 1 0 0xFEC00000 0]"

definition sample_madt :: "u8 list" where
  "sample_madt = [0x41, 0x50, 0x49, 0x43, 74, 0, 0, 0] @ replicate 28 0 @ [0, 0, 0xE0, 0xFE] @ replicate 4 0 @
     concat (map enc sample_entries)"

definition sample_acpi :: acpi where
  "sample_acpi = \<lparr>ram = (\<lambda>a. if unat (a - 0x1000) < length sample_madt then sample_madt ! unat (a - 0x1000) else 0),
     devices = replicate 20 \<lparr>dev_addr = 0, size_bytes = 0\<rparr>, num_devs = 0, rsdp = 0, madt = 0x1000, hpet = 0,
     rsdt = 0, xsdt = 0, core_count = 0, local_apic_index = 0, local_apic_ID = replicate 128 0,
     io_apic_index = 0, ioapics = replicate 10 0, lapic_addr = 0, hpet_addr = 0, is_hpet_present = True\<rparr>"

lemma sample_encodes: "madt_encodes sample_acpi 0x1000 sample_entries"
  by code_simp

theorem madt_scans_witness:
  "acpi_irq_to_gsi sample_acpi 0 = Some 2 \<and> acpi_irq_to_gsi sample_acpi 1 = Some 1 \<and>
   find_lapic_addr sample_acpi 0x1000 = Some 0xFEE00000 \<and>
   (\<exists>st'. init_apic_info 0x1000 sample_acpi = Some st' \<and> unat (core_count st') = 1 \<and>
     take 1 (local_apic_ID st') = [7] \<and> take 1 (ioapics st') = [0x1000 + 62])"
proof -
  have m: "madt sample_acpi = 0x1000" by (simp add: sample_acpi_def)
  have r: "apic_room sample_acpi" "local_apic_index sample_acpi = 0" "io_apic_index sample_acpi = 0"
    by (simp_all add: sample_acpi_def apic_room_def LAPIC_NUM_DEVS_def IOAPIC_NUM_DEVS_def)
  have f: "first_some (override_of 0) sample_entries = Some 2" "first_some (override_of 1) sample_entries = None"
    "first_some lapic_addr_of sample_entries = None" "apic_ids sample_entries = [7]"
    "ioapic_at (0x1000 + 44) sample_entries = [0x1000 + 62]"
    "(ucast (local_interrupt_ctrl_addr sample_acpi 0x1000) :: u64) = 0xFEE00000"
    by code_simp+
  have "length (apic_ids sample_entries) \<le> 128" "length (ioapic_at (0x1000 + 44) sample_entries) \<le> 10"
    unfolding f by simp_all
  note all = madt_scans [of sample_acpi sample_entries, unfolded m, OF sample_encodes _ r this]
  show ?thesis using all [of 0] all [of 1] unfolding f by simp blast
qed

end
