(* ===== verification/Ioapic.thy ===== *)
theory Ioapic
  imports Acpi Descriptors
begin

text \<open>
  \<open>src/kernel/devices/ioapic.c\<close>: routing of an interrupt line to a vector of a processor. A chip
  has an index register and a window to the register it selects; a redirection entry is two such
  registers, the bit fields of \<open>redtab_t\<close>. \<open>ioapic_map_irq\<close> ties together the firmware tables of
  theory \<open>Acpi\<close>, the chip and the interrupt descriptor table of theory \<open>Descriptors\<close>.
\<close>

section \<open>Definitions\<close>

definition IOAPIC_VER :: u8 where "IOAPIC_VER = 1"
definition IOAPIC_REDTAB :: int where "IOAPIC_REDTAB = 0x10"

record redtab =
  vector :: "8 word"
  delivery_mode :: "3 word"
  destination_mode :: "1 word"
  delivery_status :: "1 word"
  interrupt_polarity :: "1 word"
  remote_irr :: "1 word"
  trigger_mode :: "1 word"
  interrupt_mask :: "1 word"
  reserved :: "39 word"
  destination_field :: "8 word"

text \<open>The packed layout of the bit fields, read and written as one 64-bit value.\<close>

definition redtab_of :: "u64 \<Rightarrow> redtab" where
  "redtab_of reg = \<lparr>vector = ucast reg, delivery_mode = ucast (drop_bit 8 reg),
     destination_mode = ucast (drop_bit 11 reg), delivery_status = ucast (drop_bit 12 reg),
     interrupt_polarity = ucast (drop_bit 13 reg), remote_irr = ucast (drop_bit 14 reg),
     trigger_mode = ucast (drop_bit 15 reg), interrupt_mask = ucast (drop_bit 16 reg),
     reserved = ucast (drop_bit 17 reg), destination_field = ucast (drop_bit 56 reg)\<rparr>"

definition redtab_word :: "redtab \<Rightarrow> u64" where
  "redtab_word r = ucast (vector r) OR push_bit 8 (ucast (delivery_mode r)) OR
     push_bit 11 (ucast (destination_mode r)) OR push_bit 12 (ucast (delivery_status r)) OR
     push_bit 13 (ucast (interrupt_polarity r)) OR push_bit 14 (ucast (remote_irr r)) OR
     push_bit 15 (ucast (trigger_mode r)) OR push_bit 16 (ucast (interrupt_mask r)) OR
     push_bit 17 (ucast (reserved r)) OR push_bit 56 (ucast (destination_field r))"

text \<open>The chips by their physical address.\<close>

record ioapic_chip =
  regsel :: u32
  ioregs :: "u8 \<Rightarrow> u32"

record ioapic_sys =
  chips :: "u64 \<Rightarrow> ioapic_chip"
  ioapic_lock :: spinlock

definition ioapic_select_reg :: "u64 \<Rightarrow> u8 \<Rightarrow> ioapic_sys \<Rightarrow> ioapic_sys" where
  "ioapic_select_reg ioapic_addr offset io =
     io\<lparr>chips := (chips io)(ioapic_addr := (chips io ioapic_addr)\<lparr>regsel := ucast offset\<rparr>)\<rparr>"

definition ioapic_write :: "u64 \<Rightarrow> u8 \<Rightarrow> u32 \<Rightarrow> ioapic_sys \<Rightarrow> ioapic_sys option" where
  "ioapic_write ioapic_addr offset val io = do {
     l \<leftarrow> spinlock_acquire (ioapic_lock io);
     let io = ioapic_select_reg ioapic_addr offset io;
     let ch = chips io ioapic_addr;
     let io = io\<lparr>chips := (chips io)(ioapic_addr := ch\<lparr>ioregs := (ioregs ch)(ucast (regsel ch) := val)\<rparr>)\<rparr>;
     Some (io\<lparr>ioapic_lock := spinlock_release l\<rparr>) }"

definition ioapic_read :: "u64 \<Rightarrow> u8 \<Rightarrow> ioapic_sys \<Rightarrow> (u32 \<times> ioapic_sys) option" where
  "ioapic_read ioapic_addr offset io = do {
     l \<leftarrow> spinlock_acquire (ioapic_lock io);
     let io = ioapic_select_reg ioapic_addr offset io;
     let ch = chips io ioapic_addr;
     let data = ioregs ch (ucast (regsel ch));
     Some (data, io\<lparr>ioapic_lock := spinlock_release l\<rparr>) }"

definition max_red_entry :: "u32 \<Rightarrow> u8" where
  "max_red_entry ver = ucast (drop_bit 16 ver)"

definition ioapic_get_addr :: "acpi \<Rightarrow> u64 \<Rightarrow> ioapic_sys \<Rightarrow> (u64 \<times> ioapic_sys) option" where
  "ioapic_get_addr ac irq io = do {
     gsi \<leftarrow> acpi_irq_to_gsi ac (sint (ucast irq :: u32));
     if madt ac = 0 then Some (0, io)
     else do {
       (r, io) \<leftarrow> for_loop 0 (unat (io_apic_index ac)) (\<lambda>i (r, io). if r \<noteq> None then Some (r, io) else do {
         ioapic \<leftarrow> rd (ioapics ac) i;
         let ioapic_addr = ucast (io_apic_address ac ioapic);
         (ver, io) \<leftarrow> ioapic_read ioapic_addr IOAPIC_VER io;
         let gsi_b = sint (global_sys_interrupt_base ac ioapic);
         let gsi_max = uint (max_red_entry ver);
         Some (if gsi \<ge> gsi_b \<and> gsi \<le> gsi_max then Some ioapic_addr else None, io) }) (None, io);
       Some (case r of Some a \<Rightarrow> a | None \<Rightarrow> 0, io) } }"

definition redtab_entry :: "int \<Rightarrow> u8" where
  "redtab_entry i = of_int (IOAPIC_REDTAB + 2 * i)"

definition ioapic_read_redtab :: "u64 \<Rightarrow> int \<Rightarrow> redtab \<Rightarrow> ioapic_sys \<Rightarrow> (bool \<times> redtab \<times> ioapic_sys) option" where
  "ioapic_read_redtab ioapic_addr entry redtab io =
     (if entry \<ge> 24 \<or> entry < 0 then Some (False, redtab, io)
      else do {
        (low, io) \<leftarrow> ioapic_read ioapic_addr (redtab_entry entry) io;
        (high, io) \<leftarrow> ioapic_read ioapic_addr (redtab_entry entry + 1) io;
        Some (True, redtab_of (push_bit 32 (ucast high) OR ucast low), io) })"

definition ioapic_write_redtab :: "u64 \<Rightarrow> int \<Rightarrow> redtab \<Rightarrow> ioapic_sys \<Rightarrow> (bool \<times> ioapic_sys) option" where
  "ioapic_write_redtab ioapic_addr entry redtab io =
     (if entry \<ge> 24 \<or> entry < 0 then Some (False, io)
      else do {
        let reg = redtab_word redtab;
        io \<leftarrow> ioapic_write ioapic_addr (redtab_entry entry + 1) (ucast (drop_bit 32 reg)) io;
        io \<leftarrow> ioapic_write ioapic_addr (redtab_entry entry) (ucast reg) io;
        Some (True, io) })"

text \<open>\<open>stack\<close> is the uninitialised local variable of the code.\<close>

definition ioapic_map_irq :: "acpi \<Rightarrow> redtab \<Rightarrow> u32 \<Rightarrow> u8 \<Rightarrow> bool \<Rightarrow> u8 \<Rightarrow> u8 \<Rightarrow> u64 \<Rightarrow> u8 \<Rightarrow>
    ioapic_sys \<times> idt_state \<Rightarrow> (ioapic_sys \<times> idt_state) option" where
  "ioapic_map_irq ac stack irq apic_id masked delivery vec gate_entry flags = (\<lambda>(io, idt). do {
     (ioapic_addr, io) \<leftarrow> ioapic_get_addr ac (ucast irq) io;
     io \<leftarrow> (if ioapic_addr \<noteq> 0 then Some io else None);
     gsi \<leftarrow> acpi_irq_to_gsi ac (sint irq);
     base \<leftarrow> acpi_get_gsi_base ac ioapic_addr;
     irq_redtab_entry \<leftarrow> c_int (gsi - base);
     (ok, r, io) \<leftarrow> ioapic_read_redtab ioapic_addr irq_redtab_entry stack io;
     let r = r\<lparr>destination_field := apic_id, interrupt_mask := of_bool masked, destination_mode := 0,
       delivery_mode := ucast delivery, vector := vec\<rparr>;
     (ok, io) \<leftarrow> ioapic_write_redtab ioapic_addr irq_redtab_entry r io;
     idt \<leftarrow> add_descriptor vec gate_entry flags idt;
     idt \<leftarrow> set_vector_ist vec 1 idt;
     Some (io, idt) })"

section \<open>Fields\<close>

lemma redtab_roundtrip: "redtab_of (redtab_word r) = r"
  unfolding redtab_of_def redtab_word_def
  by (rule redtab.equality; simp; rule bit_word_eqI) (auto simp: bit_simps dest: bit_imp_le_length)

section \<open>Registers\<close>

definition same_regs :: "ioapic_sys \<Rightarrow> ioapic_sys \<Rightarrow> bool" where
  "same_regs io io' \<longleftrightarrow> ioapic_lock io' = 0 \<and> (\<forall>a. ioregs (chips io' a) = ioregs (chips io a))"

lemma select_ucast [simp]: "ucast (ucast (off :: u8) :: u32) = off"
  by (rule bit_word_eqI) (auto simp: bit_simps)

lemma ioapic_read_ok:
  assumes "ioapic_lock io = 0"
  shows "\<exists>io'. ioapic_read a off io = Some (ioregs (chips io a) off, io') \<and> same_regs io io'"
  using assms
  by (simp add: ioapic_read_def ioapic_select_reg_def same_regs_def)

lemma ioapic_write_ok:
  assumes "ioapic_lock io = 0"
  shows "\<exists>io'. ioapic_write a off v io = Some io' \<and> ioapic_lock io' = 0 \<and>
    (\<forall>b. ioregs (chips io' b) = (if b = a then (ioregs (chips io a))(off := v) else ioregs (chips io b)))"
  using assms
  by (auto simp: ioapic_write_def ioapic_select_reg_def Let_def)

text \<open>A redirection entry as the chip holds it.\<close>

definition redtab_at :: "ioapic_sys \<Rightarrow> u64 \<Rightarrow> int \<Rightarrow> redtab" where
  "redtab_at io a i = redtab_of (push_bit 32 (ucast (ioregs (chips io a) (redtab_entry i + 1))) OR
     ucast (ioregs (chips io a) (redtab_entry i)))"

lemma word_halves: "push_bit 32 (ucast (ucast (drop_bit 32 w) :: u32)) OR ucast (ucast w :: u32) = (w :: u64)"
  by (rule bit_word_eqI) (auto simp: bit_simps)

lemma redtab_entry_distinct:
  assumes "0 \<le> i" "i < 24" "0 \<le> j" "j < 24"
  shows "redtab_entry i \<noteq> redtab_entry j + 1" "redtab_entry i = redtab_entry j \<longleftrightarrow> i = j"
proof -
  have e: "uint (redtab_entry k) = 16 + 2 * k" "uint (redtab_entry k + 1) = 17 + 2 * k" if "0 \<le> k" "k < 24" for k
  proof -
    have w: "uint (word_of_int x :: u8) = x" if "0 \<le> x" "x < 256" for x
      using that by (subst uint_word_of_int_eq) (simp add: take_bit_int_eq_self)
    show "uint (redtab_entry k) = 16 + 2 * k"
      using that unfolding redtab_entry_def IOAPIC_REDTAB_def by (intro w) auto
    have "redtab_entry k + 1 = word_of_int (17 + 2 * k)" by (simp add: redtab_entry_def IOAPIC_REDTAB_def)
    moreover have "uint (word_of_int (17 + 2 * k) :: u8) = 17 + 2 * k" using that by (intro w) auto
    ultimately show "uint (redtab_entry k + 1) = 17 + 2 * k" by (simp only:)
  qed
  show "redtab_entry i \<noteq> redtab_entry j + 1"
  proof
    assume "redtab_entry i = redtab_entry j + 1"
    then have "uint (redtab_entry i) = uint (redtab_entry j + 1)" by (rule arg_cong)
    then have "16 + 2 * i = 17 + 2 * j" unfolding e(1) [OF assms(1,2)] e(2) [OF assms(3,4)] .
    then show False by presburger
  qed
  show "redtab_entry i = redtab_entry j \<longleftrightarrow> i = j"
  proof
    assume "redtab_entry i = redtab_entry j"
    then have "uint (redtab_entry i) = uint (redtab_entry j)" by (rule arg_cong)
    then have "16 + 2 * i = 16 + 2 * j" unfolding e(1) [OF assms(1,2)] e(1) [OF assms(3,4)] .
    then show "i = j" by simp
  qed simp
qed

lemma ioapic_read_redtab_ok:
  assumes "ioapic_lock io = 0" "0 \<le> i" "i < 24"
  shows "\<exists>io'. ioapic_read_redtab a i r io = Some (True, redtab_at io a i, io') \<and> same_regs io io'"
proof -
  obtain io1 where 1: "ioapic_read a (redtab_entry i) io = Some (ioregs (chips io a) (redtab_entry i), io1)"
    "same_regs io io1" using ioapic_read_ok [OF assms(1)] by blast
  obtain io2 where 2: "ioapic_read a (redtab_entry i + 1) io1 =
      Some (ioregs (chips io1 a) (redtab_entry i + 1), io2)" "same_regs io1 io2"
    using ioapic_read_ok [of io1] 1(2) unfolding same_regs_def by blast
  show ?thesis using 1 2 assms(2,3) by (auto simp: ioapic_read_redtab_def redtab_at_def same_regs_def)
qed

lemma ioapic_write_redtab_ok:
  assumes "ioapic_lock io = 0" "0 \<le> i" "i < 24"
  shows "\<exists>io'. ioapic_write_redtab a i r io = Some (True, io') \<and> redtab_at io' a i = r \<and>
    (\<forall>b j. 0 \<le> j \<longrightarrow> j < 24 \<longrightarrow> (b, j) \<noteq> (a, i) \<longrightarrow> redtab_at io' b j = redtab_at io b j)"
proof -
  let ?w = "redtab_word r"
  obtain io1 where 1: "ioapic_write a (redtab_entry i + 1) (ucast (drop_bit 32 ?w)) io = Some io1"
      "ioapic_lock io1 = 0"
    and r1: "\<And>b. ioregs (chips io1 b) =
      (if b = a then (ioregs (chips io a))(redtab_entry i + 1 := ucast (drop_bit 32 ?w)) else ioregs (chips io b))"
    using ioapic_write_ok [OF assms(1)] by blast
  obtain io2 where 2: "ioapic_write a (redtab_entry i) (ucast ?w) io1 = Some io2"
    and r2: "\<And>b. ioregs (chips io2 b) =
      (if b = a then (ioregs (chips io1 a))(redtab_entry i := ucast ?w) else ioregs (chips io1 b))"
    using ioapic_write_ok [OF 1(2)] by blast
  have "redtab_at io2 a i = r"
    using redtab_entry_distinct(1) [OF assms(2,3,2,3)]
    by (simp add: redtab_at_def r1 r2 word_halves redtab_roundtrip fun_upd_def)
  moreover have "redtab_at io2 b j = redtab_at io b j" if "0 \<le> j" "j < 24" "(b, j) \<noteq> (a, i)" for b j
    using redtab_entry_distinct [OF that(1,2) assms(2,3)] redtab_entry_distinct [OF assms(2,3) that(1,2)] that(3)
    by (auto simp: redtab_at_def r1 r2 fun_upd_def)
  ultimately show ?thesis using 1 2 assms(2,3) by (simp add: ioapic_write_redtab_def)
qed

section \<open>Properties\<close>

text \<open>The test by which the code chooses the controller of an interrupt.\<close>

definition covers :: "acpi \<Rightarrow> ioapic_sys \<Rightarrow> int \<Rightarrow> u64 \<Rightarrow> bool" where
  "covers ac io gsi p \<longleftrightarrow> sint (global_sys_interrupt_base ac p) \<le> gsi \<and>
     gsi \<le> uint (max_red_entry (ioregs (chips io (ucast (io_apic_address ac p))) IOAPIC_VER))"

definition controllers :: "acpi \<Rightarrow> u64 list" where
  "controllers ac = take (unat (io_apic_index ac)) (ioapics ac)"

lemma ioapic_get_addr_ok:
  assumes lock: "ioapic_lock io = 0" and m: "madt ac \<noteq> 0"
    and gsi: "acpi_irq_to_gsi ac (sint (ucast irq :: u32)) = Some gsi"
    and n: "unat (io_apic_index ac) \<le> length (ioapics ac)"
  shows "\<exists>io'. ioapic_get_addr ac irq io = Some (case find (covers ac io gsi) (controllers ac) of
      Some p \<Rightarrow> ucast (io_apic_address ac p) | None \<Rightarrow> 0, io') \<and> same_regs io io'"
proof -
  let ?addr = "\<lambda>p. ucast (io_apic_address ac p) :: u64"
  let ?body = "\<lambda>i (r, io). if r \<noteq> None then Some (r, io) else do {
     ioapic \<leftarrow> rd (ioapics ac) i;
     let ioapic_addr = ?addr ioapic;
     (ver, io) \<leftarrow> ioapic_read ioapic_addr IOAPIC_VER io;
     let gsi_b = sint (global_sys_interrupt_base ac ioapic);
     let gsi_max = uint (max_red_entry ver);
     Some (if gsi \<ge> gsi_b \<and> gsi \<le> gsi_max then Some ioapic_addr else None, io) }"
  let ?I = "\<lambda>i s. same_regs io (snd s) \<and>
    fst s = map_option ?addr (find (covers ac io gsi) (take i (ioapics ac)))"
  have step: "\<exists>t. ?body i s = Some t \<and> ?I (Suc i) t" if i: "i < unat (io_apic_index ac)" and I: "?I i s" for i s
  proof (cases "fst s")
    case None
    have len: "i < length (ioapics ac)" using i n by simp
    have nf: "find (covers ac io gsi) (take i (ioapics ac)) = None" using I None by simp
    have f: "find (covers ac io gsi) (take (Suc i) (ioapics ac)) =
        (if covers ac io gsi (ioapics ac ! i) then Some (ioapics ac ! i) else None)"
      using nf len by (simp add: take_Suc_snoc find_append)
    obtain io2 where r: "ioapic_read (?addr (ioapics ac ! i)) IOAPIC_VER (snd s) =
        Some (ioregs (chips (snd s) (?addr (ioapics ac ! i))) IOAPIC_VER, io2)" "same_regs (snd s) io2"
      using ioapic_read_ok [of "snd s"] I unfolding same_regs_def by blast
    have "same_regs io io2" using I r(2) by (simp add: same_regs_def)
    then show ?thesis
      using None len r(1) I f by (cases s) (auto simp: covers_def same_regs_def)
  next
    case (Some a)
    then have "find (covers ac io gsi) (take (Suc i) (ioapics ac)) = find (covers ac io gsi) (take i (ioapics ac))"
      using I i n by (auto simp: take_Suc_snoc find_append)
    then show ?thesis using Some I by (cases s) auto
  qed
  have "?I 0 (None, io)" using lock by (simp add: same_regs_def)
  then have "\<exists>t. for_loop 0 (unat (io_apic_index ac)) ?body (None, io) = Some t \<and> ?I (unat (io_apic_index ac)) t"
    using step by (intro for_loop_rule) auto
  then show ?thesis
    using m gsi by (auto simp: ioapic_get_addr_def controllers_def split_def split: option.splits)
qed

text \<open>
  C26: \<open>ioapic_map_irq\<close> routes an interrupt. When the firmware names a controller that covers the
  interrupt's line \<open>gsi\<close>, controllers have distinct addresses, and the line is one of its 24
  entries, the call returns; the redirection entry of the line then delivers the vector to the
  processor asked for, in physical mode, with the mask and delivery mode asked for and its other
  fields as they were; no other entry of any controller changes; and the gate of the vector leads to
  the handler on the first interrupt stack, every other gate being as before.
\<close>

theorem ioapic_map_irq_routes:
  assumes lock: "ioapic_lock io = 0" and idt: "idt_inv idt" and m: "madt ac \<noteq> 0"
    and n: "unat (io_apic_index ac) \<le> length (ioapics ac)"
    and gsi: "acpi_irq_to_gsi ac (sint irq) = Some gsi"
    and found: "find (covers ac io gsi) (controllers ac) = Some p"
    and a: "a = ucast (io_apic_address ac p)" "a \<noteq> 0"
      "distinct (map (\<lambda>p. ucast (io_apic_address ac p) :: u64) (controllers ac))"
    and i: "i = gsi - sint (global_sys_interrupt_base ac p)" "i < 24"
  shows "\<exists>io' idt'. ioapic_map_irq ac stack irq apic_id masked delivery vec gate_entry flags (io, idt) =
      Some (io', idt') \<and>
    redtab_at io' a i = (redtab_at io a i)\<lparr>destination_field := apic_id, interrupt_mask := of_bool masked,
      destination_mode := 0, delivery_mode := ucast delivery, vector := vec\<rparr> \<and>
    (\<forall>b j. 0 \<le> j \<longrightarrow> j < 24 \<longrightarrow> (b, j) \<noteq> (a, i) \<longrightarrow> redtab_at io' b j = redtab_at io b j) \<and>
    gate_target (idt_entry idt' ! unat vec) = gate_entry \<and> ist (idt_entry idt' ! unat vec) = 1 \<and>
    gate_type (idt_entry idt' ! unat vec) = flags \<and>
    (\<forall>v. v \<noteq> unat vec \<longrightarrow> idt_entry idt' ! v = idt_entry idt ! v)"
proof -
  have pin: "p \<in> set (controllers ac)" and cov: "covers ac io gsi p"
    using found by (auto simp: find_Some_iff)
  have i0: "0 \<le> i" using cov i by (simp add: covers_def)
  have u: "sint (ucast (ucast irq :: u64) :: u32) = sint irq"
  proof -
    have "ucast (ucast irq :: u64) = irq" by (rule bit_word_eqI) (auto simp: bit_simps)
    then show ?thesis by simp
  qed
  obtain io1 where 1: "ioapic_get_addr ac (ucast irq) io = Some (a, io1)" "same_regs io io1"
    using ioapic_get_addr_ok [OF lock m _ n, of "ucast irq" gsi] u gsi found a(1) by auto
  have "first_some (\<lambda>q. if ucast (io_apic_address ac q) = a then Some (sint (global_sys_interrupt_base ac q)) else None) xs
      = Some (sint (global_sys_interrupt_base ac p))"
    if "p \<in> set xs" "distinct (map (\<lambda>p. ucast (io_apic_address ac p) :: u64) xs)" for xs
    using that by (induction xs) (auto simp: a(1))
  from this [OF pin a(3)]
  have base: "acpi_get_gsi_base ac a = Some (sint (global_sys_interrupt_base ac p))"
    using acpi_get_gsi_base_first [OF n a(2)] by (simp add: controllers_def)
  have ci: "c_int (gsi - sint (global_sys_interrupt_base ac p)) = Some i" using i i0 by simp
  have l1: "ioapic_lock io1 = 0" using 1(2) by (simp add: same_regs_def)
  obtain io2 where 2: "ioapic_read_redtab a i stack io1 = Some (True, redtab_at io1 a i, io2)" "same_regs io1 io2"
    using ioapic_read_redtab_ok [OF l1 i0 i(2)] by blast
  have same: "redtab_at io1 b j = redtab_at io b j" "redtab_at io2 b j = redtab_at io b j" for b j
    using 1(2) 2(2) by (simp_all add: same_regs_def redtab_at_def)
  let ?r = "(redtab_at io a i)\<lparr>destination_field := apic_id, interrupt_mask := of_bool masked,
      destination_mode := 0, delivery_mode := ucast delivery, vector := vec\<rparr>"
  have l2: "ioapic_lock io2 = 0" using 2(2) by (simp add: same_regs_def)
  obtain io3 where 3: "ioapic_write_redtab a i ?r io2 = Some (True, io3)" "redtab_at io3 a i = ?r"
      "\<And>b j. 0 \<le> j \<Longrightarrow> j < 24 \<Longrightarrow> (b, j) \<noteq> (a, i) \<Longrightarrow> redtab_at io3 b j = redtab_at io b j"
    using ioapic_write_redtab_ok [OF l2 i0 i(2)] same(2) by metis
  obtain idt1 e where d1: "add_descriptor vec gate_entry flags idt = Some idt1" "idt_inv idt1"
      "idt_entry idt1 = (idt_entry idt)[unat vec := e]" "gate_target e = gate_entry" "gate_type e = flags"
    using add_descriptor_ok [OF idt] by blast
  obtain idt2 where d2: "set_vector_ist vec 1 idt1 = Some idt2"
      "idt_entry idt2 = (idt_entry idt1)[unat vec := (idt_entry idt1 ! unat vec)\<lparr>ist := of_int 1\<rparr>]"
    using set_vector_ist_ok [OF d1(2)] by blast
  have vl: "unat vec < length (idt_entry idt)"
    using idt unat_bound [of vec] by (simp add: idt_inv_def)
  have run: "ioapic_map_irq ac stack irq apic_id masked delivery vec gate_entry flags (io, idt) = Some (io3, idt2)"
    using 1(1) a(2) gsi base ci 2(1) 3(1) d1(1) d2(1) same(1) by (simp add: ioapic_map_irq_def Let_def)
  have gate: "gate_target (idt_entry idt2 ! unat vec) = gate_entry" "ist (idt_entry idt2 ! unat vec) = 1"
    "gate_type (idt_entry idt2 ! unat vec) = flags"
    using d1(3-5) d2(2) vl by (simp_all add: gate_target_def)
  have others: "idt_entry idt2 ! v = idt_entry idt ! v" if "v \<noteq> unat vec" for v
    using d1(3) d2(2) that by simp
  show ?thesis
    by (intro exI [of _ io3] exI [of _ idt2] conjI allI impI run 3 gate others)
qed

definition sample_routing :: acpi where
  "sample_routing = sample_acpi\<lparr>io_apic_index := 1, ioapics := 0x103E # replicate 9 0\<rparr>"

definition sample_chips :: ioapic_sys where
  "sample_chips = \<lparr>chips = (\<lambda>_. \<lparr>regsel = 0, ioregs = (\<lambda>_. 0)(1 := 0x170011)\<rparr>), ioapic_lock = 0\<rparr>"

theorem ioapic_map_irq_routes_witness:
  "\<exists>io' idt'. ioapic_map_irq sample_routing (redtab_of 0) 0 7 False 0 0x30 0xFFFFFFFF80001000 0x8e
      (sample_chips, boot_idt) = Some (io', idt') \<and>
    vector (redtab_at io' 0xFEC00000 2) = 0x30 \<and> destination_field (redtab_at io' 0xFEC00000 2) = 7 \<and>
    gate_target (idt_entry idt' ! 0x30) = 0xFFFFFFFF80001000"
proof -
  have idt: "idt_inv boot_idt" by (simp add: idt_inv_def boot_idt_def)
  have g: "acpi_irq_to_gsi sample_routing (sint (0 :: u32)) = Some 2" by code_simp
  have f: "find (covers sample_routing sample_chips 2) (controllers sample_routing) = Some 0x103E" by code_simp
  have a: "(0xFEC00000 :: u64) = ucast (io_apic_address sample_routing 0x103E)"
    "2 = 2 - sint (global_sys_interrupt_base sample_routing 0x103E)"
    "distinct (map (\<lambda>p. ucast (io_apic_address sample_routing p) :: u64) (controllers sample_routing))"
    by code_simp+
  have r: "ioapic_lock sample_chips = 0" "madt sample_routing \<noteq> 0"
    "unat (io_apic_index sample_routing) \<le> length (ioapics sample_routing)"
    by (simp_all add: sample_chips_def sample_routing_def sample_acpi_def)
  show ?thesis
    using ioapic_map_irq_routes [OF r(1) idt r(2,3) g f a(1) _ a(3) a(2), of "redtab_of 0" 7 False 0 "0x30"
      "0xFFFFFFFF80001000" "0x8e"] by auto
qed

end
