(* ===== verification/Ps2.thy ===== *)
theory Ps2
  imports Sched_Steps Ioapic
begin

text \<open>
  \<open>src/kernel/devices/ps2.c\<close>: the keyboard and mouse interrupt handlers, the packet queues the
  device nodes \<open>kb0\<close> and \<open>ms0\<close> read from, and the set-up of the controller. Port input and
  output are the processor's: the record \<open>bus\<close> gives their effect on the state \<open>'d\<close> of the
  hardware, and every definition that talks to the controller takes it as an argument. The
  handlers end in the scheduler of theory \<open>Sched\<close>; \<open>init_ps2\<close> routes the two interrupts with
  theory \<open>Ioapic\<close>.
\<close>

section \<open>Definitions\<close>

definition PS2_DATA_REG :: u16 where "PS2_DATA_REG = 0x60"
definition PS2_CMD_STATUS_REG :: u16 where "PS2_CMD_STATUS_REG = 0x64"
definition PS2_STATUS_OUTPUT_BUF :: u8 where "PS2_STATUS_OUTPUT_BUF = 1"
definition PS2_STATUS_INPUT_BUF :: u8 where "PS2_STATUS_INPUT_BUF = 2"
definition QUEUE_SIZE :: u64 where "QUEUE_SIZE = 200"

record 'd bus =
  inb :: "u16 \<Rightarrow> 'd \<Rightarrow> u8 \<times> 'd"
  outb :: "u16 \<Rightarrow> u8 \<Rightarrow> 'd \<Rightarrow> 'd"

text \<open>The arrays of packets with their heads, tails and counts; the keyboard and the mouse have one each.\<close>

record 'a packet_queue =
  packets :: "'a list"
  pq_head :: u64
  pq_tail :: u64
  num_packets :: u64

record mouse_data =
  mflags :: u8
  delta_x :: int
  delta_y :: int

record ps2 =
  is_capslock :: bool
  is_shift :: bool
  keyboard_data :: u8
  keyboard :: "u8 packet_queue"
  mouse_data :: mouse_data
  mouse_cycle :: u64
  mouse_discard :: bool
  mouse :: "mouse_data packet_queue"

definition chars :: "string \<Rightarrow> u8 list" where "chars s = map of_char s"

definition char_capslock :: "u8 list" where
  "char_capslock = [0, 0] @ chars ''1234567890-='' @ [8, 9] @ chars ''QWERTYUIOP[]'' @ [10, 0] @
     chars ''ASDFGHJKL;'' @ [39, 96, 0, 92] @ chars ''ZXCVBNM,./'' @ [0, 42, 0, 32]"

definition char_no_capslock :: "u8 list" where
  "char_no_capslock = [0, 0] @ chars ''1234567890-='' @ [8, 9] @ chars ''qwertyuiop[]'' @ [10, 0] @
     chars ''asdfghjkl;'' @ [39, 96, 0, 92] @ chars ''zxcvbnm,./'' @ [0, 42, 0, 32]"

definition char_shift :: "u8 list" where
  "char_shift = [0, 0] @ chars ''!@#$%^&*()_+'' @ [8, 9] @ chars ''QWERTYUIOP{}'' @ [10, 0] @
     chars ''ASDFGHJKL:'' @ [34, 126, 0, 124] @ chars ''ZXCVBNM<>?'' @ [0, 42, 0, 32]"

definition char_shift_capslock :: "u8 list" where
  "char_shift_capslock = [0, 0] @ chars ''!@#$%^&*()_+'' @ [8, 9] @ chars ''qwertyuiop{}'' @ [10, 0] @
     chars ''asdfghjkl:'' @ [34, 126, 0, 124] @ chars ''zxcvbnm<>?'' @ [0, 42, 0, 32]"

text \<open>Storing a packet at the tail and taking one from the head, with the wrap-around of the index.\<close>

definition packet_push :: "'a \<Rightarrow> 'a packet_queue \<Rightarrow> 'a packet_queue option" where
  "packet_push x q = do {
     ps \<leftarrow> wr (packets q) (unat (pq_tail q)) x;
     let t = pq_tail q + 1;
     Some (q\<lparr>packets := ps, pq_tail := (if t \<ge> QUEUE_SIZE then 0 else t), num_packets := num_packets q + 1\<rparr>) }"

definition packet_pop :: "'a packet_queue \<Rightarrow> ('a \<times> 'a packet_queue) option" where
  "packet_pop q = do {
     x \<leftarrow> rd (packets q) (unat (pq_head q));
     let h = pq_head q + 1;
     Some (x, q\<lparr>pq_head := (if h \<ge> QUEUE_SIZE then 0 else h), num_packets := num_packets q - 1\<rparr>) }"

subsection \<open>Keyboard\<close>

text \<open>What \<open>keyboard_handler\<close> does with the scan code \<open>c\<close> it read.\<close>

definition keyboard_scan :: "u8 \<Rightarrow> ps2 \<Rightarrow> ps2 option" where
  "keyboard_scan c st = do {
     let st = (if c = 0x3A then st\<lparr>is_capslock := \<not> is_capslock st\<rparr>
       else if c = 0x2A then st\<lparr>is_shift := True\<rparr>
       else if c = 0xAA then st\<lparr>is_shift := False\<rparr> else st);
     let is_printable = (c \<le> 0x39);
     let char_format = (if is_printable
       then if is_capslock st \<and> is_shift st then char_shift_capslock
         else if is_capslock st then char_capslock
         else if is_shift st then char_shift else char_no_capslock
       else char_no_capslock);
     let discard_keyboard_packet = (\<not> is_printable);
     if \<not> discard_keyboard_packet \<and> num_packets (keyboard st) < QUEUE_SIZE
     then do {
       ch \<leftarrow> rd char_format (unat c);
       q \<leftarrow> packet_push ch (keyboard st);
       Some (st\<lparr>keyboard_data := ch, keyboard := q\<rparr>) }
     else Some st }"

definition keyboard_handler :: "'d bus \<Rightarrow> u64 \<Rightarrow> nat \<Rightarrow> ctx \<Rightarrow> 'd \<times> ps2 \<times> kernel \<Rightarrow> ('d \<times> ps2 \<times> kernel) option" where
  "keyboard_handler bus h cpu ctx = (\<lambda>(d, st, k). do {
     let (c, d) = inb bus PS2_DATA_REG d;
     st \<leftarrow> keyboard_scan c st;
     k \<leftarrow> save_context cpu ctx k;
     core \<leftarrow> cores k cpu;
     k \<leftarrow> (if idle_thread core \<noteq> current_thread core
       then schedule_add_thread cpu (current_thread core) k else Some k);
     k \<leftarrow> lapic_eoi cpu k;
     k \<leftarrow> schedule_next_thread h cpu k;
     Some (d, st, k) })"

text \<open>
  \<open>buff\<close> is the caller's buffer as bytes; packet \<open>count\<close> is stored through a pointer to 64-bit
  words, that is at byte \<open>8 * count\<close>. The result is the count, the buffer and the state.
\<close>

function keyboard_read_loop :: "nat \<Rightarrow> u64 \<Rightarrow> u8 list \<Rightarrow> u8 packet_queue \<Rightarrow> (nat \<times> u8 list \<times> u8 packet_queue) option" where
  "keyboard_read_loop count size_arg buff q =
     (if count < unat size_arg
      then if num_packets q = 0 then Some (count, buff, q)
        else do {
          (x, q) \<leftarrow> packet_pop q;
          buff \<leftarrow> wr buff (8 * count) x;
          keyboard_read_loop (Suc count) size_arg buff q }
      else Some (count, buff, q))"
  by pat_completeness auto
termination
  by (relation "measure (\<lambda>(count, size_arg, buff, q). unat size_arg - count)") auto

declare keyboard_read_loop.simps [simp del]

definition dev_keyboard_read :: "u8 list \<Rightarrow> u64 \<Rightarrow> ps2 \<Rightarrow> (nat \<times> u8 list \<times> ps2) option" where
  "dev_keyboard_read buff size_arg st =
     (if size_arg mod 1 = 0 \<and> size_arg < QUEUE_SIZE
      then do {
        (count, buff, q) \<leftarrow> keyboard_read_loop 0 size_arg buff (keyboard st);
        Some (count, buff, st\<lparr>keyboard := q\<rparr>) }
      else Some (0, buff, st))"

subsection \<open>Mouse\<close>

definition mouse_byte :: "u8 \<Rightarrow> ps2 \<Rightarrow> ps2 option" where
  "mouse_byte data st =
     (if mouse_cycle st = 0 then
        let st = st\<lparr>mouse_data := (mouse_data st)\<lparr>mflags := data\<rparr>\<rparr>
        in if data AND 8 = 0 \<or> data AND 64 \<noteq> 0 \<or> data AND 128 \<noteq> 0
           then Some (st\<lparr>mouse_discard := True\<rparr>)
           else Some (st\<lparr>mouse_cycle := mouse_cycle st + 1\<rparr>)
      else if mouse_cycle st = 1 then
        Some (st\<lparr>mouse_data := (mouse_data st)\<lparr>delta_x := sint data\<rparr>, mouse_cycle := mouse_cycle st + 1\<rparr>)
      else if mouse_cycle st = 2 then
        let st = st\<lparr>mouse_data := (mouse_data st)\<lparr>delta_y := sint data\<rparr>, mouse_cycle := 0\<rparr>
        in if mouse_discard st then Some (st\<lparr>mouse_discard := False\<rparr>)
           else if num_packets (mouse st) \<ge> QUEUE_SIZE then Some st
           else do {
             q \<leftarrow> packet_push (mouse_data st) (mouse st);
             Some (st\<lparr>mouse := q\<rparr>) }
      else Some (st\<lparr>mouse_cycle := 0\<rparr>))"

definition mouse_handler :: "'d bus \<Rightarrow> u64 \<Rightarrow> nat \<Rightarrow> ctx \<Rightarrow> 'd \<times> ps2 \<times> kernel \<Rightarrow> ('d \<times> ps2 \<times> kernel) option" where
  "mouse_handler bus h cpu ctx = (\<lambda>(d, st, k). do {
     let (data, d) = inb bus PS2_DATA_REG d;
     st \<leftarrow> mouse_byte data st;
     core \<leftarrow> cores k cpu;
     let thread = current_thread core;
     k \<leftarrow> (if thread \<noteq> idle_thread core
       then do {
         k \<leftarrow> save_context cpu ctx k;
         schedule_add_thread cpu thread k }
       else Some k);
     k \<leftarrow> lapic_eoi cpu k;
     k \<leftarrow> schedule_next_thread h cpu k;
     Some (d, st, k) })"

text \<open>\<open>sizeof(mouse_data_t)\<close>; the result is the packet stored in the buffer, if any.\<close>

definition sizeof_mouse_data :: u64 where "sizeof_mouse_data = 12"

definition dev_mouse_read :: "u64 \<Rightarrow> ps2 \<Rightarrow> (u64 \<times> mouse_data option \<times> ps2) option" where
  "dev_mouse_read size_arg st =
     (if size_arg \<noteq> sizeof_mouse_data then Some (0, None, st)
      else if num_packets (mouse st) = 0 then Some (0, None, st)
      else do {
        (x, q) \<leftarrow> packet_pop (mouse st);
        Some (size_arg, Some x, st\<lparr>mouse := q\<rparr>) })"

subsection \<open>Controller\<close>

fun ps2_wait_loop :: "'d bus \<Rightarrow> nat \<Rightarrow> u8 \<Rightarrow> u8 \<Rightarrow> 'd \<Rightarrow> 'd" where
  "ps2_wait_loop bus 0 status_mask cmp d = d"
| "ps2_wait_loop bus (Suc timeout) status_mask cmp d =
     (let (v, d) = inb bus PS2_CMD_STATUS_REG d
      in if v AND status_mask = cmp then d else ps2_wait_loop bus timeout status_mask cmp d)"

definition ps2_wait :: "'d bus \<Rightarrow> u8 \<Rightarrow> 'd \<Rightarrow> 'd" where
  "ps2_wait bus status_mask d =
     (if status_mask = PS2_STATUS_OUTPUT_BUF \<or> status_mask = PS2_STATUS_INPUT_BUF
      then ps2_wait_loop bus 0x20000 status_mask (of_bool (status_mask = PS2_STATUS_OUTPUT_BUF)) d
      else d)"

definition ps2_write :: "'d bus \<Rightarrow> u8 \<Rightarrow> u8 \<Rightarrow> 'd \<Rightarrow> 'd" where
  "ps2_write bus port val d = outb bus (ucast port) val (ps2_wait bus PS2_STATUS_INPUT_BUF d)"

definition ps2_read :: "'d bus \<Rightarrow> u8 \<Rightarrow> 'd \<Rightarrow> u8 \<times> 'd" where
  "ps2_read bus port d = inb bus (ucast port) (ps2_wait bus PS2_STATUS_OUTPUT_BUF d)"

definition mouse_write :: "'d bus \<Rightarrow> u8 \<Rightarrow> 'd \<Rightarrow> 'd" where
  "mouse_write bus byte d =
     ps2_write bus (ucast PS2_DATA_REG) byte (ps2_write bus (ucast PS2_CMD_STATUS_REG) 0xd4 d)"

definition mouse_read :: "'d bus \<Rightarrow> 'd \<Rightarrow> u8 \<times> 'd" where
  "mouse_read bus d = ps2_read bus (ucast PS2_DATA_REG) d"

definition mouse_send_command :: "'d bus \<Rightarrow> u8 \<Rightarrow> 'd \<Rightarrow> 'd" where
  "mouse_send_command bus byte d = snd (mouse_read bus (mouse_write bus byte d))"

definition ps2_set_command :: "'d bus \<Rightarrow> u8 \<Rightarrow> 'd \<Rightarrow> 'd" where
  "ps2_set_command bus command d = ps2_write bus (ucast PS2_CMD_STATUS_REG) command d"

definition ps2_write_config :: "'d bus \<Rightarrow> u8 \<Rightarrow> 'd \<Rightarrow> 'd" where
  "ps2_write_config bus val d = ps2_write bus (ucast PS2_DATA_REG) val (ps2_set_command bus 0x60 d)"

definition ps2_read_config :: "'d bus \<Rightarrow> 'd \<Rightarrow> u8 \<times> 'd" where
  "ps2_read_config bus d = ps2_read bus (ucast PS2_DATA_REG) (ps2_set_command bus 0x20 d)"

definition init_keyboard_state :: "ps2 \<Rightarrow> ps2" where
  "init_keyboard_state st = st\<lparr>is_capslock := False, is_shift := False\<rparr>"

definition init_ps2 :: "'d bus \<Rightarrow> acpi \<Rightarrow> redtab \<Rightarrow> u64 \<Rightarrow> u64 \<Rightarrow> 'd \<times> ps2 \<times> ioapic_sys \<times> idt_state \<Rightarrow>
    ('d \<times> ps2 \<times> ioapic_sys \<times> idt_state) option" where
  "init_ps2 bus ac stack isr_keyboard isr_mouse = (\<lambda>(d, st, io, idt). do {
     let d = outb bus 0xa1 0xff d;
     let d = outb bus 0x21 0xff d;
     let d = ps2_set_command bus 0xad d;
     let d = ps2_set_command bus 0xa7 d;
     let (config, d) = ps2_read_config bus d;
     let port2_enabled = (config AND 32 \<noteq> 0);
     let config = config OR 1;
     let config = (if port2_enabled then config OR 2 else config);
     let d = ps2_write_config bus config d;
     let d = ps2_set_command bus 0xae d;
     let d = (if port2_enabled then ps2_set_command bus 0xa8 d else d);
     let st = st\<lparr>mouse_data := \<lparr>mflags = 0, delta_x = 0, delta_y = 0\<rparr>\<rparr>;
     let d = mouse_send_command bus 0xf6 d;
     let d = mouse_send_command bus 0xf4 d;
     apic_id \<leftarrow> rd (local_apic_ID ac) 0;
     (vec, idt) \<leftarrow> allocate_vector idt;
     (io, idt) \<leftarrow> ioapic_map_irq ac stack 1 (ucast apic_id) False 0 vec isr_keyboard 0x8e (io, idt);
     (vec, idt) \<leftarrow> allocate_vector idt;
     (io, idt) \<leftarrow> ioapic_map_irq ac stack 12 (ucast apic_id) False 0 vec isr_mouse 0x8e (io, idt);
     let (v, d) = inb bus 0x60 d;
     Some (d, init_keyboard_state st, io, idt) })"

section \<open>The packet queues\<close>

definition pq_inv :: "'a packet_queue \<Rightarrow> bool" where
  "pq_inv q \<longleftrightarrow> length (packets q) = 200 \<and> unat (pq_head q) < 200 \<and> unat (num_packets q) \<le> 200 \<and>
     unat (pq_tail q) = (unat (pq_head q) + unat (num_packets q)) mod 200"

definition pq_contents :: "'a packet_queue \<Rightarrow> 'a list" where
  "pq_contents q = map (\<lambda>i. packets q ! ((unat (pq_head q) + i) mod 200)) [0..<unat (num_packets q)]"

text \<open>The guards of the code: a full queue drops the packet, an empty one delivers nothing.\<close>

definition pq_room :: "'a packet_queue \<Rightarrow> 'a \<Rightarrow> bool" where
  "pq_room q x \<longleftrightarrow> num_packets q < QUEUE_SIZE"

definition pq_put :: "'a packet_queue \<Rightarrow> 'a \<Rightarrow> 'a packet_queue option" where
  "pq_put q x = (if pq_room q x then packet_push x q else Some q)"

definition pq_get :: "'a packet_queue \<Rightarrow> ('a option \<times> 'a packet_queue) option" where
  "pq_get q = (if num_packets q = 0 then Some (None, q)
     else map_option (\<lambda>(x, q'). (Some x, q')) (packet_pop q))"

lemma unat_next_index:
  assumes "unat i < 200"
  shows "unat (if i + 1 \<ge> QUEUE_SIZE then 0 else i + 1) = Suc (unat i) mod 200"
proof -
  have "unat (i + 1) = Suc (unat i)" using unat_add_small [of i 1] assms by simp
  then show ?thesis using assms by (auto simp: QUEUE_SIZE_def word_le_nat_alt mod_Suc)
qed

lemma packet_push_ok:
  assumes inv: "pq_inv q" and room: "num_packets q < QUEUE_SIZE"
  shows "\<exists>q'. packet_push x q = Some q' \<and> pq_inv q' \<and> pq_contents q' = pq_contents q @ [x]"
proof -
  let ?h = "unat (pq_head q)" and ?n = "unat (num_packets q)"
  have n: "?n < 200" using room by (simp add: QUEUE_SIZE_def word_less_nat_alt)
  have q: "length (packets q) = 200" "?h < 200" "unat (pq_tail q) = (?h + ?n) mod 200"
    using inv by (simp_all add: pq_inv_def)
  then have t: "unat (pq_tail q) < 200" by simp
  define q' where "q' = q\<lparr>packets := (packets q)[unat (pq_tail q) := x],
    pq_tail := (if pq_tail q + 1 \<ge> QUEUE_SIZE then 0 else pq_tail q + 1), num_packets := num_packets q + 1\<rparr>"
  have n': "unat (num_packets q') = Suc ?n" using unat_add_small [of "num_packets q" 1] n by (simp add: q'_def)
  have "packet_push x q = Some q'" using q(1) t by (simp add: packet_push_def q'_def)
  moreover have "pq_inv q'"
    using q n n' unat_next_index [OF t] by (simp add: pq_inv_def q'_def mod_Suc_eq)
  moreover have "packets q' ! ((?h + i) mod 200) = packets q ! ((?h + i) mod 200)" if "i < ?n" for i
  proof -
    have "(?h + i) mod 200 \<noteq> (?h + ?n) mod 200" using that n mod_shift_inj [of ?h i 200 ?n] by auto
    then show ?thesis by (simp add: q'_def q(3))
  qed
  then have "pq_contents q' = pq_contents q @ [x]"
    using q t n' by (simp add: pq_contents_def) (simp add: q'_def)
  ultimately show ?thesis by blast
qed

lemma packet_pop_ok:
  assumes inv: "pq_inv q" and ne: "num_packets q \<noteq> 0"
  shows "\<exists>x q'. packet_pop q = Some (x, q') \<and> pq_inv q' \<and> pq_contents q = x # pq_contents q'"
proof -
  let ?h = "unat (pq_head q)" and ?n = "unat (num_packets q)"
  have n: "0 < ?n" using ne by (simp add: unat_gt_0)
  have q: "length (packets q) = 200" "?h < 200" "?n \<le> 200" "unat (pq_tail q) = (?h + ?n) mod 200"
    using inv by (simp_all add: pq_inv_def)
  define q' where "q' = q\<lparr>pq_head := (if pq_head q + 1 \<ge> QUEUE_SIZE then 0 else pq_head q + 1),
    num_packets := num_packets q - 1\<rparr>"
  have n': "unat (num_packets q') = ?n - 1" using n by (simp add: q'_def unat_sub word_le_nat_alt)
  have h': "unat (pq_head q') = Suc ?h mod 200" using unat_next_index [OF q(2)] by (simp add: q'_def)
  have "packet_pop q = Some (packets q ! ?h, q')" using q(1,2) by (simp add: packet_pop_def q'_def)
  moreover have "(Suc ?h mod 200 + (?n - 1)) mod 200 = (?h + ?n) mod 200"
    using mod_add_left_eq [of "Suc ?h" 200 "?n - 1"] n by simp
  then have "pq_inv q'"
    using q n' h' by (simp add: pq_inv_def) (simp add: q'_def)
  moreover have "pq_contents q = packets q ! ?h # pq_contents q'"
  proof -
    have "[0..<?n] = 0 # map Suc [0..<?n - 1]" using n by (cases ?n) (simp_all add: upt_conv_Cons map_Suc_upt)
    then show ?thesis using q n' h' by (simp add: pq_contents_def mod_simps) (simp add: q'_def)
  qed
  ultimately show ?thesis by blast
qed

lemma pq_contents_empty: "pq_contents q = [] \<longleftrightarrow> num_packets q = 0"
  by (simp add: pq_contents_def unat_eq_0)

lemma length_pq_contents [simp]: "length (pq_contents q) = unat (num_packets q)"
  by (simp add: pq_contents_def)

interpretation pq: bounded_fifo pq_inv pq_contents pq_room pq_put pq_get
proof
  show "\<exists>q'. pq_put q x = Some q' \<and> pq_inv q' \<and> pq_contents q' = pq_contents q @ [x]"
    if "pq_inv q" "pq_room q x" for q :: "'a packet_queue" and x
    using packet_push_ok [OF that(1), of x] that(2) by (simp add: pq_put_def pq_room_def)
  show "\<exists>q'. pq_get q = Some (None, q') \<and> pq_inv q' \<and> pq_contents q' = []"
    if "pq_inv q" "pq_contents q = []" for q :: "'a packet_queue"
    using that by (simp add: pq_get_def pq_contents_empty)
  show "\<exists>q'. pq_get q = Some (Some x, q') \<and> pq_inv q' \<and> pq_contents q' = xs"
    if "pq_inv q" "pq_contents q = x # xs" for q :: "'a packet_queue" and x xs
    using packet_pop_ok [OF that(1)] that(2) pq_contents_empty [of q] by (auto simp: pq_get_def)
  show "\<exists>q'. pq_put q x = Some q' \<and> pq_inv q' \<and> pq_contents q' = pq_contents q"
    if "pq_inv q" "\<not> pq_room q x" for q :: "'a packet_queue" and x
    using that by (simp add: pq_put_def)
qed

section \<open>Keys\<close>

text \<open>
  The character of a key: a letter is capital when exactly one of shift and caps lock is on, any
  other key follows shift alone.
\<close>

definition is_letter :: "u8 \<Rightarrow> bool" where "is_letter ch \<longleftrightarrow> 97 \<le> ch \<and> ch \<le> 122"

definition key_char :: "bool \<Rightarrow> bool \<Rightarrow> u8 \<Rightarrow> u8" where
  "key_char caps shift c =
     (let plain = char_no_capslock ! unat c
      in if is_letter plain then (if caps \<noteq> shift then plain - 32 else plain)
         else if shift then char_shift ! unat c else plain)"

fun key_chars :: "bool \<Rightarrow> bool \<Rightarrow> u8 list \<Rightarrow> u8 list" where
  "key_chars caps shift [] = []"
| "key_chars caps shift (c # codes) =
     (let caps' = (caps \<noteq> (c = 0x3A)); shift' = (if c = 0x2A then True else if c = 0xAA then False else shift)
      in (if c \<le> 0x39 then [key_char caps' shift' c] else []) @ key_chars caps' shift' codes)"

definition key_table :: "bool \<Rightarrow> bool \<Rightarrow> u8 list" where
  "key_table caps shift = (if caps \<and> shift then char_shift_capslock else if caps then char_capslock
     else if shift then char_shift else char_no_capslock)"

lemma length_key_table: "length (key_table caps shift) = 58"
  by (simp add: key_table_def char_capslock_def char_no_capslock_def char_shift_def char_shift_capslock_def chars_def)

lemma key_table_zip:
  "key_table caps shift = map (\<lambda>(p, s). if is_letter p then (if caps \<noteq> shift then p - 32 else p)
     else if shift then s else p) (zip char_no_capslock char_shift)"
  by (cases caps; cases shift; simp add: key_table_def char_capslock_def char_no_capslock_def char_shift_def
    char_shift_capslock_def chars_def is_letter_def)

lemma key_table_char:
  assumes "unat c < 58"
  shows "key_table caps shift ! unat c = key_char caps shift c"
proof -
  have "length char_no_capslock = 58" "length char_shift = 58"
    using length_key_table [of False False] length_key_table [of False True] by (simp_all add: key_table_def)
  then show ?thesis using assms unfolding key_table_zip by (simp add: key_char_def Let_def)
qed

lemma keyboard_scan_ok:
  assumes inv: "pq_inv (keyboard st)" and room: "unat (num_packets (keyboard st)) + length (key_chars (is_capslock st) (is_shift st) [c]) \<le> 200"
  shows "\<exists>st'. keyboard_scan c st = Some st' \<and> pq_inv (keyboard st') \<and>
    is_capslock st' = (is_capslock st \<noteq> (c = 0x3A)) \<and>
    is_shift st' = (if c = 0x2A then True else if c = 0xAA then False else is_shift st) \<and>
    pq_contents (keyboard st') = pq_contents (keyboard st) @ key_chars (is_capslock st) (is_shift st) [c] \<and>
    mouse st' = mouse st \<and> mouse_cycle st' = mouse_cycle st \<and> mouse_discard st' = mouse_discard st"
proof -
  define caps where "caps = (is_capslock st \<noteq> (c = 0x3A))"
  define shift where "shift = (if c = 0x2A then True else if c = 0xAA then False else is_shift st)"
  define st1 where "st1 = st\<lparr>is_capslock := caps, is_shift := shift\<rparr>"
  have st1: "(if c = 0x3A then st\<lparr>is_capslock := \<not> is_capslock st\<rparr>
       else if c = 0x2A then st\<lparr>is_shift := True\<rparr>
       else if c = 0xAA then st\<lparr>is_shift := False\<rparr> else st) = st1"
    by (auto simp: st1_def caps_def shift_def)
  have kc: "key_chars (is_capslock st) (is_shift st) [c] = (if c \<le> 0x39 then [key_char caps shift c] else [])"
    by (simp add: caps_def shift_def)
  show ?thesis
  proof (cases "c \<le> 0x39")
    case True
    then have c: "unat c < 58" by (simp add: word_le_nat_alt)
    have r: "num_packets (keyboard st) < QUEUE_SIZE"
      using room True unfolding kc by (simp add: QUEUE_SIZE_def word_less_nat_alt)
    obtain q where q: "packet_push (key_char caps shift c) (keyboard st) = Some q" "pq_inv q"
        "pq_contents q = pq_contents (keyboard st) @ [key_char caps shift c]"
      using packet_push_ok [OF inv r] by blast
    have rd: "rd (key_table caps shift) (unat c) = Some (key_char caps shift c)"
      using c length_key_table key_table_char [OF c] by simp
    have "keyboard_scan c st = Some (st1\<lparr>keyboard_data := key_char caps shift c, keyboard := q\<rparr>)"
      using True r q(1) rd 
      by (cases caps; cases shift; simp add: keyboard_scan_def st1 Let_def; simp add: st1_def key_table_def)
    then show ?thesis using q True unfolding kc by (simp add: st1_def caps_def shift_def)
  next
    case False
    then have "keyboard_scan c st = Some st1" by (simp add: keyboard_scan_def st1 Let_def)
    then show ?thesis using False inv unfolding kc by (simp add: st1_def caps_def shift_def)
  qed
qed

lemma keyboard_scan_total:
  assumes "pq_inv (keyboard st)"
  shows "\<exists>st'. keyboard_scan c st = Some st' \<and> pq_inv (keyboard st') \<and> mouse st' = mouse st"
proof (cases "unat (num_packets (keyboard st)) < 200 \<or> \<not> c \<le> 0x39")
  case True
  then have "unat (num_packets (keyboard st)) + length (key_chars (is_capslock st) (is_shift st) [c]) \<le> 200"
    using assms by (auto simp: pq_inv_def)
  from keyboard_scan_ok [OF assms this] show ?thesis by blast
next
  case False
  then have "\<not> num_packets (keyboard st) < QUEUE_SIZE" by (simp add: QUEUE_SIZE_def word_less_nat_alt)
  then show ?thesis using assms by (auto simp: keyboard_scan_def Let_def)
qed

text \<open>Scan codes one after the other, and reads of one packet each.\<close>

fun scan_all :: "u8 list \<Rightarrow> ps2 \<Rightarrow> ps2 option" where
  "scan_all [] st = Some st"
| "scan_all (c # codes) st = Option.bind (keyboard_scan c st) (scan_all codes)"

fun read_keys :: "nat \<Rightarrow> ps2 \<Rightarrow> (u8 list \<times> ps2) option" where
  "read_keys 0 st = Some ([], st)"
| "read_keys (Suc n) st = do {
     (count, buff, st) \<leftarrow> dev_keyboard_read [0] 1 st;
     (xs, st) \<leftarrow> read_keys n st;
     Some (take count buff @ xs, st) }"

lemma scan_all_ok:
  "pq_inv (keyboard st) \<Longrightarrow>
    unat (num_packets (keyboard st)) + length (key_chars (is_capslock st) (is_shift st) codes) \<le> 200 \<Longrightarrow>
    \<exists>st'. scan_all codes st = Some st' \<and> pq_inv (keyboard st') \<and>
      pq_contents (keyboard st') = pq_contents (keyboard st) @ key_chars (is_capslock st) (is_shift st) codes"
proof (induction codes arbitrary: st)
  case Nil
  then show ?case by simp
next
  case (Cons c codes)
  let ?one = "key_chars (is_capslock st) (is_shift st) [c]"
  let ?caps = "is_capslock st \<noteq> (c = 0x3A)"
    and ?shift = "if c = 0x2A then True else if c = 0xAA then False else is_shift st"
  have split: "key_chars (is_capslock st) (is_shift st) (c # codes) = ?one @ key_chars ?caps ?shift codes"
    by (simp add: Let_def)
  have r: "unat (num_packets (keyboard st)) + length ?one \<le> 200"
    using Cons.prems(2) unfolding split by simp
  obtain st1 where st1: "keyboard_scan c st = Some st1" "pq_inv (keyboard st1)" "is_capslock st1 = ?caps"
      "is_shift st1 = ?shift" "pq_contents (keyboard st1) = pq_contents (keyboard st) @ ?one"
    using keyboard_scan_ok [OF Cons.prems(1) r] by blast
  have "unat (num_packets (keyboard st1)) = unat (num_packets (keyboard st)) + length ?one"
    using arg_cong [OF st1(5), of length] by simp
  then have "\<exists>st'. scan_all codes st1 = Some st' \<and> pq_inv (keyboard st') \<and>
      pq_contents (keyboard st') = pq_contents (keyboard st1) @ key_chars (is_capslock st1) (is_shift st1) codes"
    using Cons.prems(2) unfolding split st1(3,4) by (intro Cons.IH [OF st1(2), unfolded st1(3,4)]) simp
  then show ?case using st1(1,5) unfolding split st1(3,4) by auto
qed

lemma dev_keyboard_read_one:
  "dev_keyboard_read [0] 1 st = map_option (\<lambda>(x, q). case x of
     None \<Rightarrow> (0, [0], st\<lparr>keyboard := q\<rparr>) | Some ch \<Rightarrow> (1, [ch], st\<lparr>keyboard := q\<rparr>)) (pq_get (keyboard st))"
  by (cases "packet_pop (keyboard st)")
    (auto simp: dev_keyboard_read_def pq_get_def QUEUE_SIZE_def keyboard_read_loop.simps [of 0]
      keyboard_read_loop.simps [of "Suc 0"])

lemma read_keys_ok:
  "pq_inv (keyboard st) \<Longrightarrow> \<exists>q. read_keys n st = Some (take n (pq_contents (keyboard st)), st\<lparr>keyboard := q\<rparr>) \<and>
    pq_inv q \<and> pq_contents q = drop n (pq_contents (keyboard st))"
proof (induction n arbitrary: st)
  case 0
  then show ?case by (intro exI [of _ "keyboard st"]) simp
next
  case (Suc n)
  show ?case
  proof (cases "pq_contents (keyboard st)")
    case Nil
    obtain q where q: "pq_get (keyboard st) = Some (None, q)" "pq_inv q" "pq_contents q = []"
      using pq.get_empty [OF Suc.prems Nil] by blast
    have "\<exists>q'. read_keys n (st\<lparr>keyboard := q\<rparr>) = Some ([], st\<lparr>keyboard := q'\<rparr>) \<and> pq_inv q' \<and> pq_contents q' = []"
      using Suc.IH [of "st\<lparr>keyboard := q\<rparr>"] q by simp
    then show ?thesis using q Nil by (auto simp: dev_keyboard_read_one)
  next
    case (Cons x xs)
    obtain q where q: "pq_get (keyboard st) = Some (Some x, q)" "pq_inv q" "pq_contents q = xs"
      using pq.get_first [OF Suc.prems Cons] by blast
    have "\<exists>q'. read_keys n (st\<lparr>keyboard := q\<rparr>) = Some (take n xs, st\<lparr>keyboard := q'\<rparr>) \<and> pq_inv q' \<and> pq_contents q' = drop n xs"
      using Suc.IH [of "st\<lparr>keyboard := q\<rparr>"] q by simp
    then show ?thesis using q Cons by (auto simp: dev_keyboard_read_one)
  qed
qed

text \<open>
  A read of any size: what it delivers, and which buffers it fits. Packet \<open>i\<close> goes to byte \<open>8 * i\<close>.
\<close>

definition spread :: "nat \<Rightarrow> u8 list \<Rightarrow> u8 list \<Rightarrow> u8 list \<Rightarrow> bool" where
  "spread from xs b b' \<longleftrightarrow> length b' = length b \<and>
     (\<forall>i<length b. b' ! i = (if i mod 8 = 0 \<and> from \<le> i div 8 \<and> i div 8 < from + length xs
        then xs ! (i div 8 - from) else b ! i))"

lemma spread_Nil [simp]: "spread from [] b b' \<longleftrightarrow> b' = b"
  by (auto simp: spread_def intro: nth_equalityI)

lemma spread_Cons:
  assumes "8 * n < length b" "spread (Suc n) xs (b[8 * n := x]) b'"
  shows "spread n (x # xs) b b'"
  unfolding spread_def
proof (intro conjI allI impI)
  show "length b' = length b" using assms(2) by (simp add: spread_def)
  fix i assume i: "i < length b"
  have b': "b' ! i = (if i mod 8 = 0 \<and> Suc n \<le> i div 8 \<and> i div 8 < Suc n + length xs
      then xs ! (i div 8 - Suc n) else b[8 * n := x] ! i)"
    using assms(2) i by (simp add: spread_def)
  show "b' ! i = (if i mod 8 = 0 \<and> n \<le> i div 8 \<and> i div 8 < n + length (x # xs)
      then (x # xs) ! (i div 8 - n) else b ! i)"
  proof (cases "i = 8 * n")
    case True
    then show ?thesis using b' i by simp
  next
    case False
    then have ne: "i mod 8 = 0 \<Longrightarrow> i div 8 \<noteq> n" by auto
    have sub: "i div 8 - n = Suc (i div 8 - Suc n)" if "Suc n \<le> i div 8" using that by simp
    show ?thesis
    proof (cases "i mod 8 = 0 \<and> Suc n \<le> i div 8")
      case True
      then show ?thesis using b' False by (simp add: sub)
    next
      case False
      then have "\<not> (i mod 8 = 0 \<and> n \<le> i div 8 \<and> i div 8 < n + length (x # xs))" using ne by auto
      then show ?thesis using b' False \<open>i \<noteq> 8 * n\<close> by auto
    qed
  qed
qed

lemma keyboard_read_loop_ok:
  "pq_inv q \<Longrightarrow> pq_contents q = xs \<Longrightarrow> n \<le> unat s \<Longrightarrow> ys = take (unat s - n) xs \<Longrightarrow>
    if ys = [] \<or> 8 * (n + length ys - 1) < length b
    then \<exists>b' q'. keyboard_read_loop n s b q = Some (n + length ys, b', q') \<and> pq_inv q' \<and>
      pq_contents q' = drop (unat s - n) xs \<and> spread n ys b b'
    else keyboard_read_loop n s b q = None"
proof (induction xs arbitrary: n b q ys)
  case Nil
  then have "num_packets q = 0" by (simp add: pq_contents_empty)
  then show ?case using Nil by (auto simp: keyboard_read_loop.simps [of n])
next
  case (Cons x xs)
  show ?case
  proof (cases "n = unat s")
    case True
    then show ?thesis using Cons.prems by (auto simp: keyboard_read_loop.simps [of "unat s"])
  next
    case False
    then have lt: "n < unat s" using Cons.prems(3) by simp
    then have sub: "unat s - n = Suc (unat s - Suc n)" by simp
    have nz: "num_packets q \<noteq> 0" using Cons.prems(2) pq_contents_empty [of q] by auto
    obtain q1 where q1: "packet_pop q = Some (x, q1)" "pq_inv q1" "pq_contents q1 = xs"
      using packet_pop_ok [OF Cons.prems(1) nz] Cons.prems(2) by auto
    define zs where "zs = take (unat s - Suc n) xs"
    have ys: "ys = x # zs" using Cons.prems(4) sub by (simp add: zs_def)
    have step: "keyboard_read_loop n s b q = Option.bind (wr b (8 * n) x) (\<lambda>b. keyboard_read_loop (Suc n) s b q1)"
      using lt nz q1(1) by (simp add: keyboard_read_loop.simps [of n])
    show ?thesis
    proof (cases "8 * n < length b")
      case False
      then show ?thesis using step ys by (simp add: wr_def)
    next
      case True
      have IH: "if zs = [] \<or> 8 * (Suc n + length zs - 1) < length (b[8 * n := x])
        then \<exists>b' q'. keyboard_read_loop (Suc n) s (b[8 * n := x]) q1 = Some (Suc n + length zs, b', q') \<and> pq_inv q' \<and>
          pq_contents q' = drop (unat s - Suc n) xs \<and> spread (Suc n) zs (b[8 * n := x]) b'
        else keyboard_read_loop (Suc n) s (b[8 * n := x]) q1 = None"
        by (rule Cons.IH [OF q1(2,3) _ zs_def]) (use lt in simp)
      have run: "keyboard_read_loop n s b q = keyboard_read_loop (Suc n) s (b[8 * n := x]) q1"
        using step True by (simp add: wr_def)
      have fit: "(ys = [] \<or> 8 * (n + length ys - 1) < length b) \<longleftrightarrow> (zs = [] \<or> 8 * (Suc n + length zs - 1) < length (b[8 * n := x]))"
        using ys True by (cases zs) auto
      show ?thesis
      proof (cases "zs = [] \<or> 8 * (Suc n + length zs - 1) < length (b[8 * n := x])")
        case yes: True
        obtain b' q' where r: "keyboard_read_loop (Suc n) s (b[8 * n := x]) q1 = Some (Suc n + length zs, b', q')" "pq_inv q'"
            "pq_contents q' = drop (unat s - Suc n) xs" "spread (Suc n) zs (b[8 * n := x]) b'"
          using IH yes by (metis (no_types, lifting))
        have "spread n ys b b'" unfolding ys by (rule spread_Cons [OF True r(4)])
        moreover have "ys = [] \<or> 8 * (n + length ys - 1) < length b" using fit yes by blast
        moreover have "keyboard_read_loop n s b q = Some (n + length ys, b', q')" using run r(1) ys by simp
        moreover have "pq_contents q' = drop (unat s - n) (x # xs)" using r(3) sub by simp
        ultimately show ?thesis using r(2) by (simp only: if_True) blast
      next
        case no: False
        then show ?thesis using IH fit run by (metis (no_types, lifting))
      qed
    qed
  qed
qed

section \<open>Mouse packets\<close>

definition good_flags :: "u8 \<Rightarrow> bool" where
  "good_flags b \<longleftrightarrow> \<not> (b AND 8 = 0 \<or> b AND 64 \<noteq> 0 \<or> b AND 128 \<noteq> 0)"

fun mouse_bytes :: "u8 list \<Rightarrow> ps2 \<Rightarrow> ps2 option" where
  "mouse_bytes [] st = Some st"
| "mouse_bytes (b # bs) st = Option.bind (mouse_byte b st) (mouse_bytes bs)"

definition packet_bytes :: "u8 \<times> u8 \<times> u8 \<Rightarrow> u8 list" where
  "packet_bytes p = [fst p, fst (snd p), snd (snd p)]"

definition decode_packet :: "u8 \<times> u8 \<times> u8 \<Rightarrow> mouse_data" where
  "decode_packet p = \<lparr>mflags = fst p, delta_x = sint (fst (snd p)), delta_y = sint (snd (snd p))\<rparr>"

lemma mouse_bytes_append: "mouse_bytes (xs @ ys) st = Option.bind (mouse_bytes xs st) (mouse_bytes ys)"
proof (induction xs arbitrary: st)
  case (Cons b xs)
  then show ?case by (cases "mouse_byte b st") simp_all
qed simp

lemma mouse_packet_ok:
  assumes "mouse_cycle st = 0" "good_flags (fst p)" "pq_inv (mouse st)" "num_packets (mouse st) < QUEUE_SIZE"
  shows "\<exists>st'. mouse_bytes (packet_bytes p) st = Some st' \<and> mouse_cycle st' = 0 \<and> pq_inv (mouse st') \<and>
    \<not> mouse_discard st' \<and> pq_contents (mouse st') =
      pq_contents (mouse st) @ (if mouse_discard st then [] else [decode_packet p])"
proof (cases "mouse_discard st")
  case True
  then show ?thesis using assms by (simp add: packet_bytes_def mouse_byte_def good_flags_def)
next
  case False
  obtain q where q: "packet_push (decode_packet p) (mouse st) = Some q" "pq_inv q"
      "pq_contents q = pq_contents (mouse st) @ [decode_packet p]"
    using packet_push_ok [OF assms(3,4)] by blast
  have "(mouse_data st)\<lparr>mflags := fst p, delta_x := sint (fst (snd p)), delta_y := sint (snd (snd p))\<rparr> = decode_packet p"
    by (simp add: decode_packet_def)
  moreover have "\<not> QUEUE_SIZE \<le> num_packets (mouse st)" using assms(4) by simp
  ultimately show ?thesis using False assms q by (simp add: packet_bytes_def mouse_byte_def good_flags_def Let_def)
qed

lemma mouse_stream_ok:
  "mouse_cycle st = 0 \<Longrightarrow> list_all (\<lambda>p. good_flags (fst p)) ps \<Longrightarrow> pq_inv (mouse st) \<Longrightarrow>
    unat (num_packets (mouse st)) + length ps \<le> 200 \<Longrightarrow>
    \<exists>st'. mouse_bytes (concat (map packet_bytes ps)) st = Some st' \<and> mouse_cycle st' = 0 \<and> pq_inv (mouse st') \<and>
      mouse_discard st' = (mouse_discard st \<and> ps = []) \<and>
      pq_contents (mouse st') = pq_contents (mouse st) @ map decode_packet (if mouse_discard st then tl ps else ps)"
proof (induction ps arbitrary: st)
  case Nil
  then show ?case by simp
next
  case (Cons p ps)
  have room: "num_packets (mouse st) < QUEUE_SIZE" using Cons.prems(4) by (simp add: QUEUE_SIZE_def word_less_nat_alt)
  obtain st1 where st1: "mouse_bytes (packet_bytes p) st = Some st1" "mouse_cycle st1 = 0" "pq_inv (mouse st1)"
      "\<not> mouse_discard st1" "pq_contents (mouse st1) =
        pq_contents (mouse st) @ (if mouse_discard st then [] else [decode_packet p])"
    using mouse_packet_ok [OF Cons.prems(1) _ Cons.prems(3) room, of p] Cons.prems(2) by auto
  have "unat (num_packets (mouse st1)) + length ps \<le> 200"
    using arg_cong [OF st1(5), of length] Cons.prems(4) by (simp split: if_splits)
  then show ?case using Cons.IH [OF st1(2) _ st1(3)] Cons.prems(2) st1 by (auto simp: mouse_bytes_append)
qed

lemma mouse_bad_bytes:
  "mouse_cycle st = 0 \<Longrightarrow> list_all (\<lambda>b. \<not> good_flags b) bad \<Longrightarrow>
    \<exists>st'. mouse_bytes bad st = Some st' \<and> mouse_cycle st' = 0 \<and> mouse st' = mouse st \<and>
      mouse_discard st' = (mouse_discard st \<or> bad \<noteq> [])"
proof (induction bad arbitrary: st)
  case Nil
  then show ?case by simp
next
  case (Cons b bad)
  then have "mouse_byte b st = Some (st\<lparr>mouse_data := (mouse_data st)\<lparr>mflags := b\<rparr>, mouse_discard := True\<rparr>)"
    by (simp add: mouse_byte_def good_flags_def)
  then show ?case using Cons.IH [of "st\<lparr>mouse_data := (mouse_data st)\<lparr>mflags := b\<rparr>, mouse_discard := True\<rparr>"] Cons.prems
    by simp
qed

lemma mouse_byte_total:
  assumes "pq_inv (mouse st)"
  shows "\<exists>st'. mouse_byte b st = Some st' \<and> pq_inv (mouse st') \<and> keyboard st' = keyboard st"
proof (cases "num_packets (mouse st) < QUEUE_SIZE")
  case True
  let ?x = "(mouse_data st)\<lparr>delta_y := sint b\<rparr>"
  obtain q where q: "packet_push ?x (mouse st) = Some q" "pq_inv q" using packet_push_ok [OF assms True] by blast
  show ?thesis using True assms q by (auto simp: mouse_byte_def Let_def)
next
  case False
  then show ?thesis using assms by (auto simp: mouse_byte_def Let_def)
qed

section \<open>The handlers and the scheduler\<close>

lemma device_interrupt_ends:
  assumes inv: "sched_inv k q" and co: "cores k c = Some co"
  shows "\<exists>k'. do { k \<leftarrow> (if idle_thread co \<noteq> current_thread co then schedule_add_thread c (current_thread co) k else Some k);
      k \<leftarrow> lapic_eoi c k; schedule_next_thread h c k } = Some k' \<and> sched_inv k' (tl (next_queue k c q)) \<and> same_joined k k'"
proof -
  obtain ths hd l where a: "requeue_current c k = Some (k\<lparr>threads := ths, head := hd, tail := l\<rparr>)"
      "inv_at (- {c}) (k\<lparr>threads := ths, head := hd, tail := l\<rparr>) (next_queue k c q)"
    using requeue_current_at [OF inv _ co] by (auto simp: Compl_eq_Diff_UNIV)
  let ?k = "k\<lparr>threads := ths, head := hd, tail := l\<rparr>"
  have co1: "cores ?k c = Some co" using co by simp
  obtain k2 where k2: "lapic_eoi c ?k = Some k2" "apic_only c co ?k k2"
    using apic_only_eoi [OF apic_only_refl [OF co1]] by blast
  obtain co2 where co2: "cores k2 c = Some co2" "same_joined ?k k2" using apic_only_view(5,6) [OF k2(2) co1] by blast
  obtain k' where k': "schedule_next_thread h c k2 = Some k'" "sched_inv k' (tl (next_queue k c q))" "same_joined k2 k'"
    using schedule_next_thread_inv [OF inv_at_apic [OF a(2) co1 k2(2)] co2(1), of h] by auto
  have "same_joined k k'" using co2(2) k'(3) by (simp add: same_joined_def)
  then show ?thesis using a(1) k2(1) k'(1,2) co by (auto simp: requeue_current_def)
qed

lemma keyboard_handler_ok:
  assumes inv: "sched_inv k q" and co: "cores k c \<noteq> None" and ps: "pq_inv (keyboard st)"
  shows "\<exists>d' st' k'. keyboard_handler bus h c ctx (d, st, k) = Some (d', st', k') \<and>
    keyboard_scan (fst (inb bus PS2_DATA_REG d)) st = Some st' \<and> pq_inv (keyboard st') \<and> mouse st' = mouse st \<and>
    sched_inv k' (tl (next_queue k c q)) \<and> same_joined k k'"
proof -
  obtain code d' where i: "inb bus PS2_DATA_REG d = (code, d')" by (cases "inb bus PS2_DATA_REG d")
  obtain st' where st': "keyboard_scan code st = Some st'" "pq_inv (keyboard st')" "mouse st' = mouse st"
    using keyboard_scan_total [OF ps] by blast
  obtain co where co: "cores k c = Some co" using co by auto
  obtain k1 t th th' where k1: "save_context c ctx k = Some k1" "sched_inv k1 q"
    "k1 = k\<lparr>threads := (threads k)(t \<mapsto> th')\<rparr>"
    using save_context_inv [OF inv co] by blast
  have v: "cores k1 c = Some co" "next_queue k1 c q = next_queue k c q" "same_joined k k1"
    using co k1(3) by (simp_all add: next_queue_def cur_def idl_def same_joined_def)
  obtain k' where "do { k \<leftarrow> (if idle_thread co \<noteq> current_thread co
        then schedule_add_thread c (current_thread co) k1 else Some k1);
      k \<leftarrow> lapic_eoi c k; schedule_next_thread h c k } = Some k'" "sched_inv k' (tl (next_queue k c q))" "same_joined k k'"
    using device_interrupt_ends [OF k1(2) v(1), of h] v(2,3) by (auto simp: same_joined_def)
  then show ?thesis
    using i st' k1(1) v(1) by (auto simp: keyboard_handler_def bind_eq_Some_conv)
qed

lemma mouse_handler_ok:
  assumes inv: "sched_inv k q" and co: "cores k c \<noteq> None" and ps: "pq_inv (mouse st)"
  shows "\<exists>d' st' k'. mouse_handler bus h c ctx (d, st, k) = Some (d', st', k') \<and>
    mouse_byte (fst (inb bus PS2_DATA_REG d)) st = Some st' \<and> pq_inv (mouse st') \<and> keyboard st' = keyboard st \<and>
    sched_inv k' (tl (next_queue k c q)) \<and> same_joined k k'"
proof -
  obtain b d' where i: "inb bus PS2_DATA_REG d = (b, d')" by (cases "inb bus PS2_DATA_REG d")
  obtain st' where st': "mouse_byte b st = Some st'" "pq_inv (mouse st')" "keyboard st' = keyboard st"
    using mouse_byte_total [OF ps] by blast
  obtain co where co: "cores k c = Some co" using co by auto
  obtain k1 t th' where k1: "save_context c ctx k = Some k1" "sched_inv k1 q"
    "k1 = k\<lparr>threads := (threads k)(t \<mapsto> th')\<rparr>"
    using save_context_inv [OF inv co] by blast
  have v: "cores k1 c = Some co" "next_queue k1 c q = next_queue k c q" "same_joined k k1"
    using co k1(3) by (simp_all add: next_queue_def cur_def idl_def same_joined_def)
  show ?thesis
  proof (cases "idle_thread co = current_thread co")
    case True
    then show ?thesis
      using i st' co device_interrupt_ends [OF inv co, of h]
      by (auto simp: mouse_handler_def bind_eq_Some_conv)
  next
    case False
    then show ?thesis
      using i st' co k1(1) v device_interrupt_ends [OF k1(2) v(1), of h]
      by (auto simp: mouse_handler_def bind_eq_Some_conv same_joined_def)
  qed
qed

text \<open>Both handlers are sequences of the scheduler's steps, between which other cores may move.\<close>

lemma leaving_steps:
  assumes "p c = Running" "sched_step h (k, p) (k1, p(c := Leaving))" "lapic_eoi c k1 = Some k2" "schedule_next_thread h c k2 = Some k'"
  shows "(sched_step h)\<^sup>*\<^sup>* (k, p) (k', p)"
proof -
  have "sched_step h (k1, p(c := Leaving)) (k2, p(c := Leaving))"
    by (rule sched_step.eoi) (use assms(3) in simp_all)
  moreover have "sched_step h (k2, p(c := Leaving)) (k', (p(c := Leaving))(c := Running))"
    by (rule sched_step.switch) (use assms(4) in simp_all)
  moreover have "(p(c := Leaving))(c := Running) = p" using assms(1) by auto
  ultimately show ?thesis using assms(2) by (metis converse_rtranclp_into_rtranclp r_into_rtranclp)
qed

lemma keyboard_handler_steps:
  assumes "p c = Running" "keyboard_handler bus h c ctx (d, st, k) = Some (d', st', k')"
  shows "(sched_step h)\<^sup>*\<^sup>* (k, p) (k', p)"
proof -
  obtain k0 k1 k2 where k: "save_context c ctx k = Some k0" "requeue_current c k0 = Some k1" "lapic_eoi c k1 = Some k2"
      "schedule_next_thread h c k2 = Some k'"
    using assms(2) by (auto simp: keyboard_handler_def requeue_current_def Let_def bind_eq_Some_conv split: prod.splits)
  show ?thesis by (rule leaving_steps [OF assms(1) sched_step.device [where p = p, OF assms(1) k(1,2)] k(3,4)])
qed

lemma mouse_handler_steps:
  assumes "p c = Running" "mouse_handler bus h c ctx (d, st, k) = Some (d', st', k')"
  shows "(sched_step h)\<^sup>*\<^sup>* (k, p) (k', p)"
proof (cases "idl k c = cur k c")
  case True
  obtain k2 where k: "cores k c \<noteq> None" "lapic_eoi c k = Some k2" "schedule_next_thread h c k2 = Some k'"
    using assms(2) True by (auto simp: mouse_handler_def idl_def cur_def Let_def bind_eq_Some_conv split: prod.splits if_splits)
  show ?thesis by (rule leaving_steps [OF assms(1) sched_step.idle_device [where p = p, OF assms(1) k(1) True] k(2,3)])
next
  case False
  obtain co k0 k1 k2 where k: "cores k c = Some co" "save_context c ctx k = Some k0"
      "schedule_add_thread c (current_thread co) k0 = Some k1" "lapic_eoi c k1 = Some k2" "schedule_next_thread h c k2 = Some k'"
    using assms(2) False by (auto simp: mouse_handler_def idl_def cur_def Let_def bind_eq_Some_conv split: prod.splits if_splits)
  have "cores k0 = cores k" using k(2) by (auto simp: save_context_def upd_thread_def bind_eq_Some_conv)
  then have "requeue_current c k0 = Some k1" using k(1,3) False by (simp add: requeue_current_def idl_def cur_def)
  from leaving_steps [OF assms(1) sched_step.device [where p = p, OF assms(1) k(2) this] k(4,5)] show ?thesis .
qed

section \<open>Properties\<close>

text \<open>
  C27: typing and reading. From a keyboard queue with room, a sequence of scan codes queues exactly the
  characters of its printable keys under the shift and caps lock state at each key (a letter is
  capital when exactly one of them is on). A read of \<open>size\<close> packets into a buffer of bytes \<open>b\<close> then
  returns 0 for 200 or more, and otherwise takes the first \<open>size\<close> queued characters, or all when there
  are fewer, in order. It stores character \<open>i\<close> at byte \<open>8 * i\<close> and leaves the other bytes, since
  \<open>ps2.c:162\<close> advances a pointer to 64-bit words: a buffer with a byte for each character is only
  enough for one, and where byte \<open>8 * i\<close> of the last character is outside the buffer the read is
  undefined. Reads of one packet each deliver the characters one by one.
\<close>

theorem keyboard_types:
  assumes "pq_inv (keyboard st)"
    and "unat (num_packets (keyboard st)) + length (key_chars (is_capslock st) (is_shift st) codes) \<le> 200"
    and queued: "queued = pq_contents (keyboard st) @ key_chars (is_capslock st) (is_shift st) codes"
    and out: "out = take (unat size_arg) queued"
  shows "\<exists>st'. scan_all codes st = Some st' \<and> pq_contents (keyboard st') = queued \<and>
    (if 200 \<le> unat size_arg then dev_keyboard_read b size_arg st' = Some (0, b, st')
     else if out = [] \<or> 8 * (length out - 1) < length b
     then \<exists>b' q. dev_keyboard_read b size_arg st' = Some (length out, b', st'\<lparr>keyboard := q\<rparr>) \<and> pq_inv q \<and>
       pq_contents q = drop (unat size_arg) queued \<and> length b' = length b \<and>
       (\<forall>i<length b. b' ! i = (if i mod 8 = 0 \<and> i div 8 < length out then out ! (i div 8) else b ! i))
     else dev_keyboard_read b size_arg st' = None) \<and>
    (\<exists>q. read_keys n st' = Some (take n queued, st'\<lparr>keyboard := q\<rparr>) \<and> pq_inv q \<and> pq_contents q = drop n queued)"
proof -
  obtain st' where st': "scan_all codes st = Some st'" "pq_inv (keyboard st')" "pq_contents (keyboard st') = queued"
    using scan_all_ok [OF assms(1,2)] queued by blast
  have l: "if out = [] \<or> 8 * (length out - 1) < length b
    then \<exists>b' q'. keyboard_read_loop 0 size_arg b (keyboard st') = Some (length out, b', q') \<and> pq_inv q' \<and>
      pq_contents q' = drop (unat size_arg) queued \<and> spread 0 out b b'
    else keyboard_read_loop 0 size_arg b (keyboard st') = None"
  proof -
    have o: "out = take (unat size_arg - 0) queued" using out by simp
    show ?thesis using keyboard_read_loop_ok [OF st'(2,3) le0 o, of b] unfolding add_0 diff_zero .
  qed
  have q: "size_arg < QUEUE_SIZE \<longleftrightarrow> \<not> 200 \<le> unat size_arg" by (simp add: QUEUE_SIZE_def word_less_nat_alt not_le)
  have "if 200 \<le> unat size_arg then dev_keyboard_read b size_arg st' = Some (0, b, st')
     else if out = [] \<or> 8 * (length out - 1) < length b
     then \<exists>b' q. dev_keyboard_read b size_arg st' = Some (length out, b', st'\<lparr>keyboard := q\<rparr>) \<and> pq_inv q \<and>
       pq_contents q = drop (unat size_arg) queued \<and> length b' = length b \<and>
       (\<forall>i<length b. b' ! i = (if i mod 8 = 0 \<and> i div 8 < length out then out ! (i div 8) else b ! i))
     else dev_keyboard_read b size_arg st' = None"
  proof (cases "200 \<le> unat size_arg")
    case True
    then show ?thesis using q by (simp add: dev_keyboard_read_def)
  next
    case False
    then have d: "dev_keyboard_read b size_arg st' = Option.bind (keyboard_read_loop 0 size_arg b (keyboard st'))
        (\<lambda>(count, buff, q). Some (count, buff, st'\<lparr>keyboard := q\<rparr>))"
      using q by (simp add: dev_keyboard_read_def)
    show ?thesis
    proof (cases "out = [] \<or> 8 * (length out - 1) < length b")
      case fits: True
      then obtain b' q' where "keyboard_read_loop 0 size_arg b (keyboard st') = Some (length out, b', q')" "pq_inv q'"
          "pq_contents q' = drop (unat size_arg) queued" "spread 0 out b b'"
        using l by (metis (no_types, lifting))
      then show ?thesis using d False fits by (auto simp: spread_def)
    next
      case no: False
      then have "keyboard_read_loop 0 size_arg b (keyboard st') = None" using l by (metis (no_types, lifting))
      then show ?thesis using d False no by simp
    qed
  qed
  with st' read_keys_ok [OF st'(2), of n] show ?thesis by auto
qed

definition ps2_start :: ps2 where
  "ps2_start = \<lparr>is_capslock = False, is_shift = False, keyboard_data = 0,
     keyboard = \<lparr>packets = replicate 200 0, pq_head = 0, pq_tail = 0, num_packets = 0\<rparr>,
     mouse_data = \<lparr>mflags = 0, delta_x = 0, delta_y = 0\<rparr>, mouse_cycle = 0, mouse_discard = False,
     mouse = \<lparr>packets = replicate 200 \<lparr>mflags = 0, delta_x = 0, delta_y = 0\<rparr>, pq_head = 0, pq_tail = 0, num_packets = 0\<rparr>\<rparr>"

text \<open>
  Keys h and i; the release of the i, whose code is above the printable range, is dropped. A read of
  two packets fills bytes 0 and 8 of a buffer of nine, and is undefined for a buffer of two.
\<close>

theorem keyboard_types_witness:
  "\<exists>st' q r b. scan_all [0x23, 0x17, 0x97] ps2_start = Some st' \<and>
    read_keys 5 st' = Some (chars ''hi'', st'\<lparr>keyboard := q\<rparr>) \<and>
    dev_keyboard_read (replicate 9 0) 2 st' = Some (2, b, st'\<lparr>keyboard := r\<rparr>) \<and> b ! 0 = 0x68 \<and> b ! 8 = 0x69"
proof -
  have k: "key_chars False False [0x23, 0x17, 0x97] = [0x68, 0x69]" "chars ''hi'' = [0x68, 0x69]" by code_simp+
  have st: "pq_inv (keyboard ps2_start)" "pq_contents (keyboard ps2_start) = []" "num_packets (keyboard ps2_start) = 0"
      "is_capslock ps2_start = False" "is_shift ps2_start = False"
    by (simp_all add: ps2_start_def pq_inv_def pq_contents_def)
  have room: "unat (num_packets (keyboard ps2_start)) + length (key_chars (is_capslock ps2_start) (is_shift ps2_start)
      [0x23, 0x17, 0x97]) \<le> 200" using st k by simp
  have qd: "[0x68, 0x69] = pq_contents (keyboard ps2_start) @ key_chars (is_capslock ps2_start) (is_shift ps2_start) [0x23, 0x17, 0x97]"
    using st k by simp
  have o: "[0x68, 0x69] = take (unat (2 :: u64)) [0x68, 0x69 :: u8]" by simp
  have two: "length [0x68, 0x69 :: u8] = 2" "unat (2 :: u64) = 2" by simp_all
  from keyboard_types [OF st(1) room qd o, of "replicate 9 0" 5, unfolded two] obtain st' b r q where
    st': "scan_all [0x23, 0x17, 0x97] ps2_start = Some st'"
      "dev_keyboard_read (replicate 9 0) 2 st' = Some (2, b, st'\<lparr>keyboard := r\<rparr>)"
      "\<forall>i<length (replicate 9 (0 :: u8)). b ! i =
        (if i mod 8 = 0 \<and> i div 8 < 2 then [0x68, 0x69] ! (i div 8) else replicate 9 0 ! i)"
      "read_keys 5 st' = Some (take 5 [0x68, 0x69], st'\<lparr>keyboard := q\<rparr>)"
    by (auto simp del: scan_all.simps)
  have "b ! 0 = 0x68" "b ! 8 = 0x69" using st'(3) [rule_format, of 0] st'(3) [rule_format, of 8] by simp_all
  with st' k(2) show ?thesis by auto
qed

text \<open>
  The mouse. A stream of well-formed three-byte packets, for which the queue has room, is queued
  decoded and in order. Bytes that cannot start a packet are skipped, but they leave the discard
  flag set, and the flag then drops the first well-formed packet that follows them.
\<close>

lemma mouse_decodes:
  assumes "mouse_cycle st = 0" "\<not> mouse_discard st" "pq_inv (mouse st)"
    and "list_all (\<lambda>b. \<not> good_flags b) bad" "list_all (\<lambda>p. good_flags (fst p)) ps"
    and "unat (num_packets (mouse st)) + length ps \<le> 200"
  shows "\<exists>st'. mouse_bytes (bad @ concat (map packet_bytes ps)) st = Some st' \<and> mouse_cycle st' = 0 \<and>
    pq_inv (mouse st') \<and> pq_contents (mouse st') =
      pq_contents (mouse st) @ map decode_packet (if bad = [] then ps else tl ps)"
proof -
  obtain st1 where st1: "mouse_bytes bad st = Some st1" "mouse_cycle st1 = 0" "mouse st1 = mouse st"
      "mouse_discard st1 = (bad \<noteq> [])"
    using mouse_bad_bytes [OF assms(1,4)] assms(2) by auto
  have "\<exists>st'. mouse_bytes (concat (map packet_bytes ps)) st1 = Some st' \<and> mouse_cycle st' = 0 \<and> pq_inv (mouse st') \<and>
      mouse_discard st' = (mouse_discard st1 \<and> ps = []) \<and>
      pq_contents (mouse st') = pq_contents (mouse st1) @ map decode_packet (if mouse_discard st1 then tl ps else ps)"
    using assms(3,5,6) st1(2,3) by (intro mouse_stream_ok) simp_all
  then show ?thesis using st1 by (auto simp: mouse_bytes_append)
qed

text \<open>
  C24: an interrupt of the keyboard or of the mouse, on a core whose scheduler state is sound, returns
  to a thread: the handler decodes the byte it read, keeps its queue well formed and the other
  device's queue untouched, and leaves the scheduler sound, with the interrupted thread at the end
  of the ready queue unless it was the idle thread.
\<close>

theorem ps2_handlers_return:
  assumes "sched_inv k q" "cores k c \<noteq> None" "pq_inv (keyboard st)" "pq_inv (mouse st)"
  shows "(\<exists>d' st' k'. keyboard_handler bus h c ctx (d, st, k) = Some (d', st', k') \<and>
      keyboard_scan (fst (inb bus PS2_DATA_REG d)) st = Some st' \<and> pq_inv (keyboard st') \<and> mouse st' = mouse st \<and>
      sched_inv k' (tl (next_queue k c q)) \<and> same_joined k k') \<and>
    (\<exists>d' st' k'. mouse_handler bus h c ctx (d, st, k) = Some (d', st', k') \<and>
      mouse_byte (fst (inb bus PS2_DATA_REG d)) st = Some st' \<and> pq_inv (mouse st') \<and> keyboard st' = keyboard st \<and>
      sched_inv k' (tl (next_queue k c q)) \<and> same_joined k k')"
  by (rule conjI [OF keyboard_handler_ok [OF assms(1-3)] mouse_handler_ok [OF assms(1,2,4)]])

theorem ps2_handlers_return_witness:
  "\<exists>d' st' k'. keyboard_handler \<lparr>inb = (\<lambda>port d. (0x23, d)), outb = (\<lambda>port v d. d)\<rparr> 0 0 zero_ctx
      ((), ps2_start, busy_core) = Some (d', st', k') \<and> sched_inv k' (tl (next_queue busy_core 0 [3]))"
proof -
  have s: "pq_inv (keyboard ps2_start)" "pq_inv (mouse ps2_start)"
    by (simp_all add: ps2_start_def pq_inv_def)
  have c: "cores busy_core 0 \<noteq> None" by (simp add: busy_core_def)
  show ?thesis
    using ps2_handlers_return [OF busy_core_inv c s, of "\<lparr>inb = (\<lambda>port d. (0x23, d)), outb = (\<lambda>port v d. d)\<rparr>"
      0 zero_ctx "()"] by blast
qed

definition poll :: "'d bus \<Rightarrow> 'd \<Rightarrow> 'd" where "poll bus d = snd (inb bus PS2_CMD_STATUS_REG d)"

definition ready :: "'d bus \<Rightarrow> u8 \<Rightarrow> 'd \<Rightarrow> bool" where
  "ready bus m d \<longleftrightarrow> (fst (inb bus PS2_CMD_STATUS_REG d) AND m = (if m = PS2_STATUS_OUTPUT_BUF then m else 0))"

lemma ps2_wait_loop_polls:
  assumes "cmp = (if m = PS2_STATUS_OUTPUT_BUF then m else 0)"
  shows "\<exists>n\<le>timeout. ps2_wait_loop bus timeout m cmp d = (poll bus ^^ n) d \<and>
    (\<forall>i. Suc i < n \<longrightarrow> \<not> ready bus m ((poll bus ^^ i) d)) \<and>
    (n < timeout \<longrightarrow> 0 < n \<and> ready bus m ((poll bus ^^ (n - 1)) d))"
proof (induction timeout arbitrary: d)
  case 0
  then show ?case by simp
next
  case (Suc timeout)
  show ?case
  proof (cases "ready bus m d")
    case True
    then have "ps2_wait_loop bus (Suc timeout) m cmp d = poll bus d"
      by (simp add: ready_def poll_def assms split_def Let_def)
    then show ?thesis using True by (intro exI [of _ 1]) simp
  next
    case False
    obtain n where n: "n \<le> timeout" "ps2_wait_loop bus timeout m cmp (poll bus d) = (poll bus ^^ n) (poll bus d)"
      "\<And>i. Suc i < n \<Longrightarrow> \<not> ready bus m ((poll bus ^^ i) (poll bus d))"
      "n < timeout \<Longrightarrow> 0 < n \<and> ready bus m ((poll bus ^^ (n - 1)) (poll bus d))"
      using Suc.IH [of "poll bus d"] by blast
    have s: "(poll bus ^^ j) (poll bus d) = (poll bus ^^ Suc j) d" for j by (simp only: funpow_Suc_right o_apply)
    have "ps2_wait_loop bus (Suc timeout) m cmp d = (poll bus ^^ Suc n) d"
      using False n(2) unfolding s by (simp add: ready_def poll_def assms split_def Let_def)
    moreover have "\<not> ready bus m ((poll bus ^^ i) d)" if "Suc i < Suc n" for i
      using that False n(3) [of "i - 1"] unfolding s by (cases i) simp_all
    moreover have "ready bus m ((poll bus ^^ n) d)" if "Suc n < Suc timeout"
      using that n(4) unfolding s by (cases n) simp_all
    ultimately show ?thesis using n(1) by (intro exI [of _ "Suc n"]) simp
  qed
qed

text \<open>
  C37: \<open>ps2_wait\<close> always returns: it polls the status port at most \<open>0x20000\<close> times, the polls before
  the last one found the controller not ready (the output buffer empty, or the input buffer full),
  and if it stopped early the last poll found it ready.
\<close>

theorem ps2_wait_bounded:
  assumes "m = PS2_STATUS_OUTPUT_BUF \<or> m = PS2_STATUS_INPUT_BUF"
  shows "\<exists>n\<le>0x20000. ps2_wait bus m d = (poll bus ^^ n) d \<and>
    (\<forall>i. Suc i < n \<longrightarrow> \<not> ready bus m ((poll bus ^^ i) d)) \<and>
    (n < 0x20000 \<longrightarrow> 0 < n \<and> ready bus m ((poll bus ^^ (n - 1)) d))"
proof -
  have c: "of_bool (m = PS2_STATUS_OUTPUT_BUF) = (if m = PS2_STATUS_OUTPUT_BUF then m else 0)"
    by (simp add: PS2_STATUS_OUTPUT_BUF_def)
  show ?thesis
    using ps2_wait_loop_polls [OF c, of "0x20000" bus d] assms by (simp add: ps2_wait_def)
qed

theorem ps2_wait_bounded_witness:
  "\<exists>n\<le>0x20000. ps2_wait \<lparr>inb = (\<lambda>port d. (0, d + 1)), outb = (\<lambda>port v d. d)\<rparr> PS2_STATUS_INPUT_BUF (0 :: nat) =
    (poll \<lparr>inb = (\<lambda>port d. (0, d + 1)), outb = (\<lambda>port v d. d)\<rparr> ^^ n) 0"
  using ps2_wait_bounded [of PS2_STATUS_INPUT_BUF "\<lparr>inb = (\<lambda>port d. (0, d + 1)), outb = (\<lambda>port v d. d)\<rparr>" "0 :: nat"]
  by blast

end
