(* ===== verification/Rect.thy ===== *)
theory Rect
  imports Prelude
begin

text \<open>
  \<open>src/libGUI/Rect.cpp\<close>: the rectangles with which the window system clips its drawing. Coordinates
  are C++ \<open>int\<close>s; a computation that leaves their range is undefined behaviour. The lemmas relate
  every operation to the set of pixels of a rectangle.
\<close>

section \<open>Definitions\<close>

record rect =
  rx :: int
  ry :: int
  rwidth :: int
  rheight :: int

definition mk_rect :: "int \<Rightarrow> int \<Rightarrow> int \<Rightarrow> int \<Rightarrow> rect" where
  "mk_rect x y w h = \<lparr>rx = x, ry = y, rwidth = w, rheight = h\<rparr>"

definition getX :: "rect \<Rightarrow> int" where "getX r = rx r"
definition getY :: "rect \<Rightarrow> int" where "getY r = ry r"
definition getWidth :: "rect \<Rightarrow> int" where "getWidth r = rwidth r"
definition getHeight :: "rect \<Rightarrow> int" where "getHeight r = rheight r"
definition getLeft :: "rect \<Rightarrow> int" where "getLeft r = rx r"
definition getRight :: "rect \<Rightarrow> int option" where "getRight r = c_int (rx r + rwidth r)"
definition getTop :: "rect \<Rightarrow> int" where "getTop r = ry r"
definition getBottom :: "rect \<Rightarrow> int option" where "getBottom r = c_int (ry r + rheight r)"

definition copy_rect :: "rect \<Rightarrow> rect" where
  "copy_rect r = mk_rect (getLeft r) (getTop r) (getWidth r) (getHeight r)"

definition assign_rect :: "rect \<Rightarrow> rect \<Rightarrow> rect" where
  "assign_rect other r = r\<lparr>rx := rx other, ry := ry other, rwidth := rwidth other, rheight := rheight other\<rparr>"

definition setX :: "int \<Rightarrow> rect \<Rightarrow> rect" where "setX v r = r\<lparr>rx := v\<rparr>"
definition setY :: "int \<Rightarrow> rect \<Rightarrow> rect" where "setY v r = r\<lparr>ry := v\<rparr>"
definition setWidth :: "int \<Rightarrow> rect \<Rightarrow> rect" where "setWidth v r = r\<lparr>rwidth := v\<rparr>"
definition setHeight :: "int \<Rightarrow> rect \<Rightarrow> rect" where "setHeight v r = r\<lparr>rheight := v\<rparr>"
definition setPosition :: "int \<Rightarrow> int \<Rightarrow> rect \<Rightarrow> rect" where "setPosition px py r = r\<lparr>rx := px, ry := py\<rparr>"

definition setLeft :: "int \<Rightarrow> rect \<Rightarrow> rect option" where
  "setLeft left r = do {
     d \<leftarrow> c_int (rx r - left);
     w \<leftarrow> c_int (rwidth r + d);
     Some (r\<lparr>rwidth := w, rx := left\<rparr>) }"

definition setRight :: "int \<Rightarrow> rect \<Rightarrow> rect option" where
  "setRight right r = do {
     w \<leftarrow> c_int (right - rx r);
     Some (r\<lparr>rwidth := w\<rparr>) }"

definition setTop :: "int \<Rightarrow> rect \<Rightarrow> rect option" where
  "setTop new_top r = do {
     d \<leftarrow> c_int (ry r - new_top);
     h \<leftarrow> c_int (rheight r + d);
     Some (r\<lparr>rheight := h, ry := new_top\<rparr>) }"

definition setBottom :: "int \<Rightarrow> rect \<Rightarrow> rect option" where
  "setBottom bottom r = do {
     h \<leftarrow> c_int (bottom - ry r);
     Some (r\<lparr>rheight := h\<rparr>) }"

definition equals :: "rect \<Rightarrow> rect \<Rightarrow> bool" where
  "equals r other \<longleftrightarrow> rx r = rx other \<and> ry r = ry other \<and> rwidth r = rwidth other \<and> rheight r = rheight other"

text \<open>The four steps that clip a rectangle to another one, in the orders the two functions use.\<close>

definition clip_left :: "rect \<Rightarrow> rect \<Rightarrow> rect option" where
  "clip_left this r = (if getLeft r < getLeft this then setLeft (getLeft this) r else Some r)"

definition clip_right :: "rect \<Rightarrow> rect \<Rightarrow> rect option" where
  "clip_right this r = do {
     a \<leftarrow> getRight r;
     b \<leftarrow> getRight this;
     if a > b then setRight b r else Some r }"

definition clip_top :: "rect \<Rightarrow> rect \<Rightarrow> rect option" where
  "clip_top this r = (if getTop r < getTop this then setTop (getTop this) r else Some r)"

definition clip_bottom :: "rect \<Rightarrow> rect \<Rightarrow> rect option" where
  "clip_bottom this r = do {
     a \<leftarrow> getBottom r;
     b \<leftarrow> getBottom this;
     if a > b then setBottom b r else Some r }"

definition getOverlapRect :: "rect \<Rightarrow> rect \<Rightarrow> rect \<Rightarrow> (bool \<times> rect) option" where
  "getOverlapRect this res r = do {
     let res = assign_rect r res;
     res \<leftarrow> clip_left this res;
     res \<leftarrow> clip_right this res;
     res \<leftarrow> clip_top this res;
     res \<leftarrow> clip_bottom this res;
     Some (True, res) }"

definition restrictRect :: "rect \<Rightarrow> rect \<Rightarrow> rect option" where
  "restrictRect this other = do {
     other \<leftarrow> clip_top this other;
     other \<leftarrow> clip_bottom this other;
     other \<leftarrow> clip_left this other;
     clip_right this other }"

text \<open>The regions are written to the caller's array one after the other.\<close>

definition split_left :: "rect \<Rightarrow> rect \<times> rect list \<Rightarrow> (rect \<times> rect list) option" where
  "split_left cutr = (\<lambda>(this, rs). do {
     right \<leftarrow> getRight this;
     if getLeft cutr > getLeft this \<and> getLeft cutr < right
     then do {
       newWidth \<leftarrow> c_int (getLeft cutr - getLeft this);
       let clipped = mk_rect (getX this) (getY this) newWidth (getHeight this);
       this \<leftarrow> setLeft (getLeft cutr) this;
       Some (this, rs @ [clipped]) }
     else Some (this, rs) })"

definition split_top :: "rect \<Rightarrow> rect \<times> rect list \<Rightarrow> (rect \<times> rect list) option" where
  "split_top cutr = (\<lambda>(this, rs). do {
     bottom \<leftarrow> getBottom this;
     if getTop cutr > getTop this \<and> getTop cutr < bottom
     then do {
       newHeight \<leftarrow> c_int (getTop cutr - getTop this);
       let clipped = mk_rect (getX this) (getY this) (getWidth this) newHeight;
       this \<leftarrow> setTop (getTop cutr) this;
       Some (this, rs @ [clipped]) }
     else Some (this, rs) })"

definition split_right :: "rect \<Rightarrow> rect \<times> rect list \<Rightarrow> (rect \<times> rect list) option" where
  "split_right cutr = (\<lambda>(this, rs). do {
     cr \<leftarrow> getRight cutr;
     right \<leftarrow> getRight this;
     if cr > getLeft this \<and> cr < right
     then do {
       let newX = cr;
       newWidth \<leftarrow> c_int (right - newX);
       let clipped = mk_rect newX (getY this) newWidth (getHeight this);
       this \<leftarrow> setRight cr this;
       Some (this, rs @ [clipped]) }
     else Some (this, rs) })"

definition split_bottom :: "rect \<Rightarrow> rect \<times> rect list \<Rightarrow> (rect \<times> rect list) option" where
  "split_bottom cutr = (\<lambda>(this, rs). do {
     cb \<leftarrow> getBottom cutr;
     bottom \<leftarrow> getBottom this;
     if cb > getTop this \<and> cb < bottom
     then do {
       let newY = cb;
       newHeight \<leftarrow> c_int (bottom - newY);
       let clipped = mk_rect (getX this) newY (getWidth this) newHeight;
       this \<leftarrow> setBottom cb this;
       Some (this, rs @ [clipped]) }
     else Some (this, rs) })"

definition getSplitRects :: "rect \<Rightarrow> rect \<Rightarrow> rect list option" where
  "getSplitRects this cutr = do {
     s \<leftarrow> split_left cutr (copy_rect this, []);
     s \<leftarrow> split_top cutr s;
     s \<leftarrow> split_right cutr s;
     (this, rs) \<leftarrow> split_bottom cutr s;
     Some rs }"

definition overlaps :: "rect \<Rightarrow> rect \<Rightarrow> bool option" where
  "overlaps this r = do {
     rr \<leftarrow> getRight r;
     tr \<leftarrow> getRight this;
     rb \<leftarrow> getBottom r;
     tb \<leftarrow> getBottom this;
     Some (getLeft this < rr \<and> tr > getLeft r \<and> getTop this < rb \<and> tb > getTop r) }"

definition contains :: "rect \<Rightarrow> rect \<Rightarrow> bool option" where
  "contains this r = do {
     rr \<leftarrow> getRight r;
     tr \<leftarrow> getRight this;
     rb \<leftarrow> getBottom r;
     tb \<leftarrow> getBottom this;
     Some (getTop this \<le> getTop r \<and> tb \<ge> rb \<and> getLeft this \<le> getLeft r \<and> tr \<ge> rr) }"

section \<open>Pixels\<close>

definition pixels :: "rect \<Rightarrow> (int \<times> int) set" where
  "pixels r = {(a, b). rx r \<le> a \<and> a < rx r + rwidth r \<and> ry r \<le> b \<and> b < ry r + rheight r}"

text \<open>Coordinates and sizes of screens: far from the ends of \<open>int\<close>. A proper rectangle has pixels.\<close>

definition small :: "rect \<Rightarrow> bool" where
  "small r \<longleftrightarrow> \<bar>rx r\<bar> \<le> 0x10000000 \<and> \<bar>ry r\<bar> \<le> 0x10000000 \<and> \<bar>rx r + rwidth r\<bar> \<le> 0x10000000 \<and> \<bar>ry r + rheight r\<bar> \<le> 0x10000000"

definition proper :: "rect \<Rightarrow> bool" where
  "proper r \<longleftrightarrow> small r \<and> 0 < rwidth r \<and> 0 < rheight r"

lemmas rect_gets = getX_def getY_def getWidth_def getHeight_def getLeft_def getTop_def

lemma right_bottom [simp]:
  "small r \<Longrightarrow> getRight r = Some (rx r + rwidth r)" "small r \<Longrightarrow> getBottom r = Some (ry r + rheight r)"
  by (auto simp: small_def getRight_def getBottom_def c_int_def)

lemma c_int_small: "\<bar>i\<bar> \<le> 0x40000000 \<Longrightarrow> c_int i = Some i"
  unfolding c_int_def by (auto simp: abs_le_iff)

lemma set_ok:
  assumes "small r" "\<bar>v\<bar> \<le> 0x10000000"
  shows "setLeft v r = Some (r\<lparr>rx := v, rwidth := rx r + rwidth r - v\<rparr>)"
    "setRight v r = Some (r\<lparr>rwidth := v - rx r\<rparr>)"
    "setTop v r = Some (r\<lparr>ry := v, rheight := ry r + rheight r - v\<rparr>)"
    "setBottom v r = Some (r\<lparr>rheight := v - ry r\<rparr>)"
proof -
  have s: "\<bar>rx r\<bar> \<le> 0x10000000" "\<bar>ry r\<bar> \<le> 0x10000000" "\<bar>rx r + rwidth r\<bar> \<le> 0x10000000" "\<bar>ry r + rheight r\<bar> \<le> 0x10000000"
    using assms(1) by (simp_all add: small_def)
  have i: "\<bar>rx r - v\<bar> \<le> 0x40000000" "\<bar>rwidth r + (rx r - v)\<bar> \<le> 0x40000000" "\<bar>v - rx r\<bar> \<le> 0x40000000"
    "\<bar>ry r - v\<bar> \<le> 0x40000000" "\<bar>rheight r + (ry r - v)\<bar> \<le> 0x40000000" "\<bar>v - ry r\<bar> \<le> 0x40000000"
    using s assms(2) unfolding abs_le_iff by linarith+
  note c = i [THEN c_int_small]
  show "setLeft v r = Some (r\<lparr>rx := v, rwidth := rx r + rwidth r - v\<rparr>)"
    "setRight v r = Some (r\<lparr>rwidth := v - rx r\<rparr>)"
    "setTop v r = Some (r\<lparr>ry := v, rheight := ry r + rheight r - v\<rparr>)"
    "setBottom v r = Some (r\<lparr>rheight := v - ry r\<rparr>)"
    unfolding setLeft_def setRight_def setTop_def setBottom_def
    by (simp_all only: bind.bind_lunit c) (simp_all add: algebra_simps)
qed

lemma clip_ok:
  assumes "small this" "small r"
  shows "clip_left this r = Some (r\<lparr>rx := max (rx r) (rx this), rwidth := rx r + rwidth r - max (rx r) (rx this)\<rparr>)"
    "clip_right this r = Some (r\<lparr>rwidth := min (rx r + rwidth r) (rx this + rwidth this) - rx r\<rparr>)"
    "clip_top this r = Some (r\<lparr>ry := max (ry r) (ry this), rheight := ry r + rheight r - max (ry r) (ry this)\<rparr>)"
    "clip_bottom this r = Some (r\<lparr>rheight := min (ry r + rheight r) (ry this + rheight this) - ry r\<rparr>)"
proof -
  have s: "\<bar>rx this\<bar> \<le> 0x10000000" "\<bar>ry this\<bar> \<le> 0x10000000" "\<bar>rx this + rwidth this\<bar> \<le> 0x10000000"
    "\<bar>ry this + rheight this\<bar> \<le> 0x10000000"
    using assms(1) by (simp_all add: small_def)
  show "clip_left this r = Some (r\<lparr>rx := max (rx r) (rx this), rwidth := rx r + rwidth r - max (rx r) (rx this)\<rparr>)"
    using set_ok(1) [OF assms(2) s(1)] by (simp add: clip_left_def rect_gets max_def)
  show "clip_right this r = Some (r\<lparr>rwidth := min (rx r + rwidth r) (rx this + rwidth this) - rx r\<rparr>)"
    using assms set_ok(2) [OF assms(2) s(3)] by (simp add: clip_right_def min_def)
  show "clip_top this r = Some (r\<lparr>ry := max (ry r) (ry this), rheight := ry r + rheight r - max (ry r) (ry this)\<rparr>)"
    using set_ok(3) [OF assms(2) s(2)] by (simp add: clip_top_def rect_gets max_def)
  show "clip_bottom this r = Some (r\<lparr>rheight := min (ry r + rheight r) (ry this + rheight this) - ry r\<rparr>)"
    using assms set_ok(4) [OF assms(2) s(4)] by (simp add: clip_bottom_def min_def)
qed

text \<open>The intersection, clipped in the horizontal and in the vertical direction.\<close>

definition inter :: "rect \<Rightarrow> rect \<Rightarrow> rect" where
  "inter this r = mk_rect (max (rx r) (rx this)) (max (ry r) (ry this))
     (min (rx r + rwidth r) (rx this + rwidth this) - max (rx r) (rx this))
     (min (ry r + rheight r) (ry this + rheight this) - max (ry r) (ry this))"

lemma pixels_inter: "pixels (inter this r) = pixels this \<inter> pixels r"
  by (auto simp: pixels_def inter_def mk_rect_def)

lemma small_x: "small r \<Longrightarrow> \<bar>a\<bar> \<le> 0x10000000 \<Longrightarrow> \<bar>b\<bar> \<le> 0x10000000 \<Longrightarrow> small (r\<lparr>rx := a, rwidth := b - a\<rparr>)"
  and small_w: "small r \<Longrightarrow> \<bar>b\<bar> \<le> 0x10000000 \<Longrightarrow> small (r\<lparr>rwidth := b - rx r\<rparr>)"
  and small_y: "small r \<Longrightarrow> \<bar>a\<bar> \<le> 0x10000000 \<Longrightarrow> \<bar>b\<bar> \<le> 0x10000000 \<Longrightarrow> small (r\<lparr>ry := a, rheight := b - a\<rparr>)"
  and small_h: "small r \<Longrightarrow> \<bar>b\<bar> \<le> 0x10000000 \<Longrightarrow> small (r\<lparr>rheight := b - ry r\<rparr>)"
  by (simp_all add: small_def)

lemma small_bounds:
  "small r \<Longrightarrow> small s \<Longrightarrow> \<bar>max (rx r) (rx s)\<bar> \<le> 0x10000000" "small r \<Longrightarrow> small s \<Longrightarrow> \<bar>max (ry r) (ry s)\<bar> \<le> 0x10000000"
  "small r \<Longrightarrow> small s \<Longrightarrow> \<bar>min (rx r + rwidth r) (rx s + rwidth s)\<bar> \<le> 0x10000000"
  "small r \<Longrightarrow> small s \<Longrightarrow> \<bar>min (ry r + rheight r) (ry s + rheight s)\<bar> \<le> 0x10000000"
  by (auto simp: small_def max_def min_def)

lemma getOverlapRect_inter:
  assumes "small this" "small r"
  shows "getOverlapRect this res r = Some (True, inter this r)"
proof -
  let ?l = "max (rx r) (rx this)" and ?r = "min (rx r + rwidth r) (rx this + rwidth this)"
  let ?t = "max (ry r) (ry this)" and ?b = "min (ry r + rheight r) (ry this + rheight this)"
  have a: "assign_rect r res = r" by (cases r; cases res) (simp add: assign_rect_def)
  let ?r1 = "r\<lparr>rx := ?l, rwidth := rx r + rwidth r - ?l\<rparr>"
  have e: "\<bar>rx r + rwidth r\<bar> \<le> 0x10000000" "\<bar>ry r + rheight r\<bar> \<le> 0x10000000"
    using assms(2) by (simp_all add: small_def)
  have s1: "small ?r1" by (rule small_x [OF assms(2) small_bounds(1) [OF assms(2,1)] e(1)])
  let ?r2 = "?r1\<lparr>rwidth := ?r - ?l\<rparr>"
  have s2: "small ?r2" using small_w [OF s1 small_bounds(3) [OF assms(2,1)]] by simp
  let ?r3 = "?r2\<lparr>ry := ?t, rheight := ry r + rheight r - ?t\<rparr>"
  have s3: "small ?r3" by (rule small_y [OF s2 small_bounds(2) [OF assms(2,1)] e(2)])
  have "clip_left this r = Some ?r1" "clip_right this ?r1 = Some ?r2" "clip_top this ?r2 = Some ?r3"
    "clip_bottom this ?r3 = Some (?r3\<lparr>rheight := ?b - ?t\<rparr>)"
    using clip_ok(1) [OF assms] clip_ok(2) [OF assms(1) s1] clip_ok(3) [OF assms(1) s2] clip_ok(4) [OF assms(1) s3]
    by simp_all
  then show ?thesis unfolding getOverlapRect_def a by (simp add: inter_def mk_rect_def)
qed

lemma overlaps_iff:
  assumes "proper this" "proper r"
  shows "overlaps this r = Some (pixels this \<inter> pixels r \<noteq> {})"
proof -
  have s: "small this" "small r" "0 < rwidth this" "0 < rheight this" "0 < rwidth r" "0 < rheight r"
    using assms by (simp_all add: proper_def)
  have "(max (rx this) (rx r), max (ry this) (ry r)) \<in> pixels this \<inter> pixels r"
    if "rx this < rx r + rwidth r" "rx this + rwidth this > rx r" "ry this < ry r + rheight r"
      "ry this + rheight this > ry r"
    using that s(3-6) by (auto simp: pixels_def)
  moreover have "rx this < rx r + rwidth r \<and> rx this + rwidth this > rx r \<and> ry this < ry r + rheight r \<and>
      ry this + rheight this > ry r" if "p \<in> pixels this \<inter> pixels r" for p
    using that by (auto simp: pixels_def)
  ultimately have "pixels this \<inter> pixels r \<noteq> {} \<longleftrightarrow> rx this < rx r + rwidth r \<and> rx this + rwidth this > rx r \<and>
      ry this < ry r + rheight r \<and> ry this + rheight this > ry r"
    by blast
  then show ?thesis using s(1,2) by (simp add: overlaps_def rect_gets)
qed

lemma contains_iff:
  assumes "proper this" "proper r"
  shows "contains this r = Some (pixels r \<subseteq> pixels this)"
proof -
  have s: "small this" "small r" "0 < rwidth r" "0 < rheight r"
    using assms by (simp_all add: proper_def)
  have "ry this \<le> ry r \<and> ry r + rheight r \<le> ry this + rheight this \<and> rx this \<le> rx r \<and>
      rx r + rwidth r \<le> rx this + rwidth this" if sub: "pixels r \<subseteq> pixels this"
  proof -
    have "(rx r, ry r) \<in> pixels r" "(rx r + rwidth r - 1, ry r + rheight r - 1) \<in> pixels r"
      using s(3,4) by (simp_all add: pixels_def)
    then have "(rx r, ry r) \<in> pixels this" "(rx r + rwidth r - 1, ry r + rheight r - 1) \<in> pixels this"
      using sub by auto
    then show ?thesis by (simp add: pixels_def)
  qed
  moreover have "pixels r \<subseteq> pixels this" if "ry this \<le> ry r" "ry r + rheight r \<le> ry this + rheight this"
      "rx this \<le> rx r" "rx r + rwidth r \<le> rx this + rwidth this"
    using that by (auto simp: pixels_def)
  ultimately have "(getTop this \<le> getTop r \<and> ry this + rheight this \<ge> ry r + rheight r \<and>
      getLeft this \<le> getLeft r \<and> rx this + rwidth this \<ge> rx r + rwidth r) = (pixels r \<subseteq> pixels this)"
    unfolding rect_gets by blast
  then show ?thesis using s(1,2) by (simp add: contains_def)
qed

section \<open>Cutting a rectangle out of another\<close>

text \<open>What each step of \<open>getSplitRects\<close> leaves and cuts off.\<close>

definition cuts :: "rect \<Rightarrow> rect \<times> rect list \<Rightarrow> rect \<times> rect list \<Rightarrow> bool" where
  "cuts cutr s s' \<longleftrightarrow> proper (fst s') \<and> pixels (fst s') \<inter> pixels cutr = pixels (fst s) \<inter> pixels cutr \<and>
     (s' = s \<or> (\<exists>p. snd s' = snd s @ [p] \<and> pixels p \<union> pixels (fst s') = pixels (fst s) \<and>
       pixels p \<inter> pixels (fst s') = {} \<and> pixels p \<inter> pixels cutr = {} \<and> proper p))"

lemma cutsI:
  assumes "proper r'" "proper p" "pixels p \<union> pixels r' = pixels r" "pixels p \<inter> pixels r' = {}" "pixels p \<inter> pixels cutr = {}"
  shows "cuts cutr (r, rs) (r', rs @ [p])"
  using assms by (auto simp: cuts_def)

lemma cuts_refl: "proper r \<Longrightarrow> cuts cutr (r, rs) (r, rs)"
  by (simp add: cuts_def)

lemma split_left_cuts:
  assumes "proper r" "proper cutr" "pixels r \<inter> pixels cutr \<noteq> {}"
  shows "\<exists>r' rs'. split_left cutr (r, rs) = Some (r', rs') \<and> cuts cutr (r, rs) (r', rs') \<and> rx cutr \<le> rx r'"
proof (cases "rx r < rx cutr")
  case True
  have s: "small r" "small cutr" using assms by (simp_all add: proper_def)
  have lt: "rx cutr < rx r + rwidth r" using assms(3) by (auto simp: pixels_def)
  have b: "\<bar>rx cutr\<bar> \<le> 0x10000000" "\<bar>rx cutr - rx r\<bar> \<le> 0x40000000"
    using s by (auto simp: small_def)
  let ?r = "r\<lparr>rx := rx cutr, rwidth := rx r + rwidth r - rx cutr\<rparr>"
  let ?n = "mk_rect (rx r) (ry r) (rx cutr - rx r) (rheight r)"
  have "split_left cutr (r, rs) = Some (?r, rs @ [?n])"
    using True lt s set_ok(1) [OF s(1) b(1)] c_int_small [OF b(2)] by (simp add: split_left_def rect_gets)
  moreover have "proper ?r" "proper ?n" using assms(1) s lt True by (simp_all add: proper_def small_def mk_rect_def)
  then have "cuts cutr (r, rs) (?r, rs @ [?n])"
    using True lt by (intro cutsI) (auto simp: pixels_def mk_rect_def)
  ultimately show ?thesis by auto
next
  case False
  then show ?thesis using assms cuts_refl by (auto simp: split_left_def rect_gets proper_def)
qed

lemma split_top_cuts:
  assumes "proper r" "proper cutr" "pixels r \<inter> pixels cutr \<noteq> {}"
  shows "\<exists>r' rs'. split_top cutr (r, rs) = Some (r', rs') \<and> cuts cutr (r, rs) (r', rs') \<and> ry cutr \<le> ry r' \<and> rx r' = rx r"
proof (cases "ry r < ry cutr")
  case True
  have s: "small r" "small cutr" using assms by (simp_all add: proper_def)
  have lt: "ry cutr < ry r + rheight r" using assms(3) by (auto simp: pixels_def)
  have b: "\<bar>ry cutr\<bar> \<le> 0x10000000" "\<bar>ry cutr - ry r\<bar> \<le> 0x40000000"
    using s by (auto simp: small_def)
  let ?r = "r\<lparr>ry := ry cutr, rheight := ry r + rheight r - ry cutr\<rparr>"
  let ?n = "mk_rect (rx r) (ry r) (rwidth r) (ry cutr - ry r)"
  have "split_top cutr (r, rs) = Some (?r, rs @ [?n])"
    using True lt s set_ok(3) [OF s(1) b(1)] c_int_small [OF b(2)] by (simp add: split_top_def rect_gets)
  moreover have "proper ?r" "proper ?n" using assms(1) s lt True by (simp_all add: proper_def small_def mk_rect_def)
  then have "cuts cutr (r, rs) (?r, rs @ [?n])"
    using True lt by (intro cutsI) (auto simp: pixels_def mk_rect_def)
  ultimately show ?thesis by auto
next
  case False
  then show ?thesis using assms cuts_refl by (auto simp: split_top_def rect_gets proper_def)
qed

lemma split_right_cuts:
  assumes "proper r" "proper cutr" "pixels r \<inter> pixels cutr \<noteq> {}"
  shows "\<exists>r' rs'. split_right cutr (r, rs) = Some (r', rs') \<and> cuts cutr (r, rs) (r', rs') \<and>
    rx r' + rwidth r' \<le> rx cutr + rwidth cutr \<and> rx r' = rx r \<and> ry r' = ry r"
proof (cases "rx cutr + rwidth cutr < rx r + rwidth r")
  case True
  have s: "small r" "small cutr" using assms by (simp_all add: proper_def)
  have lt: "rx r < rx cutr + rwidth cutr" using assms(3) by (auto simp: pixels_def)
  have b: "\<bar>rx cutr + rwidth cutr\<bar> \<le> 0x10000000" "\<bar>rx r + rwidth r - (rx cutr + rwidth cutr)\<bar> \<le> 0x40000000"
    using s by (auto simp: small_def)
  let ?r = "r\<lparr>rwidth := rx cutr + rwidth cutr - rx r\<rparr>"
  let ?n = "mk_rect (rx cutr + rwidth cutr) (ry r) (rx r + rwidth r - (rx cutr + rwidth cutr)) (rheight r)"
  have "split_right cutr (r, rs) = Some (?r, rs @ [?n])"
    using True lt s set_ok(2) [OF s(1) b(1)] c_int_small [OF b(2)] by (simp add: split_right_def rect_gets Let_def)
  moreover have "proper ?r" "proper ?n" using assms(1) s lt True by (simp_all add: proper_def small_def mk_rect_def)
  then have "cuts cutr (r, rs) (?r, rs @ [?n])"
    using True lt by (intro cutsI) (auto simp: pixels_def mk_rect_def)
  ultimately show ?thesis by auto
next
  case False
  then show ?thesis using assms cuts_refl by (auto simp: split_right_def rect_gets proper_def)
qed

lemma split_bottom_cuts:
  assumes "proper r" "proper cutr" "pixels r \<inter> pixels cutr \<noteq> {}"
  shows "\<exists>r' rs'. split_bottom cutr (r, rs) = Some (r', rs') \<and> cuts cutr (r, rs) (r', rs') \<and>
    ry r' + rheight r' \<le> ry cutr + rheight cutr \<and> rx r' = rx r \<and> ry r' = ry r \<and> rwidth r' = rwidth r"
proof (cases "ry cutr + rheight cutr < ry r + rheight r")
  case True
  have s: "small r" "small cutr" using assms by (simp_all add: proper_def)
  have lt: "ry r < ry cutr + rheight cutr" using assms(3) by (auto simp: pixels_def)
  have b: "\<bar>ry cutr + rheight cutr\<bar> \<le> 0x10000000" "\<bar>ry r + rheight r - (ry cutr + rheight cutr)\<bar> \<le> 0x40000000"
    using s by (auto simp: small_def)
  let ?r = "r\<lparr>rheight := ry cutr + rheight cutr - ry r\<rparr>"
  let ?n = "mk_rect (rx r) (ry cutr + rheight cutr) (rwidth r) (ry r + rheight r - (ry cutr + rheight cutr))"
  have "split_bottom cutr (r, rs) = Some (?r, rs @ [?n])"
    using True lt s set_ok(4) [OF s(1) b(1)] c_int_small [OF b(2)] by (simp add: split_bottom_def rect_gets Let_def)
  moreover have "proper ?r" "proper ?n" using assms(1) s lt True by (simp_all add: proper_def small_def mk_rect_def)
  then have "cuts cutr (r, rs) (?r, rs @ [?n])"
    using True lt by (intro cutsI) (auto simp: pixels_def mk_rect_def)
  ultimately show ?thesis by auto
next
  case False
  then show ?thesis using assms cuts_refl by (auto simp: split_bottom_def rect_gets proper_def)
qed

text \<open>The parts cut off so far and the rest make up the rectangle.\<close>

definition parts :: "rect \<Rightarrow> rect \<Rightarrow> nat \<Rightarrow> rect \<times> rect list \<Rightarrow> bool" where
  "parts this cutr n s \<longleftrightarrow> proper (fst s) \<and> length (snd s) \<le> n \<and>
     pixels this = pixels (fst s) \<union> (\<Union>p\<in>set (snd s). pixels p) \<and>
     pixels (fst s) \<inter> pixels cutr = pixels this \<inter> pixels cutr \<and>
     (\<forall>p\<in>set (snd s). proper p \<and> pixels p \<inter> pixels cutr = {} \<and> pixels p \<inter> pixels (fst s) = {}) \<and>
     sorted_wrt (\<lambda>p q. pixels p \<inter> pixels q = {}) (snd s)"

lemma cuts_parts:
  assumes "parts this cutr n s" "cuts cutr s s'"
  shows "parts this cutr (Suc n) s'"
proof (cases "s' = s")
  case True
  then show ?thesis using assms(1) by (auto simp: parts_def)
next
  case False
  then obtain p where p: "snd s' = snd s @ [p]" "pixels p \<union> pixels (fst s') = pixels (fst s)"
      "pixels p \<inter> pixels (fst s') = {}" "pixels p \<inter> pixels cutr = {}" "proper (fst s')"
      "proper p"
      "pixels (fst s') \<inter> pixels cutr = pixels (fst s) \<inter> pixels cutr"
    using assms(2) False unfolding cuts_def by blast
  have old: "pixels q \<inter> pixels p = {}" "pixels q \<inter> pixels (fst s') = {}" if "q \<in> set (snd s)" for q
  proof -
    have "pixels q \<inter> pixels (fst s) = {}" using assms(1) that unfolding parts_def by blast
    then show "pixels q \<inter> pixels p = {}" "pixels q \<inter> pixels (fst s') = {}" using p(2) by blast+
  qed
  show ?thesis
    unfolding parts_def p(1)
  proof (intro conjI ballI)
    show "pixels this = pixels (fst s') \<union> (\<Union>p\<in>set (snd s @ [p]). pixels p)"
      using assms(1) p(2) by (auto simp: parts_def)
    show "sorted_wrt (\<lambda>p q. pixels p \<inter> pixels q = {}) (snd s @ [p])"
      using assms(1) old(1) by (simp add: parts_def sorted_wrt_append)
    show "pixels q \<inter> pixels (fst s') = {}" if "q \<in> set (snd s @ [p])" for q
      using that p(3) old(2) [of q] by (cases "q = p") simp_all
    show "pixels q \<inter> pixels cutr = {}" if "q \<in> set (snd s @ [p])" for q
      using that p(4) assms(1) by (cases "q = p") (simp_all add: parts_def)
    show "proper q" if "q \<in> set (snd s @ [p])" for q
      using that p(6) assms(1) by (cases "q = p") (simp_all add: parts_def)
  qed (use assms(1) p(5,7) in \<open>simp_all add: parts_def\<close>)
qed

lemma split_rects:
  assumes "proper this" "proper cutr" "pixels this \<inter> pixels cutr \<noteq> {}"
  shows "\<exists>rs. getSplitRects this cutr = Some rs \<and> length rs \<le> 4 \<and>
    (\<Union>r\<in>set rs. pixels r) = pixels this - pixels cutr \<and>
    sorted_wrt (\<lambda>p q. pixels p \<inter> pixels q = {}) rs \<and> (\<forall>r \<in> set rs. proper r)"
proof -
  have cp: "copy_rect this = this" by (simp add: copy_rect_def mk_rect_def rect_gets)
  have p0: "parts this cutr 0 (this, [])" using assms(1) by (simp add: parts_def)
  have ne: "proper r \<and> pixels r \<inter> pixels cutr \<noteq> {}" if "parts this cutr n (r, rs)" for n r rs
    using that assms(3) by (auto simp: parts_def)
  obtain r1 rs1 where 1: "split_left cutr (this, []) = Some (r1, rs1)" "cuts cutr (this, []) (r1, rs1)" "rx cutr \<le> rx r1"
    using split_left_cuts [OF assms] by blast
  note p1 = cuts_parts [OF p0 1(2)]
  obtain r2 rs2 where 2: "split_top cutr (r1, rs1) = Some (r2, rs2)" "cuts cutr (r1, rs1) (r2, rs2)" "ry cutr \<le> ry r2"
      "rx r2 = rx r1"
    using split_top_cuts [of r1 cutr rs1] ne [OF p1] assms(2) by blast
  note p2 = cuts_parts [OF p1 2(2)]
  obtain r3 rs3 where 3: "split_right cutr (r2, rs2) = Some (r3, rs3)" "cuts cutr (r2, rs2) (r3, rs3)"
      "rx r3 + rwidth r3 \<le> rx cutr + rwidth cutr" "rx r3 = rx r2" "ry r3 = ry r2"
    using split_right_cuts [of r2 cutr rs2] ne [OF p2] assms(2) by blast
  note p3 = cuts_parts [OF p2 3(2)]
  obtain r4 rs4 where 4: "split_bottom cutr (r3, rs3) = Some (r4, rs4)" "cuts cutr (r3, rs3) (r4, rs4)"
      "ry r4 + rheight r4 \<le> ry cutr + rheight cutr" "rx r4 = rx r3" "ry r4 = ry r3" "rwidth r4 = rwidth r3"
    using split_bottom_cuts [of r3 cutr rs3] ne [OF p3] assms(2) by blast
  have p4: "parts this cutr 4 (r4, rs4)" using cuts_parts [OF p3 4(2)] by (simp add: numeral_eq_Suc)
  have inside: "pixels r4 \<subseteq> pixels cutr"
    using 1(3) 2(3,4) 3(3-5) 4(3-6) by (auto simp: pixels_def)
  have "(\<Union>r\<in>set rs4. pixels r) = pixels this - pixels cutr"
    using p4 inside by (auto simp: parts_def)
  moreover have "getSplitRects this cutr = Some rs4"
    using 1(1) 2(1) 3(1) 4(1) cp by (simp add: getSplitRects_def)
  ultimately show ?thesis using p4 by (simp add: parts_def)
qed

section \<open>Properties\<close>

text \<open>
  C22: cutting. For two proper rectangles with a common pixel, \<open>getSplitRects\<close> returns at most four
  rectangles; no two of them share a pixel, and together they cover exactly the pixels of the first
  rectangle outside the second.
\<close>

theorem getSplitRects_partition:
  assumes "proper this" "proper cutr" "pixels this \<inter> pixels cutr \<noteq> {}"
  shows "\<exists>rs. getSplitRects this cutr = Some rs \<and> length rs \<le> 4 \<and>
    (\<Union>r\<in>set rs. pixels r) = pixels this - pixels cutr \<and>
    sorted_wrt (\<lambda>p q. pixels p \<inter> pixels q = {}) rs"
  using split_rects [OF assms] by blast

theorem getSplitRects_partition_witness:
  "\<exists>rs. getSplitRects (mk_rect 0 0 10 10) (mk_rect 3 3 4 4) = Some rs \<and> length rs \<le> 4 \<and>
    (\<Union>r\<in>set rs. pixels r) = pixels (mk_rect 0 0 10 10) - pixels (mk_rect 3 3 4 4)"
proof -
  have p: "proper (mk_rect 0 0 10 10)" "proper (mk_rect 3 3 4 4)"
    by (simp_all add: proper_def small_def mk_rect_def)
  have "(3, 3) \<in> pixels (mk_rect 0 0 10 10) \<inter> pixels (mk_rect 3 3 4 4)"
    by (simp add: pixels_def mk_rect_def)
  then have "pixels (mk_rect 0 0 10 10) \<inter> pixels (mk_rect 3 3 4 4) \<noteq> {}" by blast
  from getSplitRects_partition [OF p this] show ?thesis by blast
qed

text \<open>
  \<open>getOverlapRect\<close> computes the intersection of the pixels, also when it is empty, and
  \<open>overlaps\<close> and \<open>contains\<close> of proper rectangles decide whether they meet and whether the second
  lies in the first.
\<close>

lemma rect_tests:
  assumes "proper this" "proper r"
  shows "(\<exists>res'. getOverlapRect this res r = Some (True, res') \<and> pixels res' = pixels this \<inter> pixels r) \<and>
    overlaps this r = Some (pixels this \<inter> pixels r \<noteq> {}) \<and> contains this r = Some (pixels r \<subseteq> pixels this)"
proof -
  have "small this" "small r" using assms by (simp_all add: proper_def)
  from getOverlapRect_inter [OF this, of res] pixels_inter overlaps_iff [OF assms] contains_iff [OF assms]
  show ?thesis by auto
qed

end
