(* ===== verification/Threads.thy ===== *)
theory Threads
  imports Sched_Steps Vmm Descriptors
begin

text \<open>
  Creation of threads (\<open>src/kernel/arch/thread.c\<close>), process identifiers
  (\<open>src/kernel/arch/process.c\<close>) and events (\<open>src/kernel/sys/event.c\<close>), on the kernel state of
  theory \<open>Sched\<close>. What \<open>kmalloc\<close> returns is an argument: the number of a new thread object and the
  addresses of its stacks, \<^term>\<open>None\<close> or 0 for \<open>NULL\<close>, and \<open>junk\<close> the contents the new object
  happens to have. \<open>event_wait\<close> is cut where the thread waits, as \<open>schedule_thread_wait\<close> is.
\<close>

section \<open>Threads\<close>

definition QUANTUM_DEFAULT :: u32 where "QUANTUM_DEFAULT = 1000"
definition RFLAGS_RESERVED_MASK :: u64 where "RFLAGS_RESERVED_MASK = 0x0002"
definition RFLAGS_INTERRUPT_MASK :: u64 where "RFLAGS_INTERRUPT_MASK = 0x0200"

record tid_source =
  cur_tid :: u32
  tid_lock :: spinlock

definition get_new_tid :: "tid_source \<Rightarrow> (u32 \<times> tid_source) option" where
  "get_new_tid ts = do {
     l \<leftarrow> spinlock_acquire (tid_lock ts);
     let new_tid = cur_tid ts;
     Some (new_tid, ts\<lparr>cur_tid := cur_tid ts + 1, tid_lock := spinlock_release l\<rparr>) }"

definition cleared_ctx :: ctx where
  "cleared_ctx = \<lparr>rax = 0, rbx = 0, rcx = 0, rdx = 0, rsi = 0, rdi = 0, rbp = 0, r8 = 0, r9 = 0, r10 = 0,
     r11 = 0, r12 = 0, r13 = 0, r14 = 0, r15 = 0, err = 0, rip = 0, cs = 0, rflags = 0, rsp = 0, ss = 0\<rparr>"

text \<open>\<open>p\<close> is the kernel process and \<open>wrapper\<close> the address of \<open>thread_wrapper\<close>.\<close>

definition create_kernel_thread :: "tcb \<Rightarrow> nat option \<Rightarrow> u64 \<Rightarrow> u64 \<Rightarrow> nat option \<Rightarrow> u64 \<Rightarrow> u64 \<Rightarrow> u64 \<Rightarrow>
    tid_source \<times> kernel \<Rightarrow> (nat option \<times> tid_source \<times> kernel) option" where
  "create_kernel_thread junk obj stack1 stack2 p wrapper entry param = (\<lambda>(ts, k).
     if entry = 0 then Some (None, ts, k)
     else case obj of None \<Rightarrow> Some (None, ts, k)
     | Some t \<Rightarrow> do {
         (new_tid, ts) \<leftarrow> get_new_tid ts;
         let stack_size = 16 * PAGE_SIZE_BYTES;
         let th = junk\<lparr>tid := new_tid, cpu_id := -1, parent := p, thread_base_sp := stack1\<rparr>;
         if stack1 = 0
         then do {
           k \<leftarrow> thread_destroy obj (k\<lparr>threads := (threads k)(t \<mapsto> th)\<rparr>);
           Some (None, ts, k) }
         else do {
           let th = th\<lparr>thread_sp := stack1 + stack_size - 0x10, kernel_base_sp := stack2\<rparr>;
           if stack2 = 0
           then do {
             k \<leftarrow> thread_destroy obj (k\<lparr>threads := (threads k)(t \<mapsto> th)\<rparr>);
             Some (None, ts, k) }
           else do {
             let th = th\<lparr>kernel_sp := stack2 + stack_size - 0x10,
               tcontext := cleared_ctx\<lparr>rsi := param, rdi := entry, rip := wrapper, cs := ucast GDT_KERNEL_CODE,
                 rflags := RFLAGS_RESERVED_MASK OR RFLAGS_INTERRUPT_MASK,
                 rsp := stack1 + stack_size - 0x10, ss := ucast GDT_KERNEL_DATA\<rparr>,
               state := THREAD_CREATED, yield_cause := 0, quantum := QUANTUM_DEFAULT,
               received_event := None, join_thread := None, prev_thread := None, next_thread := None\<rparr>;
             Some (obj, ts, k\<lparr>threads := (threads k)(t \<mapsto> th)\<rparr>) } } })"

text \<open>\<open>root\<close> is the top-level page table of the process \<open>p\<close>.\<close>

definition create_user_thread :: "u64 \<Rightarrow> tcb \<Rightarrow> nat option \<Rightarrow> u64 \<Rightarrow> u64 \<Rightarrow> nat option \<Rightarrow> u64 \<Rightarrow> u64 \<Rightarrow> u64 \<Rightarrow>
    tid_source \<times> kernel \<times> vmm \<Rightarrow> (nat option \<times> tid_source \<times> kernel \<times> vmm) option" where
  "create_user_thread h junk obj stack1 stack2 p root entry param = (\<lambda>(ts, k, vm).
     if entry = 0 then Some (None, ts, k, vm)
     else case obj of None \<Rightarrow> Some (None, ts, k, vm)
     | Some t \<Rightarrow> do {
         (new_tid, ts) \<leftarrow> get_new_tid ts;
         let stack_size = 4 * PAGE_SIZE_BYTES;
         let th = junk\<lparr>tid := new_tid, cpu_id := -1, parent := p, thread_base_sp := stack1\<rparr>;
         if stack1 = 0
         then do {
           k \<leftarrow> thread_destroy obj (k\<lparr>threads := (threads k)(t \<mapsto> th)\<rparr>);
           Some (None, ts, k, vm) }
         else do {
           let addr = stack1 - h;
           let th = th\<lparr>thread_base_sp := addr, thread_sp := addr + stack_size - 8\<rparr>;
           vm \<leftarrow> map_section h root addr addr stack_size
             (PML_PRESENT OR PML_NOT_EXECUTABLE OR PML_USER OR PML_WRITE) vm;
           let th = th\<lparr>kernel_base_sp := stack2\<rparr>;
           if stack2 = 0
           then do {
             k \<leftarrow> thread_destroy obj (k\<lparr>threads := (threads k)(t \<mapsto> th)\<rparr>);
             Some (None, ts, k, vm) }
           else do {
             let th = th\<lparr>kernel_sp := stack2 + stack_size - 0x10,
               tcontext := cleared_ctx\<lparr>rdi := param, rip := entry, cs := ucast GDT_USER_CODE OR 3,
                 rflags := RFLAGS_RESERVED_MASK OR RFLAGS_INTERRUPT_MASK,
                 rsp := addr + stack_size - 8, ss := ucast GDT_USER_DATA OR 3\<rparr>,
               state := THREAD_CREATED, yield_cause := 0, quantum := QUANTUM_DEFAULT,
               received_event := None, join_thread := None, yield_lock := 0,
               prev_thread := None, next_thread := None\<rparr>;
             Some (obj, ts, k\<lparr>threads := (threads k)(t \<mapsto> th)\<rparr>, vm) } } })"

definition alloc_idle_thread :: "tcb \<Rightarrow> nat option \<Rightarrow> u64 \<Rightarrow> u64 \<Rightarrow> nat option \<Rightarrow> u64 \<Rightarrow> u64 \<Rightarrow>
    tid_source \<times> kernel \<Rightarrow> (nat option \<times> tid_source \<times> kernel) option" where
  "alloc_idle_thread junk obj stack1 stack2 p wrapper idle_thread_spin =
     create_kernel_thread junk obj stack1 stack2 p wrapper idle_thread_spin 0"

section \<open>Process identifiers\<close>

definition PROCESS_MAX :: nat where "PROCESS_MAX = 256"

fun alloc_pid_from :: "nat \<Rightarrow> u16 list \<Rightarrow> int \<times> u16 list" where
  "alloc_pid_from i [] = (-1, [])"
| "alloc_pid_from i (x # xs) =
     (if x = 0 then (int i, 1 # xs)
      else let (r, ys) = alloc_pid_from (Suc i) xs in (r, x # ys))"

definition process_alloc_pid :: "u16 list \<Rightarrow> int \<times> u16 list" where
  "process_alloc_pid pids = alloc_pid_from 0 pids"

definition process_free_pid :: "u16 \<Rightarrow> u16 list \<Rightarrow> u16 list option" where
  "process_free_pid pid pids = (if unat pid \<le> PROCESS_MAX then wr pids (unat pid) 0 else Some pids)"

section \<open>Events\<close>

definition LISTEN_CAPACITY :: nat where "LISTEN_CAPACITY = 16"
definition EVENT_OK :: int where "EVENT_OK = 0"
definition EVENT_ERR :: int where "EVENT_ERR = 1"
definition EVENT_NO_LISTENERS :: int where "EVENT_NO_LISTENERS = 2"
definition EVENT_BAD_THREAD_STATE :: int where "EVENT_BAD_THREAD_STATE = 3"

definition upd_event :: "nat \<Rightarrow> (event \<Rightarrow> event) \<Rightarrow> kernel \<Rightarrow> kernel option" where
  "upd_event e f k = do {
     ev \<leftarrow> events k e;
     Some (k\<lparr>events := (events k)(e \<mapsto> f ev)\<rparr>) }"

text \<open>The first slot that holds \<open>old\<close> gets \<open>new\<close>.\<close>

fun replace_first :: "nat option \<Rightarrow> nat option \<Rightarrow> nat option list \<Rightarrow> bool \<times> nat option list" where
  "replace_first old new [] = (False, [])"
| "replace_first old new (x # xs) =
     (if x = old then (True, new # xs) else let (r, ys) = replace_first old new xs in (r, x # ys))"

definition attach_listener :: "nat option \<Rightarrow> nat \<Rightarrow> kernel \<Rightarrow> (bool \<times> kernel) option" where
  "attach_listener thread e k = do {
     ev \<leftarrow> events k e;
     l \<leftarrow> spinlock_acquire (ev_lock ev);
     let (ret, ls) = replace_first None thread (listeners ev);
     k \<leftarrow> upd_event e (\<lambda>ev. ev\<lparr>listeners := ls, num_listeners := num_listeners ev + of_bool ret,
       ev_lock := spinlock_release l\<rparr>) k;
     Some (ret, k) }"

definition remove_listener :: "nat option \<Rightarrow> nat \<Rightarrow> kernel \<Rightarrow> (bool \<times> kernel) option" where
  "remove_listener thread e k = do {
     ev \<leftarrow> events k e;
     l \<leftarrow> spinlock_acquire (ev_lock ev);
     let (ret, ls) = replace_first thread None (listeners ev);
     k \<leftarrow> upd_event e (\<lambda>ev. ev\<lparr>listeners := ls, num_listeners := num_listeners ev - of_bool ret,
       ev_lock := spinlock_release l\<rparr>) k;
     Some (ret, k) }"

text \<open>\<open>event_wait\<close> up to the yield of \<open>schedule_thread_wait\<close>, and what it does when its thread runs again.\<close>

definition event_wait :: "nat \<Rightarrow> nat \<Rightarrow> kernel \<Rightarrow> kernel option" where
  "event_wait c e k = do {
     k \<leftarrow> upd_core c (\<lambda>co. co\<lparr>if_flag := False\<rparr>) k;
     co \<leftarrow> cores k c;
     (ret, k) \<leftarrow> attach_listener (current_thread co) e k;
     schedule_thread_wait c k }"

definition event_wait_resume :: "nat \<Rightarrow> nat \<Rightarrow> kernel \<Rightarrow> (int \<times> kernel) option" where
  "event_wait_resume c e k = do {
     co \<leftarrow> cores k c;
     th \<leftarrow> deref (threads k) (current_thread co);
     let err_code = (if received_event th \<noteq> Some e then EVENT_ERR else EVENT_OK);
     (ret, k) \<leftarrow> remove_listener (current_thread co) e k;
     k \<leftarrow> upd_core c (\<lambda>co. co\<lparr>if_flag := True\<rparr>) k;
     Some (err_code, k) }"

text \<open>The loop of \<open>event_signal\<close>: \<^term>\<open>True\<close> when every listener was notified.\<close>

fun signal_loop :: "nat \<Rightarrow> nat \<Rightarrow> nat option list \<Rightarrow> kernel \<Rightarrow> (bool \<times> kernel) option" where
  "signal_loop c e [] k = Some (True, k)"
| "signal_loop c e (None # ls) k = signal_loop c e ls k"
| "signal_loop c e (Some t # ls) k = do {
     (r, k) \<leftarrow> schedule_notify c (Some e) (Some t) k;
     if r \<noteq> 0 then Some (False, k) else signal_loop c e ls k }"

definition event_signal :: "nat \<Rightarrow> nat \<Rightarrow> kernel \<Rightarrow> (int \<times> kernel) option" where
  "event_signal c e k = do {
     k \<leftarrow> upd_core c (\<lambda>co. co\<lparr>if_flag := False\<rparr>) k;
     ev \<leftarrow> events k e;
     l \<leftarrow> spinlock_acquire (ev_lock ev);
     k \<leftarrow> upd_event e (\<lambda>ev. ev\<lparr>ev_lock := l\<rparr>) k;
     if num_listeners ev = 0
     then do {
       k \<leftarrow> upd_event e (\<lambda>ev. ev\<lparr>ev_lock := spinlock_release (ev_lock ev)\<rparr>) k;
       k \<leftarrow> upd_core c (\<lambda>co. co\<lparr>if_flag := True\<rparr>) k;
       Some (EVENT_NO_LISTENERS, k) }
     else do {
       (ok, k) \<leftarrow> signal_loop c e (listeners ev) k;
       k \<leftarrow> upd_event e (\<lambda>ev. ev\<lparr>ev_lock := spinlock_release (ev_lock ev)\<rparr>) k;
       k \<leftarrow> upd_core c (\<lambda>co. co\<lparr>if_flag := True\<rparr>) k;
       Some (if ok then EVENT_OK else EVENT_BAD_THREAD_STATE, k) } }"

section \<open>Signalling\<close>

lemma events_inv [simp]: "inv_at D (k\<lparr>events := f\<rparr>) q = inv_at D k q"
  by (simp add: inv_at_def rq_def rooted_def placed_def parked_def [abs_def] calm_def [abs_def] cur_def [abs_def]
      idl_def [abs_def])

fun somes :: "'a option list \<Rightarrow> 'a list" where
  "somes [] = []"
| "somes (None # xs) = somes xs"
| "somes (Some x # xs) = x # somes xs"

text \<open>
  The listeners that a signal reaches: those before the first one that is registered but does not
  sleep yet.
\<close>

definition reached :: "kernel \<Rightarrow> nat list \<Rightarrow> nat list" where
  "reached k ls = takeWhile (notifiable k) ls"

lemma notified_unlink: "unlink a = unlink b \<Longrightarrow> unlink (notified ev a) = unlink (notified ev b)"
proof -
  have "unlink (notified ev x) = notified ev (unlink x)" for x by (simp add: unlink_def notified_def)
  then show "unlink a = unlink b \<Longrightarrow> unlink (notified ev a) = unlink (notified ev b)" by simp
qed

lemma notifiable_unlink:
  "threads k u = Some a \<Longrightarrow> threads k' u = Some b \<Longrightarrow> unlink b = unlink a \<Longrightarrow> notifiable k' u = notifiable k u"
  using unlink_fields(1) [of b a] by (simp add: notifiable_def)

lemma signal_loop_wakes:
  "sched_inv k q \<Longrightarrow> cores k c = Some co \<Longrightarrow> \<forall>t\<in>set (somes ls). threads k t \<noteq> None \<Longrightarrow> distinct (somes ls) \<Longrightarrow>
    \<exists>ths h l. signal_loop c e ls k = Some (reached k (somes ls) = somes ls, k\<lparr>threads := ths, head := h, tail := l\<rparr>) \<and>
      sched_inv (k\<lparr>threads := ths, head := h, tail := l\<rparr>) (q @ reached k (somes ls)) \<and>
      (\<forall>t th. threads k t = Some th \<longrightarrow> (\<exists>th'. ths t = Some th' \<and>
        unlink th' = unlink (if t \<in> set (reached k (somes ls)) then notified (Some e) th else th)))"
proof (induction c e ls k arbitrary: q rule: signal_loop.induct)
  case (1 c e k)
  have "k\<lparr>threads := threads k, head := head k, tail := tail k\<rparr> = k" by simp
  then show ?case using 1
    by (intro exI [of _ "threads k"] exI [of _ "head k"] exI [of _ "tail k"]) (simp add: reached_def)
next
  case (2 c e ls k)
  then show ?case by simp
next
  case (3 c e t ls k)
  obtain th where th: "threads k t = Some th" using 3(4) by auto
  show ?case
  proof (cases "notifiable k t")
    case False
    then have "schedule_notify c (Some e) (Some t) k = Some (SCHEDULE_ERR, k)"
      using th by (simp add: schedule_notify_def notifiable_def)
    then have "signal_loop c e (Some t # ls) k = Some (False, k)" by (simp add: SCHEDULE_ERR_def)
    moreover have "k\<lparr>threads := threads k, head := head k, tail := tail k\<rparr> = k" by simp
    ultimately show ?thesis using 3(2) False
      by (intro exI [of _ "threads k"] exI [of _ "head k"] exI [of _ "tail k"]) (simp add: reached_def)
  next
    case True
    obtain ths h l where a: "schedule_notify c (Some e) (Some t) k = Some (SCHEDULE_OK, k\<lparr>threads := ths, head := h, tail := l\<rparr>)"
        "same_threads ((threads k)(t \<mapsto> notified (Some e) th)) ths"
        "sched_inv (k\<lparr>threads := ths, head := h, tail := l\<rparr>) (q @ [t])"
      using schedule_notify_parked [OF 3(2,3) th True] by blast
    let ?k = "k\<lparr>threads := ths, head := h, tail := l\<rparr>"
    have one: "\<exists>th'. ths u = Some th' \<and> unlink th' = unlink (if u = t then notified (Some e) th else uh)"
      if "threads k u = Some uh" for u uh
      using same_threads_Some [OF a(2), of u "if u = t then notified (Some e) th else uh"] that by auto
    have d: "distinct (somes ls)" "t \<notin> set (somes ls)" using 3(5) by simp_all
    have ex: "\<forall>u\<in>set (somes ls). threads ?k u \<noteq> None" using 3(4) one by fastforce
    have "notifiable ?k u = notifiable k u" if mem: "u \<in> set (somes ls)" for u
    proof -
      have ne: "u \<noteq> t" using d(2) mem by blast
      obtain uh where uh: "threads k u = Some uh" using 3(4) mem by auto
      obtain uh' where "ths u = Some uh'" "unlink uh' = unlink uh" using one [OF uh] ne by auto
      then show ?thesis using notifiable_unlink [of k u uh ?k uh'] uh by simp
    qed
    then have r: "reached ?k (somes ls) = reached k (somes ls)" unfolding reached_def by (rule takeWhile_cong [OF refl])
    have rt: "reached k (t # somes ls) = t # reached k (somes ls)" using True by (simp add: reached_def)
    have ok: "SCHEDULE_OK = 0" by (simp add: SCHEDULE_OK_def)
    have co: "cores ?k c = Some co" using 3(3) by simp
    obtain ths2 h2 l2 where b:
        "signal_loop c e ls ?k = Some (reached k (somes ls) = somes ls, ?k\<lparr>threads := ths2, head := h2, tail := l2\<rparr>)"
        "sched_inv (?k\<lparr>threads := ths2, head := h2, tail := l2\<rparr>) ((q @ [t]) @ reached k (somes ls))"
        "\<And>u uh. ths u = Some uh \<Longrightarrow> \<exists>uh'. ths2 u = Some uh' \<and>
          unlink uh' = unlink (if u \<in> set (reached k (somes ls)) then notified (Some e) uh else uh)"
      using 3(1) [of "(SCHEDULE_OK, ?k)" SCHEDULE_OK ?k "q @ [t]"] a co ex d ok unfolding r by auto
    have nr: "t \<notin> set (reached k (somes ls))" using d(2) by (auto simp: reached_def dest: set_takeWhileD)
    have "\<exists>uh'. ths2 u = Some uh' \<and> unlink uh' = unlink (if u \<in> set (reached k (t # somes ls)) then notified (Some e) uh else uh)"
      if u: "threads k u = Some uh" for u uh
    proof -
      obtain u1 where u1: "ths u = Some u1" "unlink u1 = unlink (if u = t then notified (Some e) th else uh)"
        using one [OF u] by blast
      obtain u2 where u2: "ths2 u = Some u2"
          "unlink u2 = unlink (if u \<in> set (reached k (somes ls)) then notified (Some e) u1 else u1)"
        using b(3) [OF u1(1)] by blast
      show ?thesis using u1(2) u2 u th nr notified_unlink [of u1 uh] unfolding rt by (cases "u = t") auto
    qed
    moreover have "signal_loop c e (Some t # ls) k =
        Some (reached k (somes (Some t # ls)) = somes (Some t # ls), k\<lparr>threads := ths2, head := h2, tail := l2\<rparr>)"
      using a(1) b(1) ok rt by simp
    moreover have "sched_inv (k\<lparr>threads := ths2, head := h2, tail := l2\<rparr>) (q @ reached k (somes (Some t # ls)))"
      using b(2) rt by simp
    ultimately show ?thesis by (intro exI [of _ ths2] exI [of _ h2] exI [of _ l2]) simp
  qed
qed

section \<open>Listeners\<close>

text \<open>The count of a well-formed event is the number of slots in use.\<close>

definition event_ok :: "event \<Rightarrow> bool" where
  "event_ok ev \<longleftrightarrow> ev_lock ev = 0 \<and> length (listeners ev) = LISTEN_CAPACITY \<and>
     unat (num_listeners ev) = length (somes (listeners ev))"

lemma length_somes: "length (somes xs) \<le> length xs"
  by (induction xs rule: somes.induct) simp_all

lemma replace_first_None:
  "fst (replace_first None (Some t) ls) = (None \<in> set ls) \<and>
   length (snd (replace_first None (Some t) ls)) = length ls \<and>
   length (somes (snd (replace_first None (Some t) ls))) = length (somes ls) + of_bool (None \<in> set ls) \<and>
   set (somes (snd (replace_first None (Some t) ls))) = set (somes ls) \<union> (if None \<in> set ls then {t} else {})"
  by (induction ls rule: somes.induct) (auto simp: split_def)

lemma replace_first_Some:
  "fst (replace_first (Some t) None ls) = (t \<in> set (somes ls)) \<and>
   length (snd (replace_first (Some t) None ls)) = length ls \<and>
   length (somes (snd (replace_first (Some t) None ls))) + of_bool (t \<in> set (somes ls)) = length (somes ls) \<and>
   (distinct (somes ls) \<longrightarrow> set (somes (snd (replace_first (Some t) None ls))) = set (somes ls) - {t})"
  by (induction ls rule: somes.induct) (auto simp: split_def)

lemma somes_free: "None \<notin> set ls \<Longrightarrow> length (somes ls) = length ls"
  by (induction ls rule: somes.induct) auto

section \<open>Properties\<close>

text \<open>
  C21: what \<open>event_signal\<close> does with the threads registered with the event, each of them once, in
  the order of their slots. With no listener counted it returns \<open>EVENT_NO_LISTENERS\<close> and wakes
  nobody. Otherwise it wakes the listeners up to the first one that does not sleep yet
  (\<open>event.c:83\<close>): each is made runnable, with the event as the one received when it was waiting, and
  appended to the ready queue; the listener that does not sleep and those behind it stay as they
  are, even when they wait. It returns \<open>EVENT_OK\<close> exactly when all were woken and
  \<open>EVENT_BAD_THREAD_STATE\<close> otherwise. In every case the scheduler's invariant holds again, the event
  is as before with its lock free, and no other thread changes but for its queue links.
\<close>

theorem event_signal_wakes:
  assumes inv: "sched_inv k q" and co: "cores k c = Some co" and ev: "events k e = Some ev" "ev_lock ev = 0"
    and ls: "\<forall>t\<in>set (somes (listeners ev)). threads k t \<noteq> None" "distinct (somes (listeners ev))"
    and w: "woken = (if num_listeners ev = 0 then [] else takeWhile (notifiable k) (somes (listeners ev)))"
  shows "\<exists>k'. event_signal c e k =
      Some (if num_listeners ev = 0 then EVENT_NO_LISTENERS
        else if woken = somes (listeners ev) then EVENT_OK else EVENT_BAD_THREAD_STATE, k') \<and>
    sched_inv k' (q @ woken) \<and> events k' e = Some ev \<and>
    (\<forall>t th. threads k t = Some th \<longrightarrow> (\<exists>th'. threads k' t = Some th' \<and>
      unlink th' = unlink (if t \<in> set woken then notified (Some e) th else th)))"
proof -
  obtain k1 where k1: "upd_core c (\<lambda>co. co\<lparr>if_flag := False\<rparr>) k = Some k1" "sched_inv k1 q"
      "cores k1 c = Some (co\<lparr>if_flag := False\<rparr>)" "threads k1 = threads k"
    using upd_core_inv [OF inv co, of "\<lambda>co. co\<lparr>if_flag := False\<rparr>"] by auto
  have e1: "events k1 = events k" using k1(1) co by (auto simp: upd_core_def)
  define k2 where "k2 = k1\<lparr>events := (events k1)(e \<mapsto> ev\<lparr>ev_lock := 1\<rparr>)\<rparr>"
  have k2: "upd_event e (\<lambda>ev. ev\<lparr>ev_lock := 1\<rparr>) k1 = Some k2" "sched_inv k2 q" "cores k2 c = Some (co\<lparr>if_flag := False\<rparr>)"
      "threads k2 = threads k"
    using k1 e1 ev by (simp_all add: upd_event_def k2_def)
  have nb: "notifiable k2 = notifiable k" using k2(4) by (simp add: notifiable_def [abs_def])
  have "\<forall>t\<in>set (somes (listeners ev)). threads k2 t \<noteq> None" using ls(1) k2(4) by simp
  from signal_loop_wakes [OF k2(2,3) this ls(2), of e] obtain ths h l where
    s: "signal_loop c e (listeners ev) k2 =
        Some (reached k (somes (listeners ev)) = somes (listeners ev), k2\<lparr>threads := ths, head := h, tail := l\<rparr>)"
      "sched_inv (k2\<lparr>threads := ths, head := h, tail := l\<rparr>) (q @ reached k (somes (listeners ev)))"
      "\<forall>t th. threads k2 t = Some th \<longrightarrow> (\<exists>th'. ths t = Some th' \<and>
        unlink th' = unlink (if t \<in> set (reached k (somes (listeners ev))) then notified (Some e) th else th))"
    unfolding reached_def nb by blast
  obtain ths' h' l' where b: "sched_inv (k2\<lparr>threads := ths', head := h', tail := l'\<rparr>) (q @ woken)"
      "\<forall>t th. threads k t = Some th \<longrightarrow> (\<exists>th'. ths' t = Some th' \<and>
        unlink th' = unlink (if t \<in> set woken then notified (Some e) th else th))"
      "if num_listeners ev = 0 then k2\<lparr>threads := ths', head := h', tail := l'\<rparr> = k2
       else signal_loop c e (listeners ev) k2 = Some (woken = somes (listeners ev), k2\<lparr>threads := ths', head := h', tail := l'\<rparr>)"
  proof (cases "num_listeners ev = 0")
    case True
    have id: "k2\<lparr>threads := threads k2, head := head k2, tail := tail k2\<rparr> = k2" by simp
    show thesis using that [of "tail k2" "head k2" "threads k2"] k2(2) w True unfolding id k2(4) [symmetric] by simp
  next
    case False
    then show thesis using that [of l h ths] s k2(4) w by (simp add: reached_def)
  qed
  let ?k = "k2\<lparr>threads := ths', head := h', tail := l'\<rparr>"
  define k3 where "k3 = ?k\<lparr>events := (events k2)(e \<mapsto> ev)\<rparr>"
  have evq: "ev\<lparr>ev_lock := 0\<rparr> = ev" using ev(2) by (cases ev) simp
  have k3: "upd_event e (\<lambda>ev. ev\<lparr>ev_lock := spinlock_release (ev_lock ev)\<rparr>) ?k = Some k3"
    using evq by (simp add: upd_event_def k3_def k2_def)
  have i3: "sched_inv k3 (q @ woken)" using b(1) unfolding k3_def by (simp only: events_inv)
  have c3: "cores k3 c = Some (co\<lparr>if_flag := False\<rparr>)" using k2(3) by (simp add: k3_def)
  obtain k4 where k4: "upd_core c (\<lambda>co. co\<lparr>if_flag := True\<rparr>) k3 = Some k4" "sched_inv k4 (q @ woken)"
      "threads k4 = ths'"
    using upd_core_inv [OF i3 c3, of "\<lambda>co. co\<lparr>if_flag := True\<rparr>"] by (auto simp: k3_def)
  have "events k4 e = Some ev" using k4(1) c3 by (auto simp: upd_core_def k3_def)
  moreover have "event_signal c e k =
      Some (if num_listeners ev = 0 then EVENT_NO_LISTENERS
        else if woken = somes (listeners ev) then EVENT_OK else EVENT_BAD_THREAD_STATE, k4)"
  proof (cases "num_listeners ev = 0")
    case True
    then have "?k = k2" using b(3) by simp
    then show ?thesis using True k1(1) e1 ev k2(1) k3 k4(1) by (simp add: event_signal_def)
  next
    case False
    then show ?thesis using b(3) k1(1) e1 ev k2(1) k3 k4(1) by (simp add: event_signal_def)
  qed
  ultimately show ?thesis using k4(2,3) b(2) by blast
qed

text \<open>
  One core runs its idle thread; threads 2 and 4 wait for event 5, and thread 3, registered
  between them, is runnable.
\<close>

definition waiting_core :: kernel where
  "waiting_core = two_cores\<lparr>threads := [0 \<mapsto> idle_tcb, 2 \<mapsto> idle_tcb\<lparr>state := THREAD_WAITING\<rparr>,
       3 \<mapsto> idle_tcb, 4 \<mapsto> idle_tcb\<lparr>state := THREAD_WAITING\<rparr>],
     cores := [0 \<mapsto> idle_core 0],
     events := [5 \<mapsto> \<lparr>ev_lock = 0, num_listeners = 3, listeners = Some 2 # Some 3 # Some 4 # replicate 13 None\<rparr>]\<rparr>"

lemma waiting_core_inv: "sched_inv waiting_core []"
proof -
  have v: "cur waiting_core = [0 \<mapsto> 0]" "idl waiting_core = [0 \<mapsto> 0]"
    by (auto simp: cur_def idl_def waiting_core_def idle_core_def)
  have p: "parked waiting_core t \<longleftrightarrow> t = 2 \<or> t = 4" "calm waiting_core t" for t
    by (auto simp: parked_def calm_def waiting_core_def idle_tcb_def)
  have "placed UNIV waiting_core []"
    unfolding placed_def v p(1) using p(2) by (auto simp: waiting_core_def)
  moreover have "rq waiting_core []" "rooted waiting_core"
    by (auto simp: rq_def rooted_def waiting_core_def two_cores_def idle_tcb_def split: if_splits)
  ultimately show ?thesis by (simp add: inv_at_def)
qed

theorem event_signal_wakes_witness:
  "\<exists>k'. event_signal 0 5 waiting_core = Some (EVENT_BAD_THREAD_STATE, k') \<and> sched_inv k' [2] \<and>
    (\<exists>th'. threads k' 2 = Some th' \<and> unlink th' = unlink (notified (Some 5) (idle_tcb\<lparr>state := THREAD_WAITING\<rparr>))) \<and>
    (\<exists>th'. threads k' 4 = Some th' \<and> unlink th' = unlink (idle_tcb\<lparr>state := THREAD_WAITING\<rparr>))"
proof -
  let ?ev = "\<lparr>ev_lock = 0, num_listeners = 3, listeners = Some 2 # Some 3 # Some 4 # replicate 13 None\<rparr> :: event"
  have s: "somes (listeners ?ev) = [2, 3, 4]" by (simp add: numeral_eq_Suc)
  have w: "[2] = (if num_listeners ?ev = 0 then [] else takeWhile (notifiable waiting_core) (somes (listeners ?ev)))"
    unfolding s by (simp add: notifiable_def waiting_core_def idle_tcb_def)
  have t: "threads waiting_core 2 = Some (idle_tcb\<lparr>state := THREAD_WAITING\<rparr>)"
      "threads waiting_core 4 = Some (idle_tcb\<lparr>state := THREAD_WAITING\<rparr>)"
    by (simp_all add: waiting_core_def)
  have c: "cores waiting_core 0 = Some (idle_core 0)" "events waiting_core 5 = Some ?ev" "ev_lock ?ev = 0"
      "\<forall>t\<in>set (somes (listeners ?ev)). threads waiting_core t \<noteq> None" "distinct (somes (listeners ?ev))"
    unfolding s by (simp_all add: waiting_core_def)
  obtain k' where k': "event_signal 0 5 waiting_core = Some (EVENT_BAD_THREAD_STATE, k')" "sched_inv k' [2]"
      "\<forall>t th. threads waiting_core t = Some th \<longrightarrow> (\<exists>th'. threads k' t = Some th' \<and>
        unlink th' = unlink (if t \<in> set [2] then notified (Some 5) th else th))"
    using event_signal_wakes [OF waiting_core_inv c w] unfolding s by auto
  then show ?thesis using k'(3) [rule_format, OF t(1)] k'(3) [rule_format, OF t(2)] by auto
qed

text \<open>
  Registration with an event. On a well-formed event \<open>attach_listener\<close> succeeds exactly when one
  of the 16 slots is free, the thread is then among the listeners and the event is well formed
  again; \<open>remove_listener\<close> after it succeeds and leaves the listeners that were there before.
\<close>

lemma listener_roundtrip:
  assumes ev: "events k e = Some ev" "event_ok ev" and new: "t \<notin> set (somes (listeners ev))" "distinct (somes (listeners ev))"
  shows "\<exists>ret k1 ev1 k2 ev2. attach_listener (Some t) e k = Some (ret, k1) \<and> events k1 e = Some ev1 \<and> event_ok ev1 \<and>
    ret = (length (somes (listeners ev)) < LISTEN_CAPACITY) \<and>
    set (somes (listeners ev1)) = set (somes (listeners ev)) \<union> (if ret then {t} else {}) \<and>
    remove_listener (Some t) e k1 = Some (ret, k2) \<and> events k2 e = Some ev2 \<and> event_ok ev2 \<and>
    set (somes (listeners ev2)) = set (somes (listeners ev))"
proof -
  let ?ls = "listeners ev"
  obtain ret ls1 where r1: "replace_first None (Some t) ?ls = (ret, ls1)" by (cases "replace_first None (Some t) ?ls")
  note f1 = replace_first_None [of t ?ls, unfolded r1 fst_conv snd_conv]
  obtain ret2 ls2 where r2: "replace_first (Some t) None ls1 = (ret2, ls2)" by (cases "replace_first (Some t) None ls1")
  note f2 = replace_first_Some [of t ls1, unfolded r2 fst_conv snd_conv]
  have len: "length ?ls = 16" "unat (num_listeners ev) = length (somes ?ls)" "ev_lock ev = 0"
    using ev(2) by (simp_all add: event_ok_def LISTEN_CAPACITY_def)
  have le: "length (somes ?ls) \<le> 16" "length (somes ls1) \<le> 16"
    using length_somes [of ?ls] length_somes [of ls1] len(1) f1 by simp_all
  have free: "None \<in> set ?ls \<longleftrightarrow> length (somes ?ls) < 16"
  proof
    show "length (somes ?ls) < 16" if "None \<in> set ?ls" using le f1 that by simp
    show "None \<in> set ?ls" if "length (somes ?ls) < 16" using somes_free [of ?ls] len(1) that by auto
  qed
  have ret: "ret = (length (somes ?ls) < 16)" using f1 free by simp
  define ev1 where "ev1 = ev\<lparr>listeners := ls1, num_listeners := num_listeners ev + of_bool ret, ev_lock := 0\<rparr>"
  define ev2 where "ev2 = ev1\<lparr>listeners := ls2, num_listeners := num_listeners ev1 - of_bool ret2, ev_lock := 0\<rparr>"
  have n1: "unat (num_listeners ev1) = length (somes ls1)"
    using len(2) le f1 unat_add_small [of "num_listeners ev" "of_bool ret"] by (simp add: ev1_def)
  have ok1: "event_ok ev1" using n1 f1 len by (simp add: event_ok_def ev1_def LISTEN_CAPACITY_def)
  have in1: "ret2 = ret" "set (somes ls1) = set (somes ?ls) \<union> (if ret then {t} else {})"
    using f1 f2 new(1) by auto
  have n2: "unat (num_listeners ev2) = length (somes ls2)"
  proof (cases ret2)
    case True
    then have "1 \<le> num_listeners ev1" using n1 f2 by (simp add: word_le_nat_alt)
    moreover have "Suc (length (somes ls2)) = length (somes ls1)"
    proof -
      have "t \<in> set (somes ls1)" using f2 True by blast
      then show ?thesis using f2 by simp
    qed
    ultimately show ?thesis using True n1 by (simp add: ev2_def unat_sub)
  qed (use n1 f2 in \<open>simp add: ev2_def\<close>)
  have ok2: "event_ok ev2" using n2 f1 f2 len by (simp add: event_ok_def ev2_def LISTEN_CAPACITY_def)
  have d1: "distinct (somes ls1)"
  proof (rule card_distinct)
    have "card (set (somes ls1)) = card (set (somes ?ls)) + of_bool ret" using in1(2) new(1) by simp
    then show "card (set (somes ls1)) = length (somes ls1)" using distinct_card [OF new(2)] f1 by simp
  qed
  have s2: "set (somes ls2) = set (somes ?ls)" using f2 d1 in1(2) new(1) by auto
  let ?k1 = "k\<lparr>events := (events k)(e \<mapsto> ev1)\<rparr>"
  let ?k2 = "?k1\<lparr>events := (events ?k1)(e \<mapsto> ev2)\<rparr>"
  have "attach_listener (Some t) e k = Some (ret, ?k1)"
    using ev(1) len(3) r1 by (simp add: attach_listener_def upd_event_def ev1_def)
  moreover have "remove_listener (Some t) e ?k1 = Some (ret, ?k2)"
    using r2 in1(1) by (simp add: remove_listener_def upd_event_def ev2_def) (simp add: ev1_def)
  moreover have "events ?k1 e = Some ev1" "events ?k2 e = Some ev2" by simp_all
  moreover have "listeners ev1 = ls1" "listeners ev2 = ls2" by (simp_all add: ev1_def ev2_def)
  ultimately show ?thesis
    using ok1 ok2 ret in1(2) s2 unfolding LISTEN_CAPACITY_def by metis
qed

text \<open>
  A created thread can be scheduled. \<open>create_kernel_thread\<close> with an entry and with memory for the
  thread and its stacks gives the thread the next identifier; \<open>schedule_add_thread\<close> then queues it and
  keeps the scheduler's invariant. The thread will start in \<open>thread_wrapper\<close> with interrupts enabled
  and kernel selectors, the entry and its parameter in the argument registers.
\<close>

lemma created_thread_queued:
  assumes inv: "sched_inv k q" and co: "cores k c = Some co" and new: "threads k t = None"
    and p: "pml4_of k p \<noteq> None" and args: "entry \<noteq> 0" "stack1 \<noteq> 0" "stack2 \<noteq> 0" "tid_lock ts = 0"
  shows "\<exists>ts' k1 th k2. create_kernel_thread junk (Some t) stack1 stack2 (Some p) wrapper entry param (ts, k) =
      Some (Some t, ts', k1) \<and> cur_tid ts' = cur_tid ts + 1 \<and> tid_lock ts' = 0 \<and>
    threads k1 t = Some th \<and> tid th = cur_tid ts \<and> rip (tcontext th) = wrapper \<and> rdi (tcontext th) = entry \<and>
    rsi (tcontext th) = param \<and> bit (rflags (tcontext th)) 9 \<and> cs (tcontext th) = 0x28 \<and>
    schedule_add_thread c (Some t) k1 = Some k2 \<and> sched_inv k2 (q @ [t])"
proof -
  let ?sz = "16 * PAGE_SIZE_BYTES"
  define th where "th = junk\<lparr>tid := cur_tid ts, cpu_id := -1, parent := Some p, thread_base_sp := stack1,
    thread_sp := stack1 + ?sz - 0x10, kernel_base_sp := stack2, kernel_sp := stack2 + ?sz - 0x10,
    tcontext := cleared_ctx\<lparr>rsi := param, rdi := entry, rip := wrapper, cs := ucast GDT_KERNEL_CODE,
      rflags := RFLAGS_RESERVED_MASK OR RFLAGS_INTERRUPT_MASK, rsp := stack1 + ?sz - 0x10, ss := ucast GDT_KERNEL_DATA\<rparr>,
    state := THREAD_CREATED, yield_cause := 0, quantum := QUANTUM_DEFAULT,
    received_event := None, join_thread := None, prev_thread := None, next_thread := None\<rparr>"
  define ts' where "ts' = ts\<lparr>cur_tid := cur_tid ts + 1, tid_lock := 0\<rparr>"
  define k1 where "k1 = k\<lparr>threads := (threads k)(t \<mapsto> th)\<rparr>"
  have c: "create_kernel_thread junk (Some t) stack1 stack2 (Some p) wrapper entry param (ts, k) = Some (Some t, ts', k1)"
    using args by (simp add: create_kernel_thread_def get_new_tid_def th_def ts'_def k1_def Let_def)
  have f: "state th = THREAD_CREATED" "yield_cause th = 0" "parent th = Some p" "tid th = cur_tid ts"
    "rip (tcontext th) = wrapper" "rdi (tcontext th) = entry" "rsi (tcontext th) = param" "cs (tcontext th) = 0x28"
    "threads k1 t = Some th" "cur_tid ts' = cur_tid ts + 1" "tid_lock ts' = 0"
    by (simp_all add: th_def ts'_def k1_def GDT_KERNEL_CODE_def)
  have "bit (rflags (tcontext th)) 9"
    by (simp add: th_def RFLAGS_RESERVED_MASK_def RFLAGS_INTERRUPT_MASK_def bit_simps)
  moreover obtain k2 where "schedule_add_thread c (Some t) k1 = Some k2" "sched_inv k2 (q @ [t])"
    using spawn_inv [OF inv new co f(1-3) p] by (auto simp: k1_def)
  ultimately show ?thesis using c f by blast
qed

lemma alloc_pid_from_eq:
  "alloc_pid_from i xs = (case find (\<lambda>j. xs ! j = 0) [0..<length xs] of
     None \<Rightarrow> (-1, xs) | Some j \<Rightarrow> (int (i + j), xs[j := 1]))"
proof (induction i xs rule: alloc_pid_from.induct)
  case (1 i)
  then show ?case by simp
next
  case (2 i x xs)
  have u: "[0..<length (x # xs)] = 0 # map Suc [0..<length xs]" by (simp add: upt_conv_Cons map_Suc_upt del: upt_Suc)
  have f: "find (\<lambda>j. (x # xs) ! j = 0) (map Suc js) = map_option Suc (find (\<lambda>j. xs ! j = 0) js)" for js
    by (induction js) auto
  show ?case
  proof (cases "x = 0")
    case True
    then show ?thesis unfolding u by simp
  next
    case False
    have "find (\<lambda>j. (x # xs) ! j = 0) [0..<length (x # xs)] = map_option Suc (find (\<lambda>j. xs ! j = 0) [0..<length xs])"
      unfolding u using False by (simp add: f del: map_Suc_upt)
    then show ?thesis using 2 [OF False] False by (simp add: split_def split: option.split del: upt_Suc)
  qed
qed

text \<open>
  C38: process identifiers. \<open>process_alloc_pid\<close> returns the lowest identifier that is free and marks
  only it, and -1, changing nothing, when all 256 are taken; \<open>process_free_pid\<close> of an identifier below
  256 undoes it. The identifier 256 passes the guard of \<open>process_free_pid\<close> and is written outside
  the table.
\<close>

theorem process_pids:
  assumes "length pids = PROCESS_MAX"
  shows "(case find (\<lambda>j. pids ! j = 0) [0..<256] of
      None \<Rightarrow> process_alloc_pid pids = (-1, pids)
    | Some j \<Rightarrow> process_alloc_pid pids = (int j, pids[j := 1]) \<and> process_free_pid (of_nat j) (pids[j := 1]) = Some pids) \<and>
    process_free_pid 256 pids = None"
proof -
  have l: "length pids = 256" using assms by (simp add: PROCESS_MAX_def)
  have p: "process_alloc_pid pids = (case find (\<lambda>j. pids ! j = 0) [0..<256] of
     None \<Rightarrow> (-1, pids) | Some j \<Rightarrow> (int j, pids[j := 1]))"
    using alloc_pid_from_eq [of 0 pids] l by (simp add: process_alloc_pid_def split: option.split)
  have r: "process_free_pid (of_nat j) (pids[j := 1]) = Some pids"
    if "find (\<lambda>j. pids ! j = 0) [0..<256] = Some j" for j
  proof -
    have j: "j < 256" "pids ! j = 0" using that by (auto simp: find_Some_iff)
    then have "unat (of_nat j :: u16) = j" by (simp add: unat_of_nat take_bit_eq_mod)
    then show ?thesis using j l list_update_id [of pids j] by (simp add: process_free_pid_def PROCESS_MAX_def)
  qed
  show ?thesis using p r l by (auto simp: process_free_pid_def PROCESS_MAX_def split: option.split)
qed

theorem process_pids_witness:
  "process_alloc_pid (1 # replicate 255 0) = (1, 1 # 1 # replicate 254 0)"
proof -
  have f: "find (\<lambda>j. (1 # replicate 255 (0 :: u16)) ! j = 0) [0..<256] = Some 1"
    by (simp add: upt_rec [of 0] upt_rec [of "Suc 0"])
  have "length (1 # replicate 255 (0 :: u16)) = PROCESS_MAX" by (simp add: PROCESS_MAX_def)
  from process_pids [OF this, unfolded f] show ?thesis by (simp add: numeral_eq_Suc)
qed

end
