(* ===== verification/Vfs.thy ===== *)
theory Vfs
  imports Flibc_String Vector Spinlock
begin

text \<open>
  The virtual file system, \<open>src/kernel/fs/vfs.c\<close>: the tree of vnodes, the resolution of paths,
  and the operations that dispatch to a mounted file system. A vnode pointer is a 64-bit word,
  0 for \<open>NULL\<close>, and the vnodes are a store; a vnode owns its name and its data block.

  A table of function pointers (\<open>struct vfsops\<close>) is known by its address: the argument \<open>E\<close> of the
  operations gives the functions behind an address, which read and change the state of the
  file system. What \<open>kmalloc\<close> and \<open>krealloc\<close> answer is the argument \<open>m\<close> (record \<open>kmem\<close>): the
  contents of a new vnode are whatever the memory held.
\<close>

section \<open>Definitions\<close>

definition VNODE_NAME_MAX :: nat where "VNODE_NAME_MAX = 64"
definition VNODE_PATH_MAX :: nat where "VNODE_PATH_MAX = 512"
definition FS_MAX_TYPES :: nat where "FS_MAX_TYPES = 10"
definition VFS_MAX_MOUNTS :: nat where "VFS_MAX_MOUNTS = 100"

definition VFS_SUCCESS :: int where "VFS_SUCCESS = 0"
definition VFS_OPEN_FAIL :: int where "VFS_OPEN_FAIL = 1"
definition VFS_INVALID_TYPE :: int where "VFS_INVALID_TYPE = 3"
definition VFS_INVALID_PARAMETERS :: int where "VFS_INVALID_PARAMETERS = 4"
definition VFS_INVALID_PATH :: int where "VFS_INVALID_PATH = 5"
definition VFS_NODE_MISSING :: int where "VFS_NODE_MISSING = 6"
definition VFS_NODE_EXISTS :: int where "VFS_NODE_EXISTS = 7"
definition VFS_CLOSE_FAIL :: int where "VFS_CLOSE_FAIL = 8"
definition VFS_NO_MEM :: int where "VFS_NO_MEM = 9"
definition VFS_FS_ERR :: int where "VFS_FS_ERR = 11"
definition VFS_UNSUPPORTED_OP :: int where "VFS_UNSUPPORTED_OP = 13"

lemmas vfs_codes = VFS_SUCCESS_def VFS_OPEN_FAIL_def VFS_INVALID_TYPE_def VFS_INVALID_PARAMETERS_def
  VFS_INVALID_PATH_def VFS_NODE_MISSING_def VFS_NODE_EXISTS_def VFS_CLOSE_FAIL_def VFS_NO_MEM_def
  VFS_FS_ERR_def VFS_UNSUPPORTED_OP_def

definition S_IFMT :: u32 where "S_IFMT = 0xF000"
definition S_IFSOCK :: u32 where "S_IFSOCK = 0xC000"
definition S_IFREG :: u32 where "S_IFREG = 0x8000"
definition S_IFBLK :: u32 where "S_IFBLK = 0x6000"
definition S_IFDIR :: u32 where "S_IFDIR = 0x4000"
definition S_IFIFO :: u32 where "S_IFIFO = 0x1000"

definition S_ISDIR :: "u32 \<Rightarrow> bool" where "S_ISDIR m \<longleftrightarrow> m AND S_IFMT = S_IFDIR"
definition S_ISSOCK :: "u32 \<Rightarrow> bool" where "S_ISSOCK m \<longleftrightarrow> m AND S_IFMT = S_IFSOCK"
definition S_ISFIFO :: "u32 \<Rightarrow> bool" where "S_ISFIFO m \<longleftrightarrow> m AND S_IFMT = S_IFIFO"

record stat =
  st_dev :: u64
  st_ino :: u64
  st_mode :: u32
  st_rdev :: u64
  st_size :: u64
  st_blksize :: u64
  st_blocks :: u64

datatype VTYPE = VNON | VREG | VDIR | VBLK | VSKT

record vnode =
  v_ref_count :: u64
  v_lock_count :: u64
  v_type :: VTYPE
  v_mp :: u64
  v_parent :: u64
  v_children :: vector
  v_name :: "cbuf option"
  v_ops :: u64
  v_stat :: stat
  fs_data :: "cbuf option"

record fs_meta =
  fs_name :: cbuf
  fs_ops :: u64

record fs_node =
  fs_root :: u64
  fs_id :: u64
  inode_count :: u64

record vfs =
  vfs_lock :: spinlock
  v_root :: u64
  fs_metas :: "fs_meta list"
  fs_meta_count :: u64
  fs_nodes :: "fs_node list"
  fs_node_count :: u64
  nodes :: "u64 \<rightharpoonup> vnode"

record vfsops =
  mount_op :: "u64 \<Rightarrow> u64 \<Rightarrow> vfs \<Rightarrow> (int \<times> vfs) option"
  open_op :: "u64 \<Rightarrow> cbuf option \<Rightarrow> vfs \<Rightarrow> (int \<times> vfs) option"
  close_op :: "u64 \<Rightarrow> vfs \<Rightarrow> (int \<times> vfs) option"
  read_op :: "cbuf \<Rightarrow> u64 \<Rightarrow> u64 \<Rightarrow> u64 \<Rightarrow> vfs \<Rightarrow> (int \<times> cbuf \<times> vfs) option"
  write_op :: "cbuf \<Rightarrow> u64 \<Rightarrow> u64 \<Rightarrow> u64 \<Rightarrow> vfs \<Rightarrow> (int \<times> vfs) option"
  create_op :: "u64 \<Rightarrow> vfs \<Rightarrow> (int \<times> vfs) option"

type_synonym ops_env = "u64 \<Rightarrow> vfsops option"

text \<open>
  The answers of the allocator: the address and the old contents of a new vnode, the block of a new
  vector, a block of a number of bytes, and \<open>krealloc\<close> on both kinds of block.
\<close>

record kmem =
  new_node :: "(u64 \<times> vnode) option"
  new_words :: "u64 list option"
  new_bytes :: "u64 \<Rightarrow> cbuf option"
  re_words :: realloc
  re_bytes :: "cbuf option \<Rightarrow> u64 \<Rightarrow> cbuf option"

definition upd_node :: "u64 \<Rightarrow> (vnode \<Rightarrow> vnode) \<Rightarrow> vfs \<Rightarrow> vfs option" where
  "upd_node a f v = do {
     nd \<leftarrow> nodes v a;
     Some (v\<lparr>nodes := (nodes v)(a \<mapsto> f nd)\<rparr>) }"

text \<open>A \<open>size_t\<close> that is kept in an \<open>int\<close>, and an \<open>int\<close> length that is passed on as a \<open>size_t\<close>.\<close>

definition len_int :: "nat \<Rightarrow> int" where "len_int n = sint (of_nat n :: u32)"
definition int_len :: "int \<Rightarrow> nat" where "int_len i = unat (of_int i :: u64)"

subsection \<open>Names and paths\<close>

definition v_get_leaf_name :: "cbuf \<Rightarrow> cbuf \<Rightarrow> (int \<times> cbuf) option" where
  "v_get_leaf_name leaf_name path = do {
     n \<leftarrow> strlen path 0;
     let path_len = len_int n;
     if path_len > int VNODE_PATH_MAX \<or> path_len \<le> 0 then Some (0, leaf_name)
     else do {
       index \<leftarrow> for_loop 0 (nat path_len) (\<lambda>i index. do {
         c \<leftarrow> rd path i;
         Some (if c = 47 then int i else index) }) (-1);
       let leaf_name_len = path_len - (index + 1);
       if leaf_name_len > int VNODE_NAME_MAX - 1 then Some (0, leaf_name)
       else do {
         (leaf_name, _) \<leftarrow> strncpy leaf_name (Some 0) path (nat (index + 1)) (int_len leaf_name_len);
         Some (1, leaf_name) } } }"

fun child_loop :: "vfs \<Rightarrow> vector \<Rightarrow> cbuf \<Rightarrow> nat \<Rightarrow> nat \<Rightarrow> nat \<Rightarrow> u64 option" where
  "child_loop v vec name t i 0 = Some 0"
| "child_loop v vec name t i (Suc n) = do {
     node \<leftarrow> vector_get vec (int i);
     nd \<leftarrow> nodes v node;
     nm \<leftarrow> v_name nd;
     l1 \<leftarrow> strlen name t;
     l2 \<leftarrow> strlen nm 0;
     r \<leftarrow> (if l1 = l2 then strncmp name t nm 0 (int_len (len_int (max l1 l2))) else Some 1);
     if r = 0 then Some node else child_loop v vec name t (Suc i) n }"

definition vfs_get_child :: "u64 \<Rightarrow> cbuf \<Rightarrow> nat \<Rightarrow> vfs \<Rightarrow> u64 option" where
  "vfs_get_child parent name t v = do {
     nd \<leftarrow> nodes v parent;
     let num_children = vector_size (v_children nd);
     child_loop v (v_children nd) name t 0 (nat num_children) }"

definition slash :: cbuf where "slash = [47, 0]"

text \<open>The loop of \<open>vfs_path_to_node\<close>; the result is the error code and what is stored in \<open>*ret\<close>.\<close>

partial_function (option) path_loop :: "ops_env \<Rightarrow> u64 \<Rightarrow> cbuf \<Rightarrow> nat \<Rightarrow> vfs \<Rightarrow> (int \<times> u64 option \<times> vfs) option" where
  "path_loop E cur buf p v = do {
     (buf, tok, p) \<leftarrow> strtok_r buf (Some p) slash p;
     case tok of
       None \<Rightarrow> Some (VFS_SUCCESS, Some cur, v)
     | Some t \<Rightarrow> do {
         nd \<leftarrow> nodes v cur;
         if \<not> S_ISDIR (st_mode (v_stat nd)) then Some (VFS_INVALID_PATH, None, v)
         else do {
           next_child \<leftarrow> vfs_get_child cur buf t v;
           if next_child \<noteq> 0 then path_loop E next_child buf p v
           else do {
             ops \<leftarrow> E (v_ops nd);
             (err, v) \<leftarrow> open_op ops cur (v_name nd) v;
             if err \<noteq> 0 then Some (VFS_NODE_MISSING, None, v)
             else do {
               next_child \<leftarrow> vfs_get_child cur buf t v;
               path_loop E next_child buf p v } } } } }"

text \<open>The test of the first name of a path that does not start with a slash.\<close>

definition first_name :: "u64 \<Rightarrow> cbuf \<Rightarrow> vfs \<Rightarrow> (bool \<times> cbuf \<times> nat) option" where
  "first_name v_base buf v = do {
     (buf, tok, p) \<leftarrow> strtok_r buf (Some 0) slash 0;
     t \<leftarrow> tok;
     l1 \<leftarrow> strlen buf t;
     nd \<leftarrow> nodes v v_base;
     nm \<leftarrow> v_name nd;
     l2 \<leftarrow> strlen nm 0;
     r \<leftarrow> strncmp buf t nm 0 (int_len (len_int (max l1 l2)));
     Some (r = 0, buf, p) }"

text \<open>The copy of the path is made in an array on the stack whose old contents are never read.\<close>

definition vfs_path_to_node :: "ops_env \<Rightarrow> u64 \<Rightarrow> cbuf \<Rightarrow> vfs \<Rightarrow> (int \<times> u64 option \<times> vfs) option" where
  "vfs_path_to_node E v_base path v = do {
     n \<leftarrow> strlen path 0;
     if n > VNODE_PATH_MAX then Some (VFS_INVALID_PARAMETERS, None, v)
     else do {
       (buf, _) \<leftarrow> strncpy (replicate VNODE_PATH_MAX 0) (Some 0) path 0 n;
       l \<leftarrow> strlen buf 0;
       if l = 0
       then Some (if v_base = v_root v then (VFS_SUCCESS, Some (v_root v), v) else (VFS_INVALID_PATH, None, v))
       else do {
         c \<leftarrow> rd buf 0;
         if c = 47 \<and> v_base \<noteq> v_root v then Some (VFS_INVALID_PATH, None, v)
         else do {
           (ok, buf, p) \<leftarrow> (if c \<noteq> 47 then first_name v_base buf v else Some (True, buf, 0));
           if \<not> ok then Some (VFS_INVALID_PATH, None, v)
           else do {
             nd \<leftarrow> nodes v v_base;
             if \<not> S_ISDIR (st_mode (v_stat nd)) then Some (VFS_INVALID_PATH, None, v)
             else path_loop E v_base buf p v } } } } }"

subsection \<open>Stubs\<close>

definition vfs_mount_stub :: "u64 \<Rightarrow> u64 \<Rightarrow> vfs \<Rightarrow> (int \<times> vfs) option" where
  "vfs_mount_stub mp device v = Some (VFS_UNSUPPORTED_OP, v)"
definition vfs_open_stub :: "u64 \<Rightarrow> cbuf option \<Rightarrow> vfs \<Rightarrow> (int \<times> vfs) option" where
  "vfs_open_stub parent name v = Some (VFS_UNSUPPORTED_OP, v)"
definition vfs_close_stub :: "u64 \<Rightarrow> vfs \<Rightarrow> (int \<times> vfs) option" where
  "vfs_close_stub node v = Some (VFS_UNSUPPORTED_OP, v)"
definition vfs_read_stub :: "cbuf \<Rightarrow> u64 \<Rightarrow> u64 \<Rightarrow> u64 \<Rightarrow> vfs \<Rightarrow> (int \<times> cbuf \<times> vfs) option" where
  "vfs_read_stub buff node sz offset v = Some (VFS_UNSUPPORTED_OP, buff, v)"
definition vfs_write_stub :: "cbuf \<Rightarrow> u64 \<Rightarrow> u64 \<Rightarrow> u64 \<Rightarrow> vfs \<Rightarrow> (int \<times> vfs) option" where
  "vfs_write_stub buff node sz offset v = Some (VFS_UNSUPPORTED_OP, v)"
definition vfs_create_stub :: "u64 \<Rightarrow> vfs \<Rightarrow> (int \<times> vfs) option" where
  "vfs_create_stub node v = Some (VFS_UNSUPPORTED_OP, v)"

subsection \<open>Nodes and mounted file systems\<close>

fun vfs_vtype_to_st_mode :: "VTYPE \<Rightarrow> u32" where
  "vfs_vtype_to_st_mode VREG = S_IFREG"
| "vfs_vtype_to_st_mode VDIR = S_IFDIR"
| "vfs_vtype_to_st_mode VSKT = S_IFSOCK"
| "vfs_vtype_to_st_mode VBLK = S_IFBLK"
| "vfs_vtype_to_st_mode VNON = 0"

definition vfs_get_root :: "vfs \<Rightarrow> u64" where "vfs_get_root v = v_root v"

definition vfs_alloc_node :: "kmem \<Rightarrow> u64 \<Rightarrow> cbuf \<Rightarrow> VTYPE \<Rightarrow> vfs \<Rightarrow> (u64 \<times> vfs) option" where
  "vfs_alloc_node m parent name type v =
     (case new_node m of
        None \<Rightarrow> Some (0, v)
      | Some (node, junk) \<Rightarrow> do {
          let nd = junk\<lparr>v_ref_count := 0, v_lock_count := 0, v_type := type, v_mp := 0, v_parent := parent\<rparr>;
          let nd = (if v_type nd = VDIR then nd\<lparr>v_children := vector_alloc (v_children nd) (new_words m)\<rparr> else nd);
          n \<leftarrow> strlen name 0;
          let v_name_len = len_int n;
          l \<leftarrow> c_int (v_name_len + 1);
          let blk = new_bytes m (of_int l);
          nm \<leftarrow> (case blk of
              None \<Rightarrow> Some None
            | Some b \<Rightarrow> do { (b, _) \<leftarrow> strncpy b (Some 0) name 0 (int_len v_name_len); Some (Some b) });
          let nd = nd\<lparr>v_name := nm, v_stat := (v_stat nd)\<lparr>st_mode := vfs_vtype_to_st_mode type\<rparr>, fs_data := None\<rparr>;
          Some (node, v\<lparr>nodes := (nodes v)(node \<mapsto> nd)\<rparr>) })"

definition vfs_add_fs_meta :: "cbuf option \<Rightarrow> u64 \<Rightarrow> vfs \<Rightarrow> (int \<times> vfs) option" where
  "vfs_add_fs_meta name ops v =
     (case name of
        None \<Rightarrow> Some (VFS_INVALID_PARAMETERS, v)
      | Some nm \<Rightarrow>
          if \<not> (ops \<noteq> 0 \<and> fs_meta_count v < of_nat FS_MAX_TYPES) then Some (VFS_INVALID_PARAMETERS, v)
          else do {
            l \<leftarrow> strlen nm 0;
            if \<not> l < VNODE_NAME_MAX then Some (VFS_INVALID_PARAMETERS, v)
            else do {
              let i = unat (fs_meta_count v);
              fm \<leftarrow> rd (fs_metas v) i;
              (b, _) \<leftarrow> strncpy (fs_name fm) (Some 0) nm 0 l;
              metas \<leftarrow> wr (fs_metas v) i (fm\<lparr>fs_name := b, fs_ops := ops\<rparr>);
              Some (VFS_SUCCESS, v\<lparr>fs_metas := metas, fs_meta_count := fs_meta_count v + 1\<rparr>) } })"

fun fs_meta_loop :: "fs_meta list \<Rightarrow> cbuf \<Rightarrow> nat \<Rightarrow> nat \<Rightarrow> nat option option" where
  "fs_meta_loop metas name i 0 = Some None"
| "fs_meta_loop metas name i (Suc n) = do {
     fm \<leftarrow> rd metas i;
     fs_meta_len \<leftarrow> strlen (fs_name fm) 0;
     l \<leftarrow> strlen name 0;
     r \<leftarrow> (if l = fs_meta_len then strncmp name 0 (fs_name fm) 0 fs_meta_len else Some 1);
     if r = 0 then Some (Some i) else fs_meta_loop metas name (Suc i) n }"

definition vfs_get_fs_meta :: "cbuf \<Rightarrow> vfs \<Rightarrow> nat option option" where
  "vfs_get_fs_meta name v = fs_meta_loop (fs_metas v) name 0 (unat (fs_meta_count v))"

definition vfs_add_fs_node :: "u64 \<Rightarrow> cbuf option \<Rightarrow> vfs \<Rightarrow> (int \<times> vfs) option" where
  "vfs_add_fs_node root name v =
     (case name of
        None \<Rightarrow> Some (VFS_INVALID_PARAMETERS, v)
      | Some nm \<Rightarrow>
          if root = 0 then Some (VFS_INVALID_PARAMETERS, v)
          else do {
            r \<leftarrow> vfs_get_fs_meta nm v;
            case r of
              None \<Rightarrow> Some (VFS_NODE_MISSING, v)
            | Some i \<Rightarrow>
                if \<not> fs_node_count v < of_nat VFS_MAX_MOUNTS then Some (VFS_FS_ERR, v)
                else do {
                  fm \<leftarrow> rd (fs_metas v) i;
                  let id = fs_node_count v;
                  fn \<leftarrow> rd (fs_nodes v) (unat id);
                  ns \<leftarrow> wr (fs_nodes v) (unat id) (fn\<lparr>fs_root := root, fs_id := id, inode_count := 0\<rparr>);
                  v \<leftarrow> upd_node root (\<lambda>nd. nd\<lparr>v_ops := fs_ops fm\<rparr>) (v\<lparr>fs_nodes := ns, fs_node_count := id + 1\<rparr>);
                  Some (VFS_SUCCESS, v) } })"

fun fs_node_loop :: "fs_node list \<Rightarrow> u64 \<Rightarrow> nat \<Rightarrow> nat \<Rightarrow> nat option option" where
  "fs_node_loop ns mp i 0 = Some None"
| "fs_node_loop ns mp i (Suc n) = do {
     fn \<leftarrow> rd ns i;
     if fs_root fn = mp then Some (Some i) else fs_node_loop ns mp (Suc i) n }"

definition vfs_get_fs_node :: "u64 \<Rightarrow> vfs \<Rightarrow> (int \<times> nat option) option" where
  "vfs_get_fs_node mountpoint v =
     (if mountpoint = 0 then Some (VFS_INVALID_PARAMETERS, None)
      else do {
        r \<leftarrow> fs_node_loop (fs_nodes v) mountpoint 0 (unat (fs_node_count v));
        Some (case r of None \<Rightarrow> (VFS_FS_ERR, None) | Some i \<Rightarrow> (VFS_SUCCESS, Some i)) })"

definition vfs_acquire :: "vfs \<Rightarrow> vfs option" where
  "vfs_acquire v = do { l \<leftarrow> spinlock_acquire (vfs_lock v); Some (v\<lparr>vfs_lock := l\<rparr>) }"

definition vfs_release :: "vfs \<Rightarrow> vfs" where
  "vfs_release v = v\<lparr>vfs_lock := spinlock_release (vfs_lock v)\<rparr>"

subsection \<open>Operations\<close>

text \<open>The second part of the result is what \<open>*root\<close> receives, if anything.\<close>

definition vfs_mount :: "ops_env \<Rightarrow> u64 \<Rightarrow> cbuf \<Rightarrow> cbuf option \<Rightarrow> vfs \<Rightarrow> (int \<times> u64 option \<times> vfs) option" where
  "vfs_mount E base path name v = do {
     v \<leftarrow> vfs_acquire v;
     (err, ret, v) \<leftarrow> vfs_path_to_node E base path v;
     if err \<noteq> 0 then Some (VFS_INVALID_PATH, None, vfs_release v)
     else do {
       mountpoint \<leftarrow> ret;
       nd \<leftarrow> nodes v mountpoint;
       if \<not> S_ISDIR (st_mode (v_stat nd)) then Some (VFS_INVALID_TYPE, None, vfs_release v)
       else do {
         (err, v) \<leftarrow> vfs_add_fs_node mountpoint name v;
         if err \<noteq> 0 then Some (err, Some mountpoint, vfs_release v)
         else do {
           nd \<leftarrow> nodes v mountpoint;
           ops \<leftarrow> E (v_ops nd);
           (_, v) \<leftarrow> mount_op ops mountpoint 0 v;
           Some (VFS_SUCCESS, Some mountpoint, vfs_release v) } } } }"

definition vfs_open :: "ops_env \<Rightarrow> u64 \<Rightarrow> cbuf \<Rightarrow> vfs \<Rightarrow> (int \<times> u64 option \<times> vfs) option" where
  "vfs_open E base path v = do {
     v \<leftarrow> vfs_acquire v;
     (err, ret, v) \<leftarrow> vfs_path_to_node E base path v;
     if err \<noteq> 0 then Some (err, None, vfs_release v)
     else do {
       node \<leftarrow> ret;
       v \<leftarrow> upd_node node (\<lambda>nd. nd\<lparr>v_ref_count := v_ref_count nd + 1\<rparr>) v;
       Some (VFS_SUCCESS, Some node, vfs_release v) } }"

definition vfs_close :: "ops_env \<Rightarrow> u64 \<Rightarrow> vfs \<Rightarrow> (int \<times> vfs) option" where
  "vfs_close E node v =
     (if node = 0 then Some (VFS_INVALID_PARAMETERS, v)
      else do {
        v \<leftarrow> vfs_acquire v;
        v \<leftarrow> upd_node node (\<lambda>nd. nd\<lparr>v_ref_count := v_ref_count nd - 1\<rparr>) v;
        nd \<leftarrow> nodes v node;
        v \<leftarrow> (if v_ref_count nd = 0
          then do { ops \<leftarrow> E (v_ops nd); (_, v) \<leftarrow> close_op ops node v; Some v }
          else Some v);
        Some (VFS_SUCCESS, vfs_release v) })"

text \<open>\<open>buff\<close> is \<^term>\<open>None\<close> for a null pointer; the results are the code, the buffer and the count.\<close>

definition vfs_read :: "ops_env \<Rightarrow> cbuf option \<Rightarrow> u64 \<Rightarrow> u64 \<Rightarrow> u64 \<Rightarrow> vfs \<Rightarrow>
    (int \<times> cbuf option \<times> u64 option \<times> vfs) option" where
  "vfs_read E buff node sz offset v =
     (case buff of
        None \<Rightarrow> Some (VFS_INVALID_PARAMETERS, None, None, v)
      | Some b \<Rightarrow>
          if node = 0 then Some (VFS_INVALID_PARAMETERS, buff, None, v)
          else do {
            v \<leftarrow> vfs_acquire v;
            nd \<leftarrow> nodes v node;
            ops \<leftarrow> E (v_ops nd);
            (r, b, v) \<leftarrow> read_op ops b node sz offset v;
            Some (VFS_SUCCESS, Some b, Some (of_int r), vfs_release v) })"

definition vfs_write :: "ops_env \<Rightarrow> cbuf option \<Rightarrow> u64 \<Rightarrow> u64 \<Rightarrow> u64 \<Rightarrow> vfs \<Rightarrow> (int \<times> u64 option \<times> vfs) option" where
  "vfs_write E buff node sz offset v =
     (case buff of
        None \<Rightarrow> Some (VFS_INVALID_PARAMETERS, None, v)
      | Some b \<Rightarrow>
          if node = 0 then Some (VFS_INVALID_PARAMETERS, None, v)
          else do {
            v \<leftarrow> vfs_acquire v;
            nd \<leftarrow> nodes v node;
            ops \<leftarrow> E (v_ops nd);
            (r, v) \<leftarrow> write_op ops b node sz offset v;
            Some (VFS_SUCCESS, Some (of_int r), vfs_release v) })"

definition vfs_create :: "ops_env \<Rightarrow> kmem \<Rightarrow> u64 \<Rightarrow> cbuf option \<Rightarrow> VTYPE \<Rightarrow> vfs \<Rightarrow> (int \<times> vfs) option" where
  "vfs_create E m v_base vfs_path type v =
     (case vfs_path of
        None \<Rightarrow> Some (0, v)
      | Some path \<Rightarrow>
          if v_base = 0 then Some (0, v)
          else do {
            v \<leftarrow> vfs_acquire v;
            (ok, dir_name) \<leftarrow> v_get_leaf_name (replicate VNODE_NAME_MAX 0) path;
            if ok = 0 then Some (VFS_INVALID_PATH, vfs_release v)
            else do {
              lp \<leftarrow> strlen path 0;
              ld \<leftarrow> strlen dir_name 0;
              (parent_path, _) \<leftarrow> strncpy (replicate VNODE_NAME_MAX 0) (Some 0) path 0
                (unat (of_nat lp - of_nat ld - 1 :: u64));
              (err, ret, v) \<leftarrow> vfs_path_to_node E v_base parent_path v;
              if err \<noteq> 0 then Some (err, vfs_release v)
              else do {
                parent \<leftarrow> ret;
                (node, v) \<leftarrow> vfs_alloc_node m parent dir_name type v;
                if node = 0 then Some (VFS_NO_MEM, vfs_release v)
                else do {
                  pd \<leftarrow> nodes v parent;
                  cs \<leftarrow> vector_push_back (re_words m) (v_children pd) node;
                  v \<leftarrow> upd_node parent (\<lambda>nd. nd\<lparr>v_children := cs\<rparr>) v;
                  v \<leftarrow> (if v_ops pd \<noteq> 0
                    then do {
                      v \<leftarrow> upd_node node (\<lambda>nd. nd\<lparr>v_mp := v_mp pd, v_ops := v_ops pd\<rparr>) v;
                      ops \<leftarrow> E (v_ops pd);
                      (_, v) \<leftarrow> create_op ops node v;
                      Some v }
                    else Some v);
                  Some (VFS_SUCCESS, vfs_release v) } } } })"

text \<open>A failed allocation of the root halts in \<open>kerror\<close>.\<close>

definition vfs_init :: "kmem \<Rightarrow> vfs \<Rightarrow> vfs option" where
  "vfs_init m v = do {
     (root, v) \<leftarrow> vfs_alloc_node m 0 [0] VDIR v;
     if root = 0 then None else Some (v\<lparr>v_root := root\<rparr>) }"

section \<open>The tree the vnodes encode\<close>

definition name_of :: "vfs \<Rightarrow> u64 \<Rightarrow> u8 list option" where
  "name_of v a = do { nd \<leftarrow> nodes v a; b \<leftarrow> v_name nd; cstring b 0 }"

definition is_dir :: "vfs \<Rightarrow> u64 \<Rightarrow> bool" where
  "is_dir v a = (case nodes v a of None \<Rightarrow> False | Some nd \<Rightarrow> S_ISDIR (st_mode (v_stat nd)))"

definition kids :: "vfs \<Rightarrow> u64 \<Rightarrow> u64 list" where
  "kids v a = (case nodes v a of None \<Rightarrow> [] | Some nd \<Rightarrow>
     (case elements (v_children nd) of None \<Rightarrow> [] | Some mem \<Rightarrow> take (nat (cur_elements (v_children nd))) mem))"

definition child :: "vfs \<Rightarrow> u64 \<Rightarrow> u8 list \<Rightarrow> u64 option" where
  "child v d nm = find (\<lambda>c. name_of v c = Some nm) (kids v d)"

definition node_ok :: "vfs \<Rightarrow> u64 \<Rightarrow> vnode \<Rightarrow> bool" where
  "node_ok v a nd \<longleftrightarrow> (\<exists>s. name_of v a = Some s \<and> length s < VNODE_NAME_MAX) \<and>
     (is_dir v a \<longrightarrow> vec_rep (v_children nd) (kids v a) \<and> set (kids v a) \<subseteq> dom (nodes v) \<and>
       max_elements (v_children nd) \<le> max 8 (2 * int (length (kids v a))))"

definition vfs_wf :: "vfs \<Rightarrow> bool" where
  "vfs_wf v \<longleftrightarrow> nodes v 0 = None \<and> is_dir v (v_root v) \<and> (\<forall>a nd. nodes v a = Some nd \<longrightarrow> node_ok v a nd)"

text \<open>
  The walk down the tree along a list of names: the node it reaches, the error of the code when a
  name is missing or a file is not a directory, or \<^term>\<open>None\<close> where the code calls through a
  table of functions that does not exist.
\<close>

fun walk :: "ops_env \<Rightarrow> vfs \<Rightarrow> u64 \<Rightarrow> u8 list list \<Rightarrow> (int + u64) option" where
  "walk E v d [] = Some (Inr d)"
| "walk E v d (n # ns) =
     (if \<not> is_dir v d then Some (Inl VFS_INVALID_PATH)
      else case child v d n of
        Some c \<Rightarrow> walk E v c ns
      | None \<Rightarrow> (case nodes v d of None \<Rightarrow> None
          | Some nd \<Rightarrow> if E (v_ops nd) = None then None else Some (Inl VFS_NODE_MISSING)))"

text \<open>
  What a path denotes: an absolute path is walked from the root, a relative one must begin with
  the name of the directory it is relative to, and the empty path is the root.
\<close>

definition resolve :: "ops_env \<Rightarrow> vfs \<Rightarrow> u64 \<Rightarrow> u8 list \<Rightarrow> (int + u64) option" where
  "resolve E v base s =
     (if s = [] then Some (if base = v_root v then Inr base else Inl VFS_INVALID_PATH)
      else if hd s = 47 then
        (if base = v_root v then walk E v base (tokens {47} s) else Some (Inl VFS_INVALID_PATH))
      else if name_of v base = Some (hd (tokens {47} s)) \<and> is_dir v base then walk E v base (tl (tokens {47} s))
      else Some (Inl VFS_INVALID_PATH))"

fun path_result :: "vfs \<Rightarrow> int + u64 \<Rightarrow> int \<times> u64 option \<times> vfs" where
  "path_result v (Inl e) = (e, None, v)"
| "path_result v (Inr a) = (VFS_SUCCESS, Some a, v)"

subsection \<open>Comparing names\<close>

lemma len_int_small: "n < 2 ^ 31 \<Longrightarrow> len_int n = int n"
  by (simp add: len_int_def signed_of_nat signed_take_bit_int_eq_self)

lemma int_len_small: "n < 2 ^ 64 \<Longrightarrow> int_len (int n) = n"
  by (simp add: int_len_def unat_of_nat take_bit_eq_mod)

lemma len_roundtrip [simp]: "n < 1024 \<Longrightarrow> int_len (len_int n) = n"
  by (simp add: len_int_small int_len_small)

lemma byte_diff: "c \<noteq> d \<Longrightarrow> (of_int (sint c - sint d) :: u64) \<noteq> 0" for c d :: u8
  using strncmp_zero_iff(1) [of 0 1 "[c]" 0 "[d]"] by (auto split: if_splits simp del: of_int_diff)

lemma strncmp_cstring:
  "cstring a p = Some s \<Longrightarrow> cstring b q = Some t \<Longrightarrow> n = max (length s) (length t) \<Longrightarrow>
    \<exists>r. strncmp a p b q n = Some r \<and> (r = 0 \<longleftrightarrow> s = t)"
proof (induction s arbitrary: p q t n)
  case Nil
  have p: "p < length a" "a ! p = 0" using cstring_SomeD(1,3) [OF Nil(1)] by simp_all
  show ?case
  proof (cases t)
    case (Cons d t')
    have q: "q < length b" using cstring_Some_bound [OF Nil(2)] by simp
    then have "b ! q = d" "d \<noteq> 0" using Nil(2) Cons by (auto simp: cstring_step split: if_splits)
    then show ?thesis using Nil(3) Cons p q byte_diff [of 0 d] by simp
  qed (use Nil in simp)
next
  case (Cons c s)
  have p: "p < length a" using cstring_Some_bound [OF Cons.prems(1)] by simp
  have c: "a ! p = c" "c \<noteq> 0" "cstring a (Suc p) = Some s"
    using Cons.prems(1) p by (auto simp: cstring_step split: if_splits)
  have q: "q < length b" using cstring_Some_bound [OF Cons.prems(2)] by simp
  show ?case
  proof (cases t)
    case Nil
    then have "b ! q = 0" using cstring_SomeD(3) [OF Cons.prems(2)] by simp
    then show ?thesis using Cons.prems(3) Nil p q c byte_diff [of c 0] by simp
  next
    case (Cons d t')
    have d: "b ! q = d" "cstring b (Suc q) = Some t'"
      using Cons.prems(2) q Cons by (auto simp: cstring_step split: if_splits)
    obtain r where r: "strncmp a (Suc p) b (Suc q) (max (length s) (length t')) = Some r" "r = 0 \<longleftrightarrow> s = t'"
      using Cons.IH [OF c(3) d(2)] by blast
    show ?thesis using Cons.prems(3) Cons p q c d r byte_diff [of c d] by simp
  qed
qed

lemma child_loop_eq:
  assumes vec: "vec_rep vec cs" and nm: "cstring name t = Some s" "length s < 512"
    and ok: "\<forall>c\<in>set cs. \<exists>r. name_of v c = Some r \<and> length r < VNODE_NAME_MAX"
  shows "i + n = length cs \<Longrightarrow> child_loop v vec name t i n =
    Some (case find (\<lambda>c. name_of v c = Some s) (drop i cs) of None \<Rightarrow> 0 | Some c \<Rightarrow> c)"
proof (induction n arbitrary: i)
  case 0
  then show ?case by simp
next
  case (Suc n)
  then have i: "i < length cs" by simp
  then have g: "vector_get vec (int i) = Some (cs ! i)" by (simp add: vector_get_rep [OF vec])
  obtain r where "name_of v (cs ! i) = Some r" and len: "length r < 64"
    using ok nth_mem [OF i] unfolding VNODE_NAME_MAX_def by blast
  then obtain nd b where r: "nodes v (cs ! i) = Some nd" "v_name nd = Some b" "cstring b 0 = Some r"
      "name_of v (cs ! i) = Some r"
    by (auto simp: name_of_def bind_eq_Some_conv)
  obtain x where x: "strncmp name t b 0 (max (length s) (length r)) = Some x" "x = 0 \<longleftrightarrow> s = r"
    using strncmp_cstring [OF nm(1) r(3) refl] by blast
  have d: "drop i cs = cs ! i # drop (Suc i) cs" using i by (simp add: Cons_nth_drop_Suc)
  have m: "max (length s) (length r) < 1024" using nm(2) len by simp
  show ?case
    using g r x nm len m Suc.IH [of "Suc i"] Suc.prems unfolding d by (auto simp: strlen_eq)
qed

lemma wf_node: "vfs_wf v \<Longrightarrow> nodes v a = Some nd \<Longrightarrow> node_ok v a nd"
  by (simp add: vfs_wf_def)

lemma wf_name: "vfs_wf v \<Longrightarrow> nodes v a \<noteq> None \<Longrightarrow> \<exists>r. name_of v a = Some r \<and> length r < VNODE_NAME_MAX"
  using wf_node [of v a] by (auto simp: node_ok_def)

lemma wf_dir:
  assumes "vfs_wf v" "is_dir v d"
  obtains nd where "nodes v d = Some nd" "vec_rep (v_children nd) (kids v d)" "S_ISDIR (st_mode (v_stat nd))"
    "\<And>c. c \<in> set (kids v d) \<Longrightarrow> nodes v c \<noteq> None" "max_elements (v_children nd) \<le> max 8 (2 * int (length (kids v d)))"
  using assms wf_node [of v d] by (fastforce simp: is_dir_def node_ok_def split: option.splits)

lemma wf_child:
  assumes "vfs_wf v" "is_dir v d" "child v d s = Some c"
  shows "nodes v c \<noteq> None \<and> c \<noteq> 0 \<and> c \<in> set (kids v d)"
proof -
  have c: "c \<in> set (kids v d)" using assms(3) by (auto simp: child_def find_Some_iff)
  then have "nodes v c \<noteq> None" using wf_dir [OF assms(1,2)] by blast
  then show ?thesis using c assms(1) by (auto simp: vfs_wf_def)
qed

lemma vfs_get_child_eq:
  assumes wf: "vfs_wf v" and d: "is_dir v d" and nm: "cstring name t = Some s" "length s < 512"
  shows "vfs_get_child d name t v = Some (case child v d s of None \<Rightarrow> 0 | Some c \<Rightarrow> c)"
proof -
  obtain nd where nd: "nodes v d = Some nd" "vec_rep (v_children nd) (kids v d)"
      "\<And>c. c \<in> set (kids v d) \<Longrightarrow> nodes v c \<noteq> None"
    using wf_dir [OF wf d] by blast
  have "nat (vector_size (v_children nd)) = length (kids v d)"
    using nd(2) by (simp add: vector_size_def vec_rep_def)
  then show ?thesis
    using child_loop_eq [OF nd(2) nm, of v 0 "length (kids v d)"] wf_name [OF wf] nd(1,3)
    by (simp add: vfs_get_child_def child_def)
qed

subsection \<open>The last name of a path\<close>

lemma tokens_snoc:
  assumes "c \<in> D" "x \<noteq> []" "set x \<inter> D = {}"
  shows "tokens D (p @ c # x) = tokens D p @ [x]"
proof (induction "length p" arbitrary: p rule: less_induct)
  case less
  obtain y ys where x: "x = y # ys" using assms(2) by (cases x) auto
  have single: "tokens D x = [x]"
  proof -
    have y: "y \<notin> D" "takeWhile (\<lambda>c. c \<notin> D) ys = ys" "dropWhile (\<lambda>c. c \<notin> D) ys = []"
      using assms(3) by (auto simp: x takeWhile_eq_all_conv dropWhile_eq_Nil_conv)
    show ?thesis using y(1) by (simp add: x tokens.simps [of D "y # ys"] tokens_Nil_iff y(2,3) del: dropWhile_eq_Nil_conv)
  qed
  show ?case
  proof (cases "dropWhile (\<lambda>c. c \<in> D) p")
    case Nil
    then have p: "set p \<subseteq> D" by (auto simp: dropWhile_eq_Nil_conv)
    then have "tokens D (p @ c # x) = tokens D x"
      by (induction p) (auto simp: tokens_delim assms(1))
    then show ?thesis using single p by (simp add: iffD2 [OF tokens_Nil_iff p])
  next
    case (Cons e es)
    have eD: "e \<notin> D" using Cons by (auto simp: dropWhile_eq_Cons_conv)
    have ex: "\<exists>z\<in>set p. z \<notin> D" using Cons dropWhile_eq_Nil_conv [of "\<lambda>c. c \<in> D" p] by auto
    then have d: "dropWhile (\<lambda>c. c \<in> D) (p @ c # x) = e # es @ c # x"
      using Cons by (auto simp: dropWhile_append1)
    let ?r = "dropWhile (\<lambda>c. c \<notin> D) es"
    have lt: "length ?r < length p"
      using length_dropWhile_le [of "\<lambda>c. c \<notin> D" es] length_dropWhile_le [of "\<lambda>c. c \<in> D" p] Cons by simp
    have t: "takeWhile (\<lambda>c. c \<notin> D) (es @ c # x) = takeWhile (\<lambda>c. c \<notin> D) es"
      using assms(1) takeWhile_eq_all_conv [of "\<lambda>c. c \<notin> D" es, symmetric] by (simp add: takeWhile_append eq_commute [of es])
    have u: "tokens D (p @ c # x) = (e # takeWhile (\<lambda>c. c \<notin> D) es) # tokens D (dropWhile (\<lambda>c. c \<notin> D) (es @ c # x))"
      "tokens D p = (e # takeWhile (\<lambda>c. c \<notin> D) es) # tokens D ?r"
      by (simp_all only: tokens.simps [of D "p @ c # x"] tokens.simps [of D p] d t Cons list.case)
    show ?thesis
    proof (cases ?r)
      case Nil
      then have dw: "dropWhile (\<lambda>c. c \<notin> D) (es @ c # x) = c # x" using assms(1) by (simp add: dropWhile_append)
      show ?thesis unfolding u dw Nil by (simp add: tokens_delim [OF assms(1)] single tokens_Nil_iff)
    next
      case (Cons f fs)
      then have dw: "dropWhile (\<lambda>c. c \<notin> D) (es @ c # x) = ?r @ c # x"
        using dropWhile_eq_Nil_conv [of "\<lambda>c. c \<notin> D" es] by (auto simp: dropWhile_append)
      show ?thesis unfolding u dw less [OF lt] by simp
    qed
  qed
qed

lemma v_get_leaf_name_eq:
  assumes s: "cstring path 0 = Some (p @ 47 # x)" and x: "47 \<notin> set x" "length x < 64" and p: "length p < 256"
  shows "v_get_leaf_name (replicate VNODE_NAME_MAX 0) path = Some (1, overwrite (replicate VNODE_NAME_MAX 0) 0 (x @ [0]))"
proof -
  let ?s = "p @ 47 # x"
  let ?I = "\<lambda>i idx. (\<forall>j<i. ?s ! j = 47 \<longrightarrow> int j \<le> idx) \<and> (idx = -1 \<or> (\<exists>j<i. idx = int j \<and> ?s ! j = 47))"
  have nth: "rd path i = Some (?s ! i)" if "i < length ?s" for i
  proof -
    have "take (length ?s) (drop 0 path) ! i = ?s ! i" using cstring_SomeD(2) [OF s] by simp
    then show ?thesis using that cstring_SomeD(1) [OF s] by simp
  qed
  have "\<exists>idx. for_loop 0 (length ?s) (\<lambda>i index. do { c \<leftarrow> rd path i; Some (if c = 47 then int i else index) }) (-1) = Some idx
      \<and> ?I (length ?s) idx"
  proof (rule for_loop_rule)
    show "?I 0 (-1)" by simp
    fix i idx assume i: "i < length ?s" and I: "?I i idx"
    show "\<exists>t'. do { c \<leftarrow> rd path i; Some (if c = 47 then int i else idx) } = Some t' \<and> ?I (Suc i) t'"
      using I nth [OF i] by (auto simp: less_Suc_eq)
  qed simp
  then obtain idx where loop: "for_loop 0 (length ?s) (\<lambda>i index. do { c \<leftarrow> rd path i; Some (if c = 47 then int i else index) }) (-1) = Some idx"
    and I: "?I (length ?s) idx" by blast
  have "int (length p) \<le> idx" using I by simp
  moreover have "\<not> int (length p) < idx"
  proof
    assume "int (length p) < idx"
    then obtain j where j: "j < length ?s" "?s ! j = 47" "length p < j" using I by auto
    then have "x ! (j - Suc (length p)) = 47" by (simp add: nth_append nth_Cons' split: if_splits)
    moreover have "j - Suc (length p) < length x" using j(1,3) by simp
    ultimately show False using x(1) nth_mem by metis
  qed
  ultimately have idx: "idx = int (length p)" by simp
  have cx: "cstring path (Suc (length p)) = Some x" using cstring_suffix [of path 0 "p @ [47]" x] s by simp
  have "strncpy (replicate 64 0) (Some 0) path (Suc (length p)) (length x) = Some (overwrite (replicate 64 0) 0 (x @ [0]), Some 0)"
    using strncpy_loop_eq [OF cx, of "replicate 64 0" 0 "length x"] x(2) by (simp add: strncpy_def)
  moreover have "len_int (length ?s) = int (length ?s)" using p x(2) by (intro len_int_small) simp
  moreover have "int_len (int (length x)) = length x" using x(2) by (intro int_len_small) simp
  ultimately show ?thesis
    using s loop idx p x(2) by (simp add: v_get_leaf_name_def strlen_eq VNODE_NAME_MAX_def VNODE_PATH_MAX_def nat_add_distrib)
qed

section \<open>Mounted file systems\<close>

text \<open>
  What the virtual file system needs of the tables of functions: the nodes of these file systems
  exist only in the tree, so that \<open>open\<close> finds no more of them, and \<open>create\<close> fills in the data
  block and the status of the new node.
\<close>

definition same_node :: "vnode \<Rightarrow> vnode \<Rightarrow> bool" where
  "same_node nd nd' \<longleftrightarrow> (\<exists>d b. nd' = nd\<lparr>fs_data := d, v_stat := b\<rparr> \<and> st_mode b = st_mode (v_stat nd))"

locale vfs_backend =
  fixes E :: ops_env
  assumes open_fails: "E f = Some ops \<Longrightarrow> \<exists>e. open_op ops d nm v = Some (e, v) \<and> e \<noteq> 0"
    and create_ok: "E f = Some ops \<Longrightarrow> nodes v a = Some nd \<Longrightarrow> st_mode (v_stat nd) = vfs_vtype_to_st_mode (v_type nd) \<Longrightarrow>
      \<exists>r nd'. create_op ops a v = Some (r, v\<lparr>nodes := (nodes v)(a \<mapsto> nd')\<rparr>) \<and> same_node nd nd'"
begin

lemma path_loop_walk:
  "vfs_wf v \<Longrightarrow> nodes v d \<noteq> None \<Longrightarrow> cstring buf p = Some s \<Longrightarrow> tokens {47} s = ns \<Longrightarrow> length buf \<le> 512 \<Longrightarrow>
    path_loop E d buf p v = map_option (path_result v) (walk E v d ns)"
proof (induction ns arbitrary: d buf p s)
  case Nil
  have sl: "cstring slash 0 = Some [47]" by (simp add: slash_def cstring_def)
  show ?case using strtok_r_none [OF Nil.prems(3) sl, where str = "Some p" and old = p] Nil.prems(4)
    by (simp add: path_loop.simps [of E d])
next
  case (Cons n ns)
  have sl: "cstring slash 0 = Some [47]" by (simp add: slash_def cstring_def)
  obtain buf' t p' s' where st: "strtok_r buf (Some p) slash p = Some (buf', Some t, p')" "length buf' = length buf"
      "cstring buf' t = Some n" "cstring buf' p' = Some s'" "tokens {47} s' = ns"
    using strtok_r_token [OF Cons.prems(3) sl, where str = "Some p" and old = p] Cons.prems(4) by auto
  have ln: "length n < 512" using cstring_Some_bound [OF st(3)] st(2) Cons.prems(5) by simp
  obtain nd where nd: "nodes v d = Some nd" using Cons.prems(2) by blast
  have dir: "is_dir v d \<longleftrightarrow> S_ISDIR (st_mode (v_stat nd))" using nd by (simp add: is_dir_def)
  show ?case
  proof (cases "is_dir v d")
    case False
    then show ?thesis using st(1) nd dir by (simp add: path_loop.simps [of E d])
  next
    case True
    note g = vfs_get_child_eq [OF Cons.prems(1) True st(3) ln]
    show ?thesis
    proof (cases "child v d n")
      case None
      then show ?thesis
        using st(1) nd dir True g open_fails [of "v_ops nd" _ d "v_name nd" v]
        by (cases "E (v_ops nd)") (auto simp: path_loop.simps [of E d])
    next
      case (Some c)
      note c = wf_child [OF Cons.prems(1) True Some]
      have "path_loop E c buf' p' v = map_option (path_result v) (walk E v c ns)"
        using Cons.IH [OF Cons.prems(1) _ st(4,5)] c st(2) Cons.prems(5) by simp
      then show ?thesis using st(1) nd dir True g Some c by (simp add: path_loop.simps [of E d])
    qed
  qed
qed

text \<open>The whole of \<open>vfs_path_to_node\<close>, for a path of any length.\<close>

lemma vfs_path_to_node_eq:
  assumes wf: "vfs_wf v" and b: "nodes v base \<noteq> None" and s: "cstring path 0 = Some s"
  shows "vfs_path_to_node E base path v =
    (if VNODE_PATH_MAX < length s then Some (VFS_INVALID_PARAMETERS, None, v)
     else if length s = VNODE_PATH_MAX then None
     else map_option (path_result v) (resolve E v base s))"
proof (cases "length s < 512")
  case False
  then show ?thesis using s strncpy_loop_eq [OF s, of "replicate 512 0" 0 "length s"]
    by (cases "length s = 512") (simp_all add: vfs_path_to_node_def strlen_eq VNODE_PATH_MAX_def strncpy_def)
next
  case True
  define buf where "buf = overwrite (replicate 512 0) 0 (s @ [0 :: u8])"
  have cp: "strncpy (replicate 512 0) (Some 0) path 0 (length s) = Some (buf, Some 0)"
    using True strncpy_loop_eq [OF s, of "replicate 512 0" 0 "length s"] by (simp add: strncpy_def buf_def)
  have cs: "cstring buf 0 = Some s" and lb: "length buf = 512"
    using True cstring_SomeD(4) [OF s] cstring_overwrite [of 0 s "replicate 512 0"] by (simp_all add: buf_def)
  obtain nd where nd: "nodes v base = Some nd" using b by blast
  show ?thesis
  proof (cases s)
    case Nil
    then show ?thesis using s cp cs by (simp add: vfs_path_to_node_def strlen_eq VNODE_PATH_MAX_def resolve_def)
  next
    case (Cons c s')
    have c: "buf ! 0 = c" using cs lb Cons by (simp add: cstring_step split: if_splits)
    show ?thesis
    proof (cases "c = 47")
      case c47: True
      have "is_dir v (v_root v)" using wf by (simp add: vfs_wf_def)
      then show ?thesis
        using path_loop_walk [OF wf b cs refl] c47 c lb s cp cs True Cons nd
        by (auto simp: vfs_path_to_node_def strlen_eq VNODE_PATH_MAX_def resolve_def is_dir_def)
    next
      case False
      have ne: "tokens {47} s \<noteq> []" using False Cons by (simp add: tokens_Nil_iff)
      then obtain t ts where tk: "tokens {47} s = t # ts" by (cases "tokens {47} s") auto
      have sl: "cstring slash 0 = Some [47]" by (simp add: slash_def cstring_def)
      obtain buf' k p s2 where st: "strtok_r buf (Some 0) slash 0 = Some (buf', Some k, p)" "length buf' = length buf"
          "cstring buf' k = Some t" "cstring buf' p = Some s2" "tokens {47} s2 = ts"
        using strtok_r_token [OF cs sl, where str = "Some 0" and old = 0] tk by auto
      obtain r where r: "name_of v base = Some r" "length r < 64"
        using wf_name [OF wf b] by (auto simp: VNODE_NAME_MAX_def)
      then obtain nm where nm: "v_name nd = Some nm" "cstring nm 0 = Some r"
        using nd by (auto simp: name_of_def bind_eq_Some_conv)
      obtain x where x: "strncmp buf' k nm 0 (max (length t) (length r)) = Some x" "x = 0 \<longleftrightarrow> t = r"
        using strncmp_cstring [OF st(3) nm(2) refl] by blast
      have m: "max (length t) (length r) < 1024" using r(2) cstring_Some_bound [OF st(3)] st(2) lb by simp
      have f: "first_name base buf v = Some (t = r, buf', p)"
        using st(1,3) nd nm x m by (simp add: first_name_def strlen_eq)
      show ?thesis
        using f False c lb s cp cs True Cons nd tk r path_loop_walk [OF wf b st(4,5)] st(2)
        by (auto simp: vfs_path_to_node_def strlen_eq VNODE_PATH_MAX_def resolve_def is_dir_def)
    qed
  qed
qed

end

section \<open>Growing the tree\<close>

text \<open>\<open>v'\<close> is \<open>v\<close> with a new node \<open>a\<close> of a name as the last child of the directory \<open>d\<close>.\<close>

definition grown :: "u64 \<Rightarrow> u64 \<Rightarrow> u8 list \<Rightarrow> vfs \<Rightarrow> vfs \<Rightarrow> bool" where
  "grown d a nm v v' \<longleftrightarrow> (\<exists>pd na cs. nodes v d = Some pd \<and> nodes v a = None \<and> a \<noteq> 0 \<and>
     nodes v' = (nodes v)(a \<mapsto> na, d \<mapsto> pd\<lparr>v_children := cs\<rparr>) \<and> v_root v' = v_root v \<and>
     vec_rep cs (kids v d @ [a]) \<and> max_elements cs \<le> max 8 (2 * int (length (kids v d @ [a]))) \<and>
     name_of v' a = Some nm \<and> length nm < VNODE_NAME_MAX \<and>
     (is_dir v' a \<longrightarrow> vec_rep (v_children na) [] \<and> max_elements (v_children na) \<le> 8))"

lemma kids_rep: "vec_rep (v_children nd) xs \<Longrightarrow> nodes v a = Some nd \<Longrightarrow> kids v a = xs"
  by (erule vec_repE) (simp add: kids_def)

lemma grown_frame:
  assumes g: "grown d a nm v v'"
  shows "x \<noteq> a \<Longrightarrow> name_of v' x = name_of v x" "x \<noteq> a \<Longrightarrow> is_dir v' x = is_dir v x"
    "x \<noteq> a \<Longrightarrow> x \<noteq> d \<Longrightarrow> kids v' x = kids v x" "kids v' d = kids v d @ [a]" "v_root v' = v_root v"
    "name_of v' a = Some nm" "is_dir v' a \<Longrightarrow> kids v' a = []" "d \<noteq> a"
    "nodes v' x = None \<longleftrightarrow> x \<noteq> a \<and> nodes v x = None"
proof -
  obtain pd na cs where o: "nodes v d = Some pd" "nodes v a = None"
      "nodes v' = (nodes v)(a \<mapsto> na, d \<mapsto> pd\<lparr>v_children := cs\<rparr>)" "v_root v' = v_root v"
      "vec_rep cs (kids v d @ [a])" "name_of v' a = Some nm" "is_dir v' a \<longrightarrow> vec_rep (v_children na) []"
    using g unfolding grown_def by blast
  show "d \<noteq> a" using o(1,2) by auto
  show "name_of v' x = name_of v x" if "x \<noteq> a" using that o(1) unfolding name_of_def o(3) by auto
  show "is_dir v' x = is_dir v x" if "x \<noteq> a" using that o(1) unfolding is_dir_def o(3) by auto
  show "kids v' x = kids v x" if "x \<noteq> a" "x \<noteq> d" using that unfolding kids_def o(3) by simp
  show "kids v' d = kids v d @ [a]" using o(5) by (intro kids_rep [of "pd\<lparr>v_children := cs\<rparr>"]) (simp_all add: o(3))
  show "kids v' a = []" if "is_dir v' a" using that o(7) \<open>d \<noteq> a\<close> by (intro kids_rep [of na]) (simp_all add: o(3))
  show "nodes v' x = None \<longleftrightarrow> x \<noteq> a \<and> nodes v x = None" using o(1) unfolding o(3) by auto
qed (use g in \<open>auto simp: grown_def\<close>)

lemma grown_wf:
  assumes g: "grown d a nm v v'" and wf: "vfs_wf v" and dir: "is_dir v d"
  shows "vfs_wf v'"
  unfolding vfs_wf_def
proof (intro conjI allI impI)
  note fr = grown_frame [OF g]
  show "nodes v' 0 = None" using g wf fr(9) [of 0] by (auto simp: grown_def vfs_wf_def)
  show "is_dir v' (v_root v')" using wf fr(2,5) g by (auto simp: vfs_wf_def grown_def is_dir_def)
  fix x nd assume x: "nodes v' x = Some nd"
  have dom: "dom (nodes v') = insert a (dom (nodes v))" using fr(9) by (auto simp: dom_def)
  consider "x = a" | "x = d" | "x \<noteq> a" "x \<noteq> d" by blast
  then show "node_ok v' x nd"
  proof cases
    case 1
    then show ?thesis using g x fr by (auto simp: grown_def node_ok_def)
  next
    case 2
    have "kids v d \<noteq> [] \<longrightarrow> set (kids v d) \<subseteq> dom (nodes v)" using wf_dir [OF wf dir] by blast
    then show ?thesis
      using 2 x g fr(4,8) fr(1) [of d] wf_name [OF wf, of d] unfolding node_ok_def dom
      by (auto simp: grown_def)
  next
    case 3
    then have old: "nodes v x = Some nd" using x g by (auto simp: grown_def)
    then show ?thesis using wf_node [OF wf old] 3 fr(1-3) [of x] by (auto simp: node_ok_def dom)
  qed
qed

lemma grown_child:
  assumes g: "grown d a nm v v'" and wf: "vfs_wf v" and x: "is_dir v x"
  shows "child v' x s = (case child v x s of Some c \<Rightarrow> Some c | None \<Rightarrow> if x = d \<and> s = nm then Some a else None)"
proof -
  note fr = grown_frame [OF g]
  have xa: "x \<noteq> a" using g x by (auto simp: grown_def is_dir_def)
  have "nodes v a = None" using g by (auto simp: grown_def)
  then have "c \<noteq> a" if "c \<in> set (kids v x)" for c using wf_dir [OF wf x] that by metis
  then have "find (\<lambda>c. name_of v' c = Some s) (kids v x) = find (\<lambda>c. name_of v c = Some s) (kids v x)"
    using fr(1) by (intro find_cong) auto
  then show ?thesis using fr(3) [OF xa] fr(4,6) by (cases "x = d") (simp_all add: child_def find_append split: option.split)
qed

lemma grown_walk:
  assumes g: "grown d a nm v v'" and wf: "vfs_wf v"
  shows "nodes v x \<noteq> None \<Longrightarrow> walk E v x ns = Some (Inr y) \<Longrightarrow> walk E v' x ns = Some (Inr y)"
proof (induction ns arbitrary: x)
  case (Cons n ns)
  have xa: "x \<noteq> a" using g Cons.prems(1) by (auto simp: grown_def)
  obtain c where c: "is_dir v x" "child v x n = Some c" "walk E v c ns = Some (Inr y)"
    using Cons.prems(2) by (auto split: if_splits option.splits)
  then show ?case
    using Cons.IH [of c] wf_child [OF wf c(1,2)] grown_child [OF g wf c(1)] grown_frame(2) [OF g xa] by simp
qed simp

lemma grown_resolve:
  assumes g: "grown d a nm v v'" and wf: "vfs_wf v" and b: "nodes v b \<noteq> None"
  shows "resolve E v b s = Some (Inr y) \<Longrightarrow> resolve E v' b s = Some (Inr y)"
proof -
  have ba: "b \<noteq> a" using g b by (auto simp: grown_def)
  show "resolve E v b s = Some (Inr y) \<Longrightarrow> resolve E v' b s = Some (Inr y)"
    using grown_walk [OF g wf b] grown_frame(1,2) [OF g ba] grown_frame(5) [OF g]
    by (auto simp: resolve_def split: if_splits)
qed

lemma walk_snoc: "walk E v x ns = Some (Inr y) \<Longrightarrow> walk E v x (ns @ [n]) = walk E v y [n]"
  by (induction ns arbitrary: x) (auto split: if_splits option.splits)

lemma resolve_snoc:
  assumes "resolve E v b p = Some (Inr y)" "x \<noteq> []" "47 \<notin> set x"
  shows "resolve E v b (p @ 47 # x) = walk E v y [x]"
proof -
  have t: "tokens {47} (p @ 47 # x) = tokens {47} p @ [x]" using assms(2,3) by (intro tokens_snoc) auto
  show ?thesis
  proof (cases p)
    case Nil
    have "tokens {47} ([] :: u8 list) = []" by (simp add: tokens_Nil_iff)
    then show ?thesis using assms(1) t Nil by (auto simp: resolve_def split: if_splits)
  next
    case (Cons c p')
    have ne: "c \<noteq> 47 \<Longrightarrow> tokens {47} p \<noteq> []" using Cons by (simp add: tokens_Nil_iff)
    note t' = t [unfolded Cons append_Cons]
    show ?thesis
    proof (cases "c = 47")
      case True
      then show ?thesis using assms(1) Cons walk_snoc [of E v b "tokens {47} p" y x] t'
        by (simp add: resolve_def split: if_splits)
    next
      case False
      then show ?thesis using assms(1) Cons ne walk_snoc [of E v b "tl (tokens {47} p)" y x] t'
        by (simp add: resolve_def split: if_splits)
    qed
  qed
qed

section \<open>Creating a node\<close>

lemma lock_irrelevant [simp]:
  "name_of (v\<lparr>vfs_lock := l\<rparr>) = name_of v" "is_dir (v\<lparr>vfs_lock := l\<rparr>) = is_dir v" "kids (v\<lparr>vfs_lock := l\<rparr>) = kids v"
  "child (v\<lparr>vfs_lock := l\<rparr>) = child v" "vfs_wf (v\<lparr>vfs_lock := l\<rparr>) = vfs_wf v"
  "grown d a nm v' (v\<lparr>vfs_lock := l\<rparr>) = grown d a nm v' v"
  by (simp_all add: fun_eq_iff name_of_def is_dir_def kids_def child_def vfs_wf_def node_ok_def grown_def)

lemma lock_walk [simp]: "walk E (v\<lparr>vfs_lock := l\<rparr>) d ns = walk E v d ns"
  by (induction ns arbitrary: d) (auto split: option.split)

lemma lock_resolve [simp]: "resolve E (v\<lparr>vfs_lock := l\<rparr>) b s = resolve E v b s"
  by (simp add: resolve_def)

text \<open>Memory enough for one more node: a fresh vnode, blocks of the sizes asked for, a working \<open>krealloc\<close>.\<close>

definition mem_ok :: "kmem \<Rightarrow> vfs \<Rightarrow> u64 \<Rightarrow> bool" where
  "mem_ok m v a \<longleftrightarrow> (\<exists>junk. new_node m = Some (a, junk)) \<and> a \<noteq> 0 \<and> nodes v a = None \<and>
     (\<exists>w. new_words m = Some w \<and> length w = 8) \<and> (\<forall>n. \<exists>b. new_bytes m n = Some b \<and> length b = unat n) \<and>
     realloc_ok (re_words m) \<and> (\<forall>mem n. re_words m (Some mem) n \<noteq> None)"

definition fresh_node :: "u64 \<Rightarrow> u8 list \<Rightarrow> VTYPE \<Rightarrow> vnode \<Rightarrow> bool" where
  "fresh_node d x type nd \<longleftrightarrow> v_ref_count nd = 0 \<and> v_type nd = type \<and> v_parent nd = d \<and>
     st_mode (v_stat nd) = vfs_vtype_to_st_mode type \<and> (\<exists>b. v_name nd = Some b \<and> cstring b 0 = Some x) \<and>
     (type = VDIR \<longrightarrow> vec_rep (v_children nd) [] \<and> max_elements (v_children nd) = 8)"

lemma vfs_alloc_node_ok:
  assumes m: "mem_ok m v a" and x: "cstring name 0 = Some x" "length x < 64"
  shows "\<exists>nd. vfs_alloc_node m d name type v = Some (a, v\<lparr>nodes := (nodes v)(a \<mapsto> nd)\<rparr>) \<and> fresh_node d x type nd"
proof -
  obtain junk w where n: "new_node m = Some (a, junk)" "new_words m = Some w" "length w = 8"
    using m by (auto simp: mem_ok_def)
  obtain b where b: "new_bytes m (of_int (int (length x) + 1)) = Some b" "length b = unat (of_int (int (length x) + 1) :: u64)"
    using m unfolding mem_ok_def by blast
  have "(of_int (int (length x) + 1) :: u64) = of_nat (Suc (length x))" by simp
  then have lb: "length b = Suc (length x)" using b(2) x(2) by (simp only: unat_of_nat take_bit_eq_mod) simp
  have nz: "0 \<notin> set x" using cstring_SomeD(4) [OF x(1)] .
  let ?b = "overwrite b 0 (x @ [0])"
  have cp: "strncpy b (Some 0) name 0 (length x) = Some (?b, Some 0)"
    using strncpy_loop_eq [OF x(1), of b 0 "length x"] lb by (simp add: strncpy_def)
  have cn: "cstring ?b 0 = Some x" using cstring_overwrite [of 0 x b] lb nz by simp
  have li: "len_int (length x) = int (length x)" "int_len (int (length x)) = length x"
    using x(2) by (simp_all add: len_int_small int_len_small)
  have ci: "c_int (int (length x) + 1) = Some (int (length x) + 1)" using x(2) by simp
  have vr: "vec_rep (vector_alloc ch (Some w)) []" "max_elements (vector_alloc ch (Some w)) = 8" for ch
    using n(3) by (simp_all add: vector_alloc_rep) (simp add: vector_alloc_def VECTOR_INIT_SIZE_def)
  define nd where "nd = (let nd = junk\<lparr>v_ref_count := 0, v_lock_count := 0, v_type := type, v_mp := 0, v_parent := d\<rparr>;
      nd = (if v_type nd = VDIR then nd\<lparr>v_children := vector_alloc (v_children nd) (Some w)\<rparr> else nd)
    in nd\<lparr>v_name := Some ?b, v_stat := (v_stat nd)\<lparr>st_mode := vfs_vtype_to_st_mode type\<rparr>, fs_data := None\<rparr>)"
  have "vfs_alloc_node m d name type v = Some (a, v\<lparr>nodes := (nodes v)(a \<mapsto> nd)\<rparr>)"
    using n x(1) b(1) cp li ci by (simp add: vfs_alloc_node_def strlen_eq Let_def nd_def)
  moreover have "fresh_node d x type nd" using cn vr by (simp add: fresh_node_def nd_def Let_def)
  ultimately show ?thesis by blast
qed

lemma S_ISDIR_mode: "S_ISDIR (vfs_vtype_to_st_mode type) \<longleftrightarrow> type = VDIR"
  by (cases type) (simp_all add: S_ISDIR_def S_IFMT_def S_IFDIR_def S_IFREG_def S_IFSOCK_def S_IFBLK_def)

lemma parent_path_len: "unat (of_nat (p + Suc x) - of_nat x - 1 :: u64) = p" if "p < 64"
proof -
  have "(of_nat (p + Suc x) - of_nat x - 1 :: u64) = of_nat p" by simp
  then show ?thesis using that by (simp only: unat_of_nat take_bit_eq_mod) simp
qed

context vfs_backend
begin

text \<open>
  \<open>vfs_create\<close> of a path whose directory exists adds one node at the end of that directory,
  whether a node of that name is there already or not.
\<close>

lemma vfs_create_grows:
  assumes wf: "vfs_wf v" "vfs_lock v = 0" and b: "nodes v base \<noteq> None"
    and s: "cstring path 0 = Some (p @ 47 # x)" "47 \<notin> set x" "length x < 64" "length p < 64"
    and d: "resolve E v base p = Some (Inr d)" "is_dir v d" "nodes v d = Some pd" "length (kids v d) < 2 ^ 28"
    and ops: "v_ops pd = 0 \<or> E (v_ops pd) \<noteq> None" and m: "mem_ok m v a"
  shows "\<exists>v' nd. vfs_create E m base (Some path) type v = Some (VFS_SUCCESS, v') \<and> grown d a x v v' \<and> vfs_lock v' = 0 \<and>
    nodes v' a = Some nd \<and> fresh_node d x type nd \<and> (v_ops pd \<noteq> 0 \<longrightarrow> v_ops nd = v_ops pd \<and> v_mp nd = v_mp pd)"
proof -
  have bz: "base \<noteq> 0" and da: "d \<noteq> a" using wf(1) b m d(3) by (auto simp: vfs_wf_def mem_ok_def)
  have nz: "0 \<notin> set x" "0 \<notin> set p" using cstring_SomeD(4) [OF s(1)] by simp_all
  let ?v1 = "v\<lparr>vfs_lock := 1\<rparr>" and ?dn = "overwrite (replicate 64 0) 0 (x @ [0 :: u8])"
    and ?pp = "overwrite (replicate 64 0) 0 (p @ [0 :: u8])"
  have leaf: "v_get_leaf_name (replicate VNODE_NAME_MAX 0) path = Some (1, ?dn)"
    using v_get_leaf_name_eq [OF s(1-3)] s(4) by (simp add: VNODE_NAME_MAX_def)
  have cn: "cstring ?dn 0 = Some x" "cstring ?pp 0 = Some p"
    using cstring_overwrite [of 0 _ "replicate 64 0"] s(3,4) nz by simp_all
  have n: "unat (of_nat (length (p @ 47 # x)) - of_nat (length x) - 1 :: u64) = length p"
    using parent_path_len [OF s(4), of "length x"] by (simp only: length_append length_Cons)
  have cp: "strncpy (replicate VNODE_NAME_MAX 0) (Some 0) path 0 (length p) = Some (?pp, Some 0)"
    using strncpy_loop_eq [OF s(1), of "replicate 64 0" 0 "length p"] s(4) by (simp add: strncpy_def VNODE_NAME_MAX_def)
  have pn: "vfs_path_to_node E base ?pp ?v1 = Some (VFS_SUCCESS, Some d, ?v1)"
    using vfs_path_to_node_eq [of ?v1 base ?pp p] wf(1) b cn(2) s(4) d(1) by (simp add: VNODE_PATH_MAX_def)
  obtain n0 where n0: "vfs_alloc_node m d ?dn type ?v1 = Some (a, ?v1\<lparr>nodes := (nodes v)(a \<mapsto> n0)\<rparr>)" "fresh_node d x type n0"
    using vfs_alloc_node_ok [of m ?v1 a ?dn x d type] m cn(1) s(3) by (auto simp: mem_ok_def)
  obtain pd' where dd: "nodes v d = Some pd'" "vec_rep (v_children pd') (kids v d)"
      "max_elements (v_children pd') \<le> max 8 (2 * int (length (kids v d)))"
    using wf_dir [OF wf(1) d(2)] by blast
  note dd = dd [unfolded d(3) option.inject]
  have re: "realloc_ok (re_words m)" "\<forall>mem n. re_words m (Some mem) n \<noteq> None" "a \<noteq> 0" "nodes v a = None"
    using m by (simp_all add: mem_ok_def)
  obtain mem where mem: "elements (v_children pd) = Some mem" "cur_elements (v_children pd) = int (length (kids v d))"
    using dd(1,2) by (auto elim: vec_repE)
  have mx: "max_elements (v_children pd) < 2 ^ 30" using dd(1,3) d(4) by (simp split: if_splits)
  obtain cs where cs: "vector_push_back (re_words m) (v_children pd) a = Some cs" "vec_rep cs (kids v d @ [a])"
      "max_elements cs \<le> max (max_elements (v_children pd)) (2 * int (length (kids v d)))"
    using vector_push_back_rep [of "v_children pd" "kids v d" "re_words m" a] mx dd re mem by auto
  let ?v2 = "?v1\<lparr>nodes := (nodes v)(a \<mapsto> n0, d \<mapsto> pd\<lparr>v_children := cs\<rparr>)\<rparr>"
  let ?n1 = "if v_ops pd \<noteq> 0 then n0\<lparr>v_mp := v_mp pd, v_ops := v_ops pd\<rparr> else n0"
  obtain nd where nd: "(if v_ops pd \<noteq> 0 then do {
        v \<leftarrow> upd_node a (\<lambda>nd. nd\<lparr>v_mp := v_mp pd, v_ops := v_ops pd\<rparr>) ?v2;
        ops \<leftarrow> E (v_ops pd);
        (_, v) \<leftarrow> create_op ops a v;
        Some v } else Some ?v2) = Some (?v2\<lparr>nodes := (nodes ?v2)(a \<mapsto> nd)\<rparr>)" "same_node ?n1 nd"
  proof (cases "v_ops pd = 0")
    case True
    have "same_node n0 n0"
      unfolding same_node_def by (intro exI [of _ "fs_data n0"] exI [of _ "v_stat n0"]) simp
    then show ?thesis using that [of n0] da True by (simp add: fun_upd_twist)
  next
    case False
    then obtain ops where o: "E (v_ops pd) = Some ops" using ops by auto
    let ?v3 = "?v2\<lparr>nodes := (nodes ?v2)(a \<mapsto> ?n1)\<rparr>"
    have "st_mode (v_stat ?n1) = vfs_vtype_to_st_mode (v_type ?n1)" using n0(2) by (simp add: fresh_node_def)
    then obtain r nd where "create_op ops a ?v3 = Some (r, ?v3\<lparr>nodes := (nodes ?v3)(a \<mapsto> nd)\<rparr>)" "same_node ?n1 nd"
      using create_ok [OF o, of ?v3 a ?n1] by auto
    then show ?thesis using that [of nd] False o da by (simp add: upd_node_def)
  qed
  let ?v' = "?v2\<lparr>nodes := (nodes ?v2)(a \<mapsto> nd), vfs_lock := 0\<rparr>"
  have fresh: "fresh_node d x type nd" "v_ops pd \<noteq> 0 \<longrightarrow> v_ops nd = v_ops pd \<and> v_mp nd = v_mp pd"
    using nd(2) n0(2) by (auto simp: same_node_def fresh_node_def split: if_splits)
  have "upd_node d (\<lambda>nd. nd\<lparr>v_children := cs\<rparr>) (?v1\<lparr>nodes := (nodes v)(a \<mapsto> n0)\<rparr>) = Some ?v2"
    using d(3) da by (simp add: upd_node_def)
  then have "vfs_create E m base (Some path) type v = Some (VFS_SUCCESS, ?v')"
    using bz wf(2) leaf s(1) cn(1) n cp pn n0(1) re(3) d(3) da cs(1) nd(1)
    by (simp add: vfs_create_def vfs_acquire_def vfs_release_def strlen_eq VFS_SUCCESS_def)
  moreover have "grown d a x v ?v'"
    unfolding grown_def
  proof (intro exI conjI)
    show "nodes ?v' = (nodes v)(a \<mapsto> nd, d \<mapsto> pd\<lparr>v_children := cs\<rparr>)" using da by (simp add: fun_upd_twist)
    show "name_of ?v' a = Some x" using fresh(1) da by (auto simp: name_of_def fresh_node_def)
    show "is_dir ?v' a \<longrightarrow> vec_rep (v_children nd) [] \<and> max_elements (v_children nd) \<le> 8"
      using fresh(1) da by (auto simp: is_dir_def fresh_node_def S_ISDIR_mode)
  qed (use d(3) re cs dd s(3) in \<open>simp_all add: VNODE_NAME_MAX_def\<close>)
  ultimately show ?thesis using fresh da by (intro exI [of _ ?v'] exI [of _ nd]) simp
qed

text \<open>Opening a path: the node it denotes with one more reference, or the error.\<close>

lemma vfs_open_eq:
  assumes wf: "vfs_wf v" "vfs_lock v = 0" and b: "nodes v base \<noteq> None" and s: "cstring path 0 = Some s" "length s < 512"
    and r: "resolve E v base s = Some (Inr a)" "nodes v a = Some nd"
  shows "vfs_open E base path v = Some (VFS_SUCCESS, Some a, v\<lparr>nodes := (nodes v)(a \<mapsto> nd\<lparr>v_ref_count := v_ref_count nd + 1\<rparr>)\<rparr>)"
proof -
  let ?v1 = "v\<lparr>vfs_lock := 1\<rparr>"
  have "vfs_path_to_node E base path ?v1 = Some (VFS_SUCCESS, Some a, ?v1)"
    using vfs_path_to_node_eq [of ?v1 base path s] wf(1) b s r(1) by (simp add: VNODE_PATH_MAX_def)
  moreover have "v\<lparr>vfs_lock := 0\<rparr> = v" using wf(2) by (cases v) simp
  ultimately show ?thesis using wf(2) r(2)
    by (simp add: vfs_open_def vfs_acquire_def vfs_release_def upd_node_def VFS_SUCCESS_def)
qed

end

end
