(* ===== verification/Filesystems.thy ===== *)
theory Filesystems
  imports Vfs Pmm
begin

text \<open>
  The two file systems behind the virtual file system: \<open>src/kernel/fs/tmpfs.c\<close>, files in memory, and
  \<open>src/kernel/fs/devfs.c\<close>, the device nodes. \<open>kernel_ops\<close> is the environment of function tables the
  kernel runs with: the two file systems, and the devices, whose tables consist of the stubs of
  \<open>vfs.c\<close> and a read function of their own, which is an argument; so is \<open>devfs_write\<close>, which reads a
  ring buffer out of a block nobody has initialised.
\<close>

section \<open>Definitions\<close>

text \<open>The addresses of the tables \<open>tmpfs_ops\<close> and \<open>devfs_ops\<close>.\<close>

definition TMPFS_OPS :: u64 where "TMPFS_OPS = 1"
definition DEVFS_OPS :: u64 where "DEVFS_OPS = 2"

subsection \<open>tmpfs.c\<close>

definition tmpfs_mount :: "u64 \<Rightarrow> u64 \<Rightarrow> vfs \<Rightarrow> (int \<times> vfs) option" where
  "tmpfs_mount mp device v = do {
     v \<leftarrow> upd_node mp (\<lambda>nd. nd\<lparr>v_mp := mp, v_ops := TMPFS_OPS\<rparr>) v;
     Some (VFS_SUCCESS, v) }"

definition tmpfs_open :: "u64 \<Rightarrow> cbuf option \<Rightarrow> vfs \<Rightarrow> (int \<times> vfs) option" where
  "tmpfs_open parent name v = Some (VFS_OPEN_FAIL, v)"

definition tmpfs_close :: "u64 \<Rightarrow> vfs \<Rightarrow> (int \<times> vfs) option" where
  "tmpfs_close node v = Some (VFS_CLOSE_FAIL, v)"

text \<open>The bytes behind \<open>fs_data\<close>; there are none behind a null pointer.\<close>

definition data_of :: "vnode \<Rightarrow> cbuf" where
  "data_of nd = (case fs_data nd of None \<Rightarrow> [] | Some d \<Rightarrow> d)"

text \<open>The count is returned as an \<open>int\<close>.\<close>

definition as_int :: "u64 \<Rightarrow> int" where "as_int x = sint (ucast x :: u32)"

definition tmpfs_read :: "cbuf \<Rightarrow> u64 \<Rightarrow> u64 \<Rightarrow> u64 \<Rightarrow> vfs \<Rightarrow> (int \<times> cbuf \<times> vfs) option" where
  "tmpfs_read buff node sz offset v = do {
     nd \<leftarrow> nodes v node;
     let sz = (if offset + sz \<ge> st_size (v_stat nd) then st_size (v_stat nd) - offset else sz);
     buff \<leftarrow> memcpy buff 0 (data_of nd) (unat offset) (unat sz);
     Some (as_int sz, buff, v) }"

definition tmpfs_write :: "kmem \<Rightarrow> cbuf \<Rightarrow> u64 \<Rightarrow> u64 \<Rightarrow> u64 \<Rightarrow> vfs \<Rightarrow> (int \<times> vfs) option" where
  "tmpfs_write m buff node sz offset v = do {
     nd \<leftarrow> nodes v node;
     let file_head_max = sz + offset;
     let file_block_size = st_blksize (v_stat nd);
     if file_block_size = 0 then None
     else do {
       let new_block_size = file_head_max div file_block_size;
       let new_block_size = (if file_head_max mod file_block_size \<noteq> 0 then new_block_size + 1 else new_block_size);
       let grow = (new_block_size > st_blocks (v_stat nd));
       let data = (if grow then re_bytes m (fs_data nd) (new_block_size * PAGE_SIZE_BYTES) else fs_data nd);
       if grow \<and> data = None then Some (VFS_NO_MEM, v)
       else do {
         let nd = (if grow then nd\<lparr>fs_data := data, v_stat := (v_stat nd)\<lparr>st_blocks := new_block_size, st_size := offset + sz\<rparr>\<rparr>
           else nd);
         mem \<leftarrow> memcpy (data_of nd) (unat offset) buff 0 (unat sz);
         let nd = (case fs_data nd of None \<Rightarrow> nd | Some _ \<Rightarrow> nd\<lparr>fs_data := Some mem\<rparr>);
         let nd = (if offset + sz > st_size (v_stat nd) then nd\<lparr>v_stat := (v_stat nd)\<lparr>st_size := offset + sz\<rparr>\<rparr> else nd);
         v \<leftarrow> upd_node node (\<lambda>_. nd) v;
         Some (VFS_SUCCESS, v) } } }"

text \<open>What \<open>tmpfs_create\<close> and \<open>devfs_create\<close> store in the node.\<close>

definition fill_node :: "cbuf \<Rightarrow> vnode \<Rightarrow> vnode" where
  "fill_node data nd = nd\<lparr>fs_data := Some data, v_stat := (v_stat nd)\<lparr>st_blksize := PAGE_SIZE_BYTES, st_blocks := 1,
     st_size := PAGE_SIZE_BYTES, st_mode := vfs_vtype_to_st_mode (v_type nd)\<rparr>\<rparr>"

definition tmpfs_create :: "kmem \<Rightarrow> u64 \<Rightarrow> vfs \<Rightarrow> (int \<times> vfs) option" where
  "tmpfs_create m node v =
     (case new_bytes m PAGE_SIZE_BYTES of
        None \<Rightarrow> Some (VFS_NO_MEM, v)
      | Some data \<Rightarrow> do {
          v \<leftarrow> upd_node node (fill_node data) v;
          Some (VFS_SUCCESS, v) })"

definition tmpfs_ops :: "kmem \<Rightarrow> vfsops" where
  "tmpfs_ops m = \<lparr>mount_op = tmpfs_mount, open_op = tmpfs_open, close_op = tmpfs_close, read_op = tmpfs_read,
     write_op = tmpfs_write m, create_op = tmpfs_create m\<rparr>"

definition tmpfs_init :: "vfs \<Rightarrow> vfs option" where
  "tmpfs_init v = do {
     (_, v) \<leftarrow> vfs_add_fs_meta (Some (bytes ''tmpfs'' @ [0])) TMPFS_OPS v;
     Some v }"

function octal_to_int :: "cbuf \<Rightarrow> nat \<Rightarrow> nat \<Rightarrow> u64 \<Rightarrow> u64 option" where
  "octal_to_int buf src n ret =
     (if src < length buf
      then if buf ! src \<noteq> 0 \<and> n > 0
        then octal_to_int buf (Suc src) (n - 1) (ret * 8 + of_int (sint (buf ! src) - 48))
        else Some ret
      else None)"
  by pat_completeness auto
termination
  by (relation "measure (\<lambda>(buf, src, n, ret). n)") auto

declare octal_to_int.simps [simp del]

subsection \<open>devfs.c\<close>

definition DEVFS_DEVICE_INIT_ERR :: int where "DEVFS_DEVICE_INIT_ERR = 1"

record devfs =
  fsys :: vfs
  devfs_root :: u64
  dev_id :: u64

definition devfs_mount :: "u64 \<Rightarrow> u64 \<Rightarrow> vfs \<Rightarrow> (int \<times> vfs) option" where
  "devfs_mount mp device v = do {
     v \<leftarrow> upd_node mp (\<lambda>nd. nd\<lparr>v_mp := mp, v_ops := DEVFS_OPS\<rparr>) v;
     Some (1, v) }"

definition devfs_open :: "u64 \<Rightarrow> cbuf option \<Rightarrow> vfs \<Rightarrow> (int \<times> vfs) option" where
  "devfs_open parent name v = Some (VFS_OPEN_FAIL, v)"

definition devfs_close :: "u64 \<Rightarrow> vfs \<Rightarrow> (int \<times> vfs) option" where
  "devfs_close node v = Some (VFS_CLOSE_FAIL, v)"

definition devfs_read :: "cbuf \<Rightarrow> u64 \<Rightarrow> u64 \<Rightarrow> u64 \<Rightarrow> vfs \<Rightarrow> (int \<times> cbuf \<times> vfs) option" where
  "devfs_read buff node sz offset v = Some (1, buff, v)"

definition devfs_create :: "kmem \<Rightarrow> u64 \<Rightarrow> vfs \<Rightarrow> (int \<times> vfs) option" where
  "devfs_create m node v =
     (case new_bytes m PAGE_SIZE_BYTES of
        None \<Rightarrow> Some (0, v)
      | Some data \<Rightarrow> do {
          v \<leftarrow> upd_node node (fill_node data) v;
          Some (1, v) })"

type_synonym write_fn = "cbuf \<Rightarrow> u64 \<Rightarrow> u64 \<Rightarrow> u64 \<Rightarrow> vfs \<Rightarrow> (int \<times> vfs) option"
type_synonym read_fn = "cbuf \<Rightarrow> u64 \<Rightarrow> u64 \<Rightarrow> u64 \<Rightarrow> vfs \<Rightarrow> (int \<times> cbuf \<times> vfs) option"

definition devfs_ops :: "kmem \<Rightarrow> write_fn \<Rightarrow> vfsops" where
  "devfs_ops m devfs_write = \<lparr>mount_op = devfs_mount, open_op = devfs_open, close_op = devfs_close, read_op = devfs_read,
     write_op = devfs_write, create_op = devfs_create m\<rparr>"

text \<open>The table of a device, such as \<open>keyboard_ops\<close> and \<open>mouse_ops\<close> of \<open>ps2.c\<close>.\<close>

definition dev_ops :: "read_fn \<Rightarrow> vfsops" where
  "dev_ops dev_read = \<lparr>mount_op = vfs_mount_stub, open_op = vfs_open_stub, close_op = vfs_close_stub, read_op = dev_read,
     write_op = vfs_write_stub, create_op = vfs_create_stub\<rparr>"

definition kernel_ops :: "kmem \<Rightarrow> write_fn \<Rightarrow> (u64 \<Rightarrow> read_fn option) \<Rightarrow> ops_env" where
  "kernel_ops m w devs f =
     (if f = TMPFS_OPS then Some (tmpfs_ops m)
      else if f = DEVFS_OPS then Some (devfs_ops m w)
      else map_option dev_ops (devs f))"

definition devfs_init :: "ops_env \<Rightarrow> kmem \<Rightarrow> devfs \<Rightarrow> devfs option" where
  "devfs_init E m ds =
     (if devfs_root ds \<noteq> 0 then Some ds
      else do {
        (_, v) \<leftarrow> vfs_add_fs_meta (Some (bytes ''devfs'' @ [0])) DEVFS_OPS (fsys ds);
        (_, v) \<leftarrow> vfs_create E m (vfs_get_root v) (Some (bytes ''/dev'' @ [0])) VDIR v;
        (_, root, v) \<leftarrow> vfs_mount E (vfs_get_root v) (bytes ''/dev'' @ [0]) (Some (bytes ''devfs'' @ [0])) v;
        Some (ds\<lparr>fsys := v, devfs_root := (case root of None \<Rightarrow> devfs_root ds | Some r \<Rightarrow> r)\<rparr>) })"

text \<open>The results are the code, what \<open>*device\<close> receives, and the state.\<close>

definition devfs_new_device :: "ops_env \<Rightarrow> kmem \<Rightarrow> cbuf option \<Rightarrow> u64 \<Rightarrow> devfs \<Rightarrow> (int \<times> u64 option \<times> devfs) option" where
  "devfs_new_device E m name devops ds =
     (case name of
        None \<Rightarrow> Some (DEVFS_DEVICE_INIT_ERR, None, ds)
      | Some nm \<Rightarrow>
          if devfs_root ds = 0 \<or> devops = 0 then Some (DEVFS_DEVICE_INIT_ERR, None, ds)
          else do {
            name_len \<leftarrow> strlen nm 0;
            if \<not> (name_len < VNODE_NAME_MAX \<and> name_len > 0) then Some (DEVFS_DEVICE_INIT_ERR, None, ds)
            else do {
              let dev_path = overwrite (replicate VNODE_PATH_MAX 0) 0 (bytes ''dev/'');
              l \<leftarrow> strlen dev_path 0;
              (dev_path, _) \<leftarrow> strncpy dev_path (Some l) nm 0 name_len;
              (err, _, v) \<leftarrow> vfs_open E (devfs_root ds) dev_path (fsys ds);
              if err = 0 then Some (VFS_NODE_EXISTS, None, ds\<lparr>fsys := v\<rparr>)
              else do {
                (err, v) \<leftarrow> vfs_create E m (devfs_root ds) (Some dev_path) VREG v;
                if err \<noteq> 0 then Some (err, None, ds\<lparr>fsys := v\<rparr>)
                else do {
                  (err, ret, v) \<leftarrow> vfs_open E (devfs_root ds) dev_path v;
                  if err \<noteq> 0 then Some (err, None, ds\<lparr>fsys := v\<rparr>)
                  else do {
                    dev \<leftarrow> ret;
                    (err, r) \<leftarrow> vfs_get_fs_node (devfs_root ds) v;
                    case r of
                      None \<Rightarrow> Some (err, Some dev, ds\<lparr>fsys := v\<rparr>)
                    | Some i \<Rightarrow> do {
                        fn \<leftarrow> rd (fs_nodes v) i;
                        v \<leftarrow> upd_node dev (\<lambda>nd. nd\<lparr>v_ops := devops, v_stat := (v_stat nd)\<lparr>st_ino := inode_count fn,
                          st_dev := fs_id fn, st_rdev := dev_id ds\<rparr>\<rparr>) v;
                        Some (0, Some dev, ds\<lparr>fsys := v\<lparr>fs_nodes := (fs_nodes v)[i := fn\<lparr>inode_count := inode_count fn + 1\<rparr>]\<rparr>,
                          dev_id := dev_id ds + 1\<rparr>) } } } } } })"

section \<open>The contract of the file systems\<close>

lemma fill_node_same: "st_mode (v_stat nd) = vfs_vtype_to_st_mode (v_type nd) \<Longrightarrow> same_node nd (fill_node data nd)"
  unfolding same_node_def fill_node_def
  by (rule exI [of _ "Some data"], rule exI [of _ "(v_stat nd)\<lparr>st_blksize := PAGE_SIZE_BYTES, st_blocks := 1,
     st_size := PAGE_SIZE_BYTES, st_mode := vfs_vtype_to_st_mode (v_type nd)\<rparr>"]) simp

lemma same_node_refl: "same_node nd nd"
  unfolding same_node_def by (intro exI [of _ "fs_data nd"] exI [of _ "v_stat nd"]) simp

lemma create_same:
  assumes "nodes v a = Some nd" "st_mode (v_stat nd) = vfs_vtype_to_st_mode (v_type nd)"
  shows "\<exists>r nd'. tmpfs_create m a v = Some (r, v\<lparr>nodes := (nodes v)(a \<mapsto> nd')\<rparr>) \<and> same_node nd nd'"
    "\<exists>r nd'. devfs_create m a v = Some (r, v\<lparr>nodes := (nodes v)(a \<mapsto> nd')\<rparr>) \<and> same_node nd nd'"
    "\<exists>r nd'. vfs_create_stub a v = Some (r, v\<lparr>nodes := (nodes v)(a \<mapsto> nd')\<rparr>) \<and> same_node nd nd'"
proof -
  have eq: "v\<lparr>nodes := (nodes v)(a \<mapsto> nd)\<rparr> = v" using assms(1) by (simp add: fun_upd_idem)
  show "\<exists>r nd'. vfs_create_stub a v = Some (r, v\<lparr>nodes := (nodes v)(a \<mapsto> nd')\<rparr>) \<and> same_node nd nd'"
    using eq same_node_refl [of nd] by (auto simp: vfs_create_stub_def intro!: exI [of _ nd])
  show "\<exists>r nd'. tmpfs_create m a v = Some (r, v\<lparr>nodes := (nodes v)(a \<mapsto> nd')\<rparr>) \<and> same_node nd nd'"
    using eq same_node_refl [of nd] fill_node_same [OF assms(2)] assms(1)
    by (cases "new_bytes m PAGE_SIZE_BYTES") (auto simp: tmpfs_create_def upd_node_def intro: exI [of _ nd])
  show "\<exists>r nd'. devfs_create m a v = Some (r, v\<lparr>nodes := (nodes v)(a \<mapsto> nd')\<rparr>) \<and> same_node nd nd'"
    using eq same_node_refl [of nd] fill_node_same [OF assms(2)] assms(1)
    by (cases "new_bytes m PAGE_SIZE_BYTES") (auto simp: devfs_create_def upd_node_def intro: exI [of _ nd])
qed

interpretation kfs: vfs_backend "kernel_ops m w devs" for m w devs
proof
  show "\<exists>e. open_op ops d nm v = Some (e, v) \<and> e \<noteq> 0" if "kernel_ops m w devs f = Some ops" for f ops d nm v
    using that by (auto simp: kernel_ops_def tmpfs_ops_def devfs_ops_def dev_ops_def tmpfs_open_def devfs_open_def
        vfs_open_stub_def vfs_codes split: if_splits)
  show "\<exists>r nd'. create_op ops a v = Some (r, v\<lparr>nodes := (nodes v)(a \<mapsto> nd')\<rparr>) \<and> same_node nd nd'"
    if "kernel_ops m w devs f = Some ops" "nodes v a = Some nd" "st_mode (v_stat nd) = vfs_vtype_to_st_mode (v_type nd)"
    for f ops v a nd
  proof -
    have "create_op ops = tmpfs_create m \<or> create_op ops = devfs_create m \<or> create_op ops = vfs_create_stub"
      using that(1) by (auto simp: kernel_ops_def tmpfs_ops_def devfs_ops_def dev_ops_def split: if_splits)
    then show ?thesis using create_same [OF that(2,3)] by auto
  qed
qed

section \<open>Files of tmpfs\<close>

definition file_ok :: "vnode \<Rightarrow> bool" where
  "file_ok nd \<longleftrightarrow> fs_data nd \<noteq> None \<and> length (data_of nd) = 4096 * unat (st_blocks (v_stat nd)) \<and>
     st_blksize (v_stat nd) = 4096 \<and> unat (st_size (v_stat nd)) \<le> length (data_of nd)"

text \<open>What the C standard promises of \<open>realloc\<close>, for a block of bytes.\<close>

definition bytes_realloc_ok :: "(cbuf option \<Rightarrow> u64 \<Rightarrow> cbuf option) \<Rightarrow> bool" where
  "bytes_realloc_ok krealloc \<longleftrightarrow> (\<forall>d n. \<exists>d'. krealloc (Some d) n = Some d' \<and> length d' = unat n \<and>
     (\<forall>i < min (length d) (unat n). d' ! i = d ! i))"

lemma fill_node_file: "length data = 4096 \<Longrightarrow> file_ok (fill_node data nd)"
  by (simp add: file_ok_def fill_node_def data_of_def PAGE_SIZE_BYTES_def)

lemma block_count:
  fixes h :: u64
  assumes "unat h < 2 ^ 31"
  shows "unat (if h mod 4096 \<noteq> 0 then h div 4096 + 1 else h div 4096) = (unat h + 4095) div 4096"
    and "unat ((if h mod 4096 \<noteq> 0 then h div 4096 + 1 else h div 4096) * 4096) = 4096 * ((unat h + 4095) div 4096)"
proof -
  have d: "unat (h div 4096) = unat h div 4096" "unat (h mod 4096) = unat h mod 4096"
    by (simp_all add: unat_div unat_mod)
  have z: "h mod 4096 \<noteq> 0 \<longleftrightarrow> unat h mod 4096 \<noteq> 0" using d(2) by (simp add: unat_eq_0 [symmetric])
  have "unat (h div 4096 + 1) = unat h div 4096 + 1" using d(1) assms by (subst unat_add_small) simp_all
  moreover have "(x + 4095) div 4096 = (if x mod 4096 \<noteq> 0 then x div 4096 + 1 else x div 4096)" for x :: nat
  proof -
    have "(x mod 4096 + 4095) div 4096 = (if x mod 4096 \<noteq> 0 then 1 else 0)"
      using mod_less_divisor [of 4096 x] by (auto intro: div_nat_eqI)
    then show ?thesis by (simp add: div_add1_eq [of x 4095])
  qed
  ultimately show c: "unat (if h mod 4096 \<noteq> 0 then h div 4096 + 1 else h div 4096) = (unat h + 4095) div 4096"
    using d(1) z by simp
  show "unat ((if h mod 4096 \<noteq> 0 then h div 4096 + 1 else h div 4096) * 4096) = 4096 * ((unat h + 4095) div 4096)"
    using c assms by (subst unat_mult_small) simp_all
qed

lemma tmpfs_write_ok:
  assumes nd: "nodes v a = Some nd" "file_ok nd" and re: "bytes_realloc_ok (re_bytes m)"
    and small: "unat offset + unat sz < 2 ^ 31" and buff: "unat sz \<le> length buff"
  shows "\<exists>nd'. tmpfs_write m buff a sz offset v = Some (VFS_SUCCESS, v\<lparr>nodes := (nodes v)(a \<mapsto> nd')\<rparr>) \<and> file_ok nd' \<and>
    unat (st_size (v_stat nd')) = max (unat (st_size (v_stat nd))) (unat offset + unat sz) \<and> v_ops nd' = v_ops nd \<and>
    take (unat sz) (drop (unat offset) (data_of nd')) = take (unat sz) buff \<and>
    (\<forall>i < unat (st_size (v_stat nd)). i < unat offset \<or> unat offset + unat sz \<le> i \<longrightarrow> data_of nd' ! i = data_of nd ! i)"
proof -
  obtain d where d: "fs_data nd = Some d" "data_of nd = d" "length d = 4096 * unat (st_blocks (v_stat nd))"
      "st_blksize (v_stat nd) = 4096" "unat (st_size (v_stat nd)) \<le> length d"
    using nd(2) by (auto simp: file_ok_def data_of_def)
  let ?o = "unat offset" and ?n = "unat sz" and ?h = "sz + offset"
  have h: "unat ?h = ?o + ?n" "unat (offset + sz) = ?o + ?n" using small by (simp_all add: unat_add_small)
  define nb where "nb = (if ?h mod 4096 \<noteq> 0 then ?h div 4096 + 1 else ?h div 4096)"
  have nb: "unat nb = (?o + ?n + 4095) div 4096" "unat (nb * 4096) = 4096 * ((?o + ?n + 4095) div 4096)"
    using block_count [of ?h] h(1) small unfolding nb_def by simp_all
  define data where "data = (if nb > st_blocks (v_stat nd) then re_bytes m (Some d) (nb * 4096) else Some d)"
  define nd1 where "nd1 = (if nb > st_blocks (v_stat nd)
    then nd\<lparr>fs_data := data, v_stat := (v_stat nd)\<lparr>st_blocks := nb, st_size := offset + sz\<rparr>\<rparr> else nd)"
  have e1: "\<exists>e. fs_data nd1 = Some e \<and> length e = 4096 * unat (st_blocks (v_stat nd1)) \<and> ?o + ?n \<le> length e \<and>
      length d \<le> length e \<and> (\<forall>i<length d. e ! i = d ! i)"
  proof (cases "nb > st_blocks (v_stat nd)")
    case True
    obtain e where e: "re_bytes m (Some d) (nb * 4096) = Some e" "length e = unat (nb * 4096)"
        "\<forall>i < min (length d) (unat (nb * 4096)). e ! i = d ! i"
      using re unfolding bytes_realloc_ok_def by blast
    have "unat (st_blocks (v_stat nd)) < unat nb" using True by (simp add: word_less_nat_alt)
    then have "length d \<le> length e" using d(3) e(2) nb by simp
    moreover have "?o + ?n \<le> length e" using e(2) nb(2) by simp
    ultimately show ?thesis using e True nb by (auto simp: nd1_def data_def)
  next
    case False
    then have "unat nb \<le> unat (st_blocks (v_stat nd))" by (simp add: word_less_nat_alt)
    then have "?o + ?n \<le> length d" using d(3) nb(1) by simp
    then show ?thesis using False d by (auto simp: nd1_def)
  qed
  then obtain e where e: "fs_data nd1 = Some e" "length e = 4096 * unat (st_blocks (v_stat nd1))" "?o + ?n \<le> length e"
      "length d \<le> length e" "\<forall>i<length d. e ! i = d ! i" by blast
  let ?mem = "overwrite e ?o (take ?n buff)"
  define nd2 where "nd2 = nd1\<lparr>fs_data := Some ?mem\<rparr>"
  define nd' where "nd' = (if offset + sz > st_size (v_stat nd2) then nd2\<lparr>v_stat := (v_stat nd2)\<lparr>st_size := offset + sz\<rparr>\<rparr> else nd2)"
  have cp: "memcpy e ?o buff 0 ?n = Some ?mem" using e(3) buff by (simp add: memcpy_eq)
  have d1: "data_of nd1 = e" using e(1) by (simp add: data_of_def)
  have w: "tmpfs_write m buff a sz offset v = Some (VFS_SUCCESS, v\<lparr>nodes := (nodes v)(a \<mapsto> nd')\<rparr>)"
  proof -
    have n: "(nb > st_blocks (v_stat nd) \<and> data = None) = False" "((4096 :: u64) = 0) = False"
      using e(1) by (auto simp: nd1_def split: if_splits)
    show ?thesis
      unfolding tmpfs_write_def Let_def nd(1) bind.bind_lunit d(1,4) PAGE_SIZE_BYTES_def nb_def [symmetric]
        data_def [symmetric] n if_False nd1_def [symmetric] d1 cp e(1) option.case
        nd2_def [symmetric] nd'_def [symmetric]
      using nd(1) by (simp add: upd_node_def)
  qed
  have lm: "length ?mem = length e" using e(3) buff by simp
  have dd: "data_of nd' = ?mem" "st_blocks (v_stat nd') = st_blocks (v_stat nd1)" "st_blksize (v_stat nd') = 4096" "v_ops nd' = v_ops nd"
    using d(4) by (simp_all add: nd'_def nd2_def nd1_def data_of_def)
  have sz1: "unat (st_size (v_stat nd1)) = (if nb > st_blocks (v_stat nd) then ?o + ?n else unat (st_size (v_stat nd)))"
    using h(2) by (simp add: nd1_def)
  have big: "unat (st_size (v_stat nd)) \<le> ?o + ?n" if "nb > st_blocks (v_stat nd)"
  proof -
    have "unat (st_blocks (v_stat nd)) < (?o + ?n + 4095) div 4096" using that nb(1) by (simp add: word_less_nat_alt)
    then show ?thesis using d(3,5) by linarith
  qed
  have ns: "unat (st_size (v_stat nd')) = max (unat (st_size (v_stat nd))) (?o + ?n)"
    using sz1 big h(2) by (auto simp: nd'_def nd2_def word_less_nat_alt)
  have "fs_data nd' \<noteq> None" by (simp add: nd'_def nd2_def)
  moreover have "unat (st_size (v_stat nd')) \<le> length ?mem" using ns lm e(3,4) d(5) by simp
  ultimately have ok: "file_ok nd'" using dd lm e(2) by (simp add: file_ok_def)
  have tk: "take ?n (drop ?o ?mem) = take ?n buff" using e(3) buff by (simp add: drop_overwrite)
  have fr: "?mem ! i = d ! i" if "i < unat (st_size (v_stat nd))" "i < ?o \<or> ?o + ?n \<le> i" for i
    using that d(5) e(3,4,5) buff by (subst nth_overwrite) auto
  show ?thesis using w ok ns dd tk fr d(2) by (intro exI [of _ nd']) simp
qed

lemma as_int_small: "unat x < 2 ^ 31 \<Longrightarrow> as_int x = int (unat x)"
proof -
  assume a: "unat x < 2 ^ 31"
  have "(ucast x :: u32) = of_nat (unat x)" by simp
  then show ?thesis using a by (simp add: as_int_def signed_of_nat signed_take_bit_int_eq_self del: of_nat_unat)
qed

lemma tmpfs_read_ok:
  assumes nd: "nodes v a = Some nd" "file_ok nd" and off: "unat offset \<le> unat (st_size (v_stat nd))"
    and small: "unat (st_size (v_stat nd)) < 2 ^ 31" "unat offset + unat sz < 2 ^ 31"
    and k: "k = min (unat sz) (unat (st_size (v_stat nd)) - unat offset)" "k \<le> length buff"
  shows "tmpfs_read buff a sz offset v = Some (int k, overwrite buff 0 (take k (drop (unat offset) (data_of nd))), v)"
proof -
  let ?s = "st_size (v_stat nd)"
  define n where "n = (if offset + sz \<ge> ?s then ?s - offset else sz)"
  have h: "unat (offset + sz) = unat offset + unat sz" using small(2) by (intro unat_add_small) simp
  have "unat (?s - offset) = unat ?s - unat offset" using off by (simp add: unat_sub word_le_nat_alt)
  then have n: "unat n = k" using h off by (auto simp: n_def k(1) word_le_nat_alt)
  have len: "unat ?s \<le> length (data_of nd)" using nd(2) by (simp add: file_ok_def)
  have "as_int n = int k" using n small k(1) as_int_small [of n] by simp
  moreover have "memcpy buff 0 (data_of nd) (unat offset) k = Some (overwrite buff 0 (take k (drop (unat offset) (data_of nd))))"
  proof -
    have "unat offset + k \<le> length (data_of nd)" using k(1) off len by linarith
    then show ?thesis using k(2) by (simp add: memcpy_eq)
  qed
  ultimately show ?thesis
    unfolding tmpfs_read_def Let_def nd(1) bind.bind_lunit n_def [symmetric] n by simp
qed

text \<open>Reading from an offset behind the end of the file leaves the data block: the length wraps around.\<close>

lemma tmpfs_read_behind_end:
  assumes nd: "nodes v a = Some nd" and off: "unat offset > unat (st_size (v_stat nd))" "unat offset < 2 ^ 62" "unat sz < 2 ^ 62"
    and len: "length buff < 2 ^ 63"
  shows "tmpfs_read buff a sz offset v = None"
proof -
  let ?s = "st_size (v_stat nd)"
  have h: "unat (offset + sz) = unat offset + unat sz" using off by (intro unat_add_small) simp
  then have ge: "offset + sz \<ge> ?s" using off(1) by (simp add: word_le_nat_alt)
  have "unat (?s - offset) = 2 ^ 64 + unat ?s - unat offset" using off(1) by (simp add: unat_sub_if_size word_size)
  then have "\<not> unat (?s - offset) \<le> length buff" "unat (?s - offset) \<noteq> 0" using off(2) len by simp_all
  then show ?thesis using nd ge by (simp add: tmpfs_read_def memcpy_eq)
qed

section \<open>Properties\<close>

subsection \<open>A small tree\<close>

text \<open>The root, the mounted directory \<open>/tmp\<close> and the file \<open>/tmp/a\<close>.\<close>

definition demo_node :: "VTYPE \<Rightarrow> u64 \<Rightarrow> string \<Rightarrow> u64 \<Rightarrow> u64 list \<Rightarrow> vnode" where
  "demo_node type parent name ops cs = \<lparr>v_ref_count = 0, v_lock_count = 0, v_type = type, v_mp = 0, v_parent = parent,
     v_children = \<lparr>cur_elements = int (length cs), max_elements = 8, elements = Some (cs @ replicate (8 - length cs) 0)\<rparr>,
     v_name = Some (bytes name @ [0]), v_ops = ops,
     v_stat = \<lparr>st_dev = 0, st_ino = 0, st_mode = vfs_vtype_to_st_mode type, st_rdev = 0, st_size = 4096, st_blksize = 4096,
       st_blocks = 1\<rparr>, fs_data = Some (replicate 4096 0)\<rparr>"

definition demo_vfs :: vfs where
  "demo_vfs = \<lparr>vfs_lock = 0, v_root = 1, fs_metas = [], fs_meta_count = 0, fs_nodes = [], fs_node_count = 0,
     nodes = [1 \<mapsto> demo_node VDIR 0 '''' 0 [2], 2 \<mapsto> demo_node VDIR 1 ''tmp'' TMPFS_OPS [3],
       3 \<mapsto> demo_node VREG 2 ''a'' TMPFS_OPS []]\<rparr>"

definition demo_mem :: kmem where
  "demo_mem = \<lparr>new_node = Some (9, demo_node VNON 0 '''' 0 []), new_words = Some (replicate 8 0),
     new_bytes = (\<lambda>n. Some (replicate (unat n) 0)), re_words = copy_realloc,
     re_bytes = (\<lambda>blk n. map_option (\<lambda>d. take (unat n) (d @ replicate (unat n) 0)) blk)\<rparr>"

lemma demo_facts:
  "name_of demo_vfs 1 = Some []" "name_of demo_vfs 2 = Some (bytes ''tmp'')" "name_of demo_vfs 3 = Some (bytes ''a'')"
  "is_dir demo_vfs 1" "is_dir demo_vfs 2" "\<not> is_dir demo_vfs 3"
  "kids demo_vfs 1 = [2]" "kids demo_vfs 2 = [3]" "kids demo_vfs 3 = []"
  by (simp_all add: name_of_def is_dir_def kids_def demo_vfs_def demo_node_def cstring_def S_ISDIR_def
      S_IFMT_def S_IFDIR_def S_IFREG_def)

lemma demo_wf: "vfs_wf demo_vfs" "vfs_lock demo_vfs = 0"
proof -
  have "node_ok demo_vfs a nd" if "nodes demo_vfs a = Some nd" for a nd
  proof -
    have a: "a = 1 \<or> a = 2 \<or> a = 3" using that by (auto simp: demo_vfs_def split: if_splits)
    have v: "vec_rep (v_children (demo_node ty p nm f cs)) cs" if "length cs \<le> 8" for ty p nm f cs
      using that by (simp add: vec_rep_def demo_node_def)
    have "max_elements (v_children nd) = 8" using that by (auto simp: demo_vfs_def demo_node_def split: if_splits)
    moreover have "nodes demo_vfs 2 \<noteq> None" "nodes demo_vfs 3 \<noteq> None" by (simp_all add: demo_vfs_def)
    moreover have "vec_rep (v_children nd) (kids demo_vfs a)"
      using a that demo_facts(7-9) v [of "[2]"] v [of "[3]"] v [of "[]"] by (auto simp: demo_vfs_def)
    ultimately show ?thesis using a demo_facts unfolding node_ok_def VNODE_NAME_MAX_def by auto
  qed
  then show "vfs_wf demo_vfs" using demo_facts(4) by (simp add: vfs_wf_def) (simp add: demo_vfs_def)
  show "vfs_lock demo_vfs = 0" by (simp add: demo_vfs_def)
qed

text \<open>
  C6: resolution of paths. On a well-formed tree of vnodes and with the function tables of the
  kernel, \<open>vfs_path_to_node\<close> does for every terminated path what walking the tree along its names
  says: it returns the node reached, \<open>VFS_INVALID_PATH\<close> where a name lies below something that is not
  a directory or a relative path does not start with the name of its base, \<open>VFS_NODE_MISSING\<close> where
  a name is not there, and changes nothing. A path of more than 512 bytes is refused; one of exactly
  512 bytes overflows the copy on the stack, and a name missing in a directory without function
  table makes the code call through that table.
\<close>

theorem vfs_path_resolution:
  assumes "vfs_wf v" and "nodes v base \<noteq> None" and "cstring path 0 = Some s"
  shows "vfs_path_to_node (kernel_ops m w devs) base path v =
    (if VNODE_PATH_MAX < length s then Some (VFS_INVALID_PARAMETERS, None, v)
     else if length s = VNODE_PATH_MAX then None
     else map_option (path_result v) (resolve (kernel_ops m w devs) v base s))"
  using assms by (rule kfs.vfs_path_to_node_eq)

theorem vfs_path_resolution_witness:
  "vfs_path_to_node (kernel_ops demo_mem (\<lambda>_ _ _ _ _. None) (\<lambda>_. None)) 1 (bytes ''/tmp//a'' @ [0]) demo_vfs =
      Some (VFS_SUCCESS, Some 3, demo_vfs) \<and>
    vfs_path_to_node (kernel_ops demo_mem (\<lambda>_ _ _ _ _. None) (\<lambda>_. None)) 1 (bytes ''/tmp/b'' @ [0]) demo_vfs =
      Some (VFS_NODE_MISSING, None, demo_vfs) \<and>
    vfs_path_to_node (kernel_ops demo_mem (\<lambda>_ _ _ _ _. None) (\<lambda>_. None)) 2 (bytes ''tmp/a/c'' @ [0]) demo_vfs =
      Some (VFS_INVALID_PATH, None, demo_vfs)"
proof -
  let ?E = "kernel_ops demo_mem (\<lambda>_ _ _ _ _. None) (\<lambda>_. None)"
  have n: "nodes demo_vfs 1 \<noteq> None" "nodes demo_vfs 2 = Some (demo_node VDIR 1 ''tmp'' TMPFS_OPS [3])" by (simp_all add: demo_vfs_def)
  have o: "?E (v_ops (demo_node VDIR 1 ''tmp'' TMPFS_OPS [3])) \<noteq> None" "v_root demo_vfs = 1"
    by (simp_all add: kernel_ops_def demo_node_def demo_vfs_def)
  have t: "tokens {47} (bytes ''/tmp//a'') = [bytes ''tmp'', bytes ''a'']" "tokens {47} (bytes ''/tmp/b'') = [bytes ''tmp'', bytes ''b'']"
    "tokens {47} (bytes ''tmp/a/c'') = [bytes ''tmp'', bytes ''a'', bytes ''c'']"
    by (simp_all add: tokens.simps)
  have r: "resolve ?E demo_vfs 1 (bytes ''/tmp//a'') = Some (Inr 3)"
      "resolve ?E demo_vfs 1 (bytes ''/tmp/b'') = Some (Inl VFS_NODE_MISSING)"
      "resolve ?E demo_vfs 2 (bytes ''tmp/a/c'') = Some (Inl VFS_INVALID_PATH)"
    unfolding resolve_def t using demo_facts n o by (simp_all add: child_def)
  have c: "cstring (bytes s @ [0]) 0 = Some (bytes s)" if "s \<in> {''/tmp//a'', ''/tmp/b'', ''tmp/a/c''}" for s
    using that by (auto simp: cstring_def)
  show ?thesis
    using vfs_path_resolution [OF demo_wf(1) n(1) c [of "''/tmp//a''"], of demo_mem "\<lambda>_ _ _ _ _. None" "\<lambda>_. None"]
      vfs_path_resolution [OF demo_wf(1) n(1) c [of "''/tmp/b''"], of demo_mem "\<lambda>_ _ _ _ _. None" "\<lambda>_. None"]
      vfs_path_resolution [OF demo_wf(1) _ c [of "''tmp/a/c''"], of 2 demo_mem "\<lambda>_ _ _ _ _. None" "\<lambda>_. None"] n(2) r
    by (simp add: VNODE_PATH_MAX_def)
qed

text \<open>
  C7: creating a node. When the directory part of a path denotes a directory and the memory
  suffices, \<open>vfs_create\<close> succeeds, the tree stays well formed, every path that denoted a node still
  denotes the same node, and, unless the directory held that name before, \<open>vfs_open\<close> of the path
  then returns the new node, of the type asked for, with one reference.
\<close>

theorem vfs_create_open:
  assumes wf: "vfs_wf v" "vfs_lock v = 0" and b: "nodes v base \<noteq> None"
    and s: "cstring path 0 = Some (p @ 47 # x)" "47 \<notin> set x" "x \<noteq> []" "length x < 64" "length p < 64"
    and d: "resolve (kernel_ops m w devs) v base p = Some (Inr d)" "is_dir v d" "nodes v d = Some pd" "length (kids v d) < 2 ^ 28"
    and ops: "v_ops pd = 0 \<or> kernel_ops m w devs (v_ops pd) \<noteq> None" and m: "mem_ok m v a"
  shows "\<exists>v'. vfs_create (kernel_ops m w devs) m base (Some path) type v = Some (VFS_SUCCESS, v') \<and> vfs_wf v' \<and>
    (\<forall>c q y. nodes v c \<noteq> None \<longrightarrow> resolve (kernel_ops m w devs) v c q = Some (Inr y) \<longrightarrow>
      resolve (kernel_ops m w devs) v' c q = Some (Inr y)) \<and>
    (child v d x = None \<longrightarrow> (\<exists>v'' nd. vfs_open (kernel_ops m w devs) base path v' = Some (VFS_SUCCESS, Some a, v'') \<and>
      nodes v'' a = Some nd \<and> v_ref_count nd = 1 \<and> v_type nd = type \<and> v_parent nd = d))"
proof -
  let ?E = "kernel_ops m w devs"
  obtain v' nd where c: "vfs_create ?E m base (Some path) type v = Some (VFS_SUCCESS, v')" "grown d a x v v'" "vfs_lock v' = 0"
      "nodes v' a = Some nd" "fresh_node d x type nd"
    using kfs.vfs_create_grows [OF wf b s(1,2,4,5) d ops m, of type] by blast
  note wf' = grown_wf [OF c(2) wf(1) d(2)] and keep = grown_resolve [OF c(2) wf(1)]
  have "\<exists>v''. vfs_open ?E base path v' = Some (VFS_SUCCESS, Some a, v'') \<and> nodes v'' a = Some (nd\<lparr>v_ref_count := 1\<rparr>)"
    if none: "child v d x = None"
  proof -
    have "child v' d x = Some a" using none grown_child [OF c(2) wf(1) d(2), of x] by simp
    moreover have "d \<noteq> a" using grown_frame(8) [OF c(2)] .
    ultimately have "walk ?E v' d [x] = Some (Inr a)" using grown_frame(2) [OF c(2)] d(2) by simp
    then have "resolve ?E v' base (p @ 47 # x) = Some (Inr a)"
      using resolve_snoc [OF keep [OF b d(1)] s(3,2)] by simp
    moreover have "nodes v' base \<noteq> None" using grown_frame(9) [OF c(2)] b by simp
    ultimately show ?thesis
      using kfs.vfs_open_eq [OF wf' c(3) _ s(1) _ _ c(4)] s(4,5) c(5) by (auto simp: fresh_node_def)
  qed
  moreover have "v_type (nd\<lparr>v_ref_count := 1\<rparr>) = type" "v_parent (nd\<lparr>v_ref_count := 1\<rparr>) = d" "v_ref_count (nd\<lparr>v_ref_count := 1\<rparr>) = 1"
    using c(5) by (simp_all add: fresh_node_def)
  ultimately have new: "child v d x = None \<longrightarrow> (\<exists>v'' nd. vfs_open ?E base path v' = Some (VFS_SUCCESS, Some a, v'') \<and>
      nodes v'' a = Some nd \<and> v_ref_count nd = 1 \<and> v_type nd = type \<and> v_parent nd = d)" by blast
  show ?thesis by (intro exI [of _ v'] conjI allI impI c(1) wf' new keep)
qed

lemma demo_mem_ok: "mem_ok demo_mem demo_vfs 9" "bytes_realloc_ok (re_bytes demo_mem)"
proof -
  have "realloc_ok copy_realloc" "\<forall>mem n. copy_realloc (Some mem) n \<noteq> None"
    by (auto simp: realloc_ok_def copy_realloc_def min_def)
  then show "mem_ok demo_mem demo_vfs 9" by (simp add: mem_ok_def demo_mem_def demo_vfs_def)
  show "bytes_realloc_ok (re_bytes demo_mem)" by (auto simp: bytes_realloc_ok_def demo_mem_def nth_append)
qed

theorem vfs_create_open_witness:
  "\<exists>v' v'' nd. vfs_create (kernel_ops demo_mem (\<lambda>_ _ _ _ _. None) (\<lambda>_. None)) demo_mem 1 (Some (bytes ''/tmp/b'' @ [0])) VREG demo_vfs =
      Some (VFS_SUCCESS, v') \<and>
    vfs_open (kernel_ops demo_mem (\<lambda>_ _ _ _ _. None) (\<lambda>_. None)) 1 (bytes ''/tmp/b'' @ [0]) v' = Some (VFS_SUCCESS, Some 9, v'') \<and>
    nodes v'' 9 = Some nd \<and> v_ref_count nd = 1 \<and> v_type nd = VREG"
proof -
  let ?E = "kernel_ops demo_mem (\<lambda>_ _ _ _ _. None) (\<lambda>_. None)"
  have n: "nodes demo_vfs 1 \<noteq> None" "nodes demo_vfs 2 = Some (demo_node VDIR 1 ''tmp'' TMPFS_OPS [3])" "v_root demo_vfs = 1"
    by (simp_all add: demo_vfs_def)
  have o: "v_ops (demo_node VDIR 1 ''tmp'' TMPFS_OPS [3]) = 0 \<or> ?E (v_ops (demo_node VDIR 1 ''tmp'' TMPFS_OPS [3])) \<noteq> None"
    by (simp add: kernel_ops_def demo_node_def)
  have c: "cstring (bytes ''/tmp/b'' @ [0]) 0 = Some (bytes ''/tmp'' @ 47 # bytes ''b'')" by (simp add: cstring_def)
  have t: "tokens {47} (bytes ''/tmp'') = [bytes ''tmp'']" by (simp add: tokens.simps)
  have r: "resolve ?E demo_vfs 1 (bytes ''/tmp'') = Some (Inr 2)"
    unfolding resolve_def t using demo_facts n by (simp add: child_def)
  have k: "length (kids demo_vfs 2) < 2 ^ 28" "child demo_vfs 2 (bytes ''b'') = None"
    using demo_facts by (simp_all add: child_def)
  show ?thesis
    using vfs_create_open [OF demo_wf n(1) c _ _ _ _ r demo_facts(5) n(2) k(1) o demo_mem_ok(1), of VREG] k(2) by auto
qed

text \<open>
  C11: a file of tmpfs. A write at an offset that may lie behind the end of the file, growing the
  data block as needed, returns; the file is then as long as it has to be, the bytes outside the
  range written are unchanged, and a read of the same range delivers exactly the bytes written and
  their number. The number of bytes that the write itself reports is 0, since \<open>tmpfs_write\<close>
  returns its error code where \<open>vfs_write\<close> expects a count.
\<close>

theorem tmpfs_write_then_read:
  assumes v: "vfs_lock v = 0" and nd: "a \<noteq> 0" "nodes v a = Some nd" "file_ok nd" "v_ops nd = TMPFS_OPS"
    and re: "bytes_realloc_ok (re_bytes m)" and size: "unat (st_size (v_stat nd)) < 2 ^ 31" "unat offset + unat sz < 2 ^ 31"
    and len: "length buff = unat sz" "length rbuff = unat sz"
  shows "\<exists>v' nd'. vfs_write (kernel_ops m w devs) (Some buff) a sz offset v = Some (VFS_SUCCESS, Some 0, v') \<and>
    nodes v' a = Some nd' \<and> file_ok nd' \<and> unat (st_size (v_stat nd')) = max (unat (st_size (v_stat nd))) (unat offset + unat sz) \<and>
    (\<forall>i < unat (st_size (v_stat nd)). i < unat offset \<or> unat offset + unat sz \<le> i \<longrightarrow> data_of nd' ! i = data_of nd ! i) \<and>
    vfs_read (kernel_ops m w devs) (Some rbuff) a sz offset v' = Some (VFS_SUCCESS, Some buff, Some sz, v')"
proof -
  let ?E = "kernel_ops m w devs"
  obtain nd' where w: "tmpfs_write m buff a sz offset (v\<lparr>vfs_lock := 1\<rparr>) =
        Some (VFS_SUCCESS, v\<lparr>vfs_lock := 1, nodes := (nodes v)(a \<mapsto> nd')\<rparr>)" "file_ok nd'"
      "unat (st_size (v_stat nd')) = max (unat (st_size (v_stat nd))) (unat offset + unat sz)" "v_ops nd' = v_ops nd"
      "take (unat sz) (drop (unat offset) (data_of nd')) = take (unat sz) buff"
      "\<forall>i < unat (st_size (v_stat nd)). i < unat offset \<or> unat offset + unat sz \<le> i \<longrightarrow> data_of nd' ! i = data_of nd ! i"
    using tmpfs_write_ok [of "v\<lparr>vfs_lock := 1\<rparr>" a nd m offset sz buff] nd re size(2) len(1) by auto
  define v' where "v' = v\<lparr>nodes := (nodes v)(a \<mapsto> nd')\<rparr>"
  have o: "?E TMPFS_OPS = Some (tmpfs_ops m)" by (simp add: kernel_ops_def)
  have l: "v\<lparr>nodes := f, vfs_lock := 0\<rparr> = v\<lparr>nodes := f\<rparr>" for f using v by (cases v) simp
  have n': "nodes (v'\<lparr>vfs_lock := 1\<rparr>) a = Some nd'" "vfs_lock v' = 0" using v by (simp_all add: v'_def)
  have "vfs_write ?E (Some buff) a sz offset v = Some (VFS_SUCCESS, Some 0, v')"
    using v nd w(1) o by (simp add: vfs_write_def vfs_acquire_def vfs_release_def tmpfs_ops_def v'_def l VFS_SUCCESS_def)
  moreover have "tmpfs_read rbuff a sz offset (v'\<lparr>vfs_lock := 1\<rparr>) = Some (int (unat sz), buff, v'\<lparr>vfs_lock := 1\<rparr>)"
    using tmpfs_read_ok [OF n'(1) w(2), of offset sz "unat sz" rbuff] w(3,5) size len by (simp add: overwrite_def)
  then have "vfs_read ?E (Some rbuff) a sz offset v' = Some (VFS_SUCCESS, Some buff, Some sz, v')"
    using n' nd(1,4) w(4) o by (simp add: vfs_read_def vfs_acquire_def vfs_release_def tmpfs_ops_def)
  ultimately show ?thesis using w n' by (intro exI [of _ v'] exI [of _ nd']) simp
qed

theorem tmpfs_write_then_read_witness:
  "\<exists>v'. vfs_write (kernel_ops demo_mem (\<lambda>_ _ _ _ _. None) (\<lambda>_. None)) (Some [1, 2, 3]) 3 3 8190 demo_vfs = Some (VFS_SUCCESS, Some 0, v') \<and>
    vfs_read (kernel_ops demo_mem (\<lambda>_ _ _ _ _. None) (\<lambda>_. None)) (Some [0, 0, 0]) 3 3 8190 v' = Some (VFS_SUCCESS, Some [1, 2, 3], Some 3, v')"
proof -
  have "file_ok (demo_node VREG 2 ''a'' TMPFS_OPS [])" "v_ops (demo_node VREG 2 ''a'' TMPFS_OPS []) = TMPFS_OPS"
      "unat (st_size (v_stat (demo_node VREG 2 ''a'' TMPFS_OPS []))) < 2 ^ 31"
    by (simp_all add: file_ok_def demo_node_def data_of_def)
  then show ?thesis
    using tmpfs_write_then_read [OF demo_wf(2), of 3 "demo_node VREG 2 ''a'' TMPFS_OPS []" demo_mem 8190 3 "[1, 2, 3]" "[0, 0, 0]"
        "\<lambda>_ _ _ _ _. None" "\<lambda>_. None"] demo_mem_ok(2)
    by (auto simp: demo_vfs_def)
qed

end
