(* ===== verification/Syscalls.thy ===== *)
theory Syscalls
  imports Filesystems Vmm
begin

text \<open>
  File descriptors (\<open>src/kernel/fs/fd.c\<close>) and the system calls on files and memory
  (\<open>src/kernel/syscalls\<close>: \<open>open.c\<close>, \<open>read.c\<close>, \<open>lseek.c\<close>, \<open>mmap.c\<close>). The state is that of the
  calling process: its descriptor table, a vector of pointers into a store of descriptors, its
  working directory, and the file system. The address and the old contents of a descriptor that
  \<open>kmalloc\<close> returns are an argument.
\<close>

section \<open>Definitions\<close>

definition FD_SUCCESS :: int where "FD_SUCCESS = 0"
definition FD_FAIL :: int where "FD_FAIL = 1"
definition AT_FDCWD :: int where "AT_FDCWD = -100"
definition O_CREAT :: u32 where "O_CREAT = 0x40"
definition O_DIRECTORY :: u32 where "O_DIRECTORY = 0x10000"
definition SEEK_SET :: int where "SEEK_SET = 0"
definition SEEK_CUR :: int where "SEEK_CUR = 1"
definition SEEK_END :: int where "SEEK_END = 2"
definition LSEEK_ERR :: int where "LSEEK_ERR = -1"

record fd =
  fd_lock :: spinlock
  fd_vnode :: u64
  fd_refs :: u64
  fd_offset :: u64
  fd_flags :: u32
  fd_mode :: u32

record pfiles =
  fd_table_lock :: spinlock
  fd_table :: vector
  fds :: "u64 \<rightharpoonup> fd"
  cwd :: u64
  pvfs :: vfs

definition table_acquire :: "pfiles \<Rightarrow> pfiles option" where
  "table_acquire st = do { l \<leftarrow> spinlock_acquire (fd_table_lock st); Some (st\<lparr>fd_table_lock := l\<rparr>) }"

definition table_release :: "pfiles \<Rightarrow> pfiles" where
  "table_release st = st\<lparr>fd_table_lock := spinlock_release (fd_table_lock st)\<rparr>"

definition upd_fd :: "u64 \<Rightarrow> (fd \<Rightarrow> fd) \<Rightarrow> pfiles \<Rightarrow> pfiles option" where
  "upd_fd p f st = do {
     d \<leftarrow> fds st p;
     Some (st\<lparr>fds := (fds st)(p \<mapsto> f d)\<rparr>) }"

subsection \<open>fd.c\<close>

text \<open>The loops over the table: the first index from \<open>i\<close> on whose entry is \<open>x\<close>.\<close>

fun find_entry :: "vector \<Rightarrow> u64 \<Rightarrow> nat \<Rightarrow> nat \<Rightarrow> int option" where
  "find_entry vec x i 0 = Some (-1)"
| "find_entry vec x i (Suc n) = do {
     y \<leftarrow> vector_get vec (int i);
     if y = x then Some (int i) else find_entry vec x (Suc i) n }"

definition fd_create :: "realloc \<Rightarrow> (u64 \<times> fd) option \<Rightarrow> pfiles \<Rightarrow> (int \<times> (u64 \<times> int) option \<times> pfiles) option" where
  "fd_create krealloc obj st = do {
     st \<leftarrow> table_acquire st;
     fd_idx \<leftarrow> find_entry (fd_table st) 0 0 (nat (vector_size (fd_table st)));
     case obj of
       None \<Rightarrow> Some (FD_FAIL, None, table_release st)
     | Some (new_fd, junk) \<Rightarrow> do {
         let st = st\<lparr>fds := (fds st)(new_fd \<mapsto> junk\<lparr>fd_refs := 1, fd_lock := 0, fd_vnode := 0\<rparr>)\<rparr>;
         (fd_idx, st) \<leftarrow> (if fd_idx = -1
           then do {
             let old_size = nat (vector_size (fd_table st));
             vec \<leftarrow> vector_push_back krealloc (fd_table st) new_fd;
             i \<leftarrow> find_entry vec new_fd old_size (nat (vector_size vec) - old_size);
             Some (i, st\<lparr>fd_table := vec\<rparr>) }
           else Some (fd_idx, st));
         if fd_idx = -1 then Some (FD_FAIL, None, table_release st)
         else Some (FD_SUCCESS, Some (new_fd, fd_idx), table_release st) } }"

definition fd_free :: "ops_env \<Rightarrow> int \<Rightarrow> pfiles \<Rightarrow> (int \<times> pfiles) option" where
  "fd_free E fd_i st = do {
     st \<leftarrow> table_acquire st;
     p \<leftarrow> vector_get (fd_table st) fd_i;
     if p = 0 then Some (FD_FAIL, table_release st)
     else do {
       d \<leftarrow> fds st p;
       st \<leftarrow> (if fd_refs d = 0
         then do {
           vec \<leftarrow> vector_set (fd_table st) fd_i 0;
           v \<leftarrow> (if fd_vnode d \<noteq> 0 then map_option snd (vfs_close E (fd_vnode d) (pvfs st)) else Some (pvfs st));
           Some (st\<lparr>fd_table := vec, pvfs := v, fds := (fds st)(p := None)\<rparr>) }
         else Some st);
       Some (FD_SUCCESS, table_release st) } }"

definition fd_acquire :: "int \<Rightarrow> pfiles \<Rightarrow> (int \<times> u64 option \<times> pfiles) option" where
  "fd_acquire fd_i st = do {
     st \<leftarrow> table_acquire st;
     p \<leftarrow> vector_get (fd_table st) fd_i;
     if p = 0 then Some (FD_FAIL, None, table_release st)
     else do {
       d \<leftarrow> fds st p;
       l \<leftarrow> spinlock_acquire (fd_lock d);
       st \<leftarrow> upd_fd p (\<lambda>d. d\<lparr>fd_lock := l\<rparr>) st;
       Some (FD_SUCCESS, Some p, table_release st) } }"

definition fd_release :: "int \<Rightarrow> pfiles \<Rightarrow> (int \<times> pfiles) option" where
  "fd_release fd_i st = do {
     st \<leftarrow> table_acquire st;
     p \<leftarrow> vector_get (fd_table st) fd_i;
     if p = 0 then Some (FD_FAIL, st)
     else do {
       st \<leftarrow> upd_fd p (\<lambda>d. d\<lparr>fd_lock := spinlock_release (fd_lock d)\<rparr>) (table_release st);
       Some (FD_SUCCESS, st) } }"

subsection \<open>read.c, lseek.c\<close>

definition syscall_read :: "ops_env \<Rightarrow> int \<Rightarrow> cbuf option \<Rightarrow> u64 \<Rightarrow> pfiles \<Rightarrow> (u64 \<times> cbuf option \<times> pfiles) option" where
  "syscall_read E fd_i buf count st =
     (case buf of None \<Rightarrow> Some (-1, buf, st)
      | Some b \<Rightarrow> do {
          (err, p, st) \<leftarrow> fd_acquire fd_i st;
          if err \<noteq> 0 then Some (-1, buf, st)
          else do {
            read_fd \<leftarrow> p;
            d \<leftarrow> fds st read_fd;
            (err, b', bytes_read, v) \<leftarrow> vfs_read E buf (fd_vnode d) count (fd_offset d) (pvfs st);
            let st = st\<lparr>pvfs := v\<rparr>;
            (_, st) \<leftarrow> fd_release fd_i st;
            if err \<noteq> 0 then Some (-1, b', st)
            else do {
              n \<leftarrow> bytes_read;
              st \<leftarrow> upd_fd read_fd (\<lambda>d. d\<lparr>fd_offset := fd_offset d + n\<rparr>) st;
              Some (n, b', st) } } })"

definition syscall_lseek :: "int \<Rightarrow> u64 \<Rightarrow> int \<Rightarrow> pfiles \<Rightarrow> (int \<times> pfiles) option" where
  "syscall_lseek fd_i offset whence st = do {
     (err, p, st) \<leftarrow> fd_acquire fd_i st;
     if err \<noteq> 0 then Some (LSEEK_ERR, st)
     else do {
       file \<leftarrow> p;
       d \<leftarrow> fds st file;
       nd \<leftarrow> nodes (pvfs st) (fd_vnode d);
       let mode = st_mode (v_stat nd);
       if S_ISSOCK mode \<or> S_ISFIFO mode then Some (LSEEK_ERR, st)
       else do {
         st \<leftarrow> upd_fd file (\<lambda>d.
           if whence = SEEK_SET then d\<lparr>fd_offset := offset\<rparr>
           else if whence = SEEK_CUR then d\<lparr>fd_offset := fd_offset d + offset\<rparr>
           else if whence = SEEK_END then d\<lparr>fd_offset := st_size (v_stat nd)\<rparr>
           else d) st;
         (_, st) \<leftarrow> fd_release fd_i st;
         d \<leftarrow> fds st file;
         Some (as_int (fd_offset d), st) } } }"

subsection \<open>open.c\<close>

text \<open>
  The label \<open>syscall_openat_fail\<close>. The variable \<open>vnode\<close> is \<^term>\<open>None\<close> when the jump skips its
  initialisation, and testing it is then undefined.
\<close>

definition openat_fail :: "ops_env \<Rightarrow> int \<Rightarrow> int \<Rightarrow> u64 option \<Rightarrow> pfiles \<Rightarrow> (int \<times> pfiles) option" where
  "openat_fail E dirfd fd_i vnode st = do {
     (_, st) \<leftarrow> fd_release fd_i st;
     (_, st) \<leftarrow> fd_free E fd_i st;
     st \<leftarrow> (if dirfd \<noteq> AT_FDCWD then map_option snd (fd_release dirfd st) else Some st);
     node \<leftarrow> vnode;
     v \<leftarrow> (if node \<noteq> 0 then map_option snd (vfs_close E node (pvfs st)) else Some (pvfs st));
     Some (-1, st\<lparr>pvfs := v\<rparr>) }"

definition syscall_openat :: "ops_env \<Rightarrow> kmem \<Rightarrow> (u64 \<times> fd) option \<Rightarrow> int \<Rightarrow> cbuf option \<Rightarrow> u32 \<Rightarrow> pfiles \<Rightarrow> (int \<times> pfiles) option" where
  "syscall_openat E m obj dirfd path flags st =
     (case path of None \<Rightarrow> Some (-1, st)
      | Some pth \<Rightarrow> do {
          (err, res, st) \<leftarrow> fd_create (re_words m) obj st;
          if err = FD_FAIL then Some (-1, st)
          else do {
            (p, fd_i) \<leftarrow> res;
            st \<leftarrow> upd_fd p (\<lambda>d. d\<lparr>fd_flags := flags\<rparr>) st;
            (err, rel, st) \<leftarrow> (if dirfd \<noteq> AT_FDCWD then fd_acquire dirfd st else Some (0, None, st));
            if err \<noteq> 0 then openat_fail E dirfd fd_i None st
            else do {
              v_relative \<leftarrow> (case rel of None \<Rightarrow> Some (cwd st) | Some r \<Rightarrow> map_option fd_vnode (fds st r));
              c \<leftarrow> rd pth 0;
              let vbase = (if c \<noteq> 47 then v_relative else vfs_get_root (pvfs st));
              (err, vnode, v) \<leftarrow> vfs_open E vbase pth (pvfs st);
              let st = st\<lparr>pvfs := v\<rparr>;
              let node = (case vnode of None \<Rightarrow> 0 | Some a \<Rightarrow> a);
              (err, node, st) \<leftarrow> (if err = VFS_NODE_MISSING \<and> flags AND O_CREAT \<noteq> 0
                then do {
                  (err, v) \<leftarrow> vfs_create E m vbase path VREG (pvfs st);
                  let st = st\<lparr>pvfs := v\<rparr>;
                  if err \<noteq> 0 then Some (err, node, st)
                  else do {
                    st \<leftarrow> upd_fd p (\<lambda>d. d\<lparr>fd_flags := fd_flags d AND NOT O_CREAT\<rparr>) st;
                    (err, vnode, v) \<leftarrow> vfs_open E vbase pth (pvfs st);
                    Some (err, case vnode of None \<Rightarrow> node | Some a \<Rightarrow> a, st\<lparr>pvfs := v\<rparr>) } }
                else Some (err, node, st));
              if err \<noteq> 0 then openat_fail E dirfd fd_i (Some node) st
              else do {
                nd \<leftarrow> nodes (pvfs st) node;
                let mode = st_mode (v_stat nd);
                if S_ISSOCK mode \<or> \<not> S_ISDIR mode \<and> flags AND O_DIRECTORY \<noteq> 0
                then openat_fail E dirfd fd_i (Some node) st
                else do {
                  st \<leftarrow> upd_fd p (\<lambda>d. d\<lparr>fd_vnode := node, fd_mode := mode, fd_offset := 0\<rparr>) st;
                  (_, st) \<leftarrow> fd_release fd_i st;
                  st \<leftarrow> (if dirfd \<noteq> AT_FDCWD then map_option snd (fd_release dirfd st) else Some st);
                  Some (fd_i, st) } } } } })"

definition syscall_open :: "ops_env \<Rightarrow> kmem \<Rightarrow> (u64 \<times> fd) option \<Rightarrow> cbuf option \<Rightarrow> u32 \<Rightarrow> pfiles \<Rightarrow> (int \<times> pfiles) option" where
  "syscall_open E m obj path flags st = syscall_openat E m obj AT_FDCWD path flags st"

subsection \<open>mmap.c\<close>

text \<open>\<open>section_base\<close> is the answer of \<open>kmalloc\<close> and \<open>root\<close> the top-level table of the process.\<close>

definition syscall_mmap :: "u64 \<Rightarrow> u64 \<Rightarrow> u64 \<Rightarrow> u64 \<Rightarrow> vmm \<Rightarrow> (u64 \<times> vmm) option" where
  "syscall_mmap h root section_base len vm = do {
     let num_pages = len div PAGE_SIZE_BYTES;
     let num_pages = (if len mod PAGE_SIZE_BYTES \<noteq> 0 then num_pages + 1 else num_pages);
     let num_bytes = num_pages * PAGE_SIZE_BYTES;
     if section_base = 0 then Some (-1, vm)
     else do {
       let vaddr = section_base - h;
       vm \<leftarrow> map_section h root vaddr vaddr num_bytes (PML_NOT_EXECUTABLE OR PML_USER OR PML_WRITE OR PML_PRESENT) vm;
       Some (vaddr, vm) } }"

section \<open>The descriptor table\<close>

text \<open>
  Between two system calls the locks are free and the table holds pointers to distinct descriptors;
  no entry is empty, since only a descriptor without references is ever removed and \<open>fd_create\<close>
  counts the first one.
\<close>

definition table_ok :: "pfiles \<Rightarrow> u64 list \<Rightarrow> bool" where
  "table_ok st xs \<longleftrightarrow> fd_table_lock st = 0 \<and> vec_rep (fd_table st) xs \<and>
     max_elements (fd_table st) \<le> max 8 (2 * int (length xs)) \<and> 0 \<notin> set xs \<and> distinct xs \<and>
     (\<forall>p\<in>set xs. \<exists>d. fds st p = Some d \<and> fd_lock d = 0)"

lemma table_okD:
  assumes "table_ok st xs" "i < length xs"
  obtains d where "fds st (xs ! i) = Some d" "fd_lock d = 0" "xs ! i \<noteq> 0" "fd_table_lock st = 0"
    "vector_get (fd_table st) (int i) = Some (xs ! i)"
proof -
  have p: "xs ! i \<in> set xs" using assms(2) by simp
  have "vector_get (fd_table st) (int i) = Some (xs ! i)"
    using assms vector_get_rep [of "fd_table st" xs "int i"] by (simp add: table_ok_def)
  moreover obtain d where "fds st (xs ! i) = Some d" "fd_lock d = 0" using assms(1) p unfolding table_ok_def by blast
  moreover have "xs ! i \<noteq> 0" "fd_table_lock st = 0" using assms(1) p by (metis table_ok_def)+
  ultimately show thesis using that by blast
qed

lemma table_ok_upd:
  assumes "table_ok st xs" "i < length xs" "fd_lock d = 0"
  shows "table_ok (st\<lparr>fds := (fds st)(xs ! i \<mapsto> d)\<rparr>) xs"
  using assms by (auto simp: table_ok_def)

lemma table_ok_vfs [simp]: "table_ok (st\<lparr>pvfs := v\<rparr>) xs = table_ok st xs"
  by (simp add: table_ok_def)

lemma fd_acquire_eq:
  assumes "table_ok st xs" "i < length xs" "fds st (xs ! i) = Some d"
  shows "fd_acquire (int i) st = Some (FD_SUCCESS, Some (xs ! i), st\<lparr>fds := (fds st)(xs ! i \<mapsto> d\<lparr>fd_lock := 1\<rparr>)\<rparr>)"
proof -
  obtain d' where d: "fds st (xs ! i) = Some d'" "fd_lock d' = 0" "xs ! i \<noteq> 0" "fd_table_lock st = 0"
    "vector_get (fd_table st) (int i) = Some (xs ! i)" using table_okD [OF assms(1,2)] by blast
  have "st\<lparr>fds := f, fd_table_lock := 0\<rparr> = st\<lparr>fds := f\<rparr>" for f using d(4) by (cases st) simp
  then show ?thesis using d assms(3)
    by (simp add: fd_acquire_def table_acquire_def table_release_def upd_fd_def)
qed

text \<open>A descriptor that does not exist is refused and nothing changes.\<close>

lemma fd_acquire_bad:
  assumes "table_ok st xs" "\<not> (0 \<le> i \<and> i < int (length xs))"
  shows "fd_acquire i st = Some (FD_FAIL, None, st)"
proof -
  have "vector_get (fd_table st) i = Some 0" "fd_table_lock st = 0"
    using assms vector_get_rep [of "fd_table st" xs i] by (auto simp: table_ok_def)
  moreover have "st\<lparr>fd_table_lock := 0\<rparr> = st" using assms(1) by (cases st) (simp add: table_ok_def)
  ultimately show ?thesis by (simp add: fd_acquire_def table_acquire_def table_release_def)
qed

lemma fd_release_eq:
  assumes "vec_rep (fd_table st) xs" "fd_table_lock st = 0" "i < length xs" "xs ! i \<noteq> 0" "fds st (xs ! i) = Some d"
  shows "fd_release (int i) st = Some (FD_SUCCESS, st\<lparr>fds := (fds st)(xs ! i \<mapsto> d\<lparr>fd_lock := spinlock_release (fd_lock d)\<rparr>)\<rparr>)"
proof -
  have "vector_get (fd_table st) (int i) = Some (xs ! i)" using assms vector_get_rep [of "fd_table st" xs "int i"] by simp
  moreover have "st\<lparr>fd_table_lock := 0\<rparr> = st" using assms(2) by (cases st) simp
  ultimately show ?thesis using assms(2,4,5)
    by (simp add: fd_release_def table_acquire_def table_release_def upd_fd_def)
qed

lemma find_entry_none: "vec_rep vec xs \<Longrightarrow> x \<notin> set xs \<Longrightarrow> i + n = length xs \<Longrightarrow> find_entry vec x i n = Some (-1)"
proof (induction n arbitrary: i)
  case (Suc n)
  then have "vector_get vec (int i) = Some (xs ! i)" "xs ! i \<noteq> x"
    using vector_get_rep [OF Suc.prems(1), of "int i"] nth_mem [of i xs] by (auto simp del: nth_mem)
  then show ?case using Suc by simp
qed simp

lemma fd_create_ok:
  assumes t: "table_ok st xs" and p: "p \<noteq> 0" "p \<notin> set xs" and re: "realloc_ok kr" "\<forall>mem n. kr (Some mem) n \<noteq> None"
    and len: "length xs < 2 ^ 28"
  shows "\<exists>vec. fd_create kr (Some (p, junk)) st = Some (FD_SUCCESS, Some (p, int (length xs)),
      st\<lparr>fds := (fds st)(p \<mapsto> junk\<lparr>fd_refs := 1, fd_lock := 0, fd_vnode := 0\<rparr>), fd_table := vec\<rparr>) \<and>
    vec_rep vec (xs @ [p]) \<and> max_elements vec \<le> max 8 (2 * int (length (xs @ [p])))"
proof -
  have v: "vec_rep (fd_table st) xs" "fd_table_lock st = 0" "max_elements (fd_table st) \<le> max 8 (2 * int (length xs))" "0 \<notin> set xs"
    using t by (simp_all add: table_ok_def)
  have sz: "nat (vector_size (fd_table st)) = length xs" using v(1) by (simp add: vector_size_def vec_rep_def)
  obtain mem where mem: "elements (fd_table st) = Some mem" "cur_elements (fd_table st) = int (length xs)"
    using v(1) by (auto elim: vec_repE)
  have mx: "max_elements (fd_table st) < 2 ^ 30" using v(3) len by (simp split: if_splits)
  obtain vec where vec: "vector_push_back kr (fd_table st) p = Some vec" "vec_rep vec (xs @ [p])"
      "max_elements vec \<le> max (max_elements (fd_table st)) (2 * int (length xs))"
    using vector_push_back_rep [OF v(1) mx re(1), of p] re(2) mem by auto
  have sz': "nat (vector_size vec) - length xs = 1" using vec(2) by (simp add: vector_size_def vec_rep_def)
  have "vector_get vec (int (length xs)) = Some p" using vector_get_rep [OF vec(2), of "int (length xs)"] by simp
  then have f: "find_entry vec p (length xs) 1 = Some (int (length xs))" by simp
  have rel: "st\<lparr>fds := f, fd_table := vec, fd_table_lock := 0\<rparr> = st\<lparr>fds := f, fd_table := vec\<rparr>" for f
    using v(2) by (cases st) simp
  have "fd_create kr (Some (p, junk)) st = Some (FD_SUCCESS, Some (p, int (length xs)),
      st\<lparr>fds := (fds st)(p \<mapsto> junk\<lparr>fd_refs := 1, fd_lock := 0, fd_vnode := 0\<rparr>), fd_table := vec\<rparr>)"
    using v(2) find_entry_none [OF v(1,4), of 0 "length xs"] sz sz' vec(1) f rel
    by (simp add: fd_create_def table_acquire_def table_release_def Let_def)
  then show ?thesis using vec(2,3) v(3) by (intro exI [of _ vec]) simp
qed

section \<open>Reading a file\<close>

definition file_content :: "vnode \<Rightarrow> u8 list" where
  "file_content nd = take (unat (st_size (v_stat nd))) (data_of nd)"

text \<open>Descriptor \<open>i\<close> is open on the tmpfs file \<open>a\<close> and stands at \<open>off\<close>.\<close>

definition open_at :: "pfiles \<Rightarrow> u64 list \<Rightarrow> nat \<Rightarrow> u64 \<Rightarrow> vnode \<Rightarrow> nat \<Rightarrow> bool" where
  "open_at st xs i a nd off \<longleftrightarrow> table_ok st xs \<and> i < length xs \<and> vfs_lock (pvfs st) = 0 \<and> a \<noteq> 0 \<and>
     nodes (pvfs st) a = Some nd \<and> file_ok nd \<and> v_ops nd = TMPFS_OPS \<and> unat (st_size (v_stat nd)) < 2 ^ 31 \<and>
     (\<exists>d. fds st (xs ! i) = Some d \<and> fd_vnode d = a \<and> unat (fd_offset d) = off) \<and> off \<le> unat (st_size (v_stat nd))"

lemma length_content: "file_ok nd \<Longrightarrow> length (file_content nd) = unat (st_size (v_stat nd))"
  by (simp add: file_content_def file_ok_def)

text \<open>A state that differs only in the descriptor \<open>p\<close>.\<close>

definition only_fd :: "u64 \<Rightarrow> pfiles \<Rightarrow> pfiles \<Rightarrow> bool" where
  "only_fd p st st' \<longleftrightarrow> (\<exists>f. st' = st\<lparr>fds := f\<rparr> \<and> (\<forall>x. x \<noteq> p \<longrightarrow> f x = fds st x))"

lemma only_fd_refl: "only_fd p st st"
  by (auto simp: only_fd_def intro: exI [of _ "fds st"])

lemma only_fd_trans: "only_fd p st st1 \<Longrightarrow> only_fd p st1 st2 \<Longrightarrow> only_fd p st st2"
  by (auto simp: only_fd_def)

lemma only_fd_keeps:
  assumes "only_fd p st st'"
  shows "pvfs st' = pvfs st" "cwd st' = cwd st" "fd_table st' = fd_table st" "x \<noteq> p \<Longrightarrow> fds st' x = fds st x"
  using assms by (auto simp: only_fd_def)

lemma syscall_read_ok:
  assumes o: "open_at st xs i a nd off" and n: "unat count = n" "off + n < 2 ^ 31" and b: "length b = n"
    and k: "k = min n (length (file_content nd) - off)"
  shows "\<exists>st'. syscall_read (kernel_ops m w devs) (int i) (Some b) count st =
      Some (of_nat k, Some (overwrite b 0 (take k (drop off (file_content nd)))), st') \<and> open_at st' xs i a nd (off + k) \<and>
    only_fd (xs ! i) st st'"
proof -
  let ?E = "kernel_ops m w devs" and ?p = "xs ! i"
  obtain d where d: "fds st ?p = Some d" "fd_vnode d = a" "unat (fd_offset d) = off" "fd_lock d = 0"
    using o by (auto simp: open_at_def elim: table_okD)
  have t: "table_ok st xs" "i < length xs" "vfs_lock (pvfs st) = 0" "a \<noteq> 0" "nodes (pvfs st) a = Some nd" "file_ok nd"
      "v_ops nd = TMPFS_OPS" "unat (st_size (v_stat nd)) < 2 ^ 31" "off \<le> unat (st_size (v_stat nd))"
    using o by (simp_all add: open_at_def)
  have nz: "?p \<noteq> 0" using t(1,2) by (rule table_okD)
  have vr: "vec_rep (fd_table st) xs" "fd_table_lock st = 0" using t(1) by (auto simp: table_ok_def)
  have len: "length (file_content nd) = unat (st_size (v_stat nd))" by (rule length_content [OF t(6)])
  let ?v1 = "(pvfs st)\<lparr>vfs_lock := 1\<rparr>" and ?b = "overwrite b 0 (take k (drop off (file_content nd)))"
  have tk: "take k (drop off (data_of nd)) = take k (drop off (file_content nd))"
    using k len by (simp add: file_content_def drop_take)
  have "tmpfs_read b a count (fd_offset d) ?v1 = Some (int k, ?b, ?v1)"
    using tmpfs_read_ok [of ?v1 a nd "fd_offset d" count k b] t d n b k len tk by simp
  moreover have "?E TMPFS_OPS = Some (tmpfs_ops m)" by (simp add: kernel_ops_def)
  moreover have "(pvfs st)\<lparr>vfs_lock := 0\<rparr> = pvfs st" using t(3) by (cases "pvfs st") simp
  ultimately have r: "vfs_read ?E (Some b) a count (fd_offset d) (pvfs st) = Some (VFS_SUCCESS, Some ?b, Some (of_nat k), pvfs st)"
    using t(3-5,7) by (simp add: vfs_read_def vfs_acquire_def vfs_release_def tmpfs_ops_def)
  let ?st1 = "st\<lparr>fds := (fds st)(?p \<mapsto> d\<lparr>fd_lock := 1\<rparr>)\<rparr>"
  let ?d2 = "d\<lparr>fd_lock := 0, fd_offset := fd_offset d + of_nat k\<rparr>"
  let ?st2 = "st\<lparr>fds := (fds st)(?p \<mapsto> ?d2)\<rparr>"
  have st1: "?st1\<lparr>pvfs := pvfs st\<rparr> = ?st1" by simp
  have rel: "fd_release (int i) ?st1 = Some (FD_SUCCESS, st\<lparr>fds := (fds st)(?p \<mapsto> d\<lparr>fd_lock := 0\<rparr>)\<rparr>)"
    using fd_release_eq [of ?st1 xs i "d\<lparr>fd_lock := 1\<rparr>"] vr t(2) nz by simp
  have "syscall_read ?E (int i) (Some b) count st = Some (of_nat k, Some ?b, ?st2)"
    using fd_acquire_eq [OF t(1,2) d(1)] d(2) r st1 rel
    by (simp add: syscall_read_def FD_SUCCESS_def VFS_SUCCESS_def upd_fd_def)
  moreover have "open_at ?st2 xs i a nd (off + k)"
  proof -
    have "k < 2 ^ 31" "off + k < 2 ^ 31" "off + k \<le> unat (st_size (v_stat nd))" using n k len t(9) by auto
    then have "unat (fd_offset d + of_nat k) = off + k"
      using d(3) by (simp add: unat_add_small unat_of_nat_small)
    then show ?thesis
      using t d(2) table_ok_upd [OF t(1,2), of ?d2] \<open>off + k \<le> unat (st_size (v_stat nd))\<close> by (simp add: open_at_def)
  qed
  moreover have "only_fd ?p st ?st2" by (auto simp: only_fd_def)
  ultimately show ?thesis by blast
qed

text \<open>A sequence of reads into zeroed buffers: everything they deliver, in order.\<close>

fun read_all :: "ops_env \<Rightarrow> int \<Rightarrow> nat list \<Rightarrow> pfiles \<Rightarrow> (u8 list \<times> pfiles) option" where
  "read_all E i [] st = Some ([], st)"
| "read_all E i (n # ns) st = do {
     (k, b, st) \<leftarrow> syscall_read E i (Some (replicate n 0)) (of_nat n) st;
     b \<leftarrow> b;
     (rest, st) \<leftarrow> read_all E i ns st;
     Some (take (unat k) b @ rest, st) }"

lemma read_all_ok:
  "open_at st xs i a nd off \<Longrightarrow> off + sum_list ns < 2 ^ 31 \<Longrightarrow>
    \<exists>st'. read_all (kernel_ops m w devs) (int i) ns st = Some (take (sum_list ns) (drop off (file_content nd)), st') \<and>
      open_at st' xs i a nd (min (off + sum_list ns) (length (file_content nd))) \<and> only_fd (xs ! i) st st'"
proof (induction ns arbitrary: st off)
  case Nil
  have "off \<le> length (file_content nd)" using Nil(1) by (simp add: open_at_def length_content)
  then show ?case using Nil(1) by (simp add: min_absorb1 only_fd_refl)
next
  case (Cons n ns)
  let ?c = "file_content nd"
  define k where "k = min n (length ?c - off)"
  have le: "off \<le> length ?c" using Cons.prems(1) by (simp add: open_at_def length_content)
  have n: "unat (of_nat n :: u64) = n" "off + n < 2 ^ 31" "unat (of_nat k :: u64) = k"
    using Cons.prems(2) by (simp_all add: k_def unat_of_nat_small)
  obtain st1 where r: "syscall_read (kernel_ops m w devs) (int i) (Some (replicate n 0)) (of_nat n) st =
      Some (of_nat k, Some (overwrite (replicate n 0) 0 (take k (drop off ?c))), st1)" "open_at st1 xs i a nd (off + k)" "only_fd (xs ! i) st st1"
    using syscall_read_ok [OF Cons.prems(1) n(1,2), of "replicate n 0" k m w devs] by (auto simp: k_def)
  have "off + k + sum_list ns < 2 ^ 31" using Cons.prems(2) by (simp add: k_def)
  then obtain st2 where s: "read_all (kernel_ops m w devs) (int i) ns st1 = Some (take (sum_list ns) (drop (off + k) ?c), st2)"
      "open_at st2 xs i a nd (min (off + k + sum_list ns) (length ?c))" "only_fd (xs ! i) st1 st2"
    using Cons.IH [OF r(2)] by blast
  have tk: "take k (overwrite (replicate n 0) 0 (take k (drop off ?c))) = take k (drop off ?c)"
    using le by (simp add: overwrite_def k_def)
  have cat: "take k (drop off ?c) @ take (sum_list ns) (drop (off + k) ?c) = take (n + sum_list ns) (drop off ?c)"
  proof -
    have "take (n + sum_list ns) (drop off ?c) = take k (drop off ?c) @ take (n + sum_list ns - k) (drop (off + k) ?c)"
      using take_add [of k "n + sum_list ns - k" "drop off ?c"] by (simp add: k_def add.commute)
    moreover have "take (n + sum_list ns - k) (drop (off + k) ?c) = take (sum_list ns) (drop (off + k) ?c)"
      using le by (cases "n \<le> length ?c - off") (simp_all add: k_def)
    ultimately show ?thesis by simp
  qed
  have m: "min (off + k + sum_list ns) (length ?c) = min (off + sum_list (n # ns)) (length ?c)"
    using le by (auto simp: k_def min_def)
  have "only_fd (xs ! i) st st2" by (rule only_fd_trans [OF r(3) s(3)])
  then show ?case using r(1) s n(3) tk cat unfolding m by (simp del: take_append)
qed

section \<open>Opening a file\<close>

text \<open>The directory a path is relative to.\<close>

definition open_base :: "pfiles \<Rightarrow> cbuf \<Rightarrow> u64" where
  "open_base st path = (if path ! 0 \<noteq> 47 then cwd st else v_root (pvfs st))"

lemma syscall_open_ok:
  assumes t: "table_ok st xs" "length xs < 2 ^ 28" and p: "p \<noteq> 0" "p \<notin> set xs"
    and m: "realloc_ok (re_words m)" "\<forall>mem n. re_words m (Some mem) n \<noteq> None"
    and wf: "vfs_wf (pvfs st)" "vfs_lock (pvfs st) = 0" "nodes (pvfs st) (open_base st path) \<noteq> None"
    and s: "cstring path 0 = Some s" "length s < 512"
    and r: "resolve (kernel_ops m w devs) (pvfs st) (open_base st path) s = Some (Inr a)" "nodes (pvfs st) a = Some nd"
    and nd: "v_type nd = VREG" "st_mode (v_stat nd) = S_IFREG" "v_ops nd = TMPFS_OPS" "file_ok nd" "unat (st_size (v_stat nd)) < 2 ^ 31"
    and fl: "flags AND O_DIRECTORY = 0"
  shows "\<exists>st' nd'. syscall_open (kernel_ops m w devs) m (Some (p, junk)) (Some path) flags st = Some (int (length xs), st') \<and>
    open_at st' (xs @ [p]) (length xs) a nd' 0 \<and> file_content nd' = file_content nd \<and> v_stat nd' = v_stat nd \<and>
    pvfs st' = (pvfs st)\<lparr>nodes := (nodes (pvfs st))(a \<mapsto> nd\<lparr>v_ref_count := v_ref_count nd + 1\<rparr>)\<rparr> \<and> cwd st' = cwd st \<and>
    (\<forall>x. x \<noteq> p \<longrightarrow> fds st' x = fds st x)"
proof -
  let ?E = "kernel_ops m w devs" and ?n = "length xs"
  obtain vec where c: "fd_create (re_words m) (Some (p, junk)) st = Some (FD_SUCCESS, Some (p, int ?n),
        st\<lparr>fds := (fds st)(p \<mapsto> junk\<lparr>fd_refs := 1, fd_lock := 0, fd_vnode := 0\<rparr>), fd_table := vec\<rparr>)"
      "vec_rep vec (xs @ [p])" "max_elements vec \<le> max 8 (2 * int (length (xs @ [p])))"
    using fd_create_ok [OF t(1) p m t(2), of junk] by blast
  define nd' where "nd' = nd\<lparr>v_ref_count := v_ref_count nd + 1\<rparr>"
  define v' where "v' = (pvfs st)\<lparr>nodes := (nodes (pvfs st))(a \<mapsto> nd')\<rparr>"
  have op: "vfs_open ?E (open_base st path) path (pvfs st) = Some (VFS_SUCCESS, Some a, v')"
    using kfs.vfs_open_eq [OF wf s r] by (simp add: v'_def nd'_def)
  define d where "d = junk\<lparr>fd_refs := 1, fd_lock := 0, fd_vnode := a, fd_flags := flags, fd_mode := S_IFREG, fd_offset := 0\<rparr>"
  define st' where "st' = st\<lparr>fds := (fds st)(p \<mapsto> d), fd_table := vec, pvfs := v'\<rparr>"
  have lk: "fd_table_lock st = 0" using t(1) by (simp add: table_ok_def)
  have rel: "fd_release (int ?n) st' = Some (FD_SUCCESS, st')"
    using fd_release_eq [of st' "xs @ [p]" ?n d] c(2) lk p(1)
    by (cases st, cases junk) (simp add: st'_def d_def spinlock_release_def compare_and_swap_def)
  have nz: "a \<noteq> 0" using wf(1) r(2) by (auto simp: vfs_wf_def)
  have md: "\<not> S_ISSOCK S_IFREG" "\<not> S_ISDIR S_IFREG"
    by (simp_all add: S_ISSOCK_def S_ISDIR_def S_IFREG_def S_IFMT_def S_IFSOCK_def S_IFDIR_def)
  have c0: "rd path 0 = Some (path ! 0)" using cstring_SomeD(1) [OF s(1)] by (intro rd_in) auto
  have n': "nodes v' a = Some nd'" "st_mode (v_stat nd') = S_IFREG" using nd(2) by (simp_all add: v'_def nd'_def)
  have "syscall_open ?E m (Some (p, junk)) (Some path) flags st = Some (int ?n, st')"
    using c(1) op c0 n' md fl rel
    by (cases st; cases junk; cases "path ! 0 = 47") (simp_all add: syscall_open_def syscall_openat_def FD_SUCCESS_def FD_FAIL_def VFS_SUCCESS_def VFS_NODE_MISSING_def
        upd_fd_def open_base_def vfs_get_root_def st'_def d_def Let_def)
  moreover have "table_ok st' (xs @ [p])" using t(1) p c(2,3) by (auto simp: table_ok_def st'_def d_def)
  then have "open_at st' (xs @ [p]) ?n a nd' 0"
    using wf(2) nz nd by (auto simp: open_at_def st'_def v'_def nd'_def d_def file_ok_def data_of_def)
  moreover have "file_content nd' = file_content nd" "v_stat nd' = v_stat nd" by (simp_all add: file_content_def nd'_def data_of_def)
  moreover have "pvfs st' = (pvfs st)\<lparr>nodes := (nodes (pvfs st))(a \<mapsto> nd\<lparr>v_ref_count := v_ref_count nd + 1\<rparr>)\<rparr>" "cwd st' = cwd st"
      "\<forall>x. x \<noteq> p \<longrightarrow> fds st' x = fds st x"
    by (simp_all add: st'_def v'_def nd'_def)
  ultimately show ?thesis by blast
qed

section \<open>Properties\<close>

text \<open>
  C15: opening and reading a file. In a process whose descriptor table is well formed,
  \<open>syscall_open\<close> of a path that denotes a regular file of tmpfs returns the next free descriptor, and
  any sequence of \<open>syscall_read\<close> calls on it then delivers the contents of the file from its start,
  in order, nothing twice and nothing left out, until the end of the file, and leaves the descriptor
  behind what was read. Every call returns and leaves the table well formed; nothing of the file
  system changes but the reference count of the file, and nothing else of the process: its other
  descriptors and its working directory are as before.
\<close>

theorem open_then_read:
  assumes t: "table_ok st xs" "length xs < 2 ^ 28" and p: "p \<noteq> 0" "p \<notin> set xs"
    and m: "realloc_ok (re_words m)" "\<forall>mem n. re_words m (Some mem) n \<noteq> None"
    and wf: "vfs_wf (pvfs st)" "vfs_lock (pvfs st) = 0" "nodes (pvfs st) (open_base st path) \<noteq> None"
    and s: "cstring path 0 = Some s" "length s < 512"
    and r: "resolve (kernel_ops m w devs) (pvfs st) (open_base st path) s = Some (Inr a)" "nodes (pvfs st) a = Some nd"
    and nd: "v_type nd = VREG" "st_mode (v_stat nd) = S_IFREG" "v_ops nd = TMPFS_OPS" "file_ok nd" "unat (st_size (v_stat nd)) < 2 ^ 31"
    and fl: "flags AND O_DIRECTORY = 0" and ns: "sum_list ns < 2 ^ 31"
  shows "\<exists>st1 st2. syscall_open (kernel_ops m w devs) m (Some (p, junk)) (Some path) flags st = Some (int (length xs), st1) \<and>
    read_all (kernel_ops m w devs) (int (length xs)) ns st1 = Some (take (sum_list ns) (file_content nd), st2) \<and>
    table_ok st2 (xs @ [p]) \<and>
    (\<exists>d. fds st2 p = Some d \<and> fd_vnode d = a \<and> unat (fd_offset d) = min (sum_list ns) (length (file_content nd))) \<and>
    pvfs st2 = (pvfs st)\<lparr>nodes := (nodes (pvfs st))(a \<mapsto> nd\<lparr>v_ref_count := v_ref_count nd + 1\<rparr>)\<rparr> \<and>
    cwd st2 = cwd st \<and> (\<forall>x. x \<noteq> p \<longrightarrow> fds st2 x = fds st x)"
proof -
  obtain st1 nd' where o: "syscall_open (kernel_ops m w devs) m (Some (p, junk)) (Some path) flags st = Some (int (length xs), st1)"
      "open_at st1 (xs @ [p]) (length xs) a nd' 0" "file_content nd' = file_content nd"
      "pvfs st1 = (pvfs st)\<lparr>nodes := (nodes (pvfs st))(a \<mapsto> nd\<lparr>v_ref_count := v_ref_count nd + 1\<rparr>)\<rparr>" "cwd st1 = cwd st"
      "\<forall>x. x \<noteq> p \<longrightarrow> fds st1 x = fds st x"
    using syscall_open_ok [OF t p m wf s r nd fl, of junk] by blast
  obtain st2 where r2: "read_all (kernel_ops m w devs) (int (length xs)) ns st1 = Some (take (sum_list ns) (file_content nd), st2)"
      "open_at st2 (xs @ [p]) (length xs) a nd' (min (sum_list ns) (length (file_content nd)))" "only_fd p st1 st2"
    using read_all_ok [OF o(2), of ns m w devs] ns o(3) by auto
  have "table_ok st2 (xs @ [p])"
      "\<exists>d. fds st2 p = Some d \<and> fd_vnode d = a \<and> unat (fd_offset d) = min (sum_list ns) (length (file_content nd))"
    using r2(2) by (auto simp: open_at_def)
  then show ?thesis using o(1,4-6) r2(1) only_fd_keeps [OF r2(3)] by auto
qed

definition demo_proc :: pfiles where
  "demo_proc = \<lparr>fd_table_lock = 0, fd_table = \<lparr>cur_elements = 0, max_elements = 8, elements = Some (replicate 8 0)\<rparr>,
     fds = Map.empty, cwd = 1, pvfs = demo_vfs\<rparr>"

text \<open>The file \<open>/tmp/a\<close> holding five bytes.\<close>

definition note_node :: vnode where
  "note_node = (let nd = demo_node VREG 2 ''a'' TMPFS_OPS [] in
     nd\<lparr>v_stat := (v_stat nd)\<lparr>st_size := 5\<rparr>, fs_data := Some (bytes ''hello'' @ replicate 4091 0)\<rparr>)"

definition note_vfs :: vfs where
  "note_vfs = demo_vfs\<lparr>nodes := (nodes demo_vfs)(3 \<mapsto> note_node)\<rparr>"

lemma note_view: "name_of note_vfs = name_of demo_vfs" "is_dir note_vfs = is_dir demo_vfs" "kids note_vfs = kids demo_vfs"
    "dom (nodes note_vfs) = dom (nodes demo_vfs)"
  by (auto simp: fun_eq_iff name_of_def is_dir_def kids_def note_vfs_def note_node_def demo_vfs_def demo_node_def Let_def)

lemma note_wf: "vfs_wf note_vfs" "vfs_lock note_vfs = 0"
proof -
  have "node_ok note_vfs a nd" if nd: "nodes note_vfs a = Some nd" for a nd
  proof -
    let ?nd = "demo_node VREG 2 ''a'' TMPFS_OPS []"
    have three: "nodes demo_vfs 3 = Some ?nd" "v_children note_node = v_children ?nd"
      by (simp_all add: demo_vfs_def note_node_def Let_def)
    have "\<exists>nd0. nodes demo_vfs a = Some nd0 \<and> v_children nd = v_children nd0"
      using three nd by (cases "a = 3") (auto simp: note_vfs_def)
    then obtain nd0 where nd0: "nodes demo_vfs a = Some nd0" "v_children nd = v_children nd0" by blast
    then have "node_ok demo_vfs a nd0" using demo_wf(1) by (simp add: vfs_wf_def)
    then show ?thesis using nd0(2) by (simp add: node_ok_def note_view)
  qed
  moreover have "nodes note_vfs 0 = None" "v_root note_vfs = v_root demo_vfs" by (simp_all add: note_vfs_def demo_vfs_def)
  ultimately show "vfs_wf note_vfs" using demo_wf(1) by (simp add: vfs_wf_def note_view)
  show "vfs_lock note_vfs = 0" by (simp add: note_vfs_def demo_vfs_def)
qed

theorem open_then_read_witness:
  "\<exists>st1 st2. syscall_open (kernel_ops demo_mem (\<lambda>_ _ _ _ _. None) (\<lambda>_. None)) demo_mem
      (Some (5, \<lparr>fd_lock = 7, fd_vnode = 7, fd_refs = 7, fd_offset = 7, fd_flags = 7, fd_mode = 7\<rparr>)) (Some (bytes ''/tmp/a'' @ [0])) 0
      (demo_proc\<lparr>pvfs := note_vfs\<rparr>) = Some (0, st1) \<and>
    read_all (kernel_ops demo_mem (\<lambda>_ _ _ _ _. None) (\<lambda>_. None)) 0 [2, 2, 7] st1 = Some (bytes ''hello'', st2)"
proof -
  let ?E = "kernel_ops demo_mem (\<lambda>_ _ _ _ _. None) (\<lambda>_. None)" and ?st = "demo_proc\<lparr>pvfs := note_vfs\<rparr>"
  have t: "table_ok ?st []" by (simp add: table_ok_def demo_proc_def vec_rep_def)
  have c: "cstring (bytes ''/tmp/a'' @ [0]) 0 = Some (bytes ''/tmp/a'')" by (simp add: cstring_def)
  have b: "open_base ?st (bytes ''/tmp/a'' @ [0]) = 1" "pvfs ?st = note_vfs"
    by (simp_all add: open_base_def demo_proc_def note_vfs_def demo_vfs_def)
  have n: "nodes note_vfs 1 \<noteq> None" "nodes note_vfs 3 = Some note_node" "v_root note_vfs = 1"
    by (simp_all add: note_vfs_def demo_vfs_def)
  have tk: "tokens {47} (bytes ''/tmp/a'') = [bytes ''tmp'', bytes ''a'']" by (simp add: tokens.simps)
  have r: "resolve ?E note_vfs 1 (bytes ''/tmp/a'') = Some (Inr 3)"
    unfolding resolve_def tk using demo_facts n by (simp add: Vfs.child_def note_view)
  have nd: "v_type note_node = VREG" "st_mode (v_stat note_node) = S_IFREG" "v_ops note_node = TMPFS_OPS" "file_ok note_node"
      "unat (st_size (v_stat note_node)) < 2 ^ 31" "file_content note_node = bytes ''hello''"
    by (simp_all add: note_node_def demo_node_def file_ok_def data_of_def file_content_def)
  have m: "realloc_ok (re_words demo_mem)" "\<forall>mem n. re_words demo_mem (Some mem) n \<noteq> None"
    using demo_mem_ok(1) by (simp_all add: mem_ok_def)
  let ?j = "\<lparr>fd_lock = 7, fd_vnode = 7, fd_refs = 7, fd_offset = 7, fd_flags = 7, fd_mode = 7\<rparr>"
  have "\<exists>st1 st2. syscall_open ?E demo_mem (Some (5, ?j)) (Some (bytes ''/tmp/a'' @ [0])) 0 ?st = Some (int (length ([] :: u64 list)), st1) \<and>
    read_all ?E (int (length ([] :: u64 list))) [2, 2, 7] st1 = Some (take (sum_list [2, 2, 7]) (file_content note_node), st2) \<and>
    table_ok st2 ([] @ [5]) \<and>
    (\<exists>d. fds st2 5 = Some d \<and> fd_vnode d = 3 \<and> unat (fd_offset d) = min (sum_list [2, 2, 7]) (length (file_content note_node))) \<and>
    pvfs st2 = note_vfs\<lparr>nodes := (nodes note_vfs)(3 \<mapsto> note_node\<lparr>v_ref_count := v_ref_count note_node + 1\<rparr>)\<rparr> \<and>
    cwd st2 = cwd ?st \<and> (\<forall>x. x \<noteq> 5 \<longrightarrow> fds st2 x = fds ?st x)"
    by (rule open_then_read [OF t _ _ _ m, where path = "bytes ''/tmp/a'' @ [0]" and p = 5 and a = 3, unfolded b, OF _ _ _ note_wf n(1) c _ r n(2) nd(1-5)]) simp_all
  then obtain st1 st2 where "syscall_open ?E demo_mem (Some (5, ?j)) (Some (bytes ''/tmp/a'' @ [0])) 0 ?st = Some (int (length ([] :: u64 list)), st1)"
    "read_all ?E (int (length ([] :: u64 list))) [2, 2, 7] st1 = Some (take (sum_list [2, 2, 7]) (file_content note_node), st2)" by blast
  then show ?thesis unfolding nd(6) by (intro exI [of _ st1] exI [of _ st2]) simp
qed

end
