(* ===== verification/Sockets.thy ===== *)
theory Sockets
  imports Threads Ringbuffer Filesystems
begin

text \<open>
  Unix domain sockets: \<open>src/kernel/sockets/socket.c\<close> and \<open>unix_socket.c\<close>. A socket pointer is a number
  into a store of sockets, \<^term>\<open>None\<close> for \<open>NULL\<close>; a socket owns its ring buffer and its address, and
  its events are events of the kernel state. An address is its bytes: the family, four bytes little
  endian, and the path. The data pointer of the vnode of a socket is the map \<open>sk_file\<close>.

  The operations that wait are cut at the wait: they answer \<open>Blocked\<close> and go on in a function of
  their own when their thread runs again.
\<close>

section \<open>Definitions\<close>

definition UNIX_SOCK_BUFF_SIZE :: u64 where "UNIX_SOCK_BUFF_SIZE = 0x2000"
definition SKT_BACKLOG_CAPACITY :: int where "SKT_BACKLOG_CAPACITY = 100"
definition AF_UNIX :: int where "AF_UNIX = 1"
definition SOCK_STREAM :: int where "SOCK_STREAM = 1"
definition O_NONBLOCK :: u32 where "O_NONBLOCK = 0x800"
definition sizeof_sockaddr_un :: nat where "sizeof_sockaddr_un = 112"
definition sizeof_storage :: u64 where "sizeof_storage = 128"

definition SKT_OK :: int where "SKT_OK = 0"
definition SKT_BAD_PARAM :: int where "SKT_BAD_PARAM = 1"
definition SKT_INVALID_DOMAIN :: int where "SKT_INVALID_DOMAIN = 2"
definition SKT_NO_MEM :: int where "SKT_NO_MEM = 3"
definition SKT_BAD_OP :: int where "SKT_BAD_OP = 4"
definition SKT_BIND_FAIL :: int where "SKT_BIND_FAIL = 6"
definition SKT_BAD_STATE :: int where "SKT_BAD_STATE = 7"
definition SKT_VFS_FAIL :: int where "SKT_VFS_FAIL = 8"
definition SKT_BACKLOG_FULL :: int where "SKT_BACKLOG_FULL = 9"
definition SKT_BLOCK_FAIL :: int where "SKT_BLOCK_FAIL = 10"
definition SKT_BACKLOG_EMPTY :: int where "SKT_BACKLOG_EMPTY = 11"
definition SKT_BACKLOG_CAPACITY_INVALID :: int where "SKT_BACKLOG_CAPACITY_INVALID = 12"
definition SKT_BAD_EVENT :: int where "SKT_BAD_EVENT = 13"
definition SKT_NONBLOCK :: int where "SKT_NONBLOCK = 14"

datatype socket_state = SOCKET_CREATED | SOCKET_BOUNDED | SOCKET_LISTENING | SOCKET_CONNECTED

record socket =
  sk_lock :: spinlock
  sk_domain :: int
  sk_type :: int
  sk_protocol :: int
  sk_state :: socket_state
  local_addr :: "cbuf option"
  peer :: "nat option"
  connection_request :: nat
  connection_accepted :: nat
  data_received :: nat
  backlog :: "nat option list option"
  backlog_capacity :: u64
  backlog_size :: u64
  sk_ring :: ringbuffer

record net =
  skts :: "nat \<rightharpoonup> socket"
  sk_kernel :: kernel
  sk_vfs :: vfs
  sk_file :: "u64 \<rightharpoonup> nat"

datatype skt_result = Ret int | Blocked

definition upd_sock :: "nat \<Rightarrow> (socket \<Rightarrow> socket) \<Rightarrow> net \<Rightarrow> net option" where
  "upd_sock s f n = do {
     sk \<leftarrow> skts n s;
     Some (n\<lparr>skts := (skts n)(s \<mapsto> f sk)\<rparr>) }"

definition sock_acquire :: "nat \<Rightarrow> net \<Rightarrow> net option" where
  "sock_acquire s n = do {
     sk \<leftarrow> skts n s;
     l \<leftarrow> spinlock_acquire (sk_lock sk);
     upd_sock s (\<lambda>sk. sk\<lparr>sk_lock := l\<rparr>) n }"

definition sock_release :: "nat \<Rightarrow> net \<Rightarrow> net option" where
  "sock_release s n = upd_sock s (\<lambda>sk. sk\<lparr>sk_lock := spinlock_release (sk_lock sk)\<rparr>) n"

definition sock_signal :: "nat \<Rightarrow> nat \<Rightarrow> net \<Rightarrow> (int \<times> net) option" where
  "sock_signal c e n = do {
     (err, k) \<leftarrow> event_signal c e (sk_kernel n);
     Some (err, n\<lparr>sk_kernel := k\<rparr>) }"

definition sock_wait :: "nat \<Rightarrow> nat \<Rightarrow> net \<Rightarrow> net option" where
  "sock_wait c e n = do {
     k \<leftarrow> event_wait c e (sk_kernel n);
     Some (n\<lparr>sk_kernel := k\<rparr>) }"

definition sock_wait_resume :: "nat \<Rightarrow> nat \<Rightarrow> net \<Rightarrow> (int \<times> net) option" where
  "sock_wait_resume c e n = do {
     (err, k) \<leftarrow> event_wait_resume c e (sk_kernel n);
     Some (err, n\<lparr>sk_kernel := k\<rparr>) }"

subsection \<open>socket.c\<close>

text \<open>The last argument is the block of a socketaddr_storage that \<open>kmalloc\<close> returned.\<close>

definition socket_init :: "int \<Rightarrow> int \<Rightarrow> int \<Rightarrow> cbuf option \<Rightarrow> socket \<Rightarrow> int \<times> socket" where
  "socket_init domain type protocol blk sk =
     (let sk = sk\<lparr>sk_lock := 0, sk_domain := domain, sk_type := type, sk_protocol := protocol, peer := None,
        sk_state := SOCKET_CREATED, local_addr := blk\<rparr>
      in if blk = None then (SKT_NO_MEM, sk)
         else (SKT_OK, sk\<lparr>peer := None, backlog_capacity := 0, backlog_size := 0, backlog := None\<rparr>))"

text \<open>\<open>for (j = i; j < size - 1; j++) backlog[j] = backlog[j + 1]\<close>\<close>

definition shift_down :: "nat \<Rightarrow> u64 \<Rightarrow> nat option list \<Rightarrow> nat option list option" where
  "shift_down i size1 bl = for_loop i (unat size1) (\<lambda>j bl. do { x \<leftarrow> rd bl (Suc j); wr bl j x }) bl"

fun remove_loop :: "nat option \<Rightarrow> u64 \<Rightarrow> nat option list \<Rightarrow> nat \<Rightarrow> nat \<Rightarrow> (int \<times> nat option list) option" where
  "remove_loop x sz bl i 0 = Some (SKT_BAD_PARAM, bl)"
| "remove_loop x sz bl i (Suc n) = do {
     y \<leftarrow> rd bl i;
     if y \<noteq> x then remove_loop x sz bl (Suc i) n
     else do {
       bl \<leftarrow> shift_down i (sz - 1) bl;
       Some (SKT_OK, bl) } }"

definition socket_backlog_remove :: "nat option \<Rightarrow> nat option \<Rightarrow> net \<Rightarrow> (int \<times> net) option" where
  "socket_backlog_remove this r n =
     (case (this, r) of
        (Some s, Some _) \<Rightarrow> do {
          sk \<leftarrow> skts n s;
          if backlog_size sk = 0 then Some (SKT_BACKLOG_EMPTY, n)
          else do {
            bl \<leftarrow> backlog sk;
            (err, bl) \<leftarrow> remove_loop r (backlog_size sk) bl 0 (unat (backlog_size sk));
            n \<leftarrow> upd_sock s (\<lambda>sk. sk\<lparr>backlog := Some bl\<rparr>) n;
            Some (err, n) } }
      | _ \<Rightarrow> Some (SKT_BAD_PARAM, n))"

definition socket_add_to_peer_backlog :: "nat option \<Rightarrow> nat option \<Rightarrow> net \<Rightarrow> (int \<times> net) option" where
  "socket_add_to_peer_backlog this pr n =
     (case (this, pr) of
        (Some _, Some s) \<Rightarrow> do {
          sk \<leftarrow> skts n s;
          if backlog_size sk = backlog_capacity sk then Some (SKT_BACKLOG_FULL, n)
          else do {
            bl \<leftarrow> backlog sk;
            bl \<leftarrow> wr bl (unat (backlog_size sk)) this;
            n \<leftarrow> upd_sock s (\<lambda>sk. sk\<lparr>backlog := Some bl, backlog_size := backlog_size sk + 1\<rparr>) n;
            Some (SKT_OK, n) } }
      | _ \<Rightarrow> Some (SKT_BAD_PARAM, n))"

text \<open>The second part of the result is what \<open>*pop\<close> receives.\<close>

definition socket_pop_from_backlog :: "nat option \<Rightarrow> net \<Rightarrow> (int \<times> nat option \<times> net) option" where
  "socket_pop_from_backlog this n =
     (case this of None \<Rightarrow> Some (SKT_BAD_PARAM, None, n)
      | Some s \<Rightarrow> do {
          sk \<leftarrow> skts n s;
          if backlog_size sk = 0 then Some (SKT_BACKLOG_EMPTY, None, n)
          else do {
            bl \<leftarrow> backlog sk;
            first \<leftarrow> rd bl 0;
            bl \<leftarrow> shift_down 0 (backlog_size sk - 1) bl;
            n \<leftarrow> upd_sock s (\<lambda>sk. sk\<lparr>backlog := Some bl\<rparr>) n;
            Some (SKT_OK, first, n) } })"

subsection \<open>unix_socket.c: creation, binding, listening\<close>

text \<open>
  The answers of \<open>kmalloc\<close>: the socket with its old contents, the address block and the ring's
  bytes. The result gives the new socket where \<open>*this\<close> is assigned.
\<close>

record skt_mem =
  mem_sock :: "(nat \<times> socket) option"
  mem_addr :: "cbuf option"
  mem_ring :: "cbuf option"

definition unix_socket_create :: "skt_mem \<Rightarrow> int \<Rightarrow> int \<Rightarrow> net \<Rightarrow> int \<times> nat option \<times> net" where
  "unix_socket_create m type protocol n =
     (if type \<noteq> SOCK_STREAM then (SKT_BAD_PARAM, None, n)
      else case mem_sock m of None \<Rightarrow> (SKT_NO_MEM, None, n)
      | Some (s, junk) \<Rightarrow>
          let (err, sk) = socket_init AF_UNIX type protocol (mem_addr m) junk
          in if err \<noteq> SKT_OK then (err, None, n\<lparr>skts := (skts n)(s \<mapsto> sk)\<rparr>)
             else let (ring, err) = ringbuffer_alloc (sk_ring sk) UNIX_SOCK_BUFF_SIZE (mem_ring m);
                      n = n\<lparr>skts := (skts n)(s \<mapsto> sk\<lparr>sk_ring := ring\<rparr>)\<rparr>
                  in if err \<noteq> RINGBUFFER_OK then (SKT_NO_MEM, None, n) else (SKT_OK, Some s, n))"

definition sa_family :: "cbuf \<Rightarrow> int option" where
  "sa_family addr = do {
     a \<leftarrow> rd addr 0; b \<leftarrow> rd addr 1; c \<leftarrow> rd addr 2; d \<leftarrow> rd addr 3;
     Some (uint a + 256 * uint b + 65536 * uint c + 16777216 * uint d) }"

definition proc_get_vnode_base :: "u64 \<Rightarrow> cbuf \<Rightarrow> vfs \<Rightarrow> u64 option" where
  "proc_get_vnode_base cwd path v = do {
     c \<leftarrow> rd path 0;
     Some (if c = 47 then vfs_get_root v else cwd) }"

definition unix_socket_bind :: "ops_env \<Rightarrow> kmem \<Rightarrow> u64 \<Rightarrow> nat option \<Rightarrow> cbuf option \<Rightarrow> u32 \<Rightarrow> net \<Rightarrow> (int \<times> net) option" where
  "unix_socket_bind E m cwd this addr addrlen n =
     (case (this, addr) of
        (Some s, Some a) \<Rightarrow> do {
          fam \<leftarrow> sa_family a;
          if fam \<noteq> AF_UNIX then Some (SKT_INVALID_DOMAIN, n)
          else do {
            a \<leftarrow> memcpy a 4 a 4 (unat addrlen);
            let path = drop 4 a;
            base \<leftarrow> proc_get_vnode_base cwd path (sk_vfs n);
            (err, v) \<leftarrow> vfs_create E m base (Some path) VSKT (sk_vfs n);
            let n = n\<lparr>sk_vfs := v\<rparr>;
            if err \<noteq> 0 then Some (SKT_BIND_FAIL, n)
            else do {
              (err, ret, v) \<leftarrow> vfs_open E base path (sk_vfs n);
              let n = n\<lparr>sk_vfs := v\<rparr>;
              if err \<noteq> 0 then Some (SKT_VFS_FAIL, n)
              else do {
                socket_file \<leftarrow> ret;
                let n = n\<lparr>sk_file := (sk_file n)(socket_file \<mapsto> s)\<rparr>;
                n \<leftarrow> sock_acquire s n;
                sk \<leftarrow> skts n s;
                la \<leftarrow> local_addr sk;
                la \<leftarrow> memcpy la 0 a 0 sizeof_sockaddr_un;
                n \<leftarrow> upd_sock s (\<lambda>sk. sk\<lparr>local_addr := Some la, sk_state := SOCKET_BOUNDED\<rparr>) n;
                n \<leftarrow> sock_release s n;
                Some (SKT_OK, n) } } } }
      | _ \<Rightarrow> Some (SKT_BAD_PARAM, n))"

text \<open>\<open>blk\<close> is the block for the backlog that \<open>kmalloc\<close> returns for a number of entries.\<close>

definition unix_socket_listen :: "(nat \<Rightarrow> nat option list option) \<Rightarrow> nat option \<Rightarrow> int \<Rightarrow> net \<Rightarrow> (int \<times> net) option" where
  "unix_socket_listen blk this bl n =
     (case this of None \<Rightarrow> Some (SKT_BAD_PARAM, n)
      | Some s \<Rightarrow>
          if \<not> bl \<ge> 0 then Some (SKT_BACKLOG_CAPACITY_INVALID, n)
          else do {
            sk \<leftarrow> skts n s;
            if sk_state sk \<noteq> SOCKET_BOUNDED then Some (SKT_BAD_STATE, n)
            else do {
              n \<leftarrow> sock_acquire s n;
              let cap = nat (min bl SKT_BACKLOG_CAPACITY);
              n \<leftarrow> upd_sock s (\<lambda>sk. sk\<lparr>backlog_capacity := of_nat cap, backlog_size := 0, backlog := blk cap\<rparr>) n;
              case blk cap of
                None \<Rightarrow> do { n \<leftarrow> sock_release s n; Some (SKT_NO_MEM, n) }
              | Some b \<Rightarrow> do {
                  b \<leftarrow> for_loop 0 cap (\<lambda>i b. wr b i None) b;
                  n \<leftarrow> upd_sock s (\<lambda>sk. sk\<lparr>backlog := Some b, sk_state := SOCKET_LISTENING\<rparr>) n;
                  n \<leftarrow> sock_release s n;
                  Some (SKT_OK, n) } } })"

subsection \<open>unix_socket.c: connecting\<close>

text \<open>
  The rest of \<open>unix_socket_accept\<close> from the test of the loop on; the second part of the result is
  what \<open>*sock\<close> receives. The branch that would copy the address of the client is taken only for a
  null pointer, which the function has refused before.
\<close>

definition accept_loop :: "nat \<Rightarrow> nat \<Rightarrow> nat \<Rightarrow> u32 \<Rightarrow> net \<Rightarrow> (skt_result \<times> nat option \<times> net) option" where
  "accept_loop c s listen_sock fd_flags n = do {
     sk \<leftarrow> skts n s;
     if backlog_size sk = 0
     then if fd_flags AND O_NONBLOCK \<noteq> 0
       then do { n \<leftarrow> sock_release s n; Some (Ret SKT_NONBLOCK, None, n) }
       else do {
         n \<leftarrow> sock_release s n;
         n \<leftarrow> sock_wait c (connection_request sk) n;
         Some (Blocked, None, n) }
     else do {
       (err, client, n) \<leftarrow> socket_pop_from_backlog (Some s) n;
       if err \<noteq> 0 then do { n \<leftarrow> sock_release s n; Some (Ret err, None, n) }
       else do {
         client_sock \<leftarrow> client;
         n \<leftarrow> upd_sock listen_sock (\<lambda>sk. sk\<lparr>peer := client, sk_state := SOCKET_CONNECTED\<rparr>) n;
         n \<leftarrow> upd_sock client_sock (\<lambda>sk. sk\<lparr>peer := Some listen_sock, sk_state := SOCKET_CONNECTED\<rparr>) n;
         csk \<leftarrow> skts n client_sock;
         (err, n) \<leftarrow> sock_signal c (connection_accepted csk) n;
         n \<leftarrow> sock_release s n;
         Some (Ret (if err \<noteq> 0 then SKT_BAD_EVENT else SKT_OK), Some listen_sock, n) } } }"

text \<open>When \<open>unix_socket_create\<close> fails the variable \<open>listen_sock\<close> is never assigned.\<close>

definition unix_socket_accept :: "nat \<Rightarrow> skt_mem \<Rightarrow> nat option \<Rightarrow> cbuf option \<Rightarrow> u32 \<Rightarrow> u32 \<Rightarrow> net \<Rightarrow>
    (skt_result \<times> nat option \<times> nat option \<times> net) option" where
  "unix_socket_accept c m this addr addrlen fd_flags n =
     (case this of None \<Rightarrow> Some (Ret SKT_BAD_PARAM, None, None, n)
      | Some s \<Rightarrow>
          if addr = None \<or> \<not> unat addrlen \<le> sizeof_sockaddr_un then Some (Ret SKT_BAD_PARAM, None, None, n)
          else do {
            sk \<leftarrow> skts n s;
            if sk_state sk \<noteq> SOCKET_LISTENING then Some (Ret SKT_BAD_STATE, None, None, n)
            else do {
              let (err, res, n) = unix_socket_create m (sk_type sk) (sk_protocol sk) n;
              listen_sock \<leftarrow> res;
              n \<leftarrow> sock_acquire s n;
              (r, sock, n) \<leftarrow> accept_loop c s listen_sock fd_flags n;
              Some (r, sock, Some listen_sock, n) } })"

definition accept_resume :: "nat \<Rightarrow> nat \<Rightarrow> nat \<Rightarrow> u32 \<Rightarrow> net \<Rightarrow> (skt_result \<times> nat option \<times> net) option" where
  "accept_resume c s listen_sock fd_flags n = do {
     sk \<leftarrow> skts n s;
     (err, n) \<leftarrow> sock_wait_resume c (connection_request sk) n;
     if err = EVENT_ERR then Some (Ret SKT_BAD_EVENT, None, n)
     else do {
       n \<leftarrow> sock_acquire s n;
       accept_loop c s listen_sock fd_flags n } }"

text \<open>The middle part of the result is the vnode that is still open.\<close>

definition unix_socket_connect :: "ops_env \<Rightarrow> nat \<Rightarrow> u64 \<Rightarrow> nat \<Rightarrow> cbuf \<Rightarrow> u32 \<Rightarrow> net \<Rightarrow> (skt_result \<times> u64 \<times> net) option" where
  "unix_socket_connect E c cwd s addr addrlen n =
     (if \<not> unat addrlen \<le> sizeof_sockaddr_un then Some (Ret SKT_BAD_PARAM, 0, n)
      else do {
        fam \<leftarrow> sa_family addr;
        if fam \<noteq> AF_UNIX then Some (Ret SKT_INVALID_DOMAIN, 0, n)
        else do {
          sk \<leftarrow> skts n s;
          if sk_state sk \<noteq> SOCKET_CREATED then Some (Ret SKT_BAD_PARAM, 0, n)
          else do {
            let path = drop 4 addr;
            base \<leftarrow> proc_get_vnode_base cwd path (sk_vfs n);
            (err, ret, v) \<leftarrow> vfs_open E base path (sk_vfs n);
            let n = n\<lparr>sk_vfs := v\<rparr>;
            if err \<noteq> 0 then Some (Ret SKT_VFS_FAIL, 0, n)
            else do {
              vnode \<leftarrow> ret;
              nd \<leftarrow> nodes (sk_vfs n) vnode;
              if \<not> S_ISSOCK (st_mode (v_stat nd)) then Some (Ret SKT_BAD_PARAM, vnode, n)
              else do {
                pr \<leftarrow> sk_file n vnode;
                n \<leftarrow> sock_acquire pr n;
                psk \<leftarrow> skts n pr;
                if sk_state psk \<noteq> SOCKET_LISTENING
                then do { n \<leftarrow> sock_release pr n; Some (Ret SKT_BAD_PARAM, vnode, n) }
                else do {
                  (err, n) \<leftarrow> socket_add_to_peer_backlog (Some s) (Some pr) n;
                  if err \<noteq> SKT_OK then do { n \<leftarrow> sock_release pr n; Some (Ret err, vnode, n) }
                  else do {
                    (err, n) \<leftarrow> sock_signal c (connection_request psk) n;
                    if err \<noteq> 0
                    then do {
                      (_, n) \<leftarrow> socket_backlog_remove (Some pr) (Some s) n;
                      n \<leftarrow> sock_release pr n;
                      Some (Ret SKT_BAD_EVENT, vnode, n) }
                    else do {
                      n \<leftarrow> sock_release pr n;
                      sk \<leftarrow> skts n s;
                      n \<leftarrow> sock_wait c (connection_accepted sk) n;
                      Some (Blocked, vnode, n) } } } } } } } })"

definition connect_resume :: "ops_env \<Rightarrow> nat \<Rightarrow> nat \<Rightarrow> u64 \<Rightarrow> net \<Rightarrow> (int \<times> net) option" where
  "connect_resume E c s vnode n = do {
     sk \<leftarrow> skts n s;
     (err, n) \<leftarrow> sock_wait_resume c (connection_accepted sk) n;
     if err = EVENT_ERR then Some (SKT_BLOCK_FAIL, n)
     else do {
       v \<leftarrow> (if vnode \<noteq> 0 then map_option snd (vfs_close E vnode (sk_vfs n)) else Some (sk_vfs n));
       Some (SKT_OK, n\<lparr>sk_vfs := v\<rparr>) } }"

subsection \<open>unix_socket.c: names\<close>

text \<open>
  The results are the code, the caller's buffer and its \<open>*socklen\<close>; \<open>sizeof(unix_addr)\<close> is the size
  of a pointer.
\<close>

definition unix_socket_getpeername :: "nat option \<Rightarrow> cbuf option \<Rightarrow> u32 \<Rightarrow> net \<Rightarrow> (int \<times> cbuf option \<times> u32 \<times> net) option" where
  "unix_socket_getpeername this addr socklen n =
     (case (this, addr) of
        (Some s, Some a) \<Rightarrow> do {
          n \<leftarrow> sock_acquire s n;
          sk \<leftarrow> skts n s;
          if sk_state sk \<noteq> SOCKET_CONNECTED
          then do { n \<leftarrow> sock_release s n; Some (SKT_BAD_STATE, addr, socklen, n) }
          else do {
            pr \<leftarrow> peer sk;
            n \<leftarrow> sock_acquire pr n;
            let socklen = max socklen 8;
            psk \<leftarrow> skts n pr;
            la \<leftarrow> local_addr psk;
            a \<leftarrow> memcpy a 0 la 0 (unat socklen);
            n \<leftarrow> sock_release s n;
            n \<leftarrow> sock_release pr n;
            Some (SKT_OK, Some a, socklen, n) } }
      | _ \<Rightarrow> Some (SKT_BAD_PARAM, addr, socklen, n))"

definition unix_socket_getsockname :: "nat option \<Rightarrow> cbuf option \<Rightarrow> u32 \<Rightarrow> net \<Rightarrow> (int \<times> cbuf option \<times> u32 \<times> net) option" where
  "unix_socket_getsockname this addr socklen n =
     (case (this, addr) of
        (Some s, Some a) \<Rightarrow> do {
          n \<leftarrow> sock_acquire s n;
          sk \<leftarrow> skts n s;
          if sk_state sk \<noteq> SOCKET_BOUNDED
          then do { n \<leftarrow> sock_release s n; Some (SKT_BAD_STATE, addr, socklen, n) }
          else do {
            let socklen = max socklen 8;
            la \<leftarrow> local_addr sk;
            a \<leftarrow> memcpy a 0 la 0 (unat socklen);
            n \<leftarrow> sock_release s n;
            Some (SKT_OK, Some a, socklen, n) } }
      | _ \<Rightarrow> Some (SKT_BAD_PARAM, addr, socklen, n))"

subsection \<open>unix_socket.c: data\<close>

text \<open>
  \<open>unix_socket_recv\<close> from the test of its loop on. The results are the answer, the caller's buffer
  and \<open>*bytes_read\<close> where it is assigned.
\<close>

definition recv_loop :: "nat \<Rightarrow> nat \<Rightarrow> cbuf \<Rightarrow> u64 \<Rightarrow> u32 \<Rightarrow> net \<Rightarrow> (skt_result \<times> cbuf \<times> nat option \<times> net) option" where
  "recv_loop c s buff len fd_flags n = do {
     sk \<leftarrow> skts n s;
     (ring, sz) \<leftarrow> ringbuffer_size (sk_ring sk);
     n \<leftarrow> upd_sock s (\<lambda>sk. sk\<lparr>sk_ring := ring\<rparr>) n;
     if sz = 0
     then if fd_flags AND O_NONBLOCK \<noteq> 0
       then do { n \<leftarrow> sock_release s n; Some (Ret SKT_NONBLOCK, buff, None, n) }
       else do {
         n \<leftarrow> sock_release s n;
         n \<leftarrow> sock_wait c (data_received sk) n;
         Some (Blocked, buff, None, n) }
     else do {
       (ring, buff, count) \<leftarrow> ringbuffer_read ring buff len;
       n \<leftarrow> upd_sock s (\<lambda>sk. sk\<lparr>sk_ring := ring\<rparr>) n;
       pr \<leftarrow> peer sk;
       psk \<leftarrow> skts n pr;
       (_, n) \<leftarrow> sock_signal c (data_received psk) n;
       n \<leftarrow> sock_release s n;
       Some (Ret SKT_OK, buff, Some count, n) } }"

definition unix_socket_recv :: "nat \<Rightarrow> nat option \<Rightarrow> cbuf \<Rightarrow> u64 \<Rightarrow> int \<Rightarrow> u32 \<Rightarrow> net \<Rightarrow> (skt_result \<times> cbuf \<times> nat option \<times> net) option" where
  "unix_socket_recv c this buff len flags fd_flags n =
     (case this of None \<Rightarrow> Some (Ret SKT_BAD_PARAM, buff, None, n)
      | Some s \<Rightarrow>
          if flags \<noteq> 0 then Some (Ret SKT_BAD_OP, buff, None, n)
          else do {
            n \<leftarrow> sock_acquire s n;
            sk \<leftarrow> skts n s;
            if sk_state sk \<noteq> SOCKET_CONNECTED
            then do { n \<leftarrow> sock_release s n; Some (Ret SKT_BAD_STATE, buff, None, n) }
            else recv_loop c s buff len fd_flags n })"

definition recv_resume :: "nat \<Rightarrow> nat \<Rightarrow> cbuf \<Rightarrow> u64 \<Rightarrow> u32 \<Rightarrow> net \<Rightarrow> (skt_result \<times> cbuf \<times> nat option \<times> net) option" where
  "recv_resume c s buff len fd_flags n = do {
     sk \<leftarrow> skts n s;
     (err, n) \<leftarrow> sock_wait_resume c (data_received sk) n;
     if err = EVENT_ERR
     then do { n \<leftarrow> sock_release s n; Some (Ret SKT_BLOCK_FAIL, buff, None, n) }
     else do {
       n \<leftarrow> sock_acquire s n;
       recv_loop c s buff len fd_flags n } }"

definition send_loop :: "nat \<Rightarrow> nat \<Rightarrow> cbuf \<Rightarrow> u64 \<Rightarrow> u32 \<Rightarrow> net \<Rightarrow> (skt_result \<times> nat option \<times> net) option" where
  "send_loop c pr buff len fd_flags n = do {
     psk \<leftarrow> skts n pr;
     (ring, sz) \<leftarrow> ringbuffer_size (sk_ring psk);
     (ring, cap) \<leftarrow> ringbuffer_capacity ring;
     n \<leftarrow> upd_sock pr (\<lambda>sk. sk\<lparr>sk_ring := ring\<rparr>) n;
     if sz = cap
     then if fd_flags AND O_NONBLOCK \<noteq> 0
       then do { n \<leftarrow> sock_release pr n; Some (Ret SKT_NONBLOCK, None, n) }
       else do {
         n \<leftarrow> sock_release pr n;
         n \<leftarrow> sock_wait c (data_received psk) n;
         Some (Blocked, None, n) }
     else do {
       (ring, count) \<leftarrow> ringbuffer_write ring buff len;
       n \<leftarrow> upd_sock pr (\<lambda>sk. sk\<lparr>sk_ring := ring\<rparr>) n;
       (_, n) \<leftarrow> sock_signal c (data_received psk) n;
       n \<leftarrow> sock_release pr n;
       Some (Ret SKT_OK, Some count, n) } }"

definition unix_socket_send :: "nat \<Rightarrow> nat option \<Rightarrow> cbuf \<Rightarrow> u64 \<Rightarrow> int \<Rightarrow> u32 \<Rightarrow> net \<Rightarrow> (skt_result \<times> nat option \<times> net) option" where
  "unix_socket_send c this buff len flags fd_flags n =
     (case this of None \<Rightarrow> Some (Ret SKT_BAD_PARAM, None, n)
      | Some s \<Rightarrow>
          if flags \<noteq> 0 then Some (Ret SKT_BAD_OP, None, n)
          else do {
            sk \<leftarrow> skts n s;
            pr \<leftarrow> peer sk;
            n \<leftarrow> sock_acquire pr n;
            psk \<leftarrow> skts n pr;
            if sk_state psk \<noteq> SOCKET_CONNECTED
            then do { n \<leftarrow> sock_release pr n; Some (Ret SKT_BAD_STATE, None, n) }
            else send_loop c pr buff len fd_flags n })"

definition send_resume :: "nat \<Rightarrow> nat \<Rightarrow> cbuf \<Rightarrow> u64 \<Rightarrow> u32 \<Rightarrow> net \<Rightarrow> (skt_result \<times> nat option \<times> net) option" where
  "send_resume c pr buff len fd_flags n = do {
     psk \<leftarrow> skts n pr;
     (err, n) \<leftarrow> sock_wait_resume c (data_received psk) n;
     if err = EVENT_ERR
     then do { n \<leftarrow> sock_release pr n; Some (Ret SKT_BLOCK_FAIL, None, n) }
     else do {
       n \<leftarrow> sock_acquire pr n;
       send_loop c pr buff len fd_flags n } }"

section \<open>A connected pair\<close>

text \<open>An event nobody waits for; signalling it changes nothing.\<close>

definition quiet :: "kernel \<Rightarrow> nat \<Rightarrow> nat \<Rightarrow> bool" where
  "quiet k c e \<longleftrightarrow> (\<exists>co ev. cores k c = Some co \<and> if_flag co \<and> events k e = Some ev \<and> ev_lock ev = 0 \<and> num_listeners ev = 0)"

lemma quiet_signal: "quiet k c e \<Longrightarrow> event_signal c e k = Some (EVENT_NO_LISTENERS, k)"
proof -
  assume "quiet k c e"
  then obtain co ev where q: "cores k c = Some co" "if_flag co" "events k e = Some ev" "ev_lock ev = 0" "num_listeners ev = 0"
    by (auto simp: quiet_def)
  have co: "co\<lparr>if_flag := True\<rparr> = co" using q(2) by (cases co) simp
  have ev: "ev\<lparr>ev_lock := 0\<rparr> = ev" using q(4) by (cases ev) simp
  have "cores k = (cores k)(c \<mapsto> co)" "events k = (events k)(e \<mapsto> ev)" using q(1,3) by (auto simp: fun_eq_iff)
  then have idem: "k\<lparr>cores := (cores k)(c \<mapsto> co), events := (events k)(e \<mapsto> ev)\<rparr> = k" by (cases k) simp
  have "event_signal c e k = Some (EVENT_NO_LISTENERS, k\<lparr>cores := (cores k)(c \<mapsto> co), events := (events k)(e \<mapsto> ev)\<rparr>)"
    using q by (simp add: event_signal_def upd_core_def upd_event_def co ev)
  then show ?thesis unfolding idem .
qed

definition linked :: "nat \<Rightarrow> nat \<Rightarrow> nat \<Rightarrow> net \<Rightarrow> bool" where
  "linked c a b n \<longleftrightarrow> a \<noteq> b \<and> (\<exists>sa sb. skts n a = Some sa \<and> skts n b = Some sb \<and> peer sa = Some b \<and> peer sb = Some a \<and>
     sk_state sa = SOCKET_CONNECTED \<and> sk_state sb = SOCKET_CONNECTED \<and> sk_lock sa = 0 \<and> sk_lock sb = 0 \<and>
     ring_inv (sk_ring sa) \<and> ring_inv (sk_ring sb) \<and>
     quiet (sk_kernel n) c (data_received sa) \<and> quiet (sk_kernel n) c (data_received sb))"

definition inbox :: "net \<Rightarrow> nat \<Rightarrow> u8 list" where
  "inbox n s = (case skts n s of None \<Rightarrow> [] | Some sk \<Rightarrow> ring_contents (sk_ring sk))"

lemma linked_ring:
  assumes "linked c a b n" "skts n b = Some sb" "ring_inv r"
  shows "linked c a b (n\<lparr>skts := (skts n)(b \<mapsto> sb\<lparr>sk_ring := r\<rparr>)\<rparr>)"
    "inbox (n\<lparr>skts := (skts n)(b \<mapsto> sb\<lparr>sk_ring := r\<rparr>)\<rparr>) b = ring_contents r"
  using assms by (auto simp: linked_def inbox_def)

text \<open>A send takes what fits into the peer's ring and reports how much that is.\<close>

lemma send_ok:
  assumes l: "linked c a b n" and len: "unat len \<le> length d"
  shows "\<exists>r k n'. unix_socket_send c (Some a) d len 0 O_NONBLOCK n = Some (r, k, n') \<and> linked c a b n' \<and>
    inbox n' b = inbox n b @ take (case k of None \<Rightarrow> 0 | Some k \<Rightarrow> k) d \<and>
    r = Ret (if k = None then SKT_NONBLOCK else SKT_OK) \<and> (\<forall>j. k = Some j \<longrightarrow> j \<le> unat len)"
proof -
  obtain sa sb where s: "a \<noteq> b" "skts n a = Some sa" "skts n b = Some sb" "peer sa = Some b" "sk_state sb = SOCKET_CONNECTED"
      "sk_lock sb = 0" "ring_inv (sk_ring sb)" "quiet (sk_kernel n) c (data_received sb)"
    using l by (auto simp: linked_def)
  let ?R = "sk_ring sb"
  obtain sz where sz: "ringbuffer_size ?R = Some (?R, sz)" "unat sz = length (ring_contents ?R)"
    using ringbuffer_size_ok [OF s(7)] by blast
  note cap = ringbuffer_capacity_ok [OF s(7)]
  have sb: "sb\<lparr>sk_lock := 0\<rparr> = sb" "sb\<lparr>sk_ring := r, sk_lock := 0\<rparr> = sb\<lparr>sk_ring := r\<rparr>" for r using s(6) by (cases sb, simp)+
  have idem: "n\<lparr>skts := (skts n)(b \<mapsto> sb)\<rparr> = n" using s(3) by (simp add: fun_upd_idem)
  have nb: "O_NONBLOCK AND O_NONBLOCK \<noteq> 0" by (simp add: O_NONBLOCK_def)
  show ?thesis
  proof (cases "sz = rb_capacity ?R")
    case True
    then have "unix_socket_send c (Some a) d len 0 O_NONBLOCK n = Some (Ret SKT_NONBLOCK, None, n)"
      using s sz cap idem nb
      by (simp add: sb unix_socket_send_def send_loop_def sock_acquire_def sock_release_def upd_sock_def)
    then show ?thesis using l by simp
  next
    case False
    obtain R' where w: "ringbuffer_write ?R d len = Some (R', min (unat len) (ring_cap ?R - length (ring_contents ?R)))" "ring_inv R'"
        "ring_contents R' = ring_contents ?R @ take (min (unat len) (ring_cap ?R - length (ring_contents ?R))) d"
      using ringbuffer_write_ok [OF s(7) len] by blast
    let ?n = "n\<lparr>skts := (skts n)(b \<mapsto> sb\<lparr>sk_ring := R'\<rparr>)\<rparr>"
    have "unix_socket_send c (Some a) d len 0 O_NONBLOCK n =
        Some (Ret SKT_OK, Some (min (unat len) (ring_cap ?R - length (ring_contents ?R))), ?n)"
      using False s sz cap w(1) quiet_signal [OF s(8)]
      by (simp add: sb unix_socket_send_def send_loop_def sock_acquire_def sock_release_def upd_sock_def sock_signal_def)
    then show ?thesis using linked_ring [OF l s(3) w(2)] w(3) s(3) by (simp add: inbox_def)
  qed
qed

lemma recv_ok:
  assumes l: "linked c a b n" and len: "unat len = length d"
  shows "\<exists>r d' k n'. unix_socket_recv c (Some b) d len 0 O_NONBLOCK n = Some (r, d', k, n') \<and> linked c a b n' \<and>
    inbox n b = take (case k of None \<Rightarrow> 0 | Some k \<Rightarrow> k) d' @ inbox n' b \<and>
    r = Ret (if k = None then SKT_NONBLOCK else SKT_OK) \<and> (k = None \<longleftrightarrow> inbox n b = [])"
proof -
  obtain sa sb where s: "a \<noteq> b" "skts n a = Some sa" "skts n b = Some sb" "peer sb = Some a" "sk_state sb = SOCKET_CONNECTED"
      "sk_lock sb = 0" "ring_inv (sk_ring sb)" "quiet (sk_kernel n) c (data_received sa)"
    using l by (auto simp: linked_def)
  let ?R = "sk_ring sb"
  obtain sz where sz: "ringbuffer_size ?R = Some (?R, sz)" "unat sz = length (ring_contents ?R)"
    using ringbuffer_size_ok [OF s(7)] by blast
  have sb: "sb\<lparr>sk_lock := 0\<rparr> = sb" "sb\<lparr>sk_ring := r, sk_lock := 0\<rparr> = sb\<lparr>sk_ring := r\<rparr>" for r using s(6) by (cases sb, simp)+
  have idem: "n\<lparr>skts := (skts n)(b \<mapsto> sb)\<rparr> = n" using s(3) by (simp add: fun_upd_idem)
  have nb: "O_NONBLOCK AND O_NONBLOCK \<noteq> 0" by (simp add: O_NONBLOCK_def)
  have ib: "inbox n b = ring_contents ?R" using s(3) by (simp add: inbox_def)
  have z: "sz = 0 \<longleftrightarrow> ring_contents ?R = []" using sz(2) by (metis length_0_conv unat_eq_0)
  show ?thesis
  proof (cases "sz = 0")
    case True
    then have "unix_socket_recv c (Some b) d len 0 O_NONBLOCK n = Some (Ret SKT_NONBLOCK, d, None, n)"
      using s sz idem nb
      by (simp add: sb unix_socket_recv_def recv_loop_def sock_acquire_def sock_release_def upd_sock_def)
    then show ?thesis using l True z ib by simp
  next
    case False
    obtain R' where w: "ringbuffer_read ?R d len = Some (R', overwrite d 0 (take (unat len) (ring_contents ?R)),
          min (unat len) (length (ring_contents ?R)))" "ring_inv R'" "ring_contents R' = drop (unat len) (ring_contents ?R)"
      using ringbuffer_read_ok [OF s(7), of len d] len by auto
    let ?n = "n\<lparr>skts := (skts n)(b \<mapsto> sb\<lparr>sk_ring := R'\<rparr>)\<rparr>" and ?k = "min (unat len) (length (ring_contents ?R))"
    have "unix_socket_recv c (Some b) d len 0 O_NONBLOCK n =
        Some (Ret SKT_OK, overwrite d 0 (take (unat len) (ring_contents ?R)), Some ?k, ?n)"
      using False s sz w(1) quiet_signal [OF s(8)]
      by (simp add: sb unix_socket_recv_def recv_loop_def sock_acquire_def sock_release_def upd_sock_def sock_signal_def)
    moreover have "take ?k (overwrite d 0 (take (unat len) (ring_contents ?R))) = take (unat len) (ring_contents ?R)"
      by (simp add: overwrite_def min.commute flip: take_take)
    ultimately show ?thesis using linked_ring [OF l s(3) w(2)] w(3) ib False z by simp
  qed
qed

section \<open>Properties\<close>

datatype stream_op = Send "u8 list" | Recv nat

text \<open>
  Any mix of calls on the two ends, none of them blocking: the bytes the sends have taken and the
  bytes the receives have delivered, each in order.
\<close>

fun stream :: "nat \<Rightarrow> nat \<Rightarrow> nat \<Rightarrow> stream_op list \<Rightarrow> net \<Rightarrow> (u8 list \<times> u8 list \<times> net) option" where
  "stream c a b [] n = Some ([], [], n)"
| "stream c a b (Send d # ops) n = do {
     (r, k, n) \<leftarrow> unix_socket_send c (Some a) d (of_nat (length d)) 0 O_NONBLOCK n;
     (snt, rcv, n) \<leftarrow> stream c a b ops n;
     Some (take (case k of None \<Rightarrow> 0 | Some k \<Rightarrow> k) d @ snt, rcv, n) }"
| "stream c a b (Recv m # ops) n = do {
     (r, d, k, n) \<leftarrow> unix_socket_recv c (Some b) (replicate m 0) (of_nat m) 0 O_NONBLOCK n;
     (snt, rcv, n) \<leftarrow> stream c a b ops n;
     Some (snt, take (case k of None \<Rightarrow> 0 | Some k \<Rightarrow> k) d @ rcv, n) }"

fun op_len :: "stream_op \<Rightarrow> nat" where
  "op_len (Send d) = length d"
| "op_len (Recv m) = m"

text \<open>
  C14: a unix socket is a reliable stream. On a connected pair any sequence of non-blocking sends
  on one end and receives on the other returns, and what has been received, followed by what is
  still in the ring of the receiver, is exactly what was there before followed by the bytes the
  sends have reported as taken: nothing is lost, duplicated or reordered.
\<close>

theorem socket_stream:
  assumes "linked c a b n" and "\<forall>x\<in>set ops. op_len x < 2 ^ 64"
  shows "\<exists>snt rcv n'. stream c a b ops n = Some (snt, rcv, n') \<and> linked c a b n' \<and>
    inbox n b @ snt = rcv @ inbox n' b"
  using assms
proof (induction ops arbitrary: n)
  case Nil
  then show ?case by simp
next
  case (Cons x ops)
  show ?case
  proof (cases x)
    case (Send d)
    have len: "unat (of_nat (length d) :: u64) = length d" using Cons.prems(2) Send by (simp add: unat_of_nat_small)
    obtain r k n1 where s: "unix_socket_send c (Some a) d (of_nat (length d)) 0 O_NONBLOCK n = Some (r, k, n1)" "linked c a b n1"
        "inbox n1 b = inbox n b @ take (case k of None \<Rightarrow> 0 | Some k \<Rightarrow> k) d"
      using send_ok [OF Cons.prems(1), of "of_nat (length d)" d] len by auto
    obtain snt rcv n' where i: "stream c a b ops n1 = Some (snt, rcv, n')" "linked c a b n'" "inbox n1 b @ snt = rcv @ inbox n' b"
      using Cons.IH [OF s(2)] Cons.prems(2) by auto
    show ?thesis using Send s i by simp
  next
    case (Recv m)
    have len: "unat (of_nat m :: u64) = length (replicate m (0 :: u8))" using Cons.prems(2) Recv by (simp add: unat_of_nat_small)
    obtain r d k n1 where s: "unix_socket_recv c (Some b) (replicate m 0) (of_nat m) 0 O_NONBLOCK n = Some (r, d, k, n1)" "linked c a b n1"
        "inbox n b = take (case k of None \<Rightarrow> 0 | Some k \<Rightarrow> k) d @ inbox n1 b"
      using recv_ok [OF Cons.prems(1) len] by blast
    obtain snt rcv n' where i: "stream c a b ops n1 = Some (snt, rcv, n')" "linked c a b n'" "inbox n1 b @ snt = rcv @ inbox n' b"
      using Cons.IH [OF s(2)] Cons.prems(2) by auto
    show ?thesis using Recv s i by simp
  qed
qed

text \<open>Sockets 1 and 2 with empty rings of 8192 bytes, on the core of \<open>waiting_core\<close>.\<close>

definition demo_sock :: "nat \<Rightarrow> socket" where
  "demo_sock p = \<lparr>sk_lock = 0, sk_domain = AF_UNIX, sk_type = SOCK_STREAM, sk_protocol = 0, sk_state = SOCKET_CONNECTED,
     local_addr = Some (replicate 128 0), peer = Some p, connection_request = 5, connection_accepted = 5, data_received = 6,
     backlog = None, backlog_capacity = 0, backlog_size = 0,
     sk_ring = \<lparr>rb_lock = 0, rb_capacity = 0x2000, read_head = 0, write_head = 0, rb_buff = Some (replicate 0x2000 0)\<rparr>\<rparr>"

definition demo_net :: net where
  "demo_net = \<lparr>skts = [1 \<mapsto> demo_sock 2, 2 \<mapsto> demo_sock 1],
     sk_kernel = waiting_core\<lparr>cores := [0 \<mapsto> (idle_core 0)\<lparr>if_flag := True\<rparr>],
       events := [6 \<mapsto> \<lparr>ev_lock = 0, num_listeners = 0, listeners = replicate 16 None\<rparr>]\<rparr>,
     sk_vfs = demo_vfs, sk_file = Map.empty\<rparr>"

lemma demo_linked: "linked 0 1 2 demo_net"
  by (simp add: linked_def demo_net_def demo_sock_def quiet_def ring_inv_def ring_ok_def)

theorem socket_stream_witness:
  "\<exists>snt rcv n'. stream 0 1 2 [Send [1, 2, 3], Recv 2, Send [4], Recv 5] demo_net = Some (snt, rcv, n') \<and> snt = rcv @ inbox n' 2"
proof -
  have "inbox demo_net 2 = []" by (simp add: inbox_def demo_net_def demo_sock_def ring_contents_def)
  then show ?thesis using socket_stream [OF demo_linked, of "[Send [1, 2, 3], Recv 2, Send [4], Recv 5]"] by auto
qed

lemma remove_loop_last:
  assumes "k < length bl" "bl ! k = x" "unat (sz - 1) = k"
  shows "i + n = Suc k \<Longrightarrow> \<forall>j<k. bl ! j \<noteq> x \<Longrightarrow> remove_loop x sz bl i n = (if n = 0 then Some (SKT_BAD_PARAM, bl) else Some (SKT_OK, bl))"
proof (induction n arbitrary: i)
  case (Suc n)
  show ?case
  proof (cases "i = k")
    case True
    then show ?thesis using assms by (simp add: shift_down_def)
  next
    case False
    then have i: "i < k" "n \<noteq> 0" using Suc.prems(1) by auto
    then show ?thesis using Suc.IH [of "Suc i"] Suc.prems assms(1) by simp
  qed
qed simp

text \<open>
  C39: a connection nobody is waiting for. When the socket a client connects to listens but no thread
  is inside \<open>unix_socket_accept\<close> at that moment, \<open>unix_socket_connect\<close> fails with \<open>SKT_BAD_EVENT\<close>,
  although the backlog has room; it then takes its entry out of the backlog again but leaves the
  size of the backlog increased, so that the entry stays: a later \<open>unix_socket_accept\<close> will connect to
  a client whose call has failed.
\<close>

theorem connect_unheard:
  assumes addr: "sa_family addr = Some AF_UNIX" "cstring (drop 4 addr) 0 = Some p" "length p < 512" "unat addrlen \<le> 112"
    and s: "skts n s = Some sk" "sk_state sk = SOCKET_CREATED" "s \<noteq> pr"
    and vfs: "vfs_wf (sk_vfs n)" "vfs_lock (sk_vfs n) = 0" "proc_get_vnode_base cwd (drop 4 addr) (sk_vfs n) = Some base"
      "nodes (sk_vfs n) base \<noteq> None" "resolve (kernel_ops m w devs) (sk_vfs n) base p = Some (Inr a)"
      "nodes (sk_vfs n) a = Some nd" "S_ISSOCK (st_mode (v_stat nd))" "sk_file n a = Some pr"
    and pr: "skts n pr = Some psk" "sk_state psk = SOCKET_LISTENING" "sk_lock psk = 0" "backlog psk = Some bl"
      "length bl = unat (backlog_capacity psk)" "backlog_size psk < backlog_capacity psk"
      "Some s \<notin> set (take (unat (backlog_size psk)) bl)" "quiet (sk_kernel n) c (connection_request psk)"
  shows "\<exists>n' psk' bl'. unix_socket_connect (kernel_ops m w devs) c cwd s addr addrlen n = Some (Ret SKT_BAD_EVENT, a, n') \<and>
    skts n' pr = Some psk' \<and> sk_lock psk' = 0 \<and> backlog_size psk' = backlog_size psk + 1 \<and> backlog psk' = Some bl' \<and>
    bl' ! unat (backlog_size psk) = Some s"
proof -
  let ?E = "kernel_ops m w devs" and ?k = "unat (backlog_size psk)"
  define v' where "v' = (sk_vfs n)\<lparr>nodes := (nodes (sk_vfs n))(a \<mapsto> nd\<lparr>v_ref_count := v_ref_count nd + 1\<rparr>)\<rparr>"
  have op: "vfs_open ?E base (drop 4 addr) (sk_vfs n) = Some (VFS_SUCCESS, Some a, v')"
    using kfs.vfs_open_eq [OF vfs(1,2,4) addr(2,3) vfs(5,6)] by (simp add: v'_def)
  have k: "?k < length bl" using pr(5,6) by (simp add: word_less_nat_alt)
  let ?bl = "bl[?k := Some s]"
  have nth: "\<forall>j<?k. ?bl ! j \<noteq> Some s" using pr(7) k by (auto simp: in_set_conv_nth)
  have "unat (backlog_capacity psk) < 2 ^ 64" using unsigned_less [of "backlog_capacity psk"] by simp
  then have "?k + 1 < 2 ^ 64" using k pr(5) by simp
  then have sz: "unat (backlog_size psk + 1) = Suc ?k" "backlog_size psk + 1 \<noteq> 0"
    using unat_add_small [of "backlog_size psk" 1] by (auto simp flip: unat_eq_0)
  have rm: "remove_loop (Some s) (backlog_size psk + 1) ?bl 0 (Suc ?k) = Some (SKT_OK, ?bl)"
    using remove_loop_last [of ?k ?bl "Some s" "backlog_size psk + 1" 0 "Suc ?k"] k nth by simp
  define psk' where "psk' = psk\<lparr>backlog := Some ?bl, backlog_size := backlog_size psk + 1\<rparr>"
  define n' where "n' = n\<lparr>sk_vfs := v', skts := (skts n)(pr \<mapsto> psk')\<rparr>"
  have cp: "backlog_size psk \<noteq> backlog_capacity psk" using pr(6) by auto
  have lk: "psk\<lparr>sk_lock := 1, backlog := b, backlog_size := z, sk_lock := 0\<rparr> = psk\<lparr>backlog := b, backlog_size := z\<rparr>"
      "psk\<lparr>backlog := b, backlog_size := z, sk_lock := 0\<rparr> = psk\<lparr>backlog := b, backlog_size := z\<rparr>"
      "psk\<lparr>backlog_size := z, backlog := b, sk_lock := 0\<rparr> = psk\<lparr>backlog := b, backlog_size := z\<rparr>" for b z
    using pr(3) by (cases psk, simp)+
  have "unix_socket_connect ?E c cwd s addr addrlen n = Some (Ret SKT_BAD_EVENT, a, n')"
    using addr(1,4) s vfs(3,7,8) op pr(1-4) k cp rm sz quiet_signal [OF pr(8)]
    by (simp add: unix_socket_connect_def sizeof_sockaddr_un_def VFS_SUCCESS_def v'_def sock_acquire_def upd_sock_def
        socket_add_to_peer_backlog_def sock_signal_def EVENT_NO_LISTENERS_def socket_backlog_remove_def sock_release_def
        SKT_OK_def lk n'_def psk'_def del: remove_loop.simps)
  then show ?thesis using k pr(3) by (intro exI [of _ n'] exI [of _ psk'] exI [of _ ?bl]) (simp add: n'_def psk'_def)
qed

text \<open>Socket 2 listens at \<open>/tmp/a\<close>; socket 1 is new.\<close>

definition listen_vfs :: vfs where
  "listen_vfs = demo_vfs\<lparr>nodes := (nodes demo_vfs)(3 \<mapsto> demo_node VSKT 2 ''a'' TMPFS_OPS [])\<rparr>"

definition listen_net :: net where
  "listen_net = demo_net\<lparr>skts := [1 \<mapsto> (demo_sock 2)\<lparr>sk_state := SOCKET_CREATED, peer := None\<rparr>,
       2 \<mapsto> (demo_sock 1)\<lparr>sk_state := SOCKET_LISTENING, peer := None, connection_request := 6, backlog := Some [None, None],
         backlog_capacity := 2\<rparr>], sk_vfs := listen_vfs, sk_file := [3 \<mapsto> 2]\<rparr>"

lemma listen_vfs_ok: "vfs_wf listen_vfs" "vfs_lock listen_vfs = 0" "resolve E listen_vfs 1 (bytes ''/tmp/a'') = Some (Inr 3)"
proof -
  have s: "\<not> S_ISDIR S_IFSOCK" by (simp add: S_ISDIR_def S_IFMT_def S_IFDIR_def S_IFSOCK_def)
  have n: "name_of listen_vfs x = name_of demo_vfs x" "is_dir listen_vfs x = is_dir demo_vfs x" "kids listen_vfs x = kids demo_vfs x" for x
    using demo_facts(3,6,9) s
    by (auto simp: name_of_def is_dir_def kids_def listen_vfs_def demo_vfs_def demo_node_def cstring_def)
  have "node_ok listen_vfs a nd" if "nodes listen_vfs a = Some nd" for a nd
  proof (cases "a = 3")
    case True
    then show ?thesis using n demo_facts(3,6) by (simp add: node_ok_def VNODE_NAME_MAX_def)
  next
    case False
    then have "node_ok demo_vfs a nd" using that wf_node [OF demo_wf(1)] by (simp add: listen_vfs_def)
    moreover have "dom (nodes listen_vfs) = dom (nodes demo_vfs)" by (auto simp: listen_vfs_def demo_vfs_def)
    ultimately show ?thesis using n by (simp add: node_ok_def)
  qed
  then show "vfs_wf listen_vfs" using demo_wf(1) n by (auto simp: vfs_wf_def) (auto simp: listen_vfs_def)
  show "vfs_lock listen_vfs = 0" using demo_wf(2) by (simp add: listen_vfs_def)
  have t: "tokens {47} (bytes ''/tmp/a'') = [bytes ''tmp'', bytes ''a'']" by (simp add: tokens.simps)
  have "v_root listen_vfs = 1" by (simp add: listen_vfs_def demo_vfs_def)
  then show "resolve E listen_vfs 1 (bytes ''/tmp/a'') = Some (Inr 3)"
    unfolding resolve_def t using demo_facts n by (simp add: Vfs.child_def)
qed

theorem connect_unheard_witness:
  "\<exists>n'. unix_socket_connect (kernel_ops demo_mem (\<lambda>_ _ _ _ _. None) (\<lambda>_. None)) 0 1 1
      ([1, 0, 0, 0] @ bytes ''/tmp/a'' @ 0 # replicate 101 0) 112 listen_net = Some (Ret SKT_BAD_EVENT, 3, n') \<and>
    (\<exists>psk'. skts n' 2 = Some psk' \<and> backlog_size psk' = 1)"
proof -
  let ?addr = "[1, 0, 0, 0] @ bytes ''/tmp/a'' @ 0 # replicate 101 0 :: cbuf"
  let ?psk = "(demo_sock 1)\<lparr>sk_state := SOCKET_LISTENING, peer := None, connection_request := 6, backlog := Some [None, None], backlog_capacity := 2\<rparr>"
  have a: "sa_family ?addr = Some AF_UNIX" "cstring (drop 4 ?addr) 0 = Some (bytes ''/tmp/a'')" "length (bytes ''/tmp/a'') < 512"
    by (simp_all add: sa_family_def AF_UNIX_def cstring_def)
  have s: "skts listen_net 1 = Some ((demo_sock 2)\<lparr>sk_state := SOCKET_CREATED, peer := None\<rparr>)" "skts listen_net 2 = Some ?psk"
      "sk_vfs listen_net = listen_vfs" "sk_file listen_net 3 = Some 2" "quiet (sk_kernel listen_net) 0 (connection_request ?psk)"
    by (simp_all add: listen_net_def demo_net_def quiet_def)
  have b: "proc_get_vnode_base 1 (drop 4 ?addr) listen_vfs = Some 1" "nodes listen_vfs 1 \<noteq> None"
      "nodes listen_vfs 3 = Some (demo_node VSKT 2 ''a'' TMPFS_OPS [])" "S_ISSOCK (st_mode (v_stat (demo_node VSKT 2 ''a'' TMPFS_OPS [])))"
    by (simp_all add: proc_get_vnode_base_def vfs_get_root_def listen_vfs_def demo_vfs_def demo_node_def S_ISSOCK_def S_IFSOCK_def S_IFMT_def)
  have "\<exists>n' psk' bl'. unix_socket_connect (kernel_ops demo_mem (\<lambda>_ _ _ _ _. None) (\<lambda>_. None)) 0 1 1 ?addr 112 listen_net =
      Some (Ret SKT_BAD_EVENT, 3, n') \<and> skts n' 2 = Some psk' \<and> sk_lock psk' = 0 \<and> backlog_size psk' = backlog_size ?psk + 1 \<and>
      backlog psk' = Some bl' \<and> bl' ! unat (backlog_size ?psk) = Some 1"
    by (rule connect_unheard [OF a _ s(1) _ _ _ _ _ _ _ _ _ s(4,2), unfolded s(3), OF _ _ _ listen_vfs_ok(1,2) b(1,2) listen_vfs_ok(3) b(3,4)])
      (use s(5) in \<open>simp_all add: demo_sock_def\<close>, simp)
  then show ?thesis by (auto simp: demo_sock_def)
qed

end
