(* ===== verification/Memory.thy ===== *)
theory Memory
  imports Prelude
begin

text \<open>
  Byte-addressed memory for the components whose structures overlay raw pages (the slab allocator
  and the program loader): loads and stores of little-endian integers, fills and copies, and the
  frame lemmas that say which bytes an access depends on and changes. Regions are described by
  offsets from a base address, \<open>span p lo hi\<close>, and offsets are taken modulo \<open>2 ^ 64\<close> as pointer
  arithmetic does.
\<close>

section \<open>Definitions\<close>

type_synonym memory = "u64 \<Rightarrow> u8"

fun le_val :: "u8 list \<Rightarrow> nat" where
  "le_val [] = 0"
| "le_val (b # bs) = unat b + 256 * le_val bs"

fun le_bytes :: "nat \<Rightarrow> nat \<Rightarrow> u8 list" where
  "le_bytes 0 v = []"
| "le_bytes (Suc n) v = of_nat (v mod 256) # le_bytes n (v div 256)"

definition read_bytes :: "memory \<Rightarrow> u64 \<Rightarrow> nat \<Rightarrow> u8 list" where
  "read_bytes m a n = map (\<lambda>i. m (a + of_nat i)) [0..<n]"

definition write_bytes :: "memory \<Rightarrow> u64 \<Rightarrow> u8 list \<Rightarrow> memory" where
  "write_bytes m a bs = (\<lambda>x. if unat (x - a) < length bs then bs ! unat (x - a) else m x)"

definition ld64 :: "memory \<Rightarrow> u64 \<Rightarrow> u64" where
  "ld64 m a = of_nat (le_val (read_bytes m a 8))"

definition ld16 :: "memory \<Rightarrow> u64 \<Rightarrow> u16" where
  "ld16 m a = of_nat (le_val (read_bytes m a 2))"

definition st64 :: "memory \<Rightarrow> u64 \<Rightarrow> u64 \<Rightarrow> memory" where
  "st64 m a v = write_bytes m a (le_bytes 8 (unat v))"

definition st16 :: "memory \<Rightarrow> u64 \<Rightarrow> u16 \<Rightarrow> memory" where
  "st16 m a v = write_bytes m a (le_bytes 2 (unat v))"

text \<open>\<open>__memset\<close> and \<open>__memcpy\<close> on raw memory.\<close>

definition fill_bytes :: "memory \<Rightarrow> u64 \<Rightarrow> u8 \<Rightarrow> nat \<Rightarrow> memory" where
  "fill_bytes m a v n = (\<lambda>x. if unat (x - a) < n then v else m x)"

definition copy_bytes :: "memory \<Rightarrow> u64 \<Rightarrow> u64 \<Rightarrow> nat \<Rightarrow> memory" where
  "copy_bytes m dst src n = fold (\<lambda>i m. m(dst + of_nat i := m (src + of_nat i))) [0..<n] m"

text \<open>The bytes from offset \<open>lo\<close> up to offset \<open>hi\<close> of the base \<open>p\<close>.\<close>

definition span :: "u64 \<Rightarrow> nat \<Rightarrow> nat \<Rightarrow> u64 set" where
  "span p lo hi = {x. lo \<le> unat (x - p) \<and> unat (x - p) < hi}"

section \<open>Loads and stores\<close>

lemma le_bytes_length [simp]: "length (le_bytes n v) = n"
  by (induction n arbitrary: v) auto

lemma le_val_le_bytes: "le_val (le_bytes n v) = v mod 256 ^ n"
proof (induction n arbitrary: v)
  case 0
  then show ?case by simp
next
  case (Suc n)
  have "unat (of_nat (v mod 256) :: u8) = v mod 256" by (simp add: unat_of_nat take_bit_eq_mod)
  moreover have "v mod 256 ^ Suc n = v mod 256 + 256 * (v div 256 mod 256 ^ n)"
    using mod_mult2_eq [of v 256 "256 ^ n"] by simp
  ultimately show ?case using Suc by simp
qed

lemma read_write_same [simp]:
  assumes "length bs = n" "n \<le> 2 ^ 32"
  shows "read_bytes (write_bytes m a bs) a n = bs"
proof (rule nth_equalityI)
  fix i assume "i < length (read_bytes (write_bytes m a bs) a n)"
  then have i: "i < n" by (simp add: read_bytes_def)
  then have "unat (of_nat i :: u64) = i" using assms(2) by (simp add: unat_of_nat_small)
  with i assms(1) show "read_bytes (write_bytes m a bs) a n ! i = bs ! i"
    by (simp add: read_bytes_def write_bytes_def)
qed (use assms in \<open>simp add: read_bytes_def\<close>)

lemma ld64_st64 [simp]: "ld64 (st64 m a v) a = v"
proof -
  have "unat v mod 256 ^ 8 = unat v" using unat_bound [of v] by simp
  then show ?thesis by (simp add: ld64_def st64_def le_val_le_bytes del: le_bytes.simps)
qed

lemma ld16_st16 [simp]: "ld16 (st16 m a v) a = v"
proof -
  have "unat v mod 256 ^ 2 = unat v" using unat_bound [of v] by simp
  then show ?thesis by (simp add: ld16_def st16_def le_val_le_bytes del: le_bytes.simps)
qed

section \<open>What an access depends on\<close>

lemma read_bytes_cong:
  assumes "\<And>x. x \<in> span a 0 n \<Longrightarrow> m x = m' x" "n \<le> 2 ^ 32"
  shows "read_bytes m a n = read_bytes m' a n"
proof -
  have "a + of_nat i \<in> span a 0 n" if "i < n" for i
    using that assms(2) by (simp add: span_def unat_of_nat_small)
  then show ?thesis using assms(1) by (simp add: read_bytes_def)
qed

lemma ld64_cong: "(\<And>x. x \<in> span a 0 8 \<Longrightarrow> m x = m' x) \<Longrightarrow> ld64 m a = ld64 m' a"
  unfolding ld64_def by (subst read_bytes_cong [of a 8 m m']) simp_all

lemma ld16_cong: "(\<And>x. x \<in> span a 0 2 \<Longrightarrow> m x = m' x) \<Longrightarrow> ld16 m a = ld16 m' a"
  unfolding ld16_def by (subst read_bytes_cong [of a 2 m m']) simp_all

lemma st64_out: "x \<notin> span a 0 8 \<Longrightarrow> st64 m a v x = m x"
  by (simp add: st64_def write_bytes_def span_def)

lemma st16_out: "x \<notin> span a 0 2 \<Longrightarrow> st16 m a v x = m x"
  by (simp add: st16_def write_bytes_def span_def)

lemma fill_bytes_out: "x \<notin> span a 0 n \<Longrightarrow> fill_bytes m a v n x = m x"
  by (simp add: fill_bytes_def span_def)

lemma fill_bytes_in: "x \<in> span a 0 n \<Longrightarrow> fill_bytes m a v n x = v"
  by (simp add: fill_bytes_def span_def)

text \<open>A region at an offset of the base, seen from the base.\<close>

lemma span_shift64:
  assumes "unat off + hi \<le> 2 ^ 64"
  shows "span (p + off) lo hi = span p (unat off + lo) (unat off + hi)"
proof -
  have "lo \<le> unat (x - (p + off)) \<and> unat (x - (p + off)) < hi \<longleftrightarrow>
      unat off + lo \<le> unat (x - p) \<and> unat (x - p) < unat off + hi" for x
  proof
    assume l: "lo \<le> unat (x - (p + off)) \<and> unat (x - (p + off)) < hi"
    have "x - p = (x - (p + off)) + off" by simp
    then have "unat (x - p) = unat (x - (p + off)) + unat off"
      using l assms unat_add_small [of "x - (p + off)" off] by simp
    with l show "unat off + lo \<le> unat (x - p) \<and> unat (x - p) < unat off + hi" by simp
  next
    assume r: "unat off + lo \<le> unat (x - p) \<and> unat (x - p) < unat off + hi"
    then have "off \<le> x - p" by (simp add: word_le_nat_alt)
    then have "unat (x - p - off) = unat (x - p) - unat off" by (rule unat_sub)
    then have "unat (x - (p + off)) = unat (x - p) - unat off" by (simp only: diff_diff_add)
    with r show "lo \<le> unat (x - (p + off)) \<and> unat (x - (p + off)) < hi" by linarith
  qed
  then show ?thesis by (simp add: span_def)
qed

lemma span_shift:
  assumes "unat off + hi \<le> 2 ^ 32"
  shows "span (p + off) lo hi = span p (unat off + lo) (unat off + hi)"
  using assms by (intro span_shift64) simp

lemma span_mono: "lo' \<le> lo \<Longrightarrow> hi \<le> hi' \<Longrightarrow> span p lo hi \<subseteq> span p lo' hi'"
  by (auto simp: span_def)

lemma span_disj: "hi \<le> lo' \<or> hi' \<le> lo \<Longrightarrow> span p lo hi \<inter> span p lo' hi' = {}"
  by (auto simp: span_def)

lemma ld64_st64_other: "span a 0 8 \<inter> span b 0 8 = {} \<Longrightarrow> ld64 (st64 m b v) a = ld64 m a"
  by (rule ld64_cong) (auto intro: st64_out)

section \<open>Copies\<close>

lemma copy_bytes_nth:
  assumes "n < 2 ^ 64" "span dst 0 n \<inter> span src 0 n = {}"
  shows "copy_bytes m dst src n x =
    (if x \<in> span dst 0 n then m (src + of_nat (unat (x - dst))) else m x)"
  using assms
proof (induction n arbitrary: x)
  case 0
  then show ?case by (simp add: copy_bytes_def span_def)
next
  case (Suc n)
  have sub: "span p 0 n \<subseteq> span p 0 (Suc n)" for p by (rule span_mono) simp_all
  have "span dst 0 n \<inter> span src 0 n = {}" using Suc.prems(2) sub [of dst] sub [of src] by blast
  then have IH: "copy_bytes m dst src n y = (if y \<in> span dst 0 n then m (src + of_nat (unat (y - dst))) else m y)" for y
    using Suc.prems(1) by (intro Suc.IH) simp_all
  have n: "unat (of_nat n :: u64) = n" using Suc.prems(1) by (simp add: unat_of_nat_small)
  have "src + of_nat n \<in> span src 0 (Suc n)" using n by (simp add: span_def)
  then have "src + of_nat n \<notin> span dst 0 n" using Suc.prems(2) sub by blast
  then have s: "copy_bytes m dst src (Suc n) x = (if x = dst + of_nat n then m (src + of_nat n) else copy_bytes m dst src n x)"
    by (simp add: IH [of "src + of_nat n", unfolded copy_bytes_def] copy_bytes_def)
  have "x \<in> span dst 0 (Suc n) \<longleftrightarrow> x \<in> span dst 0 n \<or> unat (x - dst) = n" by (auto simp: span_def)
  moreover have "x = dst + of_nat n \<longleftrightarrow> unat (x - dst) = n"
    using n by (metis add_diff_cancel_left' diff_add_cancel add.commute unsigned_word_eqI)
  ultimately show ?case using s IH [of x] n by auto
qed

end
