(* ===== verification/Slab.thy ===== *)
theory Slab
  imports Pmm Memory "HOL-Library.Signed_Division"
begin

text \<open>
  The slab allocator behind \<open>kmalloc\<close>: \<open>src/kernel/memory/slab.c\<close>, \<open>slab.h\<close> and
  \<open>src/kernel/klib/kmalloc.c\<close>. Caches, slab headers and free chunks overlay raw pages, so the state
  holds the bytes of memory; a structure is the address of its page and its fields are loads and
  stores at their offsets (\<open>struct slab\<close> is packed). Accesses through a null pointer are undefined,
  everything else reaches memory as the machine would. Pages come from the physical memory
  manager, whose higher-half offset is the argument \<open>h\<close>.
\<close>

section \<open>Definitions\<close>

definition SLAB_CHUNK_SIZE_VARIENTS :: nat where "SLAB_CHUNK_SIZE_VARIENTS = 16"
definition SLAB_MAX_CHUNK_SIZE :: u64 where "SLAB_MAX_CHUNK_SIZE = 1024"

definition known_chunks :: "u64 list" where
  "known_chunks = [8, 16, 32, 64, 128, 256, 512, 1024]"

record slabs =
  smem :: memory
  caches :: "u64 list"
  cur_caches :: u64
  max_caches :: u64
  slab_pmm :: pmm

text \<open>Fields of \<open>struct slab\<close>, 36 bytes, and of \<open>struct cache\<close>, by their offsets.\<close>

abbreviation (input) "SLAB_CACHE \<equiv> 0 :: u64"
abbreviation (input) "SLAB_PREV \<equiv> 8 :: u64"
abbreviation (input) "SLAB_NEXT \<equiv> 16 :: u64"
abbreviation (input) "SLAB_USED \<equiv> 24 :: u64"
abbreviation (input) "SLAB_TOTAL \<equiv> 26 :: u64"
abbreviation (input) "SLAB_FREE \<equiv> 28 :: u64"

definition sizeof_slab :: int where "sizeof_slab = 36"

abbreviation (input) "CACHE_EMPTY \<equiv> 0 :: u64"
abbreviation (input) "CACHE_PARTIAL \<equiv> 8 :: u64"
abbreviation (input) "CACHE_FULL \<equiv> 16 :: u64"
abbreviation (input) "CACHE_LOCK \<equiv> 24 :: u64"
abbreviation (input) "CACHE_CHUNK \<equiv> 32 :: u64"

text \<open>\<open>p->field\<close>, read and written; a null \<open>p\<close> faults.\<close>

definition get64 :: "memory \<Rightarrow> u64 \<Rightarrow> u64 \<Rightarrow> u64 option" where
  "get64 m p off = (if p = 0 then None else Some (ld64 m (p + off)))"

definition set64 :: "memory \<Rightarrow> u64 \<Rightarrow> u64 \<Rightarrow> u64 \<Rightarrow> memory option" where
  "set64 m p off v = (if p = 0 then None else Some (st64 m (p + off) v))"

text \<open>The lock of a cache.\<close>

definition cache_acquire :: "u64 \<Rightarrow> memory \<Rightarrow> memory option" where
  "cache_acquire c m = do {
     l \<leftarrow> get64 m c CACHE_LOCK;
     l \<leftarrow> spinlock_acquire l;
     set64 m c CACHE_LOCK l }"

definition cache_release :: "u64 \<Rightarrow> memory \<Rightarrow> memory option" where
  "cache_release c m = do {
     l \<leftarrow> get64 m c CACHE_LOCK;
     set64 m c CACHE_LOCK (spinlock_release l) }"

subsection \<open>Caches\<close>

definition cache_insert :: "u64 \<Rightarrow> u64 \<Rightarrow> slabs \<Rightarrow> slabs option" where
  "cache_insert h chunk_size st =
     (if \<not> (cur_caches st \<noteq> max_caches st \<and> chunk_size \<le> SLAB_MAX_CHUNK_SIZE) then None
      else do {
        (cache, pm) \<leftarrow> palloc h 1 (slab_pmm st);
        if cache = 0 then None
        else do {
          m \<leftarrow> set64 (smem st) cache CACHE_FULL 0;
          m \<leftarrow> set64 m cache CACHE_PARTIAL 0;
          m \<leftarrow> set64 m cache CACHE_EMPTY 0;
          m \<leftarrow> set64 m cache CACHE_CHUNK chunk_size;
          m \<leftarrow> set64 m cache CACHE_LOCK 0;
          cs \<leftarrow> wr (caches st) (unat (cur_caches st)) cache;
          Some (st\<lparr>smem := m, caches := cs, cur_caches := cur_caches st + 1, slab_pmm := pm\<rparr>) } })"

fun cache_index_loop :: "memory \<Rightarrow> u64 list \<Rightarrow> u64 \<Rightarrow> nat \<Rightarrow> nat \<Rightarrow> int option" where
  "cache_index_loop m cs chunk_size i 0 = Some (-1)"
| "cache_index_loop m cs chunk_size i (Suc n) = do {
     c \<leftarrow> rd cs i;
     chunk_contender \<leftarrow> get64 m c CACHE_CHUNK;
     if chunk_size \<le> chunk_contender then Some (int i)
     else cache_index_loop m cs chunk_size (Suc i) n }"

definition get_cache_index :: "u64 \<Rightarrow> slabs \<Rightarrow> int option" where
  "get_cache_index chunk_size st = cache_index_loop (smem st) (caches st) chunk_size 0 (unat (max_caches st))"

subsection \<open>Slabs\<close>

text \<open>The lists are the addresses of the fields that hold their heads.\<close>

definition transfer_slab :: "u64 \<Rightarrow> u64 \<Rightarrow> u64 \<Rightarrow> memory \<Rightarrow> memory option" where
  "transfer_slab slab old_list new_list m = do {
     prv \<leftarrow> get64 m slab SLAB_PREV;
     nxt \<leftarrow> get64 m slab SLAB_NEXT;
     m \<leftarrow> (if prv = 0 \<and> nxt = 0 then Some (st64 m old_list 0)
       else if nxt = 0 then set64 m prv SLAB_NEXT 0
       else if prv = 0 then do {
         m \<leftarrow> set64 m nxt SLAB_PREV 0;
         nxt \<leftarrow> get64 m slab SLAB_NEXT;
         Some (st64 m old_list nxt) }
       else do {
         m \<leftarrow> set64 m prv SLAB_NEXT nxt;
         nxt \<leftarrow> get64 m slab SLAB_NEXT;
         prv \<leftarrow> get64 m slab SLAB_PREV;
         set64 m nxt SLAB_PREV prv });
     m \<leftarrow> set64 m slab SLAB_NEXT (ld64 m new_list);
     let m = st64 m new_list slab;
     set64 m slab SLAB_PREV 0 }"

text \<open>\<open>chunk_size\<close> and what is computed from it are of type \<open>int\<close>.\<close>

definition header_chunks :: "int \<Rightarrow> int" where
  "header_chunks chunk_size =
     (if sizeof_slab smod chunk_size \<noteq> 0 then sizeof_slab sdiv chunk_size + 1 else sizeof_slab sdiv chunk_size)"

text \<open>The free list, from \<open>base\<close> on; the last store ends it behind the last chunk.\<close>

definition link_chunks :: "u64 \<Rightarrow> u64 \<Rightarrow> u16 \<Rightarrow> memory \<Rightarrow> memory" where
  "link_chunks base offset tot m =
     st64 (fold (\<lambda>i m. st64 m (base + 8 * (of_nat i * offset)) (base + 8 * ((of_nat i + 1) * offset))) [0..<unat tot] m)
       (base + 8 * (ucast tot * offset)) 0"

definition slab_spawn :: "u64 \<Rightarrow> u64 \<Rightarrow> slabs \<Rightarrow> slabs option" where
  "slab_spawn h cache st = do {
     cs \<leftarrow> get64 (smem st) cache CACHE_CHUNK;
     let chunk_size = sint (ucast cs :: u32);
     if chunk_size = 0 then None
     else do {
       let total_chunks = 4096 sdiv chunk_size;
       (slab, pm) \<leftarrow> palloc h 1 (slab_pmm st);
       if slab = 0 then None
       else do {
         let m = fill_bytes (smem st) slab 0 (nat sizeof_slab);
         let header_size_chunks = header_chunks chunk_size;
         let tot = (word_of_int (total_chunks - header_size_chunks) :: u16);
         let m = st16 m (slab + SLAB_TOTAL) tot;
         m \<leftarrow> set64 m slab SLAB_CACHE cache;
         empty \<leftarrow> get64 m cache CACHE_EMPTY;
         m \<leftarrow> (if empty \<noteq> 0
           then do {
             m \<leftarrow> set64 m slab SLAB_NEXT empty;
             set64 m empty SLAB_PREV slab }
           else Some m);
         m \<leftarrow> set64 m cache CACHE_EMPTY slab;
         base_addr \<leftarrow> get64 m cache CACHE_EMPTY;
         let base_addr = base_addr + word_of_int (chunk_size * header_size_chunks);
         m \<leftarrow> set64 m slab SLAB_FREE base_addr;
         let offset = word_of_int chunk_size div 8;
         Some (st\<lparr>smem := link_chunks base_addr offset (ld16 m (slab + SLAB_TOTAL)) m, slab_pmm := pm\<rparr>) } } }"

text \<open>The branch of \<open>slab_inner_alloc_chunk\<close> that takes a chunk off a slab.\<close>

definition take_chunk :: "u64 \<Rightarrow> memory \<Rightarrow> (u64 \<times> memory) option" where
  "take_chunk slab m = do {
     let m = st16 m (slab + SLAB_USED) (ld16 m (slab + SLAB_USED) + 1);
     old_free_chunk \<leftarrow> get64 m slab SLAB_FREE;
     v \<leftarrow> get64 m old_free_chunk 0;
     m \<leftarrow> set64 m slab SLAB_FREE v;
     cache \<leftarrow> get64 m slab SLAB_CACHE;
     chunk_size \<leftarrow> get64 m cache CACHE_CHUNK;
     let m = fill_bytes m old_free_chunk 0 (unat chunk_size);
     cache \<leftarrow> get64 m slab SLAB_CACHE;
     m \<leftarrow> (if ld16 m (slab + SLAB_USED) = ld16 m (slab + SLAB_TOTAL)
       then transfer_slab slab (cache + CACHE_PARTIAL) (cache + CACHE_FULL) m
       else if ld16 m (slab + SLAB_USED) = 1
       then transfer_slab slab (cache + CACHE_EMPTY) (cache + CACHE_PARTIAL) m
       else Some m);
     Some (old_free_chunk, m) }"

text \<open>The lists may be cyclic: a search that never ends has the value \<^term>\<open>None\<close>.\<close>

partial_function (option) slab_inner_alloc_chunk :: "u64 \<Rightarrow> memory \<Rightarrow> (u64 \<times> memory) option" where
  "slab_inner_alloc_chunk slab m =
     (if slab = 0 then Some (0, m)
      else if ld16 m (slab + SLAB_USED) \<noteq> ld16 m (slab + SLAB_TOTAL) then take_chunk slab m
      else slab_inner_alloc_chunk (ld64 m (slab + SLAB_NEXT)) m)"

definition slab_alloc_chunk :: "u64 \<Rightarrow> int \<Rightarrow> slabs \<Rightarrow> (u64 \<times> slabs) option" where
  "slab_alloc_chunk h cache_idx st = do {
     cache \<leftarrow> rd (caches st) (nat cache_idx);
     m \<leftarrow> cache_acquire cache (smem st);
     partial \<leftarrow> get64 m cache CACHE_PARTIAL;
     (addr, m) \<leftarrow> slab_inner_alloc_chunk partial m;
     if addr \<noteq> 0 then do { m \<leftarrow> cache_release cache m; Some (addr, st\<lparr>smem := m\<rparr>) }
     else do {
       empty \<leftarrow> get64 m cache CACHE_EMPTY;
       (addr, m) \<leftarrow> slab_inner_alloc_chunk empty m;
       if addr \<noteq> 0 then do { m \<leftarrow> cache_release cache m; Some (addr, st\<lparr>smem := m\<rparr>) }
       else do {
         st \<leftarrow> slab_spawn h cache (st\<lparr>smem := m\<rparr>);
         empty \<leftarrow> get64 (smem st) cache CACHE_EMPTY;
         (addr, m) \<leftarrow> slab_inner_alloc_chunk empty (smem st);
         m \<leftarrow> cache_release cache m;
         Some (addr, st\<lparr>smem := m\<rparr>) } } }"

definition slab_free_chunk :: "u64 \<Rightarrow> memory \<Rightarrow> memory option" where
  "slab_free_chunk addr m = do {
     let slab = addr AND NOT 0xfff;
     cache \<leftarrow> get64 m slab SLAB_CACHE;
     m \<leftarrow> cache_acquire cache m;
     fr \<leftarrow> get64 m slab SLAB_FREE;
     m \<leftarrow> set64 m addr 0 fr;
     m \<leftarrow> set64 m slab SLAB_FREE addr;
     m \<leftarrow> (if Suc (unat (ld16 m (slab + SLAB_USED))) = unat (ld16 m (slab + SLAB_TOTAL))
       then transfer_slab slab (cache + CACHE_FULL) (cache + CACHE_PARTIAL) m
       else if ld16 m (slab + SLAB_USED) = 0
       then transfer_slab slab (cache + CACHE_PARTIAL) (cache + CACHE_EMPTY) m
       else Some m);
     cache_release cache m }"

subsection \<open>The allocator\<close>

definition num_pages :: "u64 \<Rightarrow> u64" where
  "num_pages sz = (if sz mod PAGE_SIZE_BYTES \<noteq> 0 then sz div PAGE_SIZE_BYTES + 1 else sz div PAGE_SIZE_BYTES)"

definition slab_alloc :: "u64 \<Rightarrow> u64 \<Rightarrow> slabs \<Rightarrow> (u64 \<times> slabs) option" where
  "slab_alloc h sz st = do {
     cache_idx \<leftarrow> get_cache_index sz st;
     if cache_idx \<noteq> -1 then slab_alloc_chunk h cache_idx st
     else do {
       (pages, pm) \<leftarrow> palloc h (num_pages sz + 1) (slab_pmm st);
       let st = st\<lparr>slab_pmm := pm\<rparr>;
       if pages = 0 then Some (0, st)
       else Some (pages + PAGE_SIZE_BYTES, st\<lparr>smem := st64 (smem st) pages (num_pages sz)\<rparr>) } }"

definition slab_free :: "u64 \<Rightarrow> u64 \<Rightarrow> slabs \<Rightarrow> slabs option" where
  "slab_free h addr st =
     (if addr = 0 then Some st
      else if addr AND 0xfff = 0
      then do {
        let base = addr - PAGE_SIZE_BYTES;
        pages_allocated \<leftarrow> get64 (smem st) base 0;
        pm \<leftarrow> pfree h base (pages_allocated + 1) (slab_pmm st);
        Some (st\<lparr>slab_pmm := pm\<rparr>) }
      else do {
        m \<leftarrow> slab_free_chunk addr (smem st);
        Some (st\<lparr>smem := m\<rparr>) })"

definition slab_realloc :: "u64 \<Rightarrow> u64 \<Rightarrow> u64 \<Rightarrow> slabs \<Rightarrow> (u64 \<times> slabs) option" where
  "slab_realloc h addr sz st =
     (if addr = 0 then Some (0, st)
      else if addr AND 0xfff = 0
      then do {
        let base = addr - PAGE_SIZE_BYTES;
        pages_allocated \<leftarrow> get64 (smem st) base 0;
        if num_pages sz \<le> pages_allocated then Some (addr, st)
        else do {
          (chunk, st) \<leftarrow> slab_alloc h sz st;
          if chunk = 0 then Some (0, st)
          else do {
            st \<leftarrow> slab_free h addr (st\<lparr>smem := copy_bytes (smem st) chunk addr (unat sz)\<rparr>);
            Some (chunk, st) } } }
      else do {
        let slab = addr AND NOT 0xfff;
        cache \<leftarrow> get64 (smem st) slab SLAB_CACHE;
        chunk_size \<leftarrow> get64 (smem st) cache CACHE_CHUNK;
        if sz > chunk_size
        then do {
          (chunk, st) \<leftarrow> slab_alloc h sz st;
          if chunk = 0 then Some (0, st)
          else do {
            cache \<leftarrow> get64 (smem st) slab SLAB_CACHE;
            chunk_size \<leftarrow> get64 (smem st) cache CACHE_CHUNK;
            m \<leftarrow> slab_free_chunk addr (copy_bytes (smem st) chunk addr (unat chunk_size));
            Some (chunk, st\<lparr>smem := m\<rparr>) } }
        else Some (0, st) })"

definition init_slab :: "u64 \<Rightarrow> slabs \<Rightarrow> slabs option" where
  "init_slab h st =
     for_loop 0 (length known_chunks) (\<lambda>i st. do { c \<leftarrow> rd known_chunks i; cache_insert h c st })
       (st\<lparr>max_caches := of_nat (length known_chunks), cur_caches := 0\<rparr>)"

definition kmalloc :: "u64 \<Rightarrow> u64 \<Rightarrow> slabs \<Rightarrow> (u64 \<times> slabs) option" where
  "kmalloc h sz st = slab_alloc h sz st"

definition krealloc :: "u64 \<Rightarrow> u64 \<Rightarrow> u64 \<Rightarrow> slabs \<Rightarrow> (u64 \<times> slabs) option" where
  "krealloc h addr sz st = slab_realloc h addr sz st"

definition kfree :: "u64 \<Rightarrow> u64 \<Rightarrow> slabs \<Rightarrow> slabs option" where
  "kfree h addr st = slab_free h addr st"

section \<open>Pages\<close>

text \<open>
  The page frames the allocator will be given next: the physical memory manager searches from
  \<open>cached_index\<close>, and \<open>room N\<close> says that the \<open>N\<close> frames from there on are free.
\<close>

definition room :: "nat \<Rightarrow> pmm \<Rightarrow> bool" where
  "room N pm \<longleftrightarrow> unat (cached_index pm) + N < max_frames pm \<and>
     (\<forall>f\<in>{unat (cached_index pm)..<unat (cached_index pm) + N}. f \<notin> used pm)"

abbreviation page :: "u64 \<Rightarrow> nat \<Rightarrow> u64" where
  "page h i \<equiv> frame_ptr h (Some i)"

lemma palloc_room:
  assumes inv: "pmm_inv h pm" and r: "room N pm" and n: "unat n \<le> N"
  shows "\<exists>pm'. palloc h n pm = Some (page h (unat (cached_index pm)), pm') \<and> pmm_inv h pm' \<and>
    used pm' = used pm \<union> {unat (cached_index pm)..<unat (cached_index pm) + unat n} \<and>
    max_frames pm' = max_frames pm \<and> room (N - unat n) pm' \<and>
    unat (cached_index pm') = unat (cached_index pm) + unat n"
proof -
  let ?c = "unat (cached_index pm)"
  have ok: "pmm_ok h pm" "pmm_lock pm = 0" using inv by (simp_all add: pmm_inv_def)
  have b: "max_frames pm \<le> 8 * length (bitmap pm)" "max_frames pm < 2 ^ 52" using ok(1) by (simp_all add: pmm_ok_def)
  have lt: "?c + unat n < max_frames pm" and fr: "\<forall>f\<in>{?c..<?c + unat n}. f \<notin> used pm"
    using r n by (auto simp: room_def)
  have s: "unat (cached_index pm + n) = ?c + unat n" using lt b by (intro unat_add_small) simp
  have free: "run_free (bitmap pm) (unat n) ?c" using fr lt by (auto simp: run_free_def used_def)
  have "?c \<in> set [?c..<max_frames pm - unat n]" using lt by simp
  then have ch: "palloc_choice pm (unat n) = Some ?c"
    using free lt by (simp add: palloc_choice_def first_fit_def upt_conv_Cons)
  obtain pm' where p: "palloc h n pm = Some (page h ?c, pm')" "pmm_inv h pm'" "max_frames pm' = max_frames pm"
      "used pm' = used pm \<union> {?c..<?c + unat n}"
    using palloc_used [OF inv, of n] lt b by (auto simp: ch)
  have nz: "page h ?c \<noteq> 0" using frame_ptr_choice(1) [OF ok(1), of "unat n"] by (simp add: ch)
  have "bitmap_available (bitmap pm) (cached_index pm) n = Some True"
    using bitmap_available_frames [of "cached_index pm" n "bitmap pm"] free lt b by simp
  then have "cached_index pm' = cached_index pm + n"
    using p(1) nz s lt ok(2)
    by (auto simp: palloc_def palloc_internal.simps [of h n "pm\<lparr>pmm_lock := 1\<rparr>"] word_less_nat_alt frame_ptr_def
          split: bind_splits)
  then have c': "unat (cached_index pm') = ?c + unat n" using s by simp
  moreover have "room (N - unat n) pm'"
    using r n c' p(3) p(4) by (auto simp: room_def)
  ultimately show ?thesis using p by blast
qed

lemma span_pages:
  assumes "i + n \<le> 2 ^ 52"
  shows "span (page h i) 0 (4096 * n) = {x. frame_no h x \<in> {i..<i + n}}"
proof (cases "n = 0")
  case True
  then show ?thesis by (simp add: span_def)
next
  case False
  then have i: "unat (of_nat i * PAGE_SIZE_BYTES :: u64) = 4096 * i"
    using assms unat_mult_small [of "of_nat i :: u64" PAGE_SIZE_BYTES] by (simp add: PAGE_SIZE_BYTES_def unat_of_nat_small)
  have "unat (x - page h i) < 4096 * n \<longleftrightarrow> frame_no h x \<in> {i..<i + n}" for x
  proof -
    have d: "x - page h i = x - h - of_nat i * PAGE_SIZE_BYTES" by (simp add: frame_ptr_def)
    show ?thesis
    proof (cases "4096 * i \<le> unat (x - h)")
      case True
      then have "of_nat i * PAGE_SIZE_BYTES \<le> x - h" using i by (simp add: word_le_nat_alt)
      then have "unat (x - page h i) = unat (x - h) - 4096 * i" using i unfolding d by (simp add: unat_sub)
      with True show ?thesis by (auto simp: frame_no_def less_mult_imp_div_less div_less_iff_less_mult)
    next
      case False
      then have no: "frame_no h x < i" by (simp add: frame_no_def div_less_iff_less_mult)
      have "\<not> unat (x - page h i) < 4096 * n"
      proof
        assume l: "unat (x - page h i) < 4096 * n"
        have e: "x - h = (x - page h i) + of_nat i * PAGE_SIZE_BYTES" by (simp add: d)
        have "unat (x - h) = unat (x - page h i) + 4096 * i"
          unfolding e using l i assms unat_add_small [of "x - page h i" "of_nat i * PAGE_SIZE_BYTES"] by simp
        with False show False by simp
      qed
      with no show ?thesis by simp
    qed
  qed
  then show ?thesis by (auto simp: span_def)
qed

lemma span_page: "i < 2 ^ 52 \<Longrightarrow> span (page h i) 0 4096 = {x. frame_no h x = i}"
  using span_pages [of i 1 h] by auto

lemma page_Suc: "page h i + PAGE_SIZE_BYTES = page h (Suc i)"
  by (simp add: frame_ptr_def algebra_simps)

section \<open>Accesses that do not touch one another\<close>

definition apart :: "u64 \<Rightarrow> nat \<Rightarrow> u64 \<Rightarrow> nat \<Rightarrow> bool" where
  "apart a n b k \<longleftrightarrow> span a 0 n \<inter> span b 0 k = {}"

named_theorems slab_mem \<open>loads after stores to other places\<close>

lemma apart_sym: "apart a n b k = apart b k a n"
  by (simp add: apart_def Int_commute)

lemma loads_apart [slab_mem]:
  "apart a 8 b 8 \<Longrightarrow> ld64 (st64 m a v) b = ld64 m b" "apart a 2 b 8 \<Longrightarrow> ld64 (st16 m a w) b = ld64 m b"
  "apart a n b 8 \<Longrightarrow> ld64 (fill_bytes m a z n) b = ld64 m b"
  "apart a 8 b 2 \<Longrightarrow> ld16 (st64 m a v) b = ld16 m b" "apart a 2 b 2 \<Longrightarrow> ld16 (st16 m a w) b = ld16 m b"
  "apart a n b 2 \<Longrightarrow> ld16 (fill_bytes m a z n) b = ld16 m b"
  unfolding apart_def by (blast intro: ld64_cong ld16_cong st64_out st16_out fill_bytes_out)+

lemma apart_same [slab_mem]:
  assumes "unat off + n \<le> 2 ^ 32" "unat off' + k \<le> 2 ^ 32" "unat off + n \<le> unat off' \<or> unat off' + k \<le> unat off"
  shows "apart (p + off) n (p + off') k"
  using span_disj [of "unat off + n" "unat off'" "unat off' + k" "unat off" p] assms
  by (simp add: apart_def span_shift)

lemma apart_base [slab_mem]:
  assumes "n \<le> unat off" "unat off + k \<le> 2 ^ 32"
  shows "apart p n (p + off) k" "apart (p + off) k p n"
  using apart_same [of 0 n off k p] assms by (simp_all add: apart_sym)

lemma apart_pages [slab_mem]:
  assumes "i < 2 ^ 52" "j < 2 ^ 52" "i \<noteq> j" "unat off + n \<le> 4096" "unat off' + k \<le> 4096"
  shows "apart (page h i + off) n (page h j + off') k"
proof -
  have "span (page h i + off) 0 n \<subseteq> {x. frame_no h x = i}" "span (page h j + off') 0 k \<subseteq> {x. frame_no h x = j}"
    using assms span_mono [of 0 "unat off" "unat off + n" 4096 "page h i"] span_mono [of 0 "unat off'" "unat off' + k" 4096 "page h j"]
    by (simp_all add: span_shift span_page [symmetric])
  with assms(3) show ?thesis by (auto simp: apart_def)
qed

lemma apart_pages_base [slab_mem]:
  assumes "i < 2 ^ 52" "j < 2 ^ 52" "i \<noteq> j" "n \<le> 4096" "unat off' + k \<le> 4096"
  shows "apart (page h i) n (page h j + off') k" "apart (page h j + off') k (page h i) n"
  using apart_pages [of i j 0 n off' k h] assms by (simp_all add: apart_sym)

lemma apart_pages_bases [slab_mem]:
  assumes "i < 2 ^ 52" "j < 2 ^ 52" "i \<noteq> j" "n \<le> 4096" "k \<le> 4096"
  shows "apart (page h i) n (page h j) k"
  using apart_pages [of i j 0 n 0 k h] assms by simp

lemma ld_fill [slab_mem]:
  "unat off + 8 \<le> n \<Longrightarrow> n \<le> 2 ^ 32 \<Longrightarrow> ld64 (fill_bytes m p 0 n) (p + off) = 0"
  "unat off + 2 \<le> n \<Longrightarrow> n \<le> 2 ^ 32 \<Longrightarrow> ld16 (fill_bytes m p 0 n) (p + off) = 0"
proof -
  have z: "x \<in> span (p + off) 0 k \<Longrightarrow> fill_bytes m p 0 n x = (\<lambda>_. 0) x" if "unat off + k \<le> n" "n \<le> 2 ^ 32" for x k
    using that span_mono [of 0 "unat off" "unat off + k" n p] by (auto simp: span_shift fill_bytes_in)
  have "ld64 (\<lambda>_. 0) (p + off) = 0" by (simp add: ld64_def read_bytes_def upt_rec)
  then show "ld64 (fill_bytes m p 0 n) (p + off) = 0" if "unat off + 8 \<le> n" "n \<le> 2 ^ 32"
    using ld64_cong [of "p + off" "fill_bytes m p 0 n" "\<lambda>_. 0"] z [OF that] by simp
  have "ld16 (\<lambda>_. 0) (p + off) = 0" by (simp add: ld16_def read_bytes_def upt_rec)
  then show "ld16 (fill_bytes m p 0 n) (p + off) = 0" if "unat off + 2 \<le> n" "n \<le> 2 ^ 32"
    using ld16_cong [of "p + off" "fill_bytes m p 0 n" "\<lambda>_. 0"] z [OF that] by simp
qed

section \<open>The layout of a slab\<close>

text \<open>Where the chunks of a slab start, and how many there are.\<close>

definition first_off :: "nat \<Rightarrow> nat" where
  "first_off cs = (36 + (cs - 1)) div cs * cs"

definition nchunks :: "nat \<Rightarrow> nat" where
  "nchunks cs = 4096 div cs - (36 + (cs - 1)) div cs"

definition csize :: "nat \<Rightarrow> nat" where
  "csize k = unat (known_chunks ! k)"

abbreviation chunk :: "u64 \<Rightarrow> nat \<Rightarrow> nat \<Rightarrow> u64" where
  "chunk p cs j \<equiv> p + of_nat (first_off cs + j * cs)"

lemma less_8_cases: "k < (8 :: nat) \<longleftrightarrow> k = 0 \<or> k = 1 \<or> k = 2 \<or> k = 3 \<or> k = 4 \<or> k = 5 \<or> k = 6 \<or> k = 7"
  by auto

lemma csize_range:
  assumes "k < 8"
  shows "csize k \<in> {8, 16, 32, 64, 128, 256, 512, 1024}" "known_chunks ! k = of_nat (csize k)"
  using assms by (auto simp: less_8_cases csize_def known_chunks_def)

lemma layout:
  assumes "cs \<in> {8, 16, 32, 64, 128, 256, 512, 1024}"
  shows "36 \<le> first_off cs" "first_off cs + nchunks cs * cs = 4096" "3 \<le> nchunks cs" "nchunks cs \<le> 507" "8 \<le> cs" "cs \<le> 1024"
    and "cs div 8 * 8 = cs" "header_chunks (int cs) * int cs = int (first_off cs)" "4096 sdiv int cs - header_chunks (int cs) = int (nchunks cs)"
  using assms by (auto simp: first_off_def nchunks_def header_chunks_def sizeof_slab_def signed_divide_int_def signed_modulo_int_def)

lemma chunk_bound:
  assumes "cs \<in> {8, 16, 32, 64, 128, 256, 512, 1024}" "j < nchunks cs"
  shows "first_off cs + j * cs + cs \<le> 4096"
proof -
  have "Suc j * cs \<le> nchunks cs * cs" using assms(2) by (intro mult_le_mono1) simp
  then show ?thesis using layout(2) [OF assms(1)] by simp
qed

lemma unat_chunk:
  assumes "cs \<in> {8, 16, 32, 64, 128, 256, 512, 1024}" "j \<le> nchunks cs"
  shows "unat (of_nat (first_off cs + j * cs) :: u64) = first_off cs + j * cs" "first_off cs + j * cs \<le> 4096"
proof -
  show le: "first_off cs + j * cs \<le> 4096"
    using layout(2) [OF assms(1)] mult_le_mono1 [OF assms(2), of cs] by linarith
  then show "unat (of_nat (first_off cs + j * cs) :: u64) = first_off cs + j * cs"
    by (intro unat_of_nat_small) simp
qed

lemma link_fold:
  fixes p :: u64 and m :: memory
  assumes cs: "cs \<in> {8, 16, 32, 64, 128, 256, 512, 1024}" and n: "n \<le> nchunks cs"
  defines "step \<equiv> \<lambda>i m. st64 m (chunk p cs i) (chunk p cs (Suc i))"
  shows "(\<forall>x. x \<notin> span p (first_off cs) 4096 \<longrightarrow> fold step [0..<n] m x = m x) \<and>
    (\<forall>j<n. ld64 (fold step [0..<n] m) (chunk p cs j) = chunk p cs (Suc j))"
  using n
proof (induction n)
  case 0
  then show ?case by simp
next
  case (Suc n)
  let ?m = "fold step [0..<n] m"
  have f: "fold step [0..<Suc n] m = st64 ?m (chunk p cs n) (chunk p cs (Suc n))" by (simp add: step_def)
  have u: "unat (of_nat (first_off cs + j * cs) :: u64) = first_off cs + j * cs" if "j \<le> n" for j
    using unat_chunk(1) [OF cs, of j] that Suc.prems by simp
  have b: "first_off cs + n * cs + cs \<le> 4096" "8 \<le> cs" using chunk_bound [OF cs, of n] layout(5) [OF cs] Suc.prems by simp_all
  have "span (chunk p cs n) 0 8 \<subseteq> span p (first_off cs) 4096"
    using b u [of n] by (simp add: span_shift span_mono)
  then have "fold step [0..<Suc n] m x = m x" if "x \<notin> span p (first_off cs) 4096" for x
    using Suc that unfolding f by (metis Suc_leD st64_out subsetD)
  moreover have "ld64 (fold step [0..<Suc n] m) (chunk p cs j) = chunk p cs (Suc j)" if "j < Suc n" for j
  proof (cases "j = n")
    case True
    then show ?thesis unfolding f by (simp only: ld64_st64)
  next
    case False
    then have j: "Suc j \<le> n" "j < n" using that by simp_all
    have "j * cs + cs \<le> n * cs" using mult_le_mono1 [OF j(1), of cs] by simp
    then have "apart (chunk p cs n) 8 (chunk p cs j) 8"
      using u [of j] u [of n] j b by (intro apart_same) simp_all
    then show ?thesis unfolding f using Suc j by (simp only: loads_apart Suc_leD)
  qed
  ultimately show ?case by blast
qed

lemma link_chunks_list:
  fixes p :: u64 and m :: memory
  assumes cs: "cs \<in> {8, 16, 32, 64, 128, 256, 512, 1024}"
  defines "m' \<equiv> link_chunks (chunk p cs 0) (of_nat cs div 8) (of_nat (nchunks cs)) m"
  shows "\<forall>x. x \<notin> span p (first_off cs) 4104 \<longrightarrow> m' x = m x"
    and "j < nchunks cs \<Longrightarrow> ld64 m' (chunk p cs j) = chunk p cs (Suc j)"
proof -
  have d: "(of_nat cs :: u64) div 8 = of_nat (cs div 8)" using cs by auto
  have c8: "(8 :: u64) * of_nat (cs div 8) = of_nat cs" using layout(7) [OF cs] by (metis mult.commute of_nat_mult of_nat_numeral)
  have mul: "8 * (of_nat i * of_nat (cs div 8)) = (of_nat (i * cs) :: u64)" for i
    unfolding of_nat_mult c8 [symmetric] by (simp add: algebra_simps)
  have mulS: "8 * ((of_nat i + 1) * of_nat (cs div 8)) = (of_nat (Suc i * cs) :: u64)" for i
    using mul [of "Suc i"] by (simp only: of_nat_Suc add.commute)
  have q: "chunk p cs 0 + of_nat (i * cs) = chunk p cs i" for i by (simp add: algebra_simps)
  have n: "unat (of_nat (nchunks cs) :: u16) = nchunks cs" "(ucast (of_nat (nchunks cs) :: u16) :: u64) = of_nat (nchunks cs)"
    using layout(4) [OF cs] by (simp_all add: unsigned_of_nat take_bit_nat_eq_self_iff take_bit_eq_mod)
  let ?f = "fold (\<lambda>i m. st64 m (chunk p cs i) (chunk p cs (Suc i))) [0..<nchunks cs] m"
  have m': "m' = st64 ?f (chunk p cs (nchunks cs)) 0"
    unfolding m'_def link_chunks_def d n mul mulS q ..
  have e: "chunk p cs (nchunks cs) = p + 4096" using layout(2) [OF cs] by simp
  note lf = link_fold [OF cs order_refl, of p m]
  have "span (p + 4096) 0 8 \<subseteq> span p (first_off cs) 4104"
    using layout(2) [OF cs] by (simp add: span_shift span_mono)
  then have "m' x = ?f x" if "x \<notin> span p (first_off cs) 4104" for x
    unfolding m' e using that by (intro st64_out) blast
  then show "\<forall>x. x \<notin> span p (first_off cs) 4104 \<longrightarrow> m' x = m x"
    using lf span_mono [of "first_off cs" "first_off cs" 4096 4104 p] by auto
  show "ld64 m' (chunk p cs j) = chunk p cs (Suc j)" if j: "j < nchunks cs"
  proof -
    have b: "first_off cs + j * cs + 8 \<le> 4096" using chunk_bound [OF cs j] layout(5) [OF cs] by simp
    have "unat (of_nat (first_off cs + j * cs) :: u64) = first_off cs + j * cs" using unat_chunk(1) [OF cs, of j] j by simp
    then have "apart (p + 4096) 8 (chunk p cs j) 8" using b by (intro apart_same) simp_all
    then show ?thesis unfolding m' e using lf j by (simp only: loads_apart)
  qed
qed

section \<open>Taking a chunk\<close>

text \<open>
  A slab in which the first \<open>u\<close> chunks are taken and the free list runs through the others in
  order, alone in its list; and the fields of a cache.
\<close>

definition slab_ok :: "memory \<Rightarrow> u64 \<Rightarrow> u64 \<Rightarrow> nat \<Rightarrow> nat \<Rightarrow> bool" where
  "slab_ok m p c cs u \<longleftrightarrow> ld64 m p = c \<and> ld64 m (p + SLAB_PREV) = 0 \<and> ld64 m (p + SLAB_NEXT) = 0 \<and>
     ld16 m (p + SLAB_USED) = of_nat u \<and> ld16 m (p + SLAB_TOTAL) = of_nat (nchunks cs) \<and>
     ld64 m (p + SLAB_FREE) = chunk p cs u \<and>
     (\<forall>j. u \<le> j \<and> j < nchunks cs \<longrightarrow> ld64 m (chunk p cs j) = chunk p cs (Suc j))"

definition cache_ok :: "memory \<Rightarrow> u64 \<Rightarrow> nat \<Rightarrow> u64 \<Rightarrow> u64 \<Rightarrow> u64 \<Rightarrow> bool" where
  "cache_ok m c cs l e q \<longleftrightarrow> ld64 m (c + CACHE_CHUNK) = of_nat cs \<and> ld64 m (c + CACHE_LOCK) = l \<and>
     ld64 m c = e \<and> ld64 m (c + CACHE_PARTIAL) = q"

text \<open>The bytes of a slab that belong to the allocator.\<close>

definition slab_area :: "u64 \<Rightarrow> nat \<Rightarrow> nat \<Rightarrow> u64 set" where
  "slab_area p cs u = span p 0 (first_off cs) \<union> span p (first_off cs + u * cs) 4096"

text \<open>The memory after a chunk was taken off the free list and cleared.\<close>

definition taken :: "u64 \<Rightarrow> nat \<Rightarrow> nat \<Rightarrow> memory \<Rightarrow> memory" where
  "taken p cs u m = fill_bytes (st64 (st16 m (p + SLAB_USED) (of_nat (Suc u))) (p + SLAB_FREE) (chunk p cs (Suc u)))
     (chunk p cs u) 0 cs"

lemma taken_out:
  assumes cs: "cs \<in> {8, 16, 32, 64, 128, 256, 512, 1024}" and u: "u < nchunks cs"
    and x: "x \<notin> span p 0 (first_off cs)" "x \<notin> span (chunk p cs u) 0 cs"
  shows "taken p cs u m x = m x"
proof -
  have "span (p + SLAB_USED) 0 2 \<subseteq> span p 0 (first_off cs)" "span (p + SLAB_FREE) 0 8 \<subseteq> span p 0 (first_off cs)"
    using layout(1) [OF cs] by (simp_all add: span_shift span_mono)
  with x have "x \<notin> span (p + SLAB_USED) 0 2" "x \<notin> span (p + SLAB_FREE) 0 8" by blast+
  with x show ?thesis by (simp add: taken_def fill_bytes_out st64_out st16_out)
qed

lemma taken_loads:
  assumes cs: "cs \<in> {8, 16, 32, 64, 128, 256, 512, 1024}" and u: "u < nchunks cs"
  shows "ld64 (taken p cs u m) p = ld64 m p" "ld64 (taken p cs u m) (p + SLAB_PREV) = ld64 m (p + SLAB_PREV)"
    "ld64 (taken p cs u m) (p + SLAB_NEXT) = ld64 m (p + SLAB_NEXT)" "ld16 (taken p cs u m) (p + SLAB_USED) = of_nat (Suc u)"
    "ld16 (taken p cs u m) (p + SLAB_TOTAL) = ld16 m (p + SLAB_TOTAL)" "ld64 (taken p cs u m) (p + SLAB_FREE) = chunk p cs (Suc u)"
    "u < j \<Longrightarrow> j < nchunks cs \<Longrightarrow> ld64 (taken p cs u m) (chunk p cs j) = ld64 m (chunk p cs j)"
proof -
  have o: "unat (of_nat (first_off cs + u * cs) :: u64) = first_off cs + u * cs" "first_off cs + u * cs + cs \<le> 4096" "36 \<le> first_off cs" "8 \<le> cs"
    using unat_chunk(1) [OF cs, of u] chunk_bound [OF cs u] layout(1,5) [OF cs] u by simp_all
  have a: "apart (chunk p cs u) cs (p + off) k" "apart (chunk p cs u) cs p k" if "unat off + k \<le> 36" for off k
    using o that apart_same [of "of_nat (first_off cs + u * cs)" cs off k p]
      apart_same [of "of_nat (first_off cs + u * cs)" cs 0 k p] by simp_all
  note s = taken_def loads_apart a apart_same apart_base
  show "ld64 (taken p cs u m) p = ld64 m p" "ld64 (taken p cs u m) (p + SLAB_PREV) = ld64 m (p + SLAB_PREV)"
    "ld64 (taken p cs u m) (p + SLAB_NEXT) = ld64 m (p + SLAB_NEXT)" "ld16 (taken p cs u m) (p + SLAB_USED) = of_nat (Suc u)"
    "ld16 (taken p cs u m) (p + SLAB_TOTAL) = ld16 m (p + SLAB_TOTAL)" "ld64 (taken p cs u m) (p + SLAB_FREE) = chunk p cs (Suc u)"
    using a [of 0 8] by (simp_all add: s del: of_nat_add of_nat_mult of_nat_Suc)
  assume j: "u < j" "j < nchunks cs"
  have uj: "unat (of_nat (first_off cs + j * cs) :: u64) = first_off cs + j * cs" "first_off cs + j * cs + cs \<le> 4096"
    using unat_chunk(1) [OF cs, of j] chunk_bound [OF cs j(2)] j by simp_all
  have "u * cs + cs \<le> j * cs" using mult_le_mono1 [of "Suc u" j cs] j by simp
  then have "apart (chunk p cs u) cs (chunk p cs j) 8" using o uj by (intro apart_same) (simp_all del: of_nat_add of_nat_mult)
  moreover have "apart (p + SLAB_USED) 2 (chunk p cs j) 8" "apart (p + SLAB_FREE) 8 (chunk p cs j) 8"
    using o uj by (auto intro!: apart_same simp del: of_nat_add of_nat_mult)
  ultimately show "ld64 (taken p cs u m) (chunk p cs j) = ld64 m (chunk p cs j)"
    by (simp only: taken_def loads_apart)
qed

lemma transfer_lone:
  assumes "p \<noteq> 0" "ld64 m (p + SLAB_PREV) = 0" "ld64 m (p + SLAB_NEXT) = 0"
  shows "transfer_slab p ol nl m =
    Some (st64 (st64 (st64 (st64 m ol 0) (p + SLAB_NEXT) (ld64 (st64 m ol 0) nl)) nl p) (p + SLAB_PREV) 0)"
  using assms by (simp add: transfer_slab_def get64_def set64_def)

lemma small_u16: "n \<le> 507 \<Longrightarrow> k \<le> 507 \<Longrightarrow> (of_nat n :: u16) = of_nat k \<longleftrightarrow> n = k"
  by (simp add: word_of_nat_eq_iff take_bit_nat_eq_self_iff take_bit_nat_eq_self)

lemma take_chunk_taken:
  assumes cs: "cs \<in> {8, 16, 32, 64, 128, 256, 512, 1024}" and u: "u < nchunks cs"
    and p: "p = page h i" "c = page h j" "i \<noteq> j" "i < 2 ^ 52" "j < 2 ^ 52" "p \<noteq> 0" "c \<noteq> 0" "chunk p cs u \<noteq> 0"
    and s: "slab_ok m p c cs u" and k: "cache_ok m c cs l e q"
  shows "take_chunk p m = do {
     m \<leftarrow> (if Suc u = nchunks cs then transfer_slab p (c + CACHE_PARTIAL) (c + CACHE_FULL) (taken p cs u m)
       else if u = 0 then transfer_slab p (c + CACHE_EMPTY) (c + CACHE_PARTIAL) (taken p cs u m)
       else Some (taken p cs u m));
     Some (chunk p cs u, m) }"
proof -
  let ?m1 = "st16 m (p + SLAB_USED) (of_nat (Suc u))"
  let ?m2 = "st64 ?m1 (p + SLAB_FREE) (chunk p cs (Suc u))"
  have o: "unat (of_nat (first_off cs + u * cs) :: u64) = first_off cs + u * cs" "first_off cs + u * cs + cs \<le> 4096" "36 \<le> first_off cs" "8 \<le> cs" "cs \<le> 1024"
    using unat_chunk(1) [OF cs, of u] chunk_bound [OF cs u] layout(1,5,6) [OF cs] u by simp_all
  have used: "ld16 m (p + SLAB_USED) + 1 = of_nat (Suc u)" using s by (simp add: slab_ok_def)
  have "apart (p + SLAB_USED) 2 (chunk p cs u) 8"
    using o by (auto intro!: apart_same simp del: of_nat_add of_nat_mult)
  then have fr: "ld64 ?m1 (p + SLAB_FREE) = chunk p cs u" "ld64 ?m1 (chunk p cs u) = chunk p cs (Suc u)"
    using s u by (simp_all add: slab_ok_def loads_apart apart_same del: of_nat_add of_nat_mult)
  have ca: "ld64 ?m2 p = c" "ld64 ?m2 (c + CACHE_CHUNK) = of_nat cs"
    using s k p by (simp_all add: slab_ok_def cache_ok_def loads_apart apart_base apart_pages del: of_nat_add of_nat_mult)
  have sz: "unat (of_nat cs :: u64) = cs" using o by (simp add: unat_of_nat_small)
  have t: "fill_bytes ?m2 (chunk p cs u) 0 cs = taken p cs u m" by (simp only: taken_def)
  note tl = taken_loads [OF cs u, where p = p and m = m]
  have c': "ld64 (taken p cs u m) p = c" using tl(1) s by (simp add: slab_ok_def)
  have cmp: "ld16 (taken p cs u m) (p + SLAB_USED) = ld16 (taken p cs u m) (p + SLAB_TOTAL) \<longleftrightarrow> Suc u = nchunks cs"
      "ld16 (taken p cs u m) (p + SLAB_USED) = 1 \<longleftrightarrow> u = 0"
    using tl(4,5) s u layout(4) [OF cs] small_u16 [of "Suc u" "nchunks cs"] small_u16 [of "Suc u" 1, unfolded of_nat_1]
    by (simp_all add: slab_ok_def del: of_nat_Suc)
  show ?thesis
    unfolding take_chunk_def Let_def used get64_def set64_def
    by (simp only: p(6-8) add_0_right if_False bind.bind_lunit fr ca sz t c' cmp)
qed

lemma in_page:
  assumes "x \<in> span (page h j + off) 0 n" "unat off + n \<le> 4096" "j < 2 ^ 52"
  shows "frame_no h x = j"
  using assms span_mono [of 0 "unat off" "unat off + n" 4096 "page h j"] by (auto simp: span_shift span_page)

lemma in_page_base:
  assumes "x \<in> span (page h j) lo n" "n \<le> 4096" "j < 2 ^ 52"
  shows "frame_no h x = j"
  using in_page [of x h j 0 n] assms span_mono [of 0 lo n n "page h j"] by auto

lemma span_chunk:
  assumes cs: "cs \<in> {8, 16, 32, 64, 128, 256, 512, 1024}" and u: "u < nchunks cs"
  shows "span (chunk p cs u) 0 cs = span p (first_off cs + u * cs) (first_off cs + u * cs + cs)"
  using unat_chunk(1) [OF cs, of u] chunk_bound [OF cs u] u span_shift [of "of_nat (first_off cs + u * cs)" cs p 0]
  by (simp del: of_nat_add of_nat_mult)

lemma taken_frame:
  assumes cs: "cs \<in> {8, 16, 32, 64, 128, 256, 512, 1024}" and u: "u < nchunks cs" and i: "i < 2 ^ 52" and x: "frame_no h x \<noteq> i"
  shows "taken (page h i) cs u m x = m x"
proof (rule taken_out [OF cs u])
  have "first_off cs \<le> 4096" "first_off cs + u * cs + cs \<le> 4096" using layout(2) [OF cs] chunk_bound [OF cs u] by simp_all
  then show "x \<notin> span (page h i) 0 (first_off cs)" "x \<notin> span (chunk (page h i) cs u) 0 cs"
    using x i in_page_base [of x h i 0 "first_off cs"] in_page_base [of x h i "first_off cs + u * cs" "first_off cs + u * cs + cs"]
    by (auto simp: span_chunk [OF cs u] simp del: of_nat_add of_nat_mult)
qed

text \<open>The effect of moving a lone slab from one list of its cache to another.\<close>

definition moved :: "u64 \<Rightarrow> u64 \<Rightarrow> u64 \<Rightarrow> memory \<Rightarrow> memory" where
  "moved p ol nl m = st64 (st64 (st64 (st64 m ol 0) (p + SLAB_NEXT) (ld64 (st64 m ol 0) nl)) nl p) (p + SLAB_PREV) 0"

lemma moved_out:
  assumes "unat a + 8 \<le> 24" "unat b + 8 \<le> 24" "x \<notin> span p 8 24" "x \<notin> span c 0 24"
  shows "moved p (c + a) (c + b) m x = m x"
proof -
  have "span (p + SLAB_NEXT) 0 8 \<subseteq> span p 8 24" "span (p + SLAB_PREV) 0 8 \<subseteq> span p 8 24"
      "span (c + a) 0 8 \<subseteq> span c 0 24" "span (c + b) 0 8 \<subseteq> span c 0 24"
    using assms(1,2) by (simp_all add: span_shift span_mono)
  then have "x \<notin> span (p + SLAB_NEXT) 0 8" "x \<notin> span (p + SLAB_PREV) 0 8" "x \<notin> span (c + a) 0 8" "x \<notin> span (c + b) 0 8"
    using assms(3,4) by blast+
  then show ?thesis by (simp add: moved_def st64_out)
qed

lemma moved_loads:
  assumes pg: "p = page h i" "c = page h j" "i \<noteq> j" "i < 2 ^ 52" "j < 2 ^ 52"
    and ab: "unat a + 8 \<le> 24" "unat b + 8 \<le> 24" "unat a + 8 \<le> unat b \<or> unat b + 8 \<le> unat a"
  shows "ld64 (moved p (c + a) (c + b) m) (p + SLAB_PREV) = 0" "ld64 (moved p (c + a) (c + b) m) (p + SLAB_NEXT) = ld64 m (c + b)"
    "ld64 (moved p (c + a) (c + b) m) (c + a) = 0" "ld64 (moved p (c + a) (c + b) m) (c + b) = p"
proof -
  have ba: "apart (page h j + b) 8 (page h j + a) 8" using ab by (intro apart_same) auto
  show "ld64 (moved p (c + a) (c + b) m) (p + SLAB_PREV) = 0" "ld64 (moved p (c + a) (c + b) m) (p + SLAB_NEXT) = ld64 m (c + b)"
    "ld64 (moved p (c + a) (c + b) m) (c + a) = 0" "ld64 (moved p (c + a) (c + b) m) (c + b) = p"
    using ab pg(3-5) pg(3) [symmetric] unfolding pg(1,2) by (simp_all add: moved_def ba loads_apart apart_same apart_pages)
qed

lemma slab_ok_moved:
  assumes pg: "p = page h i" "c = page h j" "i \<noteq> j" "i < 2 ^ 52" "j < 2 ^ 52"
    and cs: "cs \<in> {8, 16, 32, 64, 128, 256, 512, 1024}"
    and ab: "unat a + 8 \<le> 24" "unat b + 8 \<le> 24" "unat a + 8 \<le> unat b \<or> unat b + 8 \<le> unat a"
    and s: "slab_ok m p c' cs u" "ld64 m (c + b) = 0"
  shows "slab_ok (moved p (c + a) (c + b) m) p c' cs u"
proof -
  let ?m = "moved p (c + a) (c + b) m"
  have same: "?m x = m x" if "x \<in> span (p + off) 0 k" "unat off + k \<le> 4096" "unat off + k \<le> 8 \<or> 24 \<le> unat off" for x off k
  proof (rule moved_out [OF ab(1,2)])
    show "x \<notin> span p 8 24" using that by (auto simp: span_shift) (auto simp: span_def)
    have "frame_no h x = i" using in_page [of x h i off k] that pg by simp
    then show "x \<notin> span c 0 24" using in_page_base [of x h j 0 24] pg by auto
  qed
  have l: "ld64 ?m (p + off) = ld64 m (p + off)" if "unat off + 8 \<le> 4096" "unat off + 8 \<le> 8 \<or> 24 \<le> unat off" for off
    using ld64_cong [of "p + off" ?m m] same [of _ off 8] that by blast
  have l2: "ld16 ?m (p + off) = ld16 m (p + off)" if "unat off + 2 \<le> 4096" "24 \<le> unat off" for off
    using ld16_cong [of "p + off" ?m m] same [of _ off 2] that by blast
  have "ld64 ?m (chunk p cs k) = ld64 m (chunk p cs k)" if "k < nchunks cs" for k
    using unat_chunk(1) [OF cs, of k] chunk_bound [OF cs that] layout(1,5) [OF cs] that by (intro l) simp_all
  with s l [of 0] l [of SLAB_FREE] l2 [of SLAB_USED] l2 [of SLAB_TOTAL] moved_loads(1,2) [OF pg ab, of m]
  show ?thesis by (simp add: slab_ok_def)
qed

lemma slab_ok_taken:
  assumes "cs \<in> {8, 16, 32, 64, 128, 256, 512, 1024}" "u < nchunks cs" "slab_ok m p c cs u"
  shows "slab_ok (taken p cs u m) p c cs (Suc u)"
  using assms(3) taken_loads [OF assms(1,2), where p = p and m = m]
  by (simp add: slab_ok_def del: of_nat_Suc of_nat_add of_nat_mult)

lemma take_chunk_spec:
  assumes cs: "cs \<in> {8, 16, 32, 64, 128, 256, 512, 1024}" and u: "u < nchunks cs"
    and pg: "p = page h i" "c = page h j" "i \<noteq> j" "i < 2 ^ 52" "j < 2 ^ 52" and nz: "p \<noteq> 0" "c \<noteq> 0" "chunk p cs u \<noteq> 0"
    and s: "slab_ok m p c cs u" and k: "cache_ok m c cs l e q" and q: "u = 0 \<Longrightarrow> q = 0"
  shows "\<exists>m'. take_chunk p m = Some (chunk p cs u, m') \<and>
    (\<forall>x. x \<notin> span p 0 (first_off cs) \<union> span (chunk p cs u) 0 cs \<union> span c 0 24 \<longrightarrow> m' x = m x) \<and>
    (\<forall>x\<in>span (chunk p cs u) 0 cs. m' x = 0) \<and>
    cache_ok m' c cs l (if u = 0 then 0 else e) (if Suc u = nchunks cs then 0 else if u = 0 then p else q) \<and>
    (Suc u < nchunks cs \<longrightarrow> slab_ok m' p c cs (Suc u))"
proof -
  let ?T = "taken p cs u m"
  define mv where "mv = (if Suc u = nchunks cs then Some (CACHE_PARTIAL, CACHE_FULL) else if u = 0 then Some (CACHE_EMPTY, CACHE_PARTIAL) else None)"
  define m' where "m' = (case mv of None \<Rightarrow> ?T | Some (a, b) \<Rightarrow> moved p (c + a) (c + b) ?T)"
  note tl = taken_loads [OF cs u, where p = p and m = m]
  have sT: "slab_ok ?T p c cs (Suc u)" by (rule slab_ok_taken [OF cs u s])
  have tr: "transfer_slab p ol nl ?T = Some (moved p ol nl ?T)" for ol nl
    using transfer_lone [OF nz(1), of ?T ol nl] sT by (simp add: moved_def slab_ok_def)
  have run: "take_chunk p m = Some (chunk p cs u, m')"
    unfolding take_chunk_taken [OF cs u pg nz s k] tr m'_def mv_def by simp
  have ab: "unat a + 8 \<le> 24 \<and> unat b + 8 \<le> 24 \<and> unat a + 8 \<le> unat b" if "mv = Some (a, b)" for a b
    using that by (auto simp: mv_def split: if_splits)
  have out: "m' x = ?T x" if "x \<notin> span p 8 24" "x \<notin> span c 0 24" for x
    using moved_out [of _ _ x p c ?T] ab that by (auto simp: m'_def split: option.split)
  have le: "first_off cs \<le> 4096" "first_off cs + u * cs + cs \<le> 4096" "36 \<le> first_off cs"
    using layout(1,2) [OF cs] chunk_bound [OF cs u] by simp_all
  have sub: "span p 8 24 \<subseteq> span p 0 (first_off cs)" using le by (simp add: span_mono)
  have f: "frame_no h x = i" if "x \<in> span p lo k" "k \<le> 4096" for x lo k using in_page_base [of x h i lo k] that pg by simp
  have fc: "frame_no h x = j" if "x \<in> span (c + off) 0 k" "unat off + k \<le> 4096" for x off k using in_page [of x h j off k] that pg by simp
  have chunk_out: "x \<notin> span p 8 24 \<and> x \<notin> span c 0 24" if "x \<in> span (chunk p cs u) 0 cs" for x
  proof -
    have x: "x \<in> span p (first_off cs + u * cs) (first_off cs + u * cs + cs)" using that by (simp only: span_chunk [OF cs u])
    then have "x \<notin> span p 8 24" using le(3) by (auto simp: span_def)
    moreover have "x \<notin> span c 0 24" using f [OF x le(2)] fc [of x 0 24] pg(3) by auto
    ultimately show ?thesis by simp
  qed
  have T: "ld64 ?T (c + off) = ld64 m (c + off)" if "unat off + 8 \<le> 4096" for off
    by (rule ld64_cong) (use taken_frame [OF cs u pg(4), of h _ m, folded pg(1)] fc [OF _ that] pg(3) in fastforce)
  have "m' x = m x" if "x \<notin> span p 0 (first_off cs) \<union> span (chunk p cs u) 0 cs \<union> span c 0 24" for x
    using that out [of x] taken_out [OF cs u, of x p m] sub by auto
  moreover have "m' x = 0" if "x \<in> span (chunk p cs u) 0 cs" for x
    using out [of x] chunk_out [OF that] that by (simp add: taken_def fill_bytes_in)
  moreover have "cache_ok m' c cs l (if u = 0 then 0 else e) (if Suc u = nchunks cs then 0 else if u = 0 then p else q)"
  proof -
    have M: "ld64 m' (c + off) = ld64 m (c + off)" if "24 \<le> unat off" "unat off + 8 \<le> 40" for off
    proof -
      have "x \<notin> span p 8 24 \<and> x \<notin> span c 0 24" if x: "x \<in> span (c + off) 0 8" for x
        using x fc [of x off 8] f [of x 8 24] pg(3) \<open>24 \<le> unat off\<close> \<open>unat off + 8 \<le> 40\<close> by (auto simp: span_shift) (auto simp: span_def)
      then have "ld64 m' (c + off) = ld64 ?T (c + off)" using ld64_cong [of "c + off" m' ?T] out by blast
      then show ?thesis using T that by simp
    qed
    have ml: "ld64 m' c = (if u = 0 then 0 else e) \<and> ld64 m' (c + CACHE_PARTIAL) = (if Suc u = nchunks cs then 0 else if u = 0 then p else q)"
    proof (cases mv)
      case None
      then show ?thesis using T [of 0] T [of CACHE_PARTIAL] k by (auto simp: m'_def mv_def cache_ok_def split: if_splits)
    next
      case (Some ab')
      then consider "mv = Some (CACHE_EMPTY, CACHE_PARTIAL)" "u = 0" "Suc u \<noteq> nchunks cs"
        | "mv = Some (CACHE_PARTIAL, CACHE_FULL)" "u \<noteq> 0" "Suc u = nchunks cs"
        using layout(3) [OF cs] by (auto simp: mv_def split: if_splits)
      then show ?thesis
      proof cases
        case 1
        then show ?thesis using moved_loads(3,4) [OF pg, of CACHE_EMPTY CACHE_PARTIAL ?T] by (simp add: m'_def)
      next
        case 2
        have "ld64 (moved p (c + CACHE_PARTIAL) (c + CACHE_FULL) ?T) c = ld64 ?T c"
          using pg(3-5) unfolding moved_def pg(1,2) by (simp add: loads_apart apart_base apart_pages_base)
        with 2 show ?thesis using moved_loads(3) [OF pg, of CACHE_PARTIAL CACHE_FULL ?T] T [of 0] k
          by (simp add: m'_def cache_ok_def)
      qed
    qed
    then show ?thesis using M [of CACHE_CHUNK] M [of CACHE_LOCK] k by (simp add: cache_ok_def)
  qed
  moreover have "slab_ok m' p c cs (Suc u)" if "Suc u < nchunks cs"
  proof (cases mv)
    case None
    then show ?thesis using sT by (simp add: m'_def)
  next
    case (Some ab')
    with that have mv: "mv = Some (CACHE_EMPTY, CACHE_PARTIAL)" "u = 0" by (auto simp: mv_def split: if_splits)
    have "ld64 ?T (c + CACHE_PARTIAL) = 0" using T [of CACHE_PARTIAL] k q mv(2) by (simp add: cache_ok_def)
    with slab_ok_moved [OF pg cs _ _ _ sT, of CACHE_EMPTY CACHE_PARTIAL] show ?thesis by (simp add: m'_def mv(1))
  qed
  ultimately show ?thesis using run by blast
qed

section \<open>A new slab\<close>

lemma page_unat:
  assumes "pmm_ok h pm" "i < max_frames pm" "off < 4096"
  shows "unat (page h i + of_nat off) = unat h + 4096 * i + off" "page h i + of_nat off \<noteq> 0"
proof -
  have b: "unat h + 4096 * max_frames pm \<le> 2 ^ 64" "0 < unat h" "max_frames pm < 2 ^ 52" using assms(1) by (simp_all add: pmm_ok_def)
  have o: "unat (of_nat off :: u64) = off" "unat (of_nat i :: u64) = i" using assms b by (simp_all add: unat_of_nat_small)
  have "4096 * Suc i \<le> 4096 * max_frames pm" using assms(2) by (intro mult_le_mono2) simp
  then have lt: "unat h + 4096 * i + off < 2 ^ 64" using b(1) assms(3) by simp
  have m: "unat (of_nat i * PAGE_SIZE_BYTES :: u64) = i * 4096"
    using o assms(2) b(3) unat_mult_small [of "of_nat i" PAGE_SIZE_BYTES] by (simp add: PAGE_SIZE_BYTES_def)
  have "unat (page h i) = unat h + 4096 * i"
    using m lt unat_add_small [of "of_nat i * PAGE_SIZE_BYTES" h] by (simp add: frame_ptr_def)
  then show e: "unat (page h i + of_nat off) = unat h + 4096 * i + off"
    using o lt unat_add_small [of "page h i" "of_nat off"] by simp
  show "page h i + of_nat off \<noteq> 0" using e b(2) by (metis add_is_0 less_numeral_extra(3) unat_0)
qed

lemma page_nonzero:
  assumes "pmm_ok h pm" "i < max_frames pm"
  shows "page h i \<noteq> 0"
  using page_unat(2) [OF assms, of 0] by simp

lemma span_two_pages:
  assumes "Suc i < 2 ^ 52" "x \<in> span (page h i) 0 4104"
  shows "frame_no h x \<in> {i, Suc i}"
proof (cases "unat (x - page h i) < 4096")
  case True
  then show ?thesis using span_page [of i h] assms by (auto simp: span_def)
next
  case False
  have "span (page h i + 4096) 0 4096 = span (page h i) 4096 8192" by (subst span_shift) simp_all
  then have "x \<in> span (page h (Suc i)) 0 4096"
    using False assms(2) page_Suc [of h i] by (simp add: PAGE_SIZE_BYTES_def span_def)
  then show ?thesis using span_page [of "Suc i" h] assms(1) by simp
qed

text \<open>The memory \<open>slab_spawn\<close> leaves, before the free list is linked.\<close>

definition spawned :: "u64 \<Rightarrow> u64 \<Rightarrow> nat \<Rightarrow> memory \<Rightarrow> memory" where
  "spawned p c cs m = st64 (st64 (st64 (st16 (fill_bytes m p 0 36) (p + SLAB_TOTAL) (of_nat (nchunks cs))) p c) c p)
     (p + SLAB_FREE) (chunk p cs 0)"

lemma spawned_loads:
  assumes pg: "p = page h i" "c = page h j" "i \<noteq> j" "i < 2 ^ 52" "j < 2 ^ 52"
  shows "ld64 (spawned p c cs m) p = c" "ld64 (spawned p c cs m) (p + SLAB_PREV) = 0" "ld64 (spawned p c cs m) (p + SLAB_NEXT) = 0"
    "ld16 (spawned p c cs m) (p + SLAB_USED) = 0" "ld16 (spawned p c cs m) (p + SLAB_TOTAL) = of_nat (nchunks cs)"
    "ld64 (spawned p c cs m) (p + SLAB_FREE) = chunk p cs 0" "ld64 (spawned p c cs m) c = p"
    "8 \<le> unat off \<Longrightarrow> unat off \<le> 32 \<Longrightarrow> ld64 (spawned p c cs m) (c + off) = ld64 m (c + off)"
  using pg(3-5) pg(3) [symmetric] unfolding pg(1,2)
  by (simp_all add: spawned_def slab_mem del: of_nat_add of_nat_mult)

lemma spawned_out:
  assumes "x \<notin> span p 0 36" "x \<notin> span c 0 8"
  shows "spawned p c cs m x = m x"
proof -
  have "span (p + SLAB_TOTAL) 0 2 \<subseteq> span p 0 36" "span (p + SLAB_FREE) 0 8 \<subseteq> span p 0 36" "span p 0 8 \<subseteq> span p 0 36"
    by (simp_all add: span_shift span_mono)
  with assms have "x \<notin> span (p + SLAB_TOTAL) 0 2" "x \<notin> span (p + SLAB_FREE) 0 8" "x \<notin> span p 0 8" by blast+
  with assms show ?thesis by (simp add: spawned_def st64_out st16_out fill_bytes_out)
qed

lemma slab_spawn_spec:
  assumes cs: "cs \<in> {8, 16, 32, 64, 128, 256, 512, 1024}" and pm: "pmm_inv h (slab_pmm st)" "room N (slab_pmm st)" "2 \<le> N"
    and i: "i = unat (cached_index (slab_pmm st))" "p = page h i"
    and c: "c = page h j" "j < max_frames (slab_pmm st)" "j \<noteq> i" "j \<noteq> Suc i"
    and k: "cache_ok (smem st) c cs l 0 q"
  shows "\<exists>pm' m'. slab_spawn h c st = Some (st\<lparr>smem := m', slab_pmm := pm'\<rparr>) \<and>
    pmm_inv h pm' \<and> used pm' = used (slab_pmm st) \<union> {i} \<and> max_frames pm' = max_frames (slab_pmm st) \<and> room (N - 1) pm' \<and>
    cache_ok m' c cs l p q \<and> slab_ok m' p c cs 0 \<and> unat (cached_index pm') = Suc i \<and>
    (\<forall>x. frame_no h x \<noteq> i \<and> frame_no h x \<noteq> Suc i \<and> x \<notin> span c 0 8 \<longrightarrow> m' x = smem st x)"
proof -
  let ?m = "spawned p c cs (smem st)" and ?n = "of_nat (nchunks cs) :: u16"
  let ?m' = "link_chunks (chunk p cs 0) (of_nat cs div 8) ?n ?m"
  have ok: "pmm_ok h (slab_pmm st)" "max_frames (slab_pmm st) < 2 ^ 52" using pm(1) by (simp_all add: pmm_inv_def pmm_ok_def)
  have lt: "i + N < max_frames (slab_pmm st)" using pm(2) i by (simp add: room_def)
  have nz: "p \<noteq> 0" "c \<noteq> 0" using page_nonzero [OF ok(1)] lt c i by auto
  have pg: "p = page h i" "c = page h j" "i \<noteq> j" "i < 2 ^ 52" "j < 2 ^ 52" "Suc i < 2 ^ 52" using i c lt ok(2) pm(3) by auto
  obtain pm' where pa: "palloc h 1 (slab_pmm st) = Some (p, pm')" "pmm_inv h pm'" "used pm' = used (slab_pmm st) \<union> {i}"
      "max_frames pm' = max_frames (slab_pmm st)" "room (N - 1) pm'" "unat (cached_index pm') = Suc i"
    using palloc_room [OF pm(1,2), of 1] pm(3) i by auto
  have ic: "sint (ucast (of_nat cs :: u64) :: u32) = int cs" "(word_of_int (int cs) :: u64) = of_nat cs" "int cs \<noteq> 0" using cs by auto
  have hc: "(word_of_int (int cs * header_chunks (int cs)) :: u64) = of_nat (first_off cs + 0 * cs)"
    using layout(8) [OF cs] by (simp add: mult.commute)
  have tot: "(word_of_int (4096 sdiv int cs - header_chunks (int cs)) :: u16) = ?n" using layout(9) [OF cs] by simp
  have e0: "ld64 (st64 (st16 (fill_bytes (smem st) p 0 36) (p + SLAB_TOTAL) ?n) p c) c = 0"
    using k pg(3-5) unfolding pg(1,2) by (simp add: cache_ok_def slab_mem)
  have "slab_spawn h c st = Some (st\<lparr>smem := ?m', slab_pmm := pm'\<rparr>)"
  proof -
    have "ld64 (smem st) (c + CACHE_CHUNK) = of_nat cs" using k by (simp add: cache_ok_def)
    then show ?thesis
      unfolding slab_spawn_def get64_def set64_def Let_def
      by (simp only: nz ic pa(1) prod.case bind.bind_lunit if_False sizeof_slab_def nat_numeral tot add_0_right e0 hc ld64_st64
          if_True not_True_eq_False spawned_def [symmetric] spawned_loads(5) [OF pg(1-5)] simp_thms)
  qed
  moreover have far: "?m' x = smem st x" if "frame_no h x \<noteq> i" "frame_no h x \<noteq> Suc i" "x \<notin> span c 0 8" for x
  proof -
    have no: "x \<notin> span p lo hi" if "hi \<le> 4104" for lo hi
      using that span_two_pages [OF pg(6), of x h] \<open>frame_no h x \<noteq> i\<close> \<open>frame_no h x \<noteq> Suc i\<close> span_mono [of 0 lo hi 4104 p] pg(1) by auto
    show ?thesis
      using link_chunks_list(1) [OF cs, of p ?m] no [of 4104 "first_off cs"] spawned_out [of x p c cs "smem st"] no [of 36 0] that(3) by simp
  qed
  moreover have "cache_ok ?m' c cs l p q"
  proof -
    have "ld64 ?m' (c + off) = ld64 ?m (c + off)" if "unat off \<le> 32" for off
    proof (rule ld64_cong)
      fix x assume "x \<in> span (c + off) 0 8"
      then have "frame_no h x = j" using in_page [of x h j off 8] that pg by simp
      then have "x \<notin> span p (first_off cs) 4104"
        using span_two_pages [OF pg(6), of x h] span_mono [of 0 "first_off cs" 4104 4104 p] pg(1) c by auto
      then show "?m' x = ?m x" using link_chunks_list(1) [OF cs, of p ?m] by simp
    qed
    from this [of 0] this [of CACHE_PARTIAL] this [of CACHE_LOCK] this [of CACHE_CHUNK] k
    show ?thesis by (simp add: cache_ok_def spawned_loads [OF pg(1-5)])
  qed
  moreover have "slab_ok ?m' p c cs 0"
  proof -
    have out: "?m' x = ?m x" if "x \<in> span (p + off) 0 n" "unat off + n \<le> 36" for x off n
      using that link_chunks_list(1) [OF cs, of p ?m] layout(1) [OF cs] by (simp add: span_shift) (simp add: span_def)
    have l16: "ld16 ?m' (p + off) = ld16 ?m (p + off)" if "unat off + 2 \<le> 36" for off
      using that by (intro ld16_cong out)
    have "ld64 ?m' (p + off) = ld64 ?m (p + off)" if "unat off + 8 \<le> 36" for off
      using that by (intro ld64_cong out)
    from this [of 0] this [of SLAB_PREV] this [of SLAB_NEXT] this [of SLAB_FREE]
    have "ld64 ?m' p = ld64 ?m p" "ld64 ?m' (p + SLAB_PREV) = ld64 ?m (p + SLAB_PREV)" "ld64 ?m' (p + SLAB_NEXT) = ld64 ?m (p + SLAB_NEXT)"
        "ld16 ?m' (p + SLAB_USED) = ld16 ?m (p + SLAB_USED)" "ld16 ?m' (p + SLAB_TOTAL) = ld16 ?m (p + SLAB_TOTAL)" "ld64 ?m' (p + SLAB_FREE) = ld64 ?m (p + SLAB_FREE)"
      using l16 [of SLAB_USED] l16 [of SLAB_TOTAL] by simp_all
    then show ?thesis
      using link_chunks_list(2) [OF cs, of _ p ?m] spawned_loads(1-6) [OF pg(1-5), of cs "smem st"]
      by (simp add: slab_ok_def del: of_nat_add of_nat_mult)
  qed
  ultimately show ?thesis using pa by blast
qed

section \<open>Allocating from one cache\<close>

text \<open>
  A cache in use: its slab lists hold at most one slab with free chunks, which is the current one;
  \<open>cur\<close> is its frame and the number of its chunks that are taken.
\<close>

definition cache_state :: "u64 \<Rightarrow> memory \<Rightarrow> nat \<Rightarrow> nat \<Rightarrow> (nat \<times> nat) option \<Rightarrow> bool" where
  "cache_state h m j cs cur \<longleftrightarrow>
     (case cur of None \<Rightarrow> cache_ok m (page h j) cs 0 0 0
      | Some (i, u) \<Rightarrow> cache_ok m (page h j) cs 0 0 (page h i) \<and> slab_ok m (page h i) (page h j) cs u \<and>
          i \<noteq> j \<and> 0 < u \<and> u < nchunks cs)"

definition cur_next :: "nat \<Rightarrow> nat \<Rightarrow> (nat \<times> nat) option \<Rightarrow> (nat \<times> nat) option" where
  "cur_next cs f cur = (let (i, u) = (case cur of None \<Rightarrow> (f, 0) | Some iu \<Rightarrow> iu) in
     if Suc u = nchunks cs then None else Some (i, Suc u))"

definition cur_chunk :: "u64 \<Rightarrow> nat \<Rightarrow> nat \<Rightarrow> (nat \<times> nat) option \<Rightarrow> u64" where
  "cur_chunk h cs f cur = (let (i, u) = (case cur of None \<Rightarrow> (f, 0) | Some iu \<Rightarrow> iu) in chunk (page h i) cs u)"

text \<open>The bytes of a cache and of its current slab that belong to the allocator.\<close>

definition owned :: "u64 \<Rightarrow> nat \<Rightarrow> nat \<Rightarrow> (nat \<times> nat) option \<Rightarrow> u64 set" where
  "owned h j cs cur = {x. frame_no h x = j} \<union>
     (case cur of None \<Rightarrow> {} | Some (i, u) \<Rightarrow> slab_area (page h i) cs u)"

lemma slab_ok_cong:
  assumes cs: "cs \<in> {8, 16, 32, 64, 128, 256, 512, 1024}" and s: "slab_ok m p c cs u"
    and same: "\<And>x. x \<in> slab_area p cs u \<Longrightarrow> m' x = m x"
  shows "slab_ok m' p c cs u"
proof -
  have hd: "x \<in> slab_area p cs u" if "x \<in> span (p + off) 0 n" "unat off + n \<le> 36" for x off n
    using that layout(1) [OF cs] by (auto simp: slab_area_def span_shift) (auto simp: span_def)
  have l64: "ld64 m' (p + off) = ld64 m (p + off)" if "unat off + 8 \<le> 36" for off
    using that by (intro ld64_cong same hd)
  have l16: "ld16 m' (p + off) = ld16 m (p + off)" if "unat off + 2 \<le> 36" for off
    using that by (intro ld16_cong same hd)
  have "ld64 m' (chunk p cs k) = ld64 m (chunk p cs k)" if "u \<le> k" "k < nchunks cs" for k
  proof (intro ld64_cong same)
    fix x assume x: "x \<in> span (chunk p cs k) 0 8"
    have "first_off cs + k * cs + cs \<le> 4096" "8 \<le> cs" "u * cs \<le> k * cs"
      using chunk_bound [OF cs that(2)] layout(5) [OF cs] that(1) by simp_all
    with x show "x \<in> slab_area p cs u"
      using span_mono [of 0 0 8 cs "chunk p cs k"] span_chunk [OF cs that(2), of p]
        span_mono [of "first_off cs + u * cs" "first_off cs + k * cs" "first_off cs + k * cs + cs" 4096 p]
      by (auto simp: slab_area_def simp del: of_nat_add of_nat_mult)
  qed
  with s l64 [of 0] l64 [of SLAB_PREV] l64 [of SLAB_NEXT] l64 [of SLAB_FREE] l16 [of SLAB_USED] l16 [of SLAB_TOTAL]
  show ?thesis by (simp add: slab_ok_def del: of_nat_add of_nat_mult)
qed

lemma cache_ok_cong:
  assumes "cache_ok m (page h j) cs l e q" "j < 2 ^ 52" "\<And>x. frame_no h x = j \<Longrightarrow> m' x = m x"
  shows "cache_ok m' (page h j) cs l e q"
proof -
  have "ld64 m' (page h j + off) = ld64 m (page h j + off)" if "unat off \<le> 32" for off
    using that in_page [of _ h j off 8] assms(2,3) by (intro ld64_cong) simp
  from this [of 0] this [of CACHE_PARTIAL] this [of CACHE_LOCK] this [of CACHE_CHUNK] assms(1)
  show ?thesis by (simp add: cache_ok_def)
qed

lemma slab_area_page:
  assumes "cs \<in> {8, 16, 32, 64, 128, 256, 512, 1024}" "i < 2 ^ 52" "x \<in> slab_area (page h i) cs u"
  shows "frame_no h x = i"
  using assms layout(2) [OF assms(1)] in_page_base [of x h i] by (auto simp: slab_area_def)

lemma cache_state_cong:
  assumes cs: "cs \<in> {8, 16, 32, 64, 128, 256, 512, 1024}" and s: "cache_state h m j cs cur" "j < 2 ^ 52"
    and same: "\<And>x. x \<in> owned h j cs cur \<Longrightarrow> m' x = m x"
  shows "cache_state h m' j cs cur"
  using s cache_ok_cong [of m h j cs 0 0 _ m'] slab_ok_cong [OF cs, of m _ _ _ m'] same
  by (auto simp: cache_state_def owned_def split: option.splits prod.splits)

text \<open>Taking and giving back the lock of the cache.\<close>

lemma cache_lock:
  assumes "cache_ok m c cs l e q" "c \<noteq> 0"
  shows "l = 0 \<Longrightarrow> cache_acquire c m = Some (st64 m (c + CACHE_LOCK) 1)"
    and "l = 1 \<Longrightarrow> cache_release c m = Some (st64 m (c + CACHE_LOCK) 0)"
    and "cache_ok (st64 m (c + CACHE_LOCK) v) c cs v e q"
  using assms by (simp_all add: cache_acquire_def cache_release_def cache_ok_def get64_def set64_def slab_mem)

lemma lock_out:
  assumes "j < 2 ^ 52" "frame_no h x \<noteq> j"
  shows "st64 m (page h j + CACHE_LOCK) v x = m x"
  using assms in_page [of x h j CACHE_LOCK 8] by (intro st64_out) auto

lemma inner_alloc_null [simp]: "slab_inner_alloc_chunk 0 m = Some (0, m)"
  by (simp add: slab_inner_alloc_chunk.simps)

lemma pick_chunk:
  assumes cs: "cs \<in> {8, 16, 32, 64, 128, 256, 512, 1024}" and u: "u < nchunks cs"
    and pg: "p = page h i" "c = page h j" "i \<noteq> j" "i < 2 ^ 52" "j < 2 ^ 52" and nz: "p \<noteq> 0" "c \<noteq> 0" "chunk p cs u \<noteq> 0"
    and s: "slab_ok m p c cs u" and k: "cache_ok m c cs 1 (if u = 0 then p else 0) (if u = 0 then 0 else p)"
  shows "\<exists>m2 m'. slab_inner_alloc_chunk p m = Some (chunk p cs u, m2) \<and> cache_release c m2 = Some m' \<and>
    cache_state h m' j cs (if Suc u = nchunks cs then None else Some (i, Suc u)) \<and>
    (\<forall>x. frame_no h x \<noteq> j \<and> x \<notin> span p 0 (first_off cs) \<union> span (chunk p cs u) 0 cs \<longrightarrow> m' x = m x) \<and>
    (\<forall>x\<in>span (chunk p cs u) 0 cs. m' x = 0)"
proof -
  have ne: "ld16 m (p + SLAB_USED) \<noteq> ld16 m (p + SLAB_TOTAL)"
    using s u small_u16 [of u "nchunks cs"] layout(4) [OF cs] by (simp add: slab_ok_def)
  have q0: "u = 0 \<Longrightarrow> (if u = 0 then 0 else p) = 0" by simp
  obtain m2 where m2: "take_chunk p m = Some (chunk p cs u, m2)"
      "\<forall>x. x \<notin> span p 0 (first_off cs) \<union> span (chunk p cs u) 0 cs \<union> span c 0 24 \<longrightarrow> m2 x = m x"
      "\<forall>x\<in>span (chunk p cs u) 0 cs. m2 x = 0"
      "cache_ok m2 c cs 1 (if u = 0 then 0 else if u = 0 then p else 0) (if Suc u = nchunks cs then 0 else if u = 0 then p else if u = 0 then 0 else p)"
      "Suc u < nchunks cs \<longrightarrow> slab_ok m2 p c cs (Suc u)"
    using take_chunk_spec [OF cs u pg nz s k q0] by blast
  let ?m' = "st64 m2 (c + CACHE_LOCK) 0"
  have k2: "cache_ok m2 c cs 1 0 (if Suc u = nchunks cs then 0 else p)" using m2(4) by (simp split: if_splits)
  note L = cache_lock(2) [OF k2 nz(2) refl] cache_lock(3) [OF k2 nz(2), of 0]
  have out: "?m' x = m2 x" if "frame_no h x \<noteq> j" for x using lock_out [OF pg(5) that] pg(2) by simp
  have "slab_ok ?m' p c cs (Suc u)" if "Suc u < nchunks cs"
    using slab_ok_cong [OF cs, of m2 p c "Suc u" ?m'] m2(5) that out slab_area_page [OF cs pg(4)] pg(1,3) by blast
  then have "cache_state h ?m' j cs (if Suc u = nchunks cs then None else Some (i, Suc u))"
    using L(2) u pg by (auto simp: cache_state_def)
  moreover have "?m' x = m x" if "frame_no h x \<noteq> j" "x \<notin> span p 0 (first_off cs) \<union> span (chunk p cs u) 0 cs" for x
    using m2(2) out [OF that(1)] that in_page_base [of x h j 0 24] pg by auto
  moreover have "?m' x = 0" if x: "x \<in> span (chunk p cs u) 0 cs" for x
  proof -
    have "frame_no h x = i"
      using x chunk_bound [OF cs u] in_page_base [of x h i "first_off cs + u * cs" "first_off cs + u * cs + cs"] pg
      by (simp add: span_chunk [OF cs u] del: of_nat_add of_nat_mult)
    then show ?thesis using out [of x] m2(3) x pg(3) by simp
  qed
  moreover have "slab_inner_alloc_chunk p m = Some (chunk p cs u, m2)"
    using m2(1) nz(1) ne by (simp add: slab_inner_alloc_chunk.simps [of p] del: of_nat_add of_nat_mult)
  ultimately show ?thesis using L(1) by blast
qed

lemma slab_alloc_chunk_spec:
  fixes st :: slabs
  defines "f \<equiv> unat (cached_index (slab_pmm st))"
  assumes cs: "cs \<in> {8, 16, 32, 64, 128, 256, 512, 1024}" and c: "rd (caches st) k = Some (page h j)"
    and pm: "pmm_inv h (slab_pmm st)" "room N (slab_pmm st)" "2 \<le> N"
    and s: "cache_state h (smem st) j cs cur" "j \<in> used (slab_pmm st)" "\<And>i u. cur = Some (i, u) \<Longrightarrow> i \<in> used (slab_pmm st)"
  shows "\<exists>m' pm'. slab_alloc_chunk h (int k) st = Some (cur_chunk h cs f cur, st\<lparr>smem := m', slab_pmm := pm'\<rparr>) \<and>
    pmm_inv h pm' \<and> max_frames pm' = max_frames (slab_pmm st) \<and> room (N - 1) pm' \<and>
    used pm' = used (slab_pmm st) \<union> (if cur = None then {f} else {}) \<and> cache_state h m' j cs (cur_next cs f cur) \<and>
    (\<forall>x. x \<notin> owned h j cs cur \<and> (cur = None \<longrightarrow> frame_no h x \<noteq> f \<and> frame_no h x \<noteq> Suc f) \<longrightarrow> m' x = smem st x) \<and>
    (\<forall>x\<in>span (cur_chunk h cs f cur) 0 cs. m' x = 0)"
proof -
  let ?c = "page h j" and ?pm = "slab_pmm st"
  have ok: "pmm_ok h ?pm" "max_frames ?pm < 2 ^ 52" using pm(1) by (simp_all add: pmm_inv_def pmm_ok_def)
  have j: "j < max_frames ?pm" "j < 2 ^ 52" using s(2) ok(2) by (simp_all add: used_def)
  have f: "f + N < max_frames ?pm" "f \<notin> used ?pm" "Suc f \<notin> used ?pm" using pm(2,3) by (simp_all add: room_def f_def)
  have jf: "j \<noteq> f" "j \<noteq> Suc f" using s(2) f by auto
  have cnz: "?c \<noteq> 0" by (rule page_nonzero [OF ok(1) j(1)])
  have idx: "nat (int k) = k" by simp
  show ?thesis
  proof (cases cur)
    case (Some iu)
    then obtain i u where cur: "cur = Some (i, u)" by (cases iu) auto
    have k: "cache_ok (smem st) ?c cs 0 0 (page h i)" and so: "slab_ok (smem st) (page h i) ?c cs u" and u: "i \<noteq> j" "0 < u" "u < nchunks cs"
      using s(1) cur by (simp_all add: cache_state_def)
    have i: "i < max_frames ?pm" "i < 2 ^ 52" using s(3) [OF cur] ok(2) by (simp_all add: used_def)
    have nz: "page h i \<noteq> 0" "chunk (page h i) cs u \<noteq> 0"
      using page_nonzero [OF ok(1) i(1)] page_unat(2) [OF ok(1) i(1), of "first_off cs + u * cs"] chunk_bound [OF cs u(3)] layout(5) [OF cs]
      by (simp_all del: of_nat_add of_nat_mult)
    let ?m = "st64 (smem st) (?c + CACHE_LOCK) 1"
    note L = cache_lock(1) [OF k cnz refl] cache_lock(3) [OF k cnz, of 1]
    have so': "slab_ok ?m (page h i) ?c cs u"
      using slab_ok_cong [OF cs so, of ?m] slab_area_page [OF cs i(2)] lock_out [OF j(2)] u(1) by blast
    have k': "cache_ok ?m ?c cs 1 (if u = 0 then page h i else 0) (if u = 0 then 0 else page h i)" using L(2) u by simp
    obtain m2 m' where m: "slab_inner_alloc_chunk (page h i) ?m = Some (chunk (page h i) cs u, m2)" "cache_release ?c m2 = Some m'"
        "cache_state h m' j cs (if Suc u = nchunks cs then None else Some (i, Suc u))"
        "\<forall>x. frame_no h x \<noteq> j \<and> x \<notin> span (page h i) 0 (first_off cs) \<union> span (chunk (page h i) cs u) 0 cs \<longrightarrow> m' x = ?m x"
        "\<forall>x\<in>span (chunk (page h i) cs u) 0 cs. m' x = 0"
      using pick_chunk [OF cs u(3) refl refl u(1) i(2) j(2) nz(1) cnz nz(2) so' k'] by blast
    have part: "ld64 ?m (?c + CACHE_PARTIAL) = page h i" using L(2) by (simp add: cache_ok_def)
    have "slab_alloc_chunk h (int k) st = Some (chunk (page h i) cs u, st\<lparr>smem := m'\<rparr>)"
      unfolding slab_alloc_chunk_def get64_def idx
      by (simp only: c L(1) bind.bind_lunit cnz if_False part m(1,2) prod.case nz not_False_eq_True if_True)
    moreover have "m' x = smem st x" if x: "x \<notin> owned h j cs cur" for x
    proof -
      have "span (chunk (page h i) cs u) 0 cs \<subseteq> slab_area (page h i) cs u"
        using chunk_bound [OF cs u(3)] span_mono [of "first_off cs + u * cs" "first_off cs + u * cs" "first_off cs + u * cs + cs" 4096 "page h i"]
        by (auto simp: slab_area_def span_chunk [OF cs u(3)] simp del: of_nat_add of_nat_mult)
      then show ?thesis using x m(4) lock_out [OF j(2), of h x "smem st" 1] by (auto simp: owned_def cur slab_area_def)
    qed
    ultimately show ?thesis
      using pm room_def m(3,5) by (intro exI [of _ m'] exI [of _ "slab_pmm st"]) (auto simp: cur_chunk_def cur_next_def cur room_def)
  next
    case None
    then have k: "cache_ok (smem st) ?c cs 0 0 0" using s(1) by (simp add: cache_state_def)
    let ?m = "st64 (smem st) (?c + CACHE_LOCK) 1" and ?p = "page h f"
    note L = cache_lock(1) [OF k cnz refl] cache_lock(3) [OF k cnz, of 1]
    have lists: "ld64 ?m (?c + CACHE_PARTIAL) = 0" "ld64 ?m ?c = 0" using L(2) by (simp_all add: cache_ok_def)
    obtain pm' m1 where sp: "slab_spawn h ?c (st\<lparr>smem := ?m\<rparr>) = Some (st\<lparr>smem := m1, slab_pmm := pm'\<rparr>)"
        "pmm_inv h pm'" "used pm' = used ?pm \<union> {f}" "max_frames pm' = max_frames ?pm" "room (N - 1) pm'"
        "cache_ok m1 ?c cs 1 ?p 0" "slab_ok m1 ?p ?c cs 0"
        "\<forall>x. frame_no h x \<noteq> f \<and> frame_no h x \<noteq> Suc f \<and> x \<notin> span ?c 0 8 \<longrightarrow> m1 x = ?m x"
      using slab_spawn_spec [OF cs, of h "st\<lparr>smem := ?m\<rparr>" N f ?p ?c j 1 0] pm j(1) jf L(2) by (auto simp: f_def)
    have n0: "0 < nchunks cs" using layout(3) [OF cs] by simp
    have fm: "f < max_frames ?pm" "f < 2 ^ 52" using f ok(2) by simp_all
    have nz: "?p \<noteq> 0" "chunk ?p cs 0 \<noteq> 0"
      using page_nonzero [OF ok(1) fm(1)] page_unat(2) [OF ok(1) fm(1), of "first_off cs + 0 * cs"] chunk_bound [OF cs n0] layout(5) [OF cs]
      by (simp_all del: of_nat_add of_nat_mult)
    have k': "cache_ok m1 ?c cs 1 (if (0::nat) = 0 then ?p else 0) (if (0::nat) = 0 then 0 else ?p)" using sp(6) by simp
    obtain m2 m' where m: "slab_inner_alloc_chunk ?p m1 = Some (chunk ?p cs 0, m2)" "cache_release ?c m2 = Some m'"
        "cache_state h m' j cs (if Suc 0 = nchunks cs then None else Some (f, Suc 0))"
        "\<forall>x. frame_no h x \<noteq> j \<and> x \<notin> span ?p 0 (first_off cs) \<union> span (chunk ?p cs 0) 0 cs \<longrightarrow> m' x = m1 x"
        "\<forall>x\<in>span (chunk ?p cs 0) 0 cs. m' x = 0"
      using pick_chunk [OF cs n0 refl refl jf(1) [symmetric] fm(2) j(2) nz(1) cnz nz(2) sp(7) k'] by blast
    have e: "ld64 m1 ?c = ?p" using sp(6) by (simp add: cache_ok_def)
    have "slab_alloc_chunk h (int k) st = Some (chunk ?p cs 0, st\<lparr>smem := m', slab_pmm := pm'\<rparr>)"
      unfolding slab_alloc_chunk_def get64_def idx
      by (simp add: c L(1) cnz lists sp(1) e m(1,2) del: of_nat_add of_nat_mult)
    moreover have "m' x = smem st x" if x: "x \<notin> owned h j cs cur" "frame_no h x \<noteq> f" "frame_no h x \<noteq> Suc f" for x
    proof -
      have b: "first_off cs \<le> 4096" "first_off cs + 0 * cs + cs \<le> 4096" using layout(2) [OF cs] chunk_bound [OF cs n0] by simp_all
      have "x \<notin> span ?p 0 (first_off cs)" using x(2) in_page_base [of x h f 0 "first_off cs"] fm(2) b by blast
      moreover have "x \<notin> span (chunk ?p cs 0) 0 cs"
        using x(2) in_page_base [of x h f "first_off cs + 0 * cs" "first_off cs + 0 * cs + cs"] fm(2) b
        unfolding span_chunk [OF cs n0] by blast
      moreover have "frame_no h x \<noteq> j" using x(1) by (auto simp: owned_def)
      ultimately show ?thesis
        using m(4) sp(8) x lock_out [OF j(2), of h x "smem st" 1] in_page_base [of x h j 0 8] j(2) by auto
    qed
    ultimately show ?thesis
      using sp m(3,5) None by (intro exI [of _ m'] exI [of _ pm']) (auto simp: cur_chunk_def cur_next_def)
  qed
qed

end
