(* ===== verification/Block_Heap.thy ===== *)
theory Block_Heap
  imports Memory
begin

text \<open>
  What an allocator of memory blocks promises its clients, shared by the kernel's slab allocator and
  the user library's free list. Clients know the blocks they hold by number; a block is a list of
  bytes, in which a byte is \<^term>\<open>None\<close> while nothing is promised of it. The locale is the interface
  of an allocator whose own data lie in the same memory as the blocks.
\<close>

section \<open>Blocks in memory\<close>

definition holds_block :: "memory \<Rightarrow> u64 \<times> nat \<Rightarrow> u8 option list \<Rightarrow> bool" where
  "holds_block m b bytes \<longleftrightarrow> length bytes = snd b \<and> snd b < 2 ^ 64 \<and>
     (\<forall>off < snd b. \<forall>v. bytes ! off = Some v \<longrightarrow> m (fst b + of_nat off) = v)"

abbreviation block :: "u64 \<times> nat \<Rightarrow> u64 set" where
  "block b \<equiv> span (fst b) 0 (snd b)"

definition blocks_ok :: "memory \<Rightarrow> u64 set \<Rightarrow> (u64 \<times> nat) list \<Rightarrow> u8 option list list \<Rightarrow> bool" where
  "blocks_ok m priv live bs \<longleftrightarrow> list_all2 (holds_block m) live bs \<and>
     sorted_wrt (\<lambda>b c. block b \<inter> block c = {}) live \<and> (\<forall>b\<in>set live. fst b \<noteq> 0 \<and> block b \<inter> priv = {})"

definition del_nth :: "nat \<Rightarrow> 'a list \<Rightarrow> 'a list" where
  "del_nth k xs = take k xs @ drop (Suc k) xs"

lemma offset_in_block: "off < n \<Longrightarrow> n < 2 ^ 64 \<Longrightarrow> a + of_nat off \<in> span a 0 n"
  by (simp add: span_def unat_of_nat_small)

lemma offset_inj: "i < 2 ^ 64 \<Longrightarrow> j < 2 ^ 64 \<Longrightarrow> (a :: u64) + of_nat i = a + of_nat j \<Longrightarrow> i = j"
  by (metis add_left_cancel unat_of_nat_small)

lemma holds_block_cong:
  assumes "holds_block m b bytes" "\<And>x. x \<in> block b \<Longrightarrow> m' x = m x"
  shows "holds_block m' b bytes"
  using assms offset_in_block [of _ "snd b" "fst b"] by (auto simp: holds_block_def)

lemma holds_block_poke:
  assumes "holds_block m b bytes" "off < snd b"
  shows "holds_block (m(fst b + of_nat off := v)) b (bytes[off := Some v])"
proof -
  have "j = off" if "j < snd b" "fst b + of_nat j = fst b + of_nat off" for j
    using offset_inj [OF _ _ that(2)] that(1) assms by (auto simp: holds_block_def)
  then show ?thesis using assms unfolding holds_block_def by (auto simp: nth_list_update)
qed

lemma blocks_ok_len:
  assumes "blocks_ok m priv live bs"
  shows "length bs = length live" "i < length live \<Longrightarrow> length (bs ! i) = snd (live ! i)"
    "i < length live \<Longrightarrow> holds_block m (live ! i) (bs ! i)"
  using assms by (auto simp: blocks_ok_def list_all2_conv_all_nth holds_block_def)

lemma blocks_ok_disj:
  assumes "blocks_ok m priv live bs" "i < length live" "k < length live" "i \<noteq> k"
  shows "block (live ! i) \<inter> block (live ! k) = {}"
  using assms sorted_wrt_nth_less [of "\<lambda>b c. block b \<inter> block c = {}" live i k]
    sorted_wrt_nth_less [of "\<lambda>b c. block b \<inter> block c = {}" live k i]
  by (cases "i < k") (auto simp: blocks_ok_def)

lemma blocks_ok_cong:
  assumes "blocks_ok m priv live bs" "priv' \<subseteq> priv" "\<And>x. x \<notin> priv \<Longrightarrow> m' x = m x"
  shows "blocks_ok m' priv' live bs"
proof -
  have "block b \<inter> priv = {}" if "b \<in> set live" for b using assms(1) that by (auto simp: blocks_ok_def)
  then have "holds_block m' b bytes" if "holds_block m b bytes" "b \<in> set live" for b bytes
    using holds_block_cong [OF that(1), of m'] that(2) assms(3) by blast
  then have "list_all2 (holds_block m') live bs"
    using assms(1) by (auto simp: blocks_ok_def intro: list.rel_mono_strong)
  then show ?thesis using assms(1,2) by (auto simp: blocks_ok_def)
qed

lemma blocks_ok_add:
  assumes ok: "blocks_ok m priv live bs" and "priv' \<subseteq> priv" "\<And>x. x \<notin> priv \<Longrightarrow> m' x = m x"
    and b: "fst b \<noteq> 0" "block b \<subseteq> priv" "block b \<inter> priv' = {}" "holds_block m' b bytes"
  shows "blocks_ok m' priv' (live @ [b]) (bs @ [bytes])"
proof -
  have "blocks_ok m' priv' live bs" by (rule blocks_ok_cong [OF assms(1-3)])
  moreover have "block c \<inter> block b = {}" if "c \<in> set live" for c using ok that b(2) unfolding blocks_ok_def by blast
  ultimately show ?thesis using b by (simp add: blocks_ok_def sorted_wrt_append list_all2_appendI)
qed

lemma blocks_ok_del:
  assumes "blocks_ok m priv live bs"
  shows "blocks_ok m priv (del_nth k live) (del_nth k bs)"
proof (cases "k < length live")
  case True
  then have "sorted_wrt (\<lambda>b c. block b \<inter> block c = {}) (take k live @ live ! k # drop (Suc k) live)"
    using assms by (simp add: blocks_ok_def flip: id_take_nth_drop)
  then have "sorted_wrt (\<lambda>b c. block b \<inter> block c = {}) (del_nth k live)"
    by (auto simp: del_nth_def sorted_wrt_append)
  moreover have "list_all2 (holds_block m) (del_nth k live) (del_nth k bs)"
    using assms by (auto simp: blocks_ok_def del_nth_def intro!: list_all2_appendI)
  moreover have "set (del_nth k live) \<subseteq> set live"
    by (auto simp: del_nth_def dest: in_set_takeD in_set_dropD)
  ultimately show ?thesis using assms by (auto simp: blocks_ok_def)
next
  case False
  then show ?thesis using assms blocks_ok_len(1) [OF assms] by (simp add: del_nth_def)
qed

lemma blocks_ok_poke:
  assumes ok: "blocks_ok m priv live bs" and k: "k < length live" "off < snd (live ! k)"
  shows "blocks_ok (m(fst (live ! k) + of_nat off := v)) priv live (bs[k := (bs ! k)[off := Some v]])"
proof -
  let ?x = "fst (live ! k) + of_nat off" and ?m = "m(fst (live ! k) + of_nat off := v)"
  note len = blocks_ok_len [OF ok]
  have x: "?x \<in> block (live ! k)" using offset_in_block [OF k(2)] len(3) [OF k(1)] by (simp add: holds_block_def)
  have "holds_block ?m (live ! i) (bs[k := (bs ! k)[off := Some v]] ! i)" if i: "i < length live" for i
  proof (cases "i = k")
    case False
    then have "holds_block ?m (live ! i) (bs ! i)"
      using blocks_ok_disj [OF ok i k(1) False] x by (intro holds_block_cong [OF len(3) [OF i]]) auto
    then show ?thesis using False by simp
  next
    case True
    then show ?thesis using holds_block_poke [OF len(3) [OF k(1)] k(2)] k(1) len(1) by simp
  qed
  then have "list_all2 (holds_block ?m) live (bs[k := (bs ! k)[off := Some v]])" using len(1) by (simp add: list_all2_conv_all_nth)
  then show ?thesis using ok by (simp add: blocks_ok_def)
qed

lemma blocks_ok_priv:
  assumes "blocks_ok m priv live bs" "k < length live" "off < snd (live ! k)"
  shows "fst (live ! k) + of_nat off \<notin> priv"
  using assms offset_in_block [of off "snd (live ! k)" "fst (live ! k)"] blocks_ok_len(3) [OF assms(1,2)] nth_mem [OF assms(2)]
  unfolding blocks_ok_def holds_block_def by blast

section \<open>The interface\<close>

text \<open>
  An allocator has a state, a ghost description of how its memory is laid out, the memory itself and
  the set of bytes that no client holds. What clients write outside that set does not disturb it.
\<close>

locale block_heap =
  fixes inv :: "'s \<Rightarrow> 'l \<Rightarrow> bool" and bytes :: "'s \<Rightarrow> memory" and set_bytes :: "memory \<Rightarrow> 's \<Rightarrow> 's"
    and priv :: "'s \<Rightarrow> 'l \<Rightarrow> u64 set"
  assumes bytes_set: "bytes (set_bytes m s) = m"
    and priv_set: "priv (set_bytes m s) L = priv s L"
    and inv_set: "inv s L \<Longrightarrow> (\<And>x. x \<in> priv s L \<Longrightarrow> m x = bytes s x) \<Longrightarrow> inv (set_bytes m s) L"
begin

definition refines :: "'s \<Rightarrow> 'l \<Rightarrow> (u64 \<times> nat) list \<Rightarrow> u8 option list list \<Rightarrow> bool" where
  "refines s L live bs \<longleftrightarrow> inv s L \<and> blocks_ok (bytes s) (priv s L) live bs"

lemma poke_refines:
  assumes r: "refines s L live bs" and k: "k < length live" "off < snd (live ! k)"
  shows "refines (set_bytes ((bytes s)(fst (live ! k) + of_nat off := v)) s) L live (bs[k := (bs ! k)[off := Some v]])"
proof -
  have ok: "inv s L" "blocks_ok (bytes s) (priv s L) live bs" using r by (simp_all add: refines_def)
  have "inv (set_bytes ((bytes s)(fst (live ! k) + of_nat off := v)) s) L"
    using blocks_ok_priv [OF ok(2) k] by (intro inv_set [OF ok(1)]) auto
  then show ?thesis using blocks_ok_poke [OF ok(2) k] by (simp add: refines_def bytes_set priv_set)
qed

lemma alloc_refines:
  assumes r: "refines s L live bs" and s': "inv s' L'" "priv s' L' \<subseteq> priv s L"
    and b: "fst b \<noteq> 0" "block b \<subseteq> priv s L" "block b \<inter> priv s' L' = {}" "holds_block (bytes s') b c"
    and same: "\<And>x. x \<notin> priv s L \<Longrightarrow> bytes s' x = bytes s x"
  shows "refines s' L' (live @ [b]) (bs @ [c])"
  using r s'(1) blocks_ok_add [OF _ s'(2) same b] by (auto simp: refines_def)

end

end
