(* ===== verification/Slab_Heap.thy ===== *)
theory Slab_Heap
  imports Slab Block_Heap
begin

text \<open>
  The allocator as its clients see it. The invariant of the eight caches together, that
  \<open>init_slab\<close> establishes it and that \<open>slab_alloc\<close> keeps it, hands out only bytes nobody uses and
  touches no byte a client owns; a heap of blocks that \<open>kmalloc\<close> refines; and what
  \<open>slab_free_chunk\<close> does to the lists.
\<close>

section \<open>The invariant of the caches\<close>

type_synonym layout = "(nat \<Rightarrow> nat) \<times> (nat \<Rightarrow> (nat \<times> nat) option)"

definition cache_frames :: "layout \<Rightarrow> nat \<Rightarrow> nat set" where
  "cache_frames L k = insert (fst L k) (case snd L k of None \<Rightarrow> {} | Some (i, u) \<Rightarrow> {i})"

definition slab_inv :: "u64 \<Rightarrow> slabs \<Rightarrow> layout \<Rightarrow> bool" where
  "slab_inv h st L \<longleftrightarrow> pmm_inv h (slab_pmm st) \<and> max_caches st = 8 \<and> length (caches st) = 16 \<and>
     (\<forall>k<8. caches st ! k = page h (fst L k) \<and> cache_state h (smem st) (fst L k) (csize k) (snd L k) \<and>
        cache_frames L k \<subseteq> used (slab_pmm st)) \<and>
     (\<forall>k<8. \<forall>k'<8. k \<noteq> k' \<longrightarrow> cache_frames L k \<inter> cache_frames L k' = {})"

text \<open>The bytes that belong to the allocator, and those no client can own: these and the free frames.\<close>

definition owned_all :: "u64 \<Rightarrow> layout \<Rightarrow> u64 set" where
  "owned_all h L = (\<Union>k<8. owned h (fst L k) (csize k) (snd L k))"

definition unowned :: "u64 \<Rightarrow> slabs \<Rightarrow> layout \<Rightarrow> u64 set" where
  "unowned h st L = owned_all h L \<union> {x. frame_no h x \<notin> used (slab_pmm st)}"

lemma csize_in: "k < 8 \<Longrightarrow> csize k \<in> {8, 16, 32, 64, 128, 256, 512, 1024}"
  by (rule csize_range(1))

lemma used_small: "pmm_inv h pm \<Longrightarrow> i \<in> used pm \<Longrightarrow> i < 2 ^ 52"
  by (auto simp: pmm_inv_def pmm_ok_def used_def)

lemma owned_frames:
  assumes "slab_inv h st L" "k < 8" "x \<in> owned h (fst L k) (csize k) (snd L k)"
  shows "frame_no h x \<in> cache_frames L k"
proof (cases "snd L k")
  case None
  then show ?thesis using assms(3) by (simp add: owned_def cache_frames_def)
next
  case (Some iu)
  then obtain i u where iu: "snd L k = Some (i, u)" by (cases iu) auto
  then have "i < 2 ^ 52" using assms(1,2) used_small [of h "slab_pmm st" i] by (auto simp: slab_inv_def cache_frames_def)
  then show ?thesis
    using assms(3) iu slab_area_page [OF csize_in [OF assms(2)], of i x h u] by (auto simp: owned_def cache_frames_def)
qed

section \<open>Choosing the cache\<close>

lemma csize_mono: "k < 8 \<Longrightarrow> (of_nat (csize k) :: u64) = known_chunks ! k"
  using csize_range(2) by simp

lemma cache_index_loop_find:
  assumes "slab_inv h st L" "i + n = 8"
  shows "cache_index_loop (smem st) (caches st) sz i n =
    Some (case find (\<lambda>k. unat sz \<le> csize k) [i..<8] of None \<Rightarrow> -1 | Some k \<Rightarrow> int k)"
  using assms(2)
proof (induction n arbitrary: i)
  case 0
  then show ?case by simp
next
  case (Suc n)
  then have i: "i < 8" by simp
  let ?c = "page h (fst L i)"
  have "caches st ! i = ?c" "cache_state h (smem st) (fst L i) (csize i) (snd L i)" "fst L i \<in> used (slab_pmm st)"
    using assms(1) i by (auto simp: slab_inv_def cache_frames_def)
  then have c: "rd (caches st) i = Some ?c" "get64 (smem st) ?c CACHE_CHUNK = Some (of_nat (csize i))"
    using assms(1) i page_nonzero [of h "slab_pmm st" "fst L i"]
    by (auto simp: slab_inv_def pmm_inv_def used_def get64_def cache_state_def cache_ok_def split: option.splits)
  have le: "sz \<le> of_nat (csize i) \<longleftrightarrow> unat sz \<le> csize i"
    using csize_in [OF i] by (auto simp: word_le_nat_alt)
  show ?case
    using Suc i by (simp add: c le upt_conv_Cons)
qed

lemma get_cache_index_find:
  assumes "slab_inv h st L"
  shows "get_cache_index sz st = Some (case find (\<lambda>k. unat sz \<le> csize k) [0..<8] of None \<Rightarrow> -1 | Some k \<Rightarrow> int k)"
  using cache_index_loop_find [OF assms, of 0 8 sz] assms by (simp add: get_cache_index_def slab_inv_def)

lemma find_cache:
  "find (\<lambda>k. n \<le> csize k) [0..<8] = Some k \<Longrightarrow> k < 8 \<and> n \<le> csize k"
  "find (\<lambda>k. n \<le> csize k) [0..<8] = None \<longleftrightarrow> 1024 < n"
proof -
  show "find (\<lambda>k. n \<le> csize k) [0..<8] = Some k \<Longrightarrow> k < 8 \<and> n \<le> csize k" by (auto simp: find_Some_iff)
  have "csize k \<le> 1024" if "k < 8" for k using csize_in [OF that] by auto
  then have "csize k < n" if "1024 < n" "k < 8" for k using that by (blast intro: le_less_trans)
  moreover have "1024 < n" if "\<forall>k<8. csize k < n" using that [rule_format, of 7] by (simp add: csize_def known_chunks_def)
  ultimately show "find (\<lambda>k. n \<le> csize k) [0..<8] = None \<longleftrightarrow> 1024 < n"
    by (auto simp: find_None_iff not_le)
qed

section \<open>Allocation\<close>

text \<open>What one call of the allocator does, from the point of view of the clients.\<close>

definition fresh_block :: "u64 \<Rightarrow> slabs \<Rightarrow> layout \<Rightarrow> u64 \<Rightarrow> nat \<Rightarrow> slabs \<Rightarrow> layout \<Rightarrow> bool" where
  "fresh_block h st L a n st' L' \<longleftrightarrow> a \<noteq> 0 \<and> span a 0 n \<subseteq> unowned h st L \<and> span a 0 n \<inter> unowned h st' L' = {} \<and>
     unowned h st' L' \<subseteq> unowned h st L \<and> (\<forall>x. x \<notin> unowned h st L \<longrightarrow> smem st' x = smem st x)"

definition need :: "u64 \<Rightarrow> nat" where
  "need sz = (if unat sz \<le> 1024 then 1 else Suc (unat (num_pages sz)))"

text \<open>
  One cache changes: frames \<open>F\<close> that were free come into use, the current slab of cache \<open>k\<close> becomes
  \<open>cur'\<close>, and of the used frames only bytes the cache owns are written.
\<close>

definition cache_update :: "u64 \<Rightarrow> slabs \<Rightarrow> layout \<Rightarrow> nat \<Rightarrow> nat set \<Rightarrow> (nat \<times> nat) option \<Rightarrow> memory \<Rightarrow> pmm \<Rightarrow> bool" where
  "cache_update h st L k F cur' m' pm' \<longleftrightarrow> slab_inv h st L \<and> k < 8 \<and> pmm_inv h pm' \<and>
     used pm' = used (slab_pmm st) \<union> F \<and> F \<inter> used (slab_pmm st) = {} \<and>
     cache_state h m' (fst L k) (csize k) cur' \<and> cache_frames (fst L, (snd L)(k := cur')) k \<subseteq> cache_frames L k \<union> F \<and>
     (\<forall>x. frame_no h x \<in> used (slab_pmm st) \<and> x \<notin> owned h (fst L k) (csize k) (snd L k) \<longrightarrow> m' x = smem st x)"

lemma cache_frames_inv:
  assumes "slab_inv h st L" "k < 8"
  shows "cache_frames L k \<subseteq> used (slab_pmm st)" "k' < 8 \<Longrightarrow> k' \<noteq> k \<Longrightarrow> cache_frames L k' \<inter> cache_frames L k = {}"
    "cache_state h (smem st) (fst L k) (csize k) (snd L k)" "fst L k < 2 ^ 52"
  using assms used_small [of h "slab_pmm st" "fst L k"] by (auto simp: slab_inv_def cache_frames_def)

lemma slab_inv_update:
  assumes up: "cache_update h st L k F cur' m' pm'"
  shows "slab_inv h (st\<lparr>smem := m', slab_pmm := pm'\<rparr>) (fst L, (snd L)(k := cur'))"
proof -
  let ?L' = "(fst L, (snd L)(k := cur'))"
  have inv: "slab_inv h st L" and k: "k < 8" and u: "pmm_inv h pm'" "used pm' = used (slab_pmm st) \<union> F" "F \<inter> used (slab_pmm st) = {}"
    and s: "cache_state h m' (fst L k) (csize k) cur'" and fr: "cache_frames ?L' k \<subseteq> cache_frames L k \<union> F"
    and same: "\<And>x. frame_no h x \<in> used (slab_pmm st) \<Longrightarrow> x \<notin> owned h (fst L k) (csize k) (snd L k) \<Longrightarrow> m' x = smem st x"
    using up by (auto simp: cache_update_def)
  note ci = cache_frames_inv [OF inv]
  have fr': "cache_frames ?L' k' = cache_frames L k'" if "k' \<noteq> k" for k' using that by (simp add: cache_frames_def)
  have other: "cache_state h m' (fst L k') (csize k') (snd L k')" if k': "k' < 8" "k' \<noteq> k" for k'
  proof (rule cache_state_cong [OF csize_in [OF k'(1)] ci(3,4) [OF k'(1)]])
    fix x assume x: "x \<in> owned h (fst L k') (csize k') (snd L k')"
    have "frame_no h x \<in> used (slab_pmm st)" "frame_no h x \<notin> cache_frames L k"
      using owned_frames [OF inv k'(1) x] ci(1) [OF k'(1)] ci(2) [OF k k'] by blast+
    then show "m' x = smem st x" using same [of x] owned_frames [OF inv k] by blast
  qed
  have new: "cache_frames ?L' k \<inter> cache_frames L k' = {}" if "k' < 8" "k' \<noteq> k" for k'
    using fr ci(2) [OF k that] ci(1) [OF that(1)] u(3) by blast
  have "caches st ! k' = page h (fst L k') \<and> cache_state h m' (fst L k') (csize k') (snd ?L' k') \<and> cache_frames ?L' k' \<subseteq> used pm'"
    if "k' < 8" for k'
    using that s other [OF that] fr fr' [of k'] ci(1) [OF that] u(2) inv by (cases "k' = k") (auto simp: slab_inv_def)
  moreover have "cache_frames ?L' k1 \<inter> cache_frames ?L' k2 = {}" if "k1 < 8" "k2 < 8" "k1 \<noteq> k2" for k1 k2
  proof (cases "k1 = k")
    case True
    then show ?thesis using new [of k2] fr' [of k2] that by auto
  next
    case False
    then show ?thesis using new [of k1] fr' [OF False] fr' [of k2] ci(2) [OF that(2,1,3)] that by (cases "k2 = k") auto
  qed
  ultimately show ?thesis using inv u(1) by (simp add: slab_inv_def)
qed

lemma fresh_block_update:
  assumes up: "cache_update h st L k F cur' m' pm'" and a: "a \<noteq> 0"
    and B: "\<And>x. x \<in> span a 0 n \<Longrightarrow> frame_no h x \<in> used pm' \<and> x \<notin> owned h (fst L k) (csize k) cur' \<and>
      (x \<in> owned h (fst L k) (csize k) (snd L k) \<or> frame_no h x \<in> F)"
    and O: "\<And>x. x \<in> owned h (fst L k) (csize k) cur' \<Longrightarrow> x \<in> owned h (fst L k) (csize k) (snd L k) \<or> frame_no h x \<in> F"
  shows "fresh_block h st L a n (st\<lparr>smem := m', slab_pmm := pm'\<rparr>) (fst L, (snd L)(k := cur'))"
proof -
  let ?o = "\<lambda>k. owned h (fst L k) (csize k) (snd L k)"
  have inv: "slab_inv h st L" and k: "k < 8" and u: "used pm' = used (slab_pmm st) \<union> F" "F \<inter> used (slab_pmm st) = {}"
    and same: "\<And>x. frame_no h x \<in> used (slab_pmm st) \<Longrightarrow> x \<notin> ?o k \<Longrightarrow> m' x = smem st x"
    using up by (auto simp: cache_update_def)
  have un: "unowned h st L = (\<Union>k<8. ?o k) \<union> {x. frame_no h x \<notin> used (slab_pmm st)}" by (simp add: unowned_def owned_all_def)
  have un': "unowned h (st\<lparr>smem := m', slab_pmm := pm'\<rparr>) (fst L, (snd L)(k := cur')) =
      owned h (fst L k) (csize k) cur' \<union> (\<Union>k'\<in>{..<8} - {k}. ?o k') \<union> {x. frame_no h x \<notin> used pm'}"
    using k by (auto simp: unowned_def owned_all_def split: if_splits)
  have "x \<notin> ?o k'" if x: "x \<in> span a 0 n" and k': "k' < 8" "k' \<noteq> k" for x k'
  proof
    assume "x \<in> ?o k'"
    then have f: "frame_no h x \<in> cache_frames L k'" by (rule owned_frames [OF inv k'(1)])
    then have "frame_no h x \<notin> F" using cache_frames_inv(1) [OF inv k'(1)] u(2) by blast
    then have "frame_no h x \<in> cache_frames L k" using B [OF x] owned_frames [OF inv k] by blast
    with f show False using cache_frames_inv(2) [OF inv k k'] by blast
  qed
  then have "span a 0 n \<inter> unowned h (st\<lparr>smem := m', slab_pmm := pm'\<rparr>) (fst L, (snd L)(k := cur')) = {}" using B unfolding un' by blast
  moreover have "span a 0 n \<subseteq> unowned h st L" using B u(2) k unfolding un by blast
  moreover have "unowned h (st\<lparr>smem := m', slab_pmm := pm'\<rparr>) (fst L, (snd L)(k := cur')) \<subseteq> unowned h st L"
    using O u k unfolding un un' by blast
  moreover have "m' x = smem st x" if "x \<notin> unowned h st L" for x using that same k unfolding un by blast
  ultimately show ?thesis using a by (simp add: fresh_block_def)
qed

lemma slab_alloc_small:
  assumes inv: "slab_inv h st L" and r: "room N (slab_pmm st)" "2 \<le> N" and sz: "unat sz \<le> 1024"
  shows "\<exists>a n st' L'. slab_alloc h sz st = Some (a, st') \<and> slab_inv h st' L' \<and> room (N - 1) (slab_pmm st') \<and>
    unat sz \<le> n \<and> n \<le> 1024 \<and> fresh_block h st L a n st' L' \<and> (\<forall>x\<in>span a 0 n. smem st' x = 0)"
proof -
  obtain k where k: "find (\<lambda>k. unat sz \<le> csize k) [0..<8] = Some k"
    using find_cache(2) [of "unat sz"] sz by (cases "find (\<lambda>k. unat sz \<le> csize k) [0..<8]") auto
  note k8 = find_cache(1) [OF k]
  let ?f = "unat (cached_index (slab_pmm st))" and ?cs = "csize k" and ?j = "fst L k" and ?cur = "snd L k"
  let ?a = "cur_chunk h ?cs ?f ?cur" and ?F = "if ?cur = None then {?f} else {}"
  have cs: "?cs \<in> {8, 16, 32, 64, 128, 256, 512, 1024}" using csize_in k8 by blast
  have pm: "pmm_inv h (slab_pmm st)" using inv by (simp add: slab_inv_def)
  have c: "rd (caches st) k = Some (page h ?j)" "cache_state h (smem st) ?j ?cs ?cur" "?j \<in> used (slab_pmm st)"
      "\<And>i u. ?cur = Some (i, u) \<Longrightarrow> i \<in> used (slab_pmm st)"
    using inv k8 by (auto simp: slab_inv_def cache_frames_def)
  obtain m' pm' where a: "slab_alloc_chunk h (int k) st = Some (?a, st\<lparr>smem := m', slab_pmm := pm'\<rparr>)"
      "pmm_inv h pm'" "max_frames pm' = max_frames (slab_pmm st)" "room (N - 1) pm'"
      "used pm' = used (slab_pmm st) \<union> ?F" "cache_state h m' ?j ?cs (cur_next ?cs ?f ?cur)"
      "\<forall>x. x \<notin> owned h ?j ?cs ?cur \<and> (?cur = None \<longrightarrow> frame_no h x \<noteq> ?f \<and> frame_no h x \<noteq> Suc ?f) \<longrightarrow> m' x = smem st x"
      "\<forall>x\<in>span ?a 0 ?cs. m' x = 0"
    using slab_alloc_chunk_spec [OF cs c(1) pm r c(2,3)] c(4) by blast
  obtain i u where iu: "(case ?cur of None \<Rightarrow> (?f, 0) | Some iu \<Rightarrow> iu) = (i, u)" by fastforce
  have f: "?f \<notin> used (slab_pmm st)" "Suc ?f \<notin> used (slab_pmm st)" "?f < max_frames (slab_pmm st)" using r by (simp_all add: room_def)
  have u: "u < nchunks ?cs" "i \<noteq> ?j" "i \<in> used pm'" "?cur = None \<Longrightarrow> i = ?f" "?cur \<noteq> None \<Longrightarrow> ?cur = Some (i, u)"
    using iu c a(5) f layout(3) [OF cs] by (auto simp: cache_state_def split: option.splits)
  have i52: "i < 2 ^ 52" by (rule used_small [OF a(2) u(3)])
  have nx: "cur_next ?cs ?f ?cur = (if Suc u = nchunks ?cs then None else Some (i, Suc u))" by (simp add: cur_next_def iu)
  have ac: "?a = chunk (page h i) ?cs u" by (simp add: cur_chunk_def iu)
  have B: "span ?a 0 ?cs = span (page h i) (first_off ?cs + u * ?cs) (first_off ?cs + u * ?cs + ?cs)" "first_off ?cs + u * ?cs + ?cs \<le> 4096"
    unfolding ac by (rule span_chunk [OF cs u(1)]) (rule chunk_bound [OF cs u(1)])
  have up: "cache_update h st L k ?F (cur_next ?cs ?f ?cur) m' pm'"
    unfolding cache_update_def using inv k8 a(2,5,6,7) f nx u(4,5) by (auto simp: cache_frames_def split: option.splits)
  have "fresh_block h st L ?a ?cs (st\<lparr>smem := m', slab_pmm := pm'\<rparr>) (fst L, (snd L)(k := cur_next ?cs ?f ?cur))"
  proof (rule fresh_block_update [OF up])
    show "?a \<noteq> 0"
      using page_unat(2) [of h "slab_pmm st" i "first_off ?cs + u * ?cs"] pm B(2) layout(5) [OF cs] u(3) a(3)
      unfolding ac pmm_inv_def by (auto simp: used_def simp del: of_nat_add of_nat_mult)
    show "x \<in> owned h ?j ?cs ?cur \<or> frame_no h x \<in> ?F" if "x \<in> owned h ?j ?cs (cur_next ?cs ?f ?cur)" for x
      using that slab_area_page [OF cs i52, of x h "Suc u"] nx u(4,5)
      by (cases "?cur = None") (auto simp: owned_def slab_area_def span_def split: if_splits)
    fix x assume "x \<in> span ?a 0 ?cs"
    then have x: "x \<in> span (page h i) (first_off ?cs + u * ?cs) (first_off ?cs + u * ?cs + ?cs)" unfolding B(1) .
    have fx: "frame_no h x = i" using in_page_base [OF x B(2) i52] .
    show "frame_no h x \<in> used pm' \<and> x \<notin> owned h ?j ?cs (cur_next ?cs ?f ?cur) \<and> (x \<in> owned h ?j ?cs ?cur \<or> frame_no h x \<in> ?F)"
      using fx u x B(2) nx by (cases "?cur = None") (auto simp: owned_def slab_area_def span_def algebra_simps split: if_splits)
  qed
  moreover have "slab_alloc h sz st = Some (?a, st\<lparr>smem := m', slab_pmm := pm'\<rparr>)"
    using a(1) by (simp add: slab_alloc_def get_cache_index_find [OF inv] k)
  moreover have "?cs \<le> 1024" using layout(6) [OF cs] .
  ultimately show ?thesis using slab_inv_update [OF up] a(4,8) k8 by fastforce
qed

lemma num_pages_unat:
  shows "unat sz \<le> 4096 * unat (num_pages sz)" "unat (num_pages sz) \<le> unat sz div 4096 + 1"
    "unat (num_pages sz + 1) = Suc (unat (num_pages sz))"
proof -
  have d: "unat (sz div PAGE_SIZE_BYTES) = unat sz div 4096" "unat (sz mod PAGE_SIZE_BYTES) = unat sz mod 4096"
    by (simp_all add: PAGE_SIZE_BYTES_def unat_div_distrib unat_mod_distrib)
  have lt: "unat sz div 4096 < 2 ^ 52" using unat_bound [of sz] by (simp add: div_less_iff_less_mult)
  have "unat (sz div PAGE_SIZE_BYTES + 1) = unat sz div 4096 + 1" using d lt by (subst unat_add_small) simp_all
  then have n: "unat (num_pages sz) = (if unat sz mod 4096 = 0 then unat sz div 4096 else unat sz div 4096 + 1)"
    using d by (auto simp: num_pages_def word_unat_eq_iff)
  have "unat sz = unat sz div 4096 * 4096 + unat sz mod 4096" "unat sz mod 4096 < 4096" by simp_all
  then show "unat sz \<le> 4096 * unat (num_pages sz)" unfolding n by (auto simp: algebra_simps)
  show "unat (num_pages sz) \<le> unat sz div 4096 + 1" unfolding n by simp
  then show "unat (num_pages sz + 1) = Suc (unat (num_pages sz))" using lt by (subst unat_add_small) simp_all
qed

text \<open>A change of memory and of the frames in use that the caches do not see.\<close>

lemma slab_inv_grow:
  assumes inv: "slab_inv h st L" and pm: "pmm_inv h pm" "used (slab_pmm st) \<subseteq> used pm"
    and same: "\<And>x. x \<in> owned_all h L \<Longrightarrow> m x = smem st x"
  shows "slab_inv h (st\<lparr>smem := m, slab_pmm := pm\<rparr>) L"
proof -
  have "cache_state h m (fst L k) (csize k) (snd L k)" if k: "k < 8" for k
  proof (rule cache_state_cong [OF csize_in [OF k]])
    have c: "cache_frames L k \<subseteq> used (slab_pmm st)" using inv k by (simp add: slab_inv_def)
    show "cache_state h (smem st) (fst L k) (csize k) (snd L k)" using inv k by (simp add: slab_inv_def)
    show "fst L k < 2 ^ 52" using c used_small [of h "slab_pmm st"] inv by (auto simp: cache_frames_def slab_inv_def)
    show "m x = smem st x" if "x \<in> owned h (fst L k) (csize k) (snd L k)" for x
      using that k by (intro same) (auto simp: owned_all_def)
  qed
  then show ?thesis using inv pm by (auto simp: slab_inv_def)
qed

lemma slab_alloc_big:
  assumes inv: "slab_inv h st L" and r: "room N (slab_pmm st)" "Suc (unat (num_pages sz)) \<le> N" and sz: "1024 < unat sz"
  shows "\<exists>a n st'. slab_alloc h sz st = Some (a, st') \<and> slab_inv h st' L \<and> room (N - Suc (unat (num_pages sz))) (slab_pmm st') \<and>
    unat sz \<le> n \<and> fresh_block h st L a n st' L"
proof -
  let ?n = "unat (num_pages sz)" and ?f = "unat (cached_index (slab_pmm st))"
  have pm: "pmm_inv h (slab_pmm st)" "pmm_ok h (slab_pmm st)" "max_frames (slab_pmm st) < 2 ^ 52"
    using inv by (simp_all add: slab_inv_def pmm_inv_def pmm_ok_def)
  have f: "?f + Suc ?n < max_frames (slab_pmm st)" "\<And>i. i \<in> {?f..<?f + Suc ?n} \<Longrightarrow> i \<notin> used (slab_pmm st)" using r by (auto simp: room_def)
  obtain pm' where p: "palloc h (num_pages sz + 1) (slab_pmm st) = Some (page h ?f, pm')" "pmm_inv h pm'"
      "used pm' = used (slab_pmm st) \<union> {?f..<?f + Suc ?n}" "room (N - Suc ?n) pm'"
    using palloc_room [OF pm(1) r(1), of "num_pages sz + 1"] r(2) unfolding num_pages_unat(3) by blast
  have nz: "page h ?f \<noteq> 0" "page h (Suc ?f) \<noteq> 0" using page_nonzero [OF pm(2)] f(1) by simp_all
  let ?m = "st64 (smem st) (page h ?f) (num_pages sz)"
  let ?st' = "st\<lparr>smem := ?m, slab_pmm := pm'\<rparr>" and ?a = "page h (Suc ?f)"
  have fi: "find (\<lambda>k. unat sz \<le> csize k) [0..<8] = None" using find_cache(2) sz by blast
  have m: "?m x = smem st x" if "frame_no h x \<noteq> ?f" for x
    using that in_page_base [of x h ?f 0 8] f(1) pm(3) by (intro st64_out) auto
  have B: "span ?a 0 (4096 * ?n) = {x. frame_no h x \<in> {Suc ?f..<Suc ?f + ?n}}" using f(1) pm(3) by (intro span_pages) simp
  have f0: "?f \<notin> used (slab_pmm st)" using f(2) [of ?f] by simp
  have own: "frame_no h x \<in> used (slab_pmm st)" if "x \<in> owned_all h L" for x
    using that owned_frames [OF inv] inv by (fastforce simp: owned_all_def slab_inv_def)
  have "?m x = smem st x" if "x \<in> owned_all h L" for x using m [of x] f0 own [OF that] by metis
  then have "slab_inv h ?st' L" using p(2,3) by (intro slab_inv_grow [OF inv]) auto
  moreover have "fresh_block h st L ?a (4096 * ?n) ?st' L"
  proof -
    have new: "frame_no h x \<notin> used (slab_pmm st) \<and> x \<notin> owned_all h L \<and> frame_no h x \<in> used pm'" if "x \<in> span ?a 0 (4096 * ?n)" for x
      using that own [of x] f(2) [of "frame_no h x"] unfolding B p(3) by auto
    moreover have "?m x = smem st x" if "x \<notin> unowned h st L" for x
      using m [of x] f0 that by (cases "frame_no h x = ?f") (simp_all add: unowned_def)
    ultimately show ?thesis
      using nz(2) p(3) unfolding fresh_block_def unowned_def by auto
  qed
  moreover have "slab_alloc h sz st = Some (?a, ?st')"
    by (simp add: slab_alloc_def get_cache_index_find [OF inv] fi p(1) nz(1) page_Suc)
  ultimately show ?thesis using num_pages_unat(1) [of sz] p(4) by fastforce
qed

lemma slab_alloc_fresh:
  assumes "slab_inv h st L" "room N (slab_pmm st)" "need sz < N"
  shows "\<exists>a n st' L'. slab_alloc h sz st = Some (a, st') \<and> slab_inv h st' L' \<and> room (N - need sz) (slab_pmm st') \<and>
    unat sz \<le> n \<and> fresh_block h st L a n st' L' \<and> (unat sz \<le> 1024 \<longrightarrow> (\<forall>x\<in>span a 0 n. smem st' x = 0))"
proof (cases "unat sz \<le> 1024")
  case True
  with assms show ?thesis using slab_alloc_small [OF assms(1,2) _ True] by (fastforce simp: need_def)
next
  case False
  with assms show ?thesis using slab_alloc_big [OF assms(1,2), of sz] by (fastforce simp: need_def)
qed

section \<open>Initialisation\<close>

definition caches_made :: "u64 \<Rightarrow> nat \<Rightarrow> nat \<Rightarrow> slabs \<Rightarrow> (nat \<Rightarrow> nat) \<Rightarrow> bool" where
  "caches_made h N n st cf \<longleftrightarrow> pmm_inv h (slab_pmm st) \<and> room N (slab_pmm st) \<and> max_caches st = 8 \<and> cur_caches st = of_nat n \<and>
     length (caches st) = 16 \<and> inj_on cf {..<n} \<and>
     (\<forall>k<n. caches st ! k = page h (cf k) \<and> cf k \<in> used (slab_pmm st) \<and> cache_state h (smem st) (cf k) (csize k) None)"

lemma cache_insert_made:
  assumes mk: "caches_made h N n st cf" and n: "n < 8" "0 < N"
  shows "\<exists>st' cf'. cache_insert h (known_chunks ! n) st = Some st' \<and> caches_made h (N - 1) (Suc n) st' cf'"
proof -
  let ?f = "unat (cached_index (slab_pmm st))" and ?c = "known_chunks ! n"
  let ?p = "page h ?f"
  have pm: "pmm_inv h (slab_pmm st)" "room N (slab_pmm st)" "pmm_ok h (slab_pmm st)" "max_frames (slab_pmm st) < 2 ^ 52"
    using mk by (simp_all add: caches_made_def pmm_inv_def pmm_ok_def)
  have f: "?f < max_frames (slab_pmm st)" "?f \<notin> used (slab_pmm st)" using pm(2) n(2) by (simp_all add: room_def)
  obtain pm' where p: "palloc h 1 (slab_pmm st) = Some (?p, pm')" "pmm_inv h pm'" "used pm' = used (slab_pmm st) \<union> {?f}" "room (N - 1) pm'"
    using palloc_room [OF pm(1,2), of 1] n(2) by auto
  have nz: "?p \<noteq> 0" using page_nonzero [OF pm(3) f(1)] .
  have f52: "?f < 2 ^ 52" using f(1) pm(4) by simp
  define m where "m = st64 (st64 (st64 (st64 (st64 (smem st) (?p + CACHE_FULL) 0) (?p + CACHE_PARTIAL) 0) ?p 0) (?p + CACHE_CHUNK) ?c) (?p + CACHE_LOCK) 0"
  have out: "m x = smem st x" if "frame_no h x \<noteq> ?f" for x
  proof -
    have "x \<notin> span (?p + off) 0 8" if "unat off \<le> 32" for off
      using in_page [of x h ?f off 8] that f52 \<open>frame_no h x \<noteq> ?f\<close> by auto
    from this [of 0] this [of CACHE_FULL] this [of CACHE_PARTIAL] this [of CACHE_CHUNK] this [of CACHE_LOCK]
    show ?thesis by (simp add: m_def st64_out)
  qed
  have cn: "cur_caches st = of_nat n" "unat (of_nat n :: u64) = n" "?c \<le> SLAB_MAX_CHUNK_SIZE"
    using mk n csize_in [OF n(1)] by (auto simp: caches_made_def unat_of_nat_small csize_def word_le_nat_alt SLAB_MAX_CHUNK_SIZE_def)
  have c8: "(of_nat n :: u64) \<noteq> 8" using cn(2) n(1) by (auto simp: word_unat_eq_iff)
  let ?st' = "st\<lparr>smem := m, caches := (caches st)[n := ?p], cur_caches := of_nat n + 1, slab_pmm := pm'\<rparr>"
  have "cache_insert h ?c st = Some ?st'"
    using mk p(1) nz cn c8 n by (simp add: cache_insert_def set64_def caches_made_def m_def [symmetric])
  moreover have "cache_state h m ?f (csize n) None"
    using csize_range(2) [OF n(1)] by (simp add: cache_state_def cache_ok_def m_def slab_mem)
  moreover have "cache_state h m (cf k) (csize k) None" if "k < n" for k
  proof -
    have "cache_state h (smem st) (cf k) (csize k) None" "cf k \<in> used (slab_pmm st)" using mk that by (auto simp: caches_made_def)
    moreover have "cf k < 2 ^ 52" "cf k \<noteq> ?f" using used_small [OF pm(1)] calculation(2) f(2) by auto
    ultimately show ?thesis
      using out n that by (intro cache_state_cong [OF csize_in, of k h "smem st" "cf k" None m]) (auto simp: owned_def)
  qed
  moreover have "inj_on (cf(n := ?f)) {..<Suc n}"
    using mk f(2) by (auto simp: caches_made_def inj_on_def less_Suc_eq)
  ultimately show ?thesis
    using mk p n by (intro exI [of _ ?st'] exI [of _ "cf(n := ?f)"]) (auto simp: caches_made_def less_Suc_eq nth_list_update)
qed

lemma init_slab_inv:
  assumes "pmm_inv h (slab_pmm st)" "room N (slab_pmm st)" "8 \<le> N" "length (caches st) = 16"
  shows "\<exists>st' L. init_slab h st = Some st' \<and> slab_inv h st' L \<and> room (N - 8) (slab_pmm st')"
proof -
  let ?s = "st\<lparr>max_caches := 8, cur_caches := 0\<rparr>"
  have "\<exists>st'. for_loop 0 8 (\<lambda>i st. do { c \<leftarrow> rd known_chunks i; cache_insert h c st }) ?s = Some st' \<and>
      (\<exists>cf. caches_made h (N - 8) 8 st' cf)"
  proof (rule for_loop_rule [where I = "\<lambda>n st. \<exists>cf. caches_made h (N - n) n st cf"])
    show "\<exists>cf. caches_made h (N - 0) 0 ?s cf" using assms by (simp add: caches_made_def)
    fix n t assume n: "n < 8" and I: "\<exists>cf. caches_made h (N - n) n t cf"
    then obtain cf where cf: "caches_made h (N - n) n t cf" by blast
    have "n < length known_chunks" using n by (simp add: known_chunks_def)
    then show "\<exists>t'. Option.bind (rd known_chunks n) (\<lambda>c. cache_insert h c t) = Some t' \<and> (\<exists>cf. caches_made h (N - Suc n) (Suc n) t' cf)"
      using cache_insert_made [OF cf n] n assms(3) by auto
  qed simp
  then obtain st' cf where s: "for_loop 0 8 (\<lambda>i st. do { c \<leftarrow> rd known_chunks i; cache_insert h c st }) ?s = Some st'"
      "caches_made h (N - 8) 8 st' cf" by blast
  have "slab_inv h st' (cf, \<lambda>_. None)"
    using s(2) by (auto simp: caches_made_def slab_inv_def cache_frames_def inj_on_def)
  moreover have "init_slab h st = Some st'"
  proof -
    have "length known_chunks = 8" by (simp add: known_chunks_def)
    then show ?thesis using s(1) by (simp add: init_slab_def)
  qed
  ultimately show ?thesis using s(2) by (auto simp: caches_made_def)
qed

section \<open>A heap of blocks\<close>

text \<open>
  Clients allocate and write bytes into their blocks. The specification knows blocks only by
  number: a list of byte lists, in which a byte is \<^term>\<open>None\<close> while nothing is promised of it.
\<close>

datatype heap_op = Malloc u64 | Poke nat nat u8

fun run_client :: "u64 \<Rightarrow> heap_op list \<Rightarrow> slabs \<Rightarrow> (u64 \<times> nat) list \<Rightarrow> (slabs \<times> (u64 \<times> nat) list) option" where
  "run_client h [] st live = Some (st, live)"
| "run_client h (Malloc sz # ops) st live = do {
     (a, st) \<leftarrow> kmalloc h sz st;
     run_client h ops st (live @ [(a, unat sz)]) }"
| "run_client h (Poke k off v # ops) st live =
     (if k < length live \<and> off < snd (live ! k)
      then run_client h ops (st\<lparr>smem := (smem st)(fst (live ! k) + of_nat off := v)\<rparr>) live
      else run_client h ops st live)"

fun run_blocks :: "heap_op list \<Rightarrow> u8 option list list \<Rightarrow> u8 option list list" where
  "run_blocks [] bs = bs"
| "run_blocks (Malloc sz # ops) bs = run_blocks ops (bs @ [replicate (unat sz) (if unat sz \<le> 1024 then Some 0 else None)])"
| "run_blocks (Poke k off v # ops) bs =
     run_blocks ops (if k < length bs \<and> off < length (bs ! k) then bs[k := (bs ! k)[off := Some v]] else bs)"

fun demand :: "heap_op list \<Rightarrow> nat" where
  "demand [] = 0"
| "demand (Malloc sz # ops) = need sz + demand ops"
| "demand (Poke k off v # ops) = demand ops"

lemma slab_block_heap: "block_heap (slab_inv h) smem (\<lambda>m st. st\<lparr>smem := m\<rparr>) (unowned h)"
proof
  fix st :: slabs and L m
  assume inv: "slab_inv h st L" and same: "\<And>x. x \<in> unowned h st L \<Longrightarrow> m x = smem st x"
  have "slab_inv h (st\<lparr>smem := m, slab_pmm := slab_pmm st\<rparr>) L"
    using inv same by (intro slab_inv_grow) (auto simp: slab_inv_def unowned_def)
  then show "slab_inv h (st\<lparr>smem := m\<rparr>) L" by simp
qed (simp_all add: unowned_def)

interpretation slab: block_heap "slab_inv h" smem "\<lambda>m st. st\<lparr>smem := m\<rparr>" "unowned h" for h
  by (rule slab_block_heap)

lemma kmalloc_refines_step:
  assumes ok: "slab.refines h st L live bs" and r: "room N (slab_pmm st)" "need sz < N"
  shows "\<exists>a st' L'. kmalloc h sz st = Some (a, st') \<and> room (N - need sz) (slab_pmm st') \<and>
    slab.refines h st' L' (live @ [(a, unat sz)]) (bs @ [replicate (unat sz) (if unat sz \<le> 1024 then Some 0 else None)])"
proof -
  have inv: "slab_inv h st L" using ok by (simp add: slab.refines_def)
  obtain a n st' L' where a: "slab_alloc h sz st = Some (a, st')" "slab_inv h st' L'" "room (N - need sz) (slab_pmm st')"
      "unat sz \<le> n" "fresh_block h st L a n st' L'" "unat sz \<le> 1024 \<longrightarrow> (\<forall>x\<in>span a 0 n. smem st' x = 0)"
    using slab_alloc_fresh [OF inv r] by blast
  have sub: "span a 0 (unat sz) \<subseteq> span a 0 n" using a(4) by (rule span_mono [OF order_refl])
  have "holds_block (smem st') (a, unat sz) (replicate (unat sz) (if unat sz \<le> 1024 then Some 0 else None))"
    using a(6) sub offset_in_block [of _ "unat sz" a] unat_bound [of sz] by (auto simp: holds_block_def)
  then have "slab.refines h st' L' (live @ [(a, unat sz)]) (bs @ [replicate (unat sz) (if unat sz \<le> 1024 then Some 0 else None)])"
    using a(5) sub by (intro slab.alloc_refines [OF ok a(2)]) (auto simp: fresh_block_def)
  then show ?thesis using a(1,3) unfolding kmalloc_def by blast
qed

lemma run_client_ok:
  assumes "slab.refines h st L live bs" "room N (slab_pmm st)" "demand ops < N"
  shows "\<exists>st' L' live'. run_client h ops st live = Some (st', live') \<and> slab.refines h st' L' live' (run_blocks ops bs)"
  using assms
proof (induction ops arbitrary: st L live bs N)
  case Nil
  then show ?case unfolding run_client.simps run_blocks.simps by blast
next
  case (Cons e ops)
  show ?case
  proof (cases e)
    case (Malloc sz)
    obtain a st' L' where a: "kmalloc h sz st = Some (a, st')" "room (N - need sz) (slab_pmm st')"
        "slab.refines h st' L' (live @ [(a, unat sz)]) (bs @ [replicate (unat sz) (if unat sz \<le> 1024 then Some 0 else None)])"
      using kmalloc_refines_step [OF Cons.prems(1,2), of sz] Cons.prems(3) Malloc by auto
    then show ?thesis using Cons.IH [OF a(3,2)] Cons.prems(3) Malloc by (auto simp: less_diff_conv)
  next
    case (Poke k off v)
    have len: "length bs = length live" "\<And>i. i < length live \<Longrightarrow> length (bs ! i) = snd (live ! i)"
      using Cons.prems(1) by (auto simp: slab.refines_def dest: blocks_ok_len)
    show ?thesis
    proof (cases "k < length live \<and> off < snd (live ! k)")
      case True
      then show ?thesis
        using Cons.IH [OF slab.poke_refines [OF Cons.prems(1)], of k off N v] Cons.prems(2,3) Poke len by simp
    next
      case False
      then have "\<not> (k < length bs \<and> off < length (bs ! k))" using len by auto
      with False have "run_client h (e # ops) st live = run_client h ops st live" "run_blocks (e # ops) bs = run_blocks ops bs"
        unfolding Poke run_client.simps run_blocks.simps by (simp_all only: if_False)
      then show ?thesis using Cons.IH [OF Cons.prems(1,2)] Cons.prems(3) Poke by simp
    qed
  qed
qed

text \<open>
  C4: the allocator refines a heap of blocks. With the physical memory manager in order and enough
  free frames ahead of its position, \<open>init_slab\<close> returns, and then any sequence of \<open>kmalloc\<close> calls, of
  any sizes, and of writes of the clients into the blocks they were given returns: no block is
  null, no two blocks share a byte, the blocks of up to 1024 bytes start out zero, and every byte of
  every block holds at the end what was last written to it.
\<close>

theorem kmalloc_refines_heap:
  assumes "pmm_inv h (slab_pmm st)" "room N (slab_pmm st)" "length (caches st) = SLAB_CHUNK_SIZE_VARIENTS" "demand ops + 8 < N"
  shows "\<exists>st0 st' live. init_slab h st = Some st0 \<and> run_client h ops st0 [] = Some (st', live) \<and>
    list_all2 (holds_block (smem st')) live (run_blocks ops []) \<and>
    sorted_wrt (\<lambda>b c. block b \<inter> block c = {}) live \<and> (\<forall>b\<in>set live. fst b \<noteq> 0)"
proof -
  obtain st0 L where s: "init_slab h st = Some st0" "slab_inv h st0 L" "room (N - 8) (slab_pmm st0)"
    using init_slab_inv [OF assms(1,2)] assms(3,4) by (auto simp: SLAB_CHUNK_SIZE_VARIENTS_def)
  have "slab.refines h st0 L [] []" using s(2) by (simp add: slab.refines_def blocks_ok_def)
  moreover have "demand ops < N - 8" using assms(4) by simp
  ultimately obtain st' L' live where
    "run_client h ops st0 [] = Some (st', live)" "slab.refines h st' L' live (run_blocks ops [])"
    using run_client_ok [OF _ s(3)] by blast
  with s(1) show ?thesis by (auto simp: slab.refines_def blocks_ok_def)
qed

definition demo_slabs :: slabs where
  "demo_slabs = \<lparr>smem = (\<lambda>_. 0), caches = replicate 16 0, cur_caches = 0, max_caches = 0,
     slab_pmm = \<lparr>bitmap_max_entries = 32, cached_index = 0, bitmap = [0, 0, 0, 0], bitmap_addr = 0,
       bitmap_size_aligned = 0, pmm_lock = 0\<rparr>\<rparr>"

theorem kmalloc_refines_heap_witness:
  "\<exists>st0 st' live. init_slab 0xFFFF800000000000 demo_slabs = Some st0 \<and>
    run_client 0xFFFF800000000000 [Malloc 24, Malloc 5000, Poke 0 3 7] st0 [] = Some (st', live) \<and>
    smem st' (fst (live ! 0) + 3) = 7 \<and> smem st' (fst (live ! 0) + 4) = 0 \<and> block (live ! 0) \<inter> block (live ! 1) = {}"
proof -
  let ?ops = "[Malloc 24, Malloc 5000, Poke 0 3 7]"
  have b: "frame_bit [0, 0, 0, 0] n = False" if "n < 32" for n
  proof -
    have "n div 8 < length [0, 0, 0, 0 :: u8]" using that by simp
    then have "[0, 0, 0, 0 :: u8] ! (n div 8) \<in> {0}" by (metis empty_iff insert_iff list.simps(15) list.set(1) nth_mem)
    then show ?thesis by (simp add: frame_bit_def)
  qed
  have h: "pmm_inv 0xFFFF800000000000 (slab_pmm demo_slabs)" "room 20 (slab_pmm demo_slabs)" "length (caches demo_slabs) = SLAB_CHUNK_SIZE_VARIENTS"
    using b by (simp_all add: pmm_inv_def pmm_ok_def room_def used_def demo_slabs_def SLAB_CHUNK_SIZE_VARIENTS_def)
  have d: "demand ?ops + 8 < 20" by (simp add: need_def num_pages_def PAGE_SIZE_BYTES_def)
  obtain st0 st' live where r: "init_slab 0xFFFF800000000000 demo_slabs = Some st0" "run_client 0xFFFF800000000000 ?ops st0 [] = Some (st', live)"
      "list_all2 (holds_block (smem st')) live (run_blocks ?ops [])" "sorted_wrt (\<lambda>b c. block b \<inter> block c = {}) live"
    using kmalloc_refines_heap [OF h d] by blast
  have bl: "run_blocks ?ops [] = [(replicate 24 (Some 0))[3 := Some 7], replicate 5000 None]" by simp
  have len: "length live = 2" using r(3) unfolding bl by (simp add: list_all2_lengthD)
  then have h0: "holds_block (smem st') (live ! 0) ((replicate 24 (Some 0))[3 := Some 7])"
    using list_all2_nthD [OF r(3), of 0] unfolding bl by simp
  have at: "smem st' (fst (live ! 0) + of_nat n) = w" if "n < 24" "((replicate 24 (Some 0))[3 := Some 7]) ! n = Some w" for n w
    using h0 that by (simp add: holds_block_def)
  have "smem st' (fst (live ! 0) + 3) = 7" "smem st' (fst (live ! 0) + 4) = 0" using at [of 3 7] at [of 4 0] by simp_all
  moreover have "block (live ! 0) \<inter> block (live ! 1) = {}" using sorted_wrt_nth_less [OF r(4), of 0 1] len by simp
  ultimately show ?thesis using r(1,2) by auto
qed

section \<open>Freeing chunks of an almost full slab\<close>

text \<open>The fields of a slab and of its cache that the operations read.\<close>

definition fields :: "memory \<Rightarrow> u64 \<Rightarrow> u64 \<Rightarrow> nat \<Rightarrow> nat \<Rightarrow> u64 \<Rightarrow> u64 \<Rightarrow> u64 \<Rightarrow> u64 \<Rightarrow> bool" where
  "fields m p c cs us nx q fl fr \<longleftrightarrow> ld64 m p = c \<and> ld64 m (p + SLAB_PREV) = 0 \<and> ld64 m (p + SLAB_NEXT) = nx \<and>
     ld16 m (p + SLAB_USED) = of_nat us \<and> ld16 m (p + SLAB_TOTAL) = of_nat (nchunks cs) \<and> ld64 m (p + SLAB_FREE) = fr \<and>
     ld64 m (c + CACHE_PARTIAL) = q \<and> ld64 m (c + CACHE_FULL) = fl \<and> ld64 m (c + CACHE_LOCK) = 0 \<and>
     ld64 m (c + CACHE_CHUNK) = of_nat cs"

lemma page_mask:
  assumes "unat h mod 4096 = 0" "pmm_ok h pm" "i < max_frames pm" "off < 4096"
  shows "(page h i + of_nat off) AND NOT 0xfff = page h i"
proof -
  let ?x = "page h i + of_nat off"
  obtain q where "unat h = 4096 * q" using assms(1) by (metis mod_0_imp_dvd dvdE)
  then have "unat h + 4096 * i + off = off + 4096 * (q + i)" by simp
  then have "unat ?x mod 4096 = off" unfolding page_unat(1) [OF assms(2-4)] using assms(4) by (simp only: mod_mult_self2 mod_less)
  then have "unat (?x mod 4096) = unat (of_nat off :: u64)" using assms(4) by (simp add: unat_mod_distrib unat_of_nat_small)
  then have o: "?x mod 4096 = of_nat off" by (simp add: word_unat_eq_iff)
  have m: "(0xfff :: u64) = mask 12" by (simp add: mask_eq_exp_minus_1)
  have "?x AND mask 12 = of_nat off" using o by (simp add: take_bit_eq_mask [symmetric] take_bit_eq_mod)
  moreover have "?x - (?x AND mask 12) = ?x AND NOT (?x AND mask 12)" by (rule disjunctive_diff) (simp add: bit_and_iff)
  moreover have "?x AND NOT (?x AND mask 12) = ?x AND NOT (mask 12)" by (rule bit_word_eqI) (auto simp: bit_simps)
  ultimately show ?thesis unfolding m by simp
qed

text \<open>A chunk of the slab: its offset and that it lies behind the header.\<close>

definition chunk_of :: "u64 \<Rightarrow> nat \<Rightarrow> u64 \<Rightarrow> bool" where
  "chunk_of p cs a \<longleftrightarrow> (\<exists>off. a = p + of_nat off \<and> 36 \<le> off \<and> off + cs \<le> 4096)"

lemma free_almost_full:
  assumes cs: "cs \<in> {8, 16, 32, 64, 128, 256, 512, 1024}"
    and h: "unat h mod 4096 = 0" "pmm_ok h pm" "i < max_frames pm" "j < max_frames pm" "i \<noteq> j"
    and p: "p = page h i" "c = page h j" and a: "chunk_of p cs a"
    and f: "fields m p c cs us nx p fl fr" "nx = 0 \<or> nx = p" and us: "Suc us = nchunks cs"
  shows "\<exists>m'. slab_free_chunk a m = Some m' \<and> fields m' p c cs us p p (if nx = 0 then 0 else p) a"
proof -
  have nz: "p \<noteq> 0" "c \<noteq> 0" using page_nonzero [OF h(2)] h(3,4) p by auto
  have ij: "i < 2 ^ 52" "j < 2 ^ 52" "i \<noteq> j" "j \<noteq> i" using h by (auto simp: pmm_ok_def)
  obtain off where off: "a = p + of_nat off" "36 \<le> off" "off + cs \<le> 4096" using a by (auto simp: chunk_of_def)
  define w :: u64 where "w = of_nat off"
  have w: "unat w = off" "a = p + w" "off + 8 \<le> 4096" using off layout(5) [OF cs] by (simp_all add: w_def unat_of_nat_small)
  have sl: "a AND NOT 0xfff = p" using page_mask [OF h(1-3), of off] off layout(5) [OF cs] p by simp
  have anz: "a \<noteq> 0" using page_unat(2) [OF h(2,3), of off] off layout(5) [OF cs] p by simp
  have n: "unat (of_nat us :: u16) = us" "unat (of_nat (nchunks cs) :: u16) = nchunks cs"
    using us layout(4) [OF cs] by (simp_all add: unat_of_nat take_bit_eq_mod)
  show ?thesis
    using f ij w(1,3) off(2) nz anz n us unfolding slab_free_chunk_def Let_def sl
    unfolding w(2) cache_acquire_def cache_release_def get64_def set64_def transfer_slab_def fields_def
    unfolding p
    by (elim disjE) (simp_all add: slab_mem del: of_nat_Suc)
qed

lemma alloc_last:
  assumes cs: "cs \<in> {8, 16, 32, 64, 128, 256, 512, 1024}" and c: "rd (caches st) k = Some c"
    and h: "pmm_ok h pm" "i < max_frames pm" "j < max_frames pm" "i \<noteq> j"
    and p: "p = page h i" "c = page h j" and a: "chunk_of p cs a"
    and f: "fields (smem st) p c cs us p p p a" and us: "Suc us = nchunks cs"
  shows "\<exists>m' fr. slab_alloc_chunk h (int k) st = Some (a, st\<lparr>smem := m'\<rparr>) \<and> fields m' p c cs (nchunks cs) p p p fr"
proof -
  have nz: "p \<noteq> 0" "c \<noteq> 0" using page_nonzero [OF h(1)] h(2,3) p by auto
  have ij: "i < 2 ^ 52" "j < 2 ^ 52" "i \<noteq> j" "j \<noteq> i" using h by (auto simp: pmm_ok_def)
  obtain off where off: "a = p + of_nat off" "36 \<le> off" "off + cs \<le> 4096" using a by (auto simp: chunk_of_def)
  define w :: u64 where "w = of_nat off"
  have w: "unat w = off" "a = p + w" "8 \<le> cs" using off layout(5) [OF cs] by (simp_all add: w_def unat_of_nat_small)
  have anz: "p + w \<noteq> 0" using page_unat(2) [OF h(1,2), of off] off layout(5) [OF cs] p by (simp add: w_def)
  have n: "(of_nat us :: u16) \<noteq> of_nat (nchunks cs)" "(of_nat us :: u16) + 1 = of_nat (nchunks cs)" "unat (of_nat cs :: u64) = cs"
    using us layout(4,6) [OF cs] small_u16 [of us "nchunks cs"] by (auto simp: unat_of_nat_small simp flip: us)
  have idx: "nat (int k) = k" by simp
  show ?thesis
    using f ij w(1) off(2,3) w(3) nz anz n c
    unfolding slab_alloc_chunk_def Let_def idx w(2) cache_acquire_def cache_release_def get64_def set64_def fields_def
    unfolding p
    by (simp add: slab_mem slab_inner_alloc_chunk.simps [of "page h i"] take_chunk_def transfer_slab_def get64_def set64_def)
      (intro exI conjI, rule refl, simp_all add: slab_mem)
qed

lemma inner_alloc_hang:
  assumes "p \<noteq> 0" "ld16 m (p + SLAB_USED) = ld16 m (p + SLAB_TOTAL)" "ld64 m (p + SLAB_NEXT) = p"
  shows "slab_inner_alloc_chunk p m = None"
proof -
  have "\<not> (slab = p \<and> m' = m)" if "slab_inner_alloc_chunk slab m' = Some y" for slab m' y
    using _ that
  proof (rule slab_inner_alloc_chunk.raw_induct)
    fix f slab m' y
    assume ih: "\<And>slab m' y. f slab m' = Some y \<Longrightarrow> \<not> (slab = p \<and> m' = m)"
      and s: "(if slab = 0 then Some (0, m') else if ld16 m' (slab + SLAB_USED) \<noteq> ld16 m' (slab + SLAB_TOTAL) then take_chunk slab m'
        else f (ld64 m' (slab + SLAB_NEXT)) m') = Some y"
    show "\<not> (slab = p \<and> m' = m)" using s assms ih [of p m y] by auto
  qed
  then show ?thesis by (cases "slab_inner_alloc_chunk p m") auto
qed

lemma alloc_hang:
  assumes c: "rd (caches st) k = Some c" and h: "pmm_ok h pm" "i < max_frames pm" "j < max_frames pm" "i \<noteq> j"
    and p: "p = page h i" "c = page h j" and f: "fields (smem st) p c cs (nchunks cs) p p fl fr"
  shows "slab_alloc_chunk h (int k) st = None"
proof -
  let ?m = "st64 (smem st) (c + CACHE_LOCK) 1"
  have nz: "p \<noteq> 0" "c \<noteq> 0" using page_nonzero [OF h(1)] h(2,3) p by auto
  have ij: "i < 2 ^ 52" "j < 2 ^ 52" "i \<noteq> j" "j \<noteq> i" using h by (auto simp: pmm_ok_def)
  have "slab_inner_alloc_chunk p ?m = None"
    using f nz(1) ij unfolding p fields_def by (intro inner_alloc_hang) (simp_all add: slab_mem)
  moreover have "ld64 ?m (c + CACHE_PARTIAL) = p" using f by (simp add: fields_def slab_mem)
  moreover have "nat (int k) = k" by simp
  ultimately show ?thesis
    using f c nz by (simp add: slab_alloc_chunk_def cache_acquire_def get64_def set64_def fields_def)
qed

text \<open>
  C40: freeing blocks a cache. When all chunks but one of the only slab of a cache that has free chunks
  are in use, freeing two of them and allocating one leaves the full slab in the list of partial
  slabs as its own successor: the next allocation from the cache never returns, with the lock of
  the cache held.
\<close>

theorem slab_free_hangs:
  assumes k: "k < 8" "rd (caches st) k = Some (page h j)" and s: "cache_state h (smem st) j (csize k) (Some (i, u))"
    and h: "unat h mod 4096 = 0" "pmm_ok h (slab_pmm st)" "i < max_frames (slab_pmm st)" "j < max_frames (slab_pmm st)"
    and u: "Suc u = nchunks (csize k)" "x < u" "y < u" "x \<noteq> y"
  shows "\<exists>m1 m2 st'. slab_free_chunk (chunk (page h i) (csize k) x) (smem st) = Some m1 \<and>
    slab_free_chunk (chunk (page h i) (csize k) y) m1 = Some m2 \<and>
    slab_alloc_chunk h (int k) (st\<lparr>smem := m2\<rparr>) = Some (chunk (page h i) (csize k) y, st') \<and>
    slab_alloc_chunk h (int k) st' = None"
proof -
  let ?cs = "csize k" and ?p = "page h i" and ?c = "page h j"
  have cs: "?cs \<in> {8, 16, 32, 64, 128, 256, 512, 1024}" by (rule csize_in [OF k(1)])
  have ch: "chunk_of ?p ?cs (chunk ?p ?cs z)" if "z < u" for z
    unfolding chunk_of_def using that u(1) chunk_bound [OF cs, of z] layout(1) [OF cs] by (intro exI [of _ "first_off ?cs + z * ?cs"]) auto
  have ij: "i \<noteq> j" using s by (simp add: cache_state_def)
  have f0: "fields (smem st) ?p ?c ?cs u 0 ?p (ld64 (smem st) (?c + CACHE_FULL)) (chunk ?p ?cs u)"
    using s by (simp add: fields_def cache_state_def cache_ok_def slab_ok_def)
  obtain m1 where m1: "slab_free_chunk (chunk ?p ?cs x) (smem st) = Some m1" "fields m1 ?p ?c ?cs u ?p ?p 0 (chunk ?p ?cs x)"
    using free_almost_full [OF cs h ij refl refl ch [OF u(2)] f0 _ u(1)] by auto
  obtain m2 where m2: "slab_free_chunk (chunk ?p ?cs y) m1 = Some m2" "fields m2 ?p ?c ?cs u ?p ?p ?p (chunk ?p ?cs y)"
    using free_almost_full [OF cs h ij refl refl ch [OF u(3)] m1(2) _ u(1)] page_nonzero [OF h(2,3)] by auto
  obtain m3 fr where m3: "slab_alloc_chunk h (int k) (st\<lparr>smem := m2\<rparr>) = Some (chunk ?p ?cs y, st\<lparr>smem := m3\<rparr>)"
      "fields m3 ?p ?c ?cs (nchunks ?cs) ?p ?p ?p fr"
    using alloc_last [OF cs _ h(2-4) ij refl refl ch [OF u(3)] _ u(1), of "st\<lparr>smem := m2\<rparr>" k] k(2) m2(2) by auto
  have "slab_alloc_chunk h (int k) (st\<lparr>smem := m3\<rparr>) = None"
    using alloc_hang [OF _ h(2-4) ij refl refl, of "st\<lparr>smem := m3\<rparr>" k] k(2) m3(2) by auto
  with m1(1) m2(1) m3(1) show ?thesis by blast
qed

definition full_slabs :: slabs where
  "full_slabs = (let c = 0xFFFF800000000000; p = c + 0x1000 in demo_slabs\<lparr>caches := replicate 16 c,
     smem := st64 (st64 (st64 (st64 (st16 (st16 (st64 (\<lambda>_. 0) p c) (p + SLAB_USED) 2) (p + SLAB_TOTAL) 3) (p + SLAB_FREE) (p + 3072))
       (p + 3072) (p + 4096)) (c + CACHE_PARTIAL) p) (c + CACHE_CHUNK) 1024\<rparr>)"

lemma ld_zero [simp]: "ld64 (\<lambda>_. 0) a = 0" "ld16 (\<lambda>_. 0) a = 0"
  by (simp_all add: ld64_def ld16_def read_bytes_def upt_rec)

lemma full_slabs_state: "cache_state 0xFFFF800000000000 (smem full_slabs) 0 1024 (Some (1, 2))"
proof -
  let ?h = "0xFFFF800000000000 :: u64"
  have pg: "?h = page ?h 0" "?h + 0x1000 = page ?h 1" by (simp_all add: frame_ptr_def PAGE_SIZE_BYTES_def)
  define c p where "c = page ?h 0" and "p = page ?h 1"
  have m: "smem full_slabs = st64 (st64 (st64 (st64 (st16 (st16 (st64 (\<lambda>_. 0) p c) (p + SLAB_USED) 2) (p + SLAB_TOTAL) 3) (p + SLAB_FREE) (p + 3072))
       (p + 3072) (p + 4096)) (c + CACHE_PARTIAL) p) (c + CACHE_CHUNK) 1024"
    unfolding full_slabs_def Let_def c_def p_def pg [symmetric] by simp
  have l: "first_off 1024 = 1024" "nchunks 1024 = 3" by (simp_all add: first_off_def nchunks_def)
  have ch: "chunk p 1024 2 = p + 3072" "chunk p 1024 3 = p + 4096" by (simp_all add: l)
  have "cache_ok (smem full_slabs) c 1024 0 0 p" unfolding m cache_ok_def c_def p_def by (simp add: slab_mem)
  moreover have "ld64 (smem full_slabs) (chunk p 1024 j) = chunk p 1024 (Suc j)" if "2 \<le> j" "j < 3" for j
  proof -
    have "j = 2" using that by simp
    then show ?thesis using ch unfolding m c_def p_def by (simp add: slab_mem l)
  qed
  then have "slab_ok (smem full_slabs) p c 1024 2"
    unfolding slab_ok_def ch l unfolding m c_def p_def by (simp add: slab_mem l)
  ultimately show ?thesis by (simp add: cache_state_def c_def p_def l)
qed

theorem slab_free_hangs_witness:
  "\<exists>m1 m2 st'. slab_free_chunk (chunk (page 0xFFFF800000000000 1) (csize 7) 0) (smem full_slabs) = Some m1 \<and>
    slab_free_chunk (chunk (page 0xFFFF800000000000 1) (csize 7) 1) m1 = Some m2 \<and>
    slab_alloc_chunk 0xFFFF800000000000 (int 7) (full_slabs\<lparr>smem := m2\<rparr>) = Some (chunk (page 0xFFFF800000000000 1) (csize 7) 1, st') \<and>
    slab_alloc_chunk 0xFFFF800000000000 (int 7) st' = None"
proof (rule slab_free_hangs [of 7 full_slabs _ 0 1 2 0 1])
  have c7: "csize 7 = 1024" by (simp add: csize_def known_chunks_def)
  show "cache_state 0xFFFF800000000000 (smem full_slabs) 0 (csize 7) (Some (1, 2))" unfolding c7 by (rule full_slabs_state)
  show "Suc 2 = nchunks (csize 7)" by (simp add: c7 nchunks_def)
  show "rd (caches full_slabs) 7 = Some (page 0xFFFF800000000000 0)" by (simp add: full_slabs_def frame_ptr_def Let_def)
  show "pmm_ok 0xFFFF800000000000 (slab_pmm full_slabs)" "1 < max_frames (slab_pmm full_slabs)" "0 < max_frames (slab_pmm full_slabs)"
    by (simp_all add: full_slabs_def demo_slabs_def pmm_ok_def Let_def)
qed simp_all

end
