(* ===== verification/User_Heap.thy ===== *)
theory User_Heap
  imports Block_Heap
begin

text \<open>
  The heap of user programs, \<open>src/libTellur/mem.cpp\<close>: a first-fit allocator whose free blocks are
  linked through their own first bytes and that asks the kernel for whole pages. The state is the
  memory of the process, the head of the free list (the only field of \<open>malloc_head\<close> that is used) and
  the answers that \<open>syscall_mmap\<close> will give to the requests still to come; when there is none left,
  the call fails.
\<close>

section \<open>Definitions\<close>

record uheap =
  umem :: memory
  malloc_head :: u64
  mmaps :: "u64 list"

definition MAGIC :: u64 where "MAGIC = 0x77A5844C"
definition MAP_FAILED :: u64 where "MAP_FAILED = -1"

text \<open>\<open>FreeBlock\<close> is its size and its link, \<open>MallocHeader\<close> its magic number and its length.\<close>

abbreviation (input) "BLOCK_SIZE \<equiv> 0 :: u64"
abbreviation (input) "BLOCK_NEXT \<equiv> 8 :: u64"
abbreviation (input) "HEADER_MAGIC \<equiv> 0 :: u64"
abbreviation (input) "HEADER_LEN \<equiv> 8 :: u64"

definition sizeof_header :: u64 where "sizeof_header = 16"

text \<open>Accesses through a pointer; user programs have nothing at address 0.\<close>

definition put64 :: "u64 \<Rightarrow> u64 \<Rightarrow> u64 \<Rightarrow> uheap \<Rightarrow> uheap option" where
  "put64 p off v st = (if p = 0 then None else Some (st\<lparr>umem := st64 (umem st) (p + off) v\<rparr>))"

definition peek64 :: "u64 \<Rightarrow> u64 \<Rightarrow> uheap \<Rightarrow> u64 option" where
  "peek64 p off st = (if p = 0 then None else Some (ld64 (umem st) (p + off)))"

definition alignUp :: "u64 \<Rightarrow> u64 \<Rightarrow> u64" where
  "alignUp num bound = (if num mod bound \<noteq> 0 then num div bound + 1 else num div bound) * bound"

definition requestBlock :: "u64 \<Rightarrow> uheap \<Rightarrow> u64 \<times> uheap" where
  "requestBlock sz st =
     (case mmaps st of [] \<Rightarrow> (0, st)
      | addr # rest \<Rightarrow> (if addr = MAP_FAILED then 0 else addr, st\<lparr>mmaps := rest\<rparr>))"

text \<open>\<open>prev_block->next = v\<close>, where \<^term>\<open>None\<close> is the address of \<open>malloc_head\<close>.\<close>

definition set_next :: "u64 option \<Rightarrow> u64 \<Rightarrow> uheap \<Rightarrow> uheap option" where
  "set_next prv v st = (case prv of None \<Rightarrow> Some (st\<lparr>malloc_head := v\<rparr>) | Some p \<Rightarrow> put64 p BLOCK_NEXT v st)"

text \<open>The end of the free list: pages from the kernel.\<close>

definition malloc_grow :: "u64 \<Rightarrow> u64 option \<Rightarrow> uheap \<Rightarrow> (u64 \<times> uheap) option" where
  "malloc_grow sz prev_block st = do {
     let aligned_size = alignUp sz 4096;
     let (addr, st) = requestBlock aligned_size st;
     st \<leftarrow> put64 addr HEADER_MAGIC MAGIC st;
     st \<leftarrow> put64 addr HEADER_LEN sz st;
     let rem_size = aligned_size - sz;
     st \<leftarrow> (if sizeof_header < rem_size
       then do {
         let free_blk = addr + sz;
         st \<leftarrow> put64 free_blk BLOCK_SIZE rem_size st;
         st \<leftarrow> put64 free_blk BLOCK_NEXT 0 st;
         set_next prev_block free_blk st }
       else put64 addr HEADER_LEN (ld64 (umem st) (addr + HEADER_LEN) + rem_size) st);
     Some (addr + sizeof_header, st) }"

text \<open>A free block that is large enough: it is split when the rest can hold a free block.\<close>

definition malloc_take :: "u64 \<Rightarrow> u64 \<Rightarrow> u64 option \<Rightarrow> uheap \<Rightarrow> (u64 \<times> uheap) option" where
  "malloc_take sz cur_block prev_block st = do {
     let rem_size = ld64 (umem st) (cur_block + BLOCK_SIZE) - sz;
     (sz, st) \<leftarrow> (if sizeof_header < rem_size
       then do {
         let free_blk = cur_block + sz;
         st \<leftarrow> put64 free_blk BLOCK_SIZE rem_size st;
         st \<leftarrow> put64 free_blk BLOCK_NEXT (ld64 (umem st) (cur_block + BLOCK_NEXT)) st;
         st \<leftarrow> set_next prev_block free_blk st;
         Some (sz, st) }
       else do {
         st \<leftarrow> set_next prev_block (ld64 (umem st) (cur_block + BLOCK_NEXT)) st;
         Some (sz + rem_size, st) });
     st \<leftarrow> put64 cur_block HEADER_MAGIC MAGIC st;
     st \<leftarrow> put64 cur_block HEADER_LEN sz st;
     Some (cur_block + sizeof_header, st) }"

partial_function (option) malloc_loop :: "u64 \<Rightarrow> u64 \<Rightarrow> u64 option \<Rightarrow> uheap \<Rightarrow> (u64 \<times> uheap) option" where
  "malloc_loop sz cur_block prev_block st =
     (if cur_block = 0 then malloc_grow sz prev_block st
      else if sz \<le> ld64 (umem st) (cur_block + BLOCK_SIZE) then malloc_take sz cur_block prev_block st
      else malloc_loop sz (ld64 (umem st) (cur_block + BLOCK_NEXT)) (Some cur_block) st)"

definition user_malloc :: "u64 \<Rightarrow> uheap \<Rightarrow> (u64 \<times> uheap) option" where
  "user_malloc sz st =
     (if sz = 0 then Some (0, st)
      else malloc_loop (alignUp (sz + max sizeof_header sizeof_header) 8) (malloc_head st) None st)"

partial_function (option) free_loop :: "u64 \<Rightarrow> u64 \<Rightarrow> u64 option \<Rightarrow> uheap \<Rightarrow> uheap option" where
  "free_loop header cur_block prev_block st =
     (if cur_block = 0
      then do {
        let sz = ld64 (umem st) (header + HEADER_LEN);
        st \<leftarrow> put64 header BLOCK_SIZE sz st;
        st \<leftarrow> put64 header BLOCK_NEXT 0 st;
        set_next prev_block header st }
      else free_loop header (ld64 (umem st) (cur_block + BLOCK_NEXT)) (Some cur_block) st)"

definition user_free :: "u64 \<Rightarrow> uheap \<Rightarrow> uheap option" where
  "user_free addr st =
     (let header = addr - sizeof_header in
      if addr = 0 then Some st
      else do {
        magic \<leftarrow> peek64 header HEADER_MAGIC st;
        if magic \<noteq> MAGIC then Some st
        else free_loop header (malloc_head st) None st })"

definition user_realloc :: "u64 \<Rightarrow> u64 \<Rightarrow> uheap \<Rightarrow> (u64 \<times> uheap) option" where
  "user_realloc addr sz st =
     (let header = addr - sizeof_header in
      if addr = 0 then Some (0, st)
      else do {
        magic \<leftarrow> peek64 header HEADER_MAGIC st;
        if magic \<noteq> MAGIC then Some (0, st)
        else do {
          let old_size = ld64 (umem st) (header + HEADER_LEN) - sizeof_header;
          if sz \<le> old_size then Some (addr, st)
          else do {
            (new_addr, st) \<leftarrow> user_malloc sz st;
            if new_addr = 0 then Some (0, st)
            else Some (new_addr, st\<lparr>umem := copy_bytes (umem st) new_addr addr (unat old_size)\<rparr>) } } })"

text \<open>
  The operators of the language; the compiler calls the last one, which does nothing, wherever it
  knows the size of the object.
\<close>

definition operator_new :: "u64 \<Rightarrow> uheap \<Rightarrow> (u64 \<times> uheap) option" where
  "operator_new sz st = user_malloc sz st"

definition operator_delete :: "u64 \<Rightarrow> uheap \<Rightarrow> uheap option" where
  "operator_delete addr st = user_free addr st"

definition operator_delete_sized :: "u64 \<Rightarrow> u64 \<Rightarrow> uheap \<Rightarrow> uheap option" where
  "operator_delete_sized addr sz st = Some st"

section \<open>The free list and the blocks in use\<close>

text \<open>
  The layout of the heap: the free blocks in the order of the list and the blocks in use, each with
  its address and its size in bytes, header included.
\<close>

type_synonym ulayout = "(u64 \<times> nat) list \<times> (u64 \<times> nat) list"

fun free_seg :: "memory \<Rightarrow> u64 \<Rightarrow> (u64 \<times> nat) list \<Rightarrow> u64 \<Rightarrow> bool" where
  "free_seg m p [] q \<longleftrightarrow> p = q"
| "free_seg m p (b # bs) q \<longleftrightarrow> p = fst b \<and> ld64 m (fst b) = of_nat (snd b) \<and> free_seg m (ld64 m (fst b + 8)) bs q"

definition header_ok :: "memory \<Rightarrow> u64 \<times> nat \<Rightarrow> bool" where
  "header_ok m b \<longleftrightarrow> ld64 m (fst b) = MAGIC \<and> ld64 m (fst b + 8) = of_nat (snd b)"

definition ublock_ok :: "u64 \<times> nat \<Rightarrow> bool" where
  "ublock_ok b \<longleftrightarrow> fst b \<noteq> 0 \<and> 24 \<le> snd b \<and> unat (fst b) + snd b \<le> 2 ^ 64 \<and> 8 dvd unat (fst b) \<and> 8 dvd snd b"

abbreviation apart :: "(u64 \<times> nat) list \<Rightarrow> bool" where
  "apart bs \<equiv> sorted_wrt (\<lambda>b c. block b \<inter> block c = {}) bs"

definition uheap_inv :: "uheap \<Rightarrow> ulayout \<Rightarrow> bool" where
  "uheap_inv st L \<longleftrightarrow> free_seg (umem st) (malloc_head st) (fst L) 0 \<and> (\<forall>b\<in>set (snd L). header_ok (umem st) b) \<and>
     (\<forall>b\<in>set (fst L @ snd L). ublock_ok b) \<and> apart (fst L @ snd L)"

text \<open>Clients own what lies behind the headers of the blocks in use.\<close>

abbreviation payload :: "u64 \<times> nat \<Rightarrow> u64 set" where
  "payload b \<equiv> span (fst b) 16 (snd b)"

definition upriv :: "uheap \<Rightarrow> ulayout \<Rightarrow> u64 set" where
  "upriv st L = - (\<Union>b\<in>set (snd L). payload b)"

definition faddr :: "(u64 \<times> nat) list \<Rightarrow> u64" where
  "faddr bs = (case bs of [] \<Rightarrow> 0 | b # _ \<Rightarrow> fst b)"

definition prev_of :: "(u64 \<times> nat) list \<Rightarrow> u64 option" where
  "prev_of bs = (if bs = [] then None else Some (fst (last bs)))"

lemma free_seg_append: "free_seg m p (xs @ ys) q \<longleftrightarrow> (\<exists>r. free_seg m p xs r \<and> free_seg m r ys q)"
  by (induction xs arbitrary: p) auto

lemma free_seg_first: "free_seg m p bs 0 \<Longrightarrow> p = faddr bs"
  by (cases bs) (auto simp: faddr_def)

text \<open>The words at the start of a block depend on its first 16 bytes only.\<close>

lemma span_next: "span (a + 8) 0 8 = span a 8 16"
  using span_shift [of 8 8 a 0] by simp

lemma ld64_next_cong: "(\<And>x. x \<in> span a 0 16 \<Longrightarrow> m' x = m x) \<Longrightarrow> ld64 m' (a + 8) = ld64 m (a + 8)"
  using span_mono [of 0 8 16 16 a] by (intro ld64_cong) (auto simp: span_next)

lemma ld64_first_cong: "(\<And>x. x \<in> span a 0 16 \<Longrightarrow> m' x = m x) \<Longrightarrow> ld64 m' a = ld64 m a"
  by (rule ld64_cong) (auto simp: span_def)

lemma header_ok_cong: "header_ok m b \<Longrightarrow> (\<And>x. x \<in> span (fst b) 0 16 \<Longrightarrow> m' x = m x) \<Longrightarrow> header_ok m' b"
  using ld64_first_cong [of "fst b" m' m] ld64_next_cong [of "fst b" m' m] by (simp add: header_ok_def)

lemma free_seg_cong:
  assumes "free_seg m p bs q" "\<And>b x. b \<in> set bs \<Longrightarrow> x \<in> span (fst b) 0 16 \<Longrightarrow> m' x = m x"
  shows "free_seg m' p bs q"
  using assms
proof (induction bs arbitrary: p)
  case (Cons b bs)
  have b: "ld64 m' (fst b) = ld64 m (fst b)" "ld64 m' (fst b + 8) = ld64 m (fst b + 8)"
    using Cons.prems(2) [of b] by (auto intro: ld64_first_cong ld64_next_cong)
  have "free_seg m' (ld64 m (fst b + 8)) bs q" using Cons.prems by (intro Cons.IH) auto
  with b show ?case using Cons.prems(1) by simp
qed simp

lemma head_in_block: "ublock_ok b \<Longrightarrow> span (fst b) 0 16 \<subseteq> block b"
  by (rule span_mono) (simp_all add: ublock_ok_def)

text \<open>Writing a link: only the eight bytes of the last block's link change, or the head of the list.\<close>

lemma set_next_seg:
  assumes seg: "free_seg (umem st) (malloc_head st) pre q" and ok: "\<forall>b\<in>set pre. ublock_ok b" "apart pre"
  shows "\<exists>st'. set_next (prev_of pre) v st = Some st' \<and> free_seg (umem st') (malloc_head st') pre v \<and> mmaps st' = mmaps st \<and>
    (\<forall>x. (\<forall>b\<in>set pre. x \<notin> block b) \<longrightarrow> umem st' x = umem st x)"
proof (cases pre rule: rev_cases)
  case Nil
  then show ?thesis by (simp add: set_next_def prev_of_def)
next
  case (snoc bs b)
  let ?m = "st64 (umem st) (fst b + 8) v"
  have b: "ublock_ok b" "fst b \<noteq> 0" using ok(1) snoc by (auto simp: ublock_ok_def)
  have out: "?m x = umem st x" if "x \<notin> span (fst b) 8 16" for x
    using that st64_out [of x "fst b + 8"] by (simp add: span_next)
  have sub: "span (fst b) 8 16 \<subseteq> block b" using head_in_block [OF b(1)] span_mono [of 0 8 16 16 "fst b"] by auto
  have "free_seg ?m (malloc_head st) bs (fst b)"
  proof (rule free_seg_cong)
    show "free_seg (umem st) (malloc_head st) bs (fst b)" using seg snoc by (auto simp: free_seg_append)
    fix c x assume c: "c \<in> set bs" "x \<in> span (fst c) 0 16"
    then have "x \<in> block c" "block c \<inter> block b = {}" using head_in_block [of c] ok snoc by (auto simp: sorted_wrt_append)
    then show "?m x = umem st x" using out sub by blast
  qed
  moreover have "ld64 ?m (fst b) = of_nat (snd b)"
    using seg snoc ld64_cong [of "fst b" ?m "umem st"] out by (auto simp: free_seg_append span_def)
  ultimately have "free_seg ?m (malloc_head st) pre v" using snoc by (simp add: free_seg_append)
  moreover have "set_next (prev_of pre) v st = Some (st\<lparr>umem := ?m\<rparr>)"
    using snoc b(2) by (simp add: set_next_def prev_of_def put64_def)
  moreover have "?m x = umem st x" if "\<forall>b\<in>set pre. x \<notin> block b" for x
    using that snoc sub by (intro out) auto
  ultimately show ?thesis by simp
qed

section \<open>Cutting a block\<close>

text \<open>
  A block of \<open>n\<close> bytes is cut into one of \<open>sz\<close> bytes for the client and the rest, when the rest can
  hold a free block; else the client gets it all.
\<close>

definition cut_rest :: "u64 \<Rightarrow> nat \<Rightarrow> nat \<Rightarrow> (u64 \<times> nat) list" where
  "cut_rest a n sz = (if 16 < n - sz then [(a + of_nat sz, n - sz)] else [])"

definition cut_len :: "nat \<Rightarrow> nat \<Rightarrow> nat" where
  "cut_len n sz = (if 16 < n - sz then sz else n)"

lemma span_cut:
  assumes "ublock_ok (a, n)" "sz \<le> n" "24 \<le> sz"
  shows "span (a + of_nat sz) lo (n - sz) = span a (sz + lo) n"
proof -
  have "n < 2 ^ 64" using assms(1) by (auto simp: ublock_ok_def dest: unat_gt_0 [THEN iffD2])
  then have "unat (of_nat sz :: u64) = sz" using assms(2) by (simp add: unat_of_nat_small)
  then show ?thesis using span_shift64 [of "of_nat sz" "n - sz" a lo] \<open>n < 2 ^ 64\<close> assms(2) by simp
qed

lemma cut_ok:
  assumes "ublock_ok (a, n)" "24 \<le> sz" "sz \<le> n" "8 dvd sz"
  shows "\<forall>b\<in>set (cut_rest a n sz). ublock_ok b \<and> block b \<subseteq> span a sz n" "ublock_ok (a, cut_len n sz)"
    "sz \<le> cut_len n sz" "cut_len n sz \<le> n" "\<forall>b\<in>set (cut_rest a n sz). block b \<inter> span a 0 (cut_len n sz) = {}"
proof -
  show l: "sz \<le> cut_len n sz" "cut_len n sz \<le> n" using assms by (simp_all add: cut_len_def)
  show "ublock_ok (a, cut_len n sz)" using assms by (auto simp: ublock_ok_def cut_len_def)
  have "ublock_ok (a + of_nat sz, n - sz)" if c: "16 < n - sz"
  proof -
    have n: "n < 2 ^ 64" "unat a + n \<le> 2 ^ 64" using assms(1) by (auto simp: ublock_ok_def dest: unat_gt_0 [THEN iffD2])
    then have s: "unat (of_nat sz :: u64) = sz" using assms(3) by (simp add: unat_of_nat_small)
    have u: "unat (a + of_nat sz) = unat a + sz" using n c s by (subst unat_add_small) simp_all
    have "8 dvd n - sz" using assms(1,4) by (simp add: ublock_ok_def dvd_diff_nat)
    then have "24 \<le> n - sz" using c by presburger
    moreover have "a + of_nat sz \<noteq> 0"
      using u assms(2) by (metis add_is_0 not_numeral_le_zero unat_0)
    ultimately show ?thesis using assms n u \<open>8 dvd n - sz\<close> by (simp add: ublock_ok_def)
  qed
  then show "\<forall>b\<in>set (cut_rest a n sz). ublock_ok b \<and> block b \<subseteq> span a sz n"
    using span_cut [OF assms(1,3,2), of 0] by (simp add: cut_rest_def)
  then show "\<forall>b\<in>set (cut_rest a n sz). block b \<inter> span a 0 (cut_len n sz) = {}"
    using span_disj [of n 0 sz sz a] by (auto simp: cut_rest_def cut_len_def)
qed

text \<open>
  The heap after a block was cut: what the two ways of finding one have in common.
\<close>

lemma cut_inv:
  assumes blk: "ublock_ok (a, n)" "24 \<le> sz" "sz \<le> n" "8 dvd sz"
    and ok: "apart (pre @ suf @ us)" "\<forall>b\<in>set (pre @ suf @ us). ublock_ok b \<and> block b \<inter> span a 0 n = {}"
    and m: "free_seg (umem st) (malloc_head st) pre (faddr (cut_rest a n sz @ suf))"
      "free_seg (umem st) (faddr (cut_rest a n sz @ suf)) (cut_rest a n sz @ suf) 0"
      "header_ok (umem st) (a, cut_len n sz)" "\<forall>b\<in>set us. header_ok (umem st) b"
  shows "uheap_inv st (pre @ cut_rest a n sz @ suf, us @ [(a, cut_len n sz)])"
proof -
  let ?r = "cut_rest a n sz" and ?b = "(a, cut_len n sz)"
  note c = cut_ok [OF blk]
  have sub: "block ?b \<subseteq> span a 0 n" "\<And>b. b \<in> set ?r \<Longrightarrow> block b \<subseteq> span a 0 n"
    using c(1,4) span_mono [of 0 sz n n a] by (auto intro: span_mono [THEN subsetD, rotated 2])
  have "apart ?r" by (simp add: cut_rest_def)
  moreover have "block b \<inter> block ?b = {}" if "b \<in> set (pre @ suf @ us)" for b using ok(2) that sub(1) by blast
  moreover have "block b \<inter> block r = {}" "block r \<inter> block b = {}" if "b \<in> set (pre @ suf @ us)" "r \<in> set ?r" for b r
    using ok(2) that sub(2) by blast+
  moreover have "block r \<inter> block ?b = {}" if "r \<in> set ?r" for r using that c(5) by simp
  ultimately have "apart ((pre @ ?r @ suf) @ us @ [?b])"
    using ok(1) by (simp add: sorted_wrt_append ball_Un)
  moreover have "\<forall>b\<in>set ((pre @ ?r @ suf) @ us @ [?b]). ublock_ok b" using ok(2) c(1,2) by auto
  moreover have "free_seg (umem st) (malloc_head st) (pre @ ?r @ suf) 0" using m(1,2) by (auto simp: free_seg_append)
  ultimately show ?thesis using m(3,4) by (simp add: uheap_inv_def)
qed

section \<open>Allocation\<close>

lemma uheap_inv_parts:
  assumes "uheap_inv st (pre @ suf, us)"
  shows "free_seg (umem st) (malloc_head st) pre (faddr suf)" "free_seg (umem st) (faddr suf) suf 0"
    "\<forall>b\<in>set us. header_ok (umem st) b" "\<forall>b\<in>set (pre @ suf @ us). ublock_ok b" "apart (pre @ suf @ us)"
  using assms free_seg_first by (fastforce simp: uheap_inv_def free_seg_append)+

text \<open>Two words are written at the start of a block.\<close>

lemma head_written:
  assumes "m' = st64 (st64 m a v) (a + 8) w"
  shows "ld64 m' a = v" "ld64 m' (a + 8) = w" "\<And>x. x \<notin> span a 0 16 \<Longrightarrow> m' x = m x"
proof -
  have d: "span a 0 8 \<inter> span (a + 8) 0 8 = {}" unfolding span_next by (rule span_disj) simp
  show "ld64 m' a = v" "ld64 m' (a + 8) = w" using ld64_st64_other [OF d] by (simp_all add: assms)
  fix x assume "x \<notin> span a 0 16"
  then have "x \<notin> span a 0 8" "x \<notin> span (a + 8) 0 8"
    unfolding span_next by (simp_all add: span_def)
  then show "m' x = m x" by (simp add: assms st64_out)
qed

text \<open>What a call has to leave in memory so that the block is cut.\<close>

lemma cut_memory:
  assumes blk: "ublock_ok (a, n)" "24 \<le> sz" "sz \<le> n" "8 dvd sz"
    and ok: "apart (pre @ suf @ us)" "\<forall>b\<in>set (pre @ suf @ us). ublock_ok b \<and> block b \<inter> span a 0 n = {}"
    and old: "free_seg m (faddr suf) suf 0" "\<forall>b\<in>set us. header_ok m b"
    and new: "free_seg (umem st) (malloc_head st) pre (faddr (cut_rest a n sz @ suf))"
      "\<forall>x. (\<forall>b\<in>set pre. x \<notin> block b) \<and> x \<notin> span a 0 n \<longrightarrow> umem st x = m x"
      "header_ok (umem st) (a, cut_len n sz)"
      "16 < n - sz \<Longrightarrow> ld64 (umem st) (a + of_nat sz) = of_nat (n - sz) \<and> ld64 (umem st) (a + of_nat sz + 8) = faddr suf"
  shows "uheap_inv st (pre @ cut_rest a n sz @ suf, us @ [(a, cut_len n sz)])"
    "\<forall>b\<in>set us. \<forall>x\<in>block b. umem st x = m x"
proof -
  have same: "umem st x = m x" if "b \<in> set (suf @ us)" "x \<in> block b" for b x
  proof -
    have "x \<notin> span a 0 n" using ok(2) that by auto
    moreover have "block c \<inter> block b = {}" if "c \<in> set pre" for c
      using ok(1) that \<open>b \<in> set (suf @ us)\<close> by (simp add: sorted_wrt_append)
    then have "x \<notin> block c" if "c \<in> set pre" for c using that \<open>x \<in> block b\<close> by blast
    ultimately show ?thesis using new(2) by blast
  qed
  then show "\<forall>b\<in>set us. \<forall>x\<in>block b. umem st x = m x" by auto
  have hd: "umem st x = m x" if "b \<in> set (suf @ us)" "x \<in> span (fst b) 0 16" for b x
    using that ok(2) head_in_block [of b] same [of b x] by auto
  have "umem st x = m x" if "b \<in> set suf" "x \<in> span (fst b) 0 16" for b x using hd [of b x] that by simp
  then have "free_seg (umem st) (faddr suf) suf 0" by (rule free_seg_cong [OF old(1)])
  then have "free_seg (umem st) (faddr (cut_rest a n sz @ suf)) (cut_rest a n sz @ suf) 0"
    using new(4) by (cases "16 < n - sz") (simp_all add: cut_rest_def faddr_def)
  moreover have "\<forall>b\<in>set us. header_ok (umem st) b"
  proof
    fix b assume "b \<in> set us"
    then show "header_ok (umem st) b" using old(2) hd [of b] header_ok_cong [of m b "umem st"] by simp
  qed
  ultimately show "uheap_inv st (pre @ cut_rest a n sz @ suf, us @ [(a, cut_len n sz)])"
    by (intro cut_inv [OF blk ok new(1) _ new(3)])
qed

lemma cut_geometry:
  assumes "ublock_ok (a, n)" "24 \<le> sz" "sz \<le> n" "8 dvd sz"
  shows "span a 0 16 \<subseteq> span a 0 n" "span a sz n \<subseteq> span a 0 n" "span a 0 16 \<inter> span a sz n = {}"
    "16 < n - sz \<Longrightarrow> span (a + of_nat sz) 0 16 \<subseteq> span a sz n" "16 < n - sz \<Longrightarrow> a + of_nat sz \<noteq> 0"
    "sizeof_header < of_nat n - of_nat sz \<longleftrightarrow> 16 < n - sz" "a \<noteq> 0"
proof -
  show "span a 0 16 \<subseteq> span a 0 n" "span a sz n \<subseteq> span a 0 n" "span a 0 16 \<inter> span a sz n = {}"
    using assms span_disj [of 16 sz n 0 a] by (auto intro: span_mono [THEN subsetD, rotated 2])
  show "span (a + of_nat sz) 0 16 \<subseteq> span a sz n" if "16 < n - sz"
    using that span_cut [OF assms(1,3,2), of 0] span_mono [of 0 0 16 "n - sz" "a + of_nat sz"] by simp
  show "a + of_nat sz \<noteq> 0" if "16 < n - sz" using that cut_ok(1) [OF assms] by (simp add: cut_rest_def ublock_ok_def)
  show "a \<noteq> 0" using assms(1) by (simp add: ublock_ok_def)
  have "n < 2 ^ 64" using assms(1) by (auto simp: ublock_ok_def dest: unat_gt_0 [THEN iffD2])
  then show "sizeof_header < of_nat n - of_nat sz \<longleftrightarrow> 16 < n - sz"
    unfolding of_nat_diff [OF assms(3), symmetric] sizeof_header_def by (simp add: word_less_nat_alt unat_of_nat_small)
qed

text \<open>The list is linked to the rest of the block, while the block itself is being written.\<close>

lemma cut_link:
  assumes seg: "free_seg (umem st) h pre q" and pre: "\<forall>b\<in>set pre. ublock_ok b \<and> block b \<inter> span a 0 n = {}" "apart pre"
    and st1: "malloc_head st1 = h" "\<And>x. x \<notin> span a 0 n \<Longrightarrow> umem st1 x = umem st x"
  obtains st2 where "set_next (prev_of pre) v st1 = Some st2" "mmaps st2 = mmaps st1"
    "free_seg (umem st2) (malloc_head st2) pre v" "\<And>x. x \<in> span a 0 n \<Longrightarrow> umem st2 x = umem st1 x"
    "\<And>x. (\<forall>b\<in>set pre. x \<notin> block b) \<Longrightarrow> x \<notin> span a 0 n \<Longrightarrow> umem st2 x = umem st x"
proof -
  have "x \<notin> span a 0 n" if "b \<in> set pre" "x \<in> span (fst b) 0 16" for b x
    using that pre(1) head_in_block [of b] by blast
  then have "free_seg (umem st1) (malloc_head st1) pre q" unfolding st1(1) by (intro free_seg_cong [OF seg] st1(2))
  then obtain st2 where st2: "set_next (prev_of pre) v st1 = Some st2" "free_seg (umem st2) (malloc_head st2) pre v"
      "mmaps st2 = mmaps st1" "\<And>x. \<forall>b\<in>set pre. x \<notin> block b \<Longrightarrow> umem st2 x = umem st1 x"
    using set_next_seg [of st1 pre q v] pre by auto
  have "umem st2 x = umem st1 x" if "x \<in> span a 0 n" for x using that pre(1) by (intro st2(4)) blast
  then show ?thesis using that st2 st1(2) by simp
qed

text \<open>The header goes to the start of the block, which none of the other parts overlap.\<close>

lemma cut_header:
  assumes m': "m' = st64 (st64 m a MAGIC) (a + 8) (of_nat len)" and low: "span a 0 16 \<subseteq> span a 0 n"
    and pre: "\<forall>b\<in>set pre. ublock_ok b \<and> block b \<inter> span a 0 n = {}" and seg: "free_seg m h pre q"
  shows "header_ok m' (a, len)" "free_seg m' h pre q" "\<And>x. x \<notin> span a 0 n \<Longrightarrow> m' x = m x"
    "\<And>x. x \<notin> span a 0 16 \<Longrightarrow> m' x = m x"
proof -
  note w = head_written [OF m']
  show "header_ok m' (a, len)" using w(1,2) by (simp add: header_ok_def)
  show out: "m' x = m x" if "x \<notin> span a 0 n" for x using that low by (intro w(3)) blast
  have "x \<notin> span a 0 n" if "b \<in> set pre" "x \<in> span (fst b) 0 16" for b x
    using that pre(1) head_in_block [of b] by blast
  then show "free_seg m' h pre q" by (intro free_seg_cong [OF seg] out)
qed (rule head_written(3) [OF m'])

lemma malloc_take_ok:
  assumes inv: "uheap_inv st (pre @ (a, n) # suf, us)" and sz: "24 \<le> sz" "sz \<le> n" "8 dvd sz"
  shows "\<exists>st'. malloc_take (of_nat sz) a (prev_of pre) st = Some (a + 16, st') \<and> mmaps st' = mmaps st \<and>
    uheap_inv st' (pre @ cut_rest a n sz @ suf, us @ [(a, cut_len n sz)]) \<and>
    (\<forall>b\<in>set us. \<forall>x\<in>block b. umem st' x = umem st x)"
proof -
  note p = uheap_inv_parts [OF inv]
  have blk: "ublock_ok (a, n)" using p(4) by simp
  have ap: "apart (pre @ suf @ us)" "\<forall>b\<in>set (pre @ suf @ us). ublock_ok b \<and> block b \<inter> span a 0 n = {}"
    using p(4,5) by (auto simp: sorted_wrt_append)
  have pre: "\<forall>b\<in>set pre. ublock_ok b \<and> block b \<inter> span a 0 n = {}" "apart pre" using ap by (simp_all add: sorted_wrt_append)
  note geo = cut_geometry [OF blk sz]
  let ?m = "umem st" and ?nx = "ld64 (umem st) (a + 8)" and ?rem = "of_nat n - of_nat sz :: u64" and ?f = "a + of_nat sz"
  let ?g = "faddr (cut_rest a n sz @ suf)"
  have f: "ld64 ?m a = of_nat n" "?nx = faddr suf" "free_seg ?m (faddr suf) suf 0"
    using p(2) free_seg_first [of ?m ?nx suf] by (auto simp: faddr_def)
  have g: "?g = (if 16 < n - sz then ?f else ?nx)" using f(2) by (simp add: cut_rest_def faddr_def)
  define m1 where "m1 = (if 16 < n - sz then st64 (st64 ?m ?f ?rem) (?f + 8) ?nx else ?m)"
  have m1: "m1 x = ?m x" if "x \<notin> span a 0 n" for x
  proof (cases "16 < n - sz")
    case True
    then have "x \<notin> span ?f 0 16" using that geo(2) geo(4) [OF True] by blast
    then show ?thesis using True head_written(3) [of m1 ?m ?f ?rem ?nx x] by (simp add: m1_def)
  qed (simp add: m1_def)
  obtain st2 where st2: "set_next (prev_of pre) ?g (st\<lparr>umem := m1\<rparr>) = Some st2" "mmaps st2 = mmaps st"
      "free_seg (umem st2) (malloc_head st2) pre ?g" "\<And>x. x \<in> span a 0 n \<Longrightarrow> umem st2 x = m1 x"
      "\<And>x. (\<forall>b\<in>set pre. x \<notin> block b) \<Longrightarrow> x \<notin> span a 0 n \<Longrightarrow> umem st2 x = ?m x"
    using cut_link [OF p(1) pre, of "st\<lparr>umem := m1\<rparr>" ?g] m1 by auto
  define m' where "m' = st64 (st64 (umem st2) a MAGIC) (a + 8) (of_nat (cut_len n sz))"
  note hd = cut_header [OF m'_def geo(1) pre(1) st2(3)]
  have ex: "malloc_take (of_nat sz) a (prev_of pre) st = Some (a + 16, st2\<lparr>umem := m'\<rparr>)"
  proof (cases "16 < n - sz")
    case True
    have "span (a + 8) 0 8 \<inter> span ?f 0 8 = {}"
      using geo(3) geo(4) [OF True] span_mono [of 0 0 8 16 ?f] span_mono [of 0 8 16 16 a] unfolding span_next by auto
    then have "ld64 (st64 ?m ?f ?rem) (a + 8) = ?nx" by (rule ld64_st64_other)
    then show ?thesis
      using True st2(1) geo(5-7) unfolding malloc_take_def g m1_def m'_def
      by (simp add: f(1) put64_def cut_len_def sizeof_header_def Let_def)
  next
    case False
    then show ?thesis
      using st2(1) geo(6,7) unfolding malloc_take_def g m1_def m'_def
      by (simp add: f(1) put64_def cut_len_def sizeof_header_def)
  qed
  have "ld64 m' ?f = of_nat (n - sz) \<and> ld64 m' (?f + 8) = faddr suf" if big: "16 < n - sz"
  proof -
    have "m' x = m1 x" if "x \<in> span ?f 0 16" for x
      using that geo(2,3) geo(4) [OF big] hd(4) [of x] st2(4) [of x] by (metis disjoint_iff subsetD)
    then have "ld64 m' ?f = ld64 m1 ?f" "ld64 m' (?f + 8) = ld64 m1 (?f + 8)"
      using ld64_first_cong [of ?f m' m1] ld64_next_cong [of ?f m' m1] by blast+
    moreover have "ld64 m1 ?f = ?rem" "ld64 m1 (?f + 8) = ?nx" using big head_written(1,2) [of m1 ?m ?f ?rem ?nx] by (simp_all add: m1_def)
    ultimately show ?thesis using f(2) of_nat_diff [OF sz(2), where 'a = "64 word"] by metis
  qed
  then show ?thesis
    using ex st2(2,5) cut_memory [OF blk sz ap f(3) p(3), of "st2\<lparr>umem := m'\<rparr>"] hd(1-3) by auto
qed

lemma malloc_grow_ok:
  assumes inv: "uheap_inv st (fs, us)" and sz: "24 \<le> sz" "sz \<le> n" "8 dvd sz" "alignUp (of_nat sz) 4096 = of_nat n"
    and mm: "mmaps st = a # as" "a \<noteq> MAP_FAILED" and blk: "ublock_ok (a, n)"
    and new: "\<forall>b\<in>set (fs @ us). block b \<inter> span a 0 n = {}"
  shows "\<exists>st'. malloc_grow (of_nat sz) (prev_of fs) st = Some (a + 16, st') \<and> mmaps st' = as \<and>
    uheap_inv st' (fs @ cut_rest a n sz @ [], us @ [(a, cut_len n sz)]) \<and>
    (\<forall>b\<in>set us. \<forall>x\<in>block b. umem st' x = umem st x)"
proof -
  have inv': "uheap_inv st (fs @ [], us)" using inv by simp
  note p = uheap_inv_parts [OF inv']
  have ap: "apart (fs @ [] @ us)" "\<forall>b\<in>set (fs @ [] @ us). ublock_ok b \<and> block b \<inter> span a 0 n = {}"
    using p(4,5) new by simp_all
  have pre: "\<forall>b\<in>set fs. ublock_ok b \<and> block b \<inter> span a 0 n = {}" "apart fs" using ap by (simp_all add: sorted_wrt_append)
  note geo = cut_geometry [OF blk sz(1-3)]
  let ?m = "umem st" and ?rem = "of_nat n - of_nat sz :: u64" and ?f = "a + of_nat sz"
  define m1 where "m1 = st64 (st64 ?m a MAGIC) (a + 8) (of_nat sz)"
  note hd = cut_header [OF m1_def geo(1) pre(1) p(1)]
  show ?thesis
  proof (cases "16 < n - sz")
    case True
    define m2 where "m2 = st64 (st64 m1 ?f ?rem) (?f + 8) 0"
    note w = head_written [OF m2_def]
    have m2: "m2 x = ?m x" if "x \<notin> span a 0 n" for x using that geo(2) geo(4) [OF True] w(3) hd(3) by (metis subsetD)
    obtain st2 where st2: "set_next (prev_of fs) ?f (st\<lparr>mmaps := as, umem := m2\<rparr>) = Some st2" "mmaps st2 = as"
        "free_seg (umem st2) (malloc_head st2) fs ?f" "\<And>x. x \<in> span a 0 n \<Longrightarrow> umem st2 x = m2 x"
        "\<And>x. (\<forall>b\<in>set fs. x \<notin> block b) \<Longrightarrow> x \<notin> span a 0 n \<Longrightarrow> umem st2 x = ?m x"
      using cut_link [OF p(1) pre, of "st\<lparr>mmaps := as, umem := m2\<rparr>" ?f] m2 by auto
    have ex: "malloc_grow (of_nat sz) (prev_of fs) st = Some (a + 16, st2)"
      using st2(1) geo(5) [OF True] geo(6,7) True mm unfolding malloc_grow_def sz(4) m2_def m1_def
      by (simp add: requestBlock_def put64_def sizeof_header_def Let_def)
    have "ld64 (umem st2) ?f = of_nat (n - sz)" "ld64 (umem st2) (?f + 8) = 0"
      using w(1,2) st2(4) geo(2) geo(4) [OF True] ld64_first_cong [of ?f "umem st2" m2] ld64_next_cong [of ?f "umem st2" m2]
        of_nat_diff [OF sz(2), where 'a = "64 word"] by (simp_all add: subset_iff)
    moreover have "umem st2 x = m1 x" if "x \<in> span a 0 16" for x
      using that geo(1,3) geo(4) [OF True] w(3) [of x] st2(4) [of x] by (metis disjoint_iff subsetD)
    then have "header_ok (umem st2) (a, cut_len n sz)" using hd(1) True by (auto simp: cut_len_def intro: header_ok_cong)
    ultimately show ?thesis
      using ex st2 cut_memory [OF blk sz(1-3) ap p(2,3), of st2] True by (simp add: cut_rest_def faddr_def)
  next
    case False
    define m2 where "m2 = st64 m1 (a + 8) (of_nat n)"
    have "span a 0 8 \<inter> span (a + 8) 0 8 = {}" unfolding span_next by (rule span_disj) simp
    then have h2: "header_ok m2 (a, cut_len n sz)"
      using hd(1) False ld64_st64_other [of a "a + 8" m1] by (simp add: m2_def header_ok_def cut_len_def)
    have m2: "m2 x = ?m x" if "x \<notin> span a 0 n" for x
      using that geo(1) hd(3) [OF that] st64_out [of x "a + 8" m1] span_mono [of 0 8 16 16 a] unfolding m2_def span_next by auto
    have "x \<notin> span a 0 n" if "b \<in> set fs" "x \<in> span (fst b) 0 16" for b x using that pre(1) head_in_block [of b] by blast
    then have seg: "free_seg m2 (malloc_head st) fs (faddr [])" by (intro free_seg_cong [OF p(1)] m2)
    have "malloc_grow (of_nat sz) (prev_of fs) st = Some (a + 16, st\<lparr>mmaps := as, umem := m2\<rparr>)"
      using geo(6,7) False mm unfolding malloc_grow_def sz(4) m2_def m1_def
      by (simp add: requestBlock_def put64_def sizeof_header_def)
    then show ?thesis
      using seg h2 m2 False cut_memory [OF blk sz(1-3) ap p(2,3), of "st\<lparr>mmaps := as, umem := m2\<rparr>"]
      by (simp add: cut_rest_def)
  qed
qed

text \<open>Rounding a size up.\<close>

definition round_up :: "nat \<Rightarrow> nat \<Rightarrow> nat" where
  "round_up n b = (n + (b - 1)) div b * b"

lemma round_up_bounds:
  assumes "0 < b"
  shows "n \<le> round_up n b" "round_up n b < n + b" "b dvd round_up n b"
proof -
  have "(n + (b - 1)) mod b < b" using assms by simp
  then show "n \<le> round_up n b" "round_up n b < n + b"
    using assms div_mult_mod_eq [of "n + (b - 1)" b] unfolding round_up_def by linarith+
  show "b dvd round_up n b" by (simp add: round_up_def)
qed

lemma alignUp_unat:
  assumes "unat num + unat bound \<le> 2 ^ 64" "0 < unat bound"
  shows "unat (alignUp num bound) = round_up (unat num) (unat bound)"
proof -
  let ?n = "unat num" and ?b = "unat bound"
  define q where "q = (if num mod bound \<noteq> 0 then num div bound + 1 else num div bound)"
  have "num mod bound \<noteq> 0 \<longleftrightarrow> ?n div ?b * ?b < ?n"
    using assms(2) div_mult_mod_eq [of ?n ?b] unfolding unat_eq_0 [symmetric] unat_mod_distrib by linarith
  then have c: "(?n + (?b - 1)) div ?b = (if num mod bound \<noteq> 0 then Suc (?n div ?b) else ?n div ?b)"
    using ceil_div [OF assms(2), of ?n] by simp
  have lt: "round_up ?n ?b < 2 ^ 64" using round_up_bounds(2) [OF assms(2), of ?n] assms(1) by linarith
  have "unat q = (?n + (?b - 1)) div ?b"
  proof (cases "num mod bound \<noteq> 0")
    case True
    have "Suc (?n div ?b) * ?b < 2 ^ 64" using lt c True by (simp add: round_up_def)
    then have "Suc (?n div ?b) < 2 ^ 64" using assms(2) by (metis less_le_trans mult.right_neutral mult_le_mono2 Suc_leI One_nat_def not_le)
    then have "unat (num div bound + 1) = Suc (?n div ?b)"
      using unat_add_small [of "num div bound" 1] by (simp add: unat_div_distrib)
    then show ?thesis using True c by (simp add: q_def)
  next
    case False
    then show ?thesis using c by (simp add: q_def unat_div_distrib)
  qed
  then show ?thesis
    using lt unat_mult_small [of q bound] by (simp add: alignUp_def round_up_def flip: q_def)
qed

text \<open>
  The areas the kernel still has in store for the process, a ghost list beside the answers: apart from
  one another and from everything in the heap, page aligned, and not at either end of the address
  space.
\<close>

definition area_ok :: "u64 \<times> nat \<Rightarrow> bool" where
  "area_ok b \<longleftrightarrow> fst b \<noteq> 0 \<and> fst b \<noteq> MAP_FAILED \<and> 4096 dvd unat (fst b) \<and> unat (fst b) + snd b \<le> 2 ^ 64"

definition areas_ok :: "uheap \<Rightarrow> ulayout \<Rightarrow> (u64 \<times> nat) list \<Rightarrow> bool" where
  "areas_ok st L areas \<longleftrightarrow> mmaps st = map fst areas \<and> apart areas \<and> (\<forall>b\<in>set areas. area_ok b) \<and>
     (\<forall>b\<in>set areas. \<forall>c\<in>set (fst L @ snd L). block b \<inter> block c = {})"

text \<open>The size of the block for a request and of the area that always suffices for it.\<close>

definition block_len :: "nat \<Rightarrow> nat" where
  "block_len n = round_up (n + 16) 8"

definition area_len :: "nat \<Rightarrow> nat" where
  "area_len n = round_up (block_len n) 4096"

lemma block_len_bounds: "0 < n \<Longrightarrow> 24 \<le> block_len n" "n + 16 \<le> block_len n" "8 dvd block_len n" "block_len n \<le> area_len n"
    "8 dvd area_len n"
proof -
  show "n + 16 \<le> block_len n" "8 dvd block_len n" "block_len n \<le> area_len n"
    using round_up_bounds [of 8 "n + 16"] round_up_bounds [of 4096 "block_len n"] by (simp_all add: block_len_def area_len_def)
  then show "24 \<le> block_len n" if "0 < n" using that by presburger
  have "4096 dvd area_len n" using round_up_bounds(3) [of 4096] by (simp add: area_len_def)
  then show "8 dvd area_len n" by (rule dvd_trans [rotated]) simp
qed

text \<open>The part of an area, or the free block, that an allocation cuts up.\<close>

lemma cut_cover:
  assumes "ublock_ok (a, n)" "24 \<le> sz" "sz \<le> n" "8 dvd sz" "c \<in> set (cut_rest a n sz @ [(a, cut_len n sz)])"
  shows "block c \<subseteq> span a 0 n"
proof (cases "c \<in> set (cut_rest a n sz)")
  case True
  then show ?thesis using cut_ok(1) [OF assms(1-4)] cut_geometry(2) [OF assms(1-4)] by blast
next
  case False
  then show ?thesis using assms(5) cut_ok(4) [OF assms(1-4)] by (auto intro: span_mono [THEN subsetD, rotated 2])
qed

lemma areas_ok_mono:
  assumes "areas_ok st L areas" "mmaps st' = mmaps st" "set (fst L' @ snd L') \<subseteq> set (fst L @ snd L)"
  shows "areas_ok st' L' areas"
  using assms(1) subsetD [OF assms(3)] unfolding areas_ok_def assms(2) by blast

lemma areas_ok_cut:
  assumes ok: "areas_ok st (pre @ mid @ suf, us) areas'" "set areas \<subseteq> set areas'" "apart areas" "mmaps st' = map fst areas"
    and new: "\<And>b c. b \<in> set areas \<Longrightarrow> c \<in> set (r @ [d]) \<Longrightarrow> block b \<inter> block c = {}"
  shows "areas_ok st' (pre @ r @ suf, us @ [d]) areas"
proof -
  have "block b \<inter> block c = {}" if b: "b \<in> set areas" and c: "c \<in> set ((pre @ r @ suf) @ us @ [d])" for b c
  proof (cases "c \<in> set (r @ [d])")
    case False
    then have "c \<in> set ((pre @ mid @ suf) @ us)" using c by auto
    then show ?thesis using ok(1,2) b unfolding areas_ok_def fst_conv snd_conv by blast
  qed (rule new [OF b])
  then show ?thesis using ok unfolding areas_ok_def fst_conv snd_conv by blast
qed

lemma malloc_end_ok:
  assumes inv: "uheap_inv st (fs, us)" and ar: "areas_ok st (fs, us) ((a, l) # as)" "area_len k \<le> l" and k: "0 < k"
  shows "\<exists>st' fs'. malloc_grow (of_nat (block_len k)) (prev_of fs) st = Some (a + 16, st') \<and>
    uheap_inv st' (fs', us @ [(a, cut_len (area_len k) (block_len k))]) \<and>
    areas_ok st' (fs', us @ [(a, cut_len (area_len k) (block_len k))]) as \<and> (\<forall>b\<in>set us. \<forall>x\<in>block b. umem st' x = umem st x)"
proof -
  let ?n = "area_len k" and ?sz = "block_len k"
  note b = block_len_bounds [of k]
  have ok: "area_ok (a, l)" "mmaps st = a # map fst as" "apart ((a, l) # as)" "\<forall>c\<in>set (fs @ us). block (a, l) \<inter> block c = {}"
    using ar(1) by (auto simp: areas_ok_def)
  have a: "4096 \<le> unat a" "unat a + ?n \<le> 2 ^ 64" using ok(1) ar(2) by (auto simp: area_ok_def unat_gt_0 intro!: dvd_imp_le)
  have blk: "ublock_ok (a, ?n)"
    using ok(1) a(2) b k by (auto simp: area_ok_def ublock_ok_def elim: dvd_trans [rotated])
  have sub: "span a 0 ?n \<subseteq> block (a, l)" using ar(2) by (auto intro: span_mono [THEN subsetD, rotated 2])
  have u: "unat (of_nat ?sz :: u64) = ?sz" using a b(4) by (intro unat_of_nat_small) linarith
  have "unat (alignUp (of_nat ?sz) 4096) = ?n"
    using alignUp_unat [of "of_nat ?sz" 4096] a b(4) u by (simp add: area_len_def)
  then have al: "alignUp (of_nat ?sz) 4096 = of_nat ?n" by (metis of_nat_unat ucast_id)
  have mf: "a \<noteq> MAP_FAILED" using ok(1) by (simp add: area_ok_def)
  have new: "\<forall>b\<in>set (fs @ us). block b \<inter> span a 0 ?n = {}" using ok(4) sub by blast
  obtain st' where st': "malloc_grow (of_nat ?sz) (prev_of fs) st = Some (a + 16, st')" "mmaps st' = map fst as"
      "uheap_inv st' (fs @ cut_rest a ?n ?sz @ [], us @ [(a, cut_len ?n ?sz)])" "\<forall>b\<in>set us. \<forall>x\<in>block b. umem st' x = umem st x"
    using malloc_grow_ok [OF inv b(1) [OF k] b(4,3) al ok(2) mf blk new] by blast
  have "block b \<inter> block c = {}" if "b \<in> set as" "c \<in> set (cut_rest a ?n ?sz @ [(a, cut_len ?n ?sz)])" for b c
    using that cut_cover [OF blk b(1) [OF k] b(4,3) that(2)] sub ok(3) by fastforce
  then have "areas_ok st' (fs @ cut_rest a ?n ?sz @ [], us @ [(a, cut_len ?n ?sz)]) as"
    using ar(1) st'(2) ok(3) by (intro areas_ok_cut [of st fs "[]" "[]" us "(a, l) # as"]) (simp_all add: subset_insertI)
  then show ?thesis using st' by blast
qed

lemma malloc_loop_ok:
  assumes "uheap_inv st (pre @ suf, us)" "areas_ok st (pre @ suf, us) areas" "areas \<noteq> []" "area_len k \<le> snd (hd areas)" "0 < k"
  shows "\<exists>a st' fs' len areas'. malloc_loop (of_nat (block_len k)) (faddr suf) (prev_of pre) st = Some (a + 16, st') \<and>
    uheap_inv st' (fs', us @ [(a, len)]) \<and> areas_ok st' (fs', us @ [(a, len)]) areas' \<and> (areas' = areas \<or> areas' = tl areas) \<and>
    k + 16 \<le> len \<and> (\<forall>b\<in>set us. \<forall>x\<in>block b. umem st' x = umem st x)"
  using assms
proof (induction suf arbitrary: pre)
  case Nil
  obtain a l as where ar: "areas = (a, l) # as" "area_len k \<le> l" using Nil.prems(3,4) by (cases areas) auto
  have "block_len k \<le> cut_len (area_len k) (block_len k)" using block_len_bounds(4) by (simp add: cut_len_def)
  then have "k + 16 \<le> cut_len (area_len k) (block_len k)" using block_len_bounds(2) [of k] by linarith
  moreover have "malloc_loop (of_nat (block_len k)) (faddr []) (prev_of pre) st = malloc_grow (of_nat (block_len k)) (prev_of pre) st"
    by (simp add: malloc_loop.simps faddr_def)
  ultimately show ?case
    using malloc_end_ok [of st pre us a l as k] Nil.prems ar by (simp add: malloc_loop.simps) blast
next
  case (Cons c suf)
  obtain a n where c: "c = (a, n)" by fastforce
  note p = uheap_inv_parts [OF Cons.prems(1)] and b = block_len_bounds [of k]
  have blk: "ublock_ok (a, n)" using p(4) c by simp
  then have a: "a \<noteq> 0" "n < 2 ^ 64" by (auto simp: ublock_ok_def dest: unat_gt_0 [THEN iffD2])
  have f: "ld64 (umem st) a = of_nat n" "ld64 (umem st) (a + 8) = faddr suf"
    using p(2) c free_seg_first [of "umem st" "ld64 (umem st) (a + 8)" suf] by (auto simp: faddr_def)
  have "block_len k < 2 ^ 64"
  proof -
    obtain x l as where "areas = (x, l) # as" "area_len k \<le> l" using Cons.prems(3,4) by (cases areas) auto
    then have "unat x + area_len k \<le> 2 ^ 64" "0 < unat x" using Cons.prems(2) by (auto simp: areas_ok_def area_ok_def unat_gt_0)
    then show ?thesis using b(4) by linarith
  qed
  then have le: "of_nat (block_len k) \<le> (of_nat n :: u64) \<longleftrightarrow> block_len k \<le> n"
    using a(2) by (simp add: word_le_nat_alt unat_of_nat_small)
  show ?case
  proof (cases "block_len k \<le> n")
    case True
    obtain st' where st': "malloc_take (of_nat (block_len k)) a (prev_of pre) st = Some (a + 16, st')" "mmaps st' = mmaps st"
        "uheap_inv st' (pre @ cut_rest a n (block_len k) @ suf, us @ [(a, cut_len n (block_len k))])"
        "\<forall>b\<in>set us. \<forall>x\<in>block b. umem st' x = umem st x"
      using malloc_take_ok [of st pre a n suf us "block_len k"] Cons.prems(1,5) c b True by blast
    have "block d \<inter> block e = {}" if "d \<in> set areas" "e \<in> set (cut_rest a n (block_len k) @ [(a, cut_len n (block_len k))])" for d e
      using that cut_cover [OF blk b(1) [OF Cons.prems(5)] True b(3) that(2)] Cons.prems(2) c unfolding areas_ok_def by fastforce
    then have "areas_ok st' (pre @ cut_rest a n (block_len k) @ suf, us @ [(a, cut_len n (block_len k))]) areas"
      using Cons.prems(2) st'(2) by (intro areas_ok_cut [of st pre "[c]" suf us areas]) (simp_all add: areas_ok_def)
    moreover have "k + 16 \<le> cut_len n (block_len k)" using b(2) True by (simp add: cut_len_def)
    moreover have "malloc_loop (of_nat (block_len k)) (faddr (c # suf)) (prev_of pre) st = Some (a + 16, st')"
      using a(1) le True st'(1) by (simp add: malloc_loop.simps faddr_def c f(1))
    ultimately show ?thesis using st'(3,4) by blast
  next
    case False
    have "malloc_loop (of_nat (block_len k)) (faddr (c # suf)) (prev_of pre) st =
        malloc_loop (of_nat (block_len k)) (faddr suf) (prev_of (pre @ [c])) st"
      using a(1) le False by (subst malloc_loop.simps) (simp add: faddr_def c f prev_of_def)
    then show ?thesis using Cons.IH [of "pre @ [c]"] Cons.prems by simp
  qed
qed

lemma user_malloc_ok:
  assumes inv: "uheap_inv st (fs, us)" and ar: "areas_ok st (fs, us) areas" "areas \<noteq> []" "area_len (unat sz) \<le> snd (hd areas)"
    and sz: "sz \<noteq> 0"
  shows "\<exists>a st' fs' len areas'. user_malloc sz st = Some (a + 16, st') \<and>
    uheap_inv st' (fs', us @ [(a, len)]) \<and> areas_ok st' (fs', us @ [(a, len)]) areas' \<and> (areas' = areas \<or> areas' = tl areas) \<and>
    unat sz + 16 \<le> len \<and> (\<forall>b\<in>set us. \<forall>x\<in>block b. umem st' x = umem st x)"
proof -
  obtain x l as where x: "areas = (x, l) # as" "area_len (unat sz) \<le> l" using ar(2,3) by (cases areas) auto
  then have "unat x + area_len (unat sz) \<le> 2 ^ 64" "4096 \<le> unat x"
    using ar(1) by (auto simp: areas_ok_def area_ok_def unat_gt_0 intro!: dvd_imp_le)
  then have small: "unat sz + 24 \<le> 2 ^ 64" using block_len_bounds(2,4) [of "unat sz"] by linarith
  then have "unat (sz + 16) = unat sz + 16" by (subst unat_add_small) simp_all
  then have "unat (alignUp (sz + 16) 8) = block_len (unat sz)"
    using alignUp_unat [of "sz + 16" 8] small by (simp add: block_len_def)
  then have "alignUp (sz + 16) 8 = of_nat (block_len (unat sz))" by (metis of_nat_unat ucast_id)
  moreover have "malloc_head st = faddr fs" using inv free_seg_first by (auto simp: uheap_inv_def)
  ultimately have "user_malloc sz st = malloc_loop (of_nat (block_len (unat sz))) (faddr fs) (prev_of []) st"
    using sz by (simp add: user_malloc_def sizeof_header_def prev_of_def)
  moreover have "0 < unat sz" using sz by (simp add: unat_gt_0)
  ultimately show ?thesis using malloc_loop_ok [of st "[]" fs us areas "unat sz"] inv ar by simp
qed

section \<open>Freeing\<close>

lemma free_loop_end:
  assumes "free_seg (umem st) (faddr suf) suf 0" "\<forall>b\<in>set suf. ublock_ok b"
  shows "free_loop h (faddr suf) (prev_of pre) st = free_loop h 0 (prev_of (pre @ suf)) st"
  using assms
proof (induction suf arbitrary: pre)
  case Nil
  then show ?case by (simp add: faddr_def)
next
  case (Cons c suf)
  have "fst c \<noteq> 0" "ld64 (umem st) (fst c + 8) = faddr suf" "free_seg (umem st) (faddr suf) suf 0"
    using Cons.prems free_seg_first [of "umem st" "ld64 (umem st) (fst c + 8)" suf] by (auto simp: faddr_def ublock_ok_def)
  then show ?case using Cons.IH [of "pre @ [c]"] Cons.prems by (subst free_loop.simps) (simp add: faddr_def prev_of_def)
qed

lemma apart_remove:
  assumes "apart (fs @ xs @ b # ys)"
  shows "apart ((fs @ [b]) @ xs @ ys)"
  using assms by (auto simp: sorted_wrt_append)

lemma user_free_ok:
  assumes inv: "uheap_inv st (fs, us)" and k: "k < length us"
  shows "\<exists>st'. user_free (fst (us ! k) + 16) st = Some st' \<and> uheap_inv st' (fs @ [us ! k], del_nth k us) \<and> mmaps st' = mmaps st \<and>
    (\<forall>b\<in>set (del_nth k us). \<forall>x\<in>block b. umem st' x = umem st x)"
proof -
  obtain a n where an: "us ! k = (a, n)" by fastforce
  let ?vs = "del_nth k us"
  have us: "us = take k us @ (a, n) # drop (Suc k) us" "(a, n) \<in> set us" using id_take_nth_drop [OF k] an nth_mem [OF k] by simp_all
  have sub: "set ?vs \<subseteq> set us" by (auto simp: del_nth_def dest: in_set_takeD in_set_dropD)
  have inv': "uheap_inv st (fs @ [], us)" using inv by simp
  note p = uheap_inv_parts [OF inv']
  have blk: "ublock_ok (a, n)" "header_ok (umem st) (a, n)" using p(3,4) us(2) by auto
  then have a: "a \<noteq> 0" "24 \<le> n" "unat a + n \<le> 2 ^ 64" by (auto simp: ublock_ok_def)
  then have "unat (a + 16) = unat a + 16" by (subst unat_add_small) simp_all
  then have a16: "a + 16 \<noteq> 0" by (metis add_is_0 unat_0 zero_neq_numeral)
  have "apart (fs @ take k us @ (a, n) # drop (Suc k) us)" using p(5) us(1) by simp
  then have ap: "apart ((fs @ [(a, n)]) @ ?vs)" unfolding del_nth_def by (rule apart_remove)
  then have dis: "\<forall>b\<in>set fs. ublock_ok b \<and> block b \<inter> span a 0 n = {}" "apart fs"
      "\<And>b. b \<in> set ?vs \<Longrightarrow> block b \<inter> span a 0 n = {}"
    using p(4) by (auto simp: sorted_wrt_append)
  have fs_vs: "\<forall>c\<in>set fs. \<forall>b\<in>set ?vs. block c \<inter> block b = {}" using ap by (simp add: sorted_wrt_append)
  let ?m1 = "st64 (st64 (umem st) a (of_nat n)) (a + 8) 0"
  have low: "span a 0 16 \<subseteq> span a 0 n" using a(2) by (auto intro: span_mono [THEN subsetD, rotated 2])
  have w: "ld64 ?m1 a = of_nat n" "ld64 ?m1 (a + 8) = 0" "\<And>x. x \<notin> span a 0 n \<Longrightarrow> ?m1 x = umem st x"
    using head_written [OF refl] low by blast+
  obtain st2 where st2: "set_next (prev_of fs) a (st\<lparr>umem := ?m1\<rparr>) = Some st2" "mmaps st2 = mmaps st"
      "free_seg (umem st2) (malloc_head st2) fs a" "\<And>x. x \<in> span a 0 n \<Longrightarrow> umem st2 x = ?m1 x"
      "\<And>x. (\<forall>b\<in>set fs. x \<notin> block b) \<Longrightarrow> x \<notin> span a 0 n \<Longrightarrow> umem st2 x = umem st x"
    using cut_link [OF p(1) dis(1,2), of "st\<lparr>umem := ?m1\<rparr>" a] w(3) by auto
  have "ld64 (umem st2) a = of_nat n" "ld64 (umem st2) (a + 8) = 0"
    using w(1,2) st2(4) low ld64_first_cong [of a "umem st2" ?m1] ld64_next_cong [of a "umem st2" ?m1] by (simp_all add: subset_iff)
  then have "free_seg (umem st2) (malloc_head st2) (fs @ [(a, n)]) 0" using st2(3) by (simp add: free_seg_append)
  moreover have same: "umem st2 x = umem st x" if "b \<in> set ?vs" "x \<in> block b" for b x
    using that dis(3) [OF that(1)] fs_vs by (intro st2(5)) blast+
  have "header_ok (umem st2) b" if "b \<in> set ?vs" for b
  proof (rule header_ok_cong [of "umem st"])
    show "header_ok (umem st) b" using that sub p(3) by blast
    have "ublock_ok b" using that sub p(4) by auto
    then show "umem st2 x = umem st x" if "x \<in> span (fst b) 0 16" for x
      using \<open>b \<in> set ?vs\<close> that head_in_block same by blast
  qed
  ultimately have "uheap_inv st2 (fs @ [(a, n)], ?vs)" using ap p(4) sub blk(1) by (auto simp: uheap_inv_def)
  moreover have "user_free (a + 16) st = Some st2"
    using a16 a(1) blk(2) st2(1) free_loop_end [of st fs a "[]"] p(1,2) dis(1) free_seg_first [of "umem st" "malloc_head st" fs] inv
    by (simp add: user_free_def sizeof_header_def peek64_def header_ok_def prev_of_def free_loop.simps [of a 0] put64_def uheap_inv_def)
  ultimately show ?thesis using an st2(2) same by auto
qed

section \<open>The heap as its clients see it\<close>

lemma apart_disj:
  assumes "apart us" "b \<in> set us" "c \<in> set us" "b \<noteq> c"
  shows "block b \<inter> block c = {}"
proof -
  obtain i j where "i < length us" "j < length us" "us ! i = b" "us ! j = c" "i \<noteq> j"
    using assms(2-4) unfolding in_set_conv_nth by blast
  then show ?thesis
    using assms(1) sorted_wrt_nth_less [of "\<lambda>b c. block b \<inter> block c = {}" us i j]
      sorted_wrt_nth_less [of "\<lambda>b c. block b \<inter> block c = {}" us j i] by (cases "i < j") auto
qed

lemma user_block_heap: "block_heap uheap_inv umem (\<lambda>m st. st\<lparr>umem := m\<rparr>) upriv"
proof
  fix st :: uheap and L m
  assume inv: "uheap_inv st L" and same: "\<And>x. x \<in> upriv st L \<Longrightarrow> m x = umem st x"
  obtain fs us where L: "L = (fs, us)" by fastforce
  have pl: "payload b \<subseteq> block b" for b by (rule span_mono) simp_all
  have up: "x \<in> upriv st L" if "b \<in> set fs" "x \<in> span (fst b) 0 16" for b x
  proof -
    have "x \<in> block b" using that inv head_in_block [of b] by (auto simp: uheap_inv_def L)
    moreover have "block b \<inter> block c = {}" if "c \<in> set us" for c
      using that \<open>b \<in> set fs\<close> inv by (simp add: uheap_inv_def L sorted_wrt_append)
    ultimately show ?thesis using pl unfolding upriv_def L snd_conv by blast
  qed
  have "free_seg (umem st) (malloc_head st) fs 0" using inv by (simp add: uheap_inv_def L)
  then have "free_seg m (malloc_head st) fs 0" by (rule free_seg_cong) (rule same [OF up])
  moreover have "header_ok m b" if b: "b \<in> set us" for b
  proof (rule header_ok_cong [of "umem st"])
    show "header_ok (umem st) b" using inv b by (simp add: uheap_inv_def L)
    fix x assume x: "x \<in> span (fst b) 0 16"
    have "x \<notin> payload c" if c: "c \<in> set us" for c
    proof (cases "c = b")
      case True
      then show ?thesis using x by (auto simp: span_def)
    next
      case False
      have "apart us" using inv by (simp add: uheap_inv_def L sorted_wrt_append)
      then have "block b \<inter> block c = {}"
        using False b c apart_disj [of us] by blast
      moreover have "x \<in> block b" using x b inv head_in_block [of b] by (auto simp: uheap_inv_def L)
      ultimately show ?thesis using pl by blast
    qed
    then show "m x = umem st x" by (intro same) (auto simp: upriv_def L)
  qed
  ultimately show "uheap_inv (st\<lparr>umem := m\<rparr>) L" using inv by (simp add: uheap_inv_def L)
qed (simp_all add: upriv_def)

interpretation user: block_heap uheap_inv umem "\<lambda>m st. st\<lparr>umem := m\<rparr>" upriv
  by (rule user_block_heap)

text \<open>A client's block lies behind the header of its block in use.\<close>

definition behind :: "u64 \<times> nat \<Rightarrow> u64 \<times> nat \<Rightarrow> bool" where
  "behind b c \<longleftrightarrow> fst b = fst c + 16 \<and> snd b + 16 \<le> snd c"

lemma behind_block:
  assumes "behind b c" "ublock_ok c"
  shows "block b \<subseteq> payload c" "payload c \<subseteq> block c" "fst b \<noteq> 0" "8 dvd unat (fst b)"
proof -
  have c: "unat (fst c) + snd c \<le> 2 ^ 64" "24 \<le> snd c" "8 dvd unat (fst c)" "fst c \<noteq> 0" using assms(2) by (auto simp: ublock_ok_def)
  then have "snd c < 2 ^ 64" using unat_gt_0 [of "fst c"] by linarith
  then have "16 + snd b \<le> 2 ^ 64" using assms(1) by (simp add: behind_def)
  then have "block b = span (fst c) 16 (16 + snd b)" using assms(1) span_shift64 [of 16 "snd b" "fst c" 0] by (simp add: behind_def)
  then show "block b \<subseteq> payload c" using assms(1) by (auto simp: behind_def intro: span_mono [THEN subsetD, rotated 2])
  show "payload c \<subseteq> block c" by (rule span_mono) simp_all
  have "unat (fst b) = unat (fst c) + 16" using assms(1) c unfolding behind_def by (simp add: unat_add_small)
  then show "fst b \<noteq> 0" "8 dvd unat (fst b)" using c(3) by (metis add_is_0 unat_0 zero_neq_numeral, simp)
qed

lemma behind_refines:
  assumes inv: "uheap_inv st (fs, us)" and b: "list_all2 behind live us" and h: "list_all2 (holds_block (umem st)) live bs"
  shows "user.refines st (fs, us) live bs"
proof -
  have ok: "\<And>i. i < length us \<Longrightarrow> ublock_ok (us ! i)" "apart us" using inv by (auto simp: uheap_inv_def sorted_wrt_append)
  have lb: "length live = length us" "\<And>i. i < length live \<Longrightarrow> behind (live ! i) (us ! i)" using b by (auto simp: list_all2_conv_all_nth)
  have sub: "block (live ! i) \<subseteq> payload (us ! i)" "payload (us ! i) \<subseteq> block (us ! i)" "fst (live ! i) \<noteq> 0" if "i < length live" for i
    using behind_block(1-3) [OF lb(2) ok(1)] that lb(1) by simp_all
  have "apart live" unfolding sorted_wrt_iff_nth_less
  proof (intro allI impI)
    fix i j assume "i < j" "j < length live"
    then show "block (live ! i) \<inter> block (live ! j) = {}"
      using sub [of i] sub [of j] ok(2) lb(1) sorted_wrt_nth_less [of "\<lambda>b c. block b \<inter> block c = {}" us i j] by fastforce
  qed
  moreover have "fst c \<noteq> 0 \<and> block c \<inter> upriv st (fs, us) = {}" if c: "c \<in> set live" for c
  proof -
    obtain i where "i < length live" "c = live ! i" using c unfolding in_set_conv_nth by blast
    then show ?thesis using sub [of i] lb(1) nth_mem [of i us] unfolding upriv_def snd_conv by auto
  qed
  ultimately show ?thesis using inv h by (auto simp: user.refines_def blocks_ok_def)
qed

section \<open>Programs on the heap\<close>

text \<open>
  Programs allocate, free, resize and write into the blocks they hold. The specification knows blocks
  only by number, as the lists of their bytes.
\<close>

datatype user_op = UMalloc u64 | UFree nat | URealloc nat u64 | UPoke nat nat u8

fun run_user :: "user_op list \<Rightarrow> uheap \<Rightarrow> (u64 \<times> nat) list \<Rightarrow> (uheap \<times> (u64 \<times> nat) list) option" where
  "run_user [] st live = Some (st, live)"
| "run_user (UMalloc sz # ops) st live = do {
     (a, st) \<leftarrow> user_malloc sz st;
     run_user ops st (if a = 0 then live else live @ [(a, unat sz)]) }"
| "run_user (UFree k # ops) st live =
     (if k < length live
      then do { st \<leftarrow> user_free (fst (live ! k)) st; run_user ops st (del_nth k live) }
      else run_user ops st live)"
| "run_user (URealloc k sz # ops) st live =
     (if k < length live
      then do { (a, st) \<leftarrow> user_realloc (fst (live ! k)) sz st; run_user ops st (live[k := (a, unat sz)]) }
      else run_user ops st live)"
| "run_user (UPoke k off v # ops) st live =
     (if k < length live \<and> off < snd (live ! k)
      then run_user ops (st\<lparr>umem := (umem st)(fst (live ! k) + of_nat off := v)\<rparr>) live
      else run_user ops st live)"

definition resized :: "nat \<Rightarrow> u8 option list \<Rightarrow> u8 option list" where
  "resized n bytes = take n bytes @ replicate (n - length bytes) None"

fun run_ublocks :: "user_op list \<Rightarrow> u8 option list list \<Rightarrow> u8 option list list" where
  "run_ublocks [] bs = bs"
| "run_ublocks (UMalloc sz # ops) bs = run_ublocks ops (if sz = 0 then bs else bs @ [replicate (unat sz) None])"
| "run_ublocks (UFree k # ops) bs = run_ublocks ops (if k < length bs then del_nth k bs else bs)"
| "run_ublocks (URealloc k sz # ops) bs = run_ublocks ops (if k < length bs then bs[k := resized (unat sz) (bs ! k)] else bs)"
| "run_ublocks (UPoke k off v # ops) bs =
     run_ublocks ops (if k < length bs \<and> off < length (bs ! k) then bs[k := (bs ! k)[off := Some v]] else bs)"

fun requests :: "user_op list \<Rightarrow> nat list" where
  "requests [] = []"
| "requests (UMalloc sz # ops) = unat sz # requests ops"
| "requests (URealloc k sz # ops) = unat sz # requests ops"
| "requests (_ # ops) = requests ops"

definition client_ok :: "uheap \<Rightarrow> ulayout \<Rightarrow> (u64 \<times> nat) list \<Rightarrow> (u64 \<times> nat) list \<Rightarrow> u8 option list list \<Rightarrow> bool" where
  "client_ok st L areas live bs \<longleftrightarrow> user.refines st L live bs \<and> list_all2 behind live (snd L) \<and> areas_ok st L areas"

lemma client_okI:
  assumes "uheap_inv st (fs, us)" "areas_ok st (fs, us) areas" "list_all2 behind live us" "list_all2 (holds_block (umem st)) live bs"
  shows "client_ok st (fs, us) areas live bs"
  using assms behind_refines by (simp add: client_ok_def)

lemma client_okD:
  assumes "client_ok st (fs, us) areas live bs"
  shows "uheap_inv st (fs, us)" "areas_ok st (fs, us) areas" "list_all2 behind live us" "list_all2 (holds_block (umem st)) live bs"
    "length bs = length live" "\<And>i. i < length live \<Longrightarrow> length (bs ! i) = snd (live ! i)" "length us = length live"
    "\<And>i. i < length live \<Longrightarrow> behind (live ! i) (us ! i) \<and> ublock_ok (us ! i) \<and> header_ok (umem st) (us ! i)"
  using assms by (auto simp: client_ok_def user.refines_def blocks_ok_def uheap_inv_def list_all2_conv_all_nth holds_block_def)

text \<open>What clients hold is kept when the blocks in use are.\<close>

lemma holds_same:
  assumes "list_all2 (holds_block m) live bs" "list_all2 behind live us" "\<forall>b\<in>set us. ublock_ok b"
    and "\<forall>b\<in>set us. \<forall>x\<in>block b. m' x = m x"
  shows "list_all2 (holds_block m') live bs"
proof (rule list_all2_all_nthI)
  show "length live = length bs" using assms(1) by (rule list_all2_lengthD)
  fix i assume i: "i < length live"
  then have b: "behind (live ! i) (us ! i)" "us ! i \<in> set us"
    using list_all2_nthD [OF assms(2) i] list_all2_lengthD [OF assms(2)] by simp_all
  then have "block (live ! i) \<subseteq> block (us ! i)" using behind_block(1,2) [OF b(1)] assms(3) by blast
  then show "holds_block m' (live ! i) (bs ! i)"
    using assms(4) b(2) by (intro holds_block_cong [OF list_all2_nthD [OF assms(1) i]]) blast
qed

lemma client_malloc:
  assumes ok: "client_ok st (fs, us) areas live bs" and ar: "areas \<noteq> []" "area_len (unat sz) \<le> snd (hd areas)" and sz: "sz \<noteq> 0"
  shows "\<exists>a st' L' areas'. user_malloc sz st = Some (a, st') \<and> a \<noteq> 0 \<and> (areas' = areas \<or> areas' = tl areas) \<and>
    client_ok st' L' areas' (live @ [(a, unat sz)]) (bs @ [replicate (unat sz) None])"
proof -
  note d = client_okD [OF ok]
  obtain a st' fs' len areas' where m: "user_malloc sz st = Some (a + 16, st')" "uheap_inv st' (fs', us @ [(a, len)])"
      "areas_ok st' (fs', us @ [(a, len)]) areas'" "areas' = areas \<or> areas' = tl areas" "unat sz + 16 \<le> len"
      "\<forall>b\<in>set us. \<forall>x\<in>block b. umem st' x = umem st x"
    using user_malloc_ok [OF d(1,2) ar sz] by blast
  have us: "\<forall>b\<in>set us. ublock_ok b" "ublock_ok (a, len)" using m(2) by (auto simp: uheap_inv_def)
  have b: "behind (a + 16, unat sz) (a, len)" using m(5) by (simp add: behind_def)
  have "list_all2 (holds_block (umem st')) (live @ [(a + 16, unat sz)]) (bs @ [replicate (unat sz) None])"
    using holds_same [OF d(4,3) us(1) m(6)] unat_bound [of sz] by (intro list_all2_appendI) (auto simp: holds_block_def)
  moreover have "list_all2 behind (live @ [(a + 16, unat sz)]) (us @ [(a, len)])" using d(3) b by (intro list_all2_appendI) auto
  ultimately have "client_ok st' (fs', us @ [(a, len)]) areas' (live @ [(a + 16, unat sz)]) (bs @ [replicate (unat sz) None])"
    using m(2,3) by (intro client_okI)
  then show ?thesis using m(1,4) behind_block(3) [OF b us(2)] by auto
qed

lemma list_all2_del: "list_all2 P xs ys \<Longrightarrow> list_all2 P (del_nth k xs) (del_nth k ys)"
  by (auto simp: del_nth_def intro!: list_all2_appendI)

lemma client_free:
  assumes ok: "client_ok st (fs, us) areas live bs" and k: "k < length live"
  shows "\<exists>st' L'. user_free (fst (live ! k)) st = Some st' \<and> client_ok st' L' areas (del_nth k live) (del_nth k bs)"
proof -
  note d = client_okD [OF ok]
  obtain st' where f: "user_free (fst (us ! k) + 16) st = Some st'" "uheap_inv st' (fs @ [us ! k], del_nth k us)" "mmaps st' = mmaps st"
      "\<forall>b\<in>set (del_nth k us). \<forall>x\<in>block b. umem st' x = umem st x"
    using user_free_ok [OF d(1), of k] k unfolding d(7) by blast
  have a: "fst (live ! k) = fst (us ! k) + 16" using d(8) [OF k] by (simp add: behind_def)
  have sub: "set ((fs @ [us ! k]) @ del_nth k us) \<subseteq> set (fs @ us)"
    using k d(7) by (auto simp: del_nth_def dest: in_set_takeD in_set_dropD)
  then have "areas_ok st' (fs @ [us ! k], del_nth k us) areas"
    using areas_ok_mono [OF d(2), of st' "(fs @ [us ! k], del_nth k us)"] f(3) by simp
  moreover have "\<forall>b\<in>set (del_nth k us). ublock_ok b" using f(2) by (simp add: uheap_inv_def)
  then have "list_all2 (holds_block (umem st')) (del_nth k live) (del_nth k bs)"
    using holds_same [OF list_all2_del [OF d(4)] list_all2_del [OF d(3)]] f(4) by blast
  ultimately have "client_ok st' (fs @ [us ! k], del_nth k us) areas (del_nth k live) (del_nth k bs)"
    using f(2) by (intro client_okI [OF _ _ list_all2_del [OF d(3)]])
  then show ?thesis using f(1) a by auto
qed

lemma uheap_inv_move:
  assumes inv: "uheap_inv st (fs, us @ [b])" and k: "k < length us"
  shows "uheap_inv st (fs, us[k := b])" "set (us[k := b]) \<subseteq> set (us @ [b])"
proof -
  show sub: "set (us[k := b]) \<subseteq> set (us @ [b])" using set_update_subset_insert [of us k b] by auto
  have u: "us[k := b] = take k us @ b # drop (Suc k) us" by (rule upd_conv_take_nth_drop [OF k])
  have "apart (fs @ (take k us @ us ! k # drop (Suc k) us) @ [b])"
    using inv id_take_nth_drop [OF k] by (simp add: uheap_inv_def)
  then have "apart (fs @ us[k := b])" unfolding u by (auto simp: sorted_wrt_append)
  then show "uheap_inv st (fs, us[k := b])" using inv sub unfolding uheap_inv_def fst_conv snd_conv by auto
qed

text \<open>Moving a block copies all of it, so that what the client had is in the new place.\<close>

lemma holds_moved:
  assumes h: "holds_block m (p, n) bytes" and old: "n \<le> old" "old < new" "new < 2 ^ 64"
    and d: "span q 0 old \<inter> span p 0 old = {}"
  shows "holds_block (copy_bytes m q p old) (q, new) (resized new bytes)"
proof -
  have len: "length bytes = n" using h by (simp add: holds_block_def)
  have "copy_bytes m q p old (q + of_nat off) = v" if off: "off < new" "resized new bytes ! off = Some v" for off v
  proof -
    have o: "off < n" "bytes ! off = Some v"
      using off old len by (auto simp: resized_def nth_append nth_Cons' split: if_splits)
    have u: "unat (of_nat off :: u64) = off" using off(1) old(3) by (simp add: unat_of_nat_small)
    have "q + of_nat off \<in> span q 0 old" using u o(1) old(1) by (simp add: span_def)
    then have "copy_bytes m q p old (q + of_nat off) = m (p + of_nat off)"
      using copy_bytes_nth [of old q p m] old d u by simp
    then show ?thesis using h o by (simp add: holds_block_def)
  qed
  then show ?thesis using old len by (simp add: holds_block_def resized_def)
qed

lemma client_move:
  assumes ok: "client_ok st (fs, us) areas live bs" and k: "k < length live" "live ! k = (a + 16, n)" "us ! k = (a, len)"
    and m: "uheap_inv st' (fs', us @ [(a', l')])" "areas_ok st' (fs', us @ [(a', l')]) areas'" "s + 16 \<le> l'"
      "\<forall>b\<in>set us. \<forall>x\<in>block b. umem st' x = umem st x"
    and s: "len - 16 < s" "s < 2 ^ 64"
  shows "client_ok (st'\<lparr>umem := copy_bytes (umem st') (a' + 16) (a + 16) (len - 16)\<rparr>) (fs', us[k := (a', l')]) areas'
    (live[k := (a' + 16, s)]) (bs[k := resized s (bs ! k)])"
proof -
  note d = client_okD [OF ok]
  let ?old = "len - 16" and ?m' = "copy_bytes (umem st') (a' + 16) (a + 16) (len - 16)" and ?b = "(a', l')"
  have us: "(a, len) \<in> set us" "k < length us" using k(1) k(3) d(7) nth_mem [of k us] by simp_all
  have b: "n + 16 \<le> len" "ublock_ok (a, len)" using d(8) [OF k(1)] k by (simp_all add: behind_def)
  have new: "ublock_ok ?b" "\<forall>c\<in>set us. block c \<inter> block ?b = {}" "\<forall>c\<in>set us. ublock_ok c"
    using m(1) by (simp_all add: uheap_inv_def sorted_wrt_append)
  have bh: "behind (a' + 16, s) ?b" using m(3) by (simp add: behind_def)
  have in_q: "span (a' + 16) 0 ?old \<subseteq> payload ?b"
    using behind_block(1) [OF bh new(1)] s(1) span_mono [of 0 0 ?old s "a' + 16"] by auto
  have in_p: "span (a + 16) 0 ?old \<subseteq> block (a, len)"
    using behind_block(1,2) [of "(a + 16, ?old)" "(a, len)"] b by (auto simp: behind_def)
  have dis: "span (a' + 16) 0 ?old \<inter> span (a + 16) 0 ?old = {}" using in_q in_p us(1) new(2) behind_block(2) [OF bh new(1)] by fastforce
  have out: "?m' x = umem st' x" if "x \<notin> payload ?b" for x
    using copy_bytes_nth [OF _ dis, of "umem st'" x] that in_q s by auto
  have "uheap_inv (st'\<lparr>umem := ?m'\<rparr>) (fs', us @ [?b])"
    by (rule user.inv_set [OF m(1)]) (rule out, simp add: upriv_def)
  then have inv: "uheap_inv (st'\<lparr>umem := ?m'\<rparr>) (fs', us[k := ?b])" "set (us[k := ?b]) \<subseteq> set (us @ [?b])"
    using uheap_inv_move us(2) by blast+
  have ar: "areas_ok (st'\<lparr>umem := ?m'\<rparr>) (fs', us[k := ?b]) areas'"
    using inv(2) by (intro areas_ok_mono [OF m(2)]) auto
  have "\<forall>c\<in>set us. \<forall>x\<in>block c. ?m' x = umem st x" using m(4) out new(2) behind_block(2) [OF bh new(1)] by fastforce
  then have "list_all2 (holds_block ?m') live bs" by (rule holds_same [OF d(4,3) new(3)])
  moreover have "holds_block (umem st') (a + 16, n) (bs ! k)"
    using list_all2_nthD [OF holds_same [OF d(4,3) new(3) m(4)] k(1)] k(2) by simp
  then have "holds_block ?m' (a' + 16, s) (resized s (bs ! k))" using b(1) s dis by (intro holds_moved) auto
  ultimately show ?thesis using inv(1) ar d(3) bh by (intro client_okI list_all2_update_cong) simp_all
qed

lemma client_realloc:
  assumes ok: "client_ok st (fs, us) areas live bs" and k: "k < length live"
    and ar: "areas \<noteq> []" "area_len (unat sz) \<le> snd (hd areas)"
  shows "\<exists>a st' L' areas'. user_realloc (fst (live ! k)) sz st = Some (a, st') \<and> (areas' = areas \<or> areas' = tl areas) \<and>
    client_ok st' L' areas' (live[k := (a, unat sz)]) (bs[k := resized (unat sz) (bs ! k)])"
proof -
  note d = client_okD [OF ok]
  obtain p n where pn: "live ! k = (p, n)" by fastforce
  obtain a len where al: "us ! k = (a, len)" by fastforce
  have b: "p = a + 16" "n + 16 \<le> len" "ublock_ok (a, len)" "header_ok (umem st) (a, len)" "p \<noteq> 0"
    using d(8) [OF k] pn al behind_block(3) [of "(p, n)" "(a, len)"] by (auto simp: behind_def)
  let ?old = "of_nat len - 16 :: u64"
  have "len < 2 ^ 64" "16 \<le> len" using b(3) unat_gt_0 [of a] by (auto simp: ublock_ok_def)
  then have old: "unat ?old = len - 16"
    using of_nat_diff [of 16 len, where 'a = "64 word"] by (metis diff_le_self le_less_trans of_nat_numeral unat_of_nat_small)
  have cmp: "sz \<le> ?old \<longleftrightarrow> unat sz \<le> len - 16" by (simp add: word_le_nat_alt old)
  have "p - 16 = a" using b(1) by simp
  then have pre: "user_realloc p sz st = (if unat sz \<le> len - 16 then Some (p, st)
      else do { (q, st) \<leftarrow> user_malloc sz st;
        if q = 0 then Some (0, st) else Some (q, st\<lparr>umem := copy_bytes (umem st) q p (unat ?old)\<rparr>) })"
    using b(3-5) cmp by (simp add: user_realloc_def peek64_def sizeof_header_def header_ok_def ublock_ok_def)
  show ?thesis
  proof (cases "unat sz \<le> len - 16")
    case True
    have "holds_block (umem st) (p, unat sz) (resized (unat sz) (bs ! k))"
      using list_all2_nthD [OF d(4) k] pn unat_bound [of sz] by (auto simp: holds_block_def resized_def nth_append)
    moreover have "behind (p, unat sz) (us ! k)" using True b al \<open>16 \<le> len\<close> by (simp add: behind_def)
    ultimately have "client_ok st (fs, us[k := us ! k]) areas (live[k := (p, unat sz)]) (bs[k := resized (unat sz) (bs ! k)])"
      using d(1,2) by (intro client_okI list_all2_update_cong d(3,4)) simp_all
    then show ?thesis using True pre pn by auto
  next
    case False
    then have "sz \<noteq> 0" by auto
    then obtain a' st' fs' l' areas' where m: "user_malloc sz st = Some (a' + 16, st')" "uheap_inv st' (fs', us @ [(a', l')])"
        "areas_ok st' (fs', us @ [(a', l')]) areas'" "areas' = areas \<or> areas' = tl areas" "unat sz + 16 \<le> l'"
        "\<forall>b\<in>set us. \<forall>x\<in>block b. umem st' x = umem st x"
      using user_malloc_ok [OF d(1,2) ar] by blast
    have "a' + 16 \<noteq> 0" using m(2,5) behind_block(3) [of "(a' + 16, unat sz)" "(a', l')"] by (simp add: behind_def uheap_inv_def)
    then have "user_realloc p sz st = Some (a' + 16, st'\<lparr>umem := copy_bytes (umem st') (a' + 16) (a + 16) (len - 16)\<rparr>)"
      unfolding pre old using False m(1) b(1) by simp
    then show ?thesis
      using client_move [OF ok k _ al m(2,3,5,6)] False m(4) pn b(1) unat_bound [of sz] by auto
  qed
qed

lemma client_poke:
  assumes ok: "client_ok st L areas live bs" and k: "k < length live" "off < snd (live ! k)"
  shows "client_ok (st\<lparr>umem := (umem st)(fst (live ! k) + of_nat off := v)\<rparr>) L areas live (bs[k := (bs ! k)[off := Some v]])"
  using ok user.poke_refines [of st L live bs k off v] k by (simp add: client_ok_def areas_ok_def)

text \<open>The areas left over after one request are still enough for the remaining ones.\<close>

definition enough :: "nat list \<Rightarrow> (u64 \<times> nat) list \<Rightarrow> bool" where
  "enough ns areas \<longleftrightarrow> length ns \<le> length areas \<and> (\<forall>n\<in>set ns. \<forall>b\<in>set areas. area_len n \<le> snd b)"

lemma enough_step:
  assumes "enough (n # ns) areas"
  shows "areas \<noteq> []" "area_len n \<le> snd (hd areas)" "areas' = areas \<or> areas' = tl areas \<Longrightarrow> enough ns areas'"
proof -
  have e: "Suc (length ns) \<le> length areas" "\<And>k b. k \<in> set (n # ns) \<Longrightarrow> b \<in> set areas \<Longrightarrow> area_len k \<le> snd b"
    using assms unfolding enough_def by auto
  then show ne: "areas \<noteq> []" by auto
  then show "area_len n \<le> snd (hd areas)" using e(2) [of n "hd areas"] by simp
  show "enough ns areas'" if "areas' = areas \<or> areas' = tl areas"
  proof -
    have "set areas' \<subseteq> set areas" "length ns \<le> length areas'" using that e(1) by (cases areas; auto)+
    then show ?thesis using e(2) unfolding enough_def by auto
  qed
qed

lemma run_user_ok:
  assumes "client_ok st L areas live bs" "enough (requests ops) areas"
  shows "\<exists>st' L' areas' live'. run_user ops st live = Some (st', live') \<and> client_ok st' L' areas' live' (run_ublocks ops bs)"
  using assms
proof (induction ops arbitrary: st L areas live bs)
  case Nil
  then show ?case unfolding run_user.simps run_ublocks.simps by blast
next
  case (Cons e ops)
  obtain fs us where L: "L = (fs, us)" by fastforce
  have ok: "client_ok st (fs, us) areas live bs" using Cons.prems(1) L by simp
  note d = client_okD [OF ok]
  show ?case
  proof (cases e)
    case (UMalloc sz)
    have "enough (unat sz # requests ops) areas" using Cons.prems(2) UMalloc by simp
    note en = enough_step [OF this]
    show ?thesis
    proof (cases "sz = 0")
      case True
      have "enough (requests ops) areas" using en(3) by simp
      then show ?thesis using Cons.IH [OF Cons.prems(1)] UMalloc True by (simp add: user_malloc_def)
    next
      case False
      obtain a st' L' areas' where a: "user_malloc sz st = Some (a, st')" "a \<noteq> 0" "areas' = areas \<or> areas' = tl areas"
          "client_ok st' L' areas' (live @ [(a, unat sz)]) (bs @ [replicate (unat sz) None])"
        using client_malloc [OF ok en(1,2) False] by blast
      then show ?thesis using Cons.IH [OF a(4)] en(3) UMalloc False by simp
    qed
  next
    case (UFree k)
    show ?thesis
    proof (cases "k < length live")
      case True
      then obtain st' L' where "user_free (fst (live ! k)) st = Some st'" "client_ok st' L' areas (del_nth k live) (del_nth k bs)"
        using client_free [OF ok] by blast
      then show ?thesis using Cons.IH [of st' L' areas] Cons.prems(2) UFree True d(5) by simp
    qed (use Cons.IH [OF Cons.prems(1)] Cons.prems(2) UFree d(5) in simp)
  next
    case (URealloc k sz)
    have "enough (unat sz # requests ops) areas" using Cons.prems(2) URealloc by simp
    note en = enough_step [OF this]
    show ?thesis
    proof (cases "k < length live")
      case True
      obtain a st' L' areas' where a: "user_realloc (fst (live ! k)) sz st = Some (a, st')" "areas' = areas \<or> areas' = tl areas"
          "client_ok st' L' areas' (live[k := (a, unat sz)]) (bs[k := resized (unat sz) (bs ! k)])"
        using client_realloc [OF ok True en(1,2)] by blast
      then show ?thesis using Cons.IH [OF a(3)] en(3) URealloc True d(5) by simp
    qed (use Cons.IH [OF Cons.prems(1)] en(3) URealloc d(5) in simp)
  next
    case (UPoke k off v)
    show ?thesis
    proof (cases "k < length live \<and> off < snd (live ! k)")
      case True
      then show ?thesis using Cons.IH [OF client_poke [OF Cons.prems(1)]] Cons.prems(2) UPoke d(5,6) by simp
    next
      case False
      then have "\<not> (k < length bs \<and> off < length (bs ! k))" using d(5,6) by auto
      with False show ?thesis using Cons.IH [OF Cons.prems(1)] Cons.prems(2) UPoke by auto
    qed
  qed
qed

text \<open>
  C5: the heap of a user program refines a heap of separate blocks. For any sequence of \<open>user_malloc\<close>,
  \<open>user_free\<close> and \<open>user_realloc\<close> calls and of writes into the blocks held, starting from the empty free
  list, when \<open>syscall_mmap\<close> hands out separate page-aligned areas that are large enough for every
  request: every call returns; no two blocks held at the same time overlap, none is null, all are
  aligned to eight bytes; and every block holds exactly what its owner last wrote into it, through
  every allocation, every split, every release of other blocks and every move of its own.
\<close>

theorem user_malloc_refines_heap:
  assumes "apart areas" "\<forall>b\<in>set areas. area_ok b" "enough (requests ops) areas"
  shows "\<exists>st' live. run_user ops \<lparr>umem = m, malloc_head = 0, mmaps = map fst areas\<rparr> [] = Some (st', live) \<and>
    list_all2 (holds_block (umem st')) live (run_ublocks ops []) \<and>
    sorted_wrt (\<lambda>b c. block b \<inter> block c = {}) live \<and> (\<forall>b\<in>set live. fst b \<noteq> 0 \<and> 8 dvd unat (fst b))"
proof -
  let ?st = "\<lparr>umem = m, malloc_head = 0, mmaps = map fst areas\<rparr>"
  have "client_ok ?st ([], []) areas [] []"
    using assms(1,2) by (intro client_okI) (simp_all add: uheap_inv_def areas_ok_def)
  then obtain st' L' areas' live where r: "run_user ops ?st [] = Some (st', live)" "client_ok st' L' areas' live (run_ublocks ops [])"
    using run_user_ok assms(3) by blast
  obtain fs us where L: "L' = (fs, us)" by fastforce
  note d = client_okD [OF r(2) [unfolded L]]
  have "8 dvd unat (fst b)" if b: "b \<in> set live" for b
  proof -
    obtain i where i: "i < length live" "b = live ! i" using b unfolding in_set_conv_nth by blast
    then show ?thesis using behind_block(4) d(8) by blast
  qed
  then show ?thesis using r by (auto simp: client_ok_def user.refines_def blocks_ok_def)
qed

definition demo_areas :: "(u64 \<times> nat) list" where
  "demo_areas = [(0x10000, 0x8000), (0x20000, 0x8000), (0x30000, 0x8000)]"

theorem user_malloc_refines_heap_witness:
  "\<exists>st' live. run_user [UMalloc 24, UPoke 0 3 7, UMalloc 100, UFree 0, URealloc 0 5000]
      \<lparr>umem = \<lambda>x. 0, malloc_head = 0, mmaps = map fst demo_areas\<rparr> [] = Some (st', live) \<and>
    list_all2 (holds_block (umem st')) live (run_ublocks [UMalloc 24, UPoke 0 3 7, UMalloc 100, UFree 0, URealloc 0 5000] []) \<and>
    sorted_wrt (\<lambda>b c. block b \<inter> block c = {}) live \<and> (\<forall>b\<in>set live. fst b \<noteq> 0 \<and> 8 dvd unat (fst b))"
proof (rule user_malloc_refines_heap)
  have "span (0x10000 + n) 0 0x8000 = span 0x10000 (unat n) (unat n + 0x8000)" if "unat n < 0x30000" for n :: u64
    using that span_shift64 [of n "0x8000" "0x10000" 0] by simp
  from this [of "0x10000"] this [of "0x20000"]
  show "apart demo_areas" by (simp add: span_disj demo_areas_def)
  show "\<forall>b\<in>set demo_areas. area_ok b" by (simp add: area_ok_def MAP_FAILED_def demo_areas_def)
  show "enough (requests [UMalloc 24, UPoke 0 3 7, UMalloc 100, UFree 0, URealloc 0 5000]) demo_areas"
    by (simp add: enough_def area_len_def block_len_def round_up_def demo_areas_def)
qed

text \<open>
  The answer of \<open>requestBlock\<close> is not checked: when the kernel has no memory left, the header is
  written through the null pointer.
\<close>

lemma user_malloc_no_memory:
  assumes "uheap_inv st (fs, us)" "mmaps st = []" "sz \<noteq> 0" "\<forall>b\<in>set fs. of_nat (snd b) < alignUp (sz + sizeof_header) 8"
  shows "user_malloc sz st = None"
proof -
  let ?n = "alignUp (sz + sizeof_header) 8"
  have "malloc_loop ?n (faddr suf) p st = None" if "free_seg (umem st) (faddr suf) suf 0" "set suf \<subseteq> set fs" for suf p
    using that
  proof (induction suf arbitrary: p)
    case Nil
    then show ?case using assms(2) by (simp add: malloc_loop.simps faddr_def malloc_grow_def requestBlock_def put64_def)
  next
    case (Cons c suf)
    have "free_seg (umem st) (faddr suf) suf 0" "ld64 (umem st) (fst c + 8) = faddr suf" "\<not> ?n \<le> ld64 (umem st) (fst c)" "fst c \<noteq> 0"
      using Cons.prems assms(1,4) free_seg_first [of "umem st" "ld64 (umem st) (fst c + 8)" suf] by (auto simp: uheap_inv_def ublock_ok_def not_le)
    then show ?case using Cons.IH Cons.prems by (subst malloc_loop.simps) (simp add: faddr_def)
  qed
  from this [of fs None] show ?thesis
    using assms(1,3) free_seg_first [of "umem st" "malloc_head st" fs] by (auto simp: user_malloc_def uheap_inv_def)
qed

end
