(* ===== verification/Print.thy ===== *)
theory Print
  imports Flibc_String
begin

text \<open>
  Formatted printing into a buffer, \<open>src/flibc/print.c\<close>. The format and the string arguments are byte
  arrays, read with checked accesses; a \<open>va_list\<close> is the list of the arguments still to be taken, and
  taking one of the wrong kind or none at all is undefined behaviour. The specification prints a list
  of directives; the theorem says that \<open>__vsnprintf\<close> run on the format these directives are written as
  produces their text, as far as it fits.
\<close>

section \<open>Definitions\<close>

datatype va_arg = VaNum u64 | VaStr cbuf

record printer =
  obuf :: cbuf
  cur_idx :: u64
  str_num :: cbuf

text \<open>\<open>ASSERT_BUFF_LIM\<close> leaves the function with -1.\<close>

datatype outcome = Limit printer | Go printer

definition put_char :: "u64 \<Rightarrow> u8 \<Rightarrow> printer \<Rightarrow> outcome option" where
  "put_char n c s =
     (if n \<le> cur_idx s then Some (Limit s)
      else do {
        b \<leftarrow> wr (obuf s) (unat (cur_idx s)) c;
        Some (Go (s\<lparr>obuf := b, cur_idx := cur_idx s + 1\<rparr>)) })"

text \<open>The padding loops and the loops that copy a string.\<close>

fun pad_loop :: "u64 \<Rightarrow> u8 \<Rightarrow> nat \<Rightarrow> printer \<Rightarrow> outcome option" where
  "pad_loop n c 0 s = Some (Go s)"
| "pad_loop n c (Suc k) s =
     (case put_char n c s of None \<Rightarrow> None | Some (Limit s) \<Rightarrow> Some (Limit s) | Some (Go s) \<Rightarrow> pad_loop n c k s)"

function str_loop :: "u64 \<Rightarrow> cbuf \<Rightarrow> nat \<Rightarrow> printer \<Rightarrow> outcome option" where
  "str_loop n str p s =
     (if p < length str
      then if str ! p \<noteq> 0
        then case put_char n (str ! p) s of None \<Rightarrow> None | Some (Limit s) \<Rightarrow> Some (Limit s)
          | Some (Go s) \<Rightarrow> str_loop n str (Suc p) s
        else Some (Go s)
      else None)"
  by pat_completeness auto
termination
  by (relation "measure (\<lambda>(n, str, p, s). length str - p)") auto

declare str_loop.simps [simp del]

text \<open>A field: what is to be printed, padded on the left to the width.\<close>

definition print_field :: "u64 \<Rightarrow> u8 \<Rightarrow> u64 \<Rightarrow> cbuf \<Rightarrow> printer \<Rightarrow> outcome option" where
  "print_field n pad width str s = do {
     len \<leftarrow> strlen str 0;
     let width = (if width \<le> of_nat len \<or> width = 0 then 0 else width - of_nat len);
     (case pad_loop n pad (unat width) s of
        None \<Rightarrow> None | Some (Limit s) \<Rightarrow> Some (Limit s) | Some (Go s) \<Rightarrow> str_loop n str 0 s) }"

text \<open>The number of divisions by ten until nothing is left.\<close>

fun temp_width_loop :: "nat \<Rightarrow> nat" where
  "temp_width_loop w = (if w = 0 then 0 else Suc (temp_width_loop (w div 10)))"

declare temp_width_loop.simps [simp del]

text \<open>The flag and the width, from behind the percent sign; the position after them.\<close>

definition parse_spec :: "cbuf \<Rightarrow> nat \<Rightarrow> (bool \<times> u64 \<times> nat) option" where
  "parse_spec fmt i = do {
     c \<leftarrow> rd fmt i;
     let flags = (c = 48);
     let i = (if flags then Suc i else i);
     c \<leftarrow> rd fmt i;
     if is_digit c
     then do {
       w \<leftarrow> atoi fmt i;
       Some (flags, of_int w, i + temp_width_loop (nat w)) }
     else Some (flags, 0, i) }"

definition conv_base :: "u8 \<Rightarrow> int" where
  "conv_base c = (if c = 98 then 2 else if c = 111 then 8 else if c = 117 then 10 else if c = 120 then 16 else 0)"

text \<open>One conversion: the position after it, the arguments left and how printing went.\<close>

definition conversion :: "u64 \<Rightarrow> cbuf \<Rightarrow> nat \<Rightarrow> va_arg list \<Rightarrow> printer \<Rightarrow> (nat \<times> va_arg list \<times> outcome) option" where
  "conversion n fmt i args s = do {
     (flags, width, i) \<leftarrow> parse_spec fmt i;
     c \<leftarrow> rd fmt i;
     if c = 105 \<or> c = 100 \<or> c = 98 \<or> c = 111 \<or> c = 117 \<or> c = 120 then
       (case args of VaNum val # args \<Rightarrow> do {
          (num, ok) \<leftarrow> (if c = 105 \<or> c = 100 then itoa val (str_num s) 0 else utoa val (str_num s) 0 (conv_base c));
          out \<leftarrow> print_field n (if flags then 48 else 32) width num (s\<lparr>str_num := num\<rparr>);
          Some (Suc i, args, out) }
        | _ \<Rightarrow> None)
     else if c = 99 then
       (case args of VaNum val # args \<Rightarrow> do {
          out \<leftarrow> (case pad_loop n 32 (if width \<noteq> 0 then unat (width - 1) else 0) s of
              None \<Rightarrow> None | Some (Limit s) \<Rightarrow> Some (Limit s) | Some (Go s) \<Rightarrow> put_char n (ucast val) s);
          Some (Suc i, args, out) }
        | _ \<Rightarrow> None)
     else if c = 115 then
       (case args of VaStr str # args \<Rightarrow> do {
          out \<leftarrow> print_field n 32 width str s;
          Some (Suc i, args, out) }
        | _ \<Rightarrow> None)
     else do {
       out \<leftarrow> put_char n c s;
       Some (Suc i, args, out) } }"

lemma parse_spec_forward: "parse_spec fmt i = Some (f, w, i') \<Longrightarrow> i \<le> i'"
  by (auto simp: parse_spec_def Let_def split: Option.bind_splits if_splits)

lemma conversion_forward: "conversion n fmt i args s = Some (i', args', out) \<Longrightarrow> i < i'"
  by (auto simp: conversion_def dest!: parse_spec_forward split: Option.bind_splits if_splits list.splits va_arg.splits prod.splits)

function vsnprintf_loop :: "u64 \<Rightarrow> cbuf \<Rightarrow> nat \<Rightarrow> va_arg list \<Rightarrow> printer \<Rightarrow> outcome option" where
  "vsnprintf_loop n fmt i args s =
     (if i < length fmt
      then if fmt ! i = 0 then Some (Go s)
        else if fmt ! i \<noteq> 37
        then case put_char n (fmt ! i) s of None \<Rightarrow> None | Some (Limit s) \<Rightarrow> Some (Limit s)
          | Some (Go s) \<Rightarrow> vsnprintf_loop n fmt (Suc i) args s
        else case conversion n fmt (Suc i) args s of None \<Rightarrow> None | Some (i', args', Limit s) \<Rightarrow> Some (Limit s)
          | Some (i', args', Go s) \<Rightarrow> vsnprintf_loop n fmt i' args' s
      else None)"
  by pat_completeness auto
termination
  by (relation "measure (\<lambda>(n, fmt, i, args, s). length fmt - i)") (auto dest: conversion_forward)

declare vsnprintf_loop.simps [simp del]

definition vsnprintf :: "cbuf \<Rightarrow> u64 \<Rightarrow> cbuf \<Rightarrow> va_arg list \<Rightarrow> cbuf \<Rightarrow> (int \<times> cbuf) option" where
  "vsnprintf buf n fmt args num =
     (case vsnprintf_loop n fmt 0 args \<lparr>obuf = buf, cur_idx = 0, str_num = num\<rparr> of
        None \<Rightarrow> None
      | Some (Limit s) \<Rightarrow> Some (-1, obuf s)
      | Some (Go s) \<Rightarrow> (case put_char n 0 s of
          None \<Rightarrow> None
        | Some (Limit s) \<Rightarrow> Some (-1, obuf s)
        | Some (Go s) \<Rightarrow> Some (sint (ucast (cur_idx s) :: u32), obuf s)))"

text \<open>The variadic function only opens and closes the argument list.\<close>

definition snprintf :: "cbuf \<Rightarrow> u64 \<Rightarrow> cbuf \<Rightarrow> va_arg list \<Rightarrow> cbuf \<Rightarrow> (int \<times> cbuf) option" where
  "snprintf buf n fmt args num = vsnprintf buf n fmt args num"

section \<open>Writing a run of characters\<close>

text \<open>The effect of writing a run: all of it, or as much as the limit lets through.\<close>

definition advance :: "u64 \<Rightarrow> u8 list \<Rightarrow> printer \<Rightarrow> outcome" where
  "advance n xs s =
     (let k = unat n - unat (cur_idx s) in
      if length xs \<le> k
      then Go (s\<lparr>obuf := overwrite (obuf s) (unat (cur_idx s)) xs, cur_idx := cur_idx s + of_nat (length xs)\<rparr>)
      else Limit (s\<lparr>obuf := overwrite (obuf s) (unat (cur_idx s)) (take k xs), cur_idx := n\<rparr>))"

definition room_left :: "u64 \<Rightarrow> printer \<Rightarrow> bool" where
  "room_left n s \<longleftrightarrow> cur_idx s \<le> n \<and> unat n \<le> length (obuf s)"

lemma advance_Nil [simp]: "advance n [] s = Go s"
  by (simp add: advance_def)

lemma put_char_advance:
  assumes "room_left n s"
  shows "put_char n c s = Some (advance n [c] s)"
proof (cases "n \<le> cur_idx s")
  case True
  then have "cur_idx s = n" using assms by (simp add: room_left_def)
  then show ?thesis using True by (simp add: put_char_def advance_def)
next
  case False
  then have "unat (cur_idx s) < unat n" by (simp add: word_le_nat_alt)
  then show ?thesis using False assms by (simp add: put_char_def advance_def room_left_def Let_def)
qed

lemma advance_Cons:
  assumes ok: "room_left n s" and g: "advance n [c] s = Go s'"
  shows "advance n (c # xs) s = advance n xs s'" "room_left n s'"
proof -
  have lt: "unat (cur_idx s) < unat n" "unat n \<le> length (obuf s)"
    using assms by (auto simp: advance_def room_left_def Let_def split: if_splits)
  then have s': "s' = s\<lparr>obuf := (obuf s)[unat (cur_idx s) := c], cur_idx := cur_idx s + 1\<rparr>"
    using g by (auto simp: advance_def Let_def split: if_splits)
  have u: "unat (cur_idx s + 1) = Suc (unat (cur_idx s))" using lt(1) by (intro unat_Suc_less [of _ n]) (simp add: word_less_nat_alt)
  then show "room_left n s'" using lt by (simp add: room_left_def s' word_le_nat_alt)
  have o: "overwrite ((obuf s)[unat (cur_idx s) := c]) (Suc (unat (cur_idx s))) ys = overwrite (obuf s) (unat (cur_idx s)) (c # ys)" for ys
    using lt by (intro overwrite_Cons) linarith
  show "advance n (c # xs) s = advance n xs s'"
  proof -
    obtain k where k: "unat n - unat (cur_idx s) = Suc k" using lt(1) by (cases "unat n - unat (cur_idx s)") auto
    then have "unat n - unat (cur_idx s + 1) = k" using u by simp
    then show ?thesis using k o by (simp add: advance_def s' u add.assoc)
  qed
qed

lemma advance_stop: "room_left n s \<Longrightarrow> advance n [c] s = Limit s' \<Longrightarrow> advance n (c # xs) s = Limit s'"
  by (auto simp: advance_def room_left_def Let_def split: if_splits)

lemma pad_loop_advance: "room_left n s \<Longrightarrow> pad_loop n c k s = Some (advance n (replicate k c) s)"
proof (induction k arbitrary: s)
  case (Suc k)
  then show ?case
    using advance_Cons [of n s c] advance_stop [of n s c]
    by (cases "advance n [c] s") (auto simp: put_char_advance)
qed simp

lemma str_loop_advance:
  "room_left n s \<Longrightarrow> cstring str p = Some t \<Longrightarrow> str_loop n str p s = Some (advance n t s)"
proof (induction t arbitrary: s p)
  case Nil
  then show ?case using cstring_SomeD [of str p] by (auto simp: str_loop.simps cstring_step split: if_splits)
next
  case (Cons c t)
  have p: "p < length str" "str ! p = c" "c \<noteq> 0" "cstring str (Suc p) = Some t"
    using Cons.prems(2) cstring_Some_bound [OF Cons.prems(2)] cstring_step [of p str] by (auto split: if_splits)
  then show ?case
    using Cons.prems(1) advance_Cons [of n s c] advance_stop [of n s c] Cons.IH
    by (cases "advance n [c] s") (auto simp: put_char_advance str_loop.simps [of n str p])
qed

lemma advance_append:
  "room_left n s \<Longrightarrow> advance n (xs @ ys) s = (case advance n xs s of Limit s \<Rightarrow> Limit s | Go s \<Rightarrow> advance n ys s)"
proof (induction xs arbitrary: s)
  case (Cons c xs)
  then show ?case using advance_Cons [of n s c] advance_stop [of n s c] by (cases "advance n [c] s") auto
qed simp

lemma advance_room: "room_left n s \<Longrightarrow> advance n xs s = Go s' \<Longrightarrow> room_left n s'"
proof (induction xs arbitrary: s)
  case (Cons c xs)
  then show ?case using advance_Cons [of n s c] advance_stop [of n s c] by (cases "advance n [c] s") auto
qed simp

lemma print_field_advance:
  assumes ok: "room_left n s" and t: "cstring str 0 = Some t" "length t < 2 ^ 64"
  shows "print_field n pad width str s = Some (advance n (replicate (unat width - length t) pad @ t) s)"
proof -
  let ?w = "if width \<le> of_nat (length t) \<or> width = 0 then 0 else width - of_nat (length t) :: u64"
  have "unat ?w = unat width - length t"
    using t(2) by (auto simp: word_le_nat_alt unat_of_nat_small unat_sub)
  then have "pad_loop n pad (unat ?w) s = Some (advance n (replicate (unat width - length t) pad) s)"
    using ok by (simp add: pad_loop_advance)
  then show ?thesis
    using ok str_loop_advance [OF _ t(1), of n] advance_room [OF ok]
    by (auto simp: print_field_def strlen_eq t(1) advance_append split: outcome.splits)
qed

section \<open>Directives\<close>

text \<open>
  The specification of the format language: literal bytes and conversions, with the zero flag, the
  width and the kind of the conversion.
\<close>

datatype conv = Signed bool | Unsigned u8 | Character | String

datatype directive = Lit u8 | Dir bool nat conv

fun conv_char :: "conv \<Rightarrow> u8" where
  "conv_char (Signed d) = (if d then 100 else 105)"
| "conv_char (Unsigned c) = c"
| "conv_char Character = 99"
| "conv_char String = 115"

fun format_of :: "directive \<Rightarrow> u8 list" where
  "format_of (Lit c) = [c]"
| "format_of (Dir z w cv) = 37 # (if z then [48] else []) @ (if w = 0 then [] else udigits 10 w) @ [conv_char cv]"

definition padded :: "u8 \<Rightarrow> nat \<Rightarrow> u8 list \<Rightarrow> u8 list" where
  "padded c w t = replicate (w - length t) c @ t"

definition signed_digits :: "int \<Rightarrow> u8 list" where
  "signed_digits i = (if i < 0 then 45 # udigits 10 (nat (- i)) else udigits 10 (nat i))"

text \<open>The text of a directive for its argument, and which arguments fit a directive.\<close>

fun text_of :: "directive \<Rightarrow> va_arg list \<Rightarrow> u8 list \<times> va_arg list" where
  "text_of (Lit c) args = ([c], args)"
| "text_of (Dir z w (Signed d)) (VaNum v # args) = (padded (if z then 48 else 32) w (signed_digits (sint v)), args)"
| "text_of (Dir z w (Unsigned c)) (VaNum v # args) = (padded (if z then 48 else 32) w (udigits (nat (conv_base c)) (unat v)), args)"
| "text_of (Dir z w Character) (VaNum v # args) = (padded 32 w [ucast v], args)"
| "text_of (Dir z w String) (VaStr str # args) = (padded 32 w (the (cstring str 0)), args)"
| "text_of _ args = ([], args)"

fun fits_arg :: "directive \<Rightarrow> va_arg list \<Rightarrow> bool" where
  "fits_arg (Lit c) args \<longleftrightarrow> c \<noteq> 0 \<and> c \<noteq> 37"
| "fits_arg (Dir z w (Signed d)) (VaNum v # args) \<longleftrightarrow> w + 48 < 2 ^ 31 \<and> sint v \<noteq> - (2 ^ 63)"
| "fits_arg (Dir z w (Unsigned c)) (VaNum v # args) \<longleftrightarrow> w + 48 < 2 ^ 31 \<and> c \<in> {98, 111, 117, 120}"
| "fits_arg (Dir z w Character) (VaNum v # args) \<longleftrightarrow> w + 48 < 2 ^ 31"
| "fits_arg (Dir z w String) (VaStr str # args) \<longleftrightarrow> w + 48 < 2 ^ 31 \<and> (\<exists>t. cstring str 0 = Some t \<and> length t < 2 ^ 64)"
| "fits_arg _ args \<longleftrightarrow> False"

fun texts :: "directive list \<Rightarrow> va_arg list \<Rightarrow> u8 list" where
  "texts [] args = []"
| "texts (d # ds) args = (let (t, args) = text_of d args in t @ texts ds args)"

fun well_typed :: "directive list \<Rightarrow> va_arg list \<Rightarrow> bool" where
  "well_typed [] args \<longleftrightarrow> True"
| "well_typed (d # ds) args \<longleftrightarrow> fits_arg d args \<and> well_typed ds (snd (text_of d args))"

section \<open>Reading a directive\<close>

lemma temp_width_digits: "0 < n \<Longrightarrow> length (udigits 10 n) = temp_width_loop n"
proof -
  have "length (lsd 10 n) = temp_width_loop n" if "0 < n" for n
    using that
  proof (induction n rule: less_induct)
    case (less n)
    show ?case
    proof (cases "n div 10 = 0")
      case True
      then show ?thesis using less.prems by (simp add: lsd.simps temp_width_loop.simps)
    next
      case False
      then have "0 < n div 10" "n div 10 < n" using less.prems by auto
      then show ?thesis using less.IH [of "n div 10"] False less.prems by (simp add: lsd.simps [of 10 n] temp_width_loop.simps [of n])
    qed
  qed
  then show "0 < n \<Longrightarrow> length (udigits 10 n) = temp_width_loop n" by (simp add: udigits_def)
qed

lemma lsd_last: "0 < n \<Longrightarrow> last (lsd 10 n) \<noteq> 0"
proof (induction n rule: less_induct)
  case (less n)
  show ?case
  proof (cases "n div 10 = 0")
    case True
    then show ?thesis using less.prems by (simp add: lsd.simps)
  next
    case False
    then have "0 < n div 10" "n div 10 < n" using less.prems by auto
    then show ?thesis using less.IH [of "n div 10"] False by (simp add: lsd.simps [of 10 n])
  qed
qed

text \<open>A width starts with a digit other than zero, so that it is not taken for the flag.\<close>

lemma udigits_first:
  assumes "0 < n"
  obtains d ds where "udigits 10 n = d # ds" "d \<noteq> 48" "is_digit d"
proof -
  let ?k = "last (lsd 10 n)"
  have k: "?k < 10" "?k \<noteq> 0" using lsd_less [of 10 ?k n] lsd_last [OF assms] by simp_all
  have "udigits 10 n = digits ! ?k # map (\<lambda>d. digits ! d) (rev (butlast (lsd 10 n)))"
    using append_butlast_last_id [of "lsd 10 n"] unfolding udigits_def
    by (metis list.simps(9) lsd_nonempty rev.simps(2) rev_append rev_rev_ident rev_singleton_conv append_Cons append_Nil)
  moreover have "sint (digits ! ?k) = 48 + int ?k" using k(1) by (rule digit_byte)
  then have "digits ! ?k \<noteq> 48" "is_digit (digits ! ?k)" using k by (auto simp: is_digit_def)
  ultimately show ?thesis using that by blast
qed

lemma parse_spec_format:
  assumes dr: "drop i fmt = (if z then [48] else []) @ (if w = 0 then [] else udigits 10 w) @ c # rest"
    and c: "\<not> is_digit c" and w: "w + 48 < 2 ^ 31"
  shows "\<exists>i'. parse_spec fmt i = Some (z, of_nat w, i') \<and> drop i' fmt = c # rest"
proof -
  define j where "j = (if z then Suc i else i)"
  have dj: "drop j fmt = (if w = 0 then [] else udigits 10 w) @ c # rest"
    using dr by (cases z) (auto simp: j_def dest: drop_ConsD)
  have c48: "c \<noteq> 48" using c by (auto simp: is_digit_def)
  show ?thesis
  proof (cases "w = 0")
    case True
    then have j: "rd fmt j = Some c" using drop_ConsD(1,2) [of j fmt c rest] dj by simp
    then have "rd fmt i = Some (if z then 48 else c)" using dr drop_ConsD(1,2) [of i fmt 48] True by (cases z) (auto simp: j_def)
    then have "parse_spec fmt i = Some (z, 0, j)" using j c c48 by (auto simp: parse_spec_def j_def Let_def)
    then show ?thesis using dj True by simp
  next
    case False
    then obtain d ds where d: "udigits 10 w = d # ds" "d \<noteq> 48" "is_digit d" using udigits_first [of w] by auto
    have j: "rd fmt j = Some d" using drop_ConsD(1,2) [of j fmt d "ds @ c # rest"] dj d(1) False by simp
    have "rd fmt i = Some (if z then 48 else d)"
      using dr drop_ConsD(1,2) [of i fmt 48] j by (cases z) (auto simp: j_def)
    moreover have "atoi fmt j = Some (int w)" using dj False c w by (intro atoi_digits) auto
    ultimately have "parse_spec fmt i = Some (z, of_nat w, j + temp_width_loop w)"
      using j d by (auto simp: parse_spec_def j_def Let_def)
    moreover have "drop (j + temp_width_loop w) fmt = c # rest"
    proof -
      have "drop (temp_width_loop w) (drop j fmt) = c # rest" using dj False temp_width_digits [of w] by simp
      then show ?thesis by (simp add: add.commute)
    qed
    ultimately show ?thesis by blast
  qed
qed

section \<open>Numbers in the scratch array\<close>

lemma lsd_short: "n < 2 ^ k \<Longrightarrow> 0 < k \<Longrightarrow> length (lsd b n) \<le> k"
proof (induction k arbitrary: n)
  case (Suc k)
  show ?case
  proof (cases "n div b \<noteq> 0 \<and> 2 \<le> b")
    case True
    then have "n div b \<le> n div 2" by (intro div_le_mono2) simp_all
    then have "n div b < 2 ^ k" using Suc.prems(1) by auto
    moreover have "0 < k" using True calculation by (cases k) auto
    ultimately show ?thesis using Suc.IH [of "n div b"] by (simp add: lsd.simps [of b n])
  qed (auto simp: lsd.simps [of b n])
qed simp

lemma udigits_short: "length (udigits b (unat (v :: u64))) \<le> 64"
  using lsd_short [of "unat v" 64 b] unat_bound [of v] by (simp add: udigits_def)

lemma utoa_string:
  assumes "2 \<le> base" "base \<le> 36" "p + 64 < length buf"
  shows "\<exists>buf'. utoa v buf p base = Some (buf', True) \<and> length buf' = length buf \<and> take p buf' = take p buf \<and>
    cstring buf' p = Some (udigits (nat base) (unat v))"
proof -
  let ?d = "udigits (nat base) (unat v)"
  have l: "p + length ?d < length buf" using assms(3) udigits_short [of "nat base" v] by linarith
  then have "drop p (overwrite buf p (?d @ [0])) = ?d @ 0 # drop (p + length (?d @ [0])) buf" by (simp add: drop_overwrite)
  moreover have "0 \<notin> set ?d" using assms by (intro udigits_nonzero) auto
  ultimately have "cstring (overwrite buf p (?d @ [0])) p = Some ?d" by (rule cstring_I)
  then show ?thesis using l assms by (simp add: utoa_eq take_overwrite)
qed

lemma unat_of_int_small: "0 \<le> k \<Longrightarrow> k < 2 ^ 64 \<Longrightarrow> unat (word_of_int k :: u64) = nat k"
  by (simp add: unsigned_of_int take_bit_eq_mod)

lemma itoa_string:
  assumes "sint v \<noteq> - (2 ^ 63)" "65 < length buf"
  shows "\<exists>buf'. itoa v buf 0 = Some (buf', True) \<and> length buf' = length buf \<and> cstring buf' 0 = Some (signed_digits (sint v))"
proof (cases "sint v < 0")
  case False
  then have "unat v = nat (sint v)" using unat_of_int_small [of "sint v"] sint_less [of v] by simp
  then show ?thesis using utoa_string [of 10 0 buf v] False assms by (auto simp: itoa_def signed_digits_def)
next
  case True
  then have u: "unat (- v) = nat (- sint v)" using unat_of_int_small [of "- sint v"] sint_greater_eq [of v] by simp
  obtain buf' where b: "utoa (- v) (buf[0 := 45]) 1 10 = Some (buf', True)" "length buf' = length buf" "take 1 buf' = take 1 (buf[0 := 45])"
      "cstring buf' 1 = Some (udigits 10 (unat (- v)))"
    using utoa_string [of 10 1 "buf[0 := 45]" "- v"] assms by auto
  have "buf' ! 0 = 45" using b(2,3) assms(2) by (cases buf; cases buf') auto
  then have "cstring buf' 0 = Some (45 # udigits 10 (unat (- v)))" using b(2,4) assms(2) cstring_step [of 0 buf'] by fastforce
  moreover have "wr buf 0 45 = Some (buf[0 := 45])" using assms(2) by (intro wr_in) linarith
  ultimately show ?thesis using b(1,2) True u assms(1) by (auto simp: itoa_def signed_digits_def)
qed

section \<open>Conversions\<close>

lemma conv_char_not_digit: "fits_arg (Dir z w cv) args \<Longrightarrow> \<not> is_digit (conv_char cv)"
  unfolding is_digit_def by (erule fits_arg.elims(2)) auto

text \<open>Every well-typed conversion prints exactly its text and stops behind its last character.\<close>

lemma conversion_text:
  assumes ok: "room_left n s" "length (str_num s) = 256" and fit: "fits_arg (Dir z w cv) args"
    and dr: "drop i fmt = (if z then [48] else []) @ (if w = 0 then [] else udigits 10 w) @ conv_char cv # rest"
  shows "\<exists>i' num. conversion n fmt i args s =
      Some (i', snd (text_of (Dir z w cv) args), advance n (fst (text_of (Dir z w cv) args)) (s\<lparr>str_num := num\<rparr>)) \<and>
    drop i' fmt = rest \<and> length num = 256"
proof -
  have w: "w + 48 < 2 ^ 31" using fit by (rule fits_arg.elims(2)) auto
  obtain i1 where i1: "parse_spec fmt i = Some (z, of_nat w, i1)" "drop i1 fmt = conv_char cv # rest"
    using parse_spec_format [OF dr conv_char_not_digit [OF fit] w] by blast
  have c: "rd fmt i1 = Some (conv_char cv)" "drop (Suc i1) fmt = rest" using drop_ConsD [OF i1(2)] by simp_all
  have uw: "unat (of_nat w :: u64) = w" using w by (intro unat_of_nat_small) simp
  have num: "room_left n (s\<lparr>str_num := num\<rparr>)" for num using ok(1) by (simp add: room_left_def)
  have fld: "print_field n pad (of_nat w) str s' = Some (advance n (padded pad w t) s')"
    if "room_left n s'" "cstring str 0 = Some t" "length t < 2 ^ 64" for s' pad str t
    using print_field_advance [OF that] by (simp add: padded_def uw)
  from fit show ?thesis
  proof (rule fits_arg.elims(2))
    fix z' w' d v as assume a: "Dir z w cv = Dir z' w' (Signed d)" "args = VaNum v # as" "w' + 48 < 2 ^ 31 \<and> sint v \<noteq> - (2 ^ 63)"
    obtain num where m: "itoa v (str_num s) 0 = Some (num, True)" "length num = 256" "cstring num 0 = Some (signed_digits (sint v))"
      using itoa_string [of v "str_num s"] a(3) ok(2) by auto
    have "length (signed_digits (sint v)) < 2 ^ 64" using cstring_Some_bound [OF m(3)] m(2) by simp
    then show ?thesis using a i1 c m fld [OF num m(3)] by (cases d) (auto simp: conversion_def)
  next
    fix z' w' b v as assume a: "Dir z w cv = Dir z' w' (Unsigned b)" "args = VaNum v # as" "w' + 48 < 2 ^ 31 \<and> b \<in> {98, 111, 117, 120}"
    then have b: "2 \<le> conv_base b" "conv_base b \<le> 36" "b \<noteq> 105" "b \<noteq> 100" by (auto simp: conv_base_def)
    obtain num where m: "utoa v (str_num s) 0 (conv_base b) = Some (num, True)" "length num = 256"
        "cstring num 0 = Some (udigits (nat (conv_base b)) (unat v))"
      using utoa_string [OF b(1,2), of 0 "str_num s" v] ok(2) by auto
    have "length (udigits (nat (conv_base b)) (unat v)) < 2 ^ 64" using cstring_Some_bound [OF m(3)] m(2) by simp
    then show ?thesis using a i1 c m b fld [OF num m(3)] by (auto simp: conversion_def)
  next
    fix z' w' v as assume a: "Dir z w cv = Dir z' w' Character" "args = VaNum v # as" "w' + 48 < 2 ^ 31"
    have cnt: "(if (of_nat w :: u64) \<noteq> 0 then unat (of_nat w - 1 :: u64) else 0) = w - 1"
    proof (cases "w = 0")
      case False
      then have "(1 :: u64) \<le> of_nat w" "(of_nat w :: u64) \<noteq> 0" using uw by (auto simp: word_le_nat_alt)
      then show ?thesis using uw by (simp add: unat_sub)
    qed simp
    have "(case advance n (replicate (w - 1) 32) s of Limit s \<Rightarrow> Some (Limit s) | Go s \<Rightarrow> put_char n (ucast v) s) =
        Some (advance n (padded 32 w [ucast v]) s)"
      using advance_append [OF ok(1), of "replicate (w - 1) 32"] advance_room [OF ok(1)]
      by (auto simp: padded_def put_char_advance split: outcome.splits)
    moreover have "conversion n fmt i args s = do {
        out \<leftarrow> (case pad_loop n 32 (if (of_nat w :: u64) \<noteq> 0 then unat (of_nat w - 1 :: u64) else 0) s of
              None \<Rightarrow> None | Some (Limit s) \<Rightarrow> Some (Limit s) | Some (Go s) \<Rightarrow> put_char n (ucast v) s);
        Some (Suc i1, as, out) }" using a i1 c by (simp add: conversion_def)
    ultimately have "conversion n fmt i args s = Some (Suc i1, as, advance n (padded 32 w [ucast v]) s)"
      unfolding cnt pad_loop_advance [OF ok(1)] by simp
    then show ?thesis using a c ok(2) by (intro exI [of _ "Suc i1"] exI [of _ "str_num s"]) simp
  next
    fix z' w' str as assume a: "Dir z w cv = Dir z' w' String" "args = VaStr str # as"
      "w' + 48 < 2 ^ 31 \<and> (\<exists>t. cstring str 0 = Some t \<and> length t < 2 ^ 64)"
    then obtain t where t: "cstring str 0 = Some t" "length t < 2 ^ 64" by blast
    have "s\<lparr>str_num := str_num s\<rparr> = s" by simp
    then show ?thesis using a i1 c t ok fld [OF ok(1) t] by (intro exI [of _ "Suc i1"] exI [of _ "str_num s"]) (auto simp: conversion_def)
  qed simp
qed

section \<open>Printing\<close>

fun with_num :: "cbuf \<Rightarrow> outcome \<Rightarrow> outcome" where
  "with_num num (Go s) = Go (s\<lparr>str_num := num\<rparr>)"
| "with_num num (Limit s) = Limit (s\<lparr>str_num := num\<rparr>)"

lemma advance_num: "advance n xs (s\<lparr>str_num := num\<rparr>) = with_num num (advance n xs s)"
  by (simp add: advance_def Let_def)

lemma room_left_num [simp]: "room_left n (s\<lparr>str_num := num\<rparr>) = room_left n s"
  by (simp add: room_left_def)

lemma vsnprintf_loop_texts:
  assumes "room_left n s" "length (str_num s) = 256" "drop i fmt = concat (map format_of ds) @ 0 # rest" "well_typed ds args"
  shows "\<exists>num. vsnprintf_loop n fmt i args s = Some (advance n (texts ds args) (s\<lparr>str_num := num\<rparr>))"
  using assms
proof (induction ds arbitrary: i args s)
  case Nil
  then have "i < length fmt" "fmt ! i = 0" using drop_ConsD [of i fmt 0 rest] by simp_all
  then show ?case by (intro exI [of _ "str_num s"]) (simp add: vsnprintf_loop.simps)
next
  case (Cons d ds)
  show ?case
  proof (cases d)
    case (Lit c)
    then have i: "i < length fmt" "fmt ! i = c" "drop (Suc i) fmt = concat (map format_of ds) @ 0 # rest" "c \<noteq> 0" "c \<noteq> 37"
      using Cons.prems drop_ConsD [of i fmt c "concat (map format_of ds) @ 0 # rest"] by simp_all
    have t: "texts (d # ds) args = [c] @ texts ds args" using Lit by simp
    show ?thesis
    proof (cases "advance n [c] s")
      case (Limit s')
      then show ?thesis
        using Cons.prems(1) i unfolding t advance_num advance_append [OF Cons.prems(1)]
        by (intro exI [of _ "str_num s'"]) (simp add: vsnprintf_loop.simps [of n fmt i] put_char_advance)
    next
      case (Go s')
      have "str_num s' = str_num s" using Go by (auto simp: advance_def Let_def split: if_splits)
      then obtain num where "vsnprintf_loop n fmt (Suc i) args s' = Some (advance n (texts ds args) (s'\<lparr>str_num := num\<rparr>))"
        using Cons.IH [of s' "Suc i" args] advance_room [OF Cons.prems(1) Go] Cons.prems(2,4) i Lit by auto
      then show ?thesis
        using Cons.prems(1) i Go unfolding t advance_num advance_append [OF Cons.prems(1)]
        by (intro exI [of _ num]) (simp add: vsnprintf_loop.simps [of n fmt i] put_char_advance)
    qed
  next
    case (Dir z w cv)
    have i: "i < length fmt" "fmt ! i = 37" using drop_ConsD(1,2) [of i fmt 37] Cons.prems(3) Dir by simp_all
    have dr: "drop (Suc i) fmt = (if z then [48] else []) @ (if w = 0 then [] else udigits 10 w) @
        conv_char cv # (concat (map format_of ds) @ 0 # rest)"
      using drop_ConsD(3) [of i fmt 37] Cons.prems(3) Dir by simp
    have fit: "fits_arg (Dir z w cv) args" using Cons.prems(4) Dir by simp
    let ?t = "fst (text_of (Dir z w cv) args)" and ?args = "snd (text_of (Dir z w cv) args)"
    obtain i' num where c: "conversion n fmt (Suc i) args s = Some (i', ?args, advance n ?t (s\<lparr>str_num := num\<rparr>))"
        "drop i' fmt = concat (map format_of ds) @ 0 # rest" "length num = 256"
      using conversion_text [OF Cons.prems(1,2) fit dr] by blast
    have t: "texts (d # ds) args = ?t @ texts ds ?args" using Dir by (simp add: case_prod_beta)
    show ?thesis
    proof (cases "advance n ?t (s\<lparr>str_num := num\<rparr>)")
      case (Limit s')
      then show ?thesis
        using Cons.prems(1) i c(1) unfolding t
        by (intro exI [of _ num]) (simp add: vsnprintf_loop.simps [of n fmt i] advance_append)
    next
      case (Go s')
      have ok: "room_left n s'" using advance_room [OF _ Go] Cons.prems(1) by simp
      have "str_num s' = num" using Go by (auto simp: advance_def Let_def split: if_splits)
      then obtain num' where r: "vsnprintf_loop n fmt i' ?args s' = Some (advance n (texts ds ?args) (s'\<lparr>str_num := num'\<rparr>))"
        using Cons.IH [OF ok _ c(2), of ?args] c(3) Cons.prems(4) Dir by auto
      have "advance n ?t (s\<lparr>str_num := num'\<rparr>) = Go (s'\<lparr>str_num := num'\<rparr>)"
        using Go unfolding advance_num by (cases "advance n ?t s") auto
      then have "advance n (texts (d # ds) args) (s\<lparr>str_num := num'\<rparr>) = advance n (texts ds ?args) (s'\<lparr>str_num := num'\<rparr>)"
        unfolding t using Cons.prems(1) by (simp add: advance_append)
      then show ?thesis using i c(1) Go r by (intro exI [of _ num']) (simp add: vsnprintf_loop.simps [of n fmt i])
    qed
  qed
qed

lemma small_int:
  assumes "k < 2 ^ 31"
  shows "sint (ucast (of_nat k :: u64) :: u32) = int k"
proof -
  have "(ucast (of_nat k :: u64) :: u32) = of_nat k" using assms by (simp add: unsigned_of_nat take_bit_nat_eq_self)
  moreover have "signed_take_bit 31 (int k) = int k" using assms by (intro signed_take_bit_int_eq_self) auto
  ultimately show ?thesis by (simp add: signed_of_nat)
qed

text \<open>
  C20: formatted printing is correct. For every format that a list of directives is written as (literal
  bytes and the conversions d, i, b, o, u, x, c and s, with or without the zero flag and a width) and
  arguments of the right kinds, \<open>__vsnprintf\<close> stays inside its arrays and returns: the buffer holds the
  text of the directives and a terminator, as much of it as the limit allows, nothing behind it is
  touched, and the result is the number of bytes written, or -1 when the limit cut the text short.
\<close>

theorem vsnprintf_texts:
  assumes "well_typed ds args" "unat n \<le> length buf" "length num = 256" "length (texts ds args) + 1 < 2 ^ 31"
  shows "vsnprintf buf n (concat (map format_of ds) @ 0 # rest) args num =
    Some (if length (texts ds args) < unat n then int (length (texts ds args)) + 1 else -1,
          overwrite buf 0 (take (unat n) (texts ds args @ [0])))"
proof -
  let ?t = "texts ds args" and ?s = "\<lparr>obuf = buf, cur_idx = 0, str_num = num\<rparr>"
  have ok: "room_left n ?s" using assms(2) by (simp add: room_left_def)
  obtain num' where r: "vsnprintf_loop n (concat (map format_of ds) @ 0 # rest) 0 args ?s = Some (advance n ?t (?s\<lparr>str_num := num'\<rparr>))"
    using vsnprintf_loop_texts [OF ok _ _ assms(1)] assms(3) by fastforce
  let ?s' = "\<lparr>obuf = buf, cur_idx = 0, str_num = num'\<rparr>"
  have ok': "room_left n ?s'" using assms(2) by (simp add: room_left_def)
  have r': "vsnprintf_loop n (concat (map format_of ds) @ 0 # rest) 0 args ?s = Some (advance n ?t ?s')" using r by simp
  have "vsnprintf buf n (concat (map format_of ds) @ 0 # rest) args num =
      (case advance n (?t @ [0]) ?s' of Limit s \<Rightarrow> Some (-1, obuf s) | Go s \<Rightarrow> Some (sint (ucast (cur_idx s) :: u32), obuf s))"
    unfolding vsnprintf_def r' advance_append [OF ok'] using advance_room [OF ok', of ?t]
    by (auto simp: put_char_advance split: outcome.splits)
  moreover have "sint (ucast (of_nat (Suc (length ?t)) :: u64) :: u32) = int (length ?t) + 1"
    using small_int [of "Suc (length ?t)"] assms(4) by simp
  ultimately show ?thesis using assms(2) by (auto simp: advance_def)
qed

theorem vsnprintf_texts_witness:
  "vsnprintf (replicate 16 7) 16
     (concat (map format_of [Lit 120, Dir True 4 (Unsigned 120), Dir False 3 String, Dir False 0 (Signed True)]) @ 0 # [])
     [VaNum 255, VaStr [104, 105, 0], VaNum (- 5)] (replicate 256 0) =
   Some (11, overwrite (replicate 16 7) 0 (take 16 (bytes ''x00ff hi-5'' @ [0])))"
proof -
  let ?ds = "[Lit 120, Dir True 4 (Unsigned 120), Dir False 3 String, Dir False 0 (Signed True)]"
  let ?as = "[VaNum 255, VaStr [104, 105, 0], VaNum (- 5)]"
  have two: "replicate 2 (48 :: u8) = [48, 48]" by (simp add: numeral_eq_Suc)
  have t: "texts ?ds ?as = bytes ''x00ff hi-5''"
    by (simp add: padded_def udigits_def lsd.simps digits_def conv_base_def cstring_def signed_digits_def two)
  have "well_typed ?ds ?as" by (simp add: cstring_def)
  then show ?thesis using vsnprintf_texts [of ?ds ?as 16 "replicate 16 7" "replicate 256 0" "[]"] unfolding t by simp
qed

text \<open>
  A percent sign at the end of the format: the terminator is taken for an unknown conversion and
  printed, and reading goes on behind the string.
\<close>

lemma vsnprintf_trailing_percent:
  assumes "1 \<le> n" "unat n \<le> length buf"
  shows "vsnprintf buf n [37, 0] args num = None"
proof -
  let ?s = "\<lparr>obuf = buf, cur_idx = 0, str_num = num\<rparr>"
  have "parse_spec [37, 0] 1 = Some (False, 0, 1)" by (simp add: parse_spec_def not_digit_0 Let_def)
  moreover obtain s' where "put_char n 0 ?s = Some (Go s')"
    using assms put_char_advance [of n ?s 0] by (simp add: advance_def room_left_def word_le_nat_alt)
  ultimately have "conversion n [37, 0] 1 args ?s = Some (2, args, Go s')" by (simp add: conversion_def)
  then show ?thesis by (simp add: vsnprintf_def vsnprintf_loop.simps)
qed

end
