(* ===== verification/Terminal.thy ===== *)
theory Terminal
  imports Flibc_String
begin

text \<open>
  The terminal module, \<open>src/modules/terminal.c\<close> and \<open>framebuffer.c\<close>: text is drawn pixel by pixel into
  an off-screen buffer, with control characters, escape sequences for colours, scrolling and a
  cursor. The buffers and the font are arrays with checked accesses; indices are computed with the
  widths of the code, where several intermediate values are truncated to 32 bits. The specification
  is a grid of character cells.
\<close>

section \<open>Definitions\<close>

text \<open>The text attributes that have functions of their own.\<close>

datatype attribute = No_change | Reset_text

record terminal =
  font_h_px :: u32
  font_w_px :: u32
  bitmap :: "u8 list"
  term_h_px :: u64
  term_w_px :: u64
  buf1 :: "u32 list"
  cursor_h :: u32
  cursor_v :: u32
  cursor_h_max :: u32
  cursor_v_max :: u32
  cursor_color :: u32
  cursor_enabled :: bool
  scroll_enabled :: bool
  fg_color_default :: u32
  bg_color_default :: u32
  fg_color :: u32
  bg_color :: u32
  apply_to_fg :: u64
  is_ansi_state :: u64
  ansi_state :: u64
  ansi_sequence :: cbuf
  apply_set_attribute :: "attribute list"
  apply_reset_attribute :: "attribute list"
  buf2 :: "u32 list"
  fb_w_px :: u64
  fb_h_px :: u64

abbreviation (input) "PROCESS_NORMAL \<equiv> 0 :: u64"
abbreviation (input) "PROCESS_FG_BG \<equiv> 1 :: u64"
abbreviation (input) "PROCESS_ANSI8 \<equiv> 2 :: u64"
abbreviation (input) "PROCESS_ANSI24 \<equiv> 3 :: u64"

definition CURSOR_COLOR :: u32 where "CURSOR_COLOR = 0xff808080"

subsection \<open>framebuffer.c\<close>

definition is_scroll_needed :: "terminal \<Rightarrow> bool" where
  "is_scroll_needed t \<longleftrightarrow> cursor_v_max t \<le> cursor_v t + 1"

definition get_px_base :: "terminal \<Rightarrow> u32" where
  "get_px_base t = ucast (ucast (font_h_px t) * term_w_px t * ucast (cursor_v t) + ucast (font_w_px t * cursor_h t) :: u64)"

definition fb_load_buffer :: "terminal \<Rightarrow> terminal option" where
  "fb_load_buffer t = do {
     b \<leftarrow> for_loop 0 (unat (term_h_px t)) (\<lambda>i. for_loop 0 (unat (term_w_px t)) (\<lambda>j b. do {
       p \<leftarrow> rd (buf1 t) (unat (term_w_px t * of_nat i + of_nat j));
       wr b (unat (fb_w_px t * of_nat i + of_nat j)) p })) (buf2 t);
     Some (t\<lparr>buf2 := b\<rparr>) }"

definition clear_screen :: "terminal \<Rightarrow> terminal option" where
  "clear_screen t = do {
     b \<leftarrow> for_loop 0 (unat (term_h_px t)) (\<lambda>i. for_loop 0 (unat (term_w_px t)) (\<lambda>j b.
       wr b (unat (term_w_px t * of_nat i + of_nat j)) (bg_color_default t))) (buf1 t);
     Some (t\<lparr>buf1 := b\<rparr>) }"

text \<open>The loops that step a base from row to row; \<open>row\<close> is what they do to one row.\<close>

definition px_rows :: "nat \<Rightarrow> u64 \<Rightarrow> (nat \<Rightarrow> u32 \<Rightarrow> u32 list \<Rightarrow> u32 list option) \<Rightarrow> u32 \<Rightarrow> u32 list \<Rightarrow> (u32 list \<times> u32) option" where
  "px_rows n w row base b =
     for_loop 0 n (\<lambda>i (b, px_base). do { b \<leftarrow> row i px_base b; Some (b, ucast (ucast px_base + w)) }) (b, base)"

definition scroll_screen :: "terminal \<Rightarrow> terminal option" where
  "scroll_screen t = do {
     let v_px_offset = (ucast (ucast (font_h_px t) * term_w_px t) :: u32);
     (b, px_base) \<leftarrow> px_rows (unat (term_h_px t - ucast (font_h_px t))) (term_w_px t) (\<lambda>i px_base.
       for_loop 0 (unat (term_w_px t)) (\<lambda>j b. do {
         p \<leftarrow> rd b (unat (ucast (px_base + v_px_offset) + of_nat j :: u64));
         wr b (unat (ucast px_base + of_nat j :: u64)) p })) 0 (buf1 t);
     (b, px_base) \<leftarrow> px_rows (unat (font_h_px t)) (term_w_px t) (\<lambda>i px_base.
       for_loop 0 (unat (term_w_px t)) (\<lambda>j b. wr b (unat (ucast px_base + of_nat j :: u64)) (bg_color_default t))) px_base b;
     Some (t\<lparr>buf1 := b\<rparr>) }"

definition newline :: "terminal \<Rightarrow> terminal option" where
  "newline t =
     (if is_scroll_needed t
      then if scroll_enabled t then do { t \<leftarrow> scroll_screen t; Some (t\<lparr>cursor_h := 0\<rparr>) } else Some t
      else Some (t\<lparr>cursor_v := cursor_v t + 1, cursor_h := 0\<rparr>))"

definition backspace :: "terminal \<Rightarrow> terminal" where
  "backspace t =
     (if cursor_h t = 0 \<and> cursor_v t \<noteq> 0 then t\<lparr>cursor_v := cursor_v t - 1\<rparr>
      else if cursor_h t \<noteq> 0 then t\<lparr>cursor_h := cursor_h t - 1\<rparr> else t)"

text \<open>A glyph row is shifted as an \<open>int\<close>; a shift by 32 or more is undefined.\<close>

definition drawchar :: "u8 \<Rightarrow> terminal \<Rightarrow> terminal option" where
  "drawchar c t = do {
     let cur_char = unat (font_h_px t * ucast c);
     (b, px_base) \<leftarrow> px_rows (unat (font_h_px t)) (term_w_px t) (\<lambda>i px_base.
       for_loop 0 (unat (font_w_px t)) (\<lambda>j b. do {
         g \<leftarrow> rd (bitmap t) (cur_char + i);
         if 32 \<le> j then None
         else wr b (unat (ucast px_base + of_nat j :: u64)) (if bit g j then fg_color t else bg_color t) })) (get_px_base t) (buf1 t);
     let t = t\<lparr>buf1 := b\<rparr>;
     if cursor_h_max t \<le> cursor_h t + 1 then newline t
     else Some (t\<lparr>cursor_h := cursor_h t + 1\<rparr>) }"

text \<open>Here the base is kept in 64 bits.\<close>

definition draw_cursor :: "u32 \<Rightarrow> terminal \<Rightarrow> terminal option" where
  "draw_cursor color t = do {
     (b, px_base) \<leftarrow> for_loop 0 (unat (font_h_px t)) (\<lambda>i (b, px_base). do {
       b \<leftarrow> for_loop 0 (unat (font_w_px t)) (\<lambda>j b. wr b (unat (px_base + of_nat j :: u64)) color) b;
       Some (b, px_base + term_w_px t) }) (buf1 t, ucast (get_px_base t));
     Some (t\<lparr>buf1 := b\<rparr>) }"

subsection \<open>terminal.c: colours\<close>

definition rgb256 :: "u32 list" where
  "rgb256 = [
     0x000000, 0xaa0000, 0x00aa00, 0xaaaa00, 0x0000aa, 0xaa00aa, 0x00aaaa, 0xaaaaaa, 0x555555, 0xff5555, 0x55ff55, 0xffff55,
     0x5555ff, 0xff55ff, 0x55ffff, 0xffffff, 0x000000, 0x000033, 0x000066, 0x000099, 0x0000cc, 0x0000ff, 0x003300, 0x003333,
     0x003366, 0x003399, 0x0033cc, 0x0033ff, 0x006600, 0x006633, 0x006666, 0x006699, 0x0066cc, 0x0066ff, 0x009900, 0x009933,
     0x009966, 0x009999, 0x0099cc, 0x0099ff, 0x00cc00, 0x00cc33, 0x00cc66, 0x00cc99, 0x00cccc, 0x00ccff, 0x00ff00, 0x00ff33,
     0x00ff66, 0x00ff99, 0x00ffcc, 0x00ffff, 0x330000, 0x330033, 0x330066, 0x330099, 0x3300cc, 0x3300ff, 0x333300, 0x333333,
     0x333366, 0x333399, 0x3333cc, 0x3333ff, 0x336600, 0x336633, 0x336666, 0x336699, 0x3366cc, 0x3366ff, 0x339900, 0x339933,
     0x339966, 0x339999, 0x3399cc, 0x3399ff, 0x33cc00, 0x33cc33, 0x33cc66, 0x33cc99, 0x33cccc, 0x33ccff, 0x33ff00, 0x33ff33,
     0x33ff66, 0x33ff99, 0x33ffcc, 0x33ffff, 0x660000, 0x660033, 0x660066, 0x660099, 0x6600cc, 0x6600ff, 0x663300, 0x663333,
     0x663366, 0x663399, 0x6633cc, 0x6633ff, 0x666600, 0x666633, 0x666666, 0x666699, 0x6666cc, 0x6666ff, 0x669900, 0x669933,
     0x669966, 0x669999, 0x6699cc, 0x6699ff, 0x66cc00, 0x66cc33, 0x66cc66, 0x66cc99, 0x66cccc, 0x66ccff, 0x66ff00, 0x66ff33,
     0x66ff66, 0x66ff99, 0x66ffcc, 0x66ffff, 0x990000, 0x990033, 0x990066, 0x990099, 0x9900cc, 0x9900ff, 0x993300, 0x993333,
     0x993366, 0x993399, 0x9933cc, 0x9933ff, 0x996600, 0x996633, 0x996666, 0x996699, 0x9966cc, 0x9966ff, 0x999900, 0x999933,
     0x999966, 0x999999, 0x9999cc, 0x9999ff, 0x99cc00, 0x99cc33, 0x99cc66, 0x99cc99, 0x99cccc, 0x99ccff, 0x99ff00, 0x99ff33,
     0x99ff66, 0x99ff99, 0x99ffcc, 0x99ffff, 0xcc0000, 0xcc0033, 0xcc0066, 0xcc0099, 0xcc00cc, 0xcc00ff, 0xcc3300, 0xcc3333,
     0xcc3366, 0xcc3399, 0xcc33cc, 0xcc33ff, 0xcc6600, 0xcc6633, 0xcc6666, 0xcc6699, 0xcc66cc, 0xcc66ff, 0xcc9900, 0xcc9933,
     0xcc9966, 0xcc9999, 0xcc99cc, 0xcc99ff, 0xcccc00, 0xcccc33, 0xcccc66, 0xcccc99, 0xcccccc, 0xccccff, 0xccff00, 0xccff33,
     0xccff66, 0xccff99, 0xccffcc, 0xccffff, 0xff0000, 0xff0033, 0xff0066, 0xff0099, 0xff00cc, 0xff00ff, 0xff3300, 0xff3333,
     0xff3366, 0xff3399, 0xff33cc, 0xff33ff, 0xff6600, 0xff6633, 0xff6666, 0xff6699, 0xff66cc, 0xff66ff, 0xff9900, 0xff9933,
     0xff9966, 0xff9999, 0xff99cc, 0xff99ff, 0xffcc00, 0xffcc33, 0xffcc66, 0xffcc99, 0xffcccc, 0xffccff, 0xffff00, 0xffff33,
     0xffff66, 0xffff99, 0xffffcc, 0xffffff, 0x000000, 0x0a0a0a, 0x141414, 0x1e1e1e, 0x282828, 0x323232, 0x3c3c3c, 0x464646,
     0x505050, 0x5a5a5a, 0x646464, 0x6e6e6e, 0x787878, 0x828282, 0x8c8c8c, 0x969696, 0xa0a0a0, 0xaaaaaa, 0xb4b4b4, 0xbebebe,
     0xc8c8c8, 0xd2d2d2, 0xdcdcdc, 0xe6e6e6]"

definition reset_text_attribute :: "terminal \<Rightarrow> terminal" where
  "reset_text_attribute t = t\<lparr>ansi_state := PROCESS_NORMAL, fg_color := fg_color_default t, bg_color := bg_color_default t\<rparr>"

fun run_attribute :: "attribute \<Rightarrow> terminal \<Rightarrow> terminal" where
  "run_attribute No_change t = t"
| "run_attribute Reset_text t = reset_text_attribute t"

definition num_in_byte_bounds :: "int \<Rightarrow> bool" where
  "num_in_byte_bounds n \<longleftrightarrow> 0 \<le> n \<and> n \<le> 255"

definition apply_color :: "u32 \<Rightarrow> terminal \<Rightarrow> terminal" where
  "apply_color color t = (if apply_to_fg t \<noteq> 0 then t\<lparr>fg_color := color\<rparr> else t\<lparr>bg_color := color\<rparr>)"

text \<open>One code in the state \<open>PROCESS_NORMAL\<close>.\<close>

definition palette :: "int \<Rightarrow> u32 option" where
  "palette n = do { p \<leftarrow> rd rgb256 (nat n); Some (0xff000000 OR p) }"

definition sgr_normal :: "int \<Rightarrow> terminal \<Rightarrow> terminal option" where
  "sgr_normal n t =
     (if 0 \<le> n \<and> n \<le> 9 then do { f \<leftarrow> rd (apply_set_attribute t) (nat n); Some (run_attribute f t) }
      else if 22 \<le> n \<and> n \<le> 29 then do { f \<leftarrow> rd (apply_reset_attribute t) (nat (n - 22)); Some (run_attribute f t) }
      else if n = 38 \<or> n = 48 then Some (t\<lparr>ansi_state := PROCESS_FG_BG, apply_to_fg := of_bool (n = 38)\<rparr>)
      else if 30 \<le> n \<and> n \<le> 37 then do { p \<leftarrow> palette (n - 30); Some (t\<lparr>fg_color := p\<rparr>) }
      else if 90 \<le> n \<and> n \<le> 97 then do { p \<leftarrow> palette (n - 90 + 8); Some (t\<lparr>fg_color := p\<rparr>) }
      else if 40 \<le> n \<and> n \<le> 47 then do { p \<leftarrow> palette (n - 40); Some (t\<lparr>bg_color := p\<rparr>) }
      else if 100 \<le> n \<and> n \<le> 107 then do { p \<leftarrow> palette (n - 100 + 8); Some (t\<lparr>bg_color := p\<rparr>) }
      else Some t)"

definition sgr_delim :: cbuf where "sgr_delim = [59, 0]"

text \<open>
  The loop over the components of a 24-bit colour, from \<open>i = k - 1\<close> down: the array, the token, the
  saved position, the colour and whether the components were valid. The state of the machine is reset
  only where they are not.
\<close>

fun rgb_loop :: "nat \<Rightarrow> cbuf \<Rightarrow> nat option \<Rightarrow> nat \<Rightarrow> u32 \<Rightarrow> (cbuf \<times> nat option \<times> nat \<times> u32 \<times> bool) option" where
  "rgb_loop 0 q tok p color = Some (q, tok, p, color, True)"
| "rgb_loop (Suc i) q tok p color = do {
     s \<leftarrow> tok;
     n \<leftarrow> atoi q s;
     if \<not> num_in_byte_bounds n then Some (q, tok, p, color, False)
     else do {
       let color = color OR word_of_int (n * 2 ^ (8 * (2 - i)));
       (q, tok, p) \<leftarrow> strtok_r q None sgr_delim p;
       if tok = None \<and> i \<noteq> 0 then Some (q, tok, p, color, False)
       else rgb_loop i q tok p color } }"

partial_function (option) sgr_loop :: "nat option \<Rightarrow> nat \<Rightarrow> u32 \<Rightarrow> terminal \<Rightarrow> terminal option" where
  "sgr_loop tok p color t =
     (case tok of None \<Rightarrow> Some t
      | Some s \<Rightarrow> do {
          n \<leftarrow> atoi (ansi_sequence t) s;
          (color, p, t) \<leftarrow> (if ansi_state t = PROCESS_NORMAL then do { t \<leftarrow> sgr_normal n t; Some (color, p, t) }
            else if ansi_state t = PROCESS_FG_BG then
              Some (color, p, t\<lparr>ansi_state := (if n \<noteq> 5 \<and> n \<noteq> 2 then PROCESS_NORMAL else if n = 5 then PROCESS_ANSI8 else PROCESS_ANSI24)\<rparr>)
            else if ansi_state t = PROCESS_ANSI8 then
              if \<not> num_in_byte_bounds n then Some (color, p, t\<lparr>ansi_state := PROCESS_NORMAL\<rparr>)
              else do { color \<leftarrow> palette n; Some (color, p, (apply_color color t)\<lparr>ansi_state := PROCESS_NORMAL\<rparr>) }
            else if ansi_state t = PROCESS_ANSI24 then do {
              (q, tok, p, color, valid) \<leftarrow> rgb_loop 3 (ansi_sequence t) tok p color;
              let t = t\<lparr>ansi_sequence := q\<rparr>;
              Some (color, p, if valid then apply_color color t else t\<lparr>ansi_state := PROCESS_NORMAL\<rparr>) }
            else Some (color, p, t));
          (q, tok, p) \<leftarrow> strtok_r (ansi_sequence t) None sgr_delim p;
          sgr_loop tok p color (t\<lparr>ansi_sequence := q\<rparr>) })"

definition parse_sgr :: "nat \<Rightarrow> terminal \<Rightarrow> terminal option" where
  "parse_sgr sequence t = do {
     len \<leftarrow> strlen (ansi_sequence t) sequence;
     if len = 0 then Some (reset_text_attribute t)
     else do {
       (q, tok, p) \<leftarrow> strtok_r (ansi_sequence t) (Some sequence) sgr_delim sequence;
       sgr_loop tok p 0 (t\<lparr>ansi_sequence := q\<rparr>) } }"

definition terminal_parse_ansi :: "terminal \<Rightarrow> terminal option" where
  "terminal_parse_ansi t = do {
     c \<leftarrow> rd (ansi_sequence t) 0;
     if c \<noteq> 91 then Some t
     else do {
       len \<leftarrow> strlen (ansi_sequence t) 1;
       if len = 0 then None
       else do {
         let code_idx = len - 1;
         ansi_code \<leftarrow> rd (ansi_sequence t) (1 + code_idx);
         q \<leftarrow> wr (ansi_sequence t) (1 + code_idx) 0;
         let t = t\<lparr>ansi_sequence := q\<rparr>;
         if ansi_code = 109 then parse_sgr 1 t else Some t } } }"

subsection \<open>terminal.c: printing\<close>

text \<open>\<open>"[;01234567890"\<close>, the characters that continue an escape sequence.\<close>

definition ansi_chars :: cbuf where
  "ansi_chars = bytes ''[;01234567890'' @ [0]"

definition print_char :: "u8 \<Rightarrow> terminal \<Rightarrow> terminal option" where
  "print_char c t =
     (if c = 8 then Some (backspace t)
      else if c = 27 then Some (t\<lparr>is_ansi_state := 1\<rparr>)
      else if c = 10 then newline t
      else if c = 13 then Some t
      else if c = 9 then for_loop 0 4 (\<lambda>i. drawchar 32) t
      else if c = 11 then Some t
      else drawchar c t)"

text \<open>The next position of \<open>buf\<close> and \<open>start\<close>; the text is restarted when the sequence is full.\<close>

definition print_ansi :: "u8 \<Rightarrow> nat \<Rightarrow> nat \<Rightarrow> terminal \<Rightarrow> (nat \<times> nat \<times> terminal) option" where
  "print_ansi c buf start t = do {
     q \<leftarrow> strcat (ansi_sequence t) 0 [c, 0] 0;
     let t = t\<lparr>ansi_sequence := q\<rparr>;
     e \<leftarrow> rd q 63;
     if e \<noteq> 0 then Some (Suc start, Suc start, t\<lparr>is_ansi_state := 0\<rparr>)
     else do {
       m \<leftarrow> strchr ansi_chars 0 (sint c);
       if m = None then do {
         t \<leftarrow> terminal_parse_ansi (t\<lparr>is_ansi_state := 0\<rparr>);
         q \<leftarrow> wr (ansi_sequence t) 0 0;
         Some (buf, start, t\<lparr>ansi_sequence := q\<rparr>) }
       else Some (buf, start, t) } }"

partial_function (option) print_loop :: "cbuf \<Rightarrow> nat \<Rightarrow> nat \<Rightarrow> terminal \<Rightarrow> terminal option" where
  "print_loop str buf start t = do {
     c \<leftarrow> rd str buf;
     if c = 0 then Some t
     else do {
       (buf, start, t) \<leftarrow> (if is_ansi_state t \<noteq> 0 then print_ansi c buf start t
         else do { t \<leftarrow> print_char c t; Some (buf, start, t) });
       print_loop str (Suc buf) start t } }"

definition terminal_print :: "cbuf \<Rightarrow> nat \<Rightarrow> terminal \<Rightarrow> terminal option" where
  "terminal_print str buf t = do {
     t \<leftarrow> (if cursor_enabled t then draw_cursor (bg_color t) t else Some t);
     t \<leftarrow> print_loop str buf buf t;
     if cursor_enabled t then draw_cursor (cursor_color t) t else Some t }"

definition terminal_refresh :: "terminal \<Rightarrow> terminal option" where
  "terminal_refresh t = fb_load_buffer t"

definition terminal_clear :: "terminal \<Rightarrow> terminal option" where
  "terminal_clear t = clear_screen t"

text \<open>
  A new terminal. \<open>fresh\<close> is what \<open>__malloc\<close> returned for it, with whatever it contains, and \<open>pixels\<close> the
  block for the buffer, when one is needed; both results are used unchecked.
\<close>

definition terminal_alloc :: "u8 list \<Rightarrow> terminal option \<Rightarrow> u32 list option \<Rightarrow> u32 \<Rightarrow> u32 \<Rightarrow> u64 \<Rightarrow> u64 \<Rightarrow> u32 \<Rightarrow> u32 \<Rightarrow> u32 \<Rightarrow> u32 \<Rightarrow>
    u64 \<Rightarrow> u64 \<Rightarrow> u8 list option \<Rightarrow> u32 list option \<Rightarrow> u32 list \<Rightarrow> terminal option" where
  "terminal_alloc default_font fresh pixels h_font w_font term_h term_w fb_h fb_w fb_pitch fb_bpp fg bg bmp buffer1 buffer2 = do {
     t \<leftarrow> fresh;
     let t = t\<lparr>font_h_px := h_font, font_w_px := w_font, bitmap := (case bmp of Some f \<Rightarrow> f | None \<Rightarrow> default_font),
       term_h_px := min term_h (ucast fb_h), term_w_px := min term_w (ucast fb_w)\<rparr>;
     b \<leftarrow> (case buffer1 of Some b \<Rightarrow> Some b | None \<Rightarrow> pixels);
     let t = t\<lparr>buf1 := b\<rparr>;
     if w_font = 0 \<or> h_font = 0 \<or> fb_bpp div 8 = 0 then None
     else do {
       let t = t\<lparr>cursor_h := 0, cursor_v := 0, cursor_h_max := ucast (term_w_px t div ucast w_font),
         cursor_v_max := ucast (term_h_px t div ucast h_font), cursor_color := CURSOR_COLOR, cursor_enabled := True,
         fg_color_default := ucast fg, bg_color_default := ucast bg\<rparr>;
       let t = t\<lparr>fg_color := fg_color_default t, bg_color := bg_color_default t, apply_to_fg := 0, is_ansi_state := 0,
         ansi_state := PROCESS_NORMAL, buf2 := buffer2, fb_w_px := ucast (fb_pitch div (fb_bpp div 8)), fb_h_px := ucast fb_h,
         ansi_sequence := replicate 64 0, apply_set_attribute := (replicate 9 No_change)[0 := Reset_text],
         apply_reset_attribute := replicate 8 No_change\<rparr>;
       Some t } }"

declare sgr_loop.simps [code] print_loop.simps [code]

end
