(* ===== verification/Terminal_Grid.thy ===== *)
theory Terminal_Grid
  imports Terminal
begin

text \<open>
  The terminal as its users see it: a grid of character cells with a cursor and two colours. The
  pixel loops are described by their effect on pixels addressed by row and column; drawing,
  scrolling and the cursor then become operations on cells, and printing a text with control
  characters and colour sequences refines its interpretation on the grid.
\<close>

section \<open>Pixels\<close>

definition px :: "nat \<Rightarrow> 'a list \<Rightarrow> nat \<Rightarrow> nat \<Rightarrow> 'a" where
  "px w b y x = b ! (y * w + x)"

lemma px_index_less:
  fixes y :: nat
  assumes "y < h" "x < w"
  shows "y * w + x < h * w"
proof -
  have "y * w + x < Suc y * w" using assms(2) by simp
  also have "\<dots> \<le> h * w" using assms(1) by (intro mult_le_mono1) simp
  finally show ?thesis .
qed

lemma px_index_row:
  fixes y :: nat
  assumes "x < w" "x0 + n \<le> w"
  shows "y0 * w + x0 \<le> y * w + x \<and> y * w + x < y0 * w + x0 + n \<longleftrightarrow> y = y0 \<and> x0 \<le> x \<and> x < x0 + n"
proof -
  have "y * w + x < y0 * w" if "y < y0" using px_index_less [OF that assms(1)] .
  moreover have "y0 * w + x0 + n \<le> y * w" if "y0 < y"
  proof -
    have "Suc y0 * w \<le> y * w" using that by (intro mult_le_mono1) simp
    then show ?thesis using assms(2) by simp
  qed
  ultimately show ?thesis by (cases y y0 rule: linorder_cases) auto
qed

lemma overwrite_snoc:
  "k + length xs < length b \<Longrightarrow> (overwrite b k xs)[k + length xs := v] = overwrite b k (xs @ [v])"
  by (simp add: overwrite_def list_update_append drop_Cons_nth add.commute)

text \<open>A row of pixels, written from a function or copied from further below.\<close>

lemma row_write:
  assumes "\<And>j b'. j < n \<Longrightarrow> length b' = length b \<Longrightarrow> body j b' = wr b' (k + j) (g j)" "k + n \<le> length b"
  shows "for_loop 0 n body b = Some (overwrite b k (map g [0..<n]))"
proof -
  have "\<exists>t. for_loop 0 n body b = Some t \<and> t = overwrite b k (map g [0..<n])"
  proof (rule for_loop_rule [where I = "\<lambda>i t. t = overwrite b k (map g [0..<i])"])
    fix i t assume "i < n" "t = overwrite b k (map g [0..<i])"
    then show "\<exists>t'. body i t = Some t' \<and> t' = overwrite b k (map g [0..<Suc i])"
      using assms overwrite_snoc [of k "map g [0..<i]" b "g i"] by simp
  qed simp_all
  then show ?thesis by simp
qed

lemma row_copy:
  assumes "\<And>j b'. j < n \<Longrightarrow> length b' = length b \<Longrightarrow> body j b' = do { p \<leftarrow> rd b' (k + off + j); wr b' (k + j) p }"
    and "n \<le> off" "k + off + n \<le> length b"
  shows "for_loop 0 n body b = Some (overwrite b k (map (\<lambda>j. b ! (k + off + j)) [0..<n]))"
proof -
  let ?g = "\<lambda>j. b ! (k + off + j)"
  have "\<exists>t. for_loop 0 n body b = Some t \<and> t = overwrite b k (map ?g [0..<n])"
  proof (rule for_loop_rule [where I = "\<lambda>i t. t = overwrite b k (map ?g [0..<i])"])
    fix i t assume i: "i < n" and t: "t = overwrite b k (map ?g [0..<i])"
    then have "t ! (k + off + i) = ?g i" "length t = length b" using assms(2,3) by (simp_all add: nth_overwrite)
    then show "\<exists>t'. body i t = Some t' \<and> t' = overwrite b k (map ?g [0..<Suc i])"
      using assms i t overwrite_snoc [of k "map ?g [0..<i]" b "?g i"] by simp
  qed simp_all
  then show ?thesis by simp
qed

lemma px_overwrite:
  assumes "x0 + n \<le> w" "y0 < h" "y < h" "x < w" "length b = h * w"
  shows "px w (overwrite b (y0 * w + x0) (map g [0..<n])) y x = (if y = y0 \<and> x0 \<le> x \<and> x < x0 + n then g (x - x0) else px w b y x)"
proof -
  have "y0 * w + x0 + n \<le> length b"
  proof -
    have "Suc y0 * w \<le> h * w" using assms(2) by (intro mult_le_mono1) simp
    then show ?thesis using assms(1,5) by simp
  qed
  then show ?thesis
    using px_index_less [OF assms(3,4)] px_index_row [OF assms(4,1), of y0 y] assms(5)
    by (auto simp: px_def nth_overwrite)
qed

text \<open>
  The loops over rows. The base of a row is kept in a machine word; \<open>enc\<close> is its representation.
\<close>

lemma rows_loop:
  fixes enc :: "nat \<Rightarrow> 'p"
  assumes step: "\<And>k. step (enc k) = enc (k + w)"
    and row: "\<And>i b'. i < n \<Longrightarrow> length b' = length b \<Longrightarrow> row i (enc ((y0 + i) * w + x0)) b' = Some (new i b')"
    and len: "\<And>i b'. i < n \<Longrightarrow> length b' = length b \<Longrightarrow> length (new i b') = length b"
    and P0: "P 0 b" and PS: "\<And>i b'. i < n \<Longrightarrow> length b' = length b \<Longrightarrow> P i b' \<Longrightarrow> P (Suc i) (new i b')"
  shows "\<exists>b'. for_loop 0 n (\<lambda>i (b, p). do { b \<leftarrow> row i p b; Some (b, step p) }) (b, enc (y0 * w + x0)) =
      Some (b', enc ((y0 + n) * w + x0)) \<and> length b' = length b \<and> P n b'"
proof -
  have "\<exists>t. for_loop 0 n (\<lambda>i (b, p). do { b \<leftarrow> row i p b; Some (b, step p) }) (b, enc (y0 * w + x0)) = Some t \<and>
      snd t = enc ((y0 + n) * w + x0) \<and> length (fst t) = length b \<and> P n (fst t)"
  proof (rule for_loop_rule [where I = "\<lambda>i t. snd t = enc ((y0 + i) * w + x0) \<and> length (fst t) = length b \<and> P i (fst t)"])
    fix i t assume i: "i < n" and t: "snd t = enc ((y0 + i) * w + x0) \<and> length (fst t) = length b \<and> P i (fst t)"
    have "step (enc ((y0 + i) * w + x0)) = enc ((y0 + Suc i) * w + x0)" unfolding step by (simp add: algebra_simps)
    then show "\<exists>t'. (case t of (b, p) \<Rightarrow> do { b \<leftarrow> row i p b; Some (b, step p) }) = Some t' \<and>
        snd t' = enc ((y0 + Suc i) * w + x0) \<and> length (fst t') = length b \<and> P (Suc i) (fst t')"
      using i t row [OF i, of "fst t"] len [OF i, of "fst t"] PS [OF i, of "fst t"] by (cases t) auto
  qed (use P0 in simp_all)
  then show ?thesis by fastforce
qed

text \<open>A rectangle of pixels.\<close>

lemma rect_loop:
  fixes enc :: "nat \<Rightarrow> 'p"
  assumes step: "\<And>k. step (enc k) = enc (k + w)" and b: "length b = h * w" "x0 + m \<le> w" "y0 + n \<le> h"
    and row: "\<And>i b'. i < n \<Longrightarrow> length b' = length b \<Longrightarrow>
      row i (enc ((y0 + i) * w + x0)) b' = Some (overwrite b' ((y0 + i) * w + x0) (map (f i) [0..<m]))"
  shows "\<exists>b'. for_loop 0 n (\<lambda>i (b, p). do { b \<leftarrow> row i p b; Some (b, step p) }) (b, enc (y0 * w + x0)) =
      Some (b', enc ((y0 + n) * w + x0)) \<and> length b' = h * w \<and>
    (\<forall>y<h. \<forall>x<w. px w b' y x = (if y0 \<le> y \<and> y < y0 + n \<and> x0 \<le> x \<and> x < x0 + m then f (y - y0) (x - x0) else px w b y x))"
proof -
  have bound: "(y0 + i) * w + x0 + m \<le> h * w" if "i < n" for i
  proof -
    have "Suc (y0 + i) * w \<le> h * w" using that b(3) by (intro mult_le_mono1) simp
    then show ?thesis using b(2) by simp
  qed
  let ?P = "\<lambda>i b'. \<forall>y<h. \<forall>x<w. px w b' y x = (if y0 \<le> y \<and> y < y0 + i \<and> x0 \<le> x \<and> x < x0 + m then f (y - y0) (x - x0) else px w b y x)"
  have "\<exists>b'. for_loop 0 n (\<lambda>i (b, p). do { b \<leftarrow> row i p b; Some (b, step p) }) (b, enc (y0 * w + x0)) =
      Some (b', enc ((y0 + n) * w + x0)) \<and> length b' = length b \<and> ?P n b'"
  proof (rule rows_loop [where new = "\<lambda>i b'. overwrite b' ((y0 + i) * w + x0) (map (f i) [0..<m])" and P = ?P])
    show "?P (Suc i) (overwrite b' ((y0 + i) * w + x0) (map (f i) [0..<m]))" if "i < n" "length b' = length b" "?P i b'" for i b'
      using that b px_overwrite [of x0 m w "y0 + i" h _ _ b' "f i"] by (auto simp: less_Suc_eq)
    show "?P 0 b" by auto
  qed (use step row bound b(1) in simp_all)
  then show ?thesis using b(1) by simp
qed

section \<open>The grid\<close>

datatype cell = Glyph u8 u32 u32 | Fill u32

record screen =
  rows :: nat
  cols :: nat
  scrolls :: bool
  fg :: u32
  bg :: u32
  fg0 :: u32
  bg0 :: u32
  cells :: "nat \<Rightarrow> nat \<Rightarrow> cell"
  crow :: nat
  ccol :: nat

definition set_cell :: "cell \<Rightarrow> screen \<Rightarrow> screen" where
  "set_cell e s = s\<lparr>cells := (cells s)(crow s := (cells s (crow s))(ccol s := e))\<rparr>"

definition scroll_cells :: "screen \<Rightarrow> screen" where
  "scroll_cells s = s\<lparr>cells := (\<lambda>r c. if Suc r < rows s then cells s (Suc r) c else Fill (bg0 s))\<rparr>"

definition line_feed :: "screen \<Rightarrow> screen" where
  "line_feed s =
     (if rows s \<le> Suc (crow s) then if scrolls s then (scroll_cells s)\<lparr>ccol := 0\<rparr> else s
      else s\<lparr>crow := Suc (crow s), ccol := 0\<rparr>)"

definition put_glyph :: "u8 \<Rightarrow> screen \<Rightarrow> screen" where
  "put_glyph c s =
     (let s = set_cell (Glyph c (fg s) (bg s)) s in
      if cols s \<le> Suc (ccol s) then line_feed s else s\<lparr>ccol := Suc (ccol s)\<rparr>)"

definition step_back :: "screen \<Rightarrow> screen" where
  "step_back s =
     (if ccol s = 0 \<and> crow s \<noteq> 0 then s\<lparr>crow := crow s - 1\<rparr>
      else if ccol s \<noteq> 0 then s\<lparr>ccol := ccol s - 1\<rparr> else s)"

text \<open>What a pixel of a cell shows.\<close>

fun cell_px :: "u8 list \<Rightarrow> nat \<Rightarrow> cell \<Rightarrow> nat \<Rightarrow> nat \<Rightarrow> u32" where
  "cell_px font h (Glyph c f b) y x = (if bit (font ! (h * unat c + y)) x then f else b)"
| "cell_px font h (Fill k) y x = k"

abbreviation (input) "fh t \<equiv> unat (font_h_px t)"
abbreviation (input) "fw t \<equiv> unat (font_w_px t)"
abbreviation (input) "tw t \<equiv> unat (term_w_px t)"
abbreviation (input) "th t \<equiv> unat (term_h_px t)"

text \<open>
  A terminal whose buffer and font have the size its fields say: the buffer has fewer than \<open>2 ^ 32\<close>
  pixels, which is what the truncated indices need, and the font at most 32 columns.
\<close>

definition dims_ok :: "terminal \<Rightarrow> bool" where
  "dims_ok t \<longleftrightarrow> 0 < fh t \<and> 0 < fw t \<and> fw t \<le> 32 \<and> unat (cursor_h_max t) * fw t \<le> tw t \<and> unat (cursor_v_max t) * fh t \<le> th t \<and>
     0 < cursor_h_max t \<and> 0 < cursor_v_max t \<and> th t * tw t < 2 ^ 32 \<and> length (buf1 t) = th t * tw t \<and>
     256 * fh t < 2 ^ 32 \<and> length (bitmap t) = 256 * fh t \<and> cursor_h t < cursor_h_max t \<and> cursor_v t < cursor_v_max t"

definition displays :: "terminal \<Rightarrow> screen \<Rightarrow> bool" where
  "displays t s \<longleftrightarrow> dims_ok t \<and> rows s = unat (cursor_v_max t) \<and> cols s = unat (cursor_h_max t) \<and> scrolls s = scroll_enabled t \<and>
     fg s = fg_color t \<and> bg s = bg_color t \<and> fg0 s = fg_color_default t \<and> bg0 s = bg_color_default t \<and>
     crow s = unat (cursor_v t) \<and> ccol s = unat (cursor_h t) \<and>
     (\<forall>r<rows s. \<forall>c<cols s. \<forall>y<fh t. \<forall>x<fw t.
        px (tw t) (buf1 t) (r * fh t + y) (c * fw t + x) = cell_px (bitmap t) (fh t) (cells s r c) y x) \<and>
     (\<forall>y x. rows s * fh t \<le> y \<and> y < th t \<and> x < tw t \<longrightarrow> px (tw t) (buf1 t) y x = bg0 s)"

lemma unat_32_64 [simp]: "unat (ucast (w :: u32) :: u64) = unat w"
proof -
  have "unat w < 2 ^ 64" using unat_bound [of w] by simp
  then show ?thesis by (simp add: unsigned_ucast_eq take_bit_nat_eq_self)
qed

lemma of_nat_u32_eq: "(of_nat a :: u32) = of_nat b \<longleftrightarrow> a mod 2 ^ 32 = b mod 2 ^ 32"
  by (simp add: word_of_nat_eq_iff take_bit_eq_mod)

lemma ucast_u32: "(ucast (x :: u64) :: u32) = of_nat (unat x)"
  by simp

lemma enc32: "ucast (ucast (of_nat k :: u32) + w :: u64) = (of_nat (k + unat (w :: u64)) :: u32)"
proof -
  have "unat (ucast (of_nat k :: u32) + w :: u64) = (k mod 2 ^ 32 + unat w) mod 2 ^ 64"
    by (simp add: unat_word_ariths unat_of_nat take_bit_eq_mod)
  moreover have "((k mod 2 ^ 32 + unat w) mod 2 ^ 64) mod 2 ^ 32 = (k + unat w) mod 2 ^ 32"
    by (simp add: mod_mod_cancel mod_simps)
  ultimately show ?thesis unfolding ucast_u32 of_nat_u32_eq by simp
qed

lemma idx32: "k + j < 2 ^ 32 \<Longrightarrow> unat (ucast (of_nat k :: u32) + of_nat j :: u64) = k + j"
  by (simp add: unat_word_ariths unat_of_nat take_bit_eq_mod)

text \<open>Where a cell lies in the buffer.\<close>

lemma cell_bounds:
  assumes "dims_ok t" "r < unat (cursor_v_max t)" "c < unat (cursor_h_max t)"
  shows "r * fh t + fh t \<le> th t" "c * fw t + fw t \<le> tw t"
proof -
  have "Suc r * fh t \<le> unat (cursor_v_max t) * fh t" "Suc c * fw t \<le> unat (cursor_h_max t) * fw t"
    using assms(2,3) by (intro mult_le_mono1; simp)+
  then show "r * fh t + fh t \<le> th t" "c * fw t + fw t \<le> tw t" using assms(1) by (simp_all add: dims_ok_def)
qed

lemma cursor_bounds:
  assumes "dims_ok t"
  shows "unat (cursor_v t) < unat (cursor_v_max t)" "unat (cursor_h t) < unat (cursor_h_max t)"
  using assms by (simp_all add: dims_ok_def word_less_nat_alt)

lemma px_base_grid:
  assumes "dims_ok t"
  shows "get_px_base t = of_nat (unat (cursor_v t) * fh t * tw t + unat (cursor_h t) * fw t)"
proof -
  let ?v = "unat (cursor_v t)" and ?h = "unat (cursor_h t)"
  note cb = cell_bounds [OF assms cursor_bounds [OF assms]]
  have d: "th t * tw t < 2 ^ 32" "0 < fw t" "0 < fh t" using assms by (simp_all add: dims_ok_def)
  have "fh t * tw t \<le> th t * tw t" "?v * fh t * tw t \<le> th t * tw t" using cb(1) by (intro mult_le_mono1; simp)+
  moreover have "1 * tw t \<le> th t * tw t" using cb(1) d(3) by (intro mult_le_mono1) simp
  ultimately have b: "fh t * tw t < 2 ^ 32" "?v * fh t * tw t < 2 ^ 32" "?h * fw t < 2 ^ 32" using cb(2) d by linarith+
  have "unat (font_w_px t * cursor_h t) = ?h * fw t" using b(3) by (subst unat_mult_small) (simp_all add: mult.commute)
  moreover have "unat (ucast (font_h_px t) * term_w_px t :: u64) = fh t * tw t"
    using b(1) by (subst unat_mult_small) simp_all
  moreover from this have "unat (ucast (font_h_px t) * term_w_px t * ucast (cursor_v t) :: u64) = ?v * fh t * tw t"
    using b(2) by (subst unat_mult_small) (simp_all add: mult.commute mult.left_commute)
  ultimately have "unat (ucast (font_h_px t) * term_w_px t * ucast (cursor_v t) + ucast (font_w_px t * cursor_h t) :: u64) =
      ?v * fh t * tw t + ?h * fw t"
    using b(2,3) by (subst unat_add_small) simp_all
  then show ?thesis unfolding get_px_base_def ucast_u32 by simp
qed

section \<open>Drawing\<close>

lemma cell_unique:
  fixes r :: nat
  assumes "y < h"
  shows "r0 * h \<le> r * h + y \<and> r * h + y < r0 * h + h \<longleftrightarrow> r = r0"
  using px_index_row [OF assms, of 0 h r0 r] assms by simp

text \<open>Writing the pixels of the cell under the cursor.\<close>

lemma displays_cell:
  assumes d: "displays t s" and len: "length b = th t * tw t"
    and b: "\<forall>y<th t. \<forall>x<tw t. px (tw t) b y x =
      (if crow s * fh t \<le> y \<and> y < crow s * fh t + fh t \<and> ccol s * fw t \<le> x \<and> x < ccol s * fw t + fw t
       then f (y - crow s * fh t) (x - ccol s * fw t) else px (tw t) (buf1 t) y x)"
    and f: "\<And>y x. y < fh t \<Longrightarrow> x < fw t \<Longrightarrow> f y x = cell_px (bitmap t) (fh t) e y x"
  shows "displays (t\<lparr>buf1 := b\<rparr>) (set_cell e s)"
proof -
  have dim: "dims_ok t" and rc: "rows s = unat (cursor_v_max t)" "cols s = unat (cursor_h_max t)"
      "crow s = unat (cursor_v t)" "ccol s = unat (cursor_h t)"
    using d by (simp_all add: displays_def)
  have "px (tw t) b (r * fh t + y) (c * fw t + x) = cell_px (bitmap t) (fh t) (cells (set_cell e s) r c) y x"
    if rcyx: "r < rows s" "c < cols s" "y < fh t" "x < fw t" for r c y x
  proof -
    have "r * fh t + y < th t" "c * fw t + x < tw t"
      using cell_bounds [OF dim, of r c] rcyx rc by simp_all
    then show ?thesis
      using b cell_unique [OF rcyx(3), of "crow s" r] cell_unique [OF rcyx(4), of "ccol s" c] f [OF rcyx(3,4)] d rcyx
      by (auto simp: set_cell_def displays_def)
  qed
  moreover have "px (tw t) b y x = bg0 s" if "rows s * fh t \<le> y" "y < th t" "x < tw t" for y x
  proof -
    have "Suc (crow s) * fh t \<le> rows s * fh t" using cursor_bounds(1) [OF dim] rc by (intro mult_le_mono1) simp
    then have "\<not> y < crow s * fh t + fh t" using that(1) by simp
    then show ?thesis using b that d by (auto simp: displays_def)
  qed
  ultimately show ?thesis using d len by (simp add: displays_def dims_ok_def set_cell_def)
qed

lemma index_small: "j < n \<Longrightarrow> k + n \<le> l \<Longrightarrow> l < 2 ^ 32 \<Longrightarrow> k + j < 2 ^ 32" "j < n \<Longrightarrow> k + n \<le> l \<Longrightarrow> l < 2 ^ 32 \<Longrightarrow> k + j < 2 ^ 64"
  "k \<le> l \<Longrightarrow> l < 2 ^ 32 \<Longrightarrow> k < 2 ^ 64"
  for j k l n :: nat
  by simp_all

lemma draw_cursor_displays:
  assumes d: "displays t s"
  shows "\<exists>b. draw_cursor k t = Some (t\<lparr>buf1 := b\<rparr>) \<and> displays (t\<lparr>buf1 := b\<rparr>) (set_cell (Fill k) s)"
proof -
  have dim: "dims_ok t" and rc: "crow s = unat (cursor_v t)" "ccol s = unat (cursor_h t)" using d by (simp_all add: displays_def)
  note cb = cell_bounds [OF dim cursor_bounds [OF dim], folded rc]
  have len: "length (buf1 t) = th t * tw t" "th t * tw t < 2 ^ 32" using dim by (simp_all add: dims_ok_def)
  let ?w = "tw t" and ?y = "crow s * fh t" and ?x = "ccol s * fw t"
  let ?row = "\<lambda>(i :: nat) (p :: u64) b. for_loop 0 (fw t) (\<lambda>j b. wr b (unat (p + of_nat j)) k) b"
  have row: "?row i (of_nat ((?y + i) * ?w + ?x)) b' = Some (overwrite b' ((?y + i) * ?w + ?x) (map (\<lambda>x. k) [0..<fw t]))"
    if "i < fh t" "length b' = length (buf1 t)" for i b'
  proof (rule row_write)
    have "Suc (?y + i) * ?w \<le> th t * ?w" using that(1) cb(1) by (intro mult_le_mono1) simp
    then show b: "(?y + i) * ?w + ?x + fw t \<le> length b'" using that(2) len(1) cb(2) by simp
    fix j b'' assume "j < fw t"
    then have "(?y + i) * ?w + ?x + j < 2 ^ 64" using index_small(2) [OF _ b] that(2) len by simp
    then show "wr b'' (unat (of_nat ((?y + i) * ?w + ?x) + of_nat j :: u64)) k = wr b'' ((?y + i) * ?w + ?x + j) k"
      by (metis of_nat_add unat_of_nat_small)
  qed
  have base: "(ucast (get_px_base t) :: u64) = of_nat (?y * ?w + ?x)"
  proof -
    have "0 < fh t" "0 < fw t" using dim by (simp_all add: dims_ok_def)
    then have "?y * ?w + ?x < th t * ?w" using cb by (intro px_index_less) simp_all
    then have "unat (of_nat (?y * ?w + ?x) :: u32) = ?y * ?w + ?x"
      using len(2) by (simp add: unat_of_nat take_bit_nat_eq_self del: of_nat_add of_nat_mult)
    then have "unat (ucast (get_px_base t) :: u64) = ?y * ?w + ?x" unfolding px_base_grid [OF dim, folded rc] by simp
    then show ?thesis by (metis of_nat_unat ucast_id)
  qed
  obtain b where b: "for_loop 0 (fh t) (\<lambda>i (b, p). do { b \<leftarrow> ?row i p b; Some (b, p + term_w_px t) }) (buf1 t, of_nat (?y * ?w + ?x)) =
        Some (b, of_nat ((?y + fh t) * ?w + ?x))" "length b = th t * ?w"
      "\<forall>y<th t. \<forall>x<?w. px ?w b y x = (if ?y \<le> y \<and> y < ?y + fh t \<and> ?x \<le> x \<and> x < ?x + fw t then k else px ?w (buf1 t) y x)"
    using rect_loop [where enc = "of_nat :: nat \<Rightarrow> u64" and step = "\<lambda>p. p + term_w_px t" and row = ?row and f = "\<lambda>y x. k",
        OF _ len(1) cb(2,1) row] by auto
  have "draw_cursor k t = Some (t\<lparr>buf1 := b\<rparr>)" unfolding draw_cursor_def base b(1) by simp
  moreover have "displays (t\<lparr>buf1 := b\<rparr>) (set_cell (Fill k) s)" by (rule displays_cell [OF d b(2,3)]) simp
  ultimately show ?thesis by blast
qed

lemma drawchar_glyph:
  assumes d: "displays t s"
  shows "\<exists>b. drawchar c t = (let t = t\<lparr>buf1 := b\<rparr> in
      if cursor_h_max t \<le> cursor_h t + 1 then newline t else Some (t\<lparr>cursor_h := cursor_h t + 1\<rparr>)) \<and>
    displays (t\<lparr>buf1 := b\<rparr>) (set_cell (Glyph c (fg s) (bg s)) s)"
proof -
  have dim: "dims_ok t" and rc: "crow s = unat (cursor_v t)" "ccol s = unat (cursor_h t)" "fg s = fg_color t" "bg s = bg_color t"
    using d by (simp_all add: displays_def)
  note cb = cell_bounds [OF dim cursor_bounds [OF dim], folded rc(1,2)]
  have len: "length (buf1 t) = th t * tw t" "th t * tw t < 2 ^ 32" "fw t \<le> 32" "length (bitmap t) = 256 * fh t" "256 * fh t < 2 ^ 32"
    using dim by (simp_all add: dims_ok_def)
  let ?w = "tw t" and ?y = "crow s * fh t" and ?x = "ccol s * fw t" and ?g = "unat (font_h_px t * ucast c)"
  let ?f = "\<lambda>i j. if bit (bitmap t ! (fh t * unat c + i)) j then fg_color t else bg_color t"
  have "fh t * unat c \<le> fh t * 255" using unat_bound [of c] by (intro mult_le_mono2) simp
  then have "fh t * unat c < 2 ^ 32" using len(5) by linarith
  moreover have "unat (ucast c :: u32) = unat c" using unat_bound [of c] by (simp add: unsigned_ucast_eq take_bit_nat_eq_self)
  ultimately have g: "?g = fh t * unat c" "fh t * unat c + i < length (bitmap t)" if "i < fh t" for i
    using that len(4) \<open>fh t * unat c \<le> fh t * 255\<close> by (simp add: unat_mult_small, linarith)
  let ?row = "\<lambda>i (px_base :: u32). for_loop 0 (fw t) (\<lambda>j b. do {
         g \<leftarrow> rd (bitmap t) (?g + i);
         if 32 \<le> j then None
         else wr b (unat (ucast px_base + of_nat j :: u64)) (if bit g j then fg_color t else bg_color t) })"
  have row: "?row i (of_nat ((?y + i) * ?w + ?x)) b' = Some (overwrite b' ((?y + i) * ?w + ?x) (map (?f i) [0..<fw t]))"
    if i: "i < fh t" "length b' = length (buf1 t)" for i b'
  proof (rule row_write)
    have "Suc (?y + i) * ?w \<le> th t * ?w" using i(1) cb(1) by (intro mult_le_mono1) simp
    then show b: "(?y + i) * ?w + ?x + fw t \<le> length b'" using i(2) len(1) cb(2) by simp
    fix j b'' assume j: "j < fw t"
    then have "(?y + i) * ?w + ?x + j < 2 ^ 32" using index_small(1) [OF _ b] i(2) len by simp
    from idx32 [OF this] show "do { g \<leftarrow> rd (bitmap t) (?g + i); if 32 \<le> j then None
        else wr b'' (unat (ucast (of_nat ((?y + i) * ?w + ?x) :: u32) + of_nat j :: u64)) (if bit g j then fg_color t else bg_color t) } =
      wr b'' ((?y + i) * ?w + ?x + j) (?f i j)"
      using g [OF i(1)] j len(3) by simp
  qed
  have step: "ucast (ucast (of_nat k :: u32) + term_w_px t :: u64) = (of_nat (k + ?w) :: u32)" for k by (rule enc32)
  obtain b where b: "px_rows (fh t) (term_w_px t) ?row (of_nat (?y * ?w + ?x)) (buf1 t) =
        Some (b, of_nat ((?y + fh t) * ?w + ?x))" "length b = th t * ?w"
      "\<forall>y<th t. \<forall>x<?w. px ?w b y x = (if ?y \<le> y \<and> y < ?y + fh t \<and> ?x \<le> x \<and> x < ?x + fw t then ?f (y - ?y) (x - ?x) else px ?w (buf1 t) y x)"
    using rect_loop [where enc = "of_nat :: nat \<Rightarrow> u32" and step = "\<lambda>p. ucast (ucast p + term_w_px t)" and row = ?row and f = ?f,
        OF step len(1) cb(2,1) row] unfolding px_rows_def by auto
  have "drawchar c t = (let t = t\<lparr>buf1 := b\<rparr> in
      if cursor_h_max t \<le> cursor_h t + 1 then newline t else Some (t\<lparr>cursor_h := cursor_h t + 1\<rparr>))"
    using b(1) px_base_grid [OF dim, folded rc(1,2)] by (simp add: drawchar_def Let_def)
  moreover have "displays (t\<lparr>buf1 := b\<rparr>) (set_cell (Glyph c (fg s) (bg s)) s)"
    by (rule displays_cell [OF d b(2,3)]) (simp add: rc)
  ultimately show ?thesis by blast
qed

text \<open>Scrolling moves every pixel up by a line of text and clears the last line.\<close>

lemma dims_small:
  assumes dim: "dims_ok t"
  shows "length (buf1 t) = th t * tw t" "th t * tw t < 2 ^ 32" "fh t \<le> th t"
    "(ucast (ucast (font_h_px t) * term_w_px t :: u64) :: u32) = of_nat (fh t * tw t)"
    "unat (term_h_px t - ucast (font_h_px t)) = th t - fh t" "tw t \<le> fh t * tw t"
proof -
  show len: "length (buf1 t) = th t * tw t" "th t * tw t < 2 ^ 32" "tw t \<le> fh t * tw t" using dim by (simp_all add: dims_ok_def)
  show fh: "fh t \<le> th t" using cell_bounds(1) [OF dim cursor_bounds [OF dim]] by simp
  then show "unat (term_h_px t - ucast (font_h_px t)) = th t - fh t" by (subst unat_sub) (simp_all add: word_le_nat_alt)
  have "fh t * tw t \<le> th t * tw t" using fh by (intro mult_le_mono1)
  then have "fh t * tw t < 2 ^ 64" using len(2) by (rule index_small(3))
  then have "unat (ucast (font_h_px t) * term_w_px t :: u64) = fh t * tw t" by (subst unat_mult_small) simp_all
  then show "(ucast (ucast (font_h_px t) * term_w_px t :: u64) :: u32) = of_nat (fh t * tw t)" unfolding ucast_u32 by simp
qed

abbreviation (input) scroll_copy :: "terminal \<Rightarrow> nat \<Rightarrow> u32 \<Rightarrow> u32 list \<Rightarrow> u32 list option" where
  "scroll_copy t i px_base \<equiv> for_loop 0 (tw t) (\<lambda>j b. do {
     p \<leftarrow> rd b (unat (ucast (px_base + of_nat (fh t * tw t)) + of_nat j :: u64));
     wr b (unat (ucast px_base + of_nat j :: u64)) p })"

abbreviation (input) scroll_clear :: "terminal \<Rightarrow> nat \<Rightarrow> u32 \<Rightarrow> u32 list \<Rightarrow> u32 list option" where
  "scroll_clear t i px_base \<equiv> for_loop 0 (tw t) (\<lambda>j b. wr b (unat (ucast px_base + of_nat j :: u64)) (bg_color_default t))"

lemma scroll_copy_px:
  assumes dim: "dims_ok t"
  shows "\<exists>b1. px_rows (th t - fh t) (term_w_px t) (scroll_copy t) 0 (buf1 t) = Some (b1, of_nat ((th t - fh t) * tw t)) \<and> length b1 = th t * tw t \<and>
    (\<forall>y<th t. \<forall>x<tw t. px (tw t) b1 y x = (if y < th t - fh t then px (tw t) (buf1 t) (y + fh t) x else px (tw t) (buf1 t) y x))"
proof -
  note len = dims_small(1,2) [OF dim] and fh = dims_small(3) [OF dim] and le = dims_small(6) [OF dim]
  let ?w = "tw t" and ?n = "th t - fh t" and ?off = "fh t * tw t"
  have step: "ucast (ucast (of_nat k :: u32) + term_w_px t :: u64) = (of_nat (k + ?w) :: u32)" for k by (rule enc32)
  let ?copy = "\<lambda>(i :: nat) (px_base :: u32). for_loop 0 ?w (\<lambda>j b. do {
         p \<leftarrow> rd b (unat (ucast (px_base + of_nat ?off) + of_nat j :: u64));
         wr b (unat (ucast px_base + of_nat j :: u64)) p })"
  let ?new = "\<lambda>i b'. overwrite b' ((0 + i) * ?w + 0) (map (\<lambda>j. b' ! ((0 + i) * ?w + 0 + ?off + j)) [0..<?w])"
  let ?P = "\<lambda>i b'. \<forall>y<th t. \<forall>x<?w. px ?w b' y x = (if y < i then px ?w (buf1 t) (y + fh t) x else px ?w (buf1 t) y x)"
  have row: "?copy i (of_nat ((0 + i) * ?w + 0)) b' = Some (?new i b')" if i: "i < ?n" "length b' = length (buf1 t)" for i b'
  proof (rule row_copy [OF _ le])
    have "(Suc i + fh t) * ?w \<le> th t * ?w" using i(1) by (intro mult_le_mono1) simp
    then show b: "(0 + i) * ?w + 0 + ?off + ?w \<le> length b'" using i(2) len(1) by (simp add: algebra_simps)
    fix j b'' assume j: "j < ?w"
    then have s: "((0 + i) * ?w + 0 + ?off) + j < 2 ^ 32" using index_small(1) [OF _ b] i(2) len by simp
    then have s': "((0 + i) * ?w + 0) + j < 2 ^ 32" by linarith
    show "do { p \<leftarrow> rd b'' (unat (ucast (of_nat ((0 + i) * ?w + 0) + of_nat ?off :: u32) + of_nat j :: u64));
        wr b'' (unat (ucast (of_nat ((0 + i) * ?w + 0) :: u32) + of_nat j :: u64)) p } =
      do { p \<leftarrow> rd b'' ((0 + i) * ?w + 0 + ?off + j); wr b'' ((0 + i) * ?w + 0 + j) p }"
      unfolding of_nat_add [symmetric] idx32 [OF s] idx32 [OF s'] ..
  qed
  have PS: "?P (Suc i) (?new i b')" if i: "i < ?n" "length b' = length (buf1 t)" "?P i b'" for i b'
  proof (intro allI impI)
    fix y x assume yx: "y < th t" "x < ?w"
    have "b' ! ((0 + i) * ?w + 0 + ?off + x) = px ?w b' (i + fh t) x" by (simp add: px_def algebra_simps)
    then have "px ?w (?new i b') y x = (if y = i then px ?w b' (i + fh t) x else px ?w b' y x)"
      using px_overwrite [of 0 ?w ?w "0 + i" "th t" y x b' "\<lambda>j. b' ! ((0 + i) * ?w + 0 + ?off + j)"] i yx len(1) by simp
    moreover have "i + fh t < th t" using i(1) by simp
    ultimately show "px ?w (?new i b') y x = (if y < Suc i then px ?w (buf1 t) (y + fh t) x else px ?w (buf1 t) y x)"
      using i(3) yx dim by (auto simp: less_Suc_eq dims_ok_def)
  qed
  have "\<exists>b'. for_loop 0 ?n (\<lambda>i (b, p). do { b \<leftarrow> ?copy i p b; Some (b, ucast (ucast p + term_w_px t)) }) (buf1 t, of_nat (0 * ?w + 0)) =
      Some (b', of_nat ((0 + ?n) * ?w + 0)) \<and> length b' = length (buf1 t) \<and> ?P ?n b'"
  proof (rule rows_loop [where new = ?new and P = ?P])
    show "length (?new i b') = length (buf1 t)" if i: "i < ?n" "length b' = length (buf1 t)" for i b'
    proof -
      have "Suc i * ?w \<le> th t * ?w" using i(1) by (intro mult_le_mono1) simp
      then show ?thesis using i(2) len(1) by simp
    qed
  qed (use step row PS in auto)
  then show ?thesis unfolding px_rows_def using len(1) by auto
qed

lemma scroll_clear_px:
  assumes dim: "dims_ok t" and b1: "length b1 = th t * tw t"
  shows "\<exists>b. px_rows (fh t) (term_w_px t) (scroll_clear t) (of_nat ((th t - fh t) * tw t)) b1 = Some (b, of_nat (th t * tw t)) \<and> length b = th t * tw t \<and>
    (\<forall>y<th t. \<forall>x<tw t. px (tw t) b y x = (if th t - fh t \<le> y then bg_color_default t else px (tw t) b1 y x))"
proof -
  note len = dims_small(1,2) [OF dim] and fh = dims_small(3) [OF dim]
  let ?w = "tw t" and ?n = "th t - fh t"
  have step: "ucast (ucast (of_nat k :: u32) + term_w_px t :: u64) = (of_nat (k + ?w) :: u32)" for k by (rule enc32)
  let ?clr = "\<lambda>(i :: nat) (px_base :: u32). for_loop 0 ?w (\<lambda>j b. wr b (unat (ucast px_base + of_nat j :: u64)) (bg_color_default t))"
  have row2: "?clr i (of_nat ((?n + i) * ?w + 0)) b' = Some (overwrite b' ((?n + i) * ?w + 0) (map (\<lambda>x. bg_color_default t) [0..<?w]))"
    if i: "i < fh t" "length b' = length b1" for i b'
  proof (rule row_write)
    have "Suc (?n + i) * ?w \<le> th t * ?w" using i(1) fh by (intro mult_le_mono1) simp
    then show b: "(?n + i) * ?w + 0 + ?w \<le> length b'" using i(2) b1 by simp
    fix j b'' assume "j < ?w"
    then have "(?n + i) * ?w + 0 + j < 2 ^ 32" using index_small(1) [OF _ b] i(2) b1 len by simp
    from idx32 [OF this] show "wr b'' (unat (ucast (of_nat ((?n + i) * ?w + 0) :: u32) + of_nat j :: u64)) (bg_color_default t) =
      wr b'' ((?n + i) * ?w + 0 + j) (bg_color_default t)" by (rule arg_cong)
  qed
  have ex: "\<exists>b'. for_loop 0 (fh t) (\<lambda>i (b, p). do { b \<leftarrow> ?clr i p b; Some (b, ucast (ucast p + term_w_px t)) }) (b1, of_nat (?n * ?w + 0)) =
      Some (b', of_nat ((?n + fh t) * ?w + 0)) \<and> length b' = th t * ?w \<and>
    (\<forall>y<th t. \<forall>x<?w. px ?w b' y x = (if ?n \<le> y \<and> y < ?n + fh t \<and> 0 \<le> x \<and> x < 0 + ?w then bg_color_default t else px ?w b1 y x))"
  proof (rule rect_loop [where enc = "of_nat :: nat \<Rightarrow> u32" and f = "\<lambda>y x. bg_color_default t"])
    show "?n + fh t \<le> th t" using fh by simp
  qed (rule step b1 row2 | simp)+
  moreover have "?n + fh t = th t" using fh by simp
  ultimately show ?thesis unfolding px_rows_def add_0_right by auto
qed

lemma scroll_px:
  assumes dim: "dims_ok t"
  shows "\<exists>b. scroll_screen t = Some (t\<lparr>buf1 := b\<rparr>) \<and> length b = th t * tw t \<and>
    (\<forall>y<th t. \<forall>x<tw t. px (tw t) b y x = (if y + fh t < th t then px (tw t) (buf1 t) (y + fh t) x else bg_color_default t))"
proof -
  obtain b1 where b1: "px_rows (th t - fh t) (term_w_px t) (scroll_copy t) 0 (buf1 t) = Some (b1, of_nat ((th t - fh t) * tw t))"
      "length b1 = th t * tw t" "\<And>y x. y < th t \<Longrightarrow> x < tw t \<Longrightarrow> px (tw t) b1 y x = (if y < th t - fh t then px (tw t) (buf1 t) (y + fh t) x else px (tw t) (buf1 t) y x)"
    using scroll_copy_px [OF dim] by blast
  obtain b where b: "px_rows (fh t) (term_w_px t) (scroll_clear t) (of_nat ((th t - fh t) * tw t)) b1 = Some (b, of_nat (th t * tw t))"
      "length b = th t * tw t" "\<And>y x. y < th t \<Longrightarrow> x < tw t \<Longrightarrow> px (tw t) b y x = (if th t - fh t \<le> y then bg_color_default t else px (tw t) b1 y x)"
    using scroll_clear_px [OF dim b1(2)] by blast
  have "scroll_screen t = Some (t\<lparr>buf1 := b\<rparr>)"
    unfolding scroll_screen_def Let_def dims_small(4,5) [OF dim] b1(1) using b(1) by simp
  moreover have "px (tw t) b y x = (if y + fh t < th t then px (tw t) (buf1 t) (y + fh t) x else bg_color_default t)"
    if "y < th t" "x < tw t" for y x
    using b(3) [OF that] b1(3) [OF that] by auto
  ultimately show ?thesis using b(2) by blast
qed

text \<open>Fields of the terminal that drawing never changes, and the ones it may.\<close>

definition redrawn :: "terminal \<Rightarrow> terminal \<Rightarrow> bool" where
  "redrawn t t' \<longleftrightarrow> (\<exists>b h v. t' = t\<lparr>buf1 := b, cursor_h := h, cursor_v := v\<rparr>)"

lemma redrawn_fields:
  assumes "redrawn t t'"
  shows "cursor_color t' = cursor_color t" "cursor_enabled t' = cursor_enabled t" "is_ansi_state t' = is_ansi_state t"
    "ansi_state t' = ansi_state t" "ansi_sequence t' = ansi_sequence t" "apply_set_attribute t' = apply_set_attribute t"
    "apply_reset_attribute t' = apply_reset_attribute t" "bg_color t' = bg_color t" "buf2 t' = buf2 t"
  using assms by (auto simp: redrawn_def)

lemma redrawn_trans: "redrawn t t' \<Longrightarrow> redrawn t' t'' \<Longrightarrow> redrawn t t''"
  by (cases t) (fastforce simp: redrawn_def)

lemma redrawn_buf: "redrawn t (t\<lparr>buf1 := b\<rparr>)" "redrawn t t"
  by (cases t; auto simp: redrawn_def)+

lemma displays_cursor:
  assumes "displays t s" "v < cursor_v_max t" "h < cursor_h_max t" "r = unat v" "c = unat h"
  shows "displays (t\<lparr>cursor_v := v, cursor_h := h\<rparr>) (s\<lparr>crow := r, ccol := c\<rparr>)"
  using assms by (simp add: displays_def dims_ok_def)

lemma displays_scroll:
  assumes d: "displays t s" and len: "length b = th t * tw t"
    and b: "\<And>y x. y < th t \<Longrightarrow> x < tw t \<Longrightarrow>
      px (tw t) b y x = (if y + fh t < th t then px (tw t) (buf1 t) (y + fh t) x else bg_color_default t)"
  shows "displays (t\<lparr>buf1 := b\<rparr>) (scroll_cells s)"
proof -
  have dim: "dims_ok t" and rc: "rows s = unat (cursor_v_max t)" "cols s = unat (cursor_h_max t)" "bg0 s = bg_color_default t"
    using d by (simp_all add: displays_def)
  have bottom: "px (tw t) b y x = bg0 s" if "rows s * fh t \<le> y + fh t" "y < th t" "x < tw t" for y x
    using b [OF that(2,3)] that d rc(3) by (auto simp: displays_def)
  have "px (tw t) b (r * fh t + y) (c * fw t + x) = cell_px (bitmap t) (fh t) (cells (scroll_cells s) r c) y x"
    if i: "r < rows s" "c < cols s" "y < fh t" "x < fw t" for r c y x
  proof -
    have cb: "r * fh t + y < th t" "c * fw t + x < tw t" using cell_bounds [OF dim, of r c] i rc by simp_all
    show ?thesis
    proof (cases "Suc r < rows s")
      case True
      have "Suc r * fh t + fh t \<le> th t" using cell_bounds(1) [OF dim, of "Suc r" c] True i rc by simp
      then have lt: "r * fh t + y + fh t < th t" using i(3) by simp
      have e: "r * fh t + y + fh t = Suc r * fh t + y" by simp
      have "px (tw t) (buf1 t) (Suc r * fh t + y) (c * fw t + x) = cell_px (bitmap t) (fh t) (cells s (Suc r) c) y x"
        using d True i unfolding displays_def by blast
      then show ?thesis using b [OF cb] lt True unfolding e scroll_cells_def by simp
    next
      case False
      then have "rows s * fh t \<le> Suc r * fh t" using i(1) by (intro mult_le_mono1) simp
      then show ?thesis using bottom [OF _ cb] False by (simp add: scroll_cells_def)
    qed
  qed
  moreover have "px (tw t) b y x = bg0 s" if "rows s * fh t \<le> y" "y < th t" "x < tw t" for y x
    using that by (intro bottom) simp_all
  ultimately show ?thesis using d len by (simp add: displays_def dims_ok_def scroll_cells_def)
qed

lemma newline_displays:
  assumes d: "displays t s"
  shows "\<exists>t'. newline t = Some t' \<and> redrawn t t' \<and> displays t' (line_feed s)"
proof -
  have dim: "dims_ok t" and rc: "rows s = unat (cursor_v_max t)" "crow s = unat (cursor_v t)" "cols s = unat (cursor_h_max t)" "scrolls s = scroll_enabled t"
    using d by (simp_all add: displays_def)
  have lt: "cursor_v t < cursor_v_max t" "0 < cursor_h_max t" using dim by (simp_all add: dims_ok_def)
  then have u: "unat (cursor_v t + 1) = Suc (crow s)" using rc by (simp add: unat_Suc_less)
  have full: "is_scroll_needed t \<longleftrightarrow> rows s \<le> Suc (crow s)" unfolding is_scroll_needed_def word_le_nat_alt u rc(1) ..
  show ?thesis
  proof (cases "is_scroll_needed t")
    case False
    then have "cursor_v t + 1 < cursor_v_max t" by (simp add: is_scroll_needed_def)
    then have "displays (t\<lparr>cursor_v := cursor_v t + 1, cursor_h := 0\<rparr>) (s\<lparr>crow := Suc (crow s), ccol := 0\<rparr>)"
      using displays_cursor [OF d _ lt(2), of "cursor_v t + 1" "Suc (crow s)" 0] u by simp
    moreover have "redrawn t (t\<lparr>cursor_v := cursor_v t + 1, cursor_h := 0\<rparr>)" by (cases t) (auto simp: redrawn_def)
    ultimately show ?thesis using False full by (simp add: newline_def line_feed_def)
  next
    case True
    show ?thesis
    proof (cases "scroll_enabled t")
      case False
      then show ?thesis using True full rc(4) d redrawn_buf(2) by (simp add: newline_def line_feed_def)
    next
      case on: True
      obtain b where b: "scroll_screen t = Some (t\<lparr>buf1 := b\<rparr>)" "length b = th t * tw t"
          "\<And>y x. y < th t \<Longrightarrow> x < tw t \<Longrightarrow> px (tw t) b y x = (if y + fh t < th t then px (tw t) (buf1 t) (y + fh t) x else bg_color_default t)"
        using scroll_px [OF dim] by blast
      have "displays (t\<lparr>buf1 := b\<rparr>) (scroll_cells s)" by (rule displays_scroll [OF d b(2,3)])
      then have "displays (t\<lparr>buf1 := b, cursor_v := cursor_v t, cursor_h := 0\<rparr>) ((scroll_cells s)\<lparr>crow := crow s, ccol := 0\<rparr>)"
        using displays_cursor [of "t\<lparr>buf1 := b\<rparr>" "scroll_cells s" "cursor_v t" 0 "crow s" 0] lt rc(2) by simp
      moreover have "(scroll_cells s)\<lparr>crow := crow s, ccol := 0\<rparr> = (scroll_cells s)\<lparr>ccol := 0\<rparr>" by (simp add: scroll_cells_def)
      moreover have "t\<lparr>buf1 := b, cursor_v := cursor_v t, cursor_h := 0\<rparr> = t\<lparr>buf1 := b, cursor_h := 0\<rparr>" by simp
      moreover have "redrawn t (t\<lparr>buf1 := b, cursor_h := 0\<rparr>)" by (cases t) (auto simp: redrawn_def)
      ultimately show ?thesis using True on full rc(4) b(1) by (simp add: newline_def line_feed_def)
    qed
  qed
qed

lemma drawchar_displays:
  assumes d: "displays t s"
  shows "\<exists>t'. drawchar c t = Some t' \<and> redrawn t t' \<and> displays t' (put_glyph c s)"
proof -
  obtain b where b: "drawchar c t = (let t = t\<lparr>buf1 := b\<rparr> in
      if cursor_h_max t \<le> cursor_h t + 1 then newline t else Some (t\<lparr>cursor_h := cursor_h t + 1\<rparr>))"
      "displays (t\<lparr>buf1 := b\<rparr>) (set_cell (Glyph c (fg s) (bg s)) s)"
    using drawchar_glyph [OF d] by blast
  let ?s = "set_cell (Glyph c (fg s) (bg s)) s"
  have lt: "cursor_h t < cursor_h_max t" "cursor_v t < cursor_v_max t" and rc: "ccol s = unat (cursor_h t)" "cols s = unat (cursor_h_max t)" "crow s = unat (cursor_v t)"
    using d by (simp_all add: displays_def dims_ok_def)
  have u: "unat (cursor_h t + 1) = Suc (ccol s)" using lt(1) rc by (simp add: unat_Suc_less)
  have full: "cursor_h_max t \<le> cursor_h t + 1 \<longleftrightarrow> cols s \<le> Suc (ccol s)" unfolding word_le_nat_alt u rc(2) ..
  have s: "cols ?s = cols s" "ccol ?s = ccol s" "crow ?s = crow s" by (simp_all add: set_cell_def)
  show ?thesis
  proof (cases "cols s \<le> Suc (ccol s)")
    case True
    then obtain t' where "newline (t\<lparr>buf1 := b\<rparr>) = Some t'" "redrawn (t\<lparr>buf1 := b\<rparr>) t'" "displays t' (line_feed ?s)"
      using newline_displays [OF b(2)] by blast
    then show ?thesis using True full b(1) s redrawn_trans [OF redrawn_buf(1)] by (auto simp: put_glyph_def)
  next
    case False
    let ?t = "t\<lparr>buf1 := b, cursor_h := cursor_h t + 1\<rparr>"
    have "cursor_h t + 1 < cursor_h_max t" using False full by simp
    then have "displays (t\<lparr>buf1 := b, cursor_v := cursor_v t, cursor_h := cursor_h t + 1\<rparr>) (?s\<lparr>crow := crow s, ccol := Suc (ccol s)\<rparr>)"
      using displays_cursor [OF b(2), of "cursor_v t" "cursor_h t + 1" "crow s" "Suc (ccol s)"] lt(2) u rc(3) by simp
    moreover have "?s\<lparr>crow := crow s, ccol := Suc (ccol s)\<rparr> = ?s\<lparr>ccol := Suc (ccol s)\<rparr>" "t\<lparr>buf1 := b, cursor_v := cursor_v t, cursor_h := cursor_h t + 1\<rparr> = ?t"
      by (simp_all add: set_cell_def)
    moreover have "redrawn t ?t" by (cases t) (auto simp: redrawn_def)
    ultimately show ?thesis using False full b(1) s by (simp add: put_glyph_def)
  qed
qed

lemma backspace_displays:
  assumes d: "displays t s"
  shows "redrawn t (backspace t)" "displays (backspace t) (step_back s)"
proof -
  show "redrawn t (backspace t)" by (cases t) (auto simp: redrawn_def backspace_def)
  have dec: "unat (w - 1) = unat w - 1" "w - 1 < w" if "w \<noteq> 0" for w :: u32
    using that unat_gt_0 [of w] by (simp_all add: unat_minus_one word_less_nat_alt)
  have "cursor_h t - 1 < cursor_h_max t" if "cursor_h t \<noteq> 0" using dec(2) [OF that] d by (auto simp: displays_def dims_ok_def)
  moreover have "cursor_v t - 1 < cursor_v_max t" if "cursor_v t \<noteq> 0" using dec(2) [OF that] d by (auto simp: displays_def dims_ok_def)
  ultimately show "displays (backspace t) (step_back s)"
    using d dec(1) [of "cursor_h t"] dec(1) [of "cursor_v t"]
    by (auto simp: backspace_def step_back_def displays_def dims_ok_def unat_eq_0)
qed

end
