(* ===== verification/Terminal_Text.thy ===== *)
theory Terminal_Text
  imports Terminal_Grid
begin

text \<open>
  What the terminal understands: characters, control characters and colour sequences. A text is a
  list of items with an encoding as bytes and a meaning on the grid of cells; printing the bytes
  makes the terminal display the meaning. The escape sequences are collected in a buffer of 64 bytes,
  split at their semicolons by \<open>__strtok_r\<close> and read by \<open>__atoi\<close>.
\<close>

section \<open>Texts and their meaning\<close>

text \<open>
  The colour commands: the sixteen colours with codes of their own, and the 256 of the palette.
\<close>

datatype colour_command = Reset_colours | Fg16 nat | Bg16 nat | Fg256 nat | Bg256 nat

datatype item = Byte u8 | Colours "colour_command list"

fun command_ok :: "colour_command \<Rightarrow> bool" where
  "command_ok Reset_colours \<longleftrightarrow> True"
| "command_ok (Fg16 n) \<longleftrightarrow> n < 16"
| "command_ok (Bg16 n) \<longleftrightarrow> n < 16"
| "command_ok (Fg256 n) \<longleftrightarrow> n < 256"
| "command_ok (Bg256 n) \<longleftrightarrow> n < 256"

fun codes :: "colour_command \<Rightarrow> nat list" where
  "codes Reset_colours = [0]"
| "codes (Fg16 n) = [if n < 8 then 30 + n else 82 + n]"
| "codes (Bg16 n) = [if n < 8 then 40 + n else 92 + n]"
| "codes (Fg256 n) = [38, 5, n]"
| "codes (Bg256 n) = [48, 5, n]"

text \<open>Numbers separated by semicolons.\<close>

fun join_codes :: "nat list \<Rightarrow> u8 list" where
  "join_codes [] = []"
| "join_codes [n] = udigits 10 n"
| "join_codes (n # ns) = udigits 10 n @ 59 # join_codes ns"

fun encode :: "item \<Rightarrow> u8 list" where
  "encode (Byte c) = [c]"
| "encode (Colours ks) = 27 # 91 # join_codes (concat (map codes ks)) @ [109]"

fun item_ok :: "item \<Rightarrow> bool" where
  "item_ok (Byte c) \<longleftrightarrow> c \<noteq> 0 \<and> c \<noteq> 27"
| "item_ok (Colours ks) \<longleftrightarrow> list_all command_ok ks \<and> length (encode (Colours ks)) \<le> 64"

definition rgb :: "nat \<Rightarrow> u32" where
  "rgb n = 0xff000000 OR rgb256 ! n"

definition reset_colours :: "screen \<Rightarrow> screen" where
  "reset_colours s = s\<lparr>fg := fg0 s, bg := bg0 s\<rparr>"

fun colour :: "colour_command \<Rightarrow> screen \<Rightarrow> screen" where
  "colour Reset_colours s = reset_colours s"
| "colour (Fg16 n) s = s\<lparr>fg := rgb n\<rparr>"
| "colour (Bg16 n) s = s\<lparr>bg := rgb n\<rparr>"
| "colour (Fg256 n) s = s\<lparr>fg := rgb n\<rparr>"
| "colour (Bg256 n) s = s\<lparr>bg := rgb n\<rparr>"

fun meaning :: "item \<Rightarrow> screen \<Rightarrow> screen" where
  "meaning (Byte c) s =
     (if c = 8 then step_back s
      else if c = 10 then line_feed s
      else if c = 13 \<or> c = 11 then s
      else if c = 9 then (put_glyph 32 ^^ 4) s
      else put_glyph c s)"
| "meaning (Colours ks) s = (if ks = [] then reset_colours s else fold colour ks s)"

section \<open>The colours\<close>

text \<open>
  The state of the token loop: the current token denotes the first code, the saved position the rest.
  The last byte of the buffer stays null.
\<close>

definition seq_ok :: "cbuf \<Rightarrow> bool" where
  "seq_ok q \<longleftrightarrow> length q = 64 \<and> q ! 63 = 0"

fun sgr_at :: "cbuf \<Rightarrow> nat option \<Rightarrow> nat \<Rightarrow> nat list \<Rightarrow> bool" where
  "sgr_at q tok p [] \<longleftrightarrow> seq_ok q \<and> tok = None"
| "sgr_at q tok p (n # ns) \<longleftrightarrow> seq_ok q \<and> n < 1000 \<and> (\<exists>k s. tok = Some k \<and> cstring q k = Some (udigits 10 n) \<and>
     cstring q p = Some s \<and> tokens {59} s = map (udigits 10) ns) \<and> (\<forall>m \<in> set ns. m < 1000)"

lemma strtok_r_keeps_null: "strtok_r q str del p = Some (q', tok, p') \<Longrightarrow> q ! i = 0 \<Longrightarrow> q' ! i = 0"
  by (auto simp: strtok_r_def Let_def rd_eq_Some wr_eq_Some nth_list_update split: Option.bind_splits if_splits)

lemma cstring_sgr_delim: "cstring sgr_delim 0 = Some [59]"
  by (simp add: sgr_delim_def cstring_def)

lemma atoi_token:
  assumes "cstring q k = Some (udigits 10 n)" "n < 1000"
  shows "atoi q k = Some (int n)"
proof -
  note d = cstring_SomeD [OF assms(1)]
  have "drop k q = take (length (udigits 10 n)) (drop k q) @ drop (length (udigits 10 n)) (drop k q)"
    by (rule append_take_drop_id [symmetric])
  also have "\<dots> = udigits 10 n @ 0 # drop (Suc (k + length (udigits 10 n))) q"
    using d(1-3) drop_Cons_nth [OF d(1)] by (simp add: add.commute)
  finally show ?thesis using not_digit_0 assms(2) by (intro atoi_digits) simp_all
qed

text \<open>\<open>__strtok_r\<close> moves to the next code.\<close>

lemma sgr_next:
  assumes "seq_ok q" "cstring q p = Some s" "tokens {59} s = map (udigits 10) ns" "\<forall>m \<in> set ns. m < 1000"
    and "(case str of None \<Rightarrow> old | Some r \<Rightarrow> r) = p"
  shows "\<exists>q' tok p'. strtok_r q str sgr_delim old = Some (q', tok, p') \<and> sgr_at q' tok p' ns"
proof (cases ns)
  case Nil
  then show ?thesis using strtok_r_none [OF assms(2) cstring_sgr_delim assms(5)] assms by simp
next
  case (Cons n ns')
  then obtain q' tok p' s' where t: "strtok_r q str sgr_delim old = Some (q', Some tok, p')" "length q' = length q"
      "cstring q' tok = Some (udigits 10 n)" "cstring q' p' = Some s'" "tokens {59} s' = map (udigits 10) ns'"
    using strtok_r_token [OF assms(2) cstring_sgr_delim assms(5), of "udigits 10 n" "map (udigits 10) ns'"] assms(3) by auto
  then have "seq_ok q'" using assms(1) strtok_r_keeps_null [OF t(1), of 63] by (simp add: seq_ok_def)
  then show ?thesis using t assms(4) Cons by simp
qed

text \<open>One code that needs no further codes at once.\<close>

definition sgr_code :: "nat \<Rightarrow> terminal \<Rightarrow> terminal option" where
  "sgr_code n t =
     (if ansi_state t = PROCESS_NORMAL then sgr_normal (int n) t
      else if ansi_state t = PROCESS_FG_BG then (if n = 5 then Some (t\<lparr>ansi_state := PROCESS_ANSI8\<rparr>) else None)
      else if ansi_state t = PROCESS_ANSI8 \<and> n < 256 then Some ((apply_color (rgb n) t)\<lparr>ansi_state := PROCESS_NORMAL\<rparr>)
      else None)"

lemma length_rgb256: "length rgb256 = 256"
  unfolding rgb256_def by simp

lemma palette_rgb: "n < 256 \<Longrightarrow> palette (int n) = Some (rgb n)"
  by (simp add: palette_def rgb_def length_rgb256)

lemma sgr_step:
  assumes a: "sgr_at (ansi_sequence t) tok p (n # ns)" and c: "sgr_code n t = Some t1" "ansi_sequence t1 = ansi_sequence t"
  shows "\<exists>q tok' p' col'. sgr_loop tok p col t = sgr_loop tok' p' col' (t1\<lparr>ansi_sequence := q\<rparr>) \<and> sgr_at q tok' p' ns"
proof -
  obtain k s where k: "tok = Some k" "cstring (ansi_sequence t) k = Some (udigits 10 n)" "n < 1000"
      "seq_ok (ansi_sequence t)" "cstring (ansi_sequence t) p = Some s" "tokens {59} s = map (udigits 10) ns" "\<forall>m \<in> set ns. m < 1000"
    using a by auto
  then obtain q tok' p' where q: "strtok_r (ansi_sequence t) None sgr_delim p = Some (q, tok', p')" "sgr_at q tok' p' ns"
    using sgr_next [OF k(4-7), where str = None and old = p] by auto
  moreover have "\<exists>col'. sgr_loop tok p col t = sgr_loop tok' p' col' (t1\<lparr>ansi_sequence := q\<rparr>)"
    using c q(1) k(1) atoi_token [OF k(2,3)] palette_rgb [of n]
    by (subst sgr_loop.simps) (auto simp: sgr_code_def num_in_byte_bounds_def split: if_splits)
  ultimately show ?thesis by blast
qed

text \<open>What printing and colouring leave alone.\<close>

definition same_setup :: "terminal \<Rightarrow> terminal \<Rightarrow> bool" where
  "same_setup t t' \<longleftrightarrow> is_ansi_state t' = is_ansi_state t \<and> ansi_state t' = ansi_state t \<and> cursor_color t' = cursor_color t \<and>
     cursor_enabled t' = cursor_enabled t \<and> apply_set_attribute t' = apply_set_attribute t \<and> buf2 t' = buf2 t"

lemma same_setup_trans: "same_setup t t' \<Longrightarrow> same_setup t' t'' \<Longrightarrow> same_setup t t''"
  by (simp add: same_setup_def)

lemma displays_colour:
  "displays t s \<Longrightarrow> displays (t\<lparr>fg_color := f\<rparr>) (s\<lparr>fg := f\<rparr>)"
  "displays t s \<Longrightarrow> displays (t\<lparr>bg_color := f\<rparr>) (s\<lparr>bg := f\<rparr>)"
  "displays (t\<lparr>ansi_sequence := q\<rparr>) s = displays t s"
  "displays (t\<lparr>ansi_state := a\<rparr>) s = displays t s"
  "displays (t\<lparr>is_ansi_state := a\<rparr>) s = displays t s"
  "displays (t\<lparr>apply_to_fg := a\<rparr>) s = displays t s"
  by (simp_all add: displays_def dims_ok_def)

text \<open>The colour commands.\<close>

lemma sgr_command16:
  assumes d: "displays t s" and a: "sgr_at (ansi_sequence t) tok p (n # ns)" and n: "ansi_state t = PROCESS_NORMAL"
    and c: "sgr_normal (int n) t = Some u" "ansi_sequence u = ansi_sequence t" "same_setup t u" "displays u z"
  shows "\<exists>t' tok' p' col'. sgr_loop tok p col t = sgr_loop tok' p' col' t' \<and> sgr_at (ansi_sequence t') tok' p' ns \<and>
    same_setup t t' \<and> displays t' z"
proof -
  have "sgr_code n t = Some u" using c(1) n by (simp add: sgr_code_def)
  then obtain q tok' p' col' where "sgr_loop tok p col t = sgr_loop tok' p' col' (u\<lparr>ansi_sequence := q\<rparr>)" "sgr_at q tok' p' ns"
    using sgr_step [OF a _ c(2)] by blast
  moreover have "same_setup t (u\<lparr>ansi_sequence := q\<rparr>)" "displays (u\<lparr>ansi_sequence := q\<rparr>) z"
    using c(3,4) by (simp_all add: same_setup_def displays_colour(3))
  ultimately show ?thesis by (intro exI [of _ "u\<lparr>ansi_sequence := q\<rparr>"] exI [of _ tok'] exI [of _ p'] exI [of _ col']) simp
qed

lemma sgr_normal16:
  assumes "n < 16"
  shows "sgr_normal (int (hd (codes (Fg16 n)))) t = Some (t\<lparr>fg_color := rgb n\<rparr>)"
    and "sgr_normal (int (hd (codes (Bg16 n)))) t = Some (t\<lparr>bg_color := rgb n\<rparr>)"
proof -
  have p: "palette (int n) = Some (rgb n)" using assms by (intro palette_rgb) simp
  have e: "82 + int n - 90 + 8 = int n" "92 + int n - 100 + 8 = int n" by simp_all
  show "sgr_normal (int (hd (codes (Fg16 n)))) t = Some (t\<lparr>fg_color := rgb n\<rparr>)"
    "sgr_normal (int (hd (codes (Bg16 n)))) t = Some (t\<lparr>bg_color := rgb n\<rparr>)"
    using assms p e by (auto simp: sgr_normal_def)
qed

lemma ansi_sequence_apply_color [simp]: "ansi_sequence (apply_color c t) = ansi_sequence t"
  by (simp add: apply_color_def)

lemma sgr_command256:
  assumes d: "displays t s" and a: "sgr_at (ansi_sequence t) tok p (m # 5 # n # ns)" and n: "ansi_state t = PROCESS_NORMAL" "n < 256"
    and m: "m = 38 \<or> m = 48"
  shows "\<exists>t' tok' p' col'. sgr_loop tok p col t = sgr_loop tok' p' col' t' \<and> sgr_at (ansi_sequence t') tok' p' ns \<and>
    same_setup t t' \<and> displays t' (if m = 38 then s\<lparr>fg := rgb n\<rparr> else s\<lparr>bg := rgb n\<rparr>)"
proof -
  let ?t = "t\<lparr>ansi_state := PROCESS_FG_BG, apply_to_fg := of_bool (m = 38)\<rparr>"
  have "sgr_code m t = Some ?t" using m n(1) by (auto simp: sgr_code_def sgr_normal_def)
  then obtain q tok' p' col' where 1: "sgr_loop tok p col t = sgr_loop tok' p' col' (?t\<lparr>ansi_sequence := q\<rparr>)" "sgr_at q tok' p' (5 # n # ns)"
    using sgr_step [OF a, of ?t] by (simp del: sgr_at.simps) blast
  let ?u = "?t\<lparr>ansi_sequence := q, ansi_state := PROCESS_ANSI8\<rparr>"
  have "sgr_code 5 (?t\<lparr>ansi_sequence := q\<rparr>) = Some ?u" by (simp add: sgr_code_def)
  then obtain q' tok'' p'' col'' where 2: "sgr_loop tok' p' col' (?t\<lparr>ansi_sequence := q\<rparr>) = sgr_loop tok'' p'' col'' (?u\<lparr>ansi_sequence := q'\<rparr>)"
      "sgr_at q' tok'' p'' (n # ns)"
    using sgr_step [of "?t\<lparr>ansi_sequence := q\<rparr>" tok' p' 5 "n # ns" ?u] 1(2) by (simp del: sgr_at.simps) blast
  let ?v = "(apply_color (rgb n) (?u\<lparr>ansi_sequence := q'\<rparr>))\<lparr>ansi_state := PROCESS_NORMAL\<rparr>"
  have "sgr_code n (?u\<lparr>ansi_sequence := q'\<rparr>) = Some ?v" using n(2) by (simp add: sgr_code_def)
  then obtain q'' tok3 p3 col3 where 3: "sgr_loop tok'' p'' col'' (?u\<lparr>ansi_sequence := q'\<rparr>) = sgr_loop tok3 p3 col3 (?v\<lparr>ansi_sequence := q''\<rparr>)"
      "sgr_at q'' tok3 p3 ns"
    using sgr_step [of "?u\<lparr>ansi_sequence := q'\<rparr>" tok'' p'' n ns ?v] 2(2) by (simp del: sgr_at.simps) blast
  have "same_setup t (?v\<lparr>ansi_sequence := q''\<rparr>)" "displays (?v\<lparr>ansi_sequence := q''\<rparr>) (if m = 38 then s\<lparr>fg := rgb n\<rparr> else s\<lparr>bg := rgb n\<rparr>)"
    using d n(1) by (simp_all add: same_setup_def apply_color_def displays_colour)
  then show ?thesis using 1(1) 2(1) 3
    by (intro exI [of _ "?v\<lparr>ansi_sequence := q''\<rparr>"] exI [of _ tok3] exI [of _ p3] exI [of _ col3]) simp
qed

lemma sgr_command:
  assumes d: "displays t s" and a: "sgr_at (ansi_sequence t) tok p (codes k @ ns)" and n: "ansi_state t = PROCESS_NORMAL"
    and k: "command_ok k" and r: "rd (apply_set_attribute t) 0 = Some Reset_text"
  shows "\<exists>t' tok' p' col'. sgr_loop tok p col t = sgr_loop tok' p' col' t' \<and> sgr_at (ansi_sequence t') tok' p' ns \<and>
    same_setup t t' \<and> displays t' (colour k s)"
proof (cases k)
  case Reset_colours
  show ?thesis
  proof (rule sgr_command16 [OF d _ n])
    show "sgr_at (ansi_sequence t) tok p (0 # ns)" using a Reset_colours by simp
    show "sgr_normal (int 0) t = Some (reset_text_attribute t)" using r by (simp add: sgr_normal_def)
    show "displays (reset_text_attribute t) (colour k s)"
      using d Reset_colours by (simp add: reset_text_attribute_def reset_colours_def displays_def dims_ok_def)
  qed (simp_all add: reset_text_attribute_def same_setup_def n)
next
  case (Fg16 m)
  show ?thesis
    by (rule sgr_command16 [OF d _ n, where u = "t\<lparr>fg_color := rgb m\<rparr>" and n = "hd (codes k)"])
      (use a k d sgr_normal16(1) Fg16 in \<open>simp_all add: same_setup_def displays_colour\<close>)
next
  case (Bg16 m)
  show ?thesis
    by (rule sgr_command16 [OF d _ n, where u = "t\<lparr>bg_color := rgb m\<rparr>" and n = "hd (codes k)"])
      (use a k d sgr_normal16(2) Bg16 in \<open>simp_all add: same_setup_def displays_colour\<close>)
next
  case (Fg256 m)
  then show ?thesis using sgr_command256 [OF d _ n, of tok p 38 m ns col] a k by simp
next
  case (Bg256 m)
  then show ?thesis using sgr_command256 [OF d _ n, of tok p 48 m ns col] a k by simp
qed

lemma sgr_commands:
  assumes "displays t s" "sgr_at (ansi_sequence t) tok p (concat (map codes ks))" "ansi_state t = PROCESS_NORMAL"
    and "list_all command_ok ks" "rd (apply_set_attribute t) 0 = Some Reset_text"
  shows "\<exists>t'. sgr_loop tok p col t = Some t' \<and> same_setup t t' \<and> seq_ok (ansi_sequence t') \<and> displays t' (fold colour ks s)"
  using assms
proof (induction ks arbitrary: t s tok p col)
  case Nil
  then show ?case by (subst sgr_loop.simps) (simp add: same_setup_def)
next
  case (Cons k ks)
  have "sgr_at (ansi_sequence t) tok p (codes k @ concat (map codes ks))" "command_ok k" using Cons.prems by simp_all
  then obtain t' tok' p' col' where t': "sgr_loop tok p col t = sgr_loop tok' p' col' t'" "sgr_at (ansi_sequence t') tok' p' (concat (map codes ks))"
      "same_setup t t'" "displays t' (colour k s)"
    using sgr_command [OF Cons.prems(1) _ Cons.prems(3) _ Cons.prems(5)] by blast
  then obtain t'' where "sgr_loop tok' p' col' t' = Some t''" "same_setup t' t''" "seq_ok (ansi_sequence t'')" "displays t'' (fold colour ks (colour k s))"
    using Cons.IH [OF t'(4,2)] Cons.prems by (auto simp: same_setup_def)
  then show ?case using t' same_setup_trans by auto
qed

section \<open>The sequences\<close>

definition ansi_bytes :: "u8 set" where
  "ansi_bytes = set (bytes ''[;01234567890'')"

lemma cstring_ansi_chars: "cstring ansi_chars 0 = Some (bytes ''[;01234567890'')"
  by (simp add: ansi_chars_def cstring_def)

lemma ansi_bytes_facts: "91 \<in> ansi_bytes" "59 \<in> ansi_bytes" "0 \<notin> ansi_bytes" "109 \<notin> ansi_bytes"
  "set (take 10 digits) \<subseteq> ansi_bytes" "59 \<notin> set (take 10 digits)"
  by (simp_all add: ansi_bytes_def digits_def)

lemma udigits_bytes: "set (udigits 10 n) \<subseteq> set (take 10 digits)"
proof
  fix c assume "c \<in> set (udigits 10 n)"
  then obtain d where "c = take 10 digits ! d" "d < 10" using lsd_less [of 10] by (auto simp: udigits_def)
  then show "c \<in> set (take 10 digits)" by (simp only:) (rule nth_mem, simp add: digits_def)
qed

lemma udigits_no_delim: "59 \<notin> set (udigits 10 n)"
  using udigits_bytes ansi_bytes_facts(6) by blast

lemma join_codes_bytes: "set (join_codes ns) \<subseteq> ansi_bytes"
proof (induction ns rule: join_codes.induct)
  case (2 n)
  then show ?case using udigits_bytes [of n] ansi_bytes_facts(5) by simp
next
  case (3 n m ns)
  then show ?case using udigits_bytes [of n] ansi_bytes_facts(2,5) by auto
qed simp

lemma tokens_token:
  assumes "t \<noteq> []" "d \<notin> set t"
  shows "tokens {d} (t @ d # r) = t # tokens {d} r" "tokens {d} t = [t]"
proof -
  obtain c cs where t: "t = c # cs" using assms(1) by (cases t) auto
  then have "takeWhile (\<lambda>x. x \<noteq> d) (cs @ d # r) = cs" "dropWhile (\<lambda>x. x \<noteq> d) (cs @ d # r) = d # r" "c \<noteq> d"
    using assms(2) by (auto simp: takeWhile_append dropWhile_append takeWhile_eq_all_conv)
  then show "tokens {d} (t @ d # r) = t # tokens {d} r"
    by (subst tokens.simps) (simp add: t tokens_delim)
  have "takeWhile (\<lambda>x. x \<noteq> d) cs = cs" "dropWhile (\<lambda>x. x \<noteq> d) cs = []" "c \<noteq> d"
    using assms(2) t by (auto simp: takeWhile_eq_all_conv dropWhile_eq_Nil_conv)
  moreover have "tokens {d} [] = []" by (simp add: tokens_Nil_iff)
  ultimately show "tokens {d} t = [t]"
    by (simp only: t tokens.simps [of _ "c # cs"] dropWhile.simps takeWhile.simps list.case singleton_iff if_False)
qed

lemma udigits_nonempty: "udigits 10 n \<noteq> []"
  by (simp add: udigits_def)

lemma tokens_join: "tokens {59} (join_codes ns) = map (udigits 10) ns"
  by (induction ns rule: join_codes.induct)
    (simp_all add: tokens_token udigits_nonempty udigits_no_delim tokens_Nil_iff)

lemma join_codes_Nil_iff: "join_codes ns = [] \<longleftrightarrow> ns = []"
  by (cases ns rule: join_codes.cases) (simp_all add: udigits_nonempty)

text \<open>Collecting a sequence.\<close>

lemma seq_append:
  assumes q: "seq_ok q" "cstring q 0 = Some s" and c: "c \<noteq> 0" "length s < 63"
  shows "\<exists>q'. strcat q 0 [c, 0] 0 = Some q' \<and> seq_ok q' \<and> cstring q' 0 = Some (s @ [c])"
proof -
  have l: "length q = 64" "q ! 63 = 0" using q(1) by (simp_all add: seq_ok_def)
  have src: "cstring [c, 0] 0 = Some [c]" using c(1) by (simp add: cstring_def)
  let ?q = "overwrite q (length s) [c, 0]"
  have "strcat q 0 [c, 0] 0 = Some ?q"
    using l c(2) q(2) strcat_loop_eq [OF src, of q "length s"] by (simp add: strcat_def strlen_eq)
  moreover have "seq_ok ?q" using l c(2) by (auto simp: seq_ok_def nth_overwrite)
  moreover have "cstring ?q 0 = Some (s @ [c])"
  proof (rule cstring_I)
    have "take (length s) q = s" using cstring_SomeD(2) [OF q(2)] by simp
    then show "drop 0 ?q = (s @ [c]) @ 0 # drop (length s + 2) q" by (simp add: overwrite_def)
  qed (use cstring_SomeD(4) [OF q(2)] c(1) in simp)
  ultimately show ?thesis by blast
qed

lemma print_loop_step:
  assumes "rd str p = Some c" "c \<noteq> 0" "(if is_ansi_state t \<noteq> 0 then print_ansi c p start t else do { t \<leftarrow> print_char c t; Some (p, start, t) }) = Some (p', start', t')"
  shows "print_loop str p start t = print_loop str (Suc p') start' t'"
  using assms by (subst print_loop.simps) simp

lemma print_ansi_more:
  assumes t: "seq_ok (ansi_sequence t)" "cstring (ansi_sequence t) 0 = Some s" and c: "c \<in> ansi_bytes" "c \<noteq> 0" "length s < 63"
  shows "\<exists>q. print_ansi c p start t = Some (p, start, t\<lparr>ansi_sequence := q\<rparr>) \<and> seq_ok q \<and> cstring q 0 = Some (s @ [c])"
proof -
  obtain q where q: "strcat (ansi_sequence t) 0 [c, 0] 0 = Some q" "seq_ok q" "cstring q 0 = Some (s @ [c])"
    using seq_append [OF t c(2,3)] by blast
  moreover obtain r where "strchr ansi_chars 0 (sint c) = Some (Some r)"
    using strchr_cstring(2) [OF cstring_ansi_chars c(2)] c(1) by (auto simp: ansi_bytes_def)
  ultimately have "print_ansi c p start t = Some (p, start, t\<lparr>ansi_sequence := q\<rparr>)" by (simp add: print_ansi_def seq_ok_def)
  then show ?thesis using q by blast
qed

text \<open>A terminal between two items of a text.\<close>

definition ready :: "terminal \<Rightarrow> bool" where
  "ready t \<longleftrightarrow> is_ansi_state t = 0 \<and> ansi_state t = PROCESS_NORMAL \<and> seq_ok (ansi_sequence t) \<and> ansi_sequence t ! 0 = 0 \<and>
     rd (apply_set_attribute t) 0 = Some Reset_text"

lemma codes_small: "command_ok k \<Longrightarrow> m \<in> set (codes k) \<Longrightarrow> m < 1000"
  by (cases k) (auto split: if_splits)

lemma codes_nonempty: "codes k \<noteq> []"
  by (cases k) simp_all

lemma displays_reset: "displays t s \<Longrightarrow> displays (reset_text_attribute t) (reset_colours s)"
  by (simp add: reset_text_attribute_def reset_colours_def displays_def dims_ok_def)

lemma parse_sgr_colours:
  assumes d: "displays t s" and n: "ansi_state t = PROCESS_NORMAL" "rd (apply_set_attribute t) 0 = Some Reset_text"
    and ks: "list_all command_ok ks" and q: "seq_ok (ansi_sequence t)" "cstring (ansi_sequence t) p = Some (join_codes (concat (map codes ks)))"
  shows "\<exists>t'. parse_sgr p t = Some t' \<and> same_setup t t' \<and> seq_ok (ansi_sequence t') \<and> displays t' (meaning (Colours ks) s)"
proof (cases "ks = []")
  case True
  then show ?thesis using d n q displays_reset
    by (simp add: parse_sgr_def strlen_eq reset_text_attribute_def same_setup_def)
next
  case False
  let ?ns = "concat (map codes ks)"
  have "\<forall>m \<in> set ?ns. m < 1000" using ks codes_small by (auto simp: list_all_iff)
  then obtain q' tok p' where q': "strtok_r (ansi_sequence t) (Some p) sgr_delim p = Some (q', tok, p')" "sgr_at q' tok p' ?ns"
    using sgr_next [OF q tokens_join, where str = "Some p" and old = p] by auto
  obtain t' where "sgr_loop tok p' 0 (t\<lparr>ansi_sequence := q'\<rparr>) = Some t'" "same_setup (t\<lparr>ansi_sequence := q'\<rparr>) t'"
      "seq_ok (ansi_sequence t')" "displays t' (fold colour ks s)"
    using sgr_commands [of "t\<lparr>ansi_sequence := q'\<rparr>" s tok p' ks 0] d n ks q'(2) by (auto simp: displays_colour)
  moreover have "?ns \<noteq> []" using False codes_nonempty by (cases ks) simp_all
  then have "join_codes ?ns \<noteq> []" using join_codes_Nil_iff by blast
  ultimately show ?thesis using q q'(1) False by (simp add: parse_sgr_def strlen_eq same_setup_def)
qed

lemma parse_ansi_colours:
  assumes d: "displays t s" and n: "ansi_state t = PROCESS_NORMAL" "rd (apply_set_attribute t) 0 = Some Reset_text"
    and ks: "list_all command_ok ks" and q: "seq_ok (ansi_sequence t)" "cstring (ansi_sequence t) 0 = Some (91 # join_codes (concat (map codes ks)) @ [109])"
  shows "\<exists>t'. terminal_parse_ansi t = Some t' \<and> same_setup t t' \<and> seq_ok (ansi_sequence t') \<and> displays t' (meaning (Colours ks) s)"
proof -
  let ?q = "ansi_sequence t" and ?w = "join_codes (concat (map codes ks))"
  let ?q' = "?q[1 + length ?w := 0]"
  have l: "length ?q = 64" using q(1) by (simp add: seq_ok_def)
  then have hd: "rd ?q 0 = Some 91" using q(2) by (auto simp: cstring_step split: if_splits)
  have c1: "cstring ?q 1 = Some (?w @ [109])" using cstring_suffix [of ?q 0 "[91]" "?w @ [109]"] q(2) by simp
  then have cm: "cstring ?q (1 + length ?w) = Some [109]" by (rule cstring_suffix)
  have lt: "1 + length ?w < length ?q" using cstring_SomeD(1) [OF cm] by simp
  then have m: "?q ! (1 + length ?w) = 109" using cm by (auto simp: cstring_step split: if_splits)
  have q': "cstring ?q' 1 = Some ?w" using cstring_cut(1) [OF c1] by simp
  have "seq_ok ?q'" using q(1) lt by (simp add: seq_ok_def nth_list_update)
  then obtain t' where t': "parse_sgr 1 (t\<lparr>ansi_sequence := ?q'\<rparr>) = Some t'" "same_setup (t\<lparr>ansi_sequence := ?q'\<rparr>) t'"
      "seq_ok (ansi_sequence t')" "displays t' (meaning (Colours ks) s)"
    using parse_sgr_colours [of "t\<lparr>ansi_sequence := ?q'\<rparr>" s ks 1] d n ks q' by (auto simp: displays_colour)
  have "terminal_parse_ansi t = parse_sgr 1 (t\<lparr>ansi_sequence := ?q'\<rparr>)"
    using hd c1 lt m by (simp add: terminal_parse_ansi_def strlen_eq)
  then show ?thesis using t' by (auto simp: same_setup_def)
qed

section \<open>Printing\<close>

lemma redrawn_setup:
  assumes "redrawn t t'"
  shows "same_setup t t'" "ready t \<Longrightarrow> ready t'"
  using assms by (auto simp: same_setup_def ready_def redrawn_fields)

text \<open>A character that is not part of a sequence.\<close>

lemma tab_displays:
  assumes "displays t s"
  shows "\<exists>t'. for_loop 0 4 (\<lambda>i. drawchar 32) t = Some t' \<and> redrawn t t' \<and> displays t' ((put_glyph 32 ^^ 4) s)"
proof (rule for_loop_rule [where I = "\<lambda>i t'. redrawn t t' \<and> displays t' ((put_glyph 32 ^^ i) s)", simplified])
  fix i t' assume "redrawn t t' \<and> displays t' ((put_glyph 32 ^^ i) s)"
  then show "\<exists>t''. drawchar 32 t' = Some t'' \<and> redrawn t t'' \<and> displays t'' (put_glyph 32 ((put_glyph 32 ^^ i) s))"
    using drawchar_displays [of t' "(put_glyph 32 ^^ i) s" 32] redrawn_trans by blast
qed (use assms redrawn_buf(2) in simp_all)

lemma print_char_displays:
  assumes d: "displays t s" and c: "c \<noteq> 27"
  shows "\<exists>t'. print_char c t = Some t' \<and> redrawn t t' \<and> displays t' (meaning (Byte c) s)"
proof -
  consider "c = 8" | "c = 10" | "c = 13 \<or> c = 11" | "c = 9" | "c \<notin> {8, 10, 13, 11, 9}" by blast
  then show ?thesis
  proof cases
    case 1
    then show ?thesis using backspace_displays [OF d] by (simp add: print_char_def)
  next
    case 2
    then show ?thesis using newline_displays [OF d] by (simp add: print_char_def)
  next
    case 3
    then show ?thesis using d redrawn_buf(2) by (auto simp: print_char_def)
  next
    case 4
    then show ?thesis using tab_displays [OF d] by (simp add: print_char_def)
  next
    case 5
    then show ?thesis using drawchar_displays [OF d, of c] c by (simp add: print_char_def)
  qed
qed

text \<open>The bytes that continue a sequence.\<close>

lemma print_sequence:
  assumes "drop p str = xs @ rest" "set xs \<subseteq> ansi_bytes" "is_ansi_state t \<noteq> 0"
    and "seq_ok (ansi_sequence t)" "cstring (ansi_sequence t) 0 = Some w" "length w + length xs \<le> 63"
  shows "\<exists>q. print_loop str p start t = print_loop str (p + length xs) start (t\<lparr>ansi_sequence := q\<rparr>) \<and>
    seq_ok q \<and> cstring q 0 = Some (w @ xs)"
  using assms
proof (induction xs arbitrary: p t w)
  case Nil
  then show ?case by (intro exI [of _ "ansi_sequence t"]) simp
next
  case (Cons c xs)
  note dr = drop_ConsD [OF Cons.prems(1) [simplified]]
  have c: "c \<in> ansi_bytes" "c \<noteq> 0" using Cons.prems(2) ansi_bytes_facts(3) by auto
  obtain q where q: "print_ansi c p start t = Some (p, start, t\<lparr>ansi_sequence := q\<rparr>)" "seq_ok q" "cstring q 0 = Some (w @ [c])"
    using print_ansi_more [OF Cons.prems(4,5) c] Cons.prems(6) by auto
  have "print_loop str p start t = print_loop str (Suc p) start (t\<lparr>ansi_sequence := q\<rparr>)"
    using q(1) dr c(2) Cons.prems(3) by (intro print_loop_step) simp_all
  moreover obtain q' where "print_loop str (Suc p) start (t\<lparr>ansi_sequence := q\<rparr>) = print_loop str (Suc p + length xs) start (t\<lparr>ansi_sequence := q'\<rparr>)"
      "seq_ok q'" "cstring q' 0 = Some ((w @ [c]) @ xs)"
    using Cons.IH [OF dr(3), of "t\<lparr>ansi_sequence := q\<rparr>" "w @ [c]"] q Cons.prems by auto
  ultimately show ?case by auto
qed

lemma print_ansi_last:
  assumes d: "displays t s" and n: "ansi_state t = PROCESS_NORMAL" "rd (apply_set_attribute t) 0 = Some Reset_text"
    and ks: "list_all command_ok ks" "length (join_codes (concat (map codes ks))) < 62"
    and q: "seq_ok (ansi_sequence t)" "cstring (ansi_sequence t) 0 = Some (91 # join_codes (concat (map codes ks)))"
  shows "\<exists>t'. print_ansi 109 p start t = Some (p, start, t') \<and> same_setup (t\<lparr>is_ansi_state := 0\<rparr>) t' \<and> ready t' \<and>
    displays t' (meaning (Colours ks) s)"
proof -
  let ?w = "91 # join_codes (concat (map codes ks))"
  obtain q' where q': "strcat (ansi_sequence t) 0 [109, 0] 0 = Some q'" "seq_ok q'" "cstring q' 0 = Some (?w @ [109])"
    using seq_append [OF q, of 109] ks(2) by auto
  have stop: "strchr ansi_chars 0 (sint (109 :: u8)) = Some None"
    using strchr_cstring(1) [OF cstring_ansi_chars, of 109] ansi_bytes_facts(4) by (simp add: ansi_bytes_def)
  obtain t' where t': "terminal_parse_ansi (t\<lparr>ansi_sequence := q', is_ansi_state := 0\<rparr>) = Some t'"
      "same_setup (t\<lparr>ansi_sequence := q', is_ansi_state := 0\<rparr>) t'" "seq_ok (ansi_sequence t')" "displays t' (meaning (Colours ks) s)"
    using parse_ansi_colours [of "t\<lparr>ansi_sequence := q', is_ansi_state := 0\<rparr>" s ks] d n ks(1) q'(2,3) by (auto simp: displays_colour)
  let ?t = "t'\<lparr>ansi_sequence := (ansi_sequence t')[0 := 0]\<rparr>"
  have "print_ansi 109 p start t = Some (p, start, ?t)"
    using q'(1,2) stop t'(1,3) by (simp add: print_ansi_def seq_ok_def)
  moreover have "same_setup (t\<lparr>is_ansi_state := 0\<rparr>) ?t" "ready ?t" "displays ?t (meaning (Colours ks) s)"
    using t' n by (auto simp: same_setup_def ready_def seq_ok_def displays_colour)
  ultimately show ?thesis by blast
qed

text \<open>One item.\<close>

lemma print_item:
  assumes d: "displays t s" and r: "ready t" and i: "item_ok it" and str: "drop p str = encode it @ rest"
  shows "\<exists>t'. print_loop str p start t = print_loop str (p + length (encode it)) start t' \<and> ready t' \<and> same_setup t t' \<and>
    displays t' (meaning it s)"
proof (cases it)
  case (Byte c)
  then have c: "c \<noteq> 0" "c \<noteq> 27" "rd str p = Some c" using i drop_ConsD [of p str c rest] str by simp_all
  obtain t' where t': "print_char c t = Some t'" "redrawn t t'" "displays t' (meaning (Byte c) s)"
    using print_char_displays [OF d c(2)] by blast
  have "print_loop str p start t = print_loop str (Suc p) start t'"
    by (rule print_loop_step [OF c(3,1)]) (use r in \<open>simp add: t'(1) ready_def\<close>)
  then show ?thesis using t' redrawn_setup [OF t'(2)] r Byte by auto
next
  case (Colours ks)
  let ?w = "join_codes (concat (map codes ks))"
  let ?t = "t\<lparr>is_ansi_state := 1\<rparr>"
  have ok: "list_all command_ok ks" "length ?w < 62" using i Colours by simp_all
  note dr = drop_ConsD [of p str 27 "(91 # ?w) @ 109 # rest"]
  have str': "rd str p = Some 27" "drop (Suc p) str = (91 # ?w) @ 109 # rest" using dr str Colours by simp_all
  have "print_loop str p start t = print_loop str (Suc p) start ?t"
    by (rule print_loop_step [OF str'(1)]) (use r in \<open>simp_all add: ready_def print_char_def\<close>)
  moreover have "cstring (ansi_sequence ?t) 0 = Some []" "seq_ok (ansi_sequence ?t)"
    using r by (auto simp: ready_def seq_ok_def cstring_step)
  then obtain q where q: "print_loop str (Suc p) start ?t = print_loop str (Suc p + length (91 # ?w)) start (?t\<lparr>ansi_sequence := q\<rparr>)"
      "seq_ok q" "cstring q 0 = Some (91 # ?w)"
    using print_sequence [OF str'(2), of ?t "[]" start] join_codes_bytes ansi_bytes_facts(1) ok(2) by auto
  moreover obtain t' where t': "print_ansi 109 (Suc p + length (91 # ?w)) start (?t\<lparr>ansi_sequence := q\<rparr>) = Some (Suc p + length (91 # ?w), start, t')"
      "same_setup (?t\<lparr>ansi_sequence := q, is_ansi_state := 0\<rparr>) t'" "ready t'" "displays t' (meaning (Colours ks) s)"
    using print_ansi_last [of "?t\<lparr>ansi_sequence := q\<rparr>" s ks] q(2,3) ok d r by (auto simp: ready_def displays_colour)
  moreover have "rd str (Suc p + length (91 # ?w)) = Some 109"
    using arg_cong [OF str'(2), of "drop (length (91 # ?w))"] drop_ConsD [of "Suc p + length (91 # ?w)" str 109 rest] by (simp add: add.commute)
  then have "print_loop str (Suc p + length (91 # ?w)) start (?t\<lparr>ansi_sequence := q\<rparr>) = print_loop str (Suc (Suc p + length (91 # ?w))) start t'"
    by (rule print_loop_step) (use t'(1) in simp_all)
  moreover have "same_setup t t'" using t'(2) r by (simp add: same_setup_def ready_def)
  ultimately show ?thesis using Colours by (auto simp: numeral_eq_Suc)
qed

lemma print_items:
  assumes "displays t s" "ready t" "list_all item_ok its" "drop p str = concat (map encode its) @ 0 # rest"
  shows "\<exists>t'. print_loop str p start t = Some t' \<and> ready t' \<and> same_setup t t' \<and> displays t' (fold meaning its s)"
  using assms
proof (induction its arbitrary: t s p)
  case Nil
  then have "rd str p = Some 0" using drop_ConsD [of p str 0 rest] by simp
  then show ?case using Nil by (subst print_loop.simps) (simp add: same_setup_def)
next
  case (Cons it its)
  have str: "drop p str = encode it @ concat (map encode its) @ 0 # rest" using Cons.prems(4) by simp
  have str': "drop (p + length (encode it)) str = concat (map encode its) @ 0 # rest"
    using arg_cong [OF str, of "drop (length (encode it))"] by (simp add: add.commute)
  obtain t' where t': "print_loop str p start t = print_loop str (p + length (encode it)) start t'" "ready t'" "same_setup t t'" "displays t' (meaning it s)"
    using print_item [OF Cons.prems(1,2) _ str, of start] Cons.prems(3) by auto
  then show ?case using Cons.IH [OF t'(4,2) _ str'] Cons.prems(3) same_setup_trans by auto
qed

definition printed :: "bool \<Rightarrow> u32 \<Rightarrow> item list \<Rightarrow> screen \<Rightarrow> screen" where
  "printed cursor color its s =
     (if cursor then set_cell (Fill color) (fold meaning its (set_cell (Fill (bg s)) s)) else fold meaning its s)"

section \<open>Clearing, refreshing and allocating\<close>

lemma word_index: "unat (w * of_nat i + of_nat j :: u64) = i * unat w + j" if "i * unat w + j < 2 ^ 64"
proof -
  have "w * of_nat i + of_nat j = of_nat (i * unat w + j)" by (simp add: mult.commute)
  then show ?thesis using that by (simp only: unat_of_nat_small)
qed

lemma clear_screen_eq:
  assumes l: "length (buf1 t) = th t * tw t" "th t * tw t < 2 ^ 32"
  shows "\<exists>b. clear_screen t = Some (t\<lparr>buf1 := b\<rparr>) \<and> length b = th t * tw t \<and> (\<forall>k<th t * tw t. b ! k = bg_color_default t)"
proof -
  let ?row = "\<lambda>i. for_loop 0 (tw t) (\<lambda>j b. wr b (unat (term_w_px t * of_nat i + of_nat j)) (bg_color_default t))"
  have "\<exists>b. for_loop 0 (th t) ?row (buf1 t) = Some b \<and> length b = th t * tw t \<and> (\<forall>k<th t * tw t. b ! k = bg_color_default t)"
  proof (rule for_loop_rule [where I = "\<lambda>i b. length b = th t * tw t \<and> (\<forall>k<i * tw t. b ! k = bg_color_default t)"])
    fix i b assume i: "i < th t" and b: "length b = th t * tw t \<and> (\<forall>k<i * tw t. b ! k = bg_color_default t)"
    have "Suc i * tw t \<le> th t * tw t" using i by (intro mult_le_mono1) simp
    then have le: "i * tw t + tw t \<le> length b" using b by simp
    have "?row i b = Some (overwrite b (i * tw t) (map (\<lambda>j. bg_color_default t) [0..<tw t]))"
      using le b l(2) by (intro row_write) (simp_all add: word_index)
    then show "\<exists>b'. ?row i b = Some b' \<and> length b' = th t * tw t \<and> (\<forall>k<Suc i * tw t. b' ! k = bg_color_default t)"
      using le b by (auto simp: nth_overwrite)
  qed (use l in simp_all)
  then show ?thesis by (auto simp: clear_screen_def)
qed

text \<open>The cleared grid, and what a refresh copies to the frame buffer.\<close>

definition blank :: "terminal \<Rightarrow> screen" where
  "blank t = \<lparr>rows = unat (cursor_v_max t), cols = unat (cursor_h_max t), scrolls = scroll_enabled t, fg = fg_color t, bg = bg_color t,
     fg0 = fg_color_default t, bg0 = bg_color_default t, cells = \<lambda>r c. Fill (bg_color_default t),
     crow = unat (cursor_v t), ccol = unat (cursor_h t)\<rparr>"

lemma clear_displays:
  assumes d: "dims_ok t"
  shows "\<exists>b. terminal_clear t = Some (t\<lparr>buf1 := b\<rparr>) \<and> displays (t\<lparr>buf1 := b\<rparr>) (blank t)"
proof -
  obtain b where b: "clear_screen t = Some (t\<lparr>buf1 := b\<rparr>)" "length b = th t * tw t" "\<forall>k<th t * tw t. b ! k = bg_color_default t"
    using clear_screen_eq [of t] d by (auto simp: dims_ok_def)
  have p: "px (tw t) b y x = bg_color_default t" if "y < th t" "x < tw t" for y x
    using b(3) px_index_less [OF that] by (simp add: px_def)
  have "px (tw t) b (r * fh t + y) (c * fw t + x) = bg_color_default t"
    if "r < unat (cursor_v_max t)" "c < unat (cursor_h_max t)" "y < fh t" "x < fw t" for r c y x
    using cell_bounds [OF d that(1,2)] that(3,4) by (intro p) simp_all
  then have "displays (t\<lparr>buf1 := b\<rparr>) (blank t)" using b(2) d p by (simp add: displays_def blank_def dims_ok_def)
  then show ?thesis using b(1) by (auto simp: terminal_clear_def)
qed

lemma refresh_px:
  assumes l: "length (buf1 t) = th t * tw t" "th t * tw t < 2 ^ 64" "tw t \<le> unat (fb_w_px t)"
    and f: "th t * unat (fb_w_px t) \<le> length (buf2 t)" "length (buf2 t) < 2 ^ 64"
  shows "\<exists>b. terminal_refresh t = Some (t\<lparr>buf2 := b\<rparr>) \<and> length b = length (buf2 t) \<and>
    (\<forall>y<th t. \<forall>x<tw t. px (unat (fb_w_px t)) b y x = px (tw t) (buf1 t) y x)"
proof -
  let ?fw = "unat (fb_w_px t)"
  let ?row = "\<lambda>i. for_loop 0 (tw t) (\<lambda>j b. do { p \<leftarrow> rd (buf1 t) (unat (term_w_px t * of_nat i + of_nat j));
    wr b (unat (fb_w_px t * of_nat i + of_nat j)) p })"
  have "\<exists>b. for_loop 0 (th t) ?row (buf2 t) = Some b \<and> length b = length (buf2 t) \<and> (\<forall>y<th t. \<forall>x<tw t. px ?fw b y x = px (tw t) (buf1 t) y x)"
  proof (rule for_loop_rule [where I = "\<lambda>i b. length b = length (buf2 t) \<and> (\<forall>y<i. \<forall>x<tw t. px ?fw b y x = px (tw t) (buf1 t) y x)"])
    fix i b assume i: "i < th t" and b: "length b = length (buf2 t) \<and> (\<forall>y<i. \<forall>x<tw t. px ?fw b y x = px (tw t) (buf1 t) y x)"
    have "Suc i * ?fw \<le> th t * ?fw" "Suc i * tw t \<le> th t * tw t" using i by (intro mult_le_mono1; simp)+
    then have le: "i * ?fw + tw t \<le> length b" "i * tw t + tw t \<le> length (buf1 t)" using b l f by simp_all
    have "?row i b = Some (overwrite b (i * ?fw) (map (\<lambda>j. buf1 t ! (i * tw t + j)) [0..<tw t]))"
      using le b l(1,2) f(2) by (intro row_write) (simp_all add: word_index)
    moreover have "px ?fw (overwrite b (i * ?fw) (map (\<lambda>j. buf1 t ! (i * tw t + j)) [0..<tw t])) y x = px (tw t) (buf1 t) y x"
      if "y < Suc i" "x < tw t" for y x
    proof -
      have "i * ?fw \<le> y * ?fw + x \<and> y * ?fw + x < i * ?fw + tw t \<longleftrightarrow> y = i"
        using px_index_row [of x ?fw 0 "tw t" i y] that(2) l(3) by simp
      moreover have "y * ?fw + x < length b"
        using px_index_less [of y "th t" x ?fw] that i l(3) f(1) b by simp
      ultimately show ?thesis using that le(1) b by (auto simp: px_def nth_overwrite less_Suc_eq)
    qed
    ultimately show "\<exists>b'. ?row i b = Some b' \<and> length b' = length (buf2 t) \<and> (\<forall>y<Suc i. \<forall>x<tw t. px ?fw b' y x = px (tw t) (buf1 t) y x)"
      using le(1) b by simp
  qed (use l in simp_all)
  then show ?thesis by (auto simp: terminal_refresh_def fb_load_buffer_def)
qed

text \<open>
  The sizes an allocation needs: at least one cell, at most \<open>2 ^ 32\<close> pixels, a font of at most 32
  columns, and buffers as large as announced.
\<close>

definition alloc_sizes :: "u32 \<Rightarrow> u32 \<Rightarrow> u64 \<Rightarrow> u64 \<Rightarrow> u32 \<Rightarrow> u8 list \<Rightarrow> u32 list \<Rightarrow> bool" where
  "alloc_sizes h_font w_font height width bpp font pixels \<longleftrightarrow> 0 < h_font \<and> 0 < w_font \<and> w_font \<le> 32 \<and> 8 \<le> bpp \<and>
     unat h_font \<le> unat height \<and> unat w_font \<le> unat width \<and> unat height * unat width < 2 ^ 32 \<and>
     256 * unat h_font < 2 ^ 32 \<and> length font = 256 * unat h_font \<and> length pixels = unat height * unat width"

lemma cells_fit:
  fixes f :: u32 and n :: u64
  assumes "0 < f" "unat f \<le> unat n" "unat n < 2 ^ 32"
  shows "unat (ucast (n div ucast f) :: u32) = unat n div unat f" "0 < (ucast (n div ucast f) :: u32)"
proof -
  have d: "unat (n div ucast f) = unat n div unat f" by (simp add: unat_div)
  have "unat n div unat f < 2 ^ 32" using assms(3) by (rule le_less_trans [OF div_le_dividend])
  then show u: "unat (ucast (n div ucast f) :: u32) = unat n div unat f"
    using d by (simp add: unsigned_ucast_eq take_bit_nat_eq_self)
  have "0 < unat n div unat f" using assms by (simp add: div_greater_zero_iff unat_gt_0)
  then show "0 < (ucast (n div ucast f) :: u32)" unfolding word_less_nat_alt u by simp
qed

lemma factor_small: "a * b < m \<Longrightarrow> 0 < b \<Longrightarrow> a < m" "a * b < m \<Longrightarrow> 0 < a \<Longrightarrow> b < m" for a b m :: nat
  by (metis le_less_trans mult_le_mono2 nat_mult_1_right Suc_leI One_nat_def, metis le_less_trans mult_le_mono1 nat_mult_1 Suc_leI One_nat_def)

lemma alloc_dims:
  assumes a: "terminal_alloc default_font (Some fresh) pixels h_font w_font term_h term_w fb_h fb_w pitch bpp fgc bgc bmp buffer1 buffer2 = Some t"
    and s: "alloc_sizes h_font w_font (min term_h (ucast fb_h)) (min term_w (ucast fb_w)) bpp (bitmap t) (buf1 t)"
  shows "dims_ok t"
proof -
  have f: "font_h_px t = h_font" "font_w_px t = w_font" "term_h_px t = min term_h (ucast fb_h)" "term_w_px t = min term_w (ucast fb_w)"
    "cursor_h t = 0" "cursor_v t = 0" "cursor_h_max t = ucast (term_w_px t div ucast w_font)" "cursor_v_max t = ucast (term_h_px t div ucast h_font)"
    using a by (auto simp: terminal_alloc_def Let_def split: Option.bind_splits if_splits option.splits)
  note s = s [folded f, unfolded alloc_sizes_def]
  have p: "0 < fh t" "0 < fw t" using s by (simp_all add: unat_gt_0 word_greater_zero_iff)
  then have "0 < tw t" "0 < th t" using s by linarith+
  then have "tw t < 2 ^ 32" "th t < 2 ^ 32" using s factor_small [of "th t" "tw t"] by simp_all
  then have c: "unat (cursor_h_max t) = tw t div fw t" "unat (cursor_v_max t) = th t div fh t" "0 < cursor_h_max t" "0 < cursor_v_max t"
    using cells_fit [of "font_w_px t" "term_w_px t"] cells_fit [of "font_h_px t" "term_h_px t"] s f by simp_all
  moreover have "fw t \<le> 32" using s by (simp add: word_le_nat_alt)
  ultimately show ?thesis using s p f by (simp add: dims_ok_def)
qed

lemma alloc_ready:
  assumes "terminal_alloc default_font (Some fresh) pixels h_font w_font term_h term_w fb_h fb_w pitch bpp fgc bgc bmp buffer1 buffer2 = Some t"
  shows "ready t"
  using assms by (auto simp: terminal_alloc_def ready_def seq_ok_def Let_def rd_def split: Option.bind_splits if_splits option.splits)

text \<open>A terminal of two by two cells with a font of one pixel.\<close>

definition small_terminal :: terminal where
  "small_terminal = \<lparr>font_h_px = 1, font_w_px = 1, bitmap = replicate 256 1, term_h_px = 2, term_w_px = 2, buf1 = replicate 4 0,
     cursor_h = 0, cursor_v = 0, cursor_h_max = 2, cursor_v_max = 2, cursor_color = CURSOR_COLOR, cursor_enabled = True,
     scroll_enabled = True, fg_color_default = 7, bg_color_default = 0, fg_color = 7, bg_color = 0, apply_to_fg = 0, is_ansi_state = 0,
     ansi_state = PROCESS_NORMAL, ansi_sequence = replicate 64 0, apply_set_attribute = (replicate 9 No_change)[0 := Reset_text],
     apply_reset_attribute = replicate 8 No_change, buf2 = replicate 4 0, fb_w_px = 2, fb_h_px = 2\<rparr>"

lemma small_terminal_ok: "dims_ok small_terminal" "ready small_terminal"
  by (simp_all add: small_terminal_def dims_ok_def ready_def seq_ok_def)

lemma small_terminal_displays: "displays small_terminal (blank small_terminal)"
proof -
  have "px 2 (replicate 4 0 :: u32 list) y x = 0" if "y < 2" "x < 2" for y x
    using px_index_less [OF that] by (simp add: px_def)
  then show ?thesis using small_terminal_ok(1) by (simp add: displays_def blank_def) (simp add: small_terminal_def)
qed

section \<open>Properties\<close>

text \<open>
  C19: Printing a text (characters, backspaces, line feeds, tabs and colour sequences, each at most 64
  bytes) on a terminal that displays a grid of cells returns, and the terminal then displays the grid
  the text's meaning gives: glyphs in the current colours from the cursor on, wrapping and scrolling
  as the grid does, with the cell under the cursor blanked before and filled with the cursor's colour
  after, where the cursor is enabled. Every pixel access is inside the buffers.
\<close>

theorem terminal_print_displays:
  assumes "displays t s" "ready t" "list_all item_ok its" "drop p str = concat (map encode its) @ 0 # rest"
  shows "\<exists>t'. terminal_print str p t = Some t' \<and> ready t' \<and> same_setup t t' \<and>
    displays t' (printed (cursor_enabled t) (cursor_color t) its s)"
proof (cases "cursor_enabled t")
  case False
  then show ?thesis using print_items [OF assms, of p] by (auto simp: terminal_print_def printed_def same_setup_def)
next
  case True
  have bg: "bg s = bg_color t" using assms(1) by (simp add: displays_def)
  obtain b where b: "draw_cursor (bg_color t) t = Some (t\<lparr>buf1 := b\<rparr>)" "displays (t\<lparr>buf1 := b\<rparr>) (set_cell (Fill (bg s)) s)"
    using draw_cursor_displays [OF assms(1), of "bg_color t"] bg by auto
  have u: "same_setup t (t\<lparr>buf1 := b\<rparr>)" "ready (t\<lparr>buf1 := b\<rparr>)" using redrawn_setup [OF redrawn_buf(1)] assms(2) by blast+
  obtain t' where t': "print_loop str p p (t\<lparr>buf1 := b\<rparr>) = Some t'" "ready t'" "same_setup (t\<lparr>buf1 := b\<rparr>) t'"
      "displays t' (fold meaning its (set_cell (Fill (bg s)) s))"
    using print_items [OF b(2) u(2) assms(3,4), of p] by blast
  obtain b' where b': "draw_cursor (cursor_color t') t' = Some (t'\<lparr>buf1 := b'\<rparr>)"
      "displays (t'\<lparr>buf1 := b'\<rparr>) (set_cell (Fill (cursor_color t')) (fold meaning its (set_cell (Fill (bg s)) s)))"
    using draw_cursor_displays [OF t'(4)] by blast
  have v: "same_setup t' (t'\<lparr>buf1 := b'\<rparr>)" "ready (t'\<lparr>buf1 := b'\<rparr>)" using redrawn_setup [OF redrawn_buf(1)] t'(2) by blast+
  have "same_setup t t'" using same_setup_trans [OF u(1) t'(3)] .
  then have e: "cursor_enabled t'" "cursor_color t' = cursor_color t" using True by (simp_all add: same_setup_def)
  have "terminal_print str p t = Some (t'\<lparr>buf1 := b'\<rparr>)" using True b(1) t'(1) b'(1) e(1) by (simp add: terminal_print_def)
  then show ?thesis using b'(2) v same_setup_trans [OF \<open>same_setup t t'\<close> v(1)] True e(2) by (auto simp: printed_def)
qed

theorem terminal_print_displays_witness:
  "\<exists>t'. terminal_print [104, 10, 27, 91, 51, 49, 109, 105, 0] 0 small_terminal = Some t' \<and> ready t' \<and> same_setup small_terminal t' \<and>
    displays t' (printed (cursor_enabled small_terminal) (cursor_color small_terminal)
      [Byte 104, Byte 10, Colours [Fg16 1], Byte 105] (blank small_terminal))"
  by (rule terminal_print_displays [OF small_terminal_displays small_terminal_ok(2), where rest = "[]"])
    (simp_all add: udigits_def lsd.simps digits_def)

text \<open>
  C31: Allocating a terminal with a font of 256 glyphs and at most 32 columns, room for a cell and
  fewer than \<open>2 ^ 32\<close> pixels returns one whose sizes, counters and tables are consistent, whatever
  the allocated memory contained; clearing it displays an empty grid with the cursor in the first
  cell.
\<close>

theorem terminal_alloc_well_formed:
  assumes "alloc_sizes h_font w_font (min term_h (ucast fb_h)) (min term_w (ucast fb_w)) bpp
      (case bmp of None \<Rightarrow> default_font | Some f \<Rightarrow> f) (case buffer1 of None \<Rightarrow> block | Some b \<Rightarrow> b)"
  shows "\<exists>t b. terminal_alloc default_font (Some fresh) (Some block) h_font w_font term_h term_w fb_h fb_w pitch bpp fgc bgc bmp buffer1 buffer2 = Some t \<and>
    dims_ok t \<and> ready t \<and> cursor_h t = 0 \<and> cursor_v t = 0 \<and>
    terminal_clear t = Some (t\<lparr>buf1 := b\<rparr>) \<and> displays (t\<lparr>buf1 := b\<rparr>) (blank t)"
proof -
  have "8 \<le> unat bpp" using assms by (simp add: alloc_sizes_def word_le_nat_alt)
  then have "unat (bpp div 8) \<noteq> 0" by (simp add: unat_div)
  then have "bpp div 8 \<noteq> 0" by (metis unat_0)
  moreover have "h_font \<noteq> 0" "w_font \<noteq> 0" using assms by (auto simp: alloc_sizes_def)
  ultimately have "\<exists>t. terminal_alloc default_font (Some fresh) (Some block) h_font w_font term_h term_w fb_h fb_w pitch bpp fgc bgc bmp buffer1 buffer2 = Some t \<and>
      bitmap t = (case bmp of None \<Rightarrow> default_font | Some f \<Rightarrow> f) \<and> buf1 t = (case buffer1 of None \<Rightarrow> block | Some b \<Rightarrow> b) \<and>
      cursor_h t = 0 \<and> cursor_v t = 0"
    by (cases buffer1) (simp_all add: terminal_alloc_def Let_def)
  then obtain t where t: "terminal_alloc default_font (Some fresh) (Some block) h_font w_font term_h term_w fb_h fb_w pitch bpp fgc bgc bmp buffer1 buffer2 = Some t"
      "bitmap t = (case bmp of None \<Rightarrow> default_font | Some f \<Rightarrow> f)" "buf1 t = (case buffer1 of None \<Rightarrow> block | Some b \<Rightarrow> b)"
      "cursor_h t = 0" "cursor_v t = 0" by blast
  then have "dims_ok t" using alloc_dims [OF t(1)] assms by simp
  then show ?thesis using clear_displays [of t] alloc_ready [OF t(1)] t by blast
qed

theorem terminal_alloc_well_formed_witness:
  "\<exists>t b. terminal_alloc (replicate 256 0) (Some small_terminal) (Some (replicate 6 1)) 1 1 3 2 4 2 8 32 7 0 None None [] = Some t \<and>
    dims_ok t \<and> ready t \<and> cursor_h t = 0 \<and> cursor_v t = 0 \<and>
    terminal_clear t = Some (t\<lparr>buf1 := b\<rparr>) \<and> displays (t\<lparr>buf1 := b\<rparr>) (blank t)"
  by (rule terminal_alloc_well_formed) (simp add: alloc_sizes_def)

text \<open>
  Two sequences outside the texts above. A 24-bit colour leaves the machine in the state that reads
  components, with the first component in the lowest byte and no opacity; code 9 reads past the
  table of attributes.
\<close>

lemma rgb_sequence_keeps_state:
  "map_option (\<lambda>t. (ansi_state t, fg_color t)) (terminal_print [27, 91, 51, 56, 59, 50, 59, 49, 59, 50, 59, 51, 109, 0] 0
     (small_terminal\<lparr>cursor_enabled := False\<rparr>)) = Some (PROCESS_ANSI24, 0x030201)"
  by code_simp

lemma strikethrough_out_of_bounds:
  "terminal_print [27, 91, 57, 109, 0] 0 (small_terminal\<lparr>cursor_enabled := False\<rparr>) = None"
  by code_simp

end
