(* ===== verification/Surface.thy ===== *)
theory Surface
  imports Rect
begin

text \<open>
  Surfaces of the window system, \<open>src/libGUI/Surface.cpp\<close>: a rectangle with a buffer of pixels,
  copied or blended onto another surface inside an area. Coordinates are \<open>int\<close>s with checked
  arithmetic and the buffers have checked accesses. The lemmas say pixel by pixel what the loops do;
  the destination is a screen, whose rectangle starts at the origin.
\<close>

section \<open>Definitions\<close>

record surface =
  srect :: rect
  sbuff :: "u32 list"

definition rdi :: "'a list \<Rightarrow> int \<Rightarrow> 'a option" where
  "rdi xs i = (if i < 0 then None else rd xs (nat i))"

definition wri :: "'a list \<Rightarrow> int \<Rightarrow> 'a \<Rightarrow> 'a list option" where
  "wri xs i v = (if i < 0 then None else wr xs (nat i) v)"

text \<open>\<open>for (int i = lo; i < hi; i++)\<close>\<close>

definition int_for :: "int \<Rightarrow> int \<Rightarrow> (int \<Rightarrow> 's \<Rightarrow> 's option) \<Rightarrow> 's \<Rightarrow> 's option" where
  "int_for lo hi body = for_loop 0 (nat (hi - lo)) (\<lambda>k. body (lo + int k))"

definition getSize :: "surface \<Rightarrow> u64 option" where
  "getSize s = do { n \<leftarrow> c_int (getWidth (srect s) * getHeight (srect s)); Some (word_of_int n) }"

text \<open>The products of two channels are computed in \<open>uint32_t\<close>; a division by zero has no result.\<close>

definition blend_channel :: "u32 \<Rightarrow> u32 \<Rightarrow> nat \<Rightarrow> u8 \<Rightarrow> u8 \<Rightarrow> u8 \<Rightarrow> u8 option" where
  "blend_channel colorA colorB sh alphaA alphaB' alphaOut =
     (if alphaOut = 0 then None
      else Some (ucast (((drop_bit sh colorA AND 0xff) * ucast alphaA + (drop_bit sh colorB AND 0xff) * ucast alphaB') div ucast alphaOut)))"

definition alphaBlendPixel :: "u32 \<Rightarrow> u32 \<Rightarrow> u32 option" where
  "alphaBlendPixel colorA colorB = do {
     let alphaA = (ucast (drop_bit 24 colorA) :: u8);
     let alphaB = (ucast (drop_bit 24 colorB) :: u8);
     if alphaA = 0xff then Some colorA
     else if alphaA = 0 then Some colorB
     else do {
       let alphaB' = (ucast (drop_bit 8 (ucast alphaB * (256 - ucast alphaA) :: u32)) :: u8);
       let alphaOut = alphaA + alphaB';
       redOut \<leftarrow> blend_channel colorA colorB 16 alphaA alphaB' alphaOut;
       greenOut \<leftarrow> blend_channel colorA colorB 8 alphaA alphaB' alphaOut;
       blueOut \<leftarrow> blend_channel colorA colorB 0 alphaA alphaB' alphaOut;
       Some (push_bit 24 (ucast alphaOut) OR push_bit 16 (ucast redOut) OR push_bit 8 (ucast greenOut) OR ucast blueOut) } }"

text \<open>
  The part \<open>blit\<close> and \<open>alphaBlit\<close> share: \<open>put\<close> is what they do to the pixel at an index of the
  destination, given the pixel of the source.
\<close>

definition pixel_index :: "int \<Rightarrow> int \<Rightarrow> int \<Rightarrow> int option" where
  "pixel_index i width j = do { r \<leftarrow> c_int (i * width); c_int (r + j) }"

definition blit_with :: "(u32 list \<Rightarrow> int \<Rightarrow> u32 \<Rightarrow> u32 list option) \<Rightarrow> surface \<Rightarrow> surface \<Rightarrow> rect \<Rightarrow> surface option" where
  "blit_with put this source area = do {
     let drawRect = copy_rect (srect source);
     let translateX = getX drawRect;
     let translateY = getY drawRect;
     drawRect \<leftarrow> restrictRect area drawRect;
     drawRect \<leftarrow> restrictRect (srect this) drawRect;
     let x = getX drawRect;
     let y = getY drawRect;
     xMax \<leftarrow> getRight drawRect;
     yMax \<leftarrow> getBottom drawRect;
     let destWidth = getWidth (srect this);
     let sourceWidth = getWidth (srect source);
     b \<leftarrow> int_for y yMax (\<lambda>i. int_for x xMax (\<lambda>j b. do {
       dy \<leftarrow> c_int (i - translateY);
       dx \<leftarrow> c_int (j - translateX);
       k \<leftarrow> pixel_index dy sourceWidth dx;
       c \<leftarrow> rdi (sbuff source) k;
       d \<leftarrow> pixel_index i destWidth j;
       put b d c })) (sbuff this);
     Some (this\<lparr>sbuff := b\<rparr>) }"

definition alphaBlit :: "surface \<Rightarrow> surface \<Rightarrow> rect \<Rightarrow> surface option" where
  "alphaBlit = blit_with (\<lambda>b d c. do { p \<leftarrow> rdi b d; v \<leftarrow> alphaBlendPixel p c; wri b d v })"

definition blit :: "surface \<Rightarrow> surface \<Rightarrow> rect \<Rightarrow> surface option" where
  "blit = blit_with wri"

section \<open>Blending\<close>

text \<open>The reference: channels as numbers. The result never leaves eight bits.\<close>

definition chan :: "nat \<Rightarrow> u32 \<Rightarrow> nat" where
  "chan k c = unat c div 2 ^ (8 * k) mod 256"

definition below_alpha :: "u32 \<Rightarrow> u32 \<Rightarrow> nat" where
  "below_alpha a b = chan 3 b * (256 - chan 3 a) div 256"

definition mix :: "nat \<Rightarrow> u32 \<Rightarrow> u32 \<Rightarrow> nat" where
  "mix k a b = (chan k a * chan 3 a + chan k b * below_alpha a b) div (chan 3 a + below_alpha a b)"

definition blend :: "u32 \<Rightarrow> u32 \<Rightarrow> u32" where
  "blend a b =
     (if chan 3 a = 255 then a else if chan 3 a = 0 then b
      else of_nat ((chan 3 a + below_alpha a b) * 2 ^ 24 + mix 2 a b * 2 ^ 16 + mix 1 a b * 2 ^ 8 + mix 0 a b))"

lemma chan_less: "chan k c < 256"
  by (simp add: chan_def)

lemma unat_drop_bit: "unat (drop_bit n (c :: u32)) = unat c div 2 ^ n"
proof -
  have "unat (drop_bit n c) = drop_bit n (unat c)" by (simp only: unsigned_drop_bit_eq take_bit_nat_eq_self [OF unat_bound])
  then show ?thesis by (simp only: drop_bit_eq_div)
qed

lemma unat_byte: "unat (drop_bit (8 * k) c AND 0xff :: u32) = chan k c"
proof -
  have "drop_bit (8 * k) c AND 0xff = take_bit 8 (drop_bit (8 * k) c)" by (simp only: take_bit_eq_mask mask_eq_exp_minus_1) simp
  also have "unat \<dots> = take_bit 8 (unat (drop_bit (8 * k) c))" by (simp only: unsigned_take_bit_eq)
  finally show ?thesis by (simp only: unat_drop_bit chan_def take_bit_eq_mod) simp
qed

lemma unat_alpha: "unat (ucast (drop_bit 24 c :: u32) :: u8) = chan 3 c"
proof -
  have "unat (ucast (drop_bit 24 c :: u32) :: u8) = take_bit 8 (unat (drop_bit 24 c))" by (simp only: unsigned_ucast_eq) simp
  then show ?thesis by (simp only: unat_drop_bit chan_def take_bit_eq_mod) simp
qed

lemma alpha_sum: "chan 3 a + below_alpha a b < 256"
proof -
  let ?a = "chan 3 a" and ?b = "chan 3 b"
  have le: "?a \<le> 255" "?b \<le> 255" using chan_less [of 3 a] chan_less [of 3 b] by simp_all
  have "?b * (256 - ?a) \<le> 255 * (256 - ?a)" using le(2) by (rule mult_le_mono1)
  also have "\<dots> < 256 * (256 - ?a)" using le(1) by simp
  finally have "below_alpha a b < 256 - ?a" unfolding below_alpha_def by (simp add: less_mult_imp_div_less mult.commute)
  then show ?thesis by simp
qed

lemma mix_less:
  assumes "0 < chan 3 a"
  shows "mix k a b < 256"
proof -
  let ?s = "chan 3 a" and ?t = "below_alpha a b"
  have "chan k a * ?s + chan k b * ?t \<le> 255 * ?s + 255 * ?t"
    using chan_less [of k a] chan_less [of k b] by (intro add_mono mult_le_mono1) simp_all
  also have "\<dots> < 256 * (?s + ?t)" using assms by simp
  finally show ?thesis unfolding mix_def by (rule less_mult_imp_div_less)
qed

lemma pack_channels:
  "push_bit 24 (ucast (p :: u8)) OR push_bit 16 (ucast (q :: u8)) OR push_bit 8 (ucast (r :: u8)) OR ucast (s :: u8) =
    (of_nat (unat p * 2 ^ 24 + unat q * 2 ^ 16 + unat r * 2 ^ 8 + unat s) :: u32)"
proof -
  have u: "(of_nat (unat w) :: u32) = ucast w" for w :: u8 by simp
  let ?p = "push_bit 24 (ucast p) :: u32" and ?q = "push_bit 16 (ucast q) :: u32" and ?r = "push_bit 8 (ucast r) :: u32"
  have d: "?r AND ucast s = 0" "?q AND (?r OR ucast s) = 0" "?p AND (?q OR ?r OR ucast s) = 0"
    by (rule bit_eqI; auto simp: bit_simps dest: bit_imp_le_length)+
  have "(of_nat (unat p * 2 ^ 24 + unat q * 2 ^ 16 + unat r * 2 ^ 8 + unat s) :: u32) = ?p + (?q + (?r + ucast s))"
    by (simp add: push_bit_eq_mult u)
  also have "\<dots> = ?p OR ?q OR ?r OR ucast s" using d by (simp only: disjunctive_add_eq_or)
  finally show ?thesis by (simp only: or.assoc)
qed

lemma blend_channel_mix:
  assumes a: "unat (alphaA :: u8) = chan 3 a" "unat (alphaB' :: u8) = below_alpha a b" "0 < chan 3 a"
  shows "\<exists>v. blend_channel a b (8 * k) alphaA alphaB' (alphaA + alphaB') = Some v \<and> unat v = mix k a b"
proof -
  let ?x = "(drop_bit (8 * k) a AND 0xff) * ucast alphaA :: u32" and ?y = "(drop_bit (8 * k) b AND 0xff) * ucast alphaB' :: u32"
  have u: "unat (ucast w :: u32) = unat w" for w :: u8 using unat_bound [of w] by (simp add: unsigned_ucast_eq take_bit_nat_eq_self)
  have o: "unat (alphaA + alphaB') = chan 3 a + below_alpha a b"
    using alpha_sum [of a b] a by (subst unat_add_small) simp_all
  have c: "chan k a * chan 3 a \<le> 255 * 255" "chan k b * below_alpha a b \<le> 255 * 255"
    using chan_less [of k a] chan_less [of 3 a] chan_less [of k b] alpha_sum [of a b] by (intro mult_le_mono; simp)+
  have x: "unat ?x = chan k a * chan 3 a" using c(1) a(1) by (subst unat_mult_small) (simp_all only: unat_byte u, simp_all)
  have y: "unat ?y = chan k b * below_alpha a b" using c(2) a(2) by (subst unat_mult_small) (simp_all only: unat_byte u, simp_all)
  have s: "unat (?x + ?y) = chan k a * chan 3 a + chan k b * below_alpha a b"
    using c by (subst unat_add_small) (simp_all only: x y, simp)
  let ?v = "ucast ((?x + ?y) div ucast (alphaA + alphaB')) :: u8"
  have "unat ((?x + ?y) div ucast (alphaA + alphaB') :: u32) = mix k a b" by (simp only: unat_div s u o mix_def)
  then have "unat ?v = mix k a b" using mix_less [OF a(3), of k b] by (simp add: unsigned_ucast_eq take_bit_nat_eq_self)
  moreover have "alphaA + alphaB' \<noteq> 0" using o a(3) by (metis add_gr_0 less_not_refl unat_0)
  ultimately show ?thesis by (simp add: blend_channel_def)
qed

lemma alphaBlendPixel_blend: "alphaBlendPixel a b = Some (blend a b)"
proof -
  let ?A = "ucast (drop_bit 24 a) :: u8" and ?B = "ucast (drop_bit 24 b) :: u8"
  have A: "unat ?A = chan 3 a" and B: "unat ?B = chan 3 b" by (rule unat_alpha)+
  have ff: "?A = 0xff \<longleftrightarrow> chan 3 a = 255" "?A = 0 \<longleftrightarrow> chan 3 a = 0" using A by (simp_all add: word_unat_eq_iff)
  show ?thesis
  proof (cases "chan 3 a = 255 \<or> chan 3 a = 0")
    case True
    then show ?thesis using ff by (auto simp: alphaBlendPixel_def blend_def)
  next
    case False
    let ?w = "drop_bit 8 (ucast ?B * (256 - ucast ?A) :: u32)" and ?B' = "ucast (drop_bit 8 (ucast ?B * (256 - ucast ?A) :: u32)) :: u8"
    have u: "unat (ucast w :: u32) = unat w" for w :: u8 using unat_bound [of w] by (simp add: unsigned_ucast_eq take_bit_nat_eq_self)
    have lt: "chan 3 a < 256" "chan 3 b < 256" by (rule chan_less)+
    have "unat (256 - ucast ?A :: u32) = 256 - chan 3 a" using lt(1) by (subst unat_sub) (simp_all add: word_le_nat_alt u A)
    moreover have "chan 3 b * (256 - chan 3 a) \<le> 255 * 256" using lt by (intro mult_le_mono) simp_all
    ultimately have "unat (ucast ?B * (256 - ucast ?A) :: u32) = chan 3 b * (256 - chan 3 a)"
      by (subst unat_mult_small) (simp_all only: u B, simp)
    then have "unat ?w = below_alpha a b" by (simp only: unat_drop_bit below_alpha_def) simp
    then have B': "unat ?B' = below_alpha a b" using alpha_sum [of a b] by (simp only: unsigned_ucast_eq) (simp add: take_bit_nat_eq_self)
    have pos: "0 < chan 3 a" using False by simp
    obtain r g v where c: "blend_channel a b 16 ?A ?B' (?A + ?B') = Some r" "unat r = mix 2 a b"
        "blend_channel a b 8 ?A ?B' (?A + ?B') = Some g" "unat g = mix 1 a b" "blend_channel a b 0 ?A ?B' (?A + ?B') = Some v" "unat v = mix 0 a b"
      using blend_channel_mix [OF A B' pos, of 2] blend_channel_mix [OF A B' pos, of 1] blend_channel_mix [OF A B' pos, of 0] by auto
    have o: "unat (?A + ?B') = chan 3 a + below_alpha a b" using alpha_sum [of a b] A B' by (subst unat_add_small) simp_all
    have "alphaBlendPixel a b = Some (push_bit 24 (ucast (?A + ?B')) OR push_bit 16 (ucast r) OR push_bit 8 (ucast g) OR ucast v)"
      using ff False c(1,3,5) unfolding alphaBlendPixel_def Let_def by simp
    then show ?thesis using False unfolding pack_channels o c(2,4,6) by (simp only: blend_def) simp
  qed
qed

section \<open>Copying\<close>

definition surface_ok :: "surface \<Rightarrow> bool" where
  "surface_ok s \<longleftrightarrow> proper (srect s) \<and> length (sbuff s) = nat (rwidth (srect s) * rheight (srect s)) \<and>
     rwidth (srect s) * rheight (srect s) < 2 ^ 31"

definition screen_ok :: "surface \<Rightarrow> bool" where
  "screen_ok s \<longleftrightarrow> surface_ok s \<and> rx (srect s) = 0 \<and> ry (srect s) = 0"

text \<open>The pixel of a surface at a point of the screen.\<close>

definition offset_in :: "rect \<Rightarrow> int \<times> int \<Rightarrow> int" where
  "offset_in r p = (snd p - ry r) * rwidth r + (fst p - rx r)"

definition pixel :: "surface \<Rightarrow> int \<times> int \<Rightarrow> u32" where
  "pixel s p = sbuff s ! nat (offset_in (srect s) p)"

lemma offset_in_bounds:
  assumes "p \<in> pixels r"
  shows "0 \<le> (snd p - ry r) * rwidth r" "0 \<le> offset_in r p" "offset_in r p < rwidth r * rheight r"
proof -
  have b: "0 \<le> snd p - ry r" "snd p - ry r \<le> rheight r - 1" "0 \<le> fst p - rx r" "fst p - rx r < rwidth r"
    using assms by (auto simp: pixels_def)
  then show 0: "0 \<le> (snd p - ry r) * rwidth r" by simp
  then show "0 \<le> offset_in r p" using b by (simp add: offset_in_def)
  have "(snd p - ry r) * rwidth r \<le> (rheight r - 1) * rwidth r" using b by (intro mult_right_mono) simp_all
  moreover have "(rheight r - 1) * rwidth r = rwidth r * rheight r - rwidth r" by (simp add: algebra_simps)
  ultimately show "offset_in r p < rwidth r * rheight r" using b(4) unfolding offset_in_def by linarith
qed

lemma offset_in_inj:
  assumes "p \<in> pixels r" "q \<in> pixels r" "offset_in r p = offset_in r q"
  shows "p = q"
proof -
  have w: "0 < rwidth r" and b: "0 \<le> fst p - rx r" "fst p - rx r < rwidth r" "0 \<le> fst q - rx r" "fst q - rx r < rwidth r"
    using assms by (auto simp: pixels_def)
  have "offset_in r p div rwidth r = snd p - ry r" "offset_in r q div rwidth r = snd q - ry r"
    using w b by (simp_all add: offset_in_def div_pos_pos_trivial)
  moreover have "offset_in r p mod rwidth r = fst p - rx r" "offset_in r q mod rwidth r = fst q - rx r"
    using b by (simp_all add: offset_in_def mod_pos_pos_trivial)
  ultimately show ?thesis using assms(3) by (intro prod_eqI) simp_all
qed

lemma pixel_index_ok:
  assumes "p \<in> pixels r" "rwidth r * rheight r < 2 ^ 31"
  shows "pixel_index (snd p - ry r) (rwidth r) (fst p - rx r) = Some (offset_in r p)"
proof -
  note b = offset_in_bounds [OF assms(1)]
  have "(snd p - ry r) * rwidth r \<le> offset_in r p" using assms(1) by (auto simp: offset_in_def pixels_def)
  then have "c_int ((snd p - ry r) * rwidth r) = Some ((snd p - ry r) * rwidth r)"
    using b assms(2) by (intro c_int_in) simp_all
  moreover have "c_int (offset_in r p) = Some (offset_in r p)" using b assms(2) by (intro c_int_in) simp_all
  ultimately show ?thesis by (simp add: pixel_index_def offset_in_def)
qed

lemma rdi_pixel: "surface_ok s \<Longrightarrow> p \<in> pixels (srect s) \<Longrightarrow> rdi (sbuff s) (offset_in (srect s) p) = Some (pixel s p)"
  using offset_in_bounds [of p "srect s"] by (simp add: surface_ok_def rdi_def pixel_def)

lemma int_for_rule:
  assumes "I lo s" "lo \<le> hi" "\<And>i t. lo \<le> i \<Longrightarrow> i < hi \<Longrightarrow> I i t \<Longrightarrow> \<exists>t'. body i t = Some t' \<and> I (i + 1) t'"
  shows "\<exists>t. int_for lo hi body s = Some t \<and> I hi t"
proof -
  have "\<exists>t. int_for lo hi body s = Some t \<and> I (lo + int (nat (hi - lo))) t"
    unfolding int_for_def
  proof (rule for_loop_rule [where I = "\<lambda>k t. I (lo + int k) t"])
    fix k t assume "k < nat (hi - lo)" "I (lo + int k) t"
    then show "\<exists>t'. body (lo + int k) t = Some t' \<and> I (lo + int (Suc k)) t'"
      using assms(3) [of "lo + int k" t] by (simp add: add.commute add.left_commute)
  qed (use assms(1) in simp_all)
  then show ?thesis using assms(2) by simp
qed

lemma int_for_empty: "hi \<le> lo \<Longrightarrow> int_for lo hi body s = Some s"
  by (simp add: int_for_def)

lemma small_inter: "small this \<Longrightarrow> small r \<Longrightarrow> small (inter this r)"
  using small_bounds [of r this] by (simp add: small_def inter_def mk_rect_def)

lemma restrictRect_inter:
  assumes "small this" "small r"
  shows "restrictRect this r = Some (inter this r)"
proof -
  let ?l = "max (rx r) (rx this)" and ?r = "min (rx r + rwidth r) (rx this + rwidth this)"
  let ?t = "max (ry r) (ry this)" and ?b = "min (ry r + rheight r) (ry this + rheight this)"
  have e: "\<bar>rx r + rwidth r\<bar> \<le> 0x10000000" "\<bar>ry r + rheight r\<bar> \<le> 0x10000000" using assms(2) by (simp_all add: small_def)
  let ?r1 = "r\<lparr>ry := ?t, rheight := ry r + rheight r - ?t\<rparr>"
  have s1: "small ?r1" by (rule small_y [OF assms(2) small_bounds(2) [OF assms(2,1)] e(2)])
  let ?r2 = "?r1\<lparr>rheight := ?b - ?t\<rparr>"
  have s2: "small ?r2" using small_h [OF s1 small_bounds(4) [OF assms(2,1)]] by simp
  let ?r3 = "?r2\<lparr>rx := ?l, rwidth := rx r + rwidth r - ?l\<rparr>"
  have s3: "small ?r3" by (rule small_x [OF s2 small_bounds(1) [OF assms(2,1)] e(1)])
  have "clip_top this r = Some ?r1" "clip_bottom this ?r1 = Some ?r2" "clip_left this ?r2 = Some ?r3"
    "clip_right this ?r3 = Some (?r3\<lparr>rwidth := ?r - ?l\<rparr>)"
    using clip_ok(3) [OF assms] clip_ok(4) [OF assms(1) s1] clip_ok(1) [OF assms(1) s2] clip_ok(2) [OF assms(1) s3]
    by simp_all
  then show ?thesis unfolding restrictRect_def by (simp add: inter_def mk_rect_def)
qed

text \<open>The double loop over a rectangle visits each of its pixels once.\<close>

lemma pixels_loop:
  assumes start: "I {} s"
    and step: "\<And>p S t. p \<in> pixels r \<Longrightarrow> p \<notin> S \<Longrightarrow> I S t \<Longrightarrow> \<exists>t'. body (snd p) (fst p) t = Some t' \<and> I (insert p S) t'"
  shows "\<exists>t. int_for (ry r) (ry r + rheight r) (\<lambda>i. int_for (rx r) (rx r + rwidth r) (body i)) s = Some t \<and> I (pixels r) t"
proof (cases "0 \<le> rwidth r \<and> 0 \<le> rheight r")
  case True
  let ?upto = "\<lambda>i j. {p \<in> pixels r. snd p < i \<or> snd p = i \<and> fst p < j}"
  have row: "\<exists>t'. int_for (rx r) (rx r + rwidth r) (body i) t = Some t' \<and> I (?upto i (rx r + rwidth r)) t'"
    if i: "ry r \<le> i" "i < ry r + rheight r" and t: "I (?upto i (rx r)) t" for i t
  proof (rule int_for_rule [where I = "\<lambda>j. I (?upto i j)", OF t])
    fix j t assume j: "rx r \<le> j" "j < rx r + rwidth r" and t: "I (?upto i j) t"
    have p: "(j, i) \<in> pixels r" using i j by (simp add: pixels_def)
    then have "?upto i (j + 1) = insert (j, i) (?upto i j)" by auto
    then show "\<exists>t'. body i j t = Some t' \<and> I (?upto i (j + 1)) t'" using step [OF p _ t] by simp
  qed (use True in simp)
  have e: "?upto i (rx r + rwidth r) = ?upto (i + 1) (rx r)" for i by (auto simp: pixels_def)
  have "\<exists>t. int_for (ry r) (ry r + rheight r) (\<lambda>i. int_for (rx r) (rx r + rwidth r) (body i)) s = Some t \<and>
      I (?upto (ry r + rheight r) (rx r)) t"
  proof (rule int_for_rule [where I = "\<lambda>i. I (?upto i (rx r))"])
    have "?upto (ry r) (rx r) = {}" by (auto simp: pixels_def)
    then show "I (?upto (ry r) (rx r)) s" using start by metis
  qed (use True row [unfolded e] in simp_all)
  moreover have "?upto (ry r + rheight r) (rx r) = pixels r" by (auto simp: pixels_def)
  ultimately show ?thesis by metis
next
  case False
  then have e: "pixels r = {}" by (auto simp: pixels_def)
  have "\<exists>t. int_for (ry r) (ry r + rheight r) (\<lambda>i. int_for (rx r) (rx r + rwidth r) (body i)) s = Some t \<and> t = s"
  proof (cases "0 \<le> rheight r")
    case True
    then have "int_for (rx r) (rx r + rwidth r) (body i) t = Some t" for i t using False by (intro int_for_empty) simp
    then show ?thesis by - (rule int_for_rule [where I = "\<lambda>i t. t = s"], use True in simp_all)
  next
    case False
    then have "int_for (ry r) (ry r + rheight r) (\<lambda>i. int_for (rx r) (rx r + rwidth r) (body i)) s = Some s"
      by (intro int_for_empty) simp
    then show ?thesis by simp
  qed
  then show ?thesis using start e by auto
qed

text \<open>
  Drawing on a screen: \<open>f\<close> of the old and the source's pixel inside the area, nothing elsewhere.
\<close>

lemma blit_with_ok:
  assumes d: "screen_ok dst" and s: "surface_ok src" and a: "small area"
    and put: "\<And>b k c. 0 \<le> k \<Longrightarrow> nat k < length b \<Longrightarrow> put b k c = Some (b[nat k := f (b ! nat k) c])"
  shows "\<exists>b. blit_with put dst src area = Some (dst\<lparr>sbuff := b\<rparr>) \<and> length b = length (sbuff dst) \<and>
    (\<forall>p \<in> pixels (srect dst). b ! nat (offset_in (srect dst) p) =
      (if p \<in> pixels area \<inter> pixels (srect src) then f (pixel dst p) (pixel src p) else pixel dst p))"
proof -
  let ?R = "srect dst" and ?S = "srect src"
  let ?D = "inter ?R (inter area ?S)"
  have sm: "small ?R" "small ?S" "rwidth ?R * rheight ?R < 2 ^ 31" "rwidth ?S * rheight ?S < 2 ^ 31" "rx ?R = 0" "ry ?R = 0"
    "length (sbuff dst) = nat (rwidth ?R * rheight ?R)"
    using d s by (simp_all add: screen_ok_def surface_ok_def proper_def)
  have D: "pixels ?D = pixels ?R \<inter> pixels area \<inter> pixels ?S" by (auto simp: pixels_inter)
  have sD: "small ?D" using sm a by (intro small_inter)
  let ?body = "\<lambda>i j b. do { dy \<leftarrow> c_int (i - ry ?S); dx \<leftarrow> c_int (j - rx ?S); k \<leftarrow> pixel_index dy (rwidth ?S) dx;
    c \<leftarrow> rdi (sbuff src) k; e \<leftarrow> pixel_index i (rwidth ?R) j; put b e c }"
  let ?new = "\<lambda>S b. length b = length (sbuff dst) \<and> (\<forall>p \<in> pixels ?R. b ! nat (offset_in ?R p) =
      (if p \<in> S then f (pixel dst p) (pixel src p) else pixel dst p))"
  have "\<exists>b. int_for (ry ?D) (ry ?D + rheight ?D) (\<lambda>i. int_for (rx ?D) (rx ?D + rwidth ?D) (?body i)) (sbuff dst) = Some b \<and> ?new (pixels ?D) b"
  proof (rule pixels_loop)
    fix p S b assume p: "p \<in> pixels ?D" "p \<notin> S" and b: "?new S b"
    have inS: "p \<in> pixels ?S" and inR: "p \<in> pixels ?R" using p(1) D by blast+
    have "c_int (snd p - ry ?S) = Some (snd p - ry ?S)" "c_int (fst p - rx ?S) = Some (fst p - rx ?S)"
      using inS sm(2) by (auto simp: small_def pixels_def intro!: c_int_small)
    moreover have "pixel_index (snd p) (rwidth ?R) (fst p) = Some (offset_in ?R p)" using pixel_index_ok [OF inR sm(3)] sm(5,6) by simp
    moreover have k: "0 \<le> offset_in ?R p" "nat (offset_in ?R p) < length b"
      using offset_in_bounds(2,3) [OF inR] b sm(7) by simp_all
    ultimately have e: "?body (snd p) (fst p) b = Some (b[nat (offset_in ?R p) := f (pixel dst p) (pixel src p)])"
      using rdi_pixel [OF s inS] pixel_index_ok [OF inS sm(4)] put [OF k] b inR p(2) by simp
    have "nat (offset_in ?R p) \<noteq> nat (offset_in ?R q)" if "q \<in> pixels ?R" "q \<noteq> p" for q
      using offset_in_inj [OF that(1) inR] offset_in_bounds(2) [OF that(1)] k(1) that(2) by (auto simp: eq_nat_nat_iff)
    then have "?new (insert p S) (b[nat (offset_in ?R p) := f (pixel dst p) (pixel src p)])"
      using b k(2) by (auto simp: nth_list_update)
    then show "\<exists>b'. ?body (snd p) (fst p) b = Some b' \<and> ?new (insert p S) b'" using e by blast
  qed (simp add: pixel_def)
  then obtain b where b: "int_for (ry ?D) (ry ?D + rheight ?D) (\<lambda>i. int_for (rx ?D) (rx ?D + rwidth ?D) (?body i)) (sbuff dst) = Some b"
      "?new (pixels ?D) b" by blast
  have "copy_rect ?S = ?S" by (simp add: copy_rect_def mk_rect_def rect_gets)
  then have "blit_with put dst src area = Some (dst\<lparr>sbuff := b\<rparr>)"
    using restrictRect_inter [OF a sm(2)] restrictRect_inter [OF sm(1) small_inter [OF a sm(2)]] sD b(1)
    by (simp add: blit_with_def Let_def rect_gets)
  moreover have "p \<in> pixels ?D \<longleftrightarrow> p \<in> pixels area \<inter> pixels ?S" if "p \<in> pixels ?R" for p using that D by auto
  ultimately show ?thesis using b(2) by auto
qed

text \<open>\<open>drawn f src area dst dst'\<close>: the surface after drawing another one onto it.\<close>

definition drawn :: "(u32 \<Rightarrow> u32 \<Rightarrow> u32) \<Rightarrow> surface \<Rightarrow> rect \<Rightarrow> surface \<Rightarrow> surface \<Rightarrow> bool" where
  "drawn f src area dst dst' \<longleftrightarrow> screen_ok dst' \<and> srect dst' = srect dst \<and>
     (\<forall>p \<in> pixels (srect dst). pixel dst' p = (if p \<in> pixels area \<inter> pixels (srect src) then f (pixel dst p) (pixel src p) else pixel dst p))"

lemma blit_with_drawn:
  assumes d: "screen_ok dst" and s: "surface_ok src" and a: "small area"
    and put: "\<And>b k c. 0 \<le> k \<Longrightarrow> nat k < length b \<Longrightarrow> put b k c = Some (b[nat k := f (b ! nat k) c])"
  shows "\<exists>dst'. blit_with put dst src area = Some dst' \<and> drawn f src area dst dst'"
proof -
  obtain b where b: "blit_with put dst src area = Some (dst\<lparr>sbuff := b\<rparr>)" "length b = length (sbuff dst)"
      "\<forall>p \<in> pixels (srect dst). b ! nat (offset_in (srect dst) p) =
        (if p \<in> pixels area \<inter> pixels (srect src) then f (pixel dst p) (pixel src p) else pixel dst p)"
    using blit_with_ok [OF d s a, of put f] put by blast
  then have "drawn f src area dst (dst\<lparr>sbuff := b\<rparr>)"
    using d by (simp add: drawn_def screen_ok_def surface_ok_def pixel_def)
  then show ?thesis using b(1) by blast
qed

lemma blit_drawn:
  assumes "screen_ok dst" "surface_ok src" "small area"
  shows "\<exists>dst'. blit dst src area = Some dst' \<and> drawn (\<lambda>p c. c) src area dst dst'"
  unfolding blit_def using assms by (intro blit_with_drawn) (simp_all add: wri_def)

lemma alphaBlit_drawn:
  assumes "screen_ok dst" "surface_ok src" "small area"
  shows "\<exists>dst'. alphaBlit dst src area = Some dst' \<and> drawn blend src area dst dst'"
  unfolding alphaBlit_def using assms by (intro blit_with_drawn) (simp_all add: wri_def rdi_def alphaBlendPixel_blend)

end
