(* ===== verification/Window.thy ===== *)
theory Window
  imports Surface Flibc_String
begin

text \<open>
  The windows of the window system, \<open>src/libGUI/Window.cpp\<close>: objects that refer to each other, here a
  store of records addressed by numbers. A window keeps its children in an array ordered by priority,
  each knowing its position and its parent. The specification of a window's children is a list;
  appending, removing and raising a child are operations on it.
\<close>

section \<open>Definitions\<close>

record window =
  windowName :: "cbuf option"
  windowID :: int
  flags :: u32
  surf :: surface
  color :: u32
  priority :: int
  parent :: "nat option"
  windows :: "nat option list"
  numWindows :: nat
  maxWindows :: nat
  winPrevRect :: rect
  hoverWindow :: "nat option"
  selectedWindow :: "nat option"

type_synonym gui = "nat \<Rightarrow> window option"

definition WINDOW_MAX :: nat where "WINDOW_MAX = 20"

abbreviation (input) "WindowFlags_Decoration \<equiv> 0x01 :: u32"
abbreviation (input) "WindowFlags_Transparent \<equiv> 0x08 :: u32"
abbreviation (input) "WindowFlags_Invisible \<equiv> 0x10 :: u32"
abbreviation (input) "WindowFlags_Dirty \<equiv> 0x20 :: u32"

definition upd_win :: "nat \<Rightarrow> (window \<Rightarrow> window) \<Rightarrow> gui \<Rightarrow> gui option" where
  "upd_win i f g = do { w \<leftarrow> g i; Some (g(i \<mapsto> f w)) }"

definition getFlag :: "u32 \<Rightarrow> window \<Rightarrow> bool" where "getFlag field w \<longleftrightarrow> flags w AND field \<noteq> 0"
definition setFlags :: "u32 \<Rightarrow> window \<Rightarrow> window" where "setFlags fl w = w\<lparr>flags := flags w OR fl\<rparr>"
definition resetFlags :: "u32 \<Rightarrow> window \<Rightarrow> window" where "resetFlags fl w = w\<lparr>flags := flags w AND (0xffffffff XOR fl)\<rparr>"
definition setWindowID :: "int \<Rightarrow> window \<Rightarrow> window" where "setWindowID i w = w\<lparr>windowID := i\<rparr>"
definition updatePrevRect :: "window \<Rightarrow> window" where
  "updatePrevRect w = w\<lparr>winPrevRect := assign_rect (srect (surf w)) (winPrevRect w)\<rparr>"
definition win_setX :: "int \<Rightarrow> window \<Rightarrow> window" where "win_setX x w = w\<lparr>surf := (surf w)\<lparr>srect := setX x (srect (surf w))\<rparr>\<rparr>"
definition win_setY :: "int \<Rightarrow> window \<Rightarrow> window" where "win_setY y w = w\<lparr>surf := (surf w)\<lparr>srect := setY y (srect (surf w))\<rparr>\<rparr>"

definition isCoordInBounds :: "int \<Rightarrow> int \<Rightarrow> window \<Rightarrow> bool option" where
  "isCoordInBounds x y w = (let r = srect (surf w) in
     if \<not> x \<ge> getX r then Some False
     else do {
       right \<leftarrow> c_int (getX r + getWidth r);
       if \<not> (x \<le> right \<and> y \<ge> getY r) then Some False
       else do {
         bottom \<leftarrow> c_int (getY r + getHeight r);
         Some (y \<le> bottom) } })"

text \<open>The three ways to fill the buffer of a window.\<close>

definition load_with :: "(nat \<Rightarrow> u32 option) \<Rightarrow> window \<Rightarrow> window option" where
  "load_with f w = do {
     buffSize \<leftarrow> getSize (surf w);
     b \<leftarrow> for_loop 0 (unat buffSize) (\<lambda>i b. do { c \<leftarrow> f i; wr b i c }) (sbuff (surf w));
     Some (w\<lparr>surf := (surf w)\<lparr>sbuff := b\<rparr>\<rparr>) }"

definition loadBuff :: "u32 list \<Rightarrow> window \<Rightarrow> window option" where
  "loadBuff buff = load_with (rd buff)"

definition loadBuff_color :: "u32 \<Rightarrow> window \<Rightarrow> window option" where
  "loadBuff_color c = load_with (\<lambda>i. Some c)"

definition loadTransparentColor :: "u32 \<Rightarrow> window \<Rightarrow> window option" where
  "loadTransparentColor c w = do {
     w \<leftarrow> load_with (\<lambda>i. Some (0x80000000 OR (0xffffff AND c))) w;
     Some (setFlags WindowFlags_Transparent w) }"

text \<open>
  The part of \<open>initialize\<close> every window goes through: \<open>name\<close> is the buffer the first argument points
  to, \<open>str\<close> and \<open>block\<close> are the buffers \<open>new\<close> returned. What it then adds to decorated windows, which
  are children of other classes, is not modelled.
\<close>

definition init_name :: "cbuf option \<Rightarrow> cbuf \<Rightarrow> cbuf option option" where
  "init_name name str = (case name of None \<Rightarrow> Some None
     | Some n \<Rightarrow> do {
         len \<leftarrow> strlen n 0;
         s \<leftarrow> memcpy str 0 n 0 len;
         s \<leftarrow> wr s len 0;
         Some (Some s) })"

definition init_window :: "cbuf option \<Rightarrow> cbuf \<Rightarrow> u32 list \<Rightarrow> int \<Rightarrow> int \<Rightarrow> int \<Rightarrow> int \<Rightarrow> u32 \<Rightarrow> int \<Rightarrow> window option" where
  "init_window name str block x y width height fl pr = do {
     n \<leftarrow> init_name name str;
     let s = \<lparr>srect = mk_rect x y width height, sbuff = block\<rparr>;
     w \<leftarrow> loadBuff_color 0xff333333 \<lparr>windowName = n, windowID = -1, flags = fl, surf = s, color = 0xff333333, priority = pr, parent = None,
       windows = replicate WINDOW_MAX None, numWindows = 0, maxWindows = WINDOW_MAX, winPrevRect = srect s, hoverWindow = None, selectedWindow = None\<rparr>;
     Some (w\<lparr>winPrevRect := copy_rect (srect (surf w))\<rparr>) }"

subsection \<open>The children\<close>

definition child_at :: "nat \<Rightarrow> nat \<Rightarrow> gui \<Rightarrow> nat option" where
  "child_at this i g = do { t \<leftarrow> g this; c \<leftarrow> rd (windows t) i; c }"

text \<open>The loop that searches the place of a new child from the top, with \<open>k - 1\<close> the next index.\<close>

fun find_index :: "nat \<Rightarrow> int \<Rightarrow> nat \<Rightarrow> gui \<Rightarrow> nat option" where
  "find_index this pr 0 g = Some 0"
| "find_index this pr (Suc i) g = do {
     c \<leftarrow> child_at this i g;
     w \<leftarrow> g c;
     if pr \<ge> priority w then Some (Suc i) else find_index this pr i g }"

fun shift_up :: "nat \<Rightarrow> nat \<Rightarrow> nat \<Rightarrow> gui \<Rightarrow> gui option" where
  "shift_up this ins 0 g = Some g"
| "shift_up this ins (Suc i) g =
     (if i < ins then Some g
      else do {
        t \<leftarrow> g this;
        c \<leftarrow> rd (windows t) i;
        ws \<leftarrow> wr (windows t) (i + 1) c;
        g \<leftarrow> upd_win this (\<lambda>t. t\<lparr>windows := ws\<rparr>) g;
        c \<leftarrow> c;
        g \<leftarrow> upd_win c (setWindowID (int i + 1)) g;
        shift_up this ins i g })"

definition appendWindow :: "nat \<Rightarrow> nat option \<Rightarrow> gui \<Rightarrow> (nat option \<times> gui) option" where
  "appendWindow this win g = do {
     t \<leftarrow> g this;
     case win of None \<Rightarrow> Some (None, g)
     | Some w \<Rightarrow>
       if numWindows t = maxWindows t then Some (None, g)
       else do {
         ww \<leftarrow> g w;
         insertIndex \<leftarrow> find_index this (priority ww) (numWindows t) g;
         g \<leftarrow> shift_up this insertIndex (numWindows t) g;
         t \<leftarrow> g this;
         ws \<leftarrow> wr (windows t) insertIndex (Some w);
         g \<leftarrow> upd_win this (\<lambda>t. t\<lparr>windows := ws\<rparr>) g;
         g \<leftarrow> upd_win w (setWindowID (int insertIndex)) g;
         g \<leftarrow> upd_win w (\<lambda>x. x\<lparr>parent := Some this\<rparr>) g;
         g \<leftarrow> upd_win this (\<lambda>t. t\<lparr>numWindows := numWindows t + 1\<rparr>) g;
         Some (Some w, g) } }"

definition removeWindow :: "nat \<Rightarrow> int \<Rightarrow> gui \<Rightarrow> (nat option \<times> gui) option" where
  "removeWindow this deleteIndex g = do {
     t \<leftarrow> g this;
     if deleteIndex < 0 \<or> deleteIndex \<ge> int (numWindows t) then Some (None, g)
     else do {
       w \<leftarrow> child_at this (nat deleteIndex) g;
       g \<leftarrow> for_loop (nat deleteIndex) (numWindows t - 1) (\<lambda>i g. do {
         t \<leftarrow> g this;
         c \<leftarrow> rd (windows t) (i + 1);
         ws \<leftarrow> wr (windows t) i c;
         g \<leftarrow> upd_win this (\<lambda>t. t\<lparr>windows := ws\<rparr>) g;
         c \<leftarrow> c;
         upd_win c (setWindowID (int i)) g }) g;
       g \<leftarrow> upd_win this (\<lambda>t. t\<lparr>numWindows := numWindows t - 1\<rparr>) g;
       g \<leftarrow> upd_win w (\<lambda>x. x\<lparr>parent := None\<rparr>) g;
       Some (Some w, g) } }"

definition removeWindow_ptr :: "nat \<Rightarrow> nat option \<Rightarrow> gui \<Rightarrow> (nat option \<times> gui) option" where
  "removeWindow_ptr this win g =
     (case win of None \<Rightarrow> Some (None, g) | Some w \<Rightarrow> do { x \<leftarrow> g w; removeWindow this (windowID x) g })"

definition moveToTop :: "nat \<Rightarrow> nat \<Rightarrow> gui \<Rightarrow> (bool \<times> gui) option" where
  "moveToTop this child g = do {
     t \<leftarrow> g this;
     cw \<leftarrow> g child;
     x \<leftarrow> rdi (windows t) (windowID cw);
     if Some child \<noteq> x then Some (False, g)
     else do {
       let oldWindowID = windowID cw;
       (r, g) \<leftarrow> removeWindow_ptr this (Some child) g;
       (win, g) \<leftarrow> appendWindow this (Some child) g;
       win \<leftarrow> win;
       ww \<leftarrow> g win;
       g \<leftarrow> (if windowID ww \<noteq> oldWindowID then upd_win this (setFlags WindowFlags_Dirty) g else Some g);
       Some (True, g) } }"

text \<open>The topmost child that contains a point, with \<open>k - 1\<close> the next index.\<close>

fun under_mouse :: "nat \<Rightarrow> int \<Rightarrow> int \<Rightarrow> nat \<Rightarrow> gui \<Rightarrow> nat option option" where
  "under_mouse this x y 0 g = Some None"
| "under_mouse this x y (Suc i) g = do {
     c \<leftarrow> child_at this i g;
     w \<leftarrow> g c;
     b \<leftarrow> isCoordInBounds x y w;
     if b then Some (Some c) else under_mouse this x y i g }"

definition getWindowUnderMouse :: "nat \<Rightarrow> nat \<Rightarrow> gui \<Rightarrow> nat option option" where
  "getWindowUnderMouse this mouse g = do {
     t \<leftarrow> g this;
     m \<leftarrow> g mouse;
     under_mouse this (getX (srect (surf m))) (getY (srect (surf m))) (numWindows t) g }"

section \<open>The list of children\<close>

definition prio :: "gui \<Rightarrow> nat \<Rightarrow> int" where
  "prio g c = (case g c of Some w \<Rightarrow> priority w | None \<Rightarrow> 0)"

definition stack :: "gui \<Rightarrow> nat \<Rightarrow> nat list \<Rightarrow> bool" where
  "stack g this cs \<longleftrightarrow> (\<exists>t. g this = Some t \<and> length (windows t) = maxWindows t \<and> numWindows t = length cs \<and> length cs \<le> maxWindows t \<and>
       take (length cs) (windows t) = map Some cs) \<and> distinct cs \<and> this \<notin> set cs \<and>
     (\<forall>i<length cs. \<exists>w. g (cs ! i) = Some w \<and> windowID w = int i \<and> parent w = Some this) \<and> sorted (map (prio g) cs)"

text \<open>What the operations on children keep of every window.\<close>

definition same_looks :: "gui \<Rightarrow> gui \<Rightarrow> bool" where
  "same_looks g g' \<longleftrightarrow> (\<forall>i. map_option (\<lambda>w. (flags w, surf w, priority w, winPrevRect w, maxWindows w)) (g i) =
     map_option (\<lambda>w. (flags w, surf w, priority w, winPrevRect w, maxWindows w)) (g' i))"

lemma same_looks_prio: "same_looks g g' \<Longrightarrow> prio g' = prio g"
proof
  fix c assume "same_looks g g'"
  then have "map_option (\<lambda>w. (flags w, surf w, priority w, winPrevRect w, maxWindows w)) (g c) =
      map_option (\<lambda>w. (flags w, surf w, priority w, winPrevRect w, maxWindows w)) (g' c)" by (simp add: same_looks_def)
  then show "prio g' c = prio g c" by (auto simp: prio_def split: option.splits)
qed

lemma same_looks_trans: "same_looks g g' \<Longrightarrow> same_looks g' g'' \<Longrightarrow> same_looks g g''"
  by (simp add: same_looks_def)

lemma child_at_nth: "g this = Some t \<Longrightarrow> take (length cs) (windows t) = map Some cs \<Longrightarrow> i < length cs \<Longrightarrow> child_at this i g = Some (cs ! i)"
  by (metis (no_types, lifting) bind.bind_lunit child_at_def length_map length_take min_less_iff_conj nth_map nth_take rd_in)

definition upto_prio :: "gui \<Rightarrow> int \<Rightarrow> nat list \<Rightarrow> nat" where
  "upto_prio g p cs = length (takeWhile (\<lambda>c. prio g c \<le> p) cs)"

lemma upto_prio_le: "upto_prio g p cs \<le> length cs"
  by (simp add: upto_prio_def length_takeWhile_le)

lemma sorted_upto_prio:
  assumes "sorted (map (prio g) cs)" "i < length cs"
  shows "prio g (cs ! i) \<le> p \<longleftrightarrow> i < upto_prio g p cs"
proof
  assume "i < upto_prio g p cs"
  then show "prio g (cs ! i) \<le> p" unfolding upto_prio_def by (metis (mono_tags, lifting) nth_mem set_takeWhileD takeWhile_nth)
next
  assume le: "prio g (cs ! i) \<le> p"
  show "i < upto_prio g p cs"
  proof (rule ccontr)
    assume "\<not> i < upto_prio g p cs"
    moreover from this have "upto_prio g p cs < length cs" using assms(2) by simp
    then have "\<not> prio g (cs ! upto_prio g p cs) \<le> p" unfolding upto_prio_def by (rule nth_length_takeWhile)
    moreover have "prio g (cs ! upto_prio g p cs) \<le> prio g (cs ! i)"
      using assms \<open>\<not> i < upto_prio g p cs\<close> sorted_nth_mono [OF assms(1), of "upto_prio g p cs" i] by simp
    ultimately show False using le by simp
  qed
qed

lemma find_index_upto:
  assumes s: "stack g this cs" and k: "upto_prio g p cs \<le> k" "k \<le> length cs"
  shows "find_index this p k g = Some (upto_prio g p cs)"
  using k
proof (induction k)
  case 0
  then show ?case by simp
next
  case (Suc i)
  obtain t where t: "g this = Some t" "take (length cs) (windows t) = map Some cs" using s by (auto simp: stack_def)
  obtain w where w: "g (cs ! i) = Some w" using s Suc_le_lessD [OF Suc.prems(2)] unfolding stack_def by blast
  have "prio g (cs ! i) = priority w" using w by (simp add: prio_def)
  then have "p \<ge> priority w \<longleftrightarrow> i < upto_prio g p cs"
    using sorted_upto_prio [of g cs i p] s Suc.prems(2) by (simp add: stack_def)
  then show ?case using Suc child_at_nth [of g this t cs i, OF t] w by (auto simp: not_less le_Suc_eq)
qed

lemma shift_up_ok:
  assumes "g this = Some t" "k < length (windows t)" "k \<le> length cs" "take k (windows t) = map Some (take k cs)"
    and "ins \<le> k" "distinct cs" "this \<notin> set cs" "\<forall>j<k. g (cs ! j) \<noteq> None"
  shows "\<exists>g'. shift_up this ins k g = Some g' \<and>
    g' this = Some (t\<lparr>windows := take ins (windows t) @ windows t ! ins # map Some (drop ins (take k cs)) @ drop (Suc k) (windows t)\<rparr>) \<and>
    (\<forall>j. ins \<le> j \<and> j < k \<longrightarrow> g' (cs ! j) = map_option (setWindowID (int j + 1)) (g (cs ! j))) \<and>
    (\<forall>x. x \<noteq> this \<and> x \<notin> set (drop ins (take k cs)) \<longrightarrow> g' x = g x)"
  using assms
proof (induction k arbitrary: g t)
  case 0
  then have "windows t = windows t ! 0 # drop (Suc 0) (windows t)" by (metis Cons_nth_drop_Suc drop_0)
  then show ?case using 0 by (cases t) auto
next
  case (Suc i)
  show ?case
  proof (cases "i < ins")
    case True
    then have i: "ins = Suc i" using Suc.prems(5) by simp
    have "take ins (windows t) @ windows t ! ins # drop (Suc ins) (windows t) = windows t" using Suc.prems(2) i by (metis id_take_nth_drop)
    then show ?thesis using Suc.prems(1) i by (cases t) auto
  next
    case False
    have len: "i < length (windows t)" "Suc i < length (windows t)" "i < length cs" using Suc.prems(2,3) by simp_all
    have wi: "windows t ! i = Some (cs ! i)" using arg_cong [OF Suc.prems(4), of "\<lambda>xs. xs ! i"] len by simp
    obtain w where w: "g (cs ! i) = Some w" using Suc.prems(8) by blast
    have ne: "cs ! i \<noteq> this" using Suc.prems(7) len(3) by (metis nth_mem)
    let ?t = "t\<lparr>windows := (windows t)[i + 1 := Some (cs ! i)]\<rparr>"
    let ?g = "g(this \<mapsto> ?t, cs ! i \<mapsto> setWindowID (int i + 1) w)"
    have step: "shift_up this ins (Suc i) g = shift_up this ins i ?g"
      using False Suc.prems(1) len wi w ne by (simp add: upd_win_def)
    have other: "cs ! j \<noteq> cs ! i" if "j < i" for j using Suc.prems(6) len(3) that by (simp add: nth_eq_iff_index_eq)
    have "take i (windows ?t) = map Some (take i cs)" using arg_cong [OF Suc.prems(4), of "take i"] by (simp add: take_map)
    then obtain g' where g': "shift_up this ins i ?g = Some g'"
        "g' this = Some (?t\<lparr>windows := take ins (windows ?t) @ windows ?t ! ins # map Some (drop ins (take i cs)) @ drop (Suc i) (windows ?t)\<rparr>)"
        "\<forall>j. ins \<le> j \<and> j < i \<longrightarrow> g' (cs ! j) = map_option (setWindowID (int j + 1)) (?g (cs ! j))"
        "\<forall>x. x \<noteq> this \<and> x \<notin> set (drop ins (take i cs)) \<longrightarrow> g' x = ?g x"
      using Suc.IH [of ?g ?t] Suc.prems ne len False by fastforce
    have d: "drop ins (take (Suc i) cs) = drop ins (take i cs) @ [cs ! i]" using len(3) False by (simp add: take_Suc_snoc)
    have "distinct (take (Suc i) cs)" using Suc.prems(6) by simp
    then have notin: "cs ! i \<notin> set (drop ins (take i cs))" using len(3) by (auto simp: take_Suc_snoc dest: in_set_dropD)
    have "drop (Suc i) (windows ?t) = Some (cs ! i) # drop (Suc (Suc i)) (windows t)" "take ins (windows ?t) = take ins (windows t)"
      "windows ?t ! ins = windows t ! ins"
      using len False by (simp_all add: drop_Cons_nth)
    then have "g' this = Some (t\<lparr>windows := take ins (windows t) @ windows t ! ins # map Some (drop ins (take (Suc i) cs)) @ drop (Suc (Suc i)) (windows t)\<rparr>)"
      using g'(2) d by simp
    moreover have "g' (cs ! j) = map_option (setWindowID (int j + 1)) (g (cs ! j))" if "ins \<le> j" "j < Suc i" for j
    proof (cases "j = i")
      case True
      then show ?thesis using g'(4) notin ne w by simp
    next
      case False
      then have "j < i" using that(2) by simp
      moreover have "cs ! j \<noteq> this" using Suc.prems(7) len(3) \<open>j < i\<close> by (metis nth_mem less_trans)
      ultimately show ?thesis using g'(3) that(1) other [of j] by simp
    qed
    ultimately show ?thesis using step g'(1,4) d by auto
  qed
qed

definition insert_win :: "gui \<Rightarrow> nat \<Rightarrow> nat list \<Rightarrow> nat list" where
  "insert_win g w cs = takeWhile (\<lambda>c. prio g c \<le> prio g w) cs @ w # dropWhile (\<lambda>c. prio g c \<le> prio g w) cs"

lemma insert_win_upto:
  "insert_win g w cs = take (upto_prio g (prio g w) cs) cs @ w # drop (upto_prio g (prio g w) cs) cs"
  by (simp add: insert_win_def upto_prio_def takeWhile_eq_take dropWhile_eq_drop flip: takeWhile_eq_take)

lemma insert_win_nth:
  "insert_win g w cs ! upto_prio g (prio g w) cs = w" "upto_prio g (prio g w) cs < length (insert_win g w cs)"
  using upto_prio_le [of g "prio g w" cs] by (simp_all add: insert_win_upto nth_append)

lemma sorted_insert_win:
  assumes "sorted (map (prio g) cs)"
  shows "sorted (map (prio g) (insert_win g w cs))"
proof -
  let ?P = "\<lambda>c. prio g c \<le> prio g w"
  have "sorted (map (prio g) (takeWhile ?P cs @ dropWhile ?P cs))" using assms by simp
  then have s: "sorted (map (prio g) (takeWhile ?P cs))" "sorted (map (prio g) (dropWhile ?P cs))" by (simp_all add: sorted_append del: takeWhile_dropWhile_id)
  have "prio g w \<le> prio g c" if c: "c \<in> set (dropWhile ?P cs)" for c
  proof -
    obtain d ds where d: "dropWhile ?P cs = d # ds" using c by (cases "dropWhile ?P cs") auto
    then have "\<not> ?P d" by (simp add: dropWhile_eq_Cons_conv)
    moreover have "prio g d \<le> prio g c" using s(2) c d by auto
    ultimately show ?thesis by simp
  qed
  moreover have "prio g c \<le> prio g w" if "c \<in> set (takeWhile ?P cs)" for c using that by (auto dest: set_takeWhileD)
  ultimately show ?thesis using s by (force simp: insert_win_def sorted_append)
qed

text \<open>Appending a window puts it above all children whose priority is not higher.\<close>

lemma appendWindow_ok:
  assumes s: "stack g this cs" and t: "g this = Some t" and room: "length cs < maxWindows t"
    and w: "g w = Some ww" "w \<noteq> this" "w \<notin> set cs"
  shows "\<exists>g'. appendWindow this (Some w) g = Some (Some w, g') \<and> stack g' this (insert_win g w cs) \<and> same_looks g g'"
proof -
  let ?k = "upto_prio g (prio g w) cs" and ?n = "length cs"
  have t': "length (windows t) = maxWindows t" "numWindows t = ?n" "take ?n (windows t) = map Some cs" "distinct cs" "this \<notin> set cs"
    and ch: "\<And>i. i < ?n \<Longrightarrow> \<exists>x. g (cs ! i) = Some x \<and> windowID x = int i \<and> parent x = Some this"
    and so: "sorted (map (prio g) cs)"
    using s t by (auto simp: stack_def)
  have k: "?k \<le> ?n" by (rule upto_prio_le)
  obtain g1 where g1: "shift_up this ?k ?n g = Some g1"
      "g1 this = Some (t\<lparr>windows := take ?k (windows t) @ windows t ! ?k # map Some (drop ?k cs) @ drop (Suc ?n) (windows t)\<rparr>)"
      "\<And>j. ?k \<le> j \<Longrightarrow> j < ?n \<Longrightarrow> g1 (cs ! j) = map_option (setWindowID (int j + 1)) (g (cs ! j))"
      "\<And>x. x \<noteq> this \<Longrightarrow> x \<notin> set (drop ?k cs) \<Longrightarrow> g1 x = g x"
    using shift_up_ok [of g this t ?n cs ?k] t t' room k ch by fastforce
  have gw: "g1 w = Some ww" using g1(4) w by (metis in_set_dropD)
  let ?ws = "take ?k (windows t) @ Some w # map Some (drop ?k cs) @ drop (Suc ?n) (windows t)"
  let ?w' = "ww\<lparr>windowID := int ?k, parent := Some this\<rparr>"
  let ?t' = "t\<lparr>windows := ?ws, numWindows := ?n + 1\<rparr>"
  let ?g' = "g1(this \<mapsto> ?t', w \<mapsto> ?w')"
  have "find_index this (priority ww) (numWindows t) g = Some ?k"
    using find_index_upto [OF s, of "prio g w" ?n] k w(1) t'(2) by (simp add: prio_def)
  then have app: "appendWindow this (Some w) g = Some (Some w, ?g')"
    using t t'(1,2) room w g1(1,2) gw k by (simp add: appendWindow_def upd_win_def setWindowID_def fun_upd_twist list_update_append)
  have tk: "take ?k (windows t) = map Some (take ?k cs)" using arg_cong [OF t'(3), of "take ?k"] k by (simp add: take_map min_def)
  have looks: "same_looks g ?g'"
    unfolding same_looks_def
  proof
    fix i
    consider "i = this" | "i = w" | "i \<in> set (drop ?k cs)" "i \<noteq> this" "i \<noteq> w" | "i \<notin> set (drop ?k cs)" "i \<noteq> this" "i \<noteq> w" by blast
    then show "map_option (\<lambda>w. (flags w, surf w, priority w, winPrevRect w, maxWindows w)) (g i) =
        map_option (\<lambda>w. (flags w, surf w, priority w, winPrevRect w, maxWindows w)) (?g' i)"
    proof cases
      case 3
      then obtain j where "i = cs ! j" "?k \<le> j" "j < ?n" by (metis in_set_conv_nth le_add1 length_drop less_diff_conv nth_drop add.commute k)
      then show ?thesis using g1(3) 3 ch [of j] by (auto simp: setWindowID_def)
    qed (use t w g1(4) in auto)
  qed
  have "stack ?g' this (insert_win g w cs)"
    unfolding stack_def
  proof (intro conjI)
    have l: "length (insert_win g w cs) = ?n + 1" using k by (simp add: insert_win_upto)
    have "take (?n + 1) ?ws = map Some (insert_win g w cs)" using k tk t'(1) room by (simp add: insert_win_upto take_Cons')
    then show "\<exists>t. ?g' this = Some t \<and> length (windows t) = maxWindows t \<and> numWindows t = length (insert_win g w cs) \<and>
        length (insert_win g w cs) \<le> maxWindows t \<and> take (length (insert_win g w cs)) (windows t) = map Some (insert_win g w cs)"
      using w(2) room t'(1) k l by simp
    show "distinct (insert_win g w cs)" "this \<notin> set (insert_win g w cs)"
      using t'(4,5) w(2,3) by (auto simp: insert_win_upto set_take_disj_set_drop_if_distinct dest: in_set_takeD in_set_dropD)
    show "sorted (map (prio ?g') (insert_win g w cs))"
      using sorted_insert_win [OF so] same_looks_prio [OF looks] by simp
    show "\<forall>i<length (insert_win g w cs). \<exists>x. ?g' (insert_win g w cs ! i) = Some x \<and> windowID x = int i \<and> parent x = Some this"
    proof (intro allI impI)
      fix i assume i: "i < length (insert_win g w cs)"
      consider "i < ?k" | "i = ?k" | j where "i = Suc j" "?k \<le> j" "j < ?n" using i l by (cases i) fastforce+
      then show "\<exists>x. ?g' (insert_win g w cs ! i) = Some x \<and> windowID x = int i \<and> parent x = Some this"
      proof cases
        case 1
        then have e: "insert_win g w cs ! i = cs ! i" using k by (simp add: insert_win_upto nth_append)
        have "cs ! i \<notin> set (drop ?k cs)" using t'(4) 1 k
          by (metis disjoint_iff in_set_conv_nth length_take min.absorb2 nth_take set_take_disj_set_drop_if_distinct order_refl)
        moreover have "cs ! i \<noteq> this" "cs ! i \<noteq> w" using t'(5) w(3) 1 k by (metis nth_mem less_le_trans)+
        ultimately show ?thesis using e g1(4) ch [of i] 1 k by simp
      next
        case 2
        then show ?thesis using k by (simp add: insert_win_upto nth_append)
      next
        case 3
        then have e: "insert_win g w cs ! i = cs ! j" using k by (simp add: insert_win_upto nth_append Suc_diff_le)
        have "cs ! j \<noteq> this" "cs ! j \<noteq> w" using t'(5) w(3) 3(3) by (metis nth_mem)+
        then show ?thesis using e g1(3) [OF 3(2,3)] ch [OF 3(3)] 3(1) by (auto simp: setWindowID_def)
      qed
    qed
  qed
  then show ?thesis using app looks by blast
qed

text \<open>Removing a child moves the ones above it down.\<close>

lemma remove_shift:
  assumes t: "g this = Some t" "take (length (xs @ c # ys)) (windows t) = map Some (xs @ c # ys)" "length (xs @ c # ys) \<le> length (windows t)"
    and d: "distinct (xs @ c # ys)" "this \<notin> set (xs @ c # ys)" and ch: "\<And>j. j < length ys \<Longrightarrow> g (ys ! j) \<noteq> None"
  shows "\<exists>g'. for_loop (length xs) (length xs + length ys) (\<lambda>i g. do {
        t \<leftarrow> g this; c \<leftarrow> rd (windows t) (i + 1); ws \<leftarrow> wr (windows t) i c; g \<leftarrow> upd_win this (\<lambda>t. t\<lparr>windows := ws\<rparr>) g;
        c \<leftarrow> c; upd_win c (setWindowID (int i)) g }) g = Some g' \<and>
    g' this = Some (t\<lparr>windows := map Some (xs @ ys) @ drop (length xs + length ys) (windows t)\<rparr>) \<and>
    (\<forall>j<length ys. g' (ys ! j) = map_option (setWindowID (int (length xs + j))) (g (ys ! j))) \<and>
    (\<forall>x. x \<noteq> this \<and> x \<notin> set ys \<longrightarrow> g' x = g x)"
proof -
  let ?m = "length xs"
  let ?I = "\<lambda>i g'. g' this = Some (t\<lparr>windows := map Some (xs @ take (i - ?m) ys) @ drop i (windows t)\<rparr>) \<and>
    (\<forall>j<i - ?m. g' (ys ! j) = map_option (setWindowID (int (?m + j))) (g (ys ! j))) \<and>
    (\<forall>x. x \<noteq> this \<and> x \<notin> set (take (i - ?m) ys) \<longrightarrow> g' x = g x)"
  let ?body = "\<lambda>i g. do { t \<leftarrow> g this; c \<leftarrow> rd (windows t) (i + 1); ws \<leftarrow> wr (windows t) i c; g \<leftarrow> upd_win this (\<lambda>t. t\<lparr>windows := ws\<rparr>) g;
        c \<leftarrow> c; upd_win c (setWindowID (int i)) g }"
  have W: "windows t = map Some (xs @ c # ys) @ drop (?m + Suc (length ys)) (windows t)"
    using append_take_drop_id [of "length (xs @ c # ys)" "windows t", symmetric, unfolded t(2)] by simp
  have "\<exists>g'. for_loop ?m (?m + length ys) ?body g = Some g' \<and> ?I (?m + length ys) g'"
  proof (rule for_loop_rule [where I = ?I])
    have "map Some xs @ drop ?m (windows t) = windows t" by (subst (2) W, subst W) simp
    then show "?I ?m g" using t(1) by (cases t) simp
    fix i g' assume i: "?m \<le> i" "i < ?m + length ys" and I: "?I i g'"
    define j where "j = i - ?m"
    have ij: "i = ?m + j" "j < length ys" using i by (simp_all add: j_def)
    let ?y = "ys ! j"
    have y: "?y \<noteq> this" "?y \<notin> set (take j ys)" using d ij(2) by (auto simp: in_set_conv_nth nth_eq_iff_index_eq)
    obtain w where w: "g ?y = Some w" using ch [OF ij(2)] by blast
    have gy: "g' ?y = Some w" using I y w by (simp add: j_def)
    have dW: "drop i (windows t) = drop j (Some c # map Some ys) @ drop (?m + Suc (length ys)) (windows t)"
      by (subst W) (use ij in \<open>cases j; simp\<close>)
    have dS: "drop (Suc i) (windows t) = drop j (map Some ys) @ drop (?m + Suc (length ys)) (windows t)"
      by (subst W) (use ij in simp)
    have dj: "drop j (map Some ys) = Some ?y # drop (Suc j) (map Some ys)" using ij(2) by (simp add: drop_Cons_nth)
    obtain v rest where di: "drop i (windows t) = v # Some ?y # rest" "drop (Suc i) (windows t) = Some ?y # rest"
    proof -
      have "drop j (Some c # map Some ys) = (Some c # map Some ys) ! j # drop j (map Some ys)"
        using drop_Cons_nth [of j "Some c # map Some ys"] ij(2) by simp
      then show thesis using that dW dS dj by simp
    qed
    let ?W = "map Some (xs @ take j ys) @ v # Some ?y # rest"
    have lW: "length (map Some (xs @ take j ys)) = i" using ij by simp
    have g't: "g' this = Some (t\<lparr>windows := ?W\<rparr>)" using I di(1) by (simp add: j_def)
    have "?W ! (i + 1) = Some ?y" "i + 1 < length ?W" "?W[i := Some ?y] = map Some (xs @ take (Suc j) ys) @ drop (Suc i) (windows t)"
      using lW ij(2) di(2) by (auto simp: nth_append list_update_append take_Suc_snoc)
    then have "?body i g' = Some (g'(this \<mapsto> t\<lparr>windows := map Some (xs @ take (Suc j) ys) @ drop (Suc i) (windows t)\<rparr>, ?y \<mapsto> setWindowID (int i) w))"
      using g't gy y(1) by (simp add: upd_win_def)
    moreover have "?I (Suc i) (g'(this \<mapsto> t\<lparr>windows := map Some (xs @ take (Suc j) ys) @ drop (Suc i) (windows t)\<rparr>, ?y \<mapsto> setWindowID (int i) w))"
    proof -
      have sj: "Suc i - ?m = Suc j" "i - ?m = j" using ij by simp_all
      have old: "g' (ys ! l) = map_option (setWindowID (int (?m + l))) (g (ys ! l))" "ys ! l \<noteq> this" "ys ! l \<noteq> ?y" if "l < j" for l
        using I that sj d ij(2) by (auto simp: nth_eq_iff_index_eq)
      show ?thesis unfolding sj using old I y w ij by (auto simp: less_Suc_eq take_Suc_snoc sj)
    qed
    ultimately show "\<exists>g''. ?body i g' = Some g'' \<and> ?I (Suc i) g''" by blast
  qed simp
  then show ?thesis by simp
qed

lemma removeWindow_ok:
  assumes s: "stack g this (xs @ c # ys)"
  shows "\<exists>g' x. removeWindow this (int (length xs)) g = Some (Some c, g') \<and> stack g' this (xs @ ys) \<and> same_looks g g' \<and>
    g' c = Some x \<and> parent x = None"
proof -
  let ?cs = "xs @ c # ys" and ?m = "length xs"
  obtain t where t: "g this = Some t" "length (windows t) = maxWindows t" "numWindows t = length ?cs" "length ?cs \<le> maxWindows t"
      "take (length ?cs) (windows t) = map Some ?cs"
    using s by (auto simp: stack_def)
  have d: "distinct ?cs" "this \<notin> set ?cs" and so: "sorted (map (prio g) ?cs)" using s by (auto simp: stack_def)
  have ch: "\<exists>w. g (?cs ! i) = Some w \<and> windowID w = int i \<and> parent w = Some this" if "i < length ?cs" for i
    using s that by (simp add: stack_def)
  have cx: "\<exists>w. g (xs ! i) = Some w \<and> windowID w = int i \<and> parent w = Some this" if "i < ?m" for i using ch [of i] that by (simp add: nth_append)
  have cy: "\<exists>w. g (ys ! i) = Some w \<and> windowID w = int (?m + Suc i) \<and> parent w = Some this" if "i < length ys" for i
    using ch [of "?m + Suc i"] that by (simp add: nth_append)
  obtain w where w: "g c = Some w" using ch [of ?m] by (auto simp: nth_append)
  let ?body = "\<lambda>i g. do { t \<leftarrow> g this; c \<leftarrow> rd (windows t) (i + 1); ws \<leftarrow> wr (windows t) i c; g \<leftarrow> upd_win this (\<lambda>t. t\<lparr>windows := ws\<rparr>) g;
        c \<leftarrow> c; upd_win c (setWindowID (int i)) g }"
  obtain g1 where g1: "for_loop ?m (?m + length ys) ?body g = Some g1"
      "g1 this = Some (t\<lparr>windows := map Some (xs @ ys) @ drop (?m + length ys) (windows t)\<rparr>)"
      "\<forall>j<length ys. g1 (ys ! j) = map_option (setWindowID (int (?m + j))) (g (ys ! j))"
      "\<forall>x. x \<noteq> this \<and> x \<notin> set ys \<longrightarrow> g1 x = g x"
    using remove_shift [of g this t xs c ys] t d cy by fastforce
  have c: "c \<noteq> this" "c \<notin> set ys" "g1 c = Some w" using d g1(4) w by auto
  let ?t = "t\<lparr>windows := map Some (xs @ ys) @ drop (?m + length ys) (windows t), numWindows := ?m + length ys\<rparr>"
  let ?g = "g1(this \<mapsto> ?t, c \<mapsto> w\<lparr>parent := None\<rparr>)"
  have "child_at this ?m g = Some c" using child_at_nth [of g this t ?cs ?m, OF t(1,5)] by (simp add: nth_append)
  then have rem: "removeWindow this (int ?m) g = Some (Some c, ?g)"
    using t(1,3) g1(1,2) c by (simp add: removeWindow_def upd_win_def)
  have looks: "same_looks g ?g"
    unfolding same_looks_def
  proof
    fix i
    have "map_option (\<lambda>w. (flags w, surf w, priority w, winPrevRect w, maxWindows w)) (g1 (ys ! j)) =
        map_option (\<lambda>w. (flags w, surf w, priority w, winPrevRect w, maxWindows w)) (g (ys ! j))" if "j < length ys" for j
      using g1(3) cy [OF that] that by (auto simp: setWindowID_def)
    then show "map_option (\<lambda>w. (flags w, surf w, priority w, winPrevRect w, maxWindows w)) (g i) =
        map_option (\<lambda>w. (flags w, surf w, priority w, winPrevRect w, maxWindows w)) (?g i)"
      using g1(4) t(1) w by (cases "i \<in> set ys") (auto simp: in_set_conv_nth)
  qed
  have "stack ?g this (xs @ ys)"
    unfolding stack_def
  proof (intro conjI)
    show "\<exists>t. ?g this = Some t \<and> length (windows t) = maxWindows t \<and> numWindows t = length (xs @ ys) \<and> length (xs @ ys) \<le> maxWindows t \<and>
        take (length (xs @ ys)) (windows t) = map Some (xs @ ys)"
      using c(1) t(2,4) by simp
    show "sorted (map (prio ?g) (xs @ ys))" using so same_looks_prio [OF looks] by (simp add: sorted_append)
    have "\<exists>w. ?g ((xs @ ys) ! i) = Some w \<and> windowID w = int i \<and> parent w = Some this" if i: "i < length (xs @ ys)" for i
    proof (cases "i < ?m")
      case True
      then have "xs ! i \<noteq> this" "xs ! i \<noteq> c" "xs ! i \<notin> set ys" using d by (auto dest: nth_mem)
      then show ?thesis using cx [OF True] g1(4) True by (simp add: nth_append)
    next
      case False
      then obtain j where j: "i = ?m + j" "j < length ys" using i by (metis add_diff_inverse_nat length_append nat_add_left_cancel_less)
      then have "ys ! j \<noteq> this" "ys ! j \<noteq> c" using d by (auto dest: nth_mem)
      then show ?thesis using cy [OF j(2)] g1(3) j by (auto simp: nth_append setWindowID_def)
    qed
    then show "\<forall>i<length (xs @ ys). \<exists>w. ?g ((xs @ ys) ! i) = Some w \<and> windowID w = int i \<and> parent w = Some this" by blast
  qed (use d in auto)
  then show ?thesis using rem looks by auto
qed

lemma stack_flags: "stack g this cs \<Longrightarrow> g this = Some t \<Longrightarrow> stack (g(this \<mapsto> setFlags f t)) this cs"
proof -
  assume s: "stack g this cs" and t: "g this = Some t"
  have "this \<notin> set cs" using s by (simp add: stack_def)
  then have "prio (g(this \<mapsto> setFlags f t)) c = prio g c" if "c \<in> set cs" for c using that by (auto simp: prio_def)
  then have "map (prio (g(this \<mapsto> setFlags f t))) cs = map (prio g) cs" by simp
  moreover have "cs ! i \<noteq> this" if "i < length cs" for i using \<open>this \<notin> set cs\<close> that by (metis nth_mem)
  ultimately show ?thesis using s t by (auto simp: stack_def setFlags_def simp del: map_eq_conv)
qed

lemma looks_at:
  assumes "same_looks g g'" "g i = Some w"
  obtains w' where "g' i = Some w'" "flags w' = flags w" "maxWindows w' = maxWindows w"
proof -
  have "map_option (\<lambda>w. (flags w, surf w, priority w, winPrevRect w, maxWindows w)) (g i) =
      map_option (\<lambda>w. (flags w, surf w, priority w, winPrevRect w, maxWindows w)) (g' i)" using assms(1) by (simp add: same_looks_def)
  then show thesis using that assms(2) by (cases "g' i") simp_all
qed

lemma looks_flags: "same_looks g g' \<Longrightarrow> map_option (\<lambda>w. (flags w, surf w, priority w)) (g' i) = map_option (\<lambda>w. (flags w, surf w, priority w)) (g i)"
proof -
  assume "same_looks g g'"
  then have "map_option (\<lambda>w. (flags w, surf w, priority w, winPrevRect w, maxWindows w)) (g i) =
      map_option (\<lambda>w. (flags w, surf w, priority w, winPrevRect w, maxWindows w)) (g' i)" by (simp add: same_looks_def)
  then show ?thesis by (cases "g i"; cases "g' i") simp_all
qed

section \<open>Properties\<close>

text \<open>
  C23: Raising a child. In a window whose children are ordered by priority, know their position and
  their parent, \<open>moveToTop\<close> moves the child above every sibling whose priority is not higher, keeps
  all of this and the other siblings' order, changes nothing else of any window, and marks the window
  as dirty exactly when the order changed.
\<close>

theorem moveToTop_raises:
  assumes s: "stack g this cs" and c: "c \<in> set cs" and t: "g this = Some t"
  shows "\<exists>g' t'. moveToTop this c g = Some (True, g') \<and> stack g' this (insert_win g c (remove1 c cs)) \<and> g' this = Some t' \<and>
    flags t' = (if insert_win g c (remove1 c cs) = cs then flags t else flags t OR WindowFlags_Dirty) \<and>
    (\<forall>i. i \<noteq> this \<longrightarrow> map_option (\<lambda>w. (flags w, surf w, priority w)) (g' i) = map_option (\<lambda>w. (flags w, surf w, priority w)) (g i))"
proof -
  obtain xs ys where cs: "cs = xs @ c # ys" "c \<notin> set xs" using split_list_first [OF c] by blast
  have r: "remove1 c cs = xs @ ys" using cs by (simp add: remove1_append)
  have tt: "length (windows t) = maxWindows t" "length cs \<le> maxWindows t" "take (length cs) (windows t) = map Some cs" and dc: "distinct cs" "this \<notin> set cs"
    using s t by (auto simp: stack_def)
  have "length xs < length cs" "cs ! length xs = c" using cs by (simp_all add: nth_append)
  then obtain w where w: "g c = Some w" "windowID w = int (length xs)" using s unfolding stack_def by metis
  have "rdi (windows t) (windowID w) = Some (Some c)"
    using arg_cong [OF tt(3), of "\<lambda>l. l ! length xs"] cs tt(1,2) w(2) by (simp add: rdi_def nth_append)
  moreover obtain g1 x where g1: "removeWindow this (int (length xs)) g = Some (Some c, g1)" "stack g1 this (xs @ ys)" "same_looks g g1" "g1 c = Some x"
    using removeWindow_ok [OF s [unfolded cs]] by blast
  moreover obtain t1 where t1: "g1 this = Some t1" "maxWindows t1 = maxWindows t" "flags t1 = flags t"
    using looks_at [OF g1(3) t] by blast
  ultimately obtain g2 where g2: "appendWindow this (Some c) g1 = Some (Some c, g2)" "stack g2 this (insert_win g1 c (xs @ ys))" "same_looks g1 g2"
    using appendWindow_ok [OF g1(2) t1(1), of c] cs dc tt(2) by auto
  have ins: "insert_win g1 c (xs @ ys) = insert_win g c (xs @ ys)" using same_looks_prio [OF g1(3)] by (simp add: insert_win_def)
  let ?k = "upto_prio g (prio g c) (xs @ ys)"
  have k: "?k \<le> length (xs @ ys)" by (rule upto_prio_le)
  have at: "insert_win g c (xs @ ys) ! ?k = c" "?k < length (insert_win g c (xs @ ys))" by (rule insert_win_nth)+
  then obtain w2 where w2: "g2 c = Some w2" "windowID w2 = int ?k" using g2(2) ins unfolding stack_def by metis
  have id: "windowID w2 \<noteq> windowID w \<longleftrightarrow> insert_win g c (remove1 c cs) \<noteq> cs"
  proof -
    have "insert_win g c (xs @ ys) = cs" if "?k = length xs" using that cs(1) by (simp add: insert_win_upto)
    moreover have "?k = length xs" if "insert_win g c (xs @ ys) = cs"
      using that at dc(1) \<open>length xs < length cs\<close> \<open>cs ! length xs = c\<close> by (metis nth_eq_iff_index_eq)
    ultimately show ?thesis using w(2) w2(2) r by auto
  qed
  obtain t2 where t2: "g2 this = Some t2" "flags t2 = flags t"
    using looks_at [OF g2(3) t1(1)] t1(3) by metis
  let ?g = "if windowID w2 \<noteq> windowID w then g2(this \<mapsto> setFlags WindowFlags_Dirty t2) else g2"
  have "moveToTop this c g = Some (True, ?g)"
    using t w g1(1) g2(1) w2 t2 \<open>rdi (windows t) (windowID w) = Some (Some c)\<close> by (simp add: moveToTop_def removeWindow_ptr_def upd_win_def)
  moreover have "stack ?g this (insert_win g c (remove1 c cs))"
    using stack_flags [of g2 this "insert_win g c (xs @ ys)" t2 WindowFlags_Dirty] g2(2) ins r t2(1) by simp
  moreover have "map_option (\<lambda>w. (flags w, surf w, priority w)) (?g i) = map_option (\<lambda>w. (flags w, surf w, priority w)) (g i)" if "i \<noteq> this" for i
    using same_looks_trans [OF g1(3) g2(3)] that looks_flags by simp
  moreover have "\<exists>t'. ?g this = Some t' \<and> flags t' = (if insert_win g c (remove1 c cs) = cs then flags t else flags t OR WindowFlags_Dirty)"
    using t2 id by (auto simp: setFlags_def)
  ultimately show ?thesis by blast
qed

text \<open>A window with two children of equal priority.\<close>

definition two_children :: gui where
  "two_children = (let w = \<lparr>windowName = None, windowID = 0, flags = 0, surf = \<lparr>srect = mk_rect 0 0 1 1, sbuff = [0]\<rparr>, color = 0, priority = 2, parent = None, windows = [None, None],
      numWindows = 0, maxWindows = 2, winPrevRect = mk_rect 0 0 1 1, hoverWindow = None, selectedWindow = None\<rparr>
    in [0 \<mapsto> w\<lparr>windows := [Some 1, Some 2], numWindows := 2\<rparr>, 1 \<mapsto> w\<lparr>parent := Some 0\<rparr>, 2 \<mapsto> w\<lparr>parent := Some 0, windowID := 1\<rparr>])"

theorem moveToTop_raises_witness:
  "\<exists>g' t'. moveToTop 0 1 two_children = Some (True, g') \<and> stack g' 0 [2, 1] \<and> g' 0 = Some t' \<and> flags t' = WindowFlags_Dirty \<and>
    (\<forall>i. i \<noteq> 0 \<longrightarrow> map_option (\<lambda>w. (flags w, surf w, priority w)) (g' i) = map_option (\<lambda>w. (flags w, surf w, priority w)) (two_children i))"
proof -
  have s: "stack two_children 0 [1, 2]"
    by (auto simp: stack_def two_children_def Let_def prio_def less_Suc_eq numeral_2_eq_2 nth_Cons split: nat.splits)
  have f: "insert_win two_children 1 (remove1 1 [1, 2]) = [2, 1]" "flags (the (two_children 0)) = 0" "two_children 0 = Some (the (two_children 0))"
    by (simp_all add: insert_win_def two_children_def Let_def prio_def)
  show ?thesis using moveToTop_raises [OF s _ f(3), of 1] unfolding f(1,2) by simp
qed

end
