(* ===== verification/Clip_Regions.thy ===== *)
theory Clip_Regions
  imports Rect "HOL-Library.Multiset"
begin

text \<open>
  The regions the compositor has still to draw, \<open>src/libGUI/Compositor.hpp\<close> and the last part of
  \<open>Compositor.cpp\<close>: an array of rectangles, each with the window it belongs to, from which the
  rectangle of a window is cut out or divided off. The loops restart from the first entry whenever
  they replaced one. A full array drops what is pushed. The lemmas give the list the loops produce and,
  for every pixel, the windows of the regions it lies in.
\<close>

section \<open>Definitions\<close>

record clip_rect =
  crect :: rect
  cwin :: "nat option"

record clip_regions =
  numClipped :: nat
  maxClipped :: nat
  clippedRects :: "clip_rect list"

definition pushRect :: "clip_rect \<Rightarrow> clip_regions \<Rightarrow> clip_regions option" where
  "pushRect r c =
     (if numClipped c < maxClipped c then do {
        rs \<leftarrow> wr (clippedRects c) (numClipped c) r;
        Some (c\<lparr>clippedRects := rs, numClipped := numClipped c + 1\<rparr>) }
      else Some c)"

definition deleteRect :: "nat \<Rightarrow> clip_regions \<Rightarrow> clip_regions option" where
  "deleteRect index c =
     (if index < numClipped c then do {
        rs \<leftarrow> for_loop index (numClipped c - 1) (\<lambda>i rs. do { r \<leftarrow> rd rs (i + 1); wr rs i r }) (clippedRects c);
        Some (c\<lparr>clippedRects := rs, numClipped := numClipped c - 1\<rparr>) }
      else Some c)"

definition resetClippedList :: "clip_regions \<Rightarrow> clip_regions" where
  "resetClippedList c = c\<lparr>numClipped := 0\<rparr>"

definition getNumClipped :: "clip_regions \<Rightarrow> nat" where
  "getNumClipped c = numClipped c"

definition copyRegion :: "clip_regions \<Rightarrow> clip_regions \<Rightarrow> clip_regions option" where
  "copyRegion this other = do {
     rs \<leftarrow> for_loop 0 (numClipped other) (\<lambda>i rs. do { r \<leftarrow> rd (clippedRects other) i; wr rs i r }) (clippedRects this);
     Some (this\<lparr>clippedRects := rs, numClipped := numClipped other\<rparr>) }"

text \<open>The loop that pushes the parts of a rectangle that was split.\<close>

fun push_splits :: "rect list \<Rightarrow> nat option \<Rightarrow> clip_regions \<Rightarrow> clip_regions option" where
  "push_splits [] w c = Some c"
| "push_splits (r # rs) w c = do { c \<leftarrow> pushRect \<lparr>crect = copy_rect r, cwin = w\<rparr> c; push_splits rs w c }"

partial_function (option) clip_remove_loop :: "rect \<Rightarrow> nat \<Rightarrow> clip_regions \<Rightarrow> clip_regions option" where
  "clip_remove_loop r i c =
     (if numClipped c \<le> i then Some c
      else do {
        clip \<leftarrow> rd (clippedRects c) i;
        hit \<leftarrow> overlaps (crect clip) r;
        if hit then do {
          splitRects \<leftarrow> getSplitRects (crect clip) r;
          c \<leftarrow> push_splits splitRects (cwin clip) c;
          c \<leftarrow> deleteRect i c;
          clip_remove_loop r 0 c }
        else clip_remove_loop r (i + 1) c })"

definition removeClippedRegion :: "rect \<Rightarrow> clip_regions \<Rightarrow> clip_regions option" where
  "removeClippedRegion r c = clip_remove_loop r 0 c"

definition addClippedRegion :: "rect \<Rightarrow> nat option \<Rightarrow> clip_regions \<Rightarrow> clip_regions option" where
  "addClippedRegion r w c = do {
     c \<leftarrow> removeClippedRegion r c;
     pushRect \<lparr>crect = copy_rect r, cwin = w\<rparr> c }"

text \<open>Here the parts inside the rectangle are collected in a second list.\<close>

partial_function (option) divide_loop :: "rect \<Rightarrow> nat option \<Rightarrow> nat \<Rightarrow> clip_regions \<Rightarrow> clip_regions \<Rightarrow> (clip_regions \<times> clip_regions) option" where
  "divide_loop r w i c overlapping =
     (if numClipped c \<le> i then Some (c, overlapping)
      else do {
        clip \<leftarrow> rd (clippedRects c) i;
        hit \<leftarrow> overlaps (crect clip) r;
        if hit then do {
          (res, overlap) \<leftarrow> getOverlapRect r (crect clip) (crect clip);
          splitRects \<leftarrow> getSplitRects (crect clip) r;
          c \<leftarrow> push_splits splitRects (cwin clip) c;
          c \<leftarrow> deleteRect i c;
          overlapping \<leftarrow> pushRect \<lparr>crect = overlap, cwin = w\<rparr> overlapping;
          divide_loop r w 0 c overlapping }
        else divide_loop r w (i + 1) c overlapping })"

definition divideClippedRegion :: "rect \<Rightarrow> nat option \<Rightarrow> clip_regions \<Rightarrow> clip_regions \<Rightarrow> (clip_regions \<times> clip_regions) option" where
  "divideClippedRegion r w c overlapping = do {
     let overlapping = resetClippedList overlapping;
     (c, overlapping) \<leftarrow> divide_loop r w 0 c overlapping;
     c \<leftarrow> for_loop 0 (numClipped overlapping) (\<lambda>i c. do { x \<leftarrow> rd (clippedRects overlapping) i; pushRect x c }) c;
     Some (c, overlapping) }"

declare clip_remove_loop.simps [code] divide_loop.simps [code]

section \<open>The used part of the array\<close>

definition clips :: "clip_regions \<Rightarrow> clip_rect list" where
  "clips c = take (numClipped c) (clippedRects c)"

definition regions_ok :: "clip_regions \<Rightarrow> bool" where
  "regions_ok c \<longleftrightarrow> length (clippedRects c) = maxClipped c \<and> numClipped c \<le> maxClipped c"

lemma length_clips [simp]: "regions_ok c \<Longrightarrow> length (clips c) = numClipped c"
  by (simp add: clips_def regions_ok_def)

lemma nth_clips: "regions_ok c \<Longrightarrow> i < numClipped c \<Longrightarrow> rd (clippedRects c) i = Some (clips c ! i)"
  by (simp add: clips_def regions_ok_def)

lemma pushRect_clips:
  assumes "regions_ok c" "numClipped c < maxClipped c"
  shows "\<exists>c'. pushRect r c = Some c' \<and> regions_ok c' \<and> clips c' = clips c @ [r] \<and> maxClipped c' = maxClipped c"
  using assms by (simp add: pushRect_def regions_ok_def clips_def take_Suc_snoc)

text \<open>What deleting leaves: the entries behind the deleted one move up.\<close>

lemma delete_shift:
  assumes "i < n" "n \<le> length xs"
  shows "for_loop i (n - 1) (\<lambda>i rs. do { r \<leftarrow> rd rs (i + 1); wr rs i r }) xs =
    Some (take i xs @ take (n - Suc i) (drop (Suc i) xs) @ drop (n - 1) xs)"
proof -
  let ?at = "\<lambda>k. take i xs @ take (k - i) (drop (Suc i) xs) @ drop k xs"
  have "\<exists>ys. for_loop i (n - 1) (\<lambda>i rs. do { r \<leftarrow> rd rs (i + 1); wr rs i r }) xs = Some ys \<and> ys = ?at (n - 1)"
  proof (rule for_loop_rule [where I = "\<lambda>k ys. ys = ?at k"])
    show "xs = ?at i" using assms by simp
    fix k ys assume k: "i \<le> k" "k < n - 1" and ys: "ys = ?at k"
    have l: "length (take i xs @ take (k - i) (drop (Suc i) xs)) = k" using k assms by simp
    have dr: "drop k xs = xs ! k # xs ! Suc k # drop (Suc (Suc k)) xs" using k assms(2) by (simp add: drop_Cons_nth)
    have "ys ! Suc k = xs ! Suc k" "ys[k := xs ! Suc k] = take i xs @ take (k - i) (drop (Suc i) xs) @ xs ! Suc k # drop (Suc k) xs"
      unfolding ys using l k assms by (auto simp: nth_append dr list_update_append drop_Cons_nth [of "Suc k"])
    moreover have "take (Suc k - i) (drop (Suc i) xs) = take (k - i) (drop (Suc i) xs) @ [xs ! Suc k]"
      using k assms take_Suc_snoc [of "k - i" "drop (Suc i) xs"] by (simp add: Suc_diff_le)
    moreover have "Suc k < length ys" "k < length ys" using k assms ys by auto
    ultimately show "\<exists>ys'. do { r \<leftarrow> rd ys (k + 1); wr ys k r } = Some ys' \<and> ys' = ?at (Suc k)" by simp
  qed (use assms in simp)
  then show ?thesis using assms by (simp add: Suc_diff_Suc)
qed

lemma deleteRect_clips:
  assumes "regions_ok c" "i < numClipped c"
  shows "\<exists>c'. deleteRect i c = Some c' \<and> regions_ok c' \<and> clips c' = take i (clips c) @ drop (Suc i) (clips c) \<and> maxClipped c' = maxClipped c"
proof -
  have n: "numClipped c \<le> length (clippedRects c)" using assms(1) by (simp add: regions_ok_def)
  let ?rs = "take i (clippedRects c) @ take (numClipped c - Suc i) (drop (Suc i) (clippedRects c)) @ drop (numClipped c - 1) (clippedRects c)"
  have "deleteRect i c = Some (c\<lparr>clippedRects := ?rs, numClipped := numClipped c - 1\<rparr>)"
    using delete_shift [OF assms(2) n] assms(2) by (simp add: deleteRect_def)
  moreover have "take (numClipped c - 1) ?rs = take i (clips c) @ drop (Suc i) (clips c)"
  proof -
    let ?A = "take i (clippedRects c) @ take (numClipped c - Suc i) (drop (Suc i) (clippedRects c))"
    have "length ?A = numClipped c - 1" using assms n by simp
    then have "take (numClipped c - 1) (?A @ drop (numClipped c - 1) (clippedRects c)) = ?A" by (metis append_eq_conv_conj)
    moreover have "?A = take i (clips c) @ drop (Suc i) (clips c)" using assms by (simp add: clips_def drop_take min_def)
    ultimately show ?thesis by (metis append.assoc)
  qed
  moreover have "length ?rs = length (clippedRects c)" using assms n by simp
  moreover have "numClipped c - 1 \<le> maxClipped c" using assms(1) by (auto simp: regions_ok_def)
  ultimately show ?thesis using assms by (simp add: regions_ok_def clips_def)
qed

lemma push_splits_clips:
  assumes "regions_ok c" "numClipped c + length rs \<le> maxClipped c"
  shows "\<exists>c'. push_splits rs w c = Some c' \<and> regions_ok c' \<and> clips c' = clips c @ map (\<lambda>r. \<lparr>crect = copy_rect r, cwin = w\<rparr>) rs \<and>
    maxClipped c' = maxClipped c"
  using assms
proof (induction rs arbitrary: c)
  case (Cons r rs)
  obtain c1 where c1: "pushRect \<lparr>crect = copy_rect r, cwin = w\<rparr> c = Some c1" "regions_ok c1"
      "clips c1 = clips c @ [\<lparr>crect = copy_rect r, cwin = w\<rparr>]" "maxClipped c1 = maxClipped c"
    using pushRect_clips [OF Cons.prems(1)] Cons.prems(2) by fastforce
  have "numClipped c1 = numClipped c + 1" using c1(2,3) Cons.prems(1) length_clips by (metis length_append_singleton Suc_eq_plus1)
  then obtain c2 where "push_splits rs w c1 = Some c2" "regions_ok c2" "clips c2 = clips c1 @ map (\<lambda>r. \<lparr>crect = copy_rect r, cwin = w\<rparr>) rs"
      "maxClipped c2 = maxClipped c1"
    using Cons.IH [OF c1(2)] Cons.prems(2) c1(4) by auto
  then show ?case using c1 by simp
qed simp

section \<open>Cutting\<close>

definition hit :: "rect \<Rightarrow> clip_rect \<Rightarrow> bool" where
  "hit r x \<longleftrightarrow> overlaps (crect x) r = Some True"

definition pieces :: "rect \<Rightarrow> clip_rect \<Rightarrow> clip_rect list" where
  "pieces r x = (case getSplitRects (crect x) r of None \<Rightarrow> [] | Some rs \<Rightarrow> map (\<lambda>p. \<lparr>crect = copy_rect p, cwin = cwin x\<rparr>) rs)"

definition cut_clips :: "rect \<Rightarrow> clip_rect list \<Rightarrow> clip_rect list" where
  "cut_clips r xs = filter (\<lambda>x. \<not> hit r x) xs @ concat (map (pieces r) (filter (hit r) xs))"

definition clips_proper :: "clip_rect list \<Rightarrow> bool" where
  "clips_proper xs \<longleftrightarrow> (\<forall>x \<in> set xs. proper (crect x))"

lemma clips_proper_simps [simp]:
  "clips_proper []" "clips_proper (x # xs) \<longleftrightarrow> proper (crect x) \<and> clips_proper xs"
  "clips_proper (xs @ ys) \<longleftrightarrow> clips_proper xs \<and> clips_proper ys"
  by (auto simp: clips_proper_def)

lemma hit_iff: "proper r \<Longrightarrow> proper (crect x) \<Longrightarrow> hit r x \<longleftrightarrow> pixels (crect x) \<inter> pixels r \<noteq> {}"
  by (simp add: hit_def overlaps_iff)

lemma copy_rect_id [simp]: "copy_rect r = r"
  by (simp add: copy_rect_def mk_rect_def rect_gets)

lemma pieces_ok:
  assumes "proper r" "proper (crect x)" "hit r x"
  obtains rs where "getSplitRects (crect x) r = Some rs" "pieces r x = map (\<lambda>p. \<lparr>crect = p, cwin = cwin x\<rparr>) rs"
    "clips_proper (pieces r x)" "\<And>y. y \<in> set (pieces r x) \<Longrightarrow> \<not> hit r y"
    "(\<Union>p \<in> set rs. pixels p) = pixels (crect x) - pixels r" "sorted_wrt (\<lambda>p q. pixels p \<inter> pixels q = {}) rs"
proof -
  have "pixels (crect x) \<inter> pixels r \<noteq> {}" using assms hit_iff by blast
  then obtain rs where rs: "getSplitRects (crect x) r = Some rs" "(\<Union>p \<in> set rs. pixels p) = pixels (crect x) - pixels r"
      "sorted_wrt (\<lambda>p q. pixels p \<inter> pixels q = {}) rs" "\<forall>p \<in> set rs. proper p"
    using split_rects [OF assms(2,1)] by blast
  then have p: "pieces r x = map (\<lambda>p. \<lparr>crect = p, cwin = cwin x\<rparr>) rs" by (simp add: pieces_def)
  then have "clips_proper (pieces r x)" using rs(4) by (auto simp: clips_proper_def)
  moreover have "\<not> hit r y" if "y \<in> set (pieces r x)" for y
  proof -
    obtain q where q: "q \<in> set rs" "crect y = q" using \<open>y \<in> set (pieces r x)\<close> p by auto
    then have "pixels q \<inter> pixels r = {}" using rs(2) by blast
    then show ?thesis using q rs(4) assms(1) by (simp add: hit_iff)
  qed
  ultimately show thesis using that rs p by blast
qed

lemma overlaps_hit: "proper r \<Longrightarrow> proper (crect x) \<Longrightarrow> overlaps (crect x) r = Some (hit r x)"
  by (simp add: hit_def overlaps_iff)

text \<open>
  One replacement at position \<open>i\<close>: the parts go to the end. Both loops share this step; it needs room
  for the parts before the entry is deleted.
\<close>

lemma replace_step:
  assumes c: "regions_ok c" "clips c = xs @ x # ys" and p: "proper r" "proper (crect x)" "hit r x"
    and room: "numClipped c + length (pieces r x) \<le> maxClipped c"
  shows "\<exists>c'. do { splitRects \<leftarrow> getSplitRects (crect x) r; c \<leftarrow> push_splits splitRects (cwin x) c; deleteRect (length xs) c } = Some c' \<and>
    regions_ok c' \<and> clips c' = xs @ ys @ pieces r x \<and> maxClipped c' = maxClipped c"
proof -
  obtain rs where rs: "getSplitRects (crect x) r = Some rs" "pieces r x = map (\<lambda>p. \<lparr>crect = p, cwin = cwin x\<rparr>) rs"
    using pieces_ok [OF p] by metis
  then obtain c1 where c1: "push_splits rs (cwin x) c = Some c1" "regions_ok c1" "clips c1 = clips c @ pieces r x" "maxClipped c1 = maxClipped c"
    using push_splits_clips [OF c(1), of rs "cwin x"] room by auto
  have "length xs < numClipped c1" using c1(2,3) c(2) length_clips [OF c1(2)] by simp
  then obtain c2 where "deleteRect (length xs) c1 = Some c2" "regions_ok c2" "maxClipped c2 = maxClipped c1"
      "clips c2 = take (length xs) (clips c1) @ drop (Suc (length xs)) (clips c1)"
    using deleteRect_clips [OF c1(2)] by blast
  then show ?thesis using rs c1 c(2) by simp
qed

lemma clip_remove_loop_cut:
  assumes "regions_ok c" "clips c = xs @ ys" "\<forall>x \<in> set xs. \<not> hit r x" "clips_proper (xs @ ys)" "proper r"
    and "length (xs @ ys) + length (concat (map (pieces r) (filter (hit r) ys))) \<le> maxClipped c"
  shows "\<exists>c'. clip_remove_loop r (length xs) c = Some c' \<and> regions_ok c' \<and> clips c' = cut_clips r (xs @ ys) \<and> maxClipped c' = maxClipped c"
  using assms
proof (induction "(length (filter (hit r) ys), length ys)" arbitrary: c xs ys rule: wf_induct_rule [OF wf_lex_prod [OF wf_less_than wf_less_than], case_names less])
  case less
  note n = length_clips [OF less.prems(1), unfolded less.prems(2)]
  show ?case
  proof (cases ys)
    case Nil
    then show ?thesis using less.prems n by (subst clip_remove_loop.simps) (auto simp: cut_clips_def filter_empty_conv)
  next
    case (Cons y zs)
    have rd: "rd (clippedRects c) (length xs) = Some y" "\<not> numClipped c \<le> length xs"
      using nth_clips [OF less.prems(1), of "length xs"] less.prems(2) Cons n by simp_all
    have py: "proper (crect y)" using less.prems(4) Cons by simp
    note ov = overlaps_hit [OF less.prems(5) py]
    show ?thesis
    proof (cases "hit r y")
      case False
      have "\<exists>c'. clip_remove_loop r (length (xs @ [y])) c = Some c' \<and> regions_ok c' \<and> clips c' = cut_clips r ((xs @ [y]) @ zs) \<and> maxClipped c' = maxClipped c"
        using less.prems Cons False by (intro less.hyps) auto
      then show ?thesis using rd ov False Cons by (subst clip_remove_loop.simps) simp
    next
      case True
      have "numClipped c + length (pieces r y) \<le> maxClipped c" using less.prems(6) Cons True n by simp
      then obtain c1 where c1: "do { splitRects \<leftarrow> getSplitRects (crect y) r; c \<leftarrow> push_splits splitRects (cwin y) c; deleteRect (length xs) c } = Some c1"
          "regions_ok c1" "clips c1 = xs @ zs @ pieces r y" "maxClipped c1 = maxClipped c"
        using replace_step [OF less.prems(1) less.prems(2) [unfolded Cons] less.prems(5) py True] by blast
      have pc: "clips_proper (pieces r y)" "\<And>z. z \<in> set (pieces r y) \<Longrightarrow> \<not> hit r z"
        using pieces_ok [OF less.prems(5) py True] by metis+
      then have f: "filter (hit r) (xs @ zs @ pieces r y) = filter (hit r) zs" "filter (\<lambda>z. \<not> hit r z) (pieces r y) = pieces r y"
        using less.prems(3) by (auto simp: filter_empty_conv intro: filter_True)
      have "\<exists>c'. clip_remove_loop r (length ([] :: clip_rect list)) c1 = Some c' \<and> regions_ok c' \<and> clips c' = cut_clips r ([] @ (xs @ zs @ pieces r y)) \<and> maxClipped c' = maxClipped c1"
        using less.prems Cons True c1 pc(1) by (intro less.hyps) (auto simp: f(1) simp del: filter_append)
      moreover have "cut_clips r (xs @ zs @ pieces r y) = cut_clips r (xs @ ys)"
        using f less.prems(3) True Cons by (simp add: cut_clips_def filter_empty_conv)
      moreover have "clip_remove_loop r (length xs) c = clip_remove_loop r 0 c1"
        using rd ov True c1(1) by (subst clip_remove_loop.simps) (auto split: Option.bind_splits)
      ultimately show ?thesis using c1(4) by simp
    qed
  qed
qed

text \<open>Dividing: the same, with the parts inside the rectangle collected.\<close>

definition inside :: "rect \<Rightarrow> nat option \<Rightarrow> clip_rect \<Rightarrow> clip_rect" where
  "inside r w x = \<lparr>crect = inter r (crect x), cwin = w\<rparr>"

definition divide_clips :: "rect \<Rightarrow> nat option \<Rightarrow> clip_rect list \<Rightarrow> clip_rect list" where
  "divide_clips r w xs = cut_clips r xs @ map (inside r w) (filter (hit r) xs)"

lemma divide_loop_cut:
  assumes "regions_ok c" "clips c = xs @ ys" "\<forall>x \<in> set xs. \<not> hit r x" "clips_proper (xs @ ys)" "proper r"
    and "length (xs @ ys) + length (concat (map (pieces r) (filter (hit r) ys))) \<le> maxClipped c"
    and "regions_ok ov" "numClipped ov + length (filter (hit r) ys) \<le> maxClipped ov"
  shows "\<exists>c' ov'. divide_loop r w (length xs) c ov = Some (c', ov') \<and> regions_ok c' \<and> clips c' = cut_clips r (xs @ ys) \<and> maxClipped c' = maxClipped c \<and>
    regions_ok ov' \<and> clips ov' = clips ov @ map (inside r w) (filter (hit r) ys) \<and> maxClipped ov' = maxClipped ov"
  using assms
proof (induction "(length (filter (hit r) ys), length ys)" arbitrary: c xs ys ov rule: wf_induct_rule [OF wf_lex_prod [OF wf_less_than wf_less_than], case_names less])
  case less
  note n = length_clips [OF less.prems(1), unfolded less.prems(2)]
  show ?case
  proof (cases ys)
    case Nil
    then show ?thesis using less.prems n by (subst divide_loop.simps) (auto simp: cut_clips_def filter_empty_conv)
  next
    case (Cons y zs)
    have rd: "rd (clippedRects c) (length xs) = Some y" "\<not> numClipped c \<le> length xs"
      using nth_clips [OF less.prems(1), of "length xs"] less.prems(2) Cons n by simp_all
    have py: "proper (crect y)" using less.prems(4) Cons by simp
    note ov = overlaps_hit [OF less.prems(5) py]
    show ?thesis
    proof (cases "hit r y")
      case False
      have "\<exists>c' ov'. divide_loop r w (length (xs @ [y])) c ov = Some (c', ov') \<and> regions_ok c' \<and> clips c' = cut_clips r ((xs @ [y]) @ zs) \<and> maxClipped c' = maxClipped c \<and>
          regions_ok ov' \<and> clips ov' = clips ov @ map (inside r w) (filter (hit r) zs) \<and> maxClipped ov' = maxClipped ov"
        using less.prems Cons False by (intro less.hyps) auto
      then show ?thesis using rd ov False Cons by (subst divide_loop.simps) simp
    next
      case True
      have "numClipped c + length (pieces r y) \<le> maxClipped c" using less.prems(6) Cons True n by simp
      then obtain c1 where c1: "do { splitRects \<leftarrow> getSplitRects (crect y) r; c \<leftarrow> push_splits splitRects (cwin y) c; deleteRect (length xs) c } = Some c1"
          "regions_ok c1" "clips c1 = xs @ zs @ pieces r y" "maxClipped c1 = maxClipped c"
        using replace_step [OF less.prems(1) less.prems(2) [unfolded Cons] less.prems(5) py True] by blast
      obtain o1 where o1: "pushRect (inside r w y) ov = Some o1" "regions_ok o1" "clips o1 = clips ov @ [inside r w y]" "maxClipped o1 = maxClipped ov"
        using pushRect_clips [OF less.prems(7), of "inside r w y"] less.prems(8) Cons True by auto
      have no: "numClipped o1 = numClipped ov + 1" using length_clips [OF o1(2)] o1(3) length_clips [OF less.prems(7)] by simp
      have pc: "clips_proper (pieces r y)" "\<And>z. z \<in> set (pieces r y) \<Longrightarrow> \<not> hit r z"
        using pieces_ok [OF less.prems(5) py True] by metis+
      then have f: "filter (hit r) (xs @ zs @ pieces r y) = filter (hit r) zs" "filter (\<lambda>z. \<not> hit r z) (pieces r y) = pieces r y"
        using less.prems(3) by (auto simp: filter_empty_conv intro: filter_True)
      have ih: "\<exists>c' ov'. divide_loop r w (length ([] :: clip_rect list)) c1 o1 = Some (c', ov') \<and> regions_ok c' \<and> clips c' = cut_clips r ([] @ (xs @ zs @ pieces r y)) \<and> maxClipped c' = maxClipped c1 \<and>
          regions_ok ov' \<and> clips ov' = clips o1 @ map (inside r w) (filter (hit r) (xs @ zs @ pieces r y)) \<and> maxClipped ov' = maxClipped o1"
        using less.prems Cons True c1 pc(1) o1 no by (intro less.hyps) (auto simp: f(1) simp del: filter_append)
      have "cut_clips r (xs @ zs @ pieces r y) = cut_clips r (xs @ ys)"
        using f less.prems(3) True Cons by (simp add: cut_clips_def filter_empty_conv)
      moreover have "getOverlapRect r (crect y) (crect y) = Some (True, inter r (crect y))"
        using less.prems(5) py by (intro getOverlapRect_inter) (simp_all add: proper_def)
      then have "divide_loop r w (length xs) c ov = divide_loop r w 0 c1 o1"
        using rd ov True c1(1) o1(1) by (subst divide_loop.simps) (auto simp: inside_def split: Option.bind_splits)
      ultimately show ?thesis using ih [unfolded f(1)] c1(4) o1(3,4) Cons True by simp
    qed
  qed
qed

section \<open>The windows a pixel's regions belong to\<close>

definition tags :: "int \<times> int \<Rightarrow> clip_rect list \<Rightarrow> nat option multiset" where
  "tags p xs = mset (map cwin (filter (\<lambda>x. p \<in> pixels (crect x)) xs))"

lemma tags_simps [simp]: "tags p [] = {#}" "tags p (xs @ ys) = tags p xs + tags p ys"
  "tags p (x # xs) = (if p \<in> pixels (crect x) then {#cwin x#} else {#}) + tags p xs"
  by (simp_all add: tags_def)

lemma tags_disjoint:
  assumes "sorted_wrt (\<lambda>p q. pixels p \<inter> pixels q = {}) rs"
  shows "tags p (map (\<lambda>r. \<lparr>crect = r, cwin = w\<rparr>) rs) = (if p \<in> (\<Union>r \<in> set rs. pixels r) then {#w#} else {#})"
  using assms by (induction rs) auto

lemma tags_pieces:
  assumes "proper r" "proper (crect x)" "hit r x"
  shows "tags p (pieces r x) = (if p \<in> pixels (crect x) - pixels r then {#cwin x#} else {#})"
proof -
  obtain rs where "pieces r x = map (\<lambda>p. \<lparr>crect = p, cwin = cwin x\<rparr>) rs" "(\<Union>p \<in> set rs. pixels p) = pixels (crect x) - pixels r"
      "sorted_wrt (\<lambda>p q. pixels p \<inter> pixels q = {}) rs"
    using pieces_ok [OF assms] by metis
  then show ?thesis using tags_disjoint [of rs p "cwin x"] by simp
qed

lemma tags_cut:
  assumes "clips_proper xs" "proper r"
  shows "tags p (cut_clips r xs) = (if p \<in> pixels r then {#} else tags p xs)"
  using assms(1)
proof (induction xs)
  case (Cons x xs)
  have "tags p (cut_clips r (x # xs)) = tags p (cut_clips r xs) + (if hit r x then tags p (pieces r x) else tags p [x])"
    by (simp add: cut_clips_def)
  then show ?case using Cons tags_pieces [OF assms(2), of x p] hit_iff [OF assms(2), of x] by auto
qed (simp add: cut_clips_def)

lemma tags_divide:
  assumes "clips_proper xs" "proper r"
  shows "tags p (divide_clips r w xs) = (if p \<in> pixels r then replicate_mset (size (tags p xs)) w else tags p xs)"
proof -
  have "tags p (map (inside r w) (filter (hit r) xs)) = (if p \<in> pixels r then replicate_mset (size (tags p xs)) w else {#})"
    using assms(1) by (induction xs) (auto simp: inside_def pixels_inter hit_iff [OF assms(2)])
  then show ?thesis using tags_cut [OF assms, of p] by (simp add: divide_clips_def)
qed

lemma clips_proper_cut: "clips_proper xs \<Longrightarrow> proper r \<Longrightarrow> clips_proper (cut_clips r xs)"
proof -
  assume p: "clips_proper xs" "proper r"
  have "clips_proper (pieces r x)" if "x \<in> set xs" "hit r x" for x
    using that p pieces_ok [of r x] by (metis clips_proper_def)
  then show ?thesis using p(1) by (auto simp: cut_clips_def clips_proper_def)
qed

lemma clips_proper_divide: "clips_proper xs \<Longrightarrow> proper r \<Longrightarrow> clips_proper (divide_clips r w xs)"
proof -
  assume p: "clips_proper xs" "proper r"
  have "proper (inter r (crect x))" if "x \<in> set xs" "hit r x" for x
  proof -
    have x: "proper (crect x)" using that p(1) by (simp add: clips_proper_def)
    then obtain q where "q \<in> pixels (inter r (crect x))" using \<open>hit r x\<close> hit_iff [OF p(2) x] pixels_inter by blast
    then have "0 < rwidth (inter r (crect x))" "0 < rheight (inter r (crect x))" by (auto simp: pixels_def)
    moreover have "small (inter r (crect x))" using small_bounds [of "crect x" r] x p(2) by (simp add: proper_def small_def inter_def mk_rect_def)
    ultimately show ?thesis by (simp add: proper_def)
  qed
  then show ?thesis using clips_proper_cut [OF p] by (auto simp: divide_clips_def clips_proper_def inside_def)
qed

section \<open>The operations\<close>

text \<open>The array has room for the parts while a rectangle is cut out, and for what is pushed after.\<close>

definition cut_room :: "nat \<Rightarrow> rect \<Rightarrow> clip_rect list \<Rightarrow> bool" where
  "cut_room n r xs \<longleftrightarrow> length xs + length (concat (map (pieces r) (filter (hit r) xs))) \<le> n"

definition divide_room :: "nat \<Rightarrow> rect \<Rightarrow> clip_rect list \<Rightarrow> bool" where
  "divide_room n r xs \<longleftrightarrow> cut_room n r xs \<and> length (cut_clips r xs) + length (filter (hit r) xs) \<le> n"

lemma removeClippedRegion_cut:
  assumes "regions_ok c" "clips_proper (clips c)" "proper r" "cut_room (maxClipped c) r (clips c)"
  shows "\<exists>c'. removeClippedRegion r c = Some c' \<and> regions_ok c' \<and> clips c' = cut_clips r (clips c) \<and> maxClipped c' = maxClipped c"
  using clip_remove_loop_cut [of c "[]" "clips c" r] assms by (simp add: removeClippedRegion_def cut_room_def)

lemma addClippedRegion_cut:
  assumes "regions_ok c" "clips_proper (clips c)" "proper r" "cut_room (maxClipped c) r (clips c)" "length (cut_clips r (clips c)) < maxClipped c"
  shows "\<exists>c'. addClippedRegion r w c = Some c' \<and> regions_ok c' \<and> clips c' = cut_clips r (clips c) @ [\<lparr>crect = r, cwin = w\<rparr>] \<and> maxClipped c' = maxClipped c"
proof -
  obtain c1 where c1: "removeClippedRegion r c = Some c1" "regions_ok c1" "clips c1 = cut_clips r (clips c)" "maxClipped c1 = maxClipped c"
    using removeClippedRegion_cut [OF assms(1-4)] by blast
  have "numClipped c1 < maxClipped c1" using length_clips [OF c1(2)] c1(3,4) assms(5) by simp
  then show ?thesis using pushRect_clips [OF c1(2), of "\<lparr>crect = r, cwin = w\<rparr>"] c1 by (simp add: addClippedRegion_def)
qed

lemma push_all_clips:
  assumes "regions_ok c" "regions_ok ov" "numClipped c + numClipped ov \<le> maxClipped c"
  shows "\<exists>c'. for_loop 0 (numClipped ov) (\<lambda>i c. do { x \<leftarrow> rd (clippedRects ov) i; pushRect x c }) c = Some c' \<and>
    regions_ok c' \<and> clips c' = clips c @ clips ov \<and> maxClipped c' = maxClipped c"
proof -
  let ?I = "\<lambda>i c'. regions_ok c' \<and> clips c' = clips c @ take i (clips ov) \<and> maxClipped c' = maxClipped c"
  have "\<exists>c'. for_loop 0 (numClipped ov) (\<lambda>i c. do { x \<leftarrow> rd (clippedRects ov) i; pushRect x c }) c = Some c' \<and> ?I (numClipped ov) c'"
  proof (rule for_loop_rule [where I = ?I])
    fix i c' assume i: "i < numClipped ov" and c': "?I i c'"
    have "numClipped c' = numClipped c + i" using length_clips [of c'] length_clips [OF assms(1)] length_clips [OF assms(2)] c' i by simp
    then obtain c'' where "pushRect (clips ov ! i) c' = Some c''" "regions_ok c''" "clips c'' = clips c' @ [clips ov ! i]" "maxClipped c'' = maxClipped c'"
      using pushRect_clips [of c' "clips ov ! i"] c' i assms(3) by auto
    then show "\<exists>c''. do { x \<leftarrow> rd (clippedRects ov) i; pushRect x c' } = Some c'' \<and> ?I (Suc i) c''"
      using nth_clips [OF assms(2) i] c' i length_clips [OF assms(2)] by (simp add: take_Suc_snoc)
  qed (use assms in simp_all)
  then show ?thesis using length_clips [OF assms(2)] by simp
qed

lemma divideClippedRegion_cut:
  assumes "regions_ok c" "clips_proper (clips c)" "proper r" "divide_room (maxClipped c) r (clips c)" "regions_ok ov" "maxClipped ov = maxClipped c"
  shows "\<exists>c' ov'. divideClippedRegion r w c ov = Some (c', ov') \<and> regions_ok c' \<and> clips c' = divide_clips r w (clips c) \<and> maxClipped c' = maxClipped c \<and>
    regions_ok ov' \<and> maxClipped ov' = maxClipped c"
proof -
  let ?n = "maxClipped c" and ?o = "resetClippedList ov"
  have o: "regions_ok ?o" "clips ?o = []" "numClipped ?o = 0" "maxClipped ?o = ?n"
    using assms(5,6) by (simp_all add: resetClippedList_def regions_ok_def clips_def)
  have room: "length (clips c) + length (concat (map (pieces r) (filter (hit r) (clips c)))) \<le> ?n" "length (filter (hit r) (clips c)) \<le> ?n"
    "length (cut_clips r (clips c)) + length (filter (hit r) (clips c)) \<le> ?n"
    using assms(4) by (simp_all add: divide_room_def cut_room_def)
  then obtain c1 o1 where 1: "divide_loop r w 0 c ?o = Some (c1, o1)" "regions_ok c1" "clips c1 = cut_clips r (clips c)" "maxClipped c1 = ?n"
      "regions_ok o1" "clips o1 = map (inside r w) (filter (hit r) (clips c))" "maxClipped o1 = ?n"
    using divide_loop_cut [of c "[]" "clips c" r ?o w] assms(1-3) o by auto
  have "numClipped c1 + numClipped o1 \<le> maxClipped c1"
    using length_clips [OF 1(2)] length_clips [OF 1(5)] 1(3,4,6) room(3) by simp
  then obtain c2 where "for_loop 0 (numClipped o1) (\<lambda>i c. do { x \<leftarrow> rd (clippedRects o1) i; pushRect x c }) c1 = Some c2" "regions_ok c2"
      "clips c2 = clips c1 @ clips o1" "maxClipped c2 = maxClipped c1"
    using push_all_clips [OF 1(2,5)] by blast
  then show ?thesis using 1 by (simp add: divideClippedRegion_def divide_clips_def)
qed

lemma copyRegion_clips:
  assumes "regions_ok this" "regions_ok other" "maxClipped this = maxClipped other"
  shows "\<exists>c. copyRegion this other = Some c \<and> regions_ok c \<and> clips c = clips other \<and> maxClipped c = maxClipped other"
proof -
  let ?I = "\<lambda>i rs. length rs = maxClipped other \<and> take i rs = take i (clippedRects other)"
  have l: "length (clippedRects other) = maxClipped other" "numClipped other \<le> maxClipped other" "length (clippedRects this) = maxClipped other"
    using assms by (simp_all add: regions_ok_def)
  have "\<exists>rs. for_loop 0 (numClipped other) (\<lambda>i rs. do { r \<leftarrow> rd (clippedRects other) i; wr rs i r }) (clippedRects this) = Some rs \<and> ?I (numClipped other) rs"
    by (rule for_loop_rule [where I = ?I]) (use l in \<open>auto simp: take_Suc_snoc\<close>)
  then show ?thesis using assms l by (auto simp: copyRegion_def regions_ok_def clips_def)
qed

end
