(* ===== verification/Compositor.thy ===== *)
theory Compositor
  imports Window Clip_Regions
begin

text \<open>
  The compositor, \<open>src/libGUI/Compositor.cpp\<close>: windows are drawn from the front to the back onto a
  back buffer, only inside the regions that changed, and each window's rectangle is taken out of the
  regions once it is drawn, or marked for blending where the window is transparent. First the code is
  followed pixel by pixel (\<open>paint\<close>, \<open>front_pixel\<close>), for any dirty windows and pointer; the property then
  compares this with the picture a painter would make of the windows (\<open>look\<close>).
\<close>

section \<open>Definitions\<close>

record compositor =
  fSurface :: surface
  bSurface :: surface
  fRenderClips :: clip_regions
  bRenderClips :: clip_regions
  overlapping :: clip_regions

definition dirty_self :: "nat \<Rightarrow> nat option \<Rightarrow> gui \<times> clip_regions \<Rightarrow> (nat option \<times> gui \<times> clip_regions) option" where
  "dirty_self win dirtyAncestor = (\<lambda>(g, c). do {
     w \<leftarrow> g win;
     if getFlag WindowFlags_Dirty w then do {
       g \<leftarrow> upd_win win (resetFlags WindowFlags_Dirty) g;
       (dirtyAncestor, c) \<leftarrow> (case dirtyAncestor of
          None \<Rightarrow> do {
            c \<leftarrow> addClippedRegion (srect (surf w)) (Some win) c;
            c \<leftarrow> addClippedRegion (winPrevRect w) (Some win) c;
            Some (Some win, c) }
        | Some a \<Rightarrow> Some (Some a, c));
       g \<leftarrow> upd_win win updatePrevRect g;
       Some (dirtyAncestor, g, c) }
     else Some (dirtyAncestor, g, c) })"

text \<open>The loop over the children, from index \<open>i\<close>.\<close>

partial_function (option) dirty_children :: "nat \<Rightarrow> nat \<Rightarrow> nat option \<Rightarrow> gui \<times> clip_regions \<Rightarrow> (gui \<times> clip_regions) option" where
  "dirty_children win i dirtyAncestor st = do {
     w \<leftarrow> fst st win;
     if numWindows w \<le> i then Some st
     else do {
       child \<leftarrow> child_at win i (fst st);
       (a, st) \<leftarrow> dirty_self child dirtyAncestor st;
       st \<leftarrow> dirty_children child 0 a st;
       dirty_children win (i + 1) dirtyAncestor st } }"

definition createDirtyWindowRegions :: "nat \<Rightarrow> nat option \<Rightarrow> gui \<times> clip_regions \<Rightarrow> (gui \<times> clip_regions) option" where
  "createDirtyWindowRegions win dirtyAncestor st = do {
     (a, st) \<leftarrow> dirty_self win dirtyAncestor st;
     dirty_children win 0 a st }"

definition createDirtyMouseRegion :: "nat \<Rightarrow> gui \<times> clip_regions \<Rightarrow> (gui \<times> clip_regions) option" where
  "createDirtyMouseRegion mouse = (\<lambda>(g, c). do {
     m \<leftarrow> g mouse;
     if getFlag WindowFlags_Dirty m then do {
       g \<leftarrow> upd_win mouse (resetFlags WindowFlags_Dirty) g;
       c \<leftarrow> addClippedRegion (winPrevRect m) (Some mouse) c;
       g \<leftarrow> upd_win mouse updatePrevRect g;
       Some (g, c) }
     else Some (g, c) })"

text \<open>One window, after its children.\<close>

definition draw_clip :: "gui \<Rightarrow> surface \<Rightarrow> clip_rect \<Rightarrow> surface \<Rightarrow> surface option" where
  "draw_clip g s clip b = do {
     u \<leftarrow> cwin clip;
     x \<leftarrow> g u;
     if getFlag WindowFlags_Transparent x then alphaBlit b s (crect clip) else blit b s (crect clip) }"

definition draw_self :: "gui \<Rightarrow> nat \<Rightarrow> compositor \<Rightarrow> compositor option" where
  "draw_self g win st = do {
     w \<leftarrow> g win;
     if getFlag WindowFlags_Invisible w then Some st
     else do {
       b \<leftarrow> for_loop 0 (numClipped (bRenderClips st)) (\<lambda>i b. do {
         clip \<leftarrow> rd (clippedRects (bRenderClips st)) i;
         draw_clip g (surf w) clip b }) (bSurface st);
       let st = st\<lparr>bSurface := b\<rparr>;
       if getFlag WindowFlags_Transparent w then do {
         (c, ov) \<leftarrow> divideClippedRegion (srect (surf w)) (Some win) (bRenderClips st) (overlapping st);
         Some (st\<lparr>bRenderClips := c, overlapping := ov\<rparr>) }
       else do {
         c \<leftarrow> removeClippedRegion (srect (surf w)) (bRenderClips st);
         Some (st\<lparr>bRenderClips := c\<rparr>) } } }"

text \<open>The loop over the children from the topmost, with \<open>k - 1\<close> the next index, and then the window.\<close>

partial_function (option) draw_from :: "gui \<Rightarrow> nat \<Rightarrow> nat \<Rightarrow> compositor \<Rightarrow> compositor option" where
  "draw_from g win k st =
     (if k = 0 then draw_self g win st
      else do {
        child \<leftarrow> child_at win (k - 1) g;
        cw \<leftarrow> g child;
        st \<leftarrow> draw_from g child (numWindows cw) st;
        draw_from g win (k - 1) st })"

definition drawWindow :: "gui \<Rightarrow> nat \<Rightarrow> compositor \<Rightarrow> compositor option" where
  "drawWindow g win st = do { w \<leftarrow> g win; draw_from g win (numWindows w) st }"

definition render :: "nat \<Rightarrow> nat \<Rightarrow> gui \<times> compositor \<Rightarrow> (gui \<times> compositor) option" where
  "render root mouse = (\<lambda>(g, st). do {
     (g, c) \<leftarrow> createDirtyWindowRegions root None (g, bRenderClips st);
     (g, c) \<leftarrow> createDirtyMouseRegion mouse (g, c);
     let st = st\<lparr>bRenderClips := c\<rparr>;
     if getNumClipped c \<noteq> 0 then do {
       f \<leftarrow> copyRegion (fRenderClips st) c;
       st \<leftarrow> drawWindow g root (st\<lparr>fRenderClips := f\<rparr>);
       m \<leftarrow> g mouse;
       b \<leftarrow> blit (bSurface st) (surf m) (srect (surf m));
       fs \<leftarrow> for_loop 0 (getNumClipped f) (\<lambda>i fs. do { x \<leftarrow> rd (clippedRects f) i; blit fs b (crect x) }) (fSurface st);
       Some (g, st\<lparr>bSurface := b, fSurface := fs, fRenderClips := resetClippedList f, bRenderClips := resetClippedList (bRenderClips st)\<rparr>) }
     else Some (g, st) })"

definition compositor_init :: "u32 list \<Rightarrow> clip_rect list \<Rightarrow> clip_rect list \<Rightarrow> surface \<Rightarrow> clip_regions \<Rightarrow> compositor" where
  "compositor_init block fclips bclips s ov =
     \<lparr>fSurface = s, bSurface = \<lparr>srect = srect s, sbuff = block\<rparr>,
      fRenderClips = \<lparr>numClipped = 0, maxClipped = 200, clippedRects = fclips\<rparr>,
      bRenderClips = \<lparr>numClipped = 0, maxClipped = 200, clippedRects = bclips\<rparr>, overlapping = ov\<rparr>"

declare dirty_children.simps [code] draw_from.simps [code]

section \<open>Compositing a pixel\<close>

abbreviation "win_rect g i \<equiv> srect (surf (the (g i)))"

definition transparent :: "gui \<Rightarrow> nat \<Rightarrow> bool" where
  "transparent g i \<longleftrightarrow> getFlag WindowFlags_Transparent (the (g i))"

text \<open>
  The state of a pixel: the window whose transparency decides how the next window is drawn there,
  if the pixel is still to be drawn, and its colour.
\<close>

definition paint :: "gui \<Rightarrow> int \<times> int \<Rightarrow> nat \<Rightarrow> nat option \<times> u32 \<Rightarrow> nat option \<times> u32" where
  "paint g p win = (\<lambda>(tag, v).
     if p \<in> pixels (win_rect g win) then
       case tag of None \<Rightarrow> (None, v)
       | Some u \<Rightarrow> (if transparent g win then Some win else None,
           if transparent g u then blend v (pixel (surf (the (g win))) p) else pixel (surf (the (g win))) p)
     else (tag, v))"

text \<open>The windows of a tree in the order they are drawn: the topmost child first, the window last.\<close>

inductive draw_order :: "gui \<Rightarrow> nat \<Rightarrow> nat \<Rightarrow> nat list \<Rightarrow> bool" for g where
  order_self: "g win = Some w \<Longrightarrow> draw_order g win 0 (if getFlag WindowFlags_Invisible w then [] else [win])"
| order_child: "child_at win k g = Some c \<Longrightarrow> g c = Some cw \<Longrightarrow> draw_order g c (numWindows cw) ws \<Longrightarrow> draw_order g win k vs \<Longrightarrow>
    draw_order g win (Suc k) (ws @ vs)"

fun draw_all :: "gui \<Rightarrow> nat list \<Rightarrow> compositor \<Rightarrow> compositor option" where
  "draw_all g [] st = Some st"
| "draw_all g (w # ws) st = do { st \<leftarrow> draw_self g w st; draw_all g ws st }"

lemma draw_all_append: "draw_all g (ws @ vs) st = do { st \<leftarrow> draw_all g ws st; draw_all g vs st }"
proof (induction ws arbitrary: st)
  case (Cons w ws)
  then show ?case by (cases "draw_self g w st") simp_all
qed simp

lemma draw_from_order: "draw_order g win k ws \<Longrightarrow> draw_from g win k st = draw_all g ws st"
proof (induction arbitrary: st rule: draw_order.induct)
  case (order_self win w)
  have "draw_self g win st = draw_all g (if getFlag WindowFlags_Invisible w then [] else [win]) st"
  proof (cases "getFlag WindowFlags_Invisible w")
    case True
    then show ?thesis using order_self by (simp add: draw_self_def)
  next
    case False
    then show ?thesis by (cases "draw_self g win st") simp_all
  qed
  then show ?case by (subst draw_from.simps) simp
next
  case (order_child win k c cw ws vs)
  have "draw_from g win k = draw_all g vs" by (rule ext) (rule order_child.IH(2))
  then show ?case using order_child.hyps(1,2) order_child.IH(1) by (subst draw_from.simps) (simp add: draw_all_append)
qed

section \<open>Drawing a window\<close>

definition tagged :: "nat option \<Rightarrow> nat option multiset" where
  "tagged tag = (case tag of None \<Rightarrow> {#} | Some u \<Rightarrow> {#Some u#})"

definition comp_ok :: "gui \<Rightarrow> compositor \<Rightarrow> bool" where
  "comp_ok g st \<longleftrightarrow> screen_ok (bSurface st) \<and> regions_ok (bRenderClips st) \<and> clips_proper (clips (bRenderClips st)) \<and>
     regions_ok (overlapping st) \<and> maxClipped (overlapping st) = maxClipped (bRenderClips st) \<and>
     (\<forall>x \<in> set (clips (bRenderClips st)). \<exists>u. cwin x = Some u \<and> g u \<noteq> None)"

text \<open>What the regions make of a pixel, one after the other; with one region at most, its tag decides.\<close>

definition through :: "gui \<Rightarrow> u32 \<Rightarrow> int \<times> int \<Rightarrow> clip_rect list \<Rightarrow> u32 \<Rightarrow> u32" where
  "through g s p xs v = fold (\<lambda>x v. if p \<in> pixels (crect x) then if transparent g (the (cwin x)) then blend v s else s else v) xs v"

lemma through_untagged: "tags p xs = {#} \<Longrightarrow> through g s p xs v = v"
  by (induction xs arbitrary: v) (auto simp: through_def split: if_splits)

lemma through_tagged:
  assumes "tags p xs = {#Some u#}"
  shows "through g s p xs v = (if transparent g u then blend v s else s)"
  using assms
proof (induction xs arbitrary: v)
  case (Cons x xs)
  show ?case
  proof (cases "p \<in> pixels (crect x)")
    case True
    then have "cwin x = Some u" "tags p xs = {#}" using Cons.prems by (auto simp: add_mset_eq_single)
    then show ?thesis using True through_untagged [of p xs g s] by (simp add: through_def)
  next
    case False
    then show ?thesis using Cons by (simp add: through_def)
  qed
qed simp

lemma draw_clip_drawn:
  assumes "screen_ok b" "surface_ok s" "proper (crect x)" "cwin x = Some u" "g u \<noteq> None"
  shows "\<exists>b'. draw_clip g s x b = Some b' \<and> drawn (\<lambda>v c. if transparent g u then blend v c else c) s (crect x) b b'"
proof -
  have "small (crect x)" using assms(3) by (simp add: proper_def)
  then show ?thesis using alphaBlit_drawn [OF assms(1,2), of "crect x"] blit_drawn [OF assms(1,2), of "crect x"] assms(4,5)
    by (auto simp: draw_clip_def transparent_def)
qed

lemma draw_clips:
  assumes b: "screen_ok b" "surface_ok s" and c: "regions_ok c" "clips_proper (clips c)" "\<forall>x \<in> set (clips c). \<exists>u. cwin x = Some u \<and> g u \<noteq> None"
  shows "\<exists>b'. for_loop 0 (numClipped c) (\<lambda>i b. do { x \<leftarrow> rd (clippedRects c) i; draw_clip g s x b }) b = Some b' \<and> screen_ok b' \<and> srect b' = srect b \<and>
    (\<forall>p \<in> pixels (srect b). pixel b' p = (if p \<in> pixels (srect s) then through g (pixel s p) p (clips c) (pixel b p) else pixel b p))"
proof -
  let ?I = "\<lambda>i b'. screen_ok b' \<and> srect b' = srect b \<and>
    (\<forall>p \<in> pixels (srect b). pixel b' p = (if p \<in> pixels (srect s) then through g (pixel s p) p (take i (clips c)) (pixel b p) else pixel b p))"
  have "\<exists>b'. for_loop 0 (numClipped c) (\<lambda>i b. do { x \<leftarrow> rd (clippedRects c) i; draw_clip g s x b }) b = Some b' \<and> ?I (numClipped c) b'"
  proof (rule for_loop_rule [where I = ?I])
    fix i b1 assume i: "i < numClipped c" and I: "?I i b1"
    let ?x = "clips c ! i"
    have l: "i < length (clips c)" using i length_clips [OF c(1)] by simp
    then have x: "?x \<in> set (clips c)" by simp
    then obtain u where u: "cwin ?x = Some u" "g u \<noteq> None" using c(3) by blast
    have "proper (crect ?x)" using c(2) x by (simp add: clips_proper_def)
    then obtain b2 where b2: "draw_clip g s ?x b1 = Some b2" "drawn (\<lambda>v c. if transparent g u then blend v c else c) s (crect ?x) b1 b2"
      using draw_clip_drawn [of b1 s ?x u g] I b(2) u by blast
    have "through g k p (take (Suc i) (clips c)) v = (let v = through g k p (take i (clips c)) v in
        if p \<in> pixels (crect ?x) then if transparent g u then blend v k else k else v)" for k p v
      using l u by (simp add: through_def take_Suc_snoc)
    then have "?I (Suc i) b2" using b2(2) I by (auto simp: drawn_def Let_def)
    then show "\<exists>b2. do { x \<leftarrow> rd (clippedRects c) i; draw_clip g s x b1 } = Some b2 \<and> ?I (Suc i) b2"
      using b2(1) nth_clips [OF c(1) i] by simp
  qed (use b in \<open>simp_all add: through_def\<close>)
  moreover have "take (numClipped c) (clips c) = clips c" using length_clips [OF c(1)] by simp
  ultimately show ?thesis by (simp only:)
qed

text \<open>The array never overflows while the windows of a list are drawn.\<close>

fun room_for :: "nat \<Rightarrow> gui \<Rightarrow> nat list \<Rightarrow> clip_rect list \<Rightarrow> bool" where
  "room_for n g [] xs \<longleftrightarrow> True"
| "room_for n g (w # ws) xs \<longleftrightarrow>
     (if transparent g w then divide_room n (win_rect g w) xs \<and> room_for n g ws (divide_clips (win_rect g w) (Some w) xs)
      else cut_room n (win_rect g w) xs \<and> room_for n g ws (cut_clips (win_rect g w) xs))"

definition visible :: "gui \<Rightarrow> nat \<Rightarrow> bool" where
  "visible g w \<longleftrightarrow> (\<exists>x. g w = Some x \<and> \<not> getFlag WindowFlags_Invisible x \<and> surface_ok (surf x))"

definition next_clips :: "gui \<Rightarrow> nat \<Rightarrow> clip_rect list \<Rightarrow> clip_rect list" where
  "next_clips g w xs = (if transparent g w then divide_clips (win_rect g w) (Some w) xs else cut_clips (win_rect g w) xs)"

lemma next_clips_windows:
  assumes "x \<in> set (next_clips g w xs)"
  shows "cwin x = Some w \<or> (\<exists>y \<in> set xs. cwin x = cwin y)"
  using assms by (auto simp: next_clips_def divide_clips_def cut_clips_def inside_def pieces_def split: if_splits option.splits)

lemma draw_self_ok:
  assumes st: "comp_ok g st" and w: "visible g w" and room: "room_for (maxClipped (bRenderClips st)) g [w] (clips (bRenderClips st))"
  shows "\<exists>st'. draw_self g w st = Some st' \<and> comp_ok g st' \<and> clips (bRenderClips st') = next_clips g w (clips (bRenderClips st)) \<and>
    maxClipped (bRenderClips st') = maxClipped (bRenderClips st) \<and> srect (bSurface st') = srect (bSurface st) \<and>
    fSurface st' = fSurface st \<and> fRenderClips st' = fRenderClips st \<and>
    (\<forall>p \<in> pixels (srect (bSurface st)). pixel (bSurface st') p =
      (if p \<in> pixels (win_rect g w) then through g (pixel (surf (the (g w))) p) p (clips (bRenderClips st)) (pixel (bSurface st) p) else pixel (bSurface st) p))"
proof -
  let ?c = "bRenderClips st"
  obtain x where x: "g w = Some x" "\<not> getFlag WindowFlags_Invisible x" "surface_ok (surf x)" using w by (auto simp: visible_def)
  have c: "screen_ok (bSurface st)" "regions_ok ?c" "clips_proper (clips ?c)" "\<forall>x \<in> set (clips ?c). \<exists>u. cwin x = Some u \<and> g u \<noteq> None"
    "regions_ok (overlapping st)" "maxClipped (overlapping st) = maxClipped ?c"
    using st by (simp_all add: comp_ok_def)
  have pr: "proper (srect (surf x))" using x(3) by (simp add: surface_ok_def)
  obtain b where b: "for_loop 0 (numClipped ?c) (\<lambda>i b. do { y \<leftarrow> rd (clippedRects ?c) i; draw_clip g (surf x) y b }) (bSurface st) = Some b" "screen_ok b"
      "srect b = srect (bSurface st)"
      "\<forall>p \<in> pixels (srect (bSurface st)). pixel b p = (if p \<in> pixels (srect (surf x)) then through g (pixel (surf x) p) p (clips ?c) (pixel (bSurface st) p) else pixel (bSurface st) p)"
    using draw_clips [OF c(1) x(3) c(2-4)] by blast
  have wins: "\<forall>y \<in> set (next_clips g w (clips ?c)). \<exists>u. cwin y = Some u \<and> g u \<noteq> None"
    using next_clips_windows [of _ g w "clips ?c"] c(4) x(1) by fastforce
  show ?thesis
  proof (cases "getFlag WindowFlags_Transparent x")
    case True
    then have t: "transparent g w" using x(1) by (simp add: transparent_def)
    then obtain c' ov where "divideClippedRegion (srect (surf x)) (Some w) ?c (overlapping st) = Some (c', ov)" "regions_ok c'"
        "clips c' = divide_clips (srect (surf x)) (Some w) (clips ?c)" "maxClipped c' = maxClipped ?c" "regions_ok ov" "maxClipped ov = maxClipped ?c"
      using divideClippedRegion_cut [OF c(2,3) pr _ c(5,6), of "Some w"] room x(1) by auto
    then show ?thesis using x True t b wins c clips_proper_divide [OF c(3) pr]
      by (simp add: draw_self_def Let_def comp_ok_def next_clips_def)
  next
    case False
    then have t: "\<not> transparent g w" using x(1) by (simp add: transparent_def)
    then obtain c' where "removeClippedRegion (srect (surf x)) ?c = Some c'" "regions_ok c'"
        "clips c' = cut_clips (srect (surf x)) (clips ?c)" "maxClipped c' = maxClipped ?c"
      using removeClippedRegion_cut [OF c(2,3) pr] room x(1) by auto
    then show ?thesis using x False t b wins c clips_proper_cut [OF c(3) pr]
      by (simp add: draw_self_def Let_def comp_ok_def next_clips_def)
  qed
qed

lemma paint_tags:
  assumes "tags p xs = tagged tag" "clips_proper xs" "proper (win_rect g w)"
  shows "tags p (next_clips g w xs) = tagged (fst (paint g p w (tag, v)))"
proof (cases tag)
  case None
  then show ?thesis using assms tags_divide [OF assms(2,3), of p "Some w"] tags_cut [OF assms(2,3), of p]
    by (simp add: next_clips_def paint_def tagged_def)
next
  case (Some u)
  then show ?thesis using assms tags_divide [OF assms(2,3), of p "Some w"] tags_cut [OF assms(2,3), of p]
    by (simp add: next_clips_def paint_def tagged_def)
qed

lemma paint_colour:
  assumes "tags p xs = tagged tag"
  shows "snd (paint g p w (tag, v)) =
    (if p \<in> pixels (win_rect g w) then through g (pixel (surf (the (g w))) p) p xs v else v)"
proof (cases tag)
  case None
  then show ?thesis using assms through_untagged [of p xs] by (simp add: paint_def tagged_def)
next
  case (Some u)
  then show ?thesis using assms through_tagged [of p xs u] by (simp add: paint_def tagged_def)
qed

lemma draw_all_paints:
  assumes "comp_ok g st" "\<forall>w \<in> set ws. visible g w" "room_for (maxClipped (bRenderClips st)) g ws (clips (bRenderClips st))"
    and "\<And>p. tags p (clips (bRenderClips st)) = tagged (tag p)"
  shows "\<exists>st'. draw_all g ws st = Some st' \<and> comp_ok g st' \<and> srect (bSurface st') = srect (bSurface st) \<and>
    fSurface st' = fSurface st \<and> fRenderClips st' = fRenderClips st \<and> maxClipped (bRenderClips st') = maxClipped (bRenderClips st) \<and>
    (\<forall>p \<in> pixels (srect (bSurface st)). pixel (bSurface st') p = snd (fold (paint g p) ws (tag p, pixel (bSurface st) p)))"
  using assms
proof (induction ws arbitrary: st tag)
  case (Cons w ws)
  let ?c = "bRenderClips st"
  have w: "visible g w" "room_for (maxClipped ?c) g [w] (clips ?c)" using Cons.prems(2,3) by (simp_all split: if_splits)
  obtain st1 where st1: "draw_self g w st = Some st1" "comp_ok g st1" "clips (bRenderClips st1) = next_clips g w (clips ?c)"
      "maxClipped (bRenderClips st1) = maxClipped ?c" "srect (bSurface st1) = srect (bSurface st)" "fSurface st1 = fSurface st" "fRenderClips st1 = fRenderClips st"
      "\<forall>p \<in> pixels (srect (bSurface st)). pixel (bSurface st1) p =
        (if p \<in> pixels (win_rect g w) then through g (pixel (surf (the (g w))) p) p (clips ?c) (pixel (bSurface st) p) else pixel (bSurface st) p)"
    using draw_self_ok [OF Cons.prems(1) w] by blast
  have pr: "proper (win_rect g w)" "clips_proper (clips ?c)"
    using Cons.prems(1,2) by (auto simp: visible_def surface_ok_def comp_ok_def)
  let ?tag = "\<lambda>p. fst (paint g p w (tag p, pixel (bSurface st) p))"
  have "room_for (maxClipped (bRenderClips st1)) g ws (clips (bRenderClips st1))"
    using Cons.prems(3) st1(3,4) by (simp add: next_clips_def split: if_splits)
  moreover have "tags p (clips (bRenderClips st1)) = tagged (?tag p)" for p
    unfolding st1(3) by (rule paint_tags [of p "clips ?c" "tag p" g w, OF Cons.prems(4) pr(2,1)])
  ultimately obtain st2 where st2: "draw_all g ws st1 = Some st2" "comp_ok g st2" "srect (bSurface st2) = srect (bSurface st1)"
      "fSurface st2 = fSurface st1" "fRenderClips st2 = fRenderClips st1" "maxClipped (bRenderClips st2) = maxClipped (bRenderClips st1)"
      "\<forall>p \<in> pixels (srect (bSurface st1)). pixel (bSurface st2) p = snd (fold (paint g p) ws (?tag p, pixel (bSurface st1) p))"
    using Cons.IH [OF st1(2), of ?tag] Cons.prems(2) by auto
  have "(?tag p, pixel (bSurface st1) p) = paint g p w (tag p, pixel (bSurface st) p)" if "p \<in> pixels (srect (bSurface st))" for p
    using st1(8) that paint_colour [of p "clips ?c" "tag p", OF Cons.prems(4), of g w "pixel (bSurface st) p"] by (intro prod_eqI) simp_all
  then have "\<forall>p \<in> pixels (srect (bSurface st)). pixel (bSurface st2) p = snd (fold (paint g p) (w # ws) (tag p, pixel (bSurface st) p))"
    using st2(7) st1(5) by simp
  then show ?case using st1 st2 by simp
qed simp

section \<open>Collecting the regions\<close>

abbreviation "dirty w \<equiv> getFlag WindowFlags_Dirty w"

text \<open>A dirty window is visited: its flag is reset and its position remembered.\<close>

definition clean :: "window \<Rightarrow> window" where
  "clean w = (if dirty w then updatePrevRect (resetFlags WindowFlags_Dirty w) else w)"

definition cleaned :: "gui \<Rightarrow> nat set \<Rightarrow> gui" where
  "cleaned g U = (\<lambda>i. if i \<in> U then map_option clean (g i) else g i)"

lemma clean_simps [simp]: "windows (clean w) = windows w" "numWindows (clean w) = numWindows w" "surf (clean w) = surf w"
  by (simp_all add: clean_def updatePrevRect_def resetFlags_def)

lemma child_at_cleaned [simp]: "child_at win i (cleaned g U) = child_at win i g"
  by (cases "g win") (simp_all add: child_at_def cleaned_def)

text \<open>The regions that are added, each cut out of the earlier ones.\<close>

definition add_clip :: "rect \<times> nat \<Rightarrow> clip_rect list \<Rightarrow> clip_rect list" where
  "add_clip x xs = cut_clips (fst x) xs @ [\<lparr>crect = fst x, cwin = Some (snd x)\<rparr>]"

fun add_room :: "nat \<Rightarrow> (rect \<times> nat) list \<Rightarrow> clip_rect list \<Rightarrow> bool" where
  "add_room n [] xs \<longleftrightarrow> True"
| "add_room n (x # rs) xs \<longleftrightarrow> cut_room n (fst x) xs \<and> length (cut_clips (fst x) xs) < n \<and> add_room n rs (add_clip x xs)"

definition tag_of :: "(rect \<times> nat) list \<Rightarrow> int \<times> int \<Rightarrow> nat option" where
  "tag_of rs p = fold (\<lambda>x t. if p \<in> pixels (fst x) then Some (snd x) else t) rs None"

definition both_rects :: "gui \<Rightarrow> nat \<Rightarrow> (rect \<times> nat) list" where
  "both_rects g c = [(win_rect g c, c), (winPrevRect (the (g c)), c)]"

lemma add_room_append: "add_room n (rs @ ss) xs \<longleftrightarrow> add_room n rs xs \<and> add_room n ss (fold add_clip rs xs)"
  by (induction rs arbitrary: xs) auto

lemma clips_proper_add: "clips_proper xs \<Longrightarrow> \<forall>x \<in> set rs. proper (fst x) \<Longrightarrow> clips_proper (fold add_clip rs xs)"
  by (induction rs arbitrary: xs) (simp_all add: add_clip_def clips_proper_cut)

lemma tags_add:
  assumes "clips_proper xs" "\<forall>x \<in> set rs. proper (fst x)" "tags p xs = tagged t"
  shows "tags p (fold add_clip rs xs) = tagged (fold (\<lambda>x t. if p \<in> pixels (fst x) then Some (snd x) else t) rs t)"
  using assms
proof (induction rs arbitrary: xs t)
  case (Cons x rs)
  have "tags p (add_clip x xs) = tagged (if p \<in> pixels (fst x) then Some (snd x) else t)"
    using Cons.prems tags_cut [of xs "fst x" p] by (simp add: add_clip_def tagged_def)
  moreover have "clips_proper (add_clip x xs)" using Cons.prems by (simp add: add_clip_def clips_proper_cut)
  ultimately show ?case using Cons by simp
qed simp

lemma cwin_add: "x \<in> set (fold add_clip rs xs) \<Longrightarrow> (\<exists>y \<in> set rs. cwin x = Some (snd y)) \<or> (\<exists>y \<in> set xs. cwin x = cwin y)"
proof (induction rs arbitrary: xs)
  case (Cons r rs)
  have "cwin y = Some (snd r) \<or> (\<exists>z \<in> set xs. cwin y = cwin z)" if "y \<in> set (add_clip r xs)" for y
    using that by (auto simp: add_clip_def cut_clips_def pieces_def split: option.splits)
  then show ?case using Cons.IH [of "add_clip r xs"] Cons.prems by fastforce
qed auto

lemma add_regions:
  assumes "regions_ok c" "clips_proper (clips c)" "\<forall>x \<in> set rs. proper (fst x)" "add_room (maxClipped c) rs (clips c)"
  shows "\<exists>c'. fold (\<lambda>x m. do { c \<leftarrow> m; addClippedRegion (fst x) (Some (snd x)) c }) rs (Some c) = Some c' \<and> regions_ok c' \<and>
    clips c' = fold add_clip rs (clips c) \<and> maxClipped c' = maxClipped c"
  using assms
proof (induction rs arbitrary: c)
  case (Cons x rs)
  have x: "proper (fst x)" "cut_room (maxClipped c) (fst x) (clips c)" "length (cut_clips (fst x) (clips c)) < maxClipped c" using Cons.prems by simp_all
  obtain c1 where c1: "addClippedRegion (fst x) (Some (snd x)) c = Some c1" "regions_ok c1" "clips c1 = add_clip x (clips c)" "maxClipped c1 = maxClipped c"
    using addClippedRegion_cut [OF Cons.prems(1,2) x, of "Some (snd x)"] by (auto simp: add_clip_def)
  have "clips_proper (clips c1)" using c1(3) Cons.prems(2) x(1) by (simp add: add_clip_def clips_proper_cut)
  then show ?case using Cons.IH [OF c1(2)] Cons.prems(3,4) c1 by simp
qed simp

text \<open>
  The walk over the children of a window: \<open>a\<close> says whether it or an ancestor is dirty, \<open>ds\<close> are the
  dirty windows below without such an ancestor, \<open>V\<close> all windows visited.
\<close>

inductive dirty_walk :: "gui \<Rightarrow> bool \<Rightarrow> nat \<Rightarrow> nat \<Rightarrow> nat list \<Rightarrow> nat set \<Rightarrow> bool" for g where
  walk_done: "g win = Some w \<Longrightarrow> numWindows w \<le> i \<Longrightarrow> dirty_walk g a win i [] {}"
| walk_child: "g win = Some w \<Longrightarrow> i < numWindows w \<Longrightarrow> child_at win i g = Some c \<Longrightarrow> g c = Some cw \<Longrightarrow>
    dirty_walk g (a \<or> dirty cw) c 0 ds V \<Longrightarrow> dirty_walk g a win (i + 1) es W \<Longrightarrow> c \<notin> V \<Longrightarrow> c \<notin> W \<Longrightarrow> V \<inter> W = {} \<Longrightarrow>
    dirty_walk g a win i ((if dirty cw \<and> \<not> a then [c] else []) @ ds @ es) (insert c (V \<union> W))"

definition rects_of :: "gui \<Rightarrow> nat list \<Rightarrow> (rect \<times> nat) list" where
  "rects_of g ds = concat (map (both_rects g) ds)"

definition next_ancestor :: "nat \<Rightarrow> window \<Rightarrow> nat option \<Rightarrow> nat option" where
  "next_ancestor c w anc = (if dirty w \<and> anc = None then Some c else anc)"

lemma dirty_self_ok:
  assumes g: "g c = Some w" "c \<notin> U" and k: "regions_ok k" "clips_proper (clips k)"
    and r: "\<forall>x \<in> set (both_rects g c). proper (fst x)"
    and room: "dirty w \<and> anc = None \<longrightarrow> add_room (maxClipped k) (both_rects g c) (clips k)"
  shows "\<exists>k'. dirty_self c anc (cleaned g U, k) = Some (next_ancestor c w anc, cleaned g (insert c U), k') \<and> regions_ok k' \<and> maxClipped k' = maxClipped k \<and>
    clips k' = fold add_clip (rects_of g (if dirty w \<and> anc = None then [c] else [])) (clips k)"
proof -
  have gc: "cleaned g U c = Some w" using g by (simp add: cleaned_def)
  show ?thesis
  proof (cases "dirty w")
    case False
    then have "cleaned g (insert c U) = cleaned g U" using g by (auto simp: cleaned_def clean_def)
    then show ?thesis using False gc k by (simp add: dirty_self_def next_ancestor_def rects_of_def)
  next
    case True
    have u: "(cleaned g U)(c \<mapsto> updatePrevRect (resetFlags WindowFlags_Dirty w)) = cleaned g (insert c U)"
      using g True by (auto simp: cleaned_def clean_def)
    show ?thesis
    proof (cases anc)
      case (Some a)
      then show ?thesis using True gc k u by (simp add: dirty_self_def next_ancestor_def rects_of_def upd_win_def)
    next
      case None
      have "add_room (maxClipped k) (both_rects g c) (clips k)" using room True None by simp
      then obtain k' where k': "fold (\<lambda>x m. do { c \<leftarrow> m; addClippedRegion (fst x) (Some (snd x)) c }) (both_rects g c) (Some k) = Some k'" "regions_ok k'"
          "clips k' = fold add_clip (both_rects g c) (clips k)" "maxClipped k' = maxClipped k"
        using add_regions [OF k r] by blast
      have "do { k \<leftarrow> addClippedRegion (srect (surf w)) (Some c) k; addClippedRegion (winPrevRect w) (Some c) k } = Some k'"
        using k'(1) g(1) by (simp add: both_rects_def)
      then have "dirty_self c anc (cleaned g U, k) = Some (Some c, cleaned g (insert c U), k')"
        using True None gc u by (auto simp: dirty_self_def upd_win_def split: Option.bind_splits)
      then show ?thesis using k' True None by (simp add: next_ancestor_def rects_of_def)
    qed
  qed
qed

lemma dirty_walk_subset: "dirty_walk g a win i ds V \<Longrightarrow> set ds \<subseteq> V"
  by (induction rule: dirty_walk.induct) auto

lemma dirty_children_ok:
  assumes "dirty_walk g a win i ds V" "a \<longleftrightarrow> anc \<noteq> None" "V \<inter> U = {}" "regions_ok k" "clips_proper (clips k)"
    and "\<forall>c \<in> V. \<forall>x \<in> set (both_rects g c). proper (fst x)" "add_room (maxClipped k) (rects_of g ds) (clips k)"
  shows "\<exists>k'. dirty_children win i anc (cleaned g U, k) = Some (cleaned g (U \<union> V), k') \<and> regions_ok k' \<and> maxClipped k' = maxClipped k \<and>
    clips k' = fold add_clip (rects_of g ds) (clips k)"
  using assms
proof (induction arbitrary: anc U k rule: dirty_walk.induct)
  case (walk_done win w i a)
  have "\<exists>w'. cleaned g U win = Some w' \<and> numWindows w' = numWindows w" using walk_done.hyps(1) by (simp add: cleaned_def)
  then show ?case using walk_done by (subst dirty_children.simps) (auto simp: rects_of_def)
next
  case (walk_child win w i c cw a ds V es W)
  let ?one = "if dirty cw \<and> \<not> a then [c] else []" and ?n = "maxClipped k"
  have win: "\<exists>w'. cleaned g U win = Some w' \<and> numWindows w' = numWindows w" using walk_child.hyps(1) by (simp add: cleaned_def)
  have ro: "add_room ?n (rects_of g ?one) (clips k)" "add_room ?n (rects_of g ds) (fold add_clip (rects_of g ?one) (clips k))"
    "add_room ?n (rects_of g es) (fold add_clip (rects_of g ds) (fold add_clip (rects_of g ?one) (clips k)))"
    using walk_child.prems(6) by (simp_all add: rects_of_def add_room_append)
  have one: "(if dirty cw \<and> anc = None then [c] else []) = ?one" using walk_child.prems(1) by auto
  have c: "c \<notin> U" "\<forall>x \<in> set (both_rects g c). proper (fst x)" "dirty cw \<and> anc = None \<longrightarrow> add_room ?n (both_rects g c) (clips k)"
    using walk_child.prems(1,2,5) ro(1) by (auto simp: rects_of_def)
  obtain k1 where k1: "dirty_self c anc (cleaned g U, k) = Some (next_ancestor c cw anc, cleaned g (insert c U), k1)" "regions_ok k1" "maxClipped k1 = ?n"
      "clips k1 = fold add_clip (rects_of g ?one) (clips k)"
    using dirty_self_ok [of g c cw U k anc, OF walk_child.hyps(4) c(1) walk_child.prems(3,4) c(2,3), unfolded one] by blast
  have p1: "clips_proper (clips k1)" unfolding k1(4) using walk_child.prems(4,5) by (intro clips_proper_add) (auto simp: rects_of_def)
  obtain k2 where k2: "dirty_children c 0 (next_ancestor c cw anc) (cleaned g (insert c U), k1) = Some (cleaned g (insert c U \<union> V), k2)" "regions_ok k2"
      "maxClipped k2 = maxClipped k1" "clips k2 = fold add_clip (rects_of g ds) (clips k1)"
  proof -
    have "a \<or> dirty cw \<longleftrightarrow> next_ancestor c cw anc \<noteq> None" using walk_child.prems(1) by (auto simp: next_ancestor_def)
    moreover have "V \<inter> insert c U = {}" "\<forall>c \<in> V. \<forall>x \<in> set (both_rects g c). proper (fst x)" using walk_child.prems(2,5) walk_child.hyps(7) by blast+
    ultimately show thesis using that walk_child.IH(1) [of "next_ancestor c cw anc" "insert c U" k1] k1 p1 ro(2) by metis
  qed
  have "\<forall>x \<in> set (rects_of g ds). proper (fst x)" using dirty_walk_subset [OF walk_child.hyps(5)] walk_child.prems(5) by (fastforce simp: rects_of_def)
  then have p2: "clips_proper (clips k2)" unfolding k2(4) using p1 by (intro clips_proper_add)
  obtain k3 where k3: "dirty_children win (i + 1) anc (cleaned g (insert c U \<union> V), k2) = Some (cleaned g (insert c U \<union> V \<union> W), k3)" "regions_ok k3"
      "maxClipped k3 = maxClipped k2" "clips k3 = fold add_clip (rects_of g es) (clips k2)"
  proof -
    have "W \<inter> (insert c U \<union> V) = {}" "\<forall>c \<in> W. \<forall>x \<in> set (both_rects g c). proper (fst x)" using walk_child.prems(2,5) walk_child.hyps(8,9) by blast+
    then show thesis using that walk_child.IH(2) [of anc "insert c U \<union> V" k2] walk_child.prems(1) k1 k2 p2 ro(3) by metis
  qed
  have U: "insert c U \<union> V \<union> W = U \<union> insert c (V \<union> W)" by auto
  have "dirty_children win i anc (cleaned g U, k) = Some (cleaned g (U \<union> insert c (V \<union> W)), k3)"
    using win walk_child.hyps(2,3) k1(1) k2(1) k3(1) U by (subst dirty_children.simps) (auto simp: not_le)
  then show ?case using k1 k2 k3 by (simp add: rects_of_def)
qed

lemma createDirtyWindowRegions_ok:
  assumes g: "g root = Some w" "dirty_walk g (dirty w) root 0 ds V" "root \<notin> V" and k: "regions_ok k" "clips_proper (clips k)"
    and p: "\<forall>c \<in> insert root V. \<forall>x \<in> set (both_rects g c). proper (fst x)"
    and room: "add_room (maxClipped k) (rects_of g ((if dirty w then [root] else []) @ ds)) (clips k)"
  shows "\<exists>k'. createDirtyWindowRegions root None (g, k) = Some (cleaned g (insert root V), k') \<and> regions_ok k' \<and> maxClipped k' = maxClipped k \<and>
    clips k' = fold add_clip (rects_of g ((if dirty w then [root] else []) @ ds)) (clips k)"
proof -
  let ?one = "if dirty w then [root] else []" and ?n = "maxClipped k"
  have ro: "add_room ?n (rects_of g ?one) (clips k)" "add_room ?n (rects_of g ds) (fold add_clip (rects_of g ?one) (clips k))"
    using room by (simp_all add: rects_of_def add_room_append)
  have r: "\<forall>x \<in> set (both_rects g root). proper (fst x)" "dirty w \<and> None = None \<longrightarrow> add_room ?n (both_rects g root) (clips k)"
    using p ro(1) by (auto simp: rects_of_def)
  have e: "cleaned g {} = g" by (simp add: cleaned_def)
  obtain k1 where k1: "dirty_self root None (g, k) = Some (next_ancestor root w None, cleaned g {root}, k1)" "regions_ok k1" "maxClipped k1 = ?n"
      "clips k1 = fold add_clip (rects_of g ?one) (clips k)"
    using dirty_self_ok [of g root w "{}" k None, OF g(1) _ k r] e by auto
  have p1: "clips_proper (clips k1)" unfolding k1(4) using k(2) p by (intro clips_proper_add) (auto simp: rects_of_def)
  obtain k2 where "dirty_children root 0 (next_ancestor root w None) (cleaned g {root}, k1) = Some (cleaned g ({root} \<union> V), k2)" "regions_ok k2"
      "maxClipped k2 = maxClipped k1" "clips k2 = fold add_clip (rects_of g ds) (clips k1)"
  proof -
    have "dirty w \<longleftrightarrow> next_ancestor root w None \<noteq> None" by (simp add: next_ancestor_def)
    moreover have "V \<inter> {root} = {}" "\<forall>c \<in> V. \<forall>x \<in> set (both_rects g c). proper (fst x)" using g(3) p by blast+
    ultimately show thesis using that dirty_children_ok [OF g(2), of "next_ancestor root w None" "{root}" k1] k1 p1 ro(2) by metis
  qed
  then show ?thesis using k1 by (simp add: createDirtyWindowRegions_def rects_of_def)
qed

lemma createDirtyMouseRegion_ok:
  assumes g: "g mouse = Some m" "mouse \<notin> U" and k: "regions_ok k" "clips_proper (clips k)" "proper (winPrevRect m)"
    and room: "add_room (maxClipped k) (if dirty m then [(winPrevRect m, mouse)] else []) (clips k)"
  shows "\<exists>k'. createDirtyMouseRegion mouse (cleaned g U, k) = Some (cleaned g (insert mouse U), k') \<and> regions_ok k' \<and> maxClipped k' = maxClipped k \<and>
    clips k' = fold add_clip (if dirty m then [(winPrevRect m, mouse)] else []) (clips k)"
proof (cases "dirty m")
  case False
  then have "cleaned g (insert mouse U) = cleaned g U" using g by (auto simp: cleaned_def clean_def)
  then show ?thesis using False g k by (simp add: createDirtyMouseRegion_def cleaned_def)
next
  case True
  have u: "(cleaned g U)(mouse \<mapsto> updatePrevRect (resetFlags WindowFlags_Dirty m)) = cleaned g (insert mouse U)"
    using g True by (auto simp: cleaned_def clean_def)
  obtain k' where "addClippedRegion (winPrevRect m) (Some mouse) k = Some k'" "regions_ok k'" "clips k' = add_clip (winPrevRect m, mouse) (clips k)"
      "maxClipped k' = maxClipped k"
    using addClippedRegion_cut [OF k, of "Some mouse"] room True by (auto simp: add_clip_def)
  moreover have "cleaned g U mouse = Some m" using g by (simp add: cleaned_def)
  ultimately show ?thesis using True u by (simp add: createDirtyMouseRegion_def upd_win_def)
qed

text \<open>Copying the regions from the back to the front.\<close>

lemma copy_front:
  assumes f: "screen_ok fs" "screen_ok b" "srect b = srect fs" and c: "regions_ok c" "clips_proper (clips c)"
  shows "\<exists>fs'. for_loop 0 (numClipped c) (\<lambda>i fs. do { x \<leftarrow> rd (clippedRects c) i; blit fs b (crect x) }) fs = Some fs' \<and> screen_ok fs' \<and> srect fs' = srect fs \<and>
    (\<forall>p \<in> pixels (srect fs). pixel fs' p = (if tags p (clips c) = {#} then pixel fs p else pixel b p))"
proof -
  let ?I = "\<lambda>i fs'. screen_ok fs' \<and> srect fs' = srect fs \<and> (\<forall>p \<in> pixels (srect fs). pixel fs' p = (if tags p (take i (clips c)) = {#} then pixel fs p else pixel b p))"
  have "\<exists>fs'. for_loop 0 (numClipped c) (\<lambda>i fs. do { x \<leftarrow> rd (clippedRects c) i; blit fs b (crect x) }) fs = Some fs' \<and> ?I (numClipped c) fs'"
  proof (rule for_loop_rule [where I = ?I])
    fix i f1 assume i: "i < numClipped c" and I: "?I i f1"
    have l: "i < length (clips c)" using i length_clips [OF c(1)] by simp
    then have "small (crect (clips c ! i))" using c(2) by (auto simp: clips_proper_def proper_def)
    moreover have "screen_ok f1" using I by blast
    moreover have "surface_ok b" using f(2) by (simp add: screen_ok_def)
    ultimately obtain f2 where f2: "blit f1 b (crect (clips c ! i)) = Some f2" "drawn (\<lambda>p c. c) b (crect (clips c ! i)) f1 f2"
      using blit_drawn by blast
    have "tags p (take (Suc i) (clips c)) = {#} \<longleftrightarrow> tags p (take i (clips c)) = {#} \<and> p \<notin> pixels (crect (clips c ! i))" for p
      using l by (simp add: take_Suc_snoc)
    then have "?I (Suc i) f2" using f2(2) I f(3) by (auto simp: drawn_def)
    then show "\<exists>f2. do { x \<leftarrow> rd (clippedRects c) i; blit f1 b (crect x) } = Some f2 \<and> ?I (Suc i) f2"
      using f2(1) nth_clips [OF c(1) i] by simp
  qed (use f in simp_all)
  moreover have "take (numClipped c) (clips c) = clips c" using length_clips [OF c(1)] by simp
  ultimately show ?thesis by (simp only:)
qed

section \<open>Rendering\<close>

definition idle :: "compositor \<Rightarrow> bool" where
  "idle st \<longleftrightarrow> screen_ok (fSurface st) \<and> screen_ok (bSurface st) \<and> srect (bSurface st) = srect (fSurface st) \<and>
     regions_ok (fRenderClips st) \<and> regions_ok (bRenderClips st) \<and> regions_ok (overlapping st) \<and> numClipped (bRenderClips st) = 0 \<and>
     maxClipped (fRenderClips st) = maxClipped (bRenderClips st) \<and> maxClipped (overlapping st) = maxClipped (bRenderClips st)"

text \<open>The rectangles of a frame: those of the dirty windows, now and before, and where the mouse was.\<close>

definition frame_rects :: "gui \<Rightarrow> nat \<Rightarrow> nat list \<Rightarrow> nat \<Rightarrow> (rect \<times> nat) list" where
  "frame_rects g root ds mouse = rects_of g ((if dirty (the (g root)) then [root] else []) @ ds) @
     (if dirty (the (g mouse)) then [(winPrevRect (the (g mouse)), mouse)] else [])"

definition front_pixel :: "gui \<Rightarrow> nat \<Rightarrow> nat list \<Rightarrow> (rect \<times> nat) list \<Rightarrow> compositor \<Rightarrow> int \<times> int \<Rightarrow> u32" where
  "front_pixel g mouse ws rs st p =
     (if tag_of rs p = None then pixel (fSurface st) p
      else if p \<in> pixels (win_rect g mouse) then pixel (surf (the (g mouse))) p
      else snd (fold (paint g p) ws (tag_of rs p, pixel (bSurface st) p)))"

lemma tagged_empty [simp]: "tagged t = {#} \<longleftrightarrow> t = None"
  by (cases t) (simp_all add: tagged_def)

lemma regions_collected:
  assumes st: "idle st" and g: "g root = Some w" "dirty_walk g (dirty w) root 0 ds V" "root \<notin> V" "g mouse = Some m" "mouse \<notin> insert root V"
    and p: "\<forall>c \<in> insert root V. \<forall>x \<in> set (both_rects g c). proper (fst x)" "proper (winPrevRect m)"
    and room: "add_room (maxClipped (bRenderClips st)) (frame_rects g root ds mouse) []"
  shows "\<exists>k k'. createDirtyWindowRegions root None (g, bRenderClips st) = Some (cleaned g (insert root V), k) \<and>
    createDirtyMouseRegion mouse (cleaned g (insert root V), k) = Some (cleaned g (insert mouse (insert root V)), k') \<and>
    regions_ok k' \<and> maxClipped k' = maxClipped (bRenderClips st) \<and> clips k' = fold add_clip (frame_rects g root ds mouse) [] \<and>
    clips_proper (clips k') \<and> (\<forall>q. tags q (clips k') = tagged (tag_of (frame_rects g root ds mouse) q))"
proof -
  let ?k = "bRenderClips st" and ?ws = "rects_of g ((if dirty w then [root] else []) @ ds)" and ?ms = "if dirty m then [(winPrevRect m, mouse)] else []"
  have rs: "frame_rects g root ds mouse = ?ws @ ?ms" using g(1,4) by (simp add: frame_rects_def)
  have k: "regions_ok ?k" "clips ?k = []" using st by (simp_all add: idle_def clips_def)
  have ro: "add_room (maxClipped ?k) ?ws (clips ?k)" "add_room (maxClipped ?k) ?ms (fold add_clip ?ws [])"
    using room k(2) by (simp_all add: rs add_room_append del: fold_append)
  have pw: "\<forall>x \<in> set ?ws. proper (fst x)" using p(1) dirty_walk_subset [OF g(2)] by (fastforce simp: rects_of_def split: if_splits)
  obtain k1 where k1: "createDirtyWindowRegions root None (g, ?k) = Some (cleaned g (insert root V), k1)" "regions_ok k1" "maxClipped k1 = maxClipped ?k"
      "clips k1 = fold add_clip ?ws []"
    using createDirtyWindowRegions_ok [OF g(1-3) k(1) _ p(1) ro(1)] k(2) by auto
  have p1: "clips_proper (clips k1)" unfolding k1(4) using pw by (intro clips_proper_add) simp_all
  obtain k2 where k2: "createDirtyMouseRegion mouse (cleaned g (insert root V), k1) = Some (cleaned g (insert mouse (insert root V)), k2)" "regions_ok k2"
      "maxClipped k2 = maxClipped k1" "clips k2 = fold add_clip ?ms (clips k1)"
    using createDirtyMouseRegion_ok [of g mouse m "insert root V" k1, OF g(4,5) k1(2) p1 p(2)] ro(2) k1(3,4) by auto
  have e: "clips k2 = fold add_clip (?ws @ ?ms) []" using k1(4) k2(4) by simp
  have pa: "\<forall>x \<in> set (?ws @ ?ms). proper (fst x)" using pw p(2) by auto
  have "clips_proper (clips k2)" unfolding e using pa by (intro clips_proper_add) simp_all
  moreover have "tags q (clips k2) = tagged (tag_of (?ws @ ?ms) q)" for q
    unfolding e tag_of_def using pa by (intro tags_add) (simp_all add: tagged_def)
  ultimately show ?thesis using k1 k2 e by (simp add: rs del: fold_append)
qed

lemma win_rect_cleaned [simp]: "g i \<noteq> None \<Longrightarrow> surf (the (cleaned g U i)) = surf (the (g i))"
  by (auto simp: cleaned_def)

lemma dirty_walk_exists: "dirty_walk g a win i ds V \<Longrightarrow> c \<in> V \<Longrightarrow> g c \<noteq> None"
  by (induction rule: dirty_walk.induct) auto

lemma frame_windows:
  assumes "dirty_walk g (dirty w) root 0 ds V" "g root = Some w" "g mouse = Some m" "x \<in> set (fold add_clip (frame_rects g root ds mouse) [])"
  shows "\<exists>u. cwin x = Some u \<and> cleaned g U u \<noteq> None"
proof -
  obtain y where y: "y \<in> set (frame_rects g root ds mouse)" "cwin x = Some (snd y)" using cwin_add [OF assms(4)] by auto
  then have "snd y = root \<or> snd y = mouse \<or> snd y \<in> set ds"
    by (auto simp: frame_rects_def rects_of_def both_rects_def split: if_splits)
  then have "g (snd y) \<noteq> None" using dirty_walk_exists [OF assms(1)] dirty_walk_subset [OF assms(1)] assms(2,3) by auto
  then show ?thesis using y(2) by (auto simp: cleaned_def)
qed

lemma compositor_init_idle:
  assumes "screen_ok s" "length block = length (sbuff s)" "length fclips = 200" "length bclips = 200" "regions_ok ov" "maxClipped ov = 200"
  shows "idle (compositor_init block fclips bclips s ov)"
  using assms by (simp add: idle_def compositor_init_def screen_ok_def surface_ok_def regions_ok_def)

text \<open>A screen of four pixels with a window in one corner and the mouse in the other.\<close>

definition one_window :: "rect \<Rightarrow> u32 list \<Rightarrow> u32 \<Rightarrow> nat option list \<Rightarrow> nat \<Rightarrow> window" where
  "one_window r b fl ws n = \<lparr>windowName = None, windowID = 0, flags = fl, surf = \<lparr>srect = r, sbuff = b\<rparr>, color = 0, priority = 2, parent = None, windows = ws, numWindows = n,
     maxWindows = 2, winPrevRect = r, hoverWindow = None, selectedWindow = None\<rparr>"

definition small_gui :: gui where
  "small_gui = [0 \<mapsto> one_window (mk_rect 0 0 2 2) [1, 1, 1, 1] 0x20 [Some 1, None] 1, 1 \<mapsto> one_window (mk_rect 0 0 1 1) [2] 0 [None, None] 0,
     2 \<mapsto> one_window (mk_rect 1 1 1 1) [3] 0 [None, None] 0]"

definition small_compositor :: compositor where
  "small_compositor = compositor_init [0, 0, 0, 0] (replicate 200 \<lparr>crect = mk_rect 0 0 1 1, cwin = None\<rparr>) (replicate 200 \<lparr>crect = mk_rect 0 0 1 1, cwin = None\<rparr>)
     \<lparr>srect = mk_rect 0 0 2 2, sbuff = [9, 9, 9, 9]\<rparr> \<lparr>numClipped = 0, maxClipped = 200, clippedRects = replicate 200 \<lparr>crect = mk_rect 0 0 1 1, cwin = None\<rparr>\<rparr>"

lemma small_gui_facts:
  "idle small_compositor" "dirty_walk small_gui True 0 0 [] {1}" "draw_order (cleaned small_gui {2, 0, 1}) 0 1 [1, 0]"
  "\<forall>v \<in> set [1, 0]. visible (cleaned small_gui {2, 0, 1}) v" "\<forall>c \<in> {0, 1}. \<forall>x \<in> set (both_rects small_gui c). proper (fst x)"
proof -
  note defs = small_gui_def one_window_def mk_rect_def getFlag_def
  show "idle small_compositor"
    unfolding small_compositor_def by (rule compositor_init_idle) (simp_all add: screen_ok_def surface_ok_def proper_def small_def mk_rect_def regions_ok_def)
  have "dirty_walk small_gui True 1 0 [] {}" using walk_done [of small_gui 1 "the (small_gui 1)" 0 True] by (simp add: defs)
  moreover have "dirty_walk small_gui True 0 1 [] {}" using walk_done [of small_gui 0 "the (small_gui 0)" 1 True] by (simp add: defs)
  ultimately show "dirty_walk small_gui True 0 0 [] {1}"
    using walk_child [of small_gui 0 "the (small_gui 0)" 0 1 "the (small_gui 1)" True "[]" "{}" "[]" "{}"] by (simp add: defs child_at_def)
  let ?g = "cleaned small_gui {2, 0, 1}"
  have g: "\<exists>w. ?g 0 = Some w \<and> \<not> getFlag WindowFlags_Invisible w \<and> surface_ok (surf w)"
      "\<exists>w. ?g 1 = Some w \<and> numWindows w = 0 \<and> \<not> getFlag WindowFlags_Invisible w \<and> surface_ok (surf w)" "child_at 0 0 ?g = Some 1"
    by (simp_all add: cleaned_def clean_def resetFlags_def updatePrevRect_def child_at_def surface_ok_def proper_def small_def defs)
  then have "draw_order ?g 0 0 [0]" "draw_order ?g 1 0 [1]" using order_self [of ?g 0] order_self [of ?g 1] by auto
  then show "draw_order ?g 0 1 [1, 0]" using order_child [of 0 0 ?g 1 _ "[1]" "[0]"] g(2,3) by auto
  show "\<forall>v \<in> set [1, 0]. visible ?g v" using g(1,2) by (auto simp: visible_def)
  show "\<forall>c \<in> {0, 1}. \<forall>x \<in> set (both_rects small_gui c). proper (fst x)" by (simp add: both_rects_def proper_def small_def defs)
qed

subsection \<open>What a frame does\<close>

text \<open>
  The code of a frame, pixel by pixel: the old colour outside the rectangles that were collected, which
  for a pointer that moved are those of its previous place only; the pointer where it is; and elsewhere
  what the tags of the regions make of the windows.
\<close>

lemma render_ok:
  assumes st: "idle st" and g: "g root = Some w" "dirty_walk g (dirty w) root 0 ds V" "root \<notin> V" "g mouse = Some m" "mouse \<notin> insert root V"
    and p: "\<forall>c \<in> insert root V. \<forall>x \<in> set (both_rects g c). proper (fst x)" "proper (winPrevRect m)" "surface_ok (surf m)"
    and g': "g' = cleaned g (insert mouse (insert root V))" and ws: "draw_order g' root (numWindows w) ws" "\<forall>v \<in> set ws. visible g' v"
    and rs: "rs = frame_rects g root ds mouse" and room: "add_room (maxClipped (bRenderClips st)) rs []"
      "room_for (maxClipped (bRenderClips st)) g' ws (fold add_clip rs [])"
  shows "\<exists>st'. render root mouse (g, st) = Some (g', st') \<and> idle st' \<and> srect (fSurface st') = srect (fSurface st) \<and>
    (\<forall>q \<in> pixels (srect (fSurface st)). pixel (fSurface st') q = front_pixel g' mouse ws rs st q)"
proof -
  let ?n = "maxClipped (bRenderClips st)"
  obtain k k' where k: "createDirtyWindowRegions root None (g, bRenderClips st) = Some (cleaned g (insert root V), k)"
      "createDirtyMouseRegion mouse (cleaned g (insert root V), k) = Some (g', k')"
      "regions_ok k'" "maxClipped k' = ?n" "clips k' = fold add_clip rs []" "clips_proper (clips k')" "\<forall>q. tags q (clips k') = tagged (tag_of rs q)"
    using regions_collected [OF st g p(1,2) room(1) [unfolded rs]] unfolding g' rs by blast
  have gm: "g' mouse \<noteq> None" "surf (the (g' mouse)) = surf m" using g(4) by (simp_all add: g' cleaned_def)
  have gr: "\<exists>w'. g' root = Some w' \<and> numWindows w' = numWindows w" using g(1) by (simp add: g' cleaned_def)
  have st0: "screen_ok (fSurface st)" "screen_ok (bSurface st)" "srect (bSurface st) = srect (fSurface st)" "regions_ok (fRenderClips st)" "regions_ok (overlapping st)"
    "maxClipped (fRenderClips st) = ?n" "maxClipped (overlapping st) = ?n" using st by (simp_all add: idle_def)
  show ?thesis
  proof (cases "numClipped k' = 0")
    case True
    then have none: "tag_of rs q = None" for q using k(7) by (cases q) (simp add: clips_def)
    have "render root mouse (g, st) = Some (g', st\<lparr>bRenderClips := k'\<rparr>)" using k(1,2) True by (simp add: render_def getNumClipped_def)
    moreover have "idle (st\<lparr>bRenderClips := k'\<rparr>)" using st k(3,4) True by (simp add: idle_def)
    ultimately show ?thesis using none by (simp add: front_pixel_def)
  next
    case False
    obtain f where f: "copyRegion (fRenderClips st) k' = Some f" "regions_ok f" "clips f = clips k'" "maxClipped f = ?n"
      using copyRegion_clips [OF st0(4) k(3)] st0(6) k(4) by auto
    let ?st = "st\<lparr>bRenderClips := k', fRenderClips := f\<rparr>"
    have "comp_ok g' ?st" using st0 k frame_windows [OF g(2,1,4), of _ "insert mouse (insert root V)"] by (auto simp: comp_ok_def g' rs)
    then obtain st1 where st1: "draw_all g' ws ?st = Some st1" "comp_ok g' st1" "srect (bSurface st1) = srect (bSurface st)" "fSurface st1 = fSurface st"
        "fRenderClips st1 = f" "\<forall>q \<in> pixels (srect (bSurface st)). pixel (bSurface st1) q = snd (fold (paint g' q) ws (tag_of rs q, pixel (bSurface st) q))"
        "maxClipped (bRenderClips st1) = ?n"
      using draw_all_paints [of g' ?st ws "tag_of rs"] ws(2) room(2) k(4,5,7) by auto
    have draw: "drawWindow g' root ?st = Some st1" using gr draw_from_order [OF ws(1)] st1(1) by (auto simp: drawWindow_def)
    have b1: "screen_ok (bSurface st1)" using st1(2) by (simp add: comp_ok_def)
    have "small (srect (surf m))" using p(3) by (simp add: surface_ok_def proper_def)
    then obtain b where b: "blit (bSurface st1) (surf m) (srect (surf m)) = Some b" "drawn (\<lambda>p c. c) (surf m) (srect (surf m)) (bSurface st1) b"
      using blit_drawn [OF b1 p(3)] by blast
    have bs: "screen_ok b" "srect b = srect (fSurface st)" using b(2) st1(3) st0(3) by (auto simp: drawn_def)
    obtain fs where fs: "for_loop 0 (numClipped f) (\<lambda>i fs. do { x \<leftarrow> rd (clippedRects f) i; blit fs b (crect x) }) (fSurface st) = Some fs" "screen_ok fs"
        "srect fs = srect (fSurface st)" "\<forall>q \<in> pixels (srect (fSurface st)). pixel fs q = (if tags q (clips f) = {#} then pixel (fSurface st) q else pixel b q)"
      using copy_front [OF st0(1) bs(1,2) f(2)] f(3) k(6) by auto
    let ?st' = "st1\<lparr>bSurface := b, fSurface := fs, fRenderClips := resetClippedList f, bRenderClips := resetClippedList (bRenderClips st1)\<rparr>"
    obtain mm where mm: "g' mouse = Some mm" "surf mm = surf m" using gm by auto
    have "render root mouse (g, st) = Some (g', ?st')"
      using k(1,2) False f(1) draw mm b(1) fs(1) st1(4) by (simp add: render_def getNumClipped_def)
    moreover have "idle ?st'" using fs(2,3) bs st1(2,7) f(2,4) by (simp add: idle_def comp_ok_def resetClippedList_def regions_ok_def)
    moreover have "pixel fs q = front_pixel g' mouse ws rs st q" if "q \<in> pixels (srect (fSurface st))" for q
      using fs(4) that f(3) k(7) b(2) st1(3,6) st0(3) mm by (auto simp: front_pixel_def drawn_def)
    ultimately show ?thesis using fs(3) by auto
  qed
qed

subsection \<open>The picture of a painter\<close>

text \<open>
  What is seen at a pixel, looking from the front: nothing in front of the first window that covers
  it, then each covering window behind the mixture of those before it, as long as these are
  transparent. Where no window is, the old colour stays.
\<close>

fun look :: "gui \<Rightarrow> int \<times> int \<Rightarrow> u32 option \<Rightarrow> nat list \<Rightarrow> u32 \<Rightarrow> u32" where
  "look g q seen [] old = (case seen of None \<Rightarrow> old | Some v \<Rightarrow> v)"
| "look g q seen (w # ws) old =
     (if q \<in> pixels (win_rect g w) then
        let c = pixel (surf (the (g w))) q; v = (case seen of None \<Rightarrow> c | Some a \<Rightarrow> blend a c)
        in if transparent g w then look g q (Some v) ws old else v
      else look g q seen ws old)"

lemma paint_covered: "snd (fold (paint g q) ws (None, v)) = v"
  by (induction ws) (simp_all add: paint_def)

lemma paint_looks_on: "transparent g u \<Longrightarrow> snd (fold (paint g q) ws (Some u, v)) = look g q (Some v) ws old"
  by (induction ws arbitrary: u v) (simp_all add: paint_def paint_covered Let_def)

lemma paint_looks: "\<not> transparent g u \<Longrightarrow> snd (fold (paint g q) ws (Some u, v)) = look g q None ws v"
  by (induction ws arbitrary: u) (simp_all add: paint_def paint_covered paint_looks_on Let_def)

definition redrawn :: "gui \<Rightarrow> nat list \<Rightarrow> int \<times> int \<Rightarrow> bool" where
  "redrawn g ds q \<longleftrightarrow> (\<exists>c\<in>set ds. q \<in> pixels (win_rect g c) \<or> q \<in> pixels (winPrevRect (the (g c))))"

lemma tag_of_snoc: "tag_of (rs @ [x]) p = (if p \<in> pixels (fst x) then Some (snd x) else tag_of rs p)"
  by (simp add: tag_of_def)

lemma tag_of_iff: "tag_of rs p \<noteq> None \<longleftrightarrow> (\<exists>x\<in>set rs. p \<in> pixels (fst x))"
  by (induction rs rule: rev_induct) (auto simp: tag_of_snoc, simp add: tag_of_def)

lemma tag_of_member: "tag_of rs p = Some u \<Longrightarrow> u \<in> snd ` set rs"
  by (induction rs rule: rev_induct) (auto simp: tag_of_snoc split: if_splits, simp add: tag_of_def)

lemma tag_of_redrawn:
  "tag_of (rects_of g ds) q \<noteq> None \<longleftrightarrow> redrawn g ds q"
  "tag_of (rects_of g ds) q = Some u \<Longrightarrow> u \<in> set ds"
  unfolding tag_of_iff using tag_of_member [of "rects_of g ds" q u]
  by (auto simp: redrawn_def rects_of_def both_rects_def)

lemma front_pixel_looks:
  assumes "\<forall>c\<in>set ds. \<not> transparent g' c" "rs = rects_of g ds"
  shows "front_pixel g' mouse ws rs st q =
    (if \<not> redrawn g ds q then pixel (fSurface st) q
     else if q \<in> pixels (win_rect g' mouse) then pixel (surf (the (g' mouse))) q
     else look g' q None ws (pixel (bSurface st) q))"
proof (cases "tag_of rs q")
  case None
  then show ?thesis using tag_of_redrawn(1) [of g ds q] assms(2) by (simp add: front_pixel_def)
next
  case (Some u)
  then have "redrawn g ds q" "\<not> transparent g' u" using tag_of_redrawn(1) [of g ds q] tag_of_redrawn(2) [of g ds q u] assms by auto
  then show ?thesis using Some paint_looks [of g' u q ws] by (simp add: front_pixel_def)
qed

section \<open>Properties\<close>

text \<open>
  C16: Rendering. For a tree of windows with proper rectangles, room for the regions, opaque dirty
  windows and a pointer that has not moved, \<open>render\<close> returns, resets the dirty marks, remembers the
  drawn positions, and leaves on the front surface exactly the picture of a painter: inside the
  current and previous rectangles of the topmost dirty windows the pointer where it is, and elsewhere
  the first window from the front that covers the pixel, mixed with those behind it as long as they
  are transparent; outside them the old colours. (A pointer that moved and a dirty window that is
  transparent are the cases in which the code draws something else.)
\<close>

theorem render_paints:
  assumes st: "idle st" and g: "g root = Some w" "dirty_walk g (dirty w) root 0 ds V" "root \<notin> V" "g mouse = Some m" "mouse \<notin> insert root V"
    and p: "\<forall>c \<in> insert root V. \<forall>x \<in> set (both_rects g c). proper (fst x)" "proper (winPrevRect m)" "surface_ok (surf m)"
    and g': "g' = cleaned g (insert mouse (insert root V))" and ws: "draw_order g' root (numWindows w) ws" "\<forall>v \<in> set ws. visible g' v"
    and ds: "ds' = (if dirty w then [root] else []) @ ds" "\<forall>c\<in>set ds'. \<not> transparent g' c" and m: "\<not> dirty m"
    and room: "add_room (maxClipped (bRenderClips st)) (rects_of g ds') []"
      "room_for (maxClipped (bRenderClips st)) g' ws (fold add_clip (rects_of g ds') [])"
  shows "\<exists>st'. render root mouse (g, st) = Some (g', st') \<and> idle st' \<and> srect (fSurface st') = srect (fSurface st) \<and>
    (\<forall>q \<in> pixels (srect (fSurface st)). pixel (fSurface st') q =
      (if \<not> redrawn g ds' q then pixel (fSurface st) q
       else if q \<in> pixels (srect (surf m)) then pixel (surf m) q
       else look g' q None ws (pixel (bSurface st) q)))"
proof -
  have rs: "frame_rects g root ds mouse = rects_of g ds'" using g(1,4) m ds(1) by (simp add: frame_rects_def)
  have gm: "surf (the (g' mouse)) = surf m" using g(4) by (simp add: g')
  show ?thesis
    using render_ok [OF st g p g' ws rs [symmetric] room]
    unfolding front_pixel_looks [OF ds(2) refl, where g = g and mouse = mouse and ws = ws and st = st] gm .
qed

theorem render_paints_witness:
  "\<exists>st'. render 0 2 (small_gui, small_compositor) = Some (cleaned small_gui {2, 0, 1}, st') \<and>
    pixel (fSurface st') (0, 0) = 2 \<and> pixel (fSurface st') (1, 0) = 1 \<and> pixel (fSurface st') (1, 1) = 3"
proof -
  note defs = small_gui_def one_window_def mk_rect_def getFlag_def
  let ?g = "cleaned small_gui {2, 0, 1}" and ?ds = "(if dirty (the (small_gui 0)) then [0] else []) @ []"
  have ds: "?ds = [0 :: nat]" by (simp add: defs)
  obtain st' where st': "render 0 2 (small_gui, small_compositor) = Some (?g, st')"
    "\<forall>q \<in> pixels (srect (fSurface small_compositor)). pixel (fSurface st') q =
      (if \<not> redrawn small_gui ?ds q then pixel (fSurface small_compositor) q
       else if q \<in> pixels (srect (surf (the (small_gui 2)))) then pixel (surf (the (small_gui 2))) q
       else look ?g q None [1, 0] (pixel (bSurface small_compositor) q))"
  proof -
    have "\<exists>st'. render 0 2 (small_gui, small_compositor) = Some (?g, st') \<and> idle st' \<and> srect (fSurface st') = srect (fSurface small_compositor) \<and>
      (\<forall>q \<in> pixels (srect (fSurface small_compositor)). pixel (fSurface st') q =
      (if \<not> redrawn small_gui ?ds q then pixel (fSurface small_compositor) q
       else if q \<in> pixels (srect (surf (the (small_gui 2)))) then pixel (surf (the (small_gui 2))) q
       else look ?g q None [1, 0] (pixel (bSurface small_compositor) q)))"
    proof (rule render_paints [where V = "{1}" and w = "the (small_gui 0)" and m = "the (small_gui 2)"])
      show "dirty_walk small_gui (dirty (the (small_gui 0))) 0 0 [] {1}" using small_gui_facts(2) by (simp add: defs)
      show "draw_order ?g 0 (numWindows (the (small_gui 0))) [1, 0]" using small_gui_facts(3) by (simp add: defs)
      show "proper (winPrevRect (the (small_gui 2)))" "surface_ok (surf (the (small_gui 2)))" by (simp_all add: defs surface_ok_def proper_def small_def)
      show "add_room (maxClipped (bRenderClips small_compositor)) (rects_of small_gui ?ds) []" by code_simp
      show "room_for (maxClipped (bRenderClips small_compositor)) ?g [1, 0] (fold add_clip (rects_of small_gui ?ds) [])" by code_simp
      show "\<forall>c\<in>set ?ds. \<not> transparent ?g c"
        unfolding ds by (simp add: transparent_def cleaned_def clean_def resetFlags_def updatePrevRect_def defs)
      show "\<not> dirty (the (small_gui 2))" by (simp add: defs)
    qed (use small_gui_facts in \<open>simp_all add: small_gui_def\<close>)
    then show thesis using that by blast
  qed
  have sf: "srect (fSurface small_compositor) = mk_rect 0 0 2 2" by (simp add: small_compositor_def compositor_init_def)
  have r: "redrawn small_gui ?ds q" if "q \<in> pixels (mk_rect 0 0 2 2)" for q
    using that unfolding ds by (simp add: redrawn_def defs)
  have w: "surf (the (?g 0)) = \<lparr>srect = mk_rect 0 0 2 2, sbuff = [1, 1, 1, 1]\<rparr>" "surf (the (?g 1)) = \<lparr>srect = mk_rect 0 0 1 1, sbuff = [2]\<rparr>"
      "surf (the (small_gui 2)) = \<lparr>srect = mk_rect 1 1 1 1, sbuff = [3]\<rparr>" "\<not> transparent ?g 0" "\<not> transparent ?g 1"
    by (simp_all add: transparent_def cleaned_def clean_def resetFlags_def updatePrevRect_def defs)
  have px: "(0, 0) \<in> pixels (mk_rect 0 0 2 2)" "(1, 0) \<in> pixels (mk_rect 0 0 2 2)" "(1, 1) \<in> pixels (mk_rect 0 0 2 2)"
    by (simp_all add: pixels_def mk_rect_def)
  have look: "look ?g (0, 0) None [1, 0] old = 2" "look ?g (1, 0) None [1, 0] old = 1" for old
    by (simp_all add: w pixels_def pixel_def offset_in_def mk_rect_def del: One_nat_def)
  have pt: "(0, 0) \<notin> pixels (mk_rect 1 1 1 1)" "(1, 0) \<notin> pixels (mk_rect 1 1 1 1)" "(1, 1) \<in> pixels (mk_rect 1 1 1 1)"
      "pixel \<lparr>srect = mk_rect 1 1 1 1, sbuff = [3]\<rparr> (1, 1) = 3"
    by (simp_all add: pixels_def mk_rect_def pixel_def offset_in_def)
  have "pixel (fSurface st') (0, 0) = 2" "pixel (fSurface st') (1, 0) = 1" "pixel (fSurface st') (1, 1) = 3"
    using st'(2) [unfolded sf w, rule_format, OF px(1)] st'(2) [unfolded sf w, rule_format, OF px(2)]
      st'(2) [unfolded sf w, rule_format, OF px(3)] r [OF px(1)] r [OF px(2)] r [OF px(3)] pt
    unfolding look by (simp_all del: look.simps One_nat_def)
  then show ?thesis using st'(1) by blast
qed

end
