(* ===== verification/Data_Stream.thy ===== *)
theory Data_Stream
  imports Flibc_String "HOL-Library.Signed_Division"
begin

text \<open>
  The byte streams of \<open>src/libTellur/DataStream.cpp\<close> and the helpers of \<open>src/libTellur/Utility.cpp\<close>. A
  stream is an array, the index of the next byte and a length; numbers are decoded from the lowest
  byte on, or in groups of seven bits. Reading behind the array is undefined.
\<close>

section \<open>Definitions\<close>

record data_stream =
  ds_data :: "cbuf option"
  ds_index :: u64
  streamLen :: u64

definition DataStream :: "cbuf option \<Rightarrow> u64 \<Rightarrow> data_stream" where
  "DataStream d n = \<lparr>ds_data = d, ds_index = 0, streamLen = n\<rparr>"

definition DataStream_unbounded :: "cbuf option \<Rightarrow> data_stream" where
  "DataStream_unbounded d = \<lparr>ds_data = d, ds_index = 0, streamLen = -1\<rparr>"

definition ds_byte :: "data_stream \<Rightarrow> u64 \<Rightarrow> u8 option" where
  "ds_byte s i = do { d \<leftarrow> ds_data s; rd d (unat i) }"

definition decodeUInt8 :: "data_stream \<Rightarrow> (u8 \<times> data_stream) option" where
  "decodeUInt8 s = do {
     res \<leftarrow> ds_byte s (ds_index s);
     Some (res, s\<lparr>ds_index := ds_index s + 1\<rparr>) }"

definition decodeUInt16 :: "data_stream \<Rightarrow> (u16 \<times> data_stream) option" where
  "decodeUInt16 s = do {
     a \<leftarrow> ds_byte s (ds_index s);
     b \<leftarrow> ds_byte s (ds_index s + 1);
     Some (ucast a OR push_bit 8 (ucast b), s\<lparr>ds_index := ds_index s + 2\<rparr>) }"

definition decodeUInt32 :: "data_stream \<Rightarrow> (u32 \<times> data_stream) option" where
  "decodeUInt32 s = do {
     a \<leftarrow> ds_byte s (ds_index s);
     b \<leftarrow> ds_byte s (ds_index s + 1);
     c \<leftarrow> ds_byte s (ds_index s + 2);
     d \<leftarrow> ds_byte s (ds_index s + 3);
     Some (ucast a OR push_bit 8 (ucast b) OR push_bit 16 (ucast c) OR push_bit 24 (ucast d), s\<lparr>ds_index := ds_index s + 4\<rparr>) }"

text \<open>
  The loops that collect groups of seven bits. A group is shifted as an \<open>int\<close>, by at most 31 places,
  and sign-extended when it is added to the result of type \<open>size_t\<close>.
\<close>

definition leb_group :: "u8 \<Rightarrow> nat \<Rightarrow> u64 option" where
  "leb_group b shift = (if shift < 32 then Some (scast (push_bit shift (ucast (0x7f AND b) :: u32))) else None)"

function leb_loop :: "data_stream \<Rightarrow> nat \<Rightarrow> u64 \<Rightarrow> (u8 \<times> nat \<times> u64 \<times> data_stream) option" where
  "leb_loop s shift result = (if shift < 32 then do {
     b \<leftarrow> ds_byte s (ds_index s);
     let s = s\<lparr>ds_index := ds_index s + 1\<rparr>;
     x \<leftarrow> leb_group b shift;
     let result = result OR x;
     let shift = shift + 7;
     if 0x80 AND b = 0 then Some (b, shift, result, s) else leb_loop s shift result }
   else None)"
  by pat_completeness auto
termination
  by (relation "measure (\<lambda>(s, shift, result). 32 - shift)") auto

declare leb_loop.simps [simp del]

definition decodeLeb128 :: "data_stream \<Rightarrow> (u64 \<times> data_stream) option" where
  "decodeLeb128 s = do {
     (b, shift, result, s) \<leftarrow> leb_loop s 0 0;
     if 0x40 AND b \<noteq> 0 then (if shift < 32 then Some (result OR scast (- push_bit shift (1 :: u32)), s) else None)
     else Some (result, s) }"

definition decodeULeb128 :: "data_stream \<Rightarrow> (u64 \<times> data_stream) option" where
  "decodeULeb128 s = do {
     (b, shift, result, s) \<leftarrow> leb_loop s 0 0;
     Some (result, s) }"

definition isStreamable :: "data_stream \<Rightarrow> bool" where
  "isStreamable s \<longleftrightarrow> ds_data s \<noteq> None \<and> ds_index s < streamLen s"

definition getData :: "data_stream \<Rightarrow> cbuf option" where "getData s = ds_data s"

text \<open>The pointer into the array, as an index.\<close>

definition getData_at :: "u64 \<Rightarrow> data_stream \<Rightarrow> nat option" where
  "getData_at idx s = (if idx \<ge> 0 \<and> idx < streamLen s then Some (unat idx) else None)"

definition setData :: "cbuf option \<Rightarrow> data_stream \<Rightarrow> data_stream" where "setData d s = s\<lparr>ds_data := d\<rparr>"
definition setOffset :: "u64 \<Rightarrow> data_stream \<Rightarrow> data_stream" where "setOffset n s = s\<lparr>ds_index := n\<rparr>"
definition setLen :: "u64 \<Rightarrow> data_stream \<Rightarrow> data_stream" where "setLen n s = s\<lparr>streamLen := n\<rparr>"

subsection \<open>Utility.cpp\<close>

definition lighter :: "u8 \<Rightarrow> u8" where
  "lighter c = of_nat (min (unat c + unat c div 8) 0xff)"

definition translateLightColor :: "u32 \<Rightarrow> u32" where
  "translateLightColor c = 0xff000000 OR push_bit 16 (ucast (lighter (ucast (drop_bit 16 c AND 0xff)))) OR
     push_bit 8 (ucast (lighter (ucast (drop_bit 8 c AND 0xff)))) OR ucast (lighter (ucast (c AND 0xff)))"

definition isWhitespace :: "u8 \<Rightarrow> bool" where
  "isWhitespace c \<longleftrightarrow> sint c < 0x30 \<or> sint c > 0x39"

text \<open>Division of an \<open>int\<close> rounds towards zero.\<close>

function digits_loop :: "int \<Rightarrow> nat \<Rightarrow> nat" where
  "digits_loop num count = (if num sdiv 10 \<noteq> 0 then digits_loop (num sdiv 10) (count + 1) else count)"
  by pat_completeness auto
termination
  by (relation "measure (\<lambda>(num, count). nat \<bar>num\<bar>)") (auto simp: signed_divide_int_def sgn_if split: if_splits)

declare digits_loop.simps [simp del]

definition getNumDigits :: "int \<Rightarrow> nat" where "getNumDigits num = digits_loop num 1"

section \<open>Decoding\<close>

text \<open>A stream that stands before the bytes \<open>xs\<close>.\<close>

definition before :: "data_stream \<Rightarrow> u8 list \<Rightarrow> bool" where
  "before s xs \<longleftrightarrow> (\<exists>d ys. ds_data s = Some d \<and> drop (unat (ds_index s)) d = xs @ ys \<and> unat (ds_index s) + length xs < 2 ^ 64)"

lemma before_byte:
  assumes "before s xs" "i < length xs"
  shows "ds_byte s (ds_index s + of_nat i) = Some (xs ! i)"
proof -
  obtain d ys where d: "ds_data s = Some d" "drop (unat (ds_index s)) d = xs @ ys" "unat (ds_index s) + length xs < 2 ^ 64"
    using assms(1) unfolding before_def by blast
  have "unat (ds_index s + of_nat i) = unat (ds_index s) + i"
    using d(3) assms(2) by (simp add: unat_add_small unat_of_nat_small)
  moreover have l: "unat (ds_index s) + i < length d" using assms(2) arg_cong [OF d(2), of length] by simp
  moreover have "d ! (unat (ds_index s) + i) = xs ! i"
    using l assms(2) arg_cong [OF d(2), of "\<lambda>l. l ! i"] by (simp add: nth_append)
  ultimately show ?thesis using d(1) by (simp add: ds_byte_def rd_def)
qed

lemma before_move:
  assumes "before s (xs @ ys)"
  shows "before (s\<lparr>ds_index := ds_index s + of_nat (length xs)\<rparr>) ys"
proof -
  obtain d zs where d: "ds_data s = Some d" "drop (unat (ds_index s)) d = (xs @ ys) @ zs" "unat (ds_index s) + length (xs @ ys) < 2 ^ 64"
    using assms unfolding before_def by blast
  have "unat (ds_index s + of_nat (length xs)) = unat (ds_index s) + length xs"
    using d(3) by (simp add: unat_add_small unat_of_nat_small)
  moreover have "drop (unat (ds_index s) + length xs) d = ys @ zs"
    using arg_cong [OF d(2), of "drop (length xs)"] by (simp add: add.commute)
  ultimately show ?thesis using d(1,3) by (auto simp: before_def)
qed

text \<open>The encodings.\<close>

definition le16 :: "u16 \<Rightarrow> u8 list" where "le16 n = [ucast n, ucast (drop_bit 8 n)]"
definition le32 :: "u32 \<Rightarrow> u8 list" where "le32 n = [ucast n, ucast (drop_bit 8 n), ucast (drop_bit 16 n), ucast (drop_bit 24 n)]"

fun uleb :: "nat \<Rightarrow> u8 list" where
  "uleb n = (if n < 128 then [of_nat n] else of_nat (128 + n mod 128) # uleb (n div 128))"

declare uleb.simps [simp del]

lemma le16_join: "(ucast (ucast n :: u8) OR push_bit 8 (ucast (ucast (drop_bit 8 n) :: u8)) :: u16) = n"
  by (rule bit_word_eqI) (auto simp: bit_simps)

lemma le32_join: "(ucast (ucast n :: u8) OR push_bit 8 (ucast (ucast (drop_bit 8 n) :: u8)) OR push_bit 16 (ucast (ucast (drop_bit 16 n) :: u8)) OR
    push_bit 24 (ucast (ucast (drop_bit 24 n) :: u8)) :: u32) = n"
proof (rule bit_word_eqI, goal_cases)
  case (1 i)
  then show ?case by (cases "i < 16"; cases "i < 24") (auto simp: bit_simps)
qed

lemma decodeUInt8_ok: "before s (b # xs) \<Longrightarrow> \<exists>s'. decodeUInt8 s = Some (b, s') \<and> before s' xs \<and> ds_data s' = ds_data s"
  using before_byte [of s "b # xs" 0] before_move [of s "[b]" xs] by (simp add: decodeUInt8_def)

lemma decodeUInt16_ok: "before s (le16 n @ xs) \<Longrightarrow> \<exists>s'. decodeUInt16 s = Some (n, s') \<and> before s' xs \<and> ds_data s' = ds_data s"
  using before_byte [of s "le16 n @ xs" 0] before_byte [of s "le16 n @ xs" 1] before_move [of s "le16 n" xs] le16_join [of n]
  by (simp add: decodeUInt16_def le16_def)

lemma decodeUInt32_ok: "before s (le32 n @ xs) \<Longrightarrow> \<exists>s'. decodeUInt32 s = Some (n, s') \<and> before s' xs \<and> ds_data s' = ds_data s"
  using before_byte [of s "le32 n @ xs" 0] before_byte [of s "le32 n @ xs" 1] before_byte [of s "le32 n @ xs" 2] before_byte [of s "le32 n @ xs" 3]
    before_move [of s "le32 n" xs] le32_join [of n]
  by (simp add: decodeUInt32_def le32_def numeral_2_eq_2 numeral_3_eq_3)

subsection \<open>Groups of seven bits\<close>

lemma low_group:
  assumes "n < 128"
  shows "0x7f AND (of_nat n :: u8) = of_nat n" "0x7f AND (of_nat (128 + n) :: u8) = of_nat n" "0x80 AND (of_nat n :: u8) = 0" "0x80 AND (of_nat (128 + n) :: u8) \<noteq> 0"
proof -
  have "list_all (\<lambda>n. 0x7f AND (of_nat n :: u8) = of_nat n \<and> 0x7f AND (of_nat (128 + n) :: u8) = of_nat n \<and> 0x80 AND (of_nat n :: u8) = 0 \<and>
      0x80 AND (of_nat (128 + n) :: u8) \<noteq> 0) [0..<128]" by code_simp
  then show "0x7f AND (of_nat n :: u8) = of_nat n" "0x7f AND (of_nat (128 + n) :: u8) = of_nat n" "0x80 AND (of_nat n :: u8) = 0" "0x80 AND (of_nat (128 + n) :: u8) \<noteq> 0"
    using assms unfolding list_all_iff by simp_all
qed

lemma leb_group_nat:
  assumes "n < 128" "n * 2 ^ shift < 2 ^ 31" "shift < 32" "0x7f AND b = of_nat n"
  shows "leb_group b shift = Some (of_nat (n * 2 ^ shift))"
proof -
  have "(ucast (of_nat n :: u8) :: u32) = of_nat n" using assms(1) by (simp add: unsigned_of_nat take_bit_nat_eq_self)
  then have "push_bit shift (ucast (of_nat n :: u8) :: u32) = of_nat (n * 2 ^ shift)" by (simp add: push_bit_eq_mult)
  moreover have "sint (of_nat (n * 2 ^ shift) :: u32) = int (n * 2 ^ shift)"
    using assms(2) by (simp add: signed_of_nat signed_take_bit_int_eq_self del: of_nat_mult)
  ultimately show ?thesis using assms(3,4) by (simp add: leb_group_def scast_eq del: of_nat_mult)
qed

lemma or_shifted:
  assumes "a < 2 ^ k"
  shows "(of_nat a OR of_nat (n * 2 ^ k) :: u64) = of_nat (a + n * 2 ^ k)"
proof -
  have "take_bit k (int a) OR push_bit k (int n) = take_bit k (int a) + push_bit k (int n)"
    using concat_bit_eq [of k "int a" "int n"] by (simp add: concat_bit_def)
  then have "int a OR int (n * 2 ^ k) = int (a + n * 2 ^ k)" using assms by (simp add: take_bit_int_eq_self push_bit_eq_mult)
  then have "a OR n * 2 ^ k = a + n * 2 ^ k" by (metis of_nat_eq_iff of_nat_or_eq)
  then show ?thesis by (metis of_nat_or_eq)
qed

lemma leb_loop_uleb:
  assumes "before s (uleb n @ xs)" "a < 2 ^ k" "n * 2 ^ k < 2 ^ 31" "0 < n \<or> k = 0"
  shows "\<exists>b shift s'. leb_loop s k (of_nat a) = Some (b, shift, of_nat (a + n * 2 ^ k), s') \<and> before s' xs \<and> ds_data s' = ds_data s"
  using assms
proof (induction n arbitrary: s a k rule: uleb.induct)
  case (1 n)
  let ?m = "n mod 128" and ?s = "s\<lparr>ds_index := ds_index s + 1\<rparr>"
  have le: "?m * 2 ^ k < 2 ^ 31" by (rule le_less_trans [OF mult_le_mono1 [OF mod_less_eq_dividend [of n 128], of "2 ^ k"] "1.prems"(3)])
  have k: "k < 32"
  proof (rule ccontr)
    assume "\<not> k < 32"
    then have "(2 :: nat) ^ 32 \<le> 2 ^ k" by (intro power_increasing) simp_all
    then show False using "1.prems"(3,4) \<open>\<not> k < 32\<close> by (cases n) auto
  qed
  let ?b = "hd (uleb n)"
  have "uleb n = ?b # tl (uleb n)" by (cases "n < 128") (simp_all add: uleb.simps [of n])
  then have bb: "before s (?b # tl (uleb n) @ xs)" using "1.prems"(1) by (metis append_Cons)
  have b: "ds_byte s (ds_index s) = Some ?b" "before ?s (tl (uleb n) @ xs)"
    using before_byte [OF bb, of 0] before_move [of s "[?b]" "tl (uleb n) @ xs"] bb by simp_all
  have g: "leb_group ?b k = Some (of_nat (?m * 2 ^ k))"
    by (rule leb_group_nat) (use le k in \<open>auto simp: uleb.simps [of n] low_group simp del: of_nat_add\<close>)
  note or = or_shifted [OF "1.prems"(2), of ?m]
  show ?case
  proof (cases "n < 128")
    case True
    then show ?thesis using b g k or low_group(3) [OF True] by (subst leb_loop.simps) (simp add: uleb.simps [of n] Let_def)
  next
    case False
    have z: "0x80 AND ?b \<noteq> 0" using False low_group(4) [of ?m] by (simp add: uleb.simps [of n])
    have n: "n * 2 ^ k = ?m * 2 ^ k + n div 128 * 2 ^ (k + 7)"
    proof -
      have "(q * 128 + r) * 2 ^ k = r * 2 ^ k + q * 2 ^ (k + 7)" for q r :: nat by (simp add: add_mult_distrib power_add)
      then show ?thesis by (metis div_mult_mod_eq)
    qed
    have "a + ?m * 2 ^ k < 2 ^ (k + 7)"
    proof -
      have "Suc ?m * 2 ^ k \<le> 128 * 2 ^ k" by (intro mult_le_mono1 Suc_leI) simp
      then have "a + ?m * 2 ^ k < 128 * 2 ^ k" using "1.prems"(2) unfolding mult_Suc by linarith
      then show ?thesis by (simp add: power_add mult.commute)
    qed
    moreover have "0 < n div 128" "n div 128 * 2 ^ (k + 7) < 2 ^ 31" "before ?s (uleb (n div 128) @ xs)"
      using False n "1.prems"(3) b(2) by (simp_all add: div_greater_zero_iff uleb.simps [of n])
    ultimately obtain b' shift s' where r: "leb_loop ?s (k + 7) (of_nat (a + ?m * 2 ^ k)) = Some (b', shift, of_nat (a + ?m * 2 ^ k + n div 128 * 2 ^ (k + 7)), s')"
        "before s' xs" "ds_data s' = ds_data ?s"
      using "1.IH" [OF False, of ?s "a + ?m * 2 ^ k" "k + 7"] by blast
    then show ?thesis using b(1) g k or z n by (subst leb_loop.simps) (simp add: Let_def add.assoc)
  qed
qed

lemma decodeULeb128_uleb:
  assumes "before s (uleb n @ xs)" "n < 2 ^ 31"
  shows "\<exists>s'. decodeULeb128 s = Some (of_nat n, s') \<and> before s' xs \<and> ds_data s' = ds_data s"
  using leb_loop_uleb [OF assms(1), of 0 0] assms(2) by (auto simp: decodeULeb128_def)

text \<open>A group that reaches the top bit of an \<open>int\<close> is sign-extended: the encoding of \<open>2 ^ 31\<close> is misread.\<close>

lemma uleb_sign_extended:
  "uleb (2 ^ 31) = [0x80, 0x80, 0x80, 0x80, 8]"
  "map_option fst (decodeULeb128 (DataStream_unbounded (Some [0x80, 0x80, 0x80, 0x80, 8]))) = Some 0xffffffff80000000"
  by (simp_all add: uleb.simps decodeULeb128_def leb_loop.simps DataStream_unbounded_def ds_byte_def rd_def leb_group_def)

lemma digits_loop_lsd: "digits_loop (int n) c + 1 = c + length (lsd 10 n)"
proof (induction n arbitrary: c rule: less_induct)
  case (less n)
  have q: "int n sdiv 10 = int (n div 10)" by (cases "n = 0") (simp_all add: signed_divide_int_def zdiv_int)
  show ?case
  proof (cases "n < 10")
    case True
    then show ?thesis using q by (simp add: digits_loop.simps [of "int n"] lsd.simps [of 10 n])
  next
    case False
    then have "n div 10 < n" "n div 10 \<noteq> 0" by auto
    then show ?thesis using q less [of "n div 10" "c + 1"] False by (simp add: digits_loop.simps [of "int n"] lsd.simps [of 10 n])
  qed
qed

lemma getNumDigits_udigits: "getNumDigits (int n) = length (udigits 10 n)"
  using digits_loop_lsd [of n 1] by (simp add: getNumDigits_def udigits_def)

end
