(* ===== verification/Image_Reader.thy ===== *)
theory Image_Reader
  imports Data_Stream Syscalls
begin

text \<open>
  The image readers of \<open>src/libTellur/ImageReader.cpp\<close>: binary PPM and BMP files, read through the
  system calls of the kernel. \<open>new8\<close> and \<open>new32\<close> are the contents of the arrays \<open>new\<close> returns, by their
  length, and \<open>slot\<close> is the descriptor the kernel allocates. The readers rely on a file that can be read
  from where it stands and repositioned; that is a locale, interpreted on the system calls. Memory
  given back is not used again, so \<open>delete\<close> matters only where its argument is not what \<open>new\<close> returned.
\<close>

section \<open>Definitions\<close>

definition ERR_NOERR :: nat where "ERR_NOERR = 0"
definition ERR_DEFAULT :: nat where "ERR_DEFAULT = 1"
definition ERR_INVALID_BPP :: nat where "ERR_INVALID_BPP = 4"
definition ERR_INVALID_DIMENSIONS :: nat where "ERR_INVALID_DIMENSIONS = 5"
definition ERR_UNSUPPORTED_COMPRESS :: nat where "ERR_UNSUPPORTED_COMPRESS = 6"
definition ERR_INVALID_ID :: nat where "ERR_INVALID_ID = 7"
definition ERR_INVALID_DIB_HEADER :: nat where "ERR_INVALID_DIB_HEADER = 8"
definition ERR_INVALID_COLOR_PLANES :: nat where "ERR_INVALID_COLOR_PLANES = 9"
definition ERR_INVALID_COLOR_PALETTE :: nat where "ERR_INVALID_COLOR_PALETTE = 10"
definition ERR_INVALID_IMPORTANT_COLORS :: nat where "ERR_INVALID_IMPORTANT_COLORS = 11"

record image =
  imgFd :: int
  img_width :: int
  img_height :: int
  img_bpp :: int
  img_buff :: "u32 list option"

definition ImageReader :: image where
  "ImageReader = \<lparr>imgFd = -1, img_width = 0, img_height = 0, img_bpp = 0, img_buff = None\<rparr>"

text \<open>The calls as the readers use them: the results of the calls themselves are ignored.\<close>

definition read_into :: "ops_env \<Rightarrow> int \<Rightarrow> u64 \<Rightarrow> cbuf \<Rightarrow> pfiles \<Rightarrow> (cbuf \<times> pfiles) option" where
  "read_into E fd_i count buf st = do {
     (_, b, st) \<leftarrow> syscall_read E fd_i (Some buf) count st;
     b \<leftarrow> b;
     Some (b, st) }"

definition seek_to :: "int \<Rightarrow> u64 \<Rightarrow> pfiles \<Rightarrow> pfiles option" where
  "seek_to fd_i offset st = do { (_, st) \<leftarrow> syscall_lseek fd_i offset 0 st; Some st }"

subsection \<open>PPM\<close>

text \<open>The digits at \<open>p\<close>, copied to the local array \<open>str\<close> of ten characters, from index \<open>i\<close> on.\<close>

function number_loop :: "cbuf \<Rightarrow> cbuf \<Rightarrow> nat \<Rightarrow> nat \<Rightarrow> (cbuf \<times> nat) option" where
  "number_loop ppm str p i =
     (if i < 10 then do {
        c \<leftarrow> rd ppm p;
        if isWhitespace c then Some (str, i)
        else do { str \<leftarrow> wr str i c; number_loop ppm str (p + 1) (i + 1) } }
      else Some (str, i))"
  by pat_completeness auto
termination
  by (relation "measure (\<lambda>(ppm, str, p, i). 10 - i)") auto

declare number_loop.simps [simp del]

definition getPpmNumber :: "cbuf \<Rightarrow> cbuf \<Rightarrow> nat \<Rightarrow> int option" where
  "getPpmNumber str ppm p = do {
     (str, i) \<leftarrow> number_loop ppm str p 0;
     str \<leftarrow> wr str i 0;
     atoi str 0 }"

function skip_white :: "cbuf \<Rightarrow> nat \<Rightarrow> nat option" where
  "skip_white ppm p = do {
     c \<leftarrow> rd ppm p;
     if isWhitespace c then skip_white ppm (p + 1) else Some p }"
  by pat_completeness auto
termination
  by (relation "measure (\<lambda>(ppm, p). length ppm - p)") (auto simp: rd_def split: if_splits)

declare skip_white.simps [simp del]

text \<open>A number and the character behind it; the second result is the new position, or an error.\<close>

definition ppm_field :: "cbuf \<Rightarrow> cbuf \<Rightarrow> nat \<Rightarrow> (int \<times> nat option) option" where
  "ppm_field str ppm p = do {
     n \<leftarrow> getPpmNumber str ppm p;
     let p = p + getNumDigits n;
     c \<leftarrow> rd ppm p;
     Some (n, if \<not> isWhitespace c then None else Some (p + 1)) }"

text \<open>The header: the length of the header, or an error. \<open>str\<close> is the uninitialised local array.\<close>

definition ppm_header :: "cbuf \<Rightarrow> cbuf \<Rightarrow> image \<Rightarrow> (nat option \<times> image) option" where
  "ppm_header str ppm im = do {
     a \<leftarrow> rd ppm 0;
     if a \<noteq> 80 then Some (None, im)
     else do {
       b \<leftarrow> rd ppm 1;
       if b \<noteq> 54 then Some (None, im)
       else do {
         p \<leftarrow> skip_white ppm 2;
         (w, p) \<leftarrow> ppm_field str ppm p;
         let im = im\<lparr>img_width := w\<rparr>;
         case p of None \<Rightarrow> Some (None, im)
         | Some p \<Rightarrow> do {
             (h, p) \<leftarrow> ppm_field str ppm p;
             let im = im\<lparr>img_height := h\<rparr>;
             case p of None \<Rightarrow> Some (None, im)
             | Some p \<Rightarrow> do {
                 (maxValue, p) \<leftarrow> ppm_field str ppm p;
                 Some (p, im) } } } } }"

definition ppm_pixel :: "cbuf \<Rightarrow> nat \<Rightarrow> u32 option" where
  "ppm_pixel ppm p = do {
     r \<leftarrow> rd ppm p;
     g \<leftarrow> rd ppm (p + 1);
     b \<leftarrow> rd ppm (p + 2);
     Some (0xff000000 OR push_bit 16 (ucast r) OR push_bit 8 (ucast g) OR ucast b) }"

text \<open>
  \<open>delete\<close> of a pointer that stands \<open>offset\<close> bytes behind the start of the block \<open>new\<close> returned: the
  block is given back when it is the start, and anything else is undefined behaviour. Blocks given
  back are not used again, so that the first case has no effect on the state.
\<close>

definition delete_at :: "nat \<Rightarrow> unit option" where
  "delete_at offset = (if offset = 0 then Some () else None)"

text \<open>
  The load up to the last statement of its loop: the error code, how far \<open>ppm\<close> has been advanced when
  the end is reached, and the image.
\<close>

definition ppm_decode :: "ops_env \<Rightarrow> kmem \<Rightarrow> (u64 \<times> fd) option \<Rightarrow> (nat \<Rightarrow> cbuf) \<Rightarrow> (nat \<Rightarrow> u32 list) \<Rightarrow> cbuf \<Rightarrow> cbuf \<Rightarrow>
    image \<times> pfiles \<Rightarrow> (nat \<times> nat option \<times> image \<times> pfiles) option" where
  "ppm_decode E m slot new8 new32 str path = (\<lambda>(im, st). do {
     (fd_i, st) \<leftarrow> syscall_open E m slot (Some path) 0 st;
     let im = im\<lparr>imgFd := fd_i\<rparr>;
     if fd_i = -1 then Some (ERR_DEFAULT, None, im, st)
     else do {
       (ppm, st) \<leftarrow> read_into E fd_i 100 (new8 100) st;
       (p, im) \<leftarrow> ppm_header str ppm im;
       case p of None \<Rightarrow> Some (ERR_DEFAULT, None, im, st)
       | Some headerLen \<Rightarrow> do {
           _ \<leftarrow> delete_at 0;
           a \<leftarrow> c_int (3 * img_width im);
           a \<leftarrow> c_int (a * img_height im);
           fileSize \<leftarrow> c_int (int headerLen + a);
           st \<leftarrow> seek_to fd_i 0 st;
           (ppm, st) \<leftarrow> read_into E fd_i (of_int fileSize) (new8 (nat fileSize)) st;
           n \<leftarrow> c_int (img_width im * img_height im);
           (buff, p) \<leftarrow> for_loop 0 (nat n) (\<lambda>i (buff, p). do {
             x \<leftarrow> ppm_pixel ppm p;
             buff \<leftarrow> wr buff i x;
             Some (buff, p + 3) }) (new32 (nat n), headerLen);
           Some (ERR_NOERR, Some p, im\<lparr>img_buff := Some buff\<rparr>, st) } } })"

definition ppm_loadImage :: "ops_env \<Rightarrow> kmem \<Rightarrow> (u64 \<times> fd) option \<Rightarrow> (nat \<Rightarrow> cbuf) \<Rightarrow> (nat \<Rightarrow> u32 list) \<Rightarrow> cbuf \<Rightarrow> cbuf \<Rightarrow>
    image \<times> pfiles \<Rightarrow> (nat \<times> image \<times> pfiles) option" where
  "ppm_loadImage E m slot new8 new32 str path s = do {
     (err, p, im, st) \<leftarrow> ppm_decode E m slot new8 new32 str path s;
     case p of None \<Rightarrow> Some (err, im, st)
     | Some offset \<Rightarrow> do {
         _ \<leftarrow> delete_at offset;
         Some (err, im, st) } }"

definition PpmReader :: "ops_env \<Rightarrow> kmem \<Rightarrow> (u64 \<times> fd) option \<Rightarrow> (nat \<Rightarrow> cbuf) \<Rightarrow> (nat \<Rightarrow> u32 list) \<Rightarrow> cbuf \<Rightarrow> cbuf \<Rightarrow> pfiles \<Rightarrow> (image \<times> pfiles) option" where
  "PpmReader E m slot new8 new32 str path st = do {
     (_, im, st) \<leftarrow> ppm_loadImage E m slot new8 new32 str path (ImageReader\<lparr>img_bpp := 32\<rparr>, st);
     Some (im, st) }"

subsection \<open>BMP\<close>

record bmp_file_header =
  headerID :: u16
  fileSize :: u32
  reserved0 :: u16
  resorved1 :: u16
  bmpOffset :: u32

record dib_header =
  dibHeaderLen :: u32
  bmpWidth :: u32
  bmpHeight :: u32
  nColorPlanes :: u16
  dib_bpp :: u16
  compressionMethod :: u32
  imageSize :: u32
  hResolution :: u32
  vResolution :: u32
  nColorPalette :: u32
  nImportantColors :: u32

text \<open>The size of both structures with their padding.\<close>

definition headerInfoLen :: nat where "headerInfoLen = 16 + 40"

text \<open>The second part of the checks, from the compression method on.\<close>

definition loadDibRest :: "data_stream \<Rightarrow> dib_header \<Rightarrow> (nat \<times> dib_header) option" where
  "loadDibRest s d = do {
     (x, s) \<leftarrow> decodeUInt32 s;
     let d = d\<lparr>compressionMethod := x\<rparr>;
     if x \<noteq> 0 \<and> x \<noteq> 3 then Some (ERR_UNSUPPORTED_COMPRESS, d)
     else do {
       (x, s) \<leftarrow> decodeUInt32 s;
       let d = d\<lparr>imageSize := x\<rparr>;
       if 8 * imageSize d \<noteq> ucast (dib_bpp d) * bmpHeight d * bmpWidth d then Some (ERR_INVALID_DIMENSIONS, d)
       else do {
         (x, s) \<leftarrow> decodeUInt32 s;
         let d = d\<lparr>hResolution := x\<rparr>;
         (x, s) \<leftarrow> decodeUInt32 s;
         let d = d\<lparr>vResolution := x\<rparr>;
         (x, s) \<leftarrow> decodeUInt32 s;
         let d = d\<lparr>nColorPalette := x\<rparr>;
         if x \<noteq> 0 then Some (ERR_INVALID_COLOR_PALETTE, d)
         else do {
           (x, s) \<leftarrow> decodeUInt32 s;
           let d = d\<lparr>nImportantColors := x\<rparr>;
           if x \<noteq> 0 then Some (ERR_INVALID_IMPORTANT_COLORS, d) else Some (ERR_NOERR, d) } } } }"

definition loadDib :: "data_stream \<Rightarrow> dib_header \<Rightarrow> (nat \<times> dib_header) option" where
  "loadDib s d = do {
     (x, s) \<leftarrow> decodeUInt32 s;
     let d = d\<lparr>dibHeaderLen := x\<rparr>;
     if x \<noteq> 124 then Some (ERR_INVALID_DIB_HEADER, d)
     else do {
       (x, s) \<leftarrow> decodeUInt32 s;
       let d = d\<lparr>bmpWidth := x\<rparr>;
       (x, s) \<leftarrow> decodeUInt32 s;
       let d = d\<lparr>bmpHeight := x\<rparr>;
       (x, s) \<leftarrow> decodeUInt16 s;
       let d = d\<lparr>nColorPlanes := x\<rparr>;
       if x \<noteq> 1 then Some (ERR_INVALID_COLOR_PLANES, d)
       else do {
         (x, s) \<leftarrow> decodeUInt16 s;
         let d = d\<lparr>dib_bpp := x\<rparr>;
         if x \<noteq> 32 \<and> x \<noteq> 24 then Some (ERR_INVALID_BPP, d) else loadDibRest s d } } }"

definition loadBmpHeaders :: "data_stream \<Rightarrow> bmp_file_header \<times> dib_header \<Rightarrow> (nat \<times> bmp_file_header \<times> dib_header) option" where
  "loadBmpHeaders s = (\<lambda>(h, d). do {
     (x, s) \<leftarrow> decodeUInt16 s;
     let h = h\<lparr>headerID := x\<rparr>;
     if x \<noteq> 0x4d42 then Some (ERR_INVALID_ID, h, d)
     else do {
       (x, s) \<leftarrow> decodeUInt32 s;
       let h = h\<lparr>fileSize := x\<rparr>;
       (x, s) \<leftarrow> decodeUInt16 s;
       let h = h\<lparr>reserved0 := x\<rparr>;
       (x, s) \<leftarrow> decodeUInt16 s;
       let h = h\<lparr>resorved1 := x\<rparr>;
       (x, s) \<leftarrow> decodeUInt32 s;
       let h = h\<lparr>bmpOffset := x\<rparr>;
       (e, d) \<leftarrow> loadDib s d;
       Some (e, h, d) } })"

definition bmp_bit :: "cbuf \<Rightarrow> u64 \<Rightarrow> u8 option" where
  "bmp_bit data n = do {
     x \<leftarrow> rd data (unat (n div 8));
     Some (drop_bit (unat (n mod 8)) x AND 1) }"

text \<open>One channel of a pixel, collected bit by bit.\<close>

definition bmp_channel :: "cbuf \<Rightarrow> u64 \<Rightarrow> u8 option" where
  "bmp_channel data start = for_loop 0 8 (\<lambda>i x. do {
     b \<leftarrow> bmp_bit data (start + of_nat i);
     Some (x OR push_bit i b) }) 0"

definition bmpGetPixel :: "dib_header \<Rightarrow> cbuf \<Rightarrow> u64 \<Rightarrow> u64 \<Rightarrow> u32 option" where
  "bmpGetPixel d data row column = do {
     let bitStart = ucast (dib_bpp d) * (ucast (bmpWidth d) * row + column);
     (alpha, red, green, blue) \<leftarrow>
       (if dib_bpp d = 32 then do {
          a \<leftarrow> bmp_channel data (bitStart + 24);
          r \<leftarrow> bmp_channel data (bitStart + 16);
          g \<leftarrow> bmp_channel data (bitStart + 8);
          b \<leftarrow> bmp_channel data bitStart;
          Some (a, r, g, b) }
        else if dib_bpp d = 24 then do {
          r \<leftarrow> bmp_channel data (bitStart + 16);
          g \<leftarrow> bmp_channel data (bitStart + 8);
          b \<leftarrow> bmp_channel data bitStart;
          Some (0, r, g, b) }
        else Some (0, 0, 0, 0));
     Some (push_bit 24 (ucast alpha) OR push_bit 16 (ucast red) OR push_bit 8 (ucast green) OR ucast blue) }"

text \<open>The rows from the last to the first, with \<open>k - 1\<close> the next row.\<close>

fun bmp_rows :: "dib_header \<Rightarrow> cbuf \<Rightarrow> nat \<Rightarrow> nat \<Rightarrow> u32 list \<times> nat \<Rightarrow> (u32 list \<times> nat) option" where
  "bmp_rows d data w 0 bc = Some bc"
| "bmp_rows d data w (Suc i) bc = do {
     bc \<leftarrow> for_loop 0 w (\<lambda>j (buff, pixelCounter). do {
       x \<leftarrow> bmpGetPixel d data (of_nat i) (of_nat j);
       buff \<leftarrow> wr buff pixelCounter x;
       Some (buff, pixelCounter + 1) }) bc;
     bmp_rows d data w i bc }"

definition bmp_loadImage :: "ops_env \<Rightarrow> kmem \<Rightarrow> (u64 \<times> fd) option \<Rightarrow> (nat \<Rightarrow> cbuf) \<Rightarrow> (nat \<Rightarrow> u32 list) \<Rightarrow> bmp_file_header \<times> dib_header \<Rightarrow> cbuf \<Rightarrow>
    image \<times> pfiles \<Rightarrow> (nat \<times> image \<times> pfiles) option" where
  "bmp_loadImage E m slot new8 new32 hd0 path = (\<lambda>(im, st). do {
     (fd_i, st) \<leftarrow> syscall_open E m slot (Some path) 0 st;
     let im = im\<lparr>imgFd := fd_i\<rparr>;
     if fd_i = -1 then Some (ERR_DEFAULT, im, st)
     else do {
       (headerData, st) \<leftarrow> read_into E fd_i (of_nat headerInfoLen) (new8 headerInfoLen) st;
       (err, h, d) \<leftarrow> loadBmpHeaders (DataStream_unbounded (Some headerData)) hd0;
       if err \<noteq> ERR_NOERR then Some (err, im, st)
       else do {
         st \<leftarrow> seek_to fd_i (ucast (bmpOffset h)) st;
         (bmpData, st) \<leftarrow> read_into E fd_i (ucast (imageSize d)) (new8 (unat (imageSize d))) st;
         let bmpStream = DataStream_unbounded (Some bmpData);
         let w = sint (bmpWidth d);
         let ht = sint (bmpHeight d);
         n \<leftarrow> c_int (w * ht);
         let bmpStream = setOffset (ucast (bmpOffset h)) bmpStream;
         data \<leftarrow> getData bmpStream;
         (buff, _) \<leftarrow> bmp_rows d data (nat w) (nat ht) (new32 (nat n), 0);
         _ \<leftarrow> delete_at 0;
         _ \<leftarrow> delete_at 0;
         Some (ERR_NOERR, im\<lparr>img_buff := Some buff, img_width := w, img_height := ht, img_bpp := int (unat (dib_bpp d))\<rparr>, st) } } })"

definition BmpReader :: "ops_env \<Rightarrow> kmem \<Rightarrow> (u64 \<times> fd) option \<Rightarrow> (nat \<Rightarrow> cbuf) \<Rightarrow> (nat \<Rightarrow> u32 list) \<Rightarrow> bmp_file_header \<times> dib_header \<Rightarrow> cbuf \<Rightarrow> pfiles \<Rightarrow> (image \<times> pfiles) option" where
  "BmpReader E m slot new8 new32 hd0 path st = do {
     (_, im, st) \<leftarrow> bmp_loadImage E m slot new8 new32 hd0 path (ImageReader\<lparr>img_bpp := 32\<rparr>, st);
     Some (im, st) }"

subsection \<open>The choice of the reader\<close>

text \<open>The last dot of the path, with \<open>k - 1\<close> the next index.\<close>

fun last_dot :: "cbuf \<Rightarrow> nat \<Rightarrow> nat option option" where
  "last_dot path 0 = Some None"
| "last_dot path (Suc i) = do { c \<leftarrow> rd path i; if c = 46 then Some (Some i) else last_dot path i }"

definition imageReaderDriver :: "ops_env \<Rightarrow> kmem \<Rightarrow> (u64 \<times> fd) option \<Rightarrow> (nat \<Rightarrow> cbuf) \<Rightarrow> (nat \<Rightarrow> u32 list) \<Rightarrow> cbuf \<Rightarrow> bmp_file_header \<times> dib_header \<Rightarrow>
    cbuf option \<Rightarrow> pfiles \<Rightarrow> (image option \<times> pfiles) option" where
  "imageReaderDriver E m slot new8 new32 str hd0 path st = (case path of None \<Rightarrow> Some (None, st)
     | Some path \<Rightarrow> do {
         n \<leftarrow> strlen path 0;
         f \<leftarrow> last_dot path n;
         case f of None \<Rightarrow> Some (None, st)
         | Some fileType \<Rightarrow> do {
             maxLen \<leftarrow> strlen path fileType;
             r \<leftarrow> strncmp path fileType (bytes ''.ppm'' @ [0]) 0 maxLen;
             if r = 0 then do { (im, st) \<leftarrow> PpmReader E m slot new8 new32 str path st; Some (Some im, st) }
             else do {
               r \<leftarrow> strncmp path fileType (bytes ''.bmp'' @ [0]) 0 maxLen;
               if r = 0 then do { (im, st) \<leftarrow> BmpReader E m slot new8 new32 hd0 path st; Some (Some im, st) }
               else Some (None, st) } } })"

section \<open>Files that are read\<close>

text \<open>What the readers rely on: a file with contents \<open>c\<close> that stands at \<open>p\<close> can be read and repositioned.\<close>

locale byte_file =
  fixes stands :: "'s \<Rightarrow> u8 list \<Rightarrow> nat \<Rightarrow> bool"
    and fread :: "u64 \<Rightarrow> cbuf \<Rightarrow> 's \<Rightarrow> (cbuf \<times> 's) option"
    and fseek :: "u64 \<Rightarrow> 's \<Rightarrow> 's option"
  assumes read_law: "stands s c p \<Longrightarrow> unat n = length b \<Longrightarrow> p + length b < 2 ^ 31 \<Longrightarrow>
      \<exists>s'. fread n b s = Some (overwrite b 0 (take (length b) (drop p c)), s') \<and> stands s' c (p + min (length b) (length c - p))"
    and seek_law: "stands s c p \<Longrightarrow> unat q \<le> length c \<Longrightarrow> \<exists>s'. fseek q s = Some s' \<and> stands s' c (unat q)"
begin

lemma read_start:
  assumes "stands s (xs @ ys) 0" "unat n = length b" "length xs \<le> length b" "length b < 2 ^ 31"
  shows "\<exists>zs s' p. fread n b s = Some (xs @ zs, s') \<and> stands s' (xs @ ys) p \<and> length (xs @ zs) = length b"
proof -
  have t: "take (length b) (xs @ ys) = xs @ take (length b - length xs) ys" using assms(3) by simp
  have "overwrite b 0 (take (length b) (xs @ ys)) = xs @ (take (length b - length xs) ys @ drop (length (xs @ take (length b - length xs) ys)) b)"
    unfolding t by (simp add: overwrite_def)
  moreover have "length (overwrite b 0 (take (length b) (xs @ ys))) = length b" by (simp add: overwrite_def)
  ultimately show ?thesis using read_law [OF assms(1,2)] assms(4) by (metis add_0 drop0)
qed

lemma seek_then_read:
  assumes "stands s c p" "unat n = length b" "unat q + length b \<le> length c" "length c < 2 ^ 31"
  shows "\<exists>s' s'' r. fseek q s = Some s' \<and> fread n b s' = Some (take (length b) (drop (unat q) c), s'') \<and> stands s'' c r"
proof -
  obtain s' where s': "fseek q s = Some s'" "stands s' c (unat q)" using seek_law [OF assms(1), of q] assms(3) by auto
  moreover have "overwrite b 0 (take (length b) (drop (unat q) c)) = take (length b) (drop (unat q) c)"
    using assms(3) by (simp add: overwrite_def)
  ultimately show ?thesis using read_law [OF s'(2) assms(2)] assms(3,4) by fastforce
qed

end

definition stands_at :: "u64 list \<Rightarrow> nat \<Rightarrow> pfiles \<Rightarrow> u8 list \<Rightarrow> nat \<Rightarrow> bool" where
  "stands_at xs i st c p \<longleftrightarrow> (\<exists>a nd. open_at st xs i a nd p \<and> file_content nd = c \<and> st_mode (v_stat nd) = S_IFREG)"

lemma seek_to_ok:
  assumes o: "open_at st xs i a nd off" and m: "st_mode (v_stat nd) = S_IFREG" and q: "unat q \<le> length (file_content nd)"
  shows "\<exists>st'. seek_to (int i) q st = Some st' \<and> open_at st' xs i a nd (unat q)"
proof -
  let ?p = "xs ! i"
  obtain d where d: "fds st ?p = Some d" "fd_vnode d = a" "unat (fd_offset d) = off" "fd_lock d = 0"
    using o by (auto simp: open_at_def elim: table_okD)
  have t: "table_ok st xs" "i < length xs" "nodes (pvfs st) a = Some nd" "file_ok nd" using o by (simp_all add: open_at_def)
  have nz: "?p \<noteq> 0" using t(1,2) by (rule table_okD)
  have vr: "vec_rep (fd_table st) xs" "fd_table_lock st = 0" using t(1) by (auto simp: table_ok_def)
  have md: "\<not> S_ISSOCK S_IFREG" "\<not> S_ISFIFO S_IFREG"
    by (simp_all add: S_ISSOCK_def S_ISFIFO_def S_IFREG_def S_IFMT_def S_IFSOCK_def S_IFIFO_def)
  let ?st1 = "st\<lparr>fds := (fds st)(?p \<mapsto> d\<lparr>fd_lock := 1, fd_offset := q\<rparr>)\<rparr>" and ?d2 = "d\<lparr>fd_lock := 0, fd_offset := q\<rparr>"
  let ?st2 = "st\<lparr>fds := (fds st)(?p \<mapsto> ?d2)\<rparr>"
  have "fd_release (int i) ?st1 = Some (FD_SUCCESS, ?st2)"
    using fd_release_eq [of ?st1 xs i "d\<lparr>fd_lock := 1, fd_offset := q\<rparr>"] vr t(2) nz by (cases d) simp
  then have "seek_to (int i) q st = Some ?st2"
    using fd_acquire_eq [OF t(1,2) d(1)] d(2) t(3) m md
    by (simp add: seek_to_def syscall_lseek_def FD_SUCCESS_def upd_fd_def SEEK_SET_def)
  moreover have "open_at ?st2 xs i a nd (unat q)"
    using o d(2) table_ok_upd [OF t(1,2), of ?d2] q length_content [OF t(4)] by (simp add: open_at_def)
  ultimately show ?thesis by blast
qed

interpretation sysfile: byte_file "stands_at xs i" "read_into (kernel_ops m w devs) (int i)" "seek_to (int i)" for xs i m w devs
proof (unfold_locales, goal_cases)
  case (1 s c p n b)
  then obtain a nd where o: "open_at s xs i a nd p" "file_content nd = c" "st_mode (v_stat nd) = S_IFREG" by (auto simp: stands_at_def)
  let ?k = "min (length b) (length c - p)"
  have tk: "take ?k (drop p c) = take (length b) (drop p c)" by (simp add: min_def)
  obtain s' where "syscall_read (kernel_ops m w devs) (int i) (Some b) n s = Some (of_nat ?k, Some (overwrite b 0 (take ?k (drop p c))), s')"
      "open_at s' xs i a nd (p + ?k)"
    using syscall_read_ok [OF o(1) 1(2,3) refl refl, of m w devs] o(2) by auto
  then show ?case using o(2,3) unfolding tk by (auto simp: read_into_def stands_at_def)
next
  case (2 s c p q)
  then show ?case unfolding stands_at_def using seek_to_ok by metis
qed

section \<open>Loops that fill a buffer\<close>

lemma fill_loop:
  assumes f: "\<And>i. i < length vs \<Longrightarrow> f i (c + d * i) = Some (vs ! i)" and k: "\<And>i. i < length vs \<Longrightarrow> at i (c + d * i) = k + i"
    and b: "k + length vs \<le> length b"
  shows "for_loop 0 (length vs) (\<lambda>i (b, c). do { x \<leftarrow> f i c; b \<leftarrow> wr b (at i c) x; Some (b, c + d) }) (b, c) =
    Some (overwrite b k vs, c + d * length vs)"
proof -
  let ?I = "\<lambda>i t. t = (overwrite b k (take i vs), c + d * i)"
  have "\<exists>t. for_loop 0 (length vs) (\<lambda>i (b, c). do { x \<leftarrow> f i c; b \<leftarrow> wr b (at i c) x; Some (b, c + d) }) (b, c) = Some t \<and> ?I (length vs) t"
  proof (rule for_loop_rule [where I = ?I], goal_cases)
    case (3 i t)
    have "overwrite b k (take (Suc i) vs) = (overwrite b k (take i vs))[k + i := vs ! i]"
      using 3 b by (simp add: overwrite_def take_Suc_snoc list_update_append drop_Cons_nth)
    then show ?case using 3 b f [of i] k [of i] by (simp add: wr_def min_def)
  qed (use b in auto)
  then show ?thesis by auto
qed

section \<open>Reading a PPM file\<close>

lemma length_lsd: "0 < k \<Longrightarrow> n < 10 ^ k \<Longrightarrow> length (lsd 10 n) \<le> k"
proof (induction k arbitrary: n)
  case (Suc k)
  show ?case
  proof (cases "n < 10")
    case False
    then have "0 < k" "n div 10 < 10 ^ k" using Suc.prems by (auto intro: gr0I simp: less_mult_imp_div_less mult.commute)
    then show ?thesis using Suc.IH [of "n div 10"] by (simp add: lsd.simps [of 10 n])
  qed (simp add: lsd.simps [of 10 n])
qed simp

lemma udigits_digits: "d \<in> set (udigits 10 n) \<Longrightarrow> \<not> isWhitespace d"
  using lsd_less [of 10 _ n] by (fastforce simp: udigits_def isWhitespace_def digit_byte)

lemma number_loop_ok:
  assumes "drop p ppm = ds @ c # rest" "\<forall>d \<in> set ds. \<not> isWhitespace d" "isWhitespace c" "i + length ds < 10" "length str = 10"
  shows "number_loop ppm str p i = Some (overwrite str i ds, i + length ds)"
  using assms
proof (induction ds arbitrary: p i str)
  case Nil
  then show ?case using drop_ConsD [of p ppm c rest] by (simp add: number_loop.simps [of ppm str p i] rd_def)
next
  case (Cons d ds)
  note dr = drop_ConsD [OF Cons.prems(1) [simplified]]
  have "number_loop ppm (str[i := d]) (p + 1) (i + 1) = Some (overwrite (str[i := d]) (i + 1) ds, i + 1 + length ds)"
    using Cons.prems dr(3) by (intro Cons.IH) auto
  then show ?case using Cons.prems(2,4,5) dr overwrite_Cons [of i str d ds] by (simp add: number_loop.simps [of ppm str p i] rd_def wr_def)
qed

lemma ppm_field_ok:
  assumes p: "drop p ppm = udigits 10 n @ c # rest" and c: "isWhitespace c" and n: "n < 10 ^ 9" and str: "length str = 10"
  shows "ppm_field str ppm p = Some (int n, Some (p + length (udigits 10 n) + 1))"
proof -
  let ?ds = "udigits 10 n"
  have l: "length ?ds \<le> 9" using length_lsd [of 9 n] n by (simp add: udigits_def)
  have nl: "number_loop ppm str p 0 = Some (overwrite str 0 ?ds, length ?ds)"
    using number_loop_ok [OF p _ c, of 0 str] udigits_digits l str by simp
  have "drop 0 ((overwrite str 0 ?ds)[length ?ds := 0]) = ?ds @ 0 # drop (length ?ds + 1) str"
    using l str by (simp add: overwrite_def list_update_append drop_Cons_nth)
  then have "getPpmNumber str ppm p = Some (int n)"
    using nl l str n atoi_digits [of 0 _ n 0 _, OF _ not_digit_0] by (simp add: getPpmNumber_def wr_def)
  moreover have "rd ppm (p + length ?ds) = Some c"
    using drop_ConsD(1,2) [of "p + length ?ds" ppm c rest] arg_cong [OF p, of "drop (length ?ds)"] by (simp add: rd_def add.commute)
  ultimately show ?thesis using c by (simp add: ppm_field_def getNumDigits_udigits)
qed

lemma skip_white_ok:
  assumes "drop p ppm = ws @ c # rest" "\<forall>x \<in> set ws. isWhitespace x" "\<not> isWhitespace c"
  shows "skip_white ppm p = Some (p + length ws)"
  using assms
proof (induction ws arbitrary: p)
  case Nil
  then show ?case using drop_ConsD [of p ppm c rest] by (simp add: skip_white.simps [of ppm p] rd_def)
next
  case (Cons x ws)
  note dr = drop_ConsD [OF Cons.prems(1) [simplified]]
  then show ?case using Cons.IH [of "p + 1"] Cons.prems by (simp add: skip_white.simps [of ppm p] rd_def)
qed

text \<open>A PPM file: its header and its pixels, three bytes each.\<close>

definition ppm_head :: "u8 list \<Rightarrow> u8 \<Rightarrow> nat \<Rightarrow> nat \<Rightarrow> nat \<Rightarrow> u8 list" where
  "ppm_head ws c w h mx = [80, 54] @ ws @ udigits 10 w @ c # udigits 10 h @ c # udigits 10 mx @ [c]"

definition rgb_bytes :: "(u8 \<times> u8 \<times> u8) list \<Rightarrow> u8 list" where
  "rgb_bytes px = concat (map (\<lambda>(r, g, b). [r, g, b]) px)"

definition rgb :: "u8 \<times> u8 \<times> u8 \<Rightarrow> u32" where
  "rgb = (\<lambda>(r, g, b). 0xff000000 OR push_bit 16 (ucast r) OR push_bit 8 (ucast g) OR ucast b)"

lemma ppm_header_ok:
  assumes ws: "\<forall>x \<in> set ws. isWhitespace x" "isWhitespace c" and n: "w < 10 ^ 9" "h < 10 ^ 9" "mx < 10 ^ 9" and str: "length str = 10"
  shows "ppm_header str (ppm_head ws c w h mx @ rest) im =
    Some (Some (length (ppm_head ws c w h mx)), im\<lparr>img_width := int w, img_height := int h\<rparr>)"
proof -
  let ?f = "ppm_head ws c w h mx @ rest" and ?w = "udigits 10 w" and ?h = "udigits 10 h" and ?m = "udigits 10 mx"
  obtain d ds where w: "?w = d # ds" "\<not> isWhitespace d" using udigits_digits [of _ w] by (cases ?w) (auto simp: udigits_def)
  let ?p = "2 + length ws" let ?q = "?p + length ?w + 1" let ?r = "?q + length ?h + 1"
  have "skip_white ?f 2 = Some ?p"
    using skip_white_ok [of 2 ?f ws d] ws(1) w by (simp add: ppm_head_def)
  moreover have "ppm_field str ?f ?p = Some (int w, Some ?q)"
    by (rule ppm_field_ok [OF _ ws(2) n(1) str]) (simp add: ppm_head_def)
  moreover have "ppm_field str ?f ?q = Some (int h, Some ?r)"
    by (rule ppm_field_ok [OF _ ws(2) n(2) str]) (simp add: ppm_head_def)
  moreover have "ppm_field str ?f ?r = Some (int mx, Some (?r + length ?m + 1))"
    by (rule ppm_field_ok [OF _ ws(2) n(3) str]) (simp add: ppm_head_def)
  moreover have "rd ?f 0 = Some 80" "rd ?f 1 = Some 54" by (simp_all add: ppm_head_def rd_def)
  ultimately show ?thesis unfolding ppm_header_def by (simp add: ppm_head_def)
qed

lemma ppm_pixel_ok:
  assumes "i < length px"
  shows "ppm_pixel (hs @ rgb_bytes px) (length hs + 3 * i) = Some (rgb (px ! i))"
  using assms
proof (induction px arbitrary: hs i)
  case (Cons x px)
  obtain r g b where x: "x = (r, g, b)" by (cases x)
  show ?case
  proof (cases i)
    case 0
    then show ?thesis by (simp add: ppm_pixel_def rgb_bytes_def rd_def nth_append rgb_def x)
  next
    case (Suc j)
    then show ?thesis using Cons.IH [of j "hs @ [r, g, b]"] Cons.prems by (simp add: rgb_bytes_def x numeral_3_eq_3)
  qed
qed simp

text \<open>A path that names a regular file of tmpfs with contents \<open>c\<close>, in a process that can open it.\<close>

definition names_file :: "kmem \<Rightarrow> ops_env \<Rightarrow> pfiles \<Rightarrow> u64 list \<Rightarrow> u64 \<Rightarrow> cbuf \<Rightarrow> u8 list \<Rightarrow> bool" where
  "names_file m E st xs p path c \<longleftrightarrow> table_ok st xs \<and> length xs < 2 ^ 28 \<and> p \<noteq> 0 \<and> p \<notin> set xs \<and>
     realloc_ok (re_words m) \<and> (\<forall>mem n. re_words m (Some mem) n \<noteq> None) \<and>
     vfs_wf (pvfs st) \<and> vfs_lock (pvfs st) = 0 \<and> nodes (pvfs st) (open_base st path) \<noteq> None \<and>
     (\<exists>s a nd. cstring path 0 = Some s \<and> length s < 512 \<and> resolve E (pvfs st) (open_base st path) s = Some (Inr a) \<and>
       nodes (pvfs st) a = Some nd \<and> v_type nd = VREG \<and> st_mode (v_stat nd) = S_IFREG \<and> v_ops nd = TMPFS_OPS \<and> file_ok nd \<and>
       file_content nd = c) \<and> length c < 2 ^ 31"

lemma open_names_file:
  assumes "names_file m (kernel_ops m w devs) st xs p path c"
  shows "\<exists>st'. syscall_open (kernel_ops m w devs) m (Some (p, junk)) (Some path) 0 st = Some (int (length xs), st') \<and>
    stands_at (xs @ [p]) (length xs) st' c 0"
proof -
  obtain s a nd where f: "cstring path 0 = Some s" "length s < 512" "resolve (kernel_ops m w devs) (pvfs st) (open_base st path) s = Some (Inr a)"
      "nodes (pvfs st) a = Some nd" "v_type nd = VREG" "st_mode (v_stat nd) = S_IFREG" "v_ops nd = TMPFS_OPS" "file_ok nd" "file_content nd = c"
    using assms unfolding names_file_def by blast
  have l: "unat (st_size (v_stat nd)) < 2 ^ 31" using assms f(8,9) length_content [OF f(8)] by (simp add: names_file_def)
  have t: "table_ok st xs" "length xs < 2 ^ 28" "p \<noteq> 0" "p \<notin> set xs" "realloc_ok (re_words m)" "\<forall>mem n. re_words m (Some mem) n \<noteq> None"
      "vfs_wf (pvfs st)" "vfs_lock (pvfs st) = 0" "nodes (pvfs st) (open_base st path) \<noteq> None"
    using assms by (simp_all add: names_file_def)
  obtain st' nd' where "syscall_open (kernel_ops m w devs) m (Some (p, junk)) (Some path) 0 st = Some (int (length xs), st')"
      "open_at st' (xs @ [p]) (length xs) a nd' 0" "file_content nd' = file_content nd" "v_stat nd' = v_stat nd"
    using syscall_open_ok [OF t f(1-8) l, of 0 junk] by auto
  then show ?thesis using f(6,9) unfolding stands_at_def by metis
qed

lemma length_rgb_bytes: "length (rgb_bytes px) = 3 * length px"
  by (induction px) (auto simp: rgb_bytes_def)

lemma ppm_decode_ok:
  assumes f: "names_file m (kernel_ops m dw devs) st xs p path (ppm_head ws c w h mx @ rgb_bytes px @ rest)" (is "names_file _ _ _ _ _ _ ?c")
    and ws: "\<forall>x \<in> set ws. isWhitespace x" "isWhitespace c" and n: "w < 10 ^ 9" "h < 10 ^ 9" "mx < 10 ^ 9" "0 < h" "length px = w * h"
    and l: "length (ppm_head ws c w h mx) \<le> 100" and new: "\<forall>n. length (new8 n) = n" "\<forall>n. length (new32 n) = n" "length str = 10"
  shows "\<exists>st' q. ppm_decode (kernel_ops m dw devs) m (Some (p, junk)) new8 new32 str path (im, st) =
      Some (ERR_NOERR, Some (length (ppm_head ws c w h mx) + 3 * (w * h)), im\<lparr>imgFd := int (length xs), img_width := int w, img_height := int h, img_buff := Some (map rgb px)\<rparr>, st') \<and>
    stands_at (xs @ [p]) (length xs) st' ?c q"
proof -
  let ?E = "kernel_ops m dw devs" and ?i = "length xs" and ?hd = "ppm_head ws c w h mx" and ?xs = "xs @ [p]"
  let ?im = "im\<lparr>imgFd := int ?i, img_width := int w, img_height := int h\<rparr>"
  have lc: "length ?c < 2 ^ 31" using f by (simp add: names_file_def)
  have lr: "length (rgb_bytes px) = 3 * w * h" using n(5) by (simp add: length_rgb_bytes)
  have fit: "length ?hd + 3 * w * h < 2 ^ 31" using lc lr by simp
  have "3 * w \<le> 3 * w * h" "w * h \<le> 3 * w * h" using n(4) by simp_all
  then have small: "3 * w < 2 ^ 31" "3 * w * h < 2 ^ 31" "w * h < 2 ^ 31" using fit by linarith+
  have ci: "c_int (int k) = Some (int k)" if "k < 2 ^ 31" for k using that by (intro c_int_in) (auto simp flip: of_nat_less_iff)
  have c3: "c_int (3 * int w) = Some (3 * int w)" "c_int (3 * int w * int h) = Some (3 * int w * int h)" "c_int (int w * int h) = Some (int w * int h)"
      "c_int (int (length ?hd) + 3 * int w * int h) = Some (int (length ?hd) + 3 * int w * int h)"
    using ci [OF small(1)] ci [OF small(2)] ci [OF small(3)] ci [OF fit] by simp_all
  obtain st1 where st1: "syscall_open ?E m (Some (p, junk)) (Some path) 0 st = Some (int ?i, st1)" "stands_at ?xs ?i st1 ?c 0"
    using open_names_file [OF f] by blast
  obtain zs st2 q where st2: "read_into ?E (int ?i) 100 (new8 100) st1 = Some (?hd @ zs, st2)" "stands_at ?xs ?i st2 ?c q"
    using sysfile.read_start [OF st1(2), of 100 "new8 100" m dw devs] new(1) l by auto
  have hdr: "ppm_header str (?hd @ zs) (im\<lparr>imgFd := int ?i\<rparr>) = Some (Some (length ?hd), ?im)"
    by (rule ppm_header_ok [OF ws n(1-3) new(3)])
  let ?n = "length ?hd + 3 * w * h"
  have nn: "nat (int (length ?hd) + 3 * int w * int h) = ?n" "(of_int (int (length ?hd) + 3 * int w * int h) :: u64) = of_nat ?n"
    by (simp_all add: nat_add_distrib nat_mult_distrib)
  have "unat (of_nat ?n :: u64) = length (new8 ?n)" using fit new(1) by (simp add: unat_of_nat_small del: of_nat_add of_nat_mult)
  moreover have "take ?n ?c = ?hd @ rgb_bytes px" using lr by simp
  ultimately obtain st3 st4 r where st4: "seek_to (int ?i) 0 st2 = Some st3" "read_into ?E (int ?i) (of_nat ?n) (new8 ?n) st3 = Some (?hd @ rgb_bytes px, st4)"
      "stands_at ?xs ?i st4 ?c r"
    using sysfile.seek_then_read [OF st2(2), of "of_nat ?n" "new8 ?n" 0 m dw devs] new(1) lr lc by auto
  have "for_loop 0 (w * h) (\<lambda>i (b, c). do { x \<leftarrow> ppm_pixel (?hd @ rgb_bytes px) c; b \<leftarrow> wr b i x; Some (b, c + 3) }) (new32 (w * h), length ?hd) =
      Some (map rgb px, length ?hd + 3 * (w * h))"
    using fill_loop [of "map rgb px" "\<lambda>i. ppm_pixel (?hd @ rgb_bytes px)" "length ?hd" 3 "\<lambda>i c. i" 0 "new32 (w * h)"] ppm_pixel_ok [of _ px ?hd] n(5) new(2)
    by (simp add: overwrite_def)
  moreover have "nat (int w * int h) = w * h" by (simp add: nat_mult_distrib)
  ultimately show ?thesis
    using st1(1) st2(1) hdr c3 st4 nn by (auto simp: ppm_decode_def delete_at_def simp del: of_nat_add of_nat_mult of_int_add of_int_mult)
qed

section \<open>Reading a BMP file\<close>

text \<open>The header of a BMP file, and a pixel as its lowest bytes.\<close>

definition dib_bytes :: "u32 \<Rightarrow> u32 \<Rightarrow> u16 \<Rightarrow> u32 \<Rightarrow> u32 \<Rightarrow> u32 \<Rightarrow> u32 \<Rightarrow> u8 list" where
  "dib_bytes w h bpp cm sz hr vr = le32 124 @ le32 w @ le32 h @ le16 1 @ le16 bpp @ le32 cm @ le32 sz @ le32 hr @ le32 vr @ le32 0 @ le32 0"

definition bmp_head :: "u32 \<Rightarrow> u16 \<Rightarrow> u16 \<Rightarrow> u32 \<Rightarrow> u8 list \<Rightarrow> u8 list" where
  "bmp_head fs r0 r1 off dib = le16 0x4d42 @ le32 fs @ le16 r0 @ le16 r1 @ le32 off @ dib"

definition pixel_bytes :: "nat \<Rightarrow> u32 list \<Rightarrow> u8 list" where
  "pixel_bytes k xs = concat (map (\<lambda>x. take k (le32 x)) xs)"

lemma length_le [simp]: "length (le16 a) = 2" "length (le32 b) = 4"
  by (simp_all add: le16_def le32_def)

lemma loadDibRest_ok:
  assumes "before s (le32 cm @ le32 sz @ le32 hr @ le32 vr @ le32 0 @ le32 0 @ rest)" and "cm = 0 \<or> cm = 3"
    and "8 * sz = ucast (dib_bpp d) * bmpHeight d * bmpWidth d"
  shows "\<exists>d'. loadDibRest s d = Some (ERR_NOERR, d') \<and> bmpWidth d' = bmpWidth d \<and> bmpHeight d' = bmpHeight d \<and> dib_bpp d' = dib_bpp d \<and> imageSize d' = sz"
proof -
  obtain s1 where s1: "decodeUInt32 s = Some (cm, s1)" "before s1 (le32 sz @ le32 hr @ le32 vr @ le32 0 @ le32 0 @ rest)"
    using decodeUInt32_ok [OF assms(1)] by blast
  obtain s2 where s2: "decodeUInt32 s1 = Some (sz, s2)" "before s2 (le32 hr @ le32 vr @ le32 0 @ le32 0 @ rest)"
    using decodeUInt32_ok [OF s1(2)] by blast
  obtain s3 where s3: "decodeUInt32 s2 = Some (hr, s3)" "before s3 (le32 vr @ le32 0 @ le32 0 @ rest)"
    using decodeUInt32_ok [OF s2(2)] by blast
  obtain s4 where s4: "decodeUInt32 s3 = Some (vr, s4)" "before s4 (le32 0 @ le32 0 @ rest)"
    using decodeUInt32_ok [OF s3(2)] by blast
  obtain s5 where s5: "decodeUInt32 s4 = Some (0, s5)" "before s5 (le32 0 @ rest)" using decodeUInt32_ok [OF s4(2)] by blast
  obtain s6 where s6: "decodeUInt32 s5 = Some (0, s6)" using decodeUInt32_ok [OF s5(2)] by blast
  show ?thesis using s1(1) s2(1) s3(1) s4(1) s5(1) s6 assms(2,3) by (auto simp: loadDibRest_def)
qed

lemma loadDib_ok:
  assumes "before s (dib_bytes w h bpp cm sz hr vr @ rest)" and "cm = 0 \<or> cm = 3" "bpp = 32 \<or> bpp = 24" "8 * sz = ucast bpp * h * w"
  shows "\<exists>d'. loadDib s d = Some (ERR_NOERR, d') \<and> bmpWidth d' = w \<and> bmpHeight d' = h \<and> dib_bpp d' = bpp \<and> imageSize d' = sz"
proof -
  let ?r = "le32 cm @ le32 sz @ le32 hr @ le32 vr @ le32 0 @ le32 0 @ rest"
  have b: "before s (le32 124 @ le32 w @ le32 h @ le16 1 @ le16 bpp @ ?r)" using assms(1) by (simp add: dib_bytes_def)
  obtain s1 where s1: "decodeUInt32 s = Some (124, s1)" "before s1 (le32 w @ le32 h @ le16 1 @ le16 bpp @ ?r)" using decodeUInt32_ok [OF b] by blast
  obtain s2 where s2: "decodeUInt32 s1 = Some (w, s2)" "before s2 (le32 h @ le16 1 @ le16 bpp @ ?r)" using decodeUInt32_ok [OF s1(2)] by blast
  obtain s3 where s3: "decodeUInt32 s2 = Some (h, s3)" "before s3 (le16 1 @ le16 bpp @ ?r)" using decodeUInt32_ok [OF s2(2)] by blast
  obtain s4 where s4: "decodeUInt16 s3 = Some (1, s4)" "before s4 (le16 bpp @ ?r)" using decodeUInt16_ok [OF s3(2)] by blast
  obtain s5 where s5: "decodeUInt16 s4 = Some (bpp, s5)" "before s5 ?r" using decodeUInt16_ok [OF s4(2)] by blast
  let ?d = "d\<lparr>dibHeaderLen := 124, bmpWidth := w, bmpHeight := h, nColorPlanes := 1, dib_bpp := bpp\<rparr>"
  have "\<exists>d'. loadDibRest s5 ?d = Some (ERR_NOERR, d') \<and> bmpWidth d' = w \<and> bmpHeight d' = h \<and> dib_bpp d' = bpp \<and> imageSize d' = sz"
    using loadDibRest_ok [OF s5(2) assms(2), of ?d] assms(4) by simp
  then show ?thesis using s1(1) s2(1) s3(1) s4(1) s5(1) assms(3) by (auto simp: loadDib_def)
qed

lemma loadBmpHeaders_ok:
  assumes "before s (bmp_head fs r0 r1 off (dib_bytes w h bpp cm sz hr vr) @ rest)" and ok: "cm = 0 \<or> cm = 3" "bpp = 32 \<or> bpp = 24" "8 * sz = ucast bpp * h * w"
  shows "\<exists>f d'. loadBmpHeaders s (fh, d) = Some (ERR_NOERR, f, d') \<and> bmpOffset f = off \<and> bmpWidth d' = w \<and> bmpHeight d' = h \<and> dib_bpp d' = bpp \<and> imageSize d' = sz"
proof -
  let ?r = "dib_bytes w h bpp cm sz hr vr @ rest"
  have b: "before s (le16 0x4d42 @ le32 fs @ le16 r0 @ le16 r1 @ le32 off @ ?r)" using assms(1) by (simp add: bmp_head_def)
  obtain s1 where s1: "decodeUInt16 s = Some (0x4d42, s1)" "before s1 (le32 fs @ le16 r0 @ le16 r1 @ le32 off @ ?r)" using decodeUInt16_ok [OF b] by blast
  obtain s2 where s2: "decodeUInt32 s1 = Some (fs, s2)" "before s2 (le16 r0 @ le16 r1 @ le32 off @ ?r)" using decodeUInt32_ok [OF s1(2)] by blast
  obtain s3 where s3: "decodeUInt16 s2 = Some (r0, s3)" "before s3 (le16 r1 @ le32 off @ ?r)" using decodeUInt16_ok [OF s2(2)] by blast
  obtain s4 where s4: "decodeUInt16 s3 = Some (r1, s4)" "before s4 (le32 off @ ?r)" using decodeUInt16_ok [OF s3(2)] by blast
  obtain s5 where s5: "decodeUInt32 s4 = Some (off, s5)" "before s5 ?r" using decodeUInt32_ok [OF s4(2)] by blast
  show ?thesis using loadDib_ok [OF s5(2) ok, of d] s1(1) s2(1) s3(1) s4(1) s5(1) by (auto simp: loadBmpHeaders_def)
qed

subsection \<open>Pixels\<close>

lemma take_bit_step: "take_bit i b OR push_bit i (drop_bit i b AND 1) = take_bit (Suc i) (b :: u8)"
  by (rule bit_word_eqI) (auto simp: bit_simps less_Suc_eq)

lemma bmp_channel_ok:
  assumes "k < length data" "k < 2 ^ 60"
  shows "bmp_channel data (8 * of_nat k) = Some (data ! k)"
proof -
  have "bmp_bit data (8 * of_nat k + of_nat i) = Some (drop_bit i (data ! k) AND 1)" if "i < 8" for i
  proof -
    have e: "(8 * of_nat k + of_nat i :: u64) = of_nat (8 * k + i)" by simp
    have u: "unat (of_nat (8 * k + i) :: u64) = 8 * k + i" using that assms(2) by (simp add: unat_of_nat_small del: of_nat_add of_nat_mult)
    have "unat (of_nat (8 * k + i) div 8 :: u64) = k" "unat (of_nat (8 * k + i) mod 8 :: u64) = i"
      using that by (simp_all add: unat_div unat_mod u del: of_nat_add of_nat_mult)
    then show ?thesis unfolding e using assms(1) by (simp add: bmp_bit_def rd_def del: of_nat_add of_nat_mult)
  qed
  then have "\<exists>x. bmp_channel data (8 * of_nat k) = Some x \<and> x = take_bit 8 (data ! k)"
    unfolding bmp_channel_def by (intro for_loop_rule [where I = "\<lambda>i x. x = take_bit i (data ! k)"]) (simp_all add: take_bit_step [simplified])
  then show ?thesis by (simp add: take_bit_word_eq_self)
qed

lemma length_pixel_bytes: "k \<le> 4 \<Longrightarrow> length (pixel_bytes k xs) = k * length xs"
  by (induction xs) (simp_all add: pixel_bytes_def)

lemma nth_pixel_bytes: "k \<le> 4 \<Longrightarrow> i < length xs \<Longrightarrow> j < k \<Longrightarrow> pixel_bytes k xs ! (k * i + j) = le32 (xs ! i) ! j"
proof (induction xs arbitrary: i)
  case (Cons x xs)
  have p: "pixel_bytes k (x # xs) = take k (le32 x) @ pixel_bytes k xs" by (simp add: pixel_bytes_def)
  show ?case
  proof (cases i)
    case (Suc n)
    have "k * i + j = length (take k (le32 x)) + (k * n + j)" using Suc Cons.prems(1) by simp
    then have "pixel_bytes k (x # xs) ! (k * i + j) = pixel_bytes k xs ! (k * n + j)" unfolding p by (metis nth_append_length_plus)
    then show ?thesis using Cons.IH [of n] Cons.prems Suc by simp
  qed (use Cons.prems p in \<open>simp add: nth_append\<close>)
qed simp

text \<open>A pixel of a file with 24 bits per pixel has no opacity.\<close>

definition shown_pixel :: "u16 \<Rightarrow> u32 \<Rightarrow> u32" where
  "shown_pixel bpp x = (if bpp = 24 then x AND 0xffffff else x)"

lemma le24_join: "(push_bit 16 (ucast (ucast (drop_bit 16 n) :: u8)) OR push_bit 8 (ucast (ucast (drop_bit 8 n) :: u8)) OR ucast (ucast n :: u8) :: u32) = n AND 0xffffff"
proof -
  have m: "(0xffffff :: u32) = mask 24" by (simp add: mask_eq_exp_minus_1)
  show ?thesis unfolding m
  proof (rule bit_word_eqI, goal_cases)
    case (1 i)
    then show ?case by (cases "i < 16") (auto simp: bit_simps)
  qed
qed

lemma bmpGetPixel_ok:
  assumes d: "dib_bpp d = of_nat (8 * k)" "k = 3 \<or> k = 4" "unat (bmpWidth d) = w" and i: "w * row + col < length xs" and l: "k * length xs < 2 ^ 60"
  shows "bmpGetPixel d (pixel_bytes k xs) (of_nat row) (of_nat col) = Some (shown_pixel (dib_bpp d) (xs ! (w * row + col)))"
proof -
  let ?n = "w * row + col" and ?D = "pixel_bytes k xs"
  have w: "(ucast (bmpWidth d) :: u64) = of_nat w" using d(3) by (metis of_nat_unat)
  have b: "(ucast (dib_bpp d) :: u64) = of_nat (8 * k)" using d(1,2) by auto
  have start: "(ucast (dib_bpp d) * (ucast (bmpWidth d) * of_nat row + of_nat col) :: u64) = 8 * of_nat (k * ?n)"
    unfolding w b by (simp add: algebra_simps)
  have ch: "bmp_channel ?D (8 * of_nat (k * ?n) + of_nat (8 * j)) = Some (le32 (xs ! ?n) ! j)" if "j < k" for j
  proof -
    have "k * ?n + j < k * length xs"
    proof -
      have "k * ?n + k \<le> k * length xs" using i mult_le_mono2 [of "Suc ?n" "length xs" k] by simp
      then show ?thesis using that by linarith
    qed
    moreover have "(8 * of_nat (k * ?n) + of_nat (8 * j) :: u64) = 8 * of_nat (k * ?n + j)" by simp
    ultimately show ?thesis
      using bmp_channel_ok [of "k * ?n + j" ?D] length_pixel_bytes [of k xs] nth_pixel_bytes [of k ?n xs j] d(2) i l that by auto
  qed
  let ?x = "xs ! ?n"
  define S where "S = (8 * of_nat (k * ?n) :: u64)"
  have c: "bmp_channel ?D S = Some (ucast ?x)" "bmp_channel ?D (S + 8) = Some (ucast (drop_bit 8 ?x))" "bmp_channel ?D (S + 16) = Some (ucast (drop_bit 16 ?x))"
    using ch [folded S_def, of 0] ch [folded S_def, of 1] ch [folded S_def, of 2] d(2) by (auto simp: le32_def)
  have c4: "k = 4 \<Longrightarrow> bmp_channel ?D (S + 24) = Some (ucast (drop_bit 24 ?x))" using ch [folded S_def, of 3] by (simp add: le32_def numeral_3_eq_3)
  note start' = start [folded S_def]
  show ?thesis
  proof (cases "k = 4")
    case True
    have "(push_bit 24 (ucast (ucast (drop_bit 24 ?x) :: u8)) OR push_bit 16 (ucast (ucast (drop_bit 16 ?x) :: u8)) OR push_bit 8 (ucast (ucast (drop_bit 8 ?x) :: u8)) OR
        ucast (ucast ?x :: u8) :: u32) = ?x" using le32_join [of ?x] by (simp only: or.commute or.left_commute or.assoc)
    moreover have "dib_bpp d = 32" using True d(1) by simp
    ultimately show ?thesis using c c4 [OF True] unfolding bmpGetPixel_def Let_def start' shown_pixel_def by simp
  next
    case False
    then have "dib_bpp d = 24" using d(1,2) by simp
    then show ?thesis using c le24_join [of ?x] unfolding bmpGetPixel_def Let_def start' shown_pixel_def by simp
  qed
qed

lemma concat_nth_rows:
  assumes "\<forall>r \<in> set rows. length r = w" "i < length rows" "j < w"
  shows "concat rows ! (w * i + j) = rows ! i ! j" "w * i + j < length (concat rows)"
  using assms
proof (induction rows arbitrary: i)
  case (Cons r rows)
  {
    case 1
    then show ?case using Cons.IH(1) [of "i - 1"] by (cases i) (simp_all add: nth_append)
  next
    case 2
    then show ?case using Cons.IH(2) [of "i - 1"] by (cases i) simp_all
  }
qed simp_all

lemma length_concat_rows: "\<forall>r \<in> set rows. length r = w \<Longrightarrow> length (concat rows) = w * length rows"
  by (induction rows) auto

lemma overwrite_append: "c + length xs + length ys \<le> length b \<Longrightarrow> overwrite (overwrite b c xs) (c + length xs) ys = overwrite b c (xs @ ys)"
  by (cases xs) (auto simp: overwrite_def min_def ac_simps)

lemma bmp_rows_ok:
  assumes d: "dib_bpp d = of_nat (8 * k)" "k = 3 \<or> k = 4" "unat (bmpWidth d) = w" and rows: "\<forall>r \<in> set rows. length r = w" and l: "k * length (concat rows) < 2 ^ 60"
    and i: "i \<le> length rows" "c + w * i \<le> length b"
  shows "bmp_rows d (pixel_bytes k (concat rows)) w i (b, c) = Some (overwrite b c (concat (rev (take i (map (map (shown_pixel (dib_bpp d))) rows)))), c + w * i)"
  using i
proof (induction i arbitrary: b c)
  case (Suc i)
  let ?v = "map (shown_pixel (dib_bpp d)) (rows ! i)" and ?vs = "concat (rev (take i (map (map (shown_pixel (dib_bpp d))) rows)))"
  have lr: "length ?v = w" using rows Suc.prems(1) by simp
  have "bmpGetPixel d (pixel_bytes k (concat rows)) (of_nat i) (of_nat j) = Some (?v ! j)" if "j < w" for j
    using bmpGetPixel_ok [OF d, of i j "concat rows"] concat_nth_rows [OF rows, of i j] Suc.prems(1) that l lr by simp
  then have inner: "for_loop 0 w (\<lambda>j (b, c). do { x \<leftarrow> bmpGetPixel d (pixel_bytes k (concat rows)) (of_nat i) (of_nat j); b \<leftarrow> wr b c x; Some (b, c + 1) }) (b, c) =
      Some (overwrite b c ?v, c + w)"
    using fill_loop [of ?v "\<lambda>j c. bmpGetPixel d (pixel_bytes k (concat rows)) (of_nat i) (of_nat j)" c 1 "\<lambda>j c. c" c b] lr Suc.prems(2) by simp
  have "\<forall>r \<in> set (take i (map (map (shown_pixel (dib_bpp d))) rows)). length r = w" using rows by (auto simp: take_map dest: in_set_takeD)
  then have len: "length ?vs = w * i"
    using length_concat_rows [of "rev (take i (map (map (shown_pixel (dib_bpp d))) rows))" w] Suc.prems(1) by simp
  have "bmp_rows d (pixel_bytes k (concat rows)) w i (overwrite b c ?v, c + w) = Some (overwrite (overwrite b c ?v) (c + w) ?vs, c + w + w * i)"
    using Suc.prems lr by (intro Suc.IH) simp_all
  moreover have "overwrite (overwrite b c ?v) (c + w) ?vs = overwrite b c (?v @ ?vs)"
    using overwrite_append [of c ?v ?vs b] lr len Suc.prems(2) by simp
  moreover have "concat (rev (take (Suc i) (map (map (shown_pixel (dib_bpp d))) rows))) = ?v @ ?vs"
    using Suc.prems(1) by (simp add: take_Suc_snoc)
  ultimately show ?case using inner by (simp add: add.assoc)
qed simp

lemma bmp_loadImage_ok:
  assumes f: "names_file m (kernel_ops m dw devs) st xs p path c"
    and c: "c = bmp_head fs r0 r1 off (dib_bytes (of_nat w) (of_nat h) (of_nat (8 * k)) cm (of_nat (k * w * h)) hr vr) @ rest"
      "unat off \<le> length c" "drop (unat off) c = pixel_bytes k (concat rows) @ end_bytes"
    and ok: "cm = 0 \<or> cm = 3" "k = 3 \<or> k = 4" "0 < w" "0 < h" "length rows = h" "\<forall>r \<in> set rows. length r = w"
    and new: "\<forall>n. length (new8 n) = n" "\<forall>n. length (new32 n) = n"
  shows "\<exists>st' q. bmp_loadImage (kernel_ops m dw devs) m (Some (p, junk)) new8 new32 hd0 path (im, st) =
      Some (ERR_NOERR, im\<lparr>imgFd := int (length xs), img_buff := Some (concat (rev (map (map (shown_pixel (of_nat (8 * k)))) rows))),
        img_width := int w, img_height := int h, img_bpp := int (8 * k)\<rparr>, st') \<and>
    stands_at (xs @ [p]) (length xs) st' c q"
proof -
  let ?E = "kernel_ops m dw devs" and ?i = "length xs" and ?xs = "xs @ [p]" and ?sz = "of_nat (k * w * h) :: u32" and ?b = "of_nat (8 * k) :: u16"
  let ?hd = "bmp_head fs r0 r1 off (dib_bytes (of_nat w) (of_nat h) ?b cm ?sz hr vr)"
  have lc: "length c < 2 ^ 31" using f by (simp add: names_file_def)
  have lrows: "length (concat rows) = w * h" using length_concat_rows [OF ok(6)] ok(5) by simp
  have lp: "length (pixel_bytes k (concat rows)) = k * w * h" using length_pixel_bytes [of k] lrows ok(2) by auto
  have fit: "unat off + k * w * h \<le> length c" using arg_cong [OF c(3), of length] c(2) lp by simp
  have "w \<le> k * w * h" "h \<le> k * w * h" "w * h \<le> k * w * h" using ok(2-4) by auto
  then have small: "w < 2 ^ 31" "h < 2 ^ 31" "w * h < 2 ^ 31" "k * w * h < 2 ^ 31" using fit lc by linarith+
  have usz: "unat ?sz = k * w * h" using small(4) by (simp add: unsigned_of_nat take_bit_nat_eq_self del: of_nat_mult)
  have sw: "sint (of_nat n :: u32) = int n" if "n < 2 ^ 31" for n
    using that by (simp add: signed_of_nat signed_take_bit_int_eq_self)
  obtain st1 where st1: "syscall_open ?E m (Some (p, junk)) (Some path) 0 st = Some (int ?i, st1)" "stands_at ?xs ?i st1 c 0"
    using open_names_file [OF f] by blast
  have lh: "length ?hd = 54" by (simp add: bmp_head_def dib_bytes_def)
  obtain zs st2 q where st2: "read_into ?E (int ?i) (of_nat headerInfoLen) (new8 headerInfoLen) st1 = Some (?hd @ zs, st2)" "stands_at ?xs ?i st2 c q"
    using sysfile.read_start [OF st1(2) [unfolded c(1)], of "of_nat headerInfoLen" "new8 headerInfoLen" m dw devs] new(1) lh
    unfolding c(1) [symmetric] by (auto simp: headerInfoLen_def)
  have bf: "before (DataStream_unbounded (Some (?hd @ zs))) (?hd @ [])" using lh by (simp add: before_def DataStream_unbounded_def)
  have bb: "?b = 32 \<or> ?b = 24" using ok(2) by auto
  have "8 * ?sz = ucast ?b * of_nat h * of_nat w" using ok(2) by auto
  then obtain fh d where d: "loadBmpHeaders (DataStream_unbounded (Some (?hd @ zs))) hd0 = Some (ERR_NOERR, fh, d)" "bmpOffset fh = off"
      "bmpWidth d = of_nat w" "bmpHeight d = of_nat h" "dib_bpp d = ?b" "imageSize d = ?sz"
    using loadBmpHeaders_ok [OF bf ok(1) bb, of "fst hd0" "snd hd0"] unfolding prod.collapse by blast
  have up: "unat (ucast v :: u64) = unat v" for v :: u32 using unat_bound [of v] by (simp add: unsigned_ucast_eq take_bit_nat_eq_self)
  have "unat (ucast off :: u64) = unat off" "unat (ucast ?sz :: u64) = length (new8 (k * w * h))"
    using usz new(1) by (simp_all only: up)
  then obtain st3 st4 r where st4: "seek_to (int ?i) (ucast off) st2 = Some st3"
      "read_into ?E (int ?i) (ucast ?sz) (new8 (k * w * h)) st3 = Some (pixel_bytes k (concat rows), st4)" "stands_at ?xs ?i st4 c r"
    using sysfile.seek_then_read [OF st2(2), of "ucast ?sz" "new8 (k * w * h)" "ucast off" m dw devs] new(1) fit lc c(3) lp by auto
  have rows: "bmp_rows d (pixel_bytes k (concat rows)) w h (new32 (w * h), 0) = Some (concat (rev (map (map (shown_pixel ?b)) rows)), w * h)"
    using bmp_rows_ok [OF d(5) ok(2) _ ok(6), where i = h and c = 0 and b = "new32 (w * h)"] d(3,5) small lrows ok(2,5) new(2)
      length_concat_rows [of "map (map (shown_pixel ?b)) rows" w] ok(6)
    by (auto simp: unsigned_of_nat take_bit_nat_eq_self overwrite_def)
  have ci: "c_int (int w * int h) = Some (int w * int h)" using small(3) by (intro c_int_in) (simp_all flip: of_nat_mult of_nat_less_iff)
  have nn: "nat (int w * int h) = w * h" by (simp add: nat_mult_distrib)
  have ub: "int (unat ?b) = int (8 * k)" using ok(2) by auto
  show ?thesis
    using st1(1) st2(1) d st4 rows ci nn ub usz sw [OF small(1)] sw [OF small(2)]
    by (auto simp: bmp_loadImage_def getData_def setOffset_def DataStream_unbounded_def ERR_NOERR_def delete_at_def simp del: of_nat_mult)
qed

section \<open>The choice of the reader\<close>

lemma last_dot_ext:
  assumes "cstring path 0 = Some (base @ [46, x, y, z])" "46 \<notin> {x, y, z}"
  shows "strlen path 0 = Some (length base + 4)" "last_dot path (length base + 4) = Some (Some (length base))" "strlen path (length base) = Some 4"
    "rd path (length base) = Some 46" "rd path (Suc (length base)) = Some x" "rd path (Suc (Suc (length base))) = Some y"
    "rd path (Suc (Suc (Suc (length base)))) = Some z"
proof -
  obtain rest where r: "drop 0 path = (base @ [46, x, y, z]) @ 0 # rest" using cstring_decomp [OF assms(1)] by blast
  then have p: "path = base @ [46, x, y, z, 0] @ rest" by simp
  show "strlen path 0 = Some (length base + 4)" using assms(1) by (simp add: strlen_eq)
  show "strlen path (length base) = Some 4" using cstring_suffix [OF assms(1)] by (simp add: strlen_eq)
  show r: "rd path (length base) = Some 46" "rd path (Suc (length base)) = Some x" "rd path (Suc (Suc (length base))) = Some y"
      "rd path (Suc (Suc (Suc (length base)))) = Some z" unfolding p by (simp_all add: rd_def nth_append)
  show "last_dot path (length base + 4) = Some (Some (length base))" using r assms(2) by (simp add: numeral_eq_Suc)
qed

lemma driver_ppm:
  assumes "cstring path 0 = Some (base @ bytes ''.ppm'')"
  shows "imageReaderDriver E m slot new8 new32 str hd0 (Some path) st =
    map_option (\<lambda>(im, st). (Some im, st)) (PpmReader E m slot new8 new32 str path st)"
proof -
  note d = last_dot_ext [of path base 112 112 109, OF assms [simplified], simplified]
  have "strncmp path (length base) (bytes ''.ppm'' @ [0]) 0 4 = Some 0"
    using d(4-7) by (simp add: numeral_eq_Suc)
  then show ?thesis using d by (simp add: imageReaderDriver_def map_option_bind split: Option.bind_split)
qed

lemma driver_bmp:
  assumes "cstring path 0 = Some (base @ bytes ''.bmp'')"
  shows "imageReaderDriver E m slot new8 new32 str hd0 (Some path) st =
    map_option (\<lambda>(im, st). (Some im, st)) (BmpReader E m slot new8 new32 hd0 path st)"
proof -
  have four: "(4 :: nat) = Suc (Suc (Suc (Suc 0)))" by simp
  note d = last_dot_ext [of path base 98 109 112, OF assms [simplified], simplified]
  have "strncmp path (length base) (bytes ''.bmp'' @ [0]) 0 4 = Some 0" "\<exists>r. r \<noteq> 0 \<and> strncmp path (length base) (bytes ''.ppm'' @ [0]) 0 4 = Some r"
    unfolding four using d(4-7) by (simp_all add: rd_def)
  then show ?thesis using d by (auto simp: imageReaderDriver_def map_option_bind split: Option.bind_split)
qed

subsection \<open>Two files to read\<close>

definition image_node :: "string \<Rightarrow> u8 list \<Rightarrow> vnode" where
  "image_node name c = (let nd = demo_node VREG 2 name TMPFS_OPS [] in
     nd\<lparr>fs_data := Some (c @ replicate (4096 - length c) 0), v_stat := (v_stat nd)\<lparr>st_size := of_nat (length c)\<rparr>\<rparr>)"

definition image_vfs :: "u8 list \<Rightarrow> u8 list \<Rightarrow> vfs" where
  "image_vfs a b = demo_vfs\<lparr>nodes := [1 \<mapsto> demo_node VDIR 0 '''' 0 [2], 2 \<mapsto> demo_node VDIR 1 ''tmp'' TMPFS_OPS [3, 4],
     3 \<mapsto> image_node ''a.ppm'' a, 4 \<mapsto> image_node ''b.bmp'' b]\<rparr>"

definition image_proc :: "u8 list \<Rightarrow> u8 list \<Rightarrow> pfiles" where
  "image_proc a b = demo_proc\<lparr>pvfs := image_vfs a b\<rparr>"

definition image_headers :: "bmp_file_header \<times> dib_header" where
  "image_headers = (\<lparr>headerID = 7, fileSize = 7, reserved0 = 7, resorved1 = 7, bmpOffset = 7\<rparr>,
     \<lparr>dibHeaderLen = 7, bmpWidth = 7, bmpHeight = 7, nColorPlanes = 7, dib_bpp = 7, compressionMethod = 7, imageSize = 7, hResolution = 7, vResolution = 7,
      nColorPalette = 7, nImportantColors = 7\<rparr>)"

lemma image_facts:
  "name_of (image_vfs a b) 1 = Some []" "name_of (image_vfs a b) 2 = Some (bytes ''tmp'')" "name_of (image_vfs a b) 3 = Some (bytes ''a.ppm'')"
  "name_of (image_vfs a b) 4 = Some (bytes ''b.bmp'')" "is_dir (image_vfs a b) 1" "is_dir (image_vfs a b) 2" "\<not> is_dir (image_vfs a b) 3" "\<not> is_dir (image_vfs a b) 4"
  "kids (image_vfs a b) 1 = [2]" "kids (image_vfs a b) 2 = [3, 4]"
  by (simp_all add: name_of_def is_dir_def kids_def image_vfs_def image_node_def demo_node_def cstring_def S_ISDIR_def S_IFMT_def S_IFDIR_def S_IFREG_def)

lemma image_wf: "vfs_wf (image_vfs a b)"
proof -
  let ?v = "image_vfs a b"
  have "node_ok ?v x nd" if "nodes ?v x = Some nd" for x nd
  proof -
    have x: "x = 1 \<or> x = 2 \<or> x = 3 \<or> x = 4" using that by (auto simp: image_vfs_def split: if_splits)
    have v: "vec_rep (v_children (demo_node ty p nm f cs)) cs" if "length cs \<le> 8" for ty p nm f cs
      using that by (simp add: vec_rep_def demo_node_def)
    have "max_elements (v_children nd) = 8" using that by (auto simp: image_vfs_def image_node_def demo_node_def split: if_splits)
    moreover have "nodes ?v 2 \<noteq> None" "nodes ?v 3 \<noteq> None" "nodes ?v 4 \<noteq> None" by (simp_all add: image_vfs_def)
    moreover have "is_dir ?v x \<Longrightarrow> vec_rep (v_children nd) (kids ?v x)"
      using x that image_facts(7-10) [of a b] v [of "[2]"] v [of "[3, 4]"] by (auto simp: image_vfs_def)
    ultimately show ?thesis using x image_facts [of a b] unfolding node_ok_def VNODE_NAME_MAX_def by auto
  qed
  then show ?thesis using image_facts(5) [of a b] by (simp add: vfs_wf_def) (simp add: image_vfs_def demo_vfs_def)
qed

lemma image_names:
  assumes "length a \<le> 4096" "length b \<le> 4096"
  shows "names_file demo_mem (kernel_ops demo_mem dw devs) (image_proc a b) [] 5 (bytes ''/tmp/a.ppm'' @ [0]) a"
    and "names_file demo_mem (kernel_ops demo_mem dw devs) (image_proc a b) [] 5 (bytes ''/tmp/b.bmp'' @ [0]) b"
proof -
  let ?v = "image_vfs a b" and ?E = "kernel_ops demo_mem dw devs"
  have t: "table_ok (image_proc a b) []" "vfs_lock ?v = 0" "v_root ?v = 1" "pvfs (image_proc a b) = ?v"
    by (simp_all add: table_ok_def image_proc_def demo_proc_def vec_rep_def image_vfs_def demo_vfs_def)
  have m: "realloc_ok (re_words demo_mem)" "\<forall>mem n. re_words demo_mem (Some mem) n \<noteq> None"
    using demo_mem_ok(1) by (simp_all add: mem_ok_def)
  have n: "nodes ?v 1 \<noteq> None" "nodes ?v 3 = Some (image_node ''a.ppm'' a)" "nodes ?v 4 = Some (image_node ''b.bmp'' b)" by (simp_all add: image_vfs_def)
  have tk: "tokens {47} (bytes ''/tmp/a.ppm'') = [bytes ''tmp'', bytes ''a.ppm'']" "tokens {47} (bytes ''/tmp/b.bmp'') = [bytes ''tmp'', bytes ''b.bmp'']"
    by (simp_all add: tokens.simps)
  have r: "resolve ?E ?v 1 (bytes ''/tmp/a.ppm'') = Some (Inr 3)" "resolve ?E ?v 1 (bytes ''/tmp/b.bmp'') = Some (Inr 4)"
    unfolding resolve_def tk using image_facts [of a b] n t(3) by (simp_all add: Vfs.child_def)
  have nd: "v_type (image_node nm c) = VREG" "st_mode (v_stat (image_node nm c)) = S_IFREG" "v_ops (image_node nm c) = TMPFS_OPS" for nm c
    by (simp_all add: image_node_def demo_node_def)
  have ok: "file_ok (image_node nm c)" "file_content (image_node nm c) = c" if "length c \<le> 4096" for nm c
    using that by (simp_all add: image_node_def demo_node_def file_ok_def data_of_def file_content_def unat_of_nat_small)
  have c: "cstring (bytes s @ [0]) 0 = Some (bytes s)" if "0 \<notin> set (bytes s :: u8 list)" for s using that by (intro cstring_I [where rest = "[]"]) simp_all
  show "names_file demo_mem ?E (image_proc a b) [] 5 (bytes ''/tmp/a.ppm'' @ [0]) a"
    using t m n r nd ok [OF assms(1)] assms image_wf [of a b] c [of "''/tmp/a.ppm''"] by (simp add: names_file_def open_base_def)
  show "names_file demo_mem ?E (image_proc a b) [] 5 (bytes ''/tmp/b.bmp'' @ [0]) b"
    using t m n r nd ok [OF assms(2)] assms image_wf [of a b] c [of "''/tmp/b.bmp''"] by (simp add: names_file_def open_base_def)
qed

section \<open>Properties\<close>

text \<open>
  C17: PPM files are decoded, and the load is then undefined. When a path ending in \<open>.ppm\<close> names a
  file that holds a binary PPM image, its header in the first hundred bytes and in any white space,
  the reader opens it, reads it through the system calls and fills an image of that size with
  exactly the pixels of the file, opaque and in their order, with the descriptor still open on the
  unchanged file. By then \<open>ppm\<close> has been advanced over the header and all pixels, so that the \<open>delete\<close>
  of \<open>ImageReader.cpp:119\<close> is applied to an address that \<open>new\<close> did not return: \<open>imageReaderDriver\<close>
  has undefined behaviour for every such file.
\<close>

theorem ppm_decoded_then_undefined:
  assumes f: "names_file m (kernel_ops m dw devs) st xs p path (ppm_head ws c w h mx @ rgb_bytes px @ rest)"
    and e: "cstring path 0 = Some (base @ bytes ''.ppm'')"
    and ws: "\<forall>x \<in> set ws. isWhitespace x" "isWhitespace c" and n: "w < 10 ^ 9" "h < 10 ^ 9" "mx < 10 ^ 9" "0 < h" "length px = w * h"
    and l: "length (ppm_head ws c w h mx) \<le> 100" and new: "\<forall>n. length (new8 n) = n" "\<forall>n. length (new32 n) = n" "length str = 10"
  shows "(\<exists>st' q. ppm_decode (kernel_ops m dw devs) m (Some (p, junk)) new8 new32 str path (ImageReader\<lparr>img_bpp := 32\<rparr>, st) =
      Some (ERR_NOERR, Some (length (ppm_head ws c w h mx) + 3 * (w * h)),
        \<lparr>imgFd = int (length xs), img_width = int w, img_height = int h, img_bpp = 32, img_buff = Some (map rgb px)\<rparr>, st') \<and>
      stands_at (xs @ [p]) (length xs) st' (ppm_head ws c w h mx @ rgb_bytes px @ rest) q) \<and>
    imageReaderDriver (kernel_ops m dw devs) m (Some (p, junk)) new8 new32 str hd0 (Some path) st = None"
proof -
  obtain st' q where d: "ppm_decode (kernel_ops m dw devs) m (Some (p, junk)) new8 new32 str path (ImageReader\<lparr>img_bpp := 32\<rparr>, st) =
      Some (ERR_NOERR, Some (length (ppm_head ws c w h mx) + 3 * (w * h)),
        ImageReader\<lparr>img_bpp := 32, imgFd := int (length xs), img_width := int w, img_height := int h, img_buff := Some (map rgb px)\<rparr>, st')"
      "stands_at (xs @ [p]) (length xs) st' (ppm_head ws c w h mx @ rgb_bytes px @ rest) q"
    using ppm_decode_ok [OF f ws n l new, of junk "ImageReader\<lparr>img_bpp := 32\<rparr>"] by blast
  have "length (ppm_head ws c w h mx) + 3 * (w * h) \<noteq> 0" by (simp add: ppm_head_def)
  then have "delete_at (length (ppm_head ws c w h mx) + 3 * (w * h)) = None" unfolding delete_at_def by (rule if_not_P)
  then have "imageReaderDriver (kernel_ops m dw devs) m (Some (p, junk)) new8 new32 str hd0 (Some path) st = None"
    unfolding driver_ppm [OF e] PpmReader_def ppm_loadImage_def d(1) by simp
  then show ?thesis using d by (auto simp: ImageReader_def)
qed

theorem ppm_decoded_then_undefined_witness:
  "(\<exists>st' n. ppm_decode (kernel_ops demo_mem (\<lambda>_ _ _ _ _. None) (\<lambda>_. None)) demo_mem
      (Some (5, \<lparr>fd_lock = 7, fd_vnode = 7, fd_refs = 7, fd_offset = 7, fd_flags = 7, fd_mode = 7\<rparr>)) (\<lambda>n. replicate n 7) (\<lambda>n. replicate n 7) (replicate 10 7)
      (bytes ''/tmp/a.ppm'' @ [0])
      (ImageReader\<lparr>img_bpp := 32\<rparr>, image_proc (ppm_head [10] 10 1 2 255 @ rgb_bytes [(1, 2, 3), (4, 5, 6)] @ []) []) =
      Some (ERR_NOERR, Some n, \<lparr>imgFd = 0, img_width = 1, img_height = 2, img_bpp = 32, img_buff = Some [0xff010203, 0xff040506]\<rparr>, st')) \<and>
    imageReaderDriver (kernel_ops demo_mem (\<lambda>_ _ _ _ _. None) (\<lambda>_. None)) demo_mem
      (Some (5, \<lparr>fd_lock = 7, fd_vnode = 7, fd_refs = 7, fd_offset = 7, fd_flags = 7, fd_mode = 7\<rparr>)) (\<lambda>n. replicate n 7) (\<lambda>n. replicate n 7) (replicate 10 7)
      image_headers (Some (bytes ''/tmp/a.ppm'' @ [0])) (image_proc (ppm_head [10] 10 1 2 255 @ rgb_bytes [(1, 2, 3), (4, 5, 6)] @ []) []) = None"
proof -
  let ?c = "ppm_head [10] 10 1 2 255 @ rgb_bytes [(1, 2, 3), (4, 5, 6)] @ []"
  have l: "length (ppm_head [10] 10 1 2 255) \<le> 100" by (simp add: ppm_head_def udigits_def lsd.simps)
  then have f: "length ?c \<le> 4096" by (simp add: rgb_bytes_def)
  have e: "cstring (bytes ''/tmp/a.ppm'' @ [0]) 0 = Some (bytes ''/tmp/a'' @ bytes ''.ppm'')" by (simp add: cstring_def)
  have px: "map rgb [(1, 2, 3), (4, 5, 6)] = [0xff010203, 0xff040506]" by (simp add: rgb_def)
  have ws: "\<forall>x\<in>set [10]. isWhitespace x" "isWhitespace 10" "(1::nat) < 10 ^ 9" "(2::nat) < 10 ^ 9" "(255::nat) < 10 ^ 9" "(0::nat) < 2"
      "length [(1, 2, 3), (4, 5, 6 :: u8)] = 1 * (2::nat)"
    by (simp_all add: isWhitespace_def)
  have new: "\<forall>n. length (replicate n (7::u8)) = n" "\<forall>n. length (replicate n (7::u32)) = n" "length (replicate 10 (7::u8)) = 10" by simp_all
  let ?j = "\<lparr>fd_lock = 7, fd_vnode = 7, fd_refs = 7, fd_offset = 7, fd_flags = 7, fd_mode = 7\<rparr> :: fd"
  note t = ppm_decoded_then_undefined [OF image_names(1) [OF f, of "[]" "\<lambda>_ _ _ _ _. None" "\<lambda>_. None"] e ws l new,
      where junk = ?j and ?hd0.0 = image_headers]
  show ?thesis by (rule conjI) (use t px in auto)
qed

text \<open>
  C18: BMP files are read back. When a path ending in \<open>.bmp\<close> names a file with a valid header of the
  supported kind (24 or 32 bits per pixel) and the rows of pixels at the offset it gives,
  \<open>imageReaderDriver\<close> returns an image of that size whose buffer holds the rows of the file, the last
  one first; pixels of 24 bits are fully transparent.
\<close>

theorem bmp_file_loads:
  assumes f: "names_file m (kernel_ops m dw devs) st xs p path c" and e: "cstring path 0 = Some (base @ bytes ''.bmp'')"
    and c: "c = bmp_head fs r0 r1 off (dib_bytes (of_nat w) (of_nat h) (of_nat (8 * k)) cm (of_nat (k * w * h)) hr vr) @ rest"
      "unat off \<le> length c" "drop (unat off) c = pixel_bytes k (concat rows) @ end_bytes"
    and ok: "cm = 0 \<or> cm = 3" "k = 3 \<or> k = 4" "0 < w" "0 < h" "length rows = h" "\<forall>r \<in> set rows. length r = w"
    and new: "\<forall>n. length (new8 n) = n" "\<forall>n. length (new32 n) = n"
  shows "\<exists>st' q. imageReaderDriver (kernel_ops m dw devs) m (Some (p, junk)) new8 new32 str hd0 (Some path) st =
      Some (Some \<lparr>imgFd = int (length xs), img_width = int w, img_height = int h, img_bpp = int (8 * k),
        img_buff = Some (concat (rev (map (map (\<lambda>x. if k = 3 then x AND 0xffffff else x)) rows)))\<rparr>, st') \<and>
    stands_at (xs @ [p]) (length xs) st' c q"
proof -
  have "shown_pixel (of_nat (8 * k)) = (\<lambda>x. if k = 3 then x AND 0xffffff else x)" using ok(2) by (auto simp: shown_pixel_def)
  then show ?thesis using bmp_loadImage_ok [OF f c ok new, of junk hd0 "ImageReader\<lparr>img_bpp := 32\<rparr>"] driver_bmp [OF e]
    by (auto simp: BmpReader_def ImageReader_def)
qed

theorem bmp_file_loads_witness:
  "\<exists>st' q. imageReaderDriver (kernel_ops demo_mem (\<lambda>_ _ _ _ _. None) (\<lambda>_. None)) demo_mem
      (Some (5, \<lparr>fd_lock = 7, fd_vnode = 7, fd_refs = 7, fd_offset = 7, fd_flags = 7, fd_mode = 7\<rparr>)) (\<lambda>n. replicate n 7) (\<lambda>n. replicate n 7) (replicate 10 7)
      image_headers (Some (bytes ''/tmp/b.bmp'' @ [0]))
      (image_proc [] (bmp_head 0 0 0 54 (dib_bytes 1 2 32 3 8 0 0) @ le32 0xff010203 @ le32 0x80040506)) =
      Some (Some \<lparr>imgFd = 0, img_width = 1, img_height = 2, img_bpp = 32, img_buff = Some [0x80040506, 0xff010203]\<rparr>, st') \<and>
    stands_at [5] 0 st' (bmp_head 0 0 0 54 (dib_bytes 1 2 32 3 8 0 0) @ le32 0xff010203 @ le32 0x80040506) q"
proof -
  let ?r = "[[0xff010203], [0x80040506]] :: u32 list list" let ?px = "le32 0xff010203 @ le32 0x80040506"
  let ?h = "bmp_head 0 0 0 54 (dib_bytes 1 2 32 3 8 0 0)"
  have lh: "length ?h = 54" by (simp add: bmp_head_def dib_bytes_def)
  then have f: "length (?h @ ?px) \<le> 4096" by simp
  have e: "cstring (bytes ''/tmp/b.bmp'' @ [0]) 0 = Some (bytes ''/tmp/b'' @ bytes ''.bmp'')" by (simp add: cstring_def)
  have d: "drop (unat (54 :: u32)) (?h @ ?px) = pixel_bytes 4 (concat ?r) @ []" using lh by (simp add: pixel_bytes_def le32_def)
  have b: "?h @ ?px = bmp_head 0 0 0 54 (dib_bytes (of_nat 1) (of_nat 2) (of_nat (8 * 4)) 3 (of_nat (4 * 1 * 2)) 0 0) @ ?px" by simp
  show ?thesis
    using bmp_file_loads [OF image_names(2) [OF _ f, of "[]"] e b _ d, of "\<lambda>n. replicate n 7" "\<lambda>n. replicate n 7"] lh by simp
qed

end
