(* ===== verification/Spec2Isabelle.thy ===== *)
theory Spec2Isabelle
  imports Prelude Flibc_String Ringbuffer Pmm Descriptors Vector DList Sched_Steps Vmm Acpi Ioapic Ps2 Rect Threads Filesystems Syscalls Sockets Slab_Heap User_Heap Print Terminal_Text Compositor Image_Reader
begin

text \<open>
  Tellurium is an x86-64 operating system: a kernel in C (\<open>src/kernel\<close>), a freestanding C library
  (\<open>src/flibc\<close>), a terminal module (\<open>src/modules\<close>) and a window system in C++ (\<open>src/libGUI\<close>,
  \<open>src/libTellur\<close>). This library models the logic of these parts, one theory per component, as
  executable HOL functions on explicit states, and proves what each component promises its callers.

  \<^bold>\<open>How the parts fit together.\<close> At boot the kernel takes over the memory map of the boot loader
  (physical memory manager), builds page tables (virtual memory manager), the slab heap, the
  descriptor tables, reads the ACPI tables, routes interrupts (I/O APIC, local APIC) and starts the
  scheduler on every core. Threads wait for and signal events; the keyboard and mouse handlers queue
  packets that device files deliver; files live in tmpfs and devfs below the virtual file system and
  are reached through descriptors and system calls; unix sockets join two ring buffers with events
  and the file system. User programs have a heap of their own over \<open>mmap\<close>. Terminals interpret printed
  text as a grid of cells and draw it; the window system keeps a tree of windows, and its compositor
  redraws the parts of the screen that changed.

  \<^bold>\<open>Theories and sources.\<close>
  \<^item> \<open>Prelude\<close>: machine integers, checked accesses, counted loops with their rule, loops over
    addresses that may wrap. \<open>Memory\<close>: byte-addressed memory and its frame lemmas.
  \<^item> \<open>Flibc_String\<close> (\<open>flibc/string.c\<close>, \<open>stdlib.c\<close>, \<open>ctype.c\<close>): strings on byte arrays; tokens, digits,
    and the round trip of printing and reading a number.
  \<^item> \<open>Spinlock\<close> (\<open>arch/lock.h\<close>): the lock as a value, and mutual exclusion of cores that interleave their
    calls of \<open>spinlock_acquire\<close> and \<open>spinlock_release\<close>.
  \<^item> \<open>Fifo\<close>, \<open>Frame_Allocator\<close>, \<open>Chain\<close>: the interfaces that several components share, as locales:
    queues (ring buffer, packet queues, ready queue), allocators of page frames, and linked chains
    (list, ready queue). Each is interpreted on the model of the component that provides it.
  \<^item> \<open>Ringbuffer\<close>, \<open>Vector\<close>, \<open>DList\<close> (\<open>klib\<close>): the containers, as queues, lists and deques.
  \<^item> \<open>Pmm\<close> (\<open>memory/pmm.c\<close>): next fit over the bitmap from the cached index (a run
    that contains the last frame is never taken), live blocks never overlap, initialisation.
  \<^item> \<open>Vmm\<close> (\<open>memory/vmm.c\<close>): page tables as a tree in memory; what mapping does to translation.
  \<^item> \<open>Slab\<close>, \<open>Slab_Heap\<close> (\<open>memory/slab.c\<close>, \<open>klib/kmalloc.c\<close>): the heap on the bytes of its pages; any
    history of allocations and client writes refines separate blocks; what freeing does to the lists.
  \<^item> \<open>Descriptors\<close> (\<open>arch/gdt.c\<close>, \<open>idt.c\<close>), \<open>Acpi\<close> (\<open>acpi/acpi.c\<close>), \<open>Ioapic\<close> (\<open>devices/ioapic.c\<close>): tables
    that hardware reads, and tables that firmware wrote.
  \<^item> \<open>Sched\<close>, \<open>Sched_Steps\<close> (\<open>arch/scheduler.c\<close>, \<open>devices/lapic.c\<close>, parts of \<open>arch/thread.c\<close>): the ready
    queue and the handlers of one core; the interleaving of the cores as a step relation with its
    invariant, the round robin, and a race of join and terminate. A step holds at most one critical
    section of the ready queue: handlers and terminations are several steps, and each core has a
    phase that says where in them it is. The steps include joins and terminations, with the one
    assumption that the threads a termination wakes have been switched out; the race shows that the
    code does not ensure it.
  \<^item> \<open>Threads\<close> (\<open>arch/thread.c\<close>, \<open>arch/process.c\<close>, \<open>sys/event.c\<close>): creation of threads, process
    identifiers, events; which listeners a signal wakes, and where it stops.
  \<^item> \<open>Ps2\<close> (\<open>devices/ps2.c\<close>): the keyboard and mouse drivers against a model of the controller's ports;
    what keys are queued and where in the buffer a read stores them; both interrupt handlers as steps
    of the scheduler.
  \<^item> \<open>Vfs\<close>, \<open>Filesystems\<close> (\<open>fs/vfs.c\<close>, \<open>tmpfs.c\<close>, \<open>devfs.c\<close>): the tree of vnodes, path resolution against
    a reference, creating, writing and reading files.
  \<^item> \<open>Syscalls\<close> (\<open>fs/fd.c\<close>, \<open>syscalls\<close>), \<open>Sockets\<close> (\<open>sockets\<close>): descriptors, open and read; a connected
    pair of sockets as a byte stream; a failed connect.
  \<^item> \<open>Block_Heap\<close>, \<open>User_Heap\<close> (\<open>libTellur/mem.cpp\<close>): the specification of a heap of separate blocks, and
    the heap of user programs, whose calls and client writes refine it.
  \<^item> \<open>Print\<close> (\<open>flibc/print.c\<close>): formatted printing, against the text of the directives.
  \<^item> \<open>Terminal\<close>, \<open>Terminal_Grid\<close>, \<open>Terminal_Text\<close> (\<open>modules/terminal.c\<close>): the terminal; a grid of cells
    as its specification; printing text refines writing on the grid, and allocation makes it well
    formed.
  \<^item> \<open>Data_Stream\<close>, \<open>Image_Reader\<close> (\<open>libTellur/DataStream.cpp\<close>, \<open>Utility.cpp\<close>, \<open>ImageReader.cpp\<close>): decoding of
    numbers, and the readers of PPM and BMP files, which rely on a file that can be read and
    repositioned (a locale, interpreted on the system calls); what was encoded is read back. A
    PPM load ends with \<open>delete\<close> of an advanced pointer, which the model keeps: it is undefined.
  \<^item> \<open>Rect\<close> (\<open>libGUI/Rect.cpp\<close>): clipping of rectangles, against their sets of pixels. \<open>Surface\<close>
    (\<open>libGUI/Surface.cpp\<close>): copying and blending rectangles of pixels. \<open>Clip_Regions\<close>
    (\<open>libGUI/Compositor.hpp\<close>): lists of tagged rectangles as multisets of tags per pixel. \<open>Window\<close>
    (\<open>libGUI/Window.cpp\<close>): the windows as a store of records, the children of a window as a list
    ordered by priority. \<open>Compositor\<close> (\<open>libGUI/Compositor.cpp\<close>): rendering refines compositing every
    pixel on its own; for opaque dirty windows and a pointer that stays, the result is the picture of a
    painter.

  \<^bold>\<open>Conventions.\<close> A C function becomes a function on the state it reads and writes; a pointer is an
  address or a number into a store, with \<open>NULL\<close> as 0 or \<^term>\<open>None\<close>. Integers keep their width, except
  C's \<open>int\<close>, which is \<open>int\<close> with the bounds checked. The outer \<open>option\<close> is reserved for executions
  without a defined result: \<^term>\<open>None\<close> stands for undefined behaviour, a halted core or an endless
  spin. Every theorem that speaks about a call therefore also shows that the call returns. Error
  codes and null results are ordinary values. Loops are structural recursions, counted loops,
  recursions with a termination proof, or, where the code may loop for ever (the search for a free
  chunk in a cyclic list, a tree of windows that may be cyclic), \<open>partial_function\<close>; there is no fuel. What \<open>kmalloc\<close>, the boot loader and
  the devices answer is an argument of the operations that ask, except in \<open>Slab\<close> and \<open>Slab_Heap\<close>,
  which model \<open>kmalloc\<close> itself; so is the memory \<open>new\<close> returns in the C++ parts. Operations that give up the processor in the middle are cut there
  into the part before and the part after.

  \<^bold>\<open>Interleaving.\<close> The components are sequential between acquiring and releasing their lock; that the
  lock excludes the other cores is the theorem of \<open>Spinlock\<close>. The scheduler is the exception: its
  steps are interleaved explicitly.

  \<^bold>\<open>Not modelled.\<close> Assembly (\<open>arch/isr.asm\<close>) and the inline assembly of \<open>arch/cpu.h\<close> beyond the
  interrupt flag, the page table base and the loaded descriptor tables; the timers and ports that
  are single register accesses (\<open>devices/hpet.c\<close>, \<open>pit.c\<close>, \<open>msr.c\<close>, \<open>serial.c\<close>); the console and frame
  buffer glue (\<open>arch/kterminal.c\<close>, \<open>limine_fb.c\<close>, \<open>syscalls/fb_context.c\<close>); start-up code, exceptions
  and the dispatch of system calls (\<open>kernel.c\<close>, \<open>arch/cpu.c\<close>, \<open>exception.c\<close>, \<open>syscalls.c\<close>), which only
  call the parts above; the ELF loader (\<open>apps/elf.c\<close>); \<open>limine.h\<close>, the boot protocol's own header; the
  events and decorations of windows and their subclasses, device polling and system call
  wrappers of the C++ libraries; tests, fonts and images.
\<close>

end
